(* ===== verification/Lx_Prelude.thy ===== *)
theory Lx_Prelude
  imports Main "HOL-Library.Word" "HOL-Library.Multiset"
begin

unbundle bit_operations_syntax

text \<open>
  Shared vocabulary of the development.  Fixed-width C++ integers are modelled by their
  values: an unsigned value is a \<^typ>\<open>nat\<close>, a signed one an \<^typ>\<open>int\<close>, and every
  conversion or operation that can leave the range is written out with the casts below.
  Bytes of an arena or of a bytecode stream are \<^typ>\<open>8 word\<close>.
  The little-endian codec of \<open>Chunk\<close>, \<open>Disasm\<close> and \<open>Heap\<close> and its round trip are here,
  with the generic list facts that several components share.
\<close>

section \<open>Machine integers\<close>

type_synonym u8 = "8 word"

definition u8_cast :: "nat \<Rightarrow> nat" where
  "u8_cast n = n mod 2 ^ 8"

definition u16_cast :: "nat \<Rightarrow> nat" where
  "u16_cast n = n mod 2 ^ 16"

definition u32_cast :: "nat \<Rightarrow> nat" where
  "u32_cast n = n mod 2 ^ 32"

definition u64_cast :: "nat \<Rightarrow> nat" where
  "u64_cast n = n mod 2 ^ 64"

text \<open>\<open>static_cast\<close> of an \<open>int64_t\<close> to an unsigned type: reduction modulo the width.\<close>

definition i64_to_u16 :: "int \<Rightarrow> nat" where
  "i64_to_u16 v = nat (v mod 2 ^ 16)"

definition i64_to_u32 :: "int \<Rightarrow> nat" where
  "i64_to_u32 v = nat (v mod 2 ^ 32)"

definition i64_to_u64 :: "int \<Rightarrow> nat" where
  "i64_to_u64 v = nat (v mod 2 ^ 64)"

text \<open>\<open>static_cast\<close> of a \<open>uint64_t\<close> to \<open>int64_t\<close>: two's complement (C++20).\<close>

definition u64_to_i64 :: "nat \<Rightarrow> int" where
  "u64_to_i64 n = (if n < 2 ^ 63 then int n else int n - 2 ^ 64)"

definition in_i64 :: "int \<Rightarrow> bool" where
  "in_i64 v \<longleftrightarrow> - (2 ^ 63) \<le> v \<and> v < 2 ^ 63"

lemma u32_cast_less [simp]: "u32_cast n < 4294967296"
  by (simp add: u32_cast_def)

lemma u32_cast_id [simp]: "n < 4294967296 \<Longrightarrow> u32_cast n = n"
  by (simp add: u32_cast_def)

lemma u32_cast_le: "u32_cast n \<le> n"
  by (simp add: u32_cast_def)

lemma i64_to_u32_less [simp]: "i64_to_u32 v < 4294967296"
  by (simp add: i64_to_u32_def nat_less_iff)

lemma i64_to_u32_of_nat [simp]: "n < 4294967296 \<Longrightarrow> i64_to_u32 (int n) = n"
  by (simp add: i64_to_u32_def)

lemma i64_to_u64_less [simp]: "i64_to_u64 v < 18446744073709551616"
  by (simp add: i64_to_u64_def nat_less_iff)

lemma i64_to_u16_less [simp]: "i64_to_u16 v < 65536"
  by (simp add: i64_to_u16_def nat_less_iff)

lemma i64_to_u16_of_nat [simp]: "n < 65536 \<Longrightarrow> i64_to_u16 (int n) = n"
  by (simp add: i64_to_u16_def)

lemma u64_i64_roundtrip [simp]: "in_i64 v \<Longrightarrow> u64_to_i64 (i64_to_u64 v) = v"
proof (cases "0 \<le> v")
  case True
  assume "in_i64 v"
  with True have "v mod 2 ^ 64 = v"
    by (intro mod_pos_pos_trivial) (auto simp: in_i64_def)
  with True \<open>in_i64 v\<close> show ?thesis
    by (auto simp: u64_to_i64_def i64_to_u64_def in_i64_def)
next
  case False
  assume "in_i64 v"
  have "v mod 2 ^ 64 = (v + 2 ^ 64) mod 2 ^ 64"
    by simp
  also have "\<dots> = v + 2 ^ 64"
    using False \<open>in_i64 v\<close> by (intro mod_pos_pos_trivial) (auto simp: in_i64_def)
  finally show ?thesis
    using False \<open>in_i64 v\<close> by (auto simp: u64_to_i64_def i64_to_u64_def in_i64_def)
qed

lemma i64_to_u32_wrap [simp]: "i64_to_u32 (u64_to_i64 (i64_to_u64 v)) = i64_to_u32 v"
proof -
  have "(v mod 2 ^ 64) mod 2 ^ 32 = v mod (2 ^ 32 :: int)"
    by (rule mod_mod_cancel) (rule le_imp_power_dvd, simp)
  moreover have "(v mod 2 ^ 64 - 2 ^ 64) mod 2 ^ 32 = (v mod 2 ^ 64) mod (2 ^ 32 :: int)"
    by (simp add: mod_diff_right_eq [symmetric])
  moreover have "int (i64_to_u64 v) = v mod 2 ^ 64" by (simp add: i64_to_u64_def)
  ultimately show ?thesis by (simp add: i64_to_u32_def u64_to_i64_def)
qed

lemma in_i64_u64_to_i64 [simp]: "n < 18446744073709551616 \<Longrightarrow> in_i64 (u64_to_i64 n)"
  by (auto simp: in_i64_def u64_to_i64_def)

section \<open>Little-endian bytes\<close>

text \<open>\<open>(v >> (8 * k)) & 0xFF\<close> narrowed to \<open>uint8_t\<close>.\<close>

definition byte_at :: "nat \<Rightarrow> nat \<Rightarrow> u8" where
  "byte_at v k = word_of_nat (drop_bit (8 * k) v AND 255)"

definition le_bytes :: "nat \<Rightarrow> nat \<Rightarrow> u8 list" where
  "le_bytes n v = map (byte_at v) [0..<n]"

text \<open>The decoding loop \<open>value |= (uintN_t)b << (8 * k)\<close>, from the first byte on.\<close>

fun le_or :: "nat \<Rightarrow> nat \<Rightarrow> u8 list \<Rightarrow> nat" where
  "le_or k acc [] = acc"
| "le_or k acc (b # bs) = le_or (Suc k) (acc OR push_bit (8 * k) (unat b)) bs"

definition le_val :: "u8 list \<Rightarrow> nat" where
  "le_val bs = le_or 0 0 bs"

lemma length_le_bytes [simp]: "length (le_bytes n v) = n"
  by (simp add: le_bytes_def)

lemma two_power_8k: "(2::nat) ^ (8 * k) = 256 ^ k"
  by (simp add: power_mult)

lemma unat_byte_at: "unat (byte_at v k) = v div 256 ^ k mod 256"
proof -
  have "drop_bit (8 * k) v AND 255 = take_bit 8 (drop_bit (8 * k) v)"
    by (simp add: take_bit_eq_mask mask_eq_exp_minus_1)
  also have "\<dots> = v div 2 ^ (8 * k) mod 256"
    by (simp add: take_bit_eq_mod drop_bit_eq_div)
  also have "(2::nat) ^ (8 * k) = 256 ^ k"
    by (rule two_power_8k)
  finally show ?thesis
    by (simp add: byte_at_def unat_of_nat)
qed

lemma or_disjoint_add:
  fixes a b :: nat
  assumes "a < 2 ^ n"
  shows "a OR push_bit n b = a + push_bit n b"
proof -
  have "a = take_bit n a"
    using assms by (simp add: take_bit_nat_eq_self)
  then have "\<not> bit a m \<or> \<not> bit (push_bit n b) m" for m
    by (metis bit_push_bit_iff_nat bit_take_bit_iff leD)
  then show ?thesis
    by (simp add: disjunctive_add)
qed

lemma le_or_bytes:
  "acc < 256 ^ k \<Longrightarrow> le_or k acc (map (byte_at v) [k..<k + n])
     = acc + 256 ^ k * (v div 256 ^ k mod 256 ^ n)"
proof (induction n arbitrary: k acc)
  case 0
  then show ?case by simp
next
  case (Suc n)
  let ?b = "v div 256 ^ k mod 256"
  have split: "[k..<k + Suc n] = k # [Suc k..<Suc k + n]"
    by (simp add: upt_conv_Cons)
  have acc': "acc OR push_bit (8 * k) ?b = acc + 256 ^ k * ?b"
    using Suc.prems or_disjoint_add [of acc "8 * k" ?b] two_power_8k [of k]
    by (simp add: push_bit_eq_mult mult.commute)
  have bound: "acc + 256 ^ k * ?b < 256 ^ Suc k"
  proof -
    have "acc + 256 ^ k * ?b < 256 ^ k + 256 ^ k * ?b"
      using Suc.prems by simp
    also have "\<dots> = 256 ^ k * Suc ?b"
      by simp
    also have "\<dots> \<le> 256 ^ k * 256"
      by (intro mult_le_mono2) (simp add: Suc_le_eq)
    finally show ?thesis by (simp add: mult.commute)
  qed
  have digits: "v div 256 ^ k mod 256 ^ Suc n
      = ?b + 256 * (v div 256 ^ Suc k mod 256 ^ n)"
  proof -
    have "v div 256 ^ Suc k = v div 256 ^ k div 256"
      by (simp add: div_mult2_eq [symmetric] mult.commute)
    then show ?thesis by (simp add: mod_mult2_eq)
  qed
  have "le_or k acc (map (byte_at v) [k..<k + Suc n])
      = le_or (Suc k) (acc + 256 ^ k * ?b) (map (byte_at v) [Suc k..<Suc k + n])"
    by (simp only: split list.map le_or.simps unat_byte_at acc')
  also have "\<dots> = acc + 256 ^ k * ?b + 256 ^ Suc k * (v div 256 ^ Suc k mod 256 ^ n)"
    by (rule Suc.IH [OF bound])
  also have "\<dots> = acc + 256 ^ k * (v div 256 ^ k mod 256 ^ Suc n)"
    by (simp only: digits) (simp add: distrib_left)
  finally show ?case .
qed

lemma le_val_bytes [simp]: "le_val (le_bytes n v) = v mod 256 ^ n"
  using le_or_bytes [of 0 0 v n] by (simp add: le_val_def le_bytes_def)

lemma le_val_bytes4 [simp]: "v < 4294967296 \<Longrightarrow> le_val (le_bytes 4 v) = v"
  by simp

lemma le_val_bytes8 [simp]: "v < 18446744073709551616 \<Longrightarrow> le_val (le_bytes 8 v) = v"
  by simp

section \<open>Lists\<close>

lemma find_inj:
  assumes "distinct (map f xs)" and "x \<in> set xs"
  shows "List.find (\<lambda>y. f y = f x) xs = Some x"
  using assms by (induction xs) (auto simp: image_iff)

lemma find_SomeD: "List.find P xs = Some x \<Longrightarrow> x \<in> set xs \<and> P x"
  by (induction xs) (auto split: if_splits)

lemma set_butlast: "distinct xs \<Longrightarrow> xs \<noteq> [] \<Longrightarrow> set (butlast xs) = set xs - {last xs}"
  by (induction xs rule: rev_induct) auto

section \<open>Rendering numbers\<close>

text \<open>\<open>std::to_string\<close> and the \<open>std::hex\<close>/\<open>std::setw\<close>/\<open>std::setfill\<close> manipulators.\<close>

definition digit_char :: "nat \<Rightarrow> char" where
  "digit_char d = (if d < 10 then char_of (48 + d) else char_of (87 + d))"

function digits_rev :: "nat \<Rightarrow> nat \<Rightarrow> string" where
  "digits_rev b n =
     (if n < b \<or> b < 2 then [digit_char n] else digit_char (n mod b) # digits_rev b (n div b))"
  by pat_completeness auto
termination
  by (relation "measure snd") auto

declare digits_rev.simps [simp del]

definition string_of_nat :: "nat \<Rightarrow> string" where
  "string_of_nat n = rev (digits_rev 10 n)"

definition string_of_int :: "int \<Rightarrow> string" where
  "string_of_int i = (if i < 0 then CHR ''-'' # string_of_nat (nat (- i)) else string_of_nat (nat i))"

definition hex_of_nat :: "nat \<Rightarrow> string" where
  "hex_of_nat n = rev (digits_rev 16 n)"

definition pad_left :: "nat \<Rightarrow> char \<Rightarrow> string \<Rightarrow> string" where
  "pad_left w c s = replicate (w - length s) c @ s"

definition pad_right :: "nat \<Rightarrow> char \<Rightarrow> string \<Rightarrow> string" where
  "pad_right w c s = s @ replicate (w - length s) c"

end
