(* ===== verification/Lx_Bytecode.thy ===== *)
theory Lx_Bytecode
  imports Lx_Prelude
begin

text \<open>
  The bytecode container: the opcode and operand-tag enumerations (\<open>ir/OpCode.hpp\<close>,
  \<open>backend/Chunk.hpp\<close>), the serialised generic types of the type pool (\<open>ir/Type.hpp\<close>) and
  the \<open>Chunk\<close> with its interning and emission operations.  An enumeration with underlying
  type \<open>uint8_t\<close> is a datatype with a numbering; a cast of a byte to it is a partial lookup.
\<close>

section \<open>Opcodes and operand tags\<close>

datatype (plugins only: code size) opcode =
    OpNop | OpPush | OpPop | OpMov | OpPushR | OpPopR | OpAlloc | OpHFree
  | OpHStore | OpHLoad | OpShl | OpShr | OpRem | OpBitAnd | OpBitOr | OpBitXor
  | OpAdd | OpSub | OpMul | OpDiv | OpFAdd | OpFSub | OpFMul | OpFDiv
  | OpItoF | OpFtoI | OpFNeg | OpGLoad | OpGStore | OpCmp | OpJmp | OpJnz
  | OpJz | OpSkip | OpCall | OpRet | OpBr | OpJn | OpNullChk | OpCallInd
  | OpVCall | OpICall | OpTypeOf | OpTryPush | OpTryPop | OpThrow | OpIsA | OpPrint
  | OpWrite | OpSyscall | OpStrLen | OpToStr | OpHalt

primrec opcode_num :: "opcode \<Rightarrow> nat" where
  "opcode_num OpNop = 0"
| "opcode_num OpPush = 1"
| "opcode_num OpPop = 2"
| "opcode_num OpMov = 3"
| "opcode_num OpPushR = 4"
| "opcode_num OpPopR = 5"
| "opcode_num OpAlloc = 6"
| "opcode_num OpHFree = 7"
| "opcode_num OpHStore = 8"
| "opcode_num OpHLoad = 9"
| "opcode_num OpShl = 10"
| "opcode_num OpShr = 11"
| "opcode_num OpRem = 12"
| "opcode_num OpBitAnd = 13"
| "opcode_num OpBitOr = 14"
| "opcode_num OpBitXor = 15"
| "opcode_num OpAdd = 16"
| "opcode_num OpSub = 17"
| "opcode_num OpMul = 18"
| "opcode_num OpDiv = 19"
| "opcode_num OpFAdd = 20"
| "opcode_num OpFSub = 21"
| "opcode_num OpFMul = 22"
| "opcode_num OpFDiv = 23"
| "opcode_num OpItoF = 24"
| "opcode_num OpFtoI = 25"
| "opcode_num OpFNeg = 26"
| "opcode_num OpGLoad = 27"
| "opcode_num OpGStore = 28"
| "opcode_num OpCmp = 32"
| "opcode_num OpJmp = 48"
| "opcode_num OpJnz = 49"
| "opcode_num OpJz = 50"
| "opcode_num OpSkip = 51"
| "opcode_num OpCall = 52"
| "opcode_num OpRet = 53"
| "opcode_num OpBr = 54"
| "opcode_num OpJn = 55"
| "opcode_num OpNullChk = 56"
| "opcode_num OpCallInd = 57"
| "opcode_num OpVCall = 58"
| "opcode_num OpICall = 59"
| "opcode_num OpTypeOf = 60"
| "opcode_num OpTryPush = 67"
| "opcode_num OpTryPop = 68"
| "opcode_num OpThrow = 69"
| "opcode_num OpIsA = 70"
| "opcode_num OpPrint = 64"
| "opcode_num OpWrite = 63"
| "opcode_num OpSyscall = 61"
| "opcode_num OpStrLen = 65"
| "opcode_num OpToStr = 66"
| "opcode_num OpHalt = 255"

definition all_opcodes :: "opcode list" where
  "all_opcodes =
    [OpNop, OpPush, OpPop, OpMov, OpPushR, OpPopR, OpAlloc, OpHFree,
     OpHStore, OpHLoad, OpShl, OpShr, OpRem, OpBitAnd, OpBitOr, OpBitXor,
     OpAdd, OpSub, OpMul, OpDiv, OpFAdd, OpFSub, OpFMul, OpFDiv,
     OpItoF, OpFtoI, OpFNeg, OpGLoad, OpGStore, OpCmp, OpJmp, OpJnz,
     OpJz, OpSkip, OpCall, OpRet, OpBr, OpJn, OpNullChk, OpCallInd,
     OpVCall, OpICall, OpTypeOf, OpTryPush, OpTryPop, OpThrow, OpIsA, OpPrint,
     OpWrite, OpSyscall, OpStrLen, OpToStr, OpHalt]"

text \<open>\<open>static_cast<OpCode>(byte)\<close>: \<open>None\<close> is a value that names no enumerator.\<close>

definition opcode_of :: "u8 \<Rightarrow> opcode option" where
  "opcode_of b = List.find (\<lambda>op. opcode_num op = unat b) all_opcodes"

definition opcode_byte :: "opcode \<Rightarrow> u8" where
  "opcode_byte op = word_of_nat (opcode_num op)"

datatype operand_tag = TReg | TImm64 | TStrIdx | TAddr | TNull | TFloat64 | TWideReg

primrec tag_num :: "operand_tag \<Rightarrow> nat" where
  "tag_num TReg = 1"
| "tag_num TImm64 = 2"
| "tag_num TStrIdx = 3"
| "tag_num TAddr = 4"
| "tag_num TNull = 5"
| "tag_num TFloat64 = 6"
| "tag_num TWideReg = 7"

definition tag_of :: "u8 \<Rightarrow> operand_tag option" where
  "tag_of b = List.find (\<lambda>t. tag_num t = unat b)
     [TReg, TImm64, TStrIdx, TAddr, TNull, TFloat64, TWideReg]"

definition tag_byte :: "operand_tag \<Rightarrow> u8" where
  "tag_byte t = word_of_nat (tag_num t)"

lemma opcode_num_less: "opcode_num op < 256"
  by (cases op) simp_all

lemma distinct_opcodes: "distinct (map opcode_num all_opcodes)"
  unfolding all_opcodes_def by simp

lemma in_all_opcodes: "op \<in> set all_opcodes"
  unfolding all_opcodes_def by (cases op) simp_all

lemma opcode_of_byte [simp]: "opcode_of (opcode_byte op) = Some op"
proof -
  have "unat (opcode_byte op) = opcode_num op"
    using opcode_num_less [of op] by (simp add: opcode_byte_def unat_of_nat)
  then show ?thesis
    by (simp add: opcode_of_def find_inj [OF distinct_opcodes in_all_opcodes])
qed

lemma tag_of_byte [simp]: "tag_of (tag_byte t) = Some t"
  by (cases t) (simp_all add: tag_of_def tag_byte_def)

lemma opcode_of_SomeD: "opcode_of b = Some op \<Longrightarrow> b = opcode_byte op"
  by (auto simp: opcode_of_def opcode_byte_def dest!: find_SomeD)

lemma tag_of_SomeD: "tag_of b = Some t \<Longrightarrow> b = tag_byte t"
  unfolding tag_of_def tag_byte_def by (drule find_SomeD) simp

section \<open>Generic types of the type pool\<close>

text \<open>
  \<open>TypeKind\<close> and \<open>Variance\<close> have \<open>uint8_t\<close> as underlying type and \<open>deserialize\<close> casts bytes
  to them, so a value that names no enumerator is a value of the model too
  (\<open>TK_Raw\<close>, \<open>Var_Raw\<close>).
\<close>

datatype type_kind =
    TK_Int | TK_Str | TK_List | TK_Bool | TK_Long | TK_Float | TK_Double | TK_Class | TK_None
  | TK_Raw u8

datatype variance = Invariant | Covariant | Contravariant | Var_Raw u8

fun kind_byte :: "type_kind \<Rightarrow> u8" where
  "kind_byte TK_Int = 0"
| "kind_byte TK_Str = 1"
| "kind_byte TK_List = 2"
| "kind_byte TK_Bool = 3"
| "kind_byte TK_Long = 4"
| "kind_byte TK_Float = 5"
| "kind_byte TK_Double = 6"
| "kind_byte TK_Class = 7"
| "kind_byte TK_None = 8"
| "kind_byte (TK_Raw b) = b"

definition kind_of_byte :: "u8 \<Rightarrow> type_kind" where
  "kind_of_byte b =
     (if b = 0 then TK_Int else if b = 1 then TK_Str else if b = 2 then TK_List
      else if b = 3 then TK_Bool else if b = 4 then TK_Long else if b = 5 then TK_Float
      else if b = 6 then TK_Double else if b = 7 then TK_Class else if b = 8 then TK_None
      else TK_Raw b)"

fun variance_byte :: "variance \<Rightarrow> u8" where
  "variance_byte Invariant = 0"
| "variance_byte Covariant = 1"
| "variance_byte Contravariant = 2"
| "variance_byte (Var_Raw b) = b"

definition variance_of_byte :: "u8 \<Rightarrow> variance" where
  "variance_of_byte b =
     (if b = 0 then Invariant else if b = 1 then Covariant
      else if b = 2 then Contravariant else Var_Raw b)"

text \<open>The struct \<open>TypeNode\<close>; a null \<open>elementType\<close> pointer is \<open>None\<close>.\<close>

datatype type_node =
  TypeNode (tn_kind: type_kind) (tn_elem: "type_node option") (tn_class: string)
           (tn_variance: variance)

fun type_eq :: "type_node \<Rightarrow> type_node \<Rightarrow> bool" where
  "type_eq (TypeNode k e c v) (TypeNode k' e' c' v') =
     (if k \<noteq> k' then False
      else if k = TK_List then
        v = v' \<and> (case (e, e') of (Some x, Some y) \<Rightarrow> type_eq x y | _ \<Rightarrow> False)
      else if k = TK_Class then c = c'
      else True)"

text \<open>
  \<open>isSubtypeOf\<close> dereferences both element pointers without a null test; the model returns
  \<open>None\<close> where that is a null dereference.
\<close>

function isSubtypeOf :: "type_node \<Rightarrow> type_node \<Rightarrow> bool option" where
  "isSubtypeOf sub super =
     (if type_eq sub super then Some True
      else if tn_kind sub = TK_List \<and> tn_kind super = TK_List then
        (if tn_variance sub = Covariant \<or> tn_variance super = Covariant then
           (case (tn_elem sub, tn_elem super) of
              (Some x, Some y) \<Rightarrow> isSubtypeOf x y
            | _ \<Rightarrow> None)
         else if tn_variance sub = Contravariant \<or> tn_variance super = Contravariant then
           (case (tn_elem sub, tn_elem super) of
              (Some x, Some y) \<Rightarrow> isSubtypeOf y x
            | _ \<Rightarrow> None)
         else Some False)
      else Some False)"
  by pat_completeness auto
termination
proof (relation "measure (\<lambda>(s, t). size s + size t)", goal_cases)
  case 1
  show ?case by simp
next
  case (2 sub super p x y)
  then show ?case by (cases sub; cases super) auto
next
  case (3 sub super p x y)
  then show ?case by (cases sub; cases super) auto
qed

declare isSubtypeOf.simps [simp del]

definition char_byte :: "char \<Rightarrow> u8" where
  "char_byte c = word_of_nat (of_char c)"

definition byte_char :: "u8 \<Rightarrow> char" where
  "byte_char b = char_of (unat b)"

fun serialize :: "type_node \<Rightarrow> u8 list" where
  "serialize (TypeNode k e c v) =
     [kind_byte k]
     @ (if k = TK_List then
          variance_byte v # (case e of None \<Rightarrow> [] | Some t \<Rightarrow> serialize t)
        else [])
     @ (if k = TK_Class then le_bytes 4 (u32_cast (length c)) @ map char_byte c else [])"

text \<open>
  \<open>deserialize (data, pos)\<close>: the node and the advanced position.  An access past the end of
  \<open>data\<close> is undefined behaviour in the source and \<open>None\<close> here.
\<close>

function deserialize :: "u8 list \<Rightarrow> nat \<Rightarrow> (type_node \<times> nat) option" where
  "deserialize data pos =
     (if pos < length data then
        (let k = kind_of_byte (data ! pos) in
         if k = TK_List then
           (if pos + 1 < length data then
              (case deserialize data (pos + 2) of
                 None \<Rightarrow> None
               | Some (elem, pos') \<Rightarrow>
                   Some (TypeNode k (Some elem) [] (variance_of_byte (data ! (pos + 1))), pos'))
            else None)
         else if k = TK_Class then
           (if pos + 5 \<le> length data then
              (let len = le_val (take 4 (drop (pos + 1) data)) in
               if pos + 5 + len \<le> length data then
                 Some (TypeNode k None (map byte_char (take len (drop (pos + 5) data))) Invariant,
                       pos + 5 + len)
               else None)
            else None)
         else Some (TypeNode k None [] Invariant, pos + 1))
      else None)"
  by pat_completeness auto
termination
  by (relation "measure (\<lambda>(data, pos). length data - pos)") auto

declare deserialize.simps [simp del]

primrec kind_name :: "type_kind \<Rightarrow> string" where
  "kind_name TK_Int = ''int''"
| "kind_name TK_Str = ''str''"
| "kind_name TK_Bool = ''bool''"
| "kind_name TK_Long = ''long''"
| "kind_name TK_Float = ''float''"
| "kind_name TK_Double = ''double''"
| "kind_name TK_None = ''None''"
| "kind_name TK_List = ''list''"
| "kind_name TK_Class = ''class''"
| "kind_name (TK_Raw _) = ''?''"

fun type_toString :: "type_node \<Rightarrow> string" where
  "type_toString (TypeNode k e c v) =
     (if k = TK_Class then c
      else if k = TK_List then
        ''list<''
        @ (if v = Covariant then ''out '' else if v = Contravariant then ''in '' else [])
        @ (case e of None \<Rightarrow> ''?'' | Some t \<Rightarrow> type_toString t) @ ''>''
      else kind_name k)"

definition type_fromString :: "string \<Rightarrow> type_node" where
  "type_fromString s =
     (let node = (\<lambda>k. TypeNode k None [] Invariant) in
      if s = ''int'' then node TK_Int
      else if s = ''str'' then node TK_Str
      else if s = ''bool'' then node TK_Bool
      else if s = ''long'' then node TK_Long
      else if s = ''float'' then node TK_Float
      else if s = ''double'' then node TK_Double
      else if s = ''None'' then node TK_None
      else node TK_Int)"

text \<open>
  The nodes the constructors of \<open>TypeNode\<close> build: a list carries its element, a class its
  name, every other kind nothing.
\<close>

fun wf_type :: "type_node \<Rightarrow> bool" where
  "wf_type (TypeNode k e c v) =
     (if k = TK_List then
        c = [] \<and> variance_of_byte (variance_byte v) = v
        \<and> (case e of None \<Rightarrow> False | Some t \<Rightarrow> wf_type t)
      else if k = TK_Class then e = None \<and> v = Invariant \<and> length c < 2 ^ 32
      else e = None \<and> c = [] \<and> v = Invariant \<and> kind_of_byte (kind_byte k) = k)"

lemma kind_of_byte_List [simp]: "kind_of_byte 2 = TK_List"
  by (simp add: kind_of_byte_def)

lemma kind_of_byte_Class [simp]: "kind_of_byte 7 = TK_Class"
  by (simp add: kind_of_byte_def)

lemma byte_char_byte [simp]: "byte_char (char_byte c) = c"
  by (simp add: byte_char_def char_byte_def unat_of_nat)

lemma map_byte_char [simp]: "map (byte_char \<circ> char_byte) s = s"
  by (induction s) auto

lemma serialize_deserialize:
  assumes "wf_type t"
  shows "deserialize (pre @ serialize t @ post) (length pre)
           = Some (t, length pre + length (serialize t))"
  using assms
proof (induction t arbitrary: pre post)
  case (TypeNode k e c v)
  consider "k = TK_List" | "k = TK_Class" | "k \<noteq> TK_List" "k \<noteq> TK_Class" by blast
  then show ?case
  proof cases
    case 1
    with TypeNode.prems obtain t where e: "e = Some t" and t: "wf_type t"
      by (auto split: option.splits)
    let ?hd = "[2, variance_byte v]"
    have "deserialize ((pre @ ?hd) @ serialize t @ post) (length (pre @ ?hd))
        = Some (t, length (pre @ ?hd) + length (serialize t))"
      using TypeNode.IH [of t "pre @ ?hd"] e t by simp
    then show ?thesis
      using 1 e TypeNode.prems
      by (subst deserialize.simps) (simp add: nth_append)
  next
    case 2
    then show ?thesis
      using TypeNode.prems
      by (subst deserialize.simps) (simp add: nth_append)
  next
    case 3
    then show ?thesis
      using TypeNode.prems
      by (subst deserialize.simps) (simp add: nth_append)
  qed
qed

section \<open>The chunk\<close>

record itable_entry =
  ie_interfaceTypeId :: nat
  ie_methodOffsets :: "nat list"

record vtable_entry =
  vt_methodOffsets :: "nat list"
  vt_itable :: "itable_entry list"

record function_info =
  fi_name :: string
  fi_start :: nat
  fi_end :: nat
  fi_maxLocalRegister :: nat

record source_entry =
  se_offset :: nat
  se_file :: string
  se_line :: nat
  se_col :: nat

record chunk =
  ch_code :: "u8 list"
  ch_strings :: "string list"
  ch_stringIndices :: "string \<rightharpoonup> nat"
  ch_typePool :: "u8 list list"
  ch_typeIndices :: "u8 list \<rightharpoonup> nat"
  ch_vtables :: "vtable_entry list"
  ch_typeParents :: "nat list"
  ch_typeNames :: "string list"
  ch_funs :: "function_info list"
  ch_sourceMap :: "source_entry list"
  ch_sourceLines :: "string \<rightharpoonup> string list"

definition empty_chunk :: chunk where
  "empty_chunk = \<lparr>ch_code = [], ch_strings = [], ch_stringIndices = Map.empty, ch_typePool = [],
     ch_typeIndices = Map.empty, ch_vtables = [], ch_typeParents = [], ch_typeNames = [], ch_funs = [],
     ch_sourceMap = [], ch_sourceLines = Map.empty\<rparr>"

definition internType :: "type_node \<Rightarrow> chunk \<Rightarrow> nat \<times> chunk" where
  "internType t c =
     (let buf = serialize t in
      case ch_typeIndices c buf of
        Some i \<Rightarrow> (i, c)
      | None \<Rightarrow>
          (let idx = u32_cast (length (ch_typePool c)) in
           (idx, c\<lparr>ch_typePool := ch_typePool c @ [buf],
                   ch_typeIndices := (ch_typeIndices c)(buf \<mapsto> idx)\<rparr>)))"

definition internString :: "string \<Rightarrow> chunk \<Rightarrow> nat \<times> chunk" where
  "internString str c =
     (case ch_stringIndices c str of
        Some i \<Rightarrow> (u32_cast i, c)
      | None \<Rightarrow>
          (let idx = u32_cast (length (ch_strings c)) in
           (idx, c\<lparr>ch_strings := ch_strings c @ [str],
                   ch_stringIndices := (ch_stringIndices c)(str \<mapsto> idx)\<rparr>)))"

definition emitByte :: "u8 \<Rightarrow> chunk \<Rightarrow> chunk" where
  "emitByte b c = c\<lparr>ch_code := ch_code c @ [b]\<rparr>"

definition emitU32 :: "nat \<Rightarrow> chunk \<Rightarrow> chunk" where
  "emitU32 v c = c\<lparr>ch_code := ch_code c @ [byte_at v 0, byte_at v 1, byte_at v 2, byte_at v 3]\<rparr>"

definition emitI64 :: "int \<Rightarrow> chunk \<Rightarrow> chunk" where
  "emitI64 v c =
     (let u = i64_to_u64 v in
      c\<lparr>ch_code := ch_code c @ [byte_at u 0, byte_at u 1, byte_at u 2, byte_at u 3,
                          byte_at u 4, byte_at u 5, byte_at u 6, byte_at u 7]\<rparr>)"

text \<open>\<open>patchU32\<close> throws when fewer than four bytes are there to patch.\<close>

definition patchU32 :: "nat \<Rightarrow> nat \<Rightarrow> chunk \<Rightarrow> string + chunk" where
  "patchU32 off v c =
     (if off + 3 \<ge> length (ch_code c) then Inl ''patch offset out of bounds''
      else Inr (c\<lparr>ch_code := (ch_code c)[off := byte_at v 0, off + 1 := byte_at v 1,
                                  off + 2 := byte_at v 2, off + 3 := byte_at v 3]\<rparr>))"

definition offset :: "chunk \<Rightarrow> nat" where
  "offset c = length (ch_code c)"

text \<open>The operand emitters of \<open>MIRCompiler\<close>.\<close>

definition emitReg :: "nat \<Rightarrow> chunk \<Rightarrow> chunk" where
  "emitReg reg c =
     (if reg < 256 then emitByte (word_of_nat reg) (emitByte (tag_byte TReg) c)
      else emitByte (word_of_nat (drop_bit 8 reg))
             (emitByte (word_of_nat (reg AND 255)) (emitByte (tag_byte TWideReg) c)))"

definition emitImm :: "int \<Rightarrow> chunk \<Rightarrow> chunk" where
  "emitImm v c = emitI64 v (emitByte (tag_byte TImm64) c)"

definition emitAddr :: "string \<Rightarrow> (nat \<times> string) list \<times> chunk \<Rightarrow> (nat \<times> string) list \<times> chunk" where
  "emitAddr label = (\<lambda>(patches, c).
     let c1 = emitByte (tag_byte TAddr) c;
         patchOffset = offset c1
     in (patches @ [(patchOffset, label)], emitU32 0 c1))"

definition getLabelOffset :: "(string \<rightharpoonup> nat) \<Rightarrow> string \<Rightarrow> string + nat" where
  "getLabelOffset labels name =
     (if name = ''print'' then Inr 4294967295
      else case labels name of
             None \<Rightarrow> Inl (''undefined label: '' @ name)
           | Some off \<Rightarrow> Inr off)"

lemma emitU32_le: "emitU32 v c = c\<lparr>ch_code := ch_code c @ le_bytes 4 v\<rparr>"
  by (simp add: emitU32_def le_bytes_def upt_rec numeral_eq_Suc)

lemma emitI64_le: "emitI64 v c = c\<lparr>ch_code := ch_code c @ le_bytes 8 (i64_to_u64 v)\<rparr>"
  by (simp add: emitI64_def le_bytes_def upt_rec numeral_eq_Suc Let_def)

subsection \<open>Interning\<close>

text \<open>
  What an intern pool promises: the index map is exactly the inverse of the pool.  Both
  pools of the chunk are interpretations.
\<close>

definition pool_ok :: "'a list \<Rightarrow> ('a \<rightharpoonup> nat) \<Rightarrow> bool" where
  "pool_ok xs m \<longleftrightarrow> length xs < 2 ^ 32 \<and> (\<forall>x i. m x = Some i \<longleftrightarrow> i < length xs \<and> xs ! i = x)"

locale intern_pool =
  fixes key :: "'a \<Rightarrow> 'k"
    and pool :: "'c \<Rightarrow> 'k list"
    and index :: "'c \<Rightarrow> ('k \<rightharpoonup> nat)"
    and intern :: "'a \<Rightarrow> 'c \<Rightarrow> nat \<times> 'c"
  assumes intern_hit: "index c (key x) = Some i \<Longrightarrow> i < 2 ^ 32 \<Longrightarrow> intern x c = (i, c)"
    and intern_miss: "index c (key x) = None \<Longrightarrow> length (pool c) < 2 ^ 32 \<Longrightarrow>
      fst (intern x c) = length (pool c)
      \<and> pool (snd (intern x c)) = pool c @ [key x]
      \<and> index (snd (intern x c)) = (index c)(key x \<mapsto> length (pool c))"
begin

lemma pool_hit_less: "pool_ok (pool c) (index c) \<Longrightarrow> index c k = Some i \<Longrightarrow> i < 2 ^ 32"
  by (auto simp: pool_ok_def)

lemma intern_cases:
  assumes "pool_ok (pool c) (index c)"
  obtains (hit) i where "index c (key x) = Some i" "intern x c = (i, c)"
  | (miss) c' where "index c (key x) = None" "intern x c = (length (pool c), c')"
      "pool c' = pool c @ [key x]" "index c' = (index c)(key x \<mapsto> length (pool c))"
proof (cases "index c (key x)")
  case None
  with assms intern_miss [of c x] show ?thesis
    by (intro miss [of "snd (intern x c)"]) (auto simp: pool_ok_def prod_eq_iff)
next
  case (Some i)
  then show ?thesis
    using intern_hit [OF Some pool_hit_less [OF assms Some]] by (rule hit)
qed

lemma intern_lookup:
  assumes "pool_ok (pool c) (index c)" and "intern x c = (i, c')"
  shows "i < length (pool c') \<and> pool c' ! i = key x \<and> (\<exists>ys. pool c' = pool c @ ys)"
  by (rule intern_cases [OF assms(1), of x]) (use assms in \<open>auto simp: pool_ok_def\<close>)

lemma intern_pool_ok:
  assumes ok: "pool_ok (pool c) (index c)" and i: "intern x c = (i, c')"
    and room: "length (pool c) + 1 < 2 ^ 32"
  shows "pool_ok (pool c') (index c')"
proof (rule intern_cases [OF ok, of x])
  fix j
  assume "intern x c = (j, c)"
  with i ok show ?thesis by simp
next
  fix d
  assume none: "index c (key x) = None" and d: "intern x c = (length (pool c), d)"
    "pool d = pool c @ [key x]" "index d = (index c)(key x \<mapsto> length (pool c))"
  from none ok have "\<And>j. j < length (pool c) \<Longrightarrow> pool c ! j \<noteq> key x"
    by (metis option.distinct(1) pool_ok_def)
  with d i ok room show ?thesis
    by (auto simp: pool_ok_def nth_append less_Suc_eq)
qed

lemma intern_idem:
  assumes ok: "pool_ok (pool c) (index c)" and i: "intern x c = (i, c')"
    and room: "length (pool c) + 1 < 2 ^ 32"
  shows "intern x c' = (i, c')"
proof -
  have ok': "pool_ok (pool c') (index c')"
    by (rule intern_pool_ok [OF ok i room])
  with intern_lookup [OF ok i] have "index c' (key x) = Some i"
    by (auto simp: pool_ok_def)
  with ok' show ?thesis
    by (intro intern_hit) (auto simp: pool_ok_def)
qed

end

interpretation str_pool: intern_pool id ch_strings ch_stringIndices internString
  by unfold_locales (auto simp: internString_def Let_def)

interpretation ty_pool: intern_pool serialize ch_typePool ch_typeIndices internType
  by unfold_locales (auto simp: internType_def Let_def)

section \<open>Properties of the chunk\<close>

text \<open>
  Property C22 (round trip).  Reading back a serialised generic type gives the same type and
  consumes exactly its bytes.
\<close>

theorem type_roundtrip:
  assumes "wf_type t"
  shows "deserialize (serialize t) 0 = Some (t, length (serialize t))"
  using serialize_deserialize [OF assms, of "[]" "[]"] by simp

theorem type_roundtrip_witness:
  "deserialize (serialize (TypeNode TK_List
       (Some (TypeNode TK_Class None ''Foo'' Invariant)) [] Covariant)) 0
   = Some (TypeNode TK_List (Some (TypeNode TK_Class None ''Foo'' Invariant)) [] Covariant, 10)"
proof -
  have "wf_type (TypeNode TK_List (Some (TypeNode TK_Class None ''Foo'' Invariant)) [] Covariant)"
    by (simp add: variance_of_byte_def)
  from type_roundtrip [OF this] show ?thesis by (simp add: u32_cast_def)
qed

lemma serialize_inj:
  assumes "wf_type t" and "wf_type u" and "serialize t = serialize u"
  shows "t = u"
  using serialize_deserialize [OF assms(1), of "[]" "[]"]
    serialize_deserialize [OF assms(2), of "[]" "[]"] assms(3)
  by simp

text \<open>
  \<open>internString\<close> returns an index at which the pool holds the string,
  extends the pool only at its end (indices handed out before stay valid), keeps the pool
  invariant, and interning the same string again returns the same index and changes nothing.
\<close>

theorem internString_correct:
  assumes ok: "pool_ok (ch_strings c) (ch_stringIndices c)"
    and room: "length (ch_strings c) + 1 < 2 ^ 32"
    and i: "internString s c = (i, c')"
  shows "i < length (ch_strings c') \<and> ch_strings c' ! i = s
         \<and> (\<exists>ys. ch_strings c' = ch_strings c @ ys)
         \<and> pool_ok (ch_strings c') (ch_stringIndices c')
         \<and> internString s c' = (i, c')"
  using str_pool.intern_lookup [OF ok i] str_pool.intern_pool_ok [OF ok i room]
    str_pool.intern_idem [OF ok i room]
  by simp

lemma pool_ok_empty:
  "pool_ok (ch_strings empty_chunk) (ch_stringIndices empty_chunk)"
  "pool_ok (ch_typePool empty_chunk) (ch_typeIndices empty_chunk)"
  by (simp_all add: pool_ok_def empty_chunk_def)

theorem internString_correct_witness:
  "fst (internString ''main'' empty_chunk) = 0
   \<and> ch_strings (snd (internString ''main'' empty_chunk)) ! 0 = ''main''"
proof -
  have i: "internString ''main'' empty_chunk = (0, snd (internString ''main'' empty_chunk))"
    by (simp add: internString_def empty_chunk_def)
  have room: "length (ch_strings empty_chunk) + 1 < 2 ^ 32"
    by (simp add: empty_chunk_def)
  from internString_correct [OF pool_ok_empty(1) room i] i show ?thesis
    by (metis fst_conv)
qed

text \<open>
  Property C29 (functional).  The type pool does not confuse types: from a pool in which the map and the
  vector agree and that has room for two more entries, two well-formed types interned one after the
  other get the same index exactly when they are the same type.
\<close>

theorem internType_injective:
  assumes ok: "pool_ok (ch_typePool c) (ch_typeIndices c)"
    and room: "length (ch_typePool c) + 2 < 2 ^ 32"
    and t: "wf_type t" "internType t c = (i, c1)"
    and u: "wf_type u" "internType u c1 = (j, c2)"
  shows "i = j \<longleftrightarrow> t = u"
proof -
  from room have room1: "length (ch_typePool c) + 1 < 2 ^ 32" by simp
  have ok1: "pool_ok (ch_typePool c1) (ch_typeIndices c1)"
    by (rule ty_pool.intern_pool_ok [OF ok t(2) room1])
  from ty_pool.intern_lookup [OF ok t(2)] ty_pool.intern_lookup [OF ok1 u(2)]
  have at: "ch_typePool c2 ! i = serialize t" "ch_typePool c2 ! j = serialize u"
    by (auto simp: nth_append)
  show ?thesis
  proof
    assume "i = j"
    with at t(1) u(1) show "t = u" by (metis serialize_inj)
  next
    assume "t = u"
    with ty_pool.intern_idem [OF ok t(2) room1] u(2) show "i = j" by simp
  qed
qed

theorem internType_injective_witness:
  "fst (internType (type_fromString ''int'') empty_chunk)
   \<noteq> fst (internType (type_fromString ''str'')
            (snd (internType (type_fromString ''int'') empty_chunk)))"
proof -
  let ?t = "type_fromString ''int''" and ?u = "type_fromString ''str''"
  let ?c1 = "snd (internType ?t empty_chunk)"
  have wf: "wf_type ?t" "wf_type ?u" and ne: "?t \<noteq> ?u"
    by (simp_all add: type_fromString_def kind_of_byte_def)
  have t: "internType ?t empty_chunk = (fst (internType ?t empty_chunk), ?c1)"
    and u: "internType ?u ?c1 = (fst (internType ?u ?c1), snd (internType ?u ?c1))"
    by simp_all
  have room: "length (ch_typePool empty_chunk) + 2 < 2 ^ 32"
    by (simp add: empty_chunk_def)
  from internType_injective [OF pool_ok_empty(2) room wf(1) t wf(2) u] ne show ?thesis by simp
qed

text \<open>
  Patching writes exactly the four bytes of the operand: the word read
  at the patched offset is the new value, the code keeps its length, every other byte is
  unchanged; and the patch is refused exactly when it does not fit.
\<close>

theorem patchU32_correct:
  assumes "v < 2 ^ 32"
  shows "(case patchU32 off v c of
            Inl e \<Rightarrow> length (ch_code c) < off + 4
          | Inr c' \<Rightarrow> off + 4 \<le> length (ch_code c)
              \<and> length (ch_code c') = length (ch_code c)
              \<and> le_val (take 4 (drop off (ch_code c'))) = v
              \<and> (\<forall>k. k < off \<or> off + 4 \<le> k \<longrightarrow> ch_code c' ! k = ch_code c ! k))"
proof (cases "off + 4 \<le> length (ch_code c)")
  case True
  define cs where "cs = (ch_code c)[off := byte_at v 0, off + 1 := byte_at v 1,
      off + 2 := byte_at v 2, off + 3 := byte_at v 3]"
  have "take 4 (drop off cs) = le_bytes 4 v"
    using True
    by (intro nth_equalityI)
       (auto simp: cs_def le_bytes_def nth_list_update less_Suc_eq numeral_eq_Suc)
  then have "le_val (take 4 (drop off cs)) = v"
    using assms by simp
  moreover have "\<forall>k. k < off \<or> off + 4 \<le> k \<longrightarrow> cs ! k = ch_code c ! k"
    by (auto simp: cs_def)
  ultimately show ?thesis
    using True by (simp add: patchU32_def cs_def)
next
  case False
  then show ?thesis by (simp add: patchU32_def)
qed

theorem patchU32_correct_witness:
  "\<exists>c'. patchU32 1 513 (empty_chunk\<lparr>ch_code := [4, 0, 0, 0, 0]\<rparr>) = Inr c'
        \<and> le_val (take 4 (drop 1 (ch_code c'))) = 513"
proof -
  have "(513::nat) < 2 ^ 32" by simp
  from patchU32_correct [OF this, where off = 1 and c = "empty_chunk\<lparr>ch_code := [4, 0, 0, 0, 0]\<rparr>"]
  show ?thesis by (auto simp: patchU32_def)
qed

text \<open>
  A divergence.  \<open>isSubtypeOf\<close> takes the covariant rule as soon as either side is covariant,
  so a read-only \<open>list<out T>\<close> and a read/write \<open>list<T>\<close> are subtypes of each other for every \<open>T\<close>,
  although they are different types.
\<close>

theorem isSubtypeOf_not_antisymmetric:
  "isSubtypeOf (TypeNode TK_List (Some t) c Covariant) (TypeNode TK_List (Some t) c Invariant)
     = isSubtypeOf t t
   \<and> isSubtypeOf (TypeNode TK_List (Some t) c Invariant) (TypeNode TK_List (Some t) c Covariant)
     = isSubtypeOf t t
   \<and> \<not> type_eq (TypeNode TK_List (Some t) c Covariant) (TypeNode TK_List (Some t) c Invariant)"
  by (simp add: isSubtypeOf.simps [of "TypeNode TK_List (Some t) c Covariant"]
      isSubtypeOf.simps [of "TypeNode TK_List (Some t) c Invariant"])

end
