(* ===== verification/Lx_Disasm.thy ===== *)
theory Lx_Disasm
  imports Lx_Bytecode
begin

text \<open>
  The bytecode decoder shared by the VM and \<open>--dump-bytecode\<close> (\<open>backend/Disasm.cpp\<close>): operand
  counts, tagged operands, the linear decode loop, and the textual dump.  The instruction
  pointer is a \<open>uint32_t\<close> in the source; chunks are addressed by 32-bit offsets, so the code
  of a chunk is shorter than \<open>2^32\<close> bytes and the pointer does not wrap.  On a failed decode
  the source leaves a partially filled vector behind that no caller reads; the model returns
  the error message only.  Rendering a double is a parameter of the printing functions.
\<close>

section \<open>Names and operand counts\<close>

primrec opcodeName :: "opcode \<Rightarrow> string" where
  "opcodeName OpNop = ''nop''"
| "opcodeName OpPush = ''push''"
| "opcodeName OpPop = ''pop''"
| "opcodeName OpMov = ''mov''"
| "opcodeName OpPushR = ''pushr''"
| "opcodeName OpPopR = ''popr''"
| "opcodeName OpAlloc = ''alloc''"
| "opcodeName OpHFree = ''hfree''"
| "opcodeName OpHStore = ''hstore''"
| "opcodeName OpHLoad = ''hload''"
| "opcodeName OpShl = ''shl''"
| "opcodeName OpShr = ''shr''"
| "opcodeName OpRem = ''rem''"
| "opcodeName OpBitAnd = ''band''"
| "opcodeName OpBitOr = ''bor''"
| "opcodeName OpBitXor = ''bxor''"
| "opcodeName OpAdd = ''add''"
| "opcodeName OpSub = ''sub''"
| "opcodeName OpMul = ''mul''"
| "opcodeName OpDiv = ''div''"
| "opcodeName OpFAdd = ''fadd''"
| "opcodeName OpFSub = ''fsub''"
| "opcodeName OpFMul = ''fmul''"
| "opcodeName OpFDiv = ''fdiv''"
| "opcodeName OpItoF = ''itof''"
| "opcodeName OpFtoI = ''ftoi''"
| "opcodeName OpFNeg = ''fneg''"
| "opcodeName OpGLoad = ''gload''"
| "opcodeName OpGStore = ''gstore''"
| "opcodeName OpCmp = ''cmp''"
| "opcodeName OpJmp = ''jmp''"
| "opcodeName OpJnz = ''jnz''"
| "opcodeName OpJz = ''jz''"
| "opcodeName OpSkip = ''skip''"
| "opcodeName OpCall = ''call''"
| "opcodeName OpRet = ''ret''"
| "opcodeName OpBr = ''br''"
| "opcodeName OpJn = ''jn''"
| "opcodeName OpNullChk = ''nullchk''"
| "opcodeName OpCallInd = ''callind''"
| "opcodeName OpVCall = ''vcall''"
| "opcodeName OpICall = ''icall''"
| "opcodeName OpTypeOf = ''typeof''"
| "opcodeName OpTryPush = ''trypush''"
| "opcodeName OpTryPop = ''trypop''"
| "opcodeName OpThrow = ''throw''"
| "opcodeName OpIsA = ''isa''"
| "opcodeName OpSyscall = ''syscall''"
| "opcodeName OpWrite = ''write''"
| "opcodeName OpPrint = ''print''"
| "opcodeName OpStrLen = ''strlen''"
| "opcodeName OpToStr = ''tostr''"
| "opcodeName OpHalt = ''halt''"

definition operandCountFor :: "opcode \<Rightarrow> u8 list \<Rightarrow> nat \<Rightarrow> nat option" where
  "operandCountFor op code ip =
     (if op \<in> set [OpNop, OpRet, OpTryPop, OpHalt]
      then Some 0
      else if op \<in> set [OpJnz, OpJz, OpJn, OpCall, OpWrite, OpPrint, OpPushR, OpPopR,
            OpThrow, OpHFree, OpSyscall]
      then Some 1
      else if op \<in> set [OpPush, OpMov, OpCmp, OpJmp, OpGLoad, OpGStore, OpItoF, OpFtoI,
            OpFNeg, OpNullChk, OpTypeOf, OpStrLen, OpToStr, OpTryPush, OpCallInd]
      then Some 2
      else if op \<in> set [OpAdd, OpSub, OpMul, OpDiv, OpHStore, OpHLoad, OpAlloc, OpShl,
            OpShr, OpRem, OpBitAnd, OpBitOr, OpBitXor, OpFAdd, OpFSub, OpFMul,
            OpFDiv, OpIsA]
      then Some 3
      else if op = OpVCall then Some 4
      else if op = OpICall then Some 5
      else if op = OpSkip then
        Some (if ip < length code \<and> code ! ip = tag_byte TAddr then 1 else 0)
      else None)"

section \<open>Decoding\<close>

record operand =
  op_tag :: operand_tag
  op_intVal :: int
  op_strIdx :: nat

record instr =
  in_op :: opcode
  in_byteOffset :: nat
  in_operands :: "operand list"

definition decodeOperandAt :: "u8 list \<Rightarrow> nat \<Rightarrow> (operand \<times> nat) option" where
  "decodeOperandAt code ip =
     (if ip \<ge> length code then None
      else let ip1 = ip + 1 in
        (case tag_of (code ! ip) of
           Some TWideReg \<Rightarrow>
             (if ip1 + 1 \<ge> length code then None
              else let v = unat (code ! ip1) OR push_bit 8 (unat (code ! (ip1 + 1))) in
                if v \<ge> 4096 then None
                else Some (\<lparr>op_tag = TReg, op_intVal = int v, op_strIdx = 0\<rparr>, ip1 + 2))
         | Some TReg \<Rightarrow>
             (if ip1 \<ge> length code then None
              else Some (\<lparr>op_tag = TReg, op_intVal = int (unat (code ! ip1)), op_strIdx = 0\<rparr>,
                         ip1 + 1))
         | Some TNull \<Rightarrow> Some (\<lparr>op_tag = TNull, op_intVal = 0, op_strIdx = 0\<rparr>, ip1)
         | Some TFloat64 \<Rightarrow>
             (if ip1 + 7 \<ge> length code then None
              else Some (\<lparr>op_tag = TFloat64,
                          op_intVal = u64_to_i64 (le_val (take 8 (drop ip1 code))),
                          op_strIdx = 0\<rparr>, ip1 + 8))
         | Some TImm64 \<Rightarrow>
             (if ip1 + 7 \<ge> length code then None
              else Some (\<lparr>op_tag = TImm64,
                          op_intVal = u64_to_i64 (le_val (take 8 (drop ip1 code))),
                          op_strIdx = 0\<rparr>, ip1 + 8))
         | Some TStrIdx \<Rightarrow>
             (if ip1 + 3 \<ge> length code then None
              else Some (\<lparr>op_tag = TStrIdx, op_intVal = 0,
                          op_strIdx = le_val (take 4 (drop ip1 code))\<rparr>, ip1 + 4))
         | Some TAddr \<Rightarrow>
             (if ip1 + 3 \<ge> length code then None
              else Some (\<lparr>op_tag = TAddr, op_intVal = int (le_val (take 4 (drop ip1 code))),
                          op_strIdx = 0\<rparr>, ip1 + 4))
         | None \<Rightarrow> None))"

text \<open>The operand loop: the decoded operands and the new position, or the failing index.\<close>

fun decodeOperands :: "nat \<Rightarrow> nat \<Rightarrow> u8 list \<Rightarrow> nat \<Rightarrow> nat + operand list \<times> nat" where
  "decodeOperands i 0 code ip = Inr ([], ip)"
| "decodeOperands i (Suc n) code ip =
     (case decodeOperandAt code ip of
        None \<Rightarrow> Inl i
      | Some (opd, ip') \<Rightarrow>
          (case decodeOperands (Suc i) n code ip' of
             Inl j \<Rightarrow> Inl j
           | Inr (opds, ip'') \<Rightarrow> Inr (opd # opds, ip'')))"

lemma decodeOperandAt_advances:
  "decodeOperandAt code ip = Some (opd, ip') \<Longrightarrow> ip < ip' \<and> ip' \<le> length code"
  by (auto simp: decodeOperandAt_def Let_def split: if_splits option.splits operand_tag.splits)

lemma decodeOperands_advances:
  "decodeOperands i n code ip = Inr (opds, ip') \<Longrightarrow> ip \<le> ip'"
  by (induction i n code ip arbitrary: opds ip' rule: decodeOperands.induct)
     (fastforce split: option.splits sum.splits dest!: decodeOperandAt_advances)+

definition unknown_opcode_msg :: "u8 \<Rightarrow> nat \<Rightarrow> string" where
  "unknown_opcode_msg b off =
     ''unknown opcode 0x'' @ string_of_nat (unat b) @ '' at byte offset '' @ string_of_nat off"

definition malformed_msg :: "nat \<Rightarrow> opcode \<Rightarrow> nat \<Rightarrow> string" where
  "malformed_msg i op off =
     ''malformed operand '' @ string_of_nat i @ '' for '' @ opcodeName op
     @ '' at byte offset '' @ string_of_nat off"

function decode_from :: "u8 list \<Rightarrow> nat \<Rightarrow> string + instr list" where
  "decode_from code ip =
     (if ip < length code then
        (case Option.bind (opcode_of (code ! ip))
                (\<lambda>op. map_option (Pair op) (operandCountFor op code (ip + 1))) of
           None \<Rightarrow> Inl (unknown_opcode_msg (code ! ip) ip)
         | Some (op, n) \<Rightarrow>
             (case decodeOperands 0 n code (ip + 1) of
                Inl i \<Rightarrow> Inl (malformed_msg i op ip)
              | Inr (opds, ip') \<Rightarrow>
                  (case decode_from code ip' of
                     Inl e \<Rightarrow> Inl e
                   | Inr rest \<Rightarrow>
                       Inr (\<lparr>in_op = op, in_byteOffset = ip, in_operands = opds\<rparr> # rest))))
      else Inr [])"
  by pat_completeness auto
termination
  by (relation "measure (\<lambda>(code, ip). length code - ip)")
     (auto dest!: decodeOperands_advances)

declare decode_from.simps [simp del]

definition decodeBytecode :: "chunk \<Rightarrow> string + instr list" where
  "decodeBytecode c = decode_from (ch_code c) 0"

section \<open>The textual dump\<close>

definition formatOperand :: "(int \<Rightarrow> string) \<Rightarrow> operand \<Rightarrow> chunk \<Rightarrow> string" where
  "formatOperand show_double opd c =
     (case op_tag opd of
        TReg \<Rightarrow> ''r'' @ string_of_int (op_intVal opd)
      | TImm64 \<Rightarrow> ''#'' @ string_of_int (op_intVal opd)
      | TFloat64 \<Rightarrow> ''%'' @ show_double (op_intVal opd)
      | TStrIdx \<Rightarrow>
          ''str['' @ string_of_nat (op_strIdx opd) @ '']''
          @ (if op_strIdx opd < length (ch_strings c)
             then ''('' @ [CHR 34] @ ch_strings c ! op_strIdx opd @ [CHR 34] @ '')'' else [])
      | TAddr \<Rightarrow> ''0x'' @ pad_left 8 (CHR ''0'') (hex_of_nat (i64_to_u32 (op_intVal opd)))
      | TNull \<Rightarrow> ''null''
      | TWideReg \<Rightarrow> ''r'' @ string_of_int (op_intVal opd) @ '':wide'')"

definition dump_line :: "(int \<Rightarrow> string) \<Rightarrow> chunk \<Rightarrow> instr \<Rightarrow> string" where
  "dump_line show_double c i =
     ''  '' @ pad_left 5 (CHR ''0'') (hex_of_nat (in_byteOffset i)) @ ''  ''
     @ pad_right 9 (CHR '' '') (opcodeName (in_op i))
     @ concat (map (\<lambda>(k, opd). (if k = 0 then '' '' else '', '') @ formatOperand show_double opd c)
                   (zip [0..<length (in_operands i)] (in_operands i)))
     @ [CHR 10]"

fun dump_instrs :: "(int \<Rightarrow> string) \<Rightarrow> chunk \<Rightarrow> function_info list \<Rightarrow> instr list \<Rightarrow> string" where
  "dump_instrs show_double c starts [] = []"
| "dump_instrs show_double c starts (i # is) =
     (let starts1 = dropWhile (\<lambda>fn. fi_start fn < in_byteOffset i) starts in
      case starts1 of
        fn # starts2 \<Rightarrow>
          (if fi_start fn = in_byteOffset i
           then fi_name fn @ '':'' @ [CHR 10] @ dump_line show_double c i
                @ dump_instrs show_double c starts2 is
           else dump_line show_double c i @ dump_instrs show_double c starts1 is)
      | [] \<Rightarrow> dump_line show_double c i @ dump_instrs show_double c starts1 is)"

definition dumpBytecode :: "(int \<Rightarrow> string) \<Rightarrow> chunk \<Rightarrow> string" where
  "dumpBytecode show_double c =
     (case decodeBytecode c of
        Inl e \<Rightarrow> ''; <decode failed: '' @ e @ ''>'' @ [CHR 10]
      | Inr instrs \<Rightarrow>
          ''; '' @ string_of_nat (length instrs) @ '' instructions, ''
          @ string_of_nat (length (ch_code c)) @ '' bytes'' @ [CHR 10]
          @ dump_instrs show_double c (ch_funs c) instrs)"

section \<open>Emitted code decodes to what was emitted\<close>

text \<open>
  \<open>emit_operand\<close> and \<open>emit_instr\<close> put the emitters of the chunk together the way
  \<open>MIRCompiler\<close> does: an opcode byte followed by tagged operands.
\<close>

definition emit_operand :: "operand \<Rightarrow> chunk \<Rightarrow> chunk" where
  "emit_operand opd c =
     (case op_tag opd of
        TReg \<Rightarrow> emitReg (nat (op_intVal opd)) c
      | TWideReg \<Rightarrow> emitReg (nat (op_intVal opd)) c
      | TImm64 \<Rightarrow> emitImm (op_intVal opd) c
      | TFloat64 \<Rightarrow> emitI64 (op_intVal opd) (emitByte (tag_byte TFloat64) c)
      | TStrIdx \<Rightarrow> emitU32 (op_strIdx opd) (emitByte (tag_byte TStrIdx) c)
      | TAddr \<Rightarrow> emitU32 (nat (op_intVal opd)) (emitByte (tag_byte TAddr) c)
      | TNull \<Rightarrow> emitByte (tag_byte TNull) c)"

definition emit_instr :: "opcode \<times> operand list \<Rightarrow> chunk \<Rightarrow> chunk" where
  "emit_instr = (\<lambda>(op, opds) c. fold emit_operand opds (emitByte (opcode_byte op) c))"

fun wf_operand :: "operand \<Rightarrow> bool" where
  "wf_operand opd =
     (case op_tag opd of
        TReg \<Rightarrow> 0 \<le> op_intVal opd \<and> op_intVal opd < 4096 \<and> op_strIdx opd = 0
      | TWideReg \<Rightarrow> False
      | TImm64 \<Rightarrow> in_i64 (op_intVal opd) \<and> op_strIdx opd = 0
      | TFloat64 \<Rightarrow> in_i64 (op_intVal opd) \<and> op_strIdx opd = 0
      | TStrIdx \<Rightarrow> op_intVal opd = 0 \<and> op_strIdx opd < 2 ^ 32
      | TAddr \<Rightarrow> 0 \<le> op_intVal opd \<and> op_intVal opd < 2 ^ 32 \<and> op_strIdx opd = 0
      | TNull \<Rightarrow> op_intVal opd = 0 \<and> op_strIdx opd = 0)"

definition wf_instr :: "opcode \<times> operand list \<Rightarrow> bool" where
  "wf_instr = (\<lambda>(op, opds).
     list_all wf_operand opds
     \<and> (if op = OpSkip then map op_tag opds = [TAddr]
        else operandCountFor op [] 0 = Some (length opds)))"

text \<open>The bytes an operand occupies.\<close>

definition operand_bytes :: "operand \<Rightarrow> u8 list" where
  "operand_bytes opd = ch_code (emit_operand opd empty_chunk)"

definition instr_bytes :: "opcode \<times> operand list \<Rightarrow> u8 list" where
  "instr_bytes = (\<lambda>(op, opds). opcode_byte op # concat (map operand_bytes opds))"

text \<open>The decoded form: each instruction at the offset where its bytes start.\<close>

fun located :: "nat \<Rightarrow> (opcode \<times> operand list) list \<Rightarrow> instr list" where
  "located off [] = []"
| "located off (i # is) =
     \<lparr>in_op = fst i, in_byteOffset = off, in_operands = snd i\<rparr>
     # located (off + length (instr_bytes i)) is"

lemmas emit_defs = emit_operand_def emitReg_def emitImm_def emitI64_le emitU32_le emitByte_def

lemma code_emit_operand: "ch_code (emit_operand opd c) = ch_code c @ operand_bytes opd"
  by (cases "op_tag opd") (simp_all add: operand_bytes_def emit_defs empty_chunk_def)

lemma code_fold_emit_operand:
  "ch_code (fold emit_operand opds c) = ch_code c @ concat (map operand_bytes opds)"
  by (induction opds arbitrary: c) (simp_all add: code_emit_operand)

lemma code_emit_instr: "ch_code (emit_instr i c) = ch_code c @ instr_bytes i"
  by (cases i) (simp add: emit_instr_def instr_bytes_def code_fold_emit_operand emitByte_def)

lemma code_fold_emit_instr:
  "ch_code (fold emit_instr is c) = ch_code c @ concat (map instr_bytes is)"
  by (induction "is" arbitrary: c) (simp_all add: code_emit_instr)

lemma unat_wide_reg:
  assumes "r < 65536"
  shows "unat (word_of_nat (r AND 255) :: u8) OR push_bit 8 (unat (word_of_nat (drop_bit 8 r) :: u8)) = r"
proof -
  have lo: "r AND 255 = r mod 256"
    using take_bit_eq_mask [of 8 r] by (simp add: take_bit_eq_mod mask_eq_exp_minus_1)
  have hi: "drop_bit 8 r = r div 256"
    by (simp add: drop_bit_eq_div)
  have "r mod 256 OR push_bit 8 (r div 256) = r mod 256 + push_bit 8 (r div 256)"
    by (rule or_disjoint_add) simp
  with assms show ?thesis
    by (simp add: lo hi unat_of_nat push_bit_eq_mult less_mult_imp_div_less)
qed

lemma decode_operand_bytes:
  assumes "wf_operand opd"
  shows "decodeOperandAt (pre @ operand_bytes opd @ post) (length pre)
           = Some (opd, length pre + length (operand_bytes opd))"
proof (cases "op_tag opd")
  case TReg
  then obtain r where r: "op_intVal opd = int r" "r < 4096"
    using assms by (auto dest!: zero_le_imp_eq_int)
  show ?thesis
  proof (cases "r < 256")
    case True
    with TReg r assms show ?thesis
      by (simp add: decodeOperandAt_def operand_bytes_def emit_defs empty_chunk_def nth_append
            unat_of_nat)
  next
    case False
    with TReg r assms unat_wide_reg [of r] show ?thesis
      by (simp add: decodeOperandAt_def operand_bytes_def emit_defs empty_chunk_def nth_append
            Let_def)
  qed
next
  case TAddr
  then obtain a where "op_intVal opd = int a" "a < 4294967296"
    using assms by (auto dest!: zero_le_imp_eq_int)
  with TAddr assms show ?thesis
    by (simp add: decodeOperandAt_def operand_bytes_def emit_defs empty_chunk_def nth_append)
qed (use assms in \<open>simp_all add: decodeOperandAt_def operand_bytes_def emit_defs
       empty_chunk_def nth_append\<close>)

lemma decode_operands_bytes:
  assumes "list_all wf_operand opds"
  shows "decodeOperands i (length opds) (pre @ concat (map operand_bytes opds) @ post) (length pre)
           = Inr (opds, length pre + length (concat (map operand_bytes opds)))"
  using assms
proof (induction opds arbitrary: i pre)
  case Nil
  then show ?case by simp
next
  case (Cons opd opds)
  have IH: "decodeOperands (Suc i) (length opds)
      ((pre @ operand_bytes opd) @ concat (map operand_bytes opds) @ post)
      (length (pre @ operand_bytes opd))
      = Inr (opds, length (pre @ operand_bytes opd) + length (concat (map operand_bytes opds)))"
    using Cons.prems by (intro Cons.IH) simp
  have "decodeOperandAt (pre @ operand_bytes opd @ concat (map operand_bytes opds) @ post) (length pre)
      = Some (opd, length pre + length (operand_bytes opd))"
    using Cons.prems by (intro decode_operand_bytes) simp
  with IH show ?case by (simp add: add.assoc)
qed

lemma operandCountFor_no_code:
  "op \<noteq> OpSkip \<Longrightarrow> operandCountFor op code ip = operandCountFor op [] 0"
  unfolding operandCountFor_def by (simp only: if_False simp_thms)

lemma operandCountFor_Skip:
  "operandCountFor OpSkip code ip =
     Some (if ip < length code \<and> code ! ip = tag_byte TAddr then 1 else 0)"
  unfolding operandCountFor_def
  by (simp only: list.set insert_iff empty_iff opcode.distinct simp_thms if_True if_False)

lemma operandCountFor_instr:
  assumes "wf_instr (op, opds)"
  shows "operandCountFor op (pre @ instr_bytes (op, opds) @ post) (length pre + 1)
           = Some (length opds)"
proof (cases "op = OpSkip")
  case True
  with assms obtain opd where opd: "opds = [opd]" "op_tag opd = TAddr"
    by (auto simp: wf_instr_def)
  then have "operand_bytes opd = tag_byte TAddr # le_bytes 4 (nat (op_intVal opd))"
    by (simp add: operand_bytes_def emit_defs empty_chunk_def)
  with True opd show ?thesis
    by (simp add: operandCountFor_Skip instr_bytes_def nth_append)
next
  case False
  with assms show ?thesis
    by (subst operandCountFor_no_code) (simp_all add: wf_instr_def)
qed

lemma decode_instrs:
  assumes "list_all wf_instr is"
  shows "decode_from (pre @ concat (map instr_bytes is)) (length pre)
           = Inr (located (length pre) is)"
  using assms
proof (induction "is" arbitrary: pre)
  case Nil
  then show ?case by (simp add: decode_from.simps)
next
  case (Cons i "is")
  obtain op opds where i: "i = (op, opds)" by (cases i)
  define all where "all = pre @ instr_bytes i @ concat (map instr_bytes is)"
  have IH: "decode_from all (length (pre @ instr_bytes i))
      = Inr (located (length (pre @ instr_bytes i)) is)"
    using Cons.IH [of "pre @ instr_bytes i"] Cons.prems by (simp add: all_def)
  have byte: "all ! length pre = opcode_byte op"
    by (simp add: all_def i instr_bytes_def nth_append)
  have cnt: "operandCountFor op all (length pre + 1) = Some (length opds)"
    using Cons.prems unfolding all_def i by (intro operandCountFor_instr) simp
  have "list_all wf_operand opds"
    using Cons.prems by (simp add: i wf_instr_def)
  from decode_operands_bytes [OF this, of 0 "pre @ [opcode_byte op]" "concat (map instr_bytes is)"]
  have opnds: "decodeOperands 0 (length opds) all (length pre + 1)
      = Inr (opds, length (pre @ instr_bytes i))"
    by (simp add: all_def i instr_bytes_def)
  have len: "length pre < length all"
    by (simp add: all_def i instr_bytes_def)
  have "decode_from all (length pre) = Inr (located (length pre) (i # is))"
    unfolding decode_from.simps [of all "length pre"]
    using IH cnt opnds by (simp add: len byte i)
  then have "decode_from (pre @ concat (map instr_bytes (i # is))) (length pre)
      = Inr (located (length pre) (i # is))"
    by (simp add: all_def)
  then show ?case by simp
qed

section \<open>Properties of the decoder\<close>

text \<open>
  Property C15 (round trip).  Whatever sequence of well-formed instructions the emitters of the
  chunk write, \<open>decodeBytecode\<close> reads back exactly these instructions, each at the byte offset
  where it was emitted.
\<close>

theorem decode_emitted:
  assumes "list_all wf_instr is"
  shows "decodeBytecode (fold emit_instr is empty_chunk) = Inr (located 0 is)"
  using decode_instrs [OF assms, of "[]"]
  by (simp add: decodeBytecode_def code_fold_emit_instr empty_chunk_def)

definition sample_program :: "(opcode \<times> operand list) list" where
  "sample_program =
     [(OpPush, [\<lparr>op_tag = TReg, op_intVal = 300, op_strIdx = 0\<rparr>,
                \<lparr>op_tag = TImm64, op_intVal = -7, op_strIdx = 0\<rparr>]),
      (OpCall, [\<lparr>op_tag = TAddr, op_intVal = 0, op_strIdx = 0\<rparr>]),
      (OpHalt, [])]"

theorem decode_emitted_witness:
  "list_all wf_instr sample_program
   \<and> decodeBytecode (fold emit_instr sample_program empty_chunk) = Inr (located 0 sample_program)"
proof -
  have wf: "list_all wf_instr sample_program"
    by (simp add: sample_program_def wf_instr_def operandCountFor_def in_i64_def)
  show ?thesis using wf decode_emitted [OF wf] by simp
qed

lemma decodeOperands_length:
  "decodeOperands i n code ip = Inr (opds, ip') \<Longrightarrow> length opds = n"
  by (induction i n code ip arbitrary: opds ip' rule: decodeOperands.induct)
     (auto split: option.splits sum.splits)

lemma decodeOperandAt_reg:
  "decodeOperandAt code ip = Some (opd, ip') \<Longrightarrow> op_tag opd = TReg
     \<Longrightarrow> 0 \<le> op_intVal opd \<and> op_intVal opd < 4096"
proof -
  have b: "uint (b :: u8) < 4096" for b
    using unsigned_less [of b, where 'a = int] by simp
  show "decodeOperandAt code ip = Some (opd, ip') \<Longrightarrow> op_tag opd = TReg
     \<Longrightarrow> 0 \<le> op_intVal opd \<and> op_intVal opd < 4096"
    using b by (auto simp: decodeOperandAt_def Let_def
        split: if_splits option.splits operand_tag.splits)
qed

lemma decodeOperands_regs:
  "decodeOperands i n code ip = Inr (opds, ip') \<Longrightarrow> opd \<in> set opds \<Longrightarrow> op_tag opd = TReg
     \<Longrightarrow> 0 \<le> op_intVal opd \<and> op_intVal opd < 4096"
  by (induction i n code ip arbitrary: opds ip' rule: decodeOperands.induct)
     (fastforce split: option.splits sum.splits dest: decodeOperandAt_reg)+

definition instr_decoded :: "u8 list \<Rightarrow> instr \<Rightarrow> bool" where
  "instr_decoded code i \<longleftrightarrow>
     in_byteOffset i < length code
     \<and> opcode_of (code ! in_byteOffset i) = Some (in_op i)
     \<and> operandCountFor (in_op i) code (in_byteOffset i + 1) = Some (length (in_operands i))
     \<and> (\<forall>opd \<in> set (in_operands i). op_tag opd = TReg \<longrightarrow>
          0 \<le> op_intVal opd \<and> op_intVal opd < 4096)"

lemma decode_from_Inr_cases:
  assumes "decode_from code ip = Inr is" and "ip < length code"
  obtains op opds ip' rest where
    "opcode_of (code ! ip) = Some op"
    "operandCountFor op code (ip + 1) = Some (length opds)"
    "decodeOperands 0 (length opds) code (ip + 1) = Inr (opds, ip')"
    "decode_from code ip' = Inr rest" "ip < ip'"
    "is = \<lparr>in_op = op, in_byteOffset = ip, in_operands = opds\<rparr> # rest"
proof -
  from assms obtain op n opds ip' rest where *:
    "opcode_of (code ! ip) = Some op" "operandCountFor op code (ip + 1) = Some n"
    "decodeOperands 0 n code (ip + 1) = Inr (opds, ip')" "decode_from code ip' = Inr rest"
    "is = \<lparr>in_op = op, in_byteOffset = ip, in_operands = opds\<rparr> # rest"
    by (subst (asm) decode_from.simps)
       (auto split: option.splits sum.splits prod.splits bind_splits)
  moreover from *(3) have "length opds = n" "ip < ip'"
    by (auto dest: decodeOperands_length decodeOperands_advances)
  ultimately show ?thesis by (intro that) auto
qed

lemma decode_from_offsets:
  "decode_from code ip = Inr is \<Longrightarrow> i \<in> set is \<Longrightarrow> ip \<le> in_byteOffset i"
proof (induction code ip arbitrary: "is" rule: decode_from.induct)
  case (1 code ip)
  show ?case
  proof (cases "ip < length code")
    case True
    from 1(2) True show ?thesis
      by (rule decode_from_Inr_cases) (use 1(1) 1(3) True in \<open>fastforce\<close>)
  next
    case False
    with 1(2,3) show ?thesis by (simp add: decode_from.simps)
  qed
qed

lemma decode_from_instrs:
  "decode_from code ip = Inr is \<Longrightarrow>
     list_all (instr_decoded code) is \<and> sorted_wrt (<) (map in_byteOffset is)
     \<and> (ip < length code \<longrightarrow> is \<noteq> [] \<and> in_byteOffset (hd is) = ip)"
proof (induction code ip arbitrary: "is" rule: decode_from.induct)
  case (1 code ip)
  show ?case
  proof (cases "ip < length code")
    case False
    with 1(2) show ?thesis by (simp add: decode_from.simps)
  next
    case True
    with 1(2) show ?thesis
    proof (rule decode_from_Inr_cases)
      fix op opds ip' rest
      assume op: "opcode_of (code ! ip) = Some op"
        "operandCountFor op code (ip + 1) = Some (length opds)"
        "decodeOperands 0 (length opds) code (ip + 1) = Inr (opds, ip')"
        and rest: "decode_from code ip' = Inr rest" "ip < ip'"
        and "is": "is = \<lparr>in_op = op, in_byteOffset = ip, in_operands = opds\<rparr> # rest"
      have "list_all (instr_decoded code) rest \<and> sorted_wrt (<) (map in_byteOffset rest)"
        using 1(1) [OF True _ _ op(3) _ rest(1)] op by auto
      moreover have "\<forall>i \<in> set rest. ip < in_byteOffset i"
        using decode_from_offsets [OF rest(1)] rest(2) by fastforce
      moreover have "instr_decoded code \<lparr>in_op = op, in_byteOffset = ip, in_operands = opds\<rparr>"
        using op True decodeOperands_regs [OF op(3)] by (auto simp: instr_decoded_def)
      ultimately show ?thesis by (auto simp: "is")
    qed
  qed
qed

text \<open>
  Property C18 (type).  Every instruction of a successful decode starts at a byte that names
  its opcode, carries exactly the number of operands the opcode takes (so the interpreter's
  operand accesses are in range) and names registers below 4096; the instructions are in
  strictly increasing byte order.
\<close>

theorem decoded_instrs_wf:
  assumes "decodeBytecode c = Inr is"
  shows "list_all (instr_decoded (ch_code c)) is \<and> sorted_wrt (<) (map in_byteOffset is)"
  using decode_from_instrs [of "ch_code c" 0] assms by (simp add: decodeBytecode_def)

theorem decoded_instrs_wf_witness:
  "\<exists>is. decodeBytecode (empty_chunk\<lparr>ch_code := [0, 255]\<rparr>) = Inr is
     \<and> list_all (instr_decoded [0, 255]) is \<and> length is = 2"
proof -
  have d: "decodeBytecode (empty_chunk\<lparr>ch_code := [0, 255]\<rparr>) =
      Inr [\<lparr>in_op = OpNop, in_byteOffset = 0, in_operands = []\<rparr>,
           \<lparr>in_op = OpHalt, in_byteOffset = 1, in_operands = []\<rparr>]"
    by code_simp
  from decoded_instrs_wf [OF d] d show ?thesis by auto
qed

text \<open>
  A \<open>skip\<close> without operand is ambiguous: the opcode byte of \<open>pushr\<close> equals
  the \<open>Addr\<close> operand tag, so an operand-less \<open>skip\<close> followed by \<open>pushr r5; nop; nop\<close> is decoded as
  one \<open>skip\<close> with a jump target made of the following instruction bytes.
\<close>

lemma skip_pushr_bytes:
  "ch_code (fold emit_instr
      [(OpSkip, []), (OpPushR, [\<lparr>op_tag = TReg, op_intVal = 5, op_strIdx = 0\<rparr>]),
       (OpNop, []), (OpNop, [])] empty_chunk) = [51, 4, 1, 5, 0, 0]"
  by (simp add: code_emit_instr instr_bytes_def operand_bytes_def emit_defs empty_chunk_def
      opcode_byte_def tag_byte_def)

lemma opcode_of_51: "opcode_of 51 = Some OpSkip"
  using opcode_of_byte [of OpSkip] by (simp add: opcode_byte_def)

lemma tag_of_4: "tag_of 4 = Some TAddr"
  using tag_of_byte [of TAddr] by (simp add: tag_byte_def)

theorem skip_pushr_misdecoded:
  "decodeBytecode (fold emit_instr
      [(OpSkip, []), (OpPushR, [\<lparr>op_tag = TReg, op_intVal = 5, op_strIdx = 0\<rparr>]),
       (OpNop, []), (OpNop, [])] empty_chunk)
   = Inr [\<lparr>in_op = OpSkip, in_byteOffset = 0,
           in_operands = [\<lparr>op_tag = TAddr, op_intVal = 1281, op_strIdx = 0\<rparr>]\<rparr>]"
  unfolding decodeBytecode_def skip_pushr_bytes
  by (simp add: decode_from.simps opcode_of_51 operandCountFor_Skip decodeOperandAt_def tag_of_4
      tag_byte_def le_val_def)

end
