(* ===== verification/Lx_Heap.thy ===== *)
theory Lx_Heap
  imports Lx_Prelude
begin

text \<open>
  The handle heap of the VM (\<open>vm/Heap.hpp\<close>): a table of object slots over one byte arena, with
  size-class free lists.  A \<open>std::vector\<close> is a list in the same order (\<open>back\<close> is \<open>last\<close>), the
  array of small free lists and the map of large ones are functions from the cell count.
  32-bit arithmetic is written out with \<^const>\<open>u32_cast\<close>; the statistics counters do not wrap.
  An access of \<open>memory_\<close> outside its bounds is undefined behaviour in the source; the model
  returns \<open>None\<close> there, and the invariant \<open>heap_ok\<close> excludes it.
\<close>

section \<open>State\<close>

definition TAG_INT :: u8 where "TAG_INT = 0"
definition TAG_STR :: u8 where "TAG_STR = 1"
definition TAG_HEAP :: u8 where "TAG_HEAP = 2"
definition TAG_FLOAT :: u8 where "TAG_FLOAT = 3"
definition TAG_NULL :: u8 where "TAG_NULL = 4"

lemmas tag_defs = TAG_INT_def TAG_STR_def TAG_HEAP_def TAG_FLOAT_def TAG_NULL_def

definition INVALID :: nat where "INVALID = 4294967295"
definition SLOT_SIZE :: nat where "SLOT_SIZE = 9"
definition SMALL_CLASSES :: nat where "SMALL_CLASSES = 65"

record object_slot =
  payloadOffset :: nat
  cells :: nat
  logicalSize :: nat
  slotTypeId :: nat
  generation :: nat
  live :: bool

definition empty_slot :: object_slot where
  "empty_slot = \<lparr>payloadOffset = INVALID, cells = 0, logicalSize = 0, slotTypeId = 0,
     generation = 0, live = False\<rparr>"

record heap_stats =
  st_allocations :: nat
  st_reuses :: nat
  st_frees :: nat
  st_liveObjects :: nat
  st_peakLiveObjects :: nat
  st_bytesCommitted :: nat
  st_bytesLive :: nat
  st_bytesReused :: nat

definition zero_stats :: heap_stats where
  "zero_stats = \<lparr>st_allocations = 0, st_reuses = 0, st_frees = 0, st_liveObjects = 0,
     st_peakLiveObjects = 0, st_bytesCommitted = 0, st_bytesLive = 0, st_bytesReused = 0\<rparr>"

record heap =
  memory :: "u8 list"
  slots :: "object_slot list"
  freeHandles :: "nat list"
  slotCap :: nat
  freeSmall :: "nat \<Rightarrow> nat list"
  freeLarge :: "nat \<Rightarrow> nat list"
  stats :: heap_stats

text \<open>The constructor \<open>Heap()\<close>: slot 0 is reserved and never handed out.\<close>

definition Heap_init :: heap where
  "Heap_init = \<lparr>memory = [], slots = [empty_slot], freeHandles = [], slotCap = 0,
     freeSmall = (\<lambda>_. []), freeLarge = (\<lambda>_. []), stats = zero_stats\<rparr>"

section \<open>Operations\<close>

definition reserveSlots :: "nat \<Rightarrow> heap \<Rightarrow> heap" where
  "reserveSlots n h =
     (let old = u32_cast (length (slots h));
          h1 = (if n > old then
                  h\<lparr>slots := slots h @ replicate (n - length (slots h)) empty_slot,
                    freeHandles := freeHandles h @ [old..<n]\<rparr>
                else h)
      in h1\<lparr>slotCap := n\<rparr>)"

definition slotCapacity :: "heap \<Rightarrow> nat" where
  "slotCapacity h = u32_cast (length (slots h))"

definition valid :: "heap \<Rightarrow> nat \<Rightarrow> bool" where
  "valid h i \<longleftrightarrow> i < length (slots h) \<and> live (slots h ! i)"

definition getTypeId :: "heap \<Rightarrow> nat \<Rightarrow> nat" where
  "getTypeId h i = (if i < length (slots h) then slotTypeId (slots h ! i) else 0)"

definition cellCount :: "heap \<Rightarrow> nat \<Rightarrow> nat" where
  "cellCount h i = (if i < length (slots h) then cells (slots h ! i) else 0)"

definition free_list :: "heap \<Rightarrow> nat \<Rightarrow> nat list" where
  "free_list h c = (if c < SMALL_CLASSES then freeSmall h c else freeLarge h c)"

definition set_free_list :: "nat \<Rightarrow> nat list \<Rightarrow> heap \<Rightarrow> heap" where
  "set_free_list c xs h =
     (if c < SMALL_CLASSES then h\<lparr>freeSmall := (freeSmall h)(c := xs)\<rparr>
      else h\<lparr>freeLarge := (freeLarge h)(c := xs)\<rparr>)"

definition fill_zero :: "nat \<Rightarrow> nat \<Rightarrow> u8 list \<Rightarrow> u8 list" where
  "fill_zero off n mem = take off mem @ replicate n 0 @ drop (off + n) mem"

text \<open>\<open>(sizeBytes + SLOT_SIZE - 1) / SLOT_SIZE\<close> in 32-bit arithmetic, at least one cell.\<close>

definition cells_for :: "nat \<Rightarrow> nat" where
  "cells_for sizeBytes =
     (let c = u32_cast (sizeBytes + SLOT_SIZE - 1) div SLOT_SIZE in if c = 0 then 1 else c)"

text \<open>The payload part of \<open>alloc\<close>: reuse a block of the size class, or grow the arena.\<close>

definition take_payload :: "nat \<Rightarrow> heap \<Rightarrow> nat \<times> heap" where
  "take_payload c h =
     (let payloadBytes = c * SLOT_SIZE in
      if free_list h c \<noteq> [] then
        (let off = last (free_list h c);
             h1 = set_free_list c (butlast (free_list h c)) h in
         (off, h1\<lparr>memory := fill_zero off payloadBytes (memory h1),
                  stats := (stats h1)\<lparr>st_reuses := st_reuses (stats h1) + 1,
                      st_bytesReused := st_bytesReused (stats h1) + payloadBytes\<rparr>\<rparr>))
      else (u32_cast (length (memory h)),
            h\<lparr>memory := memory h @ replicate payloadBytes 0\<rparr>))"

text \<open>The handle part: pop a free handle, or grow the slot table up to the cap.\<close>

definition take_handle :: "heap \<Rightarrow> (nat \<times> heap) option" where
  "take_handle h =
     (if freeHandles h \<noteq> [] then
        Some (last (freeHandles h), h\<lparr>freeHandles := butlast (freeHandles h)\<rparr>)
      else if slotCap h \<noteq> 0 \<and> length (slots h) \<ge> slotCap h then None
      else Some (u32_cast (length (slots h)), h\<lparr>slots := slots h @ [empty_slot]\<rparr>))"

definition install_slot :: "nat \<Rightarrow> nat \<Rightarrow> nat \<Rightarrow> nat \<Rightarrow> nat \<Rightarrow> heap \<Rightarrow> heap" where
  "install_slot i off c sizeBytes ty h =
     (let s = slots h ! i;
          st = stats h;
          liveObjects = st_liveObjects st + 1 in
      h\<lparr>slots := (slots h)[i := s\<lparr>payloadOffset := off, cells := c, logicalSize := sizeBytes,
                                 slotTypeId := ty, live := True\<rparr>],
        stats := st\<lparr>st_allocations := st_allocations st + 1,
                    st_liveObjects := liveObjects,
                    st_bytesLive := st_bytesLive st + c * SLOT_SIZE,
                    st_peakLiveObjects := max (st_peakLiveObjects st) liveObjects,
                    st_bytesCommitted := length (memory h)\<rparr>\<rparr>)"

definition alloc :: "nat \<Rightarrow> nat \<Rightarrow> heap \<Rightarrow> nat \<times> heap" where
  "alloc sizeBytes ty h =
     (let c = cells_for sizeBytes;
          (off, h1) = take_payload c h in
      case take_handle h1 of
        None \<Rightarrow> (INVALID, h1)
      | Some (i, h2) \<Rightarrow> (i, install_slot i off c sizeBytes ty h2))"

definition freePayload :: "nat \<Rightarrow> heap \<Rightarrow> heap" where
  "freePayload i h =
     (if \<not> valid h i then h
      else let s = slots h ! i;
               payloadBytes = cells s * SLOT_SIZE;
               h1 = set_free_list (cells s) (free_list h (cells s) @ [payloadOffset s]) h;
               st = stats h1 in
        h1\<lparr>slots := (slots h1)[i := s\<lparr>live := False, payloadOffset := INVALID, cells := 0,
                                    logicalSize := 0, slotTypeId := 0,
                                    generation := u32_cast (generation s + 1)\<rparr>],
           freeHandles := freeHandles h1 @ [i],
           stats := st\<lparr>st_bytesLive := st_bytesLive st - payloadBytes,
                       st_frees := st_frees st + 1,
                       st_liveObjects := st_liveObjects st - 1\<rparr>\<rparr>)"

definition access_ok :: "object_slot \<Rightarrow> nat \<Rightarrow> bool" where
  "access_ok s byteOff \<longleftrightarrow>
     \<not> (byteOff > logicalSize s \<or> SLOT_SIZE > logicalSize s - byteOff)"

definition cell_bytes :: "int \<Rightarrow> u8 \<Rightarrow> u8 list" where
  "cell_bytes val tag = le_bytes 8 (i64_to_u64 val) @ [tag]"

definition cell_of_bytes :: "u8 list \<Rightarrow> int \<times> u8" where
  "cell_of_bytes bs = (u64_to_i64 (le_val (take 8 bs)), bs ! 8)"

definition write_at :: "nat \<Rightarrow> u8 list \<Rightarrow> u8 list \<Rightarrow> u8 list" where
  "write_at off bs mem = take off mem @ bs @ drop (off + length bs) mem"

text \<open>
  \<open>storeCell\<close> and \<open>loadCell\<close>: the nine bytes at the 32-bit offset \<open>payloadOffset + byteOff\<close>.
\<close>

definition storeCell :: "nat \<Rightarrow> nat \<Rightarrow> int \<Rightarrow> u8 \<Rightarrow> heap \<Rightarrow> (bool \<times> heap) option" where
  "storeCell i byteOff val tag h =
     (if i \<ge> length (slots h) then Some (False, h)
      else let s = slots h ! i in
        if \<not> live s \<or> payloadOffset s = INVALID then Some (False, h)
        else if \<not> access_ok s byteOff then Some (False, h)
        else let off = u32_cast (payloadOffset s + byteOff) in
          if off + 9 \<le> length (memory h)
          then Some (True, h\<lparr>memory := write_at off (cell_bytes val tag) (memory h)\<rparr>)
          else None)"

definition loadCell :: "nat \<Rightarrow> nat \<Rightarrow> heap \<Rightarrow> (int \<times> u8) option option" where
  "loadCell i byteOff h =
     (if i \<ge> length (slots h) then Some None
      else let s = slots h ! i in
        if \<not> live s \<or> payloadOffset s = INVALID then Some None
        else if \<not> access_ok s byteOff then Some None
        else let off = u32_cast (payloadOffset s + byteOff) in
          if off + 9 \<le> length (memory h)
          then Some (Some (cell_of_bytes (take 9 (drop off (memory h)))))
          else None)"

text \<open>\<open>cellAt\<close> throws \<open>HeapInvariantError\<close> (\<open>Inl\<close>) where \<open>loadCell\<close> yields no cell.\<close>

definition cellAt :: "nat \<Rightarrow> nat \<Rightarrow> heap \<Rightarrow> (string + int \<times> u8) option" where
  "cellAt i index h =
     (case loadCell i (u32_cast (index * SLOT_SIZE)) h of
        None \<Rightarrow> None
      | Some None \<Rightarrow> Some (Inl ''collector accessed an invalid heap cell'')
      | Some (Some c) \<Rightarrow> Some (Inr c))"

section \<open>Invariant and abstract view\<close>

text \<open>
  Every block of the arena is owned by at most one key: a live slot or an entry of a free list.
\<close>

datatype block_key = Live nat | Free nat nat

definition block_of :: "heap \<Rightarrow> block_key \<Rightarrow> (nat \<times> nat) option" where
  "block_of h k =
     (case k of
        Live i \<Rightarrow> (if valid h i then Some (payloadOffset (slots h ! i), cells (slots h ! i)) else None)
      | Free c j \<Rightarrow> (if j < length (free_list h c) then Some (free_list h c ! j, c) else None))"

definition block_disj :: "nat \<times> nat \<Rightarrow> nat \<times> nat \<Rightarrow> bool" where
  "block_disj a b \<longleftrightarrow> fst a + snd a * 9 \<le> fst b \<or> fst b + snd b * 9 \<le> fst a"

definition blocks_ok :: "nat \<Rightarrow> (block_key \<Rightarrow> (nat \<times> nat) option) \<Rightarrow> bool" where
  "blocks_ok n B \<longleftrightarrow>
     (\<forall>k b. B k = Some b \<longrightarrow> 1 \<le> snd b \<and> fst b + snd b * 9 \<le> n)
     \<and> (\<forall>k l b d. k \<noteq> l \<longrightarrow> B k = Some b \<longrightarrow> B l = Some d \<longrightarrow> block_disj b d)"

definition slot_ok :: "object_slot \<Rightarrow> bool" where
  "slot_ok s \<longleftrightarrow> (live s \<longrightarrow> cells s = cells_for (logicalSize s) \<and> logicalSize s + 8 < 2 ^ 32)"

definition heap_ok :: "heap \<Rightarrow> bool" where
  "heap_ok h \<longleftrightarrow>
     0 < length (slots h) \<and> length (slots h) < 2 ^ 32 \<and> length (memory h) \<le> 2 ^ 32
     \<and> \<not> live (slots h ! 0)
     \<and> distinct (freeHandles h)
     \<and> set (freeHandles h) = {i. 0 < i \<and> i < length (slots h) \<and> \<not> live (slots h ! i)}
     \<and> (\<forall>i < length (slots h). slot_ok (slots h ! i))
     \<and> blocks_ok (length (memory h)) (block_of h)"

text \<open>
  The abstract heap: a live handle maps to its type and its payload bytes, every other number
  to nothing.
\<close>

definition view :: "heap \<Rightarrow> nat \<Rightarrow> (nat \<times> u8 list) option" where
  "view h i =
     (if valid h i
      then Some (slotTypeId (slots h ! i),
                 take (logicalSize (slots h ! i)) (drop (payloadOffset (slots h ! i)) (memory h)))
      else None)"

subsection \<open>Block bookkeeping\<close>

lemma blocks_ok_drop: "blocks_ok n B \<Longrightarrow> blocks_ok n (B(k := None))"
  by (auto simp: blocks_ok_def)

lemma blocks_ok_grow: "blocks_ok n B \<Longrightarrow> n \<le> m \<Longrightarrow> blocks_ok m B"
  unfolding blocks_ok_def by (meson order_trans)

lemma block_disj_sym: "block_disj a b \<longleftrightarrow> block_disj b a"
  by (auto simp: block_disj_def)

lemma blocks_ok_add:
  assumes "blocks_ok n B" and "1 \<le> c" and "off + c * 9 \<le> n"
    and "\<And>l d. l \<noteq> k \<Longrightarrow> B l = Some d \<Longrightarrow> block_disj (off, c) d"
  shows "blocks_ok n (B(k \<mapsto> (off, c)))"
proof -
  have "block_disj d (off, c)" if "k \<noteq> l" "B l = Some d" for l d
    using assms(4) [of l d] that block_disj_sym by metis
  moreover have "block_disj (off, c) d" if "k \<noteq> l" "B l = Some d" for l d
    using assms(4) that by metis
  ultimately show ?thesis
    using assms(1,2,3) unfolding blocks_ok_def fun_upd_apply
    by (metis fst_conv option.inject snd_conv)
qed

lemma blocks_ok_move:
  assumes "blocks_ok n B" and "B k = Some b"
  shows "blocks_ok n (B(k := None, l \<mapsto> b))"
proof -
  have "blocks_ok n (B(k := None))"
    using assms(1) by (rule blocks_ok_drop)
  moreover have "block_disj b d" if "m \<noteq> l" "(B(k := None)) m = Some d" for m d
    using assms that unfolding blocks_ok_def by (metis fun_upd_apply option.distinct(1))
  ultimately show ?thesis
    using assms blocks_ok_add [of n "B(k := None)" "snd b" "fst b" l]
    by (auto simp: blocks_ok_def)
qed

lemma free_list_set_free_list [simp]:
  "free_list (set_free_list c xs h) d = (if d = c then xs else free_list h d)"
  by (auto simp: free_list_def set_free_list_def)

lemma set_free_list_simps [simp]:
  "memory (set_free_list c xs h) = memory h" "slots (set_free_list c xs h) = slots h"
  "freeHandles (set_free_list c xs h) = freeHandles h" "slotCap (set_free_list c xs h) = slotCap h"
  "stats (set_free_list c xs h) = stats h"
  by (simp_all add: set_free_list_def)

lemma free_list_update_simps [simp]:
  "free_list (h\<lparr>memory := m\<rparr>) c = free_list h c"
  "free_list (h\<lparr>slots := s\<rparr>) c = free_list h c"
  "free_list (h\<lparr>freeHandles := f\<rparr>) c = free_list h c"
  "free_list (h\<lparr>stats := st\<rparr>) c = free_list h c"
  by (simp_all add: free_list_def)

lemma valid_update_simps [simp]:
  "valid (h\<lparr>memory := m\<rparr>) i = valid h i"
  "valid (h\<lparr>freeHandles := f\<rparr>) i = valid h i"
  "valid (h\<lparr>stats := st\<rparr>) i = valid h i"
  "valid (set_free_list c xs h) i = valid h i"
  by (simp_all add: valid_def)

lemma block_of_update_simps [simp]:
  "block_of (h\<lparr>memory := m\<rparr>) = block_of h"
  "block_of (h\<lparr>freeHandles := f\<rparr>) = block_of h"
  "block_of (h\<lparr>stats := st\<rparr>) = block_of h"
  by (auto simp: block_of_def fun_eq_iff split: block_key.splits)

subsection \<open>Bytes of a block\<close>

lemma length_write_at [simp]: "off + length bs \<le> length mem \<Longrightarrow> length (write_at off bs mem) = length mem"
  by (simp add: write_at_def)

lemma write_at_other:
  assumes "off + length bs \<le> length mem" and "p + n \<le> off \<or> off + length bs \<le> p"
  shows "take n (drop p (write_at off bs mem)) = take n (drop p mem)"
proof (cases "p + n \<le> off")
  case True
  then show ?thesis
    using assms by (simp add: write_at_def take_drop min_def)
next
  case False
  with assms have "off + length bs \<le> p" by simp
  then have "drop p (write_at off bs mem) = drop p mem"
    using assms by (simp add: write_at_def)
  then show ?thesis by simp
qed

lemma write_at_inside:
  assumes "off + length bs \<le> n" and "p + n \<le> length mem"
  shows "take n (drop p (write_at (p + off) bs mem)) = write_at off bs (take n (drop p mem))"
  using assms
  by (intro nth_equalityI) (auto simp: write_at_def nth_append add.assoc)

lemma write_at_same:
  "off + length bs \<le> length mem \<Longrightarrow> take (length bs) (drop off (write_at off bs mem)) = bs"
  by (simp add: write_at_def)

lemma fill_zero_write_at: "fill_zero off n mem = write_at off (replicate n 0) mem"
  by (simp add: fill_zero_def write_at_def)

lemma length_cell_bytes [simp]: "length (cell_bytes v t) = 9"
  by (simp add: cell_bytes_def)

lemma cell_wraps: "cell_of_bytes (cell_bytes v t) = (u64_to_i64 (i64_to_u64 v), t)"
  by (simp add: cell_of_bytes_def cell_bytes_def nth_append)

lemma cell_roundtrip: "in_i64 v \<Longrightarrow> cell_of_bytes (cell_bytes v t) = (v, t)"
  by (simp add: cell_of_bytes_def cell_bytes_def nth_append)

lemma zero_cell: "cell_of_bytes (replicate 9 0) = (0, TAG_INT)"
proof -
  have "le_bytes 8 0 = replicate 8 0"
    by (intro nth_equalityI) (simp_all add: le_bytes_def byte_at_def)
  then have "replicate 9 0 = cell_bytes 0 0"
    using replicate_add [of 8 1 "0 :: u8"] by (simp add: cell_bytes_def i64_to_u64_def)
  then show ?thesis
    by (simp add: cell_roundtrip in_i64_def TAG_INT_def)
qed

lemma cells_for_pos [simp]: "0 < cells_for n"
  by (simp add: cells_for_def Let_def)

lemma cells_for_fits:
  assumes "n + 8 < 2 ^ 32"
  shows "n \<le> cells_for n * 9"
proof -
  have "u32_cast (n + SLOT_SIZE - 1) = n + 8"
    using assms by (simp add: SLOT_SIZE_def)
  then show ?thesis by (auto simp: cells_for_def SLOT_SIZE_def Let_def)
qed

lemma cells_for_exact: "1 \<le> k \<Longrightarrow> k * 9 + 8 < 2 ^ 32 \<Longrightarrow> cells_for (k * 9) = k"
  by (simp add: cells_for_def SLOT_SIZE_def Let_def)

lemma heap_ok_slot:
  assumes "heap_ok h" and "valid h i"
  shows "cells (slots h ! i) = cells_for (logicalSize (slots h ! i))"
    and "logicalSize (slots h ! i) \<le> cells (slots h ! i) * 9"
    and "payloadOffset (slots h ! i) + cells (slots h ! i) * 9 \<le> length (memory h)"
    and "payloadOffset (slots h ! i) + 9 \<le> 2 ^ 32"
    and "logicalSize (slots h ! i) + 8 < 2 ^ 32"
proof -
  show c: "cells (slots h ! i) = cells_for (logicalSize (slots h ! i))"
    and l: "logicalSize (slots h ! i) + 8 < 2 ^ 32"
    using assms by (auto simp: heap_ok_def slot_ok_def valid_def)
  from c l show "logicalSize (slots h ! i) \<le> cells (slots h ! i) * 9"
    by (simp add: cells_for_fits)
  have b: "block_of h (Live i) = Some (payloadOffset (slots h ! i), cells (slots h ! i))"
    using assms(2) by (simp add: block_of_def)
  from assms(1) have "blocks_ok (length (memory h)) (block_of h)" by (simp add: heap_ok_def)
  with b show m: "payloadOffset (slots h ! i) + cells (slots h ! i) * 9 \<le> length (memory h)"
    by (auto simp: blocks_ok_def)
  have "0 < cells (slots h ! i)" by (simp add: c)
  with m assms(1) show "payloadOffset (slots h ! i) + 9 \<le> 2 ^ 32"
    by (simp add: heap_ok_def)
qed

lemma heap_ok_disj:
  assumes "heap_ok h" and "valid h i" and "valid h j" and "i \<noteq> j"
  shows "block_disj (payloadOffset (slots h ! i), cells (slots h ! i))
           (payloadOffset (slots h ! j), cells (slots h ! j))"
proof -
  from assms(1) have "blocks_ok (length (memory h)) (block_of h)" by (simp add: heap_ok_def)
  moreover have "block_of h (Live i) = Some (payloadOffset (slots h ! i), cells (slots h ! i))"
    "block_of h (Live j) = Some (payloadOffset (slots h ! j), cells (slots h ! j))"
    using assms by (simp_all add: block_of_def)
  ultimately show ?thesis
    using assms(4) unfolding blocks_ok_def by (metis block_key.inject(1))
qed

lemma length_view: "heap_ok h \<Longrightarrow> view h i = Some (ty, bs) \<Longrightarrow> length bs = logicalSize (slots h ! i)"
  using heap_ok_slot [of h i] by (auto simp: view_def split: if_splits)

subsection \<open>Allocation\<close>

definition fresh_block :: "nat \<Rightarrow> nat \<Rightarrow> heap \<Rightarrow> bool" where
  "fresh_block off c h \<longleftrightarrow>
     blocks_ok (length (memory h)) (block_of h) \<and> off + c * 9 \<le> length (memory h)
     \<and> length (memory h) \<le> 2 ^ 32
     \<and> (\<forall>l d. block_of h l = Some d \<longrightarrow> block_disj (off, c) d)
     \<and> take (c * 9) (drop off (memory h)) = replicate (c * 9) 0"

lemma take_payload_slots:
  "take_payload c h = (off, h1) \<Longrightarrow>
     slots h1 = slots h \<and> freeHandles h1 = freeHandles h \<and> slotCap h1 = slotCap h"
  by (auto simp: take_payload_def Let_def split: if_splits)

lemma take_payload_fresh:
  assumes ok: "heap_ok h" and c: "1 \<le> c"
    and room: "free_list h c \<noteq> [] \<or> length (memory h) + c * 9 \<le> 2 ^ 32"
    and tp: "take_payload c h = (off, h1)"
  shows "fresh_block off c h1"
proof (cases "free_list h c = []")
  case True
  with room have "length (memory h) < 4294967296" using c by simp
  with True tp have off: "off = length (memory h)"
    and h1: "h1 = h\<lparr>memory := memory h @ replicate (c * 9) 0\<rparr>"
    by (auto simp: take_payload_def Let_def SLOT_SIZE_def)
  from ok have b: "blocks_ok (length (memory h)) (block_of h)" by (simp add: heap_ok_def)
  then have "blocks_ok (length (memory h1)) (block_of h1)"
    unfolding h1 by (simp add: blocks_ok_grow)
  moreover have "block_disj (off, c) d" if "block_of h1 l = Some d" for l d
    using b that unfolding h1 off by (auto simp: blocks_ok_def block_disj_def)
  ultimately show ?thesis
    using room True by (auto simp: fresh_block_def h1 off)
next
  case False
  let ?k = "Free c (length (free_list h c) - 1)"
  from False tp have off: "off = last (free_list h c)" by (auto simp: take_payload_def Let_def)
  from False have bk: "block_of h ?k = Some (off, c)"
    by (simp add: block_of_def off last_conv_nth)
  from False tp have bh1: "block_of h1 = (block_of h)(?k := None)"
    by (auto simp: take_payload_def Let_def block_of_def fun_eq_iff nth_butlast valid_def
        split: block_key.splits if_splits)
  from False tp have m1: "memory h1 = write_at off (replicate (c * 9) 0) (memory h)"
    by (auto simp: take_payload_def Let_def off fill_zero_write_at SLOT_SIZE_def)
  from ok have b: "blocks_ok (length (memory h)) (block_of h)" by (simp add: heap_ok_def)
  with bk have fits: "off + c * 9 \<le> length (memory h)" by (auto simp: blocks_ok_def)
  have len: "length (memory h1) = length (memory h)"
    using fits by (simp add: m1)
  have "blocks_ok (length (memory h1)) (block_of h1)"
    unfolding len bh1 using b by (rule blocks_ok_drop)
  moreover have "block_disj (off, c) d" if "block_of h1 l = Some d" for l d
    using b bk that unfolding bh1 blocks_ok_def by (metis fun_upd_apply option.distinct(1))
  moreover have "take (c * 9) (drop off (memory h1)) = replicate (c * 9) 0"
    using write_at_same [of off "replicate (c * 9) 0" "memory h"] fits by (simp add: m1)
  ultimately show ?thesis
    using fits len ok by (simp add: fresh_block_def heap_ok_def)
qed

lemma take_payload_others:
  assumes ok: "heap_ok h" and tp: "take_payload c h = (off, h1)"
    and v: "valid h i" and n: "n \<le> cells (slots h ! i) * 9"
  shows "take n (drop (payloadOffset (slots h ! i)) (memory h1))
         = take n (drop (payloadOffset (slots h ! i)) (memory h))"
proof (cases "free_list h c = []")
  case True
  with tp have "memory h1 = memory h @ replicate (c * 9) 0"
    by (auto simp: take_payload_def Let_def SLOT_SIZE_def)
  with heap_ok_slot(3) [OF ok v] n show ?thesis by simp
next
  case False
  let ?k = "Free c (length (free_list h c) - 1)"
  from False tp have off: "off = last (free_list h c)" by (auto simp: take_payload_def Let_def)
  from False have bk: "block_of h ?k = Some (off, c)"
    by (simp add: block_of_def off last_conv_nth)
  from False tp have m1: "memory h1 = write_at off (replicate (c * 9) 0) (memory h)"
    by (auto simp: take_payload_def Let_def off fill_zero_write_at SLOT_SIZE_def)
  from ok have b: "blocks_ok (length (memory h)) (block_of h)" by (simp add: heap_ok_def)
  have bi: "block_of h (Live i) = Some (payloadOffset (slots h ! i), cells (slots h ! i))"
    using v by (simp add: block_of_def)
  from b bk bi have "block_disj (off, c) (payloadOffset (slots h ! i), cells (slots h ! i))"
    unfolding blocks_ok_def by (metis block_key.distinct(1))
  moreover from b bk have "off + c * 9 \<le> length (memory h)" by (auto simp: blocks_ok_def)
  ultimately show ?thesis
    unfolding m1 using n by (intro write_at_other) (auto simp: block_disj_def)
qed

lemma take_handle_spec:
  assumes th: "take_handle h = Some (i, h2)"
    and fh: "distinct (freeHandles h)"
      "set (freeHandles h) = {j. 0 < j \<and> j < length (slots h) \<and> \<not> live (slots h ! j)}"
    and len: "0 < length (slots h)" "length (slots h) + 1 < 2 ^ 32"
  shows "0 < i \<and> i < length (slots h2) \<and> length (slots h2) \<le> length (slots h) + 1
    \<and> \<not> valid h i \<and> \<not> live (slots h2 ! i)
    \<and> memory h2 = memory h \<and> free_list h2 = free_list h
    \<and> (\<forall>j < length (slots h). slots h2 ! j = slots h ! j)
    \<and> length (slots h) \<le> length (slots h2)
    \<and> (\<forall>j. length (slots h) \<le> j \<longrightarrow> j < length (slots h2) \<longrightarrow> j = i)
    \<and> distinct (freeHandles h2)
    \<and> set (freeHandles h2)
        = {j. 0 < j \<and> j < length (slots h2) \<and> \<not> live (slots h2 ! j) \<and> j \<noteq> i}"
proof (cases "freeHandles h = []")
  case True
  with th have i: "i = length (slots h)" and h2: "h2 = h\<lparr>slots := slots h @ [empty_slot]\<rparr>"
    using len by (auto simp: take_handle_def split: if_splits)
  from True fh(2) have nodead: "\<And>j. 0 < j \<Longrightarrow> j < length (slots h) \<Longrightarrow> live (slots h ! j)"
    by auto
  show ?thesis
    using len nodead True
    by (auto simp: i h2 valid_def nth_append empty_slot_def less_Suc_eq fun_eq_iff)
next
  case False
  with th have i: "i = last (freeHandles h)" and h2: "h2 = h\<lparr>freeHandles := butlast (freeHandles h)\<rparr>"
    by (auto simp: take_handle_def)
  from False have "i \<in> set (freeHandles h)" by (simp add: i)
  with fh(2) have "0 < i" "i < length (slots h)" "\<not> live (slots h ! i)" by auto
  moreover from False fh(1) have "distinct (butlast (freeHandles h))"
      "set (butlast (freeHandles h)) = set (freeHandles h) - {i}"
    by (simp_all add: i distinct_butlast set_butlast)
  ultimately show ?thesis
    using fh(2) by (auto simp: h2 valid_def fun_eq_iff)
qed

definition alloc_room :: "nat \<Rightarrow> heap \<Rightarrow> bool" where
  "alloc_room sizeBytes h \<longleftrightarrow>
     sizeBytes + 8 < 2 ^ 32 \<and> length (slots h) + 1 < 2 ^ 32
     \<and> (free_list h (cells_for sizeBytes) \<noteq> []
        \<or> length (memory h) + cells_for sizeBytes * 9 \<le> 2 ^ 32)"

lemma view_take_payload:
  assumes ok: "heap_ok h" and tp: "take_payload c h = (off, h1)"
  shows "view h1 = view h"
proof
  fix j
  have sl: "slots h1 = slots h" using take_payload_slots [OF tp] by simp
  show "view h1 j = view h j"
  proof (cases "valid h j")
    case True
    with take_payload_others [OF ok tp True heap_ok_slot(2) [OF ok True]] sl show ?thesis
      by (simp add: view_def valid_def)
  next
    case False
    then show ?thesis using sl by (auto simp: view_def valid_def)
  qed
qed

lemma block_of_install:
  assumes "i < length (slots h)"
  shows "block_of (install_slot i off c sz ty h) = (block_of h)(Live i \<mapsto> (off, c))"
  using assms
  by (auto simp: block_of_def install_slot_def Let_def valid_def fun_eq_iff free_list_def
      nth_list_update split: block_key.splits)

lemma block_of_cong:
  assumes "free_list h2 = free_list h1" and "\<And>j. valid h2 j = valid h1 j"
    and "\<And>j. valid h1 j \<Longrightarrow> slots h2 ! j = slots h1 ! j"
  shows "block_of h2 = block_of h1"
  using assms by (auto simp: block_of_def fun_eq_iff split: block_key.splits)

lemma alloc_Some:
  assumes ok: "heap_ok h" and room: "alloc_room sz h"
    and tp: "take_payload (cells_for sz) h = (off, h1)" and th: "take_handle h1 = Some (i, h2)"
  shows "heap_ok (install_slot i off (cells_for sz) sz ty h2)
     \<and> 0 < i \<and> i < INVALID \<and> view h i = None
     \<and> view (install_slot i off (cells_for sz) sz ty h2) = (view h)(i \<mapsto> (ty, replicate sz 0))"
proof -
  let ?c = "cells_for sz" and ?h' = "install_slot i off (cells_for sz) sz ty h2"
  have s1: "slots h1 = slots h" "freeHandles h1 = freeHandles h"
    using take_payload_slots [OF tp] by simp_all
  have fresh: "fresh_block off ?c h1"
    using ok room tp by (intro take_payload_fresh) (auto simp: alloc_room_def Suc_le_eq)
  from th ok room have t: "0 < i" "i < length (slots h2)" "length (slots h2) \<le> length (slots h) + 1"
      "\<not> valid h i" "\<not> live (slots h2 ! i)" "memory h2 = memory h1" "free_list h2 = free_list h1"
      "\<forall>j < length (slots h). slots h2 ! j = slots h ! j" "length (slots h) \<le> length (slots h2)"
      "\<forall>j. length (slots h) \<le> j \<longrightarrow> j < length (slots h2) \<longrightarrow> j = i" "distinct (freeHandles h2)"
      "set (freeHandles h2) = {j. 0 < j \<and> j < length (slots h2) \<and> \<not> live (slots h2 ! j) \<and> j \<noteq> i}"
    using take_handle_spec [OF th] s1 by (simp_all add: heap_ok_def alloc_room_def valid_def)
  have val2: "valid h2 j = valid h j" for j
    using t s1 unfolding valid_def by (metis less_le_trans not_le)
  have blk: "block_of h2 = block_of h1"
    using t s1 val2 by (intro block_of_cong) (auto simp: valid_def)
  have bh: "block_of ?h' = (block_of h1)(Live i \<mapsto> (off, ?c))"
    using t(2) by (simp add: block_of_install blk)
  have bok: "blocks_ok (length (memory h1)) (block_of ?h')"
    unfolding bh using fresh by (intro blocks_ok_add) (auto simp: fresh_block_def Suc_le_eq)
  have mem': "memory ?h' = memory h1"
    by (simp add: install_slot_def Let_def t(6))
  have sl': "slots ?h' = (slots h2)[i := (slots h2 ! i)\<lparr>payloadOffset := off, cells := ?c,
      logicalSize := sz, slotTypeId := ty, live := True\<rparr>]"
    by (simp add: install_slot_def Let_def)
  have fh': "freeHandles ?h' = freeHandles h2"
    by (simp add: install_slot_def Let_def)
  have okslots: "slot_ok (slots ?h' ! j)" if "j < length (slots ?h')" for j
  proof (cases "j = i")
    case True
    with t(2) room show ?thesis by (simp add: sl' slot_ok_def alloc_room_def)
  next
    case False
    with that t ok have "j < length (slots h)" by (simp add: sl') (metis not_le)
    with False t(8) ok show ?thesis by (simp add: sl' heap_ok_def)
  qed
  have "heap_ok ?h'"
    unfolding heap_ok_def mem' fh'
    using bok okslots fresh t ok room
    by (auto simp: sl' fresh_block_def heap_ok_def alloc_room_def nth_list_update)
  moreover have "view ?h' j = ((view h)(i \<mapsto> (ty, replicate sz 0))) j" for j
  proof (cases "j = i")
    case True
    have "sz \<le> ?c * 9" using room by (intro cells_for_fits) (simp add: alloc_room_def)
    then have "take sz (drop off (memory h1)) = take sz (take (?c * 9) (drop off (memory h1)))"
      by (simp add: min_def)
    also have "\<dots> = replicate sz 0"
      using fresh \<open>sz \<le> ?c * 9\<close> by (simp add: fresh_block_def)
    finally show ?thesis
      using True t(2) by (simp add: view_def valid_def sl' mem')
  next
    case False
    have "view ?h' j = view h1 j"
      using False val2 [of j] t(8) s1 by (auto simp: view_def sl' mem' valid_def)
    then show ?thesis
      using False view_take_payload [OF ok tp] by simp
  qed
  ultimately show ?thesis
    using t room by (auto simp: view_def INVALID_def alloc_room_def fun_eq_iff)
qed

lemma alloc_correct:
  assumes ok: "heap_ok h" and room: "alloc_room sz h" and a: "alloc sz ty h = (i, h')"
  shows "heap_ok h' \<and>
     (if i = INVALID then view h' = view h
      else 0 < i \<and> i < INVALID \<and> view h i = None \<and> view h' = (view h)(i \<mapsto> (ty, replicate sz 0)))"
proof -
  obtain off h1 where tp: "take_payload (cells_for sz) h = (off, h1)" by fastforce
  show ?thesis
  proof (cases "take_handle h1")
    case None
    with a tp have "i = INVALID" "h' = h1" by (auto simp: alloc_def Let_def)
    moreover have "fresh_block off (cells_for sz) h1"
      using ok room tp by (intro take_payload_fresh) (auto simp: alloc_room_def Suc_le_eq)
    ultimately show ?thesis
      using view_take_payload [OF ok tp] take_payload_slots [OF tp] ok
      by (auto simp: heap_ok_def fresh_block_def)
  next
    case (Some p)
    obtain j h2 where p: "p = (j, h2)" by fastforce
    with Some a tp have "i = j" "h' = install_slot j off (cells_for sz) sz ty h2"
      by (auto simp: alloc_def Let_def)
    with alloc_Some [OF ok room tp, of j h2 ty] Some p show ?thesis by auto
  qed
qed

subsection \<open>Release\<close>

lemma freePayload_correct:
  assumes ok: "heap_ok h"
  shows "heap_ok (freePayload i h) \<and> view (freePayload i h) = (view h)(i := None)"
proof (cases "valid h i")
  case False
  then show ?thesis using ok by (auto simp: freePayload_def view_def fun_eq_iff)
next
  case True
  define s where "s = slots h ! i"
  define h' where "h' = freePayload i h"
  have mem: "memory h' = memory h" and sl: "slots h' = (slots h)[i := s\<lparr>live := False,
      payloadOffset := INVALID, cells := 0, logicalSize := 0, slotTypeId := 0,
      generation := u32_cast (generation s + 1)\<rparr>]"
    and fh: "freeHandles h' = freeHandles h @ [i]"
    using True by (simp_all add: h'_def freePayload_def Let_def s_def)
  have fl: "free_list h' c = (if c = cells s then free_list h c @ [payloadOffset s] else free_list h c)"
    for c
    using True by (simp add: h'_def freePayload_def Let_def s_def)
  have i: "i < length (slots h)" "live s" "0 < i"
    using True ok by (auto simp: valid_def s_def heap_ok_def intro!: gr0I)
  have bh: "block_of h' = (block_of h)(Live i := None,
      Free (cells s) (length (free_list h (cells s))) \<mapsto> (payloadOffset s, cells s))"
    using i by (auto simp: block_of_def fun_eq_iff valid_def sl fl nth_append nth_list_update
        split: block_key.splits)
  have "block_of h (Live i) = Some (payloadOffset s, cells s)"
    using True by (simp add: block_of_def s_def)
  with ok have "blocks_ok (length (memory h')) (block_of h')"
    unfolding bh mem by (intro blocks_ok_move) (simp_all add: heap_ok_def)
  moreover have "slot_ok (slots h' ! j)" if "j < length (slots h')" for j
    using that ok i by (cases "j = i") (auto simp: sl slot_ok_def heap_ok_def)
  moreover have "i \<notin> set (freeHandles h)"
    using ok i by (auto simp: heap_ok_def s_def)
  moreover have "set (freeHandles h') = {j. 0 < j \<and> j < length (slots h') \<and> \<not> live (slots h' ! j)}"
    using ok i by (auto simp: fh sl heap_ok_def nth_list_update)
  ultimately have "heap_ok h'"
    using ok i unfolding heap_ok_def by (auto simp: mem sl fh)
  moreover have "view h' = (view h)(i := None)"
    using i by (auto simp: view_def fun_eq_iff valid_def sl mem nth_list_update)
  ultimately show ?thesis by (simp add: h'_def)
qed

subsection \<open>Cells\<close>

lemma storeCell_correct:
  assumes ok: "heap_ok h"
  shows "case view h i of
     None \<Rightarrow> storeCell i off v t h = Some (False, h)
   | Some (ty, bs) \<Rightarrow>
       if off + 9 \<le> length bs
       then \<exists>h'. storeCell i off v t h = Some (True, h') \<and> heap_ok h'
              \<and> view h' = (view h)(i \<mapsto> (ty, write_at off (cell_bytes v t) bs))
       else storeCell i off v t h = Some (False, h)"
proof (cases "valid h i")
  case False
  then show ?thesis by (auto simp: view_def storeCell_def valid_def Let_def)
next
  case True
  define s where "s = slots h ! i"
  note sl = heap_ok_slot [OF ok True, folded s_def]
  have i: "i < length (slots h)" "live s" using True by (auto simp: valid_def s_def)
  have bs: "view h i = Some (slotTypeId s, take (logicalSize s) (drop (payloadOffset s) (memory h)))"
    using True by (simp add: view_def s_def)
  have len: "length (take (logicalSize s) (drop (payloadOffset s) (memory h))) = logicalSize s"
    using sl by simp
  have acc: "access_ok s off \<longleftrightarrow> off + 9 \<le> logicalSize s"
    by (auto simp: access_ok_def SLOT_SIZE_def)
  have inv: "payloadOffset s \<noteq> INVALID" using sl(4) by (simp add: INVALID_def)
  show ?thesis
  proof (cases "off + 9 \<le> logicalSize s")
    case False
    then show ?thesis
      using i inv by (simp add: bs len acc storeCell_def s_def [symmetric])
  next
    case fits: True
    then have mfits: "payloadOffset s + off + 9 \<le> length (memory h)"
      using sl by simp
    then have cast: "u32_cast (payloadOffset s + off) = payloadOffset s + off"
      using ok by (intro u32_cast_id) (simp add: heap_ok_def)
    define h' where "h' = h\<lparr>memory := write_at (payloadOffset s + off) (cell_bytes v t) (memory h)\<rparr>"
    have st: "storeCell i off v t h = Some (True, h')"
      using i inv fits mfits by (simp add: storeCell_def s_def [symmetric] acc cast h'_def Let_def)
    have lm: "length (memory h') = length (memory h)"
      using mfits by (simp add: h'_def)
    have "heap_ok h'"
      using ok lm by (simp add: heap_ok_def h'_def)
    moreover have "view h' j = ((view h)(i \<mapsto> (slotTypeId s, write_at off (cell_bytes v t)
        (take (logicalSize s) (drop (payloadOffset s) (memory h)))))) j" for j
    proof (cases "j = i")
      case True
      then show ?thesis
        using \<open>valid h i\<close> fits sl mfits
        by (simp add: view_def h'_def s_def [symmetric] write_at_inside)
    next
      case False
      show ?thesis
      proof (cases "valid h j")
        case vj: True
        have "take (logicalSize (slots h ! j)) (drop (payloadOffset (slots h ! j))
              (write_at (payloadOffset s + off) (cell_bytes v t) (memory h)))
            = take (logicalSize (slots h ! j)) (drop (payloadOffset (slots h ! j)) (memory h))"
          using heap_ok_disj [OF ok \<open>valid h i\<close> vj] False heap_ok_slot [OF ok vj] sl fits mfits
          by (intro write_at_other) (auto simp: block_disj_def s_def [symmetric])
        then show ?thesis using vj False by (simp add: view_def h'_def)
      next
        case False
        then show ?thesis using \<open>j \<noteq> i\<close> by (simp add: view_def h'_def)
      qed
    qed
    ultimately show ?thesis
      using st fits mfits by (auto simp: bs fun_eq_iff)
  qed
qed

lemma loadCell_correct:
  assumes ok: "heap_ok h"
  shows "loadCell i off h =
    (case view h i of
       None \<Rightarrow> Some None
     | Some (ty, bs) \<Rightarrow>
         Some (if off + 9 \<le> length bs then Some (cell_of_bytes (take 9 (drop off bs))) else None))"
proof (cases "valid h i")
  case False
  then show ?thesis by (auto simp: view_def loadCell_def valid_def Let_def)
next
  case True
  define s where "s = slots h ! i"
  note sl = heap_ok_slot [OF ok True, folded s_def]
  have i: "i < length (slots h)" "live s" using True by (auto simp: valid_def s_def)
  have bs: "view h i = Some (slotTypeId s, take (logicalSize s) (drop (payloadOffset s) (memory h)))"
    using True by (simp add: view_def s_def)
  have len: "length (take (logicalSize s) (drop (payloadOffset s) (memory h))) = logicalSize s"
    using sl by simp
  have acc: "access_ok s off \<longleftrightarrow> off + 9 \<le> logicalSize s"
    by (auto simp: access_ok_def SLOT_SIZE_def)
  have inv: "payloadOffset s \<noteq> INVALID" using sl(4) by (simp add: INVALID_def)
  show ?thesis
  proof (cases "off + 9 \<le> logicalSize s")
    case False
    then show ?thesis
      using i inv by (simp add: bs len acc loadCell_def s_def [symmetric])
  next
    case fits: True
    then have mfits: "payloadOffset s + off + 9 \<le> length (memory h)"
      using sl by simp
    then have cast: "u32_cast (payloadOffset s + off) = payloadOffset s + off"
      using ok by (intro u32_cast_id) (simp add: heap_ok_def)
    have "take 9 (drop off (take (logicalSize s) (drop (payloadOffset s) (memory h))))
        = take 9 (drop (payloadOffset s + off) (memory h))"
      using fits by (simp add: drop_take take_take min_def add.commute)
    then show ?thesis
      using i inv fits mfits
      by (simp add: loadCell_def s_def [symmetric] acc cast bs len Let_def)
  qed
qed

subsection \<open>Slot reservation\<close>

lemma Heap_init_ok: "heap_ok Heap_init"
  by (auto simp: heap_ok_def Heap_init_def slot_ok_def empty_slot_def blocks_ok_def block_of_def
      valid_def free_list_def split: block_key.splits)

lemma view_init [simp]: "view Heap_init i = None"
  by (cases i) (simp_all add: view_def valid_def Heap_init_def empty_slot_def)

lemma reserveSlots_ok:
  assumes ok: "heap_ok h" and n: "n < 2 ^ 32"
  shows "heap_ok (reserveSlots n h) \<and> view (reserveSlots n h) = view h"
proof -
  let ?h' = "reserveSlots n h" and ?l = "length (slots h)"
  have cast: "u32_cast ?l = ?l" using ok by (simp add: heap_ok_def)
  have mem: "memory ?h' = memory h"
    and sl: "slots ?h' = slots h @ replicate (n - ?l) empty_slot"
    and fh: "freeHandles ?h' = freeHandles h @ [?l..<n]"
    and fl: "free_list ?h' = free_list h"
    by (auto simp: reserveSlots_def cast Let_def free_list_def fun_eq_iff)
  have dead: "\<not> live (slots ?h' ! j)" if "?l \<le> j" "j < length (slots ?h')" for j
    using that by (simp add: sl nth_append empty_slot_def)
  have keep: "slots ?h' ! j = slots h ! j" if "j < ?l" for j
    using that by (simp add: sl nth_append)
  have val: "valid ?h' j = valid h j" for j
    using dead [of j] keep [of j] unfolding valid_def
    by (metis length_append linorder_not_le sl trans_less_add1)
  have "block_of ?h' = block_of h"
    using fl val keep by (intro block_of_cong) (auto simp: valid_def)
  moreover have "view ?h' = view h"
    using val keep by (auto simp: view_def mem fun_eq_iff valid_def)
  moreover have "set (freeHandles ?h') = {i. 0 < i \<and> i < length (slots ?h') \<and> \<not> live (slots ?h' ! i)}"
    using ok dead keep by (auto simp: fh sl heap_ok_def nth_append empty_slot_def)
  moreover have "distinct (freeHandles ?h')"
    using ok by (auto simp: fh heap_ok_def)
  moreover have "slot_ok (slots ?h' ! j)" if "j < length (slots ?h')" for j
    using that ok by (auto simp: sl nth_append heap_ok_def slot_ok_def empty_slot_def)
  ultimately show ?thesis
    using ok n unfolding heap_ok_def by (auto simp: mem sl nth_append)
qed

section \<open>The contract of an object store\<close>

text \<open>
  What the VM and the collectors rely on, stated over the abstract view: handles name objects
  with a type and a byte payload; a fresh object is zeroed and its handle was unused; release
  removes one object; cell accesses are checked against the requested size and touch nothing
  else.
\<close>

locale object_store =
  fixes inv :: "'h \<Rightarrow> bool"
    and obj :: "'h \<Rightarrow> nat \<Rightarrow> (nat \<times> u8 list) option"
    and room :: "nat \<Rightarrow> 'h \<Rightarrow> bool"
    and new :: "nat \<Rightarrow> nat \<Rightarrow> 'h \<Rightarrow> nat \<times> 'h"
    and release :: "nat \<Rightarrow> 'h \<Rightarrow> 'h"
    and store :: "nat \<Rightarrow> nat \<Rightarrow> int \<Rightarrow> u8 \<Rightarrow> 'h \<Rightarrow> (bool \<times> 'h) option"
    and load :: "nat \<Rightarrow> nat \<Rightarrow> 'h \<Rightarrow> (int \<times> u8) option option"
  assumes new_law: "inv h \<Longrightarrow> room sz h \<Longrightarrow> new sz ty h = (i, h') \<Longrightarrow>
      inv h' \<and> (if i = INVALID then obj h' = obj h
                else 0 < i \<and> i < INVALID \<and> obj h i = None
                     \<and> obj h' = (obj h)(i \<mapsto> (ty, replicate sz 0)))"
    and release_law: "inv h \<Longrightarrow> inv (release i h) \<and> obj (release i h) = (obj h)(i := None)"
    and store_law: "inv h \<Longrightarrow>
      (case obj h i of
         None \<Rightarrow> store i off v t h = Some (False, h)
       | Some (ty, bs) \<Rightarrow>
           if off + 9 \<le> length bs
           then \<exists>h'. store i off v t h = Some (True, h') \<and> inv h'
                  \<and> obj h' = (obj h)(i \<mapsto> (ty, write_at off (cell_bytes v t) bs))
           else store i off v t h = Some (False, h))"
    and load_law: "inv h \<Longrightarrow> load i off h =
      (case obj h i of
         None \<Rightarrow> Some None
       | Some (ty, bs) \<Rightarrow>
           Some (if off + 9 \<le> length bs then Some (cell_of_bytes (take 9 (drop off bs))) else None))"
begin

lemma load_defined: "inv h \<Longrightarrow> load i off h \<noteq> None"
  by (auto simp: load_law split: option.splits)

lemma store_defined: "inv h \<Longrightarrow> store i off v t h \<noteq> None"
  using store_law [of h i off v t] by (auto split: option.splits if_splits)

lemma store_inv: "inv h \<Longrightarrow> store i off v t h = Some (b, h') \<Longrightarrow> inv h'"
  using store_law [of h i off v t] by (auto split: option.splits if_splits)

lemma store_True:
  assumes "inv h" and "store i off v t h = Some (True, h')"
  obtains ty bs where "obj h i = Some (ty, bs)" "off + 9 \<le> length bs" "inv h'"
    "obj h' = (obj h)(i \<mapsto> (ty, write_at off (cell_bytes v t) bs))"
  using store_law [OF assms(1), of i off v t] assms(2)
  by (auto split: option.splits if_splits)

lemma load_stored_wraps:
  assumes "inv h" and "store i off v t h = Some (True, h')"
  shows "load i off h' = Some (Some (u64_to_i64 (i64_to_u64 v), t))"
proof -
  from assms(1,2) obtain ty bs where bs: "off + 9 \<le> length bs" "inv h'"
    "obj h' = (obj h)(i \<mapsto> (ty, write_at off (cell_bytes v t) bs))"
    by (rule store_True)
  then have "take 9 (drop off (write_at off (cell_bytes v t) bs)) = cell_bytes v t"
    using write_at_same [of off "cell_bytes v t" bs] by simp
  with bs show ?thesis by (simp add: load_law cell_wraps)
qed

lemma load_stored:
  assumes "inv h" and "store i off v t h = Some (True, h')" and "in_i64 v"
  shows "load i off h' = Some (Some (v, t))"
  using load_stored_wraps [OF assms(1,2)] assms(3) by simp

lemma load_other_cell:
  assumes "inv h" and "store i off v t h = Some (True, h')"
    and "j \<noteq> i \<or> off' + 9 \<le> off \<or> off + 9 \<le> off'"
  shows "load j off' h' = load j off' h"
proof -
  from assms(1,2) obtain ty bs where bs: "obj h i = Some (ty, bs)" "off + 9 \<le> length bs" "inv h'"
    "obj h' = (obj h)(i \<mapsto> (ty, write_at off (cell_bytes v t) bs))"
    by (rule store_True)
  show ?thesis
  proof (cases "j = i")
    case True
    with assms(3) have "off' + 9 \<le> off \<or> off + length (cell_bytes v t) \<le> off'" by simp
    from write_at_other [OF _ this, of bs] bs(2)
    have "take 9 (drop off' (write_at off (cell_bytes v t) bs)) = take 9 (drop off' bs)" by simp
    with True bs assms(1) show ?thesis by (simp add: load_law)
  next
    case False
    with bs assms(1) show ?thesis by (simp add: load_law)
  qed
qed

lemma load_fresh:
  assumes "inv h" and "room sz h" and "new sz ty h = (i, h')" and "i \<noteq> INVALID" and "off + 9 \<le> sz"
  shows "load i off h' = Some (Some (0, TAG_INT))"
proof -
  have "take 9 (drop off (replicate sz 0)) = (replicate 9 0 :: u8 list)"
    using assms(5) by simp
  then show ?thesis
    using zero_cell new_law [OF assms(1,2,3)] assms(4,5) by (simp add: load_law)
qed

lemma load_other_object:
  assumes "inv h" and "room sz h" and "new sz ty h = (i, h')" and "j \<noteq> i"
  shows "load j off h' = load j off h"
  using new_law [OF assms(1,2,3)] assms(1,4) by (simp add: load_law split: if_splits)

lemma load_released:
  assumes "inv h"
  shows "load j off (release i h) = (if j = i then Some None else load j off h)"
  using release_law [OF assms, of i] assms by (simp add: load_law)

end

interpretation hp: object_store heap_ok view alloc_room alloc freePayload storeCell loadCell
  by unfold_locales
     (fact alloc_correct freePayload_correct storeCell_correct loadCell_correct)+

section \<open>Properties of the heap\<close>

text \<open>The public operations as steps; the arena and the slot table stay below \<open>2^32\<close>.\<close>

inductive heap_reach :: "heap \<Rightarrow> bool" where
  init: "n < 2 ^ 32 \<Longrightarrow> heap_reach (reserveSlots n Heap_init)"
| fresh: "heap_reach Heap_init"
| alloc: "heap_reach h \<Longrightarrow> alloc_room sz h \<Longrightarrow> heap_reach (snd (alloc sz ty h))"
| free: "heap_reach h \<Longrightarrow> heap_reach (freePayload i h)"
| store: "heap_reach h \<Longrightarrow> storeCell i off v t h = Some (b, h') \<Longrightarrow> heap_reach h'"

text \<open>
  Property C14 (invariant).  Every heap reachable by allocations with room, releases and stores is
  well-formed (live payloads and free blocks never overlap and stay inside the arena, free
  handles are exactly the dead slots), and no load or store on it leaves the arena.  An allocation has
  room under \<open>alloc_room\<close>: the size plus 8 is below \<open>2^32\<close>, so that rounding it up to cells
  does not wrap, the slot table has fewer than \<open>2^32\<close> entries, and a free block of that many
  cells exists or the arena can grow by them within 4 GiB.
  The code does not check the first condition, and \<open>alloc_size_wraps\<close> below shows what happens without it.
\<close>

theorem heap_reach_safe:
  assumes "heap_reach h"
  shows "heap_ok h \<and> loadCell i off h \<noteq> None \<and> storeCell i off v t h \<noteq> None"
proof -
  from assms have "heap_ok h"
  proof induction
    case (init n)
    then show ?case using reserveSlots_ok [OF Heap_init_ok] by simp
  next
    case fresh
    show ?case by (rule Heap_init_ok)
  next
    case (alloc h sz ty)
    then show ?case using hp.new_law [of h sz ty] by (cases "alloc sz ty h") fastforce
  next
    case (free h i)
    then show ?case using hp.release_law by blast
  next
    case (store h i off v t b h')
    then show ?case by (blast intro: hp.store_inv)
  qed
  then show ?thesis using hp.load_defined hp.store_defined by blast
qed

theorem heap_reach_safe_witness:
  "heap_reach (snd (alloc 18 3 Heap_init)) \<and> heap_ok (snd (alloc 18 3 Heap_init))"
proof -
  have r: "heap_reach (snd (alloc 18 3 Heap_init))"
    by (rule heap_reach.alloc [OF heap_reach.fresh])
       (simp add: alloc_room_def Heap_init_def cells_for_def SLOT_SIZE_def u32_cast_def)
  from heap_reach_safe [OF r] r show ?thesis by simp
qed

text \<open>
  Property C19 (functional).  A cell reads back the value and tag last stored in it; no other
  object and no other cell of the same object changes.
\<close>

theorem store_then_load:
  assumes "heap_ok h" and "storeCell i off v t h = Some (True, h')" and "in_i64 v"
  shows "loadCell i off h' = Some (Some (v, t))
    \<and> (\<forall>j off'. j \<noteq> i \<or> off' + 9 \<le> off \<or> off + 9 \<le> off' \<longrightarrow> loadCell j off' h' = loadCell j off' h)"
  using hp.load_stored [OF assms] hp.load_other_cell [OF assms(1,2)] by blast

definition one_object :: heap where
  "one_object = snd (alloc 18 3 Heap_init)"

lemma one_object_eq:
  "one_object = \<lparr>memory = replicate 18 0,
     slots = [empty_slot, \<lparr>payloadOffset = 0, cells = 2, logicalSize = 18, slotTypeId = 3,
                          generation = 0, live = True\<rparr>],
     freeHandles = [], slotCap = 0, freeSmall = (\<lambda>_. []), freeLarge = (\<lambda>_. []),
     stats = zero_stats\<lparr>st_allocations := 1, st_liveObjects := 1, st_bytesLive := 18,
               st_peakLiveObjects := 1, st_bytesCommitted := 18\<rparr>\<rparr>"
  by (simp add: one_object_def alloc_def take_payload_def take_handle_def install_slot_def
      Heap_init_def cells_for_def SLOT_SIZE_def u32_cast_def free_list_def SMALL_CLASSES_def
      empty_slot_def zero_stats_def)

lemma one_object_ok: "heap_ok one_object"
  using hp.new_law [OF Heap_init_ok, of 18 3]
  by (cases "alloc 18 3 Heap_init")
     (simp add: one_object_def alloc_room_def Heap_init_def cells_for_def SLOT_SIZE_def u32_cast_def)

theorem store_then_load_witness:
  "\<exists>h'. storeCell 1 9 (-5) TAG_INT one_object = Some (True, h')
        \<and> loadCell 1 9 h' = Some (Some (-5, TAG_INT))
        \<and> loadCell 1 0 h' = Some (Some (0, TAG_INT))"
proof -
  have l0: "loadCell 1 0 one_object = Some (Some (0, TAG_INT))"
    by (simp add: one_object_eq loadCell_def access_ok_def SLOT_SIZE_def INVALID_def
        zero_cell u32_cast_def)
  have s: "storeCell 1 9 (-5) TAG_INT one_object
      = Some (True, one_object\<lparr>memory := write_at 9 (cell_bytes (-5) TAG_INT) (replicate 18 0)\<rparr>)"
    by (simp add: one_object_eq storeCell_def access_ok_def SLOT_SIZE_def INVALID_def u32_cast_def)
  have "in_i64 (-5)" by (simp add: in_i64_def)
  from store_then_load [OF one_object_ok s this] s l0 show ?thesis by auto
qed

text \<open>
  Property C16 (refinement).  \<open>alloc\<close> and \<open>freePayload\<close> implement the abstract store: a successful
  allocation adds one zeroed object under a handle that named nothing and is neither 0 nor
  \<open>INVALID\<close>, a refused one changes no object, and a release removes exactly the named object.  The
  allocation is one with room under \<open>alloc_room\<close>: the size plus 8 is below \<open>2^32\<close>, so that rounding it up to cells
  does not wrap, the slot table has fewer than \<open>2^32\<close> entries, and a free block of that many
  cells exists or the arena can grow by them within 4 GiB.
  A larger size wraps, and the object is not of that size (\<open>alloc_size_wraps\<close>).
\<close>

theorem heap_refines_store:
  assumes "heap_ok h" and "alloc_room sz h" and "alloc sz ty h = (i, h')"
  shows "(if i = INVALID then view h' = view h
          else 0 < i \<and> view h i = None \<and> view h' = (view h)(i \<mapsto> (ty, replicate sz 0)))
         \<and> heap_ok h' \<and> view (freePayload j h) = (view h)(j := None) \<and> heap_ok (freePayload j h)"
  using hp.new_law [OF assms] hp.release_law [OF assms(1), of j] by (auto split: if_splits)

theorem heap_refines_store_witness:
  "fst (alloc 9 5 one_object) = 2
   \<and> view (snd (alloc 9 5 one_object)) = (view one_object)(2 \<mapsto> (5, replicate 9 0))"
proof -
  have room: "alloc_room 9 one_object"
    by (simp add: alloc_room_def one_object_eq cells_for_def SLOT_SIZE_def u32_cast_def)
  have f: "fst (alloc 9 5 one_object) = 2"
    by (simp add: one_object_eq alloc_def take_payload_def take_handle_def install_slot_def
        cells_for_def SLOT_SIZE_def u32_cast_def free_list_def SMALL_CLASSES_def)
  then have "alloc 9 5 one_object = (2, snd (alloc 9 5 one_object))"
    by (metis prod.collapse)
  from heap_refines_store [OF one_object_ok room this] f show ?thesis
    by (simp add: INVALID_def)
qed

text \<open>
  The rounding of the requested size is done in 32-bit arithmetic: a request
  of \<open>2^32 - 1\<close> bytes (an allocation of \<open>-1\<close> from the program) wraps to one cell while the slot
  records the full size as its bound, so a store far past the nine bytes of the payload passes
  the bounds check and leaves the arena.
\<close>

theorem alloc_size_wraps:
  "cells_for 4294967295 = 1
   \<and> length (memory (snd (alloc 4294967295 0 Heap_init))) = 9
   \<and> logicalSize (slots (snd (alloc 4294967295 0 Heap_init)) ! 1) = 4294967295
   \<and> storeCell 1 4096 v t (snd (alloc 4294967295 0 Heap_init)) = None"
  by (simp add: alloc_def take_payload_def take_handle_def install_slot_def storeCell_def
      Heap_init_def cells_for_def SLOT_SIZE_def u32_cast_def free_list_def SMALL_CLASSES_def
      empty_slot_def access_ok_def INVALID_def)

text \<open>
  An allocation refused because the slot table is full has already taken
  its payload: the arena grows by the payload although no slot owns it and no free list
  records it.
\<close>

theorem alloc_refused_leaks:
  assumes "free_list h (cells_for sz) = []" and "freeHandles h = []"
    and "slotCap h \<noteq> 0" and "slotCap h \<le> length (slots h)"
  shows "fst (alloc sz ty h) = INVALID
    \<and> slots (snd (alloc sz ty h)) = slots h
    \<and> free_list (snd (alloc sz ty h)) = free_list h
    \<and> length (memory (snd (alloc sz ty h))) = length (memory h) + cells_for sz * 9"
  using assms
  by (simp add: alloc_def take_payload_def take_handle_def SLOT_SIZE_def fun_eq_iff)

theorem alloc_refused_leaks_witness:
  "fst (alloc 9 0 (reserveSlots 1 Heap_init)) = INVALID
   \<and> length (memory (snd (alloc 9 0 (reserveSlots 1 Heap_init)))) = 9"
proof -
  let ?h = "reserveSlots 1 Heap_init"
  have c: "cells_for 9 = 1" by (simp add: cells_for_def SLOT_SIZE_def u32_cast_def)
  have h: "free_list ?h (cells_for 9) = []" "freeHandles ?h = []" "slotCap ?h \<noteq> 0"
    "slotCap ?h \<le> length (slots ?h)" "memory ?h = []"
    by (simp_all add: reserveSlots_def Heap_init_def free_list_def u32_cast_def)
  from alloc_refused_leaks [OF h(1-4), of 0] h(5) c show ?thesis by simp
qed

end
