(* ===== verification/Lx_GC.thy ===== *)
theory Lx_GC
  imports Lx_Heap "HOL-Library.Multiset"
begin

text \<open>
  The interface between the VM and its memory-management backends (\<open>vm/GC.hpp\<close>, the abstract class
  \<open>GCBackend\<close>), the baseline backend that never reclaims (\<open>NoGCBackend\<close> of \<open>vm/GC.cpp\<close>), and the
  contract every backend owes the VM.  The class is a record of its virtual operations over the
  pair of the heap and the backend's own state; an operation may throw the heap's
  \<open>HeapInvariantError\<close> or leave the arena.
\<close>

section \<open>The backend interface\<close>

datatype 'a gres = GOk 'a | GThrow string | GUndef

datatype gc_mode = NoGC | ARC | AARCLocal

record gc_metrics =
  mt_allocations :: nat
  mt_reclaimedObjects :: nat
  mt_rootAdds :: nat
  mt_rootRemoves :: nat
  mt_edgeAdds :: nat
  mt_edgeRemoves :: nat
  mt_cycleCollections :: nat
  mt_cycleObjectsReclaimed :: nat
  mt_cycleScans :: nat
  mt_cycleScanVisited :: nat
  mt_cycleReclaimedBytes :: nat
  mt_cycleCollectNs :: nat
  mt_cycleNsMax :: nat
  mt_cycleObjectsByPolicy :: nat
  mt_suspectBacklog :: nat
  mt_triggerSuspectPressure :: nat
  mt_triggerHeapPressure :: nat
  mt_triggerStarvation :: nat
  mt_triggerFixedInterval :: nat
  mt_thresholdRaises :: nat
  mt_thresholdLowers :: nat
  mt_thresholdFinal :: nat
  mt_thresholdMin :: nat
  mt_thresholdMax :: nat
  mt_explicitFreesIgnored :: nat
  mt_invalidHandleOps :: nat

definition zero_metrics :: gc_metrics where
  "zero_metrics = \<lparr>mt_allocations = 0, mt_reclaimedObjects = 0, mt_rootAdds = 0, mt_rootRemoves = 0,
     mt_edgeAdds = 0, mt_edgeRemoves = 0, mt_cycleCollections = 0, mt_cycleObjectsReclaimed = 0,
     mt_cycleScans = 0, mt_cycleScanVisited = 0, mt_cycleReclaimedBytes = 0, mt_cycleCollectNs = 0,
     mt_cycleNsMax = 0, mt_cycleObjectsByPolicy = 0, mt_suspectBacklog = 0,
     mt_triggerSuspectPressure = 0, mt_triggerHeapPressure = 0, mt_triggerStarvation = 0,
     mt_triggerFixedInterval = 0, mt_thresholdRaises = 0, mt_thresholdLowers = 0,
     mt_thresholdFinal = 0, mt_thresholdMin = 0, mt_thresholdMax = 0,
     mt_explicitFreesIgnored = 0, mt_invalidHandleOps = 0\<rparr>"

record 'g gc_backend =
  gc_name :: string
  gc_onAlloc :: "nat \<Rightarrow> heap \<times> 'g \<Rightarrow> (heap \<times> 'g) gres"
  gc_rootAdd :: "nat \<Rightarrow> heap \<times> 'g \<Rightarrow> (heap \<times> 'g) gres"
  gc_rootRemove :: "nat \<Rightarrow> heap \<times> 'g \<Rightarrow> (heap \<times> 'g) gres"
  gc_edgeAdd :: "nat \<Rightarrow> nat \<Rightarrow> heap \<times> 'g \<Rightarrow> (heap \<times> 'g) gres"
  gc_edgeRemove :: "nat \<Rightarrow> nat \<Rightarrow> heap \<times> 'g \<Rightarrow> (heap \<times> 'g) gres"
  gc_onExplicitFree :: "nat \<Rightarrow> heap \<times> 'g \<Rightarrow> (heap \<times> 'g) gres"
  gc_shutdown :: "heap \<times> 'g \<Rightarrow> (heap \<times> 'g) gres"

definition parseGCMode :: "string \<Rightarrow> gc_mode option" where
  "parseGCMode s =
     (if s = ''nogc'' \<or> s = ''none'' then Some NoGC
      else if s = ''arc'' then Some ARC
      else if s = ''aarc'' \<or> s = ''aarc-local'' then Some AARCLocal
      else None)"

section \<open>The backend that never reclaims\<close>

definition nogc_onAlloc :: "nat \<Rightarrow> heap \<times> gc_metrics \<Rightarrow> (heap \<times> gc_metrics) gres" where
  "nogc_onAlloc i hg = GOk (apsnd (mt_allocations_update Suc) hg)"

definition nogc_rootAdd :: "nat \<Rightarrow> heap \<times> gc_metrics \<Rightarrow> (heap \<times> gc_metrics) gres" where
  "nogc_rootAdd i hg = GOk (apsnd (mt_rootAdds_update Suc) hg)"

definition nogc_rootRemove :: "nat \<Rightarrow> heap \<times> gc_metrics \<Rightarrow> (heap \<times> gc_metrics) gres" where
  "nogc_rootRemove i hg = GOk (apsnd (mt_rootRemoves_update Suc) hg)"

definition nogc_edgeAdd :: "nat \<Rightarrow> nat \<Rightarrow> heap \<times> gc_metrics \<Rightarrow> (heap \<times> gc_metrics) gres" where
  "nogc_edgeAdd from to hg = GOk (apsnd (mt_edgeAdds_update Suc) hg)"

definition nogc_edgeRemove :: "nat \<Rightarrow> nat \<Rightarrow> heap \<times> gc_metrics \<Rightarrow> (heap \<times> gc_metrics) gres" where
  "nogc_edgeRemove from to hg = GOk (apsnd (mt_edgeRemoves_update Suc) hg)"

definition nogc_onExplicitFree :: "nat \<Rightarrow> heap \<times> gc_metrics \<Rightarrow> (heap \<times> gc_metrics) gres" where
  "nogc_onExplicitFree i hg = GOk (apsnd (mt_explicitFreesIgnored_update Suc) hg)"

definition nogc_shutdown :: "heap \<times> gc_metrics \<Rightarrow> (heap \<times> gc_metrics) gres" where
  "nogc_shutdown hg = GOk (apsnd (\<lambda>m. m\<lparr>mt_reclaimedObjects := 0\<rparr>) hg)"

definition NoGCBackend :: "gc_metrics gc_backend" where
  "NoGCBackend = \<lparr>gc_name = ''nogc'', gc_onAlloc = nogc_onAlloc, gc_rootAdd = nogc_rootAdd,
     gc_rootRemove = nogc_rootRemove, gc_edgeAdd = nogc_edgeAdd, gc_edgeRemove = nogc_edgeRemove,
     gc_onExplicitFree = nogc_onExplicitFree, gc_shutdown = nogc_shutdown\<rparr>"

lemmas nogc_defs = nogc_onAlloc_def nogc_rootAdd_def nogc_rootRemove_def nogc_edgeAdd_def
  nogc_edgeRemove_def nogc_onExplicitFree_def nogc_shutdown_def NoGCBackend_def

section \<open>The object graph\<close>

text \<open>
  The reference stored in cell \<open>k\<close> of object \<open>o\<close>: cells are nine bytes wide and start at the
  multiples of nine.
\<close>

definition ref_at :: "heap \<Rightarrow> nat \<times> nat \<Rightarrow> nat option" where
  "ref_at h p =
     (case loadCell (fst p) (snd p * 9) h of
        Some (Some (v, t)) \<Rightarrow> if t = TAG_HEAP then Some (i64_to_u32 v) else None
      | _ \<Rightarrow> None)"

definition in_refs :: "heap \<Rightarrow> nat \<Rightarrow> (nat \<times> nat) set" where
  "in_refs h i = {p. ref_at h p = Some i}"

inductive_set reach :: "heap \<Rightarrow> nat set \<Rightarrow> (nat \<times> nat) set \<Rightarrow> nat set"
  for h :: heap and R :: "nat set" and X :: "(nat \<times> nat) set" where
  root: "i \<in> R \<Longrightarrow> i \<in> reach h R X"
| edge: "a \<in> reach h R X \<Longrightarrow> (a, k) \<notin> X \<Longrightarrow> ref_at h (a, k) = Some i \<Longrightarrow> i \<in> reach h R X"

text \<open>
  No dangling handle: every root and every reference outside the detached cells \<open>X\<close> names a live
  object.
\<close>

definition graph_ok :: "heap \<Rightarrow> nat multiset \<Rightarrow> (nat \<times> nat) set \<Rightarrow> bool" where
  "graph_ok h R X \<longleftrightarrow> heap_ok h \<and> (\<forall>r \<in># R. valid h r)
     \<and> (\<forall>p i. p \<notin> X \<longrightarrow> ref_at h p = Some i \<longrightarrow> valid h i)"

lemma valid_view: "valid h i \<longleftrightarrow> view h i \<noteq> None"
  by (simp add: view_def)

lemma valid_range: "heap_ok h \<Longrightarrow> valid h i \<Longrightarrow> 0 < i \<and> i < 4294967295"
proof -
  assume ok: "heap_ok h" and v: "valid h i"
  then have "i \<noteq> 0" by (metis heap_ok_def valid_def)
  moreover from ok v have "i < length (slots h)" "length (slots h) < 2 ^ 32"
    by (simp_all add: heap_ok_def valid_def)
  ultimately show ?thesis by simp
qed

lemma ref_at_view:
  assumes "heap_ok h" and "heap_ok h'" and "view h' (fst p) = view h (fst p)"
  shows "ref_at h' p = ref_at h p"
  using assms by (simp add: ref_at_def hp.load_law)

lemma ref_at_dead: "heap_ok h \<Longrightarrow> view h (fst p) = None \<Longrightarrow> ref_at h p = None"
  by (simp add: ref_at_def hp.load_law)

lemma ref_at_SomeD:
  assumes "heap_ok h" and "ref_at h p = Some i"
  shows "valid h (fst p)" "snd p * 9 + 9 \<le> logicalSize (slots h ! fst p)"
proof -
  from assms obtain ty bs where v: "view h (fst p) = Some (ty, bs)"
    using ref_at_dead [of h p] by (cases "view h (fst p)") auto
  then show "valid h (fst p)" by (simp add: valid_view)
  from v assms have "snd p * 9 + 9 \<le> length bs"
    by (simp add: ref_at_def hp.load_law split: if_splits)
  with length_view [OF assms(1) v] show "snd p * 9 + 9 \<le> logicalSize (slots h ! fst p)" by simp
qed

lemma in_refs_release:
  assumes "heap_ok h"
  shows "in_refs (freePayload x h) i = in_refs h i - {x} \<times> UNIV"
proof -
  have r: "heap_ok (freePayload x h)" "view (freePayload x h) = (view h)(x := None)"
    using hp.release_law [OF assms] by auto
  have "ref_at (freePayload x h) p = (if fst p = x then None else ref_at h p)" for p
    using r assms ref_at_dead [OF r(1), of p] ref_at_view [OF assms r(1), of p] by auto
  then show ?thesis by (auto simp: in_refs_def)
qed

lemma in_refs_new:
  assumes "heap_ok h" and "alloc_room sz h" and "alloc sz ty h = (i, h')"
  shows "in_refs h' j = in_refs h j"
proof -
  note n = hp.new_law [OF assms]
  then have ok: "heap_ok h'" by simp
  have "ref_at h' p = ref_at h p" for p
  proof (cases "i \<noteq> INVALID \<and> fst p = i")
    case False
    then have "view h' (fst p) = view h (fst p)" using n by (auto split: if_splits)
    with assms(1) ok show ?thesis by (rule ref_at_view)
  next
    case True
    then have dead: "view h (fst p) = None" using n by (auto split: if_splits)
    have "loadCell (fst p) (snd p * 9) h' = Some (Some (0, TAG_INT)) \<or>
        loadCell (fst p) (snd p * 9) h' = Some None"
    proof (cases "snd p * 9 + 9 \<le> sz")
      case fits: True
      with True assms show ?thesis using hp.load_fresh by auto
    next
      case nofit: False
      from True n have "view h' (fst p) = Some (ty, replicate sz 0)" by (auto split: if_splits)
      with nofit ok show ?thesis by (simp add: hp.load_law)
    qed
    then have "ref_at h' p = None" by (auto simp: ref_at_def tag_defs)
    with ref_at_dead [OF assms(1) dead] show ?thesis by simp
  qed
  then show ?thesis by (simp add: in_refs_def)
qed

lemma ref_at_store:
  assumes "heap_ok h" and "storeCell b (k * 9) v t h = Some (True, h')"
  shows "ref_at h' p = (if p = (b, k) then (if t = TAG_HEAP then Some (i64_to_u32 v) else None)
                        else ref_at h p)"
proof (cases "p = (b, k)")
  case True
  with hp.load_stored_wraps [OF assms] show ?thesis by (simp add: ref_at_def)
next
  case False
  then have "fst p \<noteq> b \<or> snd p * 9 + 9 \<le> k * 9 \<or> k * 9 + 9 \<le> snd p * 9"
    by (cases p) auto
  with hp.load_other_cell [OF assms] False show ?thesis by (simp add: ref_at_def)
qed

lemma valid_store:
  assumes "heap_ok h" and "storeCell b off v t h = Some (c, h')"
  shows "valid h' i = valid h i"
  using hp.store_law [OF assms(1), of b off v t] assms(2)
  by (auto simp: valid_view split: option.splits if_splits)

text \<open>There is room for at most one reference per nine bytes of the arena.\<close>

lemma refs_bounded:
  assumes ok: "heap_ok h"
  shows "finite {p. ref_at h p \<noteq> None} \<and> 9 * card {p. ref_at h p \<noteq> None} \<le> length (memory h)"
proof -
  let ?A = "{p. ref_at h p \<noteq> None}"
  let ?f = "\<lambda>(p, b). payloadOffset (slots h ! fst p) + snd p * 9 + b"
  have cell: "valid h (fst p)" "snd p * 9 + 9 \<le> cells (slots h ! fst p) * 9"
    "payloadOffset (slots h ! fst p) + cells (slots h ! fst p) * 9 \<le> length (memory h)"
    if "p \<in> ?A" for p
    using that ref_at_SomeD [OF ok, of p] heap_ok_slot [OF ok, of "fst p"] by fastforce+
  have inj: "inj_on ?f (?A \<times> {0..<9})"
  proof (rule inj_onI, clarsimp)
    fix a k b a' k' b' y z
    assume p: "ref_at h (a, k) = Some y" "ref_at h (a', k') = Some z" and b: "b < 9" "b' < (9 :: nat)"
      and eq: "payloadOffset (slots h ! a) + k * 9 + b = payloadOffset (slots h ! a') + k' * 9 + b'"
    have "a = a'"
    proof (rule ccontr)
      assume "a \<noteq> a'"
      with p have "block_disj (payloadOffset (slots h ! a), cells (slots h ! a))
          (payloadOffset (slots h ! a'), cells (slots h ! a'))"
        using cell [of "(a, k)"] cell [of "(a', k')"] by (intro heap_ok_disj [OF ok]) auto
      with p b eq show False
        using cell [of "(a, k)"] cell [of "(a', k')"] by (auto simp: block_disj_def)
    qed
    with eq have "9 * k + b = 9 * k' + b'" by simp
    with b have "k = k'" by presburger
    with \<open>a = a'\<close> \<open>9 * k + b = 9 * k' + b'\<close> show "a = a' \<and> k = k' \<and> b = b'" by simp
  qed
  have img: "?f ` (?A \<times> {0..<9}) \<subseteq> {0..<length (memory h)}"
    using cell by fastforce
  have "finite (?A \<times> {0..<9 :: nat})"
    using inj img by (meson finite_atLeastLessThan inj_on_finite)
  then have fin: "finite ?A" by (rule finite_cartesian_productD1) simp
  have "card (?A \<times> {0..<9 :: nat}) \<le> card {0..<length (memory h)}"
    using inj img by (intro card_inj_on_le) auto
  then show ?thesis using fin by (simp add: card_cartesian_product)
qed

lemma finite_in_refs [simp]: "heap_ok h \<Longrightarrow> finite (in_refs h i)"
  using refs_bounded [of h] by (auto simp: in_refs_def elim: rev_finite_subset)

lemma card_in_refs:
  assumes "heap_ok h"
  shows "9 * card (in_refs h i - X) \<le> 2 ^ 32"
proof -
  have "card (in_refs h i - X) \<le> card {p. ref_at h p \<noteq> None}"
    using refs_bounded [OF assms] by (intro card_mono) (auto simp: in_refs_def)
  then show ?thesis using refs_bounded [OF assms] assms unfolding heap_ok_def by linarith
qed

section \<open>The contract of a backend\<close>

definition gspec :: "'a gres \<Rightarrow> ('a \<Rightarrow> bool) \<Rightarrow> bool" where
  "gspec m P \<longleftrightarrow> (case m of GOk x \<Rightarrow> P x | GThrow _ \<Rightarrow> True | GUndef \<Rightarrow> False)"

lemma gspec_simps [simp]:
  "gspec (GOk x) P = P x" "gspec (GThrow e) P = True" "gspec GUndef P = False"
  by (simp_all add: gspec_def)

lemma gspec_mono: "gspec m P \<Longrightarrow> (\<And>x. P x \<Longrightarrow> Q x) \<Longrightarrow> gspec m Q"
  by (cases m) auto

definition keeps :: "heap \<Rightarrow> heap \<Rightarrow> nat set \<Rightarrow> bool" where
  "keeps h h' S \<longleftrightarrow> (\<forall>i \<in> S. view h' i = view h i)"

text \<open>
  What the VM relies on.  \<open>ok h g R X\<close> says that the backend's bookkeeping matches the heap with the
  root multiset \<open>R\<close>, except for the cells \<open>X\<close>, whose content is not accounted for while a store
  replaces it.  Each barrier moves \<open>R\<close> or \<open>X\<close> by one, never leaves the arena, and changes no object
  that stays reachable; it may throw \<open>HeapInvariantError\<close>.
\<close>

locale gc_contract =
  fixes ops :: "'g gc_backend"
    and ok :: "heap \<Rightarrow> 'g \<Rightarrow> nat multiset \<Rightarrow> (nat \<times> nat) set \<Rightarrow> bool"
  assumes ok_graph: "ok h g R X \<Longrightarrow> graph_ok h R X"
    and detach_law: "ok h g R {} \<Longrightarrow> ref_at h p = None \<Longrightarrow> ok h g R {p}"
    and attach_law: "ok h g R {p} \<Longrightarrow> ref_at h p = None \<Longrightarrow> ok h g R {}"
    and write_law: "ok h g R {(b, k)} \<Longrightarrow>
      storeCell b (k * 9) v t h = Some (c, h') \<Longrightarrow> ok h' g R {(b, k)}"
    and refused_law: "ok h g R {} \<Longrightarrow> alloc_room sz h \<Longrightarrow> alloc sz ty h = (INVALID, h') \<Longrightarrow> ok h' g R {}"
    and onAlloc_law: "ok h g R {} \<Longrightarrow> alloc_room sz h \<Longrightarrow> alloc sz ty h = (i, h') \<Longrightarrow> i \<noteq> INVALID \<Longrightarrow>
      gspec (gc_onAlloc ops i (h', g))
        (\<lambda>(h'', g'). ok h'' g' R {} \<and> keeps h' h'' (insert i (reach h' (set_mset R) {})))"
    and rootAdd_law: "ok h g R {} \<Longrightarrow> valid h r \<Longrightarrow> size R < 2 ^ 31 \<Longrightarrow>
      gspec (gc_rootAdd ops r (h, g))
        (\<lambda>(h', g'). ok h' g' (add_mset r R) {} \<and> keeps h h' (reach h (insert r (set_mset R)) {}))"
    and rootRemove_law: "ok h g (add_mset r R) {} \<Longrightarrow>
      gspec (gc_rootRemove ops r (h, g))
        (\<lambda>(h', g'). ok h' g' R {} \<and> keeps h h' (reach h (set_mset R) {}))"
    and edgeRemove_law: "ok h g R {} \<Longrightarrow> ref_at h (b, k) = Some i \<Longrightarrow>
      gspec (gc_edgeRemove ops b i (h, g))
        (\<lambda>(h', g'). ok h' g' R {(b, k)} \<and> keeps h h' (reach h (set_mset R) {(b, k)}))"
    and edgeAdd_law: "ok h g R {(b, k)} \<Longrightarrow> ref_at h (b, k) = Some i \<Longrightarrow> valid h i \<Longrightarrow> size R < 2 ^ 31 \<Longrightarrow>
      gspec (gc_edgeAdd ops b i (h, g))
        (\<lambda>(h', g'). ok h' g' R {} \<and> keeps h h' (reach h (set_mset R) {}))"
    and explicitFree_law: "ok h g R {} \<Longrightarrow>
      gspec (gc_onExplicitFree ops i (h, g))
        (\<lambda>(h', g'). ok h' g' R {} \<and> keeps h h' (reach h (set_mset R) {}))"
    and shutdown_law: "ok h g R {} \<Longrightarrow>
      gspec (gc_shutdown ops (h, g))
        (\<lambda>(h', g'). ok h' g' R {} \<and> keeps h h' (reach h (set_mset R) {}))"
begin

lemma ok_heap: "ok h g R X \<Longrightarrow> heap_ok h"
  using ok_graph by (simp add: graph_ok_def)

lemma ok_root: "ok h g R X \<Longrightarrow> r \<in># R \<Longrightarrow> valid h r"
  using ok_graph by (simp add: graph_ok_def)

lemma ok_ref: "ok h g R X \<Longrightarrow> ref_at h p = Some i \<Longrightarrow> p \<notin> X \<Longrightarrow> valid h i"
  using ok_graph [of h g R X] by (cases p) (simp add: graph_ok_def)

lemma loaded_ref:
  assumes "ok h g R {}" and "loadCell b (k * 9) h = Some (Some (v, TAG_HEAP))"
  shows "valid h (i64_to_u32 v)"
proof -
  from assms(2) have "ref_at h (b, k) = Some (i64_to_u32 v)" by (simp add: ref_at_def)
  with assms(1) show ?thesis by (rule ok_ref) simp
qed

end

lemma keeps_refl [simp]: "keeps h h S"
  by (simp add: keeps_def)

lemma graph_ok_write:
  assumes "graph_ok h R {(b, k)}" and "storeCell b (k * 9) v t h = Some (c, h')"
  shows "graph_ok h' R {(b, k)}"
proof (cases c)
  case False
  have "heap_ok h" using assms(1) by (simp add: graph_ok_def)
  from hp.store_law [OF this, of b "k * 9" v t] assms(2) False have "h' = h"
    by (auto split: option.splits if_splits)
  with assms(1) show ?thesis by simp
next
  case True
  have ok: "heap_ok h" using assms(1) by (simp add: graph_ok_def)
  from assms(2) True have s: "storeCell b (k * 9) v t h = Some (True, h')" by simp
  have "ref_at h' p = ref_at h p" if "p \<noteq> (b, k)" for p
    using ref_at_store [OF ok s] that by simp
  with valid_store [OF ok s] hp.store_inv [OF ok s] assms(1) show ?thesis
    by (simp add: graph_ok_def)
qed

lemma graph_ok_new:
  assumes "graph_ok h R X" and "alloc_room sz h" and "alloc sz ty h = (i, h')"
  shows "graph_ok h' R X"
proof -
  have ok: "heap_ok h" using assms(1) by (simp add: graph_ok_def)
  note n = hp.new_law [OF ok assms(2,3)]
  have "valid h j \<Longrightarrow> valid h' j" for j
    using n by (auto simp: valid_view split: if_splits)
  moreover have "ref_at h' p = ref_at h p" for p
    using in_refs_new [OF ok assms(2,3)] by (metis (mono_tags, lifting) in_refs_def mem_Collect_eq option.exhaust)
  ultimately show ?thesis using assms(1) n by (auto simp: graph_ok_def)
qed

lemma graph_ok_detach: "graph_ok h R X \<Longrightarrow> graph_ok h R (insert p X)"
  by (auto simp: graph_ok_def)

lemma graph_ok_attach:
  "graph_ok h R {p} \<Longrightarrow> (\<And>i. ref_at h p = Some i \<Longrightarrow> valid h i) \<Longrightarrow> graph_ok h R {}"
  unfolding graph_ok_def by (metis empty_iff singletonD)

lemma graph_ok_roots: "graph_ok h R X \<Longrightarrow> set_mset S \<subseteq> insert r (set_mset R) \<Longrightarrow> valid h r \<Longrightarrow> graph_ok h S X"
  by (auto simp: graph_ok_def)

lemma graph_ok_drop: "graph_ok h (add_mset r R) X \<Longrightarrow> graph_ok h R X"
  by (auto simp: graph_ok_def)

interpretation nogc: gc_contract NoGCBackend "\<lambda>h g. graph_ok h"
  by unfold_locales
     (auto simp: nogc_defs apsnd_def map_prod_def intro: graph_ok_write graph_ok_new
       graph_ok_detach graph_ok_attach graph_ok_roots graph_ok_drop)

end
