(* ===== verification/Lx_Arc.thy ===== *)
theory Lx_Arc
  imports Lx_GC
begin

text \<open>
  The reference-counting backend (\<open>ArcBackend\<close> of \<open>vm/GC.cpp\<close>): one 32-bit count per handle slot,
  and a worklist that releases the children of a dead object before its payload.  The count of
  a handle is proved to be the number of its roots and of the cells that refer to it, which
  makes the backend meet the contract of \<open>Lx_GC\<close>.
\<close>

section \<open>State and operations\<close>

record arc =
  arc_rc :: "nat list"
  arc_metrics :: gc_metrics

definition vec_resize :: "nat \<Rightarrow> nat list \<Rightarrow> nat list" where
  "vec_resize n xs = take n xs @ replicate (n - length xs) 0"

definition arc_attach :: "heap \<Rightarrow> arc" where
  "arc_attach h = \<lparr>arc_rc = replicate (length (slots h)) 0, arc_metrics = zero_metrics\<rparr>"

definition arc_grow :: "nat \<Rightarrow> nat list \<Rightarrow> nat list" where
  "arc_grow i rc = (if i \<ge> length rc then vec_resize (u32_cast (i + 1)) rc else rc)"

definition arc_onAlloc :: "nat \<Rightarrow> heap \<times> arc \<Rightarrow> (heap \<times> arc) gres" where
  "arc_onAlloc i hg =
     (let (h, g) = hg;
          g1 = g\<lparr>arc_metrics := mt_allocations_update Suc (arc_metrics g)\<rparr>;
          rc = arc_grow i (arc_rc g1) in
      if i < length rc then GOk (h, g1\<lparr>arc_rc := rc[i := 0]\<rparr>) else GUndef)"

definition arc_retain :: "nat \<Rightarrow> heap \<times> arc \<Rightarrow> (heap \<times> arc) gres" where
  "arc_retain i hg =
     (let (h, g) = hg;
          rc = arc_grow i (arc_rc g) in
      if i < length rc then GOk (h, g\<lparr>arc_rc := rc[i := u32_cast (rc ! i + 1)]\<rparr>) else GUndef)"

text \<open>The scan of one object's cells: \<open>ks\<close> are the cell indices still to visit.\<close>

fun arc_scan :: "heap \<Rightarrow> nat \<Rightarrow> nat list \<Rightarrow> nat list \<Rightarrow> nat list \<Rightarrow> (nat list \<times> nat list) gres" where
  "arc_scan h x [] rc work = GOk (rc, work)"
| "arc_scan h x (k # ks) rc work =
     (case cellAt x k h of
        None \<Rightarrow> GUndef
      | Some (Inl e) \<Rightarrow> GThrow e
      | Some (Inr (v, t)) \<Rightarrow>
          if t \<noteq> TAG_HEAP then arc_scan h x ks rc work
          else let child = i64_to_u32 v in
            if child \<ge> length rc \<or> rc ! child = 0 then arc_scan h x ks rc work
            else let rc1 = rc[child := rc ! child - 1] in
              arc_scan h x ks rc1 (if rc1 ! child = 0 then work @ [child] else work))"

lemma arc_scan_measure:
  "arc_scan h x ks rc work = GOk (rc', work')
     \<Longrightarrow> length work' + sum_list rc' \<le> length work + sum_list rc"
proof (induction ks arbitrary: rc work)
  case (Cons k ks)
  from Cons.prems obtain v t where c: "cellAt x k h = Some (Inr (v, t))"
    by (auto split: option.splits sum.splits)
  let ?c = "i64_to_u32 v"
  let ?rc = "rc[?c := rc ! ?c - 1]"
  show ?case
  proof (cases "t \<noteq> TAG_HEAP \<or> ?c \<ge> length rc \<or> rc ! ?c = 0")
    case True
    with Cons.prems c have "arc_scan h x ks rc work = GOk (rc', work')"
      by (auto simp: Let_def split: if_splits)
    then show ?thesis by (rule Cons.IH)
  next
    case False
    then have s: "sum_list ?rc + 1 = sum_list rc"
      using elem_le_sum_list [of ?c rc] by (simp add: sum_list_update)
    from False Cons.prems c have "arc_scan h x ks ?rc (if ?rc ! ?c = 0 then work @ [?c] else work) = GOk (rc', work')"
      by (simp add: Let_def)
    from Cons.IH [OF this] s show ?thesis by (simp split: if_splits)
  qed
qed simp

text \<open>
  \<open>reclaim\<close>: pop a dead handle, release its children, return its payload.  The loop ends because a
  handle enters the worklist only when a count is decremented.
\<close>

function arc_drain :: "heap \<Rightarrow> nat list \<Rightarrow> nat list \<Rightarrow> nat \<Rightarrow> (heap \<times> nat list \<times> nat) gres" where
  "arc_drain h rc work n =
     (if work = [] then GOk (h, rc, n)
      else let x = last work in
        case arc_scan h x [0..<cellCount h x] rc (butlast work) of
          GUndef \<Rightarrow> GUndef
        | GThrow e \<Rightarrow> GThrow e
        | GOk (rc1, work1) \<Rightarrow> arc_drain (freePayload x h) rc1 work1 (n + 1))"
  by pat_completeness auto
termination
proof (relation "measure (\<lambda>(h, rc, work, n). length work + sum_list rc)", goal_cases)
  case (2 h rc work n x p rc1 work1)
  then show ?case using arc_scan_measure [of h x "[0..<cellCount h x]" rc "butlast work" rc1 work1]
    by (simp add: less_le_trans [OF _ le_refl] flip: length_greater_0_conv)
qed simp

declare arc_drain.simps [simp del]

definition arc_reclaim :: "nat \<Rightarrow> heap \<times> arc \<Rightarrow> (heap \<times> arc) gres" where
  "arc_reclaim root hg =
     (let (h, g) = hg in
      case arc_drain h (arc_rc g) [root] 0 of
        GUndef \<Rightarrow> GUndef
      | GThrow e \<Rightarrow> GThrow e
      | GOk (h1, rc1, n) \<Rightarrow>
          GOk (h1, g\<lparr>arc_rc := rc1,
                     arc_metrics := mt_reclaimedObjects_update (\<lambda>m. m + n) (arc_metrics g)\<rparr>))"

definition arc_release :: "nat \<Rightarrow> heap \<times> arc \<Rightarrow> (heap \<times> arc) gres" where
  "arc_release i hg =
     (let (h, g) = hg in
      if i \<ge> length (arc_rc g) \<or> arc_rc g ! i = 0
      then GOk (h, g\<lparr>arc_metrics := mt_invalidHandleOps_update Suc (arc_metrics g)\<rparr>)
      else let g1 = g\<lparr>arc_rc := (arc_rc g)[i := arc_rc g ! i - 1]\<rparr> in
        if arc_rc g1 ! i = 0 then arc_reclaim i (h, g1) else GOk (h, g1))"

definition arc_count :: "(gc_metrics \<Rightarrow> gc_metrics) \<Rightarrow> heap \<times> arc \<Rightarrow> heap \<times> arc" where
  "arc_count f hg = apsnd (\<lambda>g. g\<lparr>arc_metrics := f (arc_metrics g)\<rparr>) hg"

definition arc_rootAdd :: "nat \<Rightarrow> heap \<times> arc \<Rightarrow> (heap \<times> arc) gres" where
  "arc_rootAdd i hg = arc_retain i (arc_count (mt_rootAdds_update Suc) hg)"

definition arc_rootRemove :: "nat \<Rightarrow> heap \<times> arc \<Rightarrow> (heap \<times> arc) gres" where
  "arc_rootRemove i hg = arc_release i (arc_count (mt_rootRemoves_update Suc) hg)"

definition arc_edgeAdd :: "nat \<Rightarrow> nat \<Rightarrow> heap \<times> arc \<Rightarrow> (heap \<times> arc) gres" where
  "arc_edgeAdd from to hg = arc_retain to (arc_count (mt_edgeAdds_update Suc) hg)"

definition arc_edgeRemove :: "nat \<Rightarrow> nat \<Rightarrow> heap \<times> arc \<Rightarrow> (heap \<times> arc) gres" where
  "arc_edgeRemove from to hg = arc_release to (arc_count (mt_edgeRemoves_update Suc) hg)"

definition arc_onExplicitFree :: "nat \<Rightarrow> heap \<times> arc \<Rightarrow> (heap \<times> arc) gres" where
  "arc_onExplicitFree i hg = GOk (arc_count (mt_explicitFreesIgnored_update Suc) hg)"

text \<open>\<open>shutdown\<close> counts the leaked objects and discards the number.\<close>

definition arc_shutdown :: "heap \<times> arc \<Rightarrow> (heap \<times> arc) gres" where
  "arc_shutdown hg = GOk (arc_count (\<lambda>m. m\<lparr>mt_cycleObjectsReclaimed := 0\<rparr>) hg)"

definition ArcBackend :: "arc gc_backend" where
  "ArcBackend = \<lparr>gc_name = ''arc'', gc_onAlloc = arc_onAlloc, gc_rootAdd = arc_rootAdd,
     gc_rootRemove = arc_rootRemove, gc_edgeAdd = arc_edgeAdd, gc_edgeRemove = arc_edgeRemove,
     gc_onExplicitFree = arc_onExplicitFree, gc_shutdown = arc_shutdown\<rparr>"

section \<open>The counts\<close>

definition rc_at :: "nat list \<Rightarrow> nat \<Rightarrow> nat" where
  "rc_at rc i = (if i < length rc then rc ! i else 0)"

text \<open>
  The counting invariant: outside the excluded cells \<open>X\<close>, a count is the number of roots and of
  cells that hold the handle, and only live handles are counted.
\<close>

definition rc_ok :: "heap \<Rightarrow> nat list \<Rightarrow> nat multiset \<Rightarrow> (nat \<times> nat) set \<Rightarrow> bool" where
  "rc_ok h rc R X \<longleftrightarrow> heap_ok h
     \<and> (\<forall>i. rc_at rc i = count R i + card (in_refs h i - X))
     \<and> (\<forall>i. 0 < rc_at rc i \<longrightarrow> valid h i)"

lemma rc_at_dec:
  "c < length rc \<Longrightarrow> rc_at (rc[c := rc ! c - 1]) i = (if i = c then rc_at rc c - 1 else rc_at rc i)"
  by (simp add: rc_at_def)

lemma rc_at_dec_le: "rc_at (rc[c := rc ! c - 1]) i \<le> rc_at rc i"
  by (cases "c < length rc") (simp_all add: rc_at_dec list_update_beyond del: One_nat_def)

lemma rc_at_grow: "i < 4294967295 \<Longrightarrow> rc_at (arc_grow i rc) j = rc_at rc j \<and> i < length (arc_grow i rc)"
  by (auto simp: rc_at_def arc_grow_def vec_resize_def u32_cast_def nth_append)

lemma rc_ok_valid: "rc_ok h rc R X \<Longrightarrow> 0 < rc_at rc i \<Longrightarrow> valid h i"
  by (simp add: rc_ok_def)

lemma rc_ok_graph: "rc_ok h rc R X \<Longrightarrow> graph_ok h R X"
proof -
  assume a: "rc_ok h rc R X"
  have "valid h i" if "ref_at h p = Some i" "p \<notin> X" for p i
  proof -
    have "p \<in> in_refs h i - X" using that by (simp add: in_refs_def)
    moreover have "finite (in_refs h i - X)" using a by (simp add: rc_ok_def)
    ultimately have "0 < card (in_refs h i - X)" by (auto simp: card_gt_0_iff)
    with a show ?thesis by (auto simp: rc_ok_def)
  qed
  moreover have "valid h r" if "r \<in># R" for r
    using a that by (auto simp: rc_ok_def)
  ultimately show ?thesis using a by (auto simp: graph_ok_def rc_ok_def)
qed

lemma rc_ok_bound:
  assumes "rc_ok h rc R X" and "size R < 2 ^ 31"
  shows "rc_at rc i + 1 < 2 ^ 32"
proof -
  have "count R i \<le> size R" by (rule count_le_size)
  moreover have "9 * card (in_refs h i - X) \<le> 2 ^ 32"
    using assms(1) by (intro card_in_refs) (simp add: rc_ok_def)
  ultimately show ?thesis using assms by (simp add: rc_ok_def)
qed

section \<open>Reclamation\<close>

text \<open>
  The loop invariant of \<open>reclaim\<close>: the worklist holds distinct live handles whose count is zero.
  The excluded cells are those already released: the detached cell of a store, and the cells of
  the object being scanned.  The handle a detached cell still shows has count zero.
\<close>

definition drain_ok :: "heap \<Rightarrow> nat list \<Rightarrow> nat list \<Rightarrow> nat multiset \<Rightarrow> (nat \<times> nat) set \<Rightarrow> bool" where
  "drain_ok h rc work R X \<longleftrightarrow> rc_ok h rc R X \<and> distinct work
     \<and> (\<forall>w \<in> set work. valid h w \<and> rc_at rc w = 0)"

lemma rc_ok_skip:
  assumes "rc_ok h rc R X" and "p \<in> X \<or> ref_at h p = None"
  shows "rc_ok h rc R (insert p X)"
proof -
  have "in_refs h i - insert p X = in_refs h i - X" for i
    using assms(2) by (auto simp: in_refs_def)
  with assms(1) show ?thesis by (simp add: rc_ok_def)
qed

lemma rc_ok_dec:
  assumes "rc_ok h rc R X" and "ref_at h p = Some c" and "p \<notin> X"
  shows "c < length rc" and "0 < rc ! c" and "rc_ok h (rc[c := rc ! c - 1]) R (insert p X)"
proof -
  have p: "p \<in> in_refs h c - X" using assms(2,3) by (simp add: in_refs_def)
  have fin: "finite (in_refs h c - X)" using assms(1) by (simp add: rc_ok_def)
  then have "0 < card (in_refs h c - X)" using p by (auto simp: card_gt_0_iff)
  then have "0 < rc_at rc c" using assms(1) by (simp add: rc_ok_def)
  then show l: "c < length rc" and "0 < rc ! c" by (auto simp: rc_at_def split: if_splits)
  have "card (in_refs h c - insert p X) = card (in_refs h c - X) - 1"
    using p fin by (simp add: insert_Diff_if [symmetric] card_Diff_singleton flip: Diff_insert2)
  moreover have "in_refs h i - insert p X = in_refs h i - X" if "i \<noteq> c" for i
    using that assms(2) by (auto simp: in_refs_def)
  ultimately have "rc_at (rc[c := rc ! c - 1]) i = count R i + card (in_refs h i - insert p X)" for i
    using assms(1) l \<open>0 < card (in_refs h c - X)\<close> by (simp add: rc_ok_def rc_at_dec del: One_nat_def)
  moreover have "valid h i" if "0 < rc_at (rc[c := rc ! c - 1]) i" for i
    using assms(1) less_le_trans [OF that rc_at_dec_le] unfolding rc_ok_def by blast
  ultimately show "rc_ok h (rc[c := rc ! c - 1]) R (insert p X)"
    using assms(1) by (simp add: rc_ok_def)
qed

lemma cellAt_ref:
  assumes "heap_ok h" and "valid h x" and "k < cellCount h x"
  shows "cellAt x k h \<noteq> None
    \<and> (\<forall>v t. cellAt x k h = Some (Inr (v, t)) \<longrightarrow> ref_at h (x, k) = (if t = TAG_HEAP then Some (i64_to_u32 v) else None))"
proof -
  from assms have "cells (slots h ! x) * 9 \<le> 2 ^ 32"
    using heap_ok_slot(3) [OF assms(1,2)] by (simp add: heap_ok_def)
  with assms have "k * 9 < 4294967296" by (simp add: cellCount_def valid_def)
  then have "u32_cast (k * SLOT_SIZE) = k * 9" by (simp add: SLOT_SIZE_def)
  then show ?thesis using hp.load_defined [OF assms(1), of x "k * 9"]
    by (auto simp: cellAt_def ref_at_def split: option.splits)
qed

lemma arc_scan_step:
  assumes "heap_ok h" and "valid h x" and "k < cellCount h x"
  shows "(\<exists>e. arc_scan h x (k # ks) rc work = GThrow e) \<or>
    arc_scan h x (k # ks) rc work =
      (case ref_at h (x, k) of
         None \<Rightarrow> arc_scan h x ks rc work
       | Some c \<Rightarrow> if rc_at rc c = 0 then arc_scan h x ks rc work
                 else arc_scan h x ks (rc[c := rc ! c - 1]) (if rc_at rc c = 1 then work @ [c] else work))"
  using cellAt_ref [OF assms]
  by (auto simp: rc_at_def Let_def split: option.splits sum.splits)

definition scan_post :: "heap \<Rightarrow> nat \<Rightarrow> nat multiset \<Rightarrow> (nat \<times> nat) set \<Rightarrow> nat list \<Rightarrow> nat list \<times> nat list \<Rightarrow> bool" where
  "scan_post h x R X rc r \<longleftrightarrow>
     drain_ok h (fst r) (snd r) R X \<and> x \<notin> set (snd r) \<and> rc_at (fst r) x = 0
     \<and> (\<forall>i. rc_at rc i = 0 \<longrightarrow> rc_at (fst r) i = 0)
     \<and> (\<forall>i. 0 < rc_at rc i \<longrightarrow> rc_at (fst r) i = 0 \<longrightarrow> i \<in> set (snd r))"

definition scan_pre :: "heap \<Rightarrow> nat \<Rightarrow> nat list \<Rightarrow> nat multiset \<Rightarrow> (nat \<times> nat) set \<Rightarrow> nat list \<Rightarrow> nat list \<Rightarrow> bool" where
  "scan_pre h x ks R X rc work \<longleftrightarrow>
     drain_ok h rc work R X \<and> x \<notin> set work \<and> rc_at rc x = 0 \<and> distinct ks
     \<and> (\<forall>k \<in> set ks. \<forall>c. (x, k) \<in> X \<longrightarrow> ref_at h (x, k) = Some c \<longrightarrow> rc_at rc c = 0)"

lemma scan_pre_skip:
  assumes "scan_pre h x (k # ks) R X rc work"
    and "ref_at h (x, k) = None \<or> ref_at h (x, k) = Some c \<and> rc_at rc c = 0"
  shows "scan_pre h x ks R (insert (x, k) X) rc work"
proof -
  have rc: "rc_ok h rc R X" using assms(1) by (simp add: scan_pre_def drain_ok_def)
  have "(x, k) \<in> X \<or> ref_at h (x, k) = None"
    using assms(2) rc_ok_dec(1,2) [OF rc, of "(x, k)" c] unfolding rc_at_def
    by (metis less_irrefl)
  with rc have "rc_ok h rc R (insert (x, k) X)" by (rule rc_ok_skip)
  with assms(1) show ?thesis by (auto simp: scan_pre_def drain_ok_def)
qed

lemma scan_pre_dec:
  assumes pre: "scan_pre h x (k # ks) R X rc work" and at: "ref_at h (x, k) = Some c" and pos: "0 < rc_at rc c"
  shows "scan_pre h x ks R (insert (x, k) X) (rc[c := rc ! c - 1]) (if rc_at rc c = 1 then work @ [c] else work)"
proof -
  let ?rc = "rc[c := rc ! c - 1]"
  have rc: "rc_ok h rc R X" using pre by (simp add: scan_pre_def drain_ok_def)
  have nX: "(x, k) \<notin> X" using pre at pos by (auto simp: scan_pre_def)
  have l: "c < length rc" by (rule rc_ok_dec(1) [OF rc at nX])
  have zero: "rc_at rc i = 0 \<Longrightarrow> rc_at ?rc i = 0" for i
    using rc_at_dec_le [of rc c i] by simp
  have c: "c \<notin> set work" "valid h c" "c \<noteq> x"
    using pos pre rc_ok_valid [OF rc] by (auto simp: scan_pre_def drain_ok_def)
  have "rc_at rc c = 1 \<Longrightarrow> rc_at ?rc c = 0" using l by (simp add: rc_at_def)
  then have "drain_ok h ?rc (if rc_at rc c = 1 then work @ [c] else work) R (insert (x, k) X)"
    using pre rc_ok_dec(3) [OF rc at nX] c zero by (auto simp: scan_pre_def drain_ok_def)
  with pre c zero show ?thesis by (auto simp: scan_pre_def)
qed

lemma scan_post_dec:
  assumes "scan_post h x R X (rc[c := rc ! c - 1]) r" and "c < length rc"
    and "rc_at rc c = 1 \<longrightarrow> c \<in> set (snd r)"
  shows "scan_post h x R X rc r"
proof -
  let ?rc = "rc[c := rc ! c - 1]"
  have "rc_at ?rc i = 0" if "rc_at rc i = 0" for i
    using that rc_at_dec_le [of rc c i] by simp
  moreover have "0 < rc_at ?rc i \<or> i \<in> set (snd r)" if "0 < rc_at rc i" for i
    using that assms(2,3) by (cases "i = c") (auto simp: rc_at_dec simp del: One_nat_def)
  ultimately show ?thesis
    using assms(1) unfolding scan_post_def by blast
qed

lemma arc_scan_keeps_work:
  "arc_scan h x ks rc work = GOk (rc', work') \<Longrightarrow> set work \<subseteq> set work'"
proof (induction ks arbitrary: rc work)
  case (Cons k ks)
  then show ?case by (fastforce simp: Let_def split: option.splits sum.splits if_splits prod.splits)
qed simp

lemma arc_scan_ok:
  assumes "scan_pre h x ks R X rc work" and "valid h x" and "set ks \<subseteq> {..<cellCount h x}"
  shows "gspec (arc_scan h x ks rc work) (scan_post h x R (X \<union> {x} \<times> set ks) rc)"
  using assms
proof (induction ks arbitrary: rc work X)
  case (Cons k ks)
  have ok: "heap_ok h" and k: "k < cellCount h x" and ks: "set ks \<subseteq> {..<cellCount h x}"
    using Cons.prems by (auto simp: scan_pre_def drain_ok_def rc_ok_def)
  have eq: "X \<union> {x} \<times> set (k # ks) = insert (x, k) X \<union> {x} \<times> set ks" by auto
  note step = arc_scan_step [OF ok Cons.prems(2) k, of ks rc work]
  show ?case
  proof (cases "\<exists>c. ref_at h (x, k) = Some c \<and> 0 < rc_at rc c")
    case False
    then have "ref_at h (x, k) = None \<or> (\<exists>c. ref_at h (x, k) = Some c \<and> rc_at rc c = 0)"
      by (cases "ref_at h (x, k)") auto
    then have "scan_pre h x ks R (insert (x, k) X) rc work"
      using scan_pre_skip [OF Cons.prems(1)] by blast
    from Cons.IH [OF this Cons.prems(2) ks] step False show ?thesis
      unfolding eq by (auto split: option.splits)
  next
    case True
    then obtain c where c: "ref_at h (x, k) = Some c" "0 < rc_at rc c" by blast
    then have l: "c < length rc" by (auto simp: rc_at_def split: if_splits)
    let ?w = "if rc_at rc c = 1 then work @ [c] else work"
    from Cons.IH [OF scan_pre_dec [OF Cons.prems(1) c] Cons.prems(2) ks]
    have "gspec (arc_scan h x ks (rc[c := rc ! c - 1]) ?w) (scan_post h x R (insert (x, k) X \<union> {x} \<times> set ks) rc)"
      using arc_scan_keeps_work [of h x ks "rc[c := rc ! c - 1]" ?w]
      by (cases "arc_scan h x ks (rc[c := rc ! c - 1]) ?w") (auto intro!: scan_post_dec [OF _ l] split: if_splits)
    with step c show ?thesis unfolding eq by auto
  qed
qed (simp add: scan_pre_def scan_post_def)

lemma ref_at_release:
  assumes "heap_ok h"
  shows "ref_at (freePayload x h) p = Some i \<longleftrightarrow> ref_at h p = Some i \<and> fst p \<noteq> x"
proof -
  have "p \<in> in_refs (freePayload x h) i \<longleftrightarrow> p \<in> in_refs h i - {x} \<times> UNIV"
    by (simp only: in_refs_release [OF assms])
  then show ?thesis by (cases p) (simp add: in_refs_def)
qed

lemma rc_ok_release:
  assumes "rc_ok h rc R (X \<union> {x} \<times> {0..<cellCount h x})" and "rc_at rc x = 0" and "valid h x"
  shows "rc_ok (freePayload x h) rc R X"
proof -
  have ok: "heap_ok h" using assms(1) by (simp add: rc_ok_def)
  have "k < cellCount h x" if "ref_at h (x, k) = Some c" for k c
  proof -
    from ref_at_SomeD [OF ok that] heap_ok_slot(2) [OF ok assms(3)]
    have "k * 9 + 9 \<le> cells (slots h ! x) * 9" by simp
    then show ?thesis using assms(3) by (simp add: cellCount_def valid_def)
  qed
  then have "in_refs (freePayload x h) i - X = in_refs h i - (X \<union> {x} \<times> {0..<cellCount h x})" for i
    by (auto simp: in_refs_def ref_at_release [OF ok])
  moreover have "valid (freePayload x h) i" if "0 < rc_at rc i" for i
    using hp.release_law [OF ok, of x] rc_ok_valid [OF assms(1) that] assms(2) that
    by (auto simp: valid_view)
  ultimately show ?thesis
    using assms(1) hp.release_law [OF ok, of x] by (simp add: rc_ok_def)
qed

lemma reach_counted:
  assumes "rc_ok h rc R X" and "i \<in> reach h (set_mset R) X"
  shows "0 < rc_at rc i"
  using assms(2)
proof cases
  case root
  with assms(1) show ?thesis by (simp add: rc_ok_def)
next
  case (edge a k)
  then have "(a, k) \<in> in_refs h i - X" by (simp add: in_refs_def)
  moreover have "finite (in_refs h i - X)" using assms(1) by (simp add: rc_ok_def)
  ultimately have "0 < card (in_refs h i - X)" by (auto simp: card_gt_0_iff)
  with assms(1) show ?thesis by (simp add: rc_ok_def)
qed

lemma reach_keeps:
  assumes "heap_ok h" and "heap_ok h'" and "keeps h h' (reach h R X)"
  shows "reach h R X \<subseteq> reach h' R X"
proof
  fix i assume "i \<in> reach h R X"
  then show "i \<in> reach h' R X"
  proof induction
    case (edge a k i)
    from edge.hyps(1) assms(3) have "view h' a = view h a" by (simp add: keeps_def)
    with edge ref_at_view [OF assms(1,2), of "(a, k)"] show ?case
      by (auto intro: reach.edge)
  qed (rule reach.root)
qed

definition drain_post :: "heap \<Rightarrow> nat list \<Rightarrow> nat list \<Rightarrow> nat multiset \<Rightarrow> (nat \<times> nat) set \<Rightarrow> heap \<times> nat list \<times> nat \<Rightarrow> bool" where
  "drain_post h rc work R X r \<longleftrightarrow>
     (case r of (h', rc', n') \<Rightarrow>
        rc_ok h' rc' R X \<and> keeps h h' (reach h (set_mset R) X)
        \<and> (\<forall>i. valid h' i \<longrightarrow> view h' i = view h i \<and> (rc_at rc' i = 0 \<longrightarrow> rc_at rc i = 0 \<and> i \<notin> set work)))"

lemma arc_drain_step:
  assumes d: "drain_ok h rc work R X" and "work \<noteq> []"
    and X: "\<forall>p \<in> X. \<forall>c. ref_at h p = Some c \<longrightarrow> rc_at rc c = 0"
    and x: "x = last work"
  shows "gspec (arc_scan h x [0..<cellCount h x] rc (butlast work))
    (\<lambda>(rc', work'). drain_ok (freePayload x h) rc' work' R X
       \<and> (\<forall>p \<in> X. \<forall>c. ref_at (freePayload x h) p = Some c \<longrightarrow> rc_at rc' c = 0)
       \<and> (\<forall>i. i \<in> set work \<or> 0 < rc_at rc i \<longrightarrow> i = x \<or> i \<in> set work' \<or> 0 < rc_at rc' i))"
proof -
  have ok: "heap_ok h" using d by (simp add: drain_ok_def rc_ok_def)
  have w: "valid h x" "rc_at rc x = 0" "x \<notin> set (butlast work)" "set work = insert x (set (butlast work))"
    using d assms(2) x set_butlast [of work] by (auto simp: drain_ok_def)
  have pre: "scan_pre h x [0..<cellCount h x] R X rc (butlast work)"
    using d w X by (auto simp: scan_pre_def drain_ok_def distinct_butlast in_set_butlastD)
  have refs: "ref_at (freePayload x h) p = Some c \<Longrightarrow> ref_at h p = Some c" for p c
    by (simp add: ref_at_release [OF ok])
  have "gspec (arc_scan h x [0..<cellCount h x] rc (butlast work))
      (scan_post h x R (X \<union> {x} \<times> {0..<cellCount h x}) rc)"
    using arc_scan_ok [OF pre w(1)] by (simp add: atLeast0LessThan)
  then show ?thesis
  proof (cases "arc_scan h x [0..<cellCount h x] rc (butlast work)")
    case (GOk r)
    obtain rc' work' where r: "r = (rc', work')" by (cases r)
    assume "gspec (arc_scan h x [0..<cellCount h x] rc (butlast work))
      (scan_post h x R (X \<union> {x} \<times> {0..<cellCount h x}) rc)"
    with GOk r have post: "scan_post h x R (X \<union> {x} \<times> {0..<cellCount h x}) rc (rc', work')" by simp
    then have "rc_ok (freePayload x h) rc' R X"
      using w(1) by (intro rc_ok_release) (auto simp: scan_post_def drain_ok_def)
    moreover have "valid (freePayload x h) i" if "i \<in> set work'" for i
      using post that hp.release_law [OF ok, of x] by (auto simp: scan_post_def drain_ok_def valid_view)
    ultimately have "drain_ok (freePayload x h) rc' work' R X"
      using post by (auto simp: scan_post_def drain_ok_def)
    moreover have "set (butlast work) \<subseteq> set work'"
      using arc_scan_keeps_work GOk r by blast
    moreover note post X refs
    ultimately show ?thesis using GOk r w(4) by (fastforce simp: scan_post_def)
  qed auto
qed

lemma drain_post_step:
  assumes post: "drain_post h1 rc1 work1 R X y"
    and k: "keeps h h1 (reach h (set_mset R) X)" and sub: "reach h (set_mset R) X \<subseteq> reach h1 (set_mset R) X"
    and s: "\<forall>i. i \<in> set work \<or> 0 < rc_at rc i \<longrightarrow> i = x \<or> i \<in> set work1 \<or> 0 < rc_at rc1 i"
    and v: "view h1 = (view h)(x := None)"
  shows "drain_post h rc work R X y"
proof -
  obtain h' rc' n' where y: "y = (h', rc', n')" by (cases y)
  from post y have p: "rc_ok h' rc' R X" "keeps h1 h' (reach h1 (set_mset R) X)"
    "\<And>i. valid h' i \<Longrightarrow> view h' i = view h1 i \<and> (rc_at rc' i = 0 \<longrightarrow> rc_at rc1 i = 0 \<and> i \<notin> set work1)"
    by (auto simp: drain_post_def)
  have "keeps h h' (reach h (set_mset R) X)"
    using k sub p(2) by (auto simp: keeps_def)
  moreover have "view h' i = view h i \<and> (rc_at rc' i = 0 \<longrightarrow> rc_at rc i = 0 \<and> i \<notin> set work)"
    if a: "valid h' i" for i
  proof -
    have e: "view h' i = view h1 i" using p(3) [OF a] by simp
    with a have "i \<noteq> x" by (auto simp: valid_view v)
    with s p(3) [OF a] e show ?thesis unfolding v by (metis fun_upd_apply neq0_conv)
  qed
  ultimately show ?thesis using p(1) y by (simp add: drain_post_def)
qed

lemma arc_drain_ok:
  assumes "drain_ok h rc work R X" and "\<forall>p \<in> X. \<forall>c. ref_at h p = Some c \<longrightarrow> rc_at rc c = 0"
  shows "gspec (arc_drain h rc work n) (drain_post h rc work R X)"
  using assms
proof (induction h rc work n rule: arc_drain.induct)
  case (1 h rc work n)
  have ok: "heap_ok h" using 1(2) by (simp add: drain_ok_def rc_ok_def)
  show ?case
  proof (cases "work = []")
    case True
    with 1(2) show ?thesis
      by (simp add: arc_drain.simps drain_post_def drain_ok_def)
  next
    case False
    let ?x = "last work"
    let ?h = "freePayload ?x h"
    note step = arc_drain_step [OF 1(2) False 1(3) refl]
    have v: "heap_ok ?h" "view ?h = (view h)(?x := None)" using hp.release_law [OF ok] by auto
    have "?x \<notin> reach h (set_mset R) X"
      using reach_counted [of h rc R X ?x] 1(2) False by (auto simp: drain_ok_def)
    then have k: "keeps h ?h (reach h (set_mset R) X)" using v by (auto simp: keeps_def)
    note sub = reach_keeps [OF ok v(1) k]
    show ?thesis
    proof (cases "arc_scan h ?x [0..<cellCount h ?x] rc (butlast work)")
      case (GOk r)
      obtain rc' work' where r: "r = (rc', work')" by (cases r)
      with step GOk have s: "drain_ok ?h rc' work' R X"
          "\<forall>p \<in> X. \<forall>c. ref_at ?h p = Some c \<longrightarrow> rc_at rc' c = 0"
          "\<forall>i. i \<in> set work \<or> 0 < rc_at rc i \<longrightarrow> i = ?x \<or> i \<in> set work' \<or> 0 < rc_at rc' i"
        by auto
      have "gspec (arc_drain ?h rc' work' (n + 1)) (drain_post ?h rc' work' R X)"
        using 1(1) [OF False refl _ r [symmetric] s(1,2)] GOk r by simp
      then have "gspec (arc_drain ?h rc' work' (n + 1)) (drain_post h rc work R X)"
        by (rule gspec_mono) (rule drain_post_step [OF _ k sub s(3) v(2)])
      then show ?thesis using False GOk r by (subst arc_drain.simps) (simp add: Let_def)
    qed (use False step in \<open>subst arc_drain.simps, simp add: Let_def\<close>)+
  qed
qed

section \<open>The barriers\<close>

definition drop_post :: "heap \<Rightarrow> nat list \<Rightarrow> nat multiset \<Rightarrow> (nat \<times> nat) set \<Rightarrow> heap \<times> arc \<Rightarrow> bool" where
  "drop_post h rc R X r \<longleftrightarrow>
     (case r of (h', g') \<Rightarrow>
        rc_ok h' (arc_rc g') R X \<and> keeps h h' (reach h (set_mset R) X)
        \<and> (\<forall>i. valid h' i \<longrightarrow> view h' i = view h i \<and> (rc_at (arc_rc g') i = 0 \<longrightarrow> rc_at rc i = 0)))"

lemma arc_release_ok:
  assumes i: "i < length (arc_rc g)" "0 < arc_rc g ! i"
    and rc: "rc_ok h ((arc_rc g)[i := arc_rc g ! i - 1]) R X"
    and X: "\<forall>p \<in> X. ref_at h p = Some i \<or> ref_at h p = None" and v: "valid h i"
  shows "gspec (arc_release i (h, g)) (drop_post h (arc_rc g) R X)"
proof -
  let ?rc = "(arc_rc g)[i := arc_rc g ! i - 1]"
  have le: "rc_at (arc_rc g) j = 0" if "rc_at ?rc j = 0" "j \<noteq> i" for j
    using that i by (simp add: rc_at_def split: if_splits)
  show ?thesis
  proof (cases "?rc ! i = 0")
    case False
    then have "rc_at (arc_rc g) j = 0" if "rc_at ?rc j = 0" for j
      using le [OF that] that i by (cases "j = i") (auto simp: rc_at_def)
    with False i rc show ?thesis by (auto simp: arc_release_def drop_post_def Let_def)
  next
    case True
    then have z: "rc_at ?rc i = 0" using i by (simp add: rc_at_def)
    have "drain_ok h ?rc [i] R X" using rc z v by (simp add: drain_ok_def)
    moreover have "\<forall>p \<in> X. \<forall>c. ref_at h p = Some c \<longrightarrow> rc_at ?rc c = 0" using X z by fastforce
    ultimately have "gspec (arc_drain h ?rc [i] 0) (drain_post h ?rc [i] R X)" by (rule arc_drain_ok)
    then have "gspec (arc_reclaim i (h, g\<lparr>arc_rc := ?rc\<rparr>)) (drop_post h (arc_rc g) R X)"
      using le by (cases "arc_drain h ?rc [i] 0") (auto simp: arc_reclaim_def drain_post_def drop_post_def)
    with True i show ?thesis by (simp add: arc_release_def Let_def)
  qed
qed

lemma arc_retain_ok:
  assumes "rc_ok h (arc_rc g) R X" and "size R < 2 ^ 31" and "valid h i"
    and "\<And>j. count R' j + card (in_refs h j - X') = count R j + card (in_refs h j - X) + (if j = i then 1 else 0)"
  shows "\<exists>g'. arc_retain i (h, g) = GOk (h, g') \<and> rc_ok h (arc_rc g') R' X'"
proof -
  let ?rc = "arc_grow i (arc_rc g)"
  have "i < 4294967295" using assms(1,3) valid_range by (auto simp: rc_ok_def)
  note gr = rc_at_grow [OF this, of "arc_rc g"]
  have l: "i < length ?rc" using gr by simp
  have b: "u32_cast (?rc ! i + 1) = ?rc ! i + 1"
    using rc_ok_bound [OF assms(1,2), of i] gr [of i] l by (simp add: rc_at_def u32_cast_id)
  have at: "rc_at (?rc[i := ?rc ! i + 1]) j = rc_at (arc_rc g) j + (if j = i then 1 else 0)" for j
    using gr [of j] l by (auto simp: rc_at_def nth_list_update)
  have "rc_ok h (?rc[i := ?rc ! i + 1]) R' X'"
    using assms(1,3) unfolding rc_ok_def at assms(4) by auto
  then show ?thesis using l b by (simp add: arc_retain_def Let_def)
qed

lemma arc_count_simp [simp]:
  "arc_count f (h, g) = (h, g\<lparr>arc_metrics := f (arc_metrics g)\<rparr>)"
  by (simp add: arc_count_def)

lemma drop_root_ok:
  assumes "rc_ok h rc (add_mset r R) X"
  shows "r < length rc \<and> 0 < rc ! r \<and> valid h r \<and> rc_ok h (rc[r := rc ! r - 1]) R X"
proof -
  have "0 < rc_at rc r" using assms by (simp add: rc_ok_def)
  then have l: "r < length rc" "0 < rc ! r" by (auto simp: rc_at_def split: if_splits)
  have "rc_at (rc[r := rc ! r - 1]) i = count R i + card (in_refs h i - X)" for i
    using assms l by (auto simp: rc_ok_def rc_at_dec simp del: One_nat_def)
  moreover have "valid h i" if "0 < rc_at (rc[r := rc ! r - 1]) i" for i
    using rc_ok_valid [OF assms less_le_trans [OF that rc_at_dec_le]] .
  ultimately show ?thesis
    using assms l \<open>0 < rc_at rc r\<close> rc_ok_valid [OF assms] by (simp add: rc_ok_def)
qed

lemma arc_rootRemove_ok:
  assumes "rc_ok h (arc_rc g) (add_mset r R) {}"
  shows "gspec (arc_rootRemove r (h, g)) (drop_post h (arc_rc g) R {})"
  using drop_root_ok [OF assms] arc_release_ok [of r "g\<lparr>arc_metrics := f\<rparr>" h R "{}" for f]
  by (simp add: arc_rootRemove_def)

lemma arc_edgeRemove_ok:
  assumes "rc_ok h (arc_rc g) R {}" and "ref_at h (b, k) = Some i"
  shows "gspec (arc_edgeRemove b i (h, g)) (drop_post h (arc_rc g) R {(b, k)})"
proof -
  have "0 < rc_at (arc_rc g) i"
    using rc_ok_dec(1,2) [OF assms] by (simp add: rc_at_def)
  then have "valid h i" using assms(1) by (rule rc_ok_valid [rotated])
  with rc_ok_dec [OF assms] assms(2) show ?thesis
    using arc_release_ok [of i "g\<lparr>arc_metrics := f\<rparr>" h R "{(b, k)}" for f]
    by (simp add: arc_edgeRemove_def)
qed

lemma arc_onAlloc_ok:
  assumes "rc_ok h (arc_rc g) R {}" and "alloc_room sz h" and "alloc sz ty h = (i, h')" and "i \<noteq> INVALID"
  shows "\<exists>g'. arc_onAlloc i (h', g) = GOk (h', g') \<and> rc_ok h' (arc_rc g') R {}"
proof -
  let ?rc = "arc_grow i (arc_rc g)"
  have ok: "heap_ok h" using assms(1) by (simp add: rc_ok_def)
  note n = hp.new_law [OF ok assms(2,3)]
  have i: "i < 4294967295" "view h i = None" using n assms(4) by (auto simp: INVALID_def)
  note gr = rc_at_grow [OF i(1), of "arc_rc g"]
  have "rc_at (arc_rc g) i = 0"
    using rc_ok_valid [OF assms(1), of i] i(2) by (auto simp: valid_view)
  then have at: "rc_at (?rc[i := 0]) j = rc_at (arc_rc g) j" for j
    using gr [of j] by (auto simp: rc_at_def nth_list_update split: if_splits)
  have "valid h j \<Longrightarrow> valid h' j" for j using n by (auto simp: valid_view split: if_splits)
  then have "rc_ok h' (?rc[i := 0]) R {}"
    using assms(1) n unfolding rc_ok_def at in_refs_new [OF ok assms(2,3)] by auto
  with gr show ?thesis by (auto simp: arc_onAlloc_def Let_def)
qed

lemma rc_ok_write:
  assumes "rc_ok h rc R {(b, k)}" and "storeCell b (k * 9) v t h = Some (c, h')"
  shows "rc_ok h' rc R {(b, k)}"
proof -
  have ok: "heap_ok h" using assms(1) by (simp add: rc_ok_def)
  have refs: "ref_at h' p = ref_at h p" if "p \<noteq> (b, k)" for p
  proof (cases c)
    case True
    with ref_at_store [OF ok, of b k v t h' p] assms(2) that show ?thesis by simp
  next
    case False
    with hp.store_law [OF ok, of b "k * 9" v t] assms(2) show ?thesis
      by (auto split: option.splits if_splits)
  qed
  have "p \<in> in_refs h' i - {(b, k)} \<longleftrightarrow> p \<in> in_refs h i - {(b, k)}" for p i
    using refs [of p] by (auto simp: in_refs_def)
  then have "in_refs h' i - {(b, k)} = in_refs h i - {(b, k)}" for i by blast
  then show ?thesis
    using assms(1) valid_store [OF ok assms(2)] hp.store_inv [OF ok assms(2)] by (simp add: rc_ok_def)
qed

lemma rc_ok_refused:
  assumes "rc_ok h rc R {}" and "alloc_room sz h" and "alloc sz ty h = (INVALID, h')"
  shows "rc_ok h' rc R {}"
proof -
  have ok: "heap_ok h" using assms(1) by (simp add: rc_ok_def)
  have "heap_ok h'" "view h' = view h" using hp.new_law [OF ok assms(2,3)] by auto
  then show ?thesis using assms(1) by (simp add: rc_ok_def in_refs_new [OF ok assms(2,3)] valid_view)
qed

lemma card_detach:
  assumes "heap_ok h" and "ref_at h p = Some i"
  shows "card (in_refs h j) = card (in_refs h j - {p}) + (if j = i then 1 else 0)"
proof (cases "j = i")
  case True
  then have "p \<in> in_refs h j" using assms(2) by (simp add: in_refs_def)
  with True card_Suc_Diff1 [OF finite_in_refs [OF assms(1)] this] show ?thesis by simp
next
  case False
  with assms(2) have "p \<notin> in_refs h j" by (simp add: in_refs_def)
  with False show ?thesis by simp
qed

lemma arc_rootAdd_ok:
  assumes "rc_ok h (arc_rc g) R {}" and "valid h r" and "size R < 2 ^ 31"
  shows "\<exists>g'. arc_rootAdd r (h, g) = GOk (h, g') \<and> rc_ok h (arc_rc g') (add_mset r R) {}"
  using assms arc_retain_ok [of h "g\<lparr>arc_metrics := f\<rparr>" R "{}" r "add_mset r R" "{}" for f]
  by (simp add: arc_rootAdd_def)

lemma arc_edgeAdd_ok:
  assumes "rc_ok h (arc_rc g) R {(b, k)}" and "ref_at h (b, k) = Some i" and "valid h i" and "size R < 2 ^ 31"
  shows "\<exists>g'. arc_edgeAdd b i (h, g) = GOk (h, g') \<and> rc_ok h (arc_rc g') R {}"
proof -
  have "heap_ok h" using assms(1) by (simp add: rc_ok_def)
  from card_detach [OF this assms(2)] assms show ?thesis
    using arc_retain_ok [of h "g\<lparr>arc_metrics := f\<rparr>" R "{(b, k)}" i R "{}" for f]
    by (simp add: arc_edgeAdd_def)
qed

interpretation arcb: gc_contract ArcBackend "\<lambda>h g. rc_ok h (arc_rc g)"
proof (unfold_locales, goal_cases)
  case (1 h g R X) then show ?case by (rule rc_ok_graph)
next
  case (2 h g R p) then show ?case by (simp add: rc_ok_skip)
next
  case (3 h g R p)
  then have "in_refs h i - {p} = in_refs h i" for i by (auto simp: in_refs_def)
  with 3 show ?case by (simp add: rc_ok_def)
next
  case 4 then show ?case by (blast intro: rc_ok_write)
next
  case 5 then show ?case by (blast intro: rc_ok_refused)
next
  case (6 h g R sz ty i h')
  with arc_onAlloc_ok [OF 6] show ?case by (auto simp: ArcBackend_def)
next
  case (7 h g R r)
  with arc_rootAdd_ok [OF 7] show ?case by (auto simp: ArcBackend_def)
next
  case (8 h g r R)
  from arc_rootRemove_ok [OF 8] show ?case
    by (auto simp: ArcBackend_def drop_post_def elim!: gspec_mono)
next
  case (9 h g R b k i)
  from arc_edgeRemove_ok [OF 9] show ?case
    by (auto simp: ArcBackend_def drop_post_def elim!: gspec_mono)
next
  case (10 h g R b k i)
  with arc_edgeAdd_ok [OF 10] show ?case by (auto simp: ArcBackend_def)
qed (simp_all add: ArcBackend_def arc_onExplicitFree_def arc_shutdown_def)

section \<open>Totality\<close>

text \<open>
  \<open>reclaim\<close> reads every cell of a dead object, the last one even when the object's size is not a
  whole number of cells, and \<open>cellAt\<close> refuses such a partial cell.  On heaps whose objects all
  have whole cells the barriers always return.
\<close>

definition whole_cells :: "heap \<Rightarrow> bool" where
  "whole_cells h \<longleftrightarrow> (\<forall>s \<in> set (slots h). live s \<longrightarrow> logicalSize s = cells s * 9)"

lemma cellAt_whole:
  assumes "heap_ok h" and "whole_cells h" and "valid h x" and "k < cellCount h x"
  shows "\<exists>c. cellAt x k h = Some (Inr c)"
proof -
  obtain ty bs where v: "view h x = Some (ty, bs)" using assms(3) by (auto simp: valid_view)
  have l: "length bs = cells (slots h ! x) * 9"
    using length_view [OF assms(1) v] assms(2,3) by (auto simp: whole_cells_def valid_def)
  have k: "k * 9 + 9 \<le> length bs" using assms(3,4) l by (simp add: cellCount_def valid_def)
  have "cells (slots h ! x) * 9 \<le> 2 ^ 32"
    using heap_ok_slot(3) [OF assms(1,3)] assms(1) by (simp add: heap_ok_def)
  then have "u32_cast (k * SLOT_SIZE) = k * 9" using k l by (simp add: SLOT_SIZE_def)
  with v k assms(1) show ?thesis by (simp add: cellAt_def hp.load_law)
qed

lemma arc_scan_total:
  assumes "heap_ok h" and "whole_cells h" and "valid h x" and "set ks \<subseteq> {..<cellCount h x}"
  shows "\<exists>r. arc_scan h x ks rc work = GOk r"
  using assms(4)
proof (induction ks arbitrary: rc work)
  case (Cons k ks)
  then obtain v t where "cellAt x k h = Some (Inr (v, t))"
    using cellAt_whole [OF assms(1-3), of k] by auto
  with Cons show ?case by (simp add: Let_def)
qed simp

lemma whole_cells_release: "whole_cells h \<Longrightarrow> whole_cells (freePayload x h)"
  by (auto simp: whole_cells_def freePayload_def Let_def dest!: set_update_subset_insert [THEN subsetD])

lemma arc_drain_total:
  assumes "drain_ok h rc work R X" and "\<forall>p \<in> X. \<forall>c. ref_at h p = Some c \<longrightarrow> rc_at rc c = 0"
    and "whole_cells h"
  shows "\<exists>r. arc_drain h rc work n = GOk r"
  using assms
proof (induction h rc work n rule: arc_drain.induct)
  case (1 h rc work n)
  show ?case
  proof (cases "work = []")
    case False
    let ?x = "last work"
    note step = arc_drain_step [OF 1(2) False 1(3) refl]
    from False 1(2) have "valid h ?x" "heap_ok h" by (auto simp: drain_ok_def rc_ok_def)
    then obtain rc' work' where s: "arc_scan h ?x [0..<cellCount h ?x] rc (butlast work) = GOk (rc', work')"
      using arc_scan_total [OF _ 1(4)] by (metis atLeast0LessThan order_refl set_upt surj_pair)
    with step have "\<exists>r. arc_drain (freePayload ?x h) rc' work' (n + 1) = GOk r"
      using 1(1) [OF False refl s refl] whole_cells_release [OF 1(4)] by auto
    with False s show ?thesis by (subst arc_drain.simps) (simp add: Let_def)
  qed (simp add: arc_drain.simps)
qed

lemma arc_release_total:
  assumes i: "i < length (arc_rc g)" "0 < arc_rc g ! i"
    and rc: "rc_ok h ((arc_rc g)[i := arc_rc g ! i - 1]) R {}" and "valid h i" and "whole_cells h"
  shows "\<exists>r. arc_release i (h, g) = GOk r"
proof (cases "(arc_rc g)[i := arc_rc g ! i - 1] ! i = 0")
  case True
  let ?rc = "(arc_rc g)[i := arc_rc g ! i - 1]"
  have "drain_ok h ?rc [i] R {}" using True i rc assms(4) by (simp add: drain_ok_def rc_at_def)
  then obtain r where "arc_drain h ?rc [i] 0 = GOk r"
    using arc_drain_total [OF _ _ assms(5)] by blast
  with True i show ?thesis by (cases r) (simp add: arc_release_def arc_reclaim_def Let_def)
qed (use i in \<open>simp add: arc_release_def Let_def\<close>)

section \<open>Properties of reference counting\<close>

text \<open>
  Property C13 (safety).  Dropping a root under reference counting keeps every count exact, keeps
  every object that is still reachable unchanged, leaves every surviving object's contents alone,
  and leaves behind no object whose last reference this drop removed.
\<close>

theorem arc_rootRemove_exact:
  assumes "rc_ok h (arc_rc g) (add_mset r R) {}" and "gc_rootRemove ArcBackend r (h, g) = GOk (h', g')"
  shows "rc_ok h' (arc_rc g') R {}
    \<and> (\<forall>i \<in> reach h (set_mset R) {}. view h' i = view h i)
    \<and> (\<forall>i. valid h' i \<longrightarrow> view h' i = view h i)
    \<and> (\<forall>i. valid h' i \<longrightarrow> rc_at (arc_rc g') i = 0 \<longrightarrow> rc_at (arc_rc g) i = 0)"
  using arc_rootRemove_ok [OF assms(1)] assms(2)
  by (auto simp: ArcBackend_def drop_post_def keeps_def)

definition one_root :: arc where
  "one_root = \<lparr>arc_rc = [0, 1], arc_metrics = zero_metrics\<rparr>"

lemma in_refs_one_object: "in_refs one_object i = {}"
proof -
  have "alloc_room 18 Heap_init"
    by (simp add: alloc_room_def Heap_init_def cells_for_def SLOT_SIZE_def u32_cast_def)
  then have "in_refs one_object i = in_refs Heap_init i"
    unfolding one_object_def
    by (intro in_refs_new [OF Heap_init_ok _ prod.collapse [symmetric]])
  also have "\<dots> = {}" by (simp add: in_refs_def ref_at_dead [OF Heap_init_ok])
  finally show ?thesis .
qed

lemma ref_at_one_object: "ref_at one_object p = None"
proof (cases "ref_at one_object p")
  case (Some i)
  then have "p \<in> in_refs one_object i" by (simp add: in_refs_def)
  then show ?thesis by (simp add: in_refs_one_object)
qed

lemma one_root_ok: "rc_ok one_object (arc_rc one_root) (add_mset 1 {#}) {}"
proof -
  have "valid one_object 1" by (simp add: one_object_eq valid_def)
  then show ?thesis
    by (auto simp: rc_ok_def one_object_ok in_refs_one_object one_root_def rc_at_def less_Suc_eq
        nth_Cons split: nat.splits)
qed

lemma one_object_whole: "whole_cells one_object"
  by (simp add: whole_cells_def one_object_eq empty_slot_def)

lemma one_root_drop:
  "\<exists>h' g'. gc_rootRemove ArcBackend 1 (one_object, one_root) = GOk (h', g')"
proof -
  let ?g = "one_root\<lparr>arc_metrics := mt_rootRemoves_update Suc (arc_metrics one_root)\<rparr>"
  obtain p where "arc_release 1 (one_object, ?g) = GOk p"
    using drop_root_ok [OF one_root_ok] one_object_whole arc_release_total [of 1 ?g one_object "{#}"] by auto
  then show ?thesis by (cases p) (simp add: ArcBackend_def arc_rootRemove_def)
qed

theorem arc_rootRemove_exact_witness:
  "\<exists>h' g'. gc_rootRemove ArcBackend 1 (one_object, one_root) = GOk (h', g') \<and> \<not> valid h' 1"
proof -
  obtain h' g' where r: "gc_rootRemove ArcBackend 1 (one_object, one_root) = GOk (h', g')"
    using one_root_drop by blast
  note e = arc_rootRemove_exact [OF one_root_ok r]
  then have ok: "heap_ok h'" by (simp add: rc_ok_def)
  have "ref_at h' p \<noteq> Some 1" for p
  proof
    assume a: "ref_at h' p = Some 1"
    then have "view h' (fst p) = view one_object (fst p)" using ref_at_SomeD [OF ok a] e by simp
    then have "ref_at one_object p = Some 1" using ref_at_view [OF one_object_ok ok] a by simp
    then show False by (simp add: ref_at_one_object)
  qed
  then have "rc_at (arc_rc g') 1 = 0" using e by (simp add: rc_ok_def in_refs_def)
  then have "\<not> valid h' 1" using e by (auto simp: one_root_def rc_at_def)
  with r show ?thesis by blast
qed

text \<open>
  Property C17 (termination).  The reclamation loop always returns: on a heap whose objects have a
  whole number of cells, dropping a root never throws.
\<close>

theorem arc_rootRemove_returns:
  assumes "rc_ok h (arc_rc g) (add_mset r R) {}" and "whole_cells h"
  shows "\<exists>h' g'. gc_rootRemove ArcBackend r (h, g) = GOk (h', g')"
proof -
  from drop_root_ok [OF assms(1)] assms(2)
  obtain p where "arc_release r (h, g\<lparr>arc_metrics := mt_rootRemoves_update Suc (arc_metrics g)\<rparr>) = GOk p"
    using arc_release_total [of r "g\<lparr>arc_metrics := mt_rootRemoves_update Suc (arc_metrics g)\<rparr>" h R]
    by auto
  then show ?thesis by (cases p) (simp add: ArcBackend_def arc_rootRemove_def)
qed

theorem arc_rootRemove_returns_witness:
  "\<exists>h' g'. gc_rootRemove ArcBackend 1 (one_object, one_root) = GOk (h', g')"
  by (rule arc_rootRemove_returns [OF one_root_ok one_object_whole])

text \<open>
  An object whose size is not a whole number of cells cannot be reclaimed: the
  scan of its last, partial cell throws \<open>HeapInvariantError\<close>, which the VM turns into a panic.
\<close>

theorem arc_partial_cell_throws:
  "gc_rootRemove ArcBackend 1 (snd (alloc 10 0 Heap_init), one_root)
     = GThrow ''collector accessed an invalid heap cell''"
proof -
  let ?h = "snd (alloc 10 0 Heap_init)"
  have s: "slots ?h = [empty_slot, \<lparr>payloadOffset = 0, cells = 2, logicalSize = 10, slotTypeId = 0,
                          generation = 0, live = True\<rparr>]" "memory ?h = replicate 18 0"
    by (simp_all add: alloc_def take_payload_def take_handle_def install_slot_def Heap_init_def
        cells_for_def SLOT_SIZE_def u32_cast_def free_list_def SMALL_CLASSES_def empty_slot_def)
  have c: "cellAt 1 0 ?h = Some (Inr (0, TAG_INT))"
    "cellAt 1 1 ?h = Some (Inl ''collector accessed an invalid heap cell'')"
    by (simp_all add: cellAt_def loadCell_def s access_ok_def SLOT_SIZE_def INVALID_def u32_cast_def zero_cell)
  have n: "[0..<cellCount ?h 1] = [0, 1]" by (simp add: cellCount_def s upt_rec)
  show ?thesis
    using c n
    by (simp add: ArcBackend_def arc_rootRemove_def arc_release_def arc_reclaim_def one_root_def
        arc_drain.simps [of _ _ "[Suc 0]"] Let_def tag_defs)
qed

text \<open>
  Reference counting does not reclaim a self-cycle: dropping the last root of
  an object that refers to itself changes no object of the heap.
\<close>

theorem arc_self_cycle_leaks:
  assumes "rc_ok h (arc_rc g) (add_mset r R) {}" and "ref_at h (r, k) = Some r"
  shows "\<exists>g'. gc_rootRemove ArcBackend r (h, g) = GOk (h, g') \<and> valid h r"
proof -
  have fin: "finite (in_refs h r)" using assms(1) by (simp add: rc_ok_def)
  have "(r, k) \<in> in_refs h r" using assms(2) by (simp add: in_refs_def)
  then have "0 < card (in_refs h r)" using fin by (auto simp: card_gt_0_iff)
  then have "2 \<le> rc_at (arc_rc g) r" using assms(1) by (simp add: rc_ok_def)
  then have l: "r < length (arc_rc g)" "2 \<le> arc_rc g ! r" by (auto simp: rc_at_def split: if_splits)
  have "valid h r" using rc_ok_valid [OF assms(1)] \<open>2 \<le> rc_at (arc_rc g) r\<close> by simp
  with l show ?thesis
    by (auto simp: ArcBackend_def arc_rootRemove_def arc_release_def Let_def)
qed

definition self_loop :: heap where
  "self_loop = one_object\<lparr>memory := write_at 0 (cell_bytes 1 TAG_HEAP) (replicate 18 0)\<rparr>"

theorem arc_self_cycle_leaks_witness:
  "\<exists>g'. gc_rootRemove ArcBackend 1 (self_loop, \<lparr>arc_rc = [0, 2], arc_metrics = zero_metrics\<rparr>)
        = GOk (self_loop, g') \<and> valid self_loop 1"
proof -
  let ?g = "\<lparr>arc_rc = [0, 2], arc_metrics = zero_metrics\<rparr>"
  have st: "storeCell 1 (0 * 9) 1 TAG_HEAP one_object = Some (True, self_loop)"
    by (simp add: one_object_eq self_loop_def storeCell_def access_ok_def SLOT_SIZE_def INVALID_def u32_cast_def)
  have at: "ref_at self_loop p = (if p = (1, 0) then Some 1 else None)" for p
    using ref_at_store [OF one_object_ok st, of p] i64_to_u32_of_nat [of 1]
    by (auto simp: ref_at_one_object)
  have ok: "heap_ok self_loop" by (rule hp.store_inv [OF one_object_ok st])
  have v: "valid self_loop 1" by (simp add: self_loop_def one_object_eq valid_def)
  have "in_refs self_loop i = (if i = 1 then {(1, 0)} else {})" for i
    by (auto simp: in_refs_def at)
  then have "rc_ok self_loop (arc_rc ?g) (add_mset 1 {#}) {}"
    using ok v by (auto simp: rc_ok_def rc_at_def less_Suc_eq nth_Cons split: nat.splits)
  then show ?thesis by (rule arc_self_cycle_leaks) (simp add: at)
qed

end
