(* ===== verification/Lx_Machine.thy ===== *)
theory Lx_Machine
  imports Lx_Disasm Lx_GC
begin

text \<open>
  The state of the virtual machine and its internal operations (\<open>vm/VM.hpp\<close>, \<open>vm/VM.cpp\<close>): register
  and global writes with their barriers, operand access, call frames, panics, and the delivery of
  exceptions.  A call either returns, or leaves by one of the C++ exceptions (\<open>RuntimeUnwind\<close>,
  \<open>HeapInvariantError\<close>, a panic, an uncaught Loxis exception), or has undefined behaviour; the
  last is recorded with its cause.
\<close>

section \<open>Outcomes\<close>

datatype ub = UB_Heap | UB_Register | UB_Operand | UB_Arith | UB_Loop

datatype ('s, 'a) outcome =
    Ok 'a
  | Unwind 's
  | HeapError string
  | Panic string
  | Uncaught string
  | Undefined ub

definition obind :: "('s, 'a) outcome \<Rightarrow> ('a \<Rightarrow> ('s, 'b) outcome) \<Rightarrow> ('s, 'b) outcome" where
  "obind m f =
     (case m of
        Ok x \<Rightarrow> f x
      | Unwind s \<Rightarrow> Unwind s
      | HeapError e \<Rightarrow> HeapError e
      | Panic e \<Rightarrow> Panic e
      | Uncaught e \<Rightarrow> Uncaught e
      | Undefined u \<Rightarrow> Undefined u)"

fun ofold :: "('x \<Rightarrow> 's \<Rightarrow> ('s, 's) outcome) \<Rightarrow> 'x list \<Rightarrow> 's \<Rightarrow> ('s, 's) outcome" where
  "ofold f [] s = Ok s"
| "ofold f (x # xs) s = obind (f x s) (ofold f xs)"

definition owhen :: "bool \<Rightarrow> ('s \<Rightarrow> ('s, 's) outcome) \<Rightarrow> 's \<Rightarrow> ('s, 's) outcome" where
  "owhen c f s = (if c then f s else Ok s)"

section \<open>State\<close>

record saved_register =
  sr_reg :: nat
  sr_value :: int
  sr_tag :: u8

record call_frame =
  cf_returnIp :: nat
  cf_callIp :: nat
  cf_locals :: "saved_register list"

record exception_handler =
  eh_targetIp :: nat
  eh_exceptionReg :: nat
  eh_callDepth :: nat
  eh_dataDepth :: nat

text \<open>
  The VM.  Stacks and the handler vector have their top first.  \<open>m_stdin\<close> and \<open>m_stdout\<close> are the
  bytes still to be read and those written so far, \<open>m_world\<close> is the rest of the operating system,
  and \<open>m_halted\<close> is the flag that \<open>runJit\<close> passes to the dispatcher.
\<close>

record ('g, 'w) vm =
  m_arguments :: "string list"
  m_directoryEntries :: "string list"
  m_ioError :: string
  m_netError :: string
  m_openSockets :: "int set"
  m_chunk :: chunk
  m_regs :: "int list"
  m_rtag :: "u8 list"
  m_globals :: "int list"
  m_globalTags :: "u8 list"
  m_flags :: u8
  m_callStack :: "call_frame list"
  m_dataStack :: "saved_register list"
  m_exceptionHandlers :: "exception_handler list"
  m_heap :: heap
  m_gc :: 'g
  m_runtimeStrings :: "string list"
  m_jitCode :: "instr list"
  m_jitIpMap :: "nat \<rightharpoonup> nat"
  m_jitReady :: bool
  m_jitIp :: nat
  m_halted :: bool
  m_truncated :: bool
  m_executed :: nat
  m_stdin :: string
  m_stdout :: string
  m_world :: 'w

type_synonym ('g, 'w) vmres = "(('g, 'w) vm, ('g, 'w) vm) outcome"

definition FLAG_ZERO :: u8 where "FLAG_ZERO = 1"
definition FLAG_NEG :: u8 where "FLAG_NEG = 2"
definition NREGS :: nat where "NREGS = 4096"
definition NGLOBALS :: nat where "NGLOBALS = 256"

text \<open>The constructor; \<open>h\<close> and \<open>g\<close> are the heap and backend that \<open>makeGCBackend\<close> has prepared.\<close>

definition VM_init :: "chunk \<Rightarrow> heap \<Rightarrow> 'g \<Rightarrow> string \<Rightarrow> 'w \<Rightarrow> ('g, 'w) vm" where
  "VM_init c h g inp w = \<lparr>m_arguments = [], m_directoryEntries = [], m_ioError = [], m_netError = [],
     m_openSockets = {}, m_chunk = c, m_regs = replicate NREGS 0, m_rtag = replicate NREGS 0,
     m_globals = replicate NGLOBALS 0, m_globalTags = replicate NGLOBALS 0, m_flags = 0,
     m_callStack = [], m_dataStack = [], m_exceptionHandlers = [], m_heap = h, m_gc = g,
     m_runtimeStrings = ch_strings c, m_jitCode = [], m_jitIpMap = Map.empty, m_jitReady = False,
     m_jitIp = 0, m_halted = False, m_truncated = False, m_executed = 0, m_stdin = inp,
     m_stdout = [], m_world = w\<rparr>"

definition VM_heap :: "gc_mode \<Rightarrow> nat \<Rightarrow> heap" where
  "VM_heap mode heapSlots =
     (if mode = AARCLocal then reserveSlots (if heapSlots \<noteq> 0 then heapSlots else 2 ^ 20) Heap_init
      else Heap_init)"

section \<open>Registers, globals and barriers\<close>

definition gc_call :: "(heap \<times> 'g \<Rightarrow> (heap \<times> 'g) gres) \<Rightarrow> ('g, 'w) vm \<Rightarrow> ('g, 'w) vmres" where
  "gc_call f s =
     (case f (m_heap s, m_gc s) of
        GOk (h, g) \<Rightarrow> Ok (s\<lparr>m_heap := h, m_gc := g\<rparr>)
      | GThrow e \<Rightarrow> HeapError e
      | GUndef \<Rightarrow> Undefined UB_Heap)"

definition setReg :: "'g gc_backend \<Rightarrow> nat \<Rightarrow> int \<Rightarrow> u8 \<Rightarrow> ('g, 'w) vm \<Rightarrow> ('g, 'w) vmres" where
  "setReg B reg value tag s =
     (if reg \<ge> NREGS then Undefined UB_Register
      else let oldTag = m_rtag s ! reg; oldValue = m_regs s ! reg in
        if oldTag = TAG_HEAP \<and> tag = TAG_HEAP \<and> oldValue = value then Ok s
        else obind (owhen (tag = TAG_HEAP) (gc_call (gc_rootAdd B (i64_to_u32 value))) s)
          (\<lambda>s1. owhen (oldTag = TAG_HEAP) (gc_call (gc_rootRemove B (i64_to_u32 oldValue)))
             (s1\<lparr>m_regs := (m_regs s1)[reg := value], m_rtag := (m_rtag s1)[reg := tag]\<rparr>)))"

definition setGlobal :: "'g gc_backend \<Rightarrow> nat \<Rightarrow> int \<Rightarrow> u8 \<Rightarrow> ('g, 'w) vm \<Rightarrow> ('g, 'w) vmres" where
  "setGlobal B slot value tag s =
     (let oldTag = m_globalTags s ! slot; oldValue = m_globals s ! slot in
      if oldTag = TAG_HEAP \<and> tag = TAG_HEAP \<and> oldValue = value then Ok s
      else obind (owhen (tag = TAG_HEAP) (gc_call (gc_rootAdd B (i64_to_u32 value))) s)
        (\<lambda>s1. owhen (oldTag = TAG_HEAP) (gc_call (gc_rootRemove B (i64_to_u32 oldValue)))
           (s1\<lparr>m_globals := (m_globals s1)[slot := value],
               m_globalTags := (m_globalTags s1)[slot := tag]\<rparr>)))"

definition drop_saved :: "'g gc_backend \<Rightarrow> saved_register \<Rightarrow> ('g, 'w) vm \<Rightarrow> ('g, 'w) vmres" where
  "drop_saved B sr = owhen (sr_tag sr = TAG_HEAP) (gc_call (gc_rootRemove B (i64_to_u32 (sr_value sr))))"

fun drop_dataStack :: "'g gc_backend \<Rightarrow> saved_register list \<Rightarrow> ('g, 'w) vm \<Rightarrow> ('g, 'w) vmres" where
  "drop_dataStack B [] s = Ok s"
| "drop_dataStack B (sr # srs) s = obind (drop_saved B sr (s\<lparr>m_dataStack := srs\<rparr>)) (drop_dataStack B srs)"

definition finishGC :: "'g gc_backend \<Rightarrow> ('g, 'w) vm \<Rightarrow> ('g, 'w) vmres" where
  "finishGC B s =
     obind (ofold (\<lambda>r. setReg B r 0 TAG_INT) [0..<NREGS] s)
      (\<lambda>s1. obind (ofold (\<lambda>g. setGlobal B g 0 TAG_INT) [0..<NGLOBALS] s1)
      (\<lambda>s2. obind (drop_dataStack B (m_dataStack s2) s2)
      (gc_call (gc_shutdown B))))"

section \<open>Decoded code\<close>

text \<open>The instruction array and the map from byte offsets to its indices.\<close>

fun build_ip_map :: "nat \<Rightarrow> instr list \<Rightarrow> (nat \<rightharpoonup> nat)" where
  "build_ip_map k [] = Map.empty"
| "build_ip_map k (i # is) =
     (case build_ip_map (Suc k) is (in_byteOffset i) of
        Some _ \<Rightarrow> build_ip_map (Suc k) is
      | None \<Rightarrow> (build_ip_map (Suc k) is)(in_byteOffset i \<mapsto> k))"

definition tryBuildJit :: "('g, 'w) vm \<Rightarrow> bool \<times> ('g, 'w) vm" where
  "tryBuildJit s =
     (if m_jitReady s then (True, s)
      else case decodeBytecode (m_chunk s) of
        Inl e \<Rightarrow> (False, s\<lparr>m_jitCode := [], m_jitIpMap := Map.empty\<rparr>)
      | Inr code \<Rightarrow> (True, s\<lparr>m_jitCode := code, m_jitIpMap := build_ip_map 0 code, m_jitReady := True\<rparr>))"

definition resolveJitTarget :: "('g, 'w) vm \<Rightarrow> nat \<Rightarrow> nat option" where
  "resolveJitTarget s byteOffset = m_jitIpMap s byteOffset"

definition nl :: string where "nl = [CHR 0x0A]"

definition panic_text :: "('g, 'w) vm \<Rightarrow> string \<Rightarrow> string" where
  "panic_text s message =
     ''Loxis VM panic: '' @ message @
     (if m_jitIp s < length (m_jitCode s) then
        nl @ ''  opcode: '' @ opcodeName (in_op (m_jitCode s ! m_jitIp s)) @
        nl @ ''  bytecode offset: 0x'' @ hex_of_nat (in_byteOffset (m_jitCode s ! m_jitIp s))
      else []) @
     nl @ ''This is a compiler or VM bug.''"

definition panic :: "('g, 'w) vm \<Rightarrow> string \<Rightarrow> (('g, 'w) vm, 'a) outcome" where
  "panic s message = Panic (panic_text s message)"

section \<open>Operands and strings\<close>

definition reg_of :: "operand \<Rightarrow> nat" where
  "reg_of o1 = i64_to_u16 (op_intVal o1)"

text \<open>A read of the register file; outside it the behaviour is undefined.\<close>

definition get_reg :: "('g, 'w) vm \<Rightarrow> nat \<Rightarrow> (('g, 'w) vm, int \<times> u8) outcome" where
  "get_reg s r = (if r < NREGS then Ok (m_regs s ! r, m_rtag s ! r) else Undefined UB_Register)"

definition readIntOperand :: "('g, 'w) vm \<Rightarrow> operand \<Rightarrow> (('g, 'w) vm, int) outcome" where
  "readIntOperand s o1 =
     (if op_tag o1 = TReg then obind (get_reg s (reg_of o1)) (\<lambda>(v, t). Ok v)
      else if op_tag o1 = TImm64 then Ok (op_intVal o1)
      else panic s ''numeric operand has an invalid tag'')"

text \<open>The string named by an index: the runtime pool first, the chunk's pool otherwise.\<close>

definition pool_string :: "('g, 'w) vm \<Rightarrow> nat \<Rightarrow> string option" where
  "pool_string s i =
     (if i < length (m_runtimeStrings s) then Some (m_runtimeStrings s ! i)
      else if i < length (ch_strings (m_chunk s)) then Some (ch_strings (m_chunk s) ! i)
      else None)"

definition chunk_string :: "('g, 'w) vm \<Rightarrow> nat \<Rightarrow> string option" where
  "chunk_string s i =
     (if i < length (ch_strings (m_chunk s)) then Some (ch_strings (m_chunk s) ! i) else None)"

definition readStringOperand :: "('g, 'w) vm \<Rightarrow> operand \<Rightarrow> (('g, 'w) vm, string) outcome" where
  "readStringOperand s o1 =
     (let bad = panic s ''string operand has an invalid tag or string index'' in
      if op_tag o1 = TStrIdx then
        (case chunk_string s (op_strIdx o1) of Some x \<Rightarrow> Ok x | None \<Rightarrow> bad)
      else if op_tag o1 = TReg then
        obind (get_reg s (reg_of o1)) (\<lambda>(v, t).
          if t = TAG_STR then (case pool_string s (i64_to_u32 v) of Some x \<Rightarrow> Ok x | None \<Rightarrow> bad)
          else bad)
      else bad)"

definition internRuntimeString :: "string \<Rightarrow> ('g, 'w) vm \<Rightarrow> nat \<times> ('g, 'w) vm" where
  "internRuntimeString str s =
     (u32_cast (length (m_runtimeStrings s)), s\<lparr>m_runtimeStrings := m_runtimeStrings s @ [str]\<rparr>)"

section \<open>Call frames\<close>

definition function_at :: "('g, 'w) vm \<Rightarrow> nat \<Rightarrow> function_info option" where
  "function_at s byteOffset =
     List.find (\<lambda>f. fi_start f \<le> byteOffset \<and> byteOffset < fi_end f) (ch_funs (m_chunk s))"

definition max_local :: "('g, 'w) vm \<Rightarrow> nat \<Rightarrow> nat" where
  "max_local s callIp =
     (if callIp < length (m_jitCode s) then
        (case function_at s (in_byteOffset (m_jitCode s ! callIp)) of
           Some f \<Rightarrow> fi_maxLocalRegister f
         | None \<Rightarrow> 15)
      else 15)"

definition saved_regs :: "nat \<Rightarrow> nat list" where
  "saved_regs maximum = filter (\<lambda>r. \<not> (240 \<le> r \<and> r \<le> 255)) [16..<Suc maximum]"

definition save_reg :: "('g, 'w) vm \<Rightarrow> nat \<Rightarrow> saved_register" where
  "save_reg s r = \<lparr>sr_reg = r, sr_value = m_regs s ! r, sr_tag = m_rtag s ! r\<rparr>"

text \<open>
  A frame saves the caller's local registers from 16 up, without the argument window 240 to 255;
  a function that claims a register beyond the file makes the loop read past it.
\<close>

definition pushCallFrame :: "'g gc_backend \<Rightarrow> nat \<Rightarrow> nat \<Rightarrow> ('g, 'w) vm \<Rightarrow> ('g, 'w) vmres" where
  "pushCallFrame B returnIp callIp s =
     (let maximum = max_local s callIp in
      if maximum \<ge> NREGS then Undefined UB_Register
      else obind
        (ofold (\<lambda>r s. owhen (m_rtag s ! r = TAG_HEAP) (gc_call (gc_rootAdd B (i64_to_u32 (m_regs s ! r)))) s)
           (saved_regs maximum) s)
        (\<lambda>s1. Ok (s1\<lparr>m_callStack := \<lparr>cf_returnIp = returnIp, cf_callIp = callIp,
                     cf_locals = map (save_reg s) (saved_regs maximum)\<rparr> # m_callStack s1\<rparr>)))"

definition restore_saved :: "'g gc_backend \<Rightarrow> saved_register \<Rightarrow> ('g, 'w) vm \<Rightarrow> ('g, 'w) vmres" where
  "restore_saved B sr s = obind (setReg B (sr_reg sr) (sr_value sr) (sr_tag sr) s) (drop_saved B sr)"

definition restoreCallFrame :: "'g gc_backend \<Rightarrow> ('g, 'w) vm \<Rightarrow> ('g, 'w) vmres" where
  "restoreCallFrame B s =
     (case m_callStack s of
        [] \<Rightarrow> panic s ''attempted to restore an empty call stack''
      | frame # rest \<Rightarrow>
          obind (ofold (\<lambda>r. setReg B r 0 TAG_INT) [1..<11] (s\<lparr>m_callStack := rest\<rparr>))
            (\<lambda>s1. obind (ofold (\<lambda>r. setReg B r 0 TAG_INT) [240..<256] s1)
            (ofold (restore_saved B) (cf_locals frame))))"

section \<open>Exceptions\<close>

text \<open>\<open>while (size > depth) restoreCallFrame()\<close>: one frame leaves the stack per iteration.\<close>

fun unwind_calls :: "'g gc_backend \<Rightarrow> nat \<Rightarrow> ('g, 'w) vm \<Rightarrow> ('g, 'w) vmres" where
  "unwind_calls B 0 s = Ok s"
| "unwind_calls B (Suc n) s = obind (restoreCallFrame B s) (unwind_calls B n)"

fun unwind_data :: "'g gc_backend \<Rightarrow> nat \<Rightarrow> ('g, 'w) vm \<Rightarrow> ('g, 'w) vmres" where
  "unwind_data B 0 s = Ok s"
| "unwind_data B (Suc n) s =
     (case m_dataStack s of
        [] \<Rightarrow> Ok s
      | sr # rest \<Rightarrow> obind (restore_saved B sr (s\<lparr>m_dataStack := rest\<rparr>)) (unwind_data B n))"

definition functionAt :: "('g, 'w) vm \<Rightarrow> nat \<Rightarrow> string" where
  "functionAt s ip =
     (if ip \<ge> length (m_jitCode s) then ''<unknown>''
      else case function_at s (in_byteOffset (m_jitCode s ! ip)) of
        Some f \<Rightarrow> fi_name f
      | None \<Rightarrow> ''<unknown>'')"

fun source_search :: "nat \<Rightarrow> nat \<Rightarrow> source_entry list \<Rightarrow> source_entry option" where
  "source_search off start [] = None"
| "source_search off start (e # es) =
     (if se_offset e > off then source_search off start es
      else if se_offset e < start then None
      else Some e)"

definition sourceAt :: "('g, 'w) vm \<Rightarrow> nat \<Rightarrow> source_entry option" where
  "sourceAt s ip =
     (if ip \<ge> length (m_jitCode s) then None
      else let off = in_byteOffset (m_jitCode s ! ip);
               start = (case function_at s off of Some f \<Rightarrow> fi_start f | None \<Rightarrow> 0) in
        source_search off start (rev (ch_sourceMap (m_chunk s))))"

definition caret_line :: "nat \<Rightarrow> string \<Rightarrow> string" where
  "caret_line start line =
     map (\<lambda>c. if c = CHR 0x09 then CHR 0x09 else CHR '' '') (take start line) @
     replicate (max 1 (if length line > start then length line - start else 1)) CHR ''^''"

definition appendFrame :: "('g, 'w) vm \<Rightarrow> nat \<Rightarrow> string" where
  "appendFrame s ip =
     (case sourceAt s ip of
        None \<Rightarrow> []
      | Some e \<Rightarrow>
          ''  File '' @ [CHR 0x22] @ se_file e @ [CHR 0x22] @ '', line '' @ string_of_nat (se_line e) @
          '', in '' @ functionAt s ip @ nl @
          (case ch_sourceLines (m_chunk s) (se_file e) of
             None \<Rightarrow> []
           | Some ls \<Rightarrow>
               if se_line e = 0 \<or> se_line e > length ls then []
               else let line = ls ! (se_line e - 1);
                        start = (if se_col e > 0 then se_col e - 1 else 0) in
                 ''    '' @ line @ nl @ ''    '' @ caret_line start line @ nl))"

text \<open>The type name and the message of an exception that nobody catches.\<close>

definition describe_exception :: "int \<Rightarrow> u8 \<Rightarrow> ('g, 'w) vm \<Rightarrow> (('g, 'w) vm, string \<times> string) outcome" where
  "describe_exception value tag s =
     (if tag \<noteq> TAG_HEAP then Ok (''Exception'', [])
      else let handle = i64_to_u32 value in
        if \<not> valid (m_heap s) handle then panic s ''throw received an invalid exception handle''
        else let typeId = getTypeId (m_heap s) handle;
                 names = ch_typeNames (m_chunk s);
                 typeName = (if typeId < length names \<and> names ! typeId \<noteq> [] then names ! typeId
                             else ''Exception'') in
          case loadCell handle 0 (m_heap s) of
            None \<Rightarrow> Undefined UB_Heap
          | Some None \<Rightarrow> panic s ''exception object has no readable message field''
          | Some (Some (raw, t)) \<Rightarrow>
              if t = TAG_STR then
                (case pool_string s (i64_to_u32 raw) of
                   Some m \<Rightarrow> Ok (typeName, m)
                 | None \<Rightarrow> panic s ''exception message contains an invalid string index'')
              else Ok (typeName, []))"

definition uncaught_report :: "('g, 'w) vm \<Rightarrow> string \<Rightarrow> string \<Rightarrow> string" where
  "uncaught_report s typeName message =
     ''Traceback (most recent call last):'' @ nl @
     concat (map (appendFrame s \<circ> cf_callIp) (rev (m_callStack s))) @
     appendFrame s (m_jitIp s) @ typeName @ (if message \<noteq> [] then '': '' @ message else [])"

definition throwValue :: "'g gc_backend \<Rightarrow> int \<Rightarrow> u8 \<Rightarrow> ('g, 'w) vm \<Rightarrow> ('g, 'w) vmres" where
  "throwValue B value tag s =
     (case m_exceptionHandlers s of
        handler # rest \<Rightarrow>
          obind (owhen (tag = TAG_HEAP) (gc_call (gc_rootAdd B (i64_to_u32 value)))
                   (s\<lparr>m_exceptionHandlers := rest\<rparr>))
          (\<lambda>s1. obind (unwind_calls B (length (m_callStack s1) - eh_callDepth handler) s1)
          (\<lambda>s2. obind (unwind_data B (length (m_dataStack s2) - eh_dataDepth handler) s2)
          (\<lambda>s3. obind (setReg B (eh_exceptionReg handler) value tag s3)
          (\<lambda>s4. obind (owhen (tag = TAG_HEAP) (gc_call (gc_rootRemove B (i64_to_u32 value))) s4)
          (\<lambda>s5. Ok (s5\<lparr>m_jitIp := eh_targetIp handler\<rparr>))))))
      | [] \<Rightarrow>
          obind (describe_exception value tag s)
            (\<lambda>(typeName, message). Uncaught (uncaught_report s typeName message)))"

definition type_index :: "string \<Rightarrow> string list \<Rightarrow> nat option" where
  "type_index name names = List.find (\<lambda>i. names ! i = name) [0..<length names]"

text \<open>\<open>raiseRuntime\<close> never returns: it delivers a fresh \<open>RuntimeException\<close> and unwinds.\<close>

definition raiseRuntime :: "'g gc_backend \<Rightarrow> string \<Rightarrow> ('g, 'w) vm \<Rightarrow> (('g, 'w) vm, 'a) outcome" where
  "raiseRuntime B message s =
     (case type_index ''RuntimeException'' (ch_typeNames (m_chunk s)) of
        None \<Rightarrow> panic s ''RuntimeException type metadata is missing''
      | Some typeId \<Rightarrow>
          (let (handle, h1) = alloc SLOT_SIZE typeId (m_heap s);
               s1 = s\<lparr>m_heap := h1\<rparr> in
           if handle = INVALID then panic s1 ''heap exhausted while creating RuntimeException''
           else obind (gc_call (gc_onAlloc B handle) s1)
             (\<lambda>s2. let (stringId, s3) = internRuntimeString message s2 in
                case storeCell handle 0 (int stringId) TAG_STR (m_heap s3) of
                  None \<Rightarrow> Undefined UB_Heap
                | Some (False, h3) \<Rightarrow> panic s3 ''failed to initialize RuntimeException.message''
                | Some (True, h3) \<Rightarrow>
                    obind (throwValue B (int handle) TAG_HEAP (s3\<lparr>m_heap := h3\<rparr>)) Unwind)))"

end
