(* ===== verification/Lx_Syscall.thy ===== *)
theory Lx_Syscall
  imports Lx_Machine
begin

text \<open>
  The native functions of the VM (\<open>VM::invokeSyscall\<close> in \<open>vm/VM.cpp\<close>): arguments in registers 1 to 4,
  result in register 0.  Double-precision arithmetic, the file system, sockets, clocks and the
  process environment are not part of the program: they are the fields of the environment record,
  functions of the operating-system state; what the VM does with their results is modelled in
  full.
\<close>

section \<open>The environment\<close>

datatype net_attempt = NoSocket | Attempt_failed string | Opened int

record 'w env =
  fp_add :: "int \<Rightarrow> int \<Rightarrow> int"
  fp_sub :: "int \<Rightarrow> int \<Rightarrow> int"
  fp_mul :: "int \<Rightarrow> int \<Rightarrow> int"
  fp_div :: "int \<Rightarrow> int \<Rightarrow> int"
  fp_neg :: "int \<Rightarrow> int"
  fp_of_int :: "int \<Rightarrow> int"
  fp_to_int :: "int \<Rightarrow> int option"
  fp_eq :: "int \<Rightarrow> int \<Rightarrow> bool"
  fp_less :: "int \<Rightarrow> int \<Rightarrow> bool"
  fp_isfinite :: "int \<Rightarrow> bool"
  fp_print :: "int \<Rightarrow> string"
  fp_math :: "nat \<Rightarrow> int \<Rightarrow> int \<Rightarrow> int"
  fp_parse :: "string \<Rightarrow> int option"
  fs_exists :: "string \<Rightarrow> 'w \<Rightarrow> bool \<times> string option"
  fs_is_directory :: "string \<Rightarrow> 'w \<Rightarrow> bool \<times> string option"
  fs_create_directories :: "string \<Rightarrow> 'w \<Rightarrow> (bool \<times> string option) \<times> 'w"
  fs_remove :: "string \<Rightarrow> 'w \<Rightarrow> (bool \<times> string option) \<times> 'w"
  fs_not_a_directory :: string
  fs_read :: "string \<Rightarrow> 'w \<Rightarrow> (string \<times> bool) option"
  fs_open_write :: "bool \<Rightarrow> string \<Rightarrow> 'w \<Rightarrow> bool \<times> 'w"
  fs_write :: "bool \<Rightarrow> string \<Rightarrow> string \<Rightarrow> 'w \<Rightarrow> bool \<times> 'w"
  fs_path :: "nat \<Rightarrow> string \<Rightarrow> string \<Rightarrow> string"
  fs_current :: "'w \<Rightarrow> string"
  fs_list :: "string \<Rightarrow> 'w \<Rightarrow> string list \<times> string option"
  os_getenv :: "string \<Rightarrow> 'w \<Rightarrow> string option"
  os_clock_ms :: "'w \<Rightarrow> int \<times> 'w"
  os_clock_ns :: "'w \<Rightarrow> int \<times> 'w"
  net_init :: "'w \<Rightarrow> string option"
  net_lookup :: "bool \<Rightarrow> string option \<Rightarrow> string \<Rightarrow> 'w \<Rightarrow> string + nat list"
  net_try :: "bool \<Rightarrow> nat \<Rightarrow> 'w \<Rightarrow> net_attempt \<times> 'w"
  net_accept :: "int \<Rightarrow> 'w \<Rightarrow> (string + int) \<times> 'w"
  net_recv :: "int \<Rightarrow> nat \<Rightarrow> 'w \<Rightarrow> (string + string) \<times> 'w"
  net_send :: "int \<Rightarrow> string \<Rightarrow> 'w \<Rightarrow> (nat \<times> string) \<times> 'w"
  net_close :: "int \<Rightarrow> 'w \<Rightarrow> 'w"
  net_port :: "int \<Rightarrow> 'w \<Rightarrow> string + int"

section \<open>Strings\<close>

text \<open>\<open>std::stoll\<close> in base ten: the value and the number of characters consumed.\<close>

datatype ll_result = LL_Invalid | LL_Range | LL_Ok int nat

definition is_space :: "char \<Rightarrow> bool" where
  "is_space c \<longleftrightarrow> c = CHR '' '' \<or> (9 \<le> (of_char c :: nat) \<and> (of_char c :: nat) \<le> 13)"

definition is_digit :: "char \<Rightarrow> bool" where
  "is_digit c \<longleftrightarrow> 48 \<le> (of_char c :: nat) \<and> (of_char c :: nat) \<le> 57"

definition digits_value :: "string \<Rightarrow> int" where
  "digits_value ds = foldl (\<lambda>a c. 10 * a + (of_char c - 48)) 0 ds"

definition stoll :: "string \<Rightarrow> ll_result" where
  "stoll s =
     (let r = dropWhile is_space s;
          neg = (r \<noteq> [] \<and> hd r = CHR ''-'');
          r1 = (if r \<noteq> [] \<and> (hd r = CHR ''-'' \<or> hd r = CHR ''+'') then tl r else r);
          ds = takeWhile is_digit r1;
          v = (if neg then - digits_value ds else digits_value ds) in
      if ds = [] then LL_Invalid
      else if \<not> in_i64 v then LL_Range
      else LL_Ok v (length s - length (dropWhile is_digit r1)))"

text \<open>\<open>std::string::find\<close> and the byte-wise order of \<open>std::string\<close>.\<close>

fun str_find_from :: "nat \<Rightarrow> string \<Rightarrow> string \<Rightarrow> nat option" where
  "str_find_from k [] needle = (if needle = [] then Some k else None)"
| "str_find_from k (c # cs) needle =
     (if take (length needle) (c # cs) = needle then Some k else str_find_from (Suc k) cs needle)"

fun str_less :: "string \<Rightarrow> string \<Rightarrow> bool" where
  "str_less xs [] = False"
| "str_less [] (y # ys) = True"
| "str_less (x # xs) (y # ys) =
     ((of_char x :: nat) < of_char y \<or> x = y \<and> str_less xs ys)"

fun str_insert :: "string \<Rightarrow> string list \<Rightarrow> string list" where
  "str_insert x [] = [x]"
| "str_insert x (y # ys) = (if str_less y x then y # str_insert x ys else x # y # ys)"

definition str_sort :: "string list \<Rightarrow> string list" where
  "str_sort xs = foldr str_insert xs []"

section \<open>Results and arguments\<close>

definition regString :: "nat \<Rightarrow> nat \<Rightarrow> ('g, 'w) vm \<Rightarrow> (('g, 'w) vm, string) outcome" where
  "regString op reg s =
     (let si = i64_to_u32 (m_regs s ! reg) in
      case pool_string s si of
        Some x \<Rightarrow> Ok x
      | None \<Rightarrow> panic s (''syscall '' @ string_of_nat op @ '' received invalid string index '' @
          string_of_nat si @ '' (tag '' @ string_of_nat (unat (m_rtag s ! reg)) @ '')''))"

definition result_string :: "'g gc_backend \<Rightarrow> string \<Rightarrow> ('g, 'w) vm \<Rightarrow> ('g, 'w) vmres" where
  "result_string B str s =
     (let (i, s1) = internRuntimeString str s in setReg B 0 (int i) TAG_STR s1)"

definition result_int :: "'g gc_backend \<Rightarrow> int \<Rightarrow> ('g, 'w) vm \<Rightarrow> ('g, 'w) vmres" where
  "result_int B v = setReg B 0 v TAG_INT"

definition result_null :: "'g gc_backend \<Rightarrow> ('g, 'w) vm \<Rightarrow> ('g, 'w) vmres" where
  "result_null B = setReg B 0 0 TAG_NULL"

definition out :: "string \<Rightarrow> ('g, 'w) vm \<Rightarrow> ('g, 'w) vm" where
  "out str s = s\<lparr>m_stdout := m_stdout s @ str\<rparr>"

section \<open>Console, conversions and heap\<close>

definition sys_readchar :: "'g gc_backend \<Rightarrow> ('g, 'w) vm \<Rightarrow> ('g, 'w) vmres" where
  "sys_readchar B s =
     (case m_stdin s of
        [] \<Rightarrow> result_int B (-1) s
      | c # cs \<Rightarrow> result_int B (of_char c) (s\<lparr>m_stdin := cs\<rparr>))"

definition sys_s2i :: "'g gc_backend \<Rightarrow> ('g, 'w) vm \<Rightarrow> ('g, 'w) vmres" where
  "sys_s2i B s =
     obind (regString 1 1 s) (\<lambda>str.
       let bad = ''invalid integer: '' @ [CHR 0x27] @ str @ [CHR 0x27] in
       case stoll str of
         LL_Invalid \<Rightarrow> raiseRuntime B bad s
       | LL_Range \<Rightarrow> raiseRuntime B (''integer out of range: '' @ [CHR 0x27] @ str @ [CHR 0x27]) s
       | LL_Ok v consumed \<Rightarrow>
           if consumed \<noteq> length str then raiseRuntime B bad s else result_int B v s)"

definition sys_typeof :: "'g gc_backend \<Rightarrow> ('g, 'w) vm \<Rightarrow> ('g, 'w) vmres" where
  "sys_typeof B s = result_int B (int (getTypeId (m_heap s) (i64_to_u32 (m_regs s ! 1)))) s"

definition sys_chr :: "'g gc_backend \<Rightarrow> ('g, 'w) vm \<Rightarrow> ('g, 'w) vmres" where
  "sys_chr B s = result_string B [char_of (nat (m_regs s ! 1 mod 256))] s"

text \<open>The common part of the two output calls; \<open>name\<close> appears in the panics, \<open>suffix\<close> in the output.\<close>

definition write_value :: "string \<Rightarrow> string \<Rightarrow> int \<Rightarrow> u8 \<Rightarrow> ('g, 'w) vm \<Rightarrow> ('g, 'w) vmres" where
  "write_value name suffix v t s =
     (if t = TAG_INT then Ok (out (string_of_int v @ suffix) s)
      else if t = TAG_STR then
        (case pool_string s (i64_to_u32 v) of
           Some str \<Rightarrow> Ok (out (str @ suffix) s)
         | None \<Rightarrow> panic s (name @ '' received an invalid string index''))
      else panic s (name @ '' received an invalid runtime tag '' @ string_of_nat (unat t)))"

definition sys_write :: "('g, 'w) vm \<Rightarrow> ('g, 'w) vmres" where
  "sys_write s = write_value ''write'' [] (m_regs s ! 1) (m_rtag s ! 1) s"

definition sys_print :: "('g, 'w) vm \<Rightarrow> ('g, 'w) vmres" where
  "sys_print s = write_value ''print'' nl (m_regs s ! 1) (m_rtag s ! 1) s"

text \<open>Allocation as \<open>S_HALLOC\<close> and the \<open>Alloc\<close> instruction do it: into register \<open>dst\<close>.\<close>

definition alloc_into :: "'g gc_backend \<Rightarrow> nat \<Rightarrow> nat \<Rightarrow> nat \<Rightarrow> ('g, 'w) vm \<Rightarrow> ('g, 'w) vmres" where
  "alloc_into B sz typeId dst s =
     (let (handle, h1) = alloc sz typeId (m_heap s); s1 = s\<lparr>m_heap := h1\<rparr> in
      if handle = INVALID then raiseRuntime B ''heap exhausted (slot space full)'' s1
      else obind (gc_call (gc_onAlloc B handle) s1) (setReg B dst (int handle) TAG_HEAP))"

definition sys_halloc :: "'g gc_backend \<Rightarrow> ('g, 'w) vm \<Rightarrow> ('g, 'w) vmres" where
  "sys_halloc B s = alloc_into B (i64_to_u32 (m_regs s ! 1)) 0 0 s"

definition load_into :: "'g gc_backend \<Rightarrow> nat \<Rightarrow> nat \<Rightarrow> nat \<Rightarrow> ('g, 'w) vm \<Rightarrow> ('g, 'w) vmres" where
  "load_into B base off dst s =
     (case loadCell base off (m_heap s) of
        None \<Rightarrow> Undefined UB_Heap
      | Some None \<Rightarrow> raiseRuntime B ''heap read out of bounds or through an invalid handle'' s
      | Some (Some (v, t)) \<Rightarrow> setReg B dst v t s)"

definition sys_hread :: "'g gc_backend \<Rightarrow> ('g, 'w) vm \<Rightarrow> ('g, 'w) vmres" where
  "sys_hread B s = load_into B (i64_to_u32 (m_regs s ! 1)) (i64_to_u32 (m_regs s ! 2)) 0 s"

text \<open>A heap store with its barriers: release the old edge, write the cell, acquire the new edge.\<close>

definition store_value :: "'g gc_backend \<Rightarrow> nat \<Rightarrow> nat \<Rightarrow> nat \<Rightarrow> ('g, 'w) vm \<Rightarrow> ('g, 'w) vmres" where
  "store_value B base off valReg s =
     (case loadCell base off (m_heap s) of
        None \<Rightarrow> Undefined UB_Heap
      | Some None \<Rightarrow> raiseRuntime B ''heap write out of bounds or through an invalid handle'' s
      | Some (Some (oldV, oldT)) \<Rightarrow> obind (get_reg s valReg) (\<lambda>(v, newTag).
          if oldT = TAG_HEAP \<and> newTag = TAG_HEAP \<and> oldV = v then Ok s
          else obind (owhen (oldT = TAG_HEAP) (gc_call (gc_edgeRemove B base (i64_to_u32 oldV))) s)
            (\<lambda>s1. case storeCell base off v newTag (m_heap s1) of
                None \<Rightarrow> Undefined UB_Heap
              | Some (False, h2) \<Rightarrow> panic s1 ''validated heap write failed''
              | Some (True, h2) \<Rightarrow>
                  owhen (newTag = TAG_HEAP) (gc_call (gc_edgeAdd B base (i64_to_u32 v))) (s1\<lparr>m_heap := h2\<rparr>))))"

definition sys_hset :: "'g gc_backend \<Rightarrow> ('g, 'w) vm \<Rightarrow> ('g, 'w) vmres" where
  "sys_hset B s =
     store_value B (i64_to_u32 (m_regs s ! 1)) (i64_to_u32 (m_regs s ! 2)) 3 s"

definition sys_hfree :: "'g gc_backend \<Rightarrow> ('g, 'w) vm \<Rightarrow> ('g, 'w) vmres" where
  "sys_hfree B s = gc_call (gc_onExplicitFree B (i64_to_u32 (m_regs s ! 1))) s"

definition sys_strlen :: "'g gc_backend \<Rightarrow> ('g, 'w) vm \<Rightarrow> ('g, 'w) vmres" where
  "sys_strlen B s = obind (regString 30 1 s) (\<lambda>str. result_int B (int (length str)) s)"

definition sys_i2s :: "'g gc_backend \<Rightarrow> ('g, 'w) vm \<Rightarrow> ('g, 'w) vmres" where
  "sys_i2s B s = result_string B (string_of_int (m_regs s ! 1)) s"

definition sys_strchar :: "'g gc_backend \<Rightarrow> ('g, 'w) vm \<Rightarrow> ('g, 'w) vmres" where
  "sys_strchar B s =
     obind (regString 32 1 s) (\<lambda>str.
       let idx = m_regs s ! 2 in
       result_int B (if 0 \<le> idx \<and> nat idx < length str then of_char (str ! nat idx) else -1) s)"

definition str_slice :: "string \<Rightarrow> int \<Rightarrow> int \<Rightarrow> string" where
  "str_slice str start cnt =
     (let b = (if nat start > length str then length str else nat start);
          n = (if b + nat cnt > length str then length str - b else nat cnt) in
      take n (drop b str))"

definition sys_strslice :: "'g gc_backend \<Rightarrow> ('g, 'w) vm \<Rightarrow> ('g, 'w) vmres" where
  "sys_strslice B s =
     obind (regString 33 1 s) (\<lambda>str. result_string B (str_slice str (m_regs s ! 2) (m_regs s ! 3)) s)"

definition sys_strindexof :: "'g gc_backend \<Rightarrow> ('g, 'w) vm \<Rightarrow> ('g, 'w) vmres" where
  "sys_strindexof B s =
     obind (regString 34 1 s) (\<lambda>str.
     obind (regString 34 2 s) (\<lambda>needle.
       result_int B (case str_find_from 0 str needle of None \<Rightarrow> -1 | Some k \<Rightarrow> int k) s))"

section \<open>Files, paths and the process\<close>

definition sys_fs :: "'w env \<Rightarrow> 'g gc_backend \<Rightarrow> nat \<Rightarrow> ('g, 'w) vm \<Rightarrow> ('g, 'w) vmres" where
  "sys_fs E B op s =
     obind (regString op 1 s) (\<lambda>path.
       let w = m_world s;
           ((ok, ec), w1) =
             (if op = 44 then (fs_exists E path w, w)
              else if op = 47 then (fs_is_directory E path w, w)
              else if op = 48 then
                (let ((ok, ec), w1) = fs_create_directories E path w in
                 if ec = None \<and> \<not> ok then (fs_is_directory E path w1, w1) else ((ok, ec), w1))
              else
                (let (isdir, ec) = fs_is_directory E path w in
                 if isdir \<and> ec = None then fs_remove E path w
                 else if ec = None then ((False, Some (fs_not_a_directory E)), w)
                 else ((False, ec), w)));
           s1 = s\<lparr>m_world := w1, m_ioError := (case ec of Some m \<Rightarrow> m | None \<Rightarrow> [])\<rparr> in
       result_int B (if ok \<and> ec = None then 1 else 0) s1)"

definition sys_readfile :: "'w env \<Rightarrow> 'g gc_backend \<Rightarrow> ('g, 'w) vm \<Rightarrow> ('g, 'w) vmres" where
  "sys_readfile E B s =
     obind (regString 45 1 s) (\<lambda>path.
       if fst (fs_is_directory E path (m_world s)) then
         result_null B (s\<lparr>m_ioError := ''cannot read directory as file''\<rparr>)
       else case fs_read E path (m_world s) of
         None \<Rightarrow> result_null B (s\<lparr>m_ioError := ''cannot open file: '' @ path\<rparr>)
       | Some (content, failed) \<Rightarrow>
           if failed then result_null B (s\<lparr>m_ioError := ''cannot read file: '' @ path\<rparr>)
           else result_string B content (s\<lparr>m_ioError := []\<rparr>))"

definition sys_path :: "'w env \<Rightarrow> 'g gc_backend \<Rightarrow> nat \<Rightarrow> ('g, 'w) vm \<Rightarrow> ('g, 'w) vmres" where
  "sys_path E B op s =
     obind (regString op 1 s) (\<lambda>path.
     obind (if op = 50 then regString op 2 s else Ok []) (\<lambda>other.
       result_string B (fs_path E op path other) s))"

definition sys_listdir :: "'w env \<Rightarrow> 'g gc_backend \<Rightarrow> ('g, 'w) vm \<Rightarrow> ('g, 'w) vmres" where
  "sys_listdir E B s =
     obind (regString 56 1 s) (\<lambda>path.
       let (entries, ec) = fs_list E path (m_world s);
           s1 = s\<lparr>m_directoryEntries := str_sort entries,
                  m_ioError := (case ec of Some m \<Rightarrow> m | None \<Rightarrow> [])\<rparr> in
       result_int B (if ec = None then int (length entries) else -1) s1)"

text \<open>The two indexed lists, directory entries and program arguments.\<close>

definition sys_indexed :: "'g gc_backend \<Rightarrow> string list \<Rightarrow> string \<Rightarrow> ('g, 'w) vm \<Rightarrow> ('g, 'w) vmres" where
  "sys_indexed B xs err s =
     (let i = m_regs s ! 1 in
      if i < 0 \<or> nat i \<ge> length xs then raiseRuntime B err s else result_string B (xs ! nat i) s)"

definition sys_getenv :: "'w env \<Rightarrow> 'g gc_backend \<Rightarrow> ('g, 'w) vm \<Rightarrow> ('g, 'w) vmres" where
  "sys_getenv E B s =
     obind (regString 60 1 s) (\<lambda>name.
       case os_getenv E (takeWhile (\<lambda>c. c \<noteq> CHR 0x00) name) (m_world s) of
         Some v \<Rightarrow> result_string B v s
       | None \<Rightarrow> result_null B s)"

definition sys_clock :: "'g gc_backend \<Rightarrow> ('w \<Rightarrow> int \<times> 'w) \<Rightarrow> ('g, 'w) vm \<Rightarrow> ('g, 'w) vmres" where
  "sys_clock B clock s = (let (t, w1) = clock (m_world s) in result_int B t (s\<lparr>m_world := w1\<rparr>))"

definition sys_fileread :: "'w env \<Rightarrow> 'g gc_backend \<Rightarrow> ('g, 'w) vm \<Rightarrow> ('g, 'w) vmres" where
  "sys_fileread E B s =
     obind (regString 40 1 s) (\<lambda>path.
       case fs_read E path (m_world s) of
         None \<Rightarrow> result_string B [] s
       | Some (content, _) \<Rightarrow> result_string B content s)"

definition sys_filewrite :: "'w env \<Rightarrow> 'g gc_backend \<Rightarrow> nat \<Rightarrow> ('g, 'w) vm \<Rightarrow> ('g, 'w) vmres" where
  "sys_filewrite E B op s =
     obind (regString op 1 s) (\<lambda>path.
       let append = (op = 42); (opened, w1) = fs_open_write E append path (m_world s);
           s1 = s\<lparr>m_world := w1\<rparr> in
       if \<not> opened then result_int B 0 s1
       else obind (regString op 2 s1) (\<lambda>text.
         let (good, w2) = fs_write E append path text (m_world s1) in
         result_int B (if good then 1 else 0) (s1\<lparr>m_world := w2\<rparr>)))"

definition sys_fileremove :: "'w env \<Rightarrow> 'g gc_backend \<Rightarrow> ('g, 'w) vm \<Rightarrow> ('g, 'w) vmres" where
  "sys_fileremove E B s =
     obind (regString 43 1 s) (\<lambda>path.
       let (isdir, ec) = fs_is_directory E path (m_world s);
           ((ok, ec1), w1) =
             (if \<not> isdir \<and> ec = None then fs_remove E path (m_world s) else ((False, ec), m_world s)) in
       result_int B (if ok \<and> ec1 = None then 1 else 0) (s\<lparr>m_world := w1\<rparr>))"

section \<open>Floating point\<close>

definition as_double :: "'w env \<Rightarrow> int \<times> u8 \<Rightarrow> int" where
  "as_double E r = (if snd r = TAG_FLOAT then fst r else fp_of_int E (fst r))"

definition sys_math :: "'w env \<Rightarrow> 'g gc_backend \<Rightarrow> nat \<Rightarrow> ('g, 'w) vm \<Rightarrow> ('g, 'w) vmres" where
  "sys_math E B op s =
     (let x = as_double E (m_regs s ! 1, m_rtag s ! 1); y = as_double E (m_regs s ! 2, m_rtag s ! 2) in
      if op = 79 then result_int B (if fp_isfinite E x then 1 else 0) s
      else if op = 80 then result_string B (fp_print E x) s
      else setReg B 0 (fp_math E op x y) TAG_FLOAT s)"

definition sys_parse_double :: "'w env \<Rightarrow> 'g gc_backend \<Rightarrow> nat \<Rightarrow> ('g, 'w) vm \<Rightarrow> ('g, 'w) vmres" where
  "sys_parse_double E B op s =
     obind (regString op 1 s) (\<lambda>text.
       if op = 82 then result_int B (if fp_parse E text \<noteq> None then 1 else 0) s
       else case fp_parse E text of
         None \<Rightarrow> raiseRuntime B ''invalid floating-point number'' s
       | Some v \<Rightarrow> setReg B 0 v TAG_FLOAT s)"

section \<open>Sockets\<close>

fun net_open :: "'w env \<Rightarrow> bool \<Rightarrow> nat list \<Rightarrow> string \<Rightarrow> 'w \<Rightarrow> int option \<times> string \<times> 'w" where
  "net_open E listen [] err w = (None, err, w)"
| "net_open E listen (a # as) err w =
     (case net_try E listen a w of
        (NoSocket, w1) \<Rightarrow> net_open E listen as err w1
      | (Opened h, w1) \<Rightarrow> (Some h, err, w1)
      | (Attempt_failed e, w1) \<Rightarrow> net_open E listen as e w1)"

definition sys_connect :: "'w env \<Rightarrow> 'g gc_backend \<Rightarrow> nat \<Rightarrow> ('g, 'w) vm \<Rightarrow> ('g, 'w) vmres" where
  "sys_connect E B op s =
     (let listen = (op = 84); s0 = s\<lparr>m_netError := []\<rparr> in
      case net_init E (m_world s0) of
        Some e \<Rightarrow> result_int B (-1) (s0\<lparr>m_netError := e\<rparr>)
      | None \<Rightarrow>
        obind (regString op 1 s0) (\<lambda>host.
          let port = m_regs s0 ! 2 in
          if port < 0 \<or> port > 65535 then
            result_int B (-1) (s0\<lparr>m_netError := ''port must be between 0 and 65535''\<rparr>)
          else case net_lookup E listen (if listen \<and> host = [] then None else Some host)
                 (string_of_int port) (m_world s0) of
            Inl e \<Rightarrow> result_int B (-1) (s0\<lparr>m_netError := e\<rparr>)
          | Inr addresses \<Rightarrow>
              (let (opened, err, w1) = net_open E listen addresses (m_netError s0) (m_world s0);
                   s1 = s0\<lparr>m_netError := err, m_world := w1\<rparr> in
               case opened of
                 None \<Rightarrow>
                   result_int B (-1) (s1\<lparr>m_netError := if err = [] then
                     (if listen then ''cannot bind TCP listener'' else ''cannot connect TCP socket'') else err\<rparr>)
               | Some h \<Rightarrow> result_int B h (s1\<lparr>m_openSockets := insert h (m_openSockets s1)\<rparr>))))"

definition bad_socket :: string where "bad_socket = ''invalid or closed socket''"

definition sys_accept :: "'w env \<Rightarrow> 'g gc_backend \<Rightarrow> ('g, 'w) vm \<Rightarrow> ('g, 'w) vmres" where
  "sys_accept E B s =
     (let l = m_regs s ! 1 in
      if l \<notin> m_openSockets s then result_int B (-1) (s\<lparr>m_netError := bad_socket\<rparr>)
      else case net_accept E l (m_world s) of
        (Inl e, w1) \<Rightarrow> result_int B (-1) (s\<lparr>m_netError := e, m_world := w1\<rparr>)
      | (Inr h, w1) \<Rightarrow>
          result_int B h (s\<lparr>m_openSockets := insert h (m_openSockets s), m_netError := [], m_world := w1\<rparr>))"

definition sys_recv :: "'w env \<Rightarrow> 'g gc_backend \<Rightarrow> ('g, 'w) vm \<Rightarrow> ('g, 'w) vmres" where
  "sys_recv E B s =
     (let h = m_regs s ! 1; maximum = m_regs s ! 2 in
      if h \<notin> m_openSockets s then result_null B (s\<lparr>m_netError := bad_socket\<rparr>)
      else if maximum \<le> 0 \<or> maximum > 16 * 1024 * 1024 then
        result_null B (s\<lparr>m_netError := ''read size must be between 1 and 16777216''\<rparr>)
      else case net_recv E h (nat maximum) (m_world s) of
        (Inl e, w1) \<Rightarrow> result_null B (s\<lparr>m_netError := e, m_world := w1\<rparr>)
      | (Inr data, w1) \<Rightarrow> result_string B data (s\<lparr>m_netError := [], m_world := w1\<rparr>))"

text \<open>
  The send loop; \<open>net_send\<close> gives the number of bytes sent, 0 for a failed call, and the text of the
  last error.
\<close>

function net_send_all :: "'w env \<Rightarrow> int \<Rightarrow> string \<Rightarrow> nat \<Rightarrow> 'w \<Rightarrow> (string + nat) \<times> 'w" where
  "net_send_all E h data written w =
     (if data = [] then (Inr written, w)
      else case net_send E h (take (2 ^ 31 - 1) data) w of
        ((cnt, e), w1) \<Rightarrow>
          if cnt = 0 then (Inl e, w1) else net_send_all E h (drop cnt data) (written + cnt) w1)"
  by pat_completeness auto
termination
  by (relation "measure (\<lambda>(E, h, data, written, w). length data)") auto

declare net_send_all.simps [simp del]

definition sys_send :: "'w env \<Rightarrow> 'g gc_backend \<Rightarrow> ('g, 'w) vm \<Rightarrow> ('g, 'w) vmres" where
  "sys_send E B s =
     (let h = m_regs s ! 1 in
      obind (regString 87 2 s) (\<lambda>data.
        if h \<notin> m_openSockets s then result_int B (-1) (s\<lparr>m_netError := bad_socket\<rparr>)
        else case net_send_all E h data 0 (m_world s) of
          (Inl e, w1) \<Rightarrow> result_int B (-1) (s\<lparr>m_netError := e, m_world := w1\<rparr>)
        | (Inr written, w1) \<Rightarrow>
            if written = length data
            then result_int B (int written) (s\<lparr>m_netError := [], m_world := w1\<rparr>)
            else Ok (s\<lparr>m_world := w1\<rparr>)))"

definition sys_close :: "'w env \<Rightarrow> 'g gc_backend \<Rightarrow> ('g, 'w) vm \<Rightarrow> ('g, 'w) vmres" where
  "sys_close E B s =
     (let h = m_regs s ! 1 in
      if h \<notin> m_openSockets s then result_int B 0 (s\<lparr>m_netError := bad_socket\<rparr>)
      else result_int B 1 (s\<lparr>m_world := net_close E h (m_world s),
             m_openSockets := m_openSockets s - {h}, m_netError := []\<rparr>))"

definition sys_port :: "'w env \<Rightarrow> 'g gc_backend \<Rightarrow> ('g, 'w) vm \<Rightarrow> ('g, 'w) vmres" where
  "sys_port E B s =
     (let h = m_regs s ! 1 in
      if h \<notin> m_openSockets s then result_int B (-1) (s\<lparr>m_netError := bad_socket\<rparr>)
      else case net_port E h (m_world s) of
        Inl e \<Rightarrow> result_int B (-1) (s\<lparr>m_netError := e\<rparr>)
      | Inr p \<Rightarrow> result_int B p (s\<lparr>m_netError := []\<rparr>))"

section \<open>Dispatch\<close>

definition sys_error :: "'g gc_backend \<Rightarrow> ('g, 'w) vm \<Rightarrow> ('g, 'w) vmres" where
  "sys_error B s = obind (regString 99 1 s) (\<lambda>m. raiseRuntime B m s)"

definition invokeSyscall :: "'w env \<Rightarrow> 'g gc_backend \<Rightarrow> nat \<Rightarrow> ('g, 'w) vm \<Rightarrow> ('g, 'w) vmres" where
  "invokeSyscall E B op s =
     (if op = 0 then sys_readchar B s
      else if op = 1 then sys_s2i B s
      else if op = 2 then sys_typeof B s
      else if op = 3 then sys_chr B s
      else if op = 10 then sys_write s
      else if op = 11 then sys_print s
      else if op = 20 then sys_halloc B s
      else if op = 21 then sys_hread B s
      else if op = 22 then sys_hset B s
      else if op = 23 then sys_hfree B s
      else if op = 30 then sys_strlen B s
      else if op = 31 then sys_i2s B s
      else if op = 32 then sys_strchar B s
      else if op = 33 then sys_strslice B s
      else if op = 34 then sys_strindexof B s
      else if op = 40 then sys_fileread E B s
      else if op = 41 \<or> op = 42 then sys_filewrite E B op s
      else if op = 43 then sys_fileremove E B s
      else if op = 44 \<or> op = 47 \<or> op = 48 \<or> op = 49 then sys_fs E B op s
      else if op = 45 then sys_readfile E B s
      else if op = 46 then result_string B (m_ioError s) s
      else if 50 \<le> op \<and> op \<le> 54 then sys_path E B op s
      else if op = 55 then result_string B (fs_current E (m_world s)) s
      else if op = 56 then sys_listdir E B s
      else if op = 57 then sys_indexed B (m_directoryEntries s) ''directory entry index out of bounds'' s
      else if op = 60 then sys_getenv E B s
      else if op = 61 then result_int B (int (length (m_arguments s))) s
      else if op = 62 then sys_indexed B (m_arguments s) ''argument index out of bounds'' s
      else if op = 63 then sys_clock B (os_clock_ms E) s
      else if op = 64 then sys_clock B (os_clock_ns E) s
      else if 70 \<le> op \<and> op \<le> 80 then sys_math E B op s
      else if op = 81 \<or> op = 82 then sys_parse_double E B op s
      else if op = 83 \<or> op = 84 then sys_connect E B op s
      else if op = 85 then sys_accept E B s
      else if op = 86 then sys_recv E B s
      else if op = 87 then sys_send E B s
      else if op = 88 then sys_close E B s
      else if op = 89 then result_string B (m_netError s) s
      else if op = 90 then sys_port E B s
      else if op = 99 then sys_error B s
      else panic s (''unknown syscall '' @ string_of_nat op))"

end
