(* ===== verification/Lx_Exec.thy ===== *)
theory Lx_Exec
  imports Lx_Syscall "HOL-Library.Signed_Division"
begin

text \<open>
  The instruction set (\<open>VM::execJitInstruction\<close>, one definition per case) and the dispatch loop
  (\<open>VM::runJit\<close>, \<open>VM::run\<close>).  An instruction with fewer operands than its case reads, a register
  number outside the file, signed overflow and a shift by a negative amount or by 64 or more are
  undefined behaviour in C++ and are recorded as such.
\<close>

unbundle bit_operations_syntax

section \<open>Control helpers\<close>

definition next_ip :: "('g, 'w) vm \<Rightarrow> ('g, 'w) vmres" where
  "next_ip s = Ok (s\<lparr>m_jitIp := m_jitIp s + 1\<rparr>)"

definition set_next :: "'g gc_backend \<Rightarrow> nat \<Rightarrow> int \<Rightarrow> u8 \<Rightarrow> ('g, 'w) vm \<Rightarrow> ('g, 'w) vmres" where
  "set_next B reg v t s = obind (setReg B reg v t s) next_ip"

definition jump :: "string \<Rightarrow> operand \<Rightarrow> ('g, 'w) vm \<Rightarrow> ('g, 'w) vmres" where
  "jump what addr s =
     (case resolveJitTarget s (i64_to_u32 (op_intVal addr)) of
        None \<Rightarrow> panic s what
      | Some target \<Rightarrow> Ok (s\<lparr>m_jitIp := target\<rparr>))"

definition bad_operands :: "(('g, 'w) vm, 'a) outcome" where
  "bad_operands = Undefined UB_Operand"

definition checked :: "int \<Rightarrow> (('g, 'w) vm, int) outcome" where
  "checked v = (if in_i64 v then Ok v else Undefined UB_Arith)"

definition wrap_i64 :: "int \<Rightarrow> int" where
  "wrap_i64 v = u64_to_i64 (i64_to_u64 v)"

section \<open>Exceptions and types\<close>

definition exec_TryPush :: "operand list \<Rightarrow> ('g, 'w) vm \<Rightarrow> ('g, 'w) vmres" where
  "exec_TryPush ops s =
     (case ops of o0 # o1 # _ \<Rightarrow>
        (case resolveJitTarget s (i64_to_u32 (op_intVal o0)) of
           None \<Rightarrow> panic s ''invalid exception handler target''
         | Some target \<Rightarrow>
             next_ip (s\<lparr>m_exceptionHandlers :=
               \<lparr>eh_targetIp = target, eh_exceptionReg = reg_of o1,
                eh_callDepth = length (m_callStack s), eh_dataDepth = length (m_dataStack s)\<rparr>
               # m_exceptionHandlers s\<rparr>))
      | _ \<Rightarrow> bad_operands)"

definition exec_TryPop :: "('g, 'w) vm \<Rightarrow> ('g, 'w) vmres" where
  "exec_TryPop s =
     (case m_exceptionHandlers s of
        [] \<Rightarrow> panic s ''exception handler stack underflow''
      | _ # rest \<Rightarrow> next_ip (s\<lparr>m_exceptionHandlers := rest\<rparr>))"

definition exec_Throw :: "'g gc_backend \<Rightarrow> operand list \<Rightarrow> ('g, 'w) vm \<Rightarrow> ('g, 'w) vmres" where
  "exec_Throw B ops s =
     (case ops of o0 # _ \<Rightarrow> obind (get_reg s (reg_of o0)) (\<lambda>(v, t). throwValue B v t s)
      | _ \<Rightarrow> bad_operands)"

text \<open>The walk up the class hierarchy; it does not end on a cyclic hierarchy.\<close>

partial_function (option) isa_walk :: "nat list \<Rightarrow> nat \<Rightarrow> nat \<Rightarrow> bool option" where
  "isa_walk parents target ty =
     (if ty = 4294967295 then Some False
      else if ty = target then Some True
      else if ty \<ge> length parents then Some False
      else isa_walk parents target (parents ! ty))"

definition exec_IsA :: "'g gc_backend \<Rightarrow> operand list \<Rightarrow> ('g, 'w) vm \<Rightarrow> ('g, 'w) vmres" where
  "exec_IsA B ops s =
     (case ops of o0 # o1 # o2 # _ \<Rightarrow>
        obind (readIntOperand s o1) (\<lambda>ty.
        obind (get_reg s (reg_of o0)) (\<lambda>(v, t).
          if t = TAG_HEAP then
            (let handle = i64_to_u32 v in
             if \<not> valid (m_heap s) handle then panic s ''type check received an invalid heap handle''
             else case isa_walk (ch_typeParents (m_chunk s)) (i64_to_u32 ty) (getTypeId (m_heap s) handle) of
               None \<Rightarrow> Undefined UB_Loop
             | Some m \<Rightarrow> set_next B (reg_of o2) (if m then 1 else 0) TAG_INT s)
          else set_next B (reg_of o2) 0 TAG_INT s))
      | _ \<Rightarrow> bad_operands)"

definition exec_TypeOf :: "'g gc_backend \<Rightarrow> operand list \<Rightarrow> ('g, 'w) vm \<Rightarrow> ('g, 'w) vmres" where
  "exec_TypeOf B ops s =
     (case ops of o0 # o1 # _ \<Rightarrow>
        obind (get_reg s (reg_of o0)) (\<lambda>(v, t).
          set_next B (reg_of o1) (int (getTypeId (m_heap s) (i64_to_u32 v))) TAG_INT s)
      | _ \<Rightarrow> bad_operands)"

section \<open>Moves and spills\<close>

definition exec_Push :: "'g gc_backend \<Rightarrow> operand list \<Rightarrow> ('g, 'w) vm \<Rightarrow> ('g, 'w) vmres" where
  "exec_Push B ops s =
     (case ops of dst # val # _ \<Rightarrow>
        (case op_tag val of
           TReg \<Rightarrow> obind (get_reg s (reg_of val)) (\<lambda>(v, t). set_next B (reg_of dst) v t s)
         | TImm64 \<Rightarrow> set_next B (reg_of dst) (op_intVal val) TAG_INT s
         | TNull \<Rightarrow> set_next B (reg_of dst) 0 TAG_NULL s
         | TFloat64 \<Rightarrow> set_next B (reg_of dst) (op_intVal val) TAG_FLOAT s
         | TStrIdx \<Rightarrow> set_next B (reg_of dst) (int (op_strIdx val)) TAG_STR s
         | TAddr \<Rightarrow> set_next B (reg_of dst) (op_intVal val) TAG_INT s
         | TWideReg \<Rightarrow> next_ip s)
      | _ \<Rightarrow> bad_operands)"

definition exec_PushR :: "'g gc_backend \<Rightarrow> operand list \<Rightarrow> ('g, 'w) vm \<Rightarrow> ('g, 'w) vmres" where
  "exec_PushR B ops s =
     (case ops of o0 # _ \<Rightarrow>
        obind (get_reg s (reg_of o0)) (\<lambda>(v, t).
        obind (owhen (t = TAG_HEAP) (gc_call (gc_rootAdd B (i64_to_u32 v))) s) (\<lambda>s1.
          next_ip (s1\<lparr>m_dataStack := \<lparr>sr_reg = reg_of o0, sr_value = v, sr_tag = t\<rparr> # m_dataStack s1\<rparr>)))
      | _ \<Rightarrow> bad_operands)"

definition exec_PopR :: "'g gc_backend \<Rightarrow> operand list \<Rightarrow> ('g, 'w) vm \<Rightarrow> ('g, 'w) vmres" where
  "exec_PopR B ops s =
     (case ops of o0 # _ \<Rightarrow>
        (case m_dataStack s of
           [] \<Rightarrow> next_ip s
         | sr # rest \<Rightarrow>
             (let s1 = s\<lparr>m_dataStack := rest\<rparr> in
              if sr_reg sr \<noteq> reg_of o0 then panic s1 ''register spill stack mismatch''
              else obind (restore_saved B sr s1) next_ip))
      | _ \<Rightarrow> bad_operands)"

definition exec_Mov :: "'g gc_backend \<Rightarrow> operand list \<Rightarrow> ('g, 'w) vm \<Rightarrow> ('g, 'w) vmres" where
  "exec_Mov B ops s =
     (case ops of dst # val # _ \<Rightarrow>
        (case op_tag val of
           TImm64 \<Rightarrow> set_next B (reg_of dst) (op_intVal val) TAG_INT s
         | TAddr \<Rightarrow> set_next B (reg_of dst) (op_intVal val) TAG_INT s
         | TReg \<Rightarrow> obind (get_reg s (reg_of val)) (\<lambda>(v, t). set_next B (reg_of dst) v t s)
         | _ \<Rightarrow> next_ip s)
      | _ \<Rightarrow> bad_operands)"

definition exec_GLoad :: "'g gc_backend \<Rightarrow> operand list \<Rightarrow> ('g, 'w) vm \<Rightarrow> ('g, 'w) vmres" where
  "exec_GLoad B ops s =
     (case ops of o0 # o1 # _ \<Rightarrow>
        obind (readIntOperand s o0) (\<lambda>v.
          let slot = i64_to_u32 v in
          if slot \<ge> NGLOBALS then panic s ''global slot out of bounds''
          else set_next B (reg_of o1) (m_globals s ! slot) (m_globalTags s ! slot) s)
      | _ \<Rightarrow> bad_operands)"

definition exec_GStore :: "'g gc_backend \<Rightarrow> operand list \<Rightarrow> ('g, 'w) vm \<Rightarrow> ('g, 'w) vmres" where
  "exec_GStore B ops s =
     (case ops of o0 # o1 # _ \<Rightarrow>
        obind (readIntOperand s o0) (\<lambda>v.
          let slot = i64_to_u32 v in
          if slot \<ge> NGLOBALS then panic s ''global slot out of bounds''
          else obind (get_reg s (reg_of o1)) (\<lambda>(x, t). obind (setGlobal B slot x t s) next_ip))
      | _ \<Rightarrow> bad_operands)"

section \<open>Heap access\<close>

definition exec_Alloc :: "'g gc_backend \<Rightarrow> operand list \<Rightarrow> ('g, 'w) vm \<Rightarrow> ('g, 'w) vmres" where
  "exec_Alloc B ops s =
     (case ops of o0 # o1 # o2 # _ \<Rightarrow>
        obind (readIntOperand s o1) (\<lambda>v.
        obind (alloc_into B (i64_to_u32 v) (i64_to_u32 (op_intVal o0)) (reg_of o2) s) next_ip)
      | _ \<Rightarrow> bad_operands)"

definition exec_HFree :: "'g gc_backend \<Rightarrow> operand list \<Rightarrow> ('g, 'w) vm \<Rightarrow> ('g, 'w) vmres" where
  "exec_HFree B ops s =
     (case ops of o0 # _ \<Rightarrow>
        obind (get_reg s (reg_of o0)) (\<lambda>(v, t).
        obind (gc_call (gc_onExplicitFree B (i64_to_u32 v)) s) next_ip)
      | _ \<Rightarrow> bad_operands)"

definition exec_HStore :: "'g gc_backend \<Rightarrow> operand list \<Rightarrow> ('g, 'w) vm \<Rightarrow> ('g, 'w) vmres" where
  "exec_HStore B ops s =
     (case ops of o0 # o1 # o2 # _ \<Rightarrow>
        obind (get_reg s (reg_of o0)) (\<lambda>(base, bt).
        obind (get_reg s (reg_of o1)) (\<lambda>(off, ot).
        obind (store_value B (i64_to_u32 base) (i64_to_u32 off) (reg_of o2) s) next_ip))
      | _ \<Rightarrow> bad_operands)"

definition exec_HLoad :: "'g gc_backend \<Rightarrow> operand list \<Rightarrow> ('g, 'w) vm \<Rightarrow> ('g, 'w) vmres" where
  "exec_HLoad B ops s =
     (case ops of o0 # o1 # o2 # _ \<Rightarrow>
        obind (get_reg s (reg_of o0)) (\<lambda>(base, bt).
        obind (get_reg s (reg_of o1)) (\<lambda>(off, ot).
        obind (load_into B (i64_to_u32 base) (i64_to_u32 off) (reg_of o2) s) next_ip))
      | _ \<Rightarrow> bad_operands)"

section \<open>Arithmetic\<close>

definition exec_Add :: "'g gc_backend \<Rightarrow> operand list \<Rightarrow> ('g, 'w) vm \<Rightarrow> ('g, 'w) vmres" where
  "exec_Add B ops s =
     (case ops of dst # src # val # _ \<Rightarrow>
        obind (get_reg s (reg_of src)) (\<lambda>(x, xt).
        obind (if xt = TAG_STR \<and> op_tag val = TReg
               then obind (get_reg s (reg_of val)) (\<lambda>(y, yt). Ok (yt = TAG_STR)) else Ok False) (\<lambda>strs.
          if strs then
            obind (readStringOperand s src) (\<lambda>lhs.
            obind (readStringOperand s val) (\<lambda>rhs.
              let (i, s1) = internRuntimeString (lhs @ rhs) s in
              set_next B (reg_of dst) (int i) TAG_STR s1))
          else
            obind (readIntOperand s val) (\<lambda>operand.
            obind (checked (x + operand)) (\<lambda>r. set_next B (reg_of dst) r TAG_INT s))))
      | _ \<Rightarrow> bad_operands)"

text \<open>
  The shape shared by the other integer instructions: a check of the operand, the source register,
  the operation, the destination.
\<close>

definition int_op ::
  "(int \<Rightarrow> (('g, 'w) vm, unit) outcome) \<Rightarrow> (int \<Rightarrow> int \<Rightarrow> (('g, 'w) vm, int) outcome) \<Rightarrow>
   'g gc_backend \<Rightarrow> operand list \<Rightarrow> ('g, 'w) vm \<Rightarrow> ('g, 'w) vmres" where
  "int_op chk f B ops s =
     (case ops of src # val # dst # _ \<Rightarrow>
        obind (readIntOperand s val) (\<lambda>operand.
        obind (chk operand) (\<lambda>_.
        obind (get_reg s (reg_of src)) (\<lambda>(x, t).
        obind (f x operand) (\<lambda>r. set_next B (reg_of dst) r TAG_INT s))))
      | _ \<Rightarrow> bad_operands)"

definition no_check :: "int \<Rightarrow> (('g, 'w) vm, unit) outcome" where
  "no_check y = Ok ()"

definition zero_check :: "'g gc_backend \<Rightarrow> string \<Rightarrow> ('g, 'w) vm \<Rightarrow> int \<Rightarrow> (('g, 'w) vm, unit) outcome" where
  "zero_check B msg s y = (if y = 0 then raiseRuntime B msg s else Ok ())"

definition exec_Sub :: "'g gc_backend \<Rightarrow> operand list \<Rightarrow> ('g, 'w) vm \<Rightarrow> ('g, 'w) vmres" where
  "exec_Sub = int_op no_check (\<lambda>x y. checked (x - y))"

definition exec_Mul :: "'g gc_backend \<Rightarrow> operand list \<Rightarrow> ('g, 'w) vm \<Rightarrow> ('g, 'w) vmres" where
  "exec_Mul = int_op no_check (\<lambda>x y. checked (x * y))"

definition exec_Div :: "'g gc_backend \<Rightarrow> operand list \<Rightarrow> ('g, 'w) vm \<Rightarrow> ('g, 'w) vmres" where
  "exec_Div B ops s =
     int_op (zero_check B ''division by zero'' s) (\<lambda>x y. checked (x sdiv y)) B ops s"

definition exec_Rem :: "'g gc_backend \<Rightarrow> operand list \<Rightarrow> ('g, 'w) vm \<Rightarrow> ('g, 'w) vmres" where
  "exec_Rem B ops s =
     int_op (zero_check B ''remainder by zero'' s)
       (\<lambda>x y. obind (checked (x sdiv y)) (\<lambda>_. Ok (x smod y))) B ops s"

definition exec_Shl :: "'g gc_backend \<Rightarrow> operand list \<Rightarrow> ('g, 'w) vm \<Rightarrow> ('g, 'w) vmres" where
  "exec_Shl =
     int_op no_check
       (\<lambda>x n. if 0 \<le> n \<and> n < 64 then Ok (wrap_i64 (x * 2 ^ nat n)) else Undefined UB_Arith)"

definition exec_Shr :: "'g gc_backend \<Rightarrow> operand list \<Rightarrow> ('g, 'w) vm \<Rightarrow> ('g, 'w) vmres" where
  "exec_Shr =
     int_op no_check (\<lambda>x n. if 0 \<le> n \<and> n < 64 then Ok (x div 2 ^ nat n) else Undefined UB_Arith)"

definition exec_Bit :: "opcode \<Rightarrow> 'g gc_backend \<Rightarrow> operand list \<Rightarrow> ('g, 'w) vm \<Rightarrow> ('g, 'w) vmres" where
  "exec_Bit opc =
     int_op no_check
       (\<lambda>x y. Ok (if opc = OpBitAnd then x AND y else if opc = OpBitOr then x OR y else x XOR y))"

text \<open>Floating point on the 64-bit patterns; \<open>FAdd\<close> has its destination first, the others last.\<close>

definition float_op :: "(int \<Rightarrow> int \<Rightarrow> int) \<Rightarrow> 'g gc_backend \<Rightarrow> operand \<Rightarrow> operand \<Rightarrow> operand \<Rightarrow> ('g, 'w) vm \<Rightarrow> ('g, 'w) vmres" where
  "float_op f B src val dst s =
     obind (get_reg s (reg_of src)) (\<lambda>(a, at).
     obind (get_reg s (reg_of val)) (\<lambda>(b, bt).
       set_next B (reg_of dst) (f a b) TAG_FLOAT s))"

definition exec_FAdd :: "'w env \<Rightarrow> 'g gc_backend \<Rightarrow> operand list \<Rightarrow> ('g, 'w) vm \<Rightarrow> ('g, 'w) vmres" where
  "exec_FAdd E B ops s =
     (case ops of dst # src # val # _ \<Rightarrow> float_op (fp_add E) B src val dst s | _ \<Rightarrow> bad_operands)"

definition exec_FSub :: "'w env \<Rightarrow> 'g gc_backend \<Rightarrow> operand list \<Rightarrow> ('g, 'w) vm \<Rightarrow> ('g, 'w) vmres" where
  "exec_FSub E B ops s =
     (case ops of src # val # dst # _ \<Rightarrow> float_op (fp_sub E) B src val dst s | _ \<Rightarrow> bad_operands)"

definition exec_FMul :: "'w env \<Rightarrow> 'g gc_backend \<Rightarrow> operand list \<Rightarrow> ('g, 'w) vm \<Rightarrow> ('g, 'w) vmres" where
  "exec_FMul E B ops s =
     (case ops of src # val # dst # _ \<Rightarrow> float_op (fp_mul E) B src val dst s | _ \<Rightarrow> bad_operands)"

definition exec_FDiv :: "'w env \<Rightarrow> 'g gc_backend \<Rightarrow> operand list \<Rightarrow> ('g, 'w) vm \<Rightarrow> ('g, 'w) vmres" where
  "exec_FDiv E B ops s =
     (case ops of src # val # dst # _ \<Rightarrow> float_op (fp_div E) B src val dst s | _ \<Rightarrow> bad_operands)"

definition exec_ItoF :: "'w env \<Rightarrow> 'g gc_backend \<Rightarrow> operand list \<Rightarrow> ('g, 'w) vm \<Rightarrow> ('g, 'w) vmres" where
  "exec_ItoF E B ops s =
     (case ops of src # dst # _ \<Rightarrow>
        obind (get_reg s (reg_of src)) (\<lambda>(x, t). set_next B (reg_of dst) (fp_of_int E x) TAG_FLOAT s)
      | _ \<Rightarrow> bad_operands)"

definition exec_FtoI :: "'w env \<Rightarrow> 'g gc_backend \<Rightarrow> operand list \<Rightarrow> ('g, 'w) vm \<Rightarrow> ('g, 'w) vmres" where
  "exec_FtoI E B ops s =
     (case ops of src # dst # _ \<Rightarrow>
        obind (get_reg s (reg_of src)) (\<lambda>(x, t).
          case fp_to_int E x of
            None \<Rightarrow> Undefined UB_Arith
          | Some v \<Rightarrow> set_next B (reg_of dst) v TAG_INT s)
      | _ \<Rightarrow> bad_operands)"

definition exec_FNeg :: "'w env \<Rightarrow> 'g gc_backend \<Rightarrow> operand list \<Rightarrow> ('g, 'w) vm \<Rightarrow> ('g, 'w) vmres" where
  "exec_FNeg E B ops s =
     (case ops of src # dst # _ \<Rightarrow>
        obind (get_reg s (reg_of src)) (\<lambda>(x, t). set_next B (reg_of dst) (fp_neg E x) TAG_FLOAT s)
      | _ \<Rightarrow> bad_operands)"

section \<open>Comparison and jumps\<close>

definition flags_of :: "bool \<Rightarrow> bool \<Rightarrow> u8" where
  "flags_of eq lt = (if eq then FLAG_ZERO else 0) OR (if lt then FLAG_NEG else 0)"

definition exec_Cmp :: "'w env \<Rightarrow> operand list \<Rightarrow> ('g, 'w) vm \<Rightarrow> ('g, 'w) vmres" where
  "exec_Cmp E ops s =
     (case ops of o0 # o1 # _ \<Rightarrow>
        obind (get_reg s (reg_of o0)) (\<lambda>(a, at).
        obind (get_reg s (reg_of o1)) (\<lambda>(b, bt).
        obind
          (if at = TAG_NULL \<or> bt = TAG_NULL then Ok (flags_of (at = bt) False)
           else if at = TAG_FLOAT \<or> bt = TAG_FLOAT then
             (let x = as_double E (a, at); y = as_double E (b, bt) in
              Ok (flags_of (fp_eq E x y) (fp_less E x y)))
           else if at = TAG_STR \<and> bt = TAG_STR then
             obind (readStringOperand s o0) (\<lambda>x.
             obind (readStringOperand s o1) (\<lambda>y. Ok (flags_of (x = y) (str_less x y))))
           else Ok (flags_of (a = b) (a < b)))
          (\<lambda>fl. next_ip (s\<lparr>m_flags := fl\<rparr>))))
      | _ \<Rightarrow> bad_operands)"

definition exec_Jmp :: "operand list \<Rightarrow> ('g, 'w) vm \<Rightarrow> ('g, 'w) vmres" where
  "exec_Jmp ops s = (case ops of o0 # _ \<Rightarrow> jump ''invalid jump target'' o0 s | _ \<Rightarrow> bad_operands)"

definition exec_Jnz :: "operand list \<Rightarrow> ('g, 'w) vm \<Rightarrow> ('g, 'w) vmres" where
  "exec_Jnz ops s =
     (case ops of o0 # _ \<Rightarrow>
        if m_flags s AND FLAG_ZERO = 0 then jump ''invalid jnz target'' o0 s else next_ip s
      | _ \<Rightarrow> bad_operands)"

definition exec_Jz :: "operand list \<Rightarrow> ('g, 'w) vm \<Rightarrow> ('g, 'w) vmres" where
  "exec_Jz ops s =
     (case ops of o0 # _ \<Rightarrow>
        if m_flags s AND FLAG_ZERO \<noteq> 0 then jump ''invalid jz target'' o0 s else next_ip s
      | _ \<Rightarrow> bad_operands)"

definition exec_Jn :: "operand list \<Rightarrow> ('g, 'w) vm \<Rightarrow> ('g, 'w) vmres" where
  "exec_Jn ops s =
     (case ops of o0 # _ \<Rightarrow>
        if m_flags s AND FLAG_NEG \<noteq> 0 then jump ''invalid jn target'' o0 s else next_ip s
      | _ \<Rightarrow> bad_operands)"

definition exec_Skip :: "operand list \<Rightarrow> ('g, 'w) vm \<Rightarrow> ('g, 'w) vmres" where
  "exec_Skip ops s =
     (case ops of o0 # _ \<Rightarrow> jump ''invalid skip target'' o0 s | [] \<Rightarrow> Ok (s\<lparr>m_halted := True\<rparr>))"

definition exec_NullChk :: "operand list \<Rightarrow> ('g, 'w) vm \<Rightarrow> ('g, 'w) vmres" where
  "exec_NullChk ops s =
     (case ops of val # addr # _ \<Rightarrow>
        obind (if op_tag val = TReg then obind (get_reg s (reg_of val)) (\<lambda>(v, t). Ok (t = TAG_NULL))
               else Ok (op_tag val = TNull)) (\<lambda>isNull.
          if isNull then jump ''invalid null-check target'' addr s else next_ip s)
      | _ \<Rightarrow> bad_operands)"

section \<open>Calls\<close>

definition call_to :: "'g gc_backend \<Rightarrow> nat \<Rightarrow> nat \<Rightarrow> ('g, 'w) vm \<Rightarrow> ('g, 'w) vmres" where
  "call_to B returnIp target s =
     obind (pushCallFrame B returnIp (m_jitIp s) s) (\<lambda>s1. Ok (s1\<lparr>m_jitIp := target\<rparr>))"

definition exec_Call :: "'g gc_backend \<Rightarrow> operand list \<Rightarrow> ('g, 'w) vm \<Rightarrow> ('g, 'w) vmres" where
  "exec_Call B ops s =
     (case ops of o0 # _ \<Rightarrow>
        (case resolveJitTarget s (i64_to_u32 (op_intVal o0)) of
           None \<Rightarrow> panic s ''invalid call target''
         | Some target \<Rightarrow> call_to B (m_jitIp s + 1) target s)
      | _ \<Rightarrow> bad_operands)"

text \<open>
  \<open>CallInd\<close> on a closure moves the arguments up by one to make room for the closure itself; the
  register numbers of that loop are 8-bit.
\<close>

definition shift_args :: "'g gc_backend \<Rightarrow> nat \<Rightarrow> ('g, 'w) vm \<Rightarrow> ('g, 'w) vmres" where
  "shift_args B nargs =
     ofold (\<lambda>i s. let from = u8_cast i in setReg B (u8_cast (i + 1)) (m_regs s ! from) (m_rtag s ! from) s)
       (rev [1..<(if nargs < 2 ^ 31 then Suc nargs else 1)])"

definition exec_CallInd :: "'g gc_backend \<Rightarrow> operand list \<Rightarrow> ('g, 'w) vm \<Rightarrow> ('g, 'w) vmres" where
  "exec_CallInd B ops s =
     (case ops of o0 # o1 # _ \<Rightarrow>
        (let reg = reg_of o0 in
         obind (get_reg s reg) (\<lambda>(f, ft).
         obind
          (if ft = TAG_HEAP then
             (case loadCell (i64_to_u32 f) 0 (m_heap s) of
                None \<Rightarrow> Undefined UB_Heap
              | Some None \<Rightarrow> panic s ''closure has no readable function cell''
              | Some (Some (entry, _)) \<Rightarrow>
                  obind (shift_args B (i64_to_u32 (op_intVal o1)) s) (\<lambda>s1.
                  obind (setReg B 1 (m_regs s1 ! reg) (m_rtag s1 ! reg) s1) (\<lambda>s2.
                    Ok (i64_to_u32 entry, s2))))
           else Ok (i64_to_u32 f, s))
          (\<lambda>(targetOffset, s2).
            case resolveJitTarget s2 targetOffset of
              None \<Rightarrow> panic s2 ''invalid indirect call target''
            | Some target \<Rightarrow> call_to B (m_jitIp s2 + 1) target s2)))
      | _ \<Rightarrow> bad_operands)"

definition exec_VCall :: "'g gc_backend \<Rightarrow> operand list \<Rightarrow> ('g, 'w) vm \<Rightarrow> ('g, 'w) vmres" where
  "exec_VCall B ops s =
     (case ops of o0 # o1 # _ # o3 # _ \<Rightarrow>
        obind (get_reg s (reg_of o0)) (\<lambda>(v, t).
          let slot = i64_to_u32 (op_intVal o1);
              typeId = getTypeId (m_heap s) (i64_to_u32 v);
              vts = ch_vtables (m_chunk s);
              bad = panic s (''invalid virtual dispatch for type '' @ string_of_nat typeId @
                      '' slot '' @ string_of_nat slot) in
          if typeId < length vts \<and> slot < length (vt_methodOffsets (vts ! typeId)) then
            (case resolveJitTarget s (vt_methodOffsets (vts ! typeId) ! slot) of
               None \<Rightarrow> bad
             | Some target \<Rightarrow>
                 (case resolveJitTarget s (i64_to_u32 (op_intVal o3)) of
                    None \<Rightarrow> panic s ''invalid virtual return address''
                  | Some resume \<Rightarrow> call_to B resume target s))
          else bad)
      | _ \<Rightarrow> bad_operands)"

text \<open>The first itable entry of the interface whose method resolves.\<close>

fun itable_search :: "('g, 'w) vm \<Rightarrow> nat \<Rightarrow> nat \<Rightarrow> itable_entry list \<Rightarrow> nat option" where
  "itable_search s iface idx [] = None"
| "itable_search s iface idx (e # es) =
     (if ie_interfaceTypeId e = iface \<and> idx < length (ie_methodOffsets e) then
        (case resolveJitTarget s (ie_methodOffsets e ! idx) of
           Some target \<Rightarrow> Some target
         | None \<Rightarrow> itable_search s iface idx es)
      else itable_search s iface idx es)"

definition exec_ICall :: "'g gc_backend \<Rightarrow> operand list \<Rightarrow> ('g, 'w) vm \<Rightarrow> ('g, 'w) vmres" where
  "exec_ICall B ops s =
     (case ops of o0 # o1 # o2 # _ # o4 # _ \<Rightarrow>
        obind (get_reg s (reg_of o0)) (\<lambda>(v, t).
          let iface = i64_to_u32 (op_intVal o1);
              typeId = getTypeId (m_heap s) (i64_to_u32 v);
              vts = ch_vtables (m_chunk s) in
          case (if typeId < length vts
                then itable_search s iface (i64_to_u32 (op_intVal o2)) (vt_itable (vts ! typeId)) else None) of
            None \<Rightarrow> panic s (''invalid interface dispatch for type '' @ string_of_nat typeId @
                      '' interface '' @ string_of_nat iface)
          | Some target \<Rightarrow>
              (case resolveJitTarget s (i64_to_u32 (op_intVal o4)) of
                 None \<Rightarrow> panic s ''invalid interface return address''
               | Some resume \<Rightarrow> call_to B resume target s))
      | _ \<Rightarrow> bad_operands)"

definition exec_Ret :: "'g gc_backend \<Rightarrow> ('g, 'w) vm \<Rightarrow> ('g, 'w) vmres" where
  "exec_Ret B s =
     (let s1 = s\<lparr>m_exceptionHandlers :=
            dropWhile (\<lambda>h. eh_callDepth h \<ge> length (m_callStack s)) (m_exceptionHandlers s)\<rparr> in
      case m_callStack s1 of
        [] \<Rightarrow> Ok (s1\<lparr>m_halted := True\<rparr>)
      | frame # _ \<Rightarrow> obind (restoreCallFrame B s1) (\<lambda>s2. Ok (s2\<lparr>m_jitIp := cf_returnIp frame\<rparr>)))"

section \<open>Output and strings\<close>

definition write_operand :: "string \<Rightarrow> string \<Rightarrow> operand list \<Rightarrow> ('g, 'w) vm \<Rightarrow> ('g, 'w) vmres" where
  "write_operand name suffix ops s =
     (case ops of val # _ \<Rightarrow>
        obind
          (if op_tag val = TImm64 then Ok (out (string_of_int (op_intVal val) @ suffix) s)
           else if op_tag val = TStrIdx then
             (case chunk_string s (op_strIdx val) of
                Some str \<Rightarrow> Ok (out (str @ suffix) s)
              | None \<Rightarrow> panic s (name @ '' received an invalid string index''))
           else if op_tag val = TReg then
             obind (get_reg s (reg_of val)) (\<lambda>(v, t). write_value name suffix v t s)
           else panic s (name @ '' received an invalid operand tag''))
          next_ip
      | _ \<Rightarrow> bad_operands)"

definition exec_Write :: "operand list \<Rightarrow> ('g, 'w) vm \<Rightarrow> ('g, 'w) vmres" where
  "exec_Write = write_operand ''write'' []"

definition exec_Print :: "operand list \<Rightarrow> ('g, 'w) vm \<Rightarrow> ('g, 'w) vmres" where
  "exec_Print = write_operand ''print'' nl"

text \<open>The string a source operand denotes; anything that is not a string gives \<open>None\<close>.\<close>

definition source_string :: "('g, 'w) vm \<Rightarrow> operand \<Rightarrow> (('g, 'w) vm, string option) outcome" where
  "source_string s src =
     (if op_tag src = TStrIdx then Ok (chunk_string s (op_strIdx src))
      else if op_tag src = TReg then
        obind (get_reg s (reg_of src)) (\<lambda>(v, t).
          Ok (if t = TAG_STR then pool_string s (i64_to_u32 v) else None))
      else Ok None)"

definition exec_StrLen :: "'g gc_backend \<Rightarrow> operand list \<Rightarrow> ('g, 'w) vm \<Rightarrow> ('g, 'w) vmres" where
  "exec_StrLen B ops s =
     (case ops of src # dst # _ \<Rightarrow>
        obind (source_string s src) (\<lambda>r.
          set_next B (reg_of dst) (case r of Some str \<Rightarrow> int (length str) | None \<Rightarrow> 0) TAG_INT s)
      | _ \<Rightarrow> bad_operands)"

definition exec_ToStr :: "'g gc_backend \<Rightarrow> operand list \<Rightarrow> ('g, 'w) vm \<Rightarrow> ('g, 'w) vmres" where
  "exec_ToStr B ops s =
     (case ops of src # dst # _ \<Rightarrow>
        obind
          (if op_tag src = TImm64 then Ok (string_of_int (op_intVal src))
           else obind (if op_tag src = TReg
                       then obind (get_reg s (reg_of src)) (\<lambda>(v, t). Ok (if t = TAG_INT then Some v else None))
                       else Ok None) (\<lambda>n.
             case n of
               Some v \<Rightarrow> Ok (string_of_int v)
             | None \<Rightarrow> obind (source_string s src) (\<lambda>r. Ok (case r of Some str \<Rightarrow> str | None \<Rightarrow> []))))
          (\<lambda>str. let (i, s1) = internRuntimeString str s in set_next B (reg_of dst) (int i) TAG_STR s1)
      | _ \<Rightarrow> bad_operands)"

definition exec_Syscall :: "'w env \<Rightarrow> 'g gc_backend \<Rightarrow> operand list \<Rightarrow> ('g, 'w) vm \<Rightarrow> ('g, 'w) vmres" where
  "exec_Syscall E B ops s =
     (case ops of o0 # _ \<Rightarrow>
        obind (get_reg s (reg_of o0)) (\<lambda>(v, t).
        obind (invokeSyscall E B (nat (v mod 256)) s) next_ip)
      | _ \<Rightarrow> bad_operands)"

section \<open>Dispatch\<close>

primrec exec_op :: "opcode \<Rightarrow> 'w env \<Rightarrow> 'g gc_backend \<Rightarrow> operand list \<Rightarrow> ('g, 'w) vm \<Rightarrow> ('g, 'w) vmres" where
  "exec_op OpNop E B ops s = next_ip s"
| "exec_op OpPush E B ops s = exec_Push B ops s"
| "exec_op OpPop E B ops s = next_ip s"
| "exec_op OpMov E B ops s = exec_Mov B ops s"
| "exec_op OpPushR E B ops s = exec_PushR B ops s"
| "exec_op OpPopR E B ops s = exec_PopR B ops s"
| "exec_op OpAlloc E B ops s = exec_Alloc B ops s"
| "exec_op OpHFree E B ops s = exec_HFree B ops s"
| "exec_op OpHStore E B ops s = exec_HStore B ops s"
| "exec_op OpHLoad E B ops s = exec_HLoad B ops s"
| "exec_op OpShl E B ops s = exec_Shl B ops s"
| "exec_op OpShr E B ops s = exec_Shr B ops s"
| "exec_op OpRem E B ops s = exec_Rem B ops s"
| "exec_op OpBitAnd E B ops s = exec_Bit OpBitAnd B ops s"
| "exec_op OpBitOr E B ops s = exec_Bit OpBitOr B ops s"
| "exec_op OpBitXor E B ops s = exec_Bit OpBitXor B ops s"
| "exec_op OpAdd E B ops s = exec_Add B ops s"
| "exec_op OpSub E B ops s = exec_Sub B ops s"
| "exec_op OpMul E B ops s = exec_Mul B ops s"
| "exec_op OpDiv E B ops s = exec_Div B ops s"
| "exec_op OpFAdd E B ops s = exec_FAdd E B ops s"
| "exec_op OpFSub E B ops s = exec_FSub E B ops s"
| "exec_op OpFMul E B ops s = exec_FMul E B ops s"
| "exec_op OpFDiv E B ops s = exec_FDiv E B ops s"
| "exec_op OpItoF E B ops s = exec_ItoF E B ops s"
| "exec_op OpFtoI E B ops s = exec_FtoI E B ops s"
| "exec_op OpFNeg E B ops s = exec_FNeg E B ops s"
| "exec_op OpGLoad E B ops s = exec_GLoad B ops s"
| "exec_op OpGStore E B ops s = exec_GStore B ops s"
| "exec_op OpCmp E B ops s = exec_Cmp E ops s"
| "exec_op OpJmp E B ops s = exec_Jmp ops s"
| "exec_op OpJnz E B ops s = exec_Jnz ops s"
| "exec_op OpJz E B ops s = exec_Jz ops s"
| "exec_op OpSkip E B ops s = exec_Skip ops s"
| "exec_op OpCall E B ops s = exec_Call B ops s"
| "exec_op OpRet E B ops s = exec_Ret B s"
| "exec_op OpBr E B ops s = panic s (''unknown opcode '' @ string_of_nat (opcode_num OpBr))"
| "exec_op OpJn E B ops s = exec_Jn ops s"
| "exec_op OpNullChk E B ops s = exec_NullChk ops s"
| "exec_op OpCallInd E B ops s = exec_CallInd B ops s"
| "exec_op OpVCall E B ops s = exec_VCall B ops s"
| "exec_op OpICall E B ops s = exec_ICall B ops s"
| "exec_op OpTypeOf E B ops s = exec_TypeOf B ops s"
| "exec_op OpTryPush E B ops s = exec_TryPush ops s"
| "exec_op OpTryPop E B ops s = exec_TryPop s"
| "exec_op OpThrow E B ops s = exec_Throw B ops s"
| "exec_op OpIsA E B ops s = exec_IsA B ops s"
| "exec_op OpPrint E B ops s = exec_Print ops s"
| "exec_op OpWrite E B ops s = exec_Write ops s"
| "exec_op OpSyscall E B ops s = exec_Syscall E B ops s"
| "exec_op OpStrLen E B ops s = exec_StrLen B ops s"
| "exec_op OpToStr E B ops s = exec_ToStr B ops s"
| "exec_op OpHalt E B ops s = Ok (s\<lparr>m_halted := True\<rparr>)"

definition execJitInstruction :: "'w env \<Rightarrow> 'g gc_backend \<Rightarrow> instr \<Rightarrow> ('g, 'w) vm \<Rightarrow> ('g, 'w) vmres" where
  "execJitInstruction E B i s = exec_op (in_op i) E B (in_operands i) s"

text \<open>One iteration of the loop: \<open>RuntimeUnwind\<close> is absorbed, \<open>HeapInvariantError\<close> becomes a panic.\<close>

definition step :: "'w env \<Rightarrow> 'g gc_backend \<Rightarrow> ('g, 'w) vm \<Rightarrow> ('g, 'w) vmres" where
  "step E B s =
     (case execJitInstruction E B (m_jitCode s ! m_jitIp s) s of
        Unwind s1 \<Rightarrow> Ok s1
      | HeapError e \<Rightarrow> panic s e
      | r \<Rightarrow> r)"

definition running :: "('g, 'w) vm \<Rightarrow> bool" where
  "running s \<longleftrightarrow> m_jitIp s < length (m_jitCode s) \<and> \<not> m_halted s"

primrec run_loop :: "'w env \<Rightarrow> 'g gc_backend \<Rightarrow> nat \<Rightarrow> nat \<Rightarrow> ('g, 'w) vm \<Rightarrow> (('g, 'w) vm, nat \<times> ('g, 'w) vm) outcome" where
  "run_loop E B 0 k s = Ok (k, s)"
| "run_loop E B (Suc n) k s =
     (if running s then obind (step E B s) (run_loop E B n (Suc k)) else Ok (k, s))"

definition runJit :: "'w env \<Rightarrow> 'g gc_backend \<Rightarrow> nat \<Rightarrow> ('g, 'w) vm \<Rightarrow> ('g, 'w) vmres" where
  "runJit E B maxExecuteCount s =
     obind (run_loop E B maxExecuteCount 0 (s\<lparr>m_jitIp := 0, m_halted := False\<rparr>))
       (\<lambda>(executeCount, s1).
          Ok (s1\<lparr>m_executed := m_executed s1 + executeCount,
                 m_truncated := \<not> m_halted s1 \<and> executeCount \<ge> maxExecuteCount\<rparr>))"

definition run :: "'w env \<Rightarrow> 'g gc_backend \<Rightarrow> nat \<Rightarrow> ('g, 'w) vm \<Rightarrow> ('g, 'w) vmres" where
  "run E B maxExecuteCount s =
     (case tryBuildJit s of
        (False, s1) \<Rightarrow> panic s1 ''failed to decode bytecode''
      | (True, s1) \<Rightarrow> runJit E B maxExecuteCount s1)"

definition run_unlimited :: "'w env \<Rightarrow> 'g gc_backend \<Rightarrow> ('g, 'w) vm \<Rightarrow> ('g, 'w) vmres" where
  "run_unlimited E B s = run E B 2147483647 s"

end
