(* ===== verification/Lx_VMRoots.thy ===== *)
theory Lx_VMRoots
  imports Lx_Exec Lx_Arc
begin

text \<open>
  The root set of the VM (registers, globals, spilled registers, call frames) and its invariant over
  any backend that meets the contract of \<open>Lx_GC\<close>: register writes and the return of spilled
  registers and call frames keep the backend's bookkeeping in step with the roots.
\<close>

section \<open>Roots\<close>

definition handles :: "(int \<times> u8) list \<Rightarrow> nat multiset" where
  "handles vs = mset (map (i64_to_u32 \<circ> fst) (filter (\<lambda>p. snd p = TAG_HEAP) vs))"

definition hnd :: "int \<Rightarrow> u8 \<Rightarrow> nat multiset" where
  "hnd v t = (if t = TAG_HEAP then {#i64_to_u32 v#} else {#})"

definition saved_vals :: "saved_register list \<Rightarrow> (int \<times> u8) list" where
  "saved_vals srs = map (\<lambda>sr. (sr_value sr, sr_tag sr)) srs"

definition frame_vals :: "call_frame list \<Rightarrow> (int \<times> u8) list" where
  "frame_vals fs = concat (map (saved_vals \<circ> cf_locals) fs)"

definition roots :: "('g, 'w) vm \<Rightarrow> nat multiset" where
  "roots s = handles (zip (m_regs s) (m_rtag s)) + handles (zip (m_globals s) (m_globalTags s))
     + handles (saved_vals (m_dataStack s)) + handles (frame_vals (m_callStack s))"

definition spill_count :: "('g, 'w) vm \<Rightarrow> nat" where
  "spill_count s = length (m_dataStack s) + length (frame_vals (m_callStack s))"

definition vshape :: "('g, 'w) vm \<Rightarrow> bool" where
  "vshape s \<longleftrightarrow> length (m_regs s) = NREGS \<and> length (m_rtag s) = NREGS
     \<and> length (m_globals s) = NGLOBALS \<and> length (m_globalTags s) = NGLOBALS"

lemma handles_simps [simp]:
  "handles [] = {#}"
  "handles (p # ps) = hnd (fst p) (snd p) + handles ps"
  "handles (ps @ qs) = handles ps + handles qs"
  by (simp_all add: handles_def hnd_def)

lemma size_handles: "size (handles vs) \<le> length vs"
  unfolding handles_def size_mset length_map by (rule length_filter_le)

lemma size_hnd: "size (hnd v t) \<le> 1"
  by (simp add: hnd_def)

lemma handles_update:
  assumes "i < length vs"
  shows "handles (vs[i := (v, t)]) + hnd (fst (vs ! i)) (snd (vs ! i)) = handles vs + hnd v t"
proof -
  have "handles vs = handles (take i vs) + hnd (fst (vs ! i)) (snd (vs ! i)) + handles (drop (Suc i) vs)"
    by (subst id_take_nth_drop [OF assms]) simp
  moreover have "handles (vs[i := (v, t)]) = handles (take i vs) + hnd v t + handles (drop (Suc i) vs)"
    using assms by (simp add: upd_conv_take_nth_drop)
  ultimately show ?thesis by simp
qed

lemma handles_nth: "i < length vs \<Longrightarrow> snd (vs ! i) = TAG_HEAP \<Longrightarrow> i64_to_u32 (fst (vs ! i)) \<in># handles vs"
  by (auto simp: handles_def)

lemma saved_vals_simps [simp]:
  "saved_vals [] = []"
  "saved_vals (sr # srs) = (sr_value sr, sr_tag sr) # saved_vals srs"
  by (simp_all add: saved_vals_def)

lemma length_saved_vals [simp]: "length (saved_vals srs) = length srs"
  by (simp add: saved_vals_def)

lemma frame_vals_simps [simp]:
  "frame_vals [] = []"
  "frame_vals (f # fs) = saved_vals (cf_locals f) @ frame_vals fs"
  by (simp_all add: frame_vals_def)

lemma size_roots:
  assumes "vshape s"
  shows "size (roots s) \<le> 4352 + spill_count s"
proof -
  have "size (handles (zip (m_regs s) (m_rtag s))) \<le> 4096"
    using size_handles [of "zip (m_regs s) (m_rtag s)"] assms by (simp add: vshape_def NREGS_def)
  moreover have "size (handles (zip (m_globals s) (m_globalTags s))) \<le> 256"
    using size_handles [of "zip (m_globals s) (m_globalTags s)"] assms by (simp add: vshape_def NGLOBALS_def)
  moreover have "size (handles (saved_vals (m_dataStack s))) \<le> length (m_dataStack s)"
    using size_handles [of "saved_vals (m_dataStack s)"] by simp
  moreover have "size (handles (frame_vals (m_callStack s))) \<le> length (frame_vals (m_callStack s))"
    by (rule size_handles)
  ultimately show ?thesis unfolding roots_def spill_count_def size_union by linarith
qed

lemma reg_root:
  assumes "vshape s" and "r < NREGS" and "m_rtag s ! r = TAG_HEAP"
  shows "i64_to_u32 (m_regs s ! r) \<in># roots s"
  using assms handles_nth [of r "zip (m_regs s) (m_rtag s)"] by (simp add: vshape_def roots_def)

lemma global_root:
  assumes "vshape s" and "r < NGLOBALS" and "m_globalTags s ! r = TAG_HEAP"
  shows "i64_to_u32 (m_globals s ! r) \<in># roots s"
  using assms handles_nth [of r "zip (m_globals s) (m_globalTags s)"] by (simp add: vshape_def roots_def)

section \<open>Outcome specifications\<close>

definition ospec :: "('s \<Rightarrow> bool) \<Rightarrow> ('s, 'a) outcome \<Rightarrow> ('a \<Rightarrow> bool) \<Rightarrow> bool" where
  "ospec U m P \<longleftrightarrow>
     (case m of
        Ok x \<Rightarrow> P x
      | Unwind s \<Rightarrow> U s
      | Undefined u \<Rightarrow> u \<noteq> UB_Heap
      | _ \<Rightarrow> True)"

lemma ospec_simps [simp]:
  "ospec U (Ok x) P = P x" "ospec U (Unwind s) P = U s" "ospec U (HeapError e) P" "ospec U (Panic e) P"
  "ospec U (Uncaught e) P" "ospec U (Undefined u) P \<longleftrightarrow> u \<noteq> UB_Heap"
  by (simp_all add: ospec_def)

lemma ospec_panic [simp]: "ospec U (panic s e) P"
  by (simp add: panic_def)

lemma ospec_bind: "ospec U m P \<Longrightarrow> (\<And>x. P x \<Longrightarrow> ospec U (f x) Q) \<Longrightarrow> ospec U (obind m f) Q"
  by (cases m) (auto simp: obind_def)

lemma ospec_mono: "ospec U m P \<Longrightarrow> (\<And>x. P x \<Longrightarrow> Q x) \<Longrightarrow> ospec U m Q"
  by (cases m) auto

lemma ospec_fold:
  assumes "\<And>x s. x \<in> set xs \<Longrightarrow> I s \<Longrightarrow> ospec U (f x s) I" and "I s"
  shows "ospec U (ofold f xs s) I"
  using assms
proof (induction xs arbitrary: s)
  case (Cons x xs)
  show ?case unfolding ofold.simps
    by (rule ospec_bind [where P = I]) (use Cons in auto)
qed simp

lemma ospec_get_reg:
  "(r < NREGS \<Longrightarrow> P (m_regs s ! r, m_rtag s ! r)) \<Longrightarrow> ospec U (get_reg s r) P"
  by (simp add: get_reg_def)

lemma ospec_readInt:
  "(\<And>v. readIntOperand s o1 = Ok v \<Longrightarrow> P v) \<Longrightarrow> ospec U (readIntOperand s o1) P"
  by (auto simp: readIntOperand_def get_reg_def obind_def split: if_splits)

lemma ospec_readString: "(\<And>v. P v) \<Longrightarrow> ospec U (readStringOperand s o1) P"
  by (auto simp: readStringOperand_def get_reg_def obind_def Let_def split: if_splits option.splits)

section \<open>States that differ in few fields\<close>

definition same_heap :: "('g, 'w) vm \<Rightarrow> ('g, 'w) vm \<Rightarrow> bool" where
  "same_heap s s' \<longleftrightarrow> (\<exists>h g. s' = s\<lparr>m_heap := h, m_gc := g\<rparr>)"

definition same_regs :: "('g, 'w) vm \<Rightarrow> ('g, 'w) vm \<Rightarrow> bool" where
  "same_regs s s' \<longleftrightarrow> (\<exists>rs ts h g. s' = s\<lparr>m_regs := rs, m_rtag := ts, m_heap := h, m_gc := g\<rparr>)"

lemma roots_update [simp]:
  "roots (s\<lparr>m_arguments := x1\<rparr>) = roots s"
  "roots (s\<lparr>m_directoryEntries := x2\<rparr>) = roots s"
  "roots (s\<lparr>m_ioError := x3\<rparr>) = roots s"
  "roots (s\<lparr>m_netError := x4\<rparr>) = roots s"
  "roots (s\<lparr>m_openSockets := x5\<rparr>) = roots s"
  "roots (s\<lparr>m_chunk := x6\<rparr>) = roots s"
  "roots (s\<lparr>m_flags := x7\<rparr>) = roots s"
  "roots (s\<lparr>m_exceptionHandlers := x8\<rparr>) = roots s"
  "roots (s\<lparr>m_runtimeStrings := x9\<rparr>) = roots s"
  "roots (s\<lparr>m_jitCode := x10\<rparr>) = roots s"
  "roots (s\<lparr>m_jitIpMap := x11\<rparr>) = roots s"
  "roots (s\<lparr>m_jitReady := x12\<rparr>) = roots s"
  "roots (s\<lparr>m_jitIp := x13\<rparr>) = roots s"
  "roots (s\<lparr>m_halted := x14\<rparr>) = roots s"
  "roots (s\<lparr>m_truncated := x15\<rparr>) = roots s"
  "roots (s\<lparr>m_executed := x16\<rparr>) = roots s"
  "roots (s\<lparr>m_stdin := x17\<rparr>) = roots s"
  "roots (s\<lparr>m_stdout := x18\<rparr>) = roots s"
  "roots (s\<lparr>m_world := x19\<rparr>) = roots s"
  "roots (s\<lparr>m_heap := x20\<rparr>) = roots s"
  "roots (s\<lparr>m_gc := x21\<rparr>) = roots s"
  by (simp_all add: roots_def)

lemma spill_count_update [simp]:
  "spill_count (s\<lparr>m_arguments := x22\<rparr>) = spill_count s"
  "spill_count (s\<lparr>m_directoryEntries := x23\<rparr>) = spill_count s"
  "spill_count (s\<lparr>m_ioError := x24\<rparr>) = spill_count s"
  "spill_count (s\<lparr>m_netError := x25\<rparr>) = spill_count s"
  "spill_count (s\<lparr>m_openSockets := x26\<rparr>) = spill_count s"
  "spill_count (s\<lparr>m_chunk := x27\<rparr>) = spill_count s"
  "spill_count (s\<lparr>m_flags := x28\<rparr>) = spill_count s"
  "spill_count (s\<lparr>m_exceptionHandlers := x29\<rparr>) = spill_count s"
  "spill_count (s\<lparr>m_runtimeStrings := x30\<rparr>) = spill_count s"
  "spill_count (s\<lparr>m_jitCode := x31\<rparr>) = spill_count s"
  "spill_count (s\<lparr>m_jitIpMap := x32\<rparr>) = spill_count s"
  "spill_count (s\<lparr>m_jitReady := x33\<rparr>) = spill_count s"
  "spill_count (s\<lparr>m_jitIp := x34\<rparr>) = spill_count s"
  "spill_count (s\<lparr>m_halted := x35\<rparr>) = spill_count s"
  "spill_count (s\<lparr>m_truncated := x36\<rparr>) = spill_count s"
  "spill_count (s\<lparr>m_executed := x37\<rparr>) = spill_count s"
  "spill_count (s\<lparr>m_stdin := x38\<rparr>) = spill_count s"
  "spill_count (s\<lparr>m_stdout := x39\<rparr>) = spill_count s"
  "spill_count (s\<lparr>m_world := x0\<rparr>) = spill_count s"
  "spill_count (s\<lparr>m_heap := x1\<rparr>) = spill_count s"
  "spill_count (s\<lparr>m_gc := x2\<rparr>) = spill_count s"
  by (simp_all add: spill_count_def)

lemma vshape_update [simp]:
  "vshape (s\<lparr>m_arguments := x3\<rparr>) = vshape s"
  "vshape (s\<lparr>m_directoryEntries := x4\<rparr>) = vshape s"
  "vshape (s\<lparr>m_ioError := x5\<rparr>) = vshape s"
  "vshape (s\<lparr>m_netError := x6\<rparr>) = vshape s"
  "vshape (s\<lparr>m_openSockets := x7\<rparr>) = vshape s"
  "vshape (s\<lparr>m_chunk := x8\<rparr>) = vshape s"
  "vshape (s\<lparr>m_flags := x9\<rparr>) = vshape s"
  "vshape (s\<lparr>m_exceptionHandlers := x10\<rparr>) = vshape s"
  "vshape (s\<lparr>m_runtimeStrings := x11\<rparr>) = vshape s"
  "vshape (s\<lparr>m_jitCode := x12\<rparr>) = vshape s"
  "vshape (s\<lparr>m_jitIpMap := x13\<rparr>) = vshape s"
  "vshape (s\<lparr>m_jitReady := x14\<rparr>) = vshape s"
  "vshape (s\<lparr>m_jitIp := x15\<rparr>) = vshape s"
  "vshape (s\<lparr>m_halted := x16\<rparr>) = vshape s"
  "vshape (s\<lparr>m_truncated := x17\<rparr>) = vshape s"
  "vshape (s\<lparr>m_executed := x18\<rparr>) = vshape s"
  "vshape (s\<lparr>m_stdin := x19\<rparr>) = vshape s"
  "vshape (s\<lparr>m_stdout := x20\<rparr>) = vshape s"
  "vshape (s\<lparr>m_world := x21\<rparr>) = vshape s"
  "vshape (s\<lparr>m_heap := x22\<rparr>) = vshape s"
  "vshape (s\<lparr>m_gc := x23\<rparr>) = vshape s"
  by (simp_all add: vshape_def)

lemma same_heap_upd [simp]: "same_heap s (s\<lparr>m_heap := h, m_gc := g\<rparr>)"
  unfolding same_heap_def by blast

lemma same_heapI: "s' = s\<lparr>m_heap := h, m_gc := g\<rparr> \<Longrightarrow> same_heap s s'"
  unfolding same_heap_def by blast

lemma same_heap_trans: "same_heap s s' \<Longrightarrow> same_heap s' s'' \<Longrightarrow> same_heap s s''"
  unfolding same_heap_def by (elim exE) (rule exI, rule exI, simp)

lemma same_heap_setReg:
  "same_heap s s1 \<Longrightarrow> same_heap (s\<lparr>m_regs := a, m_rtag := b\<rparr>) (s1\<lparr>m_regs := a, m_rtag := b\<rparr>)"
proof -
  assume "same_heap s s1"
  then obtain h g where "s1 = s\<lparr>m_heap := h, m_gc := g\<rparr>" by (auto simp: same_heap_def)
  then show ?thesis by (intro same_heapI [where h = h and g = g]) simp
qed

lemma same_heap_refl [simp]: "same_heap s s"
  unfolding same_heap_def by (rule exI [of _ "m_heap s"], rule exI [of _ "m_gc s"]) simp

lemma same_heap_fields:
  assumes "same_heap s s'"
  shows "m_regs s' = m_regs s" "m_rtag s' = m_rtag s" "roots s' = roots s" "spill_count s' = spill_count s"
    "vshape s' = vshape s" "m_globals s' = m_globals s" "m_globalTags s' = m_globalTags s"
  using assms by (auto simp: same_heap_def roots_def spill_count_def vshape_def)

lemma same_heap_regs: "same_heap s s' \<Longrightarrow> same_regs s s'"
proof -
  assume "same_heap s s'"
  then obtain h g where "s' = s\<lparr>m_heap := h, m_gc := g\<rparr>" by (auto simp: same_heap_def)
  then have "s' = s\<lparr>m_regs := m_regs s, m_rtag := m_rtag s, m_heap := h, m_gc := g\<rparr>" by simp
  then show ?thesis unfolding same_regs_def by blast
qed

lemma same_regs_fields:
  assumes "same_regs s s'"
  shows "m_callStack s' = m_callStack s" "m_dataStack s' = m_dataStack s"
    "m_exceptionHandlers s' = m_exceptionHandlers s" "spill_count s' = spill_count s"
    "m_chunk s' = m_chunk s" "m_jitIp s' = m_jitIp s"
  using assms by (auto simp: same_regs_def spill_count_def)

lemma same_regs_keeps:
  "same_regs s s' \<Longrightarrow> m_callStack s' = m_callStack s \<and> m_dataStack s' = m_dataStack s
     \<and> m_exceptionHandlers s' = m_exceptionHandlers s \<and> spill_count s' = spill_count s"
  using same_regs_fields by blast

lemma same_regs_refl [simp]: "same_regs s s"
proof -
  have "s = s\<lparr>m_regs := m_regs s, m_rtag := m_rtag s, m_heap := m_heap s, m_gc := m_gc s\<rparr>" by simp
  then show ?thesis unfolding same_regs_def by blast
qed

lemma same_regs_trans:
  assumes "same_regs s s'" and "same_regs s' s''"
  shows "same_regs s s''"
proof -
  from assms obtain rs ts h g where "s'' = s\<lparr>m_regs := rs, m_rtag := ts, m_heap := h, m_gc := g\<rparr>"
    by (auto simp: same_regs_def)
  then show ?thesis unfolding same_regs_def by blast
qed

lemma roots_setReg:
  assumes "vshape s" and "r < NREGS"
  shows "roots (s\<lparr>m_regs := (m_regs s)[r := v], m_rtag := (m_rtag s)[r := t]\<rparr>)
      + hnd (m_regs s ! r) (m_rtag s ! r) = roots s + hnd v t"
proof -
  have "handles (zip ((m_regs s)[r := v]) ((m_rtag s)[r := t])) + hnd (m_regs s ! r) (m_rtag s ! r)
      = handles (zip (m_regs s) (m_rtag s)) + hnd v t"
    using assms handles_update [of r "zip (m_regs s) (m_rtag s)" v t] by (simp add: vshape_def zip_update)
  then show ?thesis by (simp add: roots_def ac_simps)
qed

lemma roots_setGlobal:
  assumes "vshape s" and "r < NGLOBALS"
  shows "roots (s\<lparr>m_globals := (m_globals s)[r := v], m_globalTags := (m_globalTags s)[r := t]\<rparr>)
      + hnd (m_globals s ! r) (m_globalTags s ! r) = roots s + hnd v t"
proof -
  have "handles (zip ((m_globals s)[r := v]) ((m_globalTags s)[r := t])) + hnd (m_globals s ! r) (m_globalTags s ! r)
      = handles (zip (m_globals s) (m_globalTags s)) + hnd v t"
    using assms handles_update [of r "zip (m_globals s) (m_globalTags s)" v t]
    by (simp add: vshape_def zip_update)
  then show ?thesis by (simp add: roots_def ac_simps)
qed

lemma vshape_setReg:
  "vshape s \<Longrightarrow> vshape (s\<lparr>m_regs := (m_regs s)[r := v], m_rtag := (m_rtag s)[r := t]\<rparr>)"
  by (simp add: vshape_def)

lemma vshape_setGlobal:
  "vshape s \<Longrightarrow> vshape (s\<lparr>m_globals := (m_globals s)[r := v], m_globalTags := (m_globalTags s)[r := t]\<rparr>)"
  by (simp add: vshape_def)

definition reg_written :: "nat \<Rightarrow> int \<Rightarrow> u8 \<Rightarrow> ('g, 'w) vm \<Rightarrow> ('g, 'w) vm \<Rightarrow> bool" where
  "reg_written r v t s s' \<longleftrightarrow>
     r < NREGS \<and> same_heap (s\<lparr>m_regs := (m_regs s)[r := v], m_rtag := (m_rtag s)[r := t]\<rparr>) s'"

lemma reg_written_same: "reg_written r v t s s' \<Longrightarrow> same_regs s s'"
proof -
  assume "reg_written r v t s s'"
  then obtain h g where "s' = s\<lparr>m_regs := (m_regs s)[r := v], m_rtag := (m_rtag s)[r := t], m_heap := h, m_gc := g\<rparr>"
    by (auto simp: reg_written_def same_heap_def)
  then show ?thesis unfolding same_regs_def by blast
qed

section \<open>The invariant over a backend\<close>

text \<open>
  \<open>vinv s X\<close>: the backend's bookkeeping matches the heap with the roots of the state and the roots
  \<open>X\<close> that an operation in progress holds; there is room for every count.
\<close>

context gc_contract
begin

definition vinv :: "('g, 'w) vm \<Rightarrow> nat multiset \<Rightarrow> bool" where
  "vinv s X \<longleftrightarrow> vshape s \<and> ok (m_heap s) (m_gc s) (roots s + X) {} \<and> spill_count s + size X + 4400 < 2 ^ 31"

lemma vinv_small: "vinv s X \<Longrightarrow> size (roots s + X) < 2 ^ 31"
  using size_roots [of s] unfolding vinv_def size_union by linarith

lemma vinv_root: "vinv s X \<Longrightarrow> r \<in># roots s + X \<Longrightarrow> valid (m_heap s) r"
  using ok_root unfolding vinv_def by blast

lemma vinv_reg: "vinv s X \<Longrightarrow> r < NREGS \<Longrightarrow> m_rtag s ! r = TAG_HEAP \<Longrightarrow> valid (m_heap s) (i64_to_u32 (m_regs s ! r))"
  using reg_root [of s r] vinv_root [of s X] by (simp add: vinv_def)

lemma vinv_update [simp]:
  "vinv (s\<lparr>m_arguments := x24\<rparr>) X = vinv s X"
  "vinv (s\<lparr>m_directoryEntries := x25\<rparr>) X = vinv s X"
  "vinv (s\<lparr>m_ioError := x26\<rparr>) X = vinv s X"
  "vinv (s\<lparr>m_netError := x27\<rparr>) X = vinv s X"
  "vinv (s\<lparr>m_openSockets := x28\<rparr>) X = vinv s X"
  "vinv (s\<lparr>m_chunk := x29\<rparr>) X = vinv s X"
  "vinv (s\<lparr>m_flags := x30\<rparr>) X = vinv s X"
  "vinv (s\<lparr>m_exceptionHandlers := x31\<rparr>) X = vinv s X"
  "vinv (s\<lparr>m_runtimeStrings := x32\<rparr>) X = vinv s X"
  "vinv (s\<lparr>m_jitCode := x33\<rparr>) X = vinv s X"
  "vinv (s\<lparr>m_jitIpMap := x34\<rparr>) X = vinv s X"
  "vinv (s\<lparr>m_jitReady := x35\<rparr>) X = vinv s X"
  "vinv (s\<lparr>m_jitIp := x36\<rparr>) X = vinv s X"
  "vinv (s\<lparr>m_halted := x37\<rparr>) X = vinv s X"
  "vinv (s\<lparr>m_truncated := x38\<rparr>) X = vinv s X"
  "vinv (s\<lparr>m_executed := x39\<rparr>) X = vinv s X"
  "vinv (s\<lparr>m_stdin := x0\<rparr>) X = vinv s X"
  "vinv (s\<lparr>m_stdout := x1\<rparr>) X = vinv s X"
  "vinv (s\<lparr>m_world := x2\<rparr>) X = vinv s X"
  by (simp_all add: vinv_def)

lemma gc_call_ok:
  assumes "vshape s" and "spill_count s + size X + 4400 < 2 ^ 31"
    and "gspec (f (m_heap s, m_gc s)) (\<lambda>(h', g'). ok h' g' (roots s + X) {})"
  shows "ospec U (gc_call f s) (\<lambda>s'. vinv s' X \<and> same_heap s s')"
  using assms by (cases "f (m_heap s, m_gc s)") (auto simp: gc_call_def vinv_def)

lemma gc_rootAdd_ok:
  assumes "vinv s X" and "t = TAG_HEAP \<longrightarrow> valid (m_heap s) (i64_to_u32 v)" and "spill_count s + size X + 4401 < 2 ^ 31"
  shows "ospec U (owhen (t = TAG_HEAP) (gc_call (gc_rootAdd ops (i64_to_u32 v))) s)
    (\<lambda>s'. vinv s' (hnd v t + X) \<and> same_heap s s')"
proof (cases "t = TAG_HEAP")
  case True
  have a: "ok (m_heap s) (m_gc s) (roots s + X) {}" using assms(1) by (simp add: vinv_def)
  have v: "valid (m_heap s) (i64_to_u32 v)" using True assms(2) by simp
  have e: "roots s + (hnd v t + X) = add_mset (i64_to_u32 v) (roots s + X)"
    using True by (simp add: hnd_def)
  have "gspec (gc_rootAdd ops (i64_to_u32 v) (m_heap s, m_gc s)) (\<lambda>(h', g'). ok h' g' (roots s + (hnd v t + X)) {})"
    using rootAdd_law [OF a v vinv_small [OF assms(1)]] unfolding e by (auto elim!: gspec_mono)
  then have "ospec U (gc_call (gc_rootAdd ops (i64_to_u32 v)) s) (\<lambda>s'. vinv s' (hnd v t + X) \<and> same_heap s s')"
    using assms by (intro gc_call_ok) (auto simp: vinv_def hnd_def)
  with True show ?thesis by (simp add: owhen_def)
qed (use assms in \<open>simp add: owhen_def hnd_def\<close>)

lemma gc_rootRemove_ok:
  assumes "vinv s (hnd v t + X)"
  shows "ospec U (owhen (t = TAG_HEAP) (gc_call (gc_rootRemove ops (i64_to_u32 v))) s)
    (\<lambda>s'. vinv s' X \<and> same_heap s s')"
proof (cases "t = TAG_HEAP")
  case True
  with assms have "ok (m_heap s) (m_gc s) (add_mset (i64_to_u32 v) (roots s + X)) {}"
    by (simp add: vinv_def hnd_def)
  from rootRemove_law [OF this]
  have "gspec (gc_rootRemove ops (i64_to_u32 v) (m_heap s, m_gc s)) (\<lambda>(h', g'). ok h' g' (roots s + X) {})"
    by (auto elim!: gspec_mono)
  then have "ospec U (gc_call (gc_rootRemove ops (i64_to_u32 v)) s) (\<lambda>s'. vinv s' X \<and> same_heap s s')"
    using assms by (intro gc_call_ok) (auto simp: vinv_def hnd_def)
  with True show ?thesis by (simp add: owhen_def)
qed (use assms in \<open>simp add: owhen_def hnd_def\<close>)

lemma setReg_ok:
  assumes inv: "vinv s X" and new: "t = TAG_HEAP \<longrightarrow> valid (m_heap s) (i64_to_u32 v)"
    and room: "spill_count s + size X + 4401 < 2 ^ 31"
  shows "ospec U (setReg ops r v t s) (\<lambda>s'. vinv s' X \<and> reg_written r v t s s')"
proof (cases "r < NREGS")
  case r: True
  let ?w = "\<lambda>s1. s1\<lparr>m_regs := (m_regs s1)[r := v], m_rtag := (m_rtag s1)[r := t]\<rparr>"
  have sh: "vshape s" using inv by (simp add: vinv_def)
  show ?thesis
  proof (cases "m_rtag s ! r = TAG_HEAP \<and> t = TAG_HEAP \<and> m_regs s ! r = v")
    case True
    then have eq: "v = m_regs s ! r" "t = m_rtag s ! r" by auto
    have "?w s = s" unfolding eq list_update_id by simp
    with True r inv show ?thesis by (simp add: setReg_def reg_written_def)
  next
    case False
    have "ospec U (obind (owhen (t = TAG_HEAP) (gc_call (gc_rootAdd ops (i64_to_u32 v))) s)
       (\<lambda>s1. owhen (m_rtag s ! r = TAG_HEAP) (gc_call (gc_rootRemove ops (i64_to_u32 (m_regs s ! r)))) (?w s1)))
       (\<lambda>s'. vinv s' X \<and> reg_written r v t s s')"
    proof (rule ospec_bind [OF gc_rootAdd_ok [OF inv new room]], elim conjE)
      fix s1 assume v1: "vinv s1 (hnd v t + X)" and s1: "same_heap s s1"
      have sh1: "vshape s1" using v1 by (simp add: vinv_def)
      have e: "roots (?w s1) + (hnd (m_regs s ! r) (m_rtag s ! r) + X) = roots s1 + (hnd v t + X)"
        using roots_setReg [OF sh1 r, where v = v and t = t] same_heap_fields [OF s1] by (simp add: ac_simps)
      have "vinv (?w s1) (hnd (m_regs s ! r) (m_rtag s ! r) + X)"
        unfolding vinv_def e
        using v1 room vshape_setReg [OF sh1] same_heap_fields(4) [OF s1] size_hnd [of "m_regs s ! r" "m_rtag s ! r"]
        by (auto simp: vinv_def spill_count_def)
      moreover have "same_heap (?w s) (?w s1)"
        using same_heap_setReg [OF s1] same_heap_fields [OF s1] by simp
      ultimately show "ospec U (owhen (m_rtag s ! r = TAG_HEAP) (gc_call (gc_rootRemove ops (i64_to_u32 (m_regs s ! r)))) (?w s1))
          (\<lambda>s'. vinv s' X \<and> reg_written r v t s s')"
        using r by (intro ospec_mono [OF gc_rootRemove_ok]) (auto simp: reg_written_def intro: same_heap_trans)
    qed
    with False r show ?thesis by (auto simp: setReg_def Let_def)
  qed
qed (simp add: setReg_def)

lemma drop_saved_ok:
  assumes "vinv s (hnd (sr_value sr) (sr_tag sr) + X)"
  shows "ospec U (drop_saved ops sr s) (\<lambda>s'. vinv s' X \<and> same_heap s s')"
  unfolding drop_saved_def by (rule gc_rootRemove_ok [OF assms])

lemma setReg_int_ok:
  assumes "vinv s X" and "t \<noteq> TAG_HEAP" and "spill_count s + size X + 4401 < 2 ^ 31"
  shows "ospec U (setReg ops r v t s) (\<lambda>s'. vinv s' X \<and> same_regs s s')"
  using setReg_ok [OF assms(1) _ assms(3), of t v U r] assms(2)
  by (auto elim!: ospec_mono dest: reg_written_same)

text \<open>Spilled registers and call frames come back: their references move into the registers.\<close>

lemma restore_saved_ok:
  assumes inv: "vinv s (hnd (sr_value sr) (sr_tag sr) + X)"
    and room: "spill_count s + size X + 4402 < 2 ^ 31"
  shows "ospec U (restore_saved ops sr s) (\<lambda>s'. vinv s' X \<and> same_regs s s')"
  unfolding restore_saved_def
proof (rule ospec_bind)
  have v: "sr_tag sr = TAG_HEAP \<longrightarrow> valid (m_heap s) (i64_to_u32 (sr_value sr))"
    using vinv_root [OF inv] by (simp add: hnd_def)
  show "ospec U (setReg ops (sr_reg sr) (sr_value sr) (sr_tag sr) s)
      (\<lambda>s'. vinv s' (hnd (sr_value sr) (sr_tag sr) + X) \<and> reg_written (sr_reg sr) (sr_value sr) (sr_tag sr) s s')"
    using room size_hnd [of "sr_value sr" "sr_tag sr"] by (intro setReg_ok [OF inv v]) simp
  fix s1 assume "vinv s1 (hnd (sr_value sr) (sr_tag sr) + X) \<and> reg_written (sr_reg sr) (sr_value sr) (sr_tag sr) s s1"
  then show "ospec U (drop_saved ops sr s1) (\<lambda>s'. vinv s' X \<and> same_regs s s')"
    by (intro ospec_mono [OF drop_saved_ok])
       (auto intro: same_regs_trans dest: reg_written_same same_heap_regs)
qed

lemma restore_all_ok:
  assumes "vinv s (handles (saved_vals srs) + X)"
    and "spill_count s + length srs + size X + 4402 < 2 ^ 31"
  shows "ospec U (ofold (restore_saved ops) srs s) (\<lambda>s'. vinv s' X \<and> same_regs s s')"
  using assms
proof (induction srs arbitrary: s)
  case (Cons sr srs)
  let ?Y = "handles (saved_vals srs) + X"
  have sz: "size ?Y \<le> length srs + size X" using size_handles [of "saved_vals srs"] by simp
  show ?case unfolding ofold.simps
  proof (rule ospec_bind)
    show "ospec U (restore_saved ops sr s) (\<lambda>s'. vinv s' ?Y \<and> same_regs s s')"
      using Cons.prems sz by (intro restore_saved_ok) (auto simp: ac_simps)
    fix s1 assume s1: "vinv s1 ?Y \<and> same_regs s s1"
    then have "spill_count s1 = spill_count s" using same_regs_fields by blast
    with Cons.prems s1 show "ospec U (ofold (restore_saved ops) srs s1) (\<lambda>s'. vinv s' X \<and> same_regs s s')"
      by (intro ospec_mono [OF Cons.IH]) (auto intro: same_regs_trans)
  qed
qed simp

lemma clear_regs_ok:
  assumes "vinv s X" and "spill_count s + size X + 4401 < 2 ^ 31"
  shows "ospec U (ofold (\<lambda>r. setReg ops r 0 TAG_INT) rs s) (\<lambda>s'. vinv s' X \<and> same_regs s s')"
proof (rule ospec_fold)
  fix r s1 assume s1: "vinv s1 X \<and> same_regs s s1"
  then have "spill_count s1 = spill_count s" using same_regs_fields by blast
  with s1 assms(2) show "ospec U (setReg ops r 0 TAG_INT s1) (\<lambda>s'. vinv s' X \<and> same_regs s s')"
    by (intro ospec_mono [OF setReg_int_ok]) (auto simp: tag_defs intro: same_regs_trans)
qed (use assms in simp)

lemma vinv_pop_frame:
  assumes "vinv s X" and "m_callStack s = frame # rest"
  shows "vinv (s\<lparr>m_callStack := rest\<rparr>) (handles (saved_vals (cf_locals frame)) + X)"
    and "spill_count (s\<lparr>m_callStack := rest\<rparr>) + length (cf_locals frame) = spill_count s"
proof -
  show sp: "spill_count (s\<lparr>m_callStack := rest\<rparr>) + length (cf_locals frame) = spill_count s"
    using assms(2) by (simp add: spill_count_def)
  have e: "roots (s\<lparr>m_callStack := rest\<rparr>) + (handles (saved_vals (cf_locals frame)) + X) = roots s + X"
    using assms(2) by (simp add: roots_def ac_simps)
  show "vinv (s\<lparr>m_callStack := rest\<rparr>) (handles (saved_vals (cf_locals frame)) + X)"
    using assms sp size_handles [of "saved_vals (cf_locals frame)"] unfolding vinv_def e
    by (auto simp: vshape_def)
qed

lemma restoreCallFrame_ok:
  assumes inv: "vinv s X" and room: "spill_count s + size X + 4402 < 2 ^ 31"
  shows "ospec U (restoreCallFrame ops s)
    (\<lambda>s'. vinv s' X \<and> (\<exists>f. m_callStack s = f # m_callStack s') \<and> m_dataStack s' = m_dataStack s
          \<and> spill_count s' \<le> spill_count s)"
proof (cases "m_callStack s")
  case (Cons frame rest)
  let ?s = "s\<lparr>m_callStack := rest\<rparr>"
  let ?Y = "handles (saved_vals (cf_locals frame)) + X"
  note p = vinv_pop_frame [OF inv Cons]
  have sz: "size ?Y \<le> length (cf_locals frame) + size X" using size_handles [of "saved_vals (cf_locals frame)"] by simp
  have "ospec U (obind (ofold (\<lambda>r. setReg ops r 0 TAG_INT) [1..<11] ?s)
       (\<lambda>s1. obind (ofold (\<lambda>r. setReg ops r 0 TAG_INT) [240..<256] s1)
          (ofold (restore_saved ops) (cf_locals frame)))) (\<lambda>s'. vinv s' X \<and> same_regs ?s s')"
  proof (rule ospec_bind [OF clear_regs_ok [OF p(1)]])
    show "spill_count ?s + size ?Y + 4401 < 2 ^ 31" using room p(2) sz by linarith
    fix s1 assume s1: "vinv s1 ?Y \<and> same_regs ?s s1"
    then have sp1: "spill_count s1 = spill_count ?s" using same_regs_fields by blast
    show "ospec U (obind (ofold (\<lambda>r. setReg ops r 0 TAG_INT) [240..<256] s1) (ofold (restore_saved ops) (cf_locals frame)))
        (\<lambda>s'. vinv s' X \<and> same_regs ?s s')"
    proof (rule ospec_bind [OF clear_regs_ok])
      show "vinv s1 ?Y" using s1 by simp
      show "spill_count s1 + size ?Y + 4401 < 2 ^ 31" using room p(2) sz sp1 by linarith
      fix s2 assume s2: "vinv s2 ?Y \<and> same_regs s1 s2"
      then have "spill_count s2 = spill_count ?s" using same_regs_fields sp1 by metis
      with s1 s2 room p(2) show "ospec U (ofold (restore_saved ops) (cf_locals frame) s2) (\<lambda>s'. vinv s' X \<and> same_regs ?s s')"
        by (intro ospec_mono [OF restore_all_ok]) (auto intro: same_regs_trans)
    qed
  qed
  then show ?thesis using Cons p(2)
    by (auto simp: restoreCallFrame_def elim!: ospec_mono dest!: same_regs_keeps)
qed (simp add: restoreCallFrame_def)

end

end
