(* ===== verification/Lx_VMSafety.thy ===== *)
theory Lx_VMSafety
  imports Lx_VMRoots
begin

text \<open>
  Memory safety of the VM over any backend that meets the contract of \<open>Lx_GC\<close>: every handle in a
  register, a global, the spill stack, a call frame or a heap cell names a live object, and no
  instruction leaves the arena.  The lemmas are proved once in the contract's locale and reach the
  backends through their interpretations.
\<close>

lemma tag_neq [simp]:
  "TAG_INT \<noteq> TAG_HEAP" "TAG_STR \<noteq> TAG_HEAP" "TAG_FLOAT \<noteq> TAG_HEAP" "TAG_NULL \<noteq> TAG_HEAP"
  by (simp_all add: tag_defs)


named_theorems vm_safe \<open>specifications of the VM operations\<close>

section \<open>Heap exhaustion\<close>

text \<open>
  An allocation is refused only when the slot table is full, and then every later allocation is
  refused too, the one that would create the exception object included.
\<close>

lemma alloc_refused:
  assumes "heap_ok h" and "alloc_room sz h" and "alloc sz ty h = (INVALID, h1)"
  shows "take_handle h1 = None"
proof (rule ccontr)
  obtain off h0 where p: "take_payload (cells_for sz) h = (off, h0)" by (cases "take_payload (cells_for sz) h")
  assume n: "take_handle h1 \<noteq> None"
  show False
  proof (cases "take_handle h0")
    case None
    with assms(3) p n show False by (simp add: alloc_def)
  next
    case (Some q)
    then obtain i h2 where q: "take_handle h0 = Some (i, h2)" by (cases q) auto
    with assms(3) p have "i = INVALID" by (simp add: alloc_def)
    with alloc_Some [OF assms(1,2) p q] show False by simp
  qed
qed

lemma take_handle_payload: "take_handle (snd (take_payload c h)) = None \<longleftrightarrow> take_handle h = None"
  by (auto simp: take_handle_def take_payload_def set_free_list_def Let_def)

lemma alloc_refused_again:
  assumes "take_handle h = None"
  shows "fst (alloc sz ty h) = INVALID"
  using assms take_handle_payload [of "cells_for sz" h]
  by (cases "take_payload (cells_for sz) h") (simp add: alloc_def)

lemma raiseRuntime_refused:
  assumes "heap_ok h" and "alloc_room sz h" and "alloc sz ty h = (INVALID, h1)"
  shows "\<exists>e. raiseRuntime B m (s\<lparr>m_heap := h1\<rparr>) = Panic e"
proof (cases "type_index ''RuntimeException'' (ch_typeNames (m_chunk s))")
  case (Some t)
  have "fst (alloc SLOT_SIZE t h1) = INVALID"
    by (rule alloc_refused_again [OF alloc_refused [OF assms]])
  with Some show ?thesis
    by (cases "alloc SLOT_SIZE t h1") (simp add: raiseRuntime_def panic_def)
qed (simp add: raiseRuntime_def panic_def)

text \<open>
  What one instruction asks of the state it starts from: room for one more object in the arena
  (and for the object it allocates), and cell-aligned byte offsets in heap accesses.  The number
  of spilled registers is bounded so that no reference count wraps.
\<close>

definition instr_pre :: "instr \<Rightarrow> ('g, 'w) vm \<Rightarrow> bool" where
  "instr_pre i s \<longleftrightarrow>
     alloc_room 9 (m_heap s) \<and> spill_count s + 10000 < 2 ^ 31
     \<and> (in_op i = OpAlloc \<longrightarrow>
          (\<forall>v. readIntOperand s (in_operands i ! 1) = Ok v \<longrightarrow> alloc_room (i64_to_u32 v) (m_heap s)))
     \<and> (in_op i = OpHStore \<or> in_op i = OpHLoad \<longrightarrow>
          i64_to_u32 (m_regs s ! reg_of (in_operands i ! 1)) mod 9 = 0)
     \<and> (in_op i = OpSyscall \<longrightarrow>
          (let n = nat (m_regs s ! reg_of (in_operands i ! 0) mod 256) in
           (n = 20 \<longrightarrow> alloc_room (i64_to_u32 (m_regs s ! 1)) (m_heap s))
           \<and> (n = 21 \<or> n = 22 \<longrightarrow> i64_to_u32 (m_regs s ! 2) mod 9 = 0)))"

context gc_contract
begin

section \<open>Exceptions\<close>

lemma unwind_calls_ok:
  fixes s :: "('g, 'w) vm"
  assumes "vinv s X" and "spill_count s + size X + 4402 < 2 ^ 31"
  shows "ospec U (unwind_calls ops n s)
    (\<lambda>s'. vinv s' X \<and> m_dataStack s' = m_dataStack s \<and> spill_count s' \<le> spill_count s)"
  using assms
proof (induction n arbitrary: s)
  case (Suc n)
  show ?case unfolding unwind_calls.simps
  proof (rule ospec_bind [OF restoreCallFrame_ok [OF Suc.prems]])
    fix s1 :: "('g, 'w) vm" assume "vinv s1 X \<and> (\<exists>f. m_callStack s = f # m_callStack s1) \<and> m_dataStack s1 = m_dataStack s
          \<and> spill_count s1 \<le> spill_count s"
    with Suc.prems show "ospec U (unwind_calls ops n s1)
        (\<lambda>s'. vinv s' X \<and> m_dataStack s' = m_dataStack s \<and> spill_count s' \<le> spill_count s)"
      by (intro ospec_mono [OF Suc.IH]) auto
  qed
qed simp

lemma vinv_pop_data:
  assumes "vinv s X" and "m_dataStack s = sr # rest"
  shows "vinv (s\<lparr>m_dataStack := rest\<rparr>) (hnd (sr_value sr) (sr_tag sr) + X)"
    and "spill_count (s\<lparr>m_dataStack := rest\<rparr>) + 1 = spill_count s"
proof -
  show sp: "spill_count (s\<lparr>m_dataStack := rest\<rparr>) + 1 = spill_count s"
    using assms(2) by (simp add: spill_count_def)
  have e: "roots (s\<lparr>m_dataStack := rest\<rparr>) + (hnd (sr_value sr) (sr_tag sr) + X) = roots s + X"
    using assms(2) by (simp add: roots_def ac_simps)
  show "vinv (s\<lparr>m_dataStack := rest\<rparr>) (hnd (sr_value sr) (sr_tag sr) + X)"
    using assms sp size_hnd [of "sr_value sr" "sr_tag sr"] unfolding vinv_def e by (auto simp: vshape_def)
qed

lemma pop_restore_ok:
  assumes "vinv s X" and "m_dataStack s = sr # rest" and "spill_count s + size X + 4402 < 2 ^ 31"
  shows "ospec U (restore_saved ops sr (s\<lparr>m_dataStack := rest\<rparr>))
    (\<lambda>s'. vinv s' X \<and> m_dataStack s' = rest \<and> spill_count s' \<le> spill_count s)"
proof -
  note p = vinv_pop_data [OF assms(1,2)]
  have "ospec U (restore_saved ops sr (s\<lparr>m_dataStack := rest\<rparr>))
      (\<lambda>s'. vinv s' X \<and> same_regs (s\<lparr>m_dataStack := rest\<rparr>) s')"
    using p(2) assms(3) by (intro restore_saved_ok [OF p(1)]) simp
  then show ?thesis using p(2) by (auto elim!: ospec_mono dest!: same_regs_keeps)
qed

lemma unwind_data_ok:
  fixes s :: "('g, 'w) vm"
  assumes "vinv s X" and "spill_count s + size X + 4402 < 2 ^ 31"
  shows "ospec U (unwind_data ops n s) (\<lambda>s'. vinv s' X \<and> spill_count s' \<le> spill_count s)"
  using assms
proof (induction n arbitrary: s)
  case (Suc n)
  show ?case
  proof (cases "m_dataStack s")
    case (Cons sr rest)
    have "ospec U (obind (restore_saved ops sr (s\<lparr>m_dataStack := rest\<rparr>)) (unwind_data ops n))
        (\<lambda>s'. vinv s' X \<and> spill_count s' \<le> spill_count s)"
    proof (rule ospec_bind [OF pop_restore_ok [OF Suc.prems(1) Cons Suc.prems(2)]])
      fix s1 :: "('g, 'w) vm" assume "vinv s1 X \<and> m_dataStack s1 = rest \<and> spill_count s1 \<le> spill_count s"
      with Suc.prems show "ospec U (unwind_data ops n s1) (\<lambda>s'. vinv s' X \<and> spill_count s' \<le> spill_count s)"
        by (intro ospec_mono [OF Suc.IH]) auto
    qed
    with Cons show ?thesis by simp
  qed (use Suc.prems in simp)
qed simp

lemma describe_exception_ok: "vinv s X \<Longrightarrow> ospec U (describe_exception v t s) (\<lambda>_. True)"
  using hp.load_defined [of "m_heap s" "i64_to_u32 v" 0] ok_heap
  by (auto simp: describe_exception_def Let_def vinv_def split: option.splits)

lemma land_ok:
  fixes s :: "('g, 'w) vm"
  assumes inv: "vinv s (hnd v t + X)" and room: "spill_count s + size X + 4402 < 2 ^ 31"
  shows "ospec U (obind (setReg ops r v t s)
      (\<lambda>s4. obind (owhen (t = TAG_HEAP) (gc_call (gc_rootRemove ops (i64_to_u32 v))) s4)
      (\<lambda>s5. Ok (s5\<lparr>m_jitIp := ip\<rparr>)))) (\<lambda>s'. vinv s' X)"
proof (rule ospec_bind [OF setReg_ok [OF inv]])
  show "t = TAG_HEAP \<longrightarrow> valid (m_heap s) (i64_to_u32 v)"
    using vinv_root [OF inv] by (simp add: hnd_def)
  show "spill_count s + size (hnd v t + X) + 4401 < 2 ^ 31"
    using room size_hnd [of v t] by simp
  fix s4 :: "('g, 'w) vm" assume "vinv s4 (hnd v t + X) \<and> reg_written r v t s s4"
  then show "ospec U (obind (owhen (t = TAG_HEAP) (gc_call (gc_rootRemove ops (i64_to_u32 v))) s4)
      (\<lambda>s5. Ok (s5\<lparr>m_jitIp := ip\<rparr>))) (\<lambda>s'. vinv s' X)"
    by (intro ospec_bind [OF gc_rootRemove_ok]) auto
qed

lemma throwValue_ok:
  fixes s :: "('g, 'w) vm"
  assumes inv: "vinv s X" and v: "t = TAG_HEAP \<longrightarrow> valid (m_heap s) (i64_to_u32 v)"
    and room: "spill_count s + size X + 4410 < 2 ^ 31"
  shows "ospec U (throwValue ops v t s) (\<lambda>s'. vinv s' X)"
proof (cases "m_exceptionHandlers s")
  case Nil
  have "ospec U (obind (describe_exception v t s)
      (\<lambda>(typeName, message). Uncaught (uncaught_report s typeName message))) (\<lambda>s'. vinv s' X)"
    by (rule ospec_bind [OF describe_exception_ok [OF inv]]) auto
  with Nil show ?thesis by (simp add: throwValue_def)
next
  case (Cons eh rest)
  let ?Y = "hnd v t + X"
  have sz: "size ?Y \<le> size X + 1" using size_hnd [of v t] by simp
  show ?thesis
    unfolding throwValue_def Cons list.simps
  proof (rule ospec_bind [where P = "\<lambda>s'. vinv s' ?Y \<and> same_heap (s\<lparr>m_exceptionHandlers := rest\<rparr>) s'"], goal_cases)
    case 1
    show ?case using inv v room by (intro gc_rootAdd_ok) auto
  next
    case (2 s1)
    then have s1: "vinv s1 ?Y" "spill_count s1 = spill_count s" using same_heap_fields(4) by fastforce+
    show ?case
    proof (rule ospec_bind [OF unwind_calls_ok [OF s1(1)]], goal_cases)
      case (2 s2)
      then have s2: "vinv s2 ?Y" "spill_count s2 + size ?Y + 4402 < 2 ^ 31" using s1 room sz by simp_all
      show ?case
        by (rule ospec_bind [OF unwind_data_ok [OF s2]], rule land_ok) (use s2 sz in auto)
    qed (use s1 room sz in simp)
  qed
qed

lemma alloc_fresh_ok:
  assumes "vinv s X" and "alloc_room sz (m_heap s)" and "alloc sz ty (m_heap s) = (i, h')" and "i \<noteq> INVALID"
  shows "ospec U (gc_call (gc_onAlloc ops i) (s\<lparr>m_heap := h'\<rparr>))
    (\<lambda>s'. vinv s' X \<and> spill_count s' = spill_count s \<and> view (m_heap s') i = Some (ty, replicate sz 0))"
proof -
  have ok0: "ok (m_heap s) (m_gc s) (roots s + X) {}" using assms(1) by (simp add: vinv_def)
  have "view h' i = Some (ty, replicate sz 0)"
    using hp.new_law [OF ok_heap [OF ok0] assms(2,3)] assms(4) by simp
  with onAlloc_law [OF ok0 assms(2-4)] assms(1) show ?thesis
    by (cases "gc_onAlloc ops i (h', m_gc s)") (auto simp: gc_call_def vinv_def keeps_def)
qed

lemma raiseRuntime_ok:
  fixes s :: "('g, 'w) vm"
  assumes inv: "vinv s {#}" and room: "alloc_room 9 (m_heap s)" "spill_count s + 4410 < 2 ^ 31"
  shows "ospec (\<lambda>s'. vinv s' {#}) (raiseRuntime ops m s) P"
proof (cases "type_index ''RuntimeException'' (ch_typeNames (m_chunk s))")
  case (Some ty)
  obtain i h where a: "alloc SLOT_SIZE ty (m_heap s) = (i, h)" by (cases "alloc SLOT_SIZE ty (m_heap s)")
  have room9: "alloc_room SLOT_SIZE (m_heap s)" using room(1) by (simp add: SLOT_SIZE_def)
  show ?thesis
  proof (cases "i = INVALID")
    case False
    have "ospec (\<lambda>s'. vinv s' {#}) (obind (gc_call (gc_onAlloc ops i) (s\<lparr>m_heap := h\<rparr>))
        (\<lambda>s2. let (stringId, s3) = internRuntimeString m s2 in
           case storeCell i 0 (int stringId) TAG_STR (m_heap s3) of
             None \<Rightarrow> Undefined UB_Heap
           | Some (False, h3) \<Rightarrow> panic s3 ''failed to initialize RuntimeException.message''
           | Some (True, h3) \<Rightarrow> obind (throwValue ops (int i) TAG_HEAP (s3\<lparr>m_heap := h3\<rparr>)) Unwind)) P"
    proof (rule ospec_bind [OF alloc_fresh_ok [OF inv room9 a False]], goal_cases)
      case (1 s2)
      have o2: "ok (m_heap s2) (m_gc s2) (roots s2) {}" using 1 by (simp add: vinv_def)
      note h2 = ok_heap [OF o2]
      let ?v = "int (u32_cast (length (m_runtimeStrings s2)))"
      obtain h3 where st: "storeCell i 0 ?v TAG_STR (m_heap s2) = Some (True, h3)"
        using hp.store_law [OF h2, of i 0 ?v TAG_STR] 1 by (auto simp: SLOT_SIZE_def)
      have z: "ref_at (m_heap s2) (i, 0) = None"
        using 1 h2 by (simp add: ref_at_def hp.load_law SLOT_SIZE_def zero_cell tag_defs)
      have st0: "storeCell i (0 * 9) ?v TAG_STR (m_heap s2) = Some (True, h3)" using st by simp
      have "ok h3 (m_gc s2) (roots s2) {(i, 0)}" by (rule write_law [OF detach_law [OF o2 z] st0])
      then have o3: "ok h3 (m_gc s2) (roots s2) {}"
        by (rule attach_law) (simp add: ref_at_store [OF h2 st0] tag_defs)
      have vi: "valid h3 i" using valid_store [OF h2 st, of i] 1 by (simp add: valid_view)
      then have "i < 4294967296" using valid_range [OF ok_heap [OF o3]] by fastforce
      then have "ospec (\<lambda>s'. vinv s' {#}) (throwValue ops (int i) TAG_HEAP
          (s2\<lparr>m_runtimeStrings := m_runtimeStrings s2 @ [m], m_heap := h3\<rparr>)) (\<lambda>s'. vinv s' {#})"
        using 1 o3 vi room(2) by (intro throwValue_ok) (auto simp: vinv_def)
      then show ?case using st
        by (auto simp: internRuntimeString_def intro: ospec_bind)
    qed
    with False a Some show ?thesis by (simp add: raiseRuntime_def)
  qed (use a Some in \<open>simp add: raiseRuntime_def\<close>)
qed (simp add: raiseRuntime_def)

section \<open>Calls\<close>

lemma save_roots_ok:
  fixes s :: "('g, 'w) vm"
  assumes "vinv s X" and "\<forall>r \<in> set rs. r < NREGS" and "spill_count s + size X + length rs + 4401 < 2 ^ 31"
  shows "ospec U (ofold (\<lambda>r s. owhen (m_rtag s ! r = TAG_HEAP) (gc_call (gc_rootAdd ops (i64_to_u32 (m_regs s ! r)))) s) rs s)
    (\<lambda>s'. vinv s' (handles (map (\<lambda>r. (m_regs s ! r, m_rtag s ! r)) rs) + X) \<and> same_heap s s')"
  using assms
proof (induction rs arbitrary: s X)
  case (Cons r rs)
  let ?Y = "hnd (m_regs s ! r) (m_rtag s ! r) + X"
  have v: "m_rtag s ! r = TAG_HEAP \<longrightarrow> valid (m_heap s) (i64_to_u32 (m_regs s ! r))"
    using vinv_reg [OF Cons.prems(1), of r] Cons.prems(2) by simp
  have sz: "size ?Y \<le> size X + 1" using size_hnd [of "m_regs s ! r" "m_rtag s ! r"] by simp
  show ?case unfolding ofold.simps
  proof (rule ospec_bind [OF gc_rootAdd_ok [OF Cons.prems(1) v]], goal_cases)
    case (2 s1)
    then have e: "m_regs s1 = m_regs s" "m_rtag s1 = m_rtag s" "spill_count s1 = spill_count s"
      using same_heap_fields by blast+
    have "ospec U (ofold (\<lambda>r s. owhen (m_rtag s ! r = TAG_HEAP) (gc_call (gc_rootAdd ops (i64_to_u32 (m_regs s ! r)))) s) rs s1)
      (\<lambda>s'. vinv s' (handles (map (\<lambda>r. (m_regs s1 ! r, m_rtag s1 ! r)) rs) + ?Y) \<and> same_heap s1 s')"
      using 2 Cons.prems(2,3) sz e(3) by (intro Cons.IH) auto
    then show ?case unfolding e
      by (rule ospec_mono) (use 2 in \<open>auto simp: ac_simps intro: same_heap_trans\<close>)
  qed (use Cons.prems(3) in simp)
qed simp

lemma saved_vals_save_reg: "saved_vals (map (save_reg s) rs) = map (\<lambda>r. (m_regs s ! r, m_rtag s ! r)) rs"
  by (simp add: saved_vals_def save_reg_def)

lemma length_saved_regs: "length (saved_regs n) \<le> n"
proof -
  have "length (saved_regs n) \<le> length [16..<Suc n]" unfolding saved_regs_def by (rule length_filter_le)
  also have "\<dots> \<le> n" by (simp only: length_upt)
  finally show ?thesis .
qed

lemma pushCallFrame_ok:
  fixes s :: "('g, 'w) vm"
  assumes inv: "vinv s {#}" and room: "spill_count s + 9000 < 2 ^ 31"
  shows "ospec U (pushCallFrame ops ret ip s) (\<lambda>s'. vinv s' {#})"
proof (cases "max_local s ip \<ge> NREGS")
  case False
  let ?rs = "saved_regs (max_local s ip)"
  let ?H = "handles (map (\<lambda>r. (m_regs s ! r, m_rtag s ! r)) ?rs)"
  have len: "length ?rs \<le> 4096" using length_saved_regs [of "max_local s ip"] False by (simp add: NREGS_def)
  have regs: "\<forall>r \<in> set ?rs. r < NREGS" using False by (auto simp: saved_regs_def)
  have "ospec U (obind
      (ofold (\<lambda>r s. owhen (m_rtag s ! r = TAG_HEAP) (gc_call (gc_rootAdd ops (i64_to_u32 (m_regs s ! r)))) s) ?rs s)
      (\<lambda>s1. Ok (s1\<lparr>m_callStack := \<lparr>cf_returnIp = ret, cf_callIp = ip,
               cf_locals = map (save_reg s) ?rs\<rparr> # m_callStack s1\<rparr>))) (\<lambda>s'. vinv s' {#})"
  proof (rule ospec_bind [OF save_roots_ok [OF inv regs]], goal_cases)
    case (2 s1)
    let ?f = "\<lparr>cf_returnIp = ret, cf_callIp = ip, cf_locals = map (save_reg s) ?rs\<rparr>"
    have sp: "spill_count s1 = spill_count s" using 2 same_heap_fields by blast
    have e: "roots (s1\<lparr>m_callStack := ?f # m_callStack s1\<rparr>) + {#} = roots s1 + (?H + {#})"
      by (simp add: roots_def saved_vals_save_reg ac_simps)
    have "vinv (s1\<lparr>m_callStack := ?f # m_callStack s1\<rparr>) {#}"
      unfolding vinv_def e using 2 sp room len by (auto simp: vinv_def vshape_def spill_count_def)
    then show ?case by simp
  qed (use room len in simp)
  with False show ?thesis by (simp add: pushCallFrame_def Let_def)
qed (simp add: pushCallFrame_def)

section \<open>Heap access\<close>

definition ready :: "('g, 'w) vm \<Rightarrow> bool" where
  "ready s \<longleftrightarrow> vinv s {#} \<and> alloc_room 9 (m_heap s) \<and> spill_count s + 10000 < 2 ^ 31"

definition good :: "('g, 'w) vm \<Rightarrow> bool" where
  "good s \<longleftrightarrow> vinv s {#}"

lemma ready_good: "ready s \<Longrightarrow> good s"
  by (simp add: ready_def good_def)

lemma ready_ok: "ready s \<Longrightarrow> ok (m_heap s) (m_gc s) (roots s) {}"
  by (simp add: ready_def vinv_def)

lemma ready_reg: "ready s \<Longrightarrow> r < NREGS \<Longrightarrow> m_rtag s ! r = TAG_HEAP \<Longrightarrow> valid (m_heap s) (i64_to_u32 (m_regs s ! r))"
  unfolding ready_def using vinv_reg by blast

lemma ready_global: "ready s \<Longrightarrow> r < NGLOBALS \<Longrightarrow> m_globalTags s ! r = TAG_HEAP \<Longrightarrow> valid (m_heap s) (i64_to_u32 (m_globals s ! r))"
  unfolding ready_def using global_root [of s r] vinv_root [of s "{#}"] by (simp add: vinv_def)

lemma raise_safe [vm_safe]: "ready s \<Longrightarrow> ospec good (raiseRuntime ops m s) P"
  using raiseRuntime_ok [of s m P] by (simp add: ready_def good_def [abs_def])

lemma setReg_safe [vm_safe]:
  assumes "ready s" and "t = TAG_HEAP \<Longrightarrow> valid (m_heap s) (i64_to_u32 v)"
  shows "ospec U (setReg ops r v t s) good"
  using setReg_ok [of s "{#}" t v U r] assms
  by (auto simp: ready_def good_def elim!: ospec_mono)

lemma setGlobal_safe [vm_safe]:
  assumes r: "ready s" and "slot < NGLOBALS" and new: "t = TAG_HEAP \<Longrightarrow> valid (m_heap s) (i64_to_u32 v)"
  shows "ospec U (setGlobal ops slot v t s) good"
proof (cases "m_globalTags s ! slot = TAG_HEAP \<and> t = TAG_HEAP \<and> m_globals s ! slot = v")
  case True
  with r show ?thesis by (simp add: setGlobal_def ready_good)
next
  case False
  let ?w = "\<lambda>s1. s1\<lparr>m_globals := (m_globals s1)[slot := v], m_globalTags := (m_globalTags s1)[slot := t]\<rparr>"
  let ?old = "hnd (m_globals s ! slot) (m_globalTags s ! slot)"
  have inv: "vinv s {#}" using r by (simp add: ready_def)
  have "ospec U (obind (owhen (t = TAG_HEAP) (gc_call (gc_rootAdd ops (i64_to_u32 v))) s)
     (\<lambda>s1. owhen (m_globalTags s ! slot = TAG_HEAP) (gc_call (gc_rootRemove ops (i64_to_u32 (m_globals s ! slot)))) (?w s1)))
     good"
  proof (rule ospec_bind [OF gc_rootAdd_ok [OF inv]], goal_cases)
    case (3 s1)
    then have sh1: "vshape s1" by (simp add: vinv_def)
    have s1: "m_globals s1 = m_globals s" "m_globalTags s1 = m_globalTags s" "spill_count s1 = spill_count s"
      using 3 same_heap_fields by blast+
    have e: "roots (?w s1) + (?old + {#}) = roots s1 + (hnd v t + {#})"
      using roots_setGlobal [OF sh1 assms(2), where v = v and t = t] s1 by simp
    have "vinv (?w s1) (?old + {#})"
      unfolding vinv_def e
      using 3 r s1(3) vshape_setGlobal [OF sh1] size_hnd [of "m_globals s ! slot" "m_globalTags s ! slot"]
      by (auto simp: vinv_def spill_count_def ready_def)
    from gc_rootRemove_ok [OF this] show ?case by (rule ospec_mono) (simp add: good_def)
  qed (use new r in \<open>auto simp: ready_def\<close>)
  with False show ?thesis by (auto simp: setGlobal_def Let_def)
qed

lemma load_into_safe [vm_safe]:
  assumes r: "ready s" and "off mod 9 = 0"
  shows "ospec good (load_into ops base off dst s) good"
proof -
  obtain k where k: "off = k * 9" using assms(2) by (metis div_mult_mod_eq add.right_neutral mult.commute)
  have "loadCell base off (m_heap s) \<noteq> None"
    using hp.load_defined ok_heap [OF ready_ok [OF r]] by blast
  moreover have "valid (m_heap s) (i64_to_u32 v)" if "loadCell base off (m_heap s) = Some (Some (v, TAG_HEAP))" for v
    using loaded_ref [OF ready_ok [OF r]] that k by blast
  ultimately show ?thesis
    using r by (auto simp: load_into_def split: option.split intro!: vm_safe)
qed

lemma alloc_into_safe [vm_safe]:
  fixes s :: "('g, 'w) vm"
  assumes r: "ready s" and room: "alloc_room sz (m_heap s)"
  shows "ospec good (alloc_into ops sz ty dst s) good"
proof -
  obtain i h where a: "alloc sz ty (m_heap s) = (i, h)" by (cases "alloc sz ty (m_heap s)")
  have inv: "vinv s {#}" using r by (simp add: ready_def)
  have hok: "heap_ok (m_heap s)" by (rule ok_heap [OF ready_ok [OF r]])
  show ?thesis
  proof (cases "i = INVALID")
    case True
    obtain e where "raiseRuntime ops ''heap exhausted (slot space full)'' (s\<lparr>m_heap := h\<rparr>)
        = (Panic e :: ('g, 'w) vmres)"
      using raiseRuntime_refused [OF hok room] a True by blast
    with a True show ?thesis by (simp add: alloc_into_def)
  next
    case False
    have "ospec good (obind (gc_call (gc_onAlloc ops i) (s\<lparr>m_heap := h\<rparr>)) (setReg ops dst (int i) TAG_HEAP)) good"
    proof (rule ospec_bind [OF alloc_fresh_ok [OF inv room a False]], goal_cases)
      case (1 s1)
      have "i < 4294967296" using hp.new_law [OF hok room a] False by (simp add: INVALID_def)
      with 1 r show ?case
        by (intro ospec_mono [OF setReg_ok]) (auto simp: good_def valid_view ready_def)
    qed
    with a False show ?thesis by (simp add: alloc_into_def)
  qed
qed

lemma detach_ok:
  fixes s :: "('g, 'w) vm"
  assumes r: "ready s" and ref: "ref_at (m_heap s) (base, k) = (if ot = TAG_HEAP then Some (i64_to_u32 ov) else None)"
  shows "ospec U (owhen (ot = TAG_HEAP) (gc_call (gc_edgeRemove ops base (i64_to_u32 ov))) s)
    (\<lambda>s'. same_heap s s' \<and> ok (m_heap s') (m_gc s') (roots s) {(base, k)})"
proof (cases "ot = TAG_HEAP")
  case True
  with edgeRemove_law [OF ready_ok [OF r]] ref show ?thesis
    by (cases "gc_edgeRemove ops base (i64_to_u32 ov) (m_heap s, m_gc s)")
       (fastforce simp: owhen_def gc_call_def)+
next
  case False
  with detach_law [OF ready_ok [OF r]] ref show ?thesis by (simp add: owhen_def)
qed

lemma store_cell_safe:
  fixes s :: "('g, 'w) vm"
  assumes r: "ready s" and ref: "ref_at (m_heap s) (base, k) = (if ot = TAG_HEAP then Some (i64_to_u32 ov) else None)"
    and v: "valReg < NREGS" "v = m_regs s ! valReg" "t = m_rtag s ! valReg"
  shows "ospec good (if ot = TAG_HEAP \<and> t = TAG_HEAP \<and> ov = v then Ok s
    else obind (owhen (ot = TAG_HEAP) (gc_call (gc_edgeRemove ops base (i64_to_u32 ov))) s)
      (\<lambda>s1. case storeCell base (k * 9) v t (m_heap s1) of
          None \<Rightarrow> Undefined UB_Heap
        | Some (False, h2) \<Rightarrow> panic s1 ''validated heap write failed''
        | Some (True, h2) \<Rightarrow>
            owhen (t = TAG_HEAP) (gc_call (gc_edgeAdd ops base (i64_to_u32 v))) (s1\<lparr>m_heap := h2\<rparr>))) good"
proof -
  have "ospec good (case storeCell base (k * 9) v t (m_heap s1) of
          None \<Rightarrow> Undefined UB_Heap
        | Some (False, h2) \<Rightarrow> panic s1 ''validated heap write failed''
        | Some (True, h2) \<Rightarrow>
            owhen (t = TAG_HEAP) (gc_call (gc_edgeAdd ops base (i64_to_u32 v))) (s1\<lparr>m_heap := h2\<rparr>)) good"
    if s1: "same_heap s s1" and o1: "ok (m_heap s1) (m_gc s1) (roots s) {(base, k)}" for s1
  proof -
    note h1 = ok_heap [OF o1]
    obtain c h2 where st: "storeCell base (k * 9) v t (m_heap s1) = Some (c, h2)"
      using hp.store_defined [OF h1] by fastforce
    note o2 = write_law [OF o1 st]
    note f = same_heap_fields [OF s1]
    have sh: "vshape s" "spill_count s + 4400 < 2 ^ 31" using r by (simp_all add: ready_def vinv_def)
    show ?thesis
    proof (cases c)
      case True
      then have ref2: "ref_at h2 (base, k) = (if t = TAG_HEAP then Some (i64_to_u32 v) else None)"
        using ref_at_store [OF h1] st by simp
      show ?thesis
      proof (cases "t = TAG_HEAP")
        case heap: True
        have "i64_to_u32 v \<in># roots s"
          using reg_root [of s valReg] v heap sh by simp
        then have val: "valid h2 (i64_to_u32 v)"
          using ok_root [OF o2] by blast
        have sm: "size (roots s) < 2 ^ 31" using vinv_small [of s "{#}"] r by (simp add: ready_def)
        have "gspec (gc_edgeAdd ops base (i64_to_u32 v) (h2, m_gc s1)) (\<lambda>(h', g'). ok h' g' (roots s) {})"
          using edgeAdd_law [OF o2 _ val sm] ref2 heap by (auto elim!: gspec_mono)
        then show ?thesis
          using st True heap f sh
          by (cases "gc_edgeAdd ops base (i64_to_u32 v) (h2, m_gc s1)")
             (auto simp: owhen_def gc_call_def good_def vinv_def)
      next
        case False
        then have "ok h2 (m_gc s1) (roots s) {}" using attach_law [OF o2] ref2 by simp
        then show ?thesis using st True False f sh by (simp add: owhen_def good_def vinv_def)
      qed
    qed (use st in simp)
  qed
  then show ?thesis
    using ready_good [OF r] by (auto intro!: ospec_bind [OF detach_ok [OF r ref]])
qed

lemma store_value_safe [vm_safe]:
  fixes s :: "('g, 'w) vm"
  assumes r: "ready s" and "off mod 9 = 0"
  shows "ospec good (store_value ops base off valReg s) good"
proof -
  obtain k where k: "off = k * 9" using assms(2) by (metis div_mult_mod_eq add.right_neutral mult.commute)
  have o0: "ok (m_heap s) (m_gc s) (roots s) {}" by (rule ready_ok [OF r])
  show ?thesis
  proof (cases "loadCell base off (m_heap s)")
    case None
    with hp.load_defined [OF ok_heap [OF o0]] show ?thesis by blast
  next
    case (Some c)
    show ?thesis
    proof (cases c)
      case None
      with Some r show ?thesis by (simp add: store_value_def raise_safe)
    next
      case (Some old)
      obtain ov ot where old: "old = (ov, ot)" by (cases old)
      have ref: "ref_at (m_heap s) (base, k) = (if ot = TAG_HEAP then Some (i64_to_u32 ov) else None)"
        using \<open>loadCell base off (m_heap s) = Some c\<close> Some old k by (simp add: ref_at_def)
      have "ospec good (if ot = TAG_HEAP \<and> t = TAG_HEAP \<and> ov = v then Ok s
          else obind (owhen (ot = TAG_HEAP) (gc_call (gc_edgeRemove ops base (i64_to_u32 ov))) s)
            (\<lambda>s1. case storeCell base off v t (m_heap s1) of
                None \<Rightarrow> Undefined UB_Heap
              | Some (False, h2) \<Rightarrow> panic s1 ''validated heap write failed''
              | Some (True, h2) \<Rightarrow>
                  owhen (t = TAG_HEAP) (gc_call (gc_edgeAdd ops base (i64_to_u32 v))) (s1\<lparr>m_heap := h2\<rparr>))) good"
        if v: "valReg < NREGS" "v = m_regs s ! valReg" "t = m_rtag s ! valReg" for v t
        unfolding k by (rule store_cell_safe [OF r ref v])
      then show ?thesis
        using \<open>loadCell base off (m_heap s) = Some c\<close> Some old
        by (auto simp: store_value_def get_reg_def obind_def)
    qed
  qed
qed

section \<open>Instructions\<close>

lemma ready_update [simp]:
  "ready (s\<lparr>m_runtimeStrings := x1\<rparr>) = ready s" "ready (s\<lparr>m_flags := x2\<rparr>) = ready s"
  "ready (s\<lparr>m_stdin := x3\<rparr>) = ready s" "ready (s\<lparr>m_stdout := x4\<rparr>) = ready s"
  "ready (s\<lparr>m_world := x5\<rparr>) = ready s" "ready (s\<lparr>m_ioError := x6\<rparr>) = ready s"
  "ready (s\<lparr>m_netError := x7\<rparr>) = ready s" "ready (s\<lparr>m_openSockets := x8\<rparr>) = ready s"
  "ready (s\<lparr>m_directoryEntries := x9\<rparr>) = ready s" "ready (s\<lparr>m_exceptionHandlers := x10\<rparr>) = ready s"
  by (simp_all add: ready_def)

lemma next_ip_safe [vm_safe]: "good s \<Longrightarrow> ospec U (next_ip s) good"
  by (simp add: next_ip_def good_def)

lemma then_next [vm_safe]: "ospec good m good \<Longrightarrow> ospec good (obind m next_ip) good"
  by (rule ospec_bind, assumption) (rule next_ip_safe)

lemma set_next_safe [vm_safe]:
  "ready s \<Longrightarrow> (t = TAG_HEAP \<Longrightarrow> valid (m_heap s) (i64_to_u32 v)) \<Longrightarrow> ospec good (set_next ops r v t s) good"
  unfolding set_next_def by (rule then_next) (rule setReg_safe)

lemma get_reg_bind [vm_safe]:
  "(r < NREGS \<Longrightarrow> ospec U (f (m_regs s ! r, m_rtag s ! r)) Q) \<Longrightarrow> ospec U (obind (get_reg s r) f) Q"
  by (simp add: get_reg_def obind_def)

lemma readInt_bind [vm_safe]:
  "(\<And>v. readIntOperand s o1 = Ok v \<Longrightarrow> ospec U (f v) Q) \<Longrightarrow> ospec U (obind (readIntOperand s o1) f) Q"
  by (rule ospec_bind [where P = "\<lambda>v. readIntOperand s o1 = Ok v"]) (auto intro: ospec_readInt)

lemma readString_bind [vm_safe]:
  "(\<And>v. ospec U (f v) Q) \<Longrightarrow> ospec U (obind (readStringOperand s o1) f) Q"
  by (rule ospec_bind [where P = "\<lambda>_. True"]) (auto intro: ospec_readString)

lemma regString_bind [vm_safe]:
  "(\<And>v. ospec U (f v) Q) \<Longrightarrow> ospec U (obind (regString op r s) f) Q"
  by (auto simp: regString_def obind_def panic_def Let_def split: option.splits)

lemma source_string_bind [vm_safe]:
  "(\<And>v. ospec U (f v) Q) \<Longrightarrow> ospec U (obind (source_string s src) f) Q"
  by (auto simp: source_string_def obind_def get_reg_def)

lemma checked_bind [vm_safe]:
  "(\<And>v. ospec U (f v) Q) \<Longrightarrow> ospec U (obind (checked r) f) Q"
  by (simp add: checked_def obind_def)

lemma jump_safe [vm_safe]: "good s \<Longrightarrow> ospec U (jump what addr s) good"
  by (auto simp: jump_def good_def split: option.splits)

lemma zero_check_bind [vm_safe]:
  "ready s \<Longrightarrow> (\<And>v. ospec good (f v) Q) \<Longrightarrow> ospec good (obind (zero_check ops m s y) f) Q"
  by (rule ospec_bind [where P = "\<lambda>_. True"]) (auto simp: zero_check_def intro: raise_safe)

lemma call_to_safe [vm_safe]: "ready s \<Longrightarrow> ospec U (call_to ops ret target s) good"
  unfolding call_to_def
  by (rule ospec_bind [OF pushCallFrame_ok]) (auto simp: ready_def good_def)

lemma explicit_free_safe [vm_safe]:
  assumes "ready s"
  shows "ospec U (gc_call (gc_onExplicitFree ops i) s) good"
proof -
  have "gspec (gc_onExplicitFree ops i (m_heap s, m_gc s)) (\<lambda>(h', g'). ok h' g' (roots s + {#}) {})"
    using explicitFree_law [OF ready_ok [OF assms], of i] by (auto elim!: gspec_mono)
  then have "ospec U (gc_call (gc_onExplicitFree ops i) s) (\<lambda>s'. vinv s' {#} \<and> same_heap s s')"
    using assms by (intro gc_call_ok) (auto simp: ready_def vinv_def)
  then show ?thesis by (rule ospec_mono) (simp add: good_def)
qed

lemma int_op_safe:
  fixes s :: "('g, 'w) vm"
  assumes "ready s" and "\<And>y (g :: unit \<Rightarrow> ('g, 'w) vmres). (\<And>u. ospec good (g u) good) \<Longrightarrow> ospec good (obind (chk y) g) good"
    and "\<And>x y (g :: int \<Rightarrow> ('g, 'w) vmres). (\<And>u. ospec good (g u) good) \<Longrightarrow> ospec good (obind (f x y) g) good"
  shows "ospec good (int_op chk f ops os s) good"
  using assms(1)
  by (auto simp: int_op_def bad_operands_def split: list.split intro!: vm_safe assms(2,3))

lemma exec_arith_safe:
  assumes r: "ready s"
  shows "ospec good (exec_Sub ops os s) good" "ospec good (exec_Mul ops os s) good"
    "ospec good (exec_Div ops os s) good" "ospec good (exec_Rem ops os s) good"
    "ospec good (exec_Shl ops os s) good" "ospec good (exec_Shr ops os s) good"
    "ospec good (exec_Bit opc ops os s) good"
  unfolding exec_Sub_def exec_Mul_def exec_Div_def exec_Rem_def exec_Shl_def exec_Shr_def exec_Bit_def
  using r by (auto intro!: int_op_safe vm_safe simp: no_check_def obind_def [of "Ok _"] obind_def [of "Undefined _"]
    checked_def split: if_splits)

lemma exec_move_safe:
  assumes r: "ready s"
  shows "ospec good (exec_Push ops os s) good" "ospec good (exec_Mov ops os s) good"
    "ospec good (exec_GLoad ops os s) good" "ospec good (exec_GStore ops os s) good"
    "ospec good (exec_TypeOf ops os s) good" "ospec good (exec_HFree ops os s) good"
  unfolding exec_Push_def exec_Mov_def exec_GLoad_def exec_GStore_def exec_TypeOf_def exec_HFree_def
  using r ready_good [OF r]
  by (auto simp: bad_operands_def Let_def not_le split: list.split operand_tag.split
      intro!: vm_safe dest: ready_reg ready_global)

lemma exec_spill_safe:
  fixes s :: "('g, 'w) vm"
  assumes r: "ready s"
  shows "ospec good (exec_PushR ops os s) good" "ospec good (exec_PopR ops os s) good"
proof -
  have "ospec good (obind (owhen (t = TAG_HEAP) (gc_call (gc_rootAdd ops (i64_to_u32 v))) s) (\<lambda>s1.
      next_ip (s1\<lparr>m_dataStack := \<lparr>sr_reg = q, sr_value = v, sr_tag = t\<rparr> # m_dataStack s1\<rparr>))) good"
    if "t = TAG_HEAP \<longrightarrow> valid (m_heap s) (i64_to_u32 v)" for v t q
  proof (rule ospec_bind [OF gc_rootAdd_ok [where X = "{#}", OF _ that]], goal_cases)
    case 1 show "vinv s {#}" using r by (simp add: ready_def)
  next
    case 2 show ?case using r by (simp add: ready_def)
  next
    case (3 s1)
    have sp: "spill_count s1 = spill_count s" using 3 same_heap_fields by blast
    let ?s = "s1\<lparr>m_dataStack := \<lparr>sr_reg = q, sr_value = v, sr_tag = t\<rparr> # m_dataStack s1\<rparr>"
    have e: "roots ?s + {#} = roots s1 + (hnd v t + {#})" by (simp add: roots_def ac_simps)
    have "vinv ?s {#}"
      unfolding vinv_def e using 3 r sp by (auto simp: vinv_def vshape_def spill_count_def ready_def)
    then show ?case by (intro next_ip_safe) (simp add: good_def)
  qed
  with r show "ospec good (exec_PushR ops os s) good"
    by (auto simp: exec_PushR_def bad_operands_def split: list.split intro!: get_reg_bind dest: ready_reg)
  have "ospec good (restore_saved ops sr (s\<lparr>m_dataStack := rest\<rparr>)) good" if "m_dataStack s = sr # rest" for sr rest
    using r that by (intro ospec_mono [OF pop_restore_ok [of s "{#}"]]) (auto simp: ready_def good_def)
  with r show "ospec good (exec_PopR ops os s) good"
    by (auto simp: exec_PopR_def bad_operands_def Let_def split: list.split intro!: vm_safe ready_good)
qed

lemma exec_float_safe:
  assumes r: "ready s"
  shows "ospec good (exec_FAdd E ops os s) good" "ospec good (exec_FSub E ops os s) good"
    "ospec good (exec_FMul E ops os s) good" "ospec good (exec_FDiv E ops os s) good"
    "ospec good (exec_ItoF E ops os s) good" "ospec good (exec_FtoI E ops os s) good"
    "ospec good (exec_FNeg E ops os s) good"
  unfolding exec_FAdd_def exec_FSub_def exec_FMul_def exec_FDiv_def exec_ItoF_def exec_FtoI_def
    exec_FNeg_def float_op_def
  using r by (auto simp: bad_operands_def split: list.split option.split intro!: vm_safe)

lemma exec_jump_safe:
  assumes r: "ready s"
  shows "ospec good (exec_Jmp os s) good" "ospec good (exec_Jnz os s) good" "ospec good (exec_Jz os s) good"
    "ospec good (exec_Jn os s) good" "ospec good (exec_Skip os s) good"
  unfolding exec_Jmp_def exec_Jnz_def exec_Jz_def exec_Jn_def exec_Skip_def
  using ready_good [OF r]
  by (auto simp: bad_operands_def split: list.split intro!: vm_safe) (simp add: good_def)

lemma exec_NullChk_safe: "ready s \<Longrightarrow> ospec good (exec_NullChk os s) good"
  using ready_good [of s]
  by (auto simp: exec_NullChk_def bad_operands_def get_reg_def obind_def split: list.split intro!: jump_safe next_ip_safe)

lemma exec_Cmp_safe: "ready s \<Longrightarrow> ospec good (exec_Cmp E os s) good"
  unfolding exec_Cmp_def
  by (auto simp: bad_operands_def Let_def split: list.split intro!: get_reg_bind)
     (auto simp: obind_def [of "Ok _"] good_def ready_def intro!: next_ip_safe ospec_bind [where P = "\<lambda>_. True"] readString_bind)

lemma exec_string_safe:
  assumes r: "ready s"
  shows "ospec good (exec_Add ops os s) good" "ospec good (exec_StrLen ops os s) good"
    "ospec good (exec_ToStr ops os s) good"
proof -
  show "ospec good (exec_StrLen ops os s) good"
    using r by (auto simp: exec_StrLen_def bad_operands_def split: list.split intro!: vm_safe)
  show "ospec good (exec_ToStr ops os s) good"
    using r by (auto simp: exec_ToStr_def bad_operands_def internRuntimeString_def split: list.split option.split
        intro!: vm_safe ospec_bind [where P = "\<lambda>_. True", of good "if _ then _ else _"]
          ospec_bind [where P = "\<lambda>_ :: int option. True"] ospec_get_reg)
       (auto simp: obind_def get_reg_def source_string_def split: option.split intro!: set_next_safe)
  show "ospec good (exec_Add ops os s) good"
    using r by (auto simp: exec_Add_def bad_operands_def internRuntimeString_def split: list.split
        intro!: get_reg_bind ospec_bind [where P = "\<lambda>_ :: bool. True"])
       (auto simp: get_reg_def obind_def [of "Ok _"] obind_def [of "Undefined _"] split: if_splits intro!: vm_safe)
qed

lemma write_value_safe [vm_safe]: "ready s \<Longrightarrow> ospec good (write_value name sfx v t s) good"
  by (auto simp: write_value_def out_def good_def ready_def split: option.split)

lemma exec_write_safe:
  assumes r: "ready s"
  shows "ospec good (exec_Write os s) good" "ospec good (exec_Print os s) good"
  using r unfolding exec_Write_def exec_Print_def write_operand_def
  by (auto simp: bad_operands_def split: list.split option.split intro!: vm_safe)
     (auto simp: out_def good_def ready_def)

lemma exec_heap_safe:
  assumes r: "ready s" and p: "instr_pre i s"
  shows "in_op i = OpAlloc \<Longrightarrow> ospec good (exec_Alloc ops (in_operands i) s) good"
    "in_op i = OpHStore \<Longrightarrow> ospec good (exec_HStore ops (in_operands i) s) good"
    "in_op i = OpHLoad \<Longrightarrow> ospec good (exec_HLoad ops (in_operands i) s) good"
  using r p unfolding exec_Alloc_def exec_HStore_def exec_HLoad_def
  by (auto simp: bad_operands_def instr_pre_def split: list.split intro!: vm_safe)

lemma exec_handler_safe:
  assumes r: "ready s"
  shows "ospec good (exec_TryPush os s) good" "ospec good (exec_TryPop s) good"
    "ospec good (exec_Throw ops os s) good" "ospec good (exec_IsA ops os s) good"
proof -
  show "ospec good (exec_TryPush os s) good" "ospec good (exec_TryPop s) good"
    using r by (auto simp: exec_TryPush_def exec_TryPop_def bad_operands_def split: list.split option.split
        intro!: vm_safe ready_good)
  have "ospec good (throwValue ops (m_regs s ! q) (m_rtag s ! q) s) good" if "q < NREGS" for q
    using r that ready_reg [OF r that]
    by (intro ospec_mono [OF throwValue_ok [where X = "{#}"]]) (auto simp: ready_def good_def)
  then show "ospec good (exec_Throw ops os s) good"
    by (auto simp: exec_Throw_def bad_operands_def split: list.split intro!: get_reg_bind)
  show "ospec good (exec_IsA ops os s) good"
    using r by (auto simp: exec_IsA_def bad_operands_def Let_def split: list.split option.split intro!: vm_safe)
qed

definition calm :: "('g, 'w) vm \<Rightarrow> bool" where
  "calm s \<longleftrightarrow> vinv s {#} \<and> spill_count s + 10000 < 2 ^ 31"

lemma setReg_calm:
  assumes "calm s" and "t = TAG_HEAP \<Longrightarrow> valid (m_heap s) (i64_to_u32 v)"
  shows "ospec U (setReg ops r v t s) calm"
  using assms
  by (intro ospec_mono [OF setReg_ok [where X = "{#}"]])
     (auto simp: calm_def dest!: reg_written_same same_regs_keeps)

lemma move_reg_calm: "calm s \<Longrightarrow> q < NREGS \<Longrightarrow> ospec U (setReg ops r (m_regs s ! q) (m_rtag s ! q) s) calm"
  by (rule setReg_calm) (auto simp: calm_def intro: vinv_reg)

lemma call_to_calm: "calm s \<Longrightarrow> ospec U (call_to ops ret target s) good"
  unfolding call_to_def
  by (rule ospec_bind [OF pushCallFrame_ok]) (auto simp: calm_def good_def)

lemma exec_call_safe:
  assumes r: "ready s"
  shows "ospec good (exec_Call ops os s) good" "ospec good (exec_VCall ops os s) good"
    "ospec good (exec_ICall ops os s) good"
  using r unfolding exec_Call_def exec_VCall_def exec_ICall_def
  by (auto simp: bad_operands_def Let_def split: list.split option.split intro!: vm_safe)

lemma exec_CallInd_safe:
  fixes s :: "('g, 'w) vm"
  assumes r: "ready s"
  shows "ospec good (exec_CallInd ops os s) good"
proof -
  have c: "calm s" using r by (simp add: ready_def calm_def)
  have shift: "ospec good (shift_args ops n s) calm" for n
    unfolding shift_args_def Let_def
    by (rule ospec_fold) (auto intro: move_reg_calm c simp: u8_cast_def NREGS_def mod_less_divisor [THEN less_trans])
  have pass: "ospec good (obind (shift_args ops n s) (\<lambda>s1.
      obind (setReg ops 1 (m_regs s1 ! q) (m_rtag s1 ! q) s1) (\<lambda>s2. Ok (a, s2)))) (\<lambda>p. calm (snd p))"
    if "q < NREGS" for n q and a :: nat
    by (rule ospec_bind [OF shift], rule ospec_bind [OF move_reg_calm]) (use that in auto)
  have d: "loadCell x 0 (m_heap s) \<noteq> None" for x
    using hp.load_defined ok_heap [OF ready_ok [OF r]] by blast
  show ?thesis
    unfolding exec_CallInd_def
    by (auto simp: bad_operands_def Let_def split: list.split
        intro!: get_reg_bind ospec_bind [where P = "\<lambda>p. calm (snd p)"])
       (auto simp: c d split: option.split intro!: pass [simplified] call_to_calm)
qed

lemma exec_Ret_safe:
  assumes r: "ready s"
  shows "ospec good (exec_Ret ops s) good"
proof -
  let ?s = "s\<lparr>m_exceptionHandlers :=
      dropWhile (\<lambda>h. eh_callDepth h \<ge> length (m_callStack s)) (m_exceptionHandlers s)\<rparr>"
  have "ospec good (obind (restoreCallFrame ops ?s) (\<lambda>s2. Ok (s2\<lparr>m_jitIp := ip\<rparr>))) good" for ip
    using r by (intro ospec_bind [OF restoreCallFrame_ok [where X = "{#}"]]) (auto simp: ready_def good_def)
  with r show ?thesis
    by (auto simp: exec_Ret_def Let_def good_def ready_def split: list.split)
qed

section \<open>Native functions\<close>

lemma result_safe [vm_safe]:
  assumes "ready s"
  shows "ospec good (result_int ops v s) good" "ospec good (result_null ops s) good"
    "ospec good (result_string ops str s) good"
  using assms
  by (auto simp: result_int_def result_null_def result_string_def internRuntimeString_def intro!: setReg_safe)

lemma sys_basic_safe:
  assumes r: "ready s"
  shows "ospec good (sys_readchar ops s) good" "ospec good (sys_s2i ops s) good" "ospec good (sys_typeof ops s) good"
    "ospec good (sys_chr ops s) good" "ospec good (sys_write s) good" "ospec good (sys_print s) good"
    "ospec good (sys_hfree ops s) good" "ospec good (sys_strlen ops s) good" "ospec good (sys_i2s ops s) good"
    "ospec good (sys_strchar ops s) good" "ospec good (sys_strslice ops s) good" "ospec good (sys_strindexof ops s) good"
    "ospec good (sys_error ops s) good"
  unfolding sys_readchar_def sys_s2i_def sys_typeof_def sys_chr_def sys_write_def sys_print_def sys_hfree_def
    sys_strlen_def sys_i2s_def sys_strchar_def sys_strslice_def sys_strindexof_def sys_error_def
  using r by (auto simp: Let_def split: list.split ll_result.split intro!: vm_safe)

lemma sys_heap_safe:
  assumes r: "ready s"
  shows "alloc_room (i64_to_u32 (m_regs s ! 1)) (m_heap s) \<Longrightarrow> ospec good (sys_halloc ops s) good"
    "i64_to_u32 (m_regs s ! 2) mod 9 = 0 \<Longrightarrow> ospec good (sys_hread ops s) good"
    "i64_to_u32 (m_regs s ! 2) mod 9 = 0 \<Longrightarrow> ospec good (sys_hset ops s) good"
  unfolding sys_halloc_def sys_hread_def sys_hset_def using r by (auto intro!: vm_safe)

lemma sys_file_safe:
  assumes r: "ready s"
  shows "ospec good (sys_fs E ops n s) good" "ospec good (sys_listdir E ops s) good"
    "ospec good (sys_fileremove E ops s) good" "ospec good (sys_clock ops c s) good"
    "ospec good (sys_fileread E ops s) good" "ospec good (sys_readfile E ops s) good"
  unfolding sys_fs_def sys_listdir_def sys_fileremove_def sys_clock_def sys_fileread_def sys_readfile_def
    Let_def split_def
  by (auto simp: r result_safe split: option.split intro!: regString_bind)

lemma sys_process_safe:
  assumes r: "ready s"
  shows "ospec good (sys_path E ops n s) good" "ospec good (sys_indexed ops xs e s) good"
    "ospec good (sys_getenv E ops s) good" "ospec good (sys_filewrite E ops n s) good"
proof -
  show "ospec good (sys_path E ops n s) good"
    unfolding sys_path_def using r
    by (cases "n = 50") (auto simp: obind_def [of "Ok _"] intro!: vm_safe)
  show "ospec good (sys_indexed ops xs e s) good"
    unfolding sys_indexed_def Let_def using r by (auto intro!: vm_safe)
  show "ospec good (sys_getenv E ops s) good"
    unfolding sys_getenv_def using r by (auto split: option.split intro!: vm_safe)
  show "ospec good (sys_filewrite E ops n s) good"
    unfolding sys_filewrite_def Let_def split_def using r by (auto intro!: vm_safe)
qed

lemma sys_float_safe:
  assumes r: "ready s"
  shows "ospec good (sys_math E ops n s) good" "ospec good (sys_parse_double E ops n s) good"
  unfolding sys_math_def sys_parse_double_def
  using r by (auto simp: Let_def split: option.split intro!: vm_safe)

lemma sys_connect_safe:
  assumes r: "ready s"
  shows "ospec good (sys_connect E ops n s) good"
  unfolding sys_connect_def Let_def split_def
  by (cases "net_init E (m_world s)")
     (auto simp: r result_safe split: option.split sum.split intro!: regString_bind)

lemma sys_net_safe:
  assumes r: "ready s"
  shows "ospec good (sys_accept E ops s) good" "ospec good (sys_recv E ops s) good"
    "ospec good (sys_close E ops s) good" "ospec good (sys_port E ops s) good"
    "ospec good (sys_send E ops s) good"
proof -
  show "ospec good (sys_accept E ops s) good" "ospec good (sys_close E ops s) good"
    "ospec good (sys_port E ops s) good"
    unfolding sys_accept_def sys_close_def sys_port_def Let_def
    by (auto simp: r result_safe split: prod.split sum.split)
  show "ospec good (sys_recv E ops s) good"
    unfolding sys_recv_def Let_def by (auto simp: r result_safe split: prod.split sum.split)
  show "ospec good (sys_send E ops s) good"
    unfolding sys_send_def Let_def
    by (rule regString_bind)
       (use ready_good [OF r] in \<open>auto simp: r result_safe good_def split: prod.split sum.split\<close>)
qed

lemma ospec_if: "(c \<Longrightarrow> ospec U a Q) \<Longrightarrow> (\<not> c \<Longrightarrow> ospec U b Q) \<Longrightarrow> ospec U (if c then a else b) Q"
  by simp

lemma invokeSyscall_safe:
  assumes r: "ready s" and "n = 20 \<longrightarrow> alloc_room (i64_to_u32 (m_regs s ! 1)) (m_heap s)"
    and "n = 21 \<or> n = 22 \<longrightarrow> i64_to_u32 (m_regs s ! 2) mod 9 = 0"
  shows "ospec good (invokeSyscall E ops n s) good"
  unfolding invokeSyscall_def
  by (intro ospec_if)
     (use assms(2,3) in \<open>simp_all add: r sys_basic_safe sys_heap_safe sys_file_safe sys_process_safe
        sys_float_safe sys_connect_safe sys_net_safe result_safe\<close>)

section \<open>Steps\<close>

lemma exec_safe:
  fixes s :: "('g, 'w) vm"
  assumes r: "ready s" and p: "instr_pre i s"
  shows "ospec good (execJitInstruction E ops i s) good"
proof -
  have sc: "ospec good (exec_Syscall E ops (in_operands i) s) good" if "in_op i = OpSyscall"
    using r p that unfolding exec_Syscall_def
    by (auto simp: bad_operands_def instr_pre_def Let_def split: list.split intro!: get_reg_bind then_next invokeSyscall_safe)
  show ?thesis
    using exec_heap_safe [OF r p] sc r [unfolded ready_def]
    by (cases "in_op i")
       (simp_all add: execJitInstruction_def r next_ip_safe [OF ready_good [OF r]] exec_arith_safe exec_move_safe
         exec_spill_safe exec_float_safe exec_jump_safe exec_NullChk_safe exec_Cmp_safe exec_string_safe
         exec_write_safe exec_handler_safe exec_call_safe exec_CallInd_safe exec_Ret_safe good_def)
qed

text \<open>One iteration of the dispatch loop from a good state with room.\<close>

lemma step_safe:
  assumes "vinv s {#}" and "instr_pre (m_jitCode s ! m_jitIp s) s"
  shows "(\<forall>s'. step E ops s = Ok s' \<longrightarrow> vinv s' {#}) \<and> step E ops s \<noteq> Undefined UB_Heap"
proof -
  have "ready s" using assms by (simp add: ready_def instr_pre_def)
  from exec_safe [OF this assms(2), of E] show ?thesis
    by (auto simp: step_def good_def panic_def split: outcome.splits)
qed

lemma vinv_no_dangling:
  assumes "vinv s {#}"
  shows "graph_ok (m_heap s) (roots s) {}"
  using assms ok_graph by (auto simp: vinv_def)

end

section \<open>Reachable states\<close>

text \<open>The states of a run, as long as every instruction finds its precondition.\<close>

inductive guarded_reach :: "'w env \<Rightarrow> 'g gc_backend \<Rightarrow> ('g, 'w) vm \<Rightarrow> ('g, 'w) vm \<Rightarrow> bool"
  for E :: "'w env" and B :: "'g gc_backend" and s0 :: "('g, 'w) vm" where
  start: "guarded_reach E B s0 s0"
| step: "guarded_reach E B s0 s \<Longrightarrow> running s \<Longrightarrow> instr_pre (m_jitCode s ! m_jitIp s) s
     \<Longrightarrow> step E B s = Ok s' \<Longrightarrow> guarded_reach E B s0 s'"

context gc_contract
begin

lemma reach_vinv: "guarded_reach E ops s0 s \<Longrightarrow> vinv s0 {#} \<Longrightarrow> vinv s {#}"
proof (induction rule: guarded_reach.induct)
  case (step s s')
  then show ?case using step_safe by blast
qed

lemma reach_safe:
  assumes "guarded_reach E ops s0 s" and "vinv s0 {#}"
  shows "ok (m_heap s) (m_gc s) (roots s) {}
    \<and> (instr_pre (m_jitCode s ! m_jitIp s) s \<longrightarrow> step E ops s \<noteq> Undefined UB_Heap)"
proof -
  have v: "vinv s {#}" by (rule reach_vinv [OF assms])
  then have "ok (m_heap s) (m_gc s) (roots s) {}" by (simp add: vinv_def)
  with step_safe [OF v] show ?thesis by blast
qed

end

definition vm_start :: "chunk \<Rightarrow> 'g \<Rightarrow> string \<Rightarrow> 'w \<Rightarrow> ('g, 'w) vm" where
  "vm_start c g inp w = snd (tryBuildJit (VM_init c Heap_init g inp w))"

lemma handles_zero: "handles (replicate n (0, 0)) = {#}"
  by (simp add: handles_def tag_defs)

lemma vm_start_shape:
  "vshape (vm_start c g inp w)" "roots (vm_start c g inp w) = {#}" "spill_count (vm_start c g inp w) = 0"
  "m_heap (vm_start c g inp w) = Heap_init" "m_gc (vm_start c g inp w) = g"
  by (auto simp: vm_start_def tryBuildJit_def VM_init_def vshape_def roots_def spill_count_def handles_zero
      split: sum.split)

lemma in_refs_init: "in_refs Heap_init i = {}"
  by (simp add: in_refs_def ref_at_dead [OF Heap_init_ok])

lemma arc_start_ok: "arcb.vinv (vm_start c (arc_attach Heap_init) inp w) {#}"
proof -
  have "rc_ok Heap_init (arc_rc (arc_attach Heap_init)) {#} {}"
    by (simp add: rc_ok_def Heap_init_ok in_refs_init arc_attach_def rc_at_def)
  then show ?thesis by (simp add: arcb.vinv_def vm_start_shape)
qed

lemma nogc_start_ok: "nogc.vinv (vm_start c zero_metrics inp w) {#}"
proof -
  have "graph_ok Heap_init {#} {}"
    by (simp add: graph_ok_def Heap_init_ok ref_at_dead [OF Heap_init_ok])
  then show ?thesis by (simp add: nogc.vinv_def vm_start_shape)
qed

lemma graph_ok_no_dangling:
  assumes "graph_ok (m_heap s) (roots s) {}" and "vshape s"
  shows "(\<forall>r < NREGS. m_rtag s ! r = TAG_HEAP \<longrightarrow> valid (m_heap s) (i64_to_u32 (m_regs s ! r)))
    \<and> (\<forall>g < NGLOBALS. m_globalTags s ! g = TAG_HEAP \<longrightarrow> valid (m_heap s) (i64_to_u32 (m_globals s ! g)))
    \<and> (\<forall>p i. ref_at (m_heap s) p = Some i \<longrightarrow> valid (m_heap s) i)"
  using assms reg_root [OF assms(2)] global_root [OF assms(2)] by (simp add: graph_ok_def)

text \<open>A program of two instructions: allocate two cells into register 16, halt.\<close>

definition alloc_program :: "(opcode \<times> operand list) list" where
  "alloc_program =
     [(OpAlloc, [\<lparr>op_tag = TImm64, op_intVal = 3, op_strIdx = 0\<rparr>,
                 \<lparr>op_tag = TImm64, op_intVal = 18, op_strIdx = 0\<rparr>,
                 \<lparr>op_tag = TReg, op_intVal = 16, op_strIdx = 0\<rparr>]),
      (OpHalt, [])]"

definition alloc_chunk :: chunk where
  "alloc_chunk = fold emit_instr alloc_program empty_chunk"

lemma decode_alloc_chunk: "decodeBytecode alloc_chunk = Inr (located 0 alloc_program)"
proof -
  have "list_all wf_instr alloc_program"
    by (simp add: alloc_program_def wf_instr_def operandCountFor_def in_i64_def)
  from decode_instrs [OF this, of "[]"] show ?thesis
    by (simp add: alloc_chunk_def decodeBytecode_def code_fold_emit_instr empty_chunk_def)
qed

lemma alloc_start_fields:
  "m_jitCode (vm_start alloc_chunk g inp w) = located 0 alloc_program"
  "m_jitIp (vm_start alloc_chunk g inp w) = 0" "m_halted (vm_start alloc_chunk g inp w) = False"
  "m_regs (vm_start alloc_chunk g inp w) = replicate NREGS 0"
  "m_rtag (vm_start alloc_chunk g inp w) = replicate NREGS 0"
  by (simp_all add: vm_start_def tryBuildJit_def VM_init_def decode_alloc_chunk)

lemma alloc_instr_pre: "instr_pre (located 0 alloc_program ! 0) (vm_start alloc_chunk g inp w)"
  by (simp add: instr_pre_def alloc_program_def vm_start_shape readIntOperand_def alloc_room_def Heap_init_def
      cells_for_def SLOT_SIZE_def u32_cast_def i64_to_u32_def)

lemma alloc_running: "running (vm_start alloc_chunk g inp w)"
  by (simp add: running_def alloc_start_fields alloc_program_def)

lemma alloc_first_pre:
  "instr_pre (m_jitCode (vm_start alloc_chunk g inp w) ! m_jitIp (vm_start alloc_chunk g inp w))
     (vm_start alloc_chunk g inp w)"
  using alloc_instr_pre by (simp add: alloc_start_fields)

lemma alloc_step:
  assumes "gc_onAlloc B 1 (one_object, g) = GOk (one_object, g1)"
    and "gc_rootAdd B 1 (one_object, g1) = GOk (one_object, g2)"
  shows "\<exists>s'. step E B (vm_start alloc_chunk g inp w) = Ok s'
    \<and> m_regs s' ! 16 = 1 \<and> m_rtag s' ! 16 = TAG_HEAP \<and> m_heap s' = one_object \<and> m_gc s' = g2"
proof -
  let ?s = "vm_start alloc_chunk g inp w"
  have a: "alloc 18 3 Heap_init = (1, one_object)"
    by (simp add: one_object_def alloc_def take_payload_def take_handle_def
        Heap_init_def cells_for_def SLOT_SIZE_def u32_cast_def free_list_def SMALL_CLASSES_def)
  have r: "reg_of \<lparr>op_tag = TReg, op_intVal = 16, op_strIdx = 0\<rparr> = 16" by (simp add: reg_of_def i64_to_u16_def)
  have u: "i64_to_u32 18 = 18" "i64_to_u32 3 = 3" "i64_to_u32 1 = 1" by (simp_all add: i64_to_u32_def)
  have "alloc_into B 18 3 16 ?s = Ok (?s\<lparr>m_heap := one_object, m_gc := g2,
      m_regs := (m_regs ?s)[16 := 1], m_rtag := (m_rtag ?s)[16 := TAG_HEAP]\<rparr>)"
    using assms a u
    by (simp add: alloc_into_def vm_start_shape INVALID_def gc_call_def obind_def setReg_def NREGS_def owhen_def
        alloc_start_fields tag_defs)
  then have "step E B ?s = Ok (?s\<lparr>m_heap := one_object, m_gc := g2, m_regs := (m_regs ?s)[16 := 1],
      m_rtag := (m_rtag ?s)[16 := TAG_HEAP], m_jitIp := 1\<rparr>)"
    using r u
    by (simp add: step_def alloc_start_fields alloc_program_def execJitInstruction_def exec_Alloc_def
        readIntOperand_def obind_def next_ip_def)
  then show ?thesis by (simp add: alloc_start_fields NREGS_def)
qed

text \<open>
  Property C1 (safety).  In every state that a guarded run reaches under the reference-counting backend,
  each count equals the number of registers, globals, spilled registers, frame slots and heap cells
  that hold the handle; no register, global or cell holds a dangling handle; and the next
  instruction, when it satisfies the guard too, does not leave the arena.  A guarded run
  is one that executes only instructions that satisfy \<open>instr_pre\<close>: an allocation finds room in the arena for
  one more object and for the one it allocates, with a size that does not wrap in 32 bits
  (\<open>size + 8 < 2^32\<close>), a heap access has a byte offset that is a multiple of the cell size, and fewer
  than \<open>2^31 - 10000\<close> registers are spilled.  The code checks neither the offset nor the wrap, and without the guard the
  property fails: \<open>misaligned_store_forges\<close> of \<open>Lx_VMValues\<close> makes a handle out of an integer, and \<open>alloc_size_wraps\<close> of
  \<open>Lx_Heap\<close> lets a store leave the arena.
\<close>

theorem vm_arc_safe:
  assumes "guarded_reach E ArcBackend (vm_start c (arc_attach Heap_init) inp w) s"
  shows "rc_ok (m_heap s) (arc_rc (m_gc s)) (roots s) {}
    \<and> (\<forall>r < NREGS. m_rtag s ! r = TAG_HEAP \<longrightarrow> valid (m_heap s) (i64_to_u32 (m_regs s ! r)))
    \<and> (\<forall>g < NGLOBALS. m_globalTags s ! g = TAG_HEAP \<longrightarrow> valid (m_heap s) (i64_to_u32 (m_globals s ! g)))
    \<and> (\<forall>p i. ref_at (m_heap s) p = Some i \<longrightarrow> valid (m_heap s) i)
    \<and> (instr_pre (m_jitCode s ! m_jitIp s) s \<longrightarrow> step E ArcBackend s \<noteq> Undefined UB_Heap)"
proof -
  have "vshape s" using arcb.reach_vinv [OF assms arc_start_ok] by (simp add: arcb.vinv_def)
  with arcb.reach_safe [OF assms arc_start_ok] show ?thesis
    using graph_ok_no_dangling [OF rc_ok_graph] by blast
qed

theorem vm_arc_safe_witness:
  "\<forall>E :: unit env. \<exists>s :: (arc, unit) vm. guarded_reach E ArcBackend (vm_start alloc_chunk (arc_attach Heap_init) [] ()) s
     \<and> m_rtag s ! 16 = TAG_HEAP \<and> valid (m_heap s) (i64_to_u32 (m_regs s ! 16))"
  (is "\<forall>E. ?P E")
proof
  fix E :: "unit env"
  let ?s = "vm_start alloc_chunk (arc_attach Heap_init) [] ()"
  obtain g1 g2 where g: "gc_onAlloc ArcBackend 1 (one_object, arc_attach Heap_init) = GOk (one_object, g1)"
      "gc_rootAdd ArcBackend 1 (one_object, g1) = GOk (one_object, g2)"
    by (simp add: ArcBackend_def arc_onAlloc_def arc_rootAdd_def arc_retain_def arc_attach_def arc_grow_def
        vec_resize_def Heap_init_def u32_cast_def Let_def)
  from alloc_step [OF g, of E "[]" "()"] obtain s :: "(arc, unit) vm"
    where s: "step E ArcBackend ?s = Ok s" "m_rtag s ! 16 = TAG_HEAP" by blast
  have "guarded_reach E ArcBackend ?s s"
    by (rule guarded_reach.step [OF guarded_reach.start _ _ s(1)])
       (simp_all only: alloc_running alloc_first_pre)
  from this vm_arc_safe [OF this] s(2) show "?P E" by (auto simp: NREGS_def)
qed

text \<open>
  Property C23 (safety).  The same holds of guarded runs under the backend that never reclaims: no
  register, global or cell holds a dangling handle, and the next instruction, when it satisfies the
  guard \<open>instr_pre\<close> too, does not leave the arena.  A guarded run
  is one that executes only instructions that satisfy \<open>instr_pre\<close>: an allocation finds room in the arena for
  one more object and for the one it allocates, with a size that does not wrap in 32 bits
  (\<open>size + 8 < 2^32\<close>), a heap access has a byte offset that is a multiple of the cell size, and fewer
  than \<open>2^31 - 10000\<close> registers are spilled.
\<close>

theorem vm_nogc_safe:
  assumes "guarded_reach E NoGCBackend (vm_start c zero_metrics inp w) s"
  shows "(\<forall>r < NREGS. m_rtag s ! r = TAG_HEAP \<longrightarrow> valid (m_heap s) (i64_to_u32 (m_regs s ! r)))
    \<and> (\<forall>g < NGLOBALS. m_globalTags s ! g = TAG_HEAP \<longrightarrow> valid (m_heap s) (i64_to_u32 (m_globals s ! g)))
    \<and> (\<forall>p i. ref_at (m_heap s) p = Some i \<longrightarrow> valid (m_heap s) i)
    \<and> (instr_pre (m_jitCode s ! m_jitIp s) s \<longrightarrow> step E NoGCBackend s \<noteq> Undefined UB_Heap)"
proof -
  have "vshape s" using nogc.reach_vinv [OF assms nogc_start_ok] by (simp add: nogc.vinv_def)
  with nogc.reach_safe [OF assms nogc_start_ok] show ?thesis
    using graph_ok_no_dangling by blast
qed

theorem vm_nogc_safe_witness:
  "\<forall>E :: unit env. \<exists>s :: (gc_metrics, unit) vm. guarded_reach E NoGCBackend (vm_start alloc_chunk zero_metrics [] ()) s
     \<and> m_rtag s ! 16 = TAG_HEAP \<and> valid (m_heap s) (i64_to_u32 (m_regs s ! 16))"
  (is "\<forall>E. ?P E")
proof
  fix E :: "unit env"
  let ?s = "vm_start alloc_chunk zero_metrics [] ()"
  obtain g1 g2 where g: "gc_onAlloc NoGCBackend 1 (one_object, zero_metrics) = GOk (one_object, g1)"
      "gc_rootAdd NoGCBackend 1 (one_object, g1) = GOk (one_object, g2)"
    by (simp add: nogc_defs)
  from alloc_step [OF g, of E "[]" "()"] obtain s :: "(gc_metrics, unit) vm"
    where s: "step E NoGCBackend ?s = Ok s" "m_rtag s ! 16 = TAG_HEAP" by blast
  have "guarded_reach E NoGCBackend ?s s"
    by (rule guarded_reach.step [OF guarded_reach.start _ _ s(1)])
       (simp_all only: alloc_running alloc_first_pre)
  from this vm_nogc_safe [OF this] s(2) show "?P E" by (auto simp: NREGS_def)
qed

end
