(* ===== verification/Lx_VMControl.thy ===== *)
theory Lx_VMControl
  imports Lx_VMSafety
begin

text \<open>
  Functional correctness of the VM's control transfers, over every backend: what a call and its
  return leave in the register file, where a thrown value lands, what teardown leaves in the root
  set, and how the dispatch loop accounts for its instruction budget.
\<close>

section \<open>Results of the internal operations\<close>

named_theorems vm_result \<open>what a VM operation leaves behind when it returns\<close>

lemma obind_Ok: "obind m f = Ok x \<longleftrightarrow> (\<exists>y. m = Ok y \<and> f y = Ok x)"
  by (cases m) (auto simp: obind_def)

lemma obind_simps [simp]:
  "obind (Ok x) f = f x" "obind (Unwind s) f = Unwind s" "obind (HeapError e) f = HeapError e"
  "obind (Panic e) f = Panic e" "obind (Uncaught e) f = Uncaught e" "obind (Undefined u) f = Undefined u"
  by (simp_all add: obind_def)

lemma obind_panic [simp]: "obind (panic s e) f = panic s e"
  by (simp add: panic_def)

lemma panic_not_Ok [simp]: "panic s e \<noteq> Ok x"
  by (simp add: panic_def)

lemma gc_call_result: "gc_call f s = Ok s' \<Longrightarrow> same_heap s s'"
  by (auto simp: gc_call_def split: gres.splits)

lemma owhen_result: "owhen c (gc_call f) s = Ok s' \<Longrightarrow> same_heap s s'"
  by (auto simp: owhen_def dest: gc_call_result split: if_splits)

lemma setReg_result:
  assumes "vshape s" and "setReg B r v t s = Ok s'"
  shows "reg_written r v t s s'"
proof (cases "m_rtag s ! r = TAG_HEAP \<and> t = TAG_HEAP \<and> m_regs s ! r = v")
  case True
  with assms(2) have r: "r < NREGS" "s' = s" by (auto simp: setReg_def Let_def split: if_splits)
  from True have "(m_regs s)[r := v] = m_regs s" "(m_rtag s)[r := t] = m_rtag s"
    by (metis list_update_id)+
  then have "s\<lparr>m_regs := (m_regs s)[r := v], m_rtag := (m_rtag s)[r := t]\<rparr> = s" by simp
  with r show ?thesis by (simp add: reg_written_def)
next
  case False
  then have r: "r < NREGS" and "\<exists>s1. owhen (t = TAG_HEAP) (gc_call (gc_rootAdd B (i64_to_u32 v))) s = Ok s1
      \<and> owhen (m_rtag s ! r = TAG_HEAP) (gc_call (gc_rootRemove B (i64_to_u32 (m_regs s ! r))))
          (s1\<lparr>m_regs := (m_regs s1)[r := v], m_rtag := (m_rtag s1)[r := t]\<rparr>) = Ok s'"
    using assms(2) by (auto simp: setReg_def Let_def obind_Ok split: if_splits)
  then obtain s1 where s1: "same_heap s s1"
    "same_heap (s1\<lparr>m_regs := (m_regs s1)[r := v], m_rtag := (m_rtag s1)[r := t]\<rparr>) s'"
    using owhen_result by meson
  then have "same_heap (s\<lparr>m_regs := (m_regs s)[r := v], m_rtag := (m_rtag s)[r := t]\<rparr>) s'"
    using same_heap_trans [OF same_heap_setReg [OF s1(1)]] same_heap_fields [OF s1(1)] by metis
  with r show ?thesis by (simp add: reg_written_def)
qed

lemma reg_written_fields:
  assumes "vshape s" and "reg_written r v t s s'"
  shows "vshape s'" "r < NREGS" "m_regs s' = (m_regs s)[r := v]" "m_rtag s' = (m_rtag s)[r := t]"
  using assms by (auto simp: reg_written_def same_heap_def vshape_def)

text \<open>
  \<open>regs_to s f s'\<close>: the two states agree outside the register file, the heap and the backend, and
  register \<open>r\<close> of \<open>s'\<close> holds \<open>f r\<close>.
\<close>

definition reg_val :: "('g, 'w) vm \<Rightarrow> nat \<Rightarrow> int \<times> u8" where
  "reg_val s r = (m_regs s ! r, m_rtag s ! r)"

definition regs_to :: "('g, 'w) vm \<Rightarrow> (nat \<Rightarrow> int \<times> u8) \<Rightarrow> ('g, 'w) vm \<Rightarrow> bool" where
  "regs_to s f s' \<longleftrightarrow> vshape s' \<and> same_regs s s' \<and> (\<forall>r < NREGS. reg_val s' r = f r)"

lemma regs_to_refl [simp]: "vshape s \<Longrightarrow> regs_to s (reg_val s) s"
  by (simp add: regs_to_def)

lemma regs_to_setReg:
  assumes "vshape s" and "setReg B r v t s = Ok s'"
  shows "regs_to s ((reg_val s)(r := (v, t))) s'"
proof -
  note w = setReg_result [OF assms]
  from reg_written_fields [OF assms(1) w] reg_written_same [OF w] assms(1) show ?thesis
    by (auto simp: regs_to_def reg_val_def vshape_def nth_list_update)
qed

lemma regs_to_cong: "regs_to s f s' \<Longrightarrow> (\<And>r. r < NREGS \<Longrightarrow> f r = g r) \<Longrightarrow> regs_to s g s'"
  by (simp add: regs_to_def)

lemma regs_to_trans:
  assumes "regs_to s f s'" and "regs_to s' g s''"
  shows "regs_to s g s''"
  using assms same_regs_trans by (auto simp: regs_to_def)

lemma regs_to_heap:
  assumes "regs_to s f s'" and "same_heap s' s''"
  shows "regs_to s f s''"
  using assms same_regs_trans [OF _ same_heap_regs] same_heap_fields [OF assms(2)]
  by (auto simp: regs_to_def reg_val_def)

lemma clear_result:
  assumes "vshape s" and "ofold (\<lambda>r. setReg B r 0 TAG_INT) rs s = Ok s'"
  shows "regs_to s (\<lambda>r. if r \<in> set rs then (0, TAG_INT) else reg_val s r) s'"
  using assms
proof (induction rs arbitrary: s)
  case (Cons x rs)
  then obtain s1 where s1: "setReg B x 0 TAG_INT s = Ok s1" "ofold (\<lambda>r. setReg B r 0 TAG_INT) rs s1 = Ok s'"
    by (auto simp: obind_Ok)
  have t: "regs_to s ((reg_val s)(x := (0, TAG_INT))) s1" by (rule regs_to_setReg [OF Cons.prems(1) s1(1)])
  then have "vshape s1" by (simp add: regs_to_def)
  from regs_to_trans [OF t Cons.IH [OF this s1(2)]] show ?case
    using t by (elim regs_to_cong) (auto simp: regs_to_def)
qed simp

lemma restore_saved_result:
  assumes "vshape s" and "restore_saved B sr s = Ok s'"
  shows "regs_to s ((reg_val s)(sr_reg sr := (sr_value sr, sr_tag sr))) s'"
proof -
  from assms(2) obtain s1 where s1: "setReg B (sr_reg sr) (sr_value sr) (sr_tag sr) s = Ok s1"
    "drop_saved B sr s1 = Ok s'"
    by (auto simp: restore_saved_def obind_Ok)
  from s1(2) have "same_heap s1 s'" unfolding drop_saved_def by (rule owhen_result)
  with regs_to_setReg [OF assms(1) s1(1)] show ?thesis by (rule regs_to_heap)
qed

text \<open>Restoring a list of saved registers with distinct numbers.\<close>

definition saved_lookup :: "saved_register list \<Rightarrow> nat \<Rightarrow> (int \<times> u8) option" where
  "saved_lookup srs = map_of (map (\<lambda>sr. (sr_reg sr, (sr_value sr, sr_tag sr))) srs)"

lemma restore_all_result:
  assumes "vshape s" and "distinct (map sr_reg srs)" and "ofold (restore_saved B) srs s = Ok s'"
  shows "regs_to s (\<lambda>r. case saved_lookup srs r of Some p \<Rightarrow> p | None \<Rightarrow> reg_val s r) s'"
  using assms
proof (induction srs arbitrary: s)
  case Nil
  then show ?case by (simp add: saved_lookup_def)
next
  case (Cons x srs)
  then obtain s1 where s1: "restore_saved B x s = Ok s1" "ofold (restore_saved B) srs s1 = Ok s'"
    by (auto simp: obind_Ok)
  have t: "regs_to s ((reg_val s)(sr_reg x := (sr_value x, sr_tag x))) s1"
    by (rule restore_saved_result [OF Cons.prems(1) s1(1)])
  then have v: "vshape s1" by (simp add: regs_to_def)
  have n: "saved_lookup srs (sr_reg x) = None"
    using Cons.prems(2) by (auto simp: saved_lookup_def map_of_eq_None_iff)
  have "regs_to s1 (\<lambda>r. case saved_lookup srs r of Some p \<Rightarrow> p | None \<Rightarrow> reg_val s1 r) s'"
    using Cons.IH [OF v] Cons.prems(2) s1(2) by simp
  from regs_to_trans [OF t this] show ?case
    using t n by (elim regs_to_cong) (auto simp: regs_to_def saved_lookup_def split: option.split)
qed

section \<open>Calls and returns\<close>

lemma save_fold_result:
  "ofold (\<lambda>r s. owhen (m_rtag s ! r = TAG_HEAP) (gc_call (gc_rootAdd B (i64_to_u32 (m_regs s ! r)))) s) rs s = Ok s'
   \<Longrightarrow> same_heap s s'"
proof (induction rs arbitrary: s)
  case (Cons x rs)
  then show ?case by (auto simp: obind_Ok dest!: owhen_result intro: same_heap_trans)
qed simp

lemma cleared_sets: "set [1..<11] = {1..10 :: nat}" "set [240..<256] = {240..255 :: nat}"
  by (simp_all only: set_upt) auto

lemma pushCallFrame_result:
  assumes "pushCallFrame B ret cip s = Ok s'"
  shows "max_local s cip < NREGS
    \<and> same_heap (s\<lparr>m_callStack := \<lparr>cf_returnIp = ret, cf_callIp = cip,
         cf_locals = map (save_reg s) (saved_regs (max_local s cip))\<rparr> # m_callStack s\<rparr>) s'"
proof -
  let ?f = "\<lparr>cf_returnIp = ret, cf_callIp = cip, cf_locals = map (save_reg s) (saved_regs (max_local s cip))\<rparr>"
  from assms obtain s1 where s1: "same_heap s s1" "s' = s1\<lparr>m_callStack := ?f # m_callStack s1\<rparr>"
      "max_local s cip < NREGS"
    by (auto simp: pushCallFrame_def Let_def obind_Ok dest: save_fold_result split: if_splits)
  then obtain h g where "s1 = s\<lparr>m_heap := h, m_gc := g\<rparr>" by (auto simp: same_heap_def)
  with s1 show ?thesis by (auto intro!: same_heapI [where h = h and g = g])
qed

lemma restoreCallFrame_result:
  assumes "vshape s" and "m_callStack s = f # fs" and "distinct (map sr_reg (cf_locals f))"
    and "restoreCallFrame B s = Ok s'"
  shows "regs_to (s\<lparr>m_callStack := fs\<rparr>)
    (\<lambda>r. case saved_lookup (cf_locals f) r of
           Some p \<Rightarrow> p
         | None \<Rightarrow> if r \<in> {1..10} \<union> {240..255} then (0, TAG_INT) else reg_val s r) s'"
proof -
  let ?s = "s\<lparr>m_callStack := fs\<rparr>"
  have v: "vshape ?s" using assms(1) by (simp add: vshape_def)
  from assms(2,4) obtain s1 s2 where
      s1: "ofold (\<lambda>r. setReg B r 0 TAG_INT) [1..<11] ?s = Ok s1"
    and s2: "ofold (\<lambda>r. setReg B r 0 TAG_INT) [240..<256] s1 = Ok s2"
    and s3: "ofold (restore_saved B) (cf_locals f) s2 = Ok s'"
    by (auto simp: restoreCallFrame_def obind_Ok)
  note t1 = clear_result [OF v s1, unfolded cleared_sets]
  then have v1: "vshape s1" by (simp add: regs_to_def)
  note t2 = clear_result [OF v1 s2, unfolded cleared_sets]
  then have v2: "vshape s2" by (simp add: regs_to_def)
  note t3 = restore_all_result [OF v2 assms(3) s3]
  have "reg_val ?s = reg_val s" by (simp add: reg_val_def fun_eq_iff)
  with t1 t2 regs_to_trans [OF t1 regs_to_trans [OF t2 t3]] show ?thesis
    by (elim regs_to_cong) (auto simp: regs_to_def split: option.split)
qed

lemma saved_regs_distinct: "distinct (map sr_reg (map (save_reg s) (saved_regs n)))"
  by (simp add: saved_regs_def save_reg_def comp_def)

lemma set_saved_regs: "set (saved_regs n) = {16..n} - {240..255}"
  by (auto simp: saved_regs_def)

lemma saved_lookup_frame:
  "saved_lookup (map (save_reg s) rs) r = (if r \<in> set rs then Some (reg_val s r) else None)"
  by (induction rs) (auto simp: saved_lookup_def save_reg_def reg_val_def)

text \<open>
  Property C10 (functional).  A call followed by the matching return gives the caller its local registers
  back, whatever the callee did to them: the registers from 16 to the function's highest local,
  without the argument window, have the values and tags of the call; the scratch registers 1 to
  10 and the argument window 240 to 255 are integer zero; all others, register 0 with the result
  included, are as the callee left them.
\<close>

theorem call_return_roundtrip:
  assumes "vshape s" and "pushCallFrame B ret cip s = Ok s1"
    and "vshape s2" and "m_callStack s2 = m_callStack s1" and "restoreCallFrame B s2 = Ok s3"
  shows "m_callStack s3 = m_callStack s
    \<and> (\<forall>r < NREGS. reg_val s3 r =
         (if r \<in> {16..max_local s cip} - {240..255} then reg_val s r
          else if r \<in> {1..10} \<union> {240..255} then (0, TAG_INT)
          else reg_val s2 r))"
proof -
  let ?f = "\<lparr>cf_returnIp = ret, cf_callIp = cip, cf_locals = map (save_reg s) (saved_regs (max_local s cip))\<rparr>"
  have "m_callStack s1 = ?f # m_callStack s"
    using pushCallFrame_result [OF assms(2)] by (auto simp: same_heap_def)
  with assms(4) have c: "m_callStack s2 = ?f # m_callStack s" by simp
  have "regs_to (s2\<lparr>m_callStack := m_callStack s\<rparr>)
    (\<lambda>r. case saved_lookup (cf_locals ?f) r of
           Some p \<Rightarrow> p
         | None \<Rightarrow> if r \<in> {1..10} \<union> {240..255} then (0, TAG_INT) else reg_val s2 r) s3"
    by (rule restoreCallFrame_result [OF assms(3) c _ assms(5)]) (use saved_regs_distinct in simp)
  then show ?thesis
    by (auto simp: regs_to_def saved_lookup_frame set_saved_regs dest: same_regs_fields)
qed

text \<open>Operations over the backend that never reclaims always return.\<close>

lemma nogc_call_Ok:
  "\<exists>s'. gc_call (gc_rootAdd NoGCBackend i) s = Ok s'" "\<exists>s'. gc_call (gc_rootRemove NoGCBackend i) s = Ok s'"
  by (cases "m_gc s", simp_all add: gc_call_def nogc_defs)

lemma nogc_setReg_Ok: "r < NREGS \<Longrightarrow> \<exists>s'. setReg NoGCBackend r v t s = Ok s'"
  using nogc_call_Ok(1) [of "i64_to_u32 v" s] nogc_call_Ok(2) by (auto simp: setReg_def Let_def owhen_def)

lemma nogc_restore_Ok: "sr_reg sr < NREGS \<Longrightarrow> \<exists>s'. restore_saved NoGCBackend sr s = Ok s'"
  using nogc_setReg_Ok [of "sr_reg sr" "sr_value sr" "sr_tag sr" s] nogc_call_Ok
  by (auto simp: restore_saved_def drop_saved_def owhen_def)

lemma ofold_Ok: "(\<And>x s. x \<in> set xs \<Longrightarrow> \<exists>s'. f x s = Ok s') \<Longrightarrow> \<exists>s'. ofold f xs s = Ok s'"
proof (induction xs arbitrary: s)
  case (Cons x xs)
  from Cons.prems [of x s] obtain s1 where "f x s = Ok s1" by auto
  with Cons.IH [of s1] Cons.prems show ?case by auto
qed simp

lemma nogc_restoreCallFrame_Ok:
  assumes "m_callStack s = f # fs" and "list_all (\<lambda>sr. sr_reg sr < NREGS) (cf_locals f)"
  shows "\<exists>s'. restoreCallFrame NoGCBackend s = Ok s'"
proof -
  have clear: "\<exists>s'. ofold (\<lambda>r. setReg NoGCBackend r 0 TAG_INT) rs t = Ok s'"
    if "set rs \<subseteq> {0..<NREGS}" for rs t
    using that by (intro ofold_Ok nogc_setReg_Ok) auto
  have sub: "set [1..<11] \<subseteq> {0..<NREGS}" "set [240..<256] \<subseteq> {0..<NREGS}"
    unfolding cleared_sets by (auto simp: NREGS_def)
  obtain s1 where "ofold (\<lambda>r. setReg NoGCBackend r 0 TAG_INT) [1..<11] (s\<lparr>m_callStack := fs\<rparr>) = Ok s1"
    using clear [OF sub(1)] by blast
  moreover obtain s2 where "ofold (\<lambda>r. setReg NoGCBackend r 0 TAG_INT) [240..<256] s1 = Ok s2"
    using clear [OF sub(2)] by blast
  moreover have "\<exists>s'. ofold (restore_saved NoGCBackend) (cf_locals f) s2 = Ok s'"
    using assms(2) by (intro ofold_Ok nogc_restore_Ok) (simp add: list_all_iff)
  ultimately show ?thesis using assms(1)
    by (simp add: restoreCallFrame_def del: upt_rec_numeral upt_Suc ofold.simps)
qed

definition caller_state :: "(gc_metrics, unit) vm" where
  "caller_state = (VM_init (empty_chunk\<lparr>ch_funs := [\<lparr>fi_name = ''f'', fi_start = 0, fi_end = 10,
       fi_maxLocalRegister = 16\<rparr>]\<rparr>) Heap_init zero_metrics [] ())
     \<lparr>m_regs := (replicate NREGS 0)[16 := 7],
      m_jitCode := [\<lparr>in_op = OpNop, in_byteOffset = 0, in_operands = []\<rparr>]\<rparr>"

lemma caller_max: "max_local caller_state 0 = 16"
  by (simp add: max_local_def caller_state_def VM_init_def function_at_def)

lemma caller_shape: "vshape caller_state" "reg_val caller_state 16 = (7, TAG_INT)"
  by (simp_all add: caller_state_def VM_init_def vshape_def reg_val_def NREGS_def NGLOBALS_def tag_defs)

lemma caller_push: "\<exists>s1. pushCallFrame NoGCBackend 1 0 caller_state = Ok s1"
proof -
  have "m_rtag caller_state ! 16 \<noteq> TAG_HEAP" using caller_shape(2) by (simp add: reg_val_def)
  then show ?thesis
    by (simp add: pushCallFrame_def caller_max NREGS_def Let_def saved_regs_def owhen_def)
qed

theorem call_return_roundtrip_witness:
  "\<exists>s1 s3. pushCallFrame NoGCBackend 1 0 caller_state = Ok s1
     \<and> restoreCallFrame NoGCBackend (s1\<lparr>m_regs := (m_regs s1)[16 := 99, 0 := 5]\<rparr>) = Ok s3
     \<and> m_callStack s3 = [] \<and> reg_val s3 16 = (7, TAG_INT) \<and> fst (reg_val s3 0) = 5"
proof -
  obtain s1 where p: "pushCallFrame NoGCBackend 1 0 caller_state = Ok s1" using caller_push by blast
  let ?s2 = "s1\<lparr>m_regs := (m_regs s1)[16 := 99, 0 := 5]\<rparr>"
  have e: "m_callStack caller_state = []" by (simp add: caller_state_def VM_init_def)
  from pushCallFrame_result [OF p] have c: "m_callStack s1 = [\<lparr>cf_returnIp = 1, cf_callIp = 0,
      cf_locals = [save_reg caller_state 16]\<rparr>]"
    by (auto simp: same_heap_def caller_max saved_regs_def e)
  from pushCallFrame_result [OF p] caller_shape(1) have v: "vshape s1"
    by (auto simp: same_heap_def vshape_def)
  have v2: "vshape ?s2" using v by (simp add: vshape_def)
  obtain s3 where r: "restoreCallFrame NoGCBackend ?s2 = Ok s3"
    using nogc_restoreCallFrame_Ok [of ?s2] c by (auto simp: save_reg_def NREGS_def)
  have f: "m_callStack ?s2 = m_callStack s1" by simp
  note t = call_return_roundtrip [OF caller_shape(1) p v2 f r]
  note e
  moreover from t have "reg_val s3 16 = (7, TAG_INT)" "reg_val s3 0 = reg_val ?s2 0"
    using caller_shape(2) by (simp_all add: caller_max NREGS_def)
  moreover have "fst (reg_val ?s2 0) = 5" using v by (simp add: reg_val_def vshape_def NREGS_def)
  ultimately show ?thesis using t p r by (intro exI [of _ s1] exI [of _ s3]) simp
qed

section \<open>Throwing\<close>

definition frames_ok :: "call_frame list \<Rightarrow> bool" where
  "frames_ok fs \<longleftrightarrow> list_all (\<lambda>f. distinct (map sr_reg (cf_locals f))) fs"

lemma same_regs_stacks:
  assumes "same_regs s s'"
  shows "same_regs (s\<lparr>m_callStack := c\<rparr>) (s'\<lparr>m_callStack := c\<rparr>)"
    and "same_regs (s\<lparr>m_dataStack := d\<rparr>) (s'\<lparr>m_dataStack := d\<rparr>)"
proof -
  from assms obtain rs ts h g where e: "s' = s\<lparr>m_regs := rs, m_rtag := ts, m_heap := h, m_gc := g\<rparr>"
    by (auto simp: same_regs_def)
  from e have "s'\<lparr>m_callStack := c\<rparr> =
      s\<lparr>m_callStack := c\<rparr>\<lparr>m_regs := rs, m_rtag := ts, m_heap := h, m_gc := g\<rparr>" by simp
  then show "same_regs (s\<lparr>m_callStack := c\<rparr>) (s'\<lparr>m_callStack := c\<rparr>)" unfolding same_regs_def by blast
  from e have "s'\<lparr>m_dataStack := d\<rparr> =
      s\<lparr>m_dataStack := d\<rparr>\<lparr>m_regs := rs, m_rtag := ts, m_heap := h, m_gc := g\<rparr>" by simp
  then show "same_regs (s\<lparr>m_dataStack := d\<rparr>) (s'\<lparr>m_dataStack := d\<rparr>)" unfolding same_regs_def by blast
qed

lemma unwind_calls_result:
  assumes "vshape s" and "frames_ok (m_callStack s)" and "unwind_calls B n s = Ok s'" and "n \<le> length (m_callStack s)"
  shows "vshape s' \<and> same_regs (s\<lparr>m_callStack := drop n (m_callStack s)\<rparr>) s'"
  using assms
proof (induction n arbitrary: s)
  case 0
  then show ?case by simp
next
  case (Suc n)
  then obtain f fs where c: "m_callStack s = f # fs" by (cases "m_callStack s") auto
  from Suc.prems(3) obtain s1 where s1: "restoreCallFrame B s = Ok s1" "unwind_calls B n s1 = Ok s'"
    by (auto simp: obind_Ok)
  have d: "distinct (map sr_reg (cf_locals f))" using Suc.prems(2) c by (simp add: frames_ok_def)
  have t: "vshape s1" "same_regs (s\<lparr>m_callStack := fs\<rparr>) s1"
    using restoreCallFrame_result [OF Suc.prems(1) c d s1(1)] by (simp_all add: regs_to_def)
  then have c1: "m_callStack s1 = fs" using same_regs_fields by fastforce
  have "vshape s' \<and> same_regs (s1\<lparr>m_callStack := drop n fs\<rparr>) s'"
    using Suc.IH [OF t(1) _ s1(2)] Suc.prems(2,4) c c1 by (simp add: frames_ok_def)
  moreover have "same_regs (s\<lparr>m_callStack := drop n fs\<rparr>) (s1\<lparr>m_callStack := drop n fs\<rparr>)"
    using same_regs_stacks(1) [OF t(2), of "drop n fs"] by simp
  ultimately show ?case using c same_regs_trans by auto
qed

lemma unwind_data_result:
  assumes "vshape s" and "unwind_data B n s = Ok s'"
  shows "vshape s' \<and> same_regs (s\<lparr>m_dataStack := drop n (m_dataStack s)\<rparr>) s'"
  using assms
proof (induction n arbitrary: s)
  case (Suc n)
  show ?case
  proof (cases "m_dataStack s")
    case Nil
    then have "s\<lparr>m_dataStack := []\<rparr> = s" by simp
    then have "same_regs (s\<lparr>m_dataStack := []\<rparr>) s" by (simp only: same_regs_refl)
    with Nil Suc.prems show ?thesis by simp
  next
    case (Cons sr rest)
    with Suc.prems(2) obtain s1 where s1: "restore_saved B sr (s\<lparr>m_dataStack := rest\<rparr>) = Ok s1"
      "unwind_data B n s1 = Ok s'" by (auto simp: obind_Ok)
    have v: "vshape (s\<lparr>m_dataStack := rest\<rparr>)" using Suc.prems(1) by (simp add: vshape_def)
    have t: "vshape s1" "same_regs (s\<lparr>m_dataStack := rest\<rparr>) s1"
      using restore_saved_result [OF v s1(1)] by (simp_all add: regs_to_def)
    then have d: "m_dataStack s1 = rest" using same_regs_fields by fastforce
    have "same_regs (s\<lparr>m_dataStack := drop n rest\<rparr>) (s1\<lparr>m_dataStack := drop n rest\<rparr>)"
      using same_regs_stacks(2) [OF t(2), of "drop n rest"] by simp
    with Suc.IH [OF t(1) s1(2)] d Cons show ?thesis using same_regs_trans by auto
  qed
qed simp

lemma throw_handled:
  assumes "vshape s" and "frames_ok (m_callStack s)" and "m_exceptionHandlers s = eh # rest"
    and "throwValue B v t s = Ok s'"
  shows "\<exists>s4. regs_to (s\<lparr>m_exceptionHandlers := rest,
            m_callStack := drop (length (m_callStack s) - eh_callDepth eh) (m_callStack s),
            m_dataStack := drop (length (m_dataStack s) - eh_dataDepth eh) (m_dataStack s)\<rparr>)
          (reg_val s4) s4
      \<and> eh_exceptionReg eh < NREGS \<and> reg_val s4 (eh_exceptionReg eh) = (v, t)
      \<and> s' = s4\<lparr>m_jitIp := eh_targetIp eh\<rparr>"
proof -
  let ?s0 = "s\<lparr>m_exceptionHandlers := rest\<rparr>"
  let ?c = "length (m_callStack s) - eh_callDepth eh"
  let ?d = "length (m_dataStack s) - eh_dataDepth eh"
  from assms(3,4) obtain s1 s2 s3 s4 s5 where
      s1: "owhen (t = TAG_HEAP) (gc_call (gc_rootAdd B (i64_to_u32 v))) ?s0 = Ok s1"
    and s2: "unwind_calls B (length (m_callStack s1) - eh_callDepth eh) s1 = Ok s2"
    and s3: "unwind_data B (length (m_dataStack s2) - eh_dataDepth eh) s2 = Ok s3"
    and s4: "setReg B (eh_exceptionReg eh) v t s3 = Ok s4"
    and s5: "owhen (t = TAG_HEAP) (gc_call (gc_rootRemove B (i64_to_u32 v))) s4 = Ok s5"
    and s': "s' = s5\<lparr>m_jitIp := eh_targetIp eh\<rparr>"
    by (auto simp: throwValue_def obind_Ok)
  have h1: "same_regs ?s0 s1" and v1: "vshape s1"
    using same_heap_regs [OF owhen_result [OF s1]] same_heap_fields(5) [OF owhen_result [OF s1]] assms(1)
    by (simp_all add: vshape_def)
  from h1 have c1: "m_callStack s1 = m_callStack s" "m_dataStack s1 = m_dataStack s"
    using same_regs_fields [OF h1] by simp_all
  have "vshape s2 \<and> same_regs (s1\<lparr>m_callStack := drop ?c (m_callStack s)\<rparr>) s2"
    using unwind_calls_result [OF v1 _ s2] assms(2) c1 by simp
  then have v2: "vshape s2" and r2: "same_regs (?s0\<lparr>m_callStack := drop ?c (m_callStack s)\<rparr>) s2"
    using same_regs_trans [OF same_regs_stacks(1) [OF h1]] by blast+
  then have d2: "m_dataStack s2 = m_dataStack s" using same_regs_fields(2) [OF r2] by simp
  have "vshape s3 \<and> same_regs (s2\<lparr>m_dataStack := drop ?d (m_dataStack s)\<rparr>) s3"
    using unwind_data_result [OF v2 s3] d2 by simp
  then have v3: "vshape s3"
    and r3: "same_regs (?s0\<lparr>m_callStack := drop ?c (m_callStack s), m_dataStack := drop ?d (m_dataStack s)\<rparr>) s3"
    using same_regs_trans [OF same_regs_stacks(2) [OF r2]] by blast+
  note w = regs_to_heap [OF regs_to_setReg [OF v3 s4] owhen_result [OF s5]]
  have reg: "eh_exceptionReg eh < NREGS" using reg_written_fields(2) [OF v3 setReg_result [OF v3 s4]] .
  have "same_regs (?s0\<lparr>m_callStack := drop ?c (m_callStack s), m_dataStack := drop ?d (m_dataStack s)\<rparr>) s5"
    using w same_regs_trans [OF r3] by (simp add: regs_to_def)
  with w reg s' show ?thesis by (intro exI [of _ s5]) (auto simp: regs_to_def)
qed

text \<open>
  Property C11 (functional).  A thrown value that a handler is waiting for lands there: control continues
  at the handler's target, the handler is gone and the outer ones stay, the frames and spilled
  registers pushed since the handler was installed are popped, and the handler's register holds
  the value with its tag.
\<close>

theorem throw_lands:
  assumes "vshape s" and "frames_ok (m_callStack s)" and "m_exceptionHandlers s = eh # rest"
    and "throwValue B v t s = Ok s'"
  shows "m_jitIp s' = eh_targetIp eh \<and> m_exceptionHandlers s' = rest
    \<and> reg_val s' (eh_exceptionReg eh) = (v, t)
    \<and> m_callStack s' = drop (length (m_callStack s) - eh_callDepth eh) (m_callStack s)
    \<and> m_dataStack s' = drop (length (m_dataStack s) - eh_dataDepth eh) (m_dataStack s)"
proof -
  from throw_handled [OF assms] obtain s4 where
    s4: "same_regs (s\<lparr>m_exceptionHandlers := rest,
            m_callStack := drop (length (m_callStack s) - eh_callDepth eh) (m_callStack s),
            m_dataStack := drop (length (m_dataStack s) - eh_dataDepth eh) (m_dataStack s)\<rparr>) s4"
      "reg_val s4 (eh_exceptionReg eh) = (v, t)" "s' = s4\<lparr>m_jitIp := eh_targetIp eh\<rparr>"
    by (auto simp: regs_to_def)
  from s4(2,3) same_regs_fields [OF s4(1)] show ?thesis by (simp add: reg_val_def)
qed

definition guarded_state :: "(gc_metrics, unit) vm" where
  "guarded_state = (VM_init empty_chunk Heap_init zero_metrics [] ())
     \<lparr>m_exceptionHandlers := [\<lparr>eh_targetIp = 4, eh_exceptionReg = 20, eh_callDepth = 1, eh_dataDepth = 0\<rparr>],
      m_callStack := [\<lparr>cf_returnIp = 9, cf_callIp = 8, cf_locals = []\<rparr>, \<lparr>cf_returnIp = 3, cf_callIp = 2, cf_locals = []\<rparr>],
      m_dataStack := [\<lparr>sr_reg = 17, sr_value = 6, sr_tag = TAG_INT\<rparr>]\<rparr>"

lemma guarded_throw: "\<exists>s'. throwValue NoGCBackend 42 TAG_INT guarded_state = Ok s'"
proof -
  let ?s = "guarded_state\<lparr>m_exceptionHandlers := []\<rparr>"
  obtain s1 where s1: "restoreCallFrame NoGCBackend ?s = Ok s1"
    using nogc_restoreCallFrame_Ok [of ?s] by (auto simp: guarded_state_def)
  have "vshape ?s" by (simp add: guarded_state_def VM_init_def vshape_def)
  from restoreCallFrame_result [OF this _ _ s1] have "same_regs (?s\<lparr>m_callStack := tl (m_callStack ?s)\<rparr>) s1"
    by (auto simp: guarded_state_def regs_to_def)
  from same_regs_fields(2) [OF this] have d: "m_dataStack s1 = [\<lparr>sr_reg = 17, sr_value = 6, sr_tag = TAG_INT\<rparr>]"
    by (simp add: guarded_state_def)
  obtain s2 where s2: "restore_saved NoGCBackend \<lparr>sr_reg = 17, sr_value = 6, sr_tag = TAG_INT\<rparr>
      (s1\<lparr>m_dataStack := []\<rparr>) = Ok s2"
    using nogc_restore_Ok [of "\<lparr>sr_reg = 17, sr_value = 6, sr_tag = TAG_INT\<rparr>"] by (auto simp: NREGS_def)
  obtain s3 where "setReg NoGCBackend 20 42 TAG_INT s2 = Ok s3"
    using nogc_setReg_Ok [of 20 42 TAG_INT s2] by (auto simp: NREGS_def)
  with s1 s2 d show ?thesis
    by (auto simp: throwValue_def guarded_state_def owhen_def numeral_2_eq_2)
qed

theorem throw_lands_witness:
  "\<exists>s'. throwValue NoGCBackend 42 TAG_INT guarded_state = Ok s' \<and> m_jitIp s' = 4
     \<and> reg_val s' 20 = (42, TAG_INT) \<and> length (m_callStack s') = 1 \<and> m_dataStack s' = []"
proof -
  obtain s' where t: "throwValue NoGCBackend 42 TAG_INT guarded_state = Ok s'" using guarded_throw by blast
  have "vshape guarded_state" "frames_ok (m_callStack guarded_state)"
    by (simp_all add: guarded_state_def VM_init_def vshape_def frames_ok_def)
  from throw_lands [OF this _ t] t show ?thesis by (auto simp: guarded_state_def)
qed

section \<open>Teardown\<close>

lemma setGlobal_result:
  assumes "setGlobal B k v t s = Ok s'"
  shows "\<exists>h g. s' = s\<lparr>m_globals := (m_globals s)[k := v], m_globalTags := (m_globalTags s)[k := t], m_heap := h, m_gc := g\<rparr>"
proof (cases "m_globalTags s ! k = TAG_HEAP \<and> t = TAG_HEAP \<and> m_globals s ! k = v")
  case True
  with assms have "s' = s" by (auto simp: setGlobal_def Let_def)
  moreover from True have "(m_globals s)[k := v] = m_globals s" "(m_globalTags s)[k := t] = m_globalTags s"
    by (metis list_update_id)+
  ultimately have "s' = s\<lparr>m_globals := (m_globals s)[k := v], m_globalTags := (m_globalTags s)[k := t],
      m_heap := m_heap s, m_gc := m_gc s\<rparr>" by simp
  then show ?thesis by blast
next
  case False
  then have "\<exists>s1. owhen (t = TAG_HEAP) (gc_call (gc_rootAdd B (i64_to_u32 v))) s = Ok s1
      \<and> owhen (m_globalTags s ! k = TAG_HEAP) (gc_call (gc_rootRemove B (i64_to_u32 (m_globals s ! k))))
          (s1\<lparr>m_globals := (m_globals s1)[k := v], m_globalTags := (m_globalTags s1)[k := t]\<rparr>) = Ok s'"
    using assms by (auto simp: setGlobal_def Let_def obind_Ok split: if_splits)
  then obtain s1 where "same_heap s s1"
    "same_heap (s1\<lparr>m_globals := (m_globals s1)[k := v], m_globalTags := (m_globalTags s1)[k := t]\<rparr>) s'"
    using owhen_result by meson
  then obtain h g where "s' = s\<lparr>m_globals := (m_globals s)[k := v], m_globalTags := (m_globalTags s)[k := t],
      m_heap := h, m_gc := g\<rparr>"
    by (auto simp: same_heap_def)
  then show ?thesis by blast
qed

lemma clear_globals_result:
  assumes "vshape s" and "ofold (\<lambda>k. setGlobal B k 0 TAG_INT) ks s = Ok s'"
  shows "vshape s' \<and> m_rtag s' = m_rtag s \<and> m_callStack s' = m_callStack s \<and> m_dataStack s' = m_dataStack s
    \<and> (\<forall>k < NGLOBALS. m_globalTags s' ! k = (if k \<in> set ks then TAG_INT else m_globalTags s ! k))"
  using assms
proof (induction ks arbitrary: s)
  case (Cons x ks)
  then obtain s1 where s1: "setGlobal B x 0 TAG_INT s = Ok s1" "ofold (\<lambda>k. setGlobal B k 0 TAG_INT) ks s1 = Ok s'"
    by (auto simp: obind_Ok)
  obtain h g where e: "s1 = s\<lparr>m_globals := (m_globals s)[x := 0], m_globalTags := (m_globalTags s)[x := TAG_INT],
      m_heap := h, m_gc := g\<rparr>"
    using setGlobal_result [OF s1(1)] by blast
  then have "vshape s1" using Cons.prems(1) by (simp add: vshape_def)
  from Cons.IH [OF this s1(2)] Cons.prems(1) e show ?case by (auto simp: vshape_def nth_list_update)
qed simp

lemma drop_data_result:
  "drop_dataStack B srs s = Ok s' \<Longrightarrow> m_dataStack s = srs \<Longrightarrow> same_heap (s\<lparr>m_dataStack := []\<rparr>) s'"
proof (induction srs arbitrary: s)
  case Nil
  then have "s\<lparr>m_dataStack := []\<rparr> = s'" by simp
  then show ?case by simp
next
  case (Cons sr srs)
  then obtain s1 where s1: "drop_saved B sr (s\<lparr>m_dataStack := srs\<rparr>) = Ok s1" "drop_dataStack B srs s1 = Ok s'"
    by (auto simp: obind_Ok)
  have h: "same_heap (s\<lparr>m_dataStack := srs\<rparr>) s1" using s1(1) unfolding drop_saved_def by (rule owhen_result)
  then obtain hh g where e: "s1 = s\<lparr>m_dataStack := srs, m_heap := hh, m_gc := g\<rparr>" by (auto simp: same_heap_def)
  then have "same_heap (s1\<lparr>m_dataStack := []\<rparr>) s'" using Cons.IH [OF s1(2)] by simp
  moreover from e have "same_heap (s\<lparr>m_dataStack := []\<rparr>) (s1\<lparr>m_dataStack := []\<rparr>)"
    by (intro same_heapI [where h = hh and g = g]) simp
  ultimately show ?case using same_heap_trans by blast
qed

lemma handles_no_heap:
  "length vs = length ts \<Longrightarrow> (\<And>i. i < length ts \<Longrightarrow> ts ! i \<noteq> TAG_HEAP) \<Longrightarrow> handles (zip vs ts) = {#}"
  by (auto simp: handles_def filter_empty_conv set_zip)

text \<open>The roots that teardown leaves are those of the call frames.\<close>

lemma finishGC_roots:
  assumes "vshape s" and "finishGC B s = Ok s'"
  shows "roots s' = handles (frame_vals (m_callStack s)) \<and> m_callStack s' = m_callStack s"
proof -
  from assms(2) obtain s1 s2 s3 where
      s1: "ofold (\<lambda>r. setReg B r 0 TAG_INT) [0..<NREGS] s = Ok s1"
    and s2: "ofold (\<lambda>g. setGlobal B g 0 TAG_INT) [0..<NGLOBALS] s1 = Ok s2"
    and s3: "drop_dataStack B (m_dataStack s2) s2 = Ok s3" and s': "gc_call (gc_shutdown B) s3 = Ok s'"
    by (auto simp: finishGC_def obind_Ok)
  note t1 = clear_result [OF assms(1) s1]
  then have v1: "vshape s1" and r1: "\<forall>r < NREGS. m_rtag s1 ! r = TAG_INT" and c1: "m_callStack s1 = m_callStack s"
    using same_regs_fields(1) by (auto simp: regs_to_def reg_val_def)
  note t2 = clear_globals_result [OF v1 s2]
  have "same_heap (s2\<lparr>m_dataStack := []\<rparr>) s'"
    using drop_data_result [OF s3] gc_call_result [OF s'] same_heap_trans by blast
  then have "roots s' = roots (s2\<lparr>m_dataStack := []\<rparr>)" and c: "m_callStack s' = m_callStack s2"
    using same_heap_fields by (auto simp: same_heap_def)
  moreover have "handles (zip (m_regs s2) (m_rtag s2)) = {#}"
    "handles (zip (m_globals s2) (m_globalTags s2)) = {#}"
    using t2 r1 v1 by (auto intro!: handles_no_heap simp: vshape_def)
  ultimately show ?thesis using t2 c1 by (simp add: roots_def)
qed

text \<open>Over a backend that meets the contract, every root that teardown takes from the VM is taken from the collector.\<close>

context gc_contract
begin

lemma clear_global_ok:
  assumes inv: "vinv s {#}" and k: "k < NGLOBALS" and room: "spill_count s + 4401 < 2 ^ 31"
  shows "ospec U (setGlobal ops k 0 TAG_INT s) (\<lambda>s'. vinv s' {#} \<and> spill_count s' = spill_count s)"
proof -
  let ?w = "s\<lparr>m_globals := (m_globals s)[k := 0], m_globalTags := (m_globalTags s)[k := TAG_INT]\<rparr>"
  let ?old = "hnd (m_globals s ! k) (m_globalTags s ! k)"
  have sh: "vshape s" using inv by (simp add: vinv_def)
  have sp: "spill_count ?w = spill_count s" by (simp add: spill_count_def)
  have e: "roots ?w + ?old = roots s" using roots_setGlobal [OF sh k, where v = 0 and t = TAG_INT] by (simp add: hnd_def)
  have "vinv ?w (?old + {#})"
    using inv vshape_setGlobal [OF sh] sp e size_hnd [of "m_globals s ! k" "m_globalTags s ! k"] room
    by (auto simp: vinv_def)
  from gc_rootRemove_ok [OF this, of U] have "ospec U (setGlobal ops k 0 TAG_INT s) (\<lambda>s'. vinv s' {#} \<and> same_heap ?w s')"
    by (simp add: setGlobal_def Let_def owhen_def [of False])
  then show ?thesis by (rule ospec_mono) (use sp same_heap_fields(4) in metis)
qed

lemma drop_data_ok:
  assumes "vinv s {#}" and "m_dataStack s = srs" and "spill_count s + 4402 < 2 ^ 31"
  shows "ospec U (drop_dataStack ops srs s) (\<lambda>s'. vinv s' {#})"
  using assms
proof (induction srs arbitrary: s)
  case (Cons sr srs)
  note p = vinv_pop_data [OF Cons.prems(1,2)]
  show ?case unfolding drop_dataStack.simps
  proof (rule ospec_bind [OF drop_saved_ok [OF p(1)]])
    fix s1 assume s1: "vinv s1 {#} \<and> same_heap (s\<lparr>m_dataStack := srs\<rparr>) s1"
    then have "m_dataStack s1 = srs" "spill_count s1 = spill_count (s\<lparr>m_dataStack := srs\<rparr>)"
      using same_heap_fields [of "s\<lparr>m_dataStack := srs\<rparr>" s1] by (auto simp: same_heap_def)
    with s1 Cons.IH [of s1] p(2) Cons.prems(3) show "ospec U (drop_dataStack ops srs s1) (\<lambda>s'. vinv s' {#})" by auto
  qed
qed simp

lemma finishGC_ok:
  fixes s :: "('g, 'w) vm"
  assumes "vinv s {#}" and "spill_count s + 4402 < 2 ^ 31"
  shows "ospec U (finishGC ops s) (\<lambda>s'. vinv s' {#})"
  unfolding finishGC_def
proof (rule ospec_bind [OF clear_regs_ok [OF assms(1)]])
  show "spill_count s + size {#} + 4401 < 2 ^ 31" using assms(2) by simp
  fix s1 assume "vinv s1 {#} \<and> same_regs s s1"
  then have s1: "vinv s1 {#}" "spill_count s1 = spill_count s" using same_regs_fields by blast+
  have "ospec U (ofold (\<lambda>g. setGlobal ops g 0 TAG_INT) [0..<NGLOBALS] s1) (\<lambda>s'. vinv s' {#} \<and> spill_count s' = spill_count s)"
    by (rule ospec_fold) (use s1 assms(2) in \<open>auto intro: ospec_mono [OF clear_global_ok]\<close>)
  then show "ospec U (obind (ofold (\<lambda>g. setGlobal ops g 0 TAG_INT) [0..<NGLOBALS] s1)
      (\<lambda>s2. obind (drop_dataStack ops (m_dataStack s2) s2) (gc_call (gc_shutdown ops)))) (\<lambda>s'. vinv s' {#})"
  proof (rule ospec_bind, intro ospec_bind [OF drop_data_ok])
    fix s3 :: "('g, 'w) vm" assume v: "vinv s3 {#}"
    have "gspec (gc_shutdown ops (m_heap s3, m_gc s3)) (\<lambda>(h', g'). ok h' g' (roots s3 + {#}) {})"
      using shutdown_law [of "m_heap s3" "m_gc s3" "roots s3"] v by (auto simp: vinv_def elim!: gspec_mono)
    with v have "ospec U (gc_call (gc_shutdown ops) s3) (\<lambda>s'. vinv s' {#} \<and> same_heap s3 s')"
      by (intro gc_call_ok) (auto simp: vinv_def)
    then show "ospec U (gc_call (gc_shutdown ops) s3) (\<lambda>s'. vinv s' {#})" by (rule ospec_mono) simp
  qed (use assms(2) in auto)
qed

end

text \<open>
  Property C28 (error).  Teardown under reference counting, from a state whose counts are exact, drops the roots of the
  registers, the globals and the spilled registers and no others: afterwards each object is counted once for every cell
  that holds it and every register saved in a call frame that does.  So a run that stops inside a function, by \<open>halt\<close> or at the
  instruction cap, keeps the objects of its frames alive.
\<close>

theorem finishGC_keeps_frame_roots:
  assumes "vshape s" and "rc_ok (m_heap s) (arc_rc (m_gc s)) (roots s) {}" and "spill_count s + 4402 < 2 ^ 31"
  shows "finishGC ArcBackend s \<noteq> Undefined UB_Heap
    \<and> (\<forall>s'. finishGC ArcBackend s = Ok s' \<longrightarrow> m_callStack s' = m_callStack s
        \<and> (\<forall>i. rc_at (arc_rc (m_gc s')) i = count (handles (frame_vals (m_callStack s))) i + card (in_refs (m_heap s') i))
        \<and> (\<forall>i \<in># handles (frame_vals (m_callStack s)). valid (m_heap s') i))"
proof -
  have "arcb.vinv s {#}" using assms by (simp add: arcb.vinv_def)
  from arcb.finishGC_ok [OF this assms(3), of "\<lambda>_. True"] have o: "ospec (\<lambda>_. True) (finishGC ArcBackend s) (\<lambda>s'. arcb.vinv s' {#})" .
  have "rc_ok (m_heap s') (arc_rc (m_gc s')) (handles (frame_vals (m_callStack s))) {} \<and> m_callStack s' = m_callStack s"
    if "finishGC ArcBackend s = Ok s'" for s'
    using o that finishGC_roots [OF assms(1) that] by (simp add: arcb.vinv_def)
  then show ?thesis using o by (auto simp: rc_ok_def)
qed

text \<open>A run that stops in a function: the one object is spilled once and saved once in the frame of the caller.\<close>

definition in_frame_state :: "(arc, unit) vm" where
  "in_frame_state = (VM_init empty_chunk one_object \<lparr>arc_rc = [0, 2], arc_metrics = zero_metrics\<rparr> [] ())
     \<lparr>m_callStack := [\<lparr>cf_returnIp = 3, cf_callIp = 2, cf_locals = [\<lparr>sr_reg = 16, sr_value = 1, sr_tag = TAG_HEAP\<rparr>]\<rparr>],
      m_dataStack := [\<lparr>sr_reg = 17, sr_value = 1, sr_tag = TAG_HEAP\<rparr>]\<rparr>"

lemma not_in_update: "x \<notin> set xs \<Longrightarrow> y \<noteq> x \<Longrightarrow> x \<notin> set (xs[i := y])"
  using set_update_subset_insert [of xs i y] by auto

lemma quiet_regs:
  "set rs \<subseteq> {..<NREGS} \<Longrightarrow> TAG_HEAP \<notin> set (m_rtag s) \<Longrightarrow> length (m_rtag s) = NREGS \<Longrightarrow>
   \<exists>R T. ofold (\<lambda>r. setReg B r 0 TAG_INT) rs s = Ok (s\<lparr>m_regs := R, m_rtag := T\<rparr>)"
proof (induction rs arbitrary: s)
  case Nil
  show ?case by (intro exI [of _ "m_regs s"] exI [of _ "m_rtag s"]) simp
next
  case (Cons r rs)
  let ?s = "s\<lparr>m_regs := (m_regs s)[r := 0], m_rtag := (m_rtag s)[r := TAG_INT]\<rparr>"
  have "m_rtag s ! r \<noteq> TAG_HEAP" using Cons.prems by (metis insert_subset lessThan_iff list.simps(15) nth_mem)
  then have "setReg B r 0 TAG_INT s = Ok ?s" using Cons.prems(1) by (simp add: setReg_def owhen_def)
  moreover have "TAG_HEAP \<notin> set ((m_rtag s)[r := TAG_INT])"
    by (rule not_in_update [OF Cons.prems(2) tag_neq(1)])
  ultimately show ?case using Cons.IH [of ?s] Cons.prems(1,3) by auto
qed

lemma quiet_globals:
  "set ks \<subseteq> {..<NGLOBALS} \<Longrightarrow> TAG_HEAP \<notin> set (m_globalTags s) \<Longrightarrow> length (m_globalTags s) = NGLOBALS \<Longrightarrow>
   \<exists>R T. ofold (\<lambda>k. setGlobal B k 0 TAG_INT) ks s = Ok (s\<lparr>m_globals := R, m_globalTags := T\<rparr>)"
proof (induction ks arbitrary: s)
  case Nil
  show ?case by (intro exI [of _ "m_globals s"] exI [of _ "m_globalTags s"]) simp
next
  case (Cons k ks)
  let ?s = "s\<lparr>m_globals := (m_globals s)[k := 0], m_globalTags := (m_globalTags s)[k := TAG_INT]\<rparr>"
  have "m_globalTags s ! k \<noteq> TAG_HEAP" using Cons.prems by (metis insert_subset lessThan_iff list.simps(15) nth_mem)
  then have "setGlobal B k 0 TAG_INT s = Ok ?s" by (simp add: setGlobal_def owhen_def Let_def)
  moreover have "TAG_HEAP \<notin> set ((m_globalTags s)[k := TAG_INT])"
    by (rule not_in_update [OF Cons.prems(2) tag_neq(1)])
  ultimately show ?case using Cons.IH [of ?s] Cons.prems(1,3) by auto
qed

lemma in_frame_fields:
  "m_heap in_frame_state = one_object" "m_gc in_frame_state = \<lparr>arc_rc = [0, 2], arc_metrics = zero_metrics\<rparr>"
  "m_rtag in_frame_state = replicate NREGS 0" "m_globalTags in_frame_state = replicate NGLOBALS 0"
  "frame_vals (m_callStack in_frame_state) = [(1, TAG_HEAP)]" "roots in_frame_state = {#1, 1#}" "spill_count in_frame_state = 2"
  "vshape in_frame_state" "m_dataStack in_frame_state = [\<lparr>sr_reg = 17, sr_value = 1, sr_tag = TAG_HEAP\<rparr>]"
  by (simp_all add: in_frame_state_def VM_init_def roots_def spill_count_def vshape_def handles_zero hnd_def i64_to_u32_def)

lemma in_frame_finish: "\<exists>s'. finishGC ArcBackend in_frame_state = Ok s'"
proof -
  have tags: "TAG_HEAP \<notin> set (replicate n 0)" for n by (simp add: tag_defs)
  obtain R T where 1: "ofold (\<lambda>r. setReg ArcBackend r 0 TAG_INT) [0..<NREGS] in_frame_state = Ok (in_frame_state\<lparr>m_regs := R, m_rtag := T\<rparr>)"
    using quiet_regs [of "[0..<NREGS]" in_frame_state ArcBackend] tags [of NREGS] by (auto simp: in_frame_fields atLeast0LessThan)
  let ?s = "in_frame_state\<lparr>m_regs := R, m_rtag := T\<rparr>"
  obtain G U where 2: "ofold (\<lambda>r. setGlobal ArcBackend r 0 TAG_INT) [0..<NGLOBALS] ?s = Ok (?s\<lparr>m_globals := G, m_globalTags := U\<rparr>)"
    using quiet_globals [of "[0..<NGLOBALS]" ?s ArcBackend] tags [of NGLOBALS] by (auto simp: in_frame_fields atLeast0LessThan)
  have "\<exists>s'. obind (drop_dataStack ArcBackend (m_dataStack in_frame_state) (?s\<lparr>m_globals := G, m_globalTags := U\<rparr>)) (gc_call (gc_shutdown ArcBackend)) = Ok s'"
    by (simp add: in_frame_fields drop_saved_def owhen_def gc_call_def ArcBackend_def arc_rootRemove_def arc_release_def arc_count_def
        i64_to_u32_def arc_shutdown_def)
  with 1 2 show ?thesis by (simp add: finishGC_def)
qed

theorem finishGC_keeps_frame_roots_witness:
  "\<exists>s'. finishGC ArcBackend in_frame_state = Ok s' \<and> rc_at (arc_rc (m_gc s')) 1 = 1 + card (in_refs (m_heap s') 1) \<and> valid (m_heap s') 1"
proof -
  obtain s' where t: "finishGC ArcBackend in_frame_state = Ok s'" using in_frame_finish by blast
  have "valid one_object 1" by (simp add: one_object_eq valid_def)
  then have "rc_ok (m_heap in_frame_state) (arc_rc (m_gc in_frame_state)) (roots in_frame_state) {}"
    by (auto simp: in_frame_fields rc_ok_def one_object_ok in_refs_one_object rc_at_def less_Suc_eq nth_Cons split: nat.splits)
  moreover have "spill_count in_frame_state + 4402 < 2 ^ 31" by (simp add: in_frame_fields)
  ultimately show ?thesis using finishGC_keeps_frame_roots [OF in_frame_fields(8)] t
    by (auto simp: in_frame_fields handles_def i64_to_u32_def)
qed

section \<open>The dispatch loop\<close>

text \<open>One instruction after the other; the number of steps is the second argument.\<close>

inductive vm_steps :: "'w env \<Rightarrow> 'g gc_backend \<Rightarrow> nat \<Rightarrow> ('g, 'w) vm \<Rightarrow> ('g, 'w) vm \<Rightarrow> bool"
  for E :: "'w env" and B :: "'g gc_backend" where
  none: "vm_steps E B 0 s s"
| more: "running s \<Longrightarrow> step E B s = Ok s1 \<Longrightarrow> vm_steps E B n s1 s2 \<Longrightarrow> vm_steps E B (Suc n) s s2"

inductive_cases vm_steps_SucE: "vm_steps E B (Suc n) s s'"
inductive_cases vm_steps_0E: "vm_steps E B 0 s s'"

lemma run_loop_steps:
  "run_loop E B n k s = Ok (k', s') \<longleftrightarrow>
     (\<exists>m \<le> n. k' = k + m \<and> vm_steps E B m s s' \<and> (m < n \<longrightarrow> \<not> running s'))"
proof (induction n arbitrary: k s)
  case 0
  show ?case by (auto intro: vm_steps.none elim: vm_steps_0E)
next
  case (Suc n)
  show ?case
  proof (cases "running s")
    case False
    then show ?thesis by (auto intro: vm_steps.none elim: vm_steps.cases)
  next
    case True
    have "run_loop E B (Suc n) k s = Ok (k', s') \<longleftrightarrow>
        (\<exists>s1. step E B s = Ok s1 \<and> (\<exists>m \<le> n. k' = Suc k + m \<and> vm_steps E B m s1 s' \<and> (m < n \<longrightarrow> \<not> running s')))"
      using True Suc.IH by (simp add: obind_Ok)
    also have "\<dots> \<longleftrightarrow> (\<exists>m \<le> Suc n. k' = k + m \<and> vm_steps E B m s s' \<and> (m < Suc n \<longrightarrow> \<not> running s'))"
    proof (intro iffI; elim exE conjE)
      fix s1 m assume "step E B s = Ok s1" "m \<le> n" "k' = Suc k + m" "vm_steps E B m s1 s'" "m < n \<longrightarrow> \<not> running s'"
      with True show "\<exists>m \<le> Suc n. k' = k + m \<and> vm_steps E B m s s' \<and> (m < Suc n \<longrightarrow> \<not> running s')"
        by (intro exI [of _ "Suc m"]) (auto intro: vm_steps.more)
    next
      fix m assume a: "m \<le> Suc n" "k' = k + m" "vm_steps E B m s s'" "m < Suc n \<longrightarrow> \<not> running s'"
      with True obtain m' where m: "m = Suc m'" by (cases m) (auto elim: vm_steps_0E)
      with a(3) obtain s1 where "step E B s = Ok s1" "vm_steps E B m' s1 s'" by (auto elim: vm_steps_SucE)
      with a m show "\<exists>s1. step E B s = Ok s1 \<and> (\<exists>m \<le> n. k' = Suc k + m \<and> vm_steps E B m s1 s' \<and> (m < n \<longrightarrow> \<not> running s'))"
        by auto
    qed
    finally show ?thesis .
  qed
qed

text \<open>
  Property C12 (refinement).  The dispatch loop implements the step relation with a budget: \<open>runJit\<close>
  returns exactly when some number of steps up to the budget leads to a state that is no longer
  running or uses the budget up; the executed-instruction counter grows by that number, and the
  run is reported as truncated only when it used the whole budget without halting.
\<close>

theorem runJit_refines_steps:
  "runJit E B n s = Ok s' \<longleftrightarrow>
     (\<exists>m s1. vm_steps E B m (s\<lparr>m_jitIp := 0, m_halted := False\<rparr>) s1
        \<and> (if m < n then \<not> running s1 else m = n)
        \<and> s' = s1\<lparr>m_executed := m_executed s1 + m, m_truncated := (\<not> m_halted s1 \<and> m = n)\<rparr>)"
  (is "_ \<longleftrightarrow> (\<exists>m s1. ?P m s1)")
proof -
  let ?s = "s\<lparr>m_jitIp := 0, m_halted := False\<rparr>"
  have "runJit E B n s = Ok s' \<longleftrightarrow>
     (\<exists>m s1. run_loop E B n 0 ?s = Ok (m, s1)
        \<and> s' = s1\<lparr>m_executed := m_executed s1 + m, m_truncated := (\<not> m_halted s1 \<and> m \<ge> n)\<rparr>)"
    by (auto simp: runJit_def obind_Ok)
  moreover have "run_loop E B n 0 ?s = Ok (m, s1)
        \<and> s' = s1\<lparr>m_executed := m_executed s1 + m, m_truncated := (\<not> m_halted s1 \<and> m \<ge> n)\<rparr> \<longleftrightarrow> ?P m s1" for m s1
  proof (cases "m \<le> n")
    case True
    then have "(n \<le> m) = (m = n)" by auto
    with True show ?thesis by (auto simp: run_loop_steps)
  next
    case False
    then show ?thesis by (simp add: run_loop_steps)
  qed
  ultimately show ?thesis by simp
qed

end
