(* ===== verification/Lx_VMValues.thy ===== *)
theory Lx_VMValues
  imports Lx_VMControl "HOL-Library.Multiset"
begin

text \<open>
  The values the VM computes: integer division and remainder on every branch, the string
  conversions and searches behind the system calls, the type test, and two behaviours of the heap
  instructions at their limits.
\<close>

section \<open>Division\<close>

text \<open>C++ division of 64-bit integers overflows for exactly one pair of operands.\<close>

lemma sdiv_in_i64:
  assumes "in_i64 x" and "in_i64 y" and "y \<noteq> 0"
  shows "in_i64 (x sdiv y) \<longleftrightarrow> \<not> (x = - (2 ^ 63) \<and> y = - 1)"
proof (cases "x = - (2 ^ 63)")
  case False
  with assms(1) have "\<bar>x\<bar> < 2 ^ 63" by (auto simp: in_i64_def)
  with sdiv_int_range [of x y] False show ?thesis by (auto simp: in_i64_def)
next
  case True
  show ?thesis
  proof (cases "\<bar>y\<bar> = 1")
    case one: True
    then have "y = 1 \<or> y = - 1" by auto
    with True show ?thesis by (auto simp: in_i64_def)
  next
    case False
    with assms(3) have y: "2 \<le> \<bar>y\<bar>" by auto
    have "\<bar>x sdiv y\<bar> \<le> \<bar>x\<bar> div \<bar>y\<bar>"
      by (auto simp: signed_divide_int_def abs_mult sgn_if pos_imp_zdiv_nonneg_iff neg_imp_zdiv_nonneg_iff)
    also have "\<dots> \<le> \<bar>x\<bar> div 2" using y by (intro zdiv_mono2) auto
    also have "\<dots> < 2 ^ 63" using True by simp
    finally have "\<bar>x sdiv y\<bar> < 2 ^ 63" .
    then show ?thesis using False by (auto simp: in_i64_def)
  qed
qed

text \<open>\<open>raiseRuntime\<close> does not return to its caller.\<close>

lemma obind_assoc: "obind (obind m f) g = obind m (\<lambda>x. obind (f x) g)"
  by (cases m) auto

lemma raise_body_bind:
  "obind (case internRuntimeString e s2 of (stringId, s3) \<Rightarrow>
      (case storeCell h 0 (int stringId) TAG_STR (m_heap s3) of
        None \<Rightarrow> Undefined UB_Heap
      | Some (False, h3) \<Rightarrow> panic s3 ''failed to initialize RuntimeException.message''
      | Some (True, h3) \<Rightarrow> obind (throwValue B (int h) TAG_HEAP (s3\<lparr>m_heap := h3\<rparr>)) Unwind)) f =
   (case internRuntimeString e s2 of (stringId, s3) \<Rightarrow>
      (case storeCell h 0 (int stringId) TAG_STR (m_heap s3) of
        None \<Rightarrow> Undefined UB_Heap
      | Some (False, h3) \<Rightarrow> panic s3 ''failed to initialize RuntimeException.message''
      | Some (True, h3) \<Rightarrow> obind (throwValue B (int h) TAG_HEAP (s3\<lparr>m_heap := h3\<rparr>)) Unwind))"
  by (auto simp: obind_assoc split: prod.split option.split bool.split)

lemma raise_bind: "obind (raiseRuntime B e s) f = raiseRuntime B e s"
proof (cases "type_index ''RuntimeException'' (ch_typeNames (m_chunk s))")
  case None
  then show ?thesis by (simp add: raiseRuntime_def)
next
  case (Some t)
  obtain i h where "alloc SLOT_SIZE t (m_heap s) = (i, h)" by (cases "alloc SLOT_SIZE t (m_heap s)")
  with Some show ?thesis
    by (simp add: raiseRuntime_def obind_assoc raise_body_bind Let_def)
qed

lemma readInt_reg:
  "op_tag o1 = TReg \<Longrightarrow> reg_of o1 < NREGS \<Longrightarrow> readIntOperand s o1 = Ok (m_regs s ! reg_of o1)"
  by (simp add: readIntOperand_def get_reg_def)

text \<open>
  Property C24 (functional).  \<open>div\<close> on two registers: a zero divisor raises a catchable exception, the
  pair \<open>INT64_MIN\<close>, \<open>-1\<close> is undefined behaviour, and every other pair leaves the quotient rounded
  towards zero in the destination.
\<close>

theorem div_spec:
  assumes "op_tag val = TReg" and "reg_of src < NREGS" and "reg_of val < NREGS"
    and "in_i64 (m_regs s ! reg_of src)" and "in_i64 (m_regs s ! reg_of val)"
  shows "exec_Div B [src, val, dst] s =
    (let x = m_regs s ! reg_of src; y = m_regs s ! reg_of val in
     if y = 0 then raiseRuntime B ''division by zero'' s
     else if x = - (2 ^ 63) \<and> y = - 1 then Undefined UB_Arith
     else set_next B (reg_of dst) (sgn x * sgn y * (\<bar>x\<bar> div \<bar>y\<bar>)) TAG_INT s)"
proof -
  let ?x = "m_regs s ! reg_of src" and ?y = "m_regs s ! reg_of val"
  have "sgn ?x * sgn ?y * (\<bar>?x\<bar> div \<bar>?y\<bar>) = ?x sdiv ?y"
    by (simp add: signed_divide_int_def sgn_mult)
  then show ?thesis
    using assms sdiv_in_i64 [OF assms(4,5)]
    by (auto simp: exec_Div_def int_op_def readInt_reg get_reg_def zero_check_def checked_def Let_def raise_bind)
qed

theorem div_spec_witness:
  "exec_Div NoGCBackend [\<lparr>op_tag = TReg, op_intVal = 16, op_strIdx = 0\<rparr>,
      \<lparr>op_tag = TReg, op_intVal = 17, op_strIdx = 0\<rparr>, \<lparr>op_tag = TReg, op_intVal = 18, op_strIdx = 0\<rparr>]
     (caller_state\<lparr>m_regs := (replicate NREGS 0)[16 := - 9223372036854775808, 17 := - 1]\<rparr>) = Undefined UB_Arith
   \<and> exec_Div NoGCBackend [\<lparr>op_tag = TReg, op_intVal = 16, op_strIdx = 0\<rparr>,
      \<lparr>op_tag = TReg, op_intVal = 17, op_strIdx = 0\<rparr>, \<lparr>op_tag = TReg, op_intVal = 18, op_strIdx = 0\<rparr>]
     (caller_state\<lparr>m_regs := (replicate NREGS 0)[16 := - 7, 17 := 2]\<rparr>)
     = set_next NoGCBackend 18 (- 3) TAG_INT (caller_state\<lparr>m_regs := (replicate NREGS 0)[16 := - 7, 17 := 2]\<rparr>)"
proof -
  let ?r = "\<lambda>i. \<lparr>op_tag = TReg, op_intVal = i, op_strIdx = 0\<rparr>"
  have r: "reg_of (?r 16) = 16" "reg_of (?r 17) = 17" "reg_of (?r 18) = 18"
    by (simp_all add: reg_of_def i64_to_u16_def)
  show ?thesis
    by (subst (1 2) div_spec) (simp_all add: r NREGS_def in_i64_def Let_def)
qed

section \<open>Conversion between integers and strings\<close>

lemma digits_value_append: "digits_value (xs @ [c]) = 10 * digits_value xs + (of_char c - 48)"
  by (simp add: digits_value_def)

lemma digit_char_code: "d < 10 \<Longrightarrow> (of_char (digit_char d) :: nat) = 48 + d"
  by (simp add: digit_char_def)

lemma digit_char_props: "d < 10 \<Longrightarrow> is_digit (digit_char d) \<and> of_char (digit_char d) = (48 + of_nat d :: int)"
  using digit_char_code [of d] of_nat_of_char [of "digit_char d", where ?'a = int]
  by (simp add: is_digit_def)

lemma digits_rev_step:
  "n < 10 \<Longrightarrow> digits_rev 10 n = [digit_char n]"
  "\<not> n < 10 \<Longrightarrow> digits_rev 10 n = digit_char (n mod 10) # digits_rev 10 (n div 10)"
  by (subst digits_rev.simps, simp)+

lemma digits_rev_props:
  "list_all is_digit (digits_rev 10 n) \<and> digits_value (rev (digits_rev 10 n)) = int n \<and> digits_rev 10 n \<noteq> []"
proof (induction n rule: less_induct)
  case (less n)
  show ?case
  proof (cases "n < 10")
    case True
    then show ?thesis using digit_char_props [of n] by (simp add: digits_rev_step(1) digits_value_def)
  next
    case False
    then have "n div 10 < n" by simp
    note ih = less.IH [OF this]
    have d: "10 * int (n div 10) + int (n mod 10) = int n"
      by (simp only: zdiv_int zmod_int of_nat_numeral mult_div_mod_eq)
    have "digits_value (rev (digits_rev 10 n)) = 10 * int (n div 10) + int (n mod 10)"
      using ih digit_char_props [of "n mod 10"]
      by (simp add: digits_rev_step(2) [OF False] digits_value_append)
    then show ?thesis
      using ih digit_char_props [of "n mod 10"] d
      by (simp only: digits_rev_step(2) [OF False]) simp
  qed
qed

lemma string_of_nat_props:
  "string_of_nat n \<noteq> []" "list_all is_digit (string_of_nat n)" "digits_value (string_of_nat n) = int n"
  using digits_rev_props [of n] by (simp_all add: string_of_nat_def list_all_iff)

lemma digit_not_sign: "is_digit c \<Longrightarrow> \<not> is_space c \<and> c \<noteq> CHR ''-'' \<and> c \<noteq> CHR ''+''"
  by (auto simp: is_digit_def is_space_def)

lemma stoll_string_of_int:
  assumes "in_i64 v"
  shows "stoll (string_of_int v) = LL_Ok v (length (string_of_int v))"
proof -
  have all: "takeWhile is_digit (string_of_nat n) = string_of_nat n" "dropWhile is_digit (string_of_nat n) = []" for n
    using string_of_nat_props(2) [of n] by (simp_all add: list_all_iff)
  obtain c cs where c: "string_of_nat (nat \<bar>v\<bar>) = c # cs" "is_digit c"
    using string_of_nat_props(1,2) [of "nat \<bar>v\<bar>"] by (cases "string_of_nat (nat \<bar>v\<bar>)") auto
  note n = digit_not_sign [OF c(2)]
  have d: "digits_value (c # cs) = \<bar>v\<bar>" "takeWhile is_digit cs = cs" "dropWhile is_digit cs = []"
    using string_of_nat_props(3) [of "nat \<bar>v\<bar>"] all [of "nat \<bar>v\<bar>"] c by simp_all
  show ?thesis
  proof (cases "v < 0")
    case True
    then have "string_of_int v = CHR ''-'' # c # cs" using c(1) by (simp add: string_of_int_def)
    with True d c(2) assms show ?thesis
      by (simp add: stoll_def is_space_def Let_def del: takeWhile_eq_all_conv dropWhile_eq_Nil_conv)
  next
    case False
    then have "string_of_int v = c # cs" using c(1) by (simp add: string_of_int_def)
    with False d c(2) n assms show ?thesis
      by (simp add: stoll_def Let_def del: takeWhile_eq_all_conv dropWhile_eq_Nil_conv)
  qed
qed

lemma i2s_result:
  assumes "vshape s" and "sys_i2s B s = Ok s1"
  shows "m_runtimeStrings s1 = m_runtimeStrings s @ [string_of_int (m_regs s ! 1)] \<and> vshape s1
    \<and> m_regs s1 ! 0 = int (u32_cast (length (m_runtimeStrings s)))"
proof -
  let ?s = "s\<lparr>m_runtimeStrings := m_runtimeStrings s @ [string_of_int (m_regs s ! 1)]\<rparr>"
  have v: "vshape ?s" using assms(1) by (simp add: vshape_def)
  have "setReg B 0 (int (u32_cast (length (m_runtimeStrings s)))) TAG_STR ?s = Ok s1"
    using assms(2) by (simp add: sys_i2s_def result_string_def internRuntimeString_def)
  from setReg_result [OF v this] show ?thesis
    using v by (auto simp: reg_written_def same_heap_def vshape_def)
qed

text \<open>
  Property C25 (roundtrip).  The string that \<open>S_I2S\<close> makes of an integer is read back by \<open>S_S2I\<close> as that
  integer: with register 1 holding \<open>v\<close>, the first call interns a string, and with the string's index
  in register 1 the second leaves \<open>v\<close> in register 0.
\<close>

theorem i2s_s2i_roundtrip:
  assumes "in_i64 (m_regs s ! 1)" and "length (m_runtimeStrings s) < 2 ^ 32"
    and "sys_i2s B s = Ok s1" and "vshape s"
    and "m_runtimeStrings s2 = m_runtimeStrings s1" and "m_regs s2 ! 1 = m_regs s1 ! 0"
  shows "sys_s2i B s2 = setReg B 0 (m_regs s ! 1) TAG_INT s2"
proof -
  let ?str = "string_of_int (m_regs s ! 1)"
  have "m_runtimeStrings s1 = m_runtimeStrings s @ [?str]" "m_regs s1 ! 0 = int (length (m_runtimeStrings s))"
    using i2s_result [OF assms(4,3)] assms(2) by (simp_all add: u32_cast_def)
  with assms have "pool_string s2 (i64_to_u32 (m_regs s2 ! 1)) = Some ?str"
    by (simp add: pool_string_def i64_to_u32_def)
  then show ?thesis
    using stoll_string_of_int [OF assms(1)]
    by (simp add: sys_s2i_def regString_def Let_def result_int_def)
qed

theorem i2s_s2i_roundtrip_witness:
  "\<exists>s1. sys_i2s NoGCBackend (caller_state\<lparr>m_regs := (replicate NREGS 0)[1 := - 120]\<rparr>) = Ok s1
     \<and> sys_s2i NoGCBackend (s1\<lparr>m_regs := (m_regs s1)[1 := m_regs s1 ! 0]\<rparr>)
       = setReg NoGCBackend 0 (- 120) TAG_INT (s1\<lparr>m_regs := (m_regs s1)[1 := m_regs s1 ! 0]\<rparr>)"
proof -
  let ?s = "caller_state\<lparr>m_regs := (replicate NREGS 0)[1 := - 120]\<rparr>"
  have v: "vshape ?s" using caller_shape(1) by (simp add: vshape_def)
  have a: "in_i64 (m_regs ?s ! 1)" "m_regs ?s ! 1 = - 120" "length (m_runtimeStrings ?s) < 2 ^ 32"
    by (simp_all add: in_i64_def NREGS_def caller_state_def VM_init_def empty_chunk_def)
  obtain s1 where s1: "sys_i2s NoGCBackend ?s = Ok s1"
    unfolding sys_i2s_def result_string_def internRuntimeString_def Let_def prod.case
    using nogc_setReg_Ok [of 0] by (metis NREGS_def zero_less_numeral)
  have "length (m_regs s1) = NREGS" using i2s_result [OF v s1] by (simp add: vshape_def)
  then have "m_regs (s1\<lparr>m_regs := (m_regs s1)[1 := m_regs s1 ! 0]\<rparr>) ! 1 = m_regs s1 ! 0" by (simp add: NREGS_def)
  from i2s_s2i_roundtrip [OF a(1,3) s1 v _ this] s1 a(2) show ?thesis by auto
qed

section \<open>Searching and sorting\<close>

definition occurs_at :: "string \<Rightarrow> string \<Rightarrow> nat \<Rightarrow> bool" where
  "occurs_at str needle k \<longleftrightarrow> k \<le> length str \<and> take (length needle) (drop k str) = needle"

lemma occurs_at_Cons: "occurs_at (c # cs) needle (Suc k) = occurs_at cs needle k"
  by (simp add: occurs_at_def)

lemma occurs_at_0: "occurs_at str needle 0 \<longleftrightarrow> take (length needle) str = needle"
  by (simp add: occurs_at_def)

lemma str_find_from_spec:
  "str_find_from k str needle =
     (if \<exists>i. occurs_at str needle i then Some (k + (LEAST i. occurs_at str needle i)) else None)"
proof (induction k str needle rule: str_find_from.induct)
  case (1 k needle)
  then show ?case by (auto simp: occurs_at_def)
next
  case (2 k c cs needle)
  show ?case
  proof (cases "take (length needle) (c # cs) = needle")
    case True
    then have "occurs_at (c # cs) needle 0" by (simp only: occurs_at_0)
    with True show ?thesis by (auto simp: Least_eq_0)
  next
    case False
    then have n: "\<not> occurs_at (c # cs) needle 0" by (simp only: occurs_at_0) simp
    have ex: "(\<exists>i. occurs_at (c # cs) needle i) \<longleftrightarrow> (\<exists>i. occurs_at cs needle i)"
      using n by (metis not0_implies_Suc occurs_at_Cons)
    have "(LEAST i. occurs_at (c # cs) needle i) = Suc (LEAST i. occurs_at cs needle i)"
      if "occurs_at cs needle i" for i
      using Least_Suc [of "occurs_at (c # cs) needle" "Suc i"] n that by (simp add: occurs_at_Cons)
    with 2 [OF False] False ex show ?thesis by auto
  qed
qed

text \<open>
  Property C30 (functional).  When registers 1 and 2 name strings, \<open>S_STRINDEXOF\<close> leaves in register 0 the smallest index at which the needle
  occurs in the string, or -1 when it does not occur.
\<close>

theorem strindexof_first_occurrence:
  assumes "pool_string s (i64_to_u32 (m_regs s ! 1)) = Some str"
    and "pool_string s (i64_to_u32 (m_regs s ! 2)) = Some needle"
  shows "sys_strindexof B s =
    setReg B 0 (if \<exists>i. occurs_at str needle i then int (LEAST i. occurs_at str needle i) else - 1) TAG_INT s"
  using assms by (auto simp: sys_strindexof_def regString_def result_int_def str_find_from_spec Let_def)

theorem strindexof_first_occurrence_witness:
  "sys_strindexof NoGCBackend (caller_state\<lparr>m_runtimeStrings := [''banana'', ''nan''], m_regs := (replicate NREGS 0)[2 := 1]\<rparr>)
   = setReg NoGCBackend 0 2 TAG_INT
       (caller_state\<lparr>m_runtimeStrings := [''banana'', ''nan''], m_regs := (replicate NREGS 0)[2 := 1]\<rparr>)"
proof -
  let ?s = "caller_state\<lparr>m_runtimeStrings := [''banana'', ''nan''], m_regs := (replicate NREGS 0)[2 := 1]\<rparr>"
  have p: "pool_string ?s (i64_to_u32 (m_regs ?s ! 1)) = Some ''banana''"
    "pool_string ?s (i64_to_u32 (m_regs ?s ! 2)) = Some ''nan''"
    by (simp_all add: pool_string_def NREGS_def i64_to_u32_def)
  have o2: "occurs_at ''banana'' ''nan'' 2" "\<not> occurs_at ''banana'' ''nan'' 0" "\<not> occurs_at ''banana'' ''nan'' 1"
    by (simp_all add: occurs_at_def)
  then have "(LEAST i. occurs_at ''banana'' ''nan'' i) = 2"
    by (intro Least_equality) (auto simp: not_less_eq_eq numeral_2_eq_2 le_Suc_eq dest!: leI intro: ccontr)
  with strindexof_first_occurrence [OF p] o2(1) show ?thesis by auto
qed

lemma str_less_trans: "str_less x y \<Longrightarrow> str_less y z \<Longrightarrow> str_less x z"
proof (induction x y arbitrary: z rule: str_less.induct)
  case (3 x xs y ys)
  then show ?case by (cases z) auto
qed (auto elim: str_less.elims)

lemma str_less_asym: "str_less x y \<Longrightarrow> \<not> str_less y x"
  by (induction x y rule: str_less.induct) auto

lemma str_less_total: "\<not> str_less x y \<Longrightarrow> \<not> str_less y x \<Longrightarrow> x = y"
proof (induction x y rule: str_less.induct)
  case (1 xs)
  then show ?case by (cases xs) auto
next
  case (3 x xs y ys)
  then show ?case by (auto simp: not_less dest: antisym)
qed simp

lemma mset_str_insert: "mset (str_insert x xs) = add_mset x (mset xs)"
  by (induction xs) auto

lemma sorted_str_insert:
  assumes "sorted_wrt (\<lambda>a b. \<not> str_less b a) xs"
  shows "sorted_wrt (\<lambda>a b. \<not> str_less b a) (str_insert x xs)"
  using assms
proof (induction xs)
  case (Cons y ys)
  have s: "set (str_insert x ys) = insert x (set ys)"
    using mset_str_insert [of x ys] by (metis set_mset_add_mset_insert set_mset_mset)
  have "\<not> str_less z x" if "\<not> str_less y x" "\<not> str_less z y" for z
    using that str_less_trans str_less_total by blast
  then show ?case using Cons s by (auto dest: str_less_asym)
qed simp

lemma str_sort_correct: "mset (str_sort xs) = mset xs \<and> sorted_wrt (\<lambda>a b. \<not> str_less b a) (str_sort xs)"
  by (induction xs) (auto simp: str_sort_def mset_str_insert sorted_str_insert)

text \<open>
  Listing a directory leaves the entries of the file system in byte order,
  none lost and none added, so that the indices programs use do not depend on the order in which
  the operating system reports them.
\<close>

theorem listdir_sorted:
  assumes "vshape s" and "regString 56 1 s = Ok path" and "sys_listdir E B s = Ok s'"
  shows "mset (m_directoryEntries s') = mset (fst (fs_list E path (m_world s)))
    \<and> sorted_wrt (\<lambda>a b. \<not> str_less b a) (m_directoryEntries s')"
proof -
  obtain es ec where f: "fs_list E path (m_world s) = (es, ec)" by (cases "fs_list E path (m_world s)")
  let ?s = "s\<lparr>m_directoryEntries := str_sort es, m_ioError := (case ec of Some m \<Rightarrow> m | None \<Rightarrow> [])\<rparr>"
  have v: "vshape ?s" using assms(1) by (simp add: vshape_def)
  have "setReg B 0 (if ec = None then int (length es) else - 1) TAG_INT ?s = Ok s'"
    using assms(2,3) f by (simp add: sys_listdir_def result_int_def Let_def)
  from setReg_result [OF v this] have "m_directoryEntries s' = str_sort es"
    by (auto simp: reg_written_def same_heap_def)
  with f str_sort_correct [of es] show ?thesis by simp
qed

theorem listdir_sorted_witness:
  "\<forall>E :: unit env. \<exists>s'.
     sys_listdir (E\<lparr>fs_list := (\<lambda>p w. ([''b'', ''a''], None))\<rparr>) NoGCBackend (caller_state\<lparr>m_runtimeStrings := [''d'']\<rparr>) = Ok s'
     \<and> mset (m_directoryEntries s') = {#''a'', ''b''#} \<and> sorted_wrt (\<lambda>a b. \<not> str_less b a) (m_directoryEntries s')"
proof
  fix E :: "unit env"
  let ?E = "E\<lparr>fs_list := (\<lambda>p w. ([''b'', ''a''], None))\<rparr>"
  let ?s = "caller_state\<lparr>m_runtimeStrings := [''d'']\<rparr>"
  have v: "vshape ?s" using caller_shape(1) by (simp add: vshape_def)
  have r: "regString 56 1 ?s = Ok ''d''"
    by (simp add: regString_def pool_string_def caller_state_def VM_init_def NREGS_def i64_to_u32_def Let_def)
  have "\<exists>s'. sys_listdir ?E NoGCBackend ?s = Ok s'"
    using r by (simp add: sys_listdir_def Let_def result_int_def) (rule nogc_setReg_Ok, simp add: NREGS_def)
  then obtain s' where "sys_listdir ?E NoGCBackend ?s = Ok s'" by blast
  with listdir_sorted [OF v r this]
  show "\<exists>s'. sys_listdir ?E NoGCBackend ?s = Ok s' \<and> mset (m_directoryEntries s') = {#''a'', ''b''#}
     \<and> sorted_wrt (\<lambda>a b. \<not> str_less b a) (m_directoryEntries s')"
    by auto
qed

section \<open>The type test\<close>

definition parent_rel :: "nat list \<Rightarrow> (nat \<times> nat) set" where
  "parent_rel parents = {(a, b). a < length parents \<and> a \<noteq> 4294967295 \<and> b = parents ! a}"

lemma parent_rel_iff: "(a, b) \<in> parent_rel parents \<longleftrightarrow> a < length parents \<and> a \<noteq> 4294967295 \<and> b = parents ! a"
  by (simp add: parent_rel_def)

lemma parent_closure:
  "(ty, target) \<in> (parent_rel parents)\<^sup>* \<longleftrightarrow> ty = target \<or>
     (ty < length parents \<and> ty \<noteq> 4294967295 \<and> (parents ! ty, target) \<in> (parent_rel parents)\<^sup>*)"
  by (auto simp: parent_rel_iff elim: converse_rtranclE intro: converse_rtrancl_into_rtrancl)

lemma isa_walk_correct:
  fixes rank :: "nat \<Rightarrow> nat"
  assumes "\<And>a. a < length parents \<Longrightarrow> parents ! a \<noteq> 4294967295 \<Longrightarrow> rank (parents ! a) < rank a"
  shows "isa_walk parents target ty = Some (target \<noteq> 4294967295 \<and> (ty, target) \<in> (parent_rel parents)\<^sup>*)"
proof (induction "rank ty" arbitrary: ty rule: less_induct)
  case less
  note stop = parent_closure [of ty target parents]
  show ?case
  proof (cases "ty = 4294967295 \<or> ty = target \<or> ty \<ge> length parents")
    case True
    then show ?thesis by (subst isa_walk.simps) (auto simp: stop)
  next
    case False
    then have w: "isa_walk parents target ty = isa_walk parents target (parents ! ty)"
      by (subst isa_walk.simps) simp
    show ?thesis
    proof (cases "parents ! ty = 4294967295")
      case True
      have "isa_walk parents target 4294967295 = Some False" by (subst isa_walk.simps) simp
      moreover have "(4294967295, target) \<in> (parent_rel parents)\<^sup>* \<longleftrightarrow> target = 4294967295"
        using parent_closure [of 4294967295] by auto
      ultimately show ?thesis using w True False stop by simp
    next
      case False': False
      with False assms have "rank (parents ! ty) < rank ty" by simp
      from less [OF this] w False stop show ?thesis by simp
    qed
  qed
qed

text \<open>
  Property C26 (functional).  On an acyclic class hierarchy (every class has a larger rank than its
  parent) the type test returns, and answers whether the target is the object's type or one of its
  ancestors; values that are not objects have no type.
\<close>

theorem isa_answers_ancestry:
  fixes rank :: "nat \<Rightarrow> nat"
  assumes "\<And>a. a < length (ch_typeParents (m_chunk s)) \<Longrightarrow> ch_typeParents (m_chunk s) ! a \<noteq> 4294967295 \<Longrightarrow>
      rank (ch_typeParents (m_chunk s) ! a) < rank a"
    and "reg_of o0 < NREGS" and "op_tag o1 = TImm64" and "valid (m_heap s) (i64_to_u32 (m_regs s ! reg_of o0))"
  shows "exec_IsA B [o0, o1, o2] s =
    set_next B (reg_of o2)
      (if m_rtag s ! reg_of o0 = TAG_HEAP \<and> i64_to_u32 (op_intVal o1) \<noteq> 4294967295
          \<and> (getTypeId (m_heap s) (i64_to_u32 (m_regs s ! reg_of o0)), i64_to_u32 (op_intVal o1))
              \<in> (parent_rel (ch_typeParents (m_chunk s)))\<^sup>* then 1 else 0) TAG_INT s"
  using assms(2-4) isa_walk_correct [of "ch_typeParents (m_chunk s)" rank, OF assms(1)]
  by (simp add: exec_IsA_def get_reg_def readIntOperand_def Let_def)

definition typed_state :: "(gc_metrics, unit) vm" where
  "typed_state = caller_state\<lparr>m_heap := one_object, m_chunk := empty_chunk\<lparr>ch_typeParents := [4294967295, 0, 1, 2]\<rparr>,
     m_regs := (replicate NREGS 0)[16 := 1], m_rtag := (replicate NREGS 0)[16 := TAG_HEAP]\<rparr>"

theorem isa_answers_ancestry_witness:
  "exec_IsA NoGCBackend [\<lparr>op_tag = TReg, op_intVal = 16, op_strIdx = 0\<rparr>, \<lparr>op_tag = TImm64, op_intVal = 1, op_strIdx = 0\<rparr>,
     \<lparr>op_tag = TReg, op_intVal = 17, op_strIdx = 0\<rparr>] typed_state = set_next NoGCBackend 17 1 TAG_INT typed_state"
proof -
  let ?r = "\<lambda>i. \<lparr>op_tag = TReg, op_intVal = i, op_strIdx = 0\<rparr>"
  let ?o1 = "\<lparr>op_tag = TImm64, op_intVal = 1, op_strIdx = 0\<rparr>"
  have r: "reg_of (?r 16) = 16" "reg_of (?r 17) = 17" "i64_to_u32 1 = 1" by (simp_all add: reg_of_def i64_to_u16_def i64_to_u32_def)
  have t: "ch_typeParents (m_chunk typed_state) = [4294967295, 0, 1, 2]" "m_rtag typed_state ! 16 = TAG_HEAP"
    "i64_to_u32 (m_regs typed_state ! 16) = 1" "getTypeId (m_heap typed_state) 1 = 3" "valid (m_heap typed_state) 1"
    by (simp_all add: typed_state_def NREGS_def i64_to_u32_def one_object_eq getTypeId_def valid_def)
  have up: "(3, 1) \<in> (parent_rel [4294967295, 0, 1, 2])\<^sup>*"
    using parent_closure [of 3 1 "[4294967295, 0, 1, 2]"] parent_closure [of 2 1 "[4294967295, 0, 1, 2]"] by simp
  have rank: "id (ch_typeParents (m_chunk typed_state) ! a) < id a"
    if "a < length (ch_typeParents (m_chunk typed_state))" "ch_typeParents (m_chunk typed_state) ! a \<noteq> 4294967295" for a
  proof -
    from that(1) have "a = 0 \<or> a = 1 \<or> a = 2 \<or> a = 3" by (auto simp: t(1))
    with that(2) show ?thesis by (auto simp: t(1))
  qed
  have "valid (m_heap typed_state) (i64_to_u32 (m_regs typed_state ! reg_of (?r 16)))" "reg_of (?r 16) < NREGS"
    by (simp_all only: r t) (simp add: NREGS_def)
  then show ?thesis
    using isa_answers_ancestry [of typed_state id "?r 16" ?o1 NoGCBackend "?r 17"] rank up
    by (simp add: r t del: One_nat_def)
qed

lemma isa_self_parent:
  "isa_walk parents target ty = Some b \<Longrightarrow> ty < length parents \<Longrightarrow> parents ! ty = ty \<Longrightarrow> ty \<noteq> 4294967295 \<Longrightarrow> ty = target"
  by (rule isa_walk.raw_induct [where P = "\<lambda>ps t y b. y < length ps \<longrightarrow> ps ! y = y \<longrightarrow> y \<noteq> 4294967295 \<longrightarrow> y = t",
        THEN mp, THEN mp, THEN mp]) (auto split: if_splits)

text \<open>
  A divergence.  On a cyclic hierarchy the walk does not end: a class that is its own
  parent, tested against another class, never answers.
\<close>

theorem isa_cycle_diverges:
  assumes "ty < length parents" and "parents ! ty = ty" and "ty \<noteq> 4294967295" and "ty \<noteq> target"
  shows "isa_walk parents target ty = None"
  using isa_self_parent [of parents target ty] assms by (cases "isa_walk parents target ty") auto

theorem isa_cycle_diverges_witness: "isa_walk [0] 1 0 = None"
  using isa_cycle_diverges [of 0 "[0]" 1] by simp

section \<open>The heap at its limits\<close>

lemma alloc_full:
  assumes "take_handle h = None"
  shows "fst (alloc sz ty h) = INVALID \<and> take_handle (snd (alloc sz ty h)) = None"
  using assms take_handle_payload [of "cells_for sz" h]
  by (cases "take_payload (cells_for sz) h") (simp add: alloc_def)

lemma raiseRuntime_full:
  assumes "take_handle (m_heap s) = None"
  shows "\<exists>e. raiseRuntime B m s = Panic e"
proof (cases "type_index ''RuntimeException'' (ch_typeNames (m_chunk s))")
  case (Some t)
  have "fst (alloc SLOT_SIZE t (m_heap s)) = INVALID" using alloc_full [OF assms] by blast
  with Some show ?thesis by (cases "alloc SLOT_SIZE t (m_heap s)") (simp add: raiseRuntime_def panic_def)
qed (simp add: raiseRuntime_def panic_def)

lemma alloc_into_full:
  assumes "take_handle (m_heap s) = None"
  shows "\<exists>e. alloc_into B sz ty dst s = Panic e"
proof -
  obtain h1 where h: "alloc sz ty (m_heap s) = (INVALID, h1)" "take_handle h1 = None"
    using alloc_full [OF assms, of sz ty] by (cases "alloc sz ty (m_heap s)") simp
  then show ?thesis using raiseRuntime_full [of "s\<lparr>m_heap := h1\<rparr>"] by (simp add: alloc_into_def)
qed

text \<open>
  Property C27 (error).  When no handle is free and the slot table has reached its limit, every allocation ends the
  program with a panic, not with the catchable exception that the code raises: the \<open>alloc\<close> instruction with a size from
  a register or an immediate and the native function \<open>halloc\<close>, of any size, whatever handlers are installed.  The
  exception object itself needs a slot, and none is left, so every other runtime exception panics as well.
\<close>

theorem heap_exhaustion_panics:
  assumes "take_handle (m_heap s) = None"
  shows "(\<forall>o0 o1 o2 rest v. readIntOperand s o1 = Ok v \<longrightarrow> (\<exists>e. exec_Alloc B (o0 # o1 # o2 # rest) s = Panic e))
    \<and> (\<exists>e. invokeSyscall E B 20 s = Panic e) \<and> (\<forall>m. \<exists>e. raiseRuntime B m s = Panic e)"
proof (intro conjI allI impI)
  fix o0 o1 o2 rest v assume "readIntOperand s o1 = Ok v"
  then show "\<exists>e. exec_Alloc B (o0 # o1 # o2 # rest) s = Panic e"
    using alloc_into_full [OF assms, of B "i64_to_u32 v" "i64_to_u32 (op_intVal o0)" "reg_of o2"] by (auto simp: exec_Alloc_def)
next
  show "\<exists>e. invokeSyscall E B 20 s = Panic e"
    using alloc_into_full [OF assms] by (simp add: invokeSyscall_def sys_halloc_def)
qed (rule raiseRuntime_full [OF assms])

definition full_heap :: heap where
  "full_heap = reserveSlots 1 Heap_init"

theorem heap_exhaustion_panics_witness:
  "\<exists>e. exec_Alloc NoGCBackend [\<lparr>op_tag = TImm64, op_intVal = 0, op_strIdx = 0\<rparr>, \<lparr>op_tag = TReg, op_intVal = 3, op_strIdx = 0\<rparr>,
      \<lparr>op_tag = TReg, op_intVal = 16, op_strIdx = 0\<rparr>] (guarded_state\<lparr>m_heap := full_heap\<rparr>) = Panic e"
proof -
  have "take_handle (m_heap (guarded_state\<lparr>m_heap := full_heap\<rparr>)) = None"
    by (simp add: full_heap_def take_handle_def reserveSlots_def Heap_init_def u32_cast_def)
  moreover have "reg_of \<lparr>op_tag = TReg, op_intVal = 3, op_strIdx = 0\<rparr> < NREGS" by (simp add: reg_of_def i64_to_u16_def NREGS_def)
  then have "\<exists>v. readIntOperand (guarded_state\<lparr>m_heap := full_heap\<rparr>) \<lparr>op_tag = TReg, op_intVal = 3, op_strIdx = 0\<rparr> = Ok v"
    by (simp add: readIntOperand_def get_reg_def)
  ultimately show ?thesis using heap_exhaustion_panics [of "guarded_state\<lparr>m_heap := full_heap\<rparr>" NoGCBackend] by blast
qed

text \<open>
  A divergence.  A store whose byte offset is inside the object but not a multiple of the cell
  size is accepted, and can turn the payload of an integer into the tag of the cell before it: in
  a fresh object of two cells, one integer store at offset 8 makes cell 0 a reference to an
  object that does not exist.
\<close>

theorem misaligned_store_forges:
  "\<exists>h. storeCell 1 8 2 TAG_INT one_object = Some (True, h) \<and> ref_at h (1, 0) = Some 0 \<and> \<not> valid h 0"
proof -
  have "storeCell 1 8 2 TAG_INT one_object
      = Some (True, one_object\<lparr>memory := write_at 8 (cell_bytes 2 TAG_INT) (replicate 18 0)\<rparr>)"
    by (simp add: one_object_eq storeCell_def access_ok_def SLOT_SIZE_def INVALID_def u32_cast_def)
  moreover have "take 9 (write_at 8 (cell_bytes 2 TAG_INT) (replicate 18 0)) = cell_bytes 0 TAG_HEAP"
  proof -
    have "take 1 (le_bytes 8 2) = [2]" by (simp add: le_bytes_def byte_at_def upt_rec)
    moreover have "le_bytes 8 0 = replicate 8 0"
      by (intro nth_equalityI) (simp_all add: le_bytes_def byte_at_def)
    ultimately show ?thesis
      by (simp add: write_at_def cell_bytes_def i64_to_u64_def tag_defs)
  qed
  then have "ref_at (one_object\<lparr>memory := write_at 8 (cell_bytes 2 TAG_INT) (replicate 18 0)\<rparr>) (1, 0) = Some 0"
    by (simp add: one_object_eq ref_at_def loadCell_def access_ok_def SLOT_SIZE_def INVALID_def u32_cast_def
        write_at_def cell_roundtrip in_i64_def i64_to_u32_def del: take_append drop_append)
  ultimately show ?thesis by (simp add: valid_def one_object_eq empty_slot_def)
qed

end
