(* ===== verification/Lx_Token.thy ===== *)
theory Lx_Token
  imports Lx_Prelude
begin

text \<open>
  Tokens, source positions and diagnostics of the front end (\<open>v2/Token.hpp\<close>).
\<close>

section \<open>Positions and diagnostics\<close>

record source_location =
  sl_file :: string
  sl_line :: nat
  sl_col :: nat

definition fmt_loc :: "source_location \<Rightarrow> string" where
  "fmt_loc l = sl_file l @ '':'' @ string_of_nat (sl_line l) @ '':'' @ string_of_nat (sl_col l)"

datatype diag_severity = SevError | SevWarning

datatype diag_kind = DiagSyntax | DiagType | DiagCompiler

record source_span =
  sp_start :: source_location
  sp_end :: source_location

record labeled_span =
  ls_span :: source_span
  ls_label :: string

record diagnostic =
  dg_severity :: diag_severity
  dg_kind :: diag_kind
  dg_message :: string
  dg_primary :: labeled_span
  dg_secondary :: "labeled_span list"
  dg_notes :: "string list"
  dg_help :: "string option"

section \<open>Tokens\<close>

datatype (plugins only: size) tk =
    Eof | Ident | IntLit | FloatLit | StringLit | CharLit | KwPackage | KwImport | KwFrom | KwFun
    | KwLet | KwVar | KwVal | KwClass | KwInterface | KwObject | KwEnum | KwOpen | KwAbstract
    | KwData | KwOverride | KwInit | KwCompanion | KwFor | KwWhile | KwIf | KwElse | KwWhen
    | KwReturn | KwBreak | KwContinue | KwLoop | KwThrow | KwTry | KwCatch | KwFinally | KwTrue
    | KwFalse | KwNull | KwIs | KwIn | KwAs | KwWhere | KwType | KwConst | KwPublic | KwInternal
    | KwPrivate | LParen | RParen | LBrace | RBrace | LBracket | RBracket | Comma | Dot | DotDot
    | DotDotEq | Colon | DColon | Semi | Arrow | FatArrow | Pound | Dollar | At | Plus | Minus
    | Star | Slash | Percent | Amp | Pipe | Caret | Tilde | Bang | Question | Lt | Gt | Le | Ge | Eq
    | EqEq | Ne | AndAnd | OrOr | Shl | Shr | PlusEq | MinusEq | StarEq | SlashEq | PercentEq
    | AmpEq | PipeEq | CaretEq | ShlEq | ShrEq | Newline | Underscore

record token =
  tk_kind :: tk
  tk_lex :: string
  tk_loc :: source_location

definition quoted :: "string \<Rightarrow> string" where
  "quoted s = [CHR 0x27] @ s @ [CHR 0x27]"

primrec tkName :: "tk \<Rightarrow> string" where
  "tkName Eof = ''EOF''"
| "tkName Ident = ''identifier''"
| "tkName IntLit = ''integer''"
| "tkName FloatLit = ''float''"
| "tkName StringLit = ''string''"
| "tkName CharLit = ''char''"
| "tkName KwPackage = quoted ''package''"
| "tkName KwImport = quoted ''import''"
| "tkName KwFrom = quoted ''from''"
| "tkName KwFun = quoted ''fun''"
| "tkName KwLet = quoted ''let''"
| "tkName KwVar = quoted ''var''"
| "tkName KwVal = quoted ''val''"
| "tkName KwClass = quoted ''class''"
| "tkName KwInterface = quoted ''interface''"
| "tkName KwObject = quoted ''object''"
| "tkName KwEnum = quoted ''enum''"
| "tkName KwOpen = quoted ''open''"
| "tkName KwAbstract = quoted ''abstract''"
| "tkName KwData = quoted ''data''"
| "tkName KwOverride = quoted ''override''"
| "tkName KwInit = quoted ''init''"
| "tkName KwCompanion = quoted ''companion''"
| "tkName KwFor = quoted ''for''"
| "tkName KwWhile = quoted ''while''"
| "tkName KwIf = quoted ''if''"
| "tkName KwElse = quoted ''else''"
| "tkName KwWhen = quoted ''when''"
| "tkName KwReturn = quoted ''return''"
| "tkName KwBreak = quoted ''break''"
| "tkName KwContinue = quoted ''continue''"
| "tkName KwLoop = quoted ''loop''"
| "tkName KwThrow = quoted ''throw''"
| "tkName KwTry = quoted ''try''"
| "tkName KwCatch = quoted ''catch''"
| "tkName KwFinally = quoted ''finally''"
| "tkName KwTrue = quoted ''true''"
| "tkName KwFalse = quoted ''false''"
| "tkName KwNull = quoted ''null''"
| "tkName KwIs = quoted ''is''"
| "tkName KwIn = quoted ''in''"
| "tkName KwAs = quoted ''as''"
| "tkName KwWhere = quoted ''where''"
| "tkName KwType = quoted ''type''"
| "tkName KwConst = quoted ''const''"
| "tkName KwPublic = quoted ''public''"
| "tkName KwInternal = quoted ''internal''"
| "tkName KwPrivate = quoted ''private''"
| "tkName LParen = quoted ''(''"
| "tkName RParen = quoted '')''"
| "tkName LBrace = quoted ''{''"
| "tkName RBrace = quoted ''}''"
| "tkName LBracket = quoted ''[''"
| "tkName RBracket = quoted '']''"
| "tkName Comma = quoted '',''"
| "tkName Dot = quoted ''.''"
| "tkName DotDot = quoted ''..''"
| "tkName DotDotEq = quoted ''..=''"
| "tkName Colon = quoted '':''"
| "tkName DColon = quoted ''::''"
| "tkName Semi = quoted '';''"
| "tkName Arrow = quoted ''->''"
| "tkName FatArrow = quoted ''=>''"
| "tkName Pound = quoted ''#''"
| "tkName Dollar = quoted ''$''"
| "tkName At = quoted ''@''"
| "tkName Plus = quoted ''+''"
| "tkName Minus = quoted ''-''"
| "tkName Star = quoted ''*''"
| "tkName Slash = quoted ''/''"
| "tkName Percent = quoted ''%''"
| "tkName Amp = quoted ''&''"
| "tkName Pipe = quoted ''|''"
| "tkName Caret = quoted ''^''"
| "tkName Tilde = quoted ''~''"
| "tkName Bang = quoted ''!''"
| "tkName Question = quoted ''?''"
| "tkName Lt = quoted ''<''"
| "tkName Gt = quoted ''>''"
| "tkName Le = quoted ''<=''"
| "tkName Ge = quoted ''>=''"
| "tkName Eq = quoted ''=''"
| "tkName EqEq = quoted ''==''"
| "tkName Ne = quoted ''!=''"
| "tkName AndAnd = quoted ''&&''"
| "tkName OrOr = quoted ''||''"
| "tkName Shl = quoted ''<<''"
| "tkName Shr = quoted ''>>''"
| "tkName PlusEq = quoted ''+=''"
| "tkName MinusEq = quoted ''-=''"
| "tkName StarEq = quoted ''*=''"
| "tkName SlashEq = quoted ''/=''"
| "tkName PercentEq = quoted ''%=''"
| "tkName AmpEq = quoted ''&=''"
| "tkName PipeEq = quoted ''|=''"
| "tkName CaretEq = quoted ''^=''"
| "tkName ShlEq = quoted ''<<=''"
| "tkName ShrEq = quoted ''>>=''"
| "tkName Newline = ''newline''"
| "tkName Underscore = quoted ''_''"

end
