(* ===== verification/Lx_Lexer.thy ===== *)
theory Lx_Lexer
  imports Lx_Token
begin

text \<open>
  The scanner (\<open>v2/frontend/Lexer.cpp\<close>): the cursor with its line and column counters, the scanning
  loops, and the main loop of \<open>tokenize\<close>, one definition per group of cases.  The 32-bit counters wrap.
  A \<open>FrontendError\<close> is the left side of a sum.
\<close>

section \<open>The cursor\<close>

record lexer =
  lx_src :: string
  lx_file :: string
  lx_pos :: nat
  lx_line :: nat
  lx_col :: nat

definition Lexer_init :: "string \<Rightarrow> string \<Rightarrow> source_location \<Rightarrow> lexer" where
  "Lexer_init source filename start =
     \<lparr>lx_src = source, lx_file = filename, lx_pos = 0,
      lx_line = (if sl_line start \<noteq> 0 then sl_line start else 1),
      lx_col = (if sl_line start \<noteq> 0 then sl_col start else 1)\<rparr>"

definition no_location :: source_location where
  "no_location = \<lparr>sl_file = [], sl_line = 0, sl_col = 0\<rparr>"

definition atEnd :: "lexer \<Rightarrow> bool" where
  "atEnd lx \<longleftrightarrow> lx_pos lx \<ge> length (lx_src lx)"

definition NUL :: char where "NUL = CHR 0x00"
definition LF :: char where "LF = CHR 0x0A"
definition CR :: char where "CR = CHR 0x0D"
definition TAB :: char where "TAB = CHR 0x09"
definition DQ :: char where "DQ = CHR 0x22"
definition SQ :: char where "SQ = CHR 0x27"
definition BSL :: char where "BSL = CHR 0x5C"

lemmas char_defs = NUL_def LF_def CR_def TAB_def DQ_def SQ_def BSL_def

definition peek :: "lexer \<Rightarrow> nat \<Rightarrow> char" where
  "peek lx off = (if lx_pos lx + off < length (lx_src lx) then lx_src lx ! (lx_pos lx + off) else NUL)"

text \<open>\<open>advance\<close>; the character it returns is the one at the cursor (\<open>'\0'\<close> at the end).\<close>

definition advance :: "lexer \<Rightarrow> lexer" where
  "advance lx =
     (let c = peek lx 0; lx1 = lx\<lparr>lx_pos := lx_pos lx + 1\<rparr> in
      if c = LF \<or> (c = CR \<and> peek lx1 0 \<noteq> LF)
      then lx1\<lparr>lx_line := u32_cast (lx_line lx + 1), lx_col := 1\<rparr>
      else lx1\<lparr>lx_col := u32_cast (lx_col lx + 1)\<rparr>)"

definition loc :: "lexer \<Rightarrow> source_location" where
  "loc lx = \<lparr>sl_file = lx_file lx, sl_line = lx_line lx, sl_col = lx_col lx\<rparr>"

text \<open>\<open>src.substr(start, n)\<close>.\<close>

definition substr :: "lexer \<Rightarrow> nat \<Rightarrow> nat \<Rightarrow> string" where
  "substr lx start n = take n (drop start (lx_src lx))"

lemma advance_simps [simp]:
  "lx_src (advance lx) = lx_src lx" "lx_file (advance lx) = lx_file lx" "lx_pos (advance lx) = lx_pos lx + 1"
  by (simp_all add: advance_def Let_def)

text \<open>\<open>forward lx lx'\<close>: the second cursor is reached from the first by advancing inside the text.\<close>

definition forward :: "lexer \<Rightarrow> lexer \<Rightarrow> bool" where
  "forward lx lx' \<longleftrightarrow> (\<exists>n. lx' = (advance ^^ n) lx \<and> (n = 0 \<or> lx_pos lx + n \<le> length (lx_src lx)))"

lemma advance_pow [simp]:
  "lx_src ((advance ^^ n) lx) = lx_src lx" "lx_file ((advance ^^ n) lx) = lx_file lx"
  "lx_pos ((advance ^^ n) lx) = lx_pos lx + n"
  by (induction n) auto

lemma forward_refl [simp]: "forward lx lx"
  unfolding forward_def by (rule exI [of _ 0]) simp

lemma forward_trans: "forward lx lx1 \<Longrightarrow> forward lx1 lx2 \<Longrightarrow> forward lx lx2"
proof -
  assume a: "forward lx lx1" "forward lx1 lx2"
  from a(1) obtain n where n: "lx1 = (advance ^^ n) lx" "n = 0 \<or> lx_pos lx + n \<le> length (lx_src lx)"
    unfolding forward_def by blast
  from a(2) obtain m where "lx2 = (advance ^^ m) lx1" "m = 0 \<or> lx_pos lx1 + m \<le> length (lx_src lx1)"
    unfolding forward_def by blast
  with n show ?thesis
    unfolding forward_def by (intro exI [of _ "m + n"]) (auto simp: funpow_add)
qed

lemma forward_step [simp]: "\<not> atEnd lx \<Longrightarrow> forward lx (advance lx)"
  unfolding forward_def atEnd_def by (rule exI [of _ 1]) simp

lemma forward_keeps:
  "forward lx lx' \<Longrightarrow> lx_src lx' = lx_src lx \<and> lx_file lx' = lx_file lx \<and> lx_pos lx \<le> lx_pos lx'"
  by (auto simp: forward_def)

lemma forward_advance: "forward lx lx1 \<Longrightarrow> \<not> atEnd lx1 \<Longrightarrow> forward lx (advance lx1)"
  using forward_trans forward_step by blast

lemma forward_after: "\<not> atEnd lx \<Longrightarrow> forward (advance lx) lx' \<Longrightarrow> forward lx lx'"
  using forward_trans forward_step by blast

lemma forward_shrinks:
  "\<not> atEnd lx \<Longrightarrow> forward (advance lx) lx' \<Longrightarrow>
   length (lx_src lx') - lx_pos lx' < length (lx_src lx) - lx_pos lx"
  using forward_keeps [of "advance lx" lx'] by (auto simp: atEnd_def)

text \<open>The loop \<open>while (!atEnd() && P(peek())) advance();\<close> of the scanner.\<close>

function advance_while :: "(char \<Rightarrow> bool) \<Rightarrow> lexer \<Rightarrow> lexer" where
  "advance_while P lx = (if \<not> atEnd lx \<and> P (peek lx 0) then advance_while P (advance lx) else lx)"
  by pat_completeness auto
termination
  by (relation "measure (\<lambda>(P, lx). length (lx_src lx) - lx_pos lx)") (auto simp: atEnd_def)

declare advance_while.simps [simp del]

lemma advance_while_forward: "forward lx (advance_while P lx)"
proof (induction P lx rule: advance_while.induct)
  case (1 P lx)
  then show ?case
    by (subst advance_while.simps) (auto intro: forward_trans forward_step)
qed

definition skipSpace :: "lexer \<Rightarrow> lexer" where
  "skipSpace = advance_while (\<lambda>c. c = CHR '' '' \<or> c = TAB)"

definition match :: "char \<Rightarrow> lexer \<Rightarrow> bool \<times> lexer" where
  "match c lx = (if peek lx 0 = c then (True, advance lx) else (False, lx))"

section \<open>Characters and keywords\<close>

text \<open>The classes of \<open><cctype>\<close> in the C locale.\<close>

definition code :: "char \<Rightarrow> nat" where "code c = of_char c"

definition isdigit :: "char \<Rightarrow> bool" where
  "isdigit c \<longleftrightarrow> 48 \<le> code c \<and> code c \<le> 57"

definition isalpha :: "char \<Rightarrow> bool" where
  "isalpha c \<longleftrightarrow> (65 \<le> code c \<and> code c \<le> 90) \<or> (97 \<le> code c \<and> code c \<le> 122)"

definition isxdigit :: "char \<Rightarrow> bool" where
  "isxdigit c \<longleftrightarrow> isdigit c \<or> (65 \<le> code c \<and> code c \<le> 70) \<or> (97 \<le> code c \<and> code c \<le> 102)"

definition isIdStart :: "char \<Rightarrow> bool" where
  "isIdStart c \<longleftrightarrow> c = CHR ''_'' \<or> isalpha c"

definition isIdCont :: "char \<Rightarrow> bool" where
  "isIdCont c \<longleftrightarrow> c = CHR ''_'' \<or> isalpha c \<or> isdigit c"

definition keyword_table :: "(string \<times> tk) list" where
  "keyword_table =
    [(''package'', KwPackage), (''import'', KwImport), (''from'', KwFrom), (''fun'', KwFun),
     (''let'', KwLet), (''var'', KwVar), (''val'', KwVal), (''class'', KwClass),
     (''interface'', KwInterface), (''object'', KwObject), (''enum'', KwEnum), (''open'', KwOpen),
     (''abstract'', KwAbstract), (''data'', KwData), (''override'', KwOverride), (''init'', KwInit),
     (''companion'', KwCompanion), (''for'', KwFor), (''while'', KwWhile), (''if'', KwIf),
     (''else'', KwElse), (''when'', KwWhen), (''return'', KwReturn), (''break'', KwBreak),
     (''continue'', KwContinue), (''loop'', KwLoop), (''throw'', KwThrow), (''try'', KwTry),
     (''catch'', KwCatch), (''finally'', KwFinally), (''true'', KwTrue), (''false'', KwFalse),
     (''null'', KwNull), (''is'', KwIs), (''in'', KwIn), (''as'', KwAs), (''where'', KwWhere),
     (''type'', KwType), (''const'', KwConst), (''public'', KwPublic), (''internal'', KwInternal),
     (''private'', KwPrivate)]"

definition keyword :: "string \<Rightarrow> tk" where
  "keyword s = (case map_of keyword_table s of Some k \<Rightarrow> k | None \<Rightarrow> Ident)"

section \<open>Literals\<close>

definition syntax_error :: "string \<Rightarrow> source_location \<Rightarrow> source_location \<Rightarrow> string \<Rightarrow> diagnostic" where
  "syntax_error msg start stop label =
     \<lparr>dg_severity = SevError, dg_kind = DiagSyntax, dg_message = msg,
      dg_primary = \<lparr>ls_span = \<lparr>sp_start = start, sp_end = stop\<rparr>, ls_label = label\<rparr>,
      dg_secondary = [], dg_notes = [], dg_help = None\<rparr>"

text \<open>\<open>if (!atEnd()) advance();\<close>\<close>

definition advance_opt :: "lexer \<Rightarrow> lexer" where
  "advance_opt lx = (if atEnd lx then lx else advance lx)"

lemma advance_opt_forward [simp]: "forward lx (advance_opt lx)"
  by (simp add: advance_opt_def)

lemma advance_opt_at: "\<not> atEnd lx \<Longrightarrow> advance_opt lx = advance lx"
  by (simp add: advance_opt_def)

text \<open>The body of a string literal nested in an interpolation.\<close>

function nested_str :: "lexer \<Rightarrow> lexer" where
  "nested_str lx =
     (if \<not> atEnd lx \<and> peek lx 0 \<noteq> DQ
      then nested_str (advance_opt (if peek lx 0 = BSL then advance lx else lx))
      else lx)"
  by pat_completeness auto
termination
  by (relation "measure (\<lambda>lx. length (lx_src lx) - lx_pos lx)") (auto simp: atEnd_def advance_opt_def)

declare nested_str.simps [simp del]

lemma nested_str_forward: "forward lx (nested_str lx)"
proof (induction lx rule: nested_str.induct)
  case (1 lx)
  show ?case
  proof (cases "\<not> atEnd lx \<and> peek lx 0 \<noteq> DQ")
    case True
    have "forward lx (advance_opt (if peek lx 0 = BSL then advance lx else lx))"
      using True by (auto intro: forward_trans [OF forward_step])
    with 1 [OF True] True show ?thesis
      by (subst nested_str.simps) (auto intro: forward_trans)
  next
    case False
    then show ?thesis by (subst nested_str.simps) auto
  qed
qed

text \<open>The code part of an interpolation, from after \<open>${\<close> to after its closing brace.\<close>

lemma nested_shrinks:
  "\<not> atEnd lx \<Longrightarrow> length (lx_src lx) - lx_pos (advance_opt (nested_str (advance lx))) < length (lx_src lx) - lx_pos lx"
  "\<not> atEnd lx \<Longrightarrow> length (lx_src lx) - lx_pos (advance_opt (advance lx)) < length (lx_src lx) - lx_pos lx"
  using forward_shrinks [of lx "advance_opt (nested_str (advance lx))"] forward_shrinks [of lx "advance_opt (advance lx)"]
    forward_keeps [OF nested_str_forward, of "advance lx"] forward_trans [OF nested_str_forward advance_opt_forward]
    forward_keeps [OF advance_opt_forward]
  by (metis advance_simps(1) advance_opt_forward)+

function interpolation :: "nat \<Rightarrow> lexer \<Rightarrow> lexer" where
  "interpolation depth lx =
     (if \<not> atEnd lx \<and> depth > 0 then
        (let d = peek lx 0 in
         if d = CHR ''{'' then interpolation (depth + 1) (advance lx)
         else if d = CHR ''}'' then interpolation (depth - 1) (advance lx)
         else if d = DQ then interpolation depth (advance_opt (nested_str (advance lx)))
         else if d = BSL then interpolation depth (advance_opt (advance lx))
         else interpolation depth (advance lx))
      else lx)"
  by pat_completeness auto
termination
proof (relation "measure (\<lambda>(d, lx). length (lx_src lx) - lx_pos lx)", goal_cases)
  case (4 depth lx d)
  with nested_shrinks(1) [of lx] forward_keeps [OF nested_str_forward, of "advance lx"]
    forward_keeps [OF advance_opt_forward, of "nested_str (advance lx)"] show ?case by simp
next
  case (5 depth lx d)
  with nested_shrinks(2) [of lx] forward_keeps [OF advance_opt_forward, of "advance lx"] show ?case by simp
qed (auto simp: atEnd_def)

declare interpolation.simps [simp del]

lemma interpolation_forward: "forward lx (interpolation depth lx)"
proof (induction depth lx rule: interpolation.induct)
  case (1 depth lx)
  show ?case
  proof (cases "\<not> atEnd lx \<and> depth > 0")
    case True
    note step = forward_trans [OF forward_step [of lx]]
    have f: "forward lx (advance_opt (nested_str (advance lx)))" "forward lx (advance_opt (advance lx))"
      using True by (auto intro!: step intro: forward_trans [OF nested_str_forward advance_opt_forward])
    from True 1 show ?thesis
      by (subst interpolation.simps) (auto simp: Let_def char_defs intro: step forward_trans [OF f(1)] forward_trans [OF f(2)])
  next
    case False
    then show ?thesis by (subst interpolation.simps) auto
  qed
qed

text \<open>The loop of \<open>literalStr\<close> after the opening quote: whether the closing quote was found, and the cursor.\<close>

function str_body :: "lexer \<Rightarrow> bool \<times> lexer" where
  "str_body lx =
     (if atEnd lx then (False, lx)
      else let c = peek lx 0 in
        if c = BSL then str_body (advance_opt (advance lx))
        else if c = DQ then (True, advance lx)
        else if c = CHR ''$'' \<and> peek lx 1 = CHR ''{'' then str_body (interpolation 1 (advance (advance lx)))
        else str_body (advance lx))"
  by pat_completeness auto
termination
proof (relation "measure (\<lambda>lx. length (lx_src lx) - lx_pos lx)", goal_cases)
  case (2 lx c)
  with nested_shrinks(2) [of lx] forward_keeps [OF advance_opt_forward, of "advance lx"] show ?case by simp
next
  case (3 lx c)
  with forward_keeps [OF interpolation_forward, of 1 "advance (advance lx)"] show ?case by (auto simp: atEnd_def)
qed (auto simp: atEnd_def)

declare str_body.simps [simp del]

lemma peek_not_end: "peek lx k \<noteq> NUL \<Longrightarrow> lx_pos lx + k < length (lx_src lx)"
  by (simp add: peek_def split: if_splits)

lemma str_body_steps:
  "atEnd lx \<Longrightarrow> str_body lx = (False, lx)"
  "\<not> atEnd lx \<Longrightarrow> peek lx 0 = BSL \<Longrightarrow> str_body lx = str_body (advance_opt (advance lx))"
  "\<not> atEnd lx \<Longrightarrow> peek lx 0 = DQ \<Longrightarrow> str_body lx = (True, advance lx)"
  "\<not> atEnd lx \<Longrightarrow> peek lx 0 = CHR ''$'' \<Longrightarrow> peek lx 1 = CHR ''{'' \<Longrightarrow>
     str_body lx = str_body (interpolation 1 (advance (advance lx)))"
  "\<not> atEnd lx \<Longrightarrow> peek lx 0 \<noteq> BSL \<Longrightarrow> peek lx 0 \<noteq> DQ \<Longrightarrow> \<not> (peek lx 0 = CHR ''$'' \<and> peek lx 1 = CHR ''{'') \<Longrightarrow>
     str_body lx = str_body (advance lx)"
  by (auto simp: str_body.simps [of lx] Let_def char_defs)

lemma interp_forward:
  assumes "\<not> atEnd lx" and "peek lx 1 = CHR ''{''"
  shows "forward lx (interpolation 1 (advance (advance lx)))"
proof -
  have "\<not> atEnd (advance lx)" using peek_not_end [of lx 1] assms by (simp add: atEnd_def NUL_def)
  with assms(1) show ?thesis
    by (intro forward_after [OF assms(1)] forward_after [of "advance lx"] interpolation_forward)
qed

lemma str_body_forward: "forward lx (snd (str_body lx))"
proof (induction lx rule: str_body.induct)
  case (1 lx)
  consider (stop) "atEnd lx" | (esc) "\<not> atEnd lx" "peek lx 0 = BSL" | (quote) "\<not> atEnd lx" "peek lx 0 = DQ"
    | (interp) "\<not> atEnd lx" "peek lx 0 = CHR ''$''" "peek lx 1 = CHR ''{''" "peek lx 0 \<noteq> BSL" "peek lx 0 \<noteq> DQ"
    | (other) "\<not> atEnd lx" "peek lx 0 \<noteq> BSL" "peek lx 0 \<noteq> DQ" "\<not> (peek lx 0 = CHR ''$'' \<and> peek lx 1 = CHR ''{'')"
    by blast
  then show ?case
  proof cases
    case esc
    then show ?thesis
      using "1.IH"(1) [OF esc(1) refl esc(2)] forward_trans [OF forward_step [OF esc(1)] advance_opt_forward]
      by (auto simp: str_body_steps(2) intro: forward_trans)
  next
    case interp
    then show ?thesis
      using "1.IH"(2) [OF interp(1) refl interp(4,5)] interp_forward [OF interp(1,3)]
      by (auto simp: str_body_steps(4) intro: forward_trans)
  next
    case other
    then show ?thesis
      using forward_after [OF other(1) "1.IH"(3) [OF other(1) refl other(2,3,4)]]
      by (simp add: str_body_steps(5) [OF other])
  qed (auto simp: str_body_steps)
qed

definition literalStr :: "lexer \<Rightarrow> diagnostic + (string \<times> lexer)" where
  "literalStr lx =
     (let (closed, lx1) = str_body (advance lx) in
      if closed then Inr (substr lx1 (lx_pos lx) (lx_pos lx1 - lx_pos lx), lx1)
      else Inl (syntax_error ''unterminated string literal'' (loc lx) (loc lx1) ''string starts here''))"

definition literalChar :: "lexer \<Rightarrow> diagnostic + (string \<times> lexer)" where
  "literalChar lx =
     (let lx1 = advance lx;
          lx2 = (if \<not> atEnd lx1 \<and> peek lx1 0 = BSL then advance_opt (advance lx1)
                 else if \<not> atEnd lx1 \<and> peek lx1 0 \<noteq> SQ \<and> peek lx1 0 \<noteq> LF \<and> peek lx1 0 \<noteq> CR then advance lx1
                 else lx1) in
      if atEnd lx2 \<or> peek lx2 0 \<noteq> SQ
      then Inl (syntax_error ''unterminated character literal'' (loc lx) (loc lx2) ''character literal starts here'')
      else let lx3 = advance lx2 in Inr (substr lx3 (lx_pos lx) (lx_pos lx3 - lx_pos lx), lx3))"

section \<open>Numbers\<close>

definition digit_or_us :: "char \<Rightarrow> bool" where
  "digit_or_us c \<longleftrightarrow> isdigit c \<or> c = CHR ''_''"

definition radix_prefix :: "lexer \<Rightarrow> bool" where
  "radix_prefix lx \<longleftrightarrow>
     peek lx 0 = CHR ''0'' \<and> (peek lx 1 = CHR ''x'' \<or> peek lx 1 = CHR ''b'' \<or> peek lx 1 = CHR ''o'')"

text \<open>The exponent: without a digit after it the cursor and the column go back to the \<open>e\<close>.\<close>

definition lexExponent :: "lexer \<Rightarrow> lexer \<Rightarrow> lexer" where
  "lexExponent lx0 lx =
     (let a = advance lx;
          b = (if peek a 0 = CHR ''+'' \<or> peek a 0 = CHR ''-'' then advance a else a) in
      if \<not> isdigit (peek b 0)
      then b\<lparr>lx_pos := lx_pos lx, lx_col := u32_cast (lx_col lx0 + u32_cast (lx_pos lx - lx_pos lx0))\<rparr>
      else advance_while digit_or_us b)"

definition lexFraction :: "lexer \<Rightarrow> bool \<times> lexer" where
  "lexFraction lx =
     (if peek lx 0 = CHR ''.'' \<and> isdigit (peek lx 1) then (True, advance_while digit_or_us (advance lx))
      else (False, lx))"

definition lexSuffix :: "lexer \<Rightarrow> bool \<times> lexer" where
  "lexSuffix lx =
     (if peek lx 0 = CHR ''f'' \<or> peek lx 0 = CHR ''F'' then (True, advance lx) else (False, lx))"

definition lexNumber :: "lexer \<Rightarrow> tk \<times> lexer" where
  "lexNumber lx =
     (if radix_prefix lx
      then (IntLit, advance_while (\<lambda>c. isxdigit c \<or> c = CHR ''_'') (advance (advance lx)))
      else
        let (frac, lx2) = lexFraction (advance_while digit_or_us lx);
            (expo, lx3) = (if peek lx2 0 = CHR ''e'' \<or> peek lx2 0 = CHR ''E''
                           then (True, lexExponent lx lx2) else (False, lx2));
            (suff, lx4) = lexSuffix lx3 in
        (if frac \<or> expo \<or> suff then FloatLit else IntLit, lx4))"

section \<open>Operators and punctuation\<close>

text \<open>The \<open>switch\<close>: the kind and the length of the operator from its first three characters.\<close>

definition punct :: "char \<Rightarrow> char \<Rightarrow> char \<Rightarrow> (tk \<times> nat) option" where
  "punct c c1 c2 =
     (if c = CHR ''+'' then Some (if c1 = CHR ''='' then (PlusEq, 2) else (Plus, 1))
      else if c = CHR ''-'' then
        Some (if c1 = CHR ''>'' then (Arrow, 2) else if c1 = CHR ''='' then (MinusEq, 2) else (Minus, 1))
      else if c = CHR ''*'' then Some (if c1 = CHR ''='' then (StarEq, 2) else (Star, 1))
      else if c = CHR ''/'' then Some (if c1 = CHR ''='' then (SlashEq, 2) else (Slash, 1))
      else if c = CHR ''%'' then Some (if c1 = CHR ''='' then (PercentEq, 2) else (Percent, 1))
      else if c = CHR ''&'' then
        Some (if c1 = CHR ''&'' then (AndAnd, 2) else if c1 = CHR ''='' then (AmpEq, 2) else (Amp, 1))
      else if c = CHR ''|'' then
        Some (if c1 = CHR ''|'' then (OrOr, 2) else if c1 = CHR ''='' then (PipeEq, 2) else (Pipe, 1))
      else if c = CHR ''^'' then Some (if c1 = CHR ''='' then (CaretEq, 2) else (Caret, 1))
      else if c = CHR ''~'' then Some (Tilde, 1)
      else if c = CHR ''!'' then Some (if c1 = CHR ''='' then (Ne, 2) else (Bang, 1))
      else if c = CHR ''<'' then
        Some (if c1 = CHR ''<'' then (if c2 = CHR ''='' then (ShlEq, 3) else (Shl, 2))
              else if c1 = CHR ''='' then (Le, 2) else (Lt, 1))
      else if c = CHR ''>'' then
        Some (if c1 = CHR ''>'' then (if c2 = CHR ''='' then (ShrEq, 3) else (Shr, 2))
              else if c1 = CHR ''='' then (Ge, 2) else (Gt, 1))
      else if c = CHR ''='' then
        Some (if c1 = CHR ''='' then (EqEq, 2) else if c1 = CHR ''>'' then (FatArrow, 2) else (Eq, 1))
      else if c = CHR ''.'' then
        Some (if c1 = CHR ''.'' then (if c2 = CHR ''='' then (DotDotEq, 3) else (DotDot, 2)) else (Dot, 1))
      else if c = CHR '':'' then Some (if c1 = CHR '':'' then (DColon, 2) else (Colon, 1))
      else if c = CHR '';'' then Some (Semi, 1)
      else if c = CHR '','' then Some (Comma, 1)
      else if c = CHR ''('' then Some (LParen, 1)
      else if c = CHR '')'' then Some (RParen, 1)
      else if c = CHR ''{'' then Some (LBrace, 1)
      else if c = CHR ''}'' then Some (RBrace, 1)
      else if c = CHR ''['' then Some (LBracket, 1)
      else if c = CHR '']'' then Some (RBracket, 1)
      else if c = CHR ''#'' then Some (Pound, 1)
      else if c = CHR ''$'' then Some (Dollar, 1)
      else if c = CHR ''@'' then Some (At, 1)
      else if c = CHR ''?'' then Some (Question, 1)
      else None)"

section \<open>One token\<close>

datatype lex_step = LexError diagnostic | LexSkip lexer | LexToken token lexer

function block_body :: "lexer \<Rightarrow> lexer" where
  "block_body lx =
     (if \<not> atEnd lx \<and> \<not> (peek lx 0 = CHR ''*'' \<and> peek lx 1 = CHR ''/'') then block_body (advance lx) else lx)"
  by pat_completeness auto
termination
  by (relation "measure (\<lambda>lx. length (lx_src lx) - lx_pos lx)") (auto simp: atEnd_def)

declare block_body.simps [simp del]

definition mk_token :: "tk \<Rightarrow> lexer \<Rightarrow> lexer \<Rightarrow> lex_step" where
  "mk_token k lx lx' =
     LexToken \<lparr>tk_kind = k, tk_lex = substr lx (lx_pos lx) (lx_pos lx' - lx_pos lx), tk_loc = loc lx\<rparr> lx'"

definition lexNewline :: "lexer \<Rightarrow> lex_step" where
  "lexNewline lx =
     (let lx1 = advance lx;
          lx2 = (if peek lx 0 = CR \<and> \<not> atEnd lx1 \<and> peek lx1 0 = LF then advance lx1 else lx1) in
      LexToken \<lparr>tk_kind = Newline, tk_lex = [LF], tk_loc = loc lx\<rparr> lx2)"

definition lexBlockComment :: "lexer \<Rightarrow> lex_step" where
  "lexBlockComment lx =
     (let lx1 = block_body (advance (advance lx)) in
      if atEnd lx1
      then LexError (syntax_error ''unterminated block comment'' (loc lx) (loc lx1) ''comment starts here'')
      else LexSkip (advance (advance lx1)))"

definition lexIdent :: "lexer \<Rightarrow> lex_step" where
  "lexIdent lx =
     (let lx1 = advance_while isIdCont lx;
          lex = substr lx1 (lx_pos lx) (lx_pos lx1 - lx_pos lx) in
      mk_token (if lex = ''_'' then Underscore else keyword lex) lx lx1)"

definition lexLiteral :: "tk \<Rightarrow> (lexer \<Rightarrow> diagnostic + (string \<times> lexer)) \<Rightarrow> lexer \<Rightarrow> lex_step" where
  "lexLiteral k f lx =
     (case f lx of
        Inl e \<Rightarrow> LexError e
      | Inr (s, lx1) \<Rightarrow> LexToken \<lparr>tk_kind = k, tk_lex = s, tk_loc = loc lx\<rparr> lx1)"

definition lexPunct :: "lexer \<Rightarrow> lex_step" where
  "lexPunct lx =
     (case punct (peek lx 0) (peek lx 1) (peek lx 2) of
        Some (k, n) \<Rightarrow> mk_token k lx ((advance ^^ n) lx)
      | None \<Rightarrow>
          LexError (syntax_error (''unexpected character `'' @ [peek lx 0] @ ''`'') (loc lx)
            ((loc lx)\<lparr>sl_col := u32_cast (lx_col lx + 1)\<rparr>) ''unexpected token''))"

text \<open>One iteration of the loop of \<open>tokenize\<close>, with the cursor on a character that is not a blank.\<close>

definition lex_one :: "lexer \<Rightarrow> lex_step" where
  "lex_one lx =
     (let c = peek lx 0 in
      if c = LF \<or> c = CR then lexNewline lx
      else if c = CHR ''/'' \<and> peek lx 1 = CHR ''/'' then
        LexSkip (advance_while (\<lambda>c. c \<noteq> LF \<and> c \<noteq> CR) (advance (advance lx)))
      else if c = CHR ''/'' \<and> peek lx 1 = CHR ''*'' then lexBlockComment lx
      else if isIdStart c then lexIdent lx
      else if isdigit c \<or> (c = CHR ''.'' \<and> isdigit (peek lx 1)) then
        (let (k, lx1) = lexNumber lx in mk_token k lx lx1)
      else if c = DQ then lexLiteral StringLit literalStr lx
      else if c = SQ then lexLiteral CharLit literalChar lx
      else lexPunct lx)"

section \<open>Progress\<close>

text \<open>\<open>scans P lx lx'\<close>: the cursor moved forward over characters that satisfy \<open>P\<close>.\<close>

definition scans :: "(char \<Rightarrow> bool) \<Rightarrow> lexer \<Rightarrow> lexer \<Rightarrow> bool" where
  "scans P lx lx' \<longleftrightarrow> forward lx lx' \<and> (\<forall>k. lx_pos lx \<le> k \<longrightarrow> k < lx_pos lx' \<longrightarrow> P (lx_src lx ! k))"

lemma scans_refl [simp]: "scans P lx lx"
  by (simp add: scans_def)

lemma scans_trans: "scans P lx lx1 \<Longrightarrow> scans P lx1 lx2 \<Longrightarrow> scans P lx lx2"
  unfolding scans_def using forward_trans forward_keeps by (metis linorder_not_less)

lemma scans_step: "\<not> atEnd lx \<Longrightarrow> P (peek lx 0) \<Longrightarrow> scans P lx (advance lx)"
  by (auto simp: scans_def peek_def atEnd_def less_Suc_eq split: if_splits)

lemma scans_mono: "scans P lx lx' \<Longrightarrow> (\<And>c. P c \<Longrightarrow> Q c) \<Longrightarrow> scans Q lx lx'"
  by (auto simp: scans_def)

lemma advance_while_scans: "scans P lx (advance_while P lx)"
proof (induction P lx rule: advance_while.induct)
  case (1 P lx)
  then show ?case
    by (subst advance_while.simps) (auto intro: scans_trans scans_step)
qed

lemma advance_while_stops: "atEnd (advance_while P lx) \<or> \<not> P (peek (advance_while P lx) 0)"
proof (induction P lx rule: advance_while.induct)
  case (1 P lx)
  then show ?case by (subst (1 2) advance_while.simps) auto
qed

lemma advance_while_first:
  "\<not> atEnd lx \<Longrightarrow> P (peek lx 0) \<Longrightarrow> advance_while P lx = advance_while P (advance lx)"
  by (subst advance_while.simps) simp

definition plain :: "char \<Rightarrow> bool" where
  "plain c \<longleftrightarrow> c \<noteq> LF \<and> c \<noteq> CR"

lemma advance_plain:
  "plain (peek lx 0) \<Longrightarrow> advance lx = lx\<lparr>lx_pos := lx_pos lx + 1, lx_col := u32_cast (lx_col lx + 1)\<rparr>"
  by (simp add: advance_def plain_def Let_def)

lemma u32_cast_add: "u32_cast (u32_cast a + b) = u32_cast (a + b)"
  by (simp add: u32_cast_def mod_simps)

lemma u32_cast_Suc: "u32_cast (Suc (u32_cast a)) = u32_cast (Suc a)"
  using u32_cast_add [of a 1] by simp

lemma advance_pow_plain:
  assumes "\<And>k. lx_pos lx \<le> k \<Longrightarrow> k < lx_pos lx + Suc n \<Longrightarrow> plain (lx_src lx ! k)"
    and "lx_pos lx + Suc n \<le> length (lx_src lx)"
  shows "(advance ^^ Suc n) lx = lx\<lparr>lx_pos := lx_pos lx + Suc n, lx_col := u32_cast (lx_col lx + Suc n)\<rparr>"
  using assms
proof (induction n)
  case 0
  then show ?case by (simp add: advance_plain peek_def)
next
  case (Suc n)
  let ?l = "(advance ^^ Suc n) lx"
  have IH: "?l = lx\<lparr>lx_pos := lx_pos lx + Suc n, lx_col := u32_cast (lx_col lx + Suc n)\<rparr>"
    by (rule Suc.IH) (use Suc.prems in auto)
  have "plain (peek ?l 0)" unfolding IH using Suc.prems by (simp add: peek_def)
  then have "advance ?l = ?l\<lparr>lx_pos := lx_pos ?l + 1, lx_col := u32_cast (lx_col ?l + 1)\<rparr>" by (rule advance_plain)
  then show ?case unfolding funpow.simps(2) [of "Suc n"] comp_def IH by (simp add: u32_cast_Suc)
qed

text \<open>A move over one line changes the column by the distance and leaves the line alone.\<close>

lemma scans_plain:
  assumes "scans plain lx lx'" and "lx_pos lx < lx_pos lx'"
  shows "lx' = lx\<lparr>lx_pos := lx_pos lx', lx_col := u32_cast (lx_col lx + (lx_pos lx' - lx_pos lx))\<rparr>"
proof -
  from assms(1) obtain n where n: "lx' = (advance ^^ n) lx" "n = 0 \<or> lx_pos lx + n \<le> length (lx_src lx)"
    by (auto simp: scans_def forward_def)
  with assms(2) obtain m where "n = Suc m" by (cases n) auto
  with n assms(1) show ?thesis using advance_pow_plain [of lx m] by (auto simp: scans_def)
qed

lemma isdigit_plain: "isdigit c \<Longrightarrow> plain c" "digit_or_us c \<Longrightarrow> plain c"
  by (auto simp: isdigit_def digit_or_us_def plain_def code_def char_defs)

lemma isdigit_peek: "isdigit (peek lx k) \<Longrightarrow> lx_pos lx + k < length (lx_src lx)"
  by (cases "lx_pos lx + k < length (lx_src lx)") (auto simp: peek_def isdigit_def code_def NUL_def)

lemma peek_end: "peek lx 0 = c \<Longrightarrow> c \<noteq> NUL \<Longrightarrow> \<not> atEnd lx"
  using peek_not_end [of lx 0] by (auto simp: atEnd_def)

lemma lexExponent_scans:
  assumes "scans plain lx0 lx" and "lx_pos lx0 < lx_pos lx"
    and "peek lx 0 = CHR ''e'' \<or> peek lx 0 = CHR ''E''"
  shows "scans plain lx (lexExponent lx0 lx)"
proof -
  let ?a = "advance lx"
  let ?b = "if peek ?a 0 = CHR ''+'' \<or> peek ?a 0 = CHR ''-'' then advance ?a else ?a"
  have lx: "\<not> atEnd lx" "plain (peek lx 0)" using assms(3) peek_end [of lx] by (auto simp: char_defs plain_def)
  then have a: "scans plain lx ?a" by (rule scans_step)
  have b: "scans plain ?a ?b"
    using peek_end [of ?a] by (auto intro!: scans_step simp: char_defs plain_def)
  note ab = scans_trans [OF a b]
  show ?thesis
  proof (cases "isdigit (peek ?b 0)")
    case True
    then have "lexExponent lx0 lx = advance_while digit_or_us ?b" by (simp add: lexExponent_def Let_def)
    then show ?thesis
      using scans_trans [OF ab scans_mono [OF advance_while_scans isdigit_plain(2)]] by (simp only:)
  next
    case False
    have "lx_pos lx < lx_pos ?b" by simp
    from scans_plain [OF ab this] obtain p q where b_eq: "?b = lx\<lparr>lx_pos := p, lx_col := q\<rparr>" by blast
    have "?b\<lparr>lx_pos := lx_pos lx, lx_col := lx_col lx\<rparr> = lx" unfolding b_eq by simp
    moreover have "lx_col lx = u32_cast (lx_col lx0 + u32_cast (lx_pos lx - lx_pos lx0))"
    proof -
      have "lx_col lx = u32_cast (lx_col lx0 + (lx_pos lx - lx_pos lx0))"
        by (subst scans_plain [OF assms(1,2)]) simp
      then show ?thesis
        using u32_cast_add [of "lx_pos lx - lx_pos lx0" "lx_col lx0"] by (simp only: add.commute)
    qed
    ultimately have "lexExponent lx0 lx = lx"
      using False unfolding lexExponent_def Let_def by (simp only: not_False_eq_True if_True)
    then show ?thesis by simp
  qed
qed

lemma scans_forward: "scans P lx lx' \<Longrightarrow> forward lx lx'"
  by (simp add: scans_def)

lemma lexFraction_scans:
  "scans plain lx (snd (lexFraction lx)) \<and> lx_pos lx \<le> lx_pos (snd (lexFraction lx))
   \<and> (peek lx 0 = CHR ''.'' \<and> isdigit (peek lx 1) \<longrightarrow> lx_pos lx < lx_pos (snd (lexFraction lx)))"
proof (cases "peek lx 0 = CHR ''.'' \<and> isdigit (peek lx 1)")
  case True
  let ?l = "advance_while digit_or_us (advance lx)"
  have "scans plain lx (advance lx)" using True peek_end [of lx] by (auto intro!: scans_step simp: plain_def char_defs)
  then have s: "scans plain lx ?l" by (rule scans_trans [OF _ scans_mono [OF advance_while_scans isdigit_plain(2)]])
  have "lx_pos lx < lx_pos ?l"
    using forward_keeps [OF advance_while_forward [where lx = "advance lx" and P = digit_or_us]] by simp
  with s True show ?thesis by (simp add: lexFraction_def)
qed (auto simp: lexFraction_def)

lemma lexSuffix_scans: "scans plain lx (snd (lexSuffix lx))"
  using peek_end [of lx] by (auto intro!: scans_step simp: lexSuffix_def plain_def char_defs)

lemma lexNumber_scans:
  assumes "isdigit (peek lx 0) \<or> (peek lx 0 = CHR ''.'' \<and> isdigit (peek lx 1))"
  shows "scans plain lx (snd (lexNumber lx)) \<and> lx_pos lx < lx_pos (snd (lexNumber lx))"
proof (cases "radix_prefix lx")
  case True
  then have e: "\<not> atEnd lx" "plain (peek lx 0)" "\<not> atEnd (advance lx)" "plain (peek (advance lx) 0)"
    using peek_end [of lx] peek_not_end [of lx 1]
    by (auto simp: radix_prefix_def plain_def char_defs atEnd_def peek_def split: if_splits)
  let ?l = "advance_while (\<lambda>c. isxdigit c \<or> c = CHR ''_'') (advance (advance lx))"
  have p: "plain c" if "isxdigit c \<or> c = CHR ''_''" for c
    using that by (auto simp: isxdigit_def isdigit_def code_def plain_def char_defs)
  have "scans plain (advance (advance lx)) ?l" by (rule scans_mono [OF advance_while_scans p])
  then have "scans plain lx ?l"
    using scans_trans [OF scans_step [where P = plain, OF e(1,2)] scans_trans [OF scans_step [where P = plain, OF e(3,4)]]]
    by blast
  moreover have "lx_pos lx < lx_pos ?l" 
    using forward_keeps [OF advance_while_forward [where lx = "advance (advance lx)" and P = "\<lambda>c. isxdigit c \<or> c = CHR ''_''"]]
    by simp
  ultimately show ?thesis using True by (simp add: lexNumber_def)
next
  case False
  define lx1 where "lx1 = advance_while digit_or_us lx"
  obtain frac lx2 where f: "lexFraction lx1 = (frac, lx2)" by (cases "lexFraction lx1")
  define e where "e = (if peek lx2 0 = CHR ''e'' \<or> peek lx2 0 = CHR ''E'' then (True, lexExponent lx lx2) else (False, lx2))"
  have s1: "scans plain lx lx1" unfolding lx1_def by (rule scans_mono [OF advance_while_scans isdigit_plain(2)])
  have s2: "scans plain lx lx2" "lx_pos lx1 \<le> lx_pos lx2" "peek lx1 0 = CHR ''.'' \<and> isdigit (peek lx1 1) \<Longrightarrow> lx_pos lx1 < lx_pos lx2"
    using lexFraction_scans [of lx1] f scans_trans [OF s1] by auto
  have p2: "lx_pos lx < lx_pos lx2"
  proof (cases "isdigit (peek lx 0)")
    case True
    then have "\<not> atEnd lx" using isdigit_peek [of lx 0] by (simp add: atEnd_def)
    with True have "lx1 = advance_while digit_or_us (advance lx)"
      unfolding lx1_def by (intro advance_while_first) (auto simp: digit_or_us_def)
    then show ?thesis
      using forward_keeps [OF advance_while_forward [where lx = "advance lx" and P = digit_or_us]] s2(2) by simp
  next
    case dot: False
    with assms have d: "peek lx 0 = CHR ''.''" "isdigit (peek lx 1)" by auto
    then have "lx1 = lx" unfolding lx1_def by (subst advance_while.simps) (simp add: digit_or_us_def isdigit_def code_def)
    with d s2(3) show ?thesis by simp
  qed
  have s3: "scans plain lx2 (snd e)"
    using lexExponent_scans [OF s2(1) p2] by (simp add: e_def)
  have s4: "scans plain lx2 (snd (lexSuffix (snd e)))" by (rule scans_trans [OF s3 lexSuffix_scans])
  have "snd (lexNumber lx) = snd (lexSuffix (snd e))"
    using False f unfolding lexNumber_def lx1_def e_def by (simp split: prod.split)
  with scans_trans [OF s2(1) s4] p2 forward_keeps [OF scans_forward [OF s4]] show ?thesis by simp
qed

lemma block_body_forward: "forward lx (block_body lx)"
proof (induction lx rule: block_body.induct)
  case (1 lx)
  show ?case
  proof (cases "\<not> atEnd lx \<and> \<not> (peek lx 0 = CHR ''*'' \<and> peek lx 1 = CHR ''/'')")
    case True
    then show ?thesis using 1 forward_after [of lx "block_body (advance lx)"] by (subst block_body.simps) simp
  qed (subst block_body.simps, auto)
qed

lemma block_body_stops:
  "atEnd (block_body lx) \<or> peek (block_body lx) 0 = CHR ''*'' \<and> peek (block_body lx) 1 = CHR ''/''"
proof (induction lx rule: block_body.induct)
  case (1 lx)
  show ?case
  proof (cases "\<not> atEnd lx \<and> \<not> (peek lx 0 = CHR ''*'' \<and> peek lx 1 = CHR ''/'')")
    case True
    then have "block_body lx = block_body (advance lx)" by (subst block_body.simps) simp
    with 1 [OF True] show ?thesis by simp
  next
    case False
    then have "block_body lx = lx" by (subst block_body.simps) auto
    with False show ?thesis by auto
  qed
qed

lemma literalStr_forward:
  "\<not> atEnd lx \<Longrightarrow> literalStr lx = Inr (s, lx') \<Longrightarrow> forward (advance lx) lx'"
  using str_body_forward [of "advance lx"] by (auto simp: literalStr_def split: prod.splits if_splits)

lemma literalChar_forward:
  assumes "literalChar lx = Inr (s, lx')"
  shows "forward (advance lx) lx'"
proof -
  let ?l = "advance lx"
  let ?m = "if \<not> atEnd ?l \<and> peek ?l 0 = BSL then advance_opt (advance ?l)
      else if \<not> atEnd ?l \<and> peek ?l 0 \<noteq> SQ \<and> peek ?l 0 \<noteq> LF \<and> peek ?l 0 \<noteq> CR then advance ?l else ?l"
  have "forward ?l ?m" by (auto intro: forward_after)
  moreover have "\<not> atEnd ?m" "lx' = advance ?m"
    using assms unfolding literalChar_def Let_def by (metis (no_types, lifting) Inl_Inr_False Inr_inject prod.inject)+
  ultimately show ?thesis using forward_advance by simp
qed

lemma advance_pow_forward: "lx_pos lx + n \<le> length (lx_src lx) \<Longrightarrow> forward lx ((advance ^^ n) lx)"
  unfolding forward_def by auto

lemma advance_pow_Suc: "(advance ^^ Suc n) lx = (advance ^^ n) (advance lx)"
  by (simp add: funpow_swap1)

lemma punct_length:
  assumes "punct (peek lx 0) (peek lx 1) (peek lx 2) = Some (k, n)"
  shows "0 < n \<and> lx_pos lx + n \<le> length (lx_src lx)"
proof -
  have "n = 1 \<and> peek lx 0 \<noteq> NUL \<or> n = 2 \<and> peek lx 1 \<noteq> NUL \<or> n = 3 \<and> peek lx 2 \<noteq> NUL"
    using assms by (auto simp: punct_def NUL_def split: if_splits)
  then show ?thesis using peek_not_end [of lx 0] peek_not_end [of lx 1] peek_not_end [of lx 2] by auto
qed

fun step_lexer :: "lex_step \<Rightarrow> lexer option" where
  "step_lexer (LexError e) = None"
| "step_lexer (LexSkip lx) = Some lx"
| "step_lexer (LexToken t lx) = Some lx"

lemma step_lexer_mk [simp]: "step_lexer (mk_token k lx lx') = Some lx'"
  by (simp add: mk_token_def)

text \<open>Every iteration moves the cursor forward by at least one character, inside the text.\<close>

lemma lex_one_forward:
  assumes "\<not> atEnd lx" and "step_lexer (lex_one lx) = Some lx'"
  shows "forward lx lx' \<and> lx_pos lx < lx_pos lx'"
proof -
  let ?c = "peek lx 0"
  have slash: "?c = CHR ''/'' \<longrightarrow> \<not> isIdStart ?c \<and> \<not> isdigit ?c \<and> ?c \<noteq> CHR ''.''"
    by (simp add: isIdStart_def isalpha_def isdigit_def code_def)
  have adv: "forward lx lx' \<and> lx_pos lx < lx_pos lx'" if "forward (advance lx) lx'"
    using that forward_after [OF assms(1)] forward_keeps [OF that] by simp
  have adv2: "forward lx lx' \<and> lx_pos lx < lx_pos lx'"
    if "peek lx 1 \<noteq> NUL" "forward (advance (advance lx)) lx'"
    using adv forward_after [of "advance lx" lx'] that peek_not_end [of lx 1] by (simp add: atEnd_def)
  consider (nl) "?c = LF \<or> ?c = CR"
    | (line) "plain ?c" "?c = CHR ''/''" "peek lx 1 = CHR ''/''"
    | (block) "plain ?c" "?c = CHR ''/''" "peek lx 1 = CHR ''*''"
    | (id) "plain ?c" "isIdStart ?c" "?c \<noteq> CHR ''/''"
    | (num) "plain ?c" "isdigit ?c \<or> (?c = CHR ''.'' \<and> isdigit (peek lx 1))" "?c \<noteq> CHR ''/''" "\<not> isIdStart ?c"
    | (other) "plain ?c" "\<not> (?c = CHR ''/'' \<and> peek lx 1 = CHR ''/'')" "\<not> (?c = CHR ''/'' \<and> peek lx 1 = CHR ''*'')"
        "\<not> isIdStart ?c" "\<not> (isdigit ?c \<or> (?c = CHR ''.'' \<and> isdigit (peek lx 1)))"
    using slash unfolding plain_def by blast
  then show ?thesis
  proof cases
    case nl
    with assms(2) show ?thesis
      by (intro adv) (auto simp: lex_one_def lexNewline_def Let_def split: if_splits)
  next
    case line
    with assms(2) have "lx' = advance_while (\<lambda>c. c \<noteq> LF \<and> c \<noteq> CR) (advance (advance lx))"
      by (simp add: lex_one_def plain_def Let_def)
    then show ?thesis using line by (intro adv2) (simp_all add: NUL_def advance_while_forward)
  next
    case block
    let ?b = "block_body (advance (advance lx))"
    from block assms(2) have e: "\<not> atEnd ?b" "lx' = advance (advance ?b)"
      by (auto simp: lex_one_def plain_def lexBlockComment_def Let_def split: if_splits)
    with block_body_stops [of "advance (advance lx)"] have "\<not> atEnd (advance ?b)"
      using peek_not_end [of ?b 1] by (auto simp: atEnd_def NUL_def)
    with e have "forward (advance (advance lx)) lx'"
      using forward_advance [OF forward_advance [OF block_body_forward]] by simp
    then show ?thesis using block by (intro adv2) (simp_all add: NUL_def)
  next
    case id
    then have "isIdCont ?c" by (auto simp: isIdStart_def isIdCont_def)
    with id assms have "lx' = advance_while isIdCont (advance lx)"
      by (simp add: lex_one_def plain_def lexIdent_def Let_def advance_while_first)
    then show ?thesis by (intro adv) (simp add: advance_while_forward)
  next
    case num
    with assms(2) have "lx' = snd (lexNumber lx)"
      by (auto simp: lex_one_def plain_def Let_def split: prod.splits)
    with lexNumber_scans [OF num(2)] show ?thesis using scans_forward by auto
  next
    case other
    then have "\<not> (?c = LF \<or> ?c = CR)" by (simp add: plain_def)
    with other have l: "lex_one lx = (if ?c = DQ then lexLiteral StringLit literalStr lx
        else if ?c = SQ then lexLiteral CharLit literalChar lx else lexPunct lx)"
      unfolding lex_one_def Let_def by (simp only: if_False)
    show ?thesis
    proof (cases "?c = DQ \<or> ?c = SQ")
      case True
      with l assms show ?thesis
        by (intro adv)
           (auto simp: lexLiteral_def dest: literalStr_forward literalChar_forward split: sum.splits prod.splits if_splits)
    next
      case False
      with l assms(2) obtain k n where "punct ?c (peek lx 1) (peek lx 2) = Some (k, n)" "lx' = (advance ^^ n) lx"
        by (auto simp: lexPunct_def split: option.splits)
      with punct_length show ?thesis using advance_pow_forward by fastforce
    qed
  qed
qed

section \<open>The token stream\<close>

function tokenize_loop :: "lexer \<Rightarrow> diagnostic + (token list \<times> lexer)" where
  "tokenize_loop lx =
     (let lx1 = skipSpace lx in
      if atEnd lx1 then Inr ([], lx1)
      else case lex_one lx1 of
        LexError e \<Rightarrow> Inl e
      | LexSkip lx2 \<Rightarrow> tokenize_loop lx2
      | LexToken t lx2 \<Rightarrow>
          (case tokenize_loop lx2 of
             Inl e \<Rightarrow> Inl e
           | Inr (ts, lx3) \<Rightarrow> Inr (t # ts, lx3)))"
  by pat_completeness auto
termination
proof (relation "measure (\<lambda>lx. length (lx_src lx) - lx_pos lx)", goal_cases)
  case (2 lx lx1 lx2)
  then have "forward lx lx1" by (simp add: skipSpace_def advance_while_forward)
  from forward_keeps [OF this] lex_one_forward [of lx1 lx2] 2 forward_keeps [of lx1 lx2] show ?case
    by (auto simp: atEnd_def)
next
  case (3 lx lx1 t lx2)
  then have "forward lx lx1" by (simp add: skipSpace_def advance_while_forward)
  from forward_keeps [OF this] lex_one_forward [of lx1 lx2] 3 forward_keeps [of lx1 lx2] show ?case
    by (auto simp: atEnd_def)
qed auto

declare tokenize_loop.simps [simp del]

definition has_bom :: "lexer \<Rightarrow> bool" where
  "has_bom lx \<longleftrightarrow> lx_pos lx = 0 \<and> length (lx_src lx) \<ge> 3
     \<and> code (lx_src lx ! 0) = 239 \<and> code (lx_src lx ! 1) = 187 \<and> code (lx_src lx ! 2) = 191"

definition tokenize :: "lexer \<Rightarrow> diagnostic + token list" where
  "tokenize lx =
     (let lx0 = (if has_bom lx then advance (advance (advance lx)) else lx) in
      case tokenize_loop lx0 of
        Inl e \<Rightarrow> Inl e
      | Inr (ts, lx1) \<Rightarrow> Inr (ts @ [\<lparr>tk_kind = Eof, tk_lex = [], tk_loc = loc lx1\<rparr>]))"

end
