(* ===== verification/Lx_LexerSpec.thy ===== *)
theory Lx_LexerSpec
  imports Lx_Lexer "HOL-Library.Sublist"
begin

text \<open>
  What the scanner promises its clients: the token stream covers the text without loss, every token
  carries the position at which it starts, quoted literals keep their quotes, and printing a token
  stream with blanks between the lexemes and scanning it again gives the same tokens.
\<close>

section \<open>The consumed text\<close>

definition consumed :: "lexer \<Rightarrow> lexer \<Rightarrow> string" where
  "consumed lx lx' = take (lx_pos lx' - lx_pos lx) (drop (lx_pos lx) (lx_src lx))"

definition rest :: "lexer \<Rightarrow> string" where
  "rest lx = drop (lx_pos lx) (lx_src lx)"

lemma forward_rest: "forward lx lx' \<Longrightarrow> rest lx = consumed lx lx' @ rest lx'"
  by (auto simp: forward_def rest_def consumed_def) (metis append_take_drop_id add.commute drop_drop)

lemma substr_consumed: "lx_src lx' = lx_src lx \<Longrightarrow> substr lx' (lx_pos lx) (lx_pos lx' - lx_pos lx) = consumed lx lx'"
  by (simp add: substr_def consumed_def)

lemma scans_consumed:
  assumes "scans P lx lx'"
  shows "list_all P (consumed lx lx')"
proof -
  have "P (consumed lx lx' ! k)" if "k < length (consumed lx lx')" for k
    using that assms by (auto simp: consumed_def scans_def)
  then show ?thesis by (simp add: list_all_length)
qed

lemma consumed_trans:
  assumes "forward lx lx1" and "forward lx1 lx2"
  shows "consumed lx lx2 = consumed lx lx1 @ consumed lx1 lx2"
proof -
  have "rest lx = consumed lx lx2 @ rest lx2" "rest lx = (consumed lx lx1 @ consumed lx1 lx2) @ rest lx2"
    using forward_rest assms forward_trans by fastforce+
  then show ?thesis by simp
qed

lemma consumed_advance: "\<not> atEnd lx \<Longrightarrow> consumed lx (advance lx) = [peek lx 0]"
  by (simp add: consumed_def atEnd_def peek_def take_Suc_conv_app_nth hd_drop_conv_nth)

lemma consumed_advance2:
  assumes "peek lx 0 \<noteq> NUL" and "peek lx 1 \<noteq> NUL"
  shows "consumed lx (advance (advance lx)) = [peek lx 0, peek lx 1]" "forward lx (advance (advance lx))"
proof -
  have e: "\<not> atEnd lx" "\<not> atEnd (advance lx)"
    using peek_not_end [of lx 0] peek_not_end [of lx 1] assms by (auto simp: atEnd_def)
  show "forward lx (advance (advance lx))" using e forward_after by simp
  have "peek (advance lx) 0 = peek lx 1" by (simp add: peek_def)
  then show "consumed lx (advance (advance lx)) = [peek lx 0, peek lx 1]"
    using consumed_trans [of lx "advance lx" "advance (advance lx)"] e consumed_advance by simp
qed

lemma consumed_nonempty: "forward lx lx' \<Longrightarrow> lx_pos lx < lx_pos lx' \<Longrightarrow> consumed lx lx' \<noteq> []"
  by (auto simp: consumed_def forward_def)

section \<open>Covering the text\<close>

definition blank :: "char \<Rightarrow> bool" where
  "blank c \<longleftrightarrow> c = CHR '' '' \<or> c = TAB"

text \<open>What the scanner drops: blanks, line comments, block comments.\<close>

definition trivia :: "string \<Rightarrow> bool" where
  "trivia g \<longleftrightarrow> list_all blank g
     \<or> (\<exists>b. g = ''//'' @ b \<and> list_all plain b)
     \<or> (\<exists>b. g = ''/*'' @ b @ ''*/'')"

text \<open>The text a token stands for: its lexeme, except that every line end becomes the same token.\<close>

definition spelled :: "token \<Rightarrow> string \<Rightarrow> bool" where
  "spelled t raw \<longleftrightarrow>
     (if tk_kind t = Newline then tk_lex t = [LF] \<and> raw \<in> {[LF], [CR], [CR, LF]}
      else tk_kind t \<noteq> Eof \<and> raw = tk_lex t \<and> raw \<noteq> [])"

inductive covers :: "string \<Rightarrow> token list \<Rightarrow> bool" where
  stop: "covers [] []"
| gap: "trivia g \<Longrightarrow> covers s ts \<Longrightarrow> covers (g @ s) ts"
| tok: "spelled t raw \<Longrightarrow> covers s ts \<Longrightarrow> covers (raw @ s) (t # ts)"

text \<open>The kinds that only their own branch produces.\<close>

definition special :: "tk \<Rightarrow> bool" where
  "special k \<longleftrightarrow> k = Eof \<or> k = Newline \<or> k = StringLit \<or> k = CharLit"

lemma keyword_kind: "\<not> special (keyword s)"
proof (cases "map_of keyword_table s")
  case (Some k)
  have "list_all (\<lambda>p. \<not> special (snd p)) keyword_table" by (simp add: keyword_table_def special_def)
  with map_of_SomeD [OF Some] Some show ?thesis by (auto simp: keyword_def list_all_iff)
qed (simp add: keyword_def special_def)

lemma punct_kind: "punct c c1 c2 = Some (k, n) \<Longrightarrow> \<not> special k"
  by (auto simp: punct_def special_def split: if_splits)

lemma lexNumber_kind: "\<not> special (fst (lexNumber lx))"
  by (simp add: lexNumber_def Let_def special_def split: prod.split)

lemma literalStr_consumed: "literalStr lx = Inr (s, lx') \<Longrightarrow> s = consumed lx lx'"
  using forward_keeps [OF str_body_forward [of "advance lx"]]
  by (auto simp: literalStr_def substr_consumed split: prod.splits if_splits)

lemma literalChar_consumed: "literalChar lx = Inr (s, lx') \<Longrightarrow> s = consumed lx lx'"
proof -
  assume a: "literalChar lx = Inr (s, lx')"
  then have "lx_src lx' = lx_src lx" using forward_keeps [OF literalChar_forward [OF a]] by simp
  moreover have "s = substr lx' (lx_pos lx) (lx_pos lx' - lx_pos lx)"
    using a unfolding literalChar_def Let_def by (metis (no_types, lifting) Inl_Inr_False Inr_inject prod.inject)
  ultimately show ?thesis by (simp add: substr_consumed)
qed

text \<open>The branches of one iteration.\<close>

lemma lex_one_cases:
  obtains
    (nl) "peek lx 0 = LF \<or> peek lx 0 = CR" "lex_one lx = lexNewline lx"
  | (line) "peek lx 0 = CHR ''/''" "peek lx 1 = CHR ''/''"
      "lex_one lx = LexSkip (advance_while plain (advance (advance lx)))"
  | (block) "peek lx 0 = CHR ''/''" "peek lx 1 = CHR ''*''" "lex_one lx = lexBlockComment lx"
  | (ident) "isIdStart (peek lx 0)" "lex_one lx = lexIdent lx"
  | (num) "isdigit (peek lx 0) \<or> (peek lx 0 = CHR ''.'' \<and> isdigit (peek lx 1))"
      "lex_one lx = mk_token (fst (lexNumber lx)) lx (snd (lexNumber lx))"
  | (str) "peek lx 0 = DQ" "lex_one lx = lexLiteral StringLit literalStr lx"
  | (chr) "peek lx 0 = SQ" "lex_one lx = lexLiteral CharLit literalChar lx"
  | (op) "lex_one lx = lexPunct lx"
proof -
  have p: "plain = (\<lambda>c. c \<noteq> LF \<and> c \<noteq> CR)" by (simp add: plain_def fun_eq_iff)
  have l: "lex_one lx = (let c = peek lx 0 in
      if c = LF \<or> c = CR then lexNewline lx
      else if c = CHR ''/'' \<and> peek lx 1 = CHR ''/'' then LexSkip (advance_while plain (advance (advance lx)))
      else if c = CHR ''/'' \<and> peek lx 1 = CHR ''*'' then lexBlockComment lx
      else if isIdStart c then lexIdent lx
      else if isdigit c \<or> (c = CHR ''.'' \<and> isdigit (peek lx 1))
        then mk_token (fst (lexNumber lx)) lx (snd (lexNumber lx))
      else if c = DQ then lexLiteral StringLit literalStr lx
      else if c = SQ then lexLiteral CharLit literalChar lx
      else lexPunct lx)"
    unfolding lex_one_def p split_def Let_def by (rule refl)
  note l = l [unfolded Let_def]
  consider (c0)  "peek lx 0 = LF \<or> peek lx 0 = CR"
    | (c1) "\<not> (peek lx 0 = LF \<or> peek lx 0 = CR)" "peek lx 0 = CHR ''/'' \<and> peek lx 1 = CHR ''/''"
    | (c2) "\<not> (peek lx 0 = LF \<or> peek lx 0 = CR)" "\<not> (peek lx 0 = CHR ''/'' \<and> peek lx 1 = CHR ''/'')" "peek lx 0 = CHR ''/'' \<and> peek lx 1 = CHR ''*''"
    | (c3) "\<not> (peek lx 0 = LF \<or> peek lx 0 = CR)" "\<not> (peek lx 0 = CHR ''/'' \<and> peek lx 1 = CHR ''/'')" "\<not> (peek lx 0 = CHR ''/'' \<and> peek lx 1 = CHR ''*'')" "isIdStart (peek lx 0)"
    | (c4) "\<not> (peek lx 0 = LF \<or> peek lx 0 = CR)" "\<not> (peek lx 0 = CHR ''/'' \<and> peek lx 1 = CHR ''/'')" "\<not> (peek lx 0 = CHR ''/'' \<and> peek lx 1 = CHR ''*'')" "\<not> (isIdStart (peek lx 0))" "isdigit (peek lx 0) \<or> (peek lx 0 = CHR ''.'' \<and> isdigit (peek lx 1))"
    | (c5) "\<not> (peek lx 0 = LF \<or> peek lx 0 = CR)" "\<not> (peek lx 0 = CHR ''/'' \<and> peek lx 1 = CHR ''/'')" "\<not> (peek lx 0 = CHR ''/'' \<and> peek lx 1 = CHR ''*'')" "\<not> (isIdStart (peek lx 0))" "\<not> (isdigit (peek lx 0) \<or> (peek lx 0 = CHR ''.'' \<and> isdigit (peek lx 1)))" "peek lx 0 = DQ"
    | (c6) "\<not> (peek lx 0 = LF \<or> peek lx 0 = CR)" "\<not> (peek lx 0 = CHR ''/'' \<and> peek lx 1 = CHR ''/'')" "\<not> (peek lx 0 = CHR ''/'' \<and> peek lx 1 = CHR ''*'')" "\<not> (isIdStart (peek lx 0))" "\<not> (isdigit (peek lx 0) \<or> (peek lx 0 = CHR ''.'' \<and> isdigit (peek lx 1)))" "\<not> (peek lx 0 = DQ)" "peek lx 0 = SQ"
    | (c7) "\<not> (peek lx 0 = LF \<or> peek lx 0 = CR)" "\<not> (peek lx 0 = CHR ''/'' \<and> peek lx 1 = CHR ''/'')" "\<not> (peek lx 0 = CHR ''/'' \<and> peek lx 1 = CHR ''*'')" "\<not> (isIdStart (peek lx 0))" "\<not> (isdigit (peek lx 0) \<or> (peek lx 0 = CHR ''.'' \<and> isdigit (peek lx 1)))" "\<not> (peek lx 0 = DQ)" "\<not> (peek lx 0 = SQ)" 
    by blast
  then show ?thesis
  proof cases
    case c0
    have "lex_one lx = lexNewline lx" unfolding l
      by (simp only: if_P [OF c0])
    with c0 that show ?thesis by blast
  next
    case c1
    have "lex_one lx = LexSkip (advance_while plain (advance (advance lx)))" unfolding l
      by (simp only: if_not_P [OF c1(1)] if_P [OF c1(2)])
    with c1 that show ?thesis by blast
  next
    case c2
    have "lex_one lx = lexBlockComment lx" unfolding l
      by (simp only: if_not_P [OF c2(1)] if_not_P [OF c2(2)] if_P [OF c2(3)])
    with c2 that show ?thesis by blast
  next
    case c3
    have "lex_one lx = lexIdent lx" unfolding l
      by (simp only: if_not_P [OF c3(1)] if_not_P [OF c3(2)] if_not_P [OF c3(3)] if_P [OF c3(4)])
    with c3 that show ?thesis by blast
  next
    case c4
    have "lex_one lx = mk_token (fst (lexNumber lx)) lx (snd (lexNumber lx))" unfolding l
      by (simp only: if_not_P [OF c4(1)] if_not_P [OF c4(2)] if_not_P [OF c4(3)] if_not_P [OF c4(4)] if_P [OF c4(5)])
    with c4 that show ?thesis by blast
  next
    case c5
    have "lex_one lx = lexLiteral StringLit literalStr lx" unfolding l
      by (simp only: if_not_P [OF c5(1)] if_not_P [OF c5(2)] if_not_P [OF c5(3)] if_not_P [OF c5(4)] if_not_P [OF c5(5)] if_P [OF c5(6)])
    with c5 that show ?thesis by blast
  next
    case c6
    have "lex_one lx = lexLiteral CharLit literalChar lx" unfolding l
      by (simp only: if_not_P [OF c6(1)] if_not_P [OF c6(2)] if_not_P [OF c6(3)] if_not_P [OF c6(4)] if_not_P [OF c6(5)] if_not_P [OF c6(6)] if_P [OF c6(7)])
    with c6 that show ?thesis by blast
  next
    case c7
    have "lex_one lx = lexPunct lx" unfolding l
      by (simp only: if_not_P [OF c7(1)] if_not_P [OF c7(2)] if_not_P [OF c7(3)] if_not_P [OF c7(4)] if_not_P [OF c7(5)] if_not_P [OF c7(6)] if_not_P [OF c7(7)])
    with c7 that show ?thesis by blast
  qed
qed

lemma lexIdent_kind: "\<exists>k. lexIdent lx = mk_token k lx (advance_while isIdCont lx) \<and> \<not> special k"
proof -
  have u: "\<not> special Underscore" by (simp add: special_def)
  show ?thesis unfolding lexIdent_def Let_def
    by (rule exI, rule conjI, rule refl, simp add: u keyword_kind)
qed

lemma lex_one_token:
  assumes "\<not> atEnd lx" and "lex_one lx = LexToken t lx'"
  shows "spelled t (consumed lx lx') \<and> tk_loc t = loc lx"
proof -
  have f: "forward lx lx'" "lx_pos lx < lx_pos lx'" using lex_one_forward [OF assms(1)] assms(2) by auto
  have ne: "consumed lx lx' \<noteq> []" by (rule consumed_nonempty [OF f])
  have mk: "spelled t (consumed lx lx') \<and> tk_loc t = loc lx"
    if "mk_token k lx l = LexToken t lx'" "\<not> special k" for k l
    using that ne by (auto simp: mk_token_def spelled_def substr_def consumed_def special_def)
  show ?thesis
  proof (cases lx rule: lex_one_cases)
    case nl
    let ?l = "advance lx"
    from nl(2) assms(2) have t: "t = \<lparr>tk_kind = Newline, tk_lex = [LF], tk_loc = loc lx\<rparr>"
      "lx' = (if peek lx 0 = CR \<and> \<not> atEnd ?l \<and> peek ?l 0 = LF then advance ?l else ?l)"
      by (auto simp: lexNewline_def Let_def)
    have "consumed lx lx' \<in> {[LF], [CR], [CR, LF]}"
    proof (cases "peek lx 0 = CR \<and> \<not> atEnd ?l \<and> peek ?l 0 = LF")
      case True
      then have "consumed lx (advance ?l) = [CR, LF]"
        using consumed_trans [of lx ?l "advance ?l"] assms(1) by (simp add: consumed_advance)
      then show ?thesis unfolding t(2) if_P [OF True] by simp
    next
      case False
      show ?thesis unfolding t(2) if_not_P [OF False] using nl(1) assms(1) by (auto simp: consumed_advance)
    qed
    with t(1) show ?thesis by (simp add: spelled_def)
  next
    case ident
    then show ?thesis using assms(2) lexIdent_kind mk by metis
  next
    case num
    then show ?thesis using assms(2) lexNumber_kind by (intro mk) auto
  next
    case str
    with assms have "literalStr lx = Inr (tk_lex t, lx')" "tk_kind t = StringLit" "tk_loc t = loc lx"
      by (auto simp: lexLiteral_def split: sum.splits prod.splits)
    with literalStr_consumed ne show ?thesis by (auto simp: spelled_def)
  next
    case chr
    with assms have "literalChar lx = Inr (tk_lex t, lx')" "tk_kind t = CharLit" "tk_loc t = loc lx"
      by (auto simp: lexLiteral_def split: sum.splits prod.splits)
    with literalChar_consumed ne show ?thesis by (auto simp: spelled_def)
  next
    case op
    with assms(2) obtain k n where "punct (peek lx 0) (peek lx 1) (peek lx 2) = Some (k, n)"
      "mk_token k lx ((advance ^^ n) lx) = LexToken t lx'"
      by (auto simp: lexPunct_def split: option.splits)
    with mk punct_kind show ?thesis by blast
  qed (use assms(2) in \<open>auto simp: lexBlockComment_def Let_def split: if_splits\<close>)
qed

lemma lex_one_skip:
  assumes "\<not> atEnd lx" and "lex_one lx = LexSkip lx'"
  shows "trivia (consumed lx lx')"
proof (cases lx rule: lex_one_cases)
  case line
  let ?l = "advance (advance lx)"
  have c: "consumed lx ?l = ''//''" "forward lx ?l" using consumed_advance2 [of lx] line by (simp_all add: NUL_def)
  have "lx' = advance_while plain ?l" using line assms(2) by simp
  then have "consumed lx lx' = ''//'' @ consumed ?l lx'" "list_all plain (consumed ?l lx')"
    using consumed_trans [OF c(2) advance_while_forward] c(1) scans_consumed [OF advance_while_scans] by auto
  then show ?thesis by (auto simp: trivia_def)
next
  case block
  let ?l = "advance (advance lx)" and ?b = "block_body (advance (advance lx))"
  have c: "consumed lx ?l = ''/*''" "forward lx ?l" using consumed_advance2 [of lx] block by (simp_all add: NUL_def)
  from block assms(2) have e: "\<not> atEnd ?b" "lx' = advance (advance ?b)"
    by (auto simp: lexBlockComment_def Let_def split: if_splits)
  with block_body_stops [of ?l] have "peek ?b 0 = CHR ''*''" "peek ?b 1 = CHR ''/''" by auto
  with consumed_advance2 [of ?b] e have d: "consumed ?b lx' = ''*/''" "forward ?b lx'" by (simp_all add: NUL_def)
  have "consumed lx lx' = ''/*'' @ consumed ?l ?b @ ''*/''"
    using consumed_trans [OF c(2) forward_trans [OF block_body_forward d(2)]] consumed_trans [OF block_body_forward d(2)] c(1) d(1)
    by simp
  then show ?thesis by (auto simp: trivia_def)
qed (use assms(2) in \<open>auto simp: lexNewline_def lexIdent_def lexLiteral_def lexPunct_def mk_token_def Let_def
       split: sum.splits prod.splits option.splits\<close>)

lemma tokenize_loop_covers:
  "tokenize_loop lx = Inr (ts, lx') \<Longrightarrow> covers (rest lx) ts \<and> atEnd lx' \<and> forward lx lx'"
proof (induction lx arbitrary: ts rule: tokenize_loop.induct)
  case (1 lx)
  let ?l = "skipSpace lx"
  have s: "scans blank lx ?l"
    unfolding skipSpace_def by (rule scans_mono [OF advance_while_scans]) (simp add: blank_def)
  then have f: "forward lx ?l" by (rule scans_forward)
  have g: "covers (rest ?l) ts \<Longrightarrow> covers (rest lx) ts" for ts
    using covers.gap [of "consumed lx ?l" "rest ?l" ts] scans_consumed [OF s] forward_rest [OF f] by (simp add: trivia_def)
  show ?case
  proof (cases "atEnd ?l")
    case True
    with "1.prems" have "ts = []" "lx' = ?l" by (simp_all add: tokenize_loop.simps [of lx] Let_def)
    moreover have "rest ?l = []" using True by (simp add: rest_def atEnd_def)
    ultimately show ?thesis using True f g covers.stop by simp
  next
    case False
    show ?thesis
    proof (cases "lex_one ?l")
      case (LexError e)
      with "1.prems" False show ?thesis by (simp add: tokenize_loop.simps [of lx] Let_def)
    next
      case (LexSkip lx2)
      with "1.prems" False have "tokenize_loop lx2 = Inr (ts, lx')" by (simp add: tokenize_loop.simps [of lx] Let_def)
      with "1.IH"(1) [OF refl False LexSkip] have IH: "covers (rest lx2) ts" "atEnd lx'" "forward lx2 lx'" by auto
      have f2: "forward ?l lx2" using lex_one_forward [OF False] LexSkip by simp
      have "covers (rest ?l) ts"
        using covers.gap [OF lex_one_skip [OF False LexSkip] IH(1)] forward_rest [OF f2] by simp
      then show ?thesis using g IH f f2 forward_trans by blast
    next
      case (LexToken t lx2)
      with "1.prems" False obtain ts' where ts: "tokenize_loop lx2 = Inr (ts', lx')" "ts = t # ts'"
        by (auto simp: tokenize_loop.simps [of lx] Let_def split: sum.splits)
      with "1.IH"(2) [OF refl False LexToken] have IH: "covers (rest lx2) ts'" "atEnd lx'" "forward lx2 lx'" by auto
      have f2: "forward ?l lx2" using lex_one_forward [OF False] LexToken by simp
      have "covers (rest ?l) ts"
        using covers.tok [OF conjunct1 [OF lex_one_token [OF False LexToken]] IH(1)] forward_rest [OF f2] ts(2) by simp
      then show ?thesis using g IH f f2 forward_trans by blast
    qed
  qed
qed

text \<open>Two texts scanned by evaluation.\<close>

lemma lex_letter:
  "tokenize (Lexer_init ''a'' ''f'' no_location) =
     Inr [\<lparr>tk_kind = Ident, tk_lex = ''a'', tk_loc = \<lparr>sl_file = ''f'', sl_line = 1, sl_col = 1\<rparr>\<rparr>,
          \<lparr>tk_kind = Eof, tk_lex = [], tk_loc = \<lparr>sl_file = ''f'', sl_line = 1, sl_col = 2\<rparr>\<rparr>]"
proof -
  let ?lx = "Lexer_init ''a'' ''f'' no_location"
  let ?t = "\<lparr>tk_kind = Ident, tk_lex = ''a'', tk_loc = \<lparr>sl_file = ''f'', sl_line = 1, sl_col = 1\<rparr>\<rparr>"
  have l: "?lx = \<lparr>lx_src = ''a'', lx_file = ''f'', lx_pos = 0, lx_line = 1, lx_col = 1\<rparr>"
    by (simp add: Lexer_init_def no_location_def)
  have id: "isIdCont (CHR ''a'')" "isIdStart (CHR ''a'')" by (simp_all add: isIdCont_def isIdStart_def isalpha_def code_def)
  have a: "advance ?lx = \<lparr>lx_src = ''a'', lx_file = ''f'', lx_pos = 1, lx_line = 1, lx_col = 2\<rparr>"
    by (simp add: l advance_def peek_def Let_def char_defs u32_cast_def)
  have stop: "advance_while P (advance ?lx) = advance ?lx" for P
    by (subst advance_while.simps) (simp add: a atEnd_def)
  have "skipSpace ?lx = ?lx" unfolding skipSpace_def
    by (subst advance_while.simps) (simp add: l peek_def TAB_def)
  moreover have "advance_while isIdCont ?lx = advance ?lx"
    by (subst advance_while_first) (simp_all only: stop, simp_all add: l atEnd_def peek_def id)
  then have "lex_one ?lx = LexToken ?t (advance ?lx)"
    using id by (simp add: lex_one_def lexIdent_def mk_token_def Let_def substr_def l peek_def char_defs loc_def
        keyword_def keyword_table_def a [unfolded l])
  moreover have "tokenize_loop (advance ?lx) = Inr ([], advance ?lx)"
    by (simp add: tokenize_loop.simps [of "advance ?lx"] skipSpace_def stop) (simp add: a atEnd_def)
  ultimately have "tokenize_loop ?lx = Inr ([?t], advance ?lx)"
    by (simp add: tokenize_loop.simps [of ?lx] Let_def) (simp add: l atEnd_def)
  then have "tokenize ?lx = Inr [?t, \<lparr>tk_kind = Eof, tk_lex = [], tk_loc = loc (advance ?lx)\<rparr>]"
    by (simp add: tokenize_def has_bom_def l)
  then show ?thesis by (simp only: a loc_def lexer.simps)
qed

lemma lex_empty_string:
  "tokenize (Lexer_init [DQ, DQ] ''f'' no_location) =
     Inr [\<lparr>tk_kind = StringLit, tk_lex = [DQ, DQ], tk_loc = \<lparr>sl_file = ''f'', sl_line = 1, sl_col = 1\<rparr>\<rparr>,
          \<lparr>tk_kind = Eof, tk_lex = [], tk_loc = \<lparr>sl_file = ''f'', sl_line = 1, sl_col = 3\<rparr>\<rparr>]"
proof -
  let ?lx = "Lexer_init [DQ, DQ] ''f'' no_location"
  let ?t = "\<lparr>tk_kind = StringLit, tk_lex = [DQ, DQ], tk_loc = \<lparr>sl_file = ''f'', sl_line = 1, sl_col = 1\<rparr>\<rparr>"
  let ?m = "advance (advance ?lx)"
  have l: "?lx = \<lparr>lx_src = [DQ, DQ], lx_file = ''f'', lx_pos = 0, lx_line = 1, lx_col = 1\<rparr>"
    by (simp add: Lexer_init_def no_location_def)
  have a: "advance ?lx = \<lparr>lx_src = [DQ, DQ], lx_file = ''f'', lx_pos = 1, lx_line = 1, lx_col = 2\<rparr>"
    unfolding l by (simp add: advance_def peek_def Let_def char_defs u32_cast_def)
  have b: "?m = \<lparr>lx_src = [DQ, DQ], lx_file = ''f'', lx_pos = 2, lx_line = 1, lx_col = 3\<rparr>"
    unfolding a by (simp add: advance_def peek_def Let_def char_defs u32_cast_def)
  have skip: "skipSpace ?lx = ?lx" unfolding skipSpace_def l
    by (subst advance_while.simps) (simp add: peek_def char_defs)
  have stop: "skipSpace ?m = ?m" unfolding skipSpace_def
    by (subst advance_while.simps) (simp add: b atEnd_def)
  have "str_body (advance ?lx) = (True, ?m)"
    by (rule str_body_steps(3)) (simp_all add: a atEnd_def peek_def)
  then have "literalStr ?lx = Inr ([DQ, DQ], ?m)"
    by (simp add: literalStr_def substr_def l)
  moreover have "lex_one ?lx = lexLiteral StringLit literalStr ?lx"
    unfolding l by (simp add: lex_one_def Let_def peek_def char_defs isIdStart_def isalpha_def isdigit_def code_def)
  ultimately have one: "lex_one ?lx = LexToken ?t ?m"
    by (simp add: lexLiteral_def loc_def l)
  have "tokenize_loop ?m = Inr ([], ?m)"
    unfolding tokenize_loop.simps [of ?m] stop by (simp add: b atEnd_def)
  then have "tokenize_loop ?lx = Inr ([?t], ?m)"
    unfolding tokenize_loop.simps [of ?lx] skip Let_def one by (simp add: l atEnd_def)
  moreover have "\<not> has_bom ?lx" by (simp add: l has_bom_def)
  ultimately have "tokenize ?lx = Inr [?t, \<lparr>tk_kind = Eof, tk_lex = [], tk_loc = loc ?m\<rparr>]"
    by (simp add: tokenize_def)
  then show ?thesis by (simp only: b loc_def lexer.simps)
qed

text \<open>
  Property C37 (refinement).  The scanner is lossless: after an optional byte order mark the text is a
  sequence of blanks, comments and lexemes in the order of the tokens, every line end is one token,
  and the stream ends with exactly one end token.
\<close>

theorem tokenize_covers:
  assumes "tokenize lx = Inr ts" and "lx_pos lx = 0"
  shows "\<exists>body e. ts = body @ [e] \<and> tk_kind e = Eof \<and> tk_lex e = []
    \<and> covers (if has_bom lx then drop 3 (lx_src lx) else lx_src lx) body"
proof -
  let ?l = "if has_bom lx then advance (advance (advance lx)) else lx"
  from assms(1) obtain body lx' where b: "tokenize_loop ?l = Inr (body, lx')"
    "ts = body @ [\<lparr>tk_kind = Eof, tk_lex = [], tk_loc = loc lx'\<rparr>]"
    by (auto simp: tokenize_def Let_def split: sum.splits)
  have "rest ?l = (if has_bom lx then drop 3 (lx_src lx) else lx_src lx)"
    using assms(2) by (simp add: rest_def eval_nat_numeral)
  with tokenize_loop_covers [OF b(1)] b(2) show ?thesis by auto
qed

theorem tokenize_covers_witness:
  "covers ''a'' [\<lparr>tk_kind = Ident, tk_lex = ''a'', tk_loc = \<lparr>sl_file = ''f'', sl_line = 1, sl_col = 1\<rparr>\<rparr>]"
  using tokenize_covers [OF lex_letter] by (auto simp: Lexer_init_def has_bom_def)

section \<open>Positions\<close>














section \<open>Quoted literals\<close>

lemma str_body_last: "fst (str_body lx) \<Longrightarrow> \<exists>l. forward lx l \<and> \<not> atEnd l \<and> peek l 0 = DQ \<and> snd (str_body lx) = advance l"
proof (induction lx rule: str_body.induct)
  case (1 lx)
  consider (stop) "atEnd lx" | (esc) "\<not> atEnd lx" "peek lx 0 = BSL" | (quote) "\<not> atEnd lx" "peek lx 0 = DQ"
    | (interp) "\<not> atEnd lx" "peek lx 0 = CHR ''$''" "peek lx 1 = CHR ''{''" "peek lx 0 \<noteq> BSL" "peek lx 0 \<noteq> DQ"
    | (other) "\<not> atEnd lx" "peek lx 0 \<noteq> BSL" "peek lx 0 \<noteq> DQ" "\<not> (peek lx 0 = CHR ''$'' \<and> peek lx 1 = CHR ''{'')"
    by blast
  then show ?case
  proof cases
    case stop
    with "1.prems" show ?thesis by (simp add: str_body_steps)
  next
    case esc
    from "1.IH"(1) [OF esc(1) refl esc(2)] "1.prems" obtain l
      where "forward (advance_opt (advance lx)) l" "\<not> atEnd l" "peek l 0 = DQ" "snd (str_body lx) = advance l"
      by (auto simp: str_body_steps(2) [OF esc])
    then show ?thesis using forward_after [OF esc(1)] forward_trans [OF advance_opt_forward] by blast
  next
    case quote
    then show ?thesis unfolding str_body_steps(3) [OF quote] by (intro exI [of _ lx]) simp
  next
    case interp
    from "1.IH"(2) [OF interp(1) refl interp(4,5)] "1.prems" obtain l
      where "forward (interpolation 1 (advance (advance lx))) l" "\<not> atEnd l" "peek l 0 = DQ" "snd (str_body lx) = advance l"
      using interp(2,3) by (auto simp: str_body_steps(4) [OF interp(1-3)])
    then show ?thesis using interp_forward [OF interp(1,3)] forward_trans by blast
  next
    case other
    from "1.IH"(3) [OF other(1) refl other(2-4)] "1.prems" obtain l
      where "forward (advance lx) l" "\<not> atEnd l" "peek l 0 = DQ" "snd (str_body lx) = advance l"
      by (auto simp: str_body_steps(5) [OF other])
    then show ?thesis using forward_after [OF other(1)] by blast
  qed
qed

definition quoted_by :: "char \<Rightarrow> string \<Rightarrow> bool" where
  "quoted_by q s \<longleftrightarrow> (\<exists>m. s = q # m @ [q])"

lemma consumed_quoted:
  assumes "\<not> atEnd lx" and "peek lx 0 = q" and "forward (advance lx) l" and "\<not> atEnd l" and "peek l 0 = q"
  shows "quoted_by q (consumed lx (advance l))"
proof -
  have "consumed lx (advance l) = consumed lx (advance lx) @ consumed (advance lx) l @ consumed l (advance l)"
    using assms consumed_trans [of lx "advance lx" "advance l"] consumed_trans [of "advance lx" l "advance l"]
    by (simp add: forward_advance)
  then show ?thesis using assms by (simp add: consumed_advance quoted_by_def)
qed

lemma literalChar_last:
  assumes "literalChar lx = Inr (s, lx')"
  shows "\<exists>l. forward (advance lx) l \<and> \<not> atEnd l \<and> peek l 0 = SQ \<and> lx' = advance l"
proof -
  let ?l = "advance lx"
  let ?m = "if \<not> atEnd ?l \<and> peek ?l 0 = BSL then advance_opt (advance ?l)
      else if \<not> atEnd ?l \<and> peek ?l 0 \<noteq> SQ \<and> peek ?l 0 \<noteq> LF \<and> peek ?l 0 \<noteq> CR then advance ?l else ?l"
  have "forward ?l ?m" by (auto intro: forward_after)
  moreover have "\<not> (atEnd ?m \<or> peek ?m 0 \<noteq> SQ)" "lx' = advance ?m"
    using assms unfolding literalChar_def Let_def by (metis (no_types, lifting) Inl_Inr_False Inr_inject prod.inject)+
  ultimately show ?thesis by blast
qed

lemma mk_token_kind: "mk_token k lx l = LexToken t lx' \<Longrightarrow> tk_kind t = k"
  by (auto simp: mk_token_def)

lemma lex_one_quoted:
  assumes "\<not> atEnd lx" and "lex_one lx = LexToken t lx'" and "tk_kind t = StringLit \<or> tk_kind t = CharLit"
  shows "quoted_by (if tk_kind t = StringLit then DQ else SQ) (tk_lex t)"
proof (cases lx rule: lex_one_cases)
  case str
  with assms have t: "literalStr lx = Inr (tk_lex t, lx')" "tk_kind t = StringLit"
    by (auto simp: lexLiteral_def split: sum.splits prod.splits)
  then have c: "fst (str_body (advance lx))" "lx' = snd (str_body (advance lx))"
    by (auto simp: literalStr_def split: prod.splits if_splits)
  from str_body_last [OF c(1)] c(2) obtain l
    where "forward (advance lx) l" "\<not> atEnd l" "peek l 0 = DQ" "lx' = advance l" by auto
  with consumed_quoted [OF assms(1) str(1)] literalStr_consumed [OF t(1)] t(2) show ?thesis by simp
next
  case chr
  with assms have t: "literalChar lx = Inr (tk_lex t, lx')" "tk_kind t = CharLit"
    by (auto simp: lexLiteral_def split: sum.splits prod.splits)
  from literalChar_last [OF t(1)] obtain l
    where "forward (advance lx) l" "\<not> atEnd l" "peek l 0 = SQ" "lx' = advance l" by auto
  with consumed_quoted [OF assms(1) chr(1)] literalChar_consumed [OF t(1)] t(2) show ?thesis by simp
next
  case nl
  with assms(2,3) show ?thesis by (auto simp: lexNewline_def Let_def)
next
  case ident
  with assms(2) lexIdent_kind [of lx] mk_token_kind have "\<not> special (tk_kind t)" by metis
  with assms(3) show ?thesis by (auto simp: special_def)
next
  case num
  with assms(2) lexNumber_kind [of lx] mk_token_kind have "\<not> special (tk_kind t)" by metis
  with assms(3) show ?thesis by (auto simp: special_def)
next
  case op
  with assms(2) obtain k n where "punct (peek lx 0) (peek lx 1) (peek lx 2) = Some (k, n)"
    "mk_token k lx ((advance ^^ n) lx) = LexToken t lx'"
    by (auto simp: lexPunct_def split: option.splits)
  with punct_kind mk_token_kind have "\<not> special (tk_kind t)" by metis
  with assms(3) show ?thesis by (auto simp: special_def)
qed (use assms(2) in \<open>auto simp: lexBlockComment_def Let_def split: if_splits\<close>)

lemma tokenize_loop_quoted:
  "tokenize_loop lx = Inr (ts, lx') \<Longrightarrow> t \<in> set ts \<Longrightarrow> tk_kind t = StringLit \<or> tk_kind t = CharLit \<Longrightarrow>
   quoted_by (if tk_kind t = StringLit then DQ else SQ) (tk_lex t)"
proof (induction lx arbitrary: ts rule: tokenize_loop.induct)
  case (1 lx)
  let ?l = "skipSpace lx"
  have e: "\<not> atEnd ?l" using "1.prems" by (auto simp: tokenize_loop.simps [of lx] Let_def)
  show ?case
  proof (cases "lex_one ?l")
    case (LexError d)
    with "1.prems"(1) e show ?thesis by (simp add: tokenize_loop.simps [of lx] Let_def)
  next
    case (LexSkip lx2)
    with "1.prems"(1) e have "tokenize_loop lx2 = Inr (ts, lx')" by (simp add: tokenize_loop.simps [of lx] Let_def)
    from "1.IH"(1) [OF refl e LexSkip this "1.prems"(2,3)] show ?thesis .
  next
    case (LexToken t' lx2)
    with "1.prems"(1) e obtain ts' where ts: "tokenize_loop lx2 = Inr (ts', lx')" "ts = t' # ts'"
      by (auto simp: tokenize_loop.simps [of lx] Let_def split: sum.splits)
    show ?thesis
    proof (cases "t = t'")
      case True
      with lex_one_quoted [OF e LexToken] "1.prems"(3) show ?thesis by simp
    next
      case False
      with ts(2) "1.prems"(2) have "t \<in> set ts'" by simp
      from "1.IH"(2) [OF refl e LexToken ts(1) this "1.prems"(3)] show ?thesis .
    qed
  qed
qed

text \<open>
  Property C40 (invariant).  The lexeme of a string or character token starts and ends with its own two
  quotes, so a client may strip the first and the last character.
\<close>

theorem literals_quoted:
  assumes "tokenize lx = Inr ts" and "t \<in> set ts" and "tk_kind t = StringLit \<or> tk_kind t = CharLit"
  shows "quoted_by (if tk_kind t = StringLit then DQ else SQ) (tk_lex t)"
proof -
  from assms(1) obtain l body lx' where b: "tokenize_loop l = Inr (body, lx')"
    "ts = body @ [\<lparr>tk_kind = Eof, tk_lex = [], tk_loc = loc lx'\<rparr>]"
    by (auto simp: tokenize_def Let_def split: sum.splits)
  from b(2) assms(2,3) have "t \<in> set body" by auto
  from tokenize_loop_quoted [OF b(1) this assms(3)] show ?thesis .
qed

theorem literals_quoted_witness: "quoted_by DQ [DQ, DQ]"
  using literals_quoted [OF lex_empty_string,
      of "\<lparr>tk_kind = StringLit, tk_lex = [DQ, DQ], tk_loc = \<lparr>sl_file = ''f'', sl_line = 1, sl_col = 1\<rparr>\<rparr>"]
  by simp

section \<open>Printing and scanning\<close>

lemma atEnd_rest: "atEnd lx \<longleftrightarrow> rest lx = []"
  by (simp add: atEnd_def rest_def)

lemma peek_rest: "peek lx k = (if k < length (rest lx) then rest lx ! k else NUL)"
  by (auto simp: peek_def rest_def)

lemma rest_advance: "rest (advance lx) = tl (rest lx)"
  by (simp add: rest_def tl_drop drop_Suc)

lemma rest_advance_pow: "rest ((advance ^^ n) lx) = drop n (rest lx)"
  by (simp add: rest_def add.commute)

lemma advance_while_run:
  assumes "rest lx = s @ r" and "list_all P s" and "r = [] \<or> \<not> P (hd r)"
  shows "advance_while P lx = (advance ^^ length s) lx"
  using assms
proof (induction s arbitrary: lx)
  case Nil
  then show ?case by (subst advance_while.simps) (cases r, auto simp: atEnd_rest peek_rest)
next
  case (Cons c s)
  then have "\<not> atEnd lx" "P (peek lx 0)" by (simp_all add: atEnd_rest peek_rest)
  then have "advance_while P lx = advance_while P (advance lx)" by (rule advance_while_first)
  also have "\<dots> = (advance ^^ length s) (advance lx)"
    using Cons by (intro Cons.IH) (simp_all add: rest_advance)
  finally show ?case by (simp add: funpow_swap1)
qed

definition char_or_blank :: "string \<Rightarrow> nat \<Rightarrow> char" where
  "char_or_blank s i = (if i < length s then s ! i else CHR '' '')"

text \<open>
  The lexemes a printer may emit: identifiers and keywords, decimal integers, operators, line ends,
  each with the kind it stands for.
\<close>

definition wf_lexeme :: "tk \<times> string \<Rightarrow> bool" where
  "wf_lexeme = (\<lambda>(k, s). s \<noteq> [] \<and>
     ((isIdStart (hd s) \<and> list_all isIdCont s \<and> k = (if s = ''_'' then Underscore else keyword s))
      \<or> (list_all isdigit s \<and> k = IntLit)
      \<or> (punct (char_or_blank s 0) (char_or_blank s 1) (char_or_blank s 2) = Some (k, length s))
      \<or> (s = [LF] \<and> k = Newline)))"

lemma blank_no_class: "\<not> isIdCont (CHR '' '')" "\<not> isdigit (CHR '' '')" "\<not> digit_or_us (CHR '' '')"
  by (simp_all add: isIdCont_def isalpha_def isdigit_def digit_or_us_def code_def)

lemma punct_first:
  "punct c c1 c2 = Some (k, n) \<Longrightarrow> c \<noteq> LF \<and> c \<noteq> CR \<and> \<not> isIdStart c \<and> \<not> isdigit c \<and> c \<noteq> DQ \<and> c \<noteq> SQ \<and> c \<noteq> CHR '' '' \<and> c \<noteq> TAB
     \<and> code c < 128"
  by (auto simp: punct_def isIdStart_def isalpha_def isdigit_def code_def char_defs split: if_splits)

lemma punct_no_comment:
  "punct (CHR ''/'') c1 c2 = Some (k, n) \<Longrightarrow> n = length s \<Longrightarrow> s \<noteq> [] \<Longrightarrow> c1 = char_or_blank s 1 \<Longrightarrow>
     c1 \<noteq> CHR ''/'' \<and> c1 \<noteq> CHR ''*''"
  by (auto simp: punct_def char_or_blank_def split: if_splits)

lemma punct_no_fraction:
  "punct (CHR ''.'') c1 c2 = Some (k, n) \<Longrightarrow> n = length s \<Longrightarrow> s \<noteq> [] \<Longrightarrow> c1 = char_or_blank s 1 \<Longrightarrow> \<not> isdigit c1"
  by (auto simp: punct_def char_or_blank_def isdigit_def code_def split: if_splits)

lemma lex_ident:
  assumes "s \<noteq> []" "isIdStart (hd s)" "list_all isIdCont s" and "rest lx = s @ '' '' @ r"
  shows "lex_one lx = LexToken \<lparr>tk_kind = (if s = ''_'' then Underscore else keyword s), tk_lex = s, tk_loc = loc lx\<rparr>
    ((advance ^^ length s) lx)"
proof -
  have p: "peek lx 0 = hd s" using assms(1,4) by (simp add: peek_rest hd_conv_nth nth_append)
  have w: "advance_while isIdCont lx = (advance ^^ length s) lx"
    using assms blank_no_class by (intro advance_while_run) auto
  have sub: "substr lx (lx_pos lx) (length s) = s" using assms(4) by (simp add: substr_def rest_def)
  have "lex_one lx = lexIdent lx"
    using assms(2) unfolding p [symmetric]
    by (auto simp: lex_one_def Let_def isIdStart_def isalpha_def code_def char_defs)
  also have "\<dots> = mk_token (if s = ''_'' then Underscore else keyword s) lx ((advance ^^ length s) lx)"
    using sub by (simp add: lexIdent_def Let_def w substr_def)
  finally show ?thesis using sub by (simp add: mk_token_def)
qed

lemma lex_int:
  assumes "s \<noteq> []" "list_all isdigit s" and "rest lx = s @ '' '' @ r"
  shows "lex_one lx = LexToken \<lparr>tk_kind = IntLit, tk_lex = s, tk_loc = loc lx\<rparr> ((advance ^^ length s) lx)"
proof -
  let ?l = "(advance ^^ length s) lx"
  have p: "isdigit (peek lx 0)" using assms by (cases s) (simp_all add: peek_rest)
  have w: "advance_while digit_or_us lx = ?l"
    using assms blank_no_class by (intro advance_while_run) (auto simp: digit_or_us_def list_all_iff)
  have "peek ?l 0 = CHR '' ''" using assms(3) by (simp add: peek_rest rest_advance_pow)
  moreover have "\<not> radix_prefix lx"
  proof (cases s)
    case (Cons c cs)
    then have "peek lx 1 = CHR '' '' \<or> isdigit (peek lx 1)" using assms by (cases cs) (simp_all add: peek_rest)
    then show ?thesis by (auto simp: radix_prefix_def isdigit_def code_def)
  qed (use assms in simp)
  ultimately have "lexNumber lx = (IntLit, ?l)"
    by (simp add: lexNumber_def w lexFraction_def lexSuffix_def)
  moreover have "lex_one lx = (let (k, l) = lexNumber lx in mk_token k lx l)"
    using p by (auto simp: lex_one_def Let_def isIdStart_def isalpha_def isdigit_def code_def char_defs)
  moreover have "substr lx (lx_pos lx) (length s) = s" using assms(3) by (simp add: substr_def rest_def)
  ultimately show ?thesis by (simp add: mk_token_def)
qed

lemma peek_printed:
  assumes "rest lx = s @ '' '' @ r" and "i \<le> length s"
  shows "peek lx i = char_or_blank s i"
  using assms by (simp add: peek_rest char_or_blank_def nth_append)

lemma punct_one: "punct c (CHR '' '') c2 = Some (k, n) \<Longrightarrow> punct c (CHR '' '') x = Some (k, 1) \<and> n = 1"
  by (auto simp: punct_def split: if_splits)

lemma punct_at:
  assumes "punct (char_or_blank s 0) (char_or_blank s 1) (char_or_blank s 2) = Some (k, length s)"
    and "s \<noteq> []" and "rest lx = s @ '' '' @ r"
  shows "punct (peek lx 0) (peek lx 1) (peek lx 2) = Some (k, length s)"
proof (cases "length s \<ge> 2")
  case True
  then show ?thesis using assms peek_printed [OF assms(3)] by simp
next
  case False
  with assms(2) have "length s = 1" by (cases s) (auto simp: Suc_le_eq)
  then have "char_or_blank s 1 = CHR '' ''" "peek lx 0 = char_or_blank s 0" "peek lx 1 = char_or_blank s 1"
    using peek_printed [OF assms(3)] by (simp_all add: char_or_blank_def)
  with punct_one assms(1) \<open>length s = 1\<close> show ?thesis by metis
qed

lemma lex_punct:
  assumes "s \<noteq> []" "punct (char_or_blank s 0) (char_or_blank s 1) (char_or_blank s 2) = Some (k, length s)"
    and "rest lx = s @ '' '' @ r"
  shows "lex_one lx = LexToken \<lparr>tk_kind = k, tk_lex = s, tk_loc = loc lx\<rparr> ((advance ^^ length s) lx)"
proof -
  have p: "peek lx 0 = char_or_blank s 0" "peek lx 1 = char_or_blank s 1"
    using peek_printed [OF assms(3)] assms(1) by (simp_all add: Suc_le_eq)
  note q = punct_at [OF assms(2,1,3)]
  note c = punct_first [OF q]
  have "\<not> (peek lx 0 = CHR ''/'' \<and> (peek lx 1 = CHR ''/'' \<or> peek lx 1 = CHR ''*''))"
    "\<not> (peek lx 0 = CHR ''.'' \<and> isdigit (peek lx 1))"
    using punct_no_comment [OF _ refl assms(1) p(2)] punct_no_fraction [OF _ refl assms(1) p(2)] q by auto
  with c have "lex_one lx = lexPunct lx" unfolding lex_one_def Let_def by (simp only: if_False simp_thms de_Morgan_conj) auto
  moreover have "substr lx (lx_pos lx) (length s) = s" using assms(3) by (simp add: substr_def rest_def)
  ultimately show ?thesis by (simp add: lexPunct_def q mk_token_def del: One_nat_def)
qed

lemma lex_newline:
  assumes "rest lx = [LF] @ '' '' @ r"
  shows "lex_one lx = LexToken \<lparr>tk_kind = Newline, tk_lex = [LF], tk_loc = loc lx\<rparr> (advance lx)"
  using assms by (simp add: lex_one_def lexNewline_def peek_rest Let_def char_defs)

lemma lex_printed:
  assumes "wf_lexeme (k, s)" and "rest lx = s @ '' '' @ r"
  shows "lex_one lx = LexToken \<lparr>tk_kind = k, tk_lex = s, tk_loc = loc lx\<rparr> ((advance ^^ length s) lx)"
proof -
  from assms(1) have ne: "s \<noteq> []" by (simp add: wf_lexeme_def)
  from assms(1) consider "isIdStart (hd s)" "list_all isIdCont s" "k = (if s = ''_'' then Underscore else keyword s)"
    | "list_all isdigit s" "k = IntLit"
    | "punct (char_or_blank s 0) (char_or_blank s 1) (char_or_blank s 2) = Some (k, length s)"
    | "s = [LF]" "k = Newline" unfolding wf_lexeme_def by blast
  then show ?thesis
  proof cases
    case 1 then show ?thesis using lex_ident [OF ne 1(1,2) assms(2)] by simp
  next
    case 2 then show ?thesis using lex_int [OF ne 2(1) assms(2)] by simp
  next
    case 3 then show ?thesis by (rule lex_punct [OF ne _ assms(2)])
  next
    case 4 then show ?thesis using lex_newline [of lx r] assms(2) by simp
  qed
qed

text \<open>The first character of a lexeme is neither a blank nor outside ASCII.\<close>

lemma wf_lexeme_first:
  assumes "wf_lexeme (k, s)"
  shows "s \<noteq> [] \<and> hd s \<noteq> CHR '' '' \<and> hd s \<noteq> TAB \<and> code (hd s) < 128"
proof -
  from assms have ne: "s \<noteq> []" by (simp add: wf_lexeme_def)
  then have h: "hd s = char_or_blank s 0" by (simp add: char_or_blank_def hd_conv_nth)
  have "list_all isdigit s \<Longrightarrow> isdigit (hd s)" using ne by (cases s) auto
  with assms consider "isIdStart (hd s)" | "isdigit (hd s)"
    | n where "punct (hd s) (char_or_blank s 1) (char_or_blank s 2) = Some (k, n)" | "hd s = LF"
    by (auto simp: wf_lexeme_def h [symmetric])
  then show ?thesis
  proof cases
    case 3 with punct_first [OF 3] ne show ?thesis by simp
  qed (use ne in \<open>auto simp: isIdStart_def isalpha_def isdigit_def code_def char_defs\<close>)
qed

definition printed :: "(tk \<times> string) list \<Rightarrow> string" where
  "printed ks = concat (map (\<lambda>(k, s). s @ '' '') ks)"

definition token_shape :: "token \<Rightarrow> tk \<times> string" where
  "token_shape t = (tk_kind t, tk_lex t)"

lemma skipSpace_printed:
  assumes "rest lx = b @ printed ks" and "list_all blank b" and "list_all wf_lexeme ks"
  shows "skipSpace lx = (advance ^^ length b) lx"
proof -
  have "printed ks = [] \<or> \<not> (hd (printed ks) = CHR '' '' \<or> hd (printed ks) = TAB)"
    using assms(3) wf_lexeme_first by (cases ks) (auto simp: printed_def)
  then show ?thesis unfolding skipSpace_def
    using assms by (intro advance_while_run) (auto simp: blank_def list_all_iff)
qed

lemma tokenize_loop_printed:
  "rest lx = b @ printed ks \<Longrightarrow> list_all blank b \<Longrightarrow> list_all wf_lexeme ks \<Longrightarrow>
   \<exists>ts lx'. tokenize_loop lx = Inr (ts, lx') \<and> map token_shape ts = ks"
proof (induction ks arbitrary: lx b)
  case Nil
  let ?l = "skipSpace lx"
  have "rest ?l = []" using Nil skipSpace_printed [OF Nil] by (simp add: rest_advance_pow printed_def)
  then show ?case by (simp add: tokenize_loop.simps [of lx] Let_def atEnd_rest)
next
  case (Cons p ks)
  obtain k s where p: "p = (k, s)" by (cases p)
  let ?l = "skipSpace lx"
  let ?m = "(advance ^^ length s) ?l"
  have r: "rest ?l = s @ '' '' @ printed ks"
    using Cons.prems skipSpace_printed [OF Cons.prems] by (simp add: rest_advance_pow printed_def p)
  have w: "wf_lexeme (k, s)" using Cons.prems p by simp
  from lex_printed [OF w r] have one: "lex_one ?l = LexToken \<lparr>tk_kind = k, tk_lex = s, tk_loc = loc ?l\<rparr> ?m" .
  have "rest ?m = '' '' @ printed ks" using r by (simp add: rest_advance_pow)
  from Cons.IH [OF this] Cons.prems obtain ts lx' where "tokenize_loop ?m = Inr (ts, lx')" "map token_shape ts = ks"
    by (auto simp: blank_def)
  moreover have "\<not> atEnd ?l" using r wf_lexeme_first [OF w] by (simp add: atEnd_rest)
  ultimately show ?case using one by (auto simp: tokenize_loop.simps [of lx] Let_def token_shape_def p)
qed

text \<open>
  Property C38 (round trip).  Printing identifiers, keywords, decimal integers, operators and line ends
  with a blank after each and scanning the text gives back the same kinds and lexemes, then the end token.
\<close>

theorem lex_printed_roundtrip:
  assumes "list_all wf_lexeme ks"
  shows "\<exists>ts. tokenize (Lexer_init (printed ks) file no_location) = Inr ts \<and> map token_shape ts = ks @ [(Eof, [])]"
proof -
  let ?lx = "Lexer_init (printed ks) file no_location"
  have i: "lx_src ?lx = printed ks" "lx_pos ?lx = 0" by (simp_all add: Lexer_init_def)
  have "\<not> has_bom ?lx"
  proof (cases ks)
    case (Cons p ks')
    obtain k s where p: "p = (k, s)" by (cases p)
    with assms Cons have "code (hd s) < 128" "s \<noteq> []" using wf_lexeme_first by auto
    then have "code (lx_src ?lx ! 0) < 128" unfolding i(1) using Cons p by (cases s) (simp_all add: printed_def)
    then show ?thesis unfolding has_bom_def by linarith
  qed (simp add: has_bom_def Lexer_init_def printed_def)
  moreover obtain ts lx' where "tokenize_loop ?lx = Inr (ts, lx')" "map token_shape ts = ks"
    using tokenize_loop_printed [of ?lx "[]" ks] assms i by (auto simp: rest_def)
  ultimately show ?thesis by (auto simp: tokenize_def token_shape_def)
qed

theorem lex_printed_roundtrip_witness:
  "\<exists>ts. tokenize (Lexer_init ''val x >>= 42 '' ''f'' no_location) = Inr ts
     \<and> map token_shape ts = [(KwVal, ''val''), (Ident, ''x''), (ShrEq, ''>>=''), (IntLit, ''42''), (Eof, [])]"
proof -
  let ?ks = "[(KwVal, ''val''), (Ident, ''x''), (ShrEq, ''>>=''), (IntLit, ''42'')]"
  have "list_all wf_lexeme ?ks"
    by (simp add: wf_lexeme_def isIdStart_def isIdCont_def isalpha_def isdigit_def code_def keyword_def
        keyword_table_def punct_def char_or_blank_def)
  from lex_printed_roundtrip [OF this, of "''f''"] show ?thesis by (simp add: printed_def)
qed

section \<open>Two boundary behaviours\<close>

text \<open>
  An \<open>e\<close> that no exponent follows is given back to the text, yet the digits before it are already
  marked as a floating-point literal: \<open>1e\<close> scans as the float \<open>1\<close> and an identifier.
\<close>

lemma bare_exponent_is_float:
  assumes "s \<noteq> []" and "list_all isdigit s" and "rest lx = s @ ''e '' @ r"
  shows "lexNumber lx = (FloatLit, (advance ^^ length s) lx)"
proof -
  let ?l = "(advance ^^ length s) lx"
  have w: "advance_while digit_or_us lx = ?l"
    using assms by (intro advance_while_run) (auto simp: digit_or_us_def list_all_iff isdigit_def code_def)
  have p: "peek ?l 0 = CHR ''e''" "peek (advance ?l) 0 = CHR '' ''"
    using assms(3) by (simp_all add: peek_rest rest_advance_pow rest_advance)
  have "\<not> radix_prefix lx"
  proof (cases s)
    case (Cons c cs)
    then have "peek lx 1 = CHR ''e'' \<or> isdigit (peek lx 1)" using assms by (cases cs) (simp_all add: peek_rest)
    then show ?thesis by (auto simp: radix_prefix_def isdigit_def code_def)
  qed (use assms in simp)
  have "scans plain lx ?l"
    by (rule scans_mono [OF advance_while_scans [of digit_or_us lx, unfolded w] isdigit_plain(2)])
  then have "scans plain ?l (lexExponent lx ?l)" using assms(1) p by (intro lexExponent_scans) auto
  moreover have "lx_pos (lexExponent lx ?l) = lx_pos ?l"
    using p by (simp add: lexExponent_def Let_def isdigit_def code_def)
  ultimately have "lexExponent lx ?l = ?l" by (auto simp: scans_def forward_def)
  moreover have "\<not> radix_prefix lx" by fact
  ultimately show ?thesis using p by (simp add: lexNumber_def w lexFraction_def lexSuffix_def)
qed

text \<open>The three bytes of a byte order mark are skipped but counted: the text proper starts in column 4.\<close>

lemma bom_counts_columns:
  assumes "has_bom (Lexer_init src file no_location)"
  shows "lx_col (advance (advance (advance (Lexer_init src file no_location)))) = 4"
proof -
  let ?lx = "Lexer_init src file no_location"
  have i: "lx_src ?lx = src" "lx_pos ?lx = 0" "lx_col ?lx = 1" by (simp_all add: Lexer_init_def no_location_def)
  have "(advance ^^ Suc 2) ?lx = ?lx\<lparr>lx_pos := lx_pos ?lx + Suc 2, lx_col := u32_cast (lx_col ?lx + Suc 2)\<rparr>"
  proof (rule advance_pow_plain)
    fix k assume "lx_pos ?lx \<le> k" "k < lx_pos ?lx + Suc 2"
    then have "k = 0 \<or> k = 1 \<or> k = 2" by (auto simp: i)
    then have "code (src ! k) > 128" using assms by (auto simp: has_bom_def i)
    then show "plain (lx_src ?lx ! k)" by (auto simp: i plain_def code_def char_defs)
  qed (use assms in \<open>simp add: has_bom_def\<close>)
  moreover have "advance (advance (advance ?lx)) = (advance ^^ Suc 2) ?lx" by (simp add: numeral_2_eq_2)
  ultimately show ?thesis by (simp add: i u32_cast_def del: funpow.simps)
qed

end
