(* ===== verification/Lx_Spsc.thy ===== *)
theory Lx_Spsc
  imports Lx_Prelude
begin

text \<open>
  The single-producer single-consumer ring (\<open>aarc/core/spsc_queue.hpp\<close>).  The two indexes are
  64-bit words that wrap; the capacity is the length of the slot array.  The operations are given
  first as the code has them, then as the interleaving of their atomic accesses: between the loads and
  the releasing store of one side the other side may run, so the index a side has read can be stale.
\<close>

section \<open>The operations\<close>

record 'a spsc =
  q_head :: "64 word"
  q_tail :: "64 word"
  q_slot :: "'a list"

definition kCapacity :: "'a spsc \<Rightarrow> nat" where
  "kCapacity q = length (q_slot q)"

definition SpscQueue_init :: "'a list \<Rightarrow> 'a spsc" where
  "SpscQueue_init slots = \<lparr>q_head = 0, q_tail = 0, q_slot = slots\<rparr>"

text \<open>\<open>i & (kCapacity - 1)\<close>.\<close>

definition slot_index :: "'a spsc \<Rightarrow> 64 word \<Rightarrow> nat" where
  "slot_index q i = unat (i AND (of_nat (kCapacity q) - 1))"

definition is_full :: "nat \<Rightarrow> 64 word \<Rightarrow> 64 word \<Rightarrow> bool" where
  "is_full cap tail head \<longleftrightarrow> tail - head \<ge> of_nat cap"

definition tryPush :: "'a \<Rightarrow> 'a spsc \<Rightarrow> bool \<times> 'a spsc" where
  "tryPush v q =
     (if is_full (kCapacity q) (q_tail q) (q_head q) then (False, q)
      else (True, q\<lparr>q_slot := (q_slot q)[slot_index q (q_tail q) := v], q_tail := q_tail q + 1\<rparr>))"

definition beginSpan :: "64 word \<Rightarrow> 'a spsc \<Rightarrow> 64 word" where
  "beginSpan mx q =
     (let cap = of_nat (kCapacity q);
          room = cap - (q_tail q - q_head q);
          contig = cap - (q_tail q AND (cap - 1));
          room' = (if contig < room then contig else room) in
      if room' < mx then room' else mx)"

text \<open>\<open>spanPtr()[i] = v\<close>: a write through the pointer to the first reserved slot.\<close>

definition spanWrite :: "nat \<Rightarrow> 'a \<Rightarrow> 'a spsc \<Rightarrow> 'a spsc" where
  "spanWrite i v q = q\<lparr>q_slot := (q_slot q)[slot_index q (q_tail q) + i := v]\<rparr>"

definition commitSpan :: "64 word \<Rightarrow> 'a spsc \<Rightarrow> 'a spsc" where
  "commitSpan n q = q\<lparr>q_tail := q_tail q + n\<rparr>"

definition tryPop :: "'a spsc \<Rightarrow> 'a option \<times> 'a spsc" where
  "tryPop q =
     (if q_head q = q_tail q then (None, q)
      else (Some (q_slot q ! slot_index q (q_head q)), q\<lparr>q_head := q_head q + 1\<rparr>))"

definition tailSnapshot :: "'a spsc \<Rightarrow> 64 word" where "tailSnapshot q = q_tail q"

definition headPosition :: "'a spsc \<Rightarrow> 64 word" where "headPosition q = q_head q"

definition spsc_empty :: "'a spsc \<Rightarrow> bool" where "spsc_empty q \<longleftrightarrow> q_head q = q_tail q"

definition spsc_size :: "'a spsc \<Rightarrow> 64 word" where
  "spsc_size q = (if q_tail q \<ge> q_head q then q_tail q - q_head q else 0)"

section \<open>Arithmetic of the indexes\<close>

text \<open>The two static assertions on the capacity.\<close>

definition wf_capacity :: "nat \<Rightarrow> bool" where
  "wf_capacity cap \<longleftrightarrow> (\<exists>j. 0 < j \<and> j < 64 \<and> cap = 2 ^ j)"

lemma wf_capacity_bounds: "wf_capacity cap \<Longrightarrow> 2 \<le> cap \<and> cap \<le> 2 ^ 63"
proof -
  assume "wf_capacity cap"
  then obtain j where j: "0 < j" "j < 64" "cap = 2 ^ j" by (auto simp: wf_capacity_def)
  then have "(2::nat) ^ 1 \<le> 2 ^ j" "(2::nat) ^ j \<le> 2 ^ 63" by (intro power_increasing; simp)+
  with j show ?thesis by simp
qed

lemma unat_of_nat64: "unat (of_nat n :: 64 word) = n mod 2 ^ 64"
  by (simp add: unat_of_nat)

lemma word_diff_count:
  assumes "c \<le> p" and "p - c < 2 ^ 64"
  shows "unat (of_nat p - of_nat c :: 64 word) = p - c"
proof -
  have "(of_nat p - of_nat c :: 64 word) = of_nat (p - c)" using assms(1) by (simp add: of_nat_diff)
  then show ?thesis using assms(2) by (simp add: unat_of_nat64)
qed

lemma index_mod:
  assumes "wf_capacity cap" and "kCapacity q = cap"
  shows "slot_index q (of_nat k) = k mod cap"
proof -
  from assms obtain j where j: "0 < j" "j < 64" "cap = 2 ^ j" by (auto simp: wf_capacity_def)
  have m: "(of_nat cap - 1 :: 64 word) = mask j" by (simp add: j(3) mask_eq_exp_minus_1)
  have "unat (of_nat k AND mask j :: 64 word) = unat (take_bit j (of_nat k :: 64 word))"
    by (simp add: take_bit_eq_mask)
  also have "\<dots> = take_bit j (unat (of_nat k :: 64 word))" by (simp add: unsigned_take_bit_eq)
  also have "\<dots> = k mod 2 ^ 64 mod 2 ^ j" by (simp add: take_bit_eq_mod unat_of_nat64)
  also have "\<dots> = k mod 2 ^ j" using j by (intro mod_mod_cancel le_imp_power_dvd) simp
  finally show ?thesis using assms(2) j(3) unfolding slot_index_def assms(2) m by simp
qed

lemma is_full_count:
  assumes "c \<le> p" and "p - c \<le> cap" and "wf_capacity cap"
  shows "is_full cap (of_nat p) (of_nat c) \<longleftrightarrow> p - c = cap"
proof -
  have b: "cap \<le> 2 ^ 63" using wf_capacity_bounds assms(3) by blast
  then have d: "unat (of_nat p - of_nat c :: 64 word) = p - c" "unat (of_nat cap :: 64 word) = cap"
    using assms word_diff_count [of c p] by (simp_all add: unat_of_nat64)
  show ?thesis unfolding is_full_def word_le_nat_alt d using assms(2) by auto
qed

lemma same_index_count:
  assumes "c \<le> p" and "p - c \<le> cap" and "wf_capacity cap"
  shows "(of_nat c :: 64 word) = of_nat p \<longleftrightarrow> c = p"
proof -
  have "unat (of_nat p - of_nat c :: 64 word) = p - c"
    using assms wf_capacity_bounds [OF assms(3)] by (intro word_diff_count) auto
  then have "p - c = 0" if "(of_nat c :: 64 word) = of_nat p" using that by simp
  with assms(1) show ?thesis by auto
qed

lemma mod_window:
  assumes "c \<le> k" and "k < p" and "p - c < (cap::nat)"
  shows "k mod cap \<noteq> p mod cap"
proof
  assume "k mod cap = p mod cap"
  then have "cap dvd p - k" using assms by (metis less_imp_le_nat mod_eq_dvd_iff_nat)
  with assms show False by (auto dest!: dvd_imp_le)
qed

section \<open>Interleaving\<close>

text \<open>
  Where each side stands inside its operation.  \<open>PReady v t h\<close>: a push has loaded both indexes;
  \<open>PWritten v t\<close>: it has written the slot; \<open>PSpan n vs\<close>: a span of \<open>n\<close> slots is reserved and \<open>vs\<close>
  are written.  \<open>CReady h t\<close>: a pop has loaded both indexes; \<open>CRead v h\<close>: it has read the slot.
  The two lists are history: what has been published and what has been taken.
\<close>

datatype 'a producer = PIdle | PReady 'a "64 word" "64 word" | PWritten 'a "64 word" | PSpan nat "'a list"

datatype 'a consumer = CIdle | CReady "64 word" "64 word" | CRead 'a "64 word"

record 'a ring =
  r_q :: "'a spsc"
  r_prod :: "'a producer"
  r_cons :: "'a consumer"
  r_sent :: "'a list"
  r_got :: "'a list"

inductive ring_step :: "'a ring \<Rightarrow> 'a ring \<Rightarrow> bool" where
  push_load: "r_prod r = PIdle \<Longrightarrow>
    ring_step r (r\<lparr>r_prod := PReady v (q_tail (r_q r)) (q_head (r_q r))\<rparr>)"
| push_full: "r_prod r = PReady v t h \<Longrightarrow> is_full (kCapacity (r_q r)) t h \<Longrightarrow>
    ring_step r (r\<lparr>r_prod := PIdle\<rparr>)"
| push_write: "r_prod r = PReady v t h \<Longrightarrow> \<not> is_full (kCapacity (r_q r)) t h \<Longrightarrow>
    ring_step r (r\<lparr>r_q := (r_q r)\<lparr>q_slot := (q_slot (r_q r))[slot_index (r_q r) t := v]\<rparr>, r_prod := PWritten v t\<rparr>)"
| push_publish: "r_prod r = PWritten v t \<Longrightarrow>
    ring_step r (r\<lparr>r_q := (r_q r)\<lparr>q_tail := t + 1\<rparr>, r_prod := PIdle, r_sent := r_sent r @ [v]\<rparr>)"
| span_begin: "r_prod r = PIdle \<Longrightarrow>
    ring_step r (r\<lparr>r_prod := PSpan (unat (beginSpan mx (r_q r))) []\<rparr>)"
| span_write: "r_prod r = PSpan n vs \<Longrightarrow> length vs < n \<Longrightarrow>
    ring_step r (r\<lparr>r_q := spanWrite (length vs) v (r_q r), r_prod := PSpan n (vs @ [v])\<rparr>)"
| span_commit: "r_prod r = PSpan n vs \<Longrightarrow>
    ring_step r (r\<lparr>r_q := commitSpan (of_nat (length vs)) (r_q r), r_prod := PIdle, r_sent := r_sent r @ vs\<rparr>)"
| pop_load: "r_cons r = CIdle \<Longrightarrow>
    ring_step r (r\<lparr>r_cons := CReady (q_head (r_q r)) (q_tail (r_q r))\<rparr>)"
| pop_empty: "r_cons r = CReady h t \<Longrightarrow> h = t \<Longrightarrow> ring_step r (r\<lparr>r_cons := CIdle\<rparr>)"
| pop_read: "r_cons r = CReady h t \<Longrightarrow> h \<noteq> t \<Longrightarrow>
    ring_step r (r\<lparr>r_cons := CRead (q_slot (r_q r) ! slot_index (r_q r) h) h\<rparr>)"
| pop_release: "r_cons r = CRead v h \<Longrightarrow>
    ring_step r (r\<lparr>r_q := (r_q r)\<lparr>q_head := h + 1\<rparr>, r_cons := CIdle, r_got := r_got r @ [v]\<rparr>)"

definition ring_init :: "'a list \<Rightarrow> 'a ring" where
  "ring_init slots = \<lparr>r_q = SpscQueue_init slots, r_prod = PIdle, r_cons = CIdle, r_sent = [], r_got = []\<rparr>"

inductive ring_reach :: "'a list \<Rightarrow> 'a ring \<Rightarrow> bool" for slots where
  start: "ring_reach slots (ring_init slots)"
| step: "ring_reach slots r \<Longrightarrow> ring_step r r' \<Longrightarrow> ring_reach slots r'"

text \<open>A push and a pop that nothing interrupts are the operations of the code.\<close>

lemma tryPush_steps:
  assumes "r_prod r = PIdle"
  shows "ring_step\<^sup>*\<^sup>* r (r\<lparr>r_q := snd (tryPush v (r_q r)), r_prod := PIdle,
    r_sent := r_sent r @ (if fst (tryPush v (r_q r)) then [v] else [])\<rparr>)"
proof -
  let ?q = "r_q r"
  let ?r1 = "r\<lparr>r_prod := PReady v (q_tail ?q) (q_head ?q)\<rparr>"
  have s1: "ring_step r ?r1" using assms by (rule push_load)
  show ?thesis
  proof (cases "is_full (kCapacity ?q) (q_tail ?q) (q_head ?q)")
    case True
    have "ring_step ?r1 (?r1\<lparr>r_prod := PIdle\<rparr>)" by (rule push_full) (use True in simp_all)
    with s1 show ?thesis using True by (simp add: tryPush_def)
  next
    case False
    let ?r2 = "?r1\<lparr>r_q := ?q\<lparr>q_slot := (q_slot ?q)[slot_index ?q (q_tail ?q) := v]\<rparr>, r_prod := PWritten v (q_tail ?q)\<rparr>"
    have s2: "ring_step ?r1 ?r2" using push_write [of ?r1 v "q_tail ?q" "q_head ?q"] False by simp
    have s3: "ring_step ?r2 (?r2\<lparr>r_q := (r_q ?r2)\<lparr>q_tail := q_tail ?q + 1\<rparr>, r_prod := PIdle, r_sent := r_sent ?r2 @ [v]\<rparr>)"
      by (rule push_publish) simp
    then have "ring_step ?r2 (r\<lparr>r_q := snd (tryPush v ?q), r_prod := PIdle, r_sent := r_sent r @ [v]\<rparr>)"
      using False by (simp add: tryPush_def)
    with s1 s2 show ?thesis using False by (simp add: tryPush_def)
  qed
qed

lemma tryPop_steps:
  assumes "r_cons r = CIdle"
  shows "ring_step\<^sup>*\<^sup>* r (r\<lparr>r_q := snd (tryPop (r_q r)), r_cons := CIdle,
    r_got := r_got r @ (case fst (tryPop (r_q r)) of None \<Rightarrow> [] | Some v \<Rightarrow> [v])\<rparr>)"
proof -
  let ?q = "r_q r"
  let ?r1 = "r\<lparr>r_cons := CReady (q_head ?q) (q_tail ?q)\<rparr>"
  have s1: "ring_step r ?r1" using assms by (rule pop_load)
  show ?thesis
  proof (cases "q_head ?q = q_tail ?q")
    case True
    have "ring_step ?r1 (?r1\<lparr>r_cons := CIdle\<rparr>)" by (rule pop_empty) (use True in simp_all)
    with s1 show ?thesis using True by (simp add: tryPop_def)
  next
    case False
    let ?v = "q_slot ?q ! slot_index ?q (q_head ?q)"
    let ?r2 = "?r1\<lparr>r_cons := CRead ?v (q_head ?q)\<rparr>"
    have s2: "ring_step ?r1 ?r2" using pop_read [of ?r1 "q_head ?q" "q_tail ?q"] False by simp
    have "ring_step ?r2 (?r2\<lparr>r_q := (r_q ?r2)\<lparr>q_head := q_head ?q + 1\<rparr>, r_cons := CIdle, r_got := r_got ?r2 @ [?v]\<rparr>)"
      by (rule pop_release) simp
    with s1 s2 show ?thesis using False by (simp add: tryPop_def)
  qed
qed

section \<open>The invariant\<close>

definition ring_base :: "nat \<Rightarrow> 'a ring \<Rightarrow> bool" where
  "ring_base cap r \<longleftrightarrow>
     (let P = length (r_sent r); C = length (r_got r) in
      kCapacity (r_q r) = cap \<and> q_tail (r_q r) = of_nat P \<and> q_head (r_q r) = of_nat C
      \<and> C \<le> P \<and> P - C \<le> cap \<and> r_got r = take C (r_sent r)
      \<and> (\<forall>k. C \<le> k \<longrightarrow> k < P \<longrightarrow> q_slot (r_q r) ! (k mod cap) = r_sent r ! k))"

fun prod_ok :: "nat \<Rightarrow> 'a ring \<Rightarrow> 'a producer \<Rightarrow> bool" where
  "prod_ok cap r PIdle \<longleftrightarrow> True"
| "prod_ok cap r (PReady v t h) \<longleftrightarrow> t = of_nat (length (r_sent r))
     \<and> (\<exists>c \<le> length (r_got r). h = of_nat c \<and> length (r_sent r) - c \<le> cap)"
| "prod_ok cap r (PWritten v t) \<longleftrightarrow> t = of_nat (length (r_sent r))
     \<and> length (r_sent r) - length (r_got r) < cap \<and> q_slot (r_q r) ! (length (r_sent r) mod cap) = v"
| "prod_ok cap r (PSpan n vs) \<longleftrightarrow> length vs \<le> n \<and> length (r_sent r) mod cap + n \<le> cap
     \<and> length (r_sent r) + n \<le> length (r_got r) + cap
     \<and> (\<forall>i < length vs. q_slot (r_q r) ! (length (r_sent r) mod cap + i) = vs ! i)"

fun cons_ok :: "nat \<Rightarrow> 'a ring \<Rightarrow> 'a consumer \<Rightarrow> bool" where
  "cons_ok cap r CIdle \<longleftrightarrow> True"
| "cons_ok cap r (CReady h t) \<longleftrightarrow> h = of_nat (length (r_got r))
     \<and> (\<exists>p. length (r_got r) \<le> p \<and> p \<le> length (r_sent r) \<and> t = of_nat p)"
| "cons_ok cap r (CRead v h) \<longleftrightarrow> h = of_nat (length (r_got r))
     \<and> length (r_got r) < length (r_sent r) \<and> v = r_sent r ! length (r_got r)"

definition ring_ok :: "nat \<Rightarrow> 'a ring \<Rightarrow> bool" where
  "ring_ok cap r \<longleftrightarrow> ring_base cap r \<and> prod_ok cap r (r_prod r) \<and> cons_ok cap r (r_cons r)"

lemma mod_offset: "x mod cap + i < cap \<Longrightarrow> (x mod cap + i) = (x + i) mod (cap::nat)"
  by (metis mod_add_left_eq mod_less)

lemma beginSpan_bounds:
  assumes "wf_capacity cap" "kCapacity q = cap" "q_tail q = of_nat p" "q_head q = of_nat c" "c \<le> p" "p - c \<le> cap"
  shows "p mod cap + unat (beginSpan mx q) \<le> cap \<and> p + unat (beginSpan mx q) \<le> c + cap"
proof -
  have cap: "2 \<le> cap" "cap \<le> 2 ^ 63" using wf_capacity_bounds [OF assms(1)] by auto
  have room: "unat (of_nat cap - (q_tail q - q_head q)) = cap - (p - c)"
  proof -
    have "q_tail q - q_head q = of_nat (p - c)" using assms by (simp add: of_nat_diff)
    then show ?thesis using word_diff_count [of "p - c" cap] assms(6) cap by simp
  qed
  have contig: "unat (of_nat cap - (q_tail q AND (of_nat cap - 1))) = cap - p mod cap"
  proof -
    have "unat (q_tail q AND (of_nat cap - 1)) = p mod cap"
      using index_mod [OF assms(1,2), of p] assms(2,3) by (simp add: slot_index_def)
    moreover have le: "p mod cap \<le> cap" using cap by simp
    ultimately have "q_tail q AND (of_nat cap - 1) = of_nat (p mod cap)"
      using cap le_less_trans [OF le, of "2 ^ 64"] by (simp add: word_unat_eq_iff unat_of_nat64)
    then show ?thesis using word_diff_count [OF le] cap by simp
  qed
  have "unat (beginSpan mx q) \<le> cap - (p - c) \<and> unat (beginSpan mx q) \<le> cap - p mod cap"
    unfolding beginSpan_def Let_def assms(2) using room contig
    by (auto simp: word_less_nat_alt)
  moreover have "p mod cap \<le> cap" using cap by simp
  ultimately show ?thesis using assms(5,6) by linarith
qed

lemma side_frames [simp]:
  "prod_ok cap (r\<lparr>r_prod := x\<rparr>) p = prod_ok cap r p" "prod_ok cap (r\<lparr>r_cons := y\<rparr>) p = prod_ok cap r p"
  "cons_ok cap (r\<lparr>r_prod := x\<rparr>) c = cons_ok cap r c" "cons_ok cap (r\<lparr>r_cons := y\<rparr>) c = cons_ok cap r c"
  "cons_ok cap (r\<lparr>r_q := q\<rparr>) c = cons_ok cap r c"
  by (cases p; simp)+ (cases c; simp)+

lemma ring_okD:
  assumes "ring_ok cap r"
  shows "length (q_slot (r_q r)) = cap" "kCapacity (r_q r) = cap"
    "q_tail (r_q r) = of_nat (length (r_sent r))" "q_head (r_q r) = of_nat (length (r_got r))"
    "length (r_got r) \<le> length (r_sent r)" "length (r_sent r) - length (r_got r) \<le> cap"
    "r_got r = take (length (r_got r)) (r_sent r)"
    "\<And>k. length (r_got r) \<le> k \<Longrightarrow> k < length (r_sent r) \<Longrightarrow> q_slot (r_q r) ! (k mod cap) = r_sent r ! k"
    "prod_ok cap r (r_prod r)" "cons_ok cap r (r_cons r)"
  using assms by (auto simp: ring_ok_def ring_base_def kCapacity_def Let_def)

lemma ring_step_ok:
  assumes "wf_capacity cap" and "ring_step r r'" and "ring_ok cap r"
  shows "ring_ok cap r'"
proof -
  note o = ring_okD [OF assms(3)]
  have cap: "2 \<le> cap" "0 < cap" using wf_capacity_bounds [OF assms(1)] by auto
  note ix = index_mod [OF assms(1) o(2)]
  from assms(2) show ?thesis
  proof cases
    case (push_load v)
    then show ?thesis using assms(3) o(3-6) by (auto simp: ring_ok_def ring_base_def Let_def)
  next
    case (push_full v t h)
    then show ?thesis using assms(3) by (auto simp: ring_ok_def ring_base_def Let_def)
  next
    case (push_write v t h)
    from o(9) push_write(2) obtain c where c: "t = of_nat (length (r_sent r))" "c \<le> length (r_got r)"
      "h = of_nat c" "length (r_sent r) - c \<le> cap" by auto
    have "length (r_sent r) - c \<noteq> cap"
      using push_write(3) is_full_count [OF _ c(4) assms(1)] c o(2,5) by auto
    then have room: "length (r_sent r) - length (r_got r) < cap" using c(2,4) by linarith
    have "length (r_sent r) mod cap \<noteq> k mod cap" if "length (r_got r) \<le> k" "k < length (r_sent r)" for k
      using mod_window [OF that room] by simp
    with push_write room c(1) assms(3) o(1,2,10) cap show ?thesis
      by (auto simp: ring_ok_def ring_base_def Let_def ix kCapacity_def)
  next
    case (push_publish v t)
    with o(9) have w: "t = of_nat (length (r_sent r))" "length (r_sent r) - length (r_got r) < cap"
      "q_slot (r_q r) ! (length (r_sent r) mod cap) = v" by auto
    with push_publish assms(3) o show ?thesis
      by (cases "r_cons r")
         (auto simp: ring_ok_def ring_base_def Let_def kCapacity_def nth_append less_Suc_eq intro: le_SucI)
  next
    case (span_begin mx)
    with beginSpan_bounds [OF assms(1) o(2-6)] assms(3) show ?thesis
      by (auto simp: ring_ok_def ring_base_def Let_def)
  next
    case (pop_load)
    then show ?thesis using assms(3) o(3-6) by (auto simp: ring_ok_def ring_base_def Let_def)
  next
    case (pop_empty h t)
    then show ?thesis using assms(3) by (auto simp: ring_ok_def ring_base_def Let_def)
  next
    case (pop_read h t)
    with o(10) obtain p where p: "h = of_nat (length (r_got r))" "length (r_got r) \<le> p" "p \<le> length (r_sent r)" "t = of_nat p"
      by auto
    with pop_read(3) have "length (r_got r) < length (r_sent r)" by (cases "p = length (r_got r)") auto
    with pop_read p(1) assms(3) o(8) ix show ?thesis
      by (auto simp: ring_ok_def ring_base_def Let_def)
  next
    case (pop_release v h)
    with o(10) have w: "h = of_nat (length (r_got r))" "length (r_got r) < length (r_sent r)"
      "v = r_sent r ! length (r_got r)" by auto
    with o(7) have "r_got r @ [v] = take (Suc (length (r_got r))) (r_sent r)"
      by (simp add: take_Suc_conv_app_nth)
    with pop_release w assms(3) o show ?thesis
      by (cases "r_prod r") (auto simp: ring_ok_def ring_base_def Let_def kCapacity_def intro: le_SucI)
  next
    case (span_write n vs v)
    let ?p = "length (r_sent r)"
    from o(9) span_write(2) have w: "length vs \<le> n" "?p mod cap + n \<le> cap" "?p + n \<le> length (r_got r) + cap"
      "\<And>i. i < length vs \<Longrightarrow> q_slot (r_q r) ! (?p mod cap + i) = vs ! i" by auto
    have at: "slot_index (r_q r) (q_tail (r_q r)) + length vs = ?p mod cap + length vs" by (simp add: o(3) ix)
    have "?p mod cap + length vs = (?p + length vs) mod cap" using w(2) span_write(3) by (intro mod_offset) simp
    moreover have "k mod cap \<noteq> (?p + length vs) mod cap" if "length (r_got r) \<le> k" "k < ?p" for k
      using that w(3) span_write(3) by (intro mod_window [of "length (r_got r)"]) auto
    ultimately have "?p mod cap + length vs \<noteq> k mod cap" if "length (r_got r) \<le> k" "k < ?p" for k using that by metis
    moreover have "?p mod cap + length vs < cap" using w(2) span_write(3) by linarith
    ultimately show ?thesis using span_write w assms(3) o(1)
      by (auto simp: ring_ok_def ring_base_def Let_def kCapacity_def spanWrite_def at nth_append less_Suc_eq)
  next
    case (span_commit n vs)
    let ?p = "length (r_sent r)"
    from o(9) span_commit(2) have w: "length vs \<le> n" "?p mod cap + n \<le> cap" "?p + n \<le> length (r_got r) + cap"
      "\<And>i. i < length vs \<Longrightarrow> q_slot (r_q r) ! (?p mod cap + i) = vs ! i" by auto
    have new: "q_slot (r_q r) ! (k mod cap) = vs ! (k - ?p)" if "?p \<le> k" "k < ?p + length vs" for k
      using w(4) [of "k - ?p"] mod_offset [of ?p cap "k - ?p"] that w(1,2) by (simp add: less_diff_conv2)
    show ?thesis using span_commit w(1,3) assms(3) o new
      by (cases "r_cons r") (auto simp: ring_ok_def ring_base_def Let_def kCapacity_def commitSpan_def nth_append intro: le_trans)
  qed
qed

lemma ring_reach_ok:
  assumes "ring_reach slots r" and "wf_capacity (length slots)"
  shows "ring_ok (length slots) r"
  using assms(1)
proof induction
  case start
  then show ?case by (simp add: ring_ok_def ring_base_def ring_init_def SpscQueue_init_def kCapacity_def)
next
  case (step r r')
  then show ?case using ring_step_ok [OF assms(2)] by blast
qed

text \<open>The values in the ring, oldest first.\<close>

definition spsc_contents :: "'a spsc \<Rightarrow> 'a list" where
  "spsc_contents q = map (\<lambda>i. q_slot q ! slot_index q (q_head q + of_nat i)) [0..<unat (q_tail q - q_head q)]"

lemma ring_ok_contents:
  assumes "ring_ok cap r" and "wf_capacity cap"
  shows "r_sent r = r_got r @ spsc_contents (r_q r)"
proof -
  note o = ring_okD [OF assms(1)]
  have n: "unat (q_tail (r_q r) - q_head (r_q r)) = length (r_sent r) - length (r_got r)"
    using o(3-6) wf_capacity_bounds [OF assms(2)] by (simp add: word_diff_count)
  have "spsc_contents (r_q r) = drop (length (r_got r)) (r_sent r)"
  proof (rule nth_equalityI)
    fix i assume "i < length (spsc_contents (r_q r))"
    then have i: "i < length (r_sent r) - length (r_got r)" by (simp add: spsc_contents_def n)
    have "slot_index (r_q r) (q_head (r_q r) + of_nat i) = (length (r_got r) + i) mod cap"
      using index_mod [OF assms(2) o(2), of "length (r_got r) + i"] o(4) by simp
    then show "spsc_contents (r_q r) ! i = drop (length (r_got r)) (r_sent r) ! i"
      using i o(5,8) by (simp add: spsc_contents_def n)
  qed (simp add: spsc_contents_def n)
  then show ?thesis using o(7) by (metis append_take_drop_id)
qed

text \<open>
  Property C34 (refinement).  Under every interleaving of the producer's and the consumer's accesses,
  however long the run and however often the indexes wrap, the ring is a first-in first-out queue: what
  was published is what was taken followed by what the ring holds, in order, and the ring never holds
  more than its capacity.
\<close>

theorem spsc_fifo:
  assumes "ring_reach slots r" and "wf_capacity (length slots)"
  shows "r_sent r = r_got r @ spsc_contents (r_q r) \<and> length (spsc_contents (r_q r)) \<le> length slots
    \<and> length (q_slot (r_q r)) = length slots"
proof -
  note ok = ring_reach_ok [OF assms]
  from ring_ok_contents [OF ok assms(2)] have c: "r_sent r = r_got r @ spsc_contents (r_q r)" .
  then have "length (r_sent r) = length (r_got r) + length (spsc_contents (r_q r))" by (metis length_append)
  with c ring_okD(1,6) [OF ok] show ?thesis by simp
qed

theorem spsc_fifo_witness:
  "\<exists>r. ring_reach [0, 0] r \<and> r_sent r = [7::nat] \<and> r_sent r = r_got r @ spsc_contents (r_q r)"
proof -
  let ?r = "ring_init [0, 0::nat]"
  let ?r' = "?r\<lparr>r_q := snd (tryPush 7 (r_q ?r)), r_prod := PIdle, r_sent := r_sent ?r @ (if fst (tryPush 7 (r_q ?r)) then [7] else [])\<rparr>"
  have cap: "wf_capacity (length [0, 0::nat])" by (auto simp: wf_capacity_def intro!: exI [of _ 1])
  have "ring_step\<^sup>*\<^sup>* ?r ?r'" by (rule tryPush_steps) (simp add: ring_init_def)
  then have "ring_reach [0, 0] ?r'" by (induction rule: rtranclp_induct) (auto intro: ring_reach.intros)
  moreover have "r_sent ?r' = [7]"
    by (simp add: tryPush_def ring_init_def SpscQueue_init_def is_full_def kCapacity_def)
  ultimately show ?thesis using spsc_fifo [OF _ cap, of ?r'] by blast
qed

section \<open>The queue seen by one caller\<close>

text \<open>What a caller of a bounded queue may rely on, whatever its implementation.\<close>

locale bounded_queue =
  fixes contents :: "'q \<Rightarrow> 'a list" and wf :: "'q \<Rightarrow> bool" and cap :: nat
    and push :: "'a \<Rightarrow> 'q \<Rightarrow> bool \<times> 'q" and pop :: "'q \<Rightarrow> 'a option \<times> 'q"
  assumes wf_bound: "wf q \<Longrightarrow> length (contents q) \<le> cap"
    and push_room: "wf q \<Longrightarrow> length (contents q) < cap \<Longrightarrow>
      fst (push v q) \<and> wf (snd (push v q)) \<and> contents (snd (push v q)) = contents q @ [v]"
    and push_full: "wf q \<Longrightarrow> length (contents q) = cap \<Longrightarrow> push v q = (False, q)"
    and pop_some: "wf q \<Longrightarrow> contents q = v # vs \<Longrightarrow>
      fst (pop q) = Some v \<and> wf (snd (pop q)) \<and> contents (snd (pop q)) = vs"
    and pop_none: "wf q \<Longrightarrow> contents q = [] \<Longrightarrow> pop q = (None, q)"
begin

primrec push_all :: "'a list \<Rightarrow> 'q \<Rightarrow> 'q" where
  "push_all [] q = q"
| "push_all (v # vs) q = push_all vs (snd (push v q))"

primrec pop_n :: "nat \<Rightarrow> 'q \<Rightarrow> 'a list \<times> 'q" where
  "pop_n 0 q = ([], q)"
| "pop_n (Suc n) q = (case pop q of (None, q') \<Rightarrow> ([], q')
     | (Some v, q') \<Rightarrow> (let (vs, q'') = pop_n n q' in (v # vs, q'')))"

lemma push_all_contents:
  "wf q \<Longrightarrow> length (contents q) + length vs \<le> cap \<Longrightarrow>
   wf (push_all vs q) \<and> contents (push_all vs q) = contents q @ vs"
proof (induction vs arbitrary: q)
  case (Cons v vs)
  with push_room [of q v] show ?case by simp
qed simp

lemma pop_n_takes:
  "wf q \<Longrightarrow> fst (pop_n n q) = take n (contents q) \<and> wf (snd (pop_n n q))
     \<and> contents (snd (pop_n n q)) = drop n (contents q)"
proof (induction n arbitrary: q)
  case (Suc n)
  show ?case
  proof (cases "contents q")
    case Nil
    with pop_none Suc.prems show ?thesis by simp
  next
    case (Cons v vs)
    from pop_some [OF Suc.prems Cons] obtain q' where q': "pop q = (Some v, q')" "wf q'" "contents q' = vs"
      by (cases "pop q") auto
    with Suc.IH [OF q'(2)] Cons show ?thesis by (auto split: prod.split)
  qed
qed simp

lemma drain_delivers:
  "wf q \<Longrightarrow> length (contents q) + length vs \<le> cap \<Longrightarrow>
   fst (pop_n (length (contents q) + length vs) (push_all vs q)) = contents q @ vs"
  using push_all_contents [of q vs] pop_n_takes [of "push_all vs q"] by simp

end

definition spsc_wf :: "nat \<Rightarrow> 'a spsc \<Rightarrow> bool" where
  "spsc_wf cap q \<longleftrightarrow> wf_capacity cap \<and> kCapacity q = cap \<and> unat (q_tail q - q_head q) \<le> cap"

lemma spsc_wf_ring:
  assumes "spsc_wf cap q"
  shows "\<exists>r. ring_ok cap r \<and> r_q r = q \<and> r_prod r = PIdle \<and> r_cons r = CIdle"
proof -
  have w: "wf_capacity cap" "kCapacity q = cap" "unat (q_tail q - q_head q) \<le> cap" using assms by (auto simp: spsc_wf_def)
  define got where "got = replicate (unat (q_head q)) (q_slot q ! 0)"
  let ?r = "\<lparr>r_q = q, r_prod = PIdle, r_cons = CIdle, r_sent = got @ spsc_contents q, r_got = got\<rparr>"
  have h: "of_nat (length got) = q_head q" by (simp add: got_def)
  have l: "length (spsc_contents q) = unat (q_tail q - q_head q)" by (simp add: spsc_contents_def)
  have "of_nat (length (got @ spsc_contents q)) = q_tail q" using h by (simp add: l)
  moreover have "q_slot q ! (k mod cap) = (got @ spsc_contents q) ! k"
    if "length got \<le> k" "k < length (got @ spsc_contents q)" for k
  proof -
    have "q_head q + of_nat (k - length got) = of_nat k"
      using that(1) h by (metis of_nat_add le_add_diff_inverse)
    then have "slot_index q (q_head q + of_nat (k - length got)) = k mod cap" using index_mod [OF w(1,2), of k] by simp
    moreover have "k - length got < unat (q_tail q - q_head q)" using that l by simp
    ultimately show ?thesis using that(1) by (simp add: nth_append spsc_contents_def)
  qed
  ultimately have "ring_ok cap ?r"
    using w h l by (simp add: ring_ok_def ring_base_def Let_def)
  then show ?thesis by (intro exI [of _ ?r]) simp
qed

lemma ring_ok_wf:
  assumes "ring_ok cap r" and "wf_capacity cap"
  shows "spsc_wf cap (r_q r)"
proof -
  note o = ring_okD [OF assms(1)]
  have "unat (q_tail (r_q r) - q_head (r_q r)) = length (r_sent r) - length (r_got r)"
    using o(3-6) wf_capacity_bounds [OF assms(2)] by (simp add: word_diff_count)
  with o assms(2) show ?thesis by (simp add: spsc_wf_def)
qed

lemma ring_steps_ok:
  "ring_step\<^sup>*\<^sup>* r r' \<Longrightarrow> wf_capacity cap \<Longrightarrow> ring_ok cap r \<Longrightarrow> ring_ok cap r'"
  by (induction rule: rtranclp_induct) (auto intro: ring_step_ok)

lemma tryPush_contents:
  assumes "spsc_wf cap q"
  shows "fst (tryPush v q) = (length (spsc_contents q) < cap)
    \<and> spsc_wf cap (snd (tryPush v q))
    \<and> spsc_contents (snd (tryPush v q)) = spsc_contents q @ (if fst (tryPush v q) then [v] else [])"
proof -
  have w: "wf_capacity cap" "kCapacity q = cap" "unat (q_tail q - q_head q) \<le> cap" using assms by (auto simp: spsc_wf_def)
  from spsc_wf_ring [OF assms] obtain r where r: "ring_ok cap r" "r_q r = q" "r_prod r = PIdle" by blast
  let ?r = "r\<lparr>r_q := snd (tryPush v (r_q r)), r_prod := PIdle, r_sent := r_sent r @ (if fst (tryPush v (r_q r)) then [v] else [])\<rparr>"
  note ok = ring_steps_ok [OF tryPush_steps [OF r(3)] w(1) r(1)]
  from ring_ok_contents [OF ok w(1)] ring_ok_contents [OF r(1) w(1)] r(2)
  have "spsc_contents (snd (tryPush v q)) = spsc_contents q @ (if fst (tryPush v q) then [v] else [])" by auto
  moreover have "fst (tryPush v q) = (length (spsc_contents q) < cap)"
  proof -
    have "unat (of_nat cap :: 64 word) = cap" using wf_capacity_bounds [OF w(1)] by (simp add: unat_of_nat64)
    then have "is_full cap (q_tail q) (q_head q) \<longleftrightarrow> cap \<le> length (spsc_contents q)"
      by (simp add: is_full_def word_le_nat_alt spsc_contents_def)
    then show ?thesis by (simp add: tryPush_def w(2))
  qed
  moreover have "spsc_wf cap (snd (tryPush v q))" using ring_ok_wf [OF ok w(1)] r(2) by simp
  ultimately show ?thesis by simp
qed

lemma tryPop_contents:
  assumes "spsc_wf cap q"
  shows "fst (tryPop q) = (case spsc_contents q of [] \<Rightarrow> None | v # vs \<Rightarrow> Some v)
    \<and> spsc_wf cap (snd (tryPop q)) \<and> spsc_contents (snd (tryPop q)) = tl (spsc_contents q)"
proof -
  have w: "wf_capacity cap" using assms by (simp add: spsc_wf_def)
  from spsc_wf_ring [OF assms] obtain r where r: "ring_ok cap r" "r_q r = q" "r_cons r = CIdle" by blast
  note ok = ring_steps_ok [OF tryPop_steps [OF r(3)] w r(1)]
  from ring_ok_contents [OF ok w] ring_ok_contents [OF r(1) w] r(2)
  have c: "spsc_contents q = (case fst (tryPop q) of None \<Rightarrow> [] | Some v \<Rightarrow> [v]) @ spsc_contents (snd (tryPop q))" by auto
  moreover have "spsc_wf cap (snd (tryPop q))" using ring_ok_wf [OF ok w] r(2) by simp
  moreover have "fst (tryPop q) = None \<Longrightarrow> spsc_contents q = []"
    by (auto simp: tryPop_def spsc_contents_def split: if_splits)
  ultimately show ?thesis by (cases "fst (tryPop q)") auto
qed

interpretation spsc: bounded_queue spsc_contents "spsc_wf cap" cap tryPush tryPop for cap
proof
  fix q :: "'a spsc" and v vs
  assume q: "spsc_wf cap q"
  then show "length (spsc_contents q) \<le> cap" by (simp add: spsc_wf_def spsc_contents_def)
  show "length (spsc_contents q) < cap \<Longrightarrow> fst (tryPush v q) \<and> spsc_wf cap (snd (tryPush v q))
      \<and> spsc_contents (snd (tryPush v q)) = spsc_contents q @ [v]"
    using tryPush_contents [OF q, of v] by simp
  show "tryPush v q = (False, q)" if "length (spsc_contents q) = cap"
    using tryPush_contents [OF q, of v] that by (simp add: tryPush_def split: if_splits)
  show "spsc_contents q = v # vs \<Longrightarrow> fst (tryPop q) = Some v \<and> spsc_wf cap (snd (tryPop q))
      \<and> spsc_contents (snd (tryPop q)) = vs"
    using tryPop_contents [OF q] by simp
  show "tryPop q = (None, q)" if "spsc_contents q = []"
    using tryPop_contents [OF q] that by (simp add: tryPop_def split: if_splits)
qed

end
