(* ===== verification/Lx_RootBag.thy ===== *)
theory Lx_RootBag
  imports Lx_Prelude
begin

text \<open>
  The per-mutator root multiset (\<open>aarc/core/root_bag.hpp\<close>): open addressing with linear probing and
  tombstones.  The probing loops have no bound in the code, so they are partial functions whose value
  \<open>None\<close> means that the loop does not end; the invariant shows that they always do.
\<close>

section \<open>The table\<close>

record root_bag =
  rb_keys :: "64 word list"
  rb_vals :: "nat list"
  rb_size :: nat
  rb_tombs :: nat

definition RootBag_init :: root_bag where
  "RootBag_init = \<lparr>rb_keys = [], rb_vals = [], rb_size = 0, rb_tombs = 0\<rparr>"

definition kMinCapacity :: nat where "kMinCapacity = 128"

definition kEmpty :: "64 word" where "kEmpty = NOT 0"

definition kTombstone :: "64 word" where "kTombstone = NOT 0 - 1"

definition rb_live :: "64 word \<Rightarrow> bool" where
  "rb_live k \<longleftrightarrow> k \<noteq> kEmpty \<and> k \<noteq> kTombstone"

definition rb_capacity :: "root_bag \<Rightarrow> nat" where "rb_capacity b = length (rb_keys b)"

definition rb_empty :: "root_bag \<Rightarrow> bool" where "rb_empty b \<longleftrightarrow> rb_size b = 0"

definition mix :: "64 word \<Rightarrow> nat" where
  "mix x0 =
     (let x1 = x0 XOR drop_bit 33 x0;
          x2 = x1 * 0xff51afd7ed558ccd;
          x3 = x2 XOR drop_bit 33 x2 in
      unat x3)"

text \<open>\<open>while (p < n) p <<= 1;\<close> in 64 bits.\<close>

partial_function (option) nextPow2_from :: "nat \<Rightarrow> nat \<Rightarrow> nat option" where
  "nextPow2_from p n = (if p < n then nextPow2_from (u64_cast (2 * p)) n else Some p)"

definition nextPow2 :: "nat \<Rightarrow> nat option" where
  "nextPow2 n = nextPow2_from 1 n"

definition needsGrow :: "root_bag \<Rightarrow> bool" where
  "needsGrow b \<longleftrightarrow>
     (if rb_capacity b = 0 then True
      else if (rb_size b + 1) * 2 \<ge> rb_capacity b then True
      else rb_tombs b * 2 \<ge> rb_capacity b)"

text \<open>The loop of \<open>probeInsert\<close>: the slot, and whether it reclaims a tombstone.\<close>

partial_function (option) probe_insert :: "64 word list \<Rightarrow> 64 word \<Rightarrow> nat \<Rightarrow> nat option \<Rightarrow> (nat \<times> bool) option" where
  "probe_insert keys key i firstTomb =
     (let k = keys ! i in
      if k = key \<or> k = kEmpty then
        (if k = kEmpty \<and> firstTomb \<noteq> None then Some (the firstTomb, True) else Some (i, False))
      else
        probe_insert keys key ((i + 1) AND (length keys - 1))
          (if k = kTombstone \<and> firstTomb = None then Some i else firstTomb))"

definition probeInsert :: "64 word \<Rightarrow> root_bag \<Rightarrow> (nat \<times> root_bag) option" where
  "probeInsert key b =
     (case probe_insert (rb_keys b) key (mix key AND (length (rb_keys b) - 1)) None of
        None \<Rightarrow> None
      | Some (i, reclaimed) \<Rightarrow> Some (i, if reclaimed then b\<lparr>rb_tombs := rb_tombs b - 1\<rparr> else b))"

partial_function (option) probe_find :: "64 word list \<Rightarrow> 64 word \<Rightarrow> nat \<Rightarrow> nat option option" where
  "probe_find keys key i =
     (let k = keys ! i in
      if k = key then Some (Some i)
      else if k = kEmpty then Some None
      else probe_find keys key ((i + 1) AND (length keys - 1)))"

definition probeFind :: "64 word \<Rightarrow> root_bag \<Rightarrow> nat option option" where
  "probeFind key b = probe_find (rb_keys b) key (mix key AND (length (rb_keys b) - 1))"

text \<open>The reinsertion loop of \<open>grow\<close> over the old slots.\<close>

fun reinsert :: "(64 word \<times> nat) list \<Rightarrow> root_bag \<Rightarrow> root_bag option" where
  "reinsert [] b = Some b"
| "reinsert ((k, v) # old) b =
     (if rb_live k then
        (case probeInsert k b of
           None \<Rightarrow> None
         | Some (i, b1) \<Rightarrow> reinsert old (b1\<lparr>rb_keys := (rb_keys b1)[i := k], rb_vals := (rb_vals b1)[i := v]\<rparr>))
      else reinsert old b)"

definition grow :: "root_bag \<Rightarrow> root_bag option" where
  "grow b =
     (let need = (rb_size b + 1) * 2 + 1 in
      case nextPow2 (if need < kMinCapacity then kMinCapacity else need) of
        None \<Rightarrow> None
      | Some n \<Rightarrow>
          reinsert (zip (rb_keys b) (rb_vals b))
            (b\<lparr>rb_keys := replicate n kEmpty, rb_vals := replicate n 0, rb_tombs := 0\<rparr>))"

definition add :: "64 word \<Rightarrow> root_bag \<Rightarrow> root_bag option" where
  "add key b =
     (case (if needsGrow b then grow b else Some b) of
        None \<Rightarrow> None
      | Some b1 \<Rightarrow>
          (case probeInsert key b1 of
             None \<Rightarrow> None
           | Some (i, b2) \<Rightarrow>
               Some (if rb_keys b2 ! i = key
                     then b2\<lparr>rb_vals := (rb_vals b2)[i := u32_cast (rb_vals b2 ! i + 1)]\<rparr>
                     else b2\<lparr>rb_keys := (rb_keys b2)[i := key], rb_vals := (rb_vals b2)[i := 1],
                             rb_size := rb_size b2 + 1\<rparr>)))"

definition removeOne :: "64 word \<Rightarrow> root_bag \<Rightarrow> (bool \<times> root_bag) option" where
  "removeOne key b =
     (if rb_keys b = [] then Some (False, b)
      else case probeFind key b of
        None \<Rightarrow> None
      | Some None \<Rightarrow> Some (False, b)
      | Some (Some i) \<Rightarrow>
          (let v = u32_cast (rb_vals b ! i + (2 ^ 32 - 1));
               b1 = b\<lparr>rb_vals := (rb_vals b)[i := v]\<rparr> in
           Some (True, if v = 0
             then b1\<lparr>rb_keys := (rb_keys b1)[i := kTombstone], rb_tombs := rb_tombs b1 + 1, rb_size := rb_size b1 - 1\<rparr>
             else b1)))"

definition rb_reset :: "root_bag \<Rightarrow> root_bag" where
  "rb_reset b = b\<lparr>rb_keys := [], rb_vals := [], rb_size := 0, rb_tombs := 0\<rparr>"

text \<open>The pairs that \<open>each\<close> visits.\<close>

definition each :: "root_bag \<Rightarrow> (64 word \<times> nat) list" where
  "each b = filter (\<lambda>(k, v). rb_live k) (zip (rb_keys b) (rb_vals b))"

section \<open>Probing\<close>

definition pow2 :: "nat \<Rightarrow> bool" where
  "pow2 n \<longleftrightarrow> (\<exists>j. n = 2 ^ j)"

lemma and_mask: "pow2 cap \<Longrightarrow> (i::nat) AND (cap - 1) = i mod cap"
  by (auto simp: pow2_def mask_eq_exp_minus_1 [symmetric] take_bit_eq_mask [symmetric] take_bit_eq_mod simp del: One_nat_def)

definition pos :: "nat \<Rightarrow> 64 word \<Rightarrow> nat \<Rightarrow> nat" where
  "pos cap key j = (mix key + j) mod cap"

lemma pow2_pos: "pow2 n \<Longrightarrow> 0 < n"
  by (auto simp: pow2_def)

lemma pos_step: "(pos cap key j + 1) mod cap = pos cap key (Suc j)"
  by (simp add: pos_def mod_Suc_eq)

lemma pos_covers:
  assumes "i < cap"
  shows "\<exists>j < cap. pos cap key j = i"
proof -
  let ?h = "mix key mod cap"
  have h: "?h < cap" using assms by simp
  define j where "j = (if ?h \<le> i then i - ?h else i + cap - ?h)"
  have "?h \<le> i \<Longrightarrow> j = i - ?h" "\<not> ?h \<le> i \<Longrightarrow> j = i + cap - ?h" by (simp_all add: j_def)
  then have "j < cap" "?h + j = i \<or> ?h + j = i + cap" using assms h by linarith+
  then have "pos cap key j = i" using assms unfolding pos_def by (metis mod_add_left_eq mod_add_self2 mod_less)
  with \<open>j < cap\<close> show ?thesis by blast
qed

text \<open>The first position of the probe path at which the loop stops.\<close>

definition stops :: "64 word list \<Rightarrow> 64 word \<Rightarrow> nat \<Rightarrow> bool" where
  "stops keys key j \<longleftrightarrow> keys ! pos (length keys) key j = key \<or> keys ! pos (length keys) key j = kEmpty"

definition first_stop :: "64 word list \<Rightarrow> 64 word \<Rightarrow> nat" where
  "first_stop keys key = (LEAST j. stops keys key j)"

lemma first_stop:
  assumes "kEmpty \<in> set keys"
  shows "stops keys key (first_stop keys key)" "j < first_stop keys key \<Longrightarrow> \<not> stops keys key j"
proof -
  from assms obtain i where "i < length keys" "keys ! i = kEmpty" by (auto simp: in_set_conv_nth)
  with pos_covers [of i "length keys" key] have "\<exists>j. stops keys key j" by (auto simp: stops_def)
  then show "stops keys key (first_stop keys key)" unfolding first_stop_def by (rule LeastI_ex)
  show "j < first_stop keys key \<Longrightarrow> \<not> stops keys key j" unfolding first_stop_def by (rule not_less_Least)
qed

lemma probe_find_from:
  assumes "kEmpty \<in> set keys" and "pow2 (length keys)" and "key \<noteq> kEmpty"
  shows "j + d = first_stop keys key \<Longrightarrow> probe_find keys key (pos (length keys) key j) =
    Some (if keys ! pos (length keys) key (first_stop keys key) = key
          then Some (pos (length keys) key (first_stop keys key)) else None)"
proof (induction d arbitrary: j)
  case 0
  then show ?case using first_stop(1) [OF assms(1), of key] assms(3)
    by (auto simp: probe_find.simps [of keys key "pos (length keys) key (first_stop keys key)"] Let_def stops_def)
next
  case (Suc d)
  then have "\<not> stops keys key j" by (intro first_stop(2) [OF assms(1)]) simp
  then have "probe_find keys key (pos (length keys) key j) = probe_find keys key (pos (length keys) key (Suc j))"
    using and_mask [OF assms(2)] pos_step [of "length keys" key j]
    by (simp add: probe_find.simps [of keys key "pos (length keys) key j"] Let_def stops_def)
  with Suc.IH [of "Suc j"] Suc.prems show ?case by simp
qed

text \<open>The outcome of \<open>probe_insert\<close>: the key's own slot, or a free slot on its path.\<close>

definition insert_at :: "64 word list \<Rightarrow> 64 word \<Rightarrow> nat \<times> bool \<Rightarrow> bool" where
  "insert_at keys key r \<longleftrightarrow>
     (let cap = length keys; (i, reclaimed) = r in
      if keys ! pos cap key (first_stop keys key) = key
      then i = pos cap key (first_stop keys key) \<and> \<not> reclaimed
      else keys ! i = (if reclaimed then kTombstone else kEmpty)
         \<and> (\<exists>j \<le> first_stop keys key. i = pos cap key j))"

lemma probe_insert_from:
  assumes "kEmpty \<in> set keys" and "pow2 (length keys)" and "rb_live key"
  shows "j + d = first_stop keys key \<Longrightarrow>
    (\<forall>t. ft = Some t \<longrightarrow> keys ! t = kTombstone \<and> (\<exists>j' \<le> first_stop keys key. t = pos (length keys) key j')) \<Longrightarrow>
    \<exists>r. probe_insert keys key (pos (length keys) key j) ft = Some r \<and> insert_at keys key r"
proof (induction d arbitrary: j ft)
  case 0
  note ps = probe_insert.simps [of keys key "pos (length keys) key (first_stop keys key)"]
  let ?p = "pos (length keys) key (first_stop keys key)"
  from assms(3) have ne: "key \<noteq> kEmpty" by (simp add: rb_live_def)
  consider (found) "keys ! ?p = key" | (free) "keys ! ?p = kEmpty" "ft = None" | (tomb) t where "keys ! ?p = kEmpty" "ft = Some t"
    using first_stop(1) [OF assms(1), of key] by (cases ft) (auto simp: stops_def)
  then show ?case
  proof cases
    case found
    then show ?thesis using 0 ne by (simp add: ps insert_at_def)
  next
    case free
    then have "probe_insert keys key ?p ft = Some (?p, False)" by (simp add: ps)
    moreover have "insert_at keys key (?p, False)" using free ne by (auto simp: insert_at_def Let_def)
    ultimately show ?thesis using 0 by auto
  next
    case tomb
    then have "probe_insert keys key ?p ft = Some (t, True)" by (simp add: ps)
    moreover have "insert_at keys key (t, True)" using tomb 0 ne by (auto simp: insert_at_def)
    ultimately show ?thesis using 0 by auto
  qed
next
  case (Suc d)
  let ?p = "pos (length keys) key"
  let ?ft = "if keys ! ?p j = kTombstone \<and> ft = None then Some (?p j) else ft"
  from Suc.prems have "\<not> stops keys key j" by (intro first_stop(2) [OF assms(1)]) simp
  then have "probe_insert keys key (?p j) ft = probe_insert keys key (?p (Suc j)) ?ft"
    using and_mask [OF assms(2)] pos_step [of "length keys" key j]
    by (simp add: probe_insert.simps [of keys key "?p j"] Let_def stops_def)
  moreover have "\<exists>r. probe_insert keys key (?p (Suc j)) ?ft = Some r \<and> insert_at keys key r"
  proof (rule Suc.IH)
    have "j \<le> first_stop keys key" using Suc.prems(1) by simp
    then show "\<forall>t. ?ft = Some t \<longrightarrow> keys ! t = kTombstone \<and> (\<exists>j' \<le> first_stop keys key. t = ?p j')"
      using Suc.prems(2) by auto
  qed (use Suc.prems in simp)
  ultimately show ?case by simp
qed

section \<open>The invariant\<close>

text \<open>Every live key is reached from its hash over slots that are not empty.\<close>

definition chained :: "64 word list \<Rightarrow> bool" where
  "chained keys \<longleftrightarrow> (\<forall>i < length keys. rb_live (keys ! i) \<longrightarrow>
     (\<exists>j. pos (length keys) (keys ! i) j = i \<and> (\<forall>j' < j. keys ! pos (length keys) (keys ! i) j' \<noteq> kEmpty)))"

definition distinct_live :: "64 word list \<Rightarrow> bool" where
  "distinct_live keys \<longleftrightarrow> distinct (filter rb_live keys)"

definition live_count :: "64 word list \<Rightarrow> nat" where
  "live_count keys = length (filter rb_live keys)"

definition tomb_count :: "64 word list \<Rightarrow> nat" where
  "tomb_count keys = length (filter (\<lambda>k. k = kTombstone) keys)"

definition rb_table :: "root_bag \<Rightarrow> bool" where
  "rb_table b \<longleftrightarrow> pow2 (length (rb_keys b)) \<and> length (rb_vals b) = length (rb_keys b)
     \<and> chained (rb_keys b) \<and> distinct_live (rb_keys b)
     \<and> rb_tombs b = tomb_count (rb_keys b) \<and> kEmpty \<in> set (rb_keys b)
     \<and> (\<forall>i < length (rb_keys b). rb_live (rb_keys b ! i) \<longrightarrow> 0 < rb_vals b ! i \<and> rb_vals b ! i < 2 ^ 32)"

definition rb_inv :: "root_bag \<Rightarrow> bool" where
  "rb_inv b \<longleftrightarrow> (if rb_keys b = [] then b = RootBag_init
     else rb_table b \<and> rb_size b = live_count (rb_keys b) \<and> rb_size b + rb_tombs b < length (rb_keys b))"

lemma special_keys: "\<not> rb_live kEmpty" "\<not> rb_live kTombstone" "kEmpty \<noteq> kTombstone" "kTombstone \<noteq> kEmpty"
  by (simp_all add: rb_live_def kEmpty_def kTombstone_def)

lemma key_at_first_stop:
  assumes "chained keys" and "kEmpty \<in> set keys" and "rb_live key" and "key \<in> set keys"
  shows "keys ! pos (length keys) key (first_stop keys key) = key"
proof -
  from assms(4) obtain i where i: "i < length keys" "keys ! i = key" by (auto simp: in_set_conv_nth)
  with assms(1,3) obtain j where j: "pos (length keys) key j = i"
    "\<And>j'. j' < j \<Longrightarrow> keys ! pos (length keys) key j' \<noteq> kEmpty" unfolding chained_def by blast
  then have "stops keys key j" using i by (simp add: stops_def)
  then have "first_stop keys key \<le> j" using first_stop(2) [OF assms(2)] by (metis linorder_not_less)
  then have "first_stop keys key < j \<or> first_stop keys key = j" by auto
  then show ?thesis using first_stop(1) [OF assms(2), of key] j i by (auto simp: stops_def)
qed

lemma chained_update:
  assumes "chained keys" and "i < length keys" and "k \<noteq> kEmpty"
    and "rb_live k \<Longrightarrow> \<exists>j. pos (length keys) k j = i \<and> (\<forall>j' < j. keys ! pos (length keys) k j' \<noteq> kEmpty)"
  shows "chained (keys[i := k])"
  unfolding chained_def length_list_update
proof (intro allI impI)
  fix i' assume i': "i' < length keys" "rb_live (keys[i := k] ! i')"
  let ?k = "keys[i := k] ! i'"
  have "\<exists>j. pos (length keys) ?k j = i' \<and> (\<forall>j' < j. keys ! pos (length keys) ?k j' \<noteq> kEmpty)"
    using assms i' unfolding chained_def by (cases "i' = i") auto
  moreover have "keys[i := k] ! n \<noteq> kEmpty" if "keys ! n \<noteq> kEmpty" for n
    using that assms(2,3) by (cases "n = i") auto
  ultimately show "\<exists>j. pos (length keys) ?k j = i' \<and> (\<forall>j' < j. keys[i := k] ! pos (length keys) ?k j' \<noteq> kEmpty)"
    by blast
qed

lemma filter_update_count:
  assumes "i < length xs"
  shows "length (filter P (xs[i := x])) + (if P (xs ! i) then 1 else 0) = length (filter P xs) + (if P x then 1 else 0)"
proof -
  have "length (filter P xs) = length (filter P (take i xs @ xs ! i # drop (Suc i) xs))"
    using assms by (simp add: id_take_nth_drop [symmetric])
  moreover have "xs[i := x] = take i xs @ x # drop (Suc i) xs" using assms by (rule upd_conv_take_nth_drop)
  ultimately show ?thesis by simp
qed

text \<open>The number of roots the bag holds for a key.\<close>

definition rb_count :: "root_bag \<Rightarrow> 64 word \<Rightarrow> nat" where
  "rb_count b k = (if rb_live k then (case map_of (zip (rb_keys b) (rb_vals b)) k of None \<Rightarrow> 0 | Some v \<Rightarrow> v) else 0)"

lemma live_unique:
  assumes "distinct_live keys" and "i < length keys" and "i' < length keys" and "keys ! i = keys ! i'" and "rb_live (keys ! i)"
  shows "i = i'"
proof (rule ccontr)
  assume "i \<noteq> i'"
  have wlog: False if "a < c" "c < length keys" "keys ! a = keys ! c" "rb_live (keys ! a)" for a c
  proof -
    have "keys = take c keys @ keys ! c # drop (Suc c) keys" using that by (simp add: id_take_nth_drop)
    then have "filter rb_live keys = filter rb_live (take c keys) @ keys ! c # filter rb_live (drop (Suc c) keys)"
      using that by (metis filter.simps(2) filter_append)
    moreover have "keys ! a \<in> set (take c keys)" using that by (force simp: in_set_conv_nth)
    ultimately show False using assms(1) that by (auto simp: distinct_live_def)
  qed
  from \<open>i \<noteq> i'\<close> wlog [of i i'] wlog [of i' i] assms show False by (metis nat_neq_iff)
qed

lemma map_of_zip_at:
  assumes "length vals = length keys" and "i < length keys" and "\<And>i'. i' < length keys \<Longrightarrow> keys ! i' = keys ! i \<Longrightarrow> i' = i"
  shows "map_of (zip keys vals) (keys ! i) = Some (vals ! i)"
proof (cases "map_of (zip keys vals) (keys ! i)")
  case None
  with assms show ?thesis by (metis map_of_zip_is_None nth_mem)
next
  case (Some v)
  then obtain n where "n < length keys" "keys ! n = keys ! i" "vals ! n = v"
    using assms(1) by (auto dest!: map_of_SomeD simp: in_set_zip)
  with assms(3) Some show ?thesis by auto
qed

lemma rb_count_at:
  assumes "distinct_live (rb_keys b)" "length (rb_vals b) = length (rb_keys b)" "i < length (rb_keys b)" "rb_live (rb_keys b ! i)"
  shows "rb_count b (rb_keys b ! i) = rb_vals b ! i"
  using assms live_unique [OF assms(1)] map_of_zip_at [OF assms(2,3)] by (simp add: rb_count_def)

lemma rb_count_absent: "k \<notin> set (rb_keys b) \<Longrightarrow> rb_count b k = 0"
proof -
  assume "k \<notin> set (rb_keys b)"
  then have "map_of (zip (rb_keys b) (rb_vals b)) k = None"
    by (auto simp: map_of_eq_None_iff dest: set_zip_leftD)
  then show ?thesis by (simp add: rb_count_def)
qed

text \<open>What \<open>probeInsert\<close> finds in a well-formed table.\<close>

lemma probeInsert_spec:
  assumes "rb_table b" and "rb_live key"
  obtains (found) i where "probeInsert key b = Some (i, b)" "i < length (rb_keys b)" "rb_keys b ! i = key"
  | (free) i where "probeInsert key b = Some (i, b)" "i < length (rb_keys b)" "rb_keys b ! i = kEmpty"
      "key \<notin> set (rb_keys b)" "chained ((rb_keys b)[i := key])"
  | (tomb) i where "probeInsert key b = Some (i, b\<lparr>rb_tombs := rb_tombs b - 1\<rparr>)" "i < length (rb_keys b)"
      "rb_keys b ! i = kTombstone" "key \<notin> set (rb_keys b)" "chained ((rb_keys b)[i := key])"
proof -
  let ?keys = "rb_keys b"
  let ?p = "pos (length ?keys) key"
  from assms(1) have t: "pow2 (length ?keys)" "chained ?keys" "kEmpty \<in> set ?keys" by (auto simp: rb_table_def)
  have ne: "key \<noteq> kEmpty" using assms(2) by (simp add: rb_live_def)
  have lt: "?p j < length ?keys" for j using pow2_pos [OF t(1)] by (simp add: pos_def)
  from probe_insert_from [OF t(3,1) assms(2), of 0 "first_stop ?keys key" None]
  obtain i r where r: "probe_insert ?keys key (?p 0) None = Some (i, r)" "insert_at ?keys key (i, r)" by auto
  have start: "mix key AND (length ?keys - 1) = ?p 0" using and_mask [OF t(1)] by (simp add: pos_def)
  have pi: "probeInsert key b = Some (i, if r then b\<lparr>rb_tombs := rb_tombs b - 1\<rparr> else b)"
    unfolding probeInsert_def start r(1) by simp
  show thesis
  proof (cases "?keys ! ?p (first_stop ?keys key) = key")
    case True
    with r(2) have "i = ?p (first_stop ?keys key)" "\<not> r" by (auto simp: insert_at_def)
    with True pi lt found show thesis by simp
  next
    case False
    with key_at_first_stop [OF t(2,3) assms(2)] have absent: "key \<notin> set ?keys" by blast
    from False r(2) obtain j where j: "?keys ! i = (if r then kTombstone else kEmpty)" "j \<le> first_stop ?keys key" "i = ?p j"
      by (auto simp: insert_at_def)
    have "?keys ! ?p j' \<noteq> kEmpty" if "j' < j" for j'
      using first_stop(2) [OF t(3), of j' key] that j(2) by (simp add: stops_def)
    then have "chained (?keys[i := key])" using j(3) ne lt t(2) by (intro chained_update) auto
    with absent j lt pi free tomb show thesis by (cases r) auto
  qed
qed

lemma probeFind_spec:
  assumes "rb_table b" and "rb_live key"
  shows "if key \<in> set (rb_keys b)
    then \<exists>i. probeFind key b = Some (Some i) \<and> i < length (rb_keys b) \<and> rb_keys b ! i = key
    else probeFind key b = Some None"
proof -
  let ?keys = "rb_keys b"
  let ?p = "pos (length ?keys) key"
  from assms(1) have t: "pow2 (length ?keys)" "chained ?keys" "kEmpty \<in> set ?keys" by (auto simp: rb_table_def)
  have lt: "?p j < length ?keys" for j using pow2_pos [OF t(1)] by (simp add: pos_def)
  have start: "mix key AND (length ?keys - 1) = ?p 0" using and_mask [OF t(1)] by (simp add: pos_def)
  have "probeFind key b = Some (if ?keys ! ?p (first_stop ?keys key) = key then Some (?p (first_stop ?keys key)) else None)"
    unfolding probeFind_def start using assms(2) by (intro probe_find_from [OF t(3,1)]) (auto simp: rb_live_def)
  moreover have "?keys ! ?p (first_stop ?keys key) = key \<longleftrightarrow> key \<in> set ?keys"
    using key_at_first_stop [OF t(2,3) assms(2)] nth_mem [OF lt [of "first_stop ?keys key"]] by auto
  ultimately show ?thesis using lt by auto
qed

text \<open>Writing one slot: what happens to the table and to the counts.\<close>

lemma distinct_live_update:
  assumes "distinct_live keys" and "i < length keys" and "\<not> rb_live k \<or> k \<notin> set keys"
  shows "distinct_live (keys[i := k])"
proof -
  have "keys = take i keys @ keys ! i # drop (Suc i) keys" using assms(2) by (simp add: id_take_nth_drop)
  then have f: "filter rb_live keys = filter rb_live (take i keys) @ filter rb_live [keys ! i] @ filter rb_live (drop (Suc i) keys)"
    by (metis append_Cons append_Nil filter_append)
  have "keys[i := k] = take i keys @ k # drop (Suc i) keys" using assms(2) by (rule upd_conv_take_nth_drop)
  moreover have "set (take i keys) \<subseteq> set keys" "set (drop (Suc i) keys) \<subseteq> set keys"
    by (auto dest: in_set_takeD in_set_dropD)
  ultimately show ?thesis using assms(1,3) f unfolding distinct_live_def by (auto split: if_splits)
qed

lemma rb_count_set:
  assumes "distinct_live (rb_keys b)" and "length (rb_vals b) = length (rb_keys b)" and "i < length (rb_keys b)"
    and "k \<notin> set (rb_keys b) \<or> k = rb_keys b ! i" and "rb_live k" and "rb_live (rb_keys b ! i) \<Longrightarrow> rb_keys b ! i = k"
    and "rb_keys b' = (rb_keys b)[i := k]" and "rb_vals b' = (rb_vals b)[i := v]"
  shows "rb_count b' = (rb_count b)(k := v)"
proof
  fix k'
  have d: "distinct_live (rb_keys b')" using assms distinct_live_update [of "rb_keys b" i k] by auto
  have len: "length (rb_vals b') = length (rb_keys b')" using assms by simp
  show "rb_count b' k' = ((rb_count b)(k := v)) k'"
  proof (cases "k' = k")
    case True
    with rb_count_at [OF d len, of i] assms show ?thesis by simp
  next
    case False
    show ?thesis
    proof (cases "rb_live k' \<and> k' \<in> set (rb_keys b)")
      case True
      then obtain n where n: "n < length (rb_keys b)" "rb_keys b ! n = k'" by (auto simp: in_set_conv_nth)
      with True False assms(6) have ni: "n \<noteq> i" by auto
      have "rb_count b k' = rb_vals b ! n" using rb_count_at [OF assms(1,2), of n] n True by simp
      moreover have "rb_count b' k' = rb_vals b' ! n"
        using rb_count_at [OF d len, of n] n True ni assms(7) by simp
      ultimately show ?thesis using False ni assms(8) by simp
    next
      case absent: False
      have "rb_count b k' = 0"
        using absent rb_count_absent [of k' b] by (cases "rb_live k'") (auto simp: rb_count_def)
      moreover have "set (rb_keys b') \<subseteq> insert k (set (rb_keys b))" using assms(7) set_update_subset_insert by metis
      then have "rb_count b' k' = 0"
        using absent False rb_count_absent [of k' b'] by (cases "rb_live k'") (auto simp: rb_count_def)
      ultimately show ?thesis using False by simp
    qed
  qed
qed

lemma live_tomb_update:
  assumes "i < length keys"
  shows "live_count (keys[i := k]) + (if rb_live (keys ! i) then 1 else 0) = live_count keys + (if rb_live k then 1 else 0)"
    "tomb_count (keys[i := k]) + (if keys ! i = kTombstone then 1 else 0) = tomb_count keys + (if k = kTombstone then 1 else 0)"
  using filter_update_count [OF assms, of rb_live k] filter_update_count [OF assms, of "\<lambda>k. k = kTombstone" k]
  by (simp_all add: live_count_def tomb_count_def)

lemma empty_remains:
  "live_count keys + tomb_count keys < length keys \<Longrightarrow> kEmpty \<in> set keys"
proof (rule ccontr)
  assume a: "live_count keys + tomb_count keys < length keys" "kEmpty \<notin> set keys"
  have "live_count keys + tomb_count keys = length keys"
    using a(2) unfolding live_count_def tomb_count_def
    by (induction keys) (auto simp: rb_live_def kEmpty_def kTombstone_def)
  with a(1) show False by simp
qed

text \<open>Placing a key that is absent, the common part of \<open>add\<close> and of the rehash.\<close>

definition place :: "nat \<Rightarrow> 64 word \<Rightarrow> nat \<Rightarrow> root_bag \<Rightarrow> root_bag" where
  "place i k v b = b\<lparr>rb_keys := (rb_keys b)[i := k], rb_vals := (rb_vals b)[i := v]\<rparr>"

lemma place_table:
  assumes "rb_table b" and "rb_live k" and "k \<notin> set (rb_keys b)" and "0 < v" and "v < 2 ^ 32"
    and "live_count (rb_keys b) + tomb_count (rb_keys b) + 1 < length (rb_keys b)"
  shows "\<exists>i b1. probeInsert k b = Some (i, b1) \<and> rb_keys b1 = rb_keys b \<and> rb_size b1 = rb_size b
    \<and> rb_keys b1 ! i \<noteq> k \<and> rb_table (place i k v b1) \<and> rb_count (place i k v b1) = (rb_count b)(k := v)
    \<and> live_count (rb_keys (place i k v b1)) = live_count (rb_keys b) + 1
    \<and> tomb_count (rb_keys (place i k v b1)) \<le> tomb_count (rb_keys b)
    \<and> set (rb_keys (place i k v b1)) \<subseteq> insert k (set (rb_keys b)) \<and> length (rb_keys (place i k v b1)) = length (rb_keys b)"
proof -
  let ?keys = "rb_keys b"
  have t: "pow2 (length ?keys)" "length (rb_vals b) = length ?keys" "distinct_live ?keys" "rb_tombs b = tomb_count ?keys"
    "\<And>i. i < length ?keys \<Longrightarrow> rb_live (?keys ! i) \<Longrightarrow> 0 < rb_vals b ! i \<and> rb_vals b ! i < 2 ^ 32"
    using assms(1) by (auto simp: rb_table_def)
  from assms(1,2) obtain i r where i: "probeInsert k b = Some (i, if r then b\<lparr>rb_tombs := rb_tombs b - 1\<rparr> else b)"
    "i < length ?keys" "?keys ! i = (if r then kTombstone else kEmpty)" "chained (?keys[i := k])"
  proof (cases rule: probeInsert_spec)
    case (found i)
    then show ?thesis using assms(3) nth_mem by fastforce
  next
    case (free i)
    then show ?thesis using that [of i False] by simp
  next
    case (tomb i)
    then show ?thesis using that [of i True] by simp
  qed
  let ?b1 = "if r then b\<lparr>rb_tombs := rb_tombs b - 1\<rparr> else b"
  let ?b2 = "place i k v ?b1"
  have dead: "\<not> rb_live (?keys ! i)" using i(3) special_keys by (cases r) auto
  have k: "rb_keys ?b2 = ?keys[i := k]" "rb_vals ?b2 = (rb_vals b)[i := v]" by (simp_all add: place_def)
  note lt = live_tomb_update [OF i(2), of k]
  have kt: "k \<noteq> kTombstone" using assms(2) by (auto simp: rb_live_def)
  have lc: "live_count (rb_keys ?b2) = live_count ?keys + 1" using lt(1) dead assms(2) k by simp
  have tc: "tomb_count (rb_keys ?b2) = rb_tombs ?b1" "tomb_count (rb_keys ?b2) \<le> tomb_count ?keys"
    using lt(2) kt i(3) k t(4) special_keys by (cases r; simp)+
  have "kEmpty \<in> set (rb_keys ?b2)"
    by (rule empty_remains) (use lc tc(2) assms(6) k(1) in simp)
  then have "rb_table ?b2"
    using t i k tc(1) distinct_live_update [OF t(3) i(2)] assms(3,4,5)
    by (auto simp: rb_table_def nth_list_update place_def)
  moreover have "rb_count ?b2 = (rb_count b)(k := v)"
    using rb_count_set [OF t(3,2) i(2) _ assms(2) _ k] assms(3) dead by blast
  moreover have "rb_keys ?b1 ! i \<noteq> k" using dead assms(2) by auto
  ultimately show ?thesis
    using i(1) lc tc(2) k set_update_subset_insert [of ?keys i k] by (intro exI [of _ i] exI [of _ ?b1]) auto
qed

section \<open>Rehashing\<close>

lemma nextPow2_from_spec:
  assumes "0 < n" and "n \<le> 2 ^ 63"
  shows "i + d = 63 \<Longrightarrow> 2 ^ i < 2 * n \<Longrightarrow> \<exists>j. nextPow2_from (2 ^ i) n = Some (2 ^ j) \<and> n \<le> 2 ^ j \<and> 2 ^ j < 2 * n"
proof (induction d arbitrary: i)
  case 0
  then have "\<not> (2::nat) ^ i < n" using assms(2) by simp
  then have "nextPow2_from (2 ^ i) n = Some (2 ^ i)" unfolding nextPow2_from.simps [of "2 ^ i"] by (simp only: if_False)
  with 0 \<open>\<not> 2 ^ i < n\<close> show ?case by (intro exI [of _ i]) simp
next
  case (Suc d)
  show ?case
  proof (cases "(2::nat) ^ i < n")
    case True
    have "(2::nat) ^ Suc i \<le> 2 ^ 63" using Suc.prems(1) by (intro power_increasing) auto
    then have "u64_cast (2 * 2 ^ i) = 2 ^ Suc i" by (simp add: u64_cast_def)
    with True have "nextPow2_from (2 ^ i) n = nextPow2_from (2 ^ Suc i) n" by (simp add: nextPow2_from.simps [of "2 ^ i"])
    with Suc.IH [of "Suc i"] Suc.prems(1) True show ?thesis by simp
  next
    case False
    with Suc.prems show ?thesis by (intro exI [of _ i]) (simp add: nextPow2_from.simps [of "2 ^ i"])
  qed
qed

lemma nextPow2_spec:
  assumes "0 < n" and "n \<le> 2 ^ 63"
  shows "\<exists>c. nextPow2 n = Some c \<and> pow2 c \<and> n \<le> c \<and> c < 2 * n"
  using nextPow2_from_spec [OF assms, of 0 63] assms(1) by (auto simp: nextPow2_def pow2_def)

definition live_pairs :: "(64 word \<times> nat) list \<Rightarrow> (64 word \<times> nat) list" where
  "live_pairs old = filter (\<lambda>(k, v). rb_live k) old"

lemma reinsert_spec:
  "rb_table b \<Longrightarrow> tomb_count (rb_keys b) = 0 \<Longrightarrow> distinct (map fst (live_pairs old)) \<Longrightarrow>
   fst ` set (live_pairs old) \<inter> set (rb_keys b) = {} \<Longrightarrow>
   (\<forall>(k, v) \<in> set (live_pairs old). 0 < v \<and> v < 2 ^ 32) \<Longrightarrow>
   live_count (rb_keys b) + length (live_pairs old) < length (rb_keys b) \<Longrightarrow>
   \<exists>b'. reinsert old b = Some b' \<and> rb_table b' \<and> rb_size b' = rb_size b \<and> tomb_count (rb_keys b') = 0
     \<and> length (rb_keys b') = length (rb_keys b)
     \<and> live_count (rb_keys b') = live_count (rb_keys b) + length (live_pairs old)
     \<and> (\<forall>k. rb_count b' k = (case map_of (live_pairs old) k of None \<Rightarrow> rb_count b k | Some v \<Rightarrow> v))"
proof (induction old arbitrary: b)
  case Nil
  then show ?case by (simp add: live_pairs_def)
next
  case (Cons p old)
  obtain k v where p: "p = (k, v)" by (cases p)
  show ?case
  proof (cases "rb_live k")
    case False
    then have "live_pairs (p # old) = live_pairs old" by (simp add: live_pairs_def p)
    with Cons False show ?thesis by (simp add: p)
  next
    case True
    then have lp: "live_pairs (p # old) = (k, v) # live_pairs old" by (simp add: live_pairs_def p)
    have "k \<notin> set (rb_keys b)" "0 < v" "v < 2 ^ 32"
      "live_count (rb_keys b) + tomb_count (rb_keys b) + 1 < length (rb_keys b)"
      using Cons.prems(2,4,5,6) by (auto simp: lp)
    from place_table [OF Cons.prems(1) True this] obtain i b1 where b1: "probeInsert k b = Some (i, b1)"
      "rb_size b1 = rb_size b" "rb_table (place i k v b1)" "rb_count (place i k v b1) = (rb_count b)(k := v)"
      "live_count (rb_keys (place i k v b1)) = live_count (rb_keys b) + 1"
      "tomb_count (rb_keys (place i k v b1)) = 0"
      "set (rb_keys (place i k v b1)) \<subseteq> insert k (set (rb_keys b))" "length (rb_keys (place i k v b1)) = length (rb_keys b)"
      using Cons.prems(2) by auto
    let ?b2 = "place i k v b1"
    have kn: "k \<notin> fst ` set (live_pairs old)" using Cons.prems(3) by (simp add: lp)
    have "\<exists>b'. reinsert old ?b2 = Some b' \<and> rb_table b' \<and> rb_size b' = rb_size ?b2 \<and> tomb_count (rb_keys b') = 0
       \<and> length (rb_keys b') = length (rb_keys ?b2)
       \<and> live_count (rb_keys b') = live_count (rb_keys ?b2) + length (live_pairs old)
       \<and> (\<forall>k. rb_count b' k = (case map_of (live_pairs old) k of None \<Rightarrow> rb_count ?b2 k | Some v \<Rightarrow> v))"
      by (rule Cons.IH) (use b1 Cons.prems kn in \<open>auto simp: lp\<close>)
    moreover have "reinsert (p # old) b = reinsert old ?b2" using True b1(1) by (simp add: p place_def)
    moreover have "map_of (live_pairs old) k = None" using kn by (simp add: map_of_eq_None_iff)
    ultimately obtain b' where b': "reinsert (p # old) b = Some b'" "rb_table b'" "rb_size b' = rb_size ?b2"
      "tomb_count (rb_keys b') = 0" "length (rb_keys b') = length (rb_keys ?b2)"
      "live_count (rb_keys b') = live_count (rb_keys ?b2) + length (live_pairs old)"
      "\<And>k. rb_count b' k = (case map_of (live_pairs old) k of None \<Rightarrow> rb_count ?b2 k | Some v \<Rightarrow> v)"
      "map_of (live_pairs old) k = None" by metis
    have "rb_count b' k' = (case map_of (live_pairs (p # old)) k' of None \<Rightarrow> rb_count b k' | Some v \<Rightarrow> v)" for k'
      using b'(7) [of k'] b'(8) b1(4) by (cases "k' = k") (auto simp: lp split: option.split)
    with b'(1-6) b1 show ?thesis by (simp add: lp place_def)
  qed
qed

lemma live_pairs_zip:
  "length vals = length keys \<Longrightarrow> map fst (live_pairs (zip keys vals)) = filter rb_live keys"
proof -
  assume l: "length vals = length keys"
  have "map fst (live_pairs (zip keys vals)) = filter rb_live (map fst (zip keys vals))"
    by (simp add: live_pairs_def filter_map comp_def split_def)
  then show ?thesis using l by simp
qed

lemma map_of_live_pairs: "rb_live k \<Longrightarrow> map_of (live_pairs xs) k = map_of xs k"
  by (induction xs) (auto simp: live_pairs_def)

lemma rb_count_pairs: "rb_count b k = (case map_of (live_pairs (zip (rb_keys b) (rb_vals b))) k of None \<Rightarrow> 0 | Some v \<Rightarrow> v)"
proof (cases "rb_live k")
  case True
  then show ?thesis by (simp add: rb_count_def map_of_live_pairs)
next
  case False
  then have "map_of (live_pairs (zip (rb_keys b) (rb_vals b))) k = None"
    by (auto simp: map_of_eq_None_iff live_pairs_def)
  with False show ?thesis by (simp add: rb_count_def)
qed

lemma empty_table:
  assumes "pow2 n" "0 < n"
  shows "rb_table \<lparr>rb_keys = replicate n kEmpty, rb_vals = replicate n 0, rb_size = s, rb_tombs = 0\<rparr>"
    "live_count (replicate n kEmpty) = 0" "tomb_count (replicate n kEmpty) = 0"
  using assms special_keys
  by (auto simp: rb_table_def chained_def distinct_live_def live_count_def tomb_count_def)

lemma grow_spec:
  assumes "rb_inv b" and "rb_size b < 2 ^ 61"
  shows "\<exists>b'. grow b = Some b' \<and> rb_table b' \<and> rb_size b' = rb_size b \<and> rb_size b' = live_count (rb_keys b')
    \<and> rb_tombs b' = 0 \<and> (rb_size b' + 1) * 2 < length (rb_keys b') \<and> rb_count b' = rb_count b
    \<and> length (rb_keys b') \<le> max 128 (4 * rb_size b + 5)"
proof -
  define need where "need = (rb_size b + 1) * 2 + 1"
  define n0 where "n0 = (if need < kMinCapacity then kMinCapacity else need)"
  have n0: "0 < n0" "n0 \<le> 2 ^ 63" "need \<le> n0" using assms(2) by (auto simp: n0_def need_def kMinCapacity_def)
  from nextPow2_spec [OF n0(1,2)] obtain c where c: "nextPow2 n0 = Some c" "pow2 c" "n0 \<le> c" "c < 2 * n0" by blast
  have small: "c \<le> max 128 (4 * rb_size b + 5)"
  proof (cases "need < kMinCapacity")
    case True
    then have "n0 = 128" by (simp add: n0_def kMinCapacity_def)
    then have "nextPow2 n0 = Some 128"
      by (simp add: nextPow2_def nextPow2_from.simps u64_cast_def)
    with c(1) show ?thesis by simp
  next
    case False
    with c(4) show ?thesis by (simp add: n0_def need_def)
  qed
  let ?old = "zip (rb_keys b) (rb_vals b)"
  let ?b0 = "b\<lparr>rb_keys := replicate c kEmpty, rb_vals := replicate c 0, rb_tombs := 0\<rparr>"
  have cpos: "0 < c" using c(2) by (rule pow2_pos)
  have t0: "rb_table ?b0" using empty_table(1) [OF c(2) cpos, of "rb_size b"] by (cases b) simp
  have old: "length (rb_vals b) = length (rb_keys b)" "distinct (map fst (live_pairs ?old))"
    "length (live_pairs ?old) = rb_size b" "\<forall>(k, v) \<in> set (live_pairs ?old). 0 < v \<and> v < 2 ^ 32"
  proof -
    consider (init) "b = RootBag_init" | (table) "rb_table b" "rb_size b = live_count (rb_keys b)"
      using assms(1) by (auto simp: rb_inv_def split: if_splits)
    then have "length (rb_vals b) = length (rb_keys b) \<and> distinct_live (rb_keys b) \<and> rb_size b = live_count (rb_keys b)
      \<and> (\<forall>(k, v) \<in> set (live_pairs ?old). 0 < v \<and> v < 2 ^ 32)"
      by cases (auto simp: RootBag_init_def distinct_live_def live_count_def live_pairs_def rb_table_def in_set_zip)
    moreover from this have "length (live_pairs ?old) = live_count (rb_keys b)"
      using live_pairs_zip [of "rb_vals b" "rb_keys b"] by (metis length_map live_count_def)
    ultimately show "length (rb_vals b) = length (rb_keys b)" "distinct (map fst (live_pairs ?old))"
      "length (live_pairs ?old) = rb_size b" "\<forall>(k, v) \<in> set (live_pairs ?old). 0 < v \<and> v < 2 ^ 32"
      using live_pairs_zip [of "rb_vals b" "rb_keys b"] by (simp_all add: distinct_live_def)
  qed
  have "fst ` set (live_pairs ?old) \<inter> set (rb_keys ?b0) = {}" using special_keys by (auto simp: live_pairs_def)
  from reinsert_spec [OF t0 _ old(2) this old(4)] empty_table [OF c(2) cpos] old(3) c(3) n0(3)
  obtain b' where b': "reinsert ?old ?b0 = Some b'" "rb_table b'" "rb_size b' = rb_size b" "tomb_count (rb_keys b') = 0"
    "length (rb_keys b') = c" "live_count (rb_keys b') = rb_size b"
    "\<And>k. rb_count b' k = (case map_of (live_pairs ?old) k of None \<Rightarrow> rb_count ?b0 k | Some v \<Rightarrow> v)"
    by (auto simp: need_def)
  have "rb_count ?b0 k = 0" for k
  proof (cases "k = kEmpty")
    case True
    then show ?thesis by (simp add: rb_count_def special_keys)
  next
    case False
    then show ?thesis by (intro rb_count_absent) simp
  qed
  then have "rb_count b' = rb_count b" using b'(7) by (intro ext) (simp add: rb_count_pairs [of b] split: option.split)
  moreover have "grow b = Some b'" unfolding grow_def Let_def need_def [symmetric] n0_def [symmetric]
    by (simp only: c(1) b'(1) option.case)
  moreover have "rb_tombs b' = 0" using b'(2,4) by (simp add: rb_table_def)
  ultimately show ?thesis using b' c(3) n0(3) small by (intro exI [of _ b']) (simp add: need_def)
qed

section \<open>The operations on a well-formed bag\<close>

lemma rb_table_vals:
  assumes "rb_table b" and "i < length (rb_keys b)" and "0 < v" and "v < 2 ^ 32"
  shows "rb_table (b\<lparr>rb_vals := (rb_vals b)[i := v]\<rparr>)"
  using assms by (auto simp: rb_table_def nth_list_update)

lemma rb_inv_table:
  "rb_inv b \<Longrightarrow> rb_keys b \<noteq> [] \<Longrightarrow> rb_table b \<and> rb_size b = live_count (rb_keys b) \<and> rb_size b + rb_tombs b < length (rb_keys b)"
  by (simp add: rb_inv_def)

lemma rb_invI:
  assumes "rb_table b" and "rb_size b = live_count (rb_keys b)" and "rb_size b + rb_tombs b < length (rb_keys b)"
  shows "rb_inv b"
proof -
  have "rb_keys b \<noteq> []" using assms(1) by (auto simp: rb_table_def)
  with assms show ?thesis by (simp add: rb_inv_def)
qed

lemma rb_count_size [simp]: "rb_count (b\<lparr>rb_size := n\<rparr>) = rb_count b"
  by (simp add: rb_count_def fun_eq_iff)

lemma add_spec:
  assumes "rb_inv b" and "rb_live key" and "rb_count b key + 1 < 2 ^ 32" and "rb_size b < 2 ^ 61"
  shows "\<exists>b'. add key b = Some b' \<and> rb_inv b' \<and> rb_count b' = (rb_count b)(key := rb_count b key + 1)
    \<and> rb_size b' = rb_size b + (if rb_count b key = 0 then 1 else 0)
    \<and> length (rb_keys b') \<le> max (length (rb_keys b)) (max 128 (4 * rb_size b + 5))"
proof -
  have "\<exists>b1. (if needsGrow b then grow b else Some b) = Some b1 \<and> rb_table b1 \<and> rb_size b1 = rb_size b
    \<and> rb_size b1 = live_count (rb_keys b1) \<and> rb_size b1 + rb_tombs b1 + 1 < length (rb_keys b1)
    \<and> rb_count b1 = rb_count b \<and> length (rb_keys b1) \<le> max (length (rb_keys b)) (max 128 (4 * rb_size b + 5))"
  proof (cases "needsGrow b")
    case True
    with grow_spec [OF assms(1,4)] show ?thesis by fastforce
  next
    case False
    then have "rb_keys b \<noteq> []" "(rb_size b + 1) * 2 < length (rb_keys b)" "rb_tombs b * 2 < length (rb_keys b)"
      by (auto simp: needsGrow_def rb_capacity_def split: if_splits)
    with rb_inv_table [OF assms(1)] False show ?thesis by (intro exI [of _ b]) auto
  qed
  then obtain b1 where b1: "(if needsGrow b then grow b else Some b) = Some b1" "rb_table b1" "rb_size b1 = rb_size b"
    "rb_size b1 = live_count (rb_keys b1)" "rb_size b1 + rb_tombs b1 + 1 < length (rb_keys b1)"
    "rb_count b1 = rb_count b" "length (rb_keys b1) \<le> max (length (rb_keys b)) (max 128 (4 * rb_size b + 5))" by blast
  have t: "distinct_live (rb_keys b1)" "length (rb_vals b1) = length (rb_keys b1)" "rb_tombs b1 = tomb_count (rb_keys b1)"
    "\<And>i. i < length (rb_keys b1) \<Longrightarrow> rb_live (rb_keys b1 ! i) \<Longrightarrow> 0 < rb_vals b1 ! i"
    using b1(2) by (auto simp: rb_table_def)
  show ?thesis
  proof (cases "key \<in> set (rb_keys b1)")
    case True
    from b1(2) assms(2) obtain i where i: "probeInsert key b1 = Some (i, b1)" "i < length (rb_keys b1)" "rb_keys b1 ! i = key"
      by (cases rule: probeInsert_spec) (use True in auto)
    have v: "rb_vals b1 ! i = rb_count b key" "0 < rb_vals b1 ! i"
      using rb_count_at [OF t(1,2) i(2)] t(4) [OF i(2)] i(3) assms(2) b1(6) by auto
    let ?b2 = "b1\<lparr>rb_vals := (rb_vals b1)[i := rb_count b key + 1]\<rparr>"
    have "add key b = Some ?b2"
      using b1(1) i v assms(3) by (simp add: add_def)
    moreover have "rb_inv ?b2"
      by (rule rb_invI) (use rb_table_vals [OF b1(2) i(2), of "rb_count b key + 1"] assms(3) b1 in simp_all)
    moreover have "rb_keys ?b2 = (rb_keys b1)[i := key]" using list_update_id [of "rb_keys b1" i] i(3) by simp
    from rb_count_set [OF t(1,2) i(2) _ assms(2) _ this] i(3) b1(6)
    have "rb_count ?b2 = (rb_count b)(key := rb_count b key + 1)" by simp
    ultimately show ?thesis using b1 v by simp
  next
    case False
    from place_table [OF b1(2) assms(2) False, of 1] b1(4,5) t(3)
    obtain i b2 where b2: "probeInsert key b1 = Some (i, b2)" "rb_keys b2 = rb_keys b1" "rb_size b2 = rb_size b1" "rb_keys b2 ! i \<noteq> key"
      "rb_table (place i key 1 b2)" "rb_count (place i key 1 b2) = (rb_count b1)(key := 1)"
      "live_count (rb_keys (place i key 1 b2)) = live_count (rb_keys b1) + 1"
      "tomb_count (rb_keys (place i key 1 b2)) \<le> tomb_count (rb_keys b1)" "length (rb_keys (place i key 1 b2)) = length (rb_keys b1)"
      by auto
    let ?b3 = "(place i key 1 b2)\<lparr>rb_size := rb_size b2 + 1\<rparr>"
    have "add key b = Some ?b3" using b1(1) b2(1,4) by (simp add: add_def place_def)
    moreover have "rb_table ?b3" using b2(5) by (simp add: rb_table_def)
    then have "rb_inv ?b3"
      using b2 b1(4,5) t(3) by (intro rb_invI) (simp_all add: rb_table_def place_def)
    moreover have "rb_count ?b3 = (rb_count b)(key := 1)" using b2(6) b1(6) by simp
    moreover have "rb_count b key = 0" using rb_count_absent [OF False] b1(6) by simp
    ultimately show ?thesis using b1(3,7) b2(3,9) by simp
  qed
qed

lemma dec32: "0 < v \<Longrightarrow> v < 2 ^ 32 \<Longrightarrow> u32_cast (v + (2 ^ 32 - 1)) = v - 1"
  by (cases v) (simp_all add: u32_cast_def)

lemma removeOne_spec:
  assumes "rb_inv b" and "rb_live key"
  shows "\<exists>b'. removeOne key b = Some (0 < rb_count b key, b') \<and> rb_inv b'
    \<and> rb_count b' = (rb_count b)(key := rb_count b key - 1)
    \<and> rb_size b' \<le> rb_size b \<and> length (rb_keys b') = length (rb_keys b)"
proof (cases "key \<in> set (rb_keys b)")
  case False
  then have z: "rb_count b key = 0" by (rule rb_count_absent)
  have "removeOne key b = Some (False, b)"
  proof (cases "rb_keys b = []")
    case False
    with rb_inv_table [OF assms(1)] probeFind_spec [OF _ assms(2), of b] \<open>key \<notin> set (rb_keys b)\<close>
    show ?thesis by (simp add: removeOne_def)
  qed (simp add: removeOne_def)
  with z assms(1) show ?thesis by (simp add: fun_upd_idem)
next
  case True
  then have ne: "rb_keys b \<noteq> []" by auto
  from rb_inv_table [OF assms(1) ne] have t: "rb_table b" "rb_size b = live_count (rb_keys b)"
    "rb_size b + rb_tombs b < length (rb_keys b)" by auto
  have t2: "distinct_live (rb_keys b)" "length (rb_vals b) = length (rb_keys b)" "chained (rb_keys b)"
    "rb_tombs b = tomb_count (rb_keys b)"
    "\<And>i. i < length (rb_keys b) \<Longrightarrow> rb_live (rb_keys b ! i) \<Longrightarrow> 0 < rb_vals b ! i \<and> rb_vals b ! i < 2 ^ 32"
    using t(1) by (auto simp: rb_table_def)
  from probeFind_spec [OF t(1) assms(2)] True obtain i where i: "probeFind key b = Some (Some i)"
    "i < length (rb_keys b)" "rb_keys b ! i = key" by auto
  define v where "v = rb_count b key"
  have v: "rb_vals b ! i = v" "0 < v" "v < 2 ^ 32"
    using rb_count_at [OF t2(1,2) i(2)] t2(5) [OF i(2)] i(3) assms(2) by (auto simp: v_def)
  have dv: "u32_cast (rb_vals b ! i + (2 ^ 32 - 1)) = v - 1" unfolding v(1) by (rule dec32 [OF v(2,3)])
  let ?b1 = "b\<lparr>rb_vals := (rb_vals b)[i := v - 1]\<rparr>"
  have r: "removeOne key b = Some (True, if v - 1 = 0
      then ?b1\<lparr>rb_keys := (rb_keys ?b1)[i := kTombstone], rb_tombs := rb_tombs ?b1 + 1, rb_size := rb_size ?b1 - 1\<rparr> else ?b1)"
    unfolding removeOne_def if_not_P [OF ne] i(1) by (simp only: option.case Let_def dv)
  show ?thesis
  proof (cases "v = 1")
    case False
    have "rb_inv ?b1" by (rule rb_invI) (use rb_table_vals [OF t(1) i(2), of "v - 1"] False v t in simp_all)
    moreover have "rb_keys ?b1 = (rb_keys b)[i := key]" using list_update_id [of "rb_keys b" i] i(3) by simp
    from rb_count_set [OF t2(1,2) i(2) _ assms(2) _ this] i(3)
    have "rb_count ?b1 = (rb_count b)(key := v - 1)" by simp
    ultimately show ?thesis using r False v unfolding v_def [symmetric] by simp
  next
    case True
    let ?b2 = "?b1\<lparr>rb_keys := (rb_keys ?b1)[i := kTombstone], rb_tombs := rb_tombs ?b1 + 1, rb_size := rb_size ?b1 - 1\<rparr>"
    have k2: "rb_keys ?b2 = (rb_keys b)[i := kTombstone]" "rb_vals ?b2 = (rb_vals b)[i := 0]" using True by simp_all
    note lt = live_tomb_update [OF i(2), of kTombstone]
    have live: "rb_live (rb_keys b ! i)" using i(3) assms(2) by simp
    then have nt: "rb_keys b ! i \<noteq> kTombstone" by (auto simp: rb_live_def)
    have counts: "live_count (rb_keys ?b2) + 1 = live_count (rb_keys b)" "tomb_count (rb_keys ?b2) = tomb_count (rb_keys b) + 1"
      using lt live nt special_keys unfolding k2 by simp_all
    have ch: "chained (rb_keys ?b2)" unfolding k2 by (rule chained_update [OF t2(3) i(2)]) (use special_keys in auto)
    have dl: "distinct_live (rb_keys ?b2)" unfolding k2 by (rule distinct_live_update [OF t2(1) i(2)]) (use special_keys in auto)
    have "kEmpty \<in> set (rb_keys ?b2)" by (rule empty_remains) (use counts t(2,3) t2(4) k2 in simp)
    moreover have "0 < rb_vals ?b2 ! n \<and> rb_vals ?b2 ! n < 2 ^ 32" if "n < length (rb_keys ?b2)" "rb_live (rb_keys ?b2 ! n)" for n
      using that t2(2,5) i(2) special_keys(2) unfolding k2 by (cases "n = i") auto
    ultimately have tab: "rb_table ?b2"
      using t(1) ch dl counts(2) t2(2,4) by (auto simp: rb_table_def)
    then have inv: "rb_inv ?b2" by (rule rb_invI) (use counts t t2(4) k2 in simp_all)
    have "rb_count ?b2 k' = ((rb_count b)(key := 0)) k'" for k'
    proof (cases "rb_live k' \<and> k' \<noteq> key \<and> k' \<in> set (rb_keys b)")
      case True
      then obtain n where n: "n < length (rb_keys b)" "rb_keys b ! n = k'" "n \<noteq> i" using i(3) by (auto simp: in_set_conv_nth)
      with rb_count_at [OF t2(1,2) n(1)] rb_count_at [OF dl, of n] True t2(2) k2 show ?thesis by simp
    next
      case False
      have "key \<notin> set (rb_keys ?b2)"
      proof
        assume "key \<in> set (rb_keys ?b2)"
        then obtain n where n: "n < length (rb_keys b)" "(rb_keys b)[i := kTombstone] ! n = key" unfolding k2 by (auto simp: in_set_conv_nth)
        then have "n \<noteq> i" using i(2) live nt i(3) by auto
        with n live_unique [OF t2(1) n(1) i(2)] i(3) live show False by auto
      qed
      moreover have "set (rb_keys ?b2) \<subseteq> insert kTombstone (set (rb_keys b))" unfolding k2 by (rule set_update_subset_insert)
      ultimately have "rb_count ?b2 k' = 0" "k' \<noteq> key \<Longrightarrow> rb_count b k' = 0"
        using False rb_count_absent [of k' ?b2] rb_count_absent [of k' b] by (cases "rb_live k'"; auto simp: rb_count_def rb_live_def)+
      then show ?thesis by simp
    qed
    then have "rb_count ?b2 = (rb_count b)(key := v - 1)" using True by auto
    with inv r True k2 show ?thesis unfolding v_def [symmetric] by simp
  qed
qed

section \<open>The multiset contract\<close>

definition rb_abs :: "root_bag \<Rightarrow> 64 word multiset" where
  "rb_abs b = (\<Sum>(k, v) \<leftarrow> each b. replicate_mset v k)"

lemma count_pairs:
  "distinct (map fst xs) \<Longrightarrow> count (\<Sum>(k, v) \<leftarrow> xs. replicate_mset v k) k = (case map_of xs k of None \<Rightarrow> 0 | Some v \<Rightarrow> v)"
proof (induction xs)
  case (Cons p xs)
  have "map_of xs (fst p) = None" using Cons.prems by (simp add: map_of_eq_None_iff)
  with Cons show ?case by (cases p) auto
qed simp

lemma rb_abs_count:
  assumes "rb_inv b"
  shows "count (rb_abs b) k = rb_count b k"
proof -
  have "distinct_live (rb_keys b)" "length (rb_vals b) = length (rb_keys b)"
    using assms by (auto simp: rb_inv_def rb_table_def RootBag_init_def distinct_live_def split: if_splits)
  then have "distinct (map fst (live_pairs (zip (rb_keys b) (rb_vals b))))"
    using live_pairs_zip [of "rb_vals b" "rb_keys b"] by (simp add: distinct_live_def)
  from count_pairs [OF this] show ?thesis by (simp add: rb_abs_def each_def live_pairs_def rb_count_pairs)
qed

definition rb_room :: "64 word \<Rightarrow> root_bag \<Rightarrow> bool" where
  "rb_room key b \<longleftrightarrow> count (rb_abs b) key + 1 < 2 ^ 32 \<and> rb_size b < 2 ^ 61"

text \<open>What a client of a partial, bounded bag relies on.\<close>

locale bag =
  fixes abs :: "'b \<Rightarrow> 'k multiset" and inv :: "'b \<Rightarrow> bool" and key_ok :: "'k \<Rightarrow> bool" and room :: "'k \<Rightarrow> 'b \<Rightarrow> bool"
    and insert :: "'k \<Rightarrow> 'b \<Rightarrow> 'b option" and remove :: "'k \<Rightarrow> 'b \<Rightarrow> (bool \<times> 'b) option" and new :: 'b
  assumes new_ok: "inv new" "abs new = {#}"
    and insert_ok: "inv b \<Longrightarrow> key_ok k \<Longrightarrow> room k b \<Longrightarrow> \<exists>b'. insert k b = Some b' \<and> inv b' \<and> abs b' = add_mset k (abs b)"
    and remove_ok: "inv b \<Longrightarrow> key_ok k \<Longrightarrow> \<exists>b'. remove k b = Some (k \<in># abs b, b') \<and> inv b' \<and> abs b' = abs b - {#k#}"
begin

lemma insert_remove:
  "inv b \<Longrightarrow> key_ok k \<Longrightarrow> room k b \<Longrightarrow>
   \<exists>b' b''. insert k b = Some b' \<and> remove k b' = Some (True, b'') \<and> abs b'' = abs b"
  using insert_ok [of b k] remove_ok [of _ k] by fastforce

lemma remove_absent:
  "inv b \<Longrightarrow> key_ok k \<Longrightarrow> k \<notin># abs b \<Longrightarrow> \<exists>b'. remove k b = Some (False, b') \<and> abs b' = abs b"
  using remove_ok [of b k] by (auto simp: diff_single_trivial)

primrec remove_all :: "'k list \<Rightarrow> 'b \<Rightarrow> 'b option" where
  "remove_all [] b = Some b"
| "remove_all (k # ks) b = (case remove k b of None \<Rightarrow> None | Some (r, b') \<Rightarrow> remove_all ks b')"

lemma drop_all:
  "inv b \<Longrightarrow> (\<And>k. k \<in> set ks \<Longrightarrow> key_ok k) \<Longrightarrow> mset ks = abs b \<Longrightarrow> \<exists>b'. remove_all ks b = Some b' \<and> inv b' \<and> abs b' = {#}"
proof (induction ks arbitrary: b)
  case (Cons k ks)
  from remove_ok [OF Cons.prems(1), of k] Cons.prems(2) obtain r b' where
    b': "remove k b = Some (r, b')" "inv b'" "abs b' = abs b - {#k#}" by auto
  with Cons.IH [OF b'(2)] Cons.prems(2,3) show ?case by (metis add_mset_remove_trivial list.set_intros(2) mset.simps(2) option.simps(5) prod.simps(2) remove_all.simps(2))
qed simp

end

interpretation root_bag: bag rb_abs rb_inv rb_live rb_room add removeOne RootBag_init
proof
  show "rb_inv RootBag_init" by (simp add: rb_inv_def RootBag_init_def)
  show "rb_abs RootBag_init = {#}" by (simp add: rb_abs_def each_def RootBag_init_def)
next
  fix b k assume a: "rb_inv b" "rb_live k" "rb_room k b"
  with add_spec [of b k] obtain b' where "add k b = Some b'" "rb_inv b'" "rb_count b' = (rb_count b)(k := rb_count b k + 1)"
    by (auto simp: rb_room_def rb_abs_count)
  then show "\<exists>b'. add k b = Some b' \<and> rb_inv b' \<and> rb_abs b' = add_mset k (rb_abs b)"
    using a(1) by (intro exI [of _ b']) (auto simp: multiset_eq_iff rb_abs_count)
next
  fix b k assume a: "rb_inv b" "rb_live k"
  from removeOne_spec [OF this] obtain b' where "removeOne k b = Some (0 < rb_count b k, b')" "rb_inv b'"
    "rb_count b' = (rb_count b)(k := rb_count b k - 1)" by blast
  then show "\<exists>b'. removeOne k b = Some (k \<in># rb_abs b, b') \<and> rb_inv b' \<and> rb_abs b' = rb_abs b - {#k#}"
    using a(1) by (intro exI [of _ b']) (auto simp: multiset_eq_iff rb_abs_count count_greater_zero_iff [symmetric] simp del: count_greater_zero_iff)
qed

section \<open>Histories\<close>

datatype bag_op = OpAdd "64 word" | OpRemove "64 word"

fun op_live :: "bag_op \<Rightarrow> bool" where
  "op_live (OpAdd k) = rb_live k"
| "op_live (OpRemove k) = rb_live k"

fun rb_exec :: "bag_op list \<Rightarrow> root_bag \<Rightarrow> root_bag option" where
  "rb_exec [] b = Some b"
| "rb_exec (OpAdd k # ops) b = (case add k b of None \<Rightarrow> None | Some b' \<Rightarrow> rb_exec ops b')"
| "rb_exec (OpRemove k # ops) b = (case removeOne k b of None \<Rightarrow> None | Some (r, b') \<Rightarrow> rb_exec ops b')"

text \<open>The abstract multiset after the same history.\<close>

fun mset_op :: "bag_op \<Rightarrow> 64 word multiset \<Rightarrow> 64 word multiset" where
  "mset_op (OpAdd k) m = add_mset k m"
| "mset_op (OpRemove k) m = m - {#k#}"

definition bag_exec :: "bag_op list \<Rightarrow> 64 word multiset \<Rightarrow> 64 word multiset" where
  "bag_exec ops m = fold mset_op ops m"

lemma rb_size_distinct:
  assumes "rb_inv b"
  shows "rb_size b = card (set_mset (rb_abs b))"
proof (cases "rb_keys b = []")
  case True
  then show ?thesis using assms by (simp add: rb_inv_def RootBag_init_def rb_abs_def each_def)
next
  case False
  from rb_inv_table [OF assms False] have t: "rb_table b" "rb_size b = live_count (rb_keys b)" by auto
  then have d: "distinct_live (rb_keys b)" "length (rb_vals b) = length (rb_keys b)" by (auto simp: rb_table_def)
  have "k \<in># rb_abs b \<longleftrightarrow> k \<in> set (filter rb_live (rb_keys b))" for k
  proof (cases "rb_live k \<and> k \<in> set (rb_keys b)")
    case True
    then obtain i where "i < length (rb_keys b)" "rb_keys b ! i = k" by (auto simp: in_set_conv_nth)
    with True rb_count_at [OF d, of i] t(1) have "0 < rb_count b k" by (auto simp: rb_table_def)
    then have "k \<in># rb_abs b" using rb_abs_count [OF assms, of k] by (metis count_greater_zero_iff)
    with True show ?thesis by simp
  next
    case False
    then have "rb_count b k = 0" using rb_count_absent [of k b] by (auto simp: rb_count_def)
    then have "k \<notin># rb_abs b" using rb_abs_count [OF assms, of k] by (metis not_in_iff)
    with False show ?thesis by auto
  qed
  then have "set_mset (rb_abs b) = set (filter rb_live (rb_keys b))" by blast
  then show ?thesis using t(2) d(1) by (simp add: live_count_def distinct_live_def distinct_card [symmetric])
qed

definition distinct_within :: "nat \<Rightarrow> bag_op list \<Rightarrow> 64 word multiset \<Rightarrow> bool" where
  "distinct_within N ops m \<longleftrightarrow> (\<forall>n \<le> length ops. card (set_mset (bag_exec (take n ops) m)) \<le> N)"

lemma distinct_within_Cons:
  assumes "distinct_within N (op # ops) m"
  shows "card (set_mset m) \<le> N" "distinct_within N ops (mset_op op m)"
proof -
  have a: "card (set_mset (bag_exec (take n (op # ops)) m)) \<le> N" if "n \<le> Suc (length ops)" for n
    using assms that by (simp add: distinct_within_def)
  from a [of 0] show "card (set_mset m) \<le> N" by (simp add: bag_exec_def)
  show "distinct_within N ops (mset_op op m)" unfolding distinct_within_def
  proof (intro allI impI)
    fix n assume "n \<le> length ops"
    with a [of "Suc n"] show "card (set_mset (bag_exec (take n ops) (mset_op op m))) \<le> N" by (simp add: bag_exec_def)
  qed
qed

lemma rb_exec_spec:
  "rb_inv b \<Longrightarrow> list_all op_live ops \<Longrightarrow> (\<forall>k. count (rb_abs b) k + length ops < 2 ^ 32) \<Longrightarrow>
   rb_size b + length ops < 2 ^ 61 \<Longrightarrow> distinct_within N ops (rb_abs b) \<Longrightarrow>
   \<exists>b'. rb_exec ops b = Some b' \<and> rb_inv b' \<and> rb_abs b' = bag_exec ops (rb_abs b)
     \<and> length (rb_keys b') \<le> max (length (rb_keys b)) (max 128 (4 * N + 5))"
proof (induction ops arbitrary: b)
  case Nil
  then show ?case by (simp add: bag_exec_def)
next
  case (Cons op ops)
  note dw = distinct_within_Cons [OF Cons.prems(5)]
  have "\<exists>b1. rb_exec (op # ops) b = rb_exec ops b1 \<and> rb_inv b1 \<and> rb_abs b1 = mset_op op (rb_abs b)
    \<and> rb_size b1 \<le> rb_size b + 1 \<and> length (rb_keys b1) \<le> max (length (rb_keys b)) (max 128 (4 * N + 5))"
  proof (cases op)
    case (OpAdd k)
    have r: "rb_live k" "rb_room k b" using Cons.prems(2,4) Cons.prems(3) [rule_format, of k] OpAdd by (auto simp: rb_room_def)
    from root_bag.insert_ok [OF Cons.prems(1) r] obtain b1 where b1: "add k b = Some b1" "rb_inv b1" "rb_abs b1 = add_mset k (rb_abs b)" by blast
    have "length (rb_keys b1) \<le> max (length (rb_keys b)) (max 128 (4 * rb_size b + 5)) \<and> rb_size b1 \<le> rb_size b + 1"
      using add_spec [OF Cons.prems(1) r(1)] r(2) b1(1) rb_abs_count [OF Cons.prems(1), of k] by (auto simp: rb_room_def)
    moreover have "rb_size b \<le> N" using dw(1) rb_size_distinct [OF Cons.prems(1)] by simp
    ultimately show ?thesis using b1 OpAdd by (intro exI [of _ b1]) (simp add: max_def split: if_splits)
  next
    case (OpRemove k)
    have k: "rb_live k" using Cons.prems(2) OpRemove by simp
    from root_bag.remove_ok [OF Cons.prems(1) k] obtain b1 where
      b1: "removeOne k b = Some (k \<in># rb_abs b, b1)" "rb_inv b1" "rb_abs b1 = rb_abs b - {#k#}" by blast
    with removeOne_spec [OF Cons.prems(1) k] have "rb_size b1 \<le> rb_size b \<and> length (rb_keys b1) = length (rb_keys b)" by auto
    with b1 OpRemove show ?thesis by (intro exI [of _ b1]) simp
  qed
  then obtain b1 where b1: "rb_exec (op # ops) b = rb_exec ops b1" "rb_inv b1" "rb_abs b1 = mset_op op (rb_abs b)"
    "rb_size b1 \<le> rb_size b + 1" "length (rb_keys b1) \<le> max (length (rb_keys b)) (max 128 (4 * N + 5))" by blast
  have cnt: "count (rb_abs b1) k \<le> count (rb_abs b) k + 1" for k
    unfolding b1(3) by (cases op) auto
  have "\<forall>k. count (rb_abs b1) k + length ops < 2 ^ 32"
  proof
    fix k show "count (rb_abs b1) k + length ops < 2 ^ 32"
      using cnt [of k] Cons.prems(3) [rule_format, of k] by simp
  qed
  moreover have "rb_size b1 + length ops < 2 ^ 61" using b1(4) Cons.prems(4) by simp
  ultimately have "\<exists>b'. rb_exec ops b1 = Some b' \<and> rb_inv b' \<and> rb_abs b' = bag_exec ops (rb_abs b1)
     \<and> length (rb_keys b') \<le> max (length (rb_keys b1)) (max 128 (4 * N + 5))"
    using Cons.prems(2) dw(2) b1(2,3) by (intro Cons.IH) auto
  then show ?case using b1(1,3,5) by (auto simp: bag_exec_def)
qed

text \<open>
  Property C35 (refinement).  Any history of fewer than 2^32 additions and removals of valid keys ends:
  every probing loop and every rehash returns, and the table then stands for the multiset that the same
  additions and removals give.
\<close>

theorem rootbag_refines_multiset:
  assumes "list_all op_live ops" and "length ops < 2 ^ 32"
  shows "\<exists>b. rb_exec ops RootBag_init = Some b \<and> rb_inv b \<and> rb_abs b = bag_exec ops {#}"
proof -
  let ?N = "Max ((\<lambda>n. card (set_mset (bag_exec (take n ops) {#}))) ` {..length ops})"
  have "distinct_within ?N ops {#}" by (auto simp: distinct_within_def intro!: Max_ge)
  with rb_exec_spec [OF root_bag.new_ok(1), of ops ?N] assms root_bag.new_ok(2) show ?thesis
    by (auto simp: RootBag_init_def)
qed

theorem rootbag_refines_multiset_witness:
  "\<exists>b. rb_exec [OpAdd 5, OpAdd 5, OpRemove 5, OpRemove 9] RootBag_init = Some b \<and> rb_inv b \<and> rb_abs b = {#5#}"
  using rootbag_refines_multiset [of "[OpAdd 5, OpAdd 5, OpRemove 5, OpRemove 9]"]
  by (simp add: rb_live_def kEmpty_def kTombstone_def bag_exec_def)

text \<open>
  Property C36 (bounds).  Churn does not inflate the table: if the bag at no time of its history held more
  than \<open>N\<close> distinct keys its capacity is at most the larger of 128 and \<open>4 N + 5\<close>, and an unused slot is
  always left, which is what ends the probing loops.  The bound is by the peak of the history and not
  by the keys held now: removals do not shrink the table.
\<close>

theorem rootbag_capacity_bounded:
  assumes "list_all op_live ops" and "length ops < 2 ^ 32" and "distinct_within N ops {#}"
    and "rb_exec ops RootBag_init = Some b"
  shows "rb_capacity b \<le> max 128 (4 * N + 5) \<and> (rb_capacity b = 0 \<or> rb_size b + rb_tombs b < rb_capacity b)"
proof -
  from rb_exec_spec [OF root_bag.new_ok(1), of ops N] assms root_bag.new_ok(2)
  have "rb_inv b" "length (rb_keys b) \<le> max 128 (4 * N + 5)" by (auto simp: RootBag_init_def)
  then show ?thesis by (auto simp: rb_capacity_def rb_inv_def split: if_splits)
qed

theorem rootbag_capacity_bounded_witness:
  "\<exists>b. rb_exec [OpAdd 5, OpRemove 5] RootBag_init = Some b \<and> rb_capacity b \<le> 128"
proof -
  let ?ops = "[OpAdd 5, OpRemove 5]"
  have live: "list_all op_live ?ops" by (simp add: rb_live_def kEmpty_def kTombstone_def)
  have dw: "distinct_within 1 ?ops {#}"
    unfolding distinct_within_def by (auto simp: bag_exec_def take_Cons' less_Suc_eq_le numeral_2_eq_2)
  have "rb_size RootBag_init = 0" by (simp add: RootBag_init_def)
  with rb_exec_spec [OF root_bag.new_ok(1) live, of 1] dw obtain b where b: "rb_exec ?ops RootBag_init = Some b"
    unfolding root_bag.new_ok(2) by auto
  have "length ?ops < 2 ^ 32" by simp
  from rootbag_capacity_bounded [OF live this dw b] b show ?thesis by auto
qed

end
