(* ===== verification/Lx_RefTable.thy ===== *)
theory Lx_RefTable
  imports Lx_Prelude
begin

text \<open>
  The reference tables of the AARC collector: counts per slot and the outgoing edges of every slot.
  \<open>arc/ref_table_reverse.hpp\<close> (the default build) keeps every edge as a record of an arena, linked
  into the list of its source and into the list of its target; \<open>arc/ref_table_forward.hpp\<close> keeps a
  vector of targets per slot.  Both meet the contract \<open>ref_counts\<close> below, on which the collector
  rests.  The table is written by one thread here, so a compare-and-swap of the free list succeeds at
  its first attempt.
\<close>

section \<open>Handles\<close>

datatype obj_handle = ObjHandle (oh_index: nat) (oh_gen: nat)

definition kNullIndex :: nat where "kNullIndex = 4294967295"

section \<open>The reverse table\<close>

record ref_rec =
  rr_root :: int
  rr_edge :: int
  rr_outHead :: nat
  rr_inHead :: nat
  rr_outCount :: nat
  rr_inCount :: nat

record edge_rec =
  er_src :: obj_handle
  er_dst :: obj_handle
  er_prevOut :: nat
  er_nextOut :: nat
  er_prevIn :: nat
  er_nextIn :: nat
  er_nextFree :: nat
  er_live :: bool

definition kNoEdge :: nat where "kNoEdge = 4294967295"
definition kBlockSize :: nat where "kBlockSize = 1024"
definition kBlocksPerSegment :: nat where "kBlocksPerSegment = 1024"
definition kMaxSegments :: nat where "kMaxSegments = 4096"

definition empty_rec :: ref_rec where
  "empty_rec = \<lparr>rr_root = 0, rr_edge = 0, rr_outHead = kNoEdge, rr_inHead = kNoEdge, rr_outCount = 0, rr_inCount = 0\<rparr>"

definition empty_edge :: edge_rec where
  "empty_edge = \<lparr>er_src = ObjHandle kNullIndex 0, er_dst = ObjHandle kNullIndex 0, er_prevOut = kNoEdge,
     er_nextOut = kNoEdge, er_prevIn = kNoEdge, er_nextIn = kNoEdge, er_nextFree = kNoEdge, er_live = False\<rparr>"

record ref_table =
  rt_rec :: "ref_rec list"
  rt_edges :: "edge_rec list"
  rt_freeId :: nat
  rt_freeTag :: nat
  rt_nextId :: nat
  rt_liveEdges :: nat

definition RefTable_init :: "nat \<Rightarrow> ref_table" where
  "RefTable_init capacity = \<lparr>rt_rec = replicate capacity empty_rec, rt_edges = [], rt_freeId = kNoEdge,
     rt_freeTag = 0, rt_nextId = 0, rt_liveEdges = 0\<rparr>"

abbreviation at_edge :: "ref_table \<Rightarrow> nat \<Rightarrow> edge_rec" where
  "at_edge t eid \<equiv> rt_edges t ! eid"

definition upd_edge :: "nat \<Rightarrow> (edge_rec \<Rightarrow> edge_rec) \<Rightarrow> ref_table \<Rightarrow> ref_table" where
  "upd_edge eid f t = t\<lparr>rt_edges := (rt_edges t)[eid := f (at_edge t eid)]\<rparr>"

definition upd_rec :: "nat \<Rightarrow> (ref_rec \<Rightarrow> ref_rec) \<Rightarrow> ref_table \<Rightarrow> ref_table" where
  "upd_rec i f t = t\<lparr>rt_rec := (rt_rec t)[i := f (rt_rec t ! i)]\<rparr>"

definition rt_root :: "ref_table \<Rightarrow> nat \<Rightarrow> int" where "rt_root t i = rr_root (rt_rec t ! i)"
definition rt_edge :: "ref_table \<Rightarrow> nat \<Rightarrow> int" where "rt_edge t i = rr_edge (rt_rec t ! i)"
definition rt_total :: "ref_table \<Rightarrow> nat \<Rightarrow> int" where "rt_total t i = rt_root t i + rt_edge t i"
definition hasOutgoing :: "ref_table \<Rightarrow> nat \<Rightarrow> bool" where "hasOutgoing t i \<longleftrightarrow> rr_outCount (rt_rec t ! i) \<noteq> 0"
definition firstOut :: "ref_table \<Rightarrow> nat \<Rightarrow> nat" where "firstOut t i = rr_outHead (rt_rec t ! i)"
definition nextOut :: "ref_table \<Rightarrow> nat \<Rightarrow> nat" where "nextOut t eid = er_nextOut (at_edge t eid)"
definition edgeTarget :: "ref_table \<Rightarrow> nat \<Rightarrow> obj_handle" where "edgeTarget t eid = er_dst (at_edge t eid)"

text \<open>
  The walk of an \<open>AdjRange\<close>.  The number of records of the arena bounds the length of a list of
  distinct records, so it is enough fuel for every list of a well-formed table.
\<close>

fun walk :: "(nat \<Rightarrow> nat) \<Rightarrow> nat \<Rightarrow> nat \<Rightarrow> nat list" where
  "walk nxt 0 eid = []"
| "walk nxt (Suc n) eid = (if eid = kNoEdge then [] else eid # walk nxt n (nxt eid))"

definition out_ids :: "ref_table \<Rightarrow> nat \<Rightarrow> nat list" where
  "out_ids t i = walk (nextOut t) (length (rt_edges t)) (firstOut t i)"

definition outs :: "ref_table \<Rightarrow> nat \<Rightarrow> obj_handle list" where
  "outs t i = map (edgeTarget t) (out_ids t i)"

definition ins :: "ref_table \<Rightarrow> nat \<Rightarrow> obj_handle list" where
  "ins t i = map (\<lambda>eid. er_src (at_edge t eid))
     (walk (\<lambda>eid. er_nextIn (at_edge t eid)) (length (rt_edges t)) (rr_inHead (rt_rec t ! i)))"

definition addRoot :: "nat \<Rightarrow> nat \<Rightarrow> ref_table \<Rightarrow> ref_table" where
  "addRoot i n t = upd_rec i (\<lambda>r. r\<lparr>rr_root := rr_root r + int n\<rparr>) t"

definition subRoot :: "nat \<Rightarrow> nat \<Rightarrow> ref_table \<Rightarrow> bool \<times> ref_table" where
  "subRoot i n t =
     (if rt_root t i < int n then (False, upd_rec i (\<lambda>r. r\<lparr>rr_root := 0\<rparr>) t)
      else (True, upd_rec i (\<lambda>r. r\<lparr>rr_root := rr_root r - int n\<rparr>) t))"

definition addEdgeTo :: "nat \<Rightarrow> ref_table \<Rightarrow> ref_table" where
  "addEdgeTo i t = upd_rec i (\<lambda>r. r\<lparr>rr_edge := rr_edge r + 1\<rparr>) t"

definition subEdgeTo :: "nat \<Rightarrow> ref_table \<Rightarrow> bool \<times> ref_table" where
  "subEdgeTo i t =
     (if rt_edge t i \<le> 0 then (False, t)
      else (True, upd_rec i (\<lambda>r. r\<lparr>rr_edge := rr_edge r - 1\<rparr>) t))"

definition popFree :: "ref_table \<Rightarrow> nat \<times> ref_table" where
  "popFree t =
     (if rt_freeId t = kNoEdge then (kNoEdge, t)
      else (rt_freeId t, t\<lparr>rt_freeId := er_nextFree (at_edge t (rt_freeId t)), rt_freeTag := u32_cast (rt_freeTag t + 1)\<rparr>))"

definition pushFree :: "nat \<Rightarrow> ref_table \<Rightarrow> ref_table" where
  "pushFree eid t =
     (let t1 = upd_edge eid (\<lambda>e. e\<lparr>er_nextFree := rt_freeId t\<rparr>) t in
      t1\<lparr>rt_freeId := eid, rt_freeTag := u32_cast (rt_freeTag t + 1)\<rparr>)"

text \<open>The arena after the block of \<open>eid\<close> is installed; \<open>None\<close> is \<open>std::bad_alloc\<close>.\<close>

definition ensureBlock :: "nat \<Rightarrow> edge_rec list \<Rightarrow> edge_rec list option" where
  "ensureBlock eid es =
     (if eid div kBlockSize div kBlocksPerSegment \<ge> kMaxSegments then None
      else Some (es @ replicate ((eid div kBlockSize + 1) * kBlockSize - length es) empty_edge))"

definition allocateEdge :: "ref_table \<Rightarrow> (nat \<times> ref_table) option" where
  "allocateEdge t =
     (let (eid, t1) = popFree t;
          fresh = (if eid \<noteq> kNoEdge then Some (eid, t1)
                   else let t2 = t1\<lparr>rt_nextId := u32_cast (rt_nextId t1 + 1)\<rparr> in
                     if rt_nextId t1 = kNoEdge then None
                     else (case ensureBlock (rt_nextId t1) (rt_edges t2) of
                             None \<Rightarrow> None
                           | Some es \<Rightarrow> Some (rt_nextId t1, t2\<lparr>rt_edges := es\<rparr>))) in
      case fresh of
        None \<Rightarrow> None
      | Some (eid, t3) \<Rightarrow> Some (eid, (upd_edge eid (\<lambda>_. empty_edge) t3)\<lparr>rt_liveEdges := rt_liveEdges t3 + 1\<rparr>))"

definition link_out :: "nat \<Rightarrow> nat \<Rightarrow> ref_table \<Rightarrow> ref_table" where
  "link_out eid s t =
     (let nxt = rr_outHead (rt_rec t ! s);
          t1 = upd_edge eid (\<lambda>e. e\<lparr>er_nextOut := nxt\<rparr>) t;
          t2 = (if nxt \<noteq> kNoEdge then upd_edge nxt (\<lambda>e. e\<lparr>er_prevOut := eid\<rparr>) t1 else t1) in
      upd_rec s (\<lambda>r. r\<lparr>rr_outHead := eid, rr_outCount := u32_cast (rr_outCount r + 1)\<rparr>) t2)"

definition link_in :: "nat \<Rightarrow> nat \<Rightarrow> ref_table \<Rightarrow> ref_table" where
  "link_in eid d t =
     (let nxt = rr_inHead (rt_rec t ! d);
          t1 = upd_edge eid (\<lambda>e. e\<lparr>er_nextIn := nxt\<rparr>) t;
          t2 = (if nxt \<noteq> kNoEdge then upd_edge nxt (\<lambda>e. e\<lparr>er_prevIn := eid\<rparr>) t1 else t1) in
      upd_rec d (\<lambda>r. r\<lparr>rr_inHead := eid, rr_inCount := u32_cast (rr_inCount r + 1)\<rparr>) t2)"

definition addOut :: "obj_handle \<Rightarrow> obj_handle \<Rightarrow> ref_table \<Rightarrow> ref_table option" where
  "addOut src dst t =
     (case allocateEdge t of
        None \<Rightarrow> None
      | Some (eid, t1) \<Rightarrow>
          Some (link_in eid (oh_index dst) (link_out eid (oh_index src)
            (upd_edge eid (\<lambda>e. e\<lparr>er_src := src, er_dst := dst, er_live := True\<rparr>) t1))))"

definition unlink_out :: "nat \<Rightarrow> ref_table \<Rightarrow> ref_table" where
  "unlink_out eid t =
     (let e = at_edge t eid; s = oh_index (er_src e);
          t1 = (if er_prevOut e \<noteq> kNoEdge then upd_edge (er_prevOut e) (\<lambda>p. p\<lparr>er_nextOut := er_nextOut e\<rparr>) t
                else upd_rec s (\<lambda>r. r\<lparr>rr_outHead := er_nextOut e\<rparr>) t);
          t2 = (if er_nextOut e \<noteq> kNoEdge then upd_edge (er_nextOut e) (\<lambda>n. n\<lparr>er_prevOut := er_prevOut e\<rparr>) t1 else t1) in
      upd_rec s (\<lambda>r. r\<lparr>rr_outCount := u32_cast (rr_outCount r + (2 ^ 32 - 1))\<rparr>) t2)"

definition unlink_in :: "nat \<Rightarrow> ref_table \<Rightarrow> ref_table" where
  "unlink_in eid t =
     (let e = at_edge t eid; d = oh_index (er_dst e);
          t1 = (if er_prevIn e \<noteq> kNoEdge then upd_edge (er_prevIn e) (\<lambda>p. p\<lparr>er_nextIn := er_nextIn e\<rparr>) t
                else upd_rec d (\<lambda>r. r\<lparr>rr_inHead := er_nextIn e\<rparr>) t);
          t2 = (if er_nextIn e \<noteq> kNoEdge then upd_edge (er_nextIn e) (\<lambda>n. n\<lparr>er_prevIn := er_prevIn e\<rparr>) t1 else t1) in
      upd_rec d (\<lambda>r. r\<lparr>rr_inCount := u32_cast (rr_inCount r + (2 ^ 32 - 1))\<rparr>) t2)"

definition unlink :: "nat \<Rightarrow> ref_table \<Rightarrow> ref_table" where
  "unlink eid t =
     (if \<not> er_live (at_edge t eid) then t
      else let t1 = unlink_in eid (unlink_out eid t);
               t2 = upd_edge eid (\<lambda>e. e\<lparr>er_live := False\<rparr>) t1 in
        pushFree eid (t2\<lparr>rt_liveEdges := rt_liveEdges t2 - 1\<rparr>))"

definition removeOut :: "obj_handle \<Rightarrow> obj_handle \<Rightarrow> ref_table \<Rightarrow> bool \<times> ref_table" where
  "removeOut src dst t =
     (case List.find (\<lambda>eid. er_src (at_edge t eid) = src \<and> er_dst (at_edge t eid) = dst) (out_ids t (oh_index src)) of
        None \<Rightarrow> (False, t)
      | Some eid \<Rightarrow> (True, unlink eid t))"

fun clear_from :: "nat \<Rightarrow> nat \<Rightarrow> ref_table \<Rightarrow> ref_table" where
  "clear_from 0 eid t = t"
| "clear_from (Suc n) eid t = (if eid = kNoEdge then t else clear_from n (nextOut t eid) (unlink eid t))"

definition clearOuts :: "nat \<Rightarrow> ref_table \<Rightarrow> ref_table" where
  "clearOuts i t = clear_from (length (rt_edges t)) (firstOut t i) t"

definition resetSlot :: "nat \<Rightarrow> ref_table \<Rightarrow> ref_table" where
  "resetSlot i t = upd_rec i (\<lambda>_. empty_rec) (clearOuts i t)"

section \<open>Doubly linked lists\<close>

text \<open>A list with links \<open>prv\<close> and \<open>nxt\<close> that starts at \<open>h\<close> and whose first element has predecessor \<open>p\<close>.\<close>

fun dls :: "(nat \<Rightarrow> nat) \<Rightarrow> (nat \<Rightarrow> nat) \<Rightarrow> nat \<Rightarrow> nat \<Rightarrow> nat list \<Rightarrow> bool" where
  "dls prv nxt p h [] \<longleftrightarrow> h = kNoEdge"
| "dls prv nxt p h (x # xs) \<longleftrightarrow> h = x \<and> x \<noteq> kNoEdge \<and> prv x = p \<and> dls prv nxt x (nxt x) xs"

lemma dls_cong:
  "(\<And>x. x \<in> set xs \<Longrightarrow> prv' x = prv x \<and> nxt' x = nxt x) \<Longrightarrow> dls prv' nxt' p h xs = dls prv nxt p h xs"
  by (induction xs arbitrary: p h) auto

lemma dls_head: "dls prv nxt p h xs \<Longrightarrow> h = (if xs = [] then kNoEdge else hd xs) \<and> kNoEdge \<notin> set xs"
  by (induction xs arbitrary: p h) auto

lemma dls_push:
  assumes "dls prv nxt kNoEdge h xs" and "x \<notin> set xs" and "x \<noteq> kNoEdge"
    and "nxt' x = h" and "prv' x = kNoEdge" and "\<And>y. y \<in> set xs \<Longrightarrow> nxt' y = nxt y"
    and "\<And>y. y \<in> set xs \<Longrightarrow> prv' y = (if y = h then x else prv y)" and "distinct xs"
  shows "dls prv' nxt' kNoEdge x (x # xs)"
proof (cases xs)
  case (Cons y ys)
  have "dls prv' nxt' y (nxt y) ys = dls prv nxt y (nxt y) ys"
    using assms Cons by (intro dls_cong) auto
  with assms Cons show ?thesis by simp
qed (use assms in simp)

lemma dls_links:
  "dls prv nxt p h (ys @ x # zs) \<Longrightarrow>
   prv x = (if ys = [] then p else last ys) \<and> nxt x = (if zs = [] then kNoEdge else hd zs) \<and> h = (if ys = [] then x else hd ys)
   \<and> kNoEdge \<notin> set (ys @ x # zs)"
proof (induction ys arbitrary: p h)
  case Nil
  then have "dls prv nxt x (nxt x) zs" by simp
  from dls_head [OF this] Nil show ?case by auto
next
  case (Cons y ys)
  from Cons.prems have d: "h = y" "y \<noteq> kNoEdge" "dls prv nxt y (nxt y) (ys @ x # zs)" by simp_all
  from Cons.IH [OF d(3)] d(1,2) show ?case by (cases "ys = []") simp_all
qed

lemma dls_unlink:
  assumes "dls prv nxt p h (ys @ x # zs)" and "distinct (ys @ x # zs)"
    and "\<forall>y \<in> set (ys @ zs). nxt' y = (if ys \<noteq> [] \<and> y = last ys then nxt x else nxt y)"
    and "\<forall>y \<in> set (ys @ zs). prv' y = (if zs \<noteq> [] \<and> y = hd zs then prv x else prv y)"
  shows "dls prv' nxt' p (if ys = [] then nxt x else h) (ys @ zs)"
  using assms
proof (induction ys arbitrary: p h)
  case Nil
  show ?case
  proof (cases zs)
    case (Cons z zs')
    have "dls prv' nxt' z (nxt z) zs' = dls prv nxt z (nxt z) zs'"
      using Nil.prems(2-4) Cons by (intro dls_cong) auto
    with Nil.prems Cons show ?thesis by simp
  qed (use Nil.prems in simp)
next
  case (Cons y ys)
  from Cons.prems(1) have d: "h = y" "y \<noteq> kNoEdge" "prv y = p" "dls prv nxt y (nxt y) (ys @ x # zs)" by simp_all
  have dis: "y \<notin> set ys" "y \<notin> set zs" "distinct (ys @ x # zs)" using Cons.prems(2) by auto
  have n': "\<forall>w \<in> set (ys @ zs). nxt' w = (if ys \<noteq> [] \<and> w = last ys then nxt x else nxt w)"
  proof
    fix w assume w: "w \<in> set (ys @ zs)"
    then have "w \<noteq> y" using dis by auto
    with w Cons.prems(3) show "nxt' w = (if ys \<noteq> [] \<and> w = last ys then nxt x else nxt w)" by (cases "ys = []") simp_all
  qed
  have p': "\<forall>w \<in> set (ys @ zs). prv' w = (if zs \<noteq> [] \<and> w = hd zs then prv x else prv w)"
    using Cons.prems(4) by simp
  have "prv' y = prv y" using Cons.prems(4) dis(2) by (cases zs) auto
  moreover have "nxt' y = (if ys = [] then nxt x else nxt y)"
    using Cons.prems(3) dis(1) by (cases "ys = []") auto
  ultimately show ?case using Cons.IH [OF d(4) dis(3) n' p'] d(1-3) by simp
qed

lemma walk_dls: "dls prv nxt p h xs \<Longrightarrow> length xs \<le> n \<Longrightarrow> walk nxt n h = xs"
proof (induction xs arbitrary: p h n)
  case Nil
  then show ?case by (cases n) auto
next
  case (Cons x xs)
  then show ?case by (cases n) auto
qed

section \<open>The invariant of the reverse table\<close>

text \<open>\<open>OL\<close> and \<open>IL\<close> are the outgoing and incoming lists of every slot, \<open>FL\<close> the free records.\<close>

definition out_dls :: "ref_table \<Rightarrow> nat \<Rightarrow> nat list \<Rightarrow> bool" where
  "out_dls t h xs \<longleftrightarrow> dls (\<lambda>e. er_prevOut (at_edge t e)) (\<lambda>e. er_nextOut (at_edge t e)) kNoEdge h xs"

definition in_dls :: "ref_table \<Rightarrow> nat \<Rightarrow> nat list \<Rightarrow> bool" where
  "in_dls t h xs \<longleftrightarrow> dls (\<lambda>e. er_prevIn (at_edge t e)) (\<lambda>e. er_nextIn (at_edge t e)) kNoEdge h xs"

fun free_chain :: "ref_table \<Rightarrow> nat \<Rightarrow> nat list \<Rightarrow> bool" where
  "free_chain t h [] \<longleftrightarrow> h = kNoEdge"
| "free_chain t h (x # xs) \<longleftrightarrow> h = x \<and> x \<noteq> kNoEdge \<and> free_chain t (er_nextFree (at_edge t x)) xs"

definition live_ids :: "ref_table \<Rightarrow> nat set" where
  "live_ids t = {e. e < rt_nextId t \<and> er_live (at_edge t e)}"

definition arena_ok :: "ref_table \<Rightarrow> nat list \<Rightarrow> bool" where
  "arena_ok t FL \<longleftrightarrow> rt_nextId t \<le> length (rt_edges t) \<and> rt_nextId t \<le> kNoEdge
     \<and> free_chain t (rt_freeId t) FL \<and> distinct FL \<and> set FL = {e. e < rt_nextId t \<and> \<not> er_live (at_edge t e)}
     \<and> rt_liveEdges t = card (live_ids t)"

definition outs_ok :: "ref_table \<Rightarrow> (nat \<Rightarrow> nat list) \<Rightarrow> bool" where
  "outs_ok t OL \<longleftrightarrow> (\<forall>i < length (rt_rec t). out_dls t (rr_outHead (rt_rec t ! i)) (OL i) \<and> rr_outCount (rt_rec t ! i) = length (OL i))
     \<and> (\<forall>i \<ge> length (rt_rec t). OL i = [])
     \<and> (\<forall>i. distinct (OL i) \<and> set (OL i) = {e \<in> live_ids t. oh_index (er_src (at_edge t e)) = i})"

definition ins_ok :: "ref_table \<Rightarrow> (nat \<Rightarrow> nat list) \<Rightarrow> bool" where
  "ins_ok t IL \<longleftrightarrow> (\<forall>i < length (rt_rec t). in_dls t (rr_inHead (rt_rec t ! i)) (IL i) \<and> rr_inCount (rt_rec t ! i) = length (IL i))
     \<and> (\<forall>i \<ge> length (rt_rec t). IL i = [])
     \<and> (\<forall>i. distinct (IL i) \<and> set (IL i) = {e \<in> live_ids t. oh_index (er_dst (at_edge t e)) = i})"

definition rt_inv :: "ref_table \<Rightarrow> (nat \<Rightarrow> nat list) \<Rightarrow> (nat \<Rightarrow> nat list) \<Rightarrow> nat list \<Rightarrow> bool" where
  "rt_inv t OL IL FL \<longleftrightarrow> arena_ok t FL \<and> outs_ok t OL \<and> ins_ok t IL"

definition rt_wf :: "ref_table \<Rightarrow> bool" where
  "rt_wf t \<longleftrightarrow> (\<exists>OL IL FL. rt_inv t OL IL FL)"

lemma live_ids_finite [simp]: "finite (live_ids t)"
  by (simp add: live_ids_def)

lemma distinct_length_bound: "distinct xs \<Longrightarrow> set xs \<subseteq> {e. e < n} \<Longrightarrow> length xs \<le> n"
  by (metis card_Collect_less_nat card_mono distinct_card finite_Collect_less_nat)

lemma free_chain_cong:
  "(\<And>x. x \<in> set xs \<Longrightarrow> er_nextFree (at_edge t' x) = er_nextFree (at_edge t x)) \<Longrightarrow> free_chain t' h xs = free_chain t h xs"
  by (induction xs arbitrary: h) auto

lemma free_chain_head: "free_chain t h xs \<Longrightarrow> h = (if xs = [] then kNoEdge else hd xs) \<and> kNoEdge \<notin> set xs"
  by (induction xs arbitrary: h) auto

lemma outs_okD:
  assumes "arena_ok t FL" and "outs_ok t OL"
  shows "i < length (rt_rec t) \<Longrightarrow> out_dls t (rr_outHead (rt_rec t ! i)) (OL i)"
    "i < length (rt_rec t) \<Longrightarrow> rr_outCount (rt_rec t ! i) = length (OL i)"
    "distinct (OL i)" "e \<in> set (OL i) \<longleftrightarrow> e \<in> live_ids t \<and> oh_index (er_src (at_edge t e)) = i"
    "length (OL i) \<le> rt_nextId t" "length (OL i) \<le> length (rt_edges t)"
proof -
  show "i < length (rt_rec t) \<Longrightarrow> out_dls t (rr_outHead (rt_rec t ! i)) (OL i)"
    "i < length (rt_rec t) \<Longrightarrow> rr_outCount (rt_rec t ! i) = length (OL i)"
    and d: "distinct (OL i)" and s: "e \<in> set (OL i) \<longleftrightarrow> e \<in> live_ids t \<and> oh_index (er_src (at_edge t e)) = i" for e
    using assms(2) by (auto simp: outs_ok_def)
  have "set (OL i) \<subseteq> {e. e < rt_nextId t}" using s by (auto simp: live_ids_def)
  from distinct_length_bound [OF d this] show "length (OL i) \<le> rt_nextId t" .
  with assms(1) show "length (OL i) \<le> length (rt_edges t)" by (simp add: arena_ok_def)
qed

lemma ins_okD:
  assumes "arena_ok t FL" and "ins_ok t IL"
  shows "i < length (rt_rec t) \<Longrightarrow> in_dls t (rr_inHead (rt_rec t ! i)) (IL i)"
    "i < length (rt_rec t) \<Longrightarrow> rr_inCount (rt_rec t ! i) = length (IL i)"
    "distinct (IL i)" "e \<in> set (IL i) \<longleftrightarrow> e \<in> live_ids t \<and> oh_index (er_dst (at_edge t e)) = i"
    "length (IL i) \<le> rt_nextId t" "length (IL i) \<le> length (rt_edges t)"
proof -
  show "i < length (rt_rec t) \<Longrightarrow> in_dls t (rr_inHead (rt_rec t ! i)) (IL i)"
    "i < length (rt_rec t) \<Longrightarrow> rr_inCount (rt_rec t ! i) = length (IL i)"
    and d: "distinct (IL i)" and s: "e \<in> set (IL i) \<longleftrightarrow> e \<in> live_ids t \<and> oh_index (er_dst (at_edge t e)) = i" for e
    using assms(2) by (auto simp: ins_ok_def)
  have "set (IL i) \<subseteq> {e. e < rt_nextId t}" using s by (auto simp: live_ids_def)
  from distinct_length_bound [OF d this] show "length (IL i) \<le> rt_nextId t" .
  with assms(1) show "length (IL i) \<le> length (rt_edges t)" by (simp add: arena_ok_def)
qed

lemma out_ids_eq:
  assumes "rt_inv t OL IL FL" and "i < length (rt_rec t)"
  shows "out_ids t i = OL i"
proof -
  have a: "arena_ok t FL" "outs_ok t OL" using assms(1) by (simp_all add: rt_inv_def)
  have n: "nextOut t = (\<lambda>e. er_nextOut (at_edge t e))" by (simp add: nextOut_def fun_eq_iff)
  from outs_okD(1) [OF a assms(2)] show ?thesis
    unfolding out_ids_def firstOut_def n out_dls_def by (rule walk_dls) (rule outs_okD(6) [OF a])
qed

lemma outs_eq: "rt_inv t OL IL FL \<Longrightarrow> i < length (rt_rec t) \<Longrightarrow> outs t i = map (\<lambda>e. er_dst (at_edge t e)) (OL i)"
  by (simp add: outs_def out_ids_eq edgeTarget_def)

lemma upd_edge_simps [simp]:
  "rt_rec (upd_edge e f t) = rt_rec t" "rt_freeId (upd_edge e f t) = rt_freeId t" "rt_freeTag (upd_edge e f t) = rt_freeTag t"
  "rt_nextId (upd_edge e f t) = rt_nextId t" "rt_liveEdges (upd_edge e f t) = rt_liveEdges t"
  "length (rt_edges (upd_edge e f t)) = length (rt_edges t)"
  by (simp_all add: upd_edge_def)

lemma upd_rec_simps [simp]:
  "rt_edges (upd_rec i f t) = rt_edges t" "rt_freeId (upd_rec i f t) = rt_freeId t" "rt_freeTag (upd_rec i f t) = rt_freeTag t"
  "rt_nextId (upd_rec i f t) = rt_nextId t" "rt_liveEdges (upd_rec i f t) = rt_liveEdges t"
  "length (rt_rec (upd_rec i f t)) = length (rt_rec t)"
  by (simp_all add: upd_rec_def)

lemma at_upd_edge: "e < length (rt_edges t) \<Longrightarrow> at_edge (upd_edge e f t) x = (if x = e then f (at_edge t e) else at_edge t x)"
  by (simp add: upd_edge_def)

lemma rec_upd_rec: "i < length (rt_rec t) \<Longrightarrow> rt_rec (upd_rec i f t) ! j = (if j = i then f (rt_rec t ! i) else rt_rec t ! j)"
  by (simp add: upd_rec_def)

text \<open>A write to the counts of one row leaves the lists alone.\<close>

lemma rt_inv_counts:
  assumes "rt_inv t OL IL FL"
    and "\<And>r. rr_outHead (f r) = rr_outHead r \<and> rr_inHead (f r) = rr_inHead r \<and> rr_outCount (f r) = rr_outCount r \<and> rr_inCount (f r) = rr_inCount r"
  shows "rt_inv (upd_rec i f t) OL IL FL"
proof (cases "i < length (rt_rec t)")
  case True
  have l: "live_ids (upd_rec i f t) = live_ids t" by (simp add: live_ids_def)
  have fc: "free_chain (upd_rec i f t) h xs = free_chain t h xs" for h xs by (rule free_chain_cong) simp
  have h: "rr_outHead (rt_rec (upd_rec i f t) ! j) = rr_outHead (rt_rec t ! j)" "rr_outCount (rt_rec (upd_rec i f t) ! j) = rr_outCount (rt_rec t ! j)"
    "rr_inHead (rt_rec (upd_rec i f t) ! j) = rr_inHead (rt_rec t ! j)" "rr_inCount (rt_rec (upd_rec i f t) ! j) = rr_inCount (rt_rec t ! j)" for j
    using rec_upd_rec [OF True] assms(2) by simp_all
  from assms(1) show ?thesis
    unfolding rt_inv_def arena_ok_def outs_ok_def ins_ok_def out_dls_def in_dls_def by (simp add: l fc h)
next
  case False
  then have "upd_rec i f t = t" by (simp add: upd_rec_def list_update_beyond)
  with assms(1) show ?thesis by simp
qed

section \<open>Unlinking\<close>

lemma unlink_out_fields:
  assumes "e < length (rt_edges t)" "oh_index (er_src (at_edge t e)) < length (rt_rec t)"
    and "er_prevOut (at_edge t e) = kNoEdge \<or> er_prevOut (at_edge t e) < length (rt_edges t)"
    and "er_nextOut (at_edge t e) = kNoEdge \<or> er_nextOut (at_edge t e) < length (rt_edges t)"
  defines "s \<equiv> oh_index (er_src (at_edge t e))" and "p \<equiv> er_prevOut (at_edge t e)" and "n \<equiv> er_nextOut (at_edge t e)"
  shows "at_edge (unlink_out e t) x = (at_edge t x)\<lparr>er_nextOut := (if p \<noteq> kNoEdge \<and> x = p then n else er_nextOut (at_edge t x)),
      er_prevOut := (if n \<noteq> kNoEdge \<and> x = n then p else er_prevOut (at_edge t x))\<rparr>"
    "rt_rec (unlink_out e t) ! j = (if j = s then (rt_rec t ! s)\<lparr>rr_outHead := (if p = kNoEdge then n else rr_outHead (rt_rec t ! s)),
      rr_outCount := u32_cast (rr_outCount (rt_rec t ! s) + (2 ^ 32 - 1))\<rparr> else rt_rec t ! j)"
  using assms(1-4) unfolding unlink_out_def Let_def s_def [symmetric] p_def [symmetric] n_def [symmetric]
  by (auto simp: at_upd_edge rec_upd_rec)

lemma unlink_in_fields:
  assumes "e < length (rt_edges t)" "oh_index (er_dst (at_edge t e)) < length (rt_rec t)"
    and "er_prevIn (at_edge t e) = kNoEdge \<or> er_prevIn (at_edge t e) < length (rt_edges t)"
    and "er_nextIn (at_edge t e) = kNoEdge \<or> er_nextIn (at_edge t e) < length (rt_edges t)"
  defines "s \<equiv> oh_index (er_dst (at_edge t e))" and "p \<equiv> er_prevIn (at_edge t e)" and "n \<equiv> er_nextIn (at_edge t e)"
  shows "at_edge (unlink_in e t) x = (at_edge t x)\<lparr>er_nextIn := (if p \<noteq> kNoEdge \<and> x = p then n else er_nextIn (at_edge t x)),
      er_prevIn := (if n \<noteq> kNoEdge \<and> x = n then p else er_prevIn (at_edge t x))\<rparr>"
    "rt_rec (unlink_in e t) ! j = (if j = s then (rt_rec t ! s)\<lparr>rr_inHead := (if p = kNoEdge then n else rr_inHead (rt_rec t ! s)),
      rr_inCount := u32_cast (rr_inCount (rt_rec t ! s) + (2 ^ 32 - 1))\<rparr> else rt_rec t ! j)"
  using assms(1-4) unfolding unlink_in_def Let_def s_def [symmetric] p_def [symmetric] n_def [symmetric]
  by (auto simp: at_upd_edge rec_upd_rec)

lemma unlink_frames [simp]:
  "rt_freeId (unlink_out e t) = rt_freeId t" "rt_nextId (unlink_out e t) = rt_nextId t" "rt_liveEdges (unlink_out e t) = rt_liveEdges t"
  "length (rt_edges (unlink_out e t)) = length (rt_edges t)" "length (rt_rec (unlink_out e t)) = length (rt_rec t)"
  "rt_freeId (unlink_in e t) = rt_freeId t" "rt_nextId (unlink_in e t) = rt_nextId t" "rt_liveEdges (unlink_in e t) = rt_liveEdges t"
  "length (rt_edges (unlink_in e t)) = length (rt_edges t)" "length (rt_rec (unlink_in e t)) = length (rt_rec t)"
  by (simp_all add: unlink_out_def unlink_in_def Let_def)

text \<open>Where the neighbours of a live record are.\<close>

lemma out_split:
  assumes "rt_inv t OL IL FL" and "e \<in> live_ids t"
  defines "s \<equiv> oh_index (er_src (at_edge t e))"
  obtains ys zs where "s < length (rt_rec t)" "OL s = ys @ e # zs" "distinct (ys @ e # zs)"
    "er_prevOut (at_edge t e) = (if ys = [] then kNoEdge else last ys)"
    "er_nextOut (at_edge t e) = (if zs = [] then kNoEdge else hd zs)"
    "rr_outHead (rt_rec t ! s) = (if ys = [] then e else hd ys)" "kNoEdge \<notin> set (ys @ e # zs)"
    "\<And>x. x \<in> set (ys @ e # zs) \<Longrightarrow> x < length (rt_edges t)"
proof -
  have a: "arena_ok t FL" "outs_ok t OL" using assms(1) by (simp_all add: rt_inv_def)
  from outs_okD(4) [OF a, of e s] assms(2) s_def have e: "e \<in> set (OL s)" by simp
  then obtain ys zs where l: "OL s = ys @ e # zs" by (meson split_list)
  have sn: "s < length (rt_rec t)" using e a(2) unfolding outs_ok_def by (metis empty_iff linorder_not_less list.set(1))
  have d: "distinct (ys @ e # zs)" using outs_okD(3) [OF a, of s] l by simp
  from outs_okD(1) [OF a sn] l have "out_dls t (rr_outHead (rt_rec t ! s)) (ys @ e # zs)" by simp
  note k = dls_links [OF this [unfolded out_dls_def]]
  have "x < length (rt_edges t)" if "x \<in> set (ys @ e # zs)" for x
    using that outs_okD(4) [OF a, of x s] l a(1) by (auto simp: live_ids_def arena_ok_def)
  with that [OF sn l d] k show thesis by auto
qed

lemma in_split:
  assumes "rt_inv t OL IL FL" and "e \<in> live_ids t"
  defines "s \<equiv> oh_index (er_dst (at_edge t e))"
  obtains ys zs where "s < length (rt_rec t)" "IL s = ys @ e # zs" "distinct (ys @ e # zs)"
    "er_prevIn (at_edge t e) = (if ys = [] then kNoEdge else last ys)"
    "er_nextIn (at_edge t e) = (if zs = [] then kNoEdge else hd zs)"
    "rr_inHead (rt_rec t ! s) = (if ys = [] then e else hd ys)" "kNoEdge \<notin> set (ys @ e # zs)"
    "\<And>x. x \<in> set (ys @ e # zs) \<Longrightarrow> x < length (rt_edges t)"
proof -
  have a: "arena_ok t FL" "ins_ok t IL" using assms(1) by (simp_all add: rt_inv_def)
  from ins_okD(4) [OF a, of e s] assms(2) s_def have e: "e \<in> set (IL s)" by simp
  then obtain ys zs where l: "IL s = ys @ e # zs" by (meson split_list)
  have sn: "s < length (rt_rec t)" using e a(2) unfolding ins_ok_def by (metis empty_iff linorder_not_less list.set(1))
  have d: "distinct (ys @ e # zs)" using ins_okD(3) [OF a, of s] l by simp
  from ins_okD(1) [OF a sn] l have "in_dls t (rr_inHead (rt_rec t ! s)) (ys @ e # zs)" by simp
  note k = dls_links [OF this [unfolded in_dls_def]]
  have "x < length (rt_edges t)" if "x \<in> set (ys @ e # zs)" for x
    using that ins_okD(4) [OF a, of x s] l a(1) by (auto simp: live_ids_def arena_ok_def)
  with that [OF sn l d] k show thesis by auto
qed

text \<open>Every field of the table after an unlink.\<close>

lemma unlink_fields:
  assumes "rt_inv t OL IL FL" and "e \<in> live_ids t"
  defines "s \<equiv> oh_index (er_src (at_edge t e))" and "d \<equiv> oh_index (er_dst (at_edge t e))"
    and "p \<equiv> er_prevOut (at_edge t e)" and "n \<equiv> er_nextOut (at_edge t e)"
    and "p' \<equiv> er_prevIn (at_edge t e)" and "n' \<equiv> er_nextIn (at_edge t e)"
  shows "at_edge (unlink e t) x = \<lparr>er_src = er_src (at_edge t x), er_dst = er_dst (at_edge t x),
      er_prevOut = (if n \<noteq> kNoEdge \<and> x = n then p else er_prevOut (at_edge t x)),
      er_nextOut = (if p \<noteq> kNoEdge \<and> x = p then n else er_nextOut (at_edge t x)),
      er_prevIn = (if n' \<noteq> kNoEdge \<and> x = n' then p' else er_prevIn (at_edge t x)),
      er_nextIn = (if p' \<noteq> kNoEdge \<and> x = p' then n' else er_nextIn (at_edge t x)),
      er_nextFree = (if x = e then rt_freeId t else er_nextFree (at_edge t x)),
      er_live = (er_live (at_edge t x) \<and> x \<noteq> e)\<rparr>"
    "rr_root (rt_rec (unlink e t) ! j) = rr_root (rt_rec t ! j)" "rr_edge (rt_rec (unlink e t) ! j) = rr_edge (rt_rec t ! j)"
    "rr_outHead (rt_rec (unlink e t) ! j) = (if j = s \<and> p = kNoEdge then n else rr_outHead (rt_rec t ! j))"
    "rr_outCount (rt_rec (unlink e t) ! j) = (if j = s then u32_cast (rr_outCount (rt_rec t ! j) + (2 ^ 32 - 1)) else rr_outCount (rt_rec t ! j))"
    "rr_inHead (rt_rec (unlink e t) ! j) = (if j = d \<and> p' = kNoEdge then n' else rr_inHead (rt_rec t ! j))"
    "rr_inCount (rt_rec (unlink e t) ! j) = (if j = d then u32_cast (rr_inCount (rt_rec t ! j) + (2 ^ 32 - 1)) else rr_inCount (rt_rec t ! j))"
    "rt_freeId (unlink e t) = e" "rt_nextId (unlink e t) = rt_nextId t" "rt_liveEdges (unlink e t) = rt_liveEdges t - 1"
    "length (rt_edges (unlink e t)) = length (rt_edges t)" "length (rt_rec (unlink e t)) = length (rt_rec t)"
proof -
  from assms(1,2) obtain ys zs where o: "s < length (rt_rec t)" "p = (if ys = [] then kNoEdge else last ys)"
    "n = (if zs = [] then kNoEdge else hd zs)" "\<And>x. x \<in> set (ys @ e # zs) \<Longrightarrow> x < length (rt_edges t)"
    unfolding s_def p_def n_def by (rule out_split) blast
  from assms(1,2) obtain ys' zs' where i: "d < length (rt_rec t)" "p' = (if ys' = [] then kNoEdge else last ys')"
    "n' = (if zs' = [] then kNoEdge else hd zs')" "\<And>x. x \<in> set (ys' @ e # zs') \<Longrightarrow> x < length (rt_edges t)"
    unfolding d_def p'_def n'_def by (rule in_split) blast
  have el: "e < length (rt_edges t)" using o(4) [of e] by simp
  have en: "e \<noteq> kNoEdge" "kNoEdge \<noteq> e" using assms(1,2) by (auto simp: rt_inv_def arena_ok_def live_ids_def)
  have rng: "p = kNoEdge \<or> p < length (rt_edges t)" "n = kNoEdge \<or> n < length (rt_edges t)"
    "p' = kNoEdge \<or> p' < length (rt_edges t)" "n' = kNoEdge \<or> n' < length (rt_edges t)"
    using o i by (auto simp: last_in_set hd_in_set)
  let ?t1 = "unlink_out e t"
  let ?t2 = "unlink_in e ?t1"
  note f1 = unlink_out_fields [OF el, folded s_def p_def n_def, OF o(1) rng(1,2)]
  have e1: "er_prevIn (at_edge ?t1 e) = p'" "er_nextIn (at_edge ?t1 e) = n'" "oh_index (er_dst (at_edge ?t1 e)) = d"
    by (simp_all add: f1(1) p'_def n'_def d_def)
  have f2: "at_edge ?t2 x = (at_edge ?t1 x)\<lparr>er_nextIn := (if p' \<noteq> kNoEdge \<and> x = p' then n' else er_nextIn (at_edge ?t1 x)),
      er_prevIn := (if n' \<noteq> kNoEdge \<and> x = n' then p' else er_prevIn (at_edge ?t1 x))\<rparr>"
    "rt_rec ?t2 ! j = (if j = d then (rt_rec ?t1 ! d)\<lparr>rr_inHead := (if p' = kNoEdge then n' else rr_inHead (rt_rec ?t1 ! d)),
      rr_inCount := u32_cast (rr_inCount (rt_rec ?t1 ! d) + (2 ^ 32 - 1))\<rparr> else rt_rec ?t1 ! j)" for x j
    using unlink_in_fields [of e ?t1] el i(1) rng(3,4) unfolding e1 by simp_all
  have u: "unlink e t = pushFree e ((upd_edge e (\<lambda>r. r\<lparr>er_live := False\<rparr>) ?t2)\<lparr>rt_liveEdges := rt_liveEdges ?t2 - 1\<rparr>)"
    using assms(2) by (simp add: unlink_def live_ids_def Let_def)
  have e2: "e < length (rt_edges ?t2)" using el by simp
  show "at_edge (unlink e t) x = \<lparr>er_src = er_src (at_edge t x), er_dst = er_dst (at_edge t x),
      er_prevOut = (if n \<noteq> kNoEdge \<and> x = n then p else er_prevOut (at_edge t x)),
      er_nextOut = (if p \<noteq> kNoEdge \<and> x = p then n else er_nextOut (at_edge t x)),
      er_prevIn = (if n' \<noteq> kNoEdge \<and> x = n' then p' else er_prevIn (at_edge t x)),
      er_nextIn = (if p' \<noteq> kNoEdge \<and> x = p' then n' else er_nextIn (at_edge t x)),
      er_nextFree = (if x = e then rt_freeId t else er_nextFree (at_edge t x)),
      er_live = (er_live (at_edge t x) \<and> x \<noteq> e)\<rparr>"
    (is "_ = ?r")
  proof -
    have "at_edge (unlink e t) x = (if x = e then (at_edge ?t2 e)\<lparr>er_live := False, er_nextFree := rt_freeId t\<rparr> else at_edge ?t2 x)"
      unfolding u pushFree_def Let_def using e2 by (simp add: upd_edge_def)
    also have "\<dots> = ?r"
      using en by (cases "x = e"; intro edge_rec.equality) (simp_all add: f2(1) f1(1))
    finally show ?thesis .
  qed
  show "rr_root (rt_rec (unlink e t) ! j) = rr_root (rt_rec t ! j)" "rr_edge (rt_rec (unlink e t) ! j) = rr_edge (rt_rec t ! j)"
    "rr_outHead (rt_rec (unlink e t) ! j) = (if j = s \<and> p = kNoEdge then n else rr_outHead (rt_rec t ! j))"
    "rr_outCount (rt_rec (unlink e t) ! j) = (if j = s then u32_cast (rr_outCount (rt_rec t ! j) + (2 ^ 32 - 1)) else rr_outCount (rt_rec t ! j))"
    "rr_inHead (rt_rec (unlink e t) ! j) = (if j = d \<and> p' = kNoEdge then n' else rr_inHead (rt_rec t ! j))"
    "rr_inCount (rt_rec (unlink e t) ! j) = (if j = d then u32_cast (rr_inCount (rt_rec t ! j) + (2 ^ 32 - 1)) else rr_inCount (rt_rec t ! j))"
    unfolding u pushFree_def Let_def by (simp_all add: f2(2) f1(2))
  show "rt_freeId (unlink e t) = e" "rt_nextId (unlink e t) = rt_nextId t" "rt_liveEdges (unlink e t) = rt_liveEdges t - 1"
    "length (rt_edges (unlink e t)) = length (rt_edges t)" "length (rt_rec (unlink e t)) = length (rt_rec t)"
    unfolding u pushFree_def Let_def by simp_all
qed

lemma dec_count: "0 < c \<Longrightarrow> c < 4294967296 \<Longrightarrow> u32_cast (c + (2 ^ 32 - 1)) = c - 1"
  by (cases c) (simp_all add: u32_cast_def)

lemma unlink_inv:
  assumes inv: "rt_inv t OL IL FL" and e: "e \<in> live_ids t"
  defines "s \<equiv> oh_index (er_src (at_edge t e))" and "d \<equiv> oh_index (er_dst (at_edge t e))"
  shows "rt_inv (unlink e t) (OL(s := removeAll e (OL s))) (IL(d := removeAll e (IL d))) (e # FL)"
proof -
  let ?t = "unlink e t"
  have a: "arena_ok t FL" "outs_ok t OL" "ins_ok t IL" using inv by (simp_all add: rt_inv_def)
  have len: "rt_nextId t \<le> length (rt_edges t)" "rt_nextId t < 4294967296"
    using a(1) by (simp_all add: arena_ok_def kNoEdge_def)
  note f = unlink_fields [OF inv e, folded s_def d_def]
  have live: "live_ids ?t = live_ids t - {e}" by (auto simp: live_ids_def f(1,9))
  have kept: "er_src (at_edge ?t x) = er_src (at_edge t x)" "er_dst (at_edge ?t x) = er_dst (at_edge t x)" for x by (simp_all add: f(1))
  have arena: "arena_ok ?t (e # FL)"
  proof -
    have ne: "e \<noteq> kNoEdge" "e < rt_nextId t" "er_live (at_edge t e)" using e a(1) by (auto simp: live_ids_def arena_ok_def)
    have "e \<notin> set FL" using a(1) ne by (simp add: arena_ok_def)
    then have "free_chain ?t (rt_freeId t) FL = free_chain t (rt_freeId t) FL"
      by (intro free_chain_cong) (auto simp: f(1))
    then have "free_chain ?t e (e # FL)" using a(1) ne by (simp add: f(1) arena_ok_def)
    moreover have "set (e # FL) = {x. x < rt_nextId ?t \<and> \<not> er_live (at_edge ?t x)}"
      using a(1) ne by (auto simp: f(1,9) arena_ok_def)
    moreover have "card (live_ids ?t) = card (live_ids t) - 1" using e by (simp add: live)
    ultimately show ?thesis using a(1) \<open>e \<notin> set FL\<close> by (simp add: arena_ok_def f(8-11))
  qed
  have outs: "outs_ok ?t (OL(s := removeAll e (OL s)))"
  proof -
    from inv e obtain ys zs where o: "s < length (rt_rec t)" "OL s = ys @ e # zs" "distinct (ys @ e # zs)"
      "er_prevOut (at_edge t e) = (if ys = [] then kNoEdge else last ys)"
      "er_nextOut (at_edge t e) = (if zs = [] then kNoEdge else hd zs)" "kNoEdge \<notin> set (ys @ e # zs)"
      unfolding s_def by (rule out_split) blast
    have rem: "removeAll e (OL s) = ys @ zs" using o(2,3) by (auto simp: removeAll_id)
    have "out_dls t (rr_outHead (rt_rec t ! s)) (ys @ e # zs)" using outs_okD(1) [OF a(1,2) o(1)] o(2) by simp
    then have "dls (\<lambda>x. er_prevOut (at_edge t x)) (\<lambda>x. er_nextOut (at_edge t x)) kNoEdge (rr_outHead (rt_rec t ! s)) (ys @ e # zs)"
      by (simp add: out_dls_def)
    have ends: "ys \<noteq> [] \<Longrightarrow> last ys \<noteq> kNoEdge" "zs \<noteq> [] \<Longrightarrow> hd zs \<noteq> kNoEdge"
      using o(6) by (metis Un_iff hd_in_set last_in_set list.set_intros(2) set_append)+
    have lnk: "\<forall>y \<in> set (ys @ zs). er_nextOut (at_edge ?t y) = (if ys \<noteq> [] \<and> y = last ys then er_nextOut (at_edge t e) else er_nextOut (at_edge t y))"
      "\<forall>y \<in> set (ys @ zs). er_prevOut (at_edge ?t y) = (if zs \<noteq> [] \<and> y = hd zs then er_prevOut (at_edge t e) else er_prevOut (at_edge t y))"
      using ends o(4,5) by (simp_all add: f(1))
    from dls_unlink [OF \<open>dls _ _ _ _ _\<close> o(3) lnk]
    have "out_dls ?t (if ys = [] then er_nextOut (at_edge t e) else rr_outHead (rt_rec t ! s)) (ys @ zs)"
      by (simp only: out_dls_def)
    moreover have "rr_outHead (rt_rec ?t ! s) = (if ys = [] then er_nextOut (at_edge t e) else rr_outHead (rt_rec t ! s))"
      using o(4) ends(1) by (auto simp: f(4))
    moreover have "rr_outCount (rt_rec ?t ! s) = length (ys @ zs)"
    proof -
      have "rr_outCount (rt_rec t ! s) = Suc (length (ys @ zs))" "length (OL s) \<le> rt_nextId t"
        using outs_okD(2) [OF a(1,2) o(1)] outs_okD(5) [OF a(1,2), of s] o(2) by simp_all
      then show ?thesis using dec_count [of "rr_outCount (rt_rec t ! s)"] len(2) o(2) unfolding f(5) by simp
    qed
    ultimately have row: "out_dls ?t (rr_outHead (rt_rec ?t ! s)) (removeAll e (OL s)) \<and> rr_outCount (rt_rec ?t ! s) = length (removeAll e (OL s))"
      unfolding rem by simp
    have other: "out_dls ?t (rr_outHead (rt_rec ?t ! i)) (OL i) \<and> rr_outCount (rt_rec ?t ! i) = length (OL i)"
      if "i < length (rt_rec t)" "i \<noteq> s" for i
    proof -
      have "er_prevOut (at_edge ?t x) = er_prevOut (at_edge t x) \<and> er_nextOut (at_edge ?t x) = er_nextOut (at_edge t x)"
        if x: "x \<in> set (OL i)" for x
      proof -
        have "x \<notin> set (OL s)" using x outs_okD(4) [OF a(1,2), of x] \<open>i \<noteq> s\<close> by auto
        then have "x \<noteq> er_prevOut (at_edge t e) \<or> er_prevOut (at_edge t e) = kNoEdge" "x \<noteq> er_nextOut (at_edge t e) \<or> er_nextOut (at_edge t e) = kNoEdge"
          using o(2,4,5) by (auto simp: hd_in_set last_in_set)
        then show ?thesis by (auto simp: f(1))
      qed
      then have "out_dls ?t (rr_outHead (rt_rec t ! i)) (OL i) = out_dls t (rr_outHead (rt_rec t ! i)) (OL i)"
        unfolding out_dls_def by (intro dls_cong) auto
      then show ?thesis using outs_okD(1,2) [OF a(1,2) that(1)] that(2) by (simp add: f(4,5))
    qed
    have "distinct (OL i) \<and> set (OL i) = {x \<in> live_ids t. oh_index (er_src (at_edge t x)) = i}" for i
      using a(2) by (simp add: outs_ok_def)
    then have sets: "distinct ((OL(s := removeAll e (OL s))) i) \<and>
        set ((OL(s := removeAll e (OL s))) i) = {x \<in> live_ids ?t. oh_index (er_src (at_edge ?t x)) = i}" for i
      using s_def by (auto simp: live kept distinct_removeAll)
    show ?thesis unfolding outs_ok_def f(12)
      using row other sets a(2) o(1) by (auto simp: outs_ok_def)
  qed
  have ins: "ins_ok ?t (IL(d := removeAll e (IL d)))"
  proof -
    from inv e obtain ys zs where o: "d < length (rt_rec t)" "IL d = ys @ e # zs" "distinct (ys @ e # zs)"
      "er_prevIn (at_edge t e) = (if ys = [] then kNoEdge else last ys)"
      "er_nextIn (at_edge t e) = (if zs = [] then kNoEdge else hd zs)" "kNoEdge \<notin> set (ys @ e # zs)"
      unfolding d_def by (rule in_split) blast
    have rem: "removeAll e (IL d) = ys @ zs" using o(2,3) by (auto simp: removeAll_id)
    have "in_dls t (rr_inHead (rt_rec t ! d)) (ys @ e # zs)" using ins_okD(1) [OF a(1,3) o(1)] o(2) by simp
    then have "dls (\<lambda>x. er_prevIn (at_edge t x)) (\<lambda>x. er_nextIn (at_edge t x)) kNoEdge (rr_inHead (rt_rec t ! d)) (ys @ e # zs)"
      by (simp add: in_dls_def)
    have ends: "ys \<noteq> [] \<Longrightarrow> last ys \<noteq> kNoEdge" "zs \<noteq> [] \<Longrightarrow> hd zs \<noteq> kNoEdge"
      using o(6) by (metis Un_iff hd_in_set last_in_set list.set_intros(2) set_append)+
    have lnk: "\<forall>y \<in> set (ys @ zs). er_nextIn (at_edge ?t y) = (if ys \<noteq> [] \<and> y = last ys then er_nextIn (at_edge t e) else er_nextIn (at_edge t y))"
      "\<forall>y \<in> set (ys @ zs). er_prevIn (at_edge ?t y) = (if zs \<noteq> [] \<and> y = hd zs then er_prevIn (at_edge t e) else er_prevIn (at_edge t y))"
      using ends o(4,5) by (simp_all add: f(1))
    from dls_unlink [OF \<open>dls _ _ _ _ _\<close> o(3) lnk]
    have "in_dls ?t (if ys = [] then er_nextIn (at_edge t e) else rr_inHead (rt_rec t ! d)) (ys @ zs)"
      by (simp only: in_dls_def)
    moreover have "rr_inHead (rt_rec ?t ! d) = (if ys = [] then er_nextIn (at_edge t e) else rr_inHead (rt_rec t ! d))"
      using o(4) ends(1) by (auto simp: f(6))
    moreover have "rr_inCount (rt_rec ?t ! d) = length (ys @ zs)"
    proof -
      have "rr_inCount (rt_rec t ! d) = Suc (length (ys @ zs))" "length (IL d) \<le> rt_nextId t"
        using ins_okD(2) [OF a(1,3) o(1)] ins_okD(5) [OF a(1,3), of d] o(2) by simp_all
      then show ?thesis using dec_count [of "rr_inCount (rt_rec t ! d)"] len(2) o(2) unfolding f(7) by simp
    qed
    ultimately have row: "in_dls ?t (rr_inHead (rt_rec ?t ! d)) (removeAll e (IL d)) \<and> rr_inCount (rt_rec ?t ! d) = length (removeAll e (IL d))"
      unfolding rem by simp
    have other: "in_dls ?t (rr_inHead (rt_rec ?t ! i)) (IL i) \<and> rr_inCount (rt_rec ?t ! i) = length (IL i)"
      if "i < length (rt_rec t)" "i \<noteq> d" for i
    proof -
      have "er_prevIn (at_edge ?t x) = er_prevIn (at_edge t x) \<and> er_nextIn (at_edge ?t x) = er_nextIn (at_edge t x)"
        if x: "x \<in> set (IL i)" for x
      proof -
        have "x \<notin> set (IL d)" using x ins_okD(4) [OF a(1,3), of x] \<open>i \<noteq> d\<close> by auto
        then have "x \<noteq> er_prevIn (at_edge t e) \<or> er_prevIn (at_edge t e) = kNoEdge" "x \<noteq> er_nextIn (at_edge t e) \<or> er_nextIn (at_edge t e) = kNoEdge"
          using o(2,4,5) by (auto simp: hd_in_set last_in_set)
        then show ?thesis by (auto simp: f(1))
      qed
      then have "in_dls ?t (rr_inHead (rt_rec t ! i)) (IL i) = in_dls t (rr_inHead (rt_rec t ! i)) (IL i)"
        unfolding in_dls_def by (intro dls_cong) auto
      then show ?thesis using ins_okD(1,2) [OF a(1,3) that(1)] that(2) by (simp add: f(6,7))
    qed
    have "distinct (IL i) \<and> set (IL i) = {x \<in> live_ids t. oh_index (er_dst (at_edge t x)) = i}" for i
      using a(3) by (simp add: ins_ok_def)
    then have sets: "distinct ((IL(d := removeAll e (IL d))) i) \<and>
        set ((IL(d := removeAll e (IL d))) i) = {x \<in> live_ids ?t. oh_index (er_dst (at_edge ?t x)) = i}" for i
      using d_def by (auto simp: live kept distinct_removeAll)
    show ?thesis unfolding ins_ok_def f(12)
      using row other sets a(3) o(1) by (auto simp: ins_ok_def)
  qed
  from arena outs ins show ?thesis by (simp add: rt_inv_def)
qed

section \<open>Linking a new record\<close>

lemma allocateEdge_fields:
  assumes "rt_inv t OL IL FL" and "allocateEdge t = Some (e, t')"
  shows "e \<notin> live_ids t" "e \<noteq> kNoEdge" "e < rt_nextId t'" "rt_nextId t' \<le> length (rt_edges t')" "rt_nextId t' \<le> kNoEdge"
    "rt_nextId t \<le> rt_nextId t'" "rt_rec t' = rt_rec t" "rt_liveEdges t' = rt_liveEdges t + 1"
    "at_edge t' e = empty_edge" "x < rt_nextId t \<Longrightarrow> x \<noteq> e \<Longrightarrow> at_edge t' x = at_edge t x"
    "{x. x < rt_nextId t'} = insert e {x. x < rt_nextId t}"
    "\<exists>FL'. free_chain t' (rt_freeId t') FL' \<and> distinct FL' \<and> set FL' = {x. x < rt_nextId t \<and> \<not> er_live (at_edge t x)} - {e}"
proof -
  have a: "rt_nextId t \<le> length (rt_edges t)" "rt_nextId t \<le> kNoEdge" "free_chain t (rt_freeId t) FL" "distinct FL"
    "set FL = {x. x < rt_nextId t \<and> \<not> er_live (at_edge t x)}"
    using assms(1) by (simp_all add: rt_inv_def arena_ok_def)
  have head: "rt_freeId t = (if FL = [] then kNoEdge else hd FL)" using free_chain_head [OF a(3)] by simp
  have "e \<notin> live_ids t \<and> e \<noteq> kNoEdge \<and> e < rt_nextId t' \<and> rt_nextId t' \<le> length (rt_edges t') \<and> rt_nextId t' \<le> kNoEdge
    \<and> rt_nextId t \<le> rt_nextId t' \<and> rt_rec t' = rt_rec t \<and> rt_liveEdges t' = rt_liveEdges t + 1 \<and> at_edge t' e = empty_edge
    \<and> (\<forall>x. x < rt_nextId t \<longrightarrow> x \<noteq> e \<longrightarrow> at_edge t' x = at_edge t x) \<and> {x. x < rt_nextId t'} = insert e {x. x < rt_nextId t}
    \<and> (\<exists>FL'. free_chain t' (rt_freeId t') FL' \<and> distinct FL' \<and> set FL' = {x. x < rt_nextId t \<and> \<not> er_live (at_edge t x)} - {e})"
  proof (cases FL)
    case Nil
    then have ne: "rt_freeId t = kNoEdge" using head by simp
    from assms(2) ne have n: "rt_nextId t \<noteq> kNoEdge" by (auto simp: allocateEdge_def popFree_def split: if_splits)
    have c: "u32_cast (rt_nextId t + 1) = rt_nextId t + 1" using n a(2) by (intro u32_cast_id) (simp add: kNoEdge_def)
    from assms(2) ne n obtain es where es: "ensureBlock (rt_nextId t) (rt_edges t) = Some es"
      by (auto simp: allocateEdge_def popFree_def split: option.splits)
    with assms(2) ne n c have e: "e = rt_nextId t"
      and t': "t' = t\<lparr>rt_nextId := rt_nextId t + 1, rt_edges := es[rt_nextId t := empty_edge], rt_liveEdges := rt_liveEdges t + 1\<rparr>"
      by (auto simp: allocateEdge_def popFree_def upd_edge_def)
    from es obtain k where k: "es = rt_edges t @ replicate k empty_edge" "rt_nextId t < length es"
    proof -
      assume *: "\<And>k. es = rt_edges t @ replicate k empty_edge \<Longrightarrow> rt_nextId t < length es \<Longrightarrow> thesis"
      have "rt_nextId t < (rt_nextId t div kBlockSize + 1) * kBlockSize"
        by (simp add: kBlockSize_def dividend_less_div_times add.commute)
      with es show thesis by (intro * [of "(rt_nextId t div kBlockSize + 1) * kBlockSize - length (rt_edges t)"]) (auto simp: ensureBlock_def split: if_splits)
    qed
    have "{x. x < rt_nextId t \<and> \<not> er_live (at_edge t x)} = {}" using a(5) Nil by simp
    then show ?thesis unfolding e t' using n k a(1,2) ne
      by (auto simp: live_ids_def nth_append less_Suc_eq intro!: exI [of _ "[]"])
  next
    case (Cons f FL')
    then have fe: "rt_freeId t = f" "f \<noteq> kNoEdge" "f < rt_nextId t" "\<not> er_live (at_edge t f)" using head free_chain_head [OF a(3)] a(5) by auto
    with assms(2) have e: "e = f"
      and t': "t' = t\<lparr>rt_freeId := er_nextFree (at_edge t f), rt_freeTag := u32_cast (rt_freeTag t + 1),
          rt_edges := (rt_edges t)[f := empty_edge], rt_liveEdges := rt_liveEdges t + 1\<rparr>"
      by (auto simp: allocateEdge_def popFree_def upd_edge_def)
    have "free_chain t' (er_nextFree (at_edge t f)) FL' = free_chain t (er_nextFree (at_edge t f)) FL'"
    proof (rule free_chain_cong)
      fix x assume "x \<in> set FL'"
      then have "f \<noteq> x" using a(4) Cons by auto
      then show "er_nextFree (at_edge t' x) = er_nextFree (at_edge t x)" by (simp add: t')
    qed
    then have "free_chain t' (rt_freeId t') FL'" using a(3) Cons by (simp add: t')
    moreover have "distinct FL'" "set FL' = {x. x < rt_nextId t \<and> \<not> er_live (at_edge t x)} - {e}"
      using a(4,5) Cons e by auto
    ultimately have "\<exists>FL'. free_chain t' (rt_freeId t') FL' \<and> distinct FL' \<and> set FL' = {x. x < rt_nextId t \<and> \<not> er_live (at_edge t x)} - {e}" by blast
    then show ?thesis using fe a(1,2) by (auto simp: e t' live_ids_def)
  qed
  then show "e \<notin> live_ids t" "e \<noteq> kNoEdge" "e < rt_nextId t'" "rt_nextId t' \<le> length (rt_edges t')" "rt_nextId t' \<le> kNoEdge"
    "rt_nextId t \<le> rt_nextId t'" "rt_rec t' = rt_rec t" "rt_liveEdges t' = rt_liveEdges t + 1"
    "at_edge t' e = empty_edge" "x < rt_nextId t \<Longrightarrow> x \<noteq> e \<Longrightarrow> at_edge t' x = at_edge t x"
    "{x. x < rt_nextId t'} = insert e {x. x < rt_nextId t}"
    "\<exists>FL'. free_chain t' (rt_freeId t') FL' \<and> distinct FL' \<and> set FL' = {x. x < rt_nextId t \<and> \<not> er_live (at_edge t x)} - {e}"
    by blast+
qed

lemma link_fields:
  assumes "e < length (rt_edges t)" "s < length (rt_rec t)" "h = rr_outHead (rt_rec t ! s)" "h = kNoEdge \<or> h < length (rt_edges t)" "h \<noteq> e"
    and "d < length (rt_rec t)" "k = rr_inHead (rt_rec t ! d)" "k = kNoEdge \<or> k < length (rt_edges t)" "k \<noteq> e"
  defines "t' \<equiv> link_in e d (link_out e s t)"
  shows "at_edge t' x = (at_edge t x)\<lparr>er_nextOut := (if x = e then h else er_nextOut (at_edge t x)),
      er_prevOut := (if h \<noteq> kNoEdge \<and> x = h then e else er_prevOut (at_edge t x)),
      er_nextIn := (if x = e then k else er_nextIn (at_edge t x)),
      er_prevIn := (if k \<noteq> kNoEdge \<and> x = k then e else er_prevIn (at_edge t x))\<rparr>"
    "rr_root (rt_rec t' ! j) = rr_root (rt_rec t ! j)" "rr_edge (rt_rec t' ! j) = rr_edge (rt_rec t ! j)"
    "rr_outHead (rt_rec t' ! j) = (if j = s then e else rr_outHead (rt_rec t ! j))"
    "rr_outCount (rt_rec t' ! j) = (if j = s then u32_cast (rr_outCount (rt_rec t ! j) + 1) else rr_outCount (rt_rec t ! j))"
    "rr_inHead (rt_rec t' ! j) = (if j = d then e else rr_inHead (rt_rec t ! j))"
    "rr_inCount (rt_rec t' ! j) = (if j = d then u32_cast (rr_inCount (rt_rec t ! j) + 1) else rr_inCount (rt_rec t ! j))"
    "rt_freeId t' = rt_freeId t" "rt_nextId t' = rt_nextId t" "rt_liveEdges t' = rt_liveEdges t"
    "length (rt_edges t') = length (rt_edges t)" "length (rt_rec t') = length (rt_rec t)"
proof -
  let ?t1 = "link_out e s t"
  have f1: "at_edge ?t1 x = (at_edge t x)\<lparr>er_nextOut := (if x = e then h else er_nextOut (at_edge t x)),
      er_prevOut := (if h \<noteq> kNoEdge \<and> x = h then e else er_prevOut (at_edge t x))\<rparr>" for x
    using assms(1,3-5) by (auto simp: link_out_def Let_def at_upd_edge)
  have r1: "rt_rec ?t1 ! j = (if j = s then (rt_rec t ! s)\<lparr>rr_outHead := e, rr_outCount := u32_cast (rr_outCount (rt_rec t ! s) + 1)\<rparr> else rt_rec t ! j)"
    "length (rt_edges ?t1) = length (rt_edges t)" "length (rt_rec ?t1) = length (rt_rec t)" for j
    using assms(2) by (simp_all add: link_out_def Let_def rec_upd_rec)
  have k: "rr_inHead (rt_rec ?t1 ! d) = k" using assms(7) by (simp add: r1)
  have f2: "at_edge t' x = (at_edge ?t1 x)\<lparr>er_nextIn := (if x = e then k else er_nextIn (at_edge ?t1 x)),
      er_prevIn := (if k \<noteq> kNoEdge \<and> x = k then e else er_prevIn (at_edge ?t1 x))\<rparr>" for x
    using assms(1,8,9) r1(2) k unfolding t'_def link_in_def by (auto simp: Let_def at_upd_edge)
  show "at_edge t' x = (at_edge t x)\<lparr>er_nextOut := (if x = e then h else er_nextOut (at_edge t x)),
      er_prevOut := (if h \<noteq> kNoEdge \<and> x = h then e else er_prevOut (at_edge t x)),
      er_nextIn := (if x = e then k else er_nextIn (at_edge t x)),
      er_prevIn := (if k \<noteq> kNoEdge \<and> x = k then e else er_prevIn (at_edge t x))\<rparr>"
    by (rule edge_rec.equality) (simp_all add: f2 f1)
  have r2: "rt_rec t' ! j = (if j = d then (rt_rec ?t1 ! d)\<lparr>rr_inHead := e, rr_inCount := u32_cast (rr_inCount (rt_rec ?t1 ! d) + 1)\<rparr> else rt_rec ?t1 ! j)" for j
    unfolding t'_def link_in_def Let_def using assms(6) r1(3) by (subst rec_upd_rec) simp_all
  show "rr_root (rt_rec t' ! j) = rr_root (rt_rec t ! j)" "rr_edge (rt_rec t' ! j) = rr_edge (rt_rec t ! j)"
    "rr_outHead (rt_rec t' ! j) = (if j = s then e else rr_outHead (rt_rec t ! j))"
    "rr_outCount (rt_rec t' ! j) = (if j = s then u32_cast (rr_outCount (rt_rec t ! j) + 1) else rr_outCount (rt_rec t ! j))"
    "rr_inHead (rt_rec t' ! j) = (if j = d then e else rr_inHead (rt_rec t ! j))"
    "rr_inCount (rt_rec t' ! j) = (if j = d then u32_cast (rr_inCount (rt_rec t ! j) + 1) else rr_inCount (rt_rec t ! j))"
    by (simp_all add: r2 r1(1))
  show "rt_freeId t' = rt_freeId t" "rt_nextId t' = rt_nextId t" "rt_liveEdges t' = rt_liveEdges t"
    "length (rt_edges t') = length (rt_edges t)" "length (rt_rec t') = length (rt_rec t)"
    unfolding t'_def by (simp_all add: link_in_def link_out_def Let_def)
qed

lemma addOut_inv:
  assumes inv: "rt_inv t OL IL FL" and add: "addOut src dst t = Some t'"
    and sn: "oh_index src < length (rt_rec t)" and dn: "oh_index dst < length (rt_rec t)"
  shows "\<exists>e FL'. rt_inv t' (OL(oh_index src := e # OL (oh_index src))) (IL(oh_index dst := e # IL (oh_index dst))) FL'
    \<and> e \<notin> live_ids t \<and> er_src (at_edge t' e) = src \<and> er_dst (at_edge t' e) = dst
    \<and> (\<forall>x \<in> live_ids t. er_src (at_edge t' x) = er_src (at_edge t x) \<and> er_dst (at_edge t' x) = er_dst (at_edge t x))
    \<and> (\<forall>i. rt_root t' i = rt_root t i \<and> rt_edge t' i = rt_edge t i) \<and> length (rt_rec t') = length (rt_rec t)"
proof -
  let ?s = "oh_index src" and ?d = "oh_index dst"
  have a: "arena_ok t FL" "outs_ok t OL" "ins_ok t IL" using inv by (simp_all add: rt_inv_def)
  from add obtain e t1 where al: "allocateEdge t = Some (e, t1)"
    and t': "t' = link_in e ?d (link_out e ?s (upd_edge e (\<lambda>e. e\<lparr>er_src := src, er_dst := dst, er_live := True\<rparr>) t1))"
    by (auto simp: addOut_def split: option.splits)
  note g = allocateEdge_fields [OF inv al]
  let ?t2 = "upd_edge e (\<lambda>e. e\<lparr>er_src := src, er_dst := dst, er_live := True\<rparr>) t1"
  let ?h = "rr_outHead (rt_rec t ! ?s)" and ?k = "rr_inHead (rt_rec t ! ?d)"
  have el: "e < length (rt_edges t1)" using g(3,4) by simp
  have at2: "at_edge ?t2 x = (if x = e then empty_edge\<lparr>er_src := src, er_dst := dst, er_live := True\<rparr> else at_edge t1 x)" for x
    using at_upd_edge [OF el] g(9) by simp
  have OLlive: "x \<in> live_ids t" if "x \<in> set (OL i)" for x i using that outs_okD(4) [OF a(1,2)] by blast
  have ILlive: "x \<in> live_ids t" if "x \<in> set (IL i)" for x i using that ins_okD(4) [OF a(1,3)] by blast
  have liveD: "x \<noteq> e" "x < rt_nextId t" "x < length (rt_edges t1)" if "x \<in> live_ids t" for x
    using that g(1,4,6) by (auto simp: live_ids_def)
  have h: "?h = (if OL ?s = [] then kNoEdge else hd (OL ?s))" "kNoEdge \<notin> set (OL ?s)"
    using dls_head [OF outs_okD(1) [OF a(1,2) sn, unfolded out_dls_def]] by auto
  have k: "?k = (if IL ?d = [] then kNoEdge else hd (IL ?d))" "kNoEdge \<notin> set (IL ?d)"
    using dls_head [OF ins_okD(1) [OF a(1,3) dn, unfolded in_dls_def]] by auto
  have hh: "?h = kNoEdge \<or> ?h \<in> set (OL ?s)" "?k = kNoEdge \<or> ?k \<in> set (IL ?d)" using h k by auto
  have hl: "?h = kNoEdge \<or> ?h \<in> live_ids t" "?k = kNoEdge \<or> ?k \<in> live_ids t" using hh OLlive ILlive by blast+
  have rng: "?h = kNoEdge \<or> ?h < length (rt_edges ?t2)" "?h \<noteq> e" "?k = kNoEdge \<or> ?k < length (rt_edges ?t2)" "?k \<noteq> e"
  proof -
    show "?h \<noteq> e" using hl(1) liveD(1) [of ?h] g(2) by auto
    show "?k \<noteq> e" using hl(2) liveD(1) [of ?k] g(2) by auto
    show "?h = kNoEdge \<or> ?h < length (rt_edges ?t2)" using hl(1) liveD(3) [of ?h] by auto
    show "?k = kNoEdge \<or> ?k < length (rt_edges ?t2)" using hl(2) liveD(3) [of ?k] by auto
  qed
  have f: "at_edge t' x = (at_edge ?t2 x)\<lparr>er_nextOut := (if x = e then ?h else er_nextOut (at_edge ?t2 x)),
      er_prevOut := (if ?h \<noteq> kNoEdge \<and> x = ?h then e else er_prevOut (at_edge ?t2 x)),
      er_nextIn := (if x = e then ?k else er_nextIn (at_edge ?t2 x)),
      er_prevIn := (if ?k \<noteq> kNoEdge \<and> x = ?k then e else er_prevIn (at_edge ?t2 x))\<rparr>"
    "rr_root (rt_rec t' ! j) = rr_root (rt_rec t ! j)" "rr_edge (rt_rec t' ! j) = rr_edge (rt_rec t ! j)"
    "rr_outHead (rt_rec t' ! j) = (if j = ?s then e else rr_outHead (rt_rec t ! j))"
    "rr_outCount (rt_rec t' ! j) = (if j = ?s then u32_cast (rr_outCount (rt_rec t ! j) + 1) else rr_outCount (rt_rec t ! j))"
    "rr_inHead (rt_rec t' ! j) = (if j = ?d then e else rr_inHead (rt_rec t ! j))"
    "rr_inCount (rt_rec t' ! j) = (if j = ?d then u32_cast (rr_inCount (rt_rec t ! j) + 1) else rr_inCount (rt_rec t ! j))"
    "rt_freeId t' = rt_freeId t1" "rt_nextId t' = rt_nextId t1" "rt_liveEdges t' = rt_liveEdges t + 1"
    "length (rt_edges t') = length (rt_edges t1)" "length (rt_rec t') = length (rt_rec t)" for x j
    unfolding t' using link_fields [of e ?t2 ?s ?h ?d ?k] el sn dn rng g(7,8) by simp_all
  have old: "at_edge t' x = (at_edge t x)\<lparr>er_prevOut := (if ?h \<noteq> kNoEdge \<and> x = ?h then e else er_prevOut (at_edge t x)),
      er_prevIn := (if ?k \<noteq> kNoEdge \<and> x = ?k then e else er_prevIn (at_edge t x))\<rparr>" if "x < rt_nextId t" "x \<noteq> e" for x
    using that g(10) [OF that] by (intro edge_rec.equality) (simp_all add: f(1) at2)
  have new: "er_src (at_edge t' e) = src" "er_dst (at_edge t' e) = dst" "er_live (at_edge t' e)"
    "er_nextOut (at_edge t' e) = ?h" "er_prevOut (at_edge t' e) = kNoEdge" "er_nextIn (at_edge t' e) = ?k" "er_prevIn (at_edge t' e) = kNoEdge"
    using rng(2,4) by (auto simp: f(1) at2 empty_edge_def)
  have "x \<in> live_ids t' \<longleftrightarrow> x = e \<or> x \<in> live_ids t" for x
  proof (cases "x = e")
    case True
    then show ?thesis using new(3) g(3) by (simp add: live_ids_def f(9))
  next
    case False
    then have "x < rt_nextId t' \<longleftrightarrow> x < rt_nextId t" using g(11) f(9) by auto
    with False old show ?thesis by (auto simp: live_ids_def)
  qed
  then have live: "live_ids t' = insert e (live_ids t)" by blast
  have keep: "er_src (at_edge t' x) = er_src (at_edge t x) \<and> er_dst (at_edge t' x) = er_dst (at_edge t x)" if "x \<in> live_ids t" for x
    using old liveD that by simp
  from g(12) obtain FL' where FL': "free_chain t1 (rt_freeId t1) FL'" "distinct FL'"
    "set FL' = {x. x < rt_nextId t \<and> \<not> er_live (at_edge t x)} - {e}" by blast
  have arena: "arena_ok t' FL'"
  proof -
    have "free_chain t' (rt_freeId t1) FL' = free_chain t1 (rt_freeId t1) FL'"
    proof (rule free_chain_cong)
      fix x assume "x \<in> set FL'"
      then have x: "x < rt_nextId t" "x \<noteq> e" using FL'(3) by auto
      show "er_nextFree (at_edge t' x) = er_nextFree (at_edge t1 x)" using old [OF x] g(10) [OF x] by simp
    qed
    moreover have "set FL' = {x. x < rt_nextId t' \<and> \<not> er_live (at_edge t' x)}"
    proof -
      have "x < rt_nextId t' \<and> \<not> er_live (at_edge t' x) \<longleftrightarrow> x < rt_nextId t \<and> \<not> er_live (at_edge t x) \<and> x \<noteq> e" for x
      proof (cases "x = e")
        case False
        then have "x < rt_nextId t' \<longleftrightarrow> x < rt_nextId t" using g(11) f(9) by auto
        with False old [of x] show ?thesis by auto
      qed (use new(3) in simp)
      then show ?thesis using FL'(3) by blast
    qed
    moreover have "rt_liveEdges t = card (live_ids t)" using a(1) by (simp add: arena_ok_def)
    then have "rt_liveEdges t' = card (live_ids t')" using g(1) by (simp add: live f(10))
    ultimately show ?thesis unfolding arena_ok_def f(8) f(11)
      using FL'(1,2) g(4,5) by (intro conjI) (simp_all only: f(9))
  qed
  have cnt: "u32_cast (c + 1) = c + 1" if "c \<le> rt_nextId t" "e \<notin> S" "S \<subseteq> {x. x < rt_nextId t}" "c = card S" for c S
  proof -
    have "insert e S \<subseteq> {x. x < rt_nextId t'}" using that g(11) f(9) by auto
    then have "card (insert e S) \<le> rt_nextId t'" using card_mono [of "{x. x < rt_nextId t'}"] by fastforce
    moreover have "finite S" using that(3) finite_subset by blast
    ultimately have "c + 1 \<le> rt_nextId t1" using that f(9) by simp
    then show ?thesis using g(5) by (intro u32_cast_id) (simp add: kNoEdge_def)
  qed
  have outs: "outs_ok t' (OL(?s := e # OL ?s))"
  proof -
    have e: "e \<notin> set (OL i)" for i using OLlive g(1) by blast
    have row: "out_dls t' e (e # OL ?s)" unfolding out_dls_def
    proof (rule dls_push [OF outs_okD(1) [OF a(1,2) sn, unfolded out_dls_def] e g(2)])
      fix y assume "y \<in> set (OL ?s)"
      with OLlive have y: "y \<in> live_ids t" .
      show "er_nextOut (at_edge t' y) = er_nextOut (at_edge t y)" using old liveD [OF y] by simp
      have "y \<noteq> kNoEdge" using h(2) \<open>y \<in> set (OL ?s)\<close> by auto
      then show "er_prevOut (at_edge t' y) = (if y = ?h then e else er_prevOut (at_edge t y))" using old liveD [OF y] by simp
    qed (use new outs_okD(3) [OF a(1,2)] in auto)
    have count: "u32_cast (rr_outCount (rt_rec t ! ?s) + 1) = Suc (length (OL ?s))"
    proof -
      have "set (OL ?s) \<subseteq> {x. x < rt_nextId t}" using OLlive by (auto simp: live_ids_def)
      from cnt [OF outs_okD(5) [OF a(1,2)] e this] distinct_card [OF outs_okD(3) [OF a(1,2)]] outs_okD(2) [OF a(1,2) sn] show ?thesis by simp
    qed
    have other: "out_dls t' (rr_outHead (rt_rec t ! i)) (OL i)" if i: "i < length (rt_rec t)" "i \<noteq> ?s" for i
    proof -
      have "out_dls t' (rr_outHead (rt_rec t ! i)) (OL i) = out_dls t (rr_outHead (rt_rec t ! i)) (OL i)" unfolding out_dls_def
      proof (rule dls_cong)
        fix y assume y: "y \<in> set (OL i)"
        then have "y \<notin> set (OL ?s)" using outs_okD(4) [OF a(1,2)] i(2) by auto
        then have "\<not> (?h \<noteq> kNoEdge \<and> y = ?h)" using hh by blast
        then show "er_prevOut (at_edge t' y) = er_prevOut (at_edge t y) \<and> er_nextOut (at_edge t' y) = er_nextOut (at_edge t y)"
          using old [OF liveD(2,1) [OF OLlive [OF y]]] by auto
      qed
      with outs_okD(1) [OF a(1,2) i(1)] show ?thesis by simp
    qed
    have "set (OL i) = {x \<in> live_ids t. oh_index (er_src (at_edge t x)) = i}" for i using a(2) by (simp add: outs_ok_def)
    moreover have "{x \<in> live_ids t'. oh_index (er_src (at_edge t' x)) = i} =
        (if i = ?s then {e} else {}) \<union> {x \<in> live_ids t. oh_index (er_src (at_edge t x)) = i}" for i
      using keep new(1) by (auto simp: live)
    ultimately have sets: "set ((OL(?s := e # OL ?s)) i) = {x \<in> live_ids t'. oh_index (er_src (at_edge t' x)) = i}" for i by simp
    have dist: "distinct ((OL(?s := e # OL ?s)) i)" for i using outs_okD(3) [OF a(1,2), of i] e [of ?s] by auto
    have rows: "out_dls t' (rr_outHead (rt_rec t' ! i)) ((OL(?s := e # OL ?s)) i) \<and> rr_outCount (rt_rec t' ! i) = length ((OL(?s := e # OL ?s)) i)"
      if "i < length (rt_rec t)" for i
      using row count other [OF that] outs_okD(2) [OF a(1,2) that] by (cases "i = ?s") (simp_all add: f(4,5))
    have "(OL(?s := e # OL ?s)) i = []" if "length (rt_rec t) \<le> i" for i
      using that sn a unfolding outs_ok_def by auto
    with sets dist rows show ?thesis unfolding outs_ok_def f(12) by blast
  qed
  have ins: "ins_ok t' (IL(?d := e # IL ?d))"
  proof -
    have e: "e \<notin> set (IL i)" for i using ILlive g(1) by blast
    have row: "in_dls t' e (e # IL ?d)" unfolding in_dls_def
    proof (rule dls_push [OF ins_okD(1) [OF a(1,3) dn, unfolded in_dls_def] e g(2)])
      fix y assume "y \<in> set (IL ?d)"
      with ILlive have y: "y \<in> live_ids t" .
      show "er_nextIn (at_edge t' y) = er_nextIn (at_edge t y)" using old liveD [OF y] by simp
      have "y \<noteq> kNoEdge" using k(2) \<open>y \<in> set (IL ?d)\<close> by auto
      then show "er_prevIn (at_edge t' y) = (if y = ?k then e else er_prevIn (at_edge t y))" using old liveD [OF y] by simp
    qed (use new ins_okD(3) [OF a(1,3)] in auto)
    have count: "u32_cast (rr_inCount (rt_rec t ! ?d) + 1) = Suc (length (IL ?d))"
    proof -
      have "set (IL ?d) \<subseteq> {x. x < rt_nextId t}" using ILlive by (auto simp: live_ids_def)
      from cnt [OF ins_okD(5) [OF a(1,3)] e this] distinct_card [OF ins_okD(3) [OF a(1,3)]] ins_okD(2) [OF a(1,3) dn] show ?thesis by simp
    qed
    have other: "in_dls t' (rr_inHead (rt_rec t ! i)) (IL i)" if i: "i < length (rt_rec t)" "i \<noteq> ?d" for i
    proof -
      have "in_dls t' (rr_inHead (rt_rec t ! i)) (IL i) = in_dls t (rr_inHead (rt_rec t ! i)) (IL i)" unfolding in_dls_def
      proof (rule dls_cong)
        fix y assume y: "y \<in> set (IL i)"
        then have "y \<notin> set (IL ?d)" using ins_okD(4) [OF a(1,3)] i(2) by auto
        then have "\<not> (?k \<noteq> kNoEdge \<and> y = ?k)" using hh by blast
        then show "er_prevIn (at_edge t' y) = er_prevIn (at_edge t y) \<and> er_nextIn (at_edge t' y) = er_nextIn (at_edge t y)"
          using old [OF liveD(2,1) [OF ILlive [OF y]]] by auto
      qed
      with ins_okD(1) [OF a(1,3) i(1)] show ?thesis by simp
    qed
    have "set (IL i) = {x \<in> live_ids t. oh_index (er_dst (at_edge t x)) = i}" for i using a(3) by (simp add: ins_ok_def)
    moreover have "{x \<in> live_ids t'. oh_index (er_dst (at_edge t' x)) = i} =
        (if i = ?d then {e} else {}) \<union> {x \<in> live_ids t. oh_index (er_dst (at_edge t x)) = i}" for i
      using keep new(2) by (auto simp: live)
    ultimately have sets: "set ((IL(?d := e # IL ?d)) i) = {x \<in> live_ids t'. oh_index (er_dst (at_edge t' x)) = i}" for i by simp
    have dist: "distinct ((IL(?d := e # IL ?d)) i)" for i using ins_okD(3) [OF a(1,3), of i] e [of ?d] by auto
    have rows: "in_dls t' (rr_inHead (rt_rec t' ! i)) ((IL(?d := e # IL ?d)) i) \<and> rr_inCount (rt_rec t' ! i) = length ((IL(?d := e # IL ?d)) i)"
      if "i < length (rt_rec t)" for i
      using row count other [OF that] ins_okD(2) [OF a(1,3) that] by (cases "i = ?d") (simp_all add: f(6,7))
    have "(IL(?d := e # IL ?d)) i = []" if "length (rt_rec t) \<le> i" for i
      using that dn a unfolding ins_ok_def by auto
    with sets dist rows show ?thesis unfolding ins_ok_def f(12) by blast
  qed
  show ?thesis using arena outs ins g(1) new(1,2) keep f(2,3,12)
    by (intro exI [of _ e] exI [of _ FL']) (auto simp: rt_inv_def rt_root_def rt_edge_def)
qed

section \<open>Rows\<close>

text \<open>What stays of a table when only the edge lists change.\<close>

definition same_edges :: "ref_table \<Rightarrow> ref_table \<Rightarrow> bool" where
  "same_edges t t' \<longleftrightarrow> length (rt_rec t') = length (rt_rec t) \<and> rt_root t' = rt_root t \<and> rt_edge t' = rt_edge t
     \<and> (\<forall>x. er_src (at_edge t' x) = er_src (at_edge t x) \<and> er_dst (at_edge t' x) = er_dst (at_edge t x))"

lemma same_edges_refl [simp]: "same_edges t t"
  by (simp add: same_edges_def)

lemma same_edges_trans: "same_edges t t1 \<Longrightarrow> same_edges t1 t2 \<Longrightarrow> same_edges t t2"
  by (simp add: same_edges_def)

lemma unlink_row:
  assumes "rt_inv t OL IL FL" and "e \<in> set (OL i)"
  shows "\<exists>IL' FL'. rt_inv (unlink e t) (OL(i := removeAll e (OL i))) IL' FL'" "same_edges t (unlink e t)"
    "length (rt_edges (unlink e t)) = length (rt_edges t)"
proof -
  have a: "arena_ok t FL" "outs_ok t OL" using assms(1) by (simp_all add: rt_inv_def)
  from outs_okD(4) [OF a] assms(2) have e: "e \<in> live_ids t" "oh_index (er_src (at_edge t e)) = i" by auto
  from unlink_inv [OF assms(1) e(1)] e(2) show "\<exists>IL' FL'. rt_inv (unlink e t) (OL(i := removeAll e (OL i))) IL' FL'" by auto
  note f = unlink_fields [OF assms(1) e(1)]
  show "same_edges t (unlink e t)" by (auto simp: same_edges_def rt_root_def rt_edge_def fun_eq_iff f(1,2,3,12))
  show "length (rt_edges (unlink e t)) = length (rt_edges t)" by (rule f(11))
qed

lemma clear_from_row:
  assumes "rt_inv t OL IL FL" and "i < length (rt_rec t)" and "length (OL i) \<le> n"
  shows "(\<exists>IL' FL'. rt_inv (clear_from n (firstOut t i) t) (OL(i := [])) IL' FL') \<and> same_edges t (clear_from n (firstOut t i) t)"
  using assms
proof (induction "OL i" arbitrary: t OL IL FL n)
  case Nil
  then have "firstOut t i = kNoEdge"
    using outs_okD(1) [of t FL OL i] by (simp add: rt_inv_def firstOut_def out_dls_def Nil(1) [symmetric])
  then have "clear_from n (firstOut t i) t = t" by (cases n) simp_all
  moreover have "OL(i := []) = OL" using Nil(1) by auto
  ultimately show ?case using Nil.prems(1) by auto
next
  case (Cons x xs)
  have a: "arena_ok t FL" "outs_ok t OL" using Cons.prems(1) by (simp_all add: rt_inv_def)
  have d: "out_dls t (firstOut t i) (x # xs)" using outs_okD(1) [OF a Cons.prems(2)] Cons.hyps(2) by (simp add: firstOut_def)
  then have x: "firstOut t i = x" "x \<noteq> kNoEdge" "er_prevOut (at_edge t x) = kNoEdge" by (simp_all add: out_dls_def)
  have mem: "x \<in> set (OL i)" using Cons.hyps(2) by (metis list.set_intros(1))
  from outs_okD(4) [OF a, of x i] mem have e: "x \<in> live_ids t" "oh_index (er_src (at_edge t x)) = i" by auto
  note u = unlink_row [OF Cons.prems(1) mem]
  have "distinct (x # xs)" using outs_okD(3) [OF a, of i] Cons.hyps(2) by simp
  then have rem: "removeAll x (OL i) = xs" using Cons.hyps(2) by (metis distinct.simps(2) removeAll.simps(2) removeAll_id)
  from u(1) obtain IL' FL' where inv': "rt_inv (unlink x t) (OL(i := xs)) IL' FL'" unfolding rem by blast
  from Cons.prems(3) Cons.hyps(2) obtain m where m: "n = Suc m" "length xs \<le> m" by (metis Suc_le_D Suc_le_mono length_Cons)
  have first: "firstOut (unlink x t) i = nextOut t x"
    using unlink_fields(4) [OF Cons.prems(1) e(1), of i] x(3) e(2) by (simp add: firstOut_def nextOut_def)
  have len: "i < length (rt_rec (unlink x t))" using u(2) Cons.prems(2) by (simp add: same_edges_def)
  have "(\<exists>IL'' FL''. rt_inv (clear_from m (firstOut (unlink x t) i) (unlink x t)) ((OL(i := xs))(i := [])) IL'' FL'')
      \<and> same_edges (unlink x t) (clear_from m (firstOut (unlink x t) i) (unlink x t))"
    by (rule Cons.hyps(1)) (use inv' len m(2) in simp_all)
  then show ?case using x(1,2) m(1) first same_edges_trans [OF u(2)] by auto
qed

lemma clearOuts_inv:
  assumes "rt_inv t OL IL FL" and "i < length (rt_rec t)"
  shows "(\<exists>IL' FL'. rt_inv (clearOuts i t) (OL(i := [])) IL' FL') \<and> same_edges t (clearOuts i t)"
  using clear_from_row [OF assms, of "length (rt_edges t)"] outs_okD(6) [of t FL OL i] assms(1)
  by (simp add: clearOuts_def rt_inv_def)

definition rt_row :: "ref_table \<Rightarrow> nat \<Rightarrow> nat \<Rightarrow> bool" where
  "rt_row t i g \<longleftrightarrow> (\<forall>e \<in> set (out_ids t i). er_src (at_edge t e) = ObjHandle i g)"

lemma rt_wf_rows:
  assumes "rt_inv t OL IL FL" and "rt_inv t' OL' IL' FL'" and "length (rt_rec t') = length (rt_rec t)" and "j < length (rt_rec t)"
    and "OL' j = OL j" and "\<And>x. x \<in> set (OL j) \<Longrightarrow> er_src (at_edge t' x) = er_src (at_edge t x) \<and> er_dst (at_edge t' x) = er_dst (at_edge t x)"
  shows "outs t' j = outs t j \<and> (\<forall>g. rt_row t' j g = rt_row t j g)"
  using assms outs_eq [OF assms(1,4)] outs_eq [OF assms(2), of j] out_ids_eq [OF assms(1,4)] out_ids_eq [OF assms(2), of j]
  by (simp add: rt_row_def)

lemma rt_counts_law:
  assumes "rt_wf t" and "i < length (rt_rec t)"
    and "\<And>r. rr_outHead (f r) = rr_outHead r \<and> rr_inHead (f r) = rr_inHead r \<and> rr_outCount (f r) = rr_outCount r \<and> rr_inCount (f r) = rr_inCount r"
  shows "rt_wf (upd_rec i f t) \<and> (\<forall>j < length (rt_rec t). outs (upd_rec i f t) j = outs t j \<and> (\<forall>g. rt_row (upd_rec i f t) j g = rt_row t j g))"
proof -
  from assms(1) obtain OL IL FL where inv: "rt_inv t OL IL FL" by (auto simp: rt_wf_def)
  note inv' = rt_inv_counts [OF inv assms(3), of i]
  then have "outs (upd_rec i f t) j = outs t j \<and> (\<forall>g. rt_row (upd_rec i f t) j g = rt_row t j g)" if "j < length (rt_rec t)" for j
    using rt_wf_rows [OF inv inv' _ that] by simp
  with inv' show ?thesis by (auto simp: rt_wf_def)
qed

lemma rt_addOut_law:
  assumes "rt_wf t" and "oh_index src < length (rt_rec t)" and "oh_index dst < length (rt_rec t)" and "addOut src dst t = Some t'"
  shows "rt_wf t' \<and> length (rt_rec t') = length (rt_rec t) \<and> rt_root t' = rt_root t \<and> rt_edge t' = rt_edge t
    \<and> mset (outs t' (oh_index src)) = add_mset dst (mset (outs t (oh_index src)))
    \<and> (\<forall>j < length (rt_rec t). j \<noteq> oh_index src \<longrightarrow> outs t' j = outs t j)
    \<and> (\<forall>j < length (rt_rec t). \<forall>g. rt_row t j g \<and> (j = oh_index src \<longrightarrow> g = oh_gen src) \<longrightarrow> rt_row t' j g)"
proof -
  let ?s = "oh_index src"
  from assms(1) obtain OL IL FL where inv: "rt_inv t OL IL FL" by (auto simp: rt_wf_def)
  from addOut_inv [OF inv assms(4,2,3)] obtain e FL' IL' where r: "rt_inv t' (OL(?s := e # OL ?s)) IL' FL'"
    "er_src (at_edge t' e) = src" "er_dst (at_edge t' e) = dst"
    "\<And>x. x \<in> live_ids t \<Longrightarrow> er_src (at_edge t' x) = er_src (at_edge t x) \<and> er_dst (at_edge t' x) = er_dst (at_edge t x)"
    "\<And>i. rt_root t' i = rt_root t i \<and> rt_edge t' i = rt_edge t i" "length (rt_rec t') = length (rt_rec t)" by metis
  have a: "arena_ok t FL" "outs_ok t OL" using inv by (simp_all add: rt_inv_def)
  have old: "er_src (at_edge t' x) = er_src (at_edge t x) \<and> er_dst (at_edge t' x) = er_dst (at_edge t x)" if "x \<in> set (OL j)" for x j
    using outs_okD(4) [OF a] that r(4) by blast
  have rows: "outs t' j = outs t j \<and> (\<forall>g. rt_row t' j g = rt_row t j g)" if "j < length (rt_rec t)" "j \<noteq> ?s" for j
    by (rule rt_wf_rows [OF inv r(1,6) that(1)]) (use that old in auto)
  have s': "?s < length (rt_rec t')" using assms(2) r(6) by simp
  have ids: "out_ids t ?s = OL ?s" "out_ids t' ?s = e # OL ?s"
    using out_ids_eq [OF inv assms(2)] out_ids_eq [OF r(1) s'] by simp_all
  have o: "outs t' ?s = dst # outs t ?s"
    unfolding outs_def ids edgeTarget_def using r(3) old [of _ ?s] by simp
  have "rt_row t' ?s (oh_gen src)" if "rt_row t ?s (oh_gen src)"
    using that r(2) old [of _ ?s] unfolding rt_row_def ids by (cases src) simp
  with rows o r(1,5,6) show ?thesis by (auto simp: rt_wf_def fun_eq_iff)
qed

lemma rt_removeOut_law:
  assumes "rt_wf t" and "oh_index src < length (rt_rec t)" and "rt_row t (oh_index src) (oh_gen src)" and "removeOut src dst t = (r, t')"
  shows "rt_wf t' \<and> length (rt_rec t') = length (rt_rec t) \<and> rt_root t' = rt_root t \<and> rt_edge t' = rt_edge t
    \<and> r = (dst \<in> set (outs t (oh_index src))) \<and> mset (outs t' (oh_index src)) = mset (outs t (oh_index src)) - {#dst#}
    \<and> (\<forall>j < length (rt_rec t). j \<noteq> oh_index src \<longrightarrow> outs t' j = outs t j) \<and> (\<forall>j < length (rt_rec t). \<forall>g. rt_row t j g \<longrightarrow> rt_row t' j g)"
proof -
  let ?s = "oh_index src"
  let ?P = "\<lambda>e. er_src (at_edge t e) = src \<and> er_dst (at_edge t e) = dst"
  from assms(1) obtain OL IL FL where inv: "rt_inv t OL IL FL" by (auto simp: rt_wf_def)
  have a: "arena_ok t FL" "outs_ok t OL" using inv by (simp_all add: rt_inv_def)
  have ids: "out_ids t ?s = OL ?s" by (rule out_ids_eq [OF inv assms(2)])
  have src: "er_src (at_edge t e) = src" if "e \<in> set (OL ?s)" for e
    using that assms(3) unfolding rt_row_def ids by (cases src) simp
  show ?thesis
  proof (cases "List.find ?P (OL ?s)")
    case None
    then have "dst \<notin> set (outs t ?s)" using src by (auto simp: outs_def ids edgeTarget_def find_None_iff)
    moreover have "r = False" "t' = t" using assms(4) None by (simp_all add: removeOut_def ids)
    ultimately show ?thesis using assms(1) by (simp add: diff_single_trivial)
  next
    case (Some e)
    then have e: "e \<in> set (OL ?s)" "er_dst (at_edge t e) = dst" using find_SomeD [OF Some] by auto
    have t': "r = True" "t' = unlink e t" using assms(4) Some by (simp_all add: removeOut_def ids)
    note u = unlink_row [OF inv e(1), folded t'(2)]
    from u(1) obtain IL' FL' where inv': "rt_inv t' (OL(?s := removeAll e (OL ?s))) IL' FL'" by blast
    have len: "length (rt_rec t') = length (rt_rec t)" and keep: "\<And>x. er_src (at_edge t' x) = er_src (at_edge t x) \<and> er_dst (at_edge t' x) = er_dst (at_edge t x)"
      using u(2) by (simp_all add: same_edges_def)
    have ids': "out_ids t' ?s = removeAll e (OL ?s)" using out_ids_eq [OF inv', of ?s] assms(2) len by simp
    have rows: "outs t' j = outs t j \<and> (\<forall>g. rt_row t' j g = rt_row t j g)" if "j < length (rt_rec t)" "j \<noteq> ?s" for j
      by (rule rt_wf_rows [OF inv inv' len that(1)]) (use that keep in auto)
    have "dst \<in> set (outs t ?s)" using e by (auto simp: outs_def ids edgeTarget_def)
    moreover have "mset (outs t' ?s) = mset (outs t ?s) - {#dst#}"
    proof -
      have "removeAll e (OL ?s) = remove1 e (OL ?s)" using outs_okD(3) [OF a, of ?s] by (simp add: distinct_remove1_removeAll)
      then have "mset (out_ids t' ?s) = mset (OL ?s) - {#e#}" using ids' by simp
      then have "mset (outs t' ?s) = image_mset (\<lambda>x. er_dst (at_edge t x)) (mset (OL ?s) - {#e#})"
      proof -
        have "edgeTarget t' = (\<lambda>x. er_dst (at_edge t x))" using keep by (simp add: edgeTarget_def fun_eq_iff)
        then show ?thesis using \<open>mset (out_ids t' ?s) = _\<close> by (simp add: outs_def)
      qed
      also have "\<dots> = mset (outs t ?s) - {#dst#}"
        using e by (simp add: image_mset_Diff outs_def ids edgeTarget_def [abs_def])
      finally show ?thesis .
    qed
    moreover have "rt_row t' ?s g" if "rt_row t ?s g" for g using that keep unfolding rt_row_def ids ids' by simp
    ultimately show ?thesis using rows inv' len u(2) t'(1) by (auto simp: rt_wf_def same_edges_def)
  qed
qed

lemma rt_clearOuts_law:
  assumes "rt_wf t" and "i < length (rt_rec t)"
  shows "rt_wf (clearOuts i t) \<and> length (rt_rec (clearOuts i t)) = length (rt_rec t) \<and> rt_root (clearOuts i t) = rt_root t \<and> rt_edge (clearOuts i t) = rt_edge t
    \<and> outs (clearOuts i t) i = [] \<and> (\<forall>j < length (rt_rec t). j \<noteq> i \<longrightarrow> outs (clearOuts i t) j = outs t j)
    \<and> (\<forall>j < length (rt_rec t). \<forall>g. rt_row t j g \<longrightarrow> rt_row (clearOuts i t) j g) \<and> (\<forall>g. rt_row (clearOuts i t) i g)"
proof -
  let ?t = "clearOuts i t"
  from assms(1) obtain OL IL FL where inv: "rt_inv t OL IL FL" by (auto simp: rt_wf_def)
  from clearOuts_inv [OF inv assms(2)] obtain IL' FL' where inv': "rt_inv ?t (OL(i := [])) IL' FL'" and se: "same_edges t ?t" by blast
  have len: "length (rt_rec ?t) = length (rt_rec t)" using se by (simp add: same_edges_def)
  have rows: "outs ?t j = outs t j \<and> (\<forall>g. rt_row ?t j g = rt_row t j g)" if "j < length (rt_rec t)" "j \<noteq> i" for j
    by (rule rt_wf_rows [OF inv inv' len that(1)]) (use that se in \<open>auto simp: same_edges_def\<close>)
  have "out_ids ?t i = []" using out_ids_eq [OF inv', of i] assms(2) len by simp
  then have "outs ?t i = []" "\<forall>g. rt_row ?t i g" by (simp_all add: rt_row_def outs_def)
  moreover from this rows have "\<forall>j < length (rt_rec t). \<forall>g. rt_row t j g \<longrightarrow> rt_row ?t j g" by metis
  ultimately show ?thesis using rows inv' se by (auto simp: rt_wf_def same_edges_def)
qed

text \<open>Resetting a row needs that no other slot points at it: its incoming list is then empty.\<close>

lemma rt_resetSlot_law:
  assumes "rt_wf t" and "i < length (rt_rec t)" and "\<forall>j < length (rt_rec t). j \<noteq> i \<longrightarrow> i \<notin> oh_index ` set (outs t j)"
  shows "rt_wf (resetSlot i t) \<and> length (rt_rec (resetSlot i t)) = length (rt_rec t)
    \<and> rt_root (resetSlot i t) = (rt_root t)(i := 0) \<and> rt_edge (resetSlot i t) = (rt_edge t)(i := 0)
    \<and> outs (resetSlot i t) i = [] \<and> (\<forall>j < length (rt_rec t). j \<noteq> i \<longrightarrow> outs (resetSlot i t) j = outs t j)
    \<and> (\<forall>j < length (rt_rec t). \<forall>g. rt_row t j g \<longrightarrow> rt_row (resetSlot i t) j g) \<and> (\<forall>g. rt_row (resetSlot i t) i g)"
proof -
  let ?t = "clearOuts i t"
  note c = rt_clearOuts_law [OF assms(1,2)]
  from c obtain OL IL FL where inv: "rt_inv ?t OL IL FL" by (auto simp: rt_wf_def)
  have a: "arena_ok ?t FL" "outs_ok ?t OL" "ins_ok ?t IL" using inv by (simp_all add: rt_inv_def)
  have i: "i < length (rt_rec ?t)" using c assms(2) by simp
  have "IL i = []"
  proof (rule ccontr)
    assume "IL i \<noteq> []"
    then obtain e where "e \<in> set (IL i)" by (meson list.set_sel(1))
    with ins_okD(4) [OF a(1,3)] have e: "e \<in> live_ids ?t" "oh_index (er_dst (at_edge ?t e)) = i" by auto
    let ?j = "oh_index (er_src (at_edge ?t e))"
    from outs_okD(4) [OF a(1,2), of e ?j] e have m: "e \<in> set (OL ?j)" by simp
    have j: "?j < length (rt_rec ?t)" using m a(2) unfolding outs_ok_def by (metis empty_iff linorder_not_less list.set(1))
    have "er_dst (at_edge ?t e) \<in> set (outs ?t ?j)" using outs_eq [OF inv j] m by auto
    with e(2) have "i \<in> oh_index ` set (outs ?t ?j)" by force
    with c assms(3) j show False by (cases "?j = i") auto
  qed
  moreover have "OL i = []" using outs_eq [OF inv i] c by simp
  ultimately have rows: "out_dls ?t kNoEdge (OL i)" "in_dls ?t kNoEdge (IL i)" "OL i = []" "IL i = []" by (simp_all add: out_dls_def in_dls_def)
  let ?r = "resetSlot i t"
  have r: "?r = upd_rec i (\<lambda>_. empty_rec) ?t" by (simp add: resetSlot_def)
  have rec: "rt_rec ?r ! j = (if j = i then empty_rec else rt_rec ?t ! j)" for j unfolding r by (rule rec_upd_rec [OF i])
  have ed: "rt_edges ?r = rt_edges ?t" "rt_nextId ?r = rt_nextId ?t" "length (rt_rec ?r) = length (rt_rec ?t)" "live_ids ?r = live_ids ?t"
    by (simp_all add: r live_ids_def)
  have fc: "free_chain ?r h xs = free_chain ?t h xs" for h xs by (rule free_chain_cong) (simp add: ed)
  have "arena_ok ?r FL" using a(1) fc by (simp add: arena_ok_def ed(2,4)) (simp add: r)
  moreover have "outs_ok ?r OL" using a(2) rows unfolding outs_ok_def out_dls_def ed by (auto simp: rec empty_rec_def)
  moreover have "ins_ok ?r IL" using a(3) rows unfolding ins_ok_def in_dls_def ed by (auto simp: rec empty_rec_def)
  ultimately have inv': "rt_inv ?r OL IL FL" by (simp add: rt_inv_def)
  have same: "outs ?r j = outs ?t j \<and> (\<forall>g. rt_row ?r j g = rt_row ?t j g)" if "j < length (rt_rec ?t)" for j
    by (rule rt_wf_rows [OF inv inv' _ that]) (simp_all add: ed)
  have "rt_root ?r j = (if j = i then 0 else rt_root t j)" "rt_edge ?r j = (if j = i then 0 else rt_edge t j)" for j
    using c by (simp_all add: rt_root_def rt_edge_def rec empty_rec_def fun_eq_iff)
  then have "rt_root ?r = (rt_root t)(i := 0)" "rt_edge ?r = (rt_edge t)(i := 0)" by (simp_all add: fun_eq_iff)
  then show ?thesis using same c inv' ed(3) assms(2) by (auto simp: rt_wf_def)
qed

section \<open>The contract of a reference table\<close>

text \<open>
  What the collector relies on.  \<open>out t i\<close> is the multiset of targets of slot \<open>i\<close>; \<open>row t i g\<close> says
  that the edges of row \<open>i\<close> were all recorded for generation \<open>g\<close> of the slot.  Recording an edge may
  fail for lack of memory.
\<close>

locale ref_counts =
  fixes wf :: "'t \<Rightarrow> bool" and cap :: "'t \<Rightarrow> nat" and root :: "'t \<Rightarrow> nat \<Rightarrow> int" and edge :: "'t \<Rightarrow> nat \<Rightarrow> int"
    and out :: "'t \<Rightarrow> nat \<Rightarrow> obj_handle list" and has_out :: "'t \<Rightarrow> nat \<Rightarrow> bool" and row :: "'t \<Rightarrow> nat \<Rightarrow> nat \<Rightarrow> bool"
    and add_root :: "nat \<Rightarrow> nat \<Rightarrow> 't \<Rightarrow> 't" and sub_root :: "nat \<Rightarrow> nat \<Rightarrow> 't \<Rightarrow> bool \<times> 't"
    and add_edge :: "nat \<Rightarrow> 't \<Rightarrow> 't" and sub_edge :: "nat \<Rightarrow> 't \<Rightarrow> bool \<times> 't"
    and add_out :: "obj_handle \<Rightarrow> obj_handle \<Rightarrow> 't \<Rightarrow> 't option" and remove_out :: "obj_handle \<Rightarrow> obj_handle \<Rightarrow> 't \<Rightarrow> bool \<times> 't"
    and clear :: "nat \<Rightarrow> 't \<Rightarrow> 't" and reset :: "nat \<Rightarrow> 't \<Rightarrow> 't" and new :: "nat \<Rightarrow> 't"
  assumes new_law: "wf (new n) \<and> cap (new n) = n \<and> (\<forall>i < n. root (new n) i = 0 \<and> edge (new n) i = 0 \<and> out (new n) i = [] \<and> row (new n) i g)"
    and has_out_law: "wf t \<Longrightarrow> i < cap t \<Longrightarrow> has_out t i = (out t i \<noteq> [])"
    and add_root_law: "wf t \<Longrightarrow> i < cap t \<Longrightarrow> t' = add_root i n t \<Longrightarrow> wf t' \<and> cap t' = cap t
      \<and> root t' = (root t)(i := root t i + int n) \<and> edge t' = edge t \<and> (\<forall>j < cap t. out t' j = out t j \<and> (\<forall>g. row t' j g = row t j g))"
    and sub_root_law: "wf t \<Longrightarrow> i < cap t \<Longrightarrow> sub_root i n t = (r, t') \<Longrightarrow> wf t' \<and> cap t' = cap t
      \<and> r = (int n \<le> root t i) \<and> root t' = (root t)(i := if r then root t i - int n else 0) \<and> edge t' = edge t
      \<and> (\<forall>j < cap t. out t' j = out t j \<and> (\<forall>g. row t' j g = row t j g))"
    and add_edge_law: "wf t \<Longrightarrow> i < cap t \<Longrightarrow> t' = add_edge i t \<Longrightarrow> wf t' \<and> cap t' = cap t
      \<and> root t' = root t \<and> edge t' = (edge t)(i := edge t i + 1) \<and> (\<forall>j < cap t. out t' j = out t j \<and> (\<forall>g. row t' j g = row t j g))"
    and sub_edge_law: "wf t \<Longrightarrow> i < cap t \<Longrightarrow> sub_edge i t = (r, t') \<Longrightarrow> wf t' \<and> cap t' = cap t
      \<and> r = (0 < edge t i) \<and> root t' = root t \<and> edge t' = (edge t)(i := if r then edge t i - 1 else edge t i)
      \<and> (\<forall>j < cap t. out t' j = out t j \<and> (\<forall>g. row t' j g = row t j g))"
    and add_out_law: "wf t \<Longrightarrow> oh_index src < cap t \<Longrightarrow> oh_index dst < cap t \<Longrightarrow> add_out src dst t = Some t' \<Longrightarrow>
      wf t' \<and> cap t' = cap t \<and> root t' = root t \<and> edge t' = edge t
      \<and> mset (out t' (oh_index src)) = add_mset dst (mset (out t (oh_index src)))
      \<and> (\<forall>j < cap t. j \<noteq> oh_index src \<longrightarrow> out t' j = out t j)
      \<and> (\<forall>j < cap t. \<forall>g. row t j g \<and> (j = oh_index src \<longrightarrow> g = oh_gen src) \<longrightarrow> row t' j g)"
    and remove_out_law: "wf t \<Longrightarrow> oh_index src < cap t \<Longrightarrow> row t (oh_index src) (oh_gen src) \<Longrightarrow> remove_out src dst t = (r, t') \<Longrightarrow>
      wf t' \<and> cap t' = cap t \<and> root t' = root t \<and> edge t' = edge t \<and> r = (dst \<in> set (out t (oh_index src)))
      \<and> mset (out t' (oh_index src)) = mset (out t (oh_index src)) - {#dst#}
      \<and> (\<forall>j < cap t. j \<noteq> oh_index src \<longrightarrow> out t' j = out t j) \<and> (\<forall>j < cap t. \<forall>g. row t j g \<longrightarrow> row t' j g)"
    and clear_law: "wf t \<Longrightarrow> i < cap t \<Longrightarrow> t' = clear i t \<Longrightarrow> wf t' \<and> cap t' = cap t \<and> root t' = root t \<and> edge t' = edge t
      \<and> out t' i = [] \<and> (\<forall>j < cap t. j \<noteq> i \<longrightarrow> out t' j = out t j) \<and> (\<forall>j < cap t. \<forall>g. row t j g \<longrightarrow> row t' j g) \<and> (\<forall>g. row t' i g)"
    and reset_law: "wf t \<Longrightarrow> i < cap t \<Longrightarrow> (\<forall>j < cap t. j \<noteq> i \<longrightarrow> i \<notin> oh_index ` set (out t j)) \<Longrightarrow> t' = reset i t \<Longrightarrow>
      wf t' \<and> cap t' = cap t \<and> root t' = (root t)(i := 0) \<and> edge t' = (edge t)(i := 0)
      \<and> out t' i = [] \<and> (\<forall>j < cap t. j \<noteq> i \<longrightarrow> out t' j = out t j) \<and> (\<forall>j < cap t. \<forall>g. row t j g \<longrightarrow> row t' j g) \<and> (\<forall>g. row t' i g)"

lemma RefTable_init_inv: "rt_inv (RefTable_init n) (\<lambda>_. []) (\<lambda>_. []) []"
  by (auto simp: rt_inv_def arena_ok_def outs_ok_def ins_ok_def out_dls_def in_dls_def RefTable_init_def live_ids_def empty_rec_def kNoEdge_def)

lemma rt_new_law:
  "rt_wf (RefTable_init n) \<and> length (rt_rec (RefTable_init n)) = n
   \<and> (\<forall>i < n. rt_root (RefTable_init n) i = 0 \<and> rt_edge (RefTable_init n) i = 0 \<and> outs (RefTable_init n) i = [] \<and> rt_row (RefTable_init n) i g)"
proof -
  have len: "length (rt_rec (RefTable_init n)) = n" by (simp add: RefTable_init_def)
  have "out_ids (RefTable_init n) i = []" if "i < n" for i using out_ids_eq [OF RefTable_init_inv, of i n] that len by simp
  then have "outs (RefTable_init n) i = [] \<and> rt_row (RefTable_init n) i g" if "i < n" for i using that by (simp add: outs_def rt_row_def)
  moreover have "rt_root (RefTable_init n) i = 0 \<and> rt_edge (RefTable_init n) i = 0" if "i < n" for i
    using that by (simp add: rt_root_def rt_edge_def RefTable_init_def empty_rec_def)
  moreover have "rt_wf (RefTable_init n)" using RefTable_init_inv unfolding rt_wf_def by blast
  ultimately show ?thesis using len by simp
qed

lemma rt_hasOutgoing: "rt_wf t \<Longrightarrow> i < length (rt_rec t) \<Longrightarrow> hasOutgoing t i = (outs t i \<noteq> [])"
  using outs_okD(2) outs_eq by (fastforce simp: rt_wf_def rt_inv_def hasOutgoing_def)

interpretation rt: ref_counts rt_wf "\<lambda>t. length (rt_rec t)" rt_root rt_edge outs hasOutgoing rt_row
  addRoot subRoot addEdgeTo subEdgeTo addOut removeOut clearOuts resetSlot RefTable_init
proof
  fix t t' :: ref_table and i n and r
  assume t: "rt_wf t" and i: "i < length (rt_rec t)"
  note c = rt_counts_law [OF t i]
  note p = rt_root_def rt_edge_def rec_upd_rec [OF i] fun_eq_iff
  show "t' = addRoot i n t \<Longrightarrow> rt_wf t' \<and> length (rt_rec t') = length (rt_rec t) \<and> rt_root t' = (rt_root t)(i := rt_root t i + int n)
      \<and> rt_edge t' = rt_edge t \<and> (\<forall>j < length (rt_rec t). outs t' j = outs t j \<and> (\<forall>g. rt_row t' j g = rt_row t j g))"
    unfolding addRoot_def using c [of "\<lambda>r. r\<lparr>rr_root := rr_root r + int n\<rparr>"] by (simp add: p)
  show "t' = addEdgeTo i t \<Longrightarrow> rt_wf t' \<and> length (rt_rec t') = length (rt_rec t) \<and> rt_root t' = rt_root t
      \<and> rt_edge t' = (rt_edge t)(i := rt_edge t i + 1) \<and> (\<forall>j < length (rt_rec t). outs t' j = outs t j \<and> (\<forall>g. rt_row t' j g = rt_row t j g))"
    unfolding addEdgeTo_def using c [of "\<lambda>r. r\<lparr>rr_edge := rr_edge r + 1\<rparr>"] by (simp add: p)
  show "subRoot i n t = (r, t') \<Longrightarrow> rt_wf t' \<and> length (rt_rec t') = length (rt_rec t) \<and> r = (int n \<le> rt_root t i)
      \<and> rt_root t' = (rt_root t)(i := if r then rt_root t i - int n else 0) \<and> rt_edge t' = rt_edge t
      \<and> (\<forall>j < length (rt_rec t). outs t' j = outs t j \<and> (\<forall>g. rt_row t' j g = rt_row t j g))"
    unfolding subRoot_def using c [of "\<lambda>r. r\<lparr>rr_root := 0\<rparr>"] c [of "\<lambda>r. r\<lparr>rr_root := rr_root r - int n\<rparr>"]
    by (auto simp: p split: if_splits)
  show "subEdgeTo i t = (r, t') \<Longrightarrow> rt_wf t' \<and> length (rt_rec t') = length (rt_rec t) \<and> r = (0 < rt_edge t i)
      \<and> rt_root t' = rt_root t \<and> rt_edge t' = (rt_edge t)(i := if r then rt_edge t i - 1 else rt_edge t i)
      \<and> (\<forall>j < length (rt_rec t). outs t' j = outs t j \<and> (\<forall>g. rt_row t' j g = rt_row t j g))"
    unfolding subEdgeTo_def using t c [of "\<lambda>r. r\<lparr>rr_edge := rr_edge r - 1\<rparr>"] by (auto simp: p split: if_splits)
qed (rule rt_new_law, erule (1) rt_hasOutgoing, erule (3) rt_addOut_law, erule (3) rt_removeOut_law,
     hypsubst, erule (1) rt_clearOuts_law, hypsubst, erule (2) rt_resetSlot_law)

section \<open>The forward table\<close>

record forward_table =
  ft_rec :: "(int \<times> int) list"
  ft_outs :: "obj_handle list list"
  ft_liveEdges :: nat

definition ForwardTable_init :: "nat \<Rightarrow> forward_table" where
  "ForwardTable_init capacity = \<lparr>ft_rec = replicate capacity (0, 0), ft_outs = replicate capacity [], ft_liveEdges = 0\<rparr>"

definition ft_root :: "forward_table \<Rightarrow> nat \<Rightarrow> int" where "ft_root t i = fst (ft_rec t ! i)"
definition ft_edge :: "forward_table \<Rightarrow> nat \<Rightarrow> int" where "ft_edge t i = snd (ft_rec t ! i)"
definition ft_out :: "forward_table \<Rightarrow> nat \<Rightarrow> obj_handle list" where "ft_out t i = ft_outs t ! i"
definition ft_hasOutgoing :: "forward_table \<Rightarrow> nat \<Rightarrow> bool" where "ft_hasOutgoing t i \<longleftrightarrow> ft_outs t ! i \<noteq> []"

definition ft_set :: "nat \<Rightarrow> int \<Rightarrow> int \<Rightarrow> forward_table \<Rightarrow> forward_table" where
  "ft_set i root edge t = t\<lparr>ft_rec := (ft_rec t)[i := (root, edge)]\<rparr>"

definition ft_addRoot :: "nat \<Rightarrow> nat \<Rightarrow> forward_table \<Rightarrow> forward_table" where
  "ft_addRoot i n t = ft_set i (ft_root t i + int n) (ft_edge t i) t"

definition ft_subRoot :: "nat \<Rightarrow> nat \<Rightarrow> forward_table \<Rightarrow> bool \<times> forward_table" where
  "ft_subRoot i n t =
     (if ft_root t i < int n then (False, ft_set i 0 (ft_edge t i) t)
      else (True, ft_set i (ft_root t i - int n) (ft_edge t i) t))"

definition ft_addEdgeTo :: "nat \<Rightarrow> forward_table \<Rightarrow> forward_table" where
  "ft_addEdgeTo i t = ft_set i (ft_root t i) (ft_edge t i + 1) t"

definition ft_subEdgeTo :: "nat \<Rightarrow> forward_table \<Rightarrow> bool \<times> forward_table" where
  "ft_subEdgeTo i t =
     (if ft_edge t i \<le> 0 then (False, t) else (True, ft_set i (ft_root t i) (ft_edge t i - 1) t))"

definition ft_addOut :: "obj_handle \<Rightarrow> obj_handle \<Rightarrow> forward_table \<Rightarrow> forward_table option" where
  "ft_addOut src dst t =
     Some (t\<lparr>ft_outs := (ft_outs t)[oh_index src := ft_outs t ! oh_index src @ [dst]], ft_liveEdges := ft_liveEdges t + 1\<rparr>)"

definition ft_removeOut :: "obj_handle \<Rightarrow> obj_handle \<Rightarrow> forward_table \<Rightarrow> bool \<times> forward_table" where
  "ft_removeOut src dst t =
     (let v = ft_outs t ! oh_index src in
      if dst \<in> set v then (True, t\<lparr>ft_outs := (ft_outs t)[oh_index src := remove1 dst v], ft_liveEdges := ft_liveEdges t - 1\<rparr>)
      else (False, t))"

definition ft_clearOuts :: "nat \<Rightarrow> forward_table \<Rightarrow> forward_table" where
  "ft_clearOuts i t = t\<lparr>ft_outs := (ft_outs t)[i := []], ft_liveEdges := ft_liveEdges t - length (ft_outs t ! i)\<rparr>"

definition ft_resetSlot :: "nat \<Rightarrow> forward_table \<Rightarrow> forward_table" where
  "ft_resetSlot i t = t\<lparr>ft_liveEdges := ft_liveEdges t - length (ft_outs t ! i), ft_rec := (ft_rec t)[i := (0, 0)],
     ft_outs := (ft_outs t)[i := []]\<rparr>"

definition ft_wf :: "forward_table \<Rightarrow> bool" where
  "ft_wf t \<longleftrightarrow> length (ft_outs t) = length (ft_rec t)"

lemmas ft_defs = ft_wf_def ft_set_def ft_addRoot_def ft_subRoot_def ft_addEdgeTo_def ft_subEdgeTo_def ft_addOut_def
  ft_removeOut_def ft_clearOuts_def ft_resetSlot_def ft_root_def ft_edge_def ft_out_def ft_hasOutgoing_def ForwardTable_init_def

text \<open>The forward table records no source, so the generation of a row plays no part.\<close>

interpretation ft: ref_counts ft_wf "\<lambda>t. length (ft_rec t)" ft_root ft_edge ft_out ft_hasOutgoing "\<lambda>t i g. True"
  ft_addRoot ft_subRoot ft_addEdgeTo ft_subEdgeTo ft_addOut ft_removeOut ft_clearOuts ft_resetSlot ForwardTable_init
  by unfold_locales
     (auto simp: ft_defs Let_def fun_eq_iff nth_list_update split: if_splits)

end
