(* ===== verification/Lx_TableEquiv.thy ===== *)
theory Lx_TableEquiv
  imports Lx_RefTable
begin

text \<open>
  The two builds of the reference table give the collector the same answers.  A run drives both
  tables with the same calls, under the conditions the collector keeps: slots are in range, an edge is
  removed on behalf of the generation its row was recorded for, and a slot is reset when no other slot
  refers to it.
\<close>

inductive both_tables :: "nat \<Rightarrow> ref_table \<Rightarrow> forward_table \<Rightarrow> bool" for n where
  new: "both_tables n (RefTable_init n) (ForwardTable_init n)"
| add_root: "both_tables n t f \<Longrightarrow> i < n \<Longrightarrow> both_tables n (addRoot i k t) (ft_addRoot i k f)"
| sub_root: "both_tables n t f \<Longrightarrow> i < n \<Longrightarrow> both_tables n (snd (subRoot i k t)) (snd (ft_subRoot i k f))"
| add_edge: "both_tables n t f \<Longrightarrow> i < n \<Longrightarrow> both_tables n (addEdgeTo i t) (ft_addEdgeTo i f)"
| sub_edge: "both_tables n t f \<Longrightarrow> i < n \<Longrightarrow> both_tables n (snd (subEdgeTo i t)) (snd (ft_subEdgeTo i f))"
| add_out: "both_tables n t f \<Longrightarrow> oh_index s < n \<Longrightarrow> oh_index d < n \<Longrightarrow> addOut s d t = Some t' \<Longrightarrow> ft_addOut s d f = Some f' \<Longrightarrow>
    both_tables n t' f'"
| remove_out: "both_tables n t f \<Longrightarrow> oh_index s < n \<Longrightarrow> rt_row t (oh_index s) (oh_gen s) \<Longrightarrow>
    both_tables n (snd (removeOut s d t)) (snd (ft_removeOut s d f))"
| clear: "both_tables n t f \<Longrightarrow> i < n \<Longrightarrow> both_tables n (clearOuts i t) (ft_clearOuts i f)"
| reset: "both_tables n t f \<Longrightarrow> i < n \<Longrightarrow> \<forall>j < n. j \<noteq> i \<longrightarrow> i \<notin> oh_index ` set (outs t j) \<Longrightarrow>
    both_tables n (resetSlot i t) (ft_resetSlot i f)"

definition agree :: "nat \<Rightarrow> ref_table \<Rightarrow> forward_table \<Rightarrow> bool" where
  "agree n t f \<longleftrightarrow> rt_wf t \<and> ft_wf f \<and> length (rt_rec t) = n \<and> length (ft_rec f) = n
     \<and> (\<forall>i < n. rt_root t i = ft_root f i \<and> rt_edge t i = ft_edge f i \<and> mset (outs t i) = mset (ft_out f i))"

lemma agreeD:
  assumes "agree n t f"
  shows "rt_wf t" "ft_wf f" "length (rt_rec t) = n" "length (ft_rec f) = n"
    "i < n \<Longrightarrow> rt_root t i = ft_root f i" "i < n \<Longrightarrow> rt_edge t i = ft_edge f i" "i < n \<Longrightarrow> mset (outs t i) = mset (ft_out f i)"
    "i < n \<Longrightarrow> set (outs t i) = set (ft_out f i)" "i < n \<Longrightarrow> (outs t i = []) = (ft_out f i = [])"
  using assms mset_eq_setD [of "outs t i" "ft_out f i"] by (auto simp: agree_def)

lemma both_tables_agree: "both_tables n t f \<Longrightarrow> agree n t f"
proof (induction rule: both_tables.induct)
  case new
  show ?case using rt.new_law [of n] ft.new_law [of n] by (simp add: agree_def)
next
  case (add_root t f i k)
  note a = agreeD [OF add_root.IH]
  show ?case using rt.add_root_law [OF a(1), of i _ k] ft.add_root_law [OF a(2), of i _ k] a add_root.hyps by (simp add: agree_def)
next
  case (sub_root t f i k)
  note a = agreeD [OF sub_root.IH]
  obtain r t' r' f' where e: "subRoot i k t = (r, t')" "ft_subRoot i k f = (r', f')" by (metis surj_pair)
  show ?case using rt.sub_root_law [OF a(1) _ e(1)] ft.sub_root_law [OF a(2) _ e(2)] a sub_root.hyps by (simp add: agree_def e)
next
  case (add_edge t f i)
  note a = agreeD [OF add_edge.IH]
  show ?case using rt.add_edge_law [OF a(1), of i] ft.add_edge_law [OF a(2), of i] a add_edge.hyps by (simp add: agree_def)
next
  case (sub_edge t f i)
  note a = agreeD [OF sub_edge.IH]
  obtain r t' r' f' where e: "subEdgeTo i t = (r, t')" "ft_subEdgeTo i f = (r', f')" by (metis surj_pair)
  show ?case using rt.sub_edge_law [OF a(1) _ e(1)] ft.sub_edge_law [OF a(2) _ e(2)] a sub_edge.hyps by (simp add: agree_def e)
next
  case (add_out t f s d t' f')
  note a = agreeD [OF add_out.IH]
  have r: "mset (outs t' i) = (if i = oh_index s then add_mset d (mset (outs t i)) else mset (outs t i))" if "i < n" for i
    using rt.add_out_law [OF a(1) _ _ add_out.hyps(4)] add_out.hyps that a(3) by auto
  have q: "mset (ft_out f' i) = (if i = oh_index s then add_mset d (mset (ft_out f i)) else mset (ft_out f i))" if "i < n" for i
    using ft.add_out_law [OF a(2) _ _ add_out.hyps(5)] add_out.hyps that a(4) by auto
  show ?case using rt.add_out_law [OF a(1) _ _ add_out.hyps(4)] ft.add_out_law [OF a(2) _ _ add_out.hyps(5)] a add_out.hyps r q
    by (simp add: agree_def)
next
  case (remove_out t f s d)
  note a = agreeD [OF remove_out.IH]
  obtain r t' r' f' where e: "removeOut s d t = (r, t')" "ft_removeOut s d f = (r', f')" by (metis surj_pair)
  note l = rt.remove_out_law [OF a(1) _ _ e(1)] ft.remove_out_law [OF a(2) _ TrueI e(2)]
  have r: "mset (outs t' i) = (if i = oh_index s then mset (outs t i) - {#d#} else mset (outs t i))" if "i < n" for i
    using l(1) remove_out.hyps that a(3) by auto
  have q: "mset (ft_out f' i) = (if i = oh_index s then mset (ft_out f i) - {#d#} else mset (ft_out f i))" if "i < n" for i
    using l(2) remove_out.hyps that a(4) by auto
  show ?case using l a remove_out.hyps r q by (simp add: agree_def e)
next
  case (clear t f i)
  note a = agreeD [OF clear.IH]
  note l = rt.clear_law [OF a(1), of i, OF _ refl] ft.clear_law [OF a(2), of i, OF _ refl]
  have "mset (outs (clearOuts i t) j) = mset (ft_out (ft_clearOuts i f) j)" if "j < n" for j
    using l clear.hyps a that by (cases "j = i") auto
  then show ?case using l a clear.hyps by (simp add: agree_def)
next
  case (reset t f i)
  note a = agreeD [OF reset.IH]
  have "\<forall>j < length (ft_rec f). j \<noteq> i \<longrightarrow> i \<notin> oh_index ` set (ft_out f j)" using reset.hyps a by simp
  note l = rt.reset_law [OF a(1), of i, OF _ _ refl] ft.reset_law [OF a(2) _ this refl]
  have "mset (outs (resetSlot i t) j) = mset (ft_out (ft_resetSlot i f) j)" if "j < n" for j
    using l reset.hyps a that by (cases "j = i") auto
  then show ?case using l a reset.hyps by (simp add: agree_def)
qed

text \<open>Both tables keep the number of recorded edges; it is the length of all their rows together.\<close>

lemma rt_liveEdges_total:
  assumes "rt_wf t"
  shows "rt_liveEdges t = (\<Sum>i < length (rt_rec t). length (outs t i))"
proof -
  from assms obtain OL IL FL where inv: "rt_inv t OL IL FL" by (auto simp: rt_wf_def)
  then have a: "arena_ok t FL" "outs_ok t OL" by (simp_all add: rt_inv_def)
  let ?row = "\<lambda>i. {e \<in> live_ids t. oh_index (er_src (at_edge t e)) = i}"
  have row: "set (OL i) = ?row i" "distinct (OL i)" "length (rt_rec t) \<le> i \<Longrightarrow> OL i = []" for i
    using a(2) by (auto simp: outs_ok_def)
  have "live_ids t = (\<Union>i < length (rt_rec t). ?row i)"
  proof -
    have "oh_index (er_src (at_edge t e)) < length (rt_rec t)" if "e \<in> live_ids t" for e
      using that row(1,3) [of "oh_index (er_src (at_edge t e))"] by (cases "oh_index (er_src (at_edge t e)) < length (rt_rec t)") auto
    then show ?thesis by auto
  qed
  then have "card (live_ids t) = (\<Sum>i < length (rt_rec t). card (?row i))"
    by (simp add: card_UN_disjoint [symmetric] disjoint_iff)
  also have "\<dots> = (\<Sum>i < length (rt_rec t). length (outs t i))"
  proof (rule sum.cong [OF refl])
    fix i assume "i \<in> {..<length (rt_rec t)}"
    then have "length (outs t i) = length (OL i)" using outs_eq [OF inv, of i] by simp
    then show "card (?row i) = length (outs t i)" using distinct_card [OF row(2), of i] row(1) by simp
  qed
  finally show ?thesis using a(1) by (simp add: arena_ok_def)
qed

lemma sum_row_update:
  assumes "i < length xs"
  shows "(\<Sum>j < length xs. length (xs[i := v] ! j)) + length (xs ! i) = (\<Sum>j < length xs. length (xs ! j)) + length v"
proof -
  have i: "finite {..<length xs}" "i \<in> {..<length xs}" using assms by simp_all
  have "(\<Sum>j \<in> {..<length xs} - {i}. length (xs[i := v] ! j)) = (\<Sum>j \<in> {..<length xs} - {i}. length (xs ! j))"
    by (intro sum.cong) auto
  then show ?thesis using assms by (simp add: sum.remove [OF i])
qed

lemma ft_liveEdges_total:
  "both_tables n t f \<Longrightarrow> ft_liveEdges f = (\<Sum>i < n. length (ft_out f i))"
proof (induction rule: both_tables.induct)
  case new
  show ?case by (simp add: ft_defs)
next
  case (add_out t f s d t' f')
  note a = agreeD(2,4) [OF both_tables_agree [OF add_out.hyps(1)]]
  from a add_out.hyps(2) sum_row_update [of "oh_index s" "ft_outs f" "ft_outs f ! oh_index s @ [d]"]
  show ?case using add_out.hyps(5) add_out.IH by (auto simp: ft_defs)
next
  case (remove_out t f s d)
  note a = agreeD(2,4) [OF both_tables_agree [OF remove_out.hyps(1)]]
  from a remove_out.hyps(2) have "(\<Sum>j < n. length ((ft_outs f)[oh_index s := remove1 d (ft_outs f ! oh_index s)] ! j)) + length (ft_outs f ! oh_index s)
      = (\<Sum>j < n. length (ft_outs f ! j)) + length (remove1 d (ft_outs f ! oh_index s))"
    using sum_row_update [of "oh_index s" "ft_outs f" "remove1 d (ft_outs f ! oh_index s)"] by (simp add: ft_wf_def)
  moreover obtain m where "d \<in> set (ft_outs f ! oh_index s) \<Longrightarrow> length (ft_outs f ! oh_index s) = Suc m"
    by (metis Suc_pred length_pos_if_in_set)
  ultimately show ?case using remove_out.IH a remove_out.hyps(2)
    by (cases "d \<in> set (ft_outs f ! oh_index s)") (auto simp: ft_defs Let_def length_remove1)
next
  case (clear t f i)
  note a = agreeD(2,4) [OF both_tables_agree [OF clear.hyps(1)]]
  from a clear.hyps(2) sum_row_update [of i "ft_outs f" "[]"] show ?case using clear.IH by (simp add: ft_defs)
next
  case (reset t f i)
  note a = agreeD(2,4) [OF both_tables_agree [OF reset.hyps(1)]]
  from a reset.hyps(2) sum_row_update [of i "ft_outs f" "[]"] show ?case using reset.IH by (simp add: ft_defs)
qed (auto simp: ft_defs)

text \<open>
  Property C33 (equivalence).  The linked arena of the default build and the vectors of the forward build
  hold the same counts and the same targets for every slot and the same number of edges in all, and
  every query and every deduction answers the same: the roots and edges of a slot, whether it has
  outgoing edges, whether a deduction finds the count it takes away, whether an edge to remove is there.
  The runs are those of \<open>both_tables\<close>: slots are in range, an edge is added when the arena has room for its
  record, an edge is removed on behalf of the generation its row was recorded for, and a slot is reset
  when no other slot refers to it.  \<open>reclaimCell\<close> and \<open>reclaimCycleComponent\<close> keep the last condition:
  they reset a slot whose counts are zero, or after every row of the component has been cleared.
  \<open>reclaimCycleMember\<close>, which only the forward build calls, resets a member that other members still
  refer to; its runs are not among these.
\<close>

theorem ref_tables_equivalent:
  assumes "both_tables n t f" and "i < n"
  shows "rt_root t i = ft_root f i \<and> rt_edge t i = ft_edge f i \<and> mset (outs t i) = mset (ft_out f i)
     \<and> hasOutgoing t i = ft_hasOutgoing f i \<and> rt_liveEdges t = ft_liveEdges f
     \<and> fst (subRoot i k t) = fst (ft_subRoot i k f) \<and> fst (subEdgeTo i t) = fst (ft_subEdgeTo i f)
     \<and> (rt_row t i g \<longrightarrow> fst (removeOut (ObjHandle i g) d t) = fst (ft_removeOut (ObjHandle i g) d f))"
proof -
  note a = agreeD [OF both_tables_agree [OF assms(1)]]
  have "rt_root t i = ft_root f i \<and> rt_edge t i = ft_edge f i \<and> mset (outs t i) = mset (ft_out f i)"
    using a assms(2) by simp
  moreover have "hasOutgoing t i = ft_hasOutgoing f i" using rt.has_out_law [OF a(1)] ft.has_out_law [OF a(2)] a assms(2) by simp
  moreover have "rt_liveEdges t = ft_liveEdges f"
  proof -
    have "length (outs t j) = length (ft_out f j)" if "j < n" for j using a(7) [OF that] by (metis size_mset)
    then show ?thesis using rt_liveEdges_total [OF a(1)] ft_liveEdges_total [OF assms(1)] a(3) by simp
  qed
  moreover have "fst (subRoot i k t) = fst (ft_subRoot i k f)" using a(5) assms(2) by (simp add: subRoot_def ft_subRoot_def)
  moreover have "fst (subEdgeTo i t) = fst (ft_subEdgeTo i f)" using a(6) assms(2) by (simp add: subEdgeTo_def ft_subEdgeTo_def)
  moreover have "fst (removeOut (ObjHandle i g) d t) = fst (ft_removeOut (ObjHandle i g) d f)" if r: "rt_row t i g"
  proof -
    obtain x t' y f' where e: "removeOut (ObjHandle i g) d t = (x, t')" "ft_removeOut (ObjHandle i g) d f = (y, f')" by (metis surj_pair)
    show ?thesis using rt.remove_out_law [OF a(1) _ _ e(1)] ft.remove_out_law [OF a(2) _ TrueI e(2)] a assms(2) r by (simp add: e)
  qed
  ultimately show ?thesis by blast
qed

lemma addOut_first: "\<exists>t. addOut s d (RefTable_init n) = Some t"
  by (simp add: addOut_def allocateEdge_def popFree_def RefTable_init_def ensureBlock_def kNoEdge_def kMaxSegments_def)

theorem ref_tables_equivalent_witness:
  "\<exists>t f. both_tables 2 t f \<and> set (outs t 0) = {ObjHandle 1 0} \<and> mset (outs t 0) = mset (ft_out f 0)
     \<and> hasOutgoing t 0 = ft_hasOutgoing f 0
     \<and> fst (removeOut (ObjHandle 0 0) (ObjHandle 1 0) t) = fst (ft_removeOut (ObjHandle 0 0) (ObjHandle 1 0) f)"
proof -
  let ?s = "ObjHandle 0 0" and ?d = "ObjHandle 1 0" and ?t0 = "RefTable_init 2" and ?f0 = "ForwardTable_init 2"
  obtain t where t: "addOut ?s ?d ?t0 = Some t" using addOut_first by blast
  obtain f where f: "ft_addOut ?s ?d ?f0 = Some f" by (simp add: ft_addOut_def)
  have b: "both_tables 2 t f" by (rule both_tables.add_out [OF both_tables.new _ _ t f]) simp_all
  have n: "rt_wf ?t0" "length (rt_rec ?t0) = 2" "outs ?t0 0 = []" "rt_row ?t0 0 0" using rt.new_law [of 2 0] by simp_all
  have l: "mset (outs t 0) = {#?d#}" "rt_row t 0 0" using rt.add_out_law [OF n(1) _ _ t] n by simp_all
  then have "set (outs t 0) = {?d}" by (metis set_mset_mset set_mset_add_mset_insert set_mset_empty)
  with ref_tables_equivalent [OF b, of 0 1 0 ?d] l(2) b show ?thesis by auto
qed

end
