(* ===== verification/Lx_Tarjan.thy ===== *)
theory Lx_Tarjan
  imports Lx_Prelude "HOL-Library.Sublist"
begin

text \<open>
  The low-link invariants behind \<open>cycle/cycle_detector.hpp\<close>, stated over an arbitrary edge relation.
  \<open>V\<close> is the set of discovered nodes, \<open>st\<close> the Tarjan stack and \<open>gs\<close> the nodes of the frame stack
  (tops first), \<open>pend u\<close> the successors of \<open>u\<close> that its frame has not looked at yet, and \<open>T\<close> the edge
  that was just followed to a node which is not discovered yet.
\<close>

text \<open>The deepest frame that was open when \<open>x\<close> was discovered and still is.\<close>

definition owner :: "nat list \<Rightarrow> (nat \<Rightarrow> nat) \<Rightarrow> nat \<Rightarrow> nat \<Rightarrow> bool" where
  "owner gs disc g x \<longleftrightarrow> g \<in> set gs \<and> disc g \<le> disc x \<and> (\<forall>g' \<in> set gs. disc g' \<le> disc x \<longrightarrow> disc g' \<le> disc g)"

definition tj :: "(nat \<times> nat) set \<Rightarrow> nat set \<Rightarrow> nat list \<Rightarrow> nat list \<Rightarrow> (nat \<Rightarrow> nat) \<Rightarrow> (nat \<Rightarrow> nat)
    \<Rightarrow> (nat \<Rightarrow> nat set) \<Rightarrow> (nat \<times> nat) set \<Rightarrow> bool" where
  "tj E V st gs disc low pend T \<longleftrightarrow>
     set st \<subseteq> V \<and> subseq gs st \<and> sorted_wrt (\<lambda>x y. disc y < disc x) st
     \<and> (gs = [] \<longrightarrow> st = []) \<and> (gs \<noteq> [] \<longrightarrow> last st = last gs)
     \<and> (\<forall>g \<in> set gs. low g \<le> disc g \<and> (\<exists>y \<in> set st. disc y = low g \<and> (g, y) \<in> E\<^sup>*))
     \<and> (\<forall>x \<in> set st. \<forall>g. owner gs disc g x \<longrightarrow> (x, g) \<in> E\<^sup>*)
     \<and> (\<forall>g \<in> set gs. \<forall>x \<in> set st. disc g \<le> disc x \<longrightarrow> (g, x) \<in> E\<^sup>*)
     \<and> (\<forall>x \<in> set st. \<forall>y. (x, y) \<in> E \<longrightarrow> (x, y) \<in> T \<or> x \<in> set gs \<and> y \<in> pend x
          \<or> y \<in> V \<and> (y \<in> set st \<longrightarrow> (\<forall>g. owner gs disc g x \<longrightarrow> low g \<le> disc y)))
     \<and> (\<forall>x \<in> V - set st. \<forall>y. (x, y) \<in> E \<longrightarrow> y \<in> V - set st)"

lemma subseq_set: "subseq xs ys \<Longrightarrow> set xs \<subseteq> set ys"
  by (induction rule: list_emb.induct) auto

lemma subseq_sorted: "subseq xs ys \<Longrightarrow> sorted_wrt P ys \<Longrightarrow> sorted_wrt P xs"
  by (induction rule: list_emb.induct) (auto dest: subseq_set)

lemma tjD:
  assumes "tj E V st gs disc low pend T"
  shows "set st \<subseteq> V" "subseq gs st" "sorted_wrt (\<lambda>x y. disc y < disc x) st" "gs = [] \<Longrightarrow> st = []" "gs \<noteq> [] \<Longrightarrow> last st = last gs"
    "g \<in> set gs \<Longrightarrow> low g \<le> disc g" "g \<in> set gs \<Longrightarrow> \<exists>y \<in> set st. disc y = low g \<and> (g, y) \<in> E\<^sup>*"
    "x \<in> set st \<Longrightarrow> owner gs disc g x \<Longrightarrow> (x, g) \<in> E\<^sup>*"
    "g \<in> set gs \<Longrightarrow> x \<in> set st \<Longrightarrow> disc g \<le> disc x \<Longrightarrow> (g, x) \<in> E\<^sup>*"
    "x \<in> set st \<Longrightarrow> (x, y) \<in> E \<Longrightarrow> (x, y) \<in> T \<or> x \<in> set gs \<and> y \<in> pend x
          \<or> y \<in> V \<and> (y \<in> set st \<longrightarrow> (\<forall>g. owner gs disc g x \<longrightarrow> low g \<le> disc y))"
    "x \<in> V \<Longrightarrow> x \<notin> set st \<Longrightarrow> (x, y) \<in> E \<Longrightarrow> y \<in> V - set st"
    "set gs \<subseteq> set st"
  using assms subseq_set [of gs st] unfolding tj_def by blast+

lemma tjI:
  assumes "set st \<subseteq> V" and "subseq gs st" and "sorted_wrt (\<lambda>x y. disc y < disc x) st" and "gs = [] \<longrightarrow> st = []" and "gs \<noteq> [] \<longrightarrow> last st = last gs"
    and "\<And>g. g \<in> set gs \<Longrightarrow> low g \<le> disc g \<and> (\<exists>y \<in> set st. disc y = low g \<and> (g, y) \<in> E\<^sup>*)"
    and "\<And>x g. x \<in> set st \<Longrightarrow> owner gs disc g x \<Longrightarrow> (x, g) \<in> E\<^sup>*"
    and "\<And>g x. g \<in> set gs \<Longrightarrow> x \<in> set st \<Longrightarrow> disc g \<le> disc x \<Longrightarrow> (g, x) \<in> E\<^sup>*"
    and "\<And>x y. x \<in> set st \<Longrightarrow> (x, y) \<in> E \<Longrightarrow> x \<in> set gs \<and> y \<in> pend x
          \<or> y \<in> V \<and> (y \<in> set st \<longrightarrow> (\<forall>g. owner gs disc g x \<longrightarrow> low g \<le> disc y))"
    and "\<And>x y. x \<in> V - set st \<Longrightarrow> (x, y) \<in> E \<Longrightarrow> y \<in> V - set st"
  shows "tj E V st gs disc low pend {}"
  unfolding tj_def using assms by blast

lemma tj_empty [simp]: "tj E V [] [] disc low pend {} \<longleftrightarrow> (\<forall>x \<in> V. \<forall>y. (x, y) \<in> E \<longrightarrow> y \<in> V)"
  by (auto simp: tj_def)

lemma sorted_disc_distinct: "sorted_wrt (\<lambda>x y. (disc y :: nat) < disc x) st \<Longrightarrow> distinct st"
  by (induction st) auto

lemma sorted_disc_inj:
  assumes "sorted_wrt (\<lambda>x y. (disc y :: nat) < disc x) st" and "x \<in> set st" and "y \<in> set st" and "disc x = disc y"
  shows "x = y"
  using assms by (induction st) auto

lemma sorted_disc_last: "sorted_wrt (\<lambda>x y. (disc y :: nat) < disc x) st \<Longrightarrow> x \<in> set st \<Longrightarrow> disc (last st) \<le> disc x"
proof (induction st)
  case (Cons a st)
  show ?case
  proof (cases "st = []")
    case False
    then have "last st \<in> set st" by simp
    with Cons False show ?thesis by (auto intro: less_imp_le)
  qed (use Cons in simp)
qed simp

lemma tj_gs_sorted: "tj E V st gs disc low pend T \<Longrightarrow> sorted_wrt (\<lambda>x y. disc y < disc x) gs"
  by (rule subseq_sorted [OF tjD(2) tjD(3)])

text \<open>The top frame owns what was discovered since it opened, the others own what they owned.\<close>

lemma owner_top:
  assumes "sorted_wrt (\<lambda>x y. disc y < disc x) (u # gs)" and "disc u \<le> disc x"
  shows "owner (u # gs) disc g x \<longleftrightarrow> g = u"
  using assms unfolding owner_def by force

lemma owner_below: "disc x < disc u \<Longrightarrow> owner (u # gs) disc g x \<longleftrightarrow> owner gs disc g x"
  by (auto simp: owner_def)

lemma owner_cong: "(\<And>y. y \<in> insert x (set gs) \<Longrightarrow> disc' y = disc y) \<Longrightarrow> owner gs disc' g x = owner gs disc g x"
  by (auto simp: owner_def)

lemma owner_exists:
  assumes "b \<in> set gs" and "disc b \<le> disc x"
  shows "\<exists>g. owner gs disc g x"
proof -
  let ?S = "{g \<in> set gs. disc g \<le> disc x}"
  have "Max (disc ` ?S) \<in> disc ` ?S" using assms by (intro Max_in) auto
  then obtain g where g: "g \<in> ?S" "disc g = Max (disc ` ?S)" by auto
  have "disc g' \<le> disc g" if "g' \<in> ?S" for g' using g(2) that by simp
  with g(1) have "owner gs disc g x" by (simp add: owner_def)
  then show ?thesis by blast
qed

text \<open>An edge that is not there, or that leads to a closed node, need not be looked at.\<close>

lemma tj_weaken:
  assumes "tj E V st gs disc low pend T"
    and "\<And>x y. (x, y) \<in> E \<Longrightarrow> (x, y) \<in> T \<or> x \<in> set gs \<and> y \<in> pend x \<Longrightarrow>
      (x, y) \<in> T' \<or> x \<in> set gs \<and> y \<in> pend' x \<or> y \<in> V \<and> y \<notin> set st"
  shows "tj E V st gs disc low pend' T'"
  using assms(1) assms(2) unfolding tj_def by (smt (verit, best))

lemma tj_discover:
  assumes t: "tj E V st gs disc low pend T" and v: "v \<notin> V" and fresh: "\<And>x. x \<in> V \<Longrightarrow> disc x < n"
    and T: "T = (if gs = [] then {} else {(hd gs, v)})" "T \<subseteq> E" and pend: "\<And>y. (v, y) \<in> E \<Longrightarrow> y \<in> pend' v"
    "\<And>x. x \<in> set gs \<Longrightarrow> pend' x = pend x"
  shows "tj E (insert v V) (v # st) (v # gs) (disc(v := n)) (low(v := n)) pend' {}"
proof -
  let ?disc = "disc(v := n)" and ?low = "low(v := n)"
  note d = tjD [OF t]
  have old: "?disc x = disc x" "x \<noteq> v" if "x \<in> V" for x using that v by auto
  have stV: "x \<in> V" if "x \<in> set st" for x using that d(1) by blast
  have gsV: "x \<in> V" if "x \<in> set gs" for x using that d(1,12) by blast
  have below: "?disc x < ?disc v" if "x \<in> V" for x using fresh [OF that] old(2) [OF that] by simp
  have own: "owner (v # gs) ?disc g x = owner gs disc g x" if "x \<in> V" for g x
  proof -
    have "owner (v # gs) ?disc g x = owner gs ?disc g x" by (rule owner_below) (rule below [OF that])
    also have "\<dots> = owner gs disc g x" using that gsV old(2) by (intro owner_cong) auto
    finally show ?thesis .
  qed
  have ownv: "owner (v # gs) ?disc g v \<longleftrightarrow> g = v" for g
    using below gsV by (fastforce simp: owner_def dest: leD)
  have vgs: "v \<notin> set gs" "v \<notin> set st" using v gsV stV by auto
  have sorted: "sorted_wrt (\<lambda>x y. ?disc y < ?disc x) (v # st)"
  proof -
    have "sorted_wrt (\<lambda>x y. ?disc y < ?disc x) st"
      by (rule sorted_wrt_mono_rel [OF _ d(3)]) (use old stV in auto)
    then show ?thesis using below stV by auto
  qed
  have to_v: "(g, v) \<in> E\<^sup>*" if g: "g \<in> set gs" for g
  proof -
    obtain p gs' where gs: "gs = p # gs'" using g by (cases gs) auto
    have "disc g \<le> disc p" using tj_gs_sorted [OF t] g unfolding gs by (auto intro: less_imp_le)
    with g gs d(9,12) have "(g, p) \<in> E\<^sup>*" by (metis list.set_intros(1) subsetD)
    moreover have "(p, v) \<in> E" using T gs by auto
    ultimately show ?thesis by (rule rtrancl_into_rtrancl)
  qed
  have low: "?low g \<le> ?disc g \<and> (\<exists>y \<in> set (v # st). ?disc y = ?low g \<and> (g, y) \<in> E\<^sup>*)" if g: "g \<in> set (v # gs)" for g
  proof (cases "g = v")
    case False
    with g have "g \<in> set gs" by simp
    with d(7) obtain y where "y \<in> set st" "disc y = low g" "(g, y) \<in> E\<^sup>*" by blast
    with d(6) [OF \<open>g \<in> set gs\<close>] False old stV show ?thesis by (auto intro!: bexI [of _ y])
  qed simp
  have up: "(x, g) \<in> E\<^sup>*" if "x \<in> set (v # st)" "owner (v # gs) ?disc g x" for x g
    using that ownv own [of x] d(8) stV by (cases "x = v") auto
  have down: "(g, x) \<in> E\<^sup>*" if "g \<in> set (v # gs)" "x \<in> set (v # st)" "?disc g \<le> ?disc x" for g x
    using that to_v d(9) below [of x] stV gsV old by (cases "x = v"; cases "g = v") auto
  have edge: "x \<in> set (v # gs) \<and> y \<in> pend' x
      \<or> y \<in> insert v V \<and> (y \<in> set (v # st) \<longrightarrow> (\<forall>g. owner (v # gs) ?disc g x \<longrightarrow> ?low g \<le> ?disc y))"
    if x: "x \<in> set (v # st)" and e: "(x, y) \<in> E" for x y
  proof (cases "x = v")
    case False
    with x have xs: "x \<in> set st" by simp
    consider "(x, y) \<in> T" | "x \<in> set gs" "y \<in> pend x" | "y \<in> V" "y \<in> set st \<longrightarrow> (\<forall>g. owner gs disc g x \<longrightarrow> low g \<le> disc y)"
      using d(10) [OF xs e] by blast
    then show ?thesis
    proof cases
      case 1
      with T have g: "gs \<noteq> []" "x = hd gs" "y = v" by (auto split: if_splits)
      then have xg: "x \<in> set gs" by simp
      have "?low g \<le> ?disc y" if "owner (v # gs) ?disc g x" for g
      proof -
        have o: "owner gs disc g x" using that own stV [OF xs] by blast
        then have g': "g \<in> set gs" by (simp add: owner_def)
        with d(6) [OF this] fresh [OF gsV [OF this]] vgs g(3) show ?thesis by auto
      qed
      with g(3) show ?thesis by simp
    next
      case 2
      then show ?thesis using pend(2) by simp
    next
      case 3
      have "?low g \<le> ?disc y" if "owner (v # gs) ?disc g x" "y \<in> set (v # st)" for g
      proof -
        have o: "owner gs disc g x" using that(1) own stV [OF xs] by blast
        then have "g \<noteq> v" using vgs by (auto simp: owner_def)
        moreover have "y \<noteq> v" using 3(1) v by blast
        ultimately show ?thesis using 3(2) o that(2) by simp
      qed
      with 3(1) show ?thesis by blast
    qed
  qed (use pend(1) e in simp)
  have closed: "y \<in> insert v V - set (v # st)" if "x \<in> insert v V - set (v # st)" "(x, y) \<in> E" for x y
    using that d(11) [of x y] v by auto
  have bot: "v # gs = [] \<longrightarrow> v # st = []" "v # gs \<noteq> [] \<longrightarrow> last (v # st) = last (v # gs)"
    using d(4,5,12) by (cases "gs = []"; cases "st = []"; auto)+
  have "set (v # st) \<subseteq> insert v V" "subseq (v # gs) (v # st)" using d(1,2) by auto
  then show ?thesis using sorted bot low up down edge closed by (rule tjI)
qed

text \<open>Looking at an edge from the top frame to a discovered node.\<close>

lemma tj_seen:
  assumes t: "tj E V st (u # gs) disc low pend {}" and v: "v \<in> V" and e: "(u, v) \<in> E"
    and pend: "pend u \<subseteq> insert v (pend' u)" "\<And>x. x \<in> set gs \<Longrightarrow> pend' x = pend x"
    and low': "low' = (if v \<in> set st \<and> disc v < low u then low(u := disc v) else low)"
  shows "tj E V st (u # gs) disc low' pend' {}"
proof -
  note d = tjD [OF t]
  have s: "sorted_wrt (\<lambda>x y. disc y < disc x) (u # gs)" by (rule tj_gs_sorted [OF t])
  have le: "low' g \<le> low g" for g unfolding low' by auto
  have lv: "v \<in> set st \<Longrightarrow> low' u \<le> disc v" unfolding low' by auto
  have low: "low' g \<le> disc g \<and> (\<exists>y \<in> set st. disc y = low' g \<and> (g, y) \<in> E\<^sup>*)" if g: "g \<in> set (u # gs)" for g
  proof (cases "g = u \<and> v \<in> set st \<and> disc v < low u")
    case True
    then have "low' g = disc v" "low' g \<le> disc g" using low' d(6) [OF g] by auto
    with True e show ?thesis by (auto intro!: bexI [of _ v])
  next
    case False
    then have "low' g = low g" using low' by auto
    with d(6,7) [OF g] show ?thesis by simp
  qed
  have edge: "x \<in> set (u # gs) \<and> y \<in> pend' x
      \<or> y \<in> V \<and> (y \<in> set st \<longrightarrow> (\<forall>g. owner (u # gs) disc g x \<longrightarrow> low' g \<le> disc y))"
    if x: "x \<in> set st" and xy: "(x, y) \<in> E" for x y
  proof -
    consider "x \<in> set (u # gs)" "y \<in> pend x" | "y \<in> V" "y \<in> set st \<longrightarrow> (\<forall>g. owner (u # gs) disc g x \<longrightarrow> low g \<le> disc y)"
      using d(10) [OF x xy] by blast
    then show ?thesis
    proof cases
      case 1
      show ?thesis
      proof (cases "x = u")
        case True
        with 1(2) pend(1) consider "y = v" | "y \<in> pend' u" by blast
        then show ?thesis using True owner_top [OF s, of u] v lv by cases auto
      next
        case False
        with 1 pend(2) show ?thesis by auto
      qed
    next
      case 2
      then show ?thesis using le by (meson order_trans)
    qed
  qed
  have bot: "u # gs = [] \<longrightarrow> st = []" "u # gs \<noteq> [] \<longrightarrow> last st = last (u # gs)" using d(5) by simp_all
  have closed: "y \<in> V - set st" if "x \<in> V - set st" "(x, y) \<in> E" for x y using d(11) [of x y] that by auto
  show ?thesis by (rule tjI [OF d(1,2,3) bot low d(8,9) edge closed])
qed

text \<open>A frame that ends with a link below its own discovery hands its nodes to the frame underneath.\<close>

lemma tj_fold:
  assumes t: "tj E V st (u # p # gs) disc low pend {}" and pu: "pend u = {}" and lt: "low u < disc u"
  shows "tj E V st (p # gs) disc (low(p := min (low p) (low u))) pend {}"
proof -
  let ?low = "low(p := min (low p) (low u))"
  note d = tjD [OF t]
  have s: "sorted_wrt (\<lambda>x y. disc y < disc x) (u # p # gs)" by (rule tj_gs_sorted [OF t])
  then have s': "sorted_wrt (\<lambda>x y. disc y < disc x) (p # gs)" and pu_lt: "disc p < disc u" by auto
  have ingst: "u \<in> set st" "p \<in> set st" using d(12) by auto
  have own: "owner (p # gs) disc g x \<longleftrightarrow> (if disc u \<le> disc x then g = p else owner (u # p # gs) disc g x)" for g x
    using owner_top [OF s', of x] owner_below [of disc x u "p # gs" g] pu_lt by auto
  obtain y where y: "y \<in> set st" "disc y = low u" "(u, y) \<in> E\<^sup>*" using d(7) [of u] by auto
  have "\<exists>g. owner (u # p # gs) disc g y"
  proof -
    let ?b = "last (p # gs)"
    have b: "?b \<in> set (u # p # gs)" by (metis last_in_set list.distinct(1) list.set_intros(2))
    have "last st = ?b" using d(5) by simp
    then have "disc ?b \<le> disc y" using sorted_disc_last [OF d(3) y(1)] by simp
    with b show ?thesis by (rule owner_exists)
  qed
  then obtain g where g: "owner (u # p # gs) disc g y" by blast
  then have "g \<noteq> u" using y(2) lt by (auto simp: owner_def)
  with g have gp: "g \<in> set (p # gs)" by (auto simp: owner_def)
  then have "disc g \<le> disc p" using s' by (auto intro: less_imp_le)
  then have "(g, p) \<in> E\<^sup>*" using d(9) [of g p] gp ingst by auto
  then have up: "(u, p) \<in> E\<^sup>*" using y(3) d(8) [OF y(1) g] by (meson rtrancl_trans)
  have pu': "(p, u) \<in> E\<^sup>*" using d(9) [of p u] ingst pu_lt by auto
  have low: "?low g \<le> disc g \<and> (\<exists>y \<in> set st. disc y = ?low g \<and> (g, y) \<in> E\<^sup>*)" if g: "g \<in> set (p # gs)" for g
  proof (cases "g = p \<and> low u < low p")
    case True
    have "?low g \<le> disc g" "disc y = ?low g" "(g, y) \<in> E\<^sup>*" using True d(6) [of p] y(2,3) pu' by auto
    with y(1) show ?thesis by blast
  next
    case False
    then have "?low g = low g" by auto
    with d(6,7) [of g] g show ?thesis by auto
  qed
  have up_owner: "(x, g) \<in> E\<^sup>*" if x: "x \<in> set st" and o: "owner (p # gs) disc g x" for x g
  proof (cases "disc u \<le> disc x")
    case True
    with o own have "g = p" by simp
    moreover have "(x, u) \<in> E\<^sup>*" using d(8) [OF x] owner_top [OF s True] by blast
    ultimately show ?thesis using up by (meson rtrancl_trans)
  next
    case False
    with o own d(8) [OF x] show ?thesis by simp
  qed
  have edge: "x \<in> set (p # gs) \<and> z \<in> pend x
      \<or> z \<in> V \<and> (z \<in> set st \<longrightarrow> (\<forall>g. owner (p # gs) disc g x \<longrightarrow> ?low g \<le> disc z))"
    if x: "x \<in> set st" and xz: "(x, z) \<in> E" for x z
  proof -
    consider "x \<in> set (p # gs)" "z \<in> pend x" | "z \<in> V" "z \<in> set st \<longrightarrow> (\<forall>g. owner (u # p # gs) disc g x \<longrightarrow> low g \<le> disc z)"
      using d(10) [OF x xz] pu by auto
    then show ?thesis
    proof cases
      case 2
      have "?low g \<le> disc z" if zs: "z \<in> set st" and o: "owner (p # gs) disc g x" for g
      proof (cases "disc u \<le> disc x")
        case True
        then have "g = p" "low u \<le> disc z" using o own 2(2) zs owner_top [OF s True] by auto
        then show ?thesis by auto
      next
        case False
        then have "low g \<le> disc z" using o own 2(2) zs by auto
        then show ?thesis by auto
      qed
      with 2(1) show ?thesis by blast
    qed simp
  qed
  have sub: "subseq (p # gs) st" using d(2) by (rule subseq_Cons')
  have bot: "p # gs = [] \<longrightarrow> st = []" "p # gs \<noteq> [] \<longrightarrow> last st = last (p # gs)" using d(5) by simp_all
  have closed: "y \<in> V - set st" if "x \<in> V - set st" "(x, y) \<in> E" for x y using d(11) [of x y] that by auto
  have down: "(g, x) \<in> E\<^sup>*" if "g \<in> set (p # gs)" "x \<in> set st" "disc g \<le> disc x" for g x using d(9) that by auto
  show ?thesis by (rule tjI [OF d(1) sub d(3) bot low up_owner down edge closed])
qed

text \<open>
  A frame that ends with its own discovery as link closes a component: the part of the stack above it
  is strongly connected and its edges leave only for closed nodes.
\<close>

lemma tj_close:
  assumes t: "tj E V (pre @ u # post) (u # gs) disc low pend {}" and pu: "pend u = {}" and eq: "low u = disc u"
    and u: "u \<notin> set pre"
  shows "tj E V post gs disc low pend {}"
    and "x \<in> set (pre @ [u]) \<Longrightarrow> (x, u) \<in> E\<^sup>* \<and> (u, x) \<in> E\<^sup>*"
    and "x \<in> set (pre @ [u]) \<Longrightarrow> (x, y) \<in> E \<Longrightarrow> y \<in> V - set post"
proof -
  let ?st = "pre @ u # post"
  note d = tjD [OF t]
  have s: "sorted_wrt (\<lambda>x y. disc y < disc x) (u # gs)" by (rule tj_gs_sorted [OF t])
  have top: "disc u \<le> disc x" if "x \<in> set (pre @ [u])" for x using d(3) that by (auto simp: sorted_wrt_append intro: less_imp_le)
  have rest: "disc x < disc u" if "x \<in> set post" for x using d(3) that by (auto simp: sorted_wrt_append)
  show conn: "(x, u) \<in> E\<^sup>* \<and> (u, x) \<in> E\<^sup>*" if "x \<in> set (pre @ [u])" for x
    using d(8) [of x u] owner_top [OF s top [OF that]] d(9) [of u x] top [OF that] that by auto
  have gs: "subseq gs post"
  proof -
    have "subseq (u # gs) (pre @ u # post)" by (rule d(2))
    then show ?thesis using u by (induction pre) (auto simp: subseq_Cons2_iff)
  qed
  have gpost: "g \<in> set post" if "g \<in> set gs" for g using subseq_set [OF gs] that by blast
  have notgs: "x \<notin> set gs" if "x \<in> set pre" for x using top [of x] rest gpost that by force
  show out: "y \<in> V - set post" if x: "x \<in> set (pre @ [u])" and e: "(x, y) \<in> E" for x y
  proof -
    have xs: "x \<in> set ?st" using x by auto
    have nx: "\<not> (x \<in> set (u # gs) \<and> y \<in> pend x)" using x notgs pu by auto
    with d(10) [OF xs e] have y: "y \<in> V" "y \<in> set ?st \<longrightarrow> (\<forall>g. owner (u # gs) disc g x \<longrightarrow> low g \<le> disc y)" by auto
    have "disc u \<le> disc y" if "y \<in> set ?st" using y(2) that owner_top [OF s top [OF x]] eq by auto
    with y(1) rest show ?thesis by force
  qed
  have own: "owner gs disc g x \<longleftrightarrow> owner (u # gs) disc g x" if "x \<in> set post" for g x
    using owner_below [of disc x u gs g] rest [OF that] by blast
  have low: "low g \<le> disc g \<and> (\<exists>y \<in> set post. disc y = low g \<and> (g, y) \<in> E\<^sup>*)" if g: "g \<in> set gs" for g
  proof -
    obtain y where y: "y \<in> set ?st" "disc y = low g" "(g, y) \<in> E\<^sup>*" using d(7) [of g] g by auto
    have "disc y < disc u" using y(2) d(6) [of g] g rest [OF gpost [OF g]] by auto
    with y(1) top have "y \<in> set post" by (auto dest: leD)
    with y d(6) [of g] g show ?thesis by auto
  qed
  have edge: "x \<in> set gs \<and> y \<in> pend x \<or> y \<in> V \<and> (y \<in> set post \<longrightarrow> (\<forall>g. owner gs disc g x \<longrightarrow> low g \<le> disc y))"
    if x: "x \<in> set post" and e: "(x, y) \<in> E" for x y
    using d(10) [of x y] x e own [OF x] rest [OF x] by auto
  have closed: "y \<in> V - set post" if x: "x \<in> V - set post" and e: "(x, y) \<in> E" for x y
  proof (cases "x \<in> set ?st")
    case True
    with x have "x \<in> set (pre @ [u])" by auto
    then show ?thesis using out e by blast
  qed (use d(11) [of x y] x e in auto)
  have bot: "gs = [] \<longrightarrow> post = []" "gs \<noteq> [] \<longrightarrow> last post = last gs"
  proof -
    have l: "last (u # post) = last (u # gs)" using d(5) by simp
    have "u \<notin> set post" using rest by blast
    then show "gs = [] \<longrightarrow> post = []" using l by (metis last.simps last_in_set)
    show "gs \<noteq> [] \<longrightarrow> last post = last gs" using l subseq_set [OF gs] by (cases post) auto
  qed
  have sp: "sorted_wrt (\<lambda>x y. disc y < disc x) post" using d(3) by (simp add: sorted_wrt_append)
  have up: "(x, g) \<in> E\<^sup>*" if "x \<in> set post" "owner gs disc g x" for x g using d(8) [of x g] own that by auto
  have down: "(g, x) \<in> E\<^sup>*" if "g \<in> set gs" "x \<in> set post" "disc g \<le> disc x" for g x using d(9) [of g x] that by auto
  have "set post \<subseteq> V" using d(1) by auto
  then show "tj E V post gs disc low pend {}" by (rule tjI [OF _ gs sp bot low up down edge closed])
qed

text \<open>The bottom frame always closes, and a closed set of nodes is left by no path.\<close>

lemma tj_bottom: "tj E V st [u] disc low pend T \<Longrightarrow> low u = disc u"
proof -
  assume t: "tj E V st [u] disc low pend T"
  note d = tjD [OF t]
  obtain y where y: "y \<in> set st" "disc y = low u" using d(7) [of u] by auto
  have "last st = u" using d(5) by simp
  then have "disc u \<le> disc y" using sorted_disc_last [OF d(3) y(1)] by simp
  with y(2) d(6) [of u] show ?thesis by simp
qed

lemma closed_reach: "(x, y) \<in> E\<^sup>* \<Longrightarrow> x \<in> C \<Longrightarrow> (\<And>x y. x \<in> C \<Longrightarrow> (x, y) \<in> E \<Longrightarrow> y \<in> C) \<Longrightarrow> y \<in> C"
  by (induction rule: rtrancl_induct) auto

end
