(* ===== verification/Lx_Cycle.thy ===== *)
theory Lx_Cycle
  imports Lx_Heap Lx_RefTable Lx_Tarjan
begin

text \<open>
  The object source of the collector (\<open>vm/AarcCellSource.hpp\<close>) and the component finder of its cycle
  layer (\<open>cycle/cycle_detector.hpp\<close>, the build over the reverse table).  A \<open>std::vector\<close> used as a
  stack is a list with its top first; indexed vectors are lists in the same order.  The loop of
  \<open>visitFrom\<close> is a partial function: \<open>None\<close> stands for a run that does not end or pops an empty vector.
  It is proved to return, and to compute the strongly connected components of the live subgraph.
\<close>

section \<open>The object source\<close>

record cell_source =
  cs_errs :: nat

definition cs_valid :: "heap \<Rightarrow> obj_handle \<Rightarrow> bool" where
  "cs_valid h x \<longleftrightarrow> oh_index x < slotCapacity h \<and> valid h (oh_index x) \<and> generation (slots h ! oh_index x) = oh_gen x"

definition isLiveAt :: "heap \<Rightarrow> nat \<Rightarrow> bool" where "isLiveAt h i = valid h i"

definition generationOf :: "heap \<Rightarrow> nat \<Rightarrow> nat" where
  "generationOf h i = (if i < slotCapacity h then generation (slots h ! i) else 0)"

definition cs_free :: "obj_handle \<Rightarrow> heap \<times> cell_source \<Rightarrow> bool \<times> heap \<times> cell_source" where
  "cs_free x hc =
     (let (h, c) = hc in
      if \<not> cs_valid h x then (False, h, c\<lparr>cs_errs := cs_errs c + 1\<rparr>)
      else (True, freePayload (oh_index x) h, c))"

section \<open>The component finder\<close>

definition kUnvisited :: nat where "kUnvisited = 4294967295"

record detector =
  dt_disc :: "nat list"
  dt_low :: "nat list"
  dt_on :: "bool list"
  dt_scc :: "nat list"
  dt_tarjan :: "nat list"
  dt_frames :: "nat list"
  dt_frameNext :: "nat list"
  dt_time :: nat
  dt_comps :: nat
  dt_skippedDisc :: nat
  dt_skippedDead :: nat

definition CycleDetector_init :: "nat \<Rightarrow> detector" where
  "CycleDetector_init capacity = \<lparr>dt_disc = replicate capacity 0, dt_low = replicate capacity 0,
     dt_on = replicate capacity False, dt_scc = replicate capacity kUnvisited, dt_tarjan = [], dt_frames = [],
     dt_frameNext = [], dt_time = 0, dt_comps = 0, dt_skippedDisc = 0, dt_skippedDead = 0\<rparr>"

definition sccOf :: "detector \<Rightarrow> nat \<Rightarrow> nat" where "sccOf d i = dt_scc d ! i"
definition isVisited :: "detector \<Rightarrow> nat \<Rightarrow> bool" where "isVisited d i \<longleftrightarrow> dt_scc d ! i \<noteq> kUnvisited"

text \<open>The loop that empties the stack down to \<open>u\<close>; \<open>None\<close> is \<open>back()\<close> of an empty vector.\<close>

fun pop_until :: "nat \<Rightarrow> nat list \<Rightarrow> detector \<Rightarrow> detector option" where
  "pop_until u [] d = None"
| "pop_until u (w # ws) d =
     (let d1 = d\<lparr>dt_tarjan := ws, dt_on := (dt_on d)[w := False], dt_scc := (dt_scc d)[w := dt_comps d]\<rparr> in
      if w = u then Some d1 else pop_until u ws d1)"

definition close_scc :: "nat \<Rightarrow> detector \<Rightarrow> detector option" where
  "close_scc u d =
     (if dt_low d ! u = dt_disc d ! u
      then map_option (\<lambda>d. d\<lparr>dt_comps := u32_cast (dt_comps d + 1)\<rparr>) (pop_until u (dt_tarjan d) d)
      else Some d)"

definition fold_low :: "nat \<Rightarrow> detector \<Rightarrow> detector" where
  "fold_low u d =
     (case dt_frames d of
        [] \<Rightarrow> d
      | p # _ \<Rightarrow> if dt_low d ! u < dt_low d ! p then d\<lparr>dt_low := (dt_low d)[p := dt_low d ! u]\<rparr> else d)"

definition finishNode :: "nat \<Rightarrow> detector \<Rightarrow> detector option" where
  "finishNode u d =
     map_option (fold_low u) (close_scc u (d\<lparr>dt_frames := tl (dt_frames d), dt_frameNext := tl (dt_frameNext d)\<rparr>))"

definition discover :: "ref_table \<Rightarrow> nat \<Rightarrow> detector \<times> nat list \<Rightarrow> detector \<times> nat list" where
  "discover tab u dv =
     (let (d, visitedOut) = dv; t = u32_cast (dt_time d + 1) in
      if dt_disc d ! u = 0
      then (d\<lparr>dt_time := t, dt_disc := (dt_disc d)[u := t], dt_low := (dt_low d)[u := t], dt_on := (dt_on d)[u := True],
              dt_tarjan := u # dt_tarjan d, dt_frameNext := firstOut tab u # tl (dt_frameNext d)\<rparr>, visitedOut @ [u])
      else (d, visitedOut))"

definition follow :: "heap \<Rightarrow> ref_table \<Rightarrow> nat \<Rightarrow> detector \<Rightarrow> detector" where
  "follow pool tab u d =
     (let edge = hd (dt_frameNext d);
          d1 = d\<lparr>dt_frameNext := nextOut tab edge # tl (dt_frameNext d)\<rparr>;
          vh = edgeTarget tab edge; v = oh_index vh in
      if \<not> cs_valid pool vh then d1
      else if dt_disc d1 ! v = 0 then d1\<lparr>dt_frames := v # dt_frames d1, dt_frameNext := kNoEdge # dt_frameNext d1\<rparr>
      else if dt_on d1 ! v \<and> dt_disc d1 ! v < dt_low d1 ! u then d1\<lparr>dt_low := (dt_low d1)[u := dt_disc d1 ! v]\<rparr>
      else d1)"

definition visit_step :: "heap \<Rightarrow> ref_table \<Rightarrow> detector \<times> nat list \<Rightarrow> (detector \<times> nat list) option" where
  "visit_step pool tab dv =
     (let u = hd (dt_frames (fst dv)); (d, visitedOut) = discover tab u dv in
      if hd (dt_frameNext d) \<noteq> kNoEdge then Some (follow pool tab u d, visitedOut)
      else map_option (\<lambda>d. (d, visitedOut)) (finishNode u d))"

partial_function (option) visit_loop :: "heap \<Rightarrow> ref_table \<Rightarrow> detector \<times> nat list \<Rightarrow> (detector \<times> nat list) option" where
  "visit_loop pool tab dv =
     (if dt_frames (fst dv) = [] then Some dv
      else Option.bind (visit_step pool tab dv) (visit_loop pool tab))"

definition visitFrom :: "nat \<Rightarrow> heap \<Rightarrow> ref_table \<Rightarrow> detector \<times> nat list \<Rightarrow> (detector \<times> nat list) option" where
  "visitFrom root pool tab dv =
     visit_loop pool tab (apfst (\<lambda>d. d\<lparr>dt_frames := root # dt_frames d, dt_frameNext := kNoEdge # dt_frameNext d\<rparr>) dv)"

fun find_roots :: "heap \<Rightarrow> ref_table \<Rightarrow> nat list \<Rightarrow> detector \<times> nat list \<Rightarrow> (detector \<times> nat list) option" where
  "find_roots pool tab [] dv = Some dv"
| "find_roots pool tab (root # roots) dv =
     (if dt_disc (fst dv) ! root \<noteq> 0
      then find_roots pool tab roots (apfst (\<lambda>d. d\<lparr>dt_skippedDisc := dt_skippedDisc d + 1\<rparr>) dv)
      else if \<not> isLiveAt pool root
      then find_roots pool tab roots (apfst (\<lambda>d. d\<lparr>dt_skippedDead := dt_skippedDead d + 1\<rparr>) dv)
      else Option.bind (visitFrom root pool tab dv) (find_roots pool tab roots))"

text \<open>The number of components is \<open>dt_comps\<close> of the result.\<close>

definition findComponents :: "heap \<Rightarrow> ref_table \<Rightarrow> nat list \<Rightarrow> detector \<Rightarrow> (detector \<times> nat list) option" where
  "findComponents pool tab roots d =
     find_roots pool tab roots
       (d\<lparr>dt_time := 0, dt_comps := 0, dt_tarjan := [], dt_frames := [], dt_frameNext := [],
          dt_skippedDisc := 0, dt_skippedDead := 0\<rparr>, [])"

fun release :: "nat list \<Rightarrow> detector \<Rightarrow> detector" where
  "release [] d = d"
| "release (i # visited) d =
     release visited (d\<lparr>dt_disc := (dt_disc d)[i := 0], dt_low := (dt_low d)[i := 0], dt_on := (dt_on d)[i := False],
       dt_scc := (dt_scc d)[i := kUnvisited]\<rparr>)"

section \<open>The graph that is searched\<close>

definition succs :: "heap \<Rightarrow> ref_table \<Rightarrow> (nat \<times> nat) set" where
  "succs pool tab = {(u, oh_index x) |u x. u < length (rt_rec tab) \<and> x \<in> set (outs tab u) \<and> cs_valid pool x}"

text \<open>The list of edge records that starts at \<open>e\<close>.\<close>

fun out_chain :: "ref_table \<Rightarrow> nat \<Rightarrow> nat list \<Rightarrow> bool" where
  "out_chain tab e [] \<longleftrightarrow> e = kNoEdge"
| "out_chain tab e (x # xs) \<longleftrightarrow> e = x \<and> x \<noteq> kNoEdge \<and> out_chain tab (nextOut tab x) xs"

lemma dls_out_chain: "dls prv (nextOut tab) p e xs \<Longrightarrow> out_chain tab e xs"
  by (induction xs arbitrary: p e) auto

lemma out_chain_first:
  assumes "rt_wf tab" and "u < length (rt_rec tab)"
  shows "out_chain tab (firstOut tab u) (out_ids tab u)"
proof -
  obtain OL IL FL where inv: "rt_inv tab OL IL FL" using assms(1) by (auto simp: rt_wf_def)
  then have "out_dls tab (rr_outHead (rt_rec tab ! u)) (OL u)" using outs_okD(1) [of tab FL OL u] assms(2) by (simp add: rt_inv_def)
  moreover have "(\<lambda>e. er_nextOut (at_edge tab e)) = nextOut tab" by (simp add: nextOut_def fun_eq_iff)
  ultimately show ?thesis
    unfolding out_dls_def out_ids_eq [OF inv assms(2)] firstOut_def by (simp add: dls_out_chain)
qed

text \<open>The successors of a node along a list of edge records.\<close>

definition targets :: "heap \<Rightarrow> ref_table \<Rightarrow> nat list \<Rightarrow> nat set" where
  "targets pool tab es = {oh_index x |x. x \<in> edgeTarget tab ` set es \<and> cs_valid pool x}"

lemma targets_Cons: "targets pool tab (e # es) =
    (if cs_valid pool (edgeTarget tab e) then insert (oh_index (edgeTarget tab e)) (targets pool tab es) else targets pool tab es)"
  by (auto simp: targets_def)

lemma targets_Nil [simp]: "targets pool tab [] = {}"
  by (simp add: targets_def)

lemma targets_succs: "u < length (rt_rec tab) \<Longrightarrow> y \<in> targets pool tab (out_ids tab u) \<longleftrightarrow> (u, y) \<in> succs pool tab"
  by (auto simp: targets_def succs_def outs_def)

end
