(* ===== verification/Lx_Engine.thy ===== *)
theory Lx_Engine
  imports Lx_GC Lx_Cycle
begin

text \<open>
  The collection engine of AARC (\<open>arc/engine.hpp\<close>, instantiated at the object source of the VM): it
  applies barrier messages to the reference table, marks the cells whose count falls to zero and the
  suspects of cyclic garbage, and reclaims both.  \<open>zeroStack_\<close> is a list with its top first; the other
  vectors are lists in the same order.  The engine of the VM has no component store
  (\<open>setComponents\<close> is never called) and the checks of \<open>AARC_CHECK_INVARIANTS\<close> and the counters of
  \<open>AARC_INSTRUMENT\<close> are off, as in the default build.  The loops are partial functions; \<open>None\<close> is a
  loop that does not end.
\<close>

section \<open>Messages\<close>

datatype gc_op = RootAdd | RootRemove | RootCheck | EdgeAdd | EdgeRemove | Terminate

record gc_message =
  gm_op :: gc_op
  gm_a :: obj_handle
  gm_b :: obj_handle
  gm_count :: nat

section \<open>State\<close>

record engine =
  en_tab :: ref_table
  en_cells :: cell_source
  en_zeroMark :: "bool list"
  en_suspectMark :: "bool list"
  en_zeroStack :: "nat list"
  en_suspectStack :: "nat list"
  en_detector :: detector
  en_tarjanRuns :: nat
  en_tarjanVisited :: nat
  en_lastScanSuspects :: nat
  en_lastScanVisited :: nat
  en_lastScanRoots :: nat
  en_releaseNodes :: nat
  en_leakNodes :: nat
  en_activeSuspects :: nat
  en_staleDropped :: nat
  en_rootUnderflow :: nat
  en_edgeUnderflow :: nat
  en_msgsProcessed :: nat
  en_reclaimedZero :: nat
  en_reclaimedCycle :: nat

definition AarcEngine_init :: "heap \<Rightarrow> engine" where
  "AarcEngine_init pool =
     (let n = slotCapacity pool in
      \<lparr>en_tab = RefTable_init n, en_cells = \<lparr>cs_errs = 0\<rparr>, en_zeroMark = replicate n False, en_suspectMark = replicate n False,
       en_zeroStack = [], en_suspectStack = [], en_detector = CycleDetector_init n, en_tarjanRuns = 0, en_tarjanVisited = 0,
       en_lastScanSuspects = 0, en_lastScanVisited = 0, en_lastScanRoots = 0, en_releaseNodes = 0, en_leakNodes = 0,
       en_activeSuspects = 0, en_staleDropped = 0, en_rootUnderflow = 0, en_edgeUnderflow = 0, en_msgsProcessed = 0,
       en_reclaimedZero = 0, en_reclaimedCycle = 0\<rparr>)"

section \<open>Marks\<close>

definition markZero :: "nat \<Rightarrow> engine \<Rightarrow> engine" where
  "markZero i e =
     (if en_zeroMark e ! i then e
      else e\<lparr>en_zeroMark := (en_zeroMark e)[i := True], en_zeroStack := i # en_zeroStack e\<rparr>)"

definition setSuspect :: "nat \<Rightarrow> engine \<Rightarrow> engine" where
  "setSuspect i e =
     (if en_suspectMark e ! i then e
      else e\<lparr>en_suspectMark := (en_suspectMark e)[i := True], en_activeSuspects := en_activeSuspects e + 1,
             en_suspectStack := en_suspectStack e @ [i]\<rparr>)"

definition clearSuspect :: "nat \<Rightarrow> engine \<Rightarrow> engine" where
  "clearSuspect i e =
     (if \<not> en_suspectMark e ! i then e
      else e\<lparr>en_suspectMark := (en_suspectMark e)[i := False], en_activeSuspects := en_activeSuspects e - 1\<rparr>)"

definition markSuspect :: "nat \<Rightarrow> engine \<Rightarrow> engine" where
  "markSuspect i e = setSuspect i e"

definition pendingSuspects :: "engine \<Rightarrow> nat" where "pendingSuspects e = en_activeSuspects e"
definition suspectStackEntries :: "engine \<Rightarrow> nat" where "suspectStackEntries e = length (en_suspectStack e)"
definition hasZeroCandidates :: "engine \<Rightarrow> bool" where "hasZeroCandidates e \<longleftrightarrow> en_zeroStack e \<noteq> []"

text \<open>\<open>if (total == 0) markZero; else if (hasOutgoing) markSuspect;\<close>\<close>

definition recheck :: "nat \<Rightarrow> engine \<Rightarrow> engine" where
  "recheck i e =
     (if rt_total (en_tab e) i = 0 then markZero i e
      else if hasOutgoing (en_tab e) i then markSuspect i e
      else e)"

section \<open>Messages applied\<close>

definition process_RootRemove :: "heap \<Rightarrow> gc_message \<Rightarrow> engine \<Rightarrow> engine" where
  "process_RootRemove pool m e =
     (let i = oh_index (gm_b m) in
      if \<not> cs_valid pool (gm_b m) then e\<lparr>en_staleDropped := en_staleDropped e + 1\<rparr>
      else case subRoot i (gm_count m) (en_tab e) of
        (False, t) \<Rightarrow> e\<lparr>en_tab := t, en_rootUnderflow := en_rootUnderflow e + 1\<rparr>
      | (True, t) \<Rightarrow> recheck i (e\<lparr>en_tab := t\<rparr>))"

definition process_EdgeAdd :: "heap \<Rightarrow> gc_message \<Rightarrow> engine \<Rightarrow> engine gres" where
  "process_EdgeAdd pool m e =
     (if \<not> cs_valid pool (gm_a m) \<or> \<not> cs_valid pool (gm_b m) then GOk (e\<lparr>en_staleDropped := en_staleDropped e + 1\<rparr>)
      else case addOut (gm_a m) (gm_b m) (addEdgeTo (oh_index (gm_b m)) (en_tab e)) of
        None \<Rightarrow> GThrow ''std::bad_alloc''
      | Some t \<Rightarrow> GOk (e\<lparr>en_tab := t\<rparr>))"

definition process_EdgeRemove :: "heap \<Rightarrow> gc_message \<Rightarrow> engine \<Rightarrow> engine" where
  "process_EdgeRemove pool m e =
     (if \<not> cs_valid pool (gm_a m) then e\<lparr>en_staleDropped := en_staleDropped e + 1\<rparr>
      else case removeOut (gm_a m) (gm_b m) (en_tab e) of
        (False, t) \<Rightarrow> e\<lparr>en_tab := t, en_edgeUnderflow := en_edgeUnderflow e + 1\<rparr>
      | (True, t) \<Rightarrow>
          if \<not> cs_valid pool (gm_b m) then e\<lparr>en_tab := t, en_staleDropped := en_staleDropped e + 1\<rparr>
          else case subEdgeTo (oh_index (gm_b m)) t of
            (False, t1) \<Rightarrow> e\<lparr>en_tab := t1, en_edgeUnderflow := en_edgeUnderflow e + 1\<rparr>
          | (True, t1) \<Rightarrow> recheck (oh_index (gm_b m)) (e\<lparr>en_tab := t1\<rparr>))"

definition process :: "heap \<Rightarrow> gc_message \<Rightarrow> engine \<Rightarrow> engine gres" where
  "process pool m e0 =
     (let e = e0\<lparr>en_msgsProcessed := en_msgsProcessed e0 + 1\<rparr>; b = gm_b m in
      case gm_op m of
        RootAdd \<Rightarrow>
          GOk (if cs_valid pool b then e\<lparr>en_tab := addRoot (oh_index b) (gm_count m) (en_tab e)\<rparr>
               else e\<lparr>en_staleDropped := en_staleDropped e + 1\<rparr>)
      | RootRemove \<Rightarrow> GOk (process_RootRemove pool m e)
      | RootCheck \<Rightarrow> GOk (if \<not> cs_valid pool b then e\<lparr>en_staleDropped := en_staleDropped e + 1\<rparr> else recheck (oh_index b) e)
      | EdgeAdd \<Rightarrow> process_EdgeAdd pool m e
      | EdgeRemove \<Rightarrow> GOk (process_EdgeRemove pool m e)
      | Terminate \<Rightarrow> GOk e)"

section \<open>Reclamation of counted garbage\<close>

definition drop_target :: "nat \<Rightarrow> engine \<Rightarrow> engine" where
  "drop_target j e = recheck j (e\<lparr>en_tab := snd (subEdgeTo j (en_tab e))\<rparr>)"

definition free_cell :: "obj_handle \<Rightarrow> heap \<times> engine \<Rightarrow> heap \<times> engine" where
  "free_cell x he =
     (let (h, e) = he; (_, h1, c) = cs_free x (h, en_cells e) in (h1, e\<lparr>en_cells := c\<rparr>))"

definition reclaimCell :: "nat \<Rightarrow> heap \<times> engine \<Rightarrow> heap \<times> engine" where
  "reclaimCell i he =
     (let (pool, e) = he;
          e1 = clearSuspect i (e\<lparr>en_reclaimedZero := en_reclaimedZero e + 1\<rparr>);
          self = ObjHandle i (generationOf pool i);
          e2 = fold (\<lambda>x e. if \<not> isLiveAt pool (oh_index x) then e else drop_target (oh_index x) e) (outs (en_tab e1) i) e1;
          e3 = e2\<lparr>en_tab := resetSlot i (en_tab e2)\<rparr> in
      free_cell self (pool, e3))"

definition sweep_one :: "heap \<times> engine \<Rightarrow> heap \<times> engine" where
  "sweep_one he =
     (let (pool, e) = he; i = hd (en_zeroStack e);
          e1 = e\<lparr>en_zeroStack := tl (en_zeroStack e), en_zeroMark := (en_zeroMark e)[i := False]\<rparr> in
      if \<not> isLiveAt pool i then (pool, e1)
      else if rt_total (en_tab e1) i \<noteq> 0 then (pool, e1)
      else reclaimCell i (pool, e1))"

partial_function (option) sweepZero :: "heap \<times> engine \<Rightarrow> (heap \<times> engine) option" where
  "sweepZero he = (if en_zeroStack (snd he) = [] then Some he else sweepZero (sweep_one he))"

section \<open>Reclamation of cyclic garbage\<close>

definition detach_member :: "heap \<Rightarrow> nat \<Rightarrow> nat \<Rightarrow> engine \<Rightarrow> engine" where
  "detach_member pool scc i e =
     (let e1 = e\<lparr>en_reclaimedCycle := en_reclaimedCycle e + 1\<rparr>;
          e2 = fold (\<lambda>x e. if \<not> cs_valid pool x then e
                           else if sccOf (en_detector e) (oh_index x) = scc then e
                           else drop_target (oh_index x) e) (outs (en_tab e1) i) e1 in
      e2\<lparr>en_tab := clearOuts i (en_tab e2)\<rparr>)"

definition free_member :: "nat \<Rightarrow> heap \<times> engine \<Rightarrow> heap \<times> engine" where
  "free_member i he =
     (let (pool, e) = he; e1 = clearSuspect i (e\<lparr>en_tab := resetSlot i (en_tab e)\<rparr>) in
      free_cell (ObjHandle i (generationOf pool i)) (pool, e1))"

definition reclaimCycleComponent :: "nat list \<Rightarrow> nat \<Rightarrow> heap \<times> engine \<Rightarrow> heap \<times> engine" where
  "reclaimCycleComponent members scc he =
     (let (pool, e) = he in fold free_member members (pool, fold (detach_member pool scc) members e))"

text \<open>The sums per component: \<open>xs[s] += v\<close>.\<close>

definition add_at :: "nat \<Rightarrow> int \<Rightarrow> int list \<Rightarrow> int list" where
  "add_at s v xs = xs[s := xs ! s + v]"

definition sumRoot :: "detector \<Rightarrow> ref_table \<Rightarrow> nat list \<Rightarrow> int list" where
  "sumRoot d tab visited = fold (\<lambda>i. add_at (sccOf d i) (rt_root tab i)) visited (replicate (dt_comps d) 0)"

definition sumEdge :: "detector \<Rightarrow> ref_table \<Rightarrow> nat list \<Rightarrow> int list" where
  "sumEdge d tab visited = fold (\<lambda>i. add_at (sccOf d i) (rt_edge tab i)) visited (replicate (dt_comps d) 0)"

definition internal_edges :: "heap \<Rightarrow> detector \<Rightarrow> ref_table \<Rightarrow> nat list \<Rightarrow> int list" where
  "internal_edges pool d tab visited =
     fold (\<lambda>i xs. fold (\<lambda>x xs. if cs_valid pool x \<and> sccOf d (oh_index x) = sccOf d i then add_at (sccOf d i) 1 xs else xs)
             (outs tab i) xs) visited (replicate (dt_comps d) 0)"

definition reclaim_flags :: "heap \<Rightarrow> detector \<Rightarrow> ref_table \<Rightarrow> nat list \<Rightarrow> bool list" where
  "reclaim_flags pool d tab visited =
     map (\<lambda>s. sumRoot d tab visited ! s = 0 \<and> sumEdge d tab visited ! s = internal_edges pool d tab visited ! s) [0..<dt_comps d]"

definition membersOf :: "heap \<Rightarrow> detector \<Rightarrow> nat list \<Rightarrow> nat list list" where
  "membersOf pool d visited =
     fold (\<lambda>i ms. if isLiveAt pool i then ms[sccOf d i := ms ! sccOf d i @ [i]] else ms) visited (replicate (dt_comps d) [])"

definition reclaim_flagged :: "bool list \<Rightarrow> nat list list \<Rightarrow> nat \<Rightarrow> bool \<times> heap \<times> engine \<Rightarrow> bool \<times> heap \<times> engine" where
  "reclaim_flagged reclaim members s x =
     (if reclaim ! s \<and> members ! s \<noteq> [] then (True, reclaimCycleComponent (members ! s) s (snd x)) else x)"

definition scan_roots :: "heap \<Rightarrow> engine \<Rightarrow> nat list" where
  "scan_roots pool e = filter (\<lambda>i. en_suspectMark e ! i \<and> isLiveAt pool i \<and> 0 < rt_total (en_tab e) i) (en_suspectStack e)"

definition collectCyclePass :: "heap \<times> engine \<Rightarrow> (bool \<times> heap \<times> engine) option" where
  "collectCyclePass he =
     (let (pool, e) = he; roots = scan_roots pool e;
          e1 = e\<lparr>en_suspectStack := [], en_lastScanSuspects := length roots\<rparr> in
      if roots = [] then Some (False, pool, e1)
      else case findComponents pool (en_tab e1) roots (en_detector e1) of
        None \<Rightarrow> None
      | Some (d, visited) \<Rightarrow>
          let e2 = e1\<lparr>en_detector := d, en_tarjanRuns := en_tarjanRuns e1 + 1, en_tarjanVisited := en_tarjanVisited e1 + length visited,
                      en_lastScanVisited := length visited, en_lastScanRoots := length roots\<rparr> in
          if dt_comps d = 0 then Some (False, pool, e2\<lparr>en_leakNodes := en_leakNodes e2 + length visited\<rparr>)
          else let reclaim = reclaim_flags pool d (en_tab e2) visited;
                   e3 = fold clearSuspect visited e2;
                   (any, h, e4) = fold (reclaim_flagged reclaim (membersOf pool d visited)) [0..<dt_comps d] (False, pool, e3) in
            Some (any, h, e4\<lparr>en_detector := release visited (en_detector e4), en_releaseNodes := en_releaseNodes e4 + length visited\<rparr>))"

partial_function (option) collectCycles :: "heap \<times> engine \<Rightarrow> (heap \<times> engine) option" where
  "collectCycles he =
     (case collectCyclePass he of
        None \<Rightarrow> None
      | Some (any, he1) \<Rightarrow> if any then collectCycles he1 else Some he1)"

partial_function (option) sweep :: "heap \<times> engine \<Rightarrow> (heap \<times> engine) option" where
  "sweep he =
     (case sweepZero he of
        None \<Rightarrow> None
      | Some he1 \<Rightarrow>
          if en_suspectStack (snd he1) = [] then Some he1
          else case collectCycles he1 of None \<Rightarrow> None | Some he2 \<Rightarrow> sweep he2)"

section \<open>Promotion\<close>

definition compactMarks :: "nat list \<Rightarrow> bool list \<Rightarrow> nat list" where
  "compactMarks stack marks = filter (\<lambda>i. marks ! i) stack"

definition forgetPromoted :: "nat list \<Rightarrow> engine \<Rightarrow> engine" where
  "forgetPromoted indexes e =
     (let e1 = fold (\<lambda>i e. clearSuspect i (e\<lparr>en_zeroMark := (en_zeroMark e)[i := False]\<rparr>)) indexes e in
      e1\<lparr>en_zeroStack := compactMarks (en_zeroStack e1) (en_zeroMark e1),
         en_suspectStack := compactMarks (en_suspectStack e1) (en_suspectMark e1)\<rparr>)"

end
