(* ===== verification/Lx_LocalAarc.thy ===== *)
theory Lx_LocalAarc
  imports Lx_Engine Lx_Syscall
begin

text \<open>
  The backend that runs the AARC engine inline on the mutator thread (\<open>LocalAarcBackend\<close> of
  \<open>vm/GC.hpp\<close> and \<open>vm/GC.cpp\<close>): every barrier applies one message, drains the zero candidates, and lets
  the trigger policy decide whether to look for cycles.  The measured duration of the \<open>n\<close>-th cycle
  collection is the field \<open>la_clock\<close>; 64-bit counters do not wrap.  A barrier whose engine loop did not
  return would be \<open>GUndef\<close>.
\<close>

section \<open>State\<close>

record cycle_policy =
  cp_adaptive :: bool
  cp_fixedInterval :: nat
  cp_suspectThreshold :: nat
  cp_suspectThresholdMin :: nat
  cp_suspectThresholdMax :: nat
  cp_heapTargetBytes :: nat
  cp_allocThresholdBytes :: nat
  cp_maxInterval :: nat

definition CyclePolicy :: cycle_policy where
  "CyclePolicy = \<lparr>cp_adaptive = True, cp_fixedInterval = 1024, cp_suspectThreshold = 4096, cp_suspectThresholdMin = 512,
     cp_suspectThresholdMax = 65536, cp_heapTargetBytes = 2 ^ 20, cp_allocThresholdBytes = 2 ^ 20, cp_maxInterval = 65536\<rparr>"

definition kYieldMinVisited :: nat where "kYieldMinVisited = 256"

datatype cycle_trigger = TrigNone | SuspectPressure | HeapPressure | Starvation | FixedInterval

record scan_sample =
  ss_ops :: nat
  ss_trigger :: nat
  ss_live :: nat
  ss_visited :: nat
  ss_reclaimed :: nat
  ss_threshold :: nat
  ss_stackAtTrigger :: nat
  ss_engRoots :: nat
  ss_engVisited :: nat
  ss_skipDisc :: nat
  ss_skipDead :: nat

record local_aarc =
  la_engine :: engine
  la_policy :: cycle_policy
  la_adaptive :: bool
  la_fixedInterval :: nat
  la_suspectThreshold :: nat
  la_opsSinceCycle :: nat
  la_allocBytesSinceCycle :: nat
  la_opsTotal :: nat
  la_thresholdMinSeen :: nat
  la_thresholdMaxSeen :: nat
  la_scanNs :: "nat list"
  la_scanVisited :: "nat list"
  la_scanTriggerSuspects :: "nat list"
  la_scanLiveSuspects :: "nat list"
  la_scanTrace :: "scan_sample list"
  la_thresholdTrace :: "(nat \<times> nat) list"
  la_metrics :: gc_metrics
  la_clock :: "nat \<Rightarrow> nat"

text \<open>\<open>std::strtol\<close> in base ten: the longest number at the start, clamped to 64 bits, 0 if there is none.\<close>

definition strtol :: "string \<Rightarrow> int" where
  "strtol s =
     (let r = dropWhile is_space s;
          neg = (r \<noteq> [] \<and> hd r = CHR ''-'');
          r1 = (if r \<noteq> [] \<and> (hd r = CHR ''-'' \<or> hd r = CHR ''+'') then tl r else r);
          v = digits_value (takeWhile is_digit r1) in
      max (- (2 ^ 63)) (min (2 ^ 63 - 1) (if neg then - v else v)))"

definition set_fixed :: "int \<Rightarrow> local_aarc \<Rightarrow> local_aarc" where
  "set_fixed v g = (if v > 0 then g\<lparr>la_adaptive := False, la_fixedInterval := nat (v mod 2 ^ 32)\<rparr> else g)"

text \<open>The constructor; \<open>cadence\<close> is the environment variable \<open>LOXIS_AARC_CADENCE\<close>.\<close>

definition LocalAarcBackend_init :: "string option \<Rightarrow> (nat \<Rightarrow> nat) \<Rightarrow> heap \<Rightarrow> local_aarc" where
  "LocalAarcBackend_init cadence clock heap =
     (let g = \<lparr>la_engine = AarcEngine_init heap, la_policy = CyclePolicy, la_adaptive = True, la_fixedInterval = 1024,
            la_suspectThreshold = 4096, la_opsSinceCycle = 0, la_allocBytesSinceCycle = 0, la_opsTotal = 0,
            la_thresholdMinSeen = 4096, la_thresholdMaxSeen = 4096, la_scanNs = [], la_scanVisited = [],
            la_scanTriggerSuspects = [], la_scanLiveSuspects = [], la_scanTrace = [], la_thresholdTrace = [],
            la_metrics = zero_metrics, la_clock = clock\<rparr> in
      case cadence of None \<Rightarrow> g | Some c \<Rightarrow> set_fixed (strtol c) g)"

definition aarc_current :: "heap \<Rightarrow> nat \<Rightarrow> obj_handle" where
  "aarc_current h i = ObjHandle i (generationOf h i)"

definition setCyclePolicy :: "string \<Rightarrow> local_aarc \<Rightarrow> local_aarc" where
  "setCyclePolicy spec g =
     (if spec = ''adaptive'' then g\<lparr>la_adaptive := True\<rparr>
      else if take 6 spec = ''fixed:'' then set_fixed (strtol (drop 6 spec)) g
      else g)"

section \<open>Trigger and feedback\<close>

definition cycleTrigger :: "heap \<Rightarrow> local_aarc \<Rightarrow> cycle_trigger" where
  "cycleTrigger h g =
     (let suspects = pendingSuspects (la_engine g) in
      if suspects = 0 then TrigNone
      else if \<not> la_adaptive g then (if la_opsSinceCycle g \<ge> la_fixedInterval g then FixedInterval else TrigNone)
      else if suspects \<ge> la_suspectThreshold g then SuspectPressure
      else if length (memory h) \<ge> cp_heapTargetBytes (la_policy g)
           \<and> la_allocBytesSinceCycle g \<ge> cp_allocThresholdBytes (la_policy g) then HeapPressure
      else if la_opsSinceCycle g \<ge> cp_maxInterval (la_policy g) then Starvation
      else TrigNone)"

definition noteThreshold :: "nat \<Rightarrow> local_aarc \<Rightarrow> local_aarc" where
  "noteThreshold next g =
     (if next = la_suspectThreshold g then g
      else let g1 = (if next > la_suspectThreshold g
                     then g\<lparr>la_metrics := mt_thresholdRaises_update Suc (la_metrics g)\<rparr>
                     else g\<lparr>la_metrics := mt_thresholdLowers_update Suc (la_metrics g)\<rparr>);
               g2 = g1\<lparr>la_suspectThreshold := next, la_thresholdMinSeen := min (la_thresholdMinSeen g1) next,
                       la_thresholdMaxSeen := max (la_thresholdMaxSeen g1) next\<rparr> in
        if length (la_thresholdTrace g2) < 64
        then g2\<lparr>la_thresholdTrace := la_thresholdTrace g2 @ [(la_opsTotal g2, next)]\<rparr> else g2)"

definition clamp32 :: "nat \<Rightarrow> nat" where "clamp32 v = min v 4294967295"

definition count_collection :: "nat \<Rightarrow> heap \<Rightarrow> heap \<Rightarrow> gc_metrics \<Rightarrow> gc_metrics" where
  "count_collection ns before after m =
     m\<lparr>mt_cycleCollections := mt_cycleCollections m + 1, mt_cycleCollectNs := mt_cycleCollectNs m + ns,
       mt_cycleNsMax := max (mt_cycleNsMax m) ns,
       mt_cycleReclaimedBytes := mt_cycleReclaimedBytes m + (st_bytesLive (stats before) - st_bytesLive (stats after))\<rparr>"

definition record_scan :: "nat \<Rightarrow> nat \<Rightarrow> nat \<Rightarrow> nat \<Rightarrow> nat \<Rightarrow> local_aarc \<Rightarrow> local_aarc" where
  "record_scan ns visited reclaimed triggerSuspects triggerStack g =
     (let e = la_engine g;
          g1 = (if length (la_scanNs g) < 2 ^ 20
                then g\<lparr>la_scanNs := la_scanNs g @ [clamp32 ns], la_scanVisited := la_scanVisited g @ [clamp32 visited],
                       la_scanTriggerSuspects := la_scanTriggerSuspects g @ [clamp32 triggerSuspects],
                       la_scanLiveSuspects := la_scanLiveSuspects g @ [clamp32 (en_lastScanSuspects e)]\<rparr>
                else g) in
      if length (la_scanTrace g1) < 48
      then g1\<lparr>la_scanTrace := la_scanTrace g1 @
             [\<lparr>ss_ops = la_opsTotal g1, ss_trigger = clamp32 triggerSuspects, ss_live = clamp32 (en_lastScanSuspects e),
               ss_visited = clamp32 visited, ss_reclaimed = clamp32 reclaimed, ss_threshold = la_suspectThreshold g1,
               ss_stackAtTrigger = clamp32 triggerStack, ss_engRoots = clamp32 (en_lastScanRoots e),
               ss_engVisited = clamp32 (en_lastScanVisited e), ss_skipDisc = clamp32 (dt_skippedDisc (en_detector e)),
               ss_skipDead = clamp32 (dt_skippedDead (en_detector e))\<rparr>]\<rparr>
      else g1)"

definition yield_feedback :: "nat \<Rightarrow> nat \<Rightarrow> local_aarc \<Rightarrow> local_aarc" where
  "yield_feedback visited reclaimed g =
     (if la_adaptive g \<and> visited \<ge> kYieldMinVisited then
        (if reclaimed = 0 then noteThreshold (min (u32_cast (la_suspectThreshold g * 2)) (cp_suspectThresholdMax (la_policy g))) g
         else if reclaimed * 4 \<ge> visited then noteThreshold (max (la_suspectThreshold g div 2) (cp_suspectThresholdMin (la_policy g))) g
         else g)
      else g)"

definition collectCyclesNow :: "heap \<times> local_aarc \<Rightarrow> (heap \<times> local_aarc) gres" where
  "collectCyclesNow hg =
     (let (h, g) = hg; e = la_engine g; ns = la_clock g (mt_cycleCollections (la_metrics g)) in
      case collectCycles (h, e) of
        None \<Rightarrow> GUndef
      | Some (h1, e1) \<Rightarrow>
          (case sweepZero (h1, e1) of
             None \<Rightarrow> GUndef
           | Some (h2, e2) \<Rightarrow>
               let visited = en_tarjanVisited e2 - en_tarjanVisited e;
                   reclaimed = en_reclaimedCycle e2 - en_reclaimedCycle e;
                   m = count_collection ns h h1 (la_metrics g);
                   g1 = g\<lparr>la_engine := e2,
                          la_metrics := m\<lparr>mt_cycleScans := en_tarjanRuns e2, mt_cycleScanVisited := en_tarjanVisited e2,
                                          mt_cycleObjectsByPolicy := mt_cycleObjectsByPolicy m + reclaimed,
                                          mt_suspectBacklog := pendingSuspects e2\<rparr>\<rparr>;
                   g2 = yield_feedback visited reclaimed
                          (record_scan ns visited reclaimed (pendingSuspects e) (suspectStackEntries e) g1) in
               GOk (h2, g2\<lparr>la_opsSinceCycle := 0, la_allocBytesSinceCycle := 0\<rparr>)))"

definition count_trigger :: "cycle_trigger \<Rightarrow> gc_metrics \<Rightarrow> gc_metrics" where
  "count_trigger reason m =
     (case reason of
        TrigNone \<Rightarrow> m
      | SuspectPressure \<Rightarrow> mt_triggerSuspectPressure_update Suc m
      | HeapPressure \<Rightarrow> mt_triggerHeapPressure_update Suc m
      | Starvation \<Rightarrow> mt_triggerStarvation_update Suc m
      | FixedInterval \<Rightarrow> mt_triggerFixedInterval_update Suc m)"

definition afterOp :: "heap \<times> local_aarc \<Rightarrow> (heap \<times> local_aarc) gres" where
  "afterOp hg =
     (let (h, g) = hg;
          g1 = g\<lparr>la_opsSinceCycle := la_opsSinceCycle g + 1, la_opsTotal := la_opsTotal g + 1\<rparr> in
      case (if hasZeroCandidates (la_engine g1) then sweepZero (h, la_engine g1) else Some (h, la_engine g1)) of
        None \<Rightarrow> GUndef
      | Some (h1, e1) \<Rightarrow>
          let g2 = g1\<lparr>la_engine := e1\<rparr>; reason = cycleTrigger h1 g2 in
          if reason = TrigNone then GOk (h1, g2)
          else collectCyclesNow (h1, g2\<lparr>la_metrics := count_trigger reason (la_metrics g2)\<rparr>))"

section \<open>The barriers\<close>

definition aarc_onAlloc :: "nat \<Rightarrow> heap \<times> local_aarc \<Rightarrow> (heap \<times> local_aarc) gres" where
  "aarc_onAlloc i hg =
     (let (h, g) = hg; g1 = g\<lparr>la_metrics := mt_allocations_update Suc (la_metrics g)\<rparr> in
      GOk (h, if i < length (slots h)
              then g1\<lparr>la_allocBytesSinceCycle := la_allocBytesSinceCycle g1 + cells (slots h ! i) * SLOT_SIZE\<rparr>
              else g1))"

definition null_handle :: obj_handle where "null_handle = ObjHandle kNullIndex 0"

definition apply_message :: "gc_message \<Rightarrow> heap \<times> local_aarc \<Rightarrow> (heap \<times> local_aarc) gres" where
  "apply_message m hg =
     (let (h, g) = hg in
      case process h m (la_engine g) of
        GOk e \<Rightarrow> afterOp (h, g\<lparr>la_engine := e\<rparr>)
      | GThrow x \<Rightarrow> GThrow x
      | GUndef \<Rightarrow> GUndef)"

definition aarc_count :: "(gc_metrics \<Rightarrow> gc_metrics) \<Rightarrow> heap \<times> local_aarc \<Rightarrow> heap \<times> local_aarc" where
  "aarc_count f hg = apsnd (\<lambda>g. g\<lparr>la_metrics := f (la_metrics g)\<rparr>) hg"

definition aarc_rootAdd :: "nat \<Rightarrow> heap \<times> local_aarc \<Rightarrow> (heap \<times> local_aarc) gres" where
  "aarc_rootAdd i hg =
     apply_message \<lparr>gm_op = RootAdd, gm_a = null_handle, gm_b = aarc_current (fst hg) i, gm_count = 1\<rparr>
       (aarc_count (mt_rootAdds_update Suc) hg)"

definition aarc_rootRemove :: "nat \<Rightarrow> heap \<times> local_aarc \<Rightarrow> (heap \<times> local_aarc) gres" where
  "aarc_rootRemove i hg =
     apply_message \<lparr>gm_op = RootRemove, gm_a = null_handle, gm_b = aarc_current (fst hg) i, gm_count = 1\<rparr>
       (aarc_count (mt_rootRemoves_update Suc) hg)"

definition aarc_edgeAdd :: "nat \<Rightarrow> nat \<Rightarrow> heap \<times> local_aarc \<Rightarrow> (heap \<times> local_aarc) gres" where
  "aarc_edgeAdd from to hg =
     apply_message \<lparr>gm_op = EdgeAdd, gm_a = aarc_current (fst hg) from, gm_b = aarc_current (fst hg) to, gm_count = 1\<rparr>
       (aarc_count (mt_edgeAdds_update Suc) hg)"

definition aarc_edgeRemove :: "nat \<Rightarrow> nat \<Rightarrow> heap \<times> local_aarc \<Rightarrow> (heap \<times> local_aarc) gres" where
  "aarc_edgeRemove from to hg =
     apply_message \<lparr>gm_op = EdgeRemove, gm_a = aarc_current (fst hg) from, gm_b = aarc_current (fst hg) to, gm_count = 1\<rparr>
       (aarc_count (mt_edgeRemoves_update Suc) hg)"

definition aarc_onExplicitFree :: "nat \<Rightarrow> heap \<times> local_aarc \<Rightarrow> (heap \<times> local_aarc) gres" where
  "aarc_onExplicitFree i hg = GOk (aarc_count (mt_explicitFreesIgnored_update Suc) hg)"

definition aarc_shutdown :: "heap \<times> local_aarc \<Rightarrow> (heap \<times> local_aarc) gres" where
  "aarc_shutdown hg =
     (let (h, g) = hg in
      case sweep (h, la_engine g) of
        None \<Rightarrow> GUndef
      | Some (h1, e) \<Rightarrow>
          GOk (h1, g\<lparr>la_engine := e,
                     la_metrics := (la_metrics g)\<lparr>mt_reclaimedObjects := en_reclaimedZero e, mt_cycleObjectsReclaimed := en_reclaimedCycle e,
                        mt_cycleScans := en_tarjanRuns e, mt_cycleScanVisited := en_tarjanVisited e,
                        mt_suspectBacklog := pendingSuspects e, mt_thresholdFinal := la_suspectThreshold g,
                        mt_thresholdMin := la_thresholdMinSeen g, mt_thresholdMax := la_thresholdMaxSeen g\<rparr>\<rparr>))"

definition collectorErrors :: "local_aarc \<Rightarrow> nat" where
  "collectorErrors g =
     (let e = la_engine g in en_staleDropped e + en_rootUnderflow e + en_edgeUnderflow e + cs_errs (en_cells e))"

definition LocalAarcBackend :: "local_aarc gc_backend" where
  "LocalAarcBackend = \<lparr>gc_name = ''aarc-local'', gc_onAlloc = aarc_onAlloc, gc_rootAdd = aarc_rootAdd,
     gc_rootRemove = aarc_rootRemove, gc_edgeAdd = aarc_edgeAdd, gc_edgeRemove = aarc_edgeRemove,
     gc_onExplicitFree = aarc_onExplicitFree, gc_shutdown = aarc_shutdown\<rparr>"

end
