(* ===== verification/Lx_CycleSpec.thy ===== *)
theory Lx_CycleSpec
  imports Lx_Cycle
begin

text \<open>
  Correctness of the component finder: the search returns, every node reachable from a live root is
  listed once, and two listed nodes carry the same component number exactly when each reaches the
  other.  The search keeps the low-link invariants of \<open>Lx_Tarjan\<close>; \<open>rem u\<close> is the part of the edge list
  of \<open>u\<close> that its frame has not looked at.
\<close>

definition scratch :: "nat \<Rightarrow> detector \<Rightarrow> nat list \<Rightarrow> bool" where
  "scratch n d vis \<longleftrightarrow> length (dt_disc d) = n \<and> length (dt_low d) = n \<and> length (dt_on d) = n \<and> length (dt_scc d) = n
     \<and> n < 2 ^ 32 \<and> distinct vis \<and> set vis \<subseteq> {..<n} \<and> dt_time d = length vis
     \<and> (\<forall>i < n. (dt_disc d ! i \<noteq> 0) = (i \<in> set vis)) \<and> (\<forall>i \<in> set vis. dt_disc d ! i \<le> length vis)
     \<and> (\<forall>i < n. dt_on d ! i = (i \<in> set (dt_tarjan d)))
     \<and> (\<forall>i < n. if i \<in> set vis - set (dt_tarjan d) then dt_scc d ! i < dt_comps d else dt_scc d ! i = kUnvisited)
     \<and> dt_comps d + length (dt_tarjan d) \<le> length vis"

lemma scratchD:
  assumes "scratch n d vis"
  shows "length (dt_disc d) = n" "length (dt_low d) = n" "length (dt_on d) = n" "length (dt_scc d) = n" "n < 2 ^ 32" "distinct vis"
    "set vis \<subseteq> {..<n}" "dt_time d = length vis" "i < n \<Longrightarrow> (dt_disc d ! i \<noteq> 0) = (i \<in> set vis)" "i \<in> set vis \<Longrightarrow> dt_disc d ! i \<le> length vis"
    "i < n \<Longrightarrow> dt_on d ! i = (i \<in> set (dt_tarjan d))"
    "i < n \<Longrightarrow> if i \<in> set vis - set (dt_tarjan d) then dt_scc d ! i < dt_comps d else dt_scc d ! i = kUnvisited"
    "dt_comps d + length (dt_tarjan d) \<le> length vis"
  using assms unfolding scratch_def by blast+

lemma scratchI:
  assumes "length (dt_disc d) = n" "length (dt_low d) = n" "length (dt_on d) = n" "length (dt_scc d) = n" "n < 2 ^ 32" "distinct vis"
    "set vis \<subseteq> {..<n}" "dt_time d = length vis" "\<And>i. i < n \<Longrightarrow> (dt_disc d ! i \<noteq> 0) = (i \<in> set vis)" "\<And>i. i \<in> set vis \<Longrightarrow> dt_disc d ! i \<le> length vis"
    "\<And>i. i < n \<Longrightarrow> dt_on d ! i = (i \<in> set (dt_tarjan d))"
    "\<And>i. i < n \<Longrightarrow> if i \<in> set vis - set (dt_tarjan d) then dt_scc d ! i < dt_comps d else dt_scc d ! i = kUnvisited"
    "dt_comps d + length (dt_tarjan d) \<le> length vis"
  shows "scratch n d vis"
  using assms unfolding scratch_def by blast

definition classes :: "(nat \<times> nat) set \<Rightarrow> nat set \<Rightarrow> (nat \<Rightarrow> nat) \<Rightarrow> bool" where
  "classes E C scc \<longleftrightarrow> (\<forall>x \<in> C. \<forall>y \<in> C. scc x = scc y \<longleftrightarrow> (x, y) \<in> E\<^sup>* \<and> (y, x) \<in> E\<^sup>*)"

definition frame_ok :: "ref_table \<Rightarrow> (nat \<Rightarrow> nat list) \<Rightarrow> nat \<Rightarrow> nat \<Rightarrow> bool" where
  "frame_ok tab rem u e \<longleftrightarrow> out_chain tab e (rem u) \<and> set (rem u) \<subseteq> set (out_ids tab u)"

definition dinv :: "heap \<Rightarrow> ref_table \<Rightarrow> nat set \<Rightarrow> nat list \<Rightarrow> nat list \<Rightarrow> (nat \<Rightarrow> nat list) \<Rightarrow> (nat \<times> nat) set \<Rightarrow> detector \<Rightarrow> nat list \<Rightarrow> bool" where
  "dinv pool tab Rs gs ns rem T d vis \<longleftrightarrow>
     scratch (length (rt_rec tab)) d vis
     \<and> tj (succs pool tab) (set vis) (dt_tarjan d) gs (nth (dt_disc d)) (nth (dt_low d)) (\<lambda>u. targets pool tab (rem u)) T
     \<and> classes (succs pool tab) (set vis - set (dt_tarjan d)) (nth (dt_scc d))
     \<and> list_all2 (frame_ok tab rem) gs ns
     \<and> (\<forall>i \<in> set vis. valid pool i \<and> (\<exists>r \<in> Rs. (r, i) \<in> (succs pool tab)\<^sup>*))"

lemma dinvD:
  assumes "dinv pool tab Rs gs ns rem T d vis"
  shows "scratch (length (rt_rec tab)) d vis"
    "tj (succs pool tab) (set vis) (dt_tarjan d) gs (nth (dt_disc d)) (nth (dt_low d)) (\<lambda>u. targets pool tab (rem u)) T"
    "classes (succs pool tab) (set vis - set (dt_tarjan d)) (nth (dt_scc d))"
    "list_all2 (frame_ok tab rem) gs ns"
    "i \<in> set vis \<Longrightarrow> valid pool i" "i \<in> set vis \<Longrightarrow> \<exists>r \<in> Rs. (r, i) \<in> (succs pool tab)\<^sup>*"
    "set gs \<subseteq> set vis" "set vis \<subseteq> {..<length (rt_rec tab)}"
proof -
  show *: "tj (succs pool tab) (set vis) (dt_tarjan d) gs (nth (dt_disc d)) (nth (dt_low d)) (\<lambda>u. targets pool tab (rem u)) T"
    and s: "scratch (length (rt_rec tab)) d vis"
    using assms by (simp_all add: dinv_def)
  show "set gs \<subseteq> set vis" using tjD(1,12) [OF *] by blast
  show "set vis \<subseteq> {..<length (rt_rec tab)}" using s by (simp add: scratch_def)
qed (use assms in \<open>simp_all add: dinv_def\<close>)

lemma succs_range: "(x, y) \<in> succs pool tab \<Longrightarrow> slotCapacity pool = length (rt_rec tab) \<Longrightarrow> y < length (rt_rec tab) \<and> valid pool y"
  by (auto simp: succs_def cs_valid_def)

lemma nth_upd: "i < length xs \<Longrightarrow> nth (xs[i := v]) = (nth xs)(i := v)"
  by (auto simp: fun_eq_iff nth_list_update)

section \<open>Discovering a node\<close>

lemma length_vis_less:
  assumes "distinct vis" and "set vis \<subseteq> {..<n}" and "v < n" and "v \<notin> set vis"
  shows "length vis < n"
proof -
  have "card (insert v (set vis)) \<le> card {..<n}" using assms by (intro card_mono) auto
  with assms show ?thesis by (simp add: distinct_card)
qed

lemma discover_scratch:
  assumes s: "scratch n d vis" and v: "v < n" "v \<notin> set vis" and tar: "set (dt_tarjan d) \<subseteq> set vis"
  shows "discover tab v (d, vis) = (d\<lparr>dt_time := length vis + 1, dt_disc := (dt_disc d)[v := length vis + 1],
      dt_low := (dt_low d)[v := length vis + 1], dt_on := (dt_on d)[v := True], dt_tarjan := v # dt_tarjan d,
      dt_frameNext := firstOut tab v # tl (dt_frameNext d)\<rparr>, vis @ [v])"
    and "scratch n (fst (discover tab v (d, vis))) (vis @ [v])"
proof -
  have "length vis < n" using s v length_vis_less by (simp add: scratch_def)
  then have "u32_cast (dt_time d + 1) = length vis + 1" using s by (simp add: scratch_def u32_cast_def)
  moreover have "dt_disc d ! v = 0" using s v unfolding scratch_def by blast
  ultimately show eq: "discover tab v (d, vis) = (d\<lparr>dt_time := length vis + 1, dt_disc := (dt_disc d)[v := length vis + 1],
      dt_low := (dt_low d)[v := length vis + 1], dt_on := (dt_on d)[v := True], dt_tarjan := v # dt_tarjan d,
      dt_frameNext := firstOut tab v # tl (dt_frameNext d)\<rparr>, vis @ [v])"
    unfolding discover_def by (simp only: Let_def prod.case simp_thms if_True)
  show "scratch n (fst (discover tab v (d, vis))) (vis @ [v])"
    using s v tar unfolding eq scratch_def by (auto simp: nth_list_update le_SucI)
qed

lemma dinv_discover:
  assumes i: "dinv pool tab Rs gs ns rem T d vis" and wf: "rt_wf tab" "slotCapacity pool = length (rt_rec tab)"
    and v: "v \<notin> set vis" "v < length (rt_rec tab)" "valid pool v" "gs = [] \<Longrightarrow> v \<in> Rs"
    and T: "T = (if gs = [] then {} else {(hd gs, v)})" "T \<subseteq> succs pool tab"
    and f: "dt_frameNext d = e # ns"
  shows "dinv pool tab Rs (v # gs) (dt_frameNext (fst (discover tab v (d, vis)))) (rem(v := out_ids tab v)) {}
    (fst (discover tab v (d, vis))) (vis @ [v])"
proof -
  let ?E = "succs pool tab"
  note D = dinvD [OF i]
  note t = tjD [OF D(2)]
  have s: "scratch (length (rt_rec tab)) d vis" by (rule D(1))
  note ds = discover_scratch [OF s v(2,1) t(1), of tab]
  let ?d = "fst (discover tab v (d, vis))"
  have d: "dt_tarjan ?d = v # dt_tarjan d" "nth (dt_disc ?d) = (nth (dt_disc d))(v := length vis + 1)"
    "nth (dt_low ?d) = (nth (dt_low d))(v := length vis + 1)" "dt_scc ?d = dt_scc d" "dt_frameNext ?d = firstOut tab v # ns"
    using s v f nth_upd [of v "dt_disc d"] nth_upd [of v "dt_low d"] by (simp_all add: ds(1) scratch_def)
  have tj: "tj ?E (insert v (set vis)) (v # dt_tarjan d) (v # gs) ((nth (dt_disc d))(v := length vis + 1))
      ((nth (dt_low d))(v := length vis + 1)) (\<lambda>u. targets pool tab ((rem(v := out_ids tab v)) u)) {}"
  proof (rule tj_discover [OF D(2) v(1) _ T])
    show "dt_disc d ! x < length vis + 1" if "x \<in> set vis" for x using s that by (auto simp: scratch_def)
    show "(v, y) \<in> ?E \<Longrightarrow> y \<in> targets pool tab ((rem(v := out_ids tab v)) v)" for y using targets_succs [OF v(2)] by simp
    show "x \<in> set gs \<Longrightarrow> targets pool tab ((rem(v := out_ids tab v)) x) = targets pool tab (rem x)" for x
      using D(7) v(1) by auto
  qed
  have cl: "insert v (set vis) - set (v # dt_tarjan d) = set vis - set (dt_tarjan d)" using v(1) by auto
  have ch: "list_all2 (frame_ok tab (rem(v := out_ids tab v))) (v # gs) (firstOut tab v # ns)"
  proof -
    have "list_all2 (frame_ok tab (rem(v := out_ids tab v))) gs ns"
      by (rule list.rel_mono_strong [OF D(4)]) (use D(7) v(1) in \<open>auto simp: frame_ok_def\<close>)
    then show ?thesis using out_chain_first [OF wf(1) v(2)] by (simp add: frame_ok_def)
  qed
  have rt: "\<exists>r \<in> Rs. (r, v) \<in> ?E\<^sup>*"
  proof (cases gs)
    case (Cons p gs')
    then obtain r where "r \<in> Rs" "(r, p) \<in> ?E\<^sup>*" using D(6) [of p] D(7) by auto
    moreover have "(p, v) \<in> ?E" using T Cons by simp
    ultimately show ?thesis by (meson rtrancl_into_rtrancl)
  qed (use v(4) in auto)
  show ?thesis unfolding dinv_def d using tj cl D(3,5,6) ch ds(2) rt v(3) by auto
qed

section \<open>Following an edge\<close>

lemma dinv_frames [simp]:
  "dinv pool tab Rs gs ns rem T (d\<lparr>dt_frames := a\<rparr>) vis = dinv pool tab Rs gs ns rem T d vis"
  "dinv pool tab Rs gs ns rem T (d\<lparr>dt_frameNext := b\<rparr>) vis = dinv pool tab Rs gs ns rem T d vis"
  by (simp_all add: dinv_def scratch_def)

lemma dinv_gs_distinct: "dinv pool tab Rs gs ns rem T d vis \<Longrightarrow> distinct gs"
  by (rule sorted_disc_distinct [OF tj_gs_sorted [OF dinvD(2)]])

lemma dinv_head:
  assumes "dinv pool tab Rs (u # gs) (e # ns) rem T d vis" and "e \<noteq> kNoEdge"
  obtains es where "rem u = e # es" "list_all2 (frame_ok tab (rem(u := es))) (u # gs) (nextOut tab e # ns)"
proof -
  have c: "frame_ok tab rem u e" "list_all2 (frame_ok tab rem) gs ns" using dinvD(4) [OF assms(1)] by simp_all
  with assms(2) obtain es where r: "rem u = e # es" "out_chain tab (nextOut tab e) es" by (cases "rem u") (auto simp: frame_ok_def)
  have "u \<notin> set gs" using dinv_gs_distinct [OF assms(1)] by simp
  then have "list_all2 (frame_ok tab (rem(u := es))) gs ns"
    by (intro list.rel_mono_strong [OF c(2)]) (auto simp: frame_ok_def)
  with r c(1) that show thesis by (auto simp: frame_ok_def)
qed

lemma dinv_next:
  assumes i: "dinv pool tab Rs (u # gs) (e # ns) rem {} d vis"
    and r: "rem u = e # es" "list_all2 (frame_ok tab rem') (u # gs) (nextOut tab e # ns)" "rem' = rem(u := es)"
    and T: "cs_valid pool (edgeTarget tab e) \<Longrightarrow> (u, oh_index (edgeTarget tab e)) \<in> T \<or> oh_index (edgeTarget tab e) \<in> set vis - set (dt_tarjan d)"
  shows "dinv pool tab Rs (u # gs) (nextOut tab e # ns) rem' T d vis"
proof -
  note D = dinvD [OF i]
  have "tj (succs pool tab) (set vis) (dt_tarjan d) (u # gs) (nth (dt_disc d)) (nth (dt_low d)) (\<lambda>u. targets pool tab (rem' u)) T"
  proof (rule tj_weaken [OF D(2)])
    fix x y assume a: "(x, y) \<in> {} \<or> x \<in> set (u # gs) \<and> y \<in> targets pool tab (rem x)"
    show "(x, y) \<in> T \<or> x \<in> set (u # gs) \<and> y \<in> targets pool tab (rem' x) \<or> y \<in> set vis \<and> y \<notin> set (dt_tarjan d)"
      using a T r(1,3) by (cases "x = u") (auto simp: targets_Cons split: if_splits)
  qed
  with D r(2) show ?thesis by (simp add: dinv_def)
qed

lemma dinv_seen:
  assumes i: "dinv pool tab Rs (u # gs) (e # ns) rem {} d vis"
    and r: "rem u = e # es" "list_all2 (frame_ok tab rem') (u # gs) (nextOut tab e # ns)" "rem' = rem(u := es)"
    and v: "cs_valid pool (edgeTarget tab e)" "oh_index (edgeTarget tab e) = v" "v \<in> set vis" and u: "(u, v) \<in> succs pool tab"
    and l: "low = (if v \<in> set (dt_tarjan d) \<and> dt_disc d ! v < dt_low d ! u then (dt_low d)[u := dt_disc d ! v] else dt_low d)"
  shows "dinv pool tab Rs (u # gs) (nextOut tab e # ns) rem' {} (d\<lparr>dt_low := low\<rparr>) vis"
proof -
  note D = dinvD [OF i]
  have ul: "u < length (dt_low d)" "length low = length (dt_low d)" using D(1,7,8) l by (auto simp: scratch_def)
  have nl: "nth low = (if v \<in> set (dt_tarjan d) \<and> dt_disc d ! v < dt_low d ! u then (nth (dt_low d))(u := dt_disc d ! v) else nth (dt_low d))"
    unfolding l using nth_upd [OF ul(1)] by simp
  have "tj (succs pool tab) (set vis) (dt_tarjan d) (u # gs) (nth (dt_disc d)) (nth low) (\<lambda>u. targets pool tab (rem' u)) {}"
  proof (rule tj_seen [OF D(2) v(3) u _ _ nl])
    show "targets pool tab (rem u) \<subseteq> insert v (targets pool tab (rem' u))" using r(1,3) v(2) by (auto simp: targets_Cons split: if_splits)
    show "x \<in> set gs \<Longrightarrow> targets pool tab (rem' x) = targets pool tab (rem x)" for x
      using r(3) dinv_gs_distinct [OF i] by auto
  qed
  moreover have "scratch (length (rt_rec tab)) (d\<lparr>dt_low := low\<rparr>) vis" using D(1) ul(2) by (simp add: scratch_def)
  ultimately show ?thesis using D(3,5,6) r(2) by (simp add: dinv_def)
qed

section \<open>Finishing a node\<close>

lemma pop_until_spec:
  "u \<notin> set pre \<Longrightarrow> pop_until u (pre @ u # post) d =
     Some (d\<lparr>dt_tarjan := post, dt_on := fold (\<lambda>w xs. xs[w := False]) (pre @ [u]) (dt_on d),
             dt_scc := fold (\<lambda>w xs. xs[w := dt_comps d]) (pre @ [u]) (dt_scc d)\<rparr>)"
  by (induction pre arbitrary: d) (simp_all add: Let_def)

lemma close_scc_eq:
  assumes "dt_low d ! u = dt_disc d ! u" and "dt_tarjan d = pre @ u # post" and "u \<notin> set pre"
    and "on' = fold (\<lambda>w xs. xs[w := False]) (pre @ [u]) (dt_on d)" and "scc' = fold (\<lambda>w xs. xs[w := dt_comps d]) (pre @ [u]) (dt_scc d)"
  shows "close_scc u d = Some (d\<lparr>dt_tarjan := post, dt_on := on', dt_scc := scc', dt_comps := u32_cast (dt_comps d + 1)\<rparr>)"
  using assms by (simp add: close_scc_def pop_until_spec)

lemma fold_upd:
  "set ws \<subseteq> {..<length xs} \<Longrightarrow> length (fold (\<lambda>w xs. xs[w := c]) ws xs) = length xs
     \<and> (\<forall>i. fold (\<lambda>w xs. xs[w := c]) ws xs ! i = (if i \<in> set ws then c else xs ! i))"
proof (induction ws arbitrary: xs)
  case (Cons w ws)
  from Cons.IH [of "xs[w := c]"] Cons.prems show ?case by (auto simp: nth_list_update)
qed simp

lemma classes_close:
  assumes c: "classes E C scc" and s: "\<And>x y. x \<in> S \<Longrightarrow> y \<in> S \<Longrightarrow> (x, y) \<in> E\<^sup>*" and disj: "C \<inter> S = {}"
    and closed: "\<And>x y. x \<in> C \<Longrightarrow> (x, y) \<in> E \<Longrightarrow> y \<in> C" and lt: "\<And>x. x \<in> C \<Longrightarrow> scc x < k"
  shows "classes E (C \<union> S) (\<lambda>i. if i \<in> S then k else scc i)"
proof -
  have no: "(x, y) \<notin> E\<^sup>*" if "x \<in> C" "y \<in> S" for x y
    using closed_reach [of x y E C] that closed disj by blast
  show ?thesis unfolding classes_def
  proof (intro ballI)
    fix x y assume xy: "x \<in> C \<union> S" "y \<in> C \<union> S"
    consider "x \<in> S" "y \<in> S" | "x \<in> C" "y \<in> S" | "x \<in> S" "y \<in> C" | "x \<in> C" "y \<in> C" using xy by blast
    then show "((if x \<in> S then k else scc x) = (if y \<in> S then k else scc y)) = ((x, y) \<in> E\<^sup>* \<and> (y, x) \<in> E\<^sup>*)"
    proof cases
      case 1 then show ?thesis using s by simp
    next
      case 2 then show ?thesis using no [OF 2] lt [OF 2(1)] disj by auto
    next
      case 3 then show ?thesis using no [OF 3(2,1)] lt [OF 3(2)] disj by auto
    next
      case 4 then show ?thesis using c disj unfolding classes_def by (metis disjoint_iff)
    qed
  qed
qed

lemma dinv_close:
  assumes i: "dinv pool tab Rs (u # gs) (kNoEdge # ns) rem {} d vis" and eq: "dt_low d ! u = dt_disc d ! u"
  obtains d' where "close_scc u d = Some d'" "dinv pool tab Rs gs ns rem {} d' vis" "dt_frames d' = dt_frames d"
    "dt_frameNext d' = dt_frameNext d" "dt_low d' = dt_low d" "dt_disc d' = dt_disc d"
proof -
  let ?E = "succs pool tab" and ?n = "length (rt_rec tab)"
  note D = dinvD [OF i]
  note t = tjD [OF D(2)]
  have fr: "frame_ok tab rem u kNoEdge" using D(4) by simp
  then have "rem u = []" by (cases "rem u") (auto simp: frame_ok_def)
  then have pu: "targets pool tab (rem u) = {}" by simp
  have dt: "distinct (dt_tarjan d)" by (rule sorted_disc_distinct [OF t(3)])
  have "u \<in> set (dt_tarjan d)" using t(12) by simp
  then obtain pre post where tar: "dt_tarjan d = pre @ u # post" and u: "u \<notin> set pre" by (metis split_list_first)
  note cl = tj_close [OF D(2) [unfolded tar] pu eq u]
  let ?S = "set (pre @ [u])" and ?C = "set vis - set (dt_tarjan d)"
  have SV: "?S \<subseteq> set vis" "set post \<subseteq> set vis" using t(1) tar by auto
  have disj: "?S \<inter> set post = {}" using dt tar by auto
  have s: "scratch ?n d vis" by (rule D(1))
  have V: "set vis \<subseteq> {..<?n}" by (rule D(8))
  have len: "length vis \<le> ?n" using card_mono [of "{..<?n}" "set vis"] V by (simp add: scratchD(6) [OF s] distinct_card)
  have k: "u32_cast (dt_comps d + 1) = dt_comps d + 1" using scratchD(5,13) [OF s] len tar by (simp add: u32_cast_def)
  define on' where "on' = fold (\<lambda>w xs. xs[w := False]) (pre @ [u]) (dt_on d)"
  define scc' where "scc' = fold (\<lambda>w xs. xs[w := dt_comps d]) (pre @ [u]) (dt_scc d)"
  define d' where "d' = d\<lparr>dt_tarjan := post, dt_on := on', dt_scc := scc', dt_comps := dt_comps d + 1\<rparr>"
  have c: "close_scc u d = Some d'"
    using close_scc_eq [OF eq tar u on'_def scc'_def] unfolding k d'_def .
  note lens = scratchD(3,4) [OF s]
  have sub: "set (pre @ [u]) \<subseteq> {..<length (dt_on d)}" "set (pre @ [u]) \<subseteq> {..<length (dt_scc d)}"
    unfolding lens using subset_trans [OF SV(1) V] by -
  note fu = fold_upd [OF sub(1), of False, folded on'_def] fold_upd [OF sub(2), of "dt_comps d", folded scc'_def]
  have on: "length on' = ?n" "on' ! j = (if j \<in> ?S then False else dt_on d ! j)" for j
    by (rule trans [OF conjunct1 [OF fu(1)] lens(1)]) (rule spec [OF conjunct2 [OF fu(1)]])
  have scc: "length scc' = ?n" "scc' ! j = (if j \<in> ?S then dt_comps d else dt_scc d ! j)" for j
    by (rule trans [OF conjunct1 [OF fu(2)] lens(2)]) (rule spec [OF conjunct2 [OF fu(2)]])
  have CS: "set vis - set post = ?C \<union> ?S" using SV disj tar by auto
  have f: "dt_disc d' = dt_disc d" "dt_low d' = dt_low d" "dt_on d' = on'" "dt_scc d' = scc'" "dt_tarjan d' = post" "dt_comps d' = dt_comps d + 1"
    "dt_time d' = dt_time d" by (simp_all add: d'_def)
  have s': "scratch ?n d' vis"
  proof -
    note sd = scratchD [OF s]
    have o: "on' ! j = (j \<in> set post)" if "j < ?n" for j using sd(11) [OF that] tar on(2) [of j] disj by auto
    have c: "if j \<in> set vis - set post then scc' ! j < dt_comps d + 1 else scc' ! j = kUnvisited" if j: "j < ?n" for j
    proof (cases "j \<in> ?S")
      case True
      then show ?thesis using CS scc(2) [of j] by auto
    next
      case False
      then show ?thesis using sd(12) [OF j] CS scc(2) [of j] by (auto split: if_splits)
    qed
    have "dt_comps d + 1 + length post \<le> length vis" using sd(13) tar by simp
    then show ?thesis by (intro scratchI) (simp_all only: f sd(1-10) on(1) scc(1) o, rule c)
  qed
  have lt: "dt_scc d ! x < dt_comps d" if "x \<in> ?C" for x
  proof -
    have "x < ?n" using that V by auto
    from scratchD(12) [OF s this] that show ?thesis by simp
  qed
  have "classes ?E (?C \<union> ?S) (\<lambda>i. if i \<in> ?S then dt_comps d else dt_scc d ! i)"
  proof (rule classes_close [OF D(3)])
    show "(x, y) \<in> ?E\<^sup>*" if "x \<in> ?S" "y \<in> ?S" for x y using cl(2) [OF that(1)] cl(2) [OF that(2)] by (meson rtrancl_trans)
    show "?C \<inter> ?S = {}" using tar by auto
    show "y \<in> ?C" if "x \<in> ?C" "(x, y) \<in> ?E" for x y using t(11) [of x y] that by auto
  qed (rule lt)
  moreover have "nth scc' = (\<lambda>i. if i \<in> ?S then dt_comps d else dt_scc d ! i)" using scc(2) by (simp add: fun_eq_iff)
  ultimately have "classes ?E (set vis - set post) (nth scc')" using CS by simp
  then have "dinv pool tab Rs gs ns rem {} d' vis" using s' cl(1) D(4,5,6) unfolding dinv_def by (simp add: d'_def)
  then show thesis by (rule that [OF c]) (simp_all add: d'_def)
qed

lemma dinv_finish:
  assumes i: "dinv pool tab Rs (u # gs) (kNoEdge # ns) rem {} d vis" and f: "dt_frames d = u # gs" "dt_frameNext d = kNoEdge # ns"
  obtains d' where "finishNode u d = Some d'" "dinv pool tab Rs gs ns rem {} d' vis" "dt_frames d' = gs" "dt_frameNext d' = ns"
proof -
  let ?d = "d\<lparr>dt_frames := gs, dt_frameNext := ns\<rparr>"
  have i': "dinv pool tab Rs (u # gs) (kNoEdge # ns) rem {} ?d vis" using i by simp
  note D = dinvD [OF i]
  note t = tjD [OF D(2)]
  have fin: "finishNode u d = map_option (fold_low u) (close_scc u ?d)" by (simp add: finishNode_def f)
  have s: "sorted_wrt (\<lambda>x y. dt_disc d ! y < dt_disc d ! x) (u # gs)" by (rule tj_gs_sorted [OF D(2)])
  show thesis
  proof (cases "dt_low d ! u = dt_disc d ! u")
    case True
    then have "dt_low ?d ! u = dt_disc ?d ! u" by simp
    from dinv_close [OF i' this] obtain d' where d': "close_scc u ?d = Some d'" "dinv pool tab Rs gs ns rem {} d' vis" "dt_frames d' = gs"
      "dt_frameNext d' = ns" "dt_low d' = dt_low d" by auto
    have "\<not> dt_low d ! u < dt_low d ! p" if "p \<in> set gs" for p
    proof -
      have "dt_disc d ! p < dt_disc d ! u" using s that by simp
      with t(6) [of p] True that show ?thesis by simp
    qed
    then have "fold_low u d' = d'" using d'(3,5) by (auto simp: fold_low_def split: list.split)
    with d' fin that show ?thesis by simp
  next
    case False
    then have lt: "dt_low d ! u < dt_disc d ! u" using t(6) [of u] by simp
    have "gs \<noteq> []" using tj_bottom D(2) False by blast
    then obtain p gs' where gs: "gs = p # gs'" by (cases gs) auto
    have "rem u = []" using D(4) by (cases "rem u") (auto simp: frame_ok_def)
    then have pu: "targets pool tab (rem u) = {}" by simp
    have p: "p < length (dt_low d)" using D(1,7,8) gs by (auto simp: scratch_def)
    let ?low = "if dt_low d ! u < dt_low d ! p then (dt_low d)[p := dt_low d ! u] else dt_low d"
    have "nth ?low = (nth (dt_low d))(p := min (dt_low d ! p) (dt_low d ! u))"
      using nth_upd [OF p] by (auto simp: fun_eq_iff)
    then have "tj (succs pool tab) (set vis) (dt_tarjan d) gs (nth (dt_disc d)) (nth ?low) (\<lambda>u. targets pool tab (rem u)) {}"
      using tj_fold [OF D(2) [unfolded gs] pu lt] gs by simp
    moreover have "scratch (length (rt_rec tab)) (?d\<lparr>dt_low := ?low\<rparr>) vis" using D(1) by (simp add: scratch_def)
    ultimately have "dinv pool tab Rs gs ns rem {} (?d\<lparr>dt_low := ?low\<rparr>) vis" using D(3,4,5,6) by (simp add: dinv_def)
    moreover have "finishNode u d = Some (?d\<lparr>dt_low := ?low\<rparr>)" using False by (simp add: fin close_scc_def fold_low_def gs)
    ultimately show ?thesis using that by simp
  qed
qed

section \<open>The search loop\<close>

text \<open>
  The loop ends: an undiscovered node weighs twice its edges plus one, an open frame twice the edges
  it has left plus one, and a node pushed but not discovered one.
\<close>

definition potential :: "ref_table \<Rightarrow> nat list \<Rightarrow> (nat \<Rightarrow> nat list) \<Rightarrow> nat list \<Rightarrow> nat" where
  "potential tab gs rem vis = (\<Sum>i \<in> {..<length (rt_rec tab)} - set vis. 2 * length (out_ids tab i) + 1)
     + sum_list (map (\<lambda>u. 2 * length (rem u) + 1) gs)"

definition pushed :: "heap \<Rightarrow> ref_table \<Rightarrow> nat set \<Rightarrow> nat list \<Rightarrow> nat list \<Rightarrow> nat \<Rightarrow> (nat \<times> nat) set \<Rightarrow> bool" where
  "pushed pool tab Rs gs vis v T \<longleftrightarrow> v \<notin> set vis \<and> v < length (rt_rec tab) \<and> valid pool v \<and> (gs = [] \<longrightarrow> v \<in> Rs)
     \<and> T = (if gs = [] then {} else {(hd gs, v)}) \<and> T \<subseteq> succs pool tab"

definition linv :: "heap \<Rightarrow> ref_table \<Rightarrow> nat set \<Rightarrow> nat \<Rightarrow> detector \<Rightarrow> nat list \<Rightarrow> bool" where
  "linv pool tab Rs m d vis \<longleftrightarrow>
     (\<exists>rem. dinv pool tab Rs (dt_frames d) (dt_frameNext d) rem {} d vis \<and> m = potential tab (dt_frames d) rem vis)
     \<or> (\<exists>rem v gs e ns T. dt_frames d = v # gs \<and> dt_frameNext d = e # ns \<and> dinv pool tab Rs gs ns rem T d vis
          \<and> pushed pool tab Rs gs vis v T \<and> m = potential tab gs rem vis + 1)"

lemma potential_rem: "u \<notin> set gs \<Longrightarrow> potential tab (u # gs) (rem(u := es)) vis + 2 * length (rem u) = potential tab (u # gs) rem vis + 2 * length es"
proof -
  assume "u \<notin> set gs"
  then have m: "map (\<lambda>x. 2 * length ((rem(u := es)) x) + 1) gs = map (\<lambda>x. 2 * length (rem x) + 1) gs" by auto
  show ?thesis unfolding potential_def list.map(2) sum_list.Cons m fun_upd_same by linarith
qed

lemma potential_discover:
  assumes "v \<notin> set vis" and "v < length (rt_rec tab)" and "v \<notin> set gs"
  shows "potential tab (v # gs) (rem(v := out_ids tab v)) (vis @ [v]) = potential tab gs rem vis"
proof -
  let ?n = "{..<length (rt_rec tab)}" and ?w = "\<lambda>i. 2 * length (out_ids tab i) + 1"
  have m: "map (\<lambda>x. 2 * length ((rem(v := out_ids tab v)) x) + 1) gs = map (\<lambda>x. 2 * length (rem x) + 1) gs" using assms(3) by auto
  have "?n - set vis = insert v (?n - set (vis @ [v]))" using assms by auto
  then have "sum ?w (?n - set vis) = sum ?w (insert v (?n - set (vis @ [v])))" by (rule arg_cong)
  also have "\<dots> = ?w v + sum ?w (?n - set (vis @ [v]))" by (rule sum.insert) simp_all
  finally have "sum ?w (?n - set vis) = ?w v + sum ?w (?n - set (vis @ [v]))" .
  then show ?thesis unfolding potential_def list.map(2) sum_list.Cons m fun_upd_same by linarith
qed

lemma linv_discover:
  assumes l: "linv pool tab Rs m d vis" and wf: "rt_wf tab" "slotCapacity pool = length (rt_rec tab)" and u: "dt_frames d = u # gs"
    and e: "discover tab u (d, vis) = (d1, vis1)"
  obtains rem e ns where "dt_frames d1 = u # gs" "dt_frameNext d1 = e # ns" "dinv pool tab Rs (u # gs) (e # ns) rem {} d1 vis1"
    "potential tab (u # gs) rem vis1 \<le> m"
  using l unfolding linv_def
proof (elim disjE exE conjE)
  fix rem assume i: "dinv pool tab Rs (dt_frames d) (dt_frameNext d) rem {} d vis" and m: "m = potential tab (dt_frames d) rem vis"
  have "u \<in> set vis" "u < length (rt_rec tab)" using dinvD(7,8) [OF i] u by auto
  then have "dt_disc d ! u \<noteq> 0" using dinvD(1) [OF i] unfolding scratch_def by blast
  then have "d1 = d" "vis1 = vis" using e by (simp_all add: discover_def)
  moreover obtain e ns where "dt_frameNext d = e # ns" using dinvD(4) [OF i] u by (cases "dt_frameNext d") auto
  ultimately show thesis using that [of e ns rem] i m u by simp
next
  fix rem v gs' e' ns T
  assume f: "dt_frames d = v # gs'" "dt_frameNext d = e' # ns" and i: "dinv pool tab Rs gs' ns rem T d vis"
    and p: "pushed pool tab Rs gs' vis v T" and m: "m = potential tab gs' rem vis + 1"
  have v: "v = u" "gs' = gs" using f u by simp_all
  have p': "u \<notin> set vis" "u < length (rt_rec tab)" "valid pool u" "gs = [] \<Longrightarrow> u \<in> Rs" "T = (if gs = [] then {} else {(hd gs, u)})"
    "T \<subseteq> succs pool tab" using p v unfolding pushed_def by blast+
  have e': "fst (discover tab u (d, vis)) = d1" using e by simp
  have i1: "dinv pool tab Rs (u # gs) (dt_frameNext d1) (rem(u := out_ids tab u)) {} d1 (vis @ [u])"
    using dinv_discover [OF i [unfolded v] wf p' f(2)] e' by simp
  note ds = discover_scratch(1) [OF dinvD(1) [OF i] p'(2,1) tjD(1) [OF dinvD(2) [OF i]], of tab]
  have d1: "dt_frames d1 = u # gs" "dt_frameNext d1 = firstOut tab u # ns" "vis1 = vis @ [u]"
    using e unfolding ds prod.inject using f v by auto
  have "u \<notin> set gs" using dinvD(7) [OF i] v p'(1) by auto
  then have "potential tab (u # gs) (rem(u := out_ids tab u)) vis1 \<le> m"
    using potential_discover [OF p'(1,2)] d1(3) m v by simp
  with d1 i1 show thesis by (intro that) simp_all
qed

lemma linv_follow:
  assumes wf: "slotCapacity pool = length (rt_rec tab)" and f: "dt_frames d = u # gs" "dt_frameNext d = e # ns" and ne: "e \<noteq> kNoEdge"
    and i: "dinv pool tab Rs (u # gs) (e # ns) rem {} d vis"
  shows "\<exists>m < potential tab (u # gs) rem vis. linv pool tab Rs m (follow pool tab u d) vis"
proof -
  note D = dinvD [OF i]
  obtain es where r: "rem u = e # es" "list_all2 (frame_ok tab (rem(u := es))) (u # gs) (nextOut tab e # ns)"
    by (rule dinv_head [OF i ne])
  let ?rem = "rem(u := es)" and ?v = "oh_index (edgeTarget tab e)"
  have ug: "u \<notin> set gs" "u < length (rt_rec tab)" using dinv_gs_distinct [OF i] D(7,8) by auto
  have pot: "potential tab (u # gs) ?rem vis + 2 = potential tab (u # gs) rem vis" using potential_rem [OF ug(1), of tab rem es vis] r(1) by simp
  have eu: "e \<in> set (out_ids tab u)" using D(4) r(1) by (auto simp: frame_ok_def)
  have edge: "(u, ?v) \<in> succs pool tab" if "cs_valid pool (edgeTarget tab e)"
    using targets_succs [OF ug(2), of ?v pool] that eu by (auto simp: targets_def)
  define d1 where "d1 = d\<lparr>dt_frameNext := nextOut tab e # ns\<rparr>"
  have fol: "follow pool tab u d =
      (if \<not> cs_valid pool (edgeTarget tab e) then d1
       else if dt_disc d ! ?v = 0 then d1\<lparr>dt_frames := ?v # u # gs, dt_frameNext := kNoEdge # nextOut tab e # ns\<rparr>
       else if dt_on d ! ?v \<and> dt_disc d ! ?v < dt_low d ! u then d1\<lparr>dt_low := (dt_low d)[u := dt_disc d ! ?v]\<rparr>
       else d1)" by (simp add: follow_def f d1_def Let_def)
  have d1: "dt_frames d1 = u # gs" "dt_frameNext d1 = nextOut tab e # ns" by (simp_all add: d1_def f)
  consider "\<not> cs_valid pool (edgeTarget tab e)" | "cs_valid pool (edgeTarget tab e)" "dt_disc d ! ?v = 0"
    | "cs_valid pool (edgeTarget tab e)" "dt_disc d ! ?v \<noteq> 0" by blast
  then show ?thesis
  proof cases
    case 1
    then have "dinv pool tab Rs (u # gs) (nextOut tab e # ns) ?rem {} d1 vis"
      using dinv_next [OF i r refl, of "{}"] by (simp add: d1_def)
    then have "linv pool tab Rs (potential tab (u # gs) ?rem vis) d1 vis" unfolding linv_def d1 by blast
    with 1 pot show ?thesis by (intro exI [of _ "potential tab (u # gs) ?rem vis"]) (simp add: fol)
  next
    case 2
    let ?d = "d1\<lparr>dt_frames := ?v # u # gs, dt_frameNext := kNoEdge # nextOut tab e # ns\<rparr>"
    have v: "?v < length (rt_rec tab)" "valid pool ?v" using succs_range [OF edge [OF 2(1)] wf] by simp_all
    have "?v \<notin> set vis" using D(1) v(1) 2(2) unfolding scratch_def by blast
    then have "pushed pool tab Rs (u # gs) vis ?v {(u, ?v)}" using v edge [OF 2(1)] by (simp add: pushed_def)
    moreover have "dinv pool tab Rs (u # gs) (nextOut tab e # ns) ?rem {(u, ?v)} ?d vis"
      using dinv_next [OF i r refl, of "{(u, ?v)}"] by (simp add: d1_def)
    moreover have "dt_frames ?d = ?v # u # gs" "dt_frameNext ?d = kNoEdge # nextOut tab e # ns" by simp_all
    ultimately have "linv pool tab Rs (potential tab (u # gs) ?rem vis + 1) ?d vis" unfolding linv_def by blast
    moreover have "follow pool tab u d = ?d" using 2 by (simp add: fol)
    ultimately show ?thesis using pot by (intro exI [of _ "potential tab (u # gs) ?rem vis + 1"]) simp
  next
    case 3
    have v: "?v < length (rt_rec tab)" using succs_range [OF edge [OF 3(1)] wf] by simp
    then have vv: "?v \<in> set vis" using D(1) 3(2) unfolding scratch_def by blast
    have on: "dt_on d ! ?v = (?v \<in> set (dt_tarjan d))" using D(1) v unfolding scratch_def by blast
    let ?low = "if ?v \<in> set (dt_tarjan d) \<and> dt_disc d ! ?v < dt_low d ! u then (dt_low d)[u := dt_disc d ! ?v] else dt_low d"
    have "follow pool tab u d = d1\<lparr>dt_low := ?low\<rparr>" using 3 on by (simp add: fol d1_def)
    moreover have "d1\<lparr>dt_low := ?low\<rparr> = d\<lparr>dt_low := ?low, dt_frameNext := nextOut tab e # ns\<rparr>" by (simp add: d1_def)
    ultimately have fe: "follow pool tab u d = d\<lparr>dt_low := ?low, dt_frameNext := nextOut tab e # ns\<rparr>" by simp
    have "dinv pool tab Rs (u # gs) (nextOut tab e # ns) ?rem {} (d\<lparr>dt_low := ?low\<rparr>) vis"
      by (rule dinv_seen [OF i r refl 3(1) refl vv edge [OF 3(1)] refl])
    then have "linv pool tab Rs (potential tab (u # gs) ?rem vis) (follow pool tab u d) vis"
      unfolding linv_def fe by (intro disjI1) (auto simp: f)
    with pot show ?thesis by (intro exI [of _ "potential tab (u # gs) ?rem vis"]) simp
  qed
qed

lemma visit_step_linv:
  assumes l: "linv pool tab Rs m d vis" and wf: "rt_wf tab" "slotCapacity pool = length (rt_rec tab)" and u: "dt_frames d = u # gs"
  shows "\<exists>m' d' vis'. visit_step pool tab (d, vis) = Some (d', vis') \<and> m' < m \<and> linv pool tab Rs m' d' vis' \<and> insert u (set vis) \<subseteq> set vis'"
proof -
  obtain d1 vis1 where e: "discover tab u (d, vis) = (d1, vis1)" by (cases "discover tab u (d, vis)")
  obtain rem e' ns where d1: "dt_frames d1 = u # gs" "dt_frameNext d1 = e' # ns" and i: "dinv pool tab Rs (u # gs) (e' # ns) rem {} d1 vis1"
    and p: "potential tab (u # gs) rem vis1 \<le> m"
    by (rule linv_discover [OF l wf u e])
  have sub: "insert u (set vis) \<subseteq> set vis1"
    using e dinvD(7) [OF i] by (auto simp: discover_def Let_def split: if_splits)
  have st: "visit_step pool tab (d, vis) = (if e' \<noteq> kNoEdge then Some (follow pool tab u d1, vis1) else map_option (\<lambda>d. (d, vis1)) (finishNode u d1))"
    by (simp add: visit_step_def u e d1)
  show ?thesis
  proof (cases "e' = kNoEdge")
    case False
    from linv_follow [OF wf(2) d1 False i] obtain m' where "m' < potential tab (u # gs) rem vis1" "linv pool tab Rs m' (follow pool tab u d1) vis1" by blast
    with False st sub p show ?thesis by (intro exI conjI) (auto intro: less_le_trans)
  next
    case True
    obtain d' where d': "finishNode u d1 = Some d'" "dinv pool tab Rs gs ns rem {} d' vis1" "dt_frames d' = gs" "dt_frameNext d' = ns"
      by (rule dinv_finish [OF i [unfolded True] d1 [unfolded True]])
    have "linv pool tab Rs (potential tab gs rem vis1) d' vis1" unfolding linv_def using d'(2-4) by blast
    moreover have "potential tab gs rem vis1 < m" using p by (simp add: potential_def)
    ultimately show ?thesis using True st sub d'(1) by auto
  qed
qed

definition settled :: "heap \<Rightarrow> ref_table \<Rightarrow> nat set \<Rightarrow> detector \<Rightarrow> nat list \<Rightarrow> bool" where
  "settled pool tab Rs d vis \<longleftrightarrow> (\<exists>rem. dinv pool tab Rs [] [] rem {} d vis) \<and> dt_frames d = [] \<and> dt_frameNext d = []"

lemma visit_loop_settles:
  assumes wf: "rt_wf tab" "slotCapacity pool = length (rt_rec tab)"
  shows "linv pool tab Rs m d vis \<Longrightarrow>
    \<exists>d' vis'. visit_loop pool tab (d, vis) = Some (d', vis') \<and> settled pool tab Rs d' vis' \<and> set vis \<union> set (take 1 (dt_frames d)) \<subseteq> set vis'"
proof (induction m arbitrary: d vis rule: less_induct)
  case (less m)
  note eq = visit_loop.simps [of pool tab "(d, vis)"]
  show ?case
  proof (cases "dt_frames d")
    case Nil
    with less.prems have "settled pool tab Rs d vis" unfolding linv_def settled_def by (auto simp: dinv_def)
    with Nil eq show ?thesis by simp
  next
    case (Cons u gs)
    from visit_step_linv [OF less.prems wf Cons] obtain m' d1 vis1 where s: "visit_step pool tab (d, vis) = Some (d1, vis1)" "m' < m"
      "linv pool tab Rs m' d1 vis1" "insert u (set vis) \<subseteq> set vis1" by blast
    from less.IH [OF s(2,3)] obtain d' vis' where "visit_loop pool tab (d1, vis1) = Some (d', vis')" "settled pool tab Rs d' vis'" "set vis1 \<subseteq> set vis'"
      by blast
    with s Cons eq show ?thesis by auto
  qed
qed

lemma settled_skipped [simp]:
  "settled pool tab Rs (d\<lparr>dt_skippedDisc := a\<rparr>) vis = settled pool tab Rs d vis"
  "settled pool tab Rs (d\<lparr>dt_skippedDead := a\<rparr>) vis = settled pool tab Rs d vis"
  by (simp_all add: settled_def dinv_def scratch_def)

lemma find_roots_settles:
  assumes wf: "rt_wf tab" "slotCapacity pool = length (rt_rec tab)"
  shows "settled pool tab Rs d vis \<Longrightarrow> set roots \<subseteq> {..<length (rt_rec tab)} \<Longrightarrow> {r \<in> set roots. valid pool r} \<subseteq> Rs \<Longrightarrow>
    \<exists>d' vis'. find_roots pool tab roots (d, vis) = Some (d', vis') \<and> settled pool tab Rs d' vis' \<and> set vis \<union> {r \<in> set roots. valid pool r} \<subseteq> set vis'"
proof (induction roots arbitrary: d vis)
  case (Cons r roots)
  obtain rem where i: "dinv pool tab Rs [] [] rem {} d vis" and f: "dt_frames d = []" "dt_frameNext d = []"
    using Cons.prems(1) by (auto simp: settled_def)
  have r: "r < length (rt_rec tab)" "set roots \<subseteq> {..<length (rt_rec tab)}" "{r \<in> set roots. valid pool r} \<subseteq> Rs" using Cons.prems by auto
  have disc: "dt_disc d ! r \<noteq> 0 \<longleftrightarrow> r \<in> set vis" by (rule scratchD(9) [OF dinvD(1) [OF i] r(1)])
  show ?case
  proof (cases "r \<in> set vis \<or> \<not> valid pool r")
    case True
    let ?d = "if r \<in> set vis then d\<lparr>dt_skippedDisc := dt_skippedDisc d + 1\<rparr> else d\<lparr>dt_skippedDead := dt_skippedDead d + 1\<rparr>"
    have "find_roots pool tab (r # roots) (d, vis) = find_roots pool tab roots (?d, vis)" using True disc by (auto simp: isLiveAt_def)
    moreover have "settled pool tab Rs ?d vis" using Cons.prems(1) by simp
    ultimately show ?thesis using Cons.IH [of ?d vis, OF _ r(2,3)] True by fastforce
  next
    case False
    let ?d = "d\<lparr>dt_frames := [r], dt_frameNext := [kNoEdge]\<rparr>"
    have "pushed pool tab Rs [] vis r {}" using False r Cons.prems(3) by (auto simp: pushed_def)
    with i have "linv pool tab Rs (potential tab [] rem vis + 1) ?d vis" unfolding linv_def by (intro disjI2 exI conjI) (auto simp: dinv_def scratch_def)
    from visit_loop_settles [OF wf this] obtain d1 vis1 where v: "visit_loop pool tab (?d, vis) = Some (d1, vis1)"
      "settled pool tab Rs d1 vis1" "set vis \<union> {r} \<subseteq> set vis1" by auto
    from Cons.IH [OF v(2) r(2,3)] obtain d' vis' where "find_roots pool tab roots (d1, vis1) = Some (d', vis')"
      "settled pool tab Rs d' vis'" "set vis1 \<union> {r \<in> set roots. valid pool r} \<subseteq> set vis'" by blast
    moreover have "visitFrom r pool tab (d, vis) = Some (d1, vis1)" using v(1) f by (simp add: visitFrom_def)
    ultimately show ?thesis using False disc v(3) by (intro exI [of _ d'] exI [of _ vis']) (auto simp: isLiveAt_def)
  qed
qed auto

section \<open>The components\<close>

definition clean :: "nat \<Rightarrow> detector \<Rightarrow> bool" where
  "clean n d \<longleftrightarrow> dt_disc d = replicate n 0 \<and> length (dt_low d) = n \<and> dt_on d = replicate n False \<and> dt_scc d = replicate n kUnvisited"

lemma CycleDetector_init_clean: "clean n (CycleDetector_init n)"
  by (simp add: clean_def CycleDetector_init_def)

definition reached :: "heap \<Rightarrow> ref_table \<Rightarrow> nat list \<Rightarrow> nat set" where
  "reached pool tab roots = {x. \<exists>r \<in> set roots. valid pool r \<and> (r, x) \<in> (succs pool tab)\<^sup>*}"

lemma release_spec:
  assumes "length (dt_disc d) = n" "length (dt_low d) = n" "length (dt_on d) = n" "length (dt_scc d) = n" and "set vis \<subseteq> {..<n}"
    and "\<And>i. i < n \<Longrightarrow> i \<notin> set vis \<Longrightarrow> dt_disc d ! i = 0 \<and> \<not> dt_on d ! i \<and> dt_scc d ! i = kUnvisited"
  shows "clean n (release vis d)"
  using assms
proof (induction vis arbitrary: d)
  case (Cons v vis)
  show ?case unfolding release.simps
    by (rule Cons.IH) (use Cons.prems in \<open>auto simp: nth_list_update\<close>)
qed (auto simp: clean_def list_eq_iff_nth_eq)

definition components_ok :: "heap \<Rightarrow> ref_table \<Rightarrow> nat list \<Rightarrow> detector \<Rightarrow> nat list \<Rightarrow> bool" where
  "components_ok pool tab roots d vis \<longleftrightarrow> distinct vis \<and> set vis = reached pool tab roots
     \<and> set vis \<subseteq> {..<length (rt_rec tab)} \<and> (\<forall>x \<in> set vis. valid pool x) \<and> length (dt_scc d) = length (rt_rec tab) \<and> dt_comps d \<le> length vis
     \<and> (\<forall>x < length (rt_rec tab). if x \<in> set vis then sccOf d x < dt_comps d else sccOf d x = kUnvisited)
     \<and> (\<forall>x \<in> set vis. \<forall>y \<in> set vis. sccOf d x = sccOf d y \<longleftrightarrow> (x, y) \<in> (succs pool tab)\<^sup>* \<and> (y, x) \<in> (succs pool tab)\<^sup>*)
     \<and> clean (length (rt_rec tab)) (release vis d)"

lemma settled_components:
  assumes "settled pool tab {r \<in> set roots. valid pool r} d vis" and "{r \<in> set roots. valid pool r} \<subseteq> set vis"
  shows "components_ok pool tab roots d vis"
proof -
  let ?Rs = "{r \<in> set roots. valid pool r}" and ?E = "succs pool tab" and ?n = "length (rt_rec tab)"
  obtain rem where i: "dinv pool tab ?Rs [] [] rem {} d vis" using assms(1) by (auto simp: settled_def)
  note D = dinvD [OF i]
  note s = scratchD [OF D(1)]
  have tar: "dt_tarjan d = []" using tjD(4) [OF D(2)] by simp
  have closed: "y \<in> set vis" if "x \<in> set vis" "(x, y) \<in> ?E" for x y using tjD(11) [OF D(2), of x y] that tar by simp
  have scc: "if x \<in> set vis then dt_scc d ! x < dt_comps d else dt_scc d ! x = kUnvisited" if "x < ?n" for x
    using s(12) [OF that] tar by simp
  have "x \<in> set vis" if "x \<in> reached pool tab roots" for x
    using that assms(2) closed_reach [of _ x ?E "set vis"] closed by (auto simp: reached_def)
  moreover have "x \<in> reached pool tab roots" if "x \<in> set vis" for x using D(6) [OF that] by (auto simp: reached_def)
  ultimately have V: "set vis = reached pool tab roots" by blast
  have "clean ?n (release vis d)"
    by (rule release_spec [OF s(1,2,3,4) D(8)]) (use s(9,11) scc tar in \<open>auto split: if_splits\<close>)
  moreover have "dt_comps d \<le> length vis" using s(13) by simp
  moreover have "\<forall>x \<in> set vis. \<forall>y \<in> set vis. sccOf d x = sccOf d y \<longleftrightarrow> (x, y) \<in> ?E\<^sup>* \<and> (y, x) \<in> ?E\<^sup>*"
    using D(3) tar by (simp add: classes_def sccOf_def)
  moreover have "\<forall>x < ?n. if x \<in> set vis then sccOf d x < dt_comps d else sccOf d x = kUnvisited"
    using scc by (simp add: sccOf_def)
  ultimately show ?thesis unfolding components_ok_def using s(4,6) V D(5,8) by blast
qed

lemma findComponents_ok:
  assumes wf: "rt_wf tab" "slotCapacity pool = length (rt_rec tab)" and c: "clean (length (rt_rec tab)) d" and r: "set roots \<subseteq> {..<length (rt_rec tab)}"
  obtains d' vis where "findComponents pool tab roots d = Some (d', vis)" "components_ok pool tab roots d' vis"
proof -
  let ?Rs = "{r \<in> set roots. valid pool r}"
  let ?d = "d\<lparr>dt_time := 0, dt_comps := 0, dt_tarjan := [], dt_frames := [], dt_frameNext := [], dt_skippedDisc := 0, dt_skippedDead := 0\<rparr>"
  have n: "length (rt_rec tab) < 2 ^ 32" using wf(2) by (metis slotCapacity_def u32_cast_def mod_less_divisor zero_less_numeral zero_less_power)
  have "scratch (length (rt_rec tab)) ?d []" by (rule scratchI) (use c n in \<open>simp_all add: clean_def\<close>)
  then have "dinv pool tab ?Rs [] [] (\<lambda>_. []) {} ?d []" by (simp add: dinv_def classes_def)
  then have "settled pool tab ?Rs ?d []" unfolding settled_def by auto
  from find_roots_settles [OF wf this r subset_refl] obtain d' vis where
    "find_roots pool tab roots (?d, []) = Some (d', vis)" "settled pool tab ?Rs d' vis" "?Rs \<subseteq> set vis" by auto
  then show thesis using that [of d' vis] settled_components by (simp add: findComponents_def)
qed

text \<open>
  Property C8 (functional).  From clean scratch state the component finder returns; it lists every node
  reachable from a live root over live edges exactly once, gives two listed nodes the same number
  exactly when each reaches the other, numbers below the count it returns, and releasing the listed
  nodes leaves the scratch state clean again.
\<close>

theorem findComponents_correct:
  assumes "rt_wf tab" and "slotCapacity pool = length (rt_rec tab)" and "clean (length (rt_rec tab)) d"
    and "set roots \<subseteq> {..<length (rt_rec tab)}"
  shows "\<exists>d' vis. findComponents pool tab roots d = Some (d', vis) \<and> distinct vis
     \<and> set vis = {x. \<exists>r \<in> set roots. valid pool r \<and> (r, x) \<in> (succs pool tab)\<^sup>*}
     \<and> (\<forall>x \<in> set vis. sccOf d' x < dt_comps d')
     \<and> (\<forall>x \<in> set vis. \<forall>y \<in> set vis. sccOf d' x = sccOf d' y \<longleftrightarrow> (x, y) \<in> (succs pool tab)\<^sup>* \<and> (y, x) \<in> (succs pool tab)\<^sup>*)
     \<and> clean (length (rt_rec tab)) (release vis d')"
proof -
  obtain d' vis where f: "findComponents pool tab roots d = Some (d', vis)" and c: "components_ok pool tab roots d' vis"
    by (rule findComponents_ok [OF assms])
  have "\<forall>x \<in> set vis. sccOf d' x < dt_comps d'" using c unfolding components_ok_def by (metis lessThan_iff subsetD)
  then show ?thesis using f c unfolding components_ok_def reached_def by blast
qed

theorem findComponents_correct_witness:
  "\<exists>tab d' vis. addOut (ObjHandle 1 0) (ObjHandle 1 0) (RefTable_init 2) = Some tab
     \<and> findComponents one_object tab [1, 1] (CycleDetector_init 2) = Some (d', vis) \<and> distinct vis \<and> 1 \<in> set vis
     \<and> sccOf d' 1 < dt_comps d' \<and> clean 2 (release vis d')"
proof -
  let ?x = "ObjHandle 1 0" and ?t0 = "RefTable_init 2"
  obtain tab where t: "addOut ?x ?x ?t0 = Some tab"
    by (auto simp: addOut_def allocateEdge_def popFree_def RefTable_init_def ensureBlock_def kNoEdge_def kMaxSegments_def)
  have n: "rt_wf ?t0" "length (rt_rec ?t0) = 2" using rt.new_law [of 2 0] by simp_all
  have l: "rt_wf tab" "length (rt_rec tab) = 2" using rt.add_out_law [OF n(1) _ _ t] n by simp_all
  have p: "slotCapacity one_object = 2" "valid one_object 1" by (simp_all add: one_object_eq slotCapacity_def valid_def)
  have c: "clean (length (rt_rec tab)) (CycleDetector_init 2)" using CycleDetector_init_clean l(2) by simp
  have r: "set [1, 1] \<subseteq> {..<length (rt_rec tab)}" "slotCapacity one_object = length (rt_rec tab)" using l(2) p(1) by simp_all
  from findComponents_correct [OF l(1) r(2) c r(1)] obtain d' vis where
    f: "findComponents one_object tab [1, 1] (CycleDetector_init 2) = Some (d', vis)" "distinct vis"
      "set vis = {x. \<exists>r \<in> set [1, 1]. valid one_object r \<and> (r, x) \<in> (succs one_object tab)\<^sup>*}"
      "\<forall>x \<in> set vis. sccOf d' x < dt_comps d'" "clean (length (rt_rec tab)) (release vis d')" by blast
  have "1 \<in> set vis" using f(3) p(2) by auto
  with t f l(2) show ?thesis by auto
qed

end
