(* ===== verification/Lx_EngineSpec.thy ===== *)
theory Lx_EngineSpec
  imports Lx_Engine Lx_CycleSpec Lx_Arc
begin

text \<open>
  The collector's table describes the heap: a root count is the number of roots, an edge count the
  number of cells that refer to the slot, and the outgoing edges of a slot are the references of its
  cells.  Every reclamation keeps this, and frees only objects that no root reaches.
\<close>

section \<open>The table describes the heap\<close>

definition mult :: "heap \<Rightarrow> (nat \<times> nat) set \<Rightarrow> nat \<Rightarrow> nat \<Rightarrow> nat" where
  "mult h X i j = card {k. (i, k) \<notin> X \<and> ref_at h (i, k) = Some j}"

definition cok :: "nat set \<Rightarrow> heap \<Rightarrow> ref_table \<Rightarrow> nat multiset \<Rightarrow> (nat \<times> nat) set \<Rightarrow> bool" where
  "cok S h t R X \<longleftrightarrow> graph_ok h R X \<and> rt_wf t \<and> length (rt_rec t) = length (slots h)
     \<and> (\<forall>i < length (slots h). i \<in> S \<longrightarrow> rt_root t i = int (count R i) \<and> rt_edge t i = int (card (in_refs h i - X)))
     \<and> (\<forall>i < length (slots h). \<forall>x. count (mset (outs t i)) x =
          (if oh_gen x = generation (slots h ! oh_index x) then mult h X i (oh_index x) else 0))
     \<and> (\<forall>i < length (slots h). rt_row t i (generation (slots h ! i)))"

lemma cokD:
  assumes "cok S h t R X"
  shows "graph_ok h R X" "heap_ok h" "rt_wf t" "length (rt_rec t) = length (slots h)"
    "i < length (slots h) \<Longrightarrow> i \<in> S \<Longrightarrow> rt_root t i = int (count R i)"
    "i < length (slots h) \<Longrightarrow> i \<in> S \<Longrightarrow> rt_edge t i = int (card (in_refs h i - X))"
    "i < length (slots h) \<Longrightarrow> count (mset (outs t i)) x = (if oh_gen x = generation (slots h ! oh_index x) then mult h X i (oh_index x) else 0)"
    "i < length (slots h) \<Longrightarrow> rt_row t i (generation (slots h ! i))"
    "slotCapacity h = length (slots h)"
  using assms unfolding cok_def graph_ok_def heap_ok_def slotCapacity_def u32_cast_def by auto

lemma cokI:
  assumes "graph_ok h R X" "rt_wf t" "length (rt_rec t) = length (slots h)"
    "\<And>i. i < length (slots h) \<Longrightarrow> i \<in> S \<Longrightarrow> rt_root t i = int (count R i)"
    "\<And>i. i < length (slots h) \<Longrightarrow> i \<in> S \<Longrightarrow> rt_edge t i = int (card (in_refs h i - X))"
    "\<And>i x. i < length (slots h) \<Longrightarrow> count (mset (outs t i)) x = (if oh_gen x = generation (slots h ! oh_index x) then mult h X i (oh_index x) else 0)"
    "\<And>i. i < length (slots h) \<Longrightarrow> rt_row t i (generation (slots h ! i))"
  shows "cok S h t R X"
  using assms by (simp add: cok_def)

lemma cok_ref:
  assumes "cok S h t R X" and "ref_at h p = Some j" and "p \<notin> X"
  shows "valid h j" "j < length (slots h)"
proof -
  show v: "valid h j" using cokD(1) [OF assms(1)] assms(2,3) unfolding graph_ok_def by blast
  then show "j < length (slots h)" by (simp add: valid_def)
qed

lemma cok_count_ref: "finite {k. (i, k) \<notin> X \<and> ref_at h (i, k) = Some j}" if "heap_ok h"
proof -
  have "inj_on (Pair i) {k. (i, k) \<notin> X \<and> ref_at h (i, k) = Some j}" by (rule inj_onI) simp
  moreover have "Pair i ` {k. (i, k) \<notin> X \<and> ref_at h (i, k) = Some j} \<subseteq> in_refs h j" by (auto simp: in_refs_def)
  ultimately show ?thesis using finite_in_refs [OF that, of j] by (meson finite_subset finite_imageD)
qed

lemma cok_target:
  assumes c: "cok S h t R X" and i: "i < length (slots h)" and x: "x \<in> set (outs t i)"
  shows "cs_valid h x" "valid h (oh_index x)" "oh_index x < length (slots h)" "\<exists>k. (i, k) \<notin> X \<and> ref_at h (i, k) = Some (oh_index x)"
proof -
  have pos: "0 < count (mset (outs t i)) x" using x by simp
  then have g: "oh_gen x = generation (slots h ! oh_index x)" "0 < mult h X i (oh_index x)"
    unfolding cokD(7) [OF c i] by (auto split: if_splits)
  then show k: "\<exists>k. (i, k) \<notin> X \<and> ref_at h (i, k) = Some (oh_index x)"
    unfolding mult_def card_gt_0_iff by blast
  then show "valid h (oh_index x)" "oh_index x < length (slots h)" using cok_ref [OF c] by blast+
  then show "cs_valid h x" using g(1) cokD(9) [OF c] by (simp add: cs_valid_def)
qed

text \<open>The targets of a row by index.\<close>

lemma count_map_index: "count (mset (map f xs)) j = length (filter (\<lambda>x. f x = j) xs)"
  by (induction xs) auto

lemma cok_row_count:
  assumes c: "cok S h t R X" and i: "i < length (slots h)"
  shows "count (mset (map oh_index (outs t i))) j = mult h X i j"
proof -
  let ?x = "ObjHandle j (generation (slots h ! j))"
  have eq: "oh_index x = j \<longleftrightarrow> x = ?x" if "x \<in> set (outs t i)" for x
    using cok_target(1) [OF c i that] by (cases x) (auto simp: cs_valid_def)
  have "count (mset (map oh_index (outs t i))) j = length (filter (\<lambda>x. oh_index x = j) (outs t i))"
    by (rule count_map_index)
  also have "\<dots> = length (filter (\<lambda>x. x = ?x) (outs t i))" by (rule arg_cong [where f = length], rule filter_cong [OF refl eq])
  also have "\<dots> = count (mset (outs t i)) ?x" using count_map_index [of "\<lambda>x. x" "outs t i" ?x] by simp
  also have "\<dots> = mult h X i j" using cokD(7) [OF c i, of ?x] by simp
  finally show ?thesis .
qed

lemma in_refs_split:
  assumes "heap_ok h"
  shows "card (in_refs h j - X) = mult h X i j + card (in_refs h j - (X \<union> {i} \<times> UNIV))"
proof -
  let ?A = "Pair i ` {k. (i, k) \<notin> X \<and> ref_at h (i, k) = Some j}"
  have eq: "in_refs h j - X = ?A \<union> (in_refs h j - (X \<union> {i} \<times> UNIV))" by (auto simp: in_refs_def)
  have d: "?A \<inter> (in_refs h j - (X \<union> {i} \<times> UNIV)) = {}" by auto
  have f: "finite ?A" "finite (in_refs h j - (X \<union> {i} \<times> UNIV))"
    using cok_count_ref [OF assms] by (rule finite_imageI) (rule finite_Diff [OF finite_in_refs [OF assms]])
  have "card (in_refs h j - X) = card ?A + card (in_refs h j - (X \<union> {i} \<times> UNIV))"
    by (rule trans [OF arg_cong [OF eq, of card] card_Un_disjoint [OF f d]])
  moreover have "card ?A = mult h X i j" unfolding mult_def by (rule card_image) (rule inj_onI, simp)
  ultimately show ?thesis by simp
qed

lemma mult_none: "in_refs h j - X = {} \<Longrightarrow> mult h X i j = 0"
proof -
  assume a: "in_refs h j - X = {}"
  have "{k. (i, k) \<notin> X \<and> ref_at h (i, k) = Some j} = {}" using a unfolding in_refs_def by blast
  then show ?thesis unfolding mult_def by (simp only: card.empty)
qed

lemma mult_detached: "mult h (X \<union> {i} \<times> UNIV) j y = (if j = i then 0 else mult h X j y)"
  by (auto simp: mult_def)

section \<open>Detaching the references of an object\<close>

lemma sub_edges:
  assumes "rt_wf t" and "set js \<subseteq> {..<length (rt_rec t)}" and "\<And>j. j \<in> set js \<Longrightarrow> int (count (mset js) j) \<le> rt_edge t j"
    and "t' = fold (\<lambda>j t. snd (subEdgeTo j t)) js t"
  shows "rt_wf t' \<and> length (rt_rec t') = length (rt_rec t) \<and> rt_root t' = rt_root t
    \<and> (\<forall>j. rt_edge t' j = rt_edge t j - int (count (mset js) j))
    \<and> (\<forall>i < length (rt_rec t). outs t' i = outs t i \<and> (\<forall>g. rt_row t' i g = rt_row t i g))"
  using assms
proof (induction js arbitrary: t)
  case (Cons j js)
  obtain r t1 where s: "subEdgeTo j t = (r, t1)" by (cases "subEdgeTo j t")
  have j: "j < length (rt_rec t)" using Cons.prems(2) by simp
  have pos: "0 < rt_edge t j" using Cons.prems(3) [of j] by simp
  note l = rt.sub_edge_law [OF Cons.prems(1) j s]
  then have e1: "rt_edge t1 = (rt_edge t)(j := rt_edge t j - 1)" using pos by auto
  have b: "int (count (mset js) k) \<le> rt_edge t1 k" if "k \<in> set js" for k
    using Cons.prems(3) [of k] that e1 by (cases "k = j") auto
  have "set js \<subseteq> {..<length (rt_rec t1)}" "t' = fold (\<lambda>j t. snd (subEdgeTo j t)) js t1" using l Cons.prems(2,4) s by auto
  note ih = Cons.IH [OF conjunct1 [OF l] this(1) b this(2)]
  have "rt_edge t' k = rt_edge t k - int (count (mset (j # js)) k)" for k using ih e1 by (cases "k = j") auto
  then show ?case using ih l by auto
qed simp

lemma fold_if: "fold (\<lambda>x s. if P x then s else f (g x) s) xs s = fold f (map g (filter (\<lambda>x. \<not> P x) xs)) s"
  by (induction xs arbitrary: s) auto

lemma graph_ok_more: "graph_ok h R X \<Longrightarrow> X \<subseteq> Y \<Longrightarrow> graph_ok h R Y"
  unfolding graph_ok_def by blast

lemma cok_detach:
  assumes c: "cok S h t R X" and i: "i < length (slots h)" and wf: "rt_wf t'" "length (rt_rec t') = length (rt_rec t)"
    and r: "\<And>j. j < length (slots h) \<Longrightarrow> j \<in> S \<Longrightarrow> rt_root t' j = rt_root t j"
    and e: "\<And>j. j < length (slots h) \<Longrightarrow> j \<in> S \<Longrightarrow> rt_edge t' j = rt_edge t j - int (mult h X i j)"
    and o: "outs t' i = []" "\<And>j. j < length (slots h) \<Longrightarrow> j \<noteq> i \<Longrightarrow> outs t' j = outs t j"
    and row: "\<And>j g. j < length (slots h) \<Longrightarrow> rt_row t j g \<Longrightarrow> rt_row t' j g"
  shows "cok S h t' R (X \<union> {i} \<times> UNIV)"
proof (rule cokI)
  fix j assume j: "j < length (slots h)"
  { assume "j \<in> S"
    with j show "rt_root t' j = int (count R j)" "rt_edge t' j = int (card (in_refs h j - (X \<union> {i} \<times> UNIV)))"
      using r e cokD(5,6) [OF c j] in_refs_split [OF cokD(2) [OF c], of j X i] by simp_all }
  show "rt_row t' j (generation (slots h ! j))" using row cokD(8) [OF c] j by blast
  fix x show "count (mset (outs t' j)) x = (if oh_gen x = generation (slots h ! oh_index x) then mult h (X \<union> {i} \<times> UNIV) j (oh_index x) else 0)"
    using o cokD(7) [OF c j, of x] j by (cases "j = i") (auto simp: mult_detached)
qed (use wf cokD(4) [OF c] graph_ok_more [OF cokD(1) [OF c]] in auto)

text \<open>The indexes whose edge count the loop over a row lowers, and what is left after the row is cleared.\<close>

lemma row_bound:
  assumes c: "cok S h t R X" and i: "i < length (slots h)" and j: "j < length (slots h)" "j \<in> S"
  shows "int (mult h X i j) \<le> rt_edge t j"
  using cokD(6) [OF c j] in_refs_split [OF cokD(2) [OF c], of j X i] by simp

lemma count_filter_index:
  assumes "\<forall>x \<in> set xs. P x \<longleftrightarrow> oh_index x \<in> S"
  shows "count (mset (map oh_index (filter P xs))) j = (if j \<in> S then count (mset (map oh_index xs)) j else 0)"
  using assms by (induction xs) auto

lemma cok_sub_row:
  assumes c: "cok S h t R X" and i: "i < length (slots h)" and P: "\<forall>x \<in> set (outs t i). P x \<longleftrightarrow> oh_index x \<in> S"
    and t1: "t1 = fold (\<lambda>j t. snd (subEdgeTo j t)) (map oh_index (filter P (outs t i))) t"
  shows "rt_wf t1 \<and> length (rt_rec t1) = length (rt_rec t) \<and> rt_root t1 = rt_root t
    \<and> (\<forall>j. rt_edge t1 j = rt_edge t j - int (if j \<in> S then mult h X i j else 0))
    \<and> (\<forall>j < length (rt_rec t). outs t1 j = outs t j \<and> (\<forall>g. rt_row t1 j g = rt_row t j g))"
proof -
  let ?js = "map oh_index (filter P (outs t i))"
  have n: "length (rt_rec t) = length (slots h)" by (rule cokD(4) [OF c])
  have cnt: "count (mset ?js) j = (if j \<in> S then mult h X i j else 0)" for j
    using count_filter_index [OF P, of j] cok_row_count [OF c i, of j] by simp
  have js: "set ?js \<subseteq> {..<length (rt_rec t)}" using cok_target(3) [OF c i] n by auto
  have "int (count (mset ?js) j) \<le> rt_edge t j" if "j \<in> set ?js" for j
  proof -
    have "0 < count (mset ?js) j" using that by simp
    then have "j \<in> S" unfolding cnt by (auto split: if_splits)
    moreover have "j < length (slots h)" using that js n by auto
    ultimately show ?thesis using row_bound [OF c i] unfolding cnt by simp
  qed
  from sub_edges [OF cokD(3) [OF c] js this t1] show ?thesis unfolding cnt by simp
qed

lemma cok_detach_clear:
  assumes c: "cok S h t R X" and i: "i < length (slots h)" and P: "\<forall>x \<in> set (outs t i). P x \<longleftrightarrow> oh_index x \<in> S"
    and t1: "t1 = fold (\<lambda>j t. snd (subEdgeTo j t)) (map oh_index (filter P (outs t i))) t"
  shows "cok S h (clearOuts i t1) R (X \<union> {i} \<times> UNIV)"
proof -
  note s = cok_sub_row [OF c i P t1]
  have n: "length (rt_rec t) = length (slots h)" by (rule cokD(4) [OF c])
  have i1: "i < length (rt_rec t1)" using s n i by simp
  note l = rt.clear_law [OF conjunct1 [OF s] i1 refl]
  show ?thesis by (rule cok_detach [OF c i]) (use s l n in auto)
qed

lemma no_incoming:
  assumes c: "cok S h t R X" and j: "j < length (slots h)" and none: "\<And>k. (j, k) \<notin> X \<Longrightarrow> ref_at h (j, k) \<noteq> Some i"
  shows "i \<notin> oh_index ` set (outs t j)"
  using cok_target(4) [OF c j] none by (auto simp: image_iff)

lemma cok_detach_reset:
  assumes c: "cok UNIV h t R X" and i: "i < length (slots h)" and P: "\<forall>x \<in> set (outs t i). P x"
    and t1: "t1 = fold (\<lambda>j t. snd (subEdgeTo j t)) (map oh_index (filter P (outs t i))) t" and z: "rt_total t i = 0"
  shows "cok UNIV h (resetSlot i t1) R (X \<union> {i} \<times> UNIV)" "count R i = 0" "in_refs h i - X = {}"
proof -
  have "int (count R i) + int (card (in_refs h i - X)) = 0" using z cokD(5,6) [OF c i] by (simp add: rt_total_def)
  then have "count R i = 0" "card (in_refs h i - X) = 0" by linarith+
  then show z': "count R i = 0" "in_refs h i - X = {}" using card_0_eq [OF finite_Diff [OF finite_in_refs [OF cokD(2) [OF c]]], of i X] by blast+
  have P': "\<forall>x \<in> set (outs t i). P x \<longleftrightarrow> oh_index x \<in> UNIV" using P by simp
  note s = cok_sub_row [OF c i P' t1]
  have n: "length (rt_rec t) = length (slots h)" by (rule cokD(4) [OF c])
  have i1: "i < length (rt_rec t1)" using s n i by simp
  have none: "i \<notin> oh_index ` set (outs t1 j)" if "j < length (rt_rec t1)" "j \<noteq> i" for j
  proof -
    have "i \<notin> oh_index ` set (outs t j)" by (rule no_incoming [OF c]) (use that s n z'(2) in \<open>auto simp: in_refs_def\<close>)
    then show ?thesis using s that by simp
  qed
  then have "\<forall>j < length (rt_rec t1). j \<noteq> i \<longrightarrow> i \<notin> oh_index ` set (outs t1 j)" by blast
  note l = rt.reset_law [OF conjunct1 [OF s] i1 this refl]
  have m: "mult h X i i = 0" by (rule mult_none [OF z'(2)])
  have e: "rt_edge t i = 0" "rt_root t i = 0" using cokD(5,6) [OF c i] z' by simp_all
  show "cok UNIV h (resetSlot i t1) R (X \<union> {i} \<times> UNIV)" by (rule cok_detach [OF c i]) (use s l n m e in auto)
qed

section \<open>Freeing a detached object\<close>

lemma freePayload_slots:
  "length (slots (freePayload i h)) = length (slots h)" "j \<noteq> i \<Longrightarrow> slots (freePayload i h) ! j = slots h ! j"
  "slotCap (freePayload i h) = slotCap h"
  by (simp_all add: freePayload_def set_free_list_def Let_def)

lemma valid_free: "valid (freePayload i h) j \<longleftrightarrow> valid h j \<and> j \<noteq> i"
  by (auto simp: freePayload_def valid_def set_free_list_def Let_def nth_list_update)

lemma rt_row_empty: "outs t i = [] \<Longrightarrow> rt_row t i g"
  by (simp add: rt_row_def outs_def)

lemma cok_free:
  assumes c: "cok S h t R X" and i: "{i} \<times> UNIV \<subseteq> X" "i \<notin># R" and none: "in_refs h i - X = {}"
  shows "cok S (freePayload i h) t R X"
proof (rule cokI)
  let ?h = "freePayload i h"
  have ok: "heap_ok h" by (rule cokD(2) [OF c])
  have ok': "heap_ok ?h" using hp.release_law [OF ok, of i] by simp
  have n: "length (slots ?h) = length (slots h)" by (rule freePayload_slots)
  have refs: "in_refs ?h j - X = in_refs h j - X" for j using in_refs_release [OF ok, of i j] i(1) by auto
  have at: "(p \<notin> X \<and> ref_at ?h p = Some j) = (p \<notin> X \<and> ref_at h p = Some j)" for p j
    using refs [of j] unfolding in_refs_def by blast
  show "graph_ok ?h R X" unfolding graph_ok_def
  proof (intro conjI allI ballI impI)
    show "valid ?h r" if "r \<in># R" for r using that i(2) cokD(1) [OF c] by (auto simp: graph_ok_def valid_free)
    show "valid ?h j" if "p \<notin> X" "ref_at ?h p = Some j" for p j
    proof -
      have p: "ref_at h p = Some j" using at [of p j] that by blast
      have "j \<noteq> i" using none p that(1) by (auto simp: in_refs_def)
      with cok_ref(1) [OF c p that(1)] show ?thesis by (simp add: valid_free)
    qed
  qed (rule ok')
  show "rt_wf t" "length (rt_rec t) = length (slots ?h)" using cokD(3,4) [OF c] n by simp_all
  fix j assume j: "j < length (slots ?h)"
  then have j': "j < length (slots h)" using n by simp
  { assume "j \<in> S"
    then show "rt_root t j = int (count R j)" "rt_edge t j = int (card (in_refs ?h j - X))"
      using cokD(5,6) [OF c j'] refs by simp_all }
  have m: "mult ?h X j y = mult h X j y" for y unfolding mult_def at ..
  have m0: "mult h X k i = 0" for k by (rule mult_none [OF none])
  have oi: "outs t i = []" if "i < length (slots h)"
    using cok_target(4) [OF c that] i(1) by (metis UNIV_I equals0I insertI1 list.set(1) mem_Sigma_iff set_empty subsetD)
  show "rt_row t j (generation (slots ?h ! j))"
  proof (cases "j = i")
    case True
    then show ?thesis using rt_row_empty [OF oi] j' by simp
  next
    case False
    then show ?thesis using cokD(8) [OF c j'] freePayload_slots(2) by simp
  qed
  fix x show "count (mset (outs t j)) x = (if oh_gen x = generation (slots ?h ! oh_index x) then mult ?h X j (oh_index x) else 0)"
    using cokD(7) [OF c j', of x] m [of "oh_index x"] m0 [of j] freePayload_slots(2) [of "oh_index x" i h]
    by (cases "oh_index x = i") auto
qed

lemma cok_undetach:
  assumes c: "cok S h t R (X \<union> M \<times> UNIV)" and dead: "\<And>i. i \<in> M \<Longrightarrow> \<not> valid h i"
  shows "cok S h t R X"
proof -
  have ok: "heap_ok h" by (rule cokD(2) [OF c])
  have none: "ref_at h (i, k) = None" if "i \<in> M" for i k using ref_at_dead [OF ok, of "(i, k)"] dead [OF that] unfolding valid_view fst_conv by blast
  have refs: "in_refs h j - (X \<union> M \<times> UNIV) = in_refs h j - X" for j using none by (auto simp: in_refs_def)
  have m: "mult h (X \<union> M \<times> UNIV) i j = mult h X i j" for i j
    unfolding mult_def by (rule arg_cong [where f = card]) (use none in auto)
  have "graph_ok h R X" using cokD(1) [OF c] none unfolding graph_ok_def by (metis Un_iff mem_Sigma_iff option.distinct(1) surj_pair)
  then show ?thesis using c unfolding cok_def refs m by simp
qed

section \<open>Marks\<close>

definition marked :: "bool list \<Rightarrow> nat" where
  "marked bs = card {i. i < length bs \<and> bs ! i}"

lemma marked_set: "i < length bs \<Longrightarrow> \<not> bs ! i \<Longrightarrow> marked (bs[i := True]) = marked bs + 1"
proof -
  assume i: "i < length bs" "\<not> bs ! i"
  then have "{j. j < length (bs[i := True]) \<and> bs[i := True] ! j} = insert i {j. j < length bs \<and> bs ! j}" by (auto simp: nth_list_update)
  with i show ?thesis by (simp add: marked_def)
qed

lemma marked_clear: "i < length bs \<Longrightarrow> bs ! i \<Longrightarrow> marked (bs[i := False]) + 1 = marked bs"
proof -
  assume i: "i < length bs" "bs ! i"
  have "bs[i := False, i := True] = bs" using i(2) list_update_id [of bs i] by simp
  with i(1) marked_set [of i "bs[i := False]"] show ?thesis by simp
qed

definition engine_errs :: "engine \<Rightarrow> nat" where
  "engine_errs e = en_staleDropped e + en_rootUnderflow e + en_edgeUnderflow e + cs_errs (en_cells e)"

definition eok :: "nat \<Rightarrow> engine \<Rightarrow> bool" where
  "eok n e \<longleftrightarrow> length (en_zeroMark e) = n \<and> length (en_suspectMark e) = n \<and> set (en_zeroStack e) \<subseteq> {..<n}
     \<and> set (en_suspectStack e) \<subseteq> {..<n} \<and> en_activeSuspects e = marked (en_suspectMark e) \<and> engine_errs e = 0"

lemma marks_fields [simp]:
  "en_tab (markZero i e) = en_tab e" "en_detector (markZero i e) = en_detector e" "en_cells (markZero i e) = en_cells e"
  "en_tab (markSuspect i e) = en_tab e" "en_detector (markSuspect i e) = en_detector e" "en_cells (markSuspect i e) = en_cells e"
  "en_tab (clearSuspect i e) = en_tab e" "en_detector (clearSuspect i e) = en_detector e" "en_cells (clearSuspect i e) = en_cells e"
  "en_zeroStack (clearSuspect i e) = en_zeroStack e" "en_suspectStack (clearSuspect i e) = en_suspectStack e"
  "en_tab (recheck i e) = en_tab e" "en_detector (recheck i e) = en_detector e" "en_cells (recheck i e) = en_cells e"
  by (simp_all add: markZero_def markSuspect_def setSuspect_def clearSuspect_def recheck_def)

lemma eok_fields [simp]:
  "eok n (e\<lparr>en_tab := t\<rparr>) = eok n e" "eok n (e\<lparr>en_detector := d\<rparr>) = eok n e"
  "eok n (e\<lparr>en_reclaimedZero := a\<rparr>) = eok n e" "eok n (e\<lparr>en_reclaimedCycle := a\<rparr>) = eok n e" "eok n (e\<lparr>en_tarjanRuns := a\<rparr>) = eok n e"
  "eok n (e\<lparr>en_tarjanVisited := a\<rparr>) = eok n e" "eok n (e\<lparr>en_lastScanSuspects := a\<rparr>) = eok n e" "eok n (e\<lparr>en_lastScanVisited := a\<rparr>) = eok n e"
  "eok n (e\<lparr>en_lastScanRoots := a\<rparr>) = eok n e" "eok n (e\<lparr>en_releaseNodes := a\<rparr>) = eok n e" "eok n (e\<lparr>en_leakNodes := a\<rparr>) = eok n e"
  "eok n (e\<lparr>en_msgsProcessed := a\<rparr>) = eok n e"
  by (simp_all add: eok_def engine_errs_def)

lemma eok_markZero: "eok n e \<Longrightarrow> i < n \<Longrightarrow> eok n (markZero i e)"
  by (simp add: eok_def engine_errs_def markZero_def)

lemma eok_markSuspect: "eok n e \<Longrightarrow> i < n \<Longrightarrow> eok n (markSuspect i e)"
  using marked_set [of i "en_suspectMark e"] by (simp add: eok_def engine_errs_def markSuspect_def setSuspect_def)

lemma eok_clearSuspect: "eok n e \<Longrightarrow> i < n \<Longrightarrow> eok n (clearSuspect i e)"
  using marked_clear [of i "en_suspectMark e"] by (auto simp: eok_def engine_errs_def clearSuspect_def)

lemma eok_recheck: "eok n e \<Longrightarrow> i < n \<Longrightarrow> eok n (recheck i e)"
  by (simp add: recheck_def eok_markZero eok_markSuspect)

lemma drop_targets:
  assumes "eok n e" and "set js \<subseteq> {..<n}"
  shows "eok n (fold drop_target js e) \<and> en_detector (fold drop_target js e) = en_detector e \<and> en_cells (fold drop_target js e) = en_cells e
    \<and> en_tab (fold drop_target js e) = fold (\<lambda>j t. snd (subEdgeTo j t)) js (en_tab e)"
  using assms
proof (induction js arbitrary: e)
  case (Cons j js)
  have "eok n (drop_target j e)" unfolding drop_target_def using Cons.prems by (intro eok_recheck) auto
  moreover have "en_tab (drop_target j e) = snd (subEdgeTo j (en_tab e))" "en_detector (drop_target j e) = en_detector e"
    "en_cells (drop_target j e) = en_cells e" by (simp_all add: drop_target_def)
  ultimately show ?case using Cons.IH [of "drop_target j e"] Cons.prems(2) by simp
qed simp

section \<open>Reclaiming what is not referred to\<close>

definition astate :: "heap \<Rightarrow> engine \<Rightarrow> nat multiset \<Rightarrow> (nat \<times> nat) set \<Rightarrow> bool" where
  "astate h e R X \<longleftrightarrow> cok UNIV h (en_tab e) R X \<and> eok (length (slots h)) e \<and> clean (length (slots h)) (en_detector e)"

text \<open>Only unreachable objects go, and nothing else changes.\<close>

definition reclaims :: "nat multiset \<Rightarrow> (nat \<times> nat) set \<Rightarrow> heap \<Rightarrow> heap \<Rightarrow> bool" where
  "reclaims R X h h' \<longleftrightarrow> heap_ok h \<and> heap_ok h' \<and> keeps h h' (reach h (set_mset R) X) \<and> length (slots h') = length (slots h)
     \<and> slotCap h' = slotCap h \<and> {i. valid h' i} \<subseteq> {i. valid h i}"

definition nlive :: "heap \<Rightarrow> nat" where "nlive h = card {i. valid h i}"

lemma finite_live [simp]: "finite {i. valid h i}"
  by (rule finite_subset [of _ "{..<length (slots h)}"]) (auto simp: valid_def)

lemma nlive_free: "valid h i \<Longrightarrow> nlive (freePayload i h) < nlive h"
  unfolding nlive_def by (rule psubset_card_mono) (auto simp: valid_free)

lemma reclaims_refl: "heap_ok h \<Longrightarrow> reclaims R X h h"
  by (simp add: reclaims_def)

lemma reclaims_nlive: "reclaims R X h h' \<Longrightarrow> nlive h' \<le> nlive h"
  unfolding nlive_def reclaims_def by (intro card_mono) auto

lemma reclaims_trans: "reclaims R X h h1 \<Longrightarrow> reclaims R X h1 h2 \<Longrightarrow> reclaims R X h h2"
proof -
  assume a: "reclaims R X h h1" "reclaims R X h1 h2"
  have "reach h (set_mset R) X \<subseteq> reach h1 (set_mset R) X" using a by (intro reach_keeps) (auto simp: reclaims_def)
  then have "keeps h h2 (reach h (set_mset R) X)" using a unfolding reclaims_def keeps_def by (metis subsetD)
  with a show ?thesis unfolding reclaims_def by auto
qed

lemma reclaims_free: "heap_ok h \<Longrightarrow> i \<notin> reach h (set_mset R) X \<Longrightarrow> reclaims R X h (freePayload i h)"
  using hp.release_law [of h i] by (auto simp: reclaims_def keeps_def freePayload_slots valid_free)

lemma unreferenced: "i \<notin># R \<Longrightarrow> in_refs h i - X = {} \<Longrightarrow> i \<notin> reach h (set_mset R) X"
proof
  assume a: "i \<notin># R" "in_refs h i - X = {}" and r: "i \<in> reach h (set_mset R) X"
  from r show False by cases (use a in \<open>auto simp: in_refs_def\<close>)
qed

lemma free_cell_current:
  assumes "valid h i" and "heap_ok h"
  shows "free_cell (ObjHandle i (generationOf h i)) (h, e) = (freePayload i h, e)"
proof -
  have "i < slotCapacity h" using assms by (simp add: valid_def slotCapacity_def heap_ok_def u32_cast_def)
  with assms(1) show ?thesis by (simp add: free_cell_def cs_free_def cs_valid_def generationOf_def)
qed

lemma reclaimCell_ok:
  assumes a: "astate h e R X" and i: "valid h i" and z: "rt_total (en_tab e) i = 0" and r: "reclaimCell i (h, e) = (h', e')"
  shows "astate h' e' R X \<and> reclaims R X h h' \<and> nlive h' < nlive h"
proof -
  have c: "cok UNIV h (en_tab e) R X" and eo: "eok (length (slots h)) e" and cl: "clean (length (slots h)) (en_detector e)"
    using a by (simp_all add: astate_def)
  have ok: "heap_ok h" by (rule cokD(2) [OF c])
  have i': "i < length (slots h)" using i by (simp add: valid_def)
  let ?e1 = "clearSuspect i (e\<lparr>en_reclaimedZero := en_reclaimedZero e + 1\<rparr>)"
  let ?P = "\<lambda>x. \<not> \<not> isLiveAt h (oh_index x)"
  let ?js = "map oh_index (filter ?P (outs (en_tab e) i))"
  have P: "\<forall>x \<in> set (outs (en_tab e) i). ?P x" using cok_target(2) [OF c i'] by (simp add: isLiveAt_def)
  have js: "set ?js \<subseteq> {..<length (slots h)}" using cok_target(3) [OF c i'] by auto
  have e1: "eok (length (slots h)) ?e1" by (rule eok_clearSuspect [OF _ i']) (simp add: eo)
  note d = drop_targets [OF e1 js]
  let ?t1 = "fold (\<lambda>j t. snd (subEdgeTo j t)) ?js (en_tab e)"
  note cr = cok_detach_reset [OF c i' P refl z]
  have iR: "i \<notin># R" using cr(2) by (simp add: not_in_iff)
  let ?e3 = "(fold drop_target ?js ?e1)\<lparr>en_tab := resetSlot i ?t1\<rparr>"
  have "reclaimCell i (h, e) = free_cell (ObjHandle i (generationOf h i)) (h, ?e3)"
    using d unfolding reclaimCell_def Let_def prod.case fold_if [of "\<lambda>x. \<not> isLiveAt h (oh_index x)" drop_target oh_index] by simp
  then have he: "h' = freePayload i h" "e' = ?e3" using r free_cell_current [OF i ok] by simp_all
  have "cok UNIV h' (resetSlot i ?t1) R (X \<union> {i} \<times> UNIV)" unfolding he
    by (rule cok_free [OF cr(1) _ iR]) (use cr(3) in auto)
  then have c': "cok UNIV h' (resetSlot i ?t1) R X" by (rule cok_undetach) (simp add: he valid_free)
  have n: "length (slots h') = length (slots h)" unfolding he by (rule freePayload_slots)
  have "astate h' e' R X" unfolding astate_def n using c' d cl by (simp add: he(2))
  moreover have "reclaims R X h h'" unfolding he by (rule reclaims_free [OF ok unreferenced [OF iR cr(3)]])
  moreover have "nlive h' < nlive h" unfolding he by (rule nlive_free [OF i])
  ultimately show ?thesis by blast
qed

lemma sweepZero_ok:
  "astate h e R X \<Longrightarrow> \<exists>h' e'. sweepZero (h, e) = Some (h', e') \<and> astate h' e' R X \<and> reclaims R X h h' \<and> en_zeroStack e' = []
    \<and> (nlive h' < nlive h \<or> en_suspectStack e' = en_suspectStack e)"
proof (induction "(nlive h, length (en_zeroStack e))" arbitrary: h e rule: wf_induct_rule [OF wf_lex_prod [OF wf_less_than wf_less_than]])
  case 1
  have ok: "heap_ok h" using "1.prems" cokD(2) by (auto simp: astate_def)
  note eq = sweepZero.simps [of "(h, e)"]
  show ?case
  proof (cases "en_zeroStack e")
    case Nil
    with "1.prems" eq reclaims_refl [OF ok] show ?thesis by auto
  next
    case (Cons i zs)
    define e1 where "e1 = e\<lparr>en_zeroStack := zs, en_zeroMark := (en_zeroMark e)[i := False]\<rparr>"
    have e1: "astate h e1 R X" "en_zeroStack e1 = zs" "en_suspectStack e1 = en_suspectStack e" using "1.prems" Cons by (auto simp: astate_def e1_def eok_def engine_errs_def)
    have so: "sweep_one (h, e) = (if \<not> valid h i \<or> rt_total (en_tab e1) i \<noteq> 0 then (h, e1) else reclaimCell i (h, e1))"
      by (simp add: sweep_one_def Cons e1_def isLiveAt_def Let_def)
    obtain h1 e2 where s: "sweep_one (h, e) = (h1, e2)" by (cases "sweep_one (h, e)")
    have st: "astate h1 e2 R X \<and> reclaims R X h h1 \<and> (nlive h1 < nlive h \<or> h1 = h \<and> en_zeroStack e2 = zs \<and> en_suspectStack e2 = en_suspectStack e)"
    proof (cases "\<not> valid h i \<or> rt_total (en_tab e1) i \<noteq> 0")
      case True
      then have "h1 = h" "e2 = e1" using so s by simp_all
      with e1 reclaims_refl [OF ok] show ?thesis by simp
    next
      case False
      then have "reclaimCell i (h, e1) = (h1, e2)" using so s by simp
      with reclaimCell_ok [OF e1(1), of i h1 e2] False show ?thesis by simp
    qed
    have "((nlive h1, length (en_zeroStack e2)), (nlive h, length (en_zeroStack e))) \<in> less_than <*lex*> less_than" using st Cons by auto
    from "1.hyps" [OF this] st obtain h' e' where "sweepZero (h1, e2) = Some (h', e')" "astate h' e' R X" and r: "reclaims R X h1 h'" and
      "en_zeroStack e' = []" "nlive h' < nlive h1 \<or> en_suspectStack e' = en_suspectStack e2" by blast
    moreover have "nlive h' < nlive h \<or> en_suspectStack e' = en_suspectStack e"
      using calculation st reclaims_nlive [OF r] by (metis dual_order.strict_trans2 order.strict_trans)
    ultimately show ?thesis using eq s Cons st reclaims_trans by auto
  qed
qed

end
