(* ===== verification/Lx_CycleGC.thy ===== *)
theory Lx_CycleGC
  imports Lx_EngineSpec
begin

text \<open>
  The collection of cyclic garbage: a component whose counts are all explained by its own edges is
  referred to by nothing outside, so reclaiming it as a unit frees no reachable object and keeps the
  table exact; the passes end because each frees an object.
\<close>

section \<open>Sums per component\<close>

lemma length_add_at [simp]: "length (add_at s v xs) = length xs"
  by (simp add: add_at_def)

lemma fold_add_at:
  assumes "\<forall>i \<in> set vs. c i < length xs" and "s < length xs"
  shows "length (fold (\<lambda>i. add_at (c i) (v i)) vs xs) = length xs
    \<and> fold (\<lambda>i. add_at (c i) (v i)) vs xs ! s = xs ! s + sum_list (map v (filter (\<lambda>i. c i = s) vs))"
  using assms
proof (induction vs arbitrary: xs)
  case (Cons i vs)
  from Cons.IH [of "add_at (c i) (v i) xs"] Cons.prems show ?case by (auto simp: add_at_def nth_list_update)
qed simp

lemma fold_add_ones: "fold (\<lambda>x xs. if P x then add_at c 1 xs else xs) ys xs = add_at c (int (length (filter P ys))) xs"
  if "c < length xs"
  using that
proof (induction ys arbitrary: xs)
  case (Cons y ys)
  from Cons.IH [of "add_at c 1 xs"] Cons.IH [of xs] Cons.prems show ?case by (simp add: add_at_def add.assoc)
qed (simp add: add_at_def)

lemma fold_inner_ones:
  "\<forall>i \<in> set vs. c i < length xs \<Longrightarrow>
   fold (\<lambda>i xs. fold (\<lambda>x xs. if P i x then add_at (c i) 1 xs else xs) (f i) xs) vs xs
   = fold (\<lambda>i. add_at (c i) (int (length (filter (P i) (f i))))) vs xs"
proof (induction vs arbitrary: xs)
  case (Cons i vs)
  have "c i < length xs" using Cons.prems by simp
  then show ?case using Cons.IH [of "add_at (c i) (int (length (filter (P i) (f i)))) xs"] Cons.prems by (simp add: fold_add_ones)
qed simp

lemma fold_buckets:
  assumes "\<forall>i \<in> set vs. c i < length ms" and "s < length ms"
  shows "fold (\<lambda>i ms. if P i then ms[c i := ms ! c i @ [i]] else ms) vs ms ! s = ms ! s @ filter (\<lambda>i. P i \<and> c i = s) vs"
  using assms
proof (induction vs arbitrary: ms)
  case (Cons i vs)
  let ?ms = "if P i then ms[c i := ms ! c i @ [i]] else ms"
  have "fold (\<lambda>i ms. if P i then ms[c i := ms ! c i @ [i]] else ms) vs ?ms ! s = ?ms ! s @ filter (\<lambda>i. P i \<and> c i = s) vs"
    by (rule Cons.IH) (use Cons.prems in auto)
  then show ?case using Cons.prems by (auto simp: nth_list_update)
qed simp

section \<open>Closed components\<close>

definition comp_closed :: "heap \<Rightarrow> nat multiset \<Rightarrow> (nat \<times> nat) set \<Rightarrow> nat set \<Rightarrow> bool" where
  "comp_closed h R X M \<longleftrightarrow> (\<forall>j \<in> M. valid h j \<and> j \<notin># R \<and> in_refs h j - (X \<union> M \<times> UNIV) = {})"

lemma in_refs_split_set:
  assumes "heap_ok h" and "finite F"
  shows "card (in_refs h j - X) = (\<Sum>i \<in> F. mult h X i j) + card (in_refs h j - (X \<union> F \<times> UNIV))"
  using assms(2)
proof induction
  case (insert i F)
  have "mult h (X \<union> F \<times> UNIV) i j = mult h X i j"
    unfolding mult_def by (rule arg_cong [where f = card]) (use insert.hyps in auto)
  moreover have "X \<union> F \<times> UNIV \<union> {i} \<times> UNIV = X \<union> insert i F \<times> UNIV" by auto
  ultimately have "card (in_refs h j - (X \<union> F \<times> UNIV)) = mult h X i j + card (in_refs h j - (X \<union> insert i F \<times> UNIV))"
    using in_refs_split [OF assms(1), of j "X \<union> F \<times> UNIV" i] by simp
  with insert show ?case by simp
qed simp

lemma length_filter_index: "finite M \<Longrightarrow> length (filter (\<lambda>x. f x \<in> M) xs) = (\<Sum>j \<in> M. count (mset (map f xs)) j)"
proof (induction xs)
  case (Cons x xs)
  have "(\<Sum>j \<in> M. count (mset (map f (x # xs))) j) = (\<Sum>j \<in> M. (if j = f x then 1 else 0) + count (mset (map f xs)) j)"
    by (rule sum.cong) auto
  also have "\<dots> = (if f x \<in> M then 1 else 0) + (\<Sum>j \<in> M. count (mset (map f xs)) j)"
    using Cons.prems by (simp add: sum.distrib)
  finally show ?case using Cons by simp
qed simp

lemma flagged_closed:
  assumes c: "cok UNIV h t R X" and M: "M \<subseteq> {i. valid h i}"
    and root: "(\<Sum>i \<in> M. rt_root t i) = 0"
    and edge: "(\<Sum>i \<in> M. rt_edge t i) = (\<Sum>i \<in> M. int (length (filter (\<lambda>x. cs_valid h x \<and> oh_index x \<in> M) (outs t i))))"
  shows "comp_closed h R X M"
proof -
  have fin: "finite M" by (rule finite_subset [OF M]) simp
  have ok: "heap_ok h" by (rule cokD(2) [OF c])
  have l: "i < length (slots h)" if "i \<in> M" for i using M that by (auto simp: valid_def)
  have "(\<Sum>i \<in> M. int (count R i)) = (\<Sum>i \<in> M. rt_root t i)" by (rule sum.cong [OF refl]) (simp add: cokD(5) [OF c l])
  then have "(\<Sum>i \<in> M. int (count R i)) = 0" unfolding root .
  then have "int (\<Sum>i \<in> M. count R i) = 0" unfolding of_nat_sum .
  then have r0: "count R i = 0" if "i \<in> M" for i using that unfolding of_nat_eq_0_iff sum_eq_0_iff [OF fin] by blast
  have outs_in: "length (filter (\<lambda>x. cs_valid h x \<and> oh_index x \<in> M) (outs t i)) = (\<Sum>j \<in> M. mult h X i j)" if "i \<in> M" for i
  proof -
    have "filter (\<lambda>x. cs_valid h x \<and> oh_index x \<in> M) (outs t i) = filter (\<lambda>x. oh_index x \<in> M) (outs t i)"
      by (rule filter_cong [OF refl]) (use cok_target(1) [OF c l [OF that]] in auto)
    then show ?thesis unfolding cok_row_count [OF c l [OF that], symmetric] by (simp only: length_filter_index [OF fin])
  qed
  let ?out = "\<lambda>j. card (in_refs h j - (X \<union> M \<times> UNIV))"
  have "(\<Sum>j \<in> M. int (card (in_refs h j - X))) = (\<Sum>j \<in> M. rt_edge t j)" by (rule sum.cong [OF refl]) (simp add: cokD(6) [OF c l])
  also have "\<dots> = (\<Sum>i \<in> M. int (\<Sum>j \<in> M. mult h X i j))" unfolding edge by (rule sum.cong [OF refl]) (simp only: outs_in)
  finally have "int (\<Sum>j \<in> M. card (in_refs h j - X)) = int (\<Sum>i \<in> M. \<Sum>j \<in> M. mult h X i j)" unfolding of_nat_sum .
  then have "(\<Sum>j \<in> M. card (in_refs h j - X)) = (\<Sum>i \<in> M. \<Sum>j \<in> M. mult h X i j)" unfolding of_nat_eq_iff .
  also have "\<dots> = (\<Sum>j \<in> M. \<Sum>i \<in> M. mult h X i j)" by (rule sum.swap)
  finally have "(\<Sum>j \<in> M. card (in_refs h j - X)) = (\<Sum>j \<in> M. \<Sum>i \<in> M. mult h X i j)" .
  moreover have "(\<Sum>j \<in> M. card (in_refs h j - X)) = (\<Sum>j \<in> M. (\<Sum>i \<in> M. mult h X i j) + ?out j)"
    by (rule sum.cong [OF refl]) (rule in_refs_split_set [OF ok fin])
  ultimately have "(\<Sum>j \<in> M. (\<Sum>i \<in> M. mult h X i j) + ?out j) = (\<Sum>j \<in> M. \<Sum>i \<in> M. mult h X i j)" by linarith
  then have "(\<Sum>j \<in> M. ?out j) = 0" unfolding sum.distrib by linarith
  then have o0: "?out j = 0" if "j \<in> M" for j using that unfolding sum_eq_0_iff [OF fin] by blast
  have "in_refs h j - (X \<union> M \<times> UNIV) = {}" if "j \<in> M" for j
    by (rule iffD1 [OF card_0_eq [OF finite_Diff [OF finite_in_refs [OF ok]]] o0 [OF that]])
  moreover have "valid h j" "j \<notin># R" if "j \<in> M" for j using M r0 [OF that] that by (auto simp: not_in_iff)
  ultimately show ?thesis by (simp add: comp_closed_def)
qed

lemma closed_unreachable:
  assumes "comp_closed h R X M" and "i \<in> M"
  shows "i \<notin> reach h (set_mset R) X"
proof
  assume "i \<in> reach h (set_mset R) X"
  then show False using assms(2)
  proof induction
    case (root i)
    then show ?case using assms(1) by (auto simp: comp_closed_def)
  next
    case (edge a k i)
    have e: "in_refs h i - (X \<union> M \<times> UNIV) = {}" using assms(1) edge.prems by (simp add: comp_closed_def)
    have "(a, k) \<in> in_refs h i" using edge.hyps by (simp add: in_refs_def)
    with e edge.hyps have "a \<in> M" by auto
    then show ?case by (rule edge.IH)
  qed
qed

section \<open>Reclaiming a component\<close>

lemma cok_mono: "cok S h t R X \<Longrightarrow> T \<subseteq> S \<Longrightarrow> cok T h t R X"
  unfolding cok_def by blast

lemma cok_reset:
  assumes c: "cok S h t R X" and i: "i < length (slots h)" "{i} \<times> UNIV \<subseteq> X" "i \<notin># R" and none: "in_refs h i - X = {}"
  shows "cok (insert i S) h (resetSlot i t) R X"
proof -
  have n: "length (rt_rec t) = length (slots h)" by (rule cokD(4) [OF c])
  have m0: "mult h X i j = 0" for j
  proof -
    have "{k. (i, k) \<notin> X \<and> ref_at h (i, k) = Some j} = {}" using i(2) by blast
    then show ?thesis unfolding mult_def by (simp only: card.empty)
  qed
  have "\<forall>j < length (rt_rec t). j \<noteq> i \<longrightarrow> i \<notin> oh_index ` set (outs t j)"
  proof (intro allI impI)
    fix j assume j: "j < length (rt_rec t)"
    show "i \<notin> oh_index ` set (outs t j)" by (rule no_incoming [OF c]) (use j n none in \<open>auto simp: in_refs_def\<close>)
  qed
  note l = rt.reset_law [OF cokD(3) [OF c] _ this refl]
  have il: "i < length (rt_rec t)" using i(1) n by simp
  have z: "card (in_refs h i - X) = 0" unfolding none by simp
  show ?thesis
  proof (rule cokI)
    fix j assume j: "j < length (slots h)"
    { assume "j \<in> insert i S"
      then show "rt_root (resetSlot i t) j = int (count R j)" "rt_edge (resetSlot i t) j = int (card (in_refs h j - X))"
        using l [OF il] cokD(5,6) [OF c j] z i(3) by (auto simp: not_in_iff) }
    show "rt_row (resetSlot i t) j (generation (slots h ! j))" using l [OF il] cokD(8) [OF c j] j n by simp
    fix x show "count (mset (outs (resetSlot i t) j)) x = (if oh_gen x = generation (slots h ! oh_index x) then mult h X j (oh_index x) else 0)"
      using l [OF il] cokD(7) [OF c j, of x] m0 j n by (cases "j = i") auto
  qed (use l [OF il] n cokD(1) [OF c] in auto)
qed

lemma detach_member_ok:
  assumes c: "cok (- M) h (en_tab e) R X" and eo: "eok (length (slots h)) e" and i: "i < length (slots h)"
    and scc: "\<And>x. x < length (slots h) \<Longrightarrow> sccOf (en_detector e) x = s \<longleftrightarrow> x \<in> M" and e': "e' = detach_member h s i e"
  shows "cok (- M) h (en_tab e') R (X \<union> {i} \<times> UNIV) \<and> eok (length (slots h)) e' \<and> en_detector e' = en_detector e"
proof -
  let ?n = "length (slots h)" and ?d = "en_detector e"
  let ?P = "\<lambda>x. \<not> (\<not> cs_valid h x \<or> sccOf ?d (oh_index x) = s)"
  let ?xs = "outs (en_tab e) i" and ?e1 = "e\<lparr>en_reclaimedCycle := en_reclaimedCycle e + 1\<rparr>"
  let ?js = "map oh_index (filter ?P ?xs)"
  have P: "\<forall>x \<in> set ?xs. ?P x \<longleftrightarrow> oh_index x \<in> - M" using cok_target(1,3) [OF c i] scc by auto
  have js: "set ?js \<subseteq> {..<?n}" using cok_target(3) [OF c i] by auto
  have "eok ?n ?e1" using eo by simp
  note d = drop_targets [OF this js]
  have body: "fold (\<lambda>x e. if \<not> cs_valid h x then e else if sccOf (en_detector e) (oh_index x) = s then e else drop_target (oh_index x) e) xs e1
      = fold drop_target (map oh_index (filter ?P xs)) e1" if "en_detector e1 = ?d" for xs e1
    using that
  proof (induction xs arbitrary: e1)
    case (Cons x xs)
    have "en_detector (drop_target j e1) = en_detector e1" for j by (simp add: drop_target_def)
    with Cons show ?case by simp
  qed simp
  have eq: "e' = (fold drop_target ?js ?e1)\<lparr>en_tab := clearOuts i (fold (\<lambda>j t. snd (subEdgeTo j t)) ?js (en_tab e))\<rparr>"
    unfolding e' detach_member_def Let_def using d by (simp add: body)
  show ?thesis unfolding eq using cok_detach_clear [OF c i P refl] d by simp
qed

lemma detach_members_ok:
  assumes "cok (- M) h (en_tab e) R X" and "eok (length (slots h)) e" and "set ms \<subseteq> {..<length (slots h)}"
    and "\<And>x. x < length (slots h) \<Longrightarrow> sccOf (en_detector e) x = s \<longleftrightarrow> x \<in> M" and "e' = fold (detach_member h s) ms e"
  shows "cok (- M) h (en_tab e') R (X \<union> set ms \<times> UNIV) \<and> eok (length (slots h)) e' \<and> en_detector e' = en_detector e"
  using assms
proof (induction ms arbitrary: e X)
  case (Cons i ms)
  let ?e1 = "detach_member h s i e"
  have i: "i < length (slots h)" using Cons.prems(3) by simp
  note d = detach_member_ok [OF Cons.prems(1,2) i Cons.prems(4) refl]
  have "X \<union> {i} \<times> UNIV \<union> set ms \<times> UNIV = X \<union> set (i # ms) \<times> UNIV" by auto
  moreover have "cok (- M) h (en_tab e') R (X \<union> {i} \<times> UNIV \<union> set ms \<times> UNIV) \<and> eok (length (slots h)) e' \<and> en_detector e' = en_detector ?e1"
    by (rule Cons.IH) (use d Cons.prems(3,4,5) in auto)
  ultimately show ?case using d by simp
qed simp

lemma free_members_ok:
  assumes "cok (- set ms) h (en_tab e) R X" and "eok (length (slots h)) e" and "set ms \<times> UNIV \<subseteq> X" and "distinct ms"
    and "\<And>i. i \<in> set ms \<Longrightarrow> valid h i \<and> i \<notin># R \<and> in_refs h i - X = {}" and "fold free_member ms (h, e) = (h', e')"
  shows "cok UNIV h' (en_tab e') R X \<and> eok (length (slots h')) e' \<and> en_detector e' = en_detector e \<and> length (slots h') = length (slots h)
    \<and> slotCap h' = slotCap h \<and> (\<forall>j. valid h' j \<longleftrightarrow> valid h j \<and> j \<notin> set ms) \<and> (\<forall>j. j \<notin> set ms \<longrightarrow> view h' j = view h j)
    \<and> (\<forall>j. in_refs h' j \<subseteq> in_refs h j)"
  using assms
proof (induction ms arbitrary: h e)
  case Nil
  then show ?case by simp
next
  case (Cons i ms)
  have ok: "heap_ok h" by (rule cokD(2) [OF Cons.prems(1)])
  have i: "valid h i" "i \<notin># R" "in_refs h i - X = {}" "i < length (slots h)" "i \<notin> set ms" "{i} \<times> UNIV \<subseteq> X"
    using Cons.prems(3-5) by (auto simp: valid_def)
  let ?e1 = "clearSuspect i (e\<lparr>en_tab := resetSlot i (en_tab e)\<rparr>)" and ?h1 = "freePayload i h"
  have f: "free_member i (h, e) = (?h1, ?e1)" by (simp add: free_member_def free_cell_current [OF i(1) ok] Let_def)
  have "insert i (- set (i # ms)) = - set ms" using i(5) by auto
  then have "cok (- set ms) h (resetSlot i (en_tab e)) R X" using cok_reset [OF Cons.prems(1) i(4,6,2,3)] by simp
  then have c1: "cok (- set ms) ?h1 (en_tab ?e1) R X" using cok_free [OF _ i(6,2,3)] by simp
  have n: "length (slots ?h1) = length (slots h)" by (rule freePayload_slots)
  have e1: "eok (length (slots ?h1)) ?e1" unfolding n by (rule eok_clearSuspect [OF _ i(4)]) (use Cons.prems(2) in simp)
  have refs: "in_refs ?h1 j \<subseteq> in_refs h j" for j using in_refs_release [OF ok, of i j] by auto
  have v: "view ?h1 = (view h)(i := None)" using hp.release_law [OF ok, of i] by simp
  have ih: "cok UNIV h' (en_tab e') R X \<and> eok (length (slots h')) e' \<and> en_detector e' = en_detector ?e1 \<and> length (slots h') = length (slots ?h1)
    \<and> slotCap h' = slotCap ?h1 \<and> (\<forall>j. valid h' j \<longleftrightarrow> valid ?h1 j \<and> j \<notin> set ms) \<and> (\<forall>j. j \<notin> set ms \<longrightarrow> view h' j = view ?h1 j)
    \<and> (\<forall>j. in_refs h' j \<subseteq> in_refs ?h1 j)"
  proof (rule Cons.IH [OF c1 e1])
    show "valid ?h1 j \<and> j \<notin># R \<and> in_refs ?h1 j - X = {}" if "j \<in> set ms" for j
      using Cons.prems(5) [of j] that refs [of j] i(5) by (auto simp: valid_free)
  qed (use Cons.prems(3,4,6) f in auto)
  have "in_refs h' j \<subseteq> in_refs h j" for j using ih refs by blast
  with ih n v show ?case by (auto simp: freePayload_slots valid_free)
qed

lemma reclaimCycleComponent_ok:
  assumes c: "cok UNIV h (en_tab e) R X" and eo: "eok (length (slots h)) e" and cl: "comp_closed h R X (set ms)" and d: "distinct ms"
    and scc: "\<And>x. x < length (slots h) \<Longrightarrow> sccOf (en_detector e) x = s \<longleftrightarrow> x \<in> set ms"
    and r: "reclaimCycleComponent ms s (h, e) = (h', e')"
  shows "cok UNIV h' (en_tab e') R X \<and> eok (length (slots h')) e' \<and> en_detector e' = en_detector e \<and> reclaims R X h h'
    \<and> (\<forall>j. valid h' j \<longleftrightarrow> valid h j \<and> j \<notin> set ms) \<and> (\<forall>j. in_refs h' j \<subseteq> in_refs h j)"
proof -
  let ?X = "X \<union> set ms \<times> UNIV"
  define e1 where "e1 = fold (detach_member h s) ms e"
  have ms: "set ms \<subseteq> {..<length (slots h)}" using cl by (auto simp: comp_closed_def valid_def)
  have "cok (- set ms) h (en_tab e) R X" by (rule cok_mono [OF c]) simp
  note p1 = detach_members_ok [OF this eo ms scc e1_def]
  have f: "fold free_member ms (h, e1) = (h', e')" using r by (simp add: reclaimCycleComponent_def e1_def)
  have m: "valid h i \<and> i \<notin># R \<and> in_refs h i - ?X = {}" if "i \<in> set ms" for i using cl that unfolding comp_closed_def by blast
  have p2: "cok UNIV h' (en_tab e') R ?X \<and> eok (length (slots h')) e' \<and> en_detector e' = en_detector e1 \<and> length (slots h') = length (slots h)
    \<and> slotCap h' = slotCap h \<and> (\<forall>j. valid h' j \<longleftrightarrow> valid h j \<and> j \<notin> set ms) \<and> (\<forall>j. j \<notin> set ms \<longrightarrow> view h' j = view h j)
    \<and> (\<forall>j. in_refs h' j \<subseteq> in_refs h j)"
    by (rule free_members_ok [OF _ _ _ d m f]) (use p1 in auto)
  then have "cok UNIV h' (en_tab e') R X" using cok_undetach [of UNIV h' "en_tab e'" R X "set ms"] by blast
  moreover have "reclaims R X h h'"
    unfolding reclaims_def keeps_def using p2 cokD(2) [OF c] cokD(2) [of UNIV h' "en_tab e'" R ?X] closed_unreachable [OF cl] by auto
  ultimately show ?thesis using p1 p2 by auto
qed

section \<open>One pass\<close>

definition comp_members :: "detector \<Rightarrow> nat list \<Rightarrow> nat \<Rightarrow> nat list" where
  "comp_members d vis s = filter (\<lambda>i. sccOf d i = s) vis"

lemma comp_closed_shrink:
  assumes "comp_closed h R X M" and "\<And>j. j \<in> M \<Longrightarrow> valid h' j" and "\<And>j. in_refs h' j \<subseteq> in_refs h j"
  shows "comp_closed h' R X M"
  unfolding comp_closed_def
proof
  fix j assume j: "j \<in> M"
  have "in_refs h j - (X \<union> M \<times> UNIV) = {}" "j \<notin># R" using assms(1) j by (simp_all add: comp_closed_def)
  then show "valid h' j \<and> j \<notin># R \<and> in_refs h' j - (X \<union> M \<times> UNIV) = {}" using assms(2) [OF j] assms(3) [of j] by blast
qed

lemma reclaim_flagged_fold:
  assumes "cok UNIV h (en_tab e) R X" and "eok (length (slots h)) e" and "en_detector e = d" and "distinct ss" and "distinct vis"
    and "\<And>s. s \<in> set ss \<Longrightarrow> reclaim ! s \<Longrightarrow> comp_closed h R X (set (comp_members d vis s))"
    and "\<And>s. s \<in> set ss \<Longrightarrow> members ! s = comp_members d vis s"
    and "\<And>s x. s \<in> set ss \<Longrightarrow> x < length (slots h) \<Longrightarrow> sccOf d x = s \<Longrightarrow> x \<in> set vis"
    and "fold (reclaim_flagged reclaim members) ss (any, h, e) = (any', h', e')"
  shows "cok UNIV h' (en_tab e') R X \<and> eok (length (slots h')) e' \<and> en_detector e' = d \<and> reclaims R X h h'
    \<and> (any' \<longrightarrow> any \<or> nlive h' < nlive h) \<and> (\<not> any' \<longrightarrow> h' = h \<and> e' = e)"
  using assms
proof (induction ss arbitrary: any h e)
  case Nil
  then show ?case using reclaims_refl [OF cokD(2)] by simp
next
  case (Cons s ss)
  let ?M = "comp_members d vis s"
  show ?case
  proof (cases "reclaim ! s \<and> ?M \<noteq> []")
    case False
    then have "reclaim_flagged reclaim members s (any, h, e) = (any, h, e)" using Cons.prems(7) [of s] by (auto simp: reclaim_flagged_def)
    then have "fold (reclaim_flagged reclaim members) ss (any, h, e) = (any', h', e')" using Cons.prems(9) by simp
    with Cons.prems show ?thesis by (intro Cons.IH) auto
  next
    case True
    obtain h1 e1 where r: "reclaimCycleComponent ?M s (h, e) = (h1, e1)" by (cases "reclaimCycleComponent ?M s (h, e)")
    have "reclaim_flagged reclaim members s (any, h, e) = (True, h1, e1)" using True Cons.prems(7) [of s] r by (simp add: reclaim_flagged_def)
    then have f: "fold (reclaim_flagged reclaim members) ss (True, h1, e1) = (any', h', e')" using Cons.prems(9) by simp
    have cl: "comp_closed h R X (set ?M)" using Cons.prems(6) [of s] True by simp
    have scc: "sccOf (en_detector e) x = s \<longleftrightarrow> x \<in> set ?M" if "x < length (slots h)" for x
      using Cons.prems(3) Cons.prems(8) [of s x] that by (auto simp: comp_members_def)
    have dist: "distinct ?M" using Cons.prems(5) by (simp add: comp_members_def)
    note c = reclaimCycleComponent_ok [OF Cons.prems(1,2) cl dist scc r]
    have n: "length (slots h1) = length (slots h)" using c by (simp add: reclaims_def)
    obtain x where x: "x \<in> set ?M" using True by (cases ?M) auto
    then have "valid h x" using cl by (simp add: comp_closed_def)
    then have "{i. valid h1 i} \<subset> {i. valid h i}" using c x by auto
    then have lt: "nlive h1 < nlive h" unfolding nlive_def by (rule psubset_card_mono [OF finite_live])
    have ih: "cok UNIV h' (en_tab e') R X \<and> eok (length (slots h')) e' \<and> en_detector e' = d \<and> reclaims R X h1 h'
      \<and> (any' \<longrightarrow> True \<or> nlive h' < nlive h1) \<and> (\<not> any' \<longrightarrow> h' = h1 \<and> e' = e1)"
    proof (rule Cons.IH)
      show "comp_closed h1 R X (set (comp_members d vis s'))" if s': "s' \<in> set ss" "reclaim ! s'" for s'
      proof (rule comp_closed_shrink)
        show cl': "comp_closed h R X (set (comp_members d vis s'))" using Cons.prems(6) [of s'] s' by simp
        show "valid h1 j" if "j \<in> set (comp_members d vis s')" for j
        proof -
          have "s' \<noteq> s" using s'(1) Cons.prems(4) by auto
          then have "j \<notin> set ?M" using that by (auto simp: comp_members_def)
          then show ?thesis using c cl' that by (auto simp: comp_closed_def)
        qed
        show "in_refs h1 j \<subseteq> in_refs h j" for j using c by blast
      qed
    qed (use c f Cons.prems n in auto)
    have any': "any'"
    proof -
      have "fst (fold (reclaim_flagged reclaim members) ss (True, y)) = True" for y
        by (induction ss arbitrary: y) (auto simp: reclaim_flagged_def)
      with f show ?thesis by (metis fst_conv)
    qed
    have "reclaims R X h h'" using c ih reclaims_trans by blast
    moreover have "nlive h' < nlive h" using ih lt reclaims_nlive [of R X h1 h'] by simp
    ultimately show ?thesis using ih any' by simp
  qed
qed

lemma clear_suspects_ok:
  assumes "eok n e" and "set vs \<subseteq> {..<n}" and "e' = fold clearSuspect vs e"
  shows "eok n e' \<and> en_tab e' = en_tab e \<and> en_detector e' = en_detector e \<and> en_suspectStack e' = en_suspectStack e \<and> en_zeroStack e' = en_zeroStack e"
  using assms
proof (induction vs arbitrary: e)
  case (Cons v vs)
  have "eok n (clearSuspect v e)" using Cons.prems by (intro eok_clearSuspect) auto
  with Cons.IH [of "clearSuspect v e"] Cons.prems show ?case by simp
qed simp

lemma flags_closed:
  assumes c: "cok UNIV h t R X" and co: "components_ok h t roots d vis" and s: "s < dt_comps d" and f: "reclaim_flags h d t vis ! s"
  shows "comp_closed h R X (set (comp_members d vis s))"
proof -
  let ?k = "dt_comps d" and ?M = "comp_members d vis s"
  have n: "length (rt_rec t) = length (slots h)" by (rule cokD(4) [OF c])
  have dist: "distinct vis" and range: "set vis \<subseteq> {..<length (rt_rec t)}" and vl: "\<forall>x \<in> set vis. valid h x"
    and sc: "\<forall>x < length (rt_rec t). if x \<in> set vis then sccOf d x < ?k else sccOf d x = kUnvisited" and kv: "?k \<le> length vis"
    using co unfolding components_ok_def by blast+
  have lt: "\<forall>i \<in> set vis. sccOf d i < length (replicate ?k (0 :: int))" using sc range by auto
  have s': "s < length (replicate ?k (0 :: int))" using s by simp
  have dM: "distinct ?M" using dist by (simp add: comp_members_def)
  have unv: "s \<noteq> kUnvisited"
  proof -
    have "length vis \<le> length (slots h)" using card_mono [of "{..<length (rt_rec t)}" "set vis"] range n by (simp add: distinct_card [OF dist])
    moreover have "length (slots h) < 2 ^ 32" using cokD(2) [OF c] by (simp add: heap_ok_def)
    ultimately show ?thesis using s kv by (simp add: kUnvisited_def)
  qed
  have sum: "sum_list (map v ?M) = (\<Sum>i \<in> set ?M. v i)" for v :: "nat \<Rightarrow> int" using dM by (simp add: sum_list_distinct_conv_sum_set)
  have root: "sumRoot d t vis ! s = (\<Sum>i \<in> set ?M. rt_root t i)"
    unfolding sumRoot_def using fold_add_at [where v = "rt_root t", OF lt s'] s sum by (simp add: comp_members_def)
  have edge: "sumEdge d t vis ! s = (\<Sum>i \<in> set ?M. rt_edge t i)"
    unfolding sumEdge_def using fold_add_at [where v = "rt_edge t", OF lt s'] s sum by (simp add: comp_members_def)
  let ?in = "\<lambda>i. int (length (filter (\<lambda>x. cs_valid h x \<and> sccOf d (oh_index x) = sccOf d i) (outs t i)))"
  have "internal_edges h d t vis ! s = (\<Sum>i \<in> set ?M. ?in i)"
    unfolding internal_edges_def fold_inner_ones [OF lt] using fold_add_at [where v = ?in, OF lt s'] s sum by (simp add: comp_members_def)
  also have "\<dots> = (\<Sum>i \<in> set ?M. int (length (filter (\<lambda>x. cs_valid h x \<and> oh_index x \<in> set ?M) (outs t i))))"
  proof (rule sum.cong [OF refl])
    fix i assume i: "i \<in> set ?M"
    have "(cs_valid h x \<and> sccOf d (oh_index x) = sccOf d i) = (cs_valid h x \<and> oh_index x \<in> set ?M)" for x
    proof -
      have "oh_index x \<in> set vis" if "cs_valid h x" "sccOf d (oh_index x) = s"
      proof -
        have "oh_index x < length (rt_rec t)" using that(1) n by (simp add: cs_valid_def valid_def)
        with sc that(2) unv show ?thesis by metis
      qed
      with i show ?thesis by (auto simp: comp_members_def)
    qed
    then show "?in i = int (length (filter (\<lambda>x. cs_valid h x \<and> oh_index x \<in> set ?M) (outs t i)))" by simp
  qed
  finally have int: "internal_edges h d t vis ! s = \<dots>" .
  have fl: "sumRoot d t vis ! s = 0" "sumEdge d t vis ! s = internal_edges h d t vis ! s" using f s by (simp_all add: reclaim_flags_def)
  show ?thesis
    by (rule flagged_closed [OF c]) (use vl fl root edge int in \<open>auto simp: comp_members_def\<close>)
qed

lemma membersOf_eq:
  assumes "components_ok h t roots d vis" and "s < dt_comps d"
  shows "membersOf h d vis ! s = comp_members d vis s"
proof -
  have range: "set vis \<subseteq> {..<length (rt_rec t)}" and vl: "\<forall>x \<in> set vis. valid h x"
    and sc: "\<forall>x < length (rt_rec t). if x \<in> set vis then sccOf d x < dt_comps d else sccOf d x = kUnvisited"
    using assms(1) unfolding components_ok_def by blast+
  have lt: "\<forall>i \<in> set vis. sccOf d i < length (replicate (dt_comps d) ([] :: nat list))" using sc range by auto
  have s: "s < length (replicate (dt_comps d) ([] :: nat list))" using assms(2) by simp
  have "membersOf h d vis ! s = filter (\<lambda>i. isLiveAt h i \<and> sccOf d i = s) vis"
    unfolding membersOf_def using fold_buckets [where P = "isLiveAt h", OF lt s] assms(2) by simp
  also have "\<dots> = comp_members d vis s" unfolding comp_members_def by (rule filter_cong [OF refl]) (simp add: vl isLiveAt_def)
  finally show ?thesis .
qed

lemma collectCyclePass_ok:
  assumes a: "astate h e R X"
  shows "\<exists>any h' e'. collectCyclePass (h, e) = Some (any, h', e') \<and> astate h' e' R X \<and> reclaims R X h h'
    \<and> (any \<longrightarrow> nlive h' < nlive h) \<and> (\<not> any \<longrightarrow> en_suspectStack e' = [] \<and> en_zeroStack e' = en_zeroStack e)"
proof -
  have c: "cok UNIV h (en_tab e) R X" and eo: "eok (length (slots h)) e" and cl: "clean (length (slots h)) (en_detector e)"
    using a by (simp_all add: astate_def)
  have n: "length (rt_rec (en_tab e)) = length (slots h)" by (rule cokD(4) [OF c])
  have ok: "heap_ok h" by (rule cokD(2) [OF c])
  let ?roots = "scan_roots h e"
  define e1 where "e1 = e\<lparr>en_suspectStack := [], en_lastScanSuspects := length ?roots\<rparr>"
  have e1: "eok (length (slots h)) e1" "en_tab e1 = en_tab e" "en_detector e1 = en_detector e" "en_suspectStack e1 = []" "en_zeroStack e1 = en_zeroStack e"
    using eo by (simp_all add: e1_def eok_def engine_errs_def)
  show ?thesis
  proof (cases "?roots = []")
    case True
    then have "collectCyclePass (h, e) = Some (False, h, e1)" by (simp add: collectCyclePass_def e1_def Let_def)
    moreover have "astate h e1 R X" using c e1 cl by (simp add: astate_def)
    ultimately show ?thesis using e1(4,5) reclaims_refl [OF ok] by auto
  next
    case False
    have r: "set ?roots \<subseteq> {..<length (rt_rec (en_tab e))}" "\<forall>i \<in> set ?roots. valid h i"
      using eo n by (auto simp: scan_roots_def eok_def isLiveAt_def)
    have cap: "slotCapacity h = length (rt_rec (en_tab e))" using cokD(9) [OF c] n by simp
    have cl': "clean (length (rt_rec (en_tab e))) (en_detector e)" using cl n by simp
    obtain d vis where f: "findComponents h (en_tab e) ?roots (en_detector e) = Some (d, vis)" and co: "components_ok h (en_tab e) ?roots d vis"
      by (rule findComponents_ok [OF cokD(3) [OF c] cap cl' r(1)])
    have V: "set vis = reached h (en_tab e) ?roots" "set vis \<subseteq> {..<length (slots h)}" "distinct vis"
      and sc: "\<forall>x < length (slots h). if x \<in> set vis then sccOf d x < dt_comps d else sccOf d x = kUnvisited"
      and rel: "clean (length (slots h)) (release vis d)" and kv: "dt_comps d \<le> length vis"
      using co n unfolding components_ok_def by auto
    obtain i where i: "i \<in> set ?roots" using False by (cases ?roots) auto
    then have "i \<in> set vis" using r(2) V(1) by (auto simp: reached_def)
    then have k: "0 < dt_comps d" using sc V(2) by (metis gr_implies_not0 lessThan_iff neq0_conv subsetD)
    define e2 where "e2 = e1\<lparr>en_detector := d, en_tarjanRuns := en_tarjanRuns e1 + 1, en_tarjanVisited := en_tarjanVisited e1 + length vis,
        en_lastScanVisited := length vis, en_lastScanRoots := length ?roots\<rparr>"
    have e2: "eok (length (slots h)) e2" "en_tab e2 = en_tab e" "en_detector e2 = d" "en_suspectStack e2 = []" "en_zeroStack e2 = en_zeroStack e"
      using e1 by (simp_all add: e2_def)
    define e3 where "e3 = fold clearSuspect vis e2"
    note e3 = clear_suspects_ok [OF e2(1) V(2) e3_def]
    let ?fl = "reclaim_flags h d (en_tab e) vis" and ?ms = "membersOf h d vis"
    obtain any h' e4 where g: "fold (reclaim_flagged ?fl ?ms) [0..<dt_comps d] (False, h, e3) = (any, h', e4)" by (metis surj_pair)
    define e' where "e' = e4\<lparr>en_detector := release vis (en_detector e4), en_releaseNodes := en_releaseNodes e4 + length vis\<rparr>"
    have pass: "collectCyclePass (h, e) = Some (any, h', e')"
      unfolding collectCyclePass_def Let_def prod.case if_not_P [OF False] e1_def [symmetric] e1(2,3) f option.case e2_def [symmetric]
        e3_def [symmetric] e2(2) g e'_def using k by simp
    have unv: "x \<in> set vis" if "s \<in> set [0..<dt_comps d]" "x < length (slots h)" "sccOf d x = s" for s x
    proof (rule ccontr)
      assume "x \<notin> set vis"
      then have "s = kUnvisited" using sc that(2,3) by auto
      moreover have "length vis \<le> length (slots h)" using card_mono [of "{..<length (slots h)}" "set vis"] V(2) by (simp add: distinct_card [OF V(3)])
      moreover have "length (slots h) < 2 ^ 32" using ok by (simp add: heap_ok_def)
      ultimately show False using that(1) kv by (simp add: kUnvisited_def)
    qed
    have res: "cok UNIV h' (en_tab e4) R X \<and> eok (length (slots h')) e4 \<and> en_detector e4 = d \<and> reclaims R X h h'
        \<and> (any \<longrightarrow> False \<or> nlive h' < nlive h) \<and> (\<not> any \<longrightarrow> h' = h \<and> e4 = e3)"
      by (rule reclaim_flagged_fold [OF _ _ _ _ V(3) _ _ unv g])
         (use c e2 e3 flags_closed [OF c co] membersOf_eq [OF co] in auto)
    have n': "length (slots h') = length (slots h)" using res by (simp add: reclaims_def)
    have "astate h' e' R X" using res rel n' by (simp add: astate_def e'_def)
    moreover have "\<not> any \<longrightarrow> en_suspectStack e' = [] \<and> en_zeroStack e' = en_zeroStack e" using res e3 e2 by (simp add: e'_def)
    ultimately show ?thesis using pass res by auto
  qed
qed

section \<open>Collection\<close>

lemma collectCycles_ok:
  "astate h e R X \<Longrightarrow> \<exists>h' e'. collectCycles (h, e) = Some (h', e') \<and> astate h' e' R X \<and> reclaims R X h h' \<and> en_suspectStack e' = []"
proof (induction "nlive h" arbitrary: h e rule: less_induct)
  case less
  from collectCyclePass_ok [OF less.prems] obtain any h1 e1 where p: "collectCyclePass (h, e) = Some (any, h1, e1)" "astate h1 e1 R X"
    "reclaims R X h h1" "any \<longrightarrow> nlive h1 < nlive h" "\<not> any \<longrightarrow> en_suspectStack e1 = []" by blast
  note eq = collectCycles.simps [of "(h, e)"]
  show ?case
  proof (cases any)
    case True
    with less.hyps [of h1 e1] p obtain h' e' where "collectCycles (h1, e1) = Some (h', e')" "astate h' e' R X" "reclaims R X h1 h'" "en_suspectStack e' = []" by blast
    with True p eq reclaims_trans show ?thesis by auto
  qed (use p eq in auto)
qed

lemma sweep_ok:
  "astate h e R X \<Longrightarrow> \<exists>h' e'. sweep (h, e) = Some (h', e') \<and> astate h' e' R X \<and> reclaims R X h h' \<and> en_zeroStack e' = [] \<and> en_suspectStack e' = []"
proof (induction "(nlive h, length (en_suspectStack e))" arbitrary: h e rule: wf_induct_rule [OF wf_lex_prod [OF wf_less_than wf_less_than]])
  case 1
  from sweepZero_ok [OF "1.prems"] obtain h1 e1 where z: "sweepZero (h, e) = Some (h1, e1)" "astate h1 e1 R X" "reclaims R X h h1"
    "en_zeroStack e1 = []" "nlive h1 < nlive h \<or> en_suspectStack e1 = en_suspectStack e" by blast
  note eq = sweep.simps [of "(h, e)"]
  show ?case
  proof (cases "en_suspectStack e1 = []")
    case False
    from collectCycles_ok [OF z(2)] obtain h2 e2 where k: "collectCycles (h1, e1) = Some (h2, e2)" "astate h2 e2 R X" "reclaims R X h1 h2" "en_suspectStack e2 = []" by blast
    have "((nlive h2, length (en_suspectStack e2)), (nlive h, length (en_suspectStack e))) \<in> less_than <*lex*> less_than"
      using z(3,5) k(3,4) False reclaims_nlive [OF z(3)] reclaims_nlive [OF k(3)] by auto
    from "1.hyps" [OF this k(2)] obtain h' e' where s: "sweep (h2, e2) = Some (h', e')" "astate h' e' R X" "reclaims R X h2 h'"
      "en_zeroStack e' = []" "en_suspectStack e' = []" by blast
    have "reclaims R X h h'" using z(3) k(3) s(3) reclaims_trans by blast
    with s z(1) k(1) False eq show ?thesis by auto
  qed (use z eq in auto)
qed

end
