(* ===== verification/Lx_AarcContract.thy ===== *)
theory Lx_AarcContract
  imports Lx_VMSafety Lx_LocalAarc Lx_CycleGC
begin

text \<open>
  The AARC backend meets the contract the VM relies on: every barrier keeps the table exact, ends, and
  frees only what no root reaches.  The bounds of the trigger policy.
\<close>

section \<open>Barriers on the table\<close>

lemma cok_addRoot:
  assumes c: "cok UNIV h t R X" and r: "valid h r"
  shows "cok UNIV h (addRoot r 1 t) (add_mset r R) X"
proof (rule cokI)
  have n: "length (rt_rec t) = length (slots h)" by (rule cokD(4) [OF c])
  have rl: "r < length (rt_rec t)" using r n by (simp add: valid_def)
  note l = rt.add_root_law [OF cokD(3) [OF c] rl refl, of 1]
  show "graph_ok h (add_mset r R) X" using cokD(1) [OF c] r by (simp add: graph_ok_def)
  show "rt_wf (addRoot r 1 t)" "length (rt_rec (addRoot r 1 t)) = length (slots h)" using l n by simp_all
  fix i assume i: "i < length (slots h)"
  show "rt_root (addRoot r 1 t) i = int (count (add_mset r R) i)" "rt_edge (addRoot r 1 t) i = int (card (in_refs h i - X))"
    using l cokD(5,6) [OF c i] by (cases "i = r"; simp)+
  show "rt_row (addRoot r 1 t) i (generation (slots h ! i))" using l cokD(8) [OF c i] i n by simp
  fix x show "count (mset (outs (addRoot r 1 t) i)) x = (if oh_gen x = generation (slots h ! oh_index x) then mult h X i (oh_index x) else 0)"
    using l cokD(7) [OF c i, of x] i n by simp
qed

lemma cok_subRoot:
  assumes c: "cok UNIV h t (add_mset r R) X"
  shows "\<exists>t'. subRoot r 1 t = (True, t') \<and> cok UNIV h t' R X"
proof -
  have n: "length (rt_rec t) = length (slots h)" by (rule cokD(4) [OF c])
  have r: "valid h r" using cokD(1) [OF c] by (simp add: graph_ok_def)
  then have rl: "r < length (rt_rec t)" "r < length (slots h)" using n by (simp_all add: valid_def)
  obtain b t' where s: "subRoot r 1 t = (b, t')" by (cases "subRoot r 1 t")
  note l = rt.sub_root_law [OF cokD(3) [OF c] rl(1) s]
  have b: "b" using l cokD(5) [OF c rl(2)] by simp
  have "cok UNIV h t' R X"
  proof (rule cokI)
    show "graph_ok h R X" by (rule graph_ok_drop [OF cokD(1) [OF c]])
    show "rt_wf t'" "length (rt_rec t') = length (slots h)" using l n by simp_all
    fix i assume i: "i < length (slots h)"
    show "rt_root t' i = int (count R i)" "rt_edge t' i = int (card (in_refs h i - X))"
      using l b cokD(5,6) [OF c i] by (cases "i = r"; simp)+
    show "rt_row t' i (generation (slots h ! i))" using l cokD(8) [OF c i] i n by simp
    fix x show "count (mset (outs t' i)) x = (if oh_gen x = generation (slots h ! oh_index x) then mult h X i (oh_index x) else 0)"
      using l cokD(7) [OF c i, of x] i n by simp
  qed
  with s b show ?thesis by simp
qed

lemma mult_detach_one:
  assumes ok: "heap_ok h" and p: "ref_at h (b, k) = Some i"
  shows "mult h {} a j = mult h {(b, k)} a j + (if a = b \<and> j = i then 1 else 0)"
proof (cases "a = b \<and> j = i")
  case True
  have "{k'. (b, k') \<notin> {} \<and> ref_at h (b, k') = Some i} = insert k {k'. (b, k') \<notin> {(b, k)} \<and> ref_at h (b, k') = Some i}" using p by auto
  moreover have "finite {k'. (b, k') \<notin> {(b, k)} \<and> ref_at h (b, k') = Some i}" by (rule cok_count_ref [OF ok])
  ultimately have "mult h {} b i = Suc (mult h {(b, k)} b i)" unfolding mult_def by simp
  with True show ?thesis by simp
next
  case False
  have "{k'. (a, k') \<notin> {} \<and> ref_at h (a, k') = Some j} = {k'. (a, k') \<notin> {(b, k)} \<and> ref_at h (a, k') = Some j}" using p False by auto
  with False show ?thesis unfolding mult_def by simp
qed

lemma cok_removeEdge:
  assumes c: "cok UNIV h t R {}" and p: "ref_at h (b, k) = Some i"
  defines "x \<equiv> ObjHandle b (generation (slots h ! b))" and "y \<equiv> ObjHandle i (generation (slots h ! i))"
  shows "\<exists>t1 t2. removeOut x y t = (True, t1) \<and> subEdgeTo i t1 = (True, t2) \<and> cok UNIV h t2 R {(b, k)}"
proof -
  have n: "length (rt_rec t) = length (slots h)" by (rule cokD(4) [OF c])
  have ok: "heap_ok h" by (rule cokD(2) [OF c])
  have bl: "b < length (slots h)" using ref_at_SomeD(1) [OF ok p] by (simp add: valid_def)
  have il: "i < length (slots h)" using cok_ref [OF c p] by simp
  obtain r t1 where s: "removeOut x y t = (r, t1)" by (cases "removeOut x y t")
  have xb: "oh_index x < length (rt_rec t)" "rt_row t (oh_index x) (oh_gen x)" using bl n cokD(8) [OF c bl] by (simp_all add: x_def)
  note l = rt.remove_out_law [OF cokD(3) [OF c] xb s]
  have "0 < count (mset (outs t b)) y" using cokD(7) [OF c bl, of y] mult_detach_one [OF ok p, of b i] by (simp add: y_def)
  then have r: "r" using l by (simp add: x_def)
  obtain q t2 where s2: "subEdgeTo i t1 = (q, t2)" by (cases "subEdgeTo i t1")
  have i1: "i < length (rt_rec t1)" using l il n by simp
  note l2 = rt.sub_edge_law [OF conjunct1 [OF l] i1 s2]
  have e: "rt_edge t i = int (card (in_refs h i - {(b, k)})) + 1" using cokD(6) [OF c il] card_detach [OF ok p, of i] by simp
  have q: "q" using l l2 e by simp
  have "cok UNIV h t2 R {(b, k)}"
  proof (rule cokI)
    show "graph_ok h R {(b, k)}" by (rule graph_ok_more [OF cokD(1) [OF c]]) simp
    show "rt_wf t2" "length (rt_rec t2) = length (slots h)" using l l2 n by simp_all
    fix j assume j: "j < length (slots h)"
    show "rt_root t2 j = int (count R j)" "rt_edge t2 j = int (card (in_refs h j - {(b, k)}))"
      using l l2 q cokD(5,6) [OF c j] card_detach [OF ok p, of j] by auto
    show "rt_row t2 j (generation (slots h ! j))" using l l2 cokD(8) [OF c j] j n by simp
    fix z show "count (mset (outs t2 j)) z = (if oh_gen z = generation (slots h ! oh_index z) then mult h {(b, k)} j (oh_index z) else 0)"
    proof (cases "j = b")
      case True
      have "mset (outs t2 j) = mset (outs t j) - {#y#}" using l l2 j n True by (simp add: x_def)
      then show ?thesis using cokD(7) [OF c j, of z] mult_detach_one [OF ok p, of j "oh_index z"] True
        by (cases z) (auto simp: y_def)
    next
      case False
      have "outs t2 j = outs t j" using l l2 j n False by (simp add: x_def)
      then show ?thesis using cokD(7) [OF c j, of z] mult_detach_one [OF ok p, of j "oh_index z"] False by simp
    qed
  qed
  with s r s2 q show ?thesis by simp
qed

lemma cok_addEdge:
  assumes c: "cok UNIV h t R {(b, k)}" and p: "ref_at h (b, k) = Some i" and v: "valid h i"
  defines "x \<equiv> ObjHandle b (generation (slots h ! b))" and "y \<equiv> ObjHandle i (generation (slots h ! i))"
  assumes a: "addOut x y (addEdgeTo i t) = Some t'"
  shows "cok UNIV h t' R {}"
proof -
  have n: "length (rt_rec t) = length (slots h)" by (rule cokD(4) [OF c])
  have ok: "heap_ok h" by (rule cokD(2) [OF c])
  have bl: "b < length (slots h)" using ref_at_SomeD(1) [OF ok p] by (simp add: valid_def)
  have il: "i < length (slots h)" using v by (simp add: valid_def)
  have i1: "i < length (rt_rec t)" using il n by simp
  note l1 = rt.add_edge_law [OF cokD(3) [OF c] i1 refl]
  have xy: "oh_index x < length (rt_rec (addEdgeTo i t))" "oh_index y < length (rt_rec (addEdgeTo i t))" using l1 bl il n by (simp_all add: x_def y_def)
  note l = rt.add_out_law [OF conjunct1 [OF l1] xy a]
  show ?thesis
  proof (rule cokI)
    show "graph_ok h R {}" using graph_ok_attach [OF cokD(1) [OF c]] p v by simp
    show "rt_wf t'" "length (rt_rec t') = length (slots h)" using l l1 n by simp_all
    fix j assume j: "j < length (slots h)"
    show "rt_root t' j = int (count R j)" "rt_edge t' j = int (card (in_refs h j - {}))"
      using l l1 cokD(5,6) [OF c j] card_detach [OF ok p, of j] by auto
    show "rt_row t' j (generation (slots h ! j))" using l l1 cokD(8) [OF c j] j n by (simp add: x_def)
    fix z show "count (mset (outs t' j)) z = (if oh_gen z = generation (slots h ! oh_index z) then mult h {} j (oh_index z) else 0)"
    proof (cases "j = b")
      case True
      have "mset (outs t' j) = add_mset y (mset (outs t j))" using l l1 j n True by (simp add: x_def)
      then show ?thesis using cokD(7) [OF c j, of z] mult_detach_one [OF ok p, of j "oh_index z"] True
        by (cases z) (auto simp: y_def)
    next
      case False
      have "outs t' j = outs t j" using l l1 j n False by (simp add: x_def)
      then show ?thesis using cokD(7) [OF c j, of z] mult_detach_one [OF ok p, of j "oh_index z"] False by simp
    qed
  qed
qed

section \<open>Heap changes the table does not see\<close>

lemma cok_same_refs:
  assumes c: "cok S h t R X" and g: "graph_ok h' R Y" and n: "length (slots h') = length (slots h)"
    and gen: "\<And>i. i < length (slots h) \<Longrightarrow> generation (slots h' ! i) = generation (slots h ! i)"
    and r: "\<And>p j. (p \<notin> Y \<and> ref_at h' p = Some j) = (p \<notin> X \<and> ref_at h p = Some j)"
  shows "cok S h' t R Y"
proof (rule cokI)
  have refs: "in_refs h' j - Y = in_refs h j - X" for j using r unfolding in_refs_def by blast
  have m: "mult h' Y i j = mult h X i j" for i j unfolding mult_def r ..
  show "graph_ok h' R Y" by (rule g)
  show "rt_wf t" "length (rt_rec t) = length (slots h')" using cokD(3,4) [OF c] n by simp_all
  fix i assume i: "i < length (slots h')"
  then have i': "i < length (slots h)" using n by simp
  { assume "i \<in> S"
    then show "rt_root t i = int (count R i)" "rt_edge t i = int (card (in_refs h' i - Y))" using cokD(5,6) [OF c i'] refs by simp_all }
  show "rt_row t i (generation (slots h' ! i))" using cokD(8) [OF c i'] gen [OF i'] by simp
  fix x show "count (mset (outs t i)) x = (if oh_gen x = generation (slots h' ! oh_index x) then mult h' Y i (oh_index x) else 0)"
  proof (cases "oh_index x < length (slots h)")
    case True
    then show ?thesis using cokD(7) [OF c i', of x] gen [OF True] m by simp
  next
    case False
    have "mult h X i (oh_index x) = 0"
    proof -
      have "{k. (i, k) \<notin> X \<and> ref_at h (i, k) = Some (oh_index x)} = {}" using cok_ref(2) [OF c] False by blast
      then show ?thesis unfolding mult_def by (simp only: card.empty)
    qed
    then show ?thesis using cokD(7) [OF c i', of x] m by simp
  qed
qed

definition fixed_slots :: "heap \<Rightarrow> bool" where
  "fixed_slots h \<longleftrightarrow> slotCap h \<noteq> 0 \<and> slotCap h \<le> length (slots h)"

lemma install_generation: "generation (slots (install_slot i a b c d h) ! j) = generation (slots h ! j)"
proof (cases "i < length (slots h)")
  case True
  then show ?thesis by (cases "j = i") (simp_all add: install_slot_def Let_def)
qed (simp add: install_slot_def Let_def list_update_beyond)

lemma alloc_fixed:
  assumes "fixed_slots h" and "alloc sz ty h = (i, h')"
  shows "length (slots h') = length (slots h)" "slotCap h' = slotCap h" "\<And>j. generation (slots h' ! j) = generation (slots h ! j)"
proof -
  obtain off h1 where t: "take_payload (cells_for sz) h = (off, h1)" by (cases "take_payload (cells_for sz) h")
  have p: "slots h1 = slots h" "slotCap h1 = slotCap h"
    using t by (auto simp: take_payload_def set_free_list_def Let_def split: if_splits)
  have "length (slots h') = length (slots h) \<and> slotCap h' = slotCap h \<and> (\<forall>j. generation (slots h' ! j) = generation (slots h ! j))"
  proof (cases "take_handle h1")
    case None
    then have "h' = h1" using assms(2) t by (simp add: alloc_def Let_def)
    with p show ?thesis by simp
  next
    case (Some x)
    then have h2: "slots (snd x) = slots h" "slotCap (snd x) = slotCap h"
      using assms(1) p by (auto simp: take_handle_def fixed_slots_def split: if_splits)
    have "h' = install_slot (fst x) off (cells_for sz) sz ty (snd x)" using assms(2) t Some by (cases x) (simp add: alloc_def Let_def)
    then show ?thesis
      using h2 install_generation [of "fst x" off "cells_for sz" sz ty "snd x"] by (simp add: install_slot_def Let_def)
  qed
  then show "length (slots h') = length (slots h)" "slotCap h' = slotCap h" "generation (slots h' ! j) = generation (slots h ! j)" for j by blast+
qed

section \<open>The policy\<close>

definition threshold_ok :: "local_aarc \<Rightarrow> bool" where
  "threshold_ok g \<longleftrightarrow> la_policy g = CyclePolicy \<and> 512 \<le> la_suspectThreshold g \<and> la_suspectThreshold g \<le> 65536"

lemma policy_fields [simp]:
  "cp_suspectThresholdMin CyclePolicy = 512" "cp_suspectThresholdMax CyclePolicy = 65536" "cp_maxInterval CyclePolicy = 65536"
  by (simp_all add: CyclePolicy_def)

lemma threshold_fields [simp]:
  "threshold_ok (g\<lparr>la_engine := e\<rparr>) = threshold_ok g" "threshold_ok (g\<lparr>la_metrics := m\<rparr>) = threshold_ok g"
  "threshold_ok (g\<lparr>la_opsSinceCycle := a\<rparr>) = threshold_ok g" "threshold_ok (g\<lparr>la_opsTotal := a\<rparr>) = threshold_ok g"
  "threshold_ok (g\<lparr>la_allocBytesSinceCycle := a\<rparr>) = threshold_ok g"
  by (simp_all add: threshold_ok_def)

lemma noteThreshold_fields [simp]:
  "la_engine (noteThreshold v g) = la_engine g" "la_policy (noteThreshold v g) = la_policy g"
  "la_suspectThreshold (noteThreshold v g) = v" "la_adaptive (noteThreshold v g) = la_adaptive g"
  by (auto simp: noteThreshold_def Let_def)

lemma yield_feedback_fields [simp]:
  "la_engine (yield_feedback v r g) = la_engine g" "la_adaptive (yield_feedback v r g) = la_adaptive g"
  by (simp_all add: yield_feedback_def)

lemma record_scan_fields [simp]:
  "la_engine (record_scan n v r s k g) = la_engine g" "la_adaptive (record_scan n v r s k g) = la_adaptive g"
  "threshold_ok (record_scan n v r s k g) = threshold_ok g"
  by (simp_all add: record_scan_def threshold_ok_def Let_def)

lemma yield_feedback_threshold:
  assumes "threshold_ok g"
  shows "threshold_ok (yield_feedback v r g)"
proof -
  have "u32_cast (la_suspectThreshold g * 2) = la_suspectThreshold g * 2" using assms by (simp add: threshold_ok_def u32_cast_def)
  with assms show ?thesis by (auto simp: yield_feedback_def threshold_ok_def)
qed

section \<open>After an operation\<close>

definition aarc_ok :: "heap \<Rightarrow> local_aarc \<Rightarrow> nat multiset \<Rightarrow> (nat \<times> nat) set \<Rightarrow> bool" where
  "aarc_ok h g R X \<longleftrightarrow> astate h (la_engine g) R X \<and> en_zeroStack (la_engine g) = [] \<and> fixed_slots h \<and> threshold_ok g"

lemma astate_cok: "astate h e R X \<Longrightarrow> cok UNIV h (en_tab e) R X"
  by (simp add: astate_def)

lemma collectCyclesNow_ok:
  assumes a: "astate h (la_engine g) R X" and t: "threshold_ok g"
  shows "\<exists>h' g'. collectCyclesNow (h, g) = GOk (h', g') \<and> astate h' (la_engine g') R X \<and> reclaims R X h h' \<and> en_zeroStack (la_engine g') = []
    \<and> threshold_ok g' \<and> la_adaptive g' = la_adaptive g \<and> la_opsSinceCycle g' = 0"
proof -
  obtain h1 e1 where c: "collectCycles (h, la_engine g) = Some (h1, e1)" "astate h1 e1 R X" "reclaims R X h h1"
    using collectCycles_ok [OF a] by blast
  obtain h2 e2 where z: "sweepZero (h1, e1) = Some (h2, e2)" "astate h2 e2 R X" "reclaims R X h1 h2" "en_zeroStack e2 = []"
    using sweepZero_ok [OF c(2)] by blast
  have r: "reclaims R X h h2" by (rule reclaims_trans [OF c(3) z(3)])
  have y: "threshold_ok (yield_feedback v k (record_scan ns v k x y (g\<lparr>la_engine := e, la_metrics := m\<rparr>)))" for v k ns x y e m
    by (rule yield_feedback_threshold) (simp add: t)
  show ?thesis using c(1) z r y by (simp add: collectCyclesNow_def Let_def)
qed

lemma afterOp_ok:
  assumes a: "astate h (la_engine g) R X" and t: "threshold_ok g"
  shows "\<exists>h' g'. afterOp (h, g) = GOk (h', g') \<and> astate h' (la_engine g') R X \<and> reclaims R X h h' \<and> en_zeroStack (la_engine g') = []
    \<and> threshold_ok g' \<and> la_adaptive g' = la_adaptive g
    \<and> (la_adaptive g \<longrightarrow> pendingSuspects (la_engine g') = 0 \<or> la_opsSinceCycle g' < 65536)"
proof -
  let ?g1 = "g\<lparr>la_opsSinceCycle := la_opsSinceCycle g + 1, la_opsTotal := la_opsTotal g + 1\<rparr>"
  have "sweepZero (h, la_engine g) = Some (h, la_engine g)" if "en_zeroStack (la_engine g) = []"
    using that sweepZero.simps [of "(h, la_engine g)"] by simp
  then have "(if hasZeroCandidates (la_engine ?g1) then sweepZero (h, la_engine ?g1) else Some (h, la_engine ?g1)) = sweepZero (h, la_engine g)"
    by (simp add: hasZeroCandidates_def)
  then obtain h1 e1 where z: "(if hasZeroCandidates (la_engine ?g1) then sweepZero (h, la_engine ?g1) else Some (h, la_engine ?g1)) = Some (h1, e1)"
    "astate h1 e1 R X" "reclaims R X h h1" "en_zeroStack e1 = []"
    using sweepZero_ok [OF a] by metis
  define g2 where "g2 = ?g1\<lparr>la_engine := e1\<rparr>"
  have g2: "la_engine g2 = e1" "threshold_ok g2" "la_adaptive g2 = la_adaptive g" using t by (simp_all add: g2_def)
  have eq: "afterOp (h, g) = (if cycleTrigger h1 g2 = TrigNone then GOk (h1, g2)
      else collectCyclesNow (h1, g2\<lparr>la_metrics := count_trigger (cycleTrigger h1 g2) (la_metrics g2)\<rparr>))"
    unfolding afterOp_def Let_def prod.case z(1) option.case g2_def ..
  show ?thesis
  proof (cases "cycleTrigger h1 g2 = TrigNone")
    case True
    have "la_policy g2 = CyclePolicy" using g2(2) by (simp add: threshold_ok_def)
    then have "la_adaptive g \<longrightarrow> pendingSuspects (la_engine g2) = 0 \<or> la_opsSinceCycle g2 < 65536"
      using True g2(3) by (auto simp: cycleTrigger_def Let_def split: if_splits)
    with True eq z g2 show ?thesis by simp
  next
    case False
    let ?g3 = "g2\<lparr>la_metrics := count_trigger (cycleTrigger h1 g2) (la_metrics g2)\<rparr>"
    have "astate h1 (la_engine ?g3) R X" "threshold_ok ?g3" using z(2) g2 by simp_all
    from collectCyclesNow_ok [OF this] obtain h' g' where "collectCyclesNow (h1, ?g3) = GOk (h', g')" "astate h' (la_engine g') R X"
      "reclaims R X h1 h'" "en_zeroStack (la_engine g') = []" "threshold_ok g'" "la_adaptive g' = la_adaptive ?g3" "la_opsSinceCycle g' = 0" by blast
    moreover from this z(3) have "reclaims R X h h'" by (metis reclaims_trans)
    ultimately show ?thesis using False eq g2(3) by simp
  qed
qed

section \<open>The barriers\<close>

lemma cs_valid_current:
  assumes "heap_ok h" and "valid h i"
  shows "cs_valid h (aarc_current h i)" "aarc_current h i = ObjHandle i (generation (slots h ! i))"
proof -
  have "i < slotCapacity h" using assms by (simp add: valid_def slotCapacity_def heap_ok_def u32_cast_def)
  then show "cs_valid h (aarc_current h i)" "aarc_current h i = ObjHandle i (generation (slots h ! i))"
    using assms(2) by (simp_all add: aarc_current_def cs_valid_def generationOf_def)
qed

text \<open>What every barrier promises once its message has been applied to the table.\<close>

definition barrier_post :: "nat multiset \<Rightarrow> (nat \<times> nat) set \<Rightarrow> heap \<Rightarrow> heap \<times> local_aarc \<Rightarrow> bool" where
  "barrier_post R X h r \<longleftrightarrow> aarc_ok (fst r) (snd r) R X \<and> keeps h (fst r) (reach h (set_mset R) X)
     \<and> (la_adaptive (snd r) \<longrightarrow> pendingSuspects (la_engine (snd r)) = 0 \<or> la_opsSinceCycle (snd r) < 65536)"

lemma aarc_count_simp: "aarc_count f (h, g) = (h, g\<lparr>la_metrics := f (la_metrics g)\<rparr>)"
  by (simp add: aarc_count_def)

lemma apply_message_ok:
  assumes p: "process h m (la_engine g) = GOk e" and a: "astate h e R X" and t: "threshold_ok g" and f: "fixed_slots h"
  shows "\<exists>r. apply_message m (h, g) = GOk r \<and> barrier_post R X h r"
proof -
  have "astate h (la_engine (g\<lparr>la_engine := e\<rparr>)) R X" "threshold_ok (g\<lparr>la_engine := e\<rparr>)" using a t by simp_all
  from afterOp_ok [OF this] obtain h' g' where r: "afterOp (h, g\<lparr>la_engine := e\<rparr>) = GOk (h', g')" "astate h' (la_engine g') R X" "reclaims R X h h'"
    "en_zeroStack (la_engine g') = []" "threshold_ok g'" "la_adaptive g' = la_adaptive (g\<lparr>la_engine := e\<rparr>)"
    "la_adaptive (g\<lparr>la_engine := e\<rparr>) \<longrightarrow> pendingSuspects (la_engine g') = 0 \<or> la_opsSinceCycle g' < 65536" by blast
  have "fixed_slots h'" using f r(3) by (simp add: fixed_slots_def reclaims_def)
  then have "barrier_post R X h (h', g')" using r by (simp add: barrier_post_def aarc_ok_def reclaims_def)
  with p r(1) show ?thesis by (simp add: apply_message_def)
qed

lemma aarc_okD:
  assumes "aarc_ok h g R X"
  shows "cok UNIV h (en_tab (la_engine g)) R X" "eok (length (slots h)) (la_engine g)" "clean (length (slots h)) (en_detector (la_engine g))"
    "heap_ok h" "fixed_slots h" "threshold_ok g"
  using assms cokD(2) by (auto simp: aarc_ok_def astate_def)

lemma astate_tab:
  "cok UNIV h t R X \<Longrightarrow> eok (length (slots h)) e \<Longrightarrow> clean (length (slots h)) (en_detector e) \<Longrightarrow>
    astate h (e\<lparr>en_tab := t, en_msgsProcessed := n\<rparr>) R X"
  by (simp add: astate_def)

lemma astate_recheck:
  "astate h e R X \<Longrightarrow> i < length (slots h) \<Longrightarrow> astate h (recheck i e) R X"
  by (simp add: astate_def eok_recheck)

lemma aarc_rootAdd_ok:
  assumes a: "aarc_ok h g R X" and r: "valid h r"
  shows "\<exists>x. aarc_rootAdd r (h, g) = GOk x \<and> barrier_post (add_mset r R) X h x"
proof -
  note d = aarc_okD [OF a]
  let ?e = "(la_engine g)\<lparr>en_msgsProcessed := en_msgsProcessed (la_engine g) + 1, en_tab := addRoot r 1 (en_tab (la_engine g))\<rparr>"
  have s: "astate h ?e (add_mset r R) X" using cok_addRoot [OF d(1) r] d(2,3) by (simp add: astate_def)
  have idx: "oh_index (aarc_current h r) = r" by (simp add: aarc_current_def)
  show ?thesis unfolding aarc_rootAdd_def aarc_count_simp fst_conv
    by (rule apply_message_ok [OF _ s]) (use idx d r cs_valid_current(1) [OF d(4) r] in \<open>simp_all add: process_def Let_def\<close>)
qed

lemma aarc_rootRemove_ok:
  assumes a: "aarc_ok h g (add_mset r R) X"
  shows "\<exists>x. aarc_rootRemove r (h, g) = GOk x \<and> barrier_post R X h x"
proof -
  note d = aarc_okD [OF a]
  let ?e = "(la_engine g)\<lparr>en_msgsProcessed := en_msgsProcessed (la_engine g) + 1\<rparr>"
  have r: "valid h r" using cokD(1) [OF d(1)] by (simp add: graph_ok_def)
  obtain t where t: "subRoot r 1 (en_tab (la_engine g)) = (True, t)" "cok UNIV h t R X" using cok_subRoot [OF d(1)] by blast
  let ?f = "recheck r (?e\<lparr>en_tab := t\<rparr>)"
  have s: "astate h ?f R X" by (rule astate_recheck) (use t d r in \<open>simp_all add: astate_def valid_def\<close>)
  have idx: "oh_index (aarc_current h r) = r" by (simp add: aarc_current_def)
  show ?thesis unfolding aarc_rootRemove_def aarc_count_simp fst_conv
    by (rule apply_message_ok [OF _ s]) (use idx d r t cs_valid_current(1) [OF d(4) r] in \<open>simp_all add: process_def process_RootRemove_def Let_def\<close>)
qed

lemma aarc_edgeRemove_ok:
  assumes a: "aarc_ok h g R {}" and p: "ref_at h (b, k) = Some i"
  shows "\<exists>x. aarc_edgeRemove b i (h, g) = GOk x \<and> barrier_post R {(b, k)} h x"
proof -
  note d = aarc_okD [OF a]
  let ?e = "(la_engine g)\<lparr>en_msgsProcessed := en_msgsProcessed (la_engine g) + 1\<rparr>"
  have b: "valid h b" using ref_at_SomeD(1) [OF d(4) p] by simp
  have i: "valid h i" using cok_ref(1) [OF d(1) p] by simp
  note cb = cs_valid_current [OF d(4) b] and ci = cs_valid_current [OF d(4) i]
  obtain t t1 where t: "removeOut (aarc_current h b) (aarc_current h i) (en_tab (la_engine g)) = (True, t)" "subEdgeTo i t = (True, t1)" "cok UNIV h t1 R {(b, k)}"
    using cok_removeEdge [OF d(1) p] unfolding cb(2) ci(2) by blast
  let ?f = "recheck i (?e\<lparr>en_tab := t1\<rparr>)"
  have s: "astate h ?f R {(b, k)}" by (rule astate_recheck) (use t d i in \<open>simp_all add: astate_def valid_def\<close>)
  have idx: "oh_index (aarc_current h i) = i" by (simp add: aarc_current_def)
  show ?thesis unfolding aarc_edgeRemove_def aarc_count_simp fst_conv
    by (rule apply_message_ok [OF _ s]) (use idx d t cb(1) ci(1) in \<open>simp_all add: process_def process_EdgeRemove_def Let_def\<close>)
qed

lemma aarc_edgeAdd_ok:
  assumes a: "aarc_ok h g R {(b, k)}" and p: "ref_at h (b, k) = Some i" and i: "valid h i"
  shows "gspec (aarc_edgeAdd b i (h, g)) (barrier_post R {} h)"
proof -
  note d = aarc_okD [OF a]
  let ?m = "\<lparr>gm_op = EdgeAdd, gm_a = aarc_current h b, gm_b = aarc_current h i, gm_count = 1\<rparr>"
  let ?g = "g\<lparr>la_metrics := mt_edgeAdds_update Suc (la_metrics g)\<rparr>"
  have b: "valid h b" using ref_at_SomeD(1) [OF d(4) p] by simp
  note cb = cs_valid_current [OF d(4) b] and ci = cs_valid_current [OF d(4) i]
  have idx: "oh_index (aarc_current h i) = i" by (simp add: aarc_current_def)
  have eq: "aarc_edgeAdd b i (h, g) = apply_message ?m (h, ?g)" by (simp add: aarc_edgeAdd_def aarc_count_simp)
  show ?thesis
  proof (cases "addOut (aarc_current h b) (aarc_current h i) (addEdgeTo i (en_tab (la_engine g)))")
    case None
    then have "process h ?m (la_engine ?g) = GThrow ''std::bad_alloc''" using cb(1) ci(1) idx by (simp add: process_def process_EdgeAdd_def Let_def)
    then show ?thesis unfolding eq by (simp add: apply_message_def)
  next
    case (Some t)
    let ?f = "(la_engine g)\<lparr>en_msgsProcessed := en_msgsProcessed (la_engine g) + 1, en_tab := t\<rparr>"
    have "cok UNIV h t R {}" using cok_addEdge [OF d(1) p i] Some unfolding cb(2) ci(2) by simp
    then have "astate h ?f R {}" using d(2,3) by (simp add: astate_def)
    moreover have "process h ?m (la_engine ?g) = GOk ?f" using Some cb(1) ci(1) idx by (simp add: process_def process_EdgeAdd_def Let_def)
    ultimately obtain x where "apply_message ?m (h, ?g) = GOk x" "barrier_post R {} h x" using apply_message_ok [of h ?m ?g ?f R "{}"] d by auto
    then show ?thesis unfolding eq by simp
  qed
qed

section \<open>The contract\<close>

lemma write_slots:
  assumes "heap_ok h" and "storeCell b off v t h = Some (c, h')"
  shows "slots h' = slots h" "slotCap h' = slotCap h"
  using assms(2) by (auto simp: storeCell_def Let_def split: if_splits option.splits prod.splits)

lemma ref_at_write:
  assumes "heap_ok h" and "storeCell b (k * 9) v t h = Some (c, h')" and "p \<noteq> (b, k)"
  shows "ref_at h' p = ref_at h p"
proof (cases c)
  case True
  with ref_at_store [OF assms(1), of b k v t h' p] assms(2,3) show ?thesis by simp
next
  case False
  with hp.store_law [OF assms(1), of b "k * 9" v t] assms(2) show ?thesis by (auto split: option.splits if_splits)
qed

lemma aarc_ok_same_refs:
  assumes a: "aarc_ok h g R X" and g: "graph_ok h' R Y" and s: "length (slots h') = length (slots h)" "slotCap h' = slotCap h"
    and gen: "\<And>i. generation (slots h' ! i) = generation (slots h ! i)"
    and r: "\<And>p j. (p \<notin> Y \<and> ref_at h' p = Some j) = (p \<notin> X \<and> ref_at h p = Some j)"
  shows "aarc_ok h' g R Y"
  using a cok_same_refs [OF aarc_okD(1) [OF a] g s(1) gen r] s by (simp add: aarc_ok_def astate_def fixed_slots_def)

lemma aarc_ok_new:
  assumes a: "aarc_ok h g R X" and n: "alloc_room sz h" "alloc sz ty h = (i, h')"
  shows "aarc_ok h' g R X"
proof (rule aarc_ok_same_refs [OF a])
  note d = aarc_okD [OF a]
  show "graph_ok h' R X" by (rule graph_ok_new [OF cokD(1) [OF d(1)] n])
  show "length (slots h') = length (slots h)" "slotCap h' = slotCap h" "generation (slots h' ! j) = generation (slots h ! j)" for j
    by (rule alloc_fixed [OF d(5) n(2)])+
  fix p j have "p \<in> in_refs h' j \<longleftrightarrow> p \<in> in_refs h j" using in_refs_new [OF d(4) n] by simp
  then show "(p \<notin> X \<and> ref_at h' p = Some j) = (p \<notin> X \<and> ref_at h p = Some j)" by (simp add: in_refs_def)
qed

lemma aarc_ok_write:
  assumes a: "aarc_ok h g R {(b, k)}" and w: "storeCell b (k * 9) v t h = Some (c, h')"
  shows "aarc_ok h' g R {(b, k)}"
proof (rule aarc_ok_same_refs [OF a])
  note d = aarc_okD [OF a]
  show "graph_ok h' R {(b, k)}" by (rule graph_ok_write [OF cokD(1) [OF d(1)] w])
  show "length (slots h') = length (slots h)" "slotCap h' = slotCap h" "generation (slots h' ! j) = generation (slots h ! j)" for j
    using write_slots [OF d(4) w] by simp_all
  fix p j show "(p \<notin> {(b, k)} \<and> ref_at h' p = Some j) = (p \<notin> {(b, k)} \<and> ref_at h p = Some j)"
    using ref_at_write [OF d(4) w, of p] by auto
qed

lemma aarc_ok_skip:
  assumes a: "aarc_ok h g R X" and "ref_at h p = None" and "X = {} \<and> Y = {p} \<or> X = {p} \<and> Y = {}"
  shows "aarc_ok h g R Y"
proof (rule aarc_ok_same_refs [OF a])
  have "graph_ok h R {}" if "graph_ok h R {p}" using that by (rule graph_ok_attach) (simp add: assms(2))
  moreover have "graph_ok h R {p}" if "graph_ok h R {}" using that by (rule graph_ok_detach)
  ultimately show "graph_ok h R Y" using cokD(1) [OF aarc_okD(1) [OF a]] assms(3) by blast
  fix q j show "(q \<notin> Y \<and> ref_at h q = Some j) = (q \<notin> X \<and> ref_at h q = Some j)" using assms(2,3) by auto
qed simp_all

lemma aarc_ok_metrics: "aarc_ok h (g\<lparr>la_metrics := m\<rparr>) R X = aarc_ok h g R X"
  "aarc_ok h (g\<lparr>la_allocBytesSinceCycle := n\<rparr>) R X = aarc_ok h g R X"
  by (simp_all add: aarc_ok_def)

lemma aarc_shutdown_ok:
  assumes a: "aarc_ok h g R X"
  shows "\<exists>h' g'. aarc_shutdown (h, g) = GOk (h', g') \<and> aarc_ok h' g' R X \<and> keeps h h' (reach h (set_mset R) X)"
proof -
  have "astate h (la_engine g) R X" using a by (simp add: aarc_ok_def)
  from sweep_ok [OF this] obtain h' e where s: "sweep (h, la_engine g) = Some (h', e)" "astate h' e R X" "reclaims R X h h'" "en_zeroStack e = []" by blast
  have "fixed_slots h'" using aarc_okD(5) [OF a] s(3) by (simp add: fixed_slots_def reclaims_def)
  with s aarc_okD(6) [OF a] show ?thesis by (simp add: aarc_shutdown_def aarc_ok_def reclaims_def)
qed

lemma barrier_post_ok: "gspec m (barrier_post R X h) \<Longrightarrow> gspec m (\<lambda>(h', g'). aarc_ok h' g' R X \<and> keeps h h' (reach h (set_mset R) X))"
  by (rule gspec_mono, assumption) (auto simp: barrier_post_def)

interpretation aarc: gc_contract LocalAarcBackend aarc_ok
proof (unfold_locales, goal_cases)
  case (1 h g R X) then show ?case using cokD(1) [OF aarc_okD(1)] by blast
next
  case (2 h g R p) then show ?case by (rule aarc_ok_skip) simp
next
  case (3 h g R p) then show ?case by (rule aarc_ok_skip) simp
next
  case 4 then show ?case by (rule aarc_ok_write)
next
  case 5 then show ?case by (rule aarc_ok_new)
next
  case (6 h g R sz ty i h')
  from aarc_ok_new [OF 6(1-3)] show ?case by (simp add: LocalAarcBackend_def aarc_onAlloc_def aarc_ok_metrics Let_def)
next
  case (7 h g R r)
  then obtain x where "aarc_rootAdd r (h, g) = GOk x" "barrier_post (add_mset r R) {} h x" using aarc_rootAdd_ok by blast
  then show ?case using barrier_post_ok [of "GOk x" "add_mset r R" "{}" h] by (simp add: LocalAarcBackend_def)
next
  case (8 h g r R)
  then obtain x where "aarc_rootRemove r (h, g) = GOk x" "barrier_post R {} h x" using aarc_rootRemove_ok by blast
  then show ?case using barrier_post_ok [of "GOk x" R "{}" h] by (simp add: LocalAarcBackend_def)
next
  case (9 h g R b k i)
  then obtain x where "aarc_edgeRemove b i (h, g) = GOk x" "barrier_post R {(b, k)} h x" using aarc_edgeRemove_ok by blast
  then show ?case using barrier_post_ok [of "GOk x" R "{(b, k)}" h] by (simp add: LocalAarcBackend_def)
next
  case (10 h g R b k i)
  from barrier_post_ok [OF aarc_edgeAdd_ok [OF 10(1-3)]] show ?case by (simp add: LocalAarcBackend_def)
next
  case (11 h g R i)
  then show ?case by (simp add: LocalAarcBackend_def aarc_onExplicitFree_def aarc_count_simp aarc_ok_metrics)
next
  case (12 h g R)
  from aarc_shutdown_ok [OF 12] show ?case by (auto simp: LocalAarcBackend_def)
qed

end
