(* ===== verification/Lx_AarcSafety.thy ===== *)
theory Lx_AarcSafety
  imports Lx_AarcContract
begin

text \<open>
  The virtual machine on the AARC backend: the safety theorem of the contract, at the state the
  constructor builds in the mode \<open>aarc-local\<close>.
\<close>

section \<open>The start state\<close>

definition aarc_start :: "chunk \<Rightarrow> nat \<Rightarrow> string option \<Rightarrow> (nat \<Rightarrow> nat) \<Rightarrow> string \<Rightarrow> 'w \<Rightarrow> (local_aarc, 'w) vm" where
  "aarc_start c heapSlots cadence clock inp w =
     (let h = VM_heap AARCLocal heapSlots in snd (tryBuildJit (VM_init c h (LocalAarcBackend_init cadence clock h) inp w)))"

lemma VM_heap_ok:
  assumes "n < 2 ^ 32"
  shows "heap_ok (VM_heap AARCLocal n)" "view (VM_heap AARCLocal n) = view Heap_init" "fixed_slots (VM_heap AARCLocal n)"
proof -
  define m where "m = (if n \<noteq> 0 then n else 2 ^ 20)"
  have m: "m < 2 ^ 32" "0 < m" using assms by (simp_all add: m_def)
  have h: "VM_heap AARCLocal n = reserveSlots m Heap_init" by (simp add: VM_heap_def m_def)
  show "heap_ok (VM_heap AARCLocal n)" "view (VM_heap AARCLocal n) = view Heap_init" unfolding h using reserveSlots_ok [OF Heap_init_ok m(1)] by simp_all
  show "fixed_slots (VM_heap AARCLocal n)" unfolding h using m(2) by (simp add: fixed_slots_def reserveSlots_def Heap_init_def u32_cast_def Let_def)
qed

lemma aarc_init_ok:
  assumes ok: "heap_ok h" and empty: "view h = view Heap_init" and fixed: "fixed_slots h"
  shows "aarc_ok h (LocalAarcBackend_init cadence clock h) {#} {}"
proof -
  let ?g = "LocalAarcBackend_init cadence clock h"
  have e: "la_engine ?g = AarcEngine_init h" "threshold_ok ?g"
    by (simp_all add: LocalAarcBackend_init_def set_fixed_def threshold_ok_def Let_def split: option.split)
  have n: "slotCapacity h = length (slots h)" using ok by (simp add: slotCapacity_def heap_ok_def u32_cast_def)
  have none: "ref_at h p = None" for p using ref_at_dead [OF ok] empty by simp
  then have refs: "in_refs h i = {}" "mult h {} i j = 0" for i j by (simp_all add: in_refs_def mult_def)
  note t = rt_new_law [of "length (slots h)"]
  have "cok UNIV h (RefTable_init (length (slots h))) {#} {}"
    by (rule cokI) (use t none refs ok in \<open>auto simp: graph_ok_def\<close>)
  moreover have "marked (replicate m False) = 0" for m by (simp add: marked_def)
  ultimately have "astate h (AarcEngine_init h) {#} {}"
    by (simp add: astate_def AarcEngine_init_def Let_def n eok_def engine_errs_def CycleDetector_init_clean)
  then show ?thesis using e fixed by (simp add: aarc_ok_def AarcEngine_init_def Let_def)
qed

lemma aarc_start_shape:
  "vshape (aarc_start c n cad clk inp w)" "roots (aarc_start c n cad clk inp w) = {#}" "spill_count (aarc_start c n cad clk inp w) = 0"
  "m_heap (aarc_start c n cad clk inp w) = VM_heap AARCLocal n"
  "m_gc (aarc_start c n cad clk inp w) = LocalAarcBackend_init cad clk (VM_heap AARCLocal n)"
  by (auto simp: aarc_start_def tryBuildJit_def VM_init_def vshape_def roots_def spill_count_def handles_zero Let_def split: sum.split)

lemma aarc_start_ok: "n < 2 ^ 32 \<Longrightarrow> aarc.vinv (aarc_start c n cad clk inp w) {#}"
  using aarc_init_ok [OF VM_heap_ok] by (simp add: aarc.vinv_def aarc_start_shape)

section \<open>Safety\<close>

lemma aarc_ok_errors: "aarc_ok h g R X \<Longrightarrow> collectorErrors g = 0"
  by (simp add: aarc_ok_def astate_def eok_def engine_errs_def collectorErrors_def Let_def)

text \<open>
  Property C2 (safety).  In every state that a guarded run reaches under the AARC backend, whatever the
  cadence, the measured times and the number of slots: the reference table counts exactly the
  roots and the heap cells that hold each handle; no register, global or cell holds a
  dangling handle; the collector has dropped no stale message and met no underflow; the suspect
  threshold is between 512 and 65536; and the next instruction, when it satisfies the guard too, does
  not leave the arena, so every collection it triggers ends.  A guarded run
  is one that executes only instructions that satisfy \<open>instr_pre\<close>: an allocation finds room in the arena for
  one more object and for the one it allocates, with a size that does not wrap in 32 bits
  (\<open>size + 8 < 2^32\<close>), a heap access has a byte offset that is a multiple of the cell size, and fewer
  than \<open>2^31 - 10000\<close> registers are spilled.  The guard is needed: see \<open>misaligned_store_forges\<close> and \<open>alloc_size_wraps\<close>.
\<close>

theorem vm_aarc_safe:
  assumes "n < 2 ^ 32" and "guarded_reach E LocalAarcBackend (aarc_start c n cadence clock inp w) s"
  shows "(\<forall>i < length (slots (m_heap s)). rt_root (en_tab (la_engine (m_gc s))) i = int (count (roots s) i)
        \<and> rt_edge (en_tab (la_engine (m_gc s))) i = int (card (in_refs (m_heap s) i)))
    \<and> (\<forall>r < NREGS. m_rtag s ! r = TAG_HEAP \<longrightarrow> valid (m_heap s) (i64_to_u32 (m_regs s ! r)))
    \<and> (\<forall>g < NGLOBALS. m_globalTags s ! g = TAG_HEAP \<longrightarrow> valid (m_heap s) (i64_to_u32 (m_globals s ! g)))
    \<and> (\<forall>p i. ref_at (m_heap s) p = Some i \<longrightarrow> valid (m_heap s) i)
    \<and> collectorErrors (m_gc s) = 0
    \<and> 512 \<le> la_suspectThreshold (m_gc s) \<and> la_suspectThreshold (m_gc s) \<le> 65536
    \<and> (instr_pre (m_jitCode s ! m_jitIp s) s \<longrightarrow> step E LocalAarcBackend s \<noteq> Undefined UB_Heap)"
proof -
  note start = aarc_start_ok [OF assms(1), of c cadence clock inp w]
  have v: "vshape s" using aarc.reach_vinv [OF assms(2) start] by (simp add: aarc.vinv_def)
  have a: "aarc_ok (m_heap s) (m_gc s) (roots s) {}"
    and u: "instr_pre (m_jitCode s ! m_jitIp s) s \<longrightarrow> step E LocalAarcBackend s \<noteq> Undefined UB_Heap"
    using aarc.reach_safe [OF assms(2) start] by blast+
  note d = aarc_okD [OF a]
  have "rt_root (en_tab (la_engine (m_gc s))) i = int (count (roots s) i) \<and> rt_edge (en_tab (la_engine (m_gc s))) i = int (card (in_refs (m_heap s) i))"
    if "i < length (slots (m_heap s))" for i using cokD(5,6) [OF d(1) that] by simp
  moreover have "512 \<le> la_suspectThreshold (m_gc s)" "la_suspectThreshold (m_gc s) \<le> 65536" using d(6) by (simp_all add: threshold_ok_def)
  ultimately show ?thesis using graph_ok_no_dangling [OF cokD(1) [OF d(1)] v] aarc_ok_errors [OF a] u by blast
qed

text \<open>A run of the program that allocates two cells, in a heap of two slots.\<close>

definition two_slots :: heap where "two_slots = snd (alloc 18 3 (VM_heap AARCLocal 2))"

lemma alloc_two_slots: "alloc 18 3 (VM_heap AARCLocal 2) = (1, two_slots)" "alloc_room 18 (VM_heap AARCLocal 2)"
  by (simp_all add: two_slots_def VM_heap_def reserveSlots_def alloc_def alloc_room_def take_payload_def take_handle_def install_slot_def
      Heap_init_def cells_for_def SLOT_SIZE_def u32_cast_def free_list_def SMALL_CLASSES_def)

lemma aarc_alloc_fields:
  "m_jitCode (aarc_start alloc_chunk n cad clk inp w) = located 0 alloc_program"
  "m_jitIp (aarc_start alloc_chunk n cad clk inp w) = 0" "m_halted (aarc_start alloc_chunk n cad clk inp w) = False"
  "m_regs (aarc_start alloc_chunk n cad clk inp w) = replicate NREGS 0"
  "m_rtag (aarc_start alloc_chunk n cad clk inp w) = replicate NREGS 0"
  by (simp_all add: aarc_start_def tryBuildJit_def VM_init_def decode_alloc_chunk Let_def)

lemma aarc_alloc_step:
  fixes E :: "'w env"
  assumes "gc_onAlloc B 1 (two_slots, LocalAarcBackend_init cad clk (VM_heap AARCLocal 2)) = GOk (two_slots, g1)"
    and "gc_rootAdd B 1 (two_slots, g1) = GOk (h2, g2)"
  shows "\<exists>s'. step E B (aarc_start alloc_chunk 2 cad clk inp w) = Ok s' \<and> m_rtag s' ! 16 = TAG_HEAP \<and> m_regs s' ! 16 = 1 \<and> m_heap s' = h2 \<and> m_gc s' = g2"
proof -
  let ?s = "aarc_start alloc_chunk 2 cad clk inp w"
  have r: "reg_of \<lparr>op_tag = TReg, op_intVal = 16, op_strIdx = 0\<rparr> = 16" by (simp add: reg_of_def i64_to_u16_def)
  have u: "i64_to_u32 18 = 18" "i64_to_u32 3 = 3" "i64_to_u32 1 = 1" by (simp_all add: i64_to_u32_def)
  have "alloc_into B 18 3 16 ?s = Ok (?s\<lparr>m_heap := h2, m_gc := g2, m_regs := (m_regs ?s)[16 := 1], m_rtag := (m_rtag ?s)[16 := TAG_HEAP]\<rparr>)"
    using assms alloc_two_slots(1) u
    by (simp add: alloc_into_def aarc_start_shape INVALID_def gc_call_def obind_def setReg_def NREGS_def owhen_def aarc_alloc_fields tag_defs)
  then have "step E B ?s = Ok (?s\<lparr>m_heap := h2, m_gc := g2, m_regs := (m_regs ?s)[16 := 1],
      m_rtag := (m_rtag ?s)[16 := TAG_HEAP], m_jitIp := 1\<rparr>)"
    using r u by (simp add: step_def aarc_alloc_fields alloc_program_def execJitInstruction_def exec_Alloc_def
        readIntOperand_def obind_def next_ip_def)
  then show ?thesis by (simp add: aarc_alloc_fields NREGS_def)
qed

lemma two_slots_root:
  fixes clk :: "nat \<Rightarrow> nat"
  obtains g1 h2 g2 where "gc_onAlloc LocalAarcBackend 1 (two_slots, LocalAarcBackend_init cad clk (VM_heap AARCLocal 2)) = GOk (two_slots, g1)"
    "gc_rootAdd LocalAarcBackend 1 (two_slots, g1) = GOk (h2, g2)" "aarc_ok h2 g2 (add_mset 1 {#}) {}"
proof -
  let ?g = "LocalAarcBackend_init cad clk (VM_heap AARCLocal 2)"
  have "aarc_ok (VM_heap AARCLocal 2) ?g {#} {}" by (rule aarc_init_ok [OF VM_heap_ok]) simp_all
  then have a: "aarc_ok two_slots ?g {#} {}" by (rule aarc_ok_new [OF _ alloc_two_slots(2,1)])
  obtain g1 where g1: "gc_onAlloc LocalAarcBackend 1 (two_slots, ?g) = GOk (two_slots, g1)" "aarc_ok two_slots g1 {#} {}"
    using a by (simp add: LocalAarcBackend_def aarc_onAlloc_def aarc_ok_metrics Let_def)
  have "valid two_slots 1"
    using hp.new_law [OF VM_heap_ok(1) alloc_two_slots(2,1)] by (simp add: valid_view INVALID_def)
  from aarc_rootAdd_ok [OF g1(2) this] obtain h2 g2 where "gc_rootAdd LocalAarcBackend 1 (two_slots, g1) = GOk (h2, g2)"
    "barrier_post (add_mset 1 {#}) {} two_slots (h2, g2)" by (auto simp: LocalAarcBackend_def)
  with g1(1) that show thesis by (simp add: barrier_post_def)
qed

theorem vm_aarc_safe_witness:
  "\<forall>E :: unit env. \<exists>s :: (local_aarc, unit) vm. guarded_reach E LocalAarcBackend (aarc_start alloc_chunk 2 None (\<lambda>_. 0) [] ()) s
     \<and> m_rtag s ! 16 = TAG_HEAP \<and> valid (m_heap s) (i64_to_u32 (m_regs s ! 16)) \<and> collectorErrors (m_gc s) = 0"
  (is "\<forall>E. ?P E")
proof
  fix E :: "unit env"
  let ?s = "aarc_start alloc_chunk 2 None (\<lambda>_. 0) [] ()" and ?g = "LocalAarcBackend_init None (\<lambda>_. 0) (VM_heap AARCLocal 2)"
  obtain g1 h2 g2 where g: "gc_onAlloc LocalAarcBackend 1 (two_slots, ?g) = GOk (two_slots, g1)"
    "gc_rootAdd LocalAarcBackend 1 (two_slots, g1) = GOk (h2, g2)" by (rule two_slots_root)
  from aarc_alloc_step [OF g, of E "[]" "()"] obtain s :: "(local_aarc, unit) vm"
    where s: "step E LocalAarcBackend ?s = Ok s" "m_rtag s ! 16 = TAG_HEAP" by blast
  have pre: "instr_pre (m_jitCode ?s ! m_jitIp ?s) ?s"
    by (simp add: aarc_alloc_fields instr_pre_def alloc_program_def aarc_start_shape readIntOperand_def i64_to_u32_def alloc_room_def
        VM_heap_def reserveSlots_def Heap_init_def cells_for_def SLOT_SIZE_def u32_cast_def)
  have run: "running ?s" by (simp add: running_def aarc_alloc_fields alloc_program_def)
  have "guarded_reach E LocalAarcBackend ?s s" by (rule guarded_reach.step [OF guarded_reach.start run pre s(1)])
  from this vm_aarc_safe [OF _ this] s(2) show "?P E" by (auto simp: NREGS_def)
qed

text \<open>
  Property C9 (liveness).  A root or edge barrier that removes a reference always returns: the drain of
  the zero candidates and the cycle collection it may start both end, the queue of candidates is
  empty afterwards, and under the adaptive policy no suspect waits longer than 65536 operations for
  the next scan.
\<close>

theorem aarc_barriers_return:
  shows "(\<forall>h g r R. aarc_ok h g (add_mset r R) {} \<longrightarrow>
      (\<exists>h' g'. gc_rootRemove LocalAarcBackend r (h, g) = GOk (h', g') \<and> aarc_ok h' g' R {} \<and> \<not> hasZeroCandidates (la_engine g')
        \<and> (la_adaptive g' \<longrightarrow> pendingSuspects (la_engine g') = 0 \<or> la_opsSinceCycle g' < 65536)))
    \<and> (\<forall>h g R b k i. aarc_ok h g R {} \<longrightarrow> ref_at h (b, k) = Some i \<longrightarrow>
      (\<exists>h' g'. gc_edgeRemove LocalAarcBackend b i (h, g) = GOk (h', g') \<and> aarc_ok h' g' R {(b, k)} \<and> \<not> hasZeroCandidates (la_engine g')
        \<and> (la_adaptive g' \<longrightarrow> pendingSuspects (la_engine g') = 0 \<or> la_opsSinceCycle g' < 65536)))"
proof (intro conjI allI impI)
  fix h g r R assume "aarc_ok h g (add_mset r R) {}"
  from aarc_rootRemove_ok [OF this] obtain h' g' where "aarc_rootRemove r (h, g) = GOk (h', g')" "barrier_post R {} h (h', g')" by auto
  then show "\<exists>h' g'. gc_rootRemove LocalAarcBackend r (h, g) = GOk (h', g') \<and> aarc_ok h' g' R {} \<and> \<not> hasZeroCandidates (la_engine g')
        \<and> (la_adaptive g' \<longrightarrow> pendingSuspects (la_engine g') = 0 \<or> la_opsSinceCycle g' < 65536)"
    by (auto simp: LocalAarcBackend_def barrier_post_def aarc_ok_def hasZeroCandidates_def)
next
  fix h g R b k i assume "aarc_ok h g R {}" "ref_at h (b, k) = Some i"
  from aarc_edgeRemove_ok [OF this] obtain h' g' where "aarc_edgeRemove b i (h, g) = GOk (h', g')" "barrier_post R {(b, k)} h (h', g')" by auto
  then show "\<exists>h' g'. gc_edgeRemove LocalAarcBackend b i (h, g) = GOk (h', g') \<and> aarc_ok h' g' R {(b, k)} \<and> \<not> hasZeroCandidates (la_engine g')
        \<and> (la_adaptive g' \<longrightarrow> pendingSuspects (la_engine g') = 0 \<or> la_opsSinceCycle g' < 65536)"
    by (auto simp: LocalAarcBackend_def barrier_post_def aarc_ok_def hasZeroCandidates_def)
qed

theorem aarc_barriers_return_witness:
  "\<exists>h g h' g'. aarc_ok h g (add_mset 1 {#}) {} \<and> gc_rootRemove LocalAarcBackend 1 (h, g) = GOk (h', g') \<and> \<not> hasZeroCandidates (la_engine g')"
proof -
  obtain h g where a: "aarc_ok h g (add_mset 1 {#}) {}" by (rule two_slots_root)
  with conjunct1 [OF aarc_barriers_return, rule_format, OF a] show ?thesis by blast
qed

end
