(* ===== verification/Lx_Ty.thy ===== *)
theory Lx_Ty
  imports Lx_Prelude
begin

text \<open>
  The types of the compiler (\<open>v2/type/Type.hpp\<close>) and substitution in them (\<open>v2/type/TypeSubst.hpp\<close>).
  A \<open>TyPtr\<close> is a \<open>ty\<close>, with \<open>TyNullPtr\<close> for the null pointer.  Definitions of classes, interfaces and
  enumerations are shared and may refer to each other, so a type holds their address in a store.
  A dereference of a null pointer, undefined in C++, is the value \<open>None\<close>.
\<close>

section \<open>Types\<close>

datatype (plugins only: code size) ty_kind =
    K_Infer | K_Never | K_Unit | K_Bool | K_Char | K_Int | K_Long | K_Float | K_Double | K_Str
  | K_Fn | K_Tuple | K_Array | K_Slice | K_Ref | K_RawPtr | K_Adt | K_Class | K_Interface | K_Param
  | K_Projection | K_Error | K_Null

datatype ty_width = W32 | W64

type_synonym def_addr = nat

datatype ty =
    TyNullPtr
  | Ty (ty_node: ty_node) (nullable: bool)
and ty_node =
    InferVar nat
  | TyNever
  | TyUnit
  | TyBool
  | TyChar
  | TyInt ty_width
  | TyFloat ty_width
  | TyStr
  | TyNull
  | TyFn (fn_params: "ty list") (fn_ret: ty) (fn_paramNames: "string list") (fn_varargIndex: "nat option") (fn_kwargsIndex: "nat option")
  | TyTuple "ty list"
  | TyArray ty nat
  | TySlice ty
  | TyRef bool ty
  | TyRawPtr bool ty
  | TyAdt def_addr "ty list"
  | TyClass def_addr "ty list"
  | TyInterface def_addr "ty list"
  | TyParam string nat
  | TyProjection ty string
  | TyError

section \<open>Definitions that types refer to\<close>

record adt_def =
  ad_name :: string
  ad_params :: "string list"

record field_info =
  fd_name :: string
  fd_type :: ty
  fd_offset :: nat
  fd_isVal :: bool

record enum_variant_info =
  ev_name :: string
  ev_fields :: "field_info list"
  ev_isTuple :: bool
  ev_discriminant :: nat
  ev_payloadSize :: nat

record method_info =
  me_name :: string
  me_genericParams :: "string list"
  me_paramNames :: "string list"
  me_varargIndex :: "nat option"
  me_kwargsIndex :: "nat option"
  me_funcType :: ty
  me_arity :: nat
  me_vtableIndex :: nat
  me_isOpen :: bool
  me_isAbstract :: bool
  me_isOverride :: bool
  me_isInterfaceDefault :: bool
  me_defaultIfaceName :: string

record interface_def =
  if_name :: string
  if_params :: "string list"
  if_methods :: "method_info list"
  if_superNames :: "string list"
  if_typeId :: nat

record itable_map =
  im_interfaceName :: string
  im_slotMap :: "nat list"
  im_interfaceTypeId :: nat

record class_def =
  cd_name :: string
  cd_params :: "string list"
  cd_fields :: "field_info list"
  cd_variants :: "enum_variant_info list"
  cd_methods :: "method_info list"
  cd_vtable :: "nat list"
  cd_superName :: "string option"
  cd_superDef :: "def_addr option"
  cd_interfaceNames :: "string list"
  cd_itables :: "itable_map list"
  cd_isOpen :: bool
  cd_isAbstract :: bool
  cd_isData :: bool
  cd_isEnum :: bool
  cd_totalFieldSize :: nat
  cd_typeId :: nat

record def_store =
  ds_adts :: "def_addr \<Rightarrow> adt_def"
  ds_classes :: "def_addr \<Rightarrow> class_def"
  ds_interfaces :: "def_addr \<Rightarrow> interface_def"

section \<open>Kinds and printing\<close>

primrec node_kind :: "ty_node \<Rightarrow> ty_kind" where
  "node_kind (InferVar _) = K_Infer"
| "node_kind TyNever = K_Never"
| "node_kind TyUnit = K_Unit"
| "node_kind TyBool = K_Bool"
| "node_kind TyChar = K_Char"
| "node_kind (TyInt w) = (case w of W32 \<Rightarrow> K_Int | W64 \<Rightarrow> K_Long)"
| "node_kind (TyFloat w) = (case w of W32 \<Rightarrow> K_Float | W64 \<Rightarrow> K_Double)"
| "node_kind TyStr = K_Str"
| "node_kind TyNull = K_Null"
| "node_kind (TyFn _ _ _ _ _) = K_Fn"
| "node_kind (TyTuple _) = K_Tuple"
| "node_kind (TyArray _ _) = K_Array"
| "node_kind (TySlice _) = K_Slice"
| "node_kind (TyRef _ _) = K_Ref"
| "node_kind (TyRawPtr _ _) = K_RawPtr"
| "node_kind (TyAdt _ _) = K_Adt"
| "node_kind (TyClass _ _) = K_Class"
| "node_kind (TyInterface _ _) = K_Interface"
| "node_kind (TyParam _ _) = K_Param"
| "node_kind (TyProjection _ _) = K_Projection"
| "node_kind TyError = K_Error"

definition kind :: "ty \<Rightarrow> ty_kind option" where
  "kind t = (case t of TyNullPtr \<Rightarrow> None | Ty n _ \<Rightarrow> Some (node_kind n))"

text \<open>The pieces with a comma between them.\<close>

fun comma_sep :: "string list \<Rightarrow> string" where
  "comma_sep [] = ''''"
| "comma_sep [x] = x"
| "comma_sep (x # y # xs) = x @ '','' @ comma_sep (y # xs)"

fun all_some :: "'a option list \<Rightarrow> 'a list option" where
  "all_some [] = Some []"
| "all_some (None # _) = None"
| "all_some (Some x # xs) = map_option ((#) x) (all_some xs)"

fun ty_toString :: "def_store \<Rightarrow> ty \<Rightarrow> string option" and node_toString :: "def_store \<Rightarrow> string \<Rightarrow> ty_node \<Rightarrow> string option" where
  "ty_toString D TyNullPtr = None"
| "ty_toString D (Ty n nul) = node_toString D (if nul then ''?'' else '''') n"
| "node_toString D suffix (InferVar _) = Some (''_'' @ suffix)"
| "node_toString D suffix TyNever = Some (if suffix = '''' then ''noreturn'' else ''null'')"
| "node_toString D suffix TyUnit = Some (''()'' @ suffix)"
| "node_toString D suffix TyBool = Some (''bool'' @ suffix)"
| "node_toString D suffix TyChar = Some (''char'' @ suffix)"
| "node_toString D suffix (TyInt w) = Some ((case w of W32 \<Rightarrow> ''int'' | W64 \<Rightarrow> ''long'') @ suffix)"
| "node_toString D suffix (TyFloat w) = Some ((case w of W32 \<Rightarrow> ''float'' | W64 \<Rightarrow> ''double'') @ suffix)"
| "node_toString D suffix TyStr = Some (''str'' @ suffix)"
| "node_toString D suffix TyNull = Some ''null''"
| "node_toString D suffix (TyFn _ _ _ _ _) = Some (''fun(..)'' @ suffix)"
| "node_toString D suffix (TyTuple elems) =
     map_option (\<lambda>ss. ''('' @ comma_sep ss @ '')'' @ suffix) (all_some (map (ty_toString D) elems))"
| "node_toString D suffix (TyArray elem len) =
     map_option (\<lambda>s. ''['' @ s @ '';'' @ string_of_nat len @ '']'' @ suffix) (ty_toString D elem)"
| "node_toString D suffix (TySlice elem) = map_option (\<lambda>s. ''['' @ s @ '']'' @ suffix) (ty_toString D elem)"
| "node_toString D suffix (TyRef mut elem) =
     map_option (\<lambda>s. ''&'' @ (if mut then ''mut '' else '''') @ s) (ty_toString D elem)"
| "node_toString D suffix (TyRawPtr mut elem) =
     map_option (\<lambda>s. ''*'' @ (if mut then ''mut '' else ''const '') @ s) (ty_toString D elem)"
| "node_toString D suffix (TyAdt d _) = Some (ad_name (ds_adts D d) @ suffix)"
| "node_toString D suffix (TyClass d _) = Some (cd_name (ds_classes D d) @ suffix)"
| "node_toString D suffix (TyInterface d _) = Some (if_name (ds_interfaces D d) @ suffix)"
| "node_toString D suffix (TyParam name _) = Some (name @ suffix)"
| "node_toString D suffix (TyProjection _ _) = Some (''_'' @ suffix)"
| "node_toString D suffix TyError = Some ''<error>''"

section \<open>Symbols\<close>

definition mangle_named :: "char \<Rightarrow> string \<Rightarrow> string" where
  "mangle_named tag name = tag # string_of_nat (length name) @ ''_'' @ name"

definition mangle_args :: "string list \<Rightarrow> string" where
  "mangle_args values = string_of_nat (length values) @ concat (map (\<lambda>v. ''_'' @ v) values)"

fun mangleType :: "def_store \<Rightarrow> ty \<Rightarrow> string" and mangle_node :: "def_store \<Rightarrow> ty_node \<Rightarrow> string" where
  "mangleType D TyNullPtr = ''X''"
| "mangleType D (Ty n nul) = (if nul then ''N'' @ mangle_node D n else mangle_node D n)"
| "mangle_node D (InferVar i) = ''V'' @ string_of_nat i"
| "mangle_node D TyNever = ''v''"
| "mangle_node D TyUnit = ''u''"
| "mangle_node D TyBool = ''b''"
| "mangle_node D TyChar = ''c''"
| "mangle_node D (TyInt w) = (case w of W32 \<Rightarrow> ''i'' | W64 \<Rightarrow> ''l'')"
| "mangle_node D (TyFloat w) = (case w of W32 \<Rightarrow> ''f'' | W64 \<Rightarrow> ''d'')"
| "mangle_node D TyStr = ''s''"
| "mangle_node D TyNull = ''z''"
| "mangle_node D (TyFn params ret _ _ _) = ''F'' @ mangle_args (map (mangleType D) params) @ ''_R_'' @ mangleType D ret"
| "mangle_node D (TyTuple elems) = ''T'' @ mangle_args (map (mangleType D) elems)"
| "mangle_node D (TyArray elem len) = ''A'' @ string_of_nat len @ ''_'' @ mangleType D elem"
| "mangle_node D (TySlice elem) = ''S'' @ mangleType D elem"
| "mangle_node D (TyRef mut elem) = (if mut then ''Qm'' else ''Qi'') @ mangleType D elem"
| "mangle_node D (TyRawPtr mut elem) = (if mut then ''Pm'' else ''Pi'') @ mangleType D elem"
| "mangle_node D (TyAdt d args) = mangle_named CHR ''E'' (ad_name (ds_adts D d)) @ ''_G'' @ mangle_args (map (mangleType D) args)"
| "mangle_node D (TyClass d args) = mangle_named CHR ''C'' (cd_name (ds_classes D d)) @ ''_G'' @ mangle_args (map (mangleType D) args)"
| "mangle_node D (TyInterface d args) = mangle_named CHR ''I'' (if_name (ds_interfaces D d)) @ ''_G'' @ mangle_args (map (mangleType D) args)"
| "mangle_node D (TyParam _ idx) = ''G'' @ string_of_nat idx"
| "mangle_node D (TyProjection base assoc) = ''J'' @ mangleType D base @ ''_'' @ mangle_named CHR ''A'' assoc"
| "mangle_node D TyError = ''X''"

definition mangleFunctionSignature :: "def_store \<Rightarrow> string \<Rightarrow> ty list \<Rightarrow> ty \<Rightarrow> string" where
  "mangleFunctionSignature D name params ret =
     name @ ''$P'' @ mangle_args (map (mangleType D) params) @ ''$R_'' @ mangleType D ret"

text \<open>The factory functions; all but \<open>makeNullable\<close> allocate a type that is not nullable.\<close>

definition mkInfer :: "nat \<Rightarrow> ty" where "mkInfer i = Ty (InferVar i) False"
definition mkUnit :: ty where "mkUnit = Ty TyUnit False"
definition mkBool :: ty where "mkBool = Ty TyBool False"
definition mkChar :: ty where "mkChar = Ty TyChar False"
definition mkInt :: ty where "mkInt = Ty (TyInt W32) False"
definition mkLong :: ty where "mkLong = Ty (TyInt W64) False"
definition mkFloat :: ty where "mkFloat = Ty (TyFloat W32) False"
definition mkDouble :: ty where "mkDouble = Ty (TyFloat W64) False"
definition mkStr :: ty where "mkStr = Ty TyStr False"
definition mkNull :: ty where "mkNull = Ty TyNull False"
definition mkNever :: ty where "mkNever = Ty TyNever False"
definition mkError :: ty where "mkError = Ty TyError False"

definition makeNullable :: "ty \<Rightarrow> ty option" where
  "makeNullable inner = (case inner of TyNullPtr \<Rightarrow> None | Ty n _ \<Rightarrow> Some (Ty n True))"

section \<open>Substitution\<close>

type_synonym ty_subst = "string \<rightharpoonup> ty"

definition makeSubstMap :: "string list \<Rightarrow> ty list \<Rightarrow> ty_subst" where
  "makeSubstMap paramNames args = foldl (\<lambda>m (p, a). m(p \<mapsto> a)) Map.empty (zip paramNames args)"

text \<open>
  A substituted parameter that is nullable copies what it is bound to; the other cases rebuild the
  type, and the flag of the original is put back at the end.
\<close>

fun substituteType :: "ty_subst \<Rightarrow> ty \<Rightarrow> ty option" and subst_node :: "ty_subst \<Rightarrow> bool \<Rightarrow> ty_node \<Rightarrow> ty option" where
  "substituteType subst TyNullPtr = Some TyNullPtr"
| "substituteType subst (Ty n nul) =
     (case subst_node subst nul n of
        None \<Rightarrow> None
      | Some TyNullPtr \<Rightarrow> Some TyNullPtr
      | Some (Ty m mnul) \<Rightarrow> Some (Ty m (nul \<or> mnul)))"
| "subst_node subst nul (TyParam name idx) =
     (case subst name of
        None \<Rightarrow> Some (Ty (TyParam name idx) nul)
      | Some t \<Rightarrow> if \<not> nul then Some t else makeNullable t)"
| "subst_node subst nul (TyFn params ret names vi ki) =
     (case all_some (map (substituteType subst) params) of
        None \<Rightarrow> None
      | Some ps \<Rightarrow> map_option (\<lambda>r. Ty (TyFn ps r names vi ki) False) (substituteType subst ret))"
| "subst_node subst nul (TyTuple elems) = map_option (\<lambda>es. Ty (TyTuple es) False) (all_some (map (substituteType subst) elems))"
| "subst_node subst nul (TyArray elem len) = map_option (\<lambda>e. Ty (TyArray e len) False) (substituteType subst elem)"
| "subst_node subst nul (TySlice elem) = map_option (\<lambda>e. Ty (TySlice e) False) (substituteType subst elem)"
| "subst_node subst nul (TyRef mut elem) = map_option (\<lambda>e. Ty (TyRef mut e) False) (substituteType subst elem)"
| "subst_node subst nul (TyRawPtr mut elem) = map_option (\<lambda>e. Ty (TyRawPtr mut e) False) (substituteType subst elem)"
| "subst_node subst nul (TyAdt d args) = map_option (\<lambda>as. Ty (TyAdt d as) False) (all_some (map (substituteType subst) args))"
| "subst_node subst nul (TyClass d args) = map_option (\<lambda>as. Ty (TyClass d as) False) (all_some (map (substituteType subst) args))"
| "subst_node subst nul (TyInterface d args) = map_option (\<lambda>as. Ty (TyInterface d as) False) (all_some (map (substituteType subst) args))"
| "subst_node subst nul n = Some (Ty n nul)"

definition applyClassArgs :: "ty \<Rightarrow> ty list \<Rightarrow> ty" where
  "applyClassArgs base args =
     (if args = [] then base
      else case base of
        Ty (TyClass d _) _ \<Rightarrow> Ty (TyClass d args) False
      | Ty (TyInterface d _) _ \<Rightarrow> Ty (TyInterface d args) False
      | Ty (TyAdt d _) _ \<Rightarrow> Ty (TyAdt d args) False
      | _ \<Rightarrow> base)"

definition classSubstMap :: "def_store \<Rightarrow> ty \<Rightarrow> ty_subst" where
  "classSubstMap D t =
     (case t of Ty (TyClass d args) _ \<Rightarrow> if args = [] then Map.empty else makeSubstMap (cd_params (ds_classes D d)) args
      | _ \<Rightarrow> Map.empty)"

definition typeArgSubstMap :: "def_store \<Rightarrow> ty \<Rightarrow> ty_subst" where
  "typeArgSubstMap D t =
     (case t of
        Ty (TyClass d args) _ \<Rightarrow> if args = [] then Map.empty else makeSubstMap (cd_params (ds_classes D d)) args
      | Ty (TyInterface d args) _ \<Rightarrow> if args = [] then Map.empty else makeSubstMap (if_params (ds_interfaces D d)) args
      | _ \<Rightarrow> Map.empty)"

end
