(* ===== verification/Lx_TySpec.thy ===== *)
theory Lx_TySpec
  imports Lx_Ty Lx_VMValues
begin

text \<open>
  Symbols determine types, and substitution replaces exactly the bound parameters.
\<close>

section \<open>Numbers in a symbol\<close>

definition no_digit :: "string \<Rightarrow> bool" where
  "no_digit s \<longleftrightarrow> s = [] \<or> \<not> is_digit (hd s)"

lemma no_digit_simps [simp]: "no_digit []" "no_digit (c # s) \<longleftrightarrow> \<not> is_digit c"
  by (simp_all add: no_digit_def)

lemma takeWhile_number: "no_digit r \<Longrightarrow> takeWhile is_digit (string_of_nat n @ r) = string_of_nat n"
  using string_of_nat_props(2) [of n] by (cases r) (auto simp: list_all_iff takeWhile_append)

lemma number_inj:
  assumes "string_of_nat a @ r = string_of_nat b @ s" and "no_digit r" and "no_digit s"
  shows "a = b \<and> r = s"
proof -
  have e: "string_of_nat a = string_of_nat b" using takeWhile_number [OF assms(2), of a] takeWhile_number [OF assms(3), of b] assms(1) by simp
  then have "int a = int b" using string_of_nat_props(3) by metis
  with assms(1) e show ?thesis by simp
qed

lemma separator_no_digit [simp]: "\<not> is_digit CHR ''_''" "\<not> is_digit CHR ''$''"
  by (simp_all add: is_digit_def)

section \<open>What a symbol stands for\<close>

text \<open>
  The structure that a symbol keeps of a type: the name of a class instead of its definition, the index
  of a parameter, nothing of the names of function parameters; a null pointer looks like an error.
\<close>

datatype (plugins only: code size) sym_ty =
    S_Atom char
  | S_Infer nat
  | S_Nullable sym_ty
  | S_Fn "sym_ty list" sym_ty
  | S_Tuple "sym_ty list"
  | S_Array nat sym_ty
  | S_Slice sym_ty
  | S_Ref bool sym_ty
  | S_RawPtr bool sym_ty
  | S_Adt string "sym_ty list"
  | S_Class string "sym_ty list"
  | S_Interface string "sym_ty list"
  | S_Param nat
  | S_Projection sym_ty string

fun sym_of :: "def_store \<Rightarrow> ty \<Rightarrow> sym_ty" and sym_node :: "def_store \<Rightarrow> ty_node \<Rightarrow> sym_ty" where
  "sym_of D TyNullPtr = S_Atom CHR ''X''"
| "sym_of D (Ty n nul) = (if nul then S_Nullable (sym_node D n) else sym_node D n)"
| "sym_node D (InferVar i) = S_Infer i"
| "sym_node D TyNever = S_Atom CHR ''v''"
| "sym_node D TyUnit = S_Atom CHR ''u''"
| "sym_node D TyBool = S_Atom CHR ''b''"
| "sym_node D TyChar = S_Atom CHR ''c''"
| "sym_node D (TyInt w) = S_Atom (case w of W32 \<Rightarrow> CHR ''i'' | W64 \<Rightarrow> CHR ''l'')"
| "sym_node D (TyFloat w) = S_Atom (case w of W32 \<Rightarrow> CHR ''f'' | W64 \<Rightarrow> CHR ''d'')"
| "sym_node D TyStr = S_Atom CHR ''s''"
| "sym_node D TyNull = S_Atom CHR ''z''"
| "sym_node D (TyFn params ret _ _ _) = S_Fn (map (sym_of D) params) (sym_of D ret)"
| "sym_node D (TyTuple elems) = S_Tuple (map (sym_of D) elems)"
| "sym_node D (TyArray elem len) = S_Array len (sym_of D elem)"
| "sym_node D (TySlice elem) = S_Slice (sym_of D elem)"
| "sym_node D (TyRef mut elem) = S_Ref mut (sym_of D elem)"
| "sym_node D (TyRawPtr mut elem) = S_RawPtr mut (sym_of D elem)"
| "sym_node D (TyAdt d args) = S_Adt (ad_name (ds_adts D d)) (map (sym_of D) args)"
| "sym_node D (TyClass d args) = S_Class (cd_name (ds_classes D d)) (map (sym_of D) args)"
| "sym_node D (TyInterface d args) = S_Interface (if_name (ds_interfaces D d)) (map (sym_of D) args)"
| "sym_node D (TyParam _ idx) = S_Param idx"
| "sym_node D (TyProjection base assoc) = S_Projection (sym_of D base) assoc"
| "sym_node D TyError = S_Atom CHR ''X''"

definition sym_args :: "string list \<Rightarrow> string" where
  "sym_args ss = concat (map (\<lambda>s. ''_'' @ s) ss)"

fun sym_string :: "sym_ty \<Rightarrow> string" where
  "sym_string (S_Atom c) = [c]"
| "sym_string (S_Infer i) = ''V'' @ string_of_nat i"
| "sym_string (S_Nullable m) = ''N'' @ sym_string m"
| "sym_string (S_Fn ps r) = ''F'' @ string_of_nat (length ps) @ sym_args (map sym_string ps) @ ''_R_'' @ sym_string r"
| "sym_string (S_Tuple es) = ''T'' @ string_of_nat (length es) @ sym_args (map sym_string es)"
| "sym_string (S_Array n m) = ''A'' @ string_of_nat n @ ''_'' @ sym_string m"
| "sym_string (S_Slice m) = ''S'' @ sym_string m"
| "sym_string (S_Ref b m) = ''Q'' @ (if b then ''m'' else ''i'') @ sym_string m"
| "sym_string (S_RawPtr b m) = ''P'' @ (if b then ''m'' else ''i'') @ sym_string m"
| "sym_string (S_Adt s as) = ''E'' @ string_of_nat (length s) @ ''_'' @ s @ ''_G'' @ string_of_nat (length as) @ sym_args (map sym_string as)"
| "sym_string (S_Class s as) = ''C'' @ string_of_nat (length s) @ ''_'' @ s @ ''_G'' @ string_of_nat (length as) @ sym_args (map sym_string as)"
| "sym_string (S_Interface s as) = ''I'' @ string_of_nat (length s) @ ''_'' @ s @ ''_G'' @ string_of_nat (length as) @ sym_args (map sym_string as)"
| "sym_string (S_Param i) = ''G'' @ string_of_nat i"
| "sym_string (S_Projection m s) = ''J'' @ sym_string m @ ''_A'' @ string_of_nat (length s) @ ''_'' @ s"

fun sym_ok :: "sym_ty \<Rightarrow> bool" where
  "sym_ok (S_Atom c) \<longleftrightarrow> c \<in> set ''vubcilfdszX''"
| "sym_ok (S_Infer i) \<longleftrightarrow> True"
| "sym_ok (S_Nullable m) \<longleftrightarrow> sym_ok m"
| "sym_ok (S_Fn ps r) \<longleftrightarrow> list_all sym_ok ps \<and> sym_ok r"
| "sym_ok (S_Tuple es) \<longleftrightarrow> list_all sym_ok es"
| "sym_ok (S_Array n m) \<longleftrightarrow> sym_ok m"
| "sym_ok (S_Slice m) \<longleftrightarrow> sym_ok m"
| "sym_ok (S_Ref b m) \<longleftrightarrow> sym_ok m"
| "sym_ok (S_RawPtr b m) \<longleftrightarrow> sym_ok m"
| "sym_ok (S_Adt s as) \<longleftrightarrow> list_all sym_ok as"
| "sym_ok (S_Class s as) \<longleftrightarrow> list_all sym_ok as"
| "sym_ok (S_Interface s as) \<longleftrightarrow> list_all sym_ok as"
| "sym_ok (S_Param i) \<longleftrightarrow> True"
| "sym_ok (S_Projection m s) \<longleftrightarrow> sym_ok m"

lemma sym_of_ok: "sym_ok (sym_of D t)" "sym_ok (sym_node D n)"
  by (induction D t and D n rule: sym_of_sym_node.induct) (simp_all add: list_all_iff split: ty_width.split)

lemma mangle_sym: "mangleType D t = sym_string (sym_of D t)" "mangle_node D n = sym_string (sym_node D n)"
  by (induction D t and D n rule: sym_of_sym_node.induct)
     (simp_all add: mangle_args_def mangle_named_def sym_args_def comp_def cong: map_cong split: ty_width.split)

section \<open>Symbols are uniquely readable\<close>

definition reads_back :: "sym_ty \<Rightarrow> bool" where
  "reads_back m \<longleftrightarrow> (\<forall>m' r r'. sym_ok m' \<longrightarrow> no_digit r \<longrightarrow> no_digit r' \<longrightarrow> sym_string m @ r = sym_string m' @ r' \<longrightarrow> m = m' \<and> r = r')"

lemma reads_backD: "reads_back m \<Longrightarrow> sym_string m @ r = sym_string m' @ r' \<Longrightarrow> sym_ok m' \<Longrightarrow> no_digit r \<Longrightarrow> no_digit r' \<Longrightarrow> m = m' \<and> r = r'"
  by (auto simp: reads_back_def)

lemma sym_args_simps [simp]: "sym_args [] = []" "sym_args (s # ss) = CHR ''_'' # s @ sym_args ss"
  by (simp_all add: sym_args_def)

lemma sym_args_no_digit [simp]: "no_digit r \<Longrightarrow> no_digit (sym_args ss @ r)"
  by (cases ss) simp_all

lemma args_read_back:
  assumes "\<forall>m \<in> set ms. reads_back m" and "list_all sym_ok ms'" and "length ms = length ms'"
    and "sym_args (map sym_string ms) @ r = sym_args (map sym_string ms') @ r'" and "no_digit r" and "no_digit r'"
  shows "ms = ms' \<and> r = r'"
  using assms
proof (induction ms arbitrary: ms')
  case (Cons m ms)
  then obtain m' ns where ms': "ms' = m' # ns" by (cases ms') auto
  have "m = m' \<and> sym_args (map sym_string ms) @ r = sym_args (map sym_string ns) @ r'"
    by (rule reads_backD) (use Cons.prems ms' in auto)
  with Cons.IH [of ns] Cons.prems ms' show ?case by auto
qed simp

lemma counted_read_back:
  assumes "string_of_nat (length ms) @ sym_args (map sym_string ms) @ r = string_of_nat (length ms') @ sym_args (map sym_string ms') @ r'"
    and "\<forall>m \<in> set ms. reads_back m" and "list_all sym_ok ms'" and "no_digit r" and "no_digit r'"
  shows "ms = ms' \<and> r = r'"
proof -
  have n: "length ms = length ms' \<and> sym_args (map sym_string ms) @ r = sym_args (map sym_string ms') @ r'"
    by (rule number_inj [OF assms(1)]) (use assms(4,5) in simp_all)
  from args_read_back [OF assms(2,3) conjunct1 [OF n] conjunct2 [OF n] assms(4,5)] show ?thesis .
qed

lemma name_read_back:
  assumes "string_of_nat (length s) @ CHR ''_'' # s @ r = string_of_nat (length s') @ CHR ''_'' # s' @ r'"
  shows "s = s' \<and> r = r'"
  using number_inj [OF assms] by (auto simp: append_eq_append_conv)

lemma named_read_back:
  assumes "string_of_nat (length s) @ CHR ''_'' # s @ CHR ''_'' # CHR ''G'' # string_of_nat (length ms) @ sym_args (map sym_string ms) @ r
      = string_of_nat (length s') @ CHR ''_'' # s' @ CHR ''_'' # CHR ''G'' # string_of_nat (length ms') @ sym_args (map sym_string ms') @ r'"
    and "\<forall>m \<in> set ms. reads_back m" and "list_all sym_ok ms'" and "no_digit r" and "no_digit r'"
  shows "s = s' \<and> ms = ms' \<and> r = r'"
proof -
  from name_read_back [OF assms(1)] have "s = s'" and e: "string_of_nat (length ms) @ sym_args (map sym_string ms) @ r = string_of_nat (length ms') @ sym_args (map sym_string ms') @ r'"
    by simp_all
  with counted_read_back [OF e assms(2-5)] show ?thesis by simp
qed

lemma reads_backI:
  "(\<And>m' r r'. sym_ok m' \<Longrightarrow> no_digit r \<Longrightarrow> no_digit r' \<Longrightarrow> sym_string m @ r = sym_string m' @ r' \<Longrightarrow> m = m' \<and> r = r') \<Longrightarrow> reads_back m"
  by (simp add: reads_back_def)

lemma reads_back_atom: "c \<in> set ''vubcilfdszX'' \<Longrightarrow> reads_back (S_Atom c)"
proof (rule reads_backI)
  fix m' r r' assume "c \<in> set ''vubcilfdszX''" "sym_ok m'" "sym_string (S_Atom c) @ r = sym_string m' @ r'"
  then show "S_Atom c = m' \<and> r = r'" by (cases m') auto
qed

lemma reads_back_number: "reads_back (S_Infer i)" "reads_back (S_Param i)"
proof (rule_tac [!] reads_backI)
  fix m' r r' assume a: "sym_ok m'" "no_digit r" "no_digit r'"
  show "S_Infer i = m' \<and> r = r'" if "sym_string (S_Infer i) @ r = sym_string m' @ r'" using a that by (cases m') (auto dest: number_inj)
  show "S_Param i = m' \<and> r = r'" if "sym_string (S_Param i) @ r = sym_string m' @ r'" using a that by (cases m') (auto dest: number_inj)
qed

lemma reads_back_unary:
  assumes "reads_back m"
  shows "reads_back (S_Nullable m)" "reads_back (S_Slice m)" "reads_back (S_Ref b m)" "reads_back (S_RawPtr b m)"
proof (rule_tac [!] reads_backI)
  fix m' r r' assume a: "sym_ok m'" "no_digit r" "no_digit r'"
  show "S_Nullable m = m' \<and> r = r'" if "sym_string (S_Nullable m) @ r = sym_string m' @ r'"
    using assms a that by (cases m') (auto dest: reads_backD)
  show "S_Slice m = m' \<and> r = r'" if "sym_string (S_Slice m) @ r = sym_string m' @ r'"
    using assms a that by (cases m') (auto dest: reads_backD)
  show "S_Ref b m = m' \<and> r = r'" if "sym_string (S_Ref b m) @ r = sym_string m' @ r'"
    using assms a that by (cases m') (auto dest: reads_backD split: if_splits)
  show "S_RawPtr b m = m' \<and> r = r'" if "sym_string (S_RawPtr b m) @ r = sym_string m' @ r'"
    using assms a that by (cases m') (auto dest: reads_backD split: if_splits)
qed

lemma reads_back_named:
  assumes as: "\<forall>m \<in> set as. reads_back m"
  shows "reads_back (S_Tuple as)" "reads_back (S_Adt s as)" "reads_back (S_Class s as)" "reads_back (S_Interface s as)"
proof (rule_tac [!] reads_backI)
  fix m' r r' assume a: "sym_ok m'" "no_digit r" "no_digit r'"
  show "S_Tuple as = m' \<and> r = r'" if e: "sym_string (S_Tuple as) @ r = sym_string m' @ r'"
  proof -
    obtain as' where m': "m' = S_Tuple as'" using a(1) e by (cases m') auto
    from counted_read_back [OF _ as, of r as' r'] a e m' show ?thesis by simp
  qed
  show "S_Adt s as = m' \<and> r = r'" if e: "sym_string (S_Adt s as) @ r = sym_string m' @ r'"
  proof -
    obtain s' as' where m': "m' = S_Adt s' as'" using a(1) e by (cases m') auto
    from named_read_back [OF _ as, of s r s' as' r'] a e m' show ?thesis by simp
  qed
  show "S_Class s as = m' \<and> r = r'" if e: "sym_string (S_Class s as) @ r = sym_string m' @ r'"
  proof -
    obtain s' as' where m': "m' = S_Class s' as'" using a(1) e by (cases m') auto
    from named_read_back [OF _ as, of s r s' as' r'] a e m' show ?thesis by simp
  qed
  show "S_Interface s as = m' \<and> r = r'" if e: "sym_string (S_Interface s as) @ r = sym_string m' @ r'"
  proof -
    obtain s' as' where m': "m' = S_Interface s' as'" using a(1) e by (cases m') auto
    from named_read_back [OF _ as, of s r s' as' r'] a e m' show ?thesis by simp
  qed
qed

lemma sym_string_reads_back: "sym_ok m \<Longrightarrow> reads_back m"
proof (induction m)
  case (S_Fn ps q)
  have ps: "\<forall>m \<in> set ps. reads_back m" and q: "reads_back q" using S_Fn by (auto simp: list_all_iff)
  show ?case
  proof (rule reads_backI)
    fix m' r r' assume a: "sym_ok m'" "no_digit r" "no_digit r'" "sym_string (S_Fn ps q) @ r = sym_string m' @ r'"
    then obtain ps' q' where m': "m' = S_Fn ps' q'" by (cases m') auto
    have e: "string_of_nat (length ps) @ sym_args (map sym_string ps) @ ''_R_'' @ sym_string q @ r
      = string_of_nat (length ps') @ sym_args (map sym_string ps') @ ''_R_'' @ sym_string q' @ r'" using a(4) m' by simp
    have "ps = ps' \<and> ''_R_'' @ sym_string q @ r = ''_R_'' @ sym_string q' @ r'"
      by (rule counted_read_back [OF e ps]) (use a m' in simp_all)
    with reads_backD [OF q, of r q' r'] a m' show "S_Fn ps q = m' \<and> r = r'" by simp
  qed
next
  case (S_Array n m)
  show ?case
  proof (rule reads_backI)
    fix m' r r' assume a: "sym_ok m'" "no_digit r" "no_digit r'" "sym_string (S_Array n m) @ r = sym_string m' @ r'"
    then obtain n' k where m': "m' = S_Array n' k" by (cases m') auto
    have "n = n' \<and> CHR ''_'' # sym_string m @ r = CHR ''_'' # sym_string k @ r'" by (rule number_inj) (use a m' in simp_all)
    with reads_backD [of m r k r'] S_Array a m' show "S_Array n m = m' \<and> r = r'" by simp
  qed
next
  case (S_Projection m s)
  show ?case
  proof (rule reads_backI)
    fix m' r r' assume a: "sym_ok m'" "no_digit r" "no_digit r'" "sym_string (S_Projection m s) @ r = sym_string m' @ r'"
    then obtain k s' where m': "m' = S_Projection k s'" by (cases m') auto
    have "m = k \<and> ''_A'' @ string_of_nat (length s) @ ''_'' @ s @ r = ''_A'' @ string_of_nat (length s') @ ''_'' @ s' @ r'"
      by (rule reads_backD) (use S_Projection a m' in simp_all)
    with name_read_back [of s r s' r'] m' show "S_Projection m s = m' \<and> r = r'" by simp
  qed
next
  case (S_Atom c) then show ?case by (intro reads_back_atom) simp
qed (auto simp: list_all_iff intro!: reads_back_number reads_back_unary reads_back_named)

lemma sym_string_inj: "sym_ok m \<Longrightarrow> sym_ok m' \<Longrightarrow> sym_string m = sym_string m' \<Longrightarrow> m = m'"
  using reads_backD [OF sym_string_reads_back, of m "[]" m' "[]"] by simp

section \<open>Properties of symbols\<close>

lemma split_at_dollar:
  assumes "n @ CHR ''$'' # r = n' @ CHR ''$'' # r'" and "CHR ''$'' \<notin> set n" and "CHR ''$'' \<notin> set n'"
  shows "n = n' \<and> r = r'"
proof -
  have "takeWhile (\<lambda>c. c \<noteq> CHR ''$'') (k @ CHR ''$'' # q) = k" if "CHR ''$'' \<notin> set k" for k q using that by (induction k) auto
  with assms have "n = n'" by metis
  with assms(1) show ?thesis by simp
qed

text \<open>
  The names the type checker mangles: a name of the source, which has no dollar sign, or the name of an extension, to
  which it appends \<open>$extension\<close>.
\<close>

definition backend_base :: "string \<Rightarrow> bool" where
  "backend_base name \<longleftrightarrow> (\<exists>n. CHR ''$'' \<notin> set n \<and> (name = n \<or> name = n @ ''$extension''))"

lemma split_at_signature:
  assumes e: "name @ CHR ''$'' # CHR ''P'' # r = name' @ CHR ''$'' # CHR ''P'' # r'" and b: "backend_base name" "backend_base name'"
  shows "name = name' \<and> r = r'"
proof -
  obtain n where n: "CHR ''$'' \<notin> set n" "name = n \<or> name = n @ ''$extension''" using b(1) unfolding backend_base_def by blast
  obtain n' where n': "CHR ''$'' \<notin> set n'" "name' = n' \<or> name' = n' @ ''$extension''" using b(2) unfolding backend_base_def by blast
  let ?x = "\<lambda>m k. if m = k then ''P'' else ''extension$P''"
  have "n @ CHR ''$'' # ?x name n @ r = n' @ CHR ''$'' # ?x name' n' @ r'" using e n(2) n'(2) by auto
  from split_at_dollar [OF this n(1) n'(1)] show ?thesis using n(2) n'(2) by (auto split: if_splits)
qed

text \<open>
  Property C20 (type).  The symbols of two functions, whose names have no dollar sign or are such a name followed by
  \<open>$extension\<close>, are equal exactly when the names are and the parameter and return types have the same structure up to what
  the mangling leaves out.
\<close>

theorem signature_symbols_unique:
  assumes "backend_base name" and "backend_base name'"
  shows "mangleFunctionSignature D name params ret = mangleFunctionSignature D name' params' ret'
    \<longleftrightarrow> name = name' \<and> map (sym_of D) params = map (sym_of D) params' \<and> sym_of D ret = sym_of D ret'"
proof
  let ?ms = "map (sym_of D) params" and ?ms' = "map (sym_of D) params'"
  have m: "mangle_args (map (mangleType D) ps) = string_of_nat (length (map (sym_of D) ps)) @ sym_args (map sym_string (map (sym_of D) ps))" for ps
    by (simp add: mangle_args_def sym_args_def mangle_sym comp_def)
  assume "mangleFunctionSignature D name params ret = mangleFunctionSignature D name' params' ret'"
  then have "name @ CHR ''$'' # CHR ''P'' # mangle_args (map (mangleType D) params) @ ''$R_'' @ mangleType D ret
      = name' @ CHR ''$'' # CHR ''P'' # mangle_args (map (mangleType D) params') @ ''$R_'' @ mangleType D ret'"
    by (simp add: mangleFunctionSignature_def)
  from split_at_signature [OF this assms] have n: "name = name'" and e:
    "string_of_nat (length ?ms) @ sym_args (map sym_string ?ms) @ ''$R_'' @ mangleType D ret
      = string_of_nat (length ?ms') @ sym_args (map sym_string ?ms') @ ''$R_'' @ mangleType D ret'" unfolding m by simp_all
  have "?ms = ?ms' \<and> ''$R_'' @ mangleType D ret = ''$R_'' @ mangleType D ret'"
    by (rule counted_read_back [OF e]) (auto simp: sym_of_ok sym_string_reads_back list_all_iff)
  with n show "name = name' \<and> ?ms = ?ms' \<and> sym_of D ret = sym_of D ret'"
    using sym_string_inj [OF sym_of_ok(1) sym_of_ok(1), of D ret D ret'] by (simp add: mangle_sym)
next
  assume a: "name = name' \<and> map (sym_of D) params = map (sym_of D) params' \<and> sym_of D ret = sym_of D ret'"
  then have "map (mangleType D) params = map (mangleType D) params'" unfolding mangle_sym by (metis (no_types, lifting) map_map comp_apply map_eq_conv)
  with a show "mangleFunctionSignature D name params ret = mangleFunctionSignature D name' params' ret'"
    by (simp add: mangleFunctionSignature_def mangle_sym)
qed

definition no_defs :: def_store where
  "no_defs = \<lparr>ds_adts = (\<lambda>_. \<lparr>ad_name = [], ad_params = []\<rparr>),
     ds_classes = (\<lambda>d. \<lparr>cd_name = ''Box'', cd_params = [''T''], cd_fields = [], cd_variants = [], cd_methods = [], cd_vtable = [],
       cd_superName = None, cd_superDef = None, cd_interfaceNames = [], cd_itables = [], cd_isOpen = False, cd_isAbstract = False,
       cd_isData = False, cd_isEnum = False, cd_totalFieldSize = 0, cd_typeId = d\<rparr>),
     ds_interfaces = (\<lambda>_. \<lparr>if_name = [], if_params = [], if_methods = [], if_superNames = [], if_typeId = 0\<rparr>)\<rparr>"

theorem signature_symbols_unique_witness:
  "mangleFunctionSignature no_defs ''put$extension'' [Ty (TyClass 0 [mkInt]) False] mkUnit
     \<noteq> mangleFunctionSignature no_defs ''put'' [Ty (TyClass 0 [mkInt]) False] mkUnit
   \<and> mangleFunctionSignature no_defs ''put'' [Ty (TyClass 0 [mkInt]) False] mkUnit
     \<noteq> mangleFunctionSignature no_defs ''put'' [Ty (TyClass 0 [mkLong]) False] mkUnit"
proof -
  have n: "backend_base ''put''" unfolding backend_base_def by (rule exI [of _ "''put''"]) simp
  have x: "backend_base ''put$extension''" unfolding backend_base_def by (rule exI [of _ "''put''"]) simp
  show ?thesis unfolding signature_symbols_unique [OF x n] signature_symbols_unique [OF n n]
    by (simp add: mkInt_def mkLong_def mkUnit_def)
qed

section \<open>Substitution\<close>

fun params_of :: "ty \<Rightarrow> string set" and node_params :: "ty_node \<Rightarrow> string set" where
  "params_of TyNullPtr = {}"
| "params_of (Ty n nul) = node_params n"
| "node_params (TyFn params ret _ _ _) = \<Union> (set (map params_of params)) \<union> params_of ret"
| "node_params (TyTuple elems) = \<Union> (set (map params_of elems))"
| "node_params (TyArray elem _) = params_of elem"
| "node_params (TySlice elem) = params_of elem"
| "node_params (TyRef _ elem) = params_of elem"
| "node_params (TyRawPtr _ elem) = params_of elem"
| "node_params (TyAdt _ args) = \<Union> (set (map params_of args))"
| "node_params (TyClass _ args) = \<Union> (set (map params_of args))"
| "node_params (TyInterface _ args) = \<Union> (set (map params_of args))"
| "node_params (TyParam name _) = {name}"
| "node_params (TyProjection base _) = params_of base"
| "node_params _ = {}"

fun proj_free :: "ty \<Rightarrow> bool" and node_proj_free :: "ty_node \<Rightarrow> bool" where
  "proj_free TyNullPtr = True"
| "proj_free (Ty n nul) = node_proj_free n"
| "node_proj_free (TyFn params ret _ _ _) \<longleftrightarrow> list_all proj_free params \<and> proj_free ret"
| "node_proj_free (TyTuple elems) = list_all proj_free elems"
| "node_proj_free (TyArray elem _) = proj_free elem"
| "node_proj_free (TySlice elem) = proj_free elem"
| "node_proj_free (TyRef _ elem) = proj_free elem"
| "node_proj_free (TyRawPtr _ elem) = proj_free elem"
| "node_proj_free (TyAdt _ args) = list_all proj_free args"
| "node_proj_free (TyClass _ args) = list_all proj_free args"
| "node_proj_free (TyInterface _ args) = list_all proj_free args"
| "node_proj_free (TyProjection _ _) = False"
| "node_proj_free _ = True"

definition subst_params :: "ty_subst \<Rightarrow> string set \<Rightarrow> string set" where
  "subst_params s P = (P - dom s) \<union> (\<Union>p \<in> P. case s p of None \<Rightarrow> {} | Some v \<Rightarrow> params_of v)"

lemma subst_params_simps [simp]:
  "subst_params s {} = {}" "subst_params s (A \<union> B) = subst_params s A \<union> subst_params s B"
  "subst_params s (\<Union> C) = \<Union> (subst_params s ` C)"
  by (auto simp: subst_params_def)

definition subst_post :: "ty_subst \<Rightarrow> string set \<Rightarrow> bool \<Rightarrow> ty_node \<Rightarrow> ty option \<Rightarrow> bool" where
  "subst_post s P nul n r \<longleftrightarrow> (\<exists>m mnul. r = Some (Ty m mnul) \<and> node_params m = subst_params s P \<and> (P \<inter> dom s = {} \<longrightarrow> m = n \<and> (mnul \<longrightarrow> nul)))"

lemma all_some_ex:
  assumes "\<forall>x \<in> set xs. \<exists>y. f x = Some y \<and> Q x y"
  shows "\<exists>ys. all_some (map f xs) = Some ys \<and> list_all2 Q xs ys"
  using assms by (induction xs) auto

lemma all_some_subst:
  assumes "\<forall>t \<in> set ts. \<exists>u. substituteType s t = Some u \<and> params_of u = subst_params s (params_of t) \<and> (params_of t \<inter> dom s = {} \<longrightarrow> u = t)"
  obtains us where "all_some (map (substituteType s) ts) = Some us" "\<Union> (params_of ` set us) = subst_params s (\<Union> (params_of ` set ts))"
    "\<Union> (params_of ` set ts) \<inter> dom s = {} \<Longrightarrow> us = ts"
proof -
  from all_some_ex [OF assms] obtain us where us: "all_some (map (substituteType s) ts) = Some us"
    "list_all2 (\<lambda>t u. params_of u = subst_params s (params_of t) \<and> (params_of t \<inter> dom s = {} \<longrightarrow> u = t)) ts us" by blast
  from us(2) have "\<Union> (params_of ` set us) = subst_params s (\<Union> (params_of ` set ts)) \<and> (\<Union> (params_of ` set ts) \<inter> dom s = {} \<longrightarrow> us = ts)"
    by (induction rule: list_all2_induct) auto
  with us(1) that show thesis by blast
qed

lemma subst_post_list:
  assumes "\<And>t. t \<in> set ts \<Longrightarrow> proj_free t \<Longrightarrow> \<exists>u. substituteType s t = Some u \<and> params_of u = subst_params s (params_of t) \<and> (params_of t \<inter> dom s = {} \<longrightarrow> u = t)"
    and "list_all proj_free ts" and "\<And>us. node_params (c us) = \<Union> (params_of ` set us)"
    and "\<And>nul. subst_node s nul (c ts) = map_option (\<lambda>us. Ty (c us) False) (all_some (map (substituteType s) ts))"
  shows "subst_post s (node_params (c ts)) nul (c ts) (subst_node s nul (c ts))"
proof -
  have "\<forall>t \<in> set ts. \<exists>u. substituteType s t = Some u \<and> params_of u = subst_params s (params_of t) \<and> (params_of t \<inter> dom s = {} \<longrightarrow> u = t)"
    using assms(1,2) by (auto simp: list_all_iff)
  then obtain us where us: "all_some (map (substituteType s) ts) = Some us" "\<Union> (params_of ` set us) = subst_params s (\<Union> (params_of ` set ts))"
    "\<Union> (params_of ` set ts) \<inter> dom s = {} \<Longrightarrow> us = ts" by (rule all_some_subst) blast
  show ?thesis unfolding subst_post_def assms(3,4) us(1)
    by (rule exI [of _ "c us"], rule exI [of _ False]) (use us(2,3) assms(3) in simp)
qed

lemma subst_post_unary:
  assumes "\<exists>u. substituteType s t = Some u \<and> params_of u = subst_params s (params_of t) \<and> (params_of t \<inter> dom s = {} \<longrightarrow> u = t)"
    and "\<And>u. node_params (c u) = params_of u" and "\<And>nul. subst_node s nul (c t) = map_option (\<lambda>u. Ty (c u) False) (substituteType s t)"
  shows "subst_post s (node_params (c t)) nul (c t) (subst_node s nul (c t))"
proof -
  from assms(1) obtain u where u: "substituteType s t = Some u" "params_of u = subst_params s (params_of t)" "params_of t \<inter> dom s = {} \<longrightarrow> u = t" by blast
  show ?thesis unfolding subst_post_def assms(2,3) u(1)
    by (rule exI [of _ "c u"], rule exI [of _ False]) (use u(2,3) assms(2) in simp)
qed

lemma subst_post_param:
  assumes "\<And>p v. s p = Some v \<Longrightarrow> v \<noteq> TyNullPtr"
  shows "subst_post s {name} nul (TyParam name idx) (subst_node s nul (TyParam name idx))"
proof (cases "s name")
  case None
  then show ?thesis by (auto simp: subst_post_def subst_params_def)
next
  case (Some v)
  with assms [OF Some] obtain m mnul where v: "v = Ty m mnul" by (cases v) auto
  have "subst_params s {name} = node_params m" using Some v by (auto simp: subst_params_def)
  with Some v show ?thesis by (auto simp: subst_post_def makeNullable_def dom_def)
qed

lemma substituteType_ok:
  assumes null: "\<And>p v. s p = Some v \<Longrightarrow> v \<noteq> TyNullPtr"
  shows "proj_free t \<Longrightarrow> \<exists>u. substituteType s t = Some u \<and> params_of u = subst_params s (params_of t) \<and> (params_of t \<inter> dom s = {} \<longrightarrow> u = t)"
    and "node_proj_free n \<Longrightarrow> subst_post s (node_params n) nul n (subst_node s nul n)"
proof (induction t and n arbitrary: and nul)
  case (Ty n nul)
  have "subst_post s (node_params n) nul n (subst_node s nul n)" by (rule Ty.IH) (use Ty.prems in simp)
  then obtain m mnul where "subst_node s nul n = Some (Ty m mnul)" "node_params m = subst_params s (node_params n)"
    "node_params n \<inter> dom s = {} \<longrightarrow> m = n \<and> (mnul \<longrightarrow> nul)" unfolding subst_post_def by blast
  then show ?case by auto
next
  case (TyFn ps r ns vi ki)
  have "\<forall>t \<in> set ps. \<exists>u. substituteType s t = Some u \<and> params_of u = subst_params s (params_of t) \<and> (params_of t \<inter> dom s = {} \<longrightarrow> u = t)"
    using TyFn by (auto simp: list_all_iff)
  then obtain us where us: "all_some (map (substituteType s) ps) = Some us" "\<Union> (params_of ` set us) = subst_params s (\<Union> (params_of ` set ps))"
    "\<Union> (params_of ` set ps) \<inter> dom s = {} \<Longrightarrow> us = ps" by (rule all_some_subst) blast
  obtain u where u: "substituteType s r = Some u" "params_of u = subst_params s (params_of r)" "params_of r \<inter> dom s = {} \<longrightarrow> u = r"
    using TyFn by auto
  have "node_params (TyFn ps r ns vi ki) \<inter> dom s = {} \<Longrightarrow> us = ps \<and> u = r" using us(3) u(3) by (simp add: Int_Un_distrib2)
  then show ?case unfolding subst_post_def
    by (intro exI [of _ "TyFn us u ns vi ki"] exI [of _ False]) (use us(1,2) u(1,2) in simp)
next
  case (TyTuple ts)
  show ?case by (rule subst_post_list) (use TyTuple in auto)
next
  case (TyAdt d ts)
  show ?case by (rule subst_post_list) (use TyAdt in auto)
next
  case (TyClass d ts)
  show ?case by (rule subst_post_list) (use TyClass in auto)
next
  case (TyInterface d ts)
  show ?case by (rule subst_post_list) (use TyInterface in auto)
next
  case (TyArray t len)
  show ?case by (rule subst_post_unary) (use TyArray in auto)
next
  case (TySlice t)
  show ?case by (rule subst_post_unary) (use TySlice in auto)
next
  case (TyRef b t)
  show ?case by (rule subst_post_unary) (use TyRef in auto)
next
  case (TyRawPtr b t)
  show ?case by (rule subst_post_unary) (use TyRawPtr in auto)
next
  case (TyParam name idx)
  show ?case using subst_post_param [OF null] by simp
qed (auto simp: subst_post_def)

text \<open>
  Property C21 (type).  Substitution is defined on every type without projections as long as no
  parameter is bound to a null pointer, and the parameters that occur in the result are exactly the
  unbound ones of the type and those of the types put in; a type in which no bound parameter occurs
  is left as it is.
\<close>

theorem substituteType_params:
  assumes "proj_free t" and "TyNullPtr \<notin> ran s"
  shows "\<exists>u. substituteType s t = Some u
    \<and> params_of u = (params_of t - dom s) \<union> (\<Union>p \<in> params_of t. case s p of None \<Rightarrow> {} | Some v \<Rightarrow> params_of v)
    \<and> (params_of t \<inter> dom s = {} \<longrightarrow> u = t)"
proof -
  have "v \<noteq> TyNullPtr" if "s p = Some v" for p v using assms(2) that by (auto simp: ran_def)
  from substituteType_ok(1) [OF this assms(1)] show ?thesis unfolding subst_params_def .
qed

theorem substituteType_params_witness:
  "\<exists>u. substituteType (typeArgSubstMap no_defs (Ty (TyClass 0 [mkInt]) False))
        (Ty (TyFn [Ty (TyParam ''T'' 0) True] (Ty (TyParam ''U'' 1) False) [] None None) False) = Some u \<and> params_of u = {''U''}"
proof -
  have s: "typeArgSubstMap no_defs (Ty (TyClass 0 [mkInt]) False) = [''T'' \<mapsto> mkInt]"
    by (simp add: typeArgSubstMap_def no_defs_def makeSubstMap_def)
  let ?t = "Ty (TyFn [Ty (TyParam ''T'' 0) True] (Ty (TyParam ''U'' 1) False) [] None None) False"
  have "proj_free ?t" "TyNullPtr \<notin> ran [''T'' \<mapsto> mkInt]" by (auto simp: mkInt_def)
  from substituteType_params [OF this] obtain u where "substituteType [''T'' \<mapsto> mkInt] ?t = Some u"
    and u: "params_of u = (params_of ?t - dom [''T'' \<mapsto> mkInt]) \<union> (\<Union>p \<in> params_of ?t. case [''T'' \<mapsto> mkInt] p of None \<Rightarrow> {} | Some v \<Rightarrow> params_of v)" by blast
  moreover from u have "params_of u = {''U''}" by (auto simp: mkInt_def)
  ultimately show ?thesis unfolding s by blast
qed

end
