(* ===== verification/Lx_MIR.thy ===== *)
theory Lx_MIR
  imports Lx_Ty Lx_Bytecode Lx_Token
begin

text \<open>
  The intermediate representation of the compiler (\<open>v2/mir/MIR.hpp\<close>, with the classes of
  \<open>v2/backend/Lowering.hpp\<close>) and the generation of bytecode from it (\<open>v2/backend/MIRCompiler.cpp\<close>).
  A \<open>double\<close> is the signed value of its bits, a \<open>char\<close> its signed value.  An exception is \<open>Inl\<close>, with
  \<open>MC_Undefined\<close> for an index past the end of \<open>locals\<close>, which C++ leaves undefined.
\<close>

section \<open>The intermediate representation\<close>

type_synonym local_id = nat
type_synonym block_id = nat

datatype (plugins only: code size) mir_binop =
    BinAdd | BinSub | BinMul | BinDiv | BinRem | BinShl | BinShr | BinBitAnd | BinBitOr | BinBitXor
  | BinAnd | BinOr | BinEq | BinNe | BinLt | BinLe | BinGt | BinGe

datatype (plugins only: code size) mir_unop = UnNeg | UnNot | UnDeref | UnRef | UnRefMut | UnToStr

datatype (plugins only: code size) mir_const = CI64 int | CU64 nat | CDouble int | CBool bool | CChar int | CStr string | CMono

datatype (plugins only: code size) mir_operand = OpCopy local_id | OpMove local_id | OpConst mir_const | OpLabel string

datatype (plugins only: code size) aggregate_kind = AggTuple | AggArray | AggAdt

datatype (plugins only: code size) rvalue =
    RvUse mir_operand
  | RvRef bool local_id
  | RvPtr bool local_id
  | RvBinary mir_binop mir_operand mir_operand
  | RvUnary mir_unop mir_operand
  | RvCast mir_operand ty
  | RvAggregate aggregate_kind nat "mir_operand list"
  | RvField local_id nat
  | RvHStore nat mir_operand
  | RvIndex local_id mir_operand
  | RvIndexStore mir_operand mir_operand
  | RvLen local_id
  | RvDiscriminant local_id
  | RvAlloc nat nat
  | RvClosure string nat "mir_operand list"
  | RvClosureGet local_id nat
  | RvClosureSet nat mir_operand
  | RvVTableSlot local_id nat
  | RvTypeId local_id
  | RvIsCheck local_id nat
  | RvGlobalLoad nat
  | RvGlobalStore nat mir_operand

datatype (plugins only: code size) terminator =
    TmGoto block_id
  | TmSwitchInt mir_operand "(int \<times> block_id) list" block_id
  | TmSwitchDiscr local_id "block_id list" block_id
  | TmReturn
  | TmCall mir_operand "mir_operand list" local_id block_id
  | TmCallIndirect mir_operand "mir_operand list" local_id block_id
  | TmClosureCall mir_operand "mir_operand list" local_id block_id
  | TmCheckNull mir_operand block_id block_id
  | TmUnreachable
  | TmVirtualCall local_id nat "mir_operand list" local_id block_id
  | TmInterfaceCall local_id nat nat "mir_operand list" local_id block_id

datatype (plugins only: code size) statement =
    StAssign local_id rvalue
  | StStorageLive local_id
  | StStorageDead local_id
  | StSetDiscriminant local_id nat
  | StDrop local_id
  | StPush local_id
  | StPop local_id
  | StGlobalStore nat mir_operand
  | StTryPush block_id local_id
  | StTryPop
  | StThrow mir_operand

record basic_block =
  bb_stmts :: "(statement \<times> source_location) list"
  bb_term :: "terminator \<times> source_location"

record local_decl =
  ld_ty :: ty
  ld_name :: string
  ld_mut :: bool

record mir_body =
  mb_locals :: "local_decl list"
  mb_blocks :: "basic_block list"
  mb_name :: string
  mb_ret_ty :: ty
  mb_paramCount :: nat

record lowered_class =
  lc_name :: string
  lc_typeId :: nat
  lc_parentTypeId :: nat
  lc_vtableEntryCount :: nat
  lc_vtableMethodNames :: "string list"
  lc_itables :: "itable_map list"

record lowered_global_init =
  lg_slot :: nat
  lg_initLabel :: string

record lowering_output =
  lo_bodies :: "mir_body list"
  lo_classes :: "lowered_class list"
  lo_globalInitializers :: "lowered_global_init list"

section \<open>Native builtins\<close>

text \<open>Name and system call number (\<open>v2/NativeBuiltins.hpp\<close>).\<close>

definition nativeBuiltins :: "(string \<times> int) list" where
  "nativeBuiltins =
     [(''nativeFileExists'', 44), (''nativeTryReadText'', 45), (''nativeIoError'', 46), (''nativeIsDirectory'', 47),
      (''nativeCreateDirectories'', 48), (''nativeRemoveDirectory'', 49), (''nativePathJoin'', 50), (''nativePathNormalize'', 51),
      (''nativePathParent'', 52), (''nativePathName'', 53), (''nativePathExtension'', 54), (''nativeCurrentDirectory'', 55),
      (''nativeListDirectory'', 56), (''nativeDirectoryEntry'', 57), (''nativeEnvironment'', 60), (''nativeArgumentCount'', 61),
      (''nativeArgument'', 62), (''nativeUnixMillis'', 63), (''nativeMonotonicNanos'', 64), (''nativeSqrt'', 70), (''nativeFloor'', 71),
      (''nativeCeil'', 72), (''nativeRound'', 73), (''nativeSin'', 74), (''nativeCos'', 75), (''nativeLog'', 76), (''nativeExp'', 77),
      (''nativePow'', 78), (''nativeIsFinite'', 79), (''nativeDoubleString'', 80), (''nativeParseDouble'', 81), (''nativeValidDouble'', 82),
      (''nativeTcpConnect'', 83), (''nativeTcpBind'', 84), (''nativeTcpAccept'', 85), (''nativeSocketRead'', 86), (''nativeSocketWrite'', 87),
      (''nativeSocketClose'', 88), (''nativeNetError'', 89), (''nativeSocketLocalPort'', 90)]"

definition findNativeBuiltin :: "string \<Rightarrow> int option" where
  "findNativeBuiltin name = map_of nativeBuiltins name"

section \<open>The compiler state\<close>

datatype (plugins only: code size) mc_error = MC_Throws string | MC_Undefined

record mir_compiler =
  mc_chunk :: chunk
  mc_patches :: "(nat \<times> string) list"
  mc_labelOffsets :: "string \<rightharpoonup> nat"
  mc_classes :: "lowered_class list"
  mc_currentBody :: "mir_body option"
  mc_cmpLabelId :: nat
  mc_notLabelId :: nat

type_synonym mc_step = "mir_compiler \<Rightarrow> mc_error + mir_compiler"

text \<open>Steps one after the other; an exception ends them.\<close>

fun mc_seq :: "mc_step list \<Rightarrow> mc_step" where
  "mc_seq [] st = Inr st"
| "mc_seq (f # fs) st = (case f st of Inl e \<Rightarrow> Inl e | Inr st' \<Rightarrow> mc_seq fs st')"

definition throw_mc :: "string \<Rightarrow> mc_step" where
  "throw_mc msg st = Inl (MC_Throws msg)"

text \<open>
  An instruction is emitted as its opcode byte and its operands, with \<open>emitReg\<close>, \<open>emitImm\<close>, \<open>emitAddr\<close>
  or, for the constants of \<open>emitOperandToReg\<close>, a tag and a payload.
\<close>

datatype (plugins only: code size) mc_arg = Reg nat | Imm int | Addr string | FloatBits int | NullArg | StrIdx nat

definition emit_arg :: "mc_arg \<Rightarrow> mir_compiler \<Rightarrow> mir_compiler" where
  "emit_arg a st =
     (case a of
        Reg r \<Rightarrow> st\<lparr>mc_chunk := emitReg r (mc_chunk st)\<rparr>
      | Imm v \<Rightarrow> st\<lparr>mc_chunk := emitImm v (mc_chunk st)\<rparr>
      | Addr l \<Rightarrow> (case emitAddr l (mc_patches st, mc_chunk st) of (ps, c) \<Rightarrow> st\<lparr>mc_patches := ps, mc_chunk := c\<rparr>)
      | FloatBits v \<Rightarrow> st\<lparr>mc_chunk := emitI64 v (emitByte (tag_byte TFloat64) (mc_chunk st))\<rparr>
      | NullArg \<Rightarrow> st\<lparr>mc_chunk := emitByte (tag_byte TNull) (mc_chunk st)\<rparr>
      | StrIdx i \<Rightarrow> st\<lparr>mc_chunk := emitU32 i (emitByte (tag_byte TStrIdx) (mc_chunk st))\<rparr>)"

definition ins :: "opcode \<Rightarrow> mc_arg list \<Rightarrow> mc_step" where
  "ins op args st = Inr (fold emit_arg args (st\<lparr>mc_chunk := emitByte (opcode_byte op) (mc_chunk st)\<rparr>))"

definition here :: "mir_compiler \<Rightarrow> nat" where
  "here st = u32_cast (offset (mc_chunk st))"

definition set_label :: "string \<Rightarrow> mc_step" where
  "set_label l st = Inr (st\<lparr>mc_labelOffsets := (mc_labelOffsets st)(l \<mapsto> here st)\<rparr>)"

definition blockLabel :: "string \<Rightarrow> block_id \<Rightarrow> string" where
  "blockLabel prefix i = prefix @ ''_b'' @ string_of_nat i"

definition localToReg :: "mir_body \<Rightarrow> local_id \<Rightarrow> mc_error + nat" where
  "localToReg body lid =
     (if lid = 0 then Inr 0
      else if lid \<ge> 4064 then Inl (MC_Throws (''too many VM locals in '' @ mb_name body))
      else let reg = u16_cast (lid + 15) in Inr (if reg < 240 then reg else u16_cast (reg + 16)))"

text \<open>Continue with the register of a local of the current body.\<close>

definition with_local :: "local_id \<Rightarrow> (nat \<Rightarrow> mc_step) \<Rightarrow> mc_step" where
  "with_local lid k st =
     (case mc_currentBody st of
        None \<Rightarrow> Inl MC_Undefined
      | Some body \<Rightarrow> (case localToReg body lid of Inl e \<Rightarrow> Inl e | Inr r \<Rightarrow> k r st))"

text \<open>The text of a file read line by line, each without its line end (\<open>readFile\<close> gives the text; an empty one if it cannot be opened).\<close>

definition strip_cr :: "string \<Rightarrow> string" where
  "strip_cr l = (if l \<noteq> [] \<and> last l = char_of (13::nat) then butlast l else l)"

function source_lines :: "string \<Rightarrow> string list" where
  "source_lines s =
     (if s = [] then []
      else strip_cr (takeWhile (\<lambda>c. c \<noteq> char_of (10::nat)) s) # source_lines (drop 1 (dropWhile (\<lambda>c. c \<noteq> char_of (10::nat)) s)))"
  by auto

termination
proof (relation "measure length")
  fix s :: string assume "s \<noteq> []"
  then show "(drop 1 (dropWhile (\<lambda>c. c \<noteq> char_of (10::nat)) s), s) \<in> measure length"
    using length_dropWhile_le [of "\<lambda>c. c \<noteq> char_of (10::nat)" s] by (cases s) (auto simp: less_Suc_eq_le intro: le_trans [OF diff_le_self])
qed simp

declare source_lines.simps [simp del]

definition recordSource :: "(string \<Rightarrow> string) \<Rightarrow> source_location \<Rightarrow> mc_step" where
  "recordSource readFile loc st =
     (if sl_file loc = [] \<or> sl_line loc = 0 then Inr st
      else let c = mc_chunk st; off = here st;
               entry = \<lparr>se_offset = off, se_file = sl_file loc, se_line = sl_line loc, se_col = sl_col loc\<rparr>;
               sm = (if ch_sourceMap c \<noteq> [] \<and> se_offset (last (ch_sourceMap c)) = off
                     then butlast (ch_sourceMap c) @ [entry] else ch_sourceMap c @ [entry]);
               c1 = c\<lparr>ch_sourceMap := sm\<rparr> in
        Inr (st\<lparr>mc_chunk := (if ch_sourceLines c1 (sl_file loc) \<noteq> None then c1
                else c1\<lparr>ch_sourceLines := (ch_sourceLines c1)(sl_file loc \<mapsto> source_lines (readFile (sl_file loc)))\<rparr>)\<rparr>))"

section \<open>Operands and arguments\<close>

definition emitOperandToReg :: "mir_operand \<Rightarrow> nat \<Rightarrow> mc_step" where
  "emitOperandToReg op reg =
     (case op of
        OpConst c \<Rightarrow>
          (case c of
             CI64 v \<Rightarrow> ins OpPush [Reg reg, Imm v]
           | CU64 v \<Rightarrow> ins OpPush [Reg reg, Imm (u64_to_i64 v)]
           | CDouble bits \<Rightarrow> ins OpPush [Reg reg, FloatBits bits]
           | CMono \<Rightarrow> ins OpPush [Reg reg, NullArg]
           | CBool b \<Rightarrow> ins OpPush [Reg reg, Imm (if b then 1 else 0)]
           | CChar v \<Rightarrow> ins OpPush [Reg reg, Imm v]
           | CStr s \<Rightarrow> (\<lambda>st. case internString s (mc_chunk st) of (i, c) \<Rightarrow> ins OpPush [Reg reg, StrIdx i] (st\<lparr>mc_chunk := c\<rparr>)))
      | OpLabel l \<Rightarrow> ins OpPush [Reg reg, Addr l]
      | OpCopy lid \<Rightarrow> with_local lid (\<lambda>src. if src \<noteq> reg then ins OpMov [Reg reg, Reg src] else Inr)
      | OpMove lid \<Rightarrow> with_local lid (\<lambda>src. if src \<noteq> reg then ins OpMov [Reg reg, Reg src] else Inr))"

text \<open>Operands into the staging registers from 240 on, and these into the argument registers.\<close>

definition stage_args :: "mir_operand list \<Rightarrow> mc_step" where
  "stage_args ops = mc_seq (map (\<lambda>i. emitOperandToReg (ops ! i) (u16_cast (240 + i))) [0..<length ops])"

definition move_args :: "nat \<Rightarrow> mc_step" where
  "move_args n = mc_seq (map (\<lambda>i. ins OpMov [Reg (u16_cast (i + 1)), Reg (u16_cast (240 + i))]) [0..<n])"

definition emitArguments :: "mir_operand list \<Rightarrow> mc_step" where
  "emitArguments args =
     (if length args > 10 then throw_mc ''call exceeds VM argument capacity''
      else mc_seq [stage_args args, move_args (length args)])"

section \<open>Right-hand sides\<close>

definition is_float_ty :: "ty \<Rightarrow> bool" where
  "is_float_ty t \<longleftrightarrow> kind t = Some K_Float \<or> kind t = Some K_Double"

definition is_int_ty :: "ty \<Rightarrow> bool" where
  "is_int_ty t \<longleftrightarrow> kind t = Some K_Int \<or> kind t = Some K_Long"

definition local_ty :: "local_id \<Rightarrow> mir_compiler \<Rightarrow> ty" where
  "local_ty lid st =
     (case mc_currentBody st of
        None \<Rightarrow> TyNullPtr
      | Some body \<Rightarrow> if lid < length (mb_locals body) then ld_ty (mb_locals body ! lid) else TyNullPtr)"

definition operandNeedsItoF :: "mir_operand \<Rightarrow> mir_compiler \<Rightarrow> bool" where
  "operandNeedsItoF op st =
     (case op of
        OpCopy lid \<Rightarrow> is_int_ty (local_ty lid st)
      | OpMove lid \<Rightarrow> is_int_ty (local_ty lid st)
      | OpConst c \<Rightarrow> (case c of CI64 _ \<Rightarrow> True | CU64 _ \<Rightarrow> True | CBool _ \<Rightarrow> True | CChar _ \<Rightarrow> True | _ \<Rightarrow> False)
      | OpLabel _ \<Rightarrow> False)"

definition when_mc :: "bool \<Rightarrow> mc_step \<Rightarrow> mc_step" where
  "when_mc b f = (if b then f else Inr)"

definition float_opcode :: "mir_binop \<Rightarrow> opcode" where
  "float_opcode op = (case op of BinSub \<Rightarrow> OpFSub | BinMul \<Rightarrow> OpFMul | BinDiv \<Rightarrow> OpFDiv | _ \<Rightarrow> OpFAdd)"

text \<open>Addition takes its destination first, the other operators last.\<close>

definition emit_float_binary :: "mir_binop \<Rightarrow> mir_operand \<Rightarrow> mir_operand \<Rightarrow> nat \<Rightarrow> mc_step" where
  "emit_float_binary op l r placeReg st =
     mc_seq [when_mc (operandNeedsItoF l st) (ins OpItoF [Reg 254, Reg 254]),
             when_mc (operandNeedsItoF r st) (ins OpItoF [Reg 253, Reg 253]),
             (let fop = float_opcode op in
              if fop = OpFAdd then ins fop [Reg placeReg, Reg 254, Reg 253] else ins fop [Reg 254, Reg 253, Reg placeReg])] st"

definition binary_opcode :: "mir_binop \<Rightarrow> opcode" where
  "binary_opcode op =
     (case op of
        BinAdd \<Rightarrow> OpAdd | BinSub \<Rightarrow> OpSub | BinMul \<Rightarrow> OpMul | BinDiv \<Rightarrow> OpDiv | BinRem \<Rightarrow> OpRem
      | BinShl \<Rightarrow> OpShl | BinShr \<Rightarrow> OpShr | BinBitAnd \<Rightarrow> OpBitAnd | BinBitOr \<Rightarrow> OpBitOr | BinBitXor \<Rightarrow> OpBitXor
      | BinAnd \<Rightarrow> OpNop | BinOr \<Rightarrow> OpNop
      | BinEq \<Rightarrow> OpCmp | BinNe \<Rightarrow> OpCmp | BinLt \<Rightarrow> OpCmp | BinLe \<Rightarrow> OpCmp | BinGt \<Rightarrow> OpCmp | BinGe \<Rightarrow> OpCmp)"

text \<open>After \<open>cmp\<close>: true is assumed, and false put in its place unless the jump is taken.\<close>

definition compare_steps :: "mir_binop \<Rightarrow> nat \<Rightarrow> string \<Rightarrow> string \<Rightarrow> mc_step list" where
  "compare_steps op placeReg ce cf =
     (let set_true = ins OpPush [Reg placeReg, Imm 1];
          set_false = ins OpPush [Reg placeReg, Imm 0];
          jmp_end = ins OpJmp [Addr ce, Addr ce] in
      case op of
        BinEq \<Rightarrow> [set_true, ins OpJz [Addr ce], set_false, set_label ce]
      | BinNe \<Rightarrow> [set_true, ins OpJnz [Addr ce], set_false, set_label ce]
      | BinLt \<Rightarrow> [set_true, ins OpJn [Addr ce], set_false, set_label ce]
      | BinLe \<Rightarrow> [set_true, ins OpJz [Addr ce], ins OpJn [Addr ce], set_false, set_label ce]
      | BinGt \<Rightarrow> [set_true, ins OpJz [Addr cf], ins OpJn [Addr cf], jmp_end, set_label cf, set_false, set_label ce]
      | BinGe \<Rightarrow> [set_true, ins OpJn [Addr cf], jmp_end, set_label cf, set_false, set_label ce]
      | _ \<Rightarrow> [set_false])"

definition emit_compare :: "mir_binop \<Rightarrow> nat \<Rightarrow> mc_step" where
  "emit_compare op placeReg st =
     (let n = mc_cmpLabelId st in
      mc_seq (ins OpCmp [Reg 254, Reg 253] # compare_steps op placeReg (''_ce'' @ string_of_nat n) (''_cf'' @ string_of_nat n))
        (st\<lparr>mc_cmpLabelId := n + 1\<rparr>))"

definition emit_binary :: "local_id \<Rightarrow> mir_binop \<Rightarrow> mir_operand \<Rightarrow> mir_operand \<Rightarrow> nat \<Rightarrow> mc_step" where
  "emit_binary place op l r placeReg =
     mc_seq [emitOperandToReg l 254, emitOperandToReg r 253,
       (\<lambda>st. if is_float_ty (local_ty place st) \<and> op \<in> {BinAdd, BinSub, BinMul, BinDiv} then emit_float_binary op l r placeReg st
             else let opc = binary_opcode op in
               if opc = OpNop then throw_mc ''backend received an unsupported MIR binary operator'' st
               else if opc = OpCmp then emit_compare op placeReg st
               else if op = BinAdd then ins opc [Reg placeReg, Reg 254, Reg 253] st
               else ins opc [Reg 254, Reg 253, Reg placeReg] st)]"

definition emit_not :: "mir_operand \<Rightarrow> nat \<Rightarrow> mc_step" where
  "emit_not opnd placeReg st =
     (let n = mc_notLabelId st; lt = ''_not_true'' @ string_of_nat n; le = ''_not_end'' @ string_of_nat n in
      mc_seq [emitOperandToReg opnd 254, ins OpPush [Reg 253, Imm 0], ins OpCmp [Reg 254, Reg 253], ins OpJz [Addr lt],
              ins OpPush [Reg placeReg, Imm 0], ins OpJmp [Addr le, Addr le], set_label lt,
              ins OpPush [Reg placeReg, Imm 1], set_label le] (st\<lparr>mc_notLabelId := n + 1\<rparr>))"

definition emit_neg :: "local_id \<Rightarrow> mir_operand \<Rightarrow> nat \<Rightarrow> mc_step" where
  "emit_neg place opnd placeReg =
     mc_seq [emitOperandToReg opnd 254,
       (\<lambda>st. case mc_currentBody st of
          None \<Rightarrow> Inl MC_Undefined
        | Some body \<Rightarrow>
            if place \<ge> length (mb_locals body) then Inl MC_Undefined
            else if is_float_ty (ld_ty (mb_locals body ! place)) then ins OpFNeg [Reg 254, Reg placeReg] st
            else mc_seq [ins OpPush [Reg placeReg, Imm 0], ins OpSub [Reg placeReg, Reg 254, Reg placeReg]] st)]"

definition emit_unary :: "local_id \<Rightarrow> mir_unop \<Rightarrow> mir_operand \<Rightarrow> nat \<Rightarrow> mc_step" where
  "emit_unary place op opnd placeReg =
     (case op of
        UnNeg \<Rightarrow> emit_neg place opnd placeReg
      | UnNot \<Rightarrow> emit_not opnd placeReg
      | UnToStr \<Rightarrow> mc_seq [emitOperandToReg opnd 254, ins OpToStr [Reg 254, Reg placeReg]]
      | _ \<Rightarrow> emitOperandToReg opnd placeReg)"

definition emit_cast :: "mir_operand \<Rightarrow> ty \<Rightarrow> nat \<Rightarrow> mc_step" where
  "emit_cast op t placeReg =
     mc_seq [emitOperandToReg op 254,
       (if is_float_ty t then ins OpItoF [Reg 254, Reg placeReg]
        else if is_int_ty t then ins OpFtoI [Reg 254, Reg placeReg]
        else ins OpMov [Reg placeReg, Reg 254])]"

definition emit_closure :: "string \<Rightarrow> nat \<Rightarrow> mir_operand list \<Rightarrow> nat \<Rightarrow> mc_step" where
  "emit_closure fname envTypeId captures placeReg =
     mc_seq ([ins OpPush [Reg 249, Imm (int (u32_cast ((1 + length captures) * 9)))],
              ins OpAlloc [Imm (int envTypeId), Reg 249, Reg placeReg],
              ins OpPush [Reg 250, Addr fname],
              ins OpPush [Reg 251, Imm 0],
              ins OpHStore [Reg placeReg, Reg 251, Reg 250]] @
       map (\<lambda>i. mc_seq [ins OpPush [Reg 251, Imm (u64_to_i64 ((i + 1) * 9))], emitOperandToReg (captures ! i) 252,
                        ins OpHStore [Reg placeReg, Reg 251, Reg 252]]) [0..<length captures])"

definition emit_array :: "mir_operand list \<Rightarrow> nat \<Rightarrow> mc_step" where
  "emit_array ops placeReg =
     (let n = u32_cast (length ops) in
      mc_seq ([ins OpAlloc [Imm 0, Imm (int (u32_cast ((n + 1) * 9))), Reg placeReg],
               ins OpPush [Reg 250, Imm 0],
               ins OpPush [Reg 251, Imm (int n)],
               ins OpHStore [Reg placeReg, Reg 250, Reg 251]] @
        map (\<lambda>i. mc_seq [ins OpPush [Reg 250, Imm (int (u32_cast ((i + 1) * 9)))], emitOperandToReg (ops ! i) 251,
                         ins OpHStore [Reg placeReg, Reg 250, Reg 251]]) [0..<n]))"

text \<open>The byte offset of element \<open>idx\<close> of an array into register 251.\<close>

definition emit_index_offset :: "mir_operand \<Rightarrow> mc_step" where
  "emit_index_offset idx =
     mc_seq [emitOperandToReg idx 250, ins OpPush [Reg 252, Imm 9], ins OpMul [Reg 250, Reg 252, Reg 251],
             ins OpAdd [Reg 251, Reg 252, Reg 251]]"

definition emitRvalue_at :: "local_id \<Rightarrow> rvalue \<Rightarrow> nat \<Rightarrow> mc_step" where
  "emitRvalue_at place rv placeReg =
     (case rv of
        RvUse op \<Rightarrow> emitOperandToReg op placeReg
      | RvBinary op l r \<Rightarrow> emit_binary place op l r placeReg
      | RvUnary op opnd \<Rightarrow> emit_unary place op opnd placeReg
      | RvCast op t \<Rightarrow> emit_cast op t placeReg
      | RvRef _ lid \<Rightarrow> with_local lid (\<lambda>r. ins OpMov [Reg placeReg, Reg r])
      | RvPtr _ lid \<Rightarrow> with_local lid (\<lambda>r. ins OpMov [Reg placeReg, Reg r])
      | RvAlloc sz tid \<Rightarrow> ins OpAlloc [Imm (int tid), Imm (int sz), Reg placeReg]
      | RvClosure f tid caps \<Rightarrow> emit_closure f tid caps placeReg
      | RvClosureGet env off \<Rightarrow> with_local env (\<lambda>b. mc_seq [ins OpPush [Reg 250, Imm (int (u32_cast (off + 9)))], ins OpHLoad [Reg b, Reg 250, Reg placeReg]])
      | RvClosureSet off v \<Rightarrow> mc_seq [ins OpPush [Reg 250, Imm (int (u32_cast (off + 9)))], emitOperandToReg v 251, ins OpHStore [Reg placeReg, Reg 250, Reg 251]]
      | RvField lid field \<Rightarrow> with_local lid (\<lambda>b. mc_seq [ins OpPush [Reg 250, Imm (int field)], ins OpHLoad [Reg b, Reg 250, Reg placeReg]])
      | RvHStore off v \<Rightarrow> mc_seq [ins OpPush [Reg 250, Imm (int off)], emitOperandToReg v 251, ins OpHStore [Reg placeReg, Reg 250, Reg 251]]
      | RvAggregate k _ ops \<Rightarrow> if k = AggArray then emit_array ops placeReg else throw_mc ''backend does not implement tuple/ADT aggregates''
      | RvIndex lid idx \<Rightarrow> with_local lid (\<lambda>b. mc_seq [emit_index_offset idx, ins OpHLoad [Reg b, Reg 251, Reg placeReg]])
      | RvIndexStore idx v \<Rightarrow> mc_seq [emit_index_offset idx, emitOperandToReg v 253, ins OpHStore [Reg placeReg, Reg 251, Reg 253]]
      | RvIsCheck obj tid \<Rightarrow> with_local obj (\<lambda>r. ins OpIsA [Reg r, Imm (int tid), Reg placeReg])
      | RvGlobalLoad slot \<Rightarrow> ins OpGLoad [Imm (int slot), Reg placeReg]
      | RvGlobalStore slot v \<Rightarrow> mc_seq [emitOperandToReg v placeReg, ins OpGStore [Imm (int slot), Reg placeReg]]
      | RvTypeId obj \<Rightarrow> with_local obj (\<lambda>r. ins OpTypeOf [Reg r, Reg placeReg])
      | RvVTableSlot obj _ \<Rightarrow> with_local obj (\<lambda>r. ins OpTypeOf [Reg r, Reg placeReg])
      | _ \<Rightarrow> throw_mc ''backend received an unhandled MIR rvalue'')"

definition emitRvalue :: "local_id \<Rightarrow> rvalue \<Rightarrow> mc_step" where
  "emitRvalue place rv = with_local place (emitRvalue_at place rv)"

section \<open>Statements\<close>

definition emitStatement :: "string \<Rightarrow> statement \<Rightarrow> mc_step" where
  "emitStatement prefix s =
     (case s of
        StAssign place rv \<Rightarrow> emitRvalue place rv
      | StStorageLive _ \<Rightarrow> ins OpNop []
      | StStorageDead _ \<Rightarrow> ins OpNop []
      | StSetDiscriminant _ _ \<Rightarrow> throw_mc ''backend does not implement set-discriminant statements''
      | StPush lid \<Rightarrow> with_local lid (\<lambda>r. ins OpPushR [Reg r])
      | StPop lid \<Rightarrow> with_local lid (\<lambda>r. ins OpPopR [Reg r])
      | StGlobalStore slot v \<Rightarrow> mc_seq [emitOperandToReg v 254, ins OpGStore [Imm (int slot), Reg 254]]
      | StTryPush handler ex \<Rightarrow> with_local ex (\<lambda>r. ins OpTryPush [Addr (blockLabel prefix handler), Reg r])
      | StTryPop \<Rightarrow> ins OpTryPop []
      | StThrow v \<Rightarrow> mc_seq [emitOperandToReg v 254, ins OpThrow [Reg 254]]
      | StDrop _ \<Rightarrow> ins OpNop [])"

section \<open>Terminators\<close>

definition emit_jump :: "string \<Rightarrow> mc_step" where
  "emit_jump l = ins OpJmp [Addr l, Addr l]"

text \<open>The operand of index \<open>i\<close>, if there is one.\<close>

definition opt_arg :: "mir_operand list \<Rightarrow> nat \<Rightarrow> nat \<Rightarrow> mc_step" where
  "opt_arg args i reg = (if i < length args then emitOperandToReg (args ! i) reg else Inr)"

definition call_label :: "mir_operand \<Rightarrow> string" where
  "call_label func = (case func of OpConst (CStr s) \<Rightarrow> if s = [] then ''unknown'' else s | _ \<Rightarrow> ''unknown'')"

text \<open>A system call whose arguments go through the staging registers, at most four of them.\<close>

definition emit_staged_syscall :: "int \<Rightarrow> mir_operand list \<Rightarrow> mc_step" where
  "emit_staged_syscall num args =
     mc_seq [ins OpPush [Reg 251, Imm num], stage_args (take 4 args), move_args (min 4 (length args)), ins OpSyscall [Reg 251]]"

definition str_syscall :: "string \<Rightarrow> int" where
  "str_syscall f = (if f = ''strslice'' then 33 else if f = ''strindexof'' then 34 else 32)"

definition file_syscall :: "string \<Rightarrow> int" where
  "file_syscall f =
     (if f = ''nativeFileWriteText'' then 41 else if f = ''nativeFileAppendText'' then 42 else if f = ''nativeFileRemove'' then 43 else 40)"

definition float_call :: "string \<Rightarrow> opcode" where
  "float_call f = (if f = ''fsub'' then OpFSub else if f = ''fmul'' then OpFMul else if f = ''fdiv'' then OpFDiv else OpFAdd)"

definition emit_builtin_rest :: "string \<Rightarrow> mir_operand list \<Rightarrow> mc_step option" where
  "emit_builtin_rest f args =
     (if f = ''itof'' then Some (mc_seq [opt_arg args 0 253, ins OpItoF [Reg 253, Reg 0]])
      else if f = ''ftoi'' then Some (mc_seq [opt_arg args 0 253, ins OpFtoI [Reg 253, Reg 0]])
      else if f = ''fneg'' then Some (mc_seq [opt_arg args 0 253, ins OpFNeg [Reg 253, Reg 0]])
      else if f \<in> {''fadd'', ''fsub'', ''fmul'', ''fdiv''}
      then Some (mc_seq [opt_arg args 0 252, opt_arg args 1 253,
             (let op = float_call f in if op = OpFAdd then ins op [Reg 0, Reg 252, Reg 253] else ins op [Reg 252, Reg 253, Reg 0])])
      else if f = ''s2i'' then Some (mc_seq [ins OpPush [Reg 251, Imm 1], opt_arg args 0 1, ins OpSyscall [Reg 251]])
      else if f = ''chr'' then Some (mc_seq [ins OpPush [Reg 251, Imm 3], opt_arg args 0 1, ins OpSyscall [Reg 251]])
      else if f = ''syscall''
      then Some (mc_seq [opt_arg args 0 251, mc_seq (map (\<lambda>i. opt_arg args i i) [1..<5]), ins OpSyscall [Reg 251]])
      else None)"

definition emit_builtin :: "string \<Rightarrow> mir_operand list \<Rightarrow> mc_step option" where
  "emit_builtin f args =
     (if f = ''print'' \<or> f = ''println'' then Some (mc_seq [opt_arg args 0 254, ins OpPrint [Reg 254]])
      else if f = ''write'' then Some (mc_seq [opt_arg args 0 254, ins OpWrite [Reg 254]])
      else if f = ''alloc'' \<or> f = ''halloc'' then Some (mc_seq [opt_arg args 0 251, ins OpAlloc [Imm 0, Reg 251, Reg 0]])
      else if f = ''hstore'' \<or> f = ''hset''
      then Some (mc_seq [opt_arg args 0 251, opt_arg args 1 252, opt_arg args 2 253, ins OpHStore [Reg 251, Reg 252, Reg 253]])
      else if f = ''hload'' \<or> f = ''hread''
      then Some (mc_seq [opt_arg args 0 251, opt_arg args 1 252, ins OpHLoad [Reg 251, Reg 252, Reg 0]])
      else if f = ''hfree'' then Some (mc_seq [opt_arg args 0 251, ins OpHFree [Reg 251]])
      else if f = ''strlen'' then Some (mc_seq [opt_arg args 0 253, ins OpStrLen [Reg 253, Reg 0]])
      else if f = ''i2s'' then Some (mc_seq [opt_arg args 0 253, ins OpToStr [Reg 253, Reg 0]])
      else if f \<in> {''strchar'', ''strslice'', ''strindexof''} then Some (emit_staged_syscall (str_syscall f) args)
      else case findNativeBuiltin f of
        Some num \<Rightarrow> Some (mc_seq [ins OpPush [Reg 251, Imm num], emitArguments args, ins OpSyscall [Reg 251]])
      | None \<Rightarrow>
          if f \<in> {''nativeFileReadText'', ''nativeFileWriteText'', ''nativeFileAppendText'', ''nativeFileRemove''}
          then Some (emit_staged_syscall (file_syscall f) args)
          else emit_builtin_rest f args)"

definition emit_call :: "string \<Rightarrow> mir_operand \<Rightarrow> mir_operand list \<Rightarrow> block_id \<Rightarrow> mc_step" where
  "emit_call prefix func args ret =
     (let f = call_label func in
      case emit_builtin f args of
        Some body \<Rightarrow> mc_seq [body, emit_jump (blockLabel prefix ret)]
      | None \<Rightarrow> mc_seq [stage_args args, move_args (length args), ins OpCall [Addr f], emit_jump (blockLabel prefix ret)])"

definition emit_indirect :: "string \<Rightarrow> mir_operand \<Rightarrow> mir_operand list \<Rightarrow> block_id \<Rightarrow> mc_step" where
  "emit_indirect prefix fp args ret =
     mc_seq [emitOperandToReg fp 250, stage_args args, move_args (length args),
             ins OpCallInd [Reg 250, Imm (u64_to_i64 (length args))], emit_jump (blockLabel prefix ret)]"

definition emit_switch :: "string \<Rightarrow> mir_operand \<Rightarrow> (int \<times> block_id) list \<Rightarrow> block_id \<Rightarrow> mc_step" where
  "emit_switch prefix discr values otherwise =
     mc_seq [emitOperandToReg discr 252,
       mc_seq (map (\<lambda>(v, b). mc_seq [ins OpPush [Reg 251, Imm v], ins OpCmp [Reg 252, Reg 251], ins OpJz [Addr (blockLabel prefix b)]]) values),
       emit_jump (blockLabel prefix otherwise)]"

definition emitTerminator :: "string \<Rightarrow> terminator \<Rightarrow> mc_step" where
  "emitTerminator prefix t =
     (case t of
        TmGoto b \<Rightarrow> emit_jump (blockLabel prefix b)
      | TmSwitchInt discr values otherwise \<Rightarrow> emit_switch prefix discr values otherwise
      | TmSwitchDiscr _ _ otherwise \<Rightarrow> emit_jump (blockLabel prefix otherwise)
      | TmReturn \<Rightarrow> ins OpRet []
      | TmCall func args _ ret \<Rightarrow> emit_call prefix func args ret
      | TmCallIndirect fp args _ ret \<Rightarrow> emit_indirect prefix fp args ret
      | TmClosureCall cl args _ ret \<Rightarrow> emit_indirect prefix cl args ret
      | TmCheckNull v nt okt \<Rightarrow>
          mc_seq [emitOperandToReg v 253, ins OpNullChk [Reg 253, Addr (blockLabel prefix nt)], emit_jump (blockLabel prefix okt)]
      | TmVirtualCall _ slot args _ ret \<Rightarrow>
          mc_seq [emitArguments args,
                  ins OpVCall [Reg 1, Imm (int slot), Imm (u64_to_i64 (length args)), Addr (blockLabel prefix ret)]]
      | TmInterfaceCall _ iface m args _ ret \<Rightarrow>
          mc_seq [emitArguments args,
                  ins OpICall [Reg 1, Imm (int iface), Imm (int m), Imm (u64_to_i64 (length args)), Addr (blockLabel prefix ret)]]
      | TmUnreachable \<Rightarrow>
          mc_seq [emitOperandToReg (OpConst (CStr ''null unwrap or unreachable code'')) 1, ins OpPush [Reg 251, Imm 99], ins OpSyscall [Reg 251]])"

section \<open>Bodies and the program\<close>

definition emit_block :: "(string \<Rightarrow> string) \<Rightarrow> string \<Rightarrow> nat \<Rightarrow> basic_block \<Rightarrow> mc_step" where
  "emit_block readFile prefix i bb =
     mc_seq ([set_label (blockLabel prefix i)] @
       concat (map (\<lambda>(s, loc). [recordSource readFile loc, emitStatement prefix s]) (bb_stmts bb)) @
       [recordSource readFile (snd (bb_term bb)), emitTerminator prefix (fst (bb_term bb))])"

definition emit_prologue :: "nat \<Rightarrow> mc_step" where
  "emit_prologue paramCount =
     mc_seq (map (\<lambda>i. with_local (i + 1) (\<lambda>r. ins OpMov [Reg r, Reg (u16_cast (i + 1))])) [0..<paramCount])"

definition finish_body :: "nat \<Rightarrow> mir_body \<Rightarrow> mc_step" where
  "finish_body startOffset body st =
     (case (if length (mb_locals body) \<le> 1 then Inr 15 else localToReg body (length (mb_locals body) - 1)) of
        Inl e \<Rightarrow> Inl e
      | Inr maxLocal \<Rightarrow>
          let c = mc_chunk st in
          Inr (st\<lparr>mc_chunk := c\<lparr>ch_funs := ch_funs c @
                    [\<lparr>fi_name = mb_name body, fi_start = startOffset, fi_end = here st, fi_maxLocalRegister = maxLocal\<rparr>]\<rparr>,
                  mc_currentBody := None\<rparr>))"

definition compileBody :: "(string \<Rightarrow> string) \<Rightarrow> mir_body \<Rightarrow> mc_step" where
  "compileBody readFile body st =
     mc_seq ([set_label (mb_name body), emit_prologue (mb_paramCount body)] @
       map (\<lambda>i. emit_block readFile (mb_name body) i (mb_blocks body ! i)) [0..<length (mb_blocks body)] @
       [finish_body (here st) body]) (st\<lparr>mc_currentBody := Some body\<rparr>)"

definition resize_to :: "nat \<Rightarrow> 'a \<Rightarrow> 'a list \<Rightarrow> 'a list" where
  "resize_to n x xs = (if length xs < n then xs @ replicate (n - length xs) x else xs)"

fun map_sum_list :: "('a \<Rightarrow> mc_error + 'b) \<Rightarrow> 'a list \<Rightarrow> mc_error + 'b list" where
  "map_sum_list f [] = Inr []"
| "map_sum_list f (x # xs) =
     (case f x of Inl e \<Rightarrow> Inl e | Inr y \<Rightarrow> (case map_sum_list f xs of Inl e \<Rightarrow> Inl e | Inr ys \<Rightarrow> Inr (y # ys)))"

definition label_offset :: "mir_compiler \<Rightarrow> string \<Rightarrow> mc_error + nat" where
  "label_offset st l = (case getLabelOffset (mc_labelOffsets st) l of Inl m \<Rightarrow> Inl (MC_Throws m) | Inr v \<Rightarrow> Inr v)"

definition itable_row :: "nat list \<Rightarrow> itable_map \<Rightarrow> mc_error + itable_entry" where
  "itable_row methods ite =
     (case map_sum_list (\<lambda>sm. if sm < length methods then Inr (methods ! sm)
                              else Inl (MC_Throws (''invalid vtable slot '' @ string_of_nat sm))) (im_slotMap ite) of
        Inl e \<Rightarrow> Inl e
      | Inr offs \<Rightarrow> Inr \<lparr>ie_interfaceTypeId = im_interfaceTypeId ite, ie_methodOffsets = offs\<rparr>)"

definition vtable_row :: "mir_compiler \<Rightarrow> lowered_class \<Rightarrow> mc_error + vtable_entry" where
  "vtable_row st lc =
     (case map_sum_list (label_offset st) (lc_vtableMethodNames lc) of
        Inl e \<Rightarrow> Inl e
      | Inr methods \<Rightarrow>
          (case map_sum_list (itable_row methods) (lc_itables lc) of
             Inl e \<Rightarrow> Inl e
           | Inr its \<Rightarrow> Inr \<lparr>vt_methodOffsets = methods, vt_itable = its\<rparr>))"

definition emit_class :: "lowered_class \<Rightarrow> mc_step" where
  "emit_class lc st =
     (if lc_typeId lc = 4294967295 then Inr st
      else case vtable_row st lc of
        Inl e \<Rightarrow> Inl e
      | Inr vte \<Rightarrow>
          let c = mc_chunk st; i = lc_typeId lc in
          Inr (st\<lparr>mc_chunk := c\<lparr>
            ch_vtables := (resize_to (i + 1) \<lparr>vt_methodOffsets = [], vt_itable = []\<rparr> (ch_vtables c))[i := vte],
            ch_typeParents := (resize_to (i + 1) 4294967295 (ch_typeParents c))[i := lc_parentTypeId lc],
            ch_typeNames := (resize_to (i + 1) [] (ch_typeNames c))[i := lc_name lc]\<rparr>\<rparr>))"

definition buildVTableMetadata :: mc_step where
  "buildVTableMetadata st = mc_seq (map emit_class (mc_classes st)) st"

definition emit_entry :: "lowered_global_init list \<Rightarrow> mc_step" where
  "emit_entry inits =
     mc_seq (concat (map (\<lambda>g. [ins OpCall [Addr (lg_initLabel g)], ins OpGStore [Imm (int (lg_slot g)), Reg 0]]) inits) @
       [ins OpCall [Addr ''main''], ins OpHalt []])"

fun apply_patches :: "(nat \<times> string) list \<Rightarrow> mc_step" where
  "apply_patches [] st = Inr st"
| "apply_patches ((off, l) # ps) st =
     (case label_offset st l of
        Inl e \<Rightarrow> Inl e
      | Inr v \<Rightarrow>
          (case patchU32 off v (mc_chunk st) of
             Inl m \<Rightarrow> Inl (MC_Throws m)
           | Inr c \<Rightarrow> apply_patches ps (st\<lparr>mc_chunk := c\<rparr>)))"

text \<open>The label counters are function-local statics: they survive from one compilation to the next.\<close>

definition compile :: "(string \<Rightarrow> string) \<Rightarrow> lowering_output \<Rightarrow> mir_compiler \<Rightarrow> mc_error + chunk \<times> mir_compiler" where
  "compile readFile output st =
     (case mc_seq ([emit_entry (lo_globalInitializers output)] @ map (compileBody readFile) (lo_bodies output) @
                   [buildVTableMetadata, (\<lambda>st. apply_patches (mc_patches st) st)])
            (st\<lparr>mc_chunk := empty_chunk, mc_patches := [], mc_labelOffsets := Map.empty, mc_classes := lo_classes output\<rparr>) of
        Inl e \<Rightarrow> Inl e
      | Inr st' \<Rightarrow> Inr (mc_chunk st', st'))"

end
