(* ===== verification/Lx_MIRSpec.thy ===== *)
theory Lx_MIRSpec
  imports Lx_MIR Lx_Disasm
begin

text \<open>
  What the compiler emits is a sequence of well-formed instructions, every label lies between two of
  them, and every address operand is patched with the offset of its label.
\<close>

section \<open>Emitted code as instructions\<close>

definition arg_operand :: "mc_arg \<Rightarrow> operand" where
  "arg_operand a =
     (case a of
        Reg r \<Rightarrow> \<lparr>op_tag = TReg, op_intVal = int r, op_strIdx = 0\<rparr>
      | Imm v \<Rightarrow> \<lparr>op_tag = TImm64, op_intVal = v, op_strIdx = 0\<rparr>
      | Addr _ \<Rightarrow> \<lparr>op_tag = TAddr, op_intVal = 0, op_strIdx = 0\<rparr>
      | FloatBits v \<Rightarrow> \<lparr>op_tag = TFloat64, op_intVal = v, op_strIdx = 0\<rparr>
      | NullArg \<Rightarrow> \<lparr>op_tag = TNull, op_intVal = 0, op_strIdx = 0\<rparr>
      | StrIdx i \<Rightarrow> \<lparr>op_tag = TStrIdx, op_intVal = 0, op_strIdx = i\<rparr>)"

type_synonym prog = "(opcode \<times> operand list) list"

definition code_of :: "prog \<Rightarrow> u8 list" where
  "code_of is = concat (map instr_bytes is)"

text \<open>Where the payloads of the address operands are.\<close>

fun addr_sites :: "nat \<Rightarrow> operand list \<Rightarrow> nat list" where
  "addr_sites off [] = []"
| "addr_sites off (x # xs) = (if op_tag x = TAddr then [off + 1] else []) @ addr_sites (off + length (operand_bytes x)) xs"

fun prog_sites :: "nat \<Rightarrow> prog \<Rightarrow> nat list" where
  "prog_sites off [] = []"
| "prog_sites off (i # is) = addr_sites (off + 1) (snd i) @ prog_sites (off + length (instr_bytes i)) is"

text \<open>The offsets between two instructions.\<close>

definition bounds :: "prog \<Rightarrow> nat set" where
  "bounds is = (\<lambda>k. length (code_of (take k is))) ` {..length is}"

lemma code_of_simps [simp]: "code_of [] = []" "code_of (i # is) = instr_bytes i @ code_of is" "code_of (is @ js) = code_of is @ code_of js"
  by (simp_all add: code_of_def)

lemma bounds_append: "bounds is \<subseteq> bounds (is @ js)"
proof
  fix b assume "b \<in> bounds is"
  then obtain k where "k \<le> length is" "b = length (code_of (take k is))" by (auto simp: bounds_def)
  then have "k \<le> length (is @ js)" "b = length (code_of (take k (is @ js)))" by simp_all
  then show "b \<in> bounds (is @ js)" unfolding bounds_def by blast
qed

lemma bounds_end: "length (code_of is) \<in> bounds is"
  unfolding bounds_def by (rule image_eqI [of _ _ "length is"]) simp_all

lemma bounds_le: "b \<in> bounds is \<Longrightarrow> b \<le> length (code_of is)"
proof -
  assume "b \<in> bounds is"
  then obtain k where "b = length (code_of (take k is))" by (auto simp: bounds_def)
  moreover have "length (code_of is) = length (code_of (take k is)) + length (code_of (drop k is))"
    by (metis append_take_drop_id code_of_simps(3) length_append)
  ultimately show ?thesis by simp
qed

lemma addr_sites_append: "addr_sites off (xs @ ys) = addr_sites off xs @ addr_sites (off + length (concat (map operand_bytes xs))) ys"
  by (induction xs arbitrary: off) (simp_all add: add.assoc)

lemma prog_sites_append: "prog_sites off (is @ js) = prog_sites off is @ prog_sites (off + length (code_of is)) js"
  by (induction "is" arbitrary: off) (simp_all add: add.assoc)

section \<open>The state of the compiler\<close>

definition asm_ok :: "mir_compiler \<Rightarrow> prog \<Rightarrow> bool" where
  "asm_ok st is \<longleftrightarrow> ch_code (mc_chunk st) = code_of is \<and> list_all wf_instr is \<and> map fst (mc_patches st) = prog_sites 0 is
     \<and> ran (mc_labelOffsets st) \<subseteq> u32_cast ` bounds is
     \<and> (\<forall>f \<in> set (ch_funs (mc_chunk st)). fi_start f \<in> u32_cast ` bounds is \<and> fi_end f \<in> u32_cast ` bounds is)
     \<and> ch_vtables (mc_chunk st) = []"

definition asm_step :: "mc_step \<Rightarrow> bool" where
  "asm_step f \<longleftrightarrow> (\<forall>st is st'. asm_ok st is \<longrightarrow> f st = Inr st' \<longrightarrow> (\<exists>js. asm_ok st' (is @ js)))"

lemma asm_stepI: "(\<And>st is st'. asm_ok st is \<Longrightarrow> f st = Inr st' \<Longrightarrow> \<exists>js. asm_ok st' (is @ js)) \<Longrightarrow> asm_step f"
  by (simp add: asm_step_def)

lemma asm_stepD: "asm_step f \<Longrightarrow> asm_ok st is \<Longrightarrow> f st = Inr st' \<Longrightarrow> \<exists>js. asm_ok st' (is @ js)"
  by (auto simp: asm_step_def)

lemma asm_seq: "(\<And>f. f \<in> set fs \<Longrightarrow> asm_step f) \<Longrightarrow> asm_step (mc_seq fs)"
proof (induction fs)
  case Nil
  show ?case by (rule asm_stepI) (auto intro: exI [of _ "[]"])
next
  case (Cons f fs)
  show ?case
  proof (rule asm_stepI)
    fix st "is" st' assume a: "asm_ok st is" "mc_seq (f # fs) st = Inr st'"
    then obtain st1 where 1: "f st = Inr st1" "mc_seq fs st1 = Inr st'" by (auto split: sum.splits)
    have "asm_step f" by (rule Cons.prems) simp
    from asm_stepD [OF this a(1) 1(1)] obtain js where "asm_ok st1 (is @ js)" by blast
    moreover have "asm_step (mc_seq fs)" by (rule Cons.IH) (use Cons.prems in simp)
    ultimately obtain ks where "asm_ok st' ((is @ js) @ ks)" using asm_stepD 1(2) by blast
    then show "\<exists>js. asm_ok st' (is @ js)" by auto
  qed
qed

lemma asm_skip: "asm_step Inr"
  by (rule asm_stepI) (auto intro: exI [of _ "[]"])

lemma asm_throw: "asm_step (throw_mc m)" "asm_step (\<lambda>st. Inl e)"
  by (rule asm_stepI, simp add: throw_mc_def)+

lemma asm_upd:
  assumes "asm_ok st is" and "ch_code (mc_chunk st') = ch_code (mc_chunk st)" and "mc_patches st' = mc_patches st"
    and "mc_labelOffsets st' = mc_labelOffsets st" and "ch_funs (mc_chunk st') = ch_funs (mc_chunk st)"
    and "ch_vtables (mc_chunk st') = ch_vtables (mc_chunk st)"
  shows "asm_ok st' is"
  using assms by (simp add: asm_ok_def)

section \<open>Emission of an instruction\<close>

lemma emit_arg_fields:
  "ch_code (mc_chunk (emit_arg a st)) = ch_code (mc_chunk st) @ operand_bytes (arg_operand a)"
  "ch_funs (mc_chunk (emit_arg a st)) = ch_funs (mc_chunk st)"
  "mc_labelOffsets (emit_arg a st) = mc_labelOffsets st"
  "map fst (mc_patches (emit_arg a st)) = map fst (mc_patches st) @ addr_sites (length (ch_code (mc_chunk st))) [arg_operand a]"
  "ch_vtables (mc_chunk (emit_arg a st)) = ch_vtables (mc_chunk st)"
  by (cases a; simp add: emit_arg_def arg_operand_def operand_bytes_def emit_defs empty_chunk_def emitAddr_def offset_def Let_def)+

lemma fold_emit_arg:
  "ch_code (mc_chunk (fold emit_arg as st)) = ch_code (mc_chunk st) @ concat (map operand_bytes (map arg_operand as))"
  "ch_funs (mc_chunk (fold emit_arg as st)) = ch_funs (mc_chunk st)"
  "mc_labelOffsets (fold emit_arg as st) = mc_labelOffsets st"
  "map fst (mc_patches (fold emit_arg as st)) = map fst (mc_patches st) @ addr_sites (length (ch_code (mc_chunk st))) (map arg_operand as)"
  "ch_vtables (mc_chunk (fold emit_arg as st)) = ch_vtables (mc_chunk st)"
proof (induction as arbitrary: st)
  case (Cons a as)
  { case 1 then show ?case using Cons(1) emit_arg_fields(1) [of a st] by simp }
  { case 2 then show ?case using Cons(2) emit_arg_fields(2) [of a st] by simp }
  { case 3 then show ?case using Cons(3) emit_arg_fields(3) [of a st] by simp }
  { case 4 then show ?case using Cons(4) emit_arg_fields(1,4) [of a st] by simp }
  { case 5 then show ?case using Cons(5) emit_arg_fields(5) [of a st] by simp }
qed simp_all

lemma asm_ins:
  assumes "wf_instr (op, map arg_operand as)"
  shows "asm_step (ins op as)"
proof (rule asm_stepI)
  fix st "is" st' assume a: "asm_ok st is" and f: "ins op as st = Inr st'"
  let ?i = "(op, map arg_operand as)" and ?st = "st\<lparr>mc_chunk := emitByte (opcode_byte op) (mc_chunk st)\<rparr>"
  have st': "st' = fold emit_arg as ?st" using f by (simp add: ins_def)
  have "ch_code (mc_chunk st') = code_of (is @ [?i])" using a fold_emit_arg(1) [of as ?st]
    by (simp add: st' asm_ok_def instr_bytes_def emitByte_def)
  moreover have "map fst (mc_patches st') = prog_sites 0 (is @ [?i])" using a fold_emit_arg(4) [of as ?st]
    by (simp add: st' asm_ok_def prog_sites_append emitByte_def)
  moreover have "mc_labelOffsets st' = mc_labelOffsets st" "ch_funs (mc_chunk st') = ch_funs (mc_chunk st)"
    "ch_vtables (mc_chunk st') = ch_vtables (mc_chunk st)"
    using fold_emit_arg(2,3,5) [of as ?st] by (simp_all add: st' emitByte_def)
  ultimately have "asm_ok st' (is @ [?i])" using a assms image_mono [OF bounds_append [of "is" "[?i]"], of u32_cast]
    unfolding asm_ok_def by (simp add: list_all_append subset_trans) blast
  then show "\<exists>js. asm_ok st' (is @ js)" ..
qed

lemma asm_local:
  assumes "\<And>r. r < 4096 \<Longrightarrow> lid < 4064 \<Longrightarrow> asm_step (k r)"
  shows "asm_step (with_local lid k)"
proof (rule asm_stepI)
  fix st "is" st' assume a: "asm_ok st is" "with_local lid k st = Inr st'"
  then obtain body r where r: "mc_currentBody st = Some body" "localToReg body lid = Inr r" "k r st = Inr st'"
    by (auto simp: with_local_def split: option.splits sum.splits)
  then have "r < 4096" "lid < 4064" by (auto simp: localToReg_def u16_cast_def Let_def split: if_splits)
  from asm_stepD [OF assms [OF this] a(1) r(3)] show "\<exists>js. asm_ok st' (is @ js)" .
qed

lemma asm_label: "asm_step (set_label l)"
proof (rule asm_stepI)
  fix st "is" st' assume a: "asm_ok st is" "set_label l st = Inr st'"
  have "here st \<in> u32_cast ` bounds is" using a(1) bounds_end [of "is"] by (auto simp: asm_ok_def here_def offset_def)
  moreover have "ran ((mc_labelOffsets st)(l \<mapsto> here st)) \<subseteq> insert (here st) (ran (mc_labelOffsets st))" by (auto simp: ran_def)
  ultimately have "asm_ok st' is" using a unfolding asm_ok_def set_label_def by auto
  then show "\<exists>js. asm_ok st' (is @ js)" by (intro exI [of _ "[]"]) simp
qed

lemma asm_source: "asm_step (recordSource rl loc)"
proof (rule asm_stepI)
  fix st "is" st' assume a: "asm_ok st is" "recordSource rl loc st = Inr st'"
  have "asm_ok st' is" by (rule asm_upd [OF a(1)]) (use a(2) in \<open>auto simp: recordSource_def Let_def split: if_splits\<close>)
  then show "\<exists>js. asm_ok st' (is @ js)" by (intro exI [of _ "[]"]) simp
qed

lemma asm_with_state: "(\<And>st. asm_step (f st)) \<Longrightarrow> asm_step (\<lambda>st. f st st)"
  unfolding asm_step_def by blast

lemma asm_count:
  assumes "asm_step f" and "\<And>st is. asm_ok st is \<Longrightarrow> asm_ok (g st) is"
  shows "asm_step (\<lambda>st. f (g st))"
  using assms unfolding asm_step_def by blast

lemma asm_if: "(b \<Longrightarrow> asm_step f) \<Longrightarrow> (\<not> b \<Longrightarrow> asm_step g) \<Longrightarrow> asm_step (if b then f else g)"
  by simp

lemma asm_when: "asm_step f \<Longrightarrow> asm_step (when_mc b f)"
  by (simp add: when_mc_def asm_skip)

text \<open>The number of operands of each opcode.\<close>

lemma operand_counts:
  "op \<in> {OpNop, OpRet, OpTryPop, OpHalt} \<Longrightarrow> operandCountFor op [] 0 = Some 0"
  "op \<in> {OpJnz, OpJz, OpJn, OpCall, OpWrite, OpPrint, OpPushR, OpPopR, OpThrow, OpHFree, OpSyscall} \<Longrightarrow> operandCountFor op [] 0 = Some 1"
  "op \<in> {OpPush, OpMov, OpCmp, OpJmp, OpGLoad, OpGStore, OpItoF, OpFtoI, OpFNeg, OpNullChk, OpTypeOf, OpStrLen, OpToStr, OpTryPush, OpCallInd}
    \<Longrightarrow> operandCountFor op [] 0 = Some 2"
  "op \<in> {OpAdd, OpSub, OpMul, OpDiv, OpHStore, OpHLoad, OpAlloc, OpShl, OpShr, OpRem, OpBitAnd, OpBitOr, OpBitXor, OpFAdd, OpFSub, OpFMul, OpFDiv, OpIsA}
    \<Longrightarrow> operandCountFor op [] 0 = Some 3"
  "operandCountFor OpVCall [] 0 = Some 4" "operandCountFor OpICall [] 0 = Some 5"
  by (auto simp: operandCountFor_def)

definition arg_ok :: "mc_arg \<Rightarrow> bool" where
  "arg_ok a = (case a of Reg r \<Rightarrow> r < 4096 | Imm v \<Rightarrow> in_i64 v | FloatBits v \<Rightarrow> in_i64 v | StrIdx i \<Rightarrow> i < 2 ^ 32 | _ \<Rightarrow> True)"

lemma arg_ok_simps [simp]:
  "arg_ok (Reg r) = (r < 4096)" "arg_ok (Imm v) = in_i64 v" "arg_ok (FloatBits v) = in_i64 v" "arg_ok (StrIdx i) = (i < 2 ^ 32)"
  "arg_ok (Addr l)" "arg_ok NullArg"
  by (simp_all add: arg_ok_def)

lemma wf_arg: "arg_ok a \<Longrightarrow> wf_operand (arg_operand a)"
  by (cases a) (simp_all add: arg_operand_def)

lemma asm_emit:
  assumes "op \<noteq> OpSkip" and "operandCountFor op [] 0 = Some (length as)" and "list_all arg_ok as"
  shows "asm_step (ins op as)"
proof (rule asm_ins)
  have "list_all wf_operand (map arg_operand as)" using assms(3) wf_arg by (simp add: list_all_iff del: wf_operand.simps)
  with assms(1,2) show "wf_instr (op, map arg_operand as)" by (simp add: wf_instr_def)
qed

lemma in_i64_u32: "n < 4294967296 \<Longrightarrow> in_i64 (int n)"
  by (simp add: in_i64_def)

lemma in_i64_cast [simp]: "in_i64 (int (u32_cast n))"
  by (rule in_i64_u32) simp

lemma in_i64_small [simp]: "in_i64 0" "in_i64 1" "in_i64 3" "in_i64 9" "in_i64 99"
  by (simp_all add: in_i64_def)

section \<open>Programs within the ranges of their C++ types\<close>

fun const_ok :: "mir_const \<Rightarrow> bool" where
  "const_ok (CI64 v) = in_i64 v"
| "const_ok (CU64 n) = (n < 2 ^ 64)"
| "const_ok (CDouble v) = in_i64 v"
| "const_ok (CChar v) = in_i64 v"
| "const_ok _ = True"

fun operand_ok :: "mir_operand \<Rightarrow> bool" where
  "operand_ok (OpConst c) = const_ok c"
| "operand_ok _ = True"

text \<open>At most 3800 arguments: the staging registers stay below 4096.\<close>

definition args_ok :: "mir_operand list \<Rightarrow> bool" where
  "args_ok ops \<longleftrightarrow> list_all operand_ok ops \<and> length ops \<le> 3800"

fun rvalue_ok :: "rvalue \<Rightarrow> bool" where
  "rvalue_ok (RvUse op) = operand_ok op"
| "rvalue_ok (RvBinary _ l r) \<longleftrightarrow> operand_ok l \<and> operand_ok r"
| "rvalue_ok (RvUnary _ op) = operand_ok op"
| "rvalue_ok (RvCast op _) = operand_ok op"
| "rvalue_ok (RvAggregate _ _ ops) = list_all operand_ok ops"
| "rvalue_ok (RvField _ f) = (f < 2 ^ 32)"
| "rvalue_ok (RvHStore off v) \<longleftrightarrow> off < 2 ^ 32 \<and> operand_ok v"
| "rvalue_ok (RvIndex _ i) = operand_ok i"
| "rvalue_ok (RvIndexStore i v) \<longleftrightarrow> operand_ok i \<and> operand_ok v"
| "rvalue_ok (RvAlloc sz tid) \<longleftrightarrow> sz < 2 ^ 32 \<and> tid < 2 ^ 32"
| "rvalue_ok (RvClosure _ tid caps) \<longleftrightarrow> tid < 2 ^ 32 \<and> list_all operand_ok caps \<and> length caps < 2 ^ 32"
| "rvalue_ok (RvClosureSet _ v) = operand_ok v"
| "rvalue_ok (RvIsCheck _ tid) = (tid < 2 ^ 32)"
| "rvalue_ok (RvGlobalLoad slot) = (slot < 2 ^ 32)"
| "rvalue_ok (RvGlobalStore slot v) \<longleftrightarrow> slot < 2 ^ 32 \<and> operand_ok v"
| "rvalue_ok _ = True"

fun stmt_ok :: "statement \<Rightarrow> bool" where
  "stmt_ok (StAssign _ rv) = rvalue_ok rv"
| "stmt_ok (StGlobalStore slot v) \<longleftrightarrow> slot < 2 ^ 32 \<and> operand_ok v"
| "stmt_ok (StThrow v) = operand_ok v"
| "stmt_ok _ = True"

fun term_ok :: "terminator \<Rightarrow> bool" where
  "term_ok (TmSwitchInt d vs _) \<longleftrightarrow> operand_ok d \<and> list_all (in_i64 \<circ> fst) vs"
| "term_ok (TmCall f as _ _) = args_ok as"
| "term_ok (TmCallIndirect f as _ _) \<longleftrightarrow> operand_ok f \<and> args_ok as"
| "term_ok (TmClosureCall f as _ _) \<longleftrightarrow> operand_ok f \<and> args_ok as"
| "term_ok (TmCheckNull v _ _) = operand_ok v"
| "term_ok (TmVirtualCall _ slot as _ _) \<longleftrightarrow> slot < 2 ^ 32 \<and> args_ok as"
| "term_ok (TmInterfaceCall _ i m as _ _) \<longleftrightarrow> i < 2 ^ 32 \<and> m < 2 ^ 32 \<and> args_ok as"
| "term_ok _ = True"

definition block_ok :: "basic_block \<Rightarrow> bool" where
  "block_ok bb \<longleftrightarrow> list_all (stmt_ok \<circ> fst) (bb_stmts bb) \<and> term_ok (fst (bb_term bb))"

definition mir_ok :: "lowering_output \<Rightarrow> bool" where
  "mir_ok out \<longleftrightarrow> list_all (\<lambda>b. list_all block_ok (mb_blocks b)) (lo_bodies out)
     \<and> list_all (\<lambda>g. lg_slot g < 2 ^ 32) (lo_globalInitializers out)"

section \<open>Every step emits well-formed instructions\<close>

lemmas asm_intros = asm_seq asm_emit asm_skip asm_throw asm_label asm_source asm_local asm_when

lemma asm_operand:
  assumes "operand_ok op" and "reg < 4096"
  shows "asm_step (emitOperandToReg op reg)"
proof (cases op)
  case (OpConst c)
  show ?thesis
  proof (cases c)
    case (CStr s)
    have "asm_step (\<lambda>st. case internString s (mc_chunk st) of (i, c) \<Rightarrow> ins OpPush [Reg reg, StrIdx i] (st\<lparr>mc_chunk := c\<rparr>))"
    proof (rule asm_stepI)
      fix st "is" st' assume a: "asm_ok st is" "(case internString s (mc_chunk st) of (i, c) \<Rightarrow> ins OpPush [Reg reg, StrIdx i] (st\<lparr>mc_chunk := c\<rparr>)) = Inr st'"
      obtain i c where i: "internString s (mc_chunk st) = (i, c)" by (cases "internString s (mc_chunk st)")
      then have f: "i < 2 ^ 32" "ch_code c = ch_code (mc_chunk st)" "ch_funs c = ch_funs (mc_chunk st)"
        "ch_vtables c = ch_vtables (mc_chunk st)" by (auto simp: internString_def Let_def split: option.splits)
      have "asm_ok (st\<lparr>mc_chunk := c\<rparr>) is" by (rule asm_upd [OF a(1)]) (use f in simp_all)
      moreover have "asm_step (ins OpPush [Reg reg, StrIdx i])" by (rule asm_emit) (use f assms in \<open>simp_all add: operand_counts\<close>)
      ultimately show "\<exists>js. asm_ok st' (is @ js)" using asm_stepD a(2) i by simp
    qed
    with OpConst CStr show ?thesis by (simp add: emitOperandToReg_def)
  qed (use OpConst assms in \<open>auto simp: emitOperandToReg_def operand_counts intro!: asm_emit\<close>)
qed (use assms in \<open>auto simp: emitOperandToReg_def operand_counts intro!: asm_intros\<close>)

lemma asm_stage: "list_all operand_ok ops \<Longrightarrow> length ops \<le> 3800 \<Longrightarrow> asm_step (stage_args ops)"
  unfolding stage_args_def by (rule asm_seq) (auto simp: list_all_length u16_cast_def intro!: asm_operand)

lemma asm_move: "n \<le> 3800 \<Longrightarrow> asm_step (move_args n)"
  unfolding move_args_def by (rule asm_seq) (auto simp: operand_counts u16_cast_def intro!: asm_emit)

lemma asm_args: "list_all operand_ok ops \<Longrightarrow> asm_step (emitArguments ops)"
  unfolding emitArguments_def by (auto intro!: asm_intros asm_stage asm_move)

lemma asm_opt: "list_all operand_ok ops \<Longrightarrow> reg < 4096 \<Longrightarrow> asm_step (opt_arg ops i reg)"
  unfolding opt_arg_def by (auto simp: list_all_length intro!: asm_operand asm_skip)

lemma asm_float_binary: "p < 4096 \<Longrightarrow> asm_step (emit_float_binary op l r p)"
proof -
  assume p: "p < 4096"
  have "asm_step (mc_seq [when_mc (operandNeedsItoF l st) (ins OpItoF [Reg 254, Reg 254]),
             when_mc (operandNeedsItoF r st) (ins OpItoF [Reg 253, Reg 253]),
             (let fop = float_opcode op in
              if fop = OpFAdd then ins fop [Reg p, Reg 254, Reg 253] else ins fop [Reg 254, Reg 253, Reg p])])" for st
    using p by (auto simp: operand_counts float_opcode_def Let_def intro!: asm_intros split: mir_binop.split)
  from asm_with_state [OF this] show ?thesis unfolding emit_float_binary_def .
qed

lemma asm_compare_steps: "p < 4096 \<Longrightarrow> f \<in> set (compare_steps op p ce cf) \<Longrightarrow> asm_step f"
  by (cases op) (auto simp: compare_steps_def operand_counts intro!: asm_emit asm_label)

lemma asm_compare:
  assumes p: "p < 4096"
  shows "asm_step (emit_compare op p)"
proof (rule asm_stepI)
  fix st "is" st' assume a: "asm_ok st is" "emit_compare op p st = Inr st'"
  have "asm_ok (st\<lparr>mc_cmpLabelId := mc_cmpLabelId st + 1\<rparr>) is" by (rule asm_upd [OF a(1)]) simp_all
  then show "\<exists>js. asm_ok st' (is @ js)"
    by (rule asm_stepD [OF asm_seq _ a(2) [unfolded emit_compare_def Let_def], rotated])
       (use p asm_compare_steps in \<open>auto simp: operand_counts intro!: asm_emit\<close>)
qed

lemma asm_not:
  assumes "operand_ok op" and "p < 4096"
  shows "asm_step (emit_not op p)"
proof (rule asm_stepI)
  fix st "is" st' assume a: "asm_ok st is" "emit_not op p st = Inr st'"
  have "asm_ok (st\<lparr>mc_notLabelId := mc_notLabelId st + 1\<rparr>) is" by (rule asm_upd [OF a(1)]) simp_all
  then show "\<exists>js. asm_ok st' (is @ js)"
    by (rule asm_stepD [OF asm_seq _ a(2) [unfolded emit_not_def Let_def], rotated])
       (use assms in \<open>auto simp: operand_counts intro!: asm_emit asm_label asm_operand\<close>)
qed

lemma asm_binary:
  assumes "operand_ok l" and "operand_ok r" and "p < 4096"
  shows "asm_step (emit_binary place op l r p)"
proof -
  have "asm_step (\<lambda>s. if is_float_ty (local_ty place s) \<and> op \<in> {BinAdd, BinSub, BinMul, BinDiv} then emit_float_binary op l r p s
             else let opc = binary_opcode op in
               if opc = OpNop then throw_mc ''backend received an unsupported MIR binary operator'' s
               else if opc = OpCmp then emit_compare op p s
               else if op = BinAdd then ins opc [Reg p, Reg 254, Reg 253] s
               else ins opc [Reg 254, Reg 253, Reg p] s)" (is "asm_step ?f")
  proof (rule asm_stepI)
    fix st "is" st' assume a: "asm_ok st is" "?f st = Inr st'"
    have i: "asm_step (ins (binary_opcode op) [Reg x, Reg y, Reg z])" if "binary_opcode op \<noteq> OpNop" "binary_opcode op \<noteq> OpCmp" "x < 4096" "y < 4096" "z < 4096" for x y z
      using that by (cases op) (auto simp: binary_opcode_def operand_counts intro!: asm_emit)
    show "\<exists>js. asm_ok st' (is @ js)"
      using a asm_stepD [OF asm_float_binary [OF assms(3)] a(1)] asm_stepD [OF asm_compare [OF assms(3)] a(1)]
        asm_stepD [OF i [of p 254 253] a(1)] asm_stepD [OF i [of 254 253 p] a(1)] assms(3)
      by (auto simp: Let_def throw_mc_def split: if_splits)
  qed
  with assms show ?thesis unfolding emit_binary_def by (auto intro!: asm_seq asm_operand)
qed

lemma asm_unary:
  assumes "operand_ok opnd" and "p < 4096"
  shows "asm_step (emit_unary place op opnd p)"
proof -
  have "asm_step (\<lambda>s. case mc_currentBody s of None \<Rightarrow> Inl MC_Undefined
      | Some body \<Rightarrow> if place \<ge> length (mb_locals body) then Inl MC_Undefined
          else if is_float_ty (ld_ty (mb_locals body ! place)) then ins OpFNeg [Reg 254, Reg p] s
          else mc_seq [ins OpPush [Reg p, Imm 0], ins OpSub [Reg p, Reg 254, Reg p]] s)" (is "asm_step ?f")
  proof (rule asm_stepI)
    fix st "is" st' assume a: "asm_ok st is" "?f st = Inr st'"
    have "asm_step (ins OpFNeg [Reg 254, Reg p])" "asm_step (mc_seq [ins OpPush [Reg p, Imm 0], ins OpSub [Reg p, Reg 254, Reg p]])"
      using assms(2) by (auto simp: operand_counts intro!: asm_intros)
    from this [THEN asm_stepD, OF a(1)] a(2) show "\<exists>js. asm_ok st' (is @ js)" by (auto split: option.splits if_splits)
  qed
  then have "asm_step (emit_neg place opnd p)" using assms unfolding emit_neg_def by (auto intro!: asm_seq asm_operand)
  with assms asm_not [OF assms] show ?thesis
    by (cases op) (auto simp: emit_unary_def operand_counts intro!: asm_seq asm_emit asm_operand)
qed

lemma asm_closure:
  assumes "tid < 2 ^ 32" and "list_all operand_ok caps" and "length caps < 2 ^ 32" and "p < 4096"
  shows "asm_step (emit_closure f tid caps p)"
proof -
  have "(i + 1) * 9 < 18446744073709551616" if "i < length caps" for i
  proof -
    have "(i + 1) * 9 \<le> length caps * 9" using that by simp
    also have "\<dots> < 18446744073709551616" using assms(3) by simp
    finally show ?thesis .
  qed
  then have "asm_step (mc_seq [ins OpPush [Reg 251, Imm (u64_to_i64 ((i + 1) * 9))], emitOperandToReg (caps ! i) 252, ins OpHStore [Reg p, Reg 251, Reg 252]])"
    if "i < length caps" for i using that assms(2,4) nth_mem [OF that] by (auto simp: operand_counts list_all_iff intro!: asm_seq asm_emit asm_operand)
  then show ?thesis unfolding emit_closure_def using assms(1,4) by (intro asm_seq) (auto simp: operand_counts in_i64_u32 intro!: asm_emit)
qed

lemma asm_array:
  assumes "list_all operand_ok ops" and "p < 4096"
  shows "asm_step (emit_array ops p)"
proof -
  have "asm_step (mc_seq [ins OpPush [Reg 250, Imm (int (u32_cast ((i + 1) * 9)))], emitOperandToReg (ops ! i) 251, ins OpHStore [Reg p, Reg 250, Reg 251]])"
    if "i < u32_cast (length ops)" for i
    using that u32_cast_le [of "length ops"] assms nth_mem [of i ops] by (auto simp: operand_counts list_all_iff intro!: asm_seq asm_emit asm_operand)
  then show ?thesis unfolding emit_array_def Let_def using assms(2) by (intro asm_seq) (auto simp: operand_counts intro!: asm_emit)
qed

lemma asm_index: "operand_ok i \<Longrightarrow> asm_step (emit_index_offset i)"
  unfolding emit_index_offset_def by (auto simp: operand_counts intro!: asm_seq asm_emit asm_operand)

lemma asm_cast: "operand_ok op \<Longrightarrow> p < 4096 \<Longrightarrow> asm_step (emit_cast op t p)"
  unfolding emit_cast_def by (auto simp: operand_counts intro!: asm_seq asm_emit asm_operand)

lemma asm_rvalue:
  assumes "rvalue_ok rv"
  shows "asm_step (emitRvalue place rv)"
proof -
  have "asm_step (emitRvalue_at place rv p)" if "p < 4096" for p
    using that assms
    by (cases rv) (auto simp: emitRvalue_at_def operand_counts in_i64_u32
        intro!: asm_seq asm_emit asm_throw asm_local asm_operand asm_binary asm_unary asm_cast asm_closure asm_array asm_index)
  then show ?thesis unfolding emitRvalue_def by (auto intro!: asm_local)
qed

lemma asm_statement: "stmt_ok s \<Longrightarrow> asm_step (emitStatement prefix s)"
  by (cases s) (auto simp: emitStatement_def operand_counts in_i64_u32 intro!: asm_seq asm_emit asm_throw asm_local asm_operand asm_rvalue)

lemma asm_jump: "asm_step (emit_jump l)"
  unfolding emit_jump_def by (rule asm_emit) (simp_all add: operand_counts)

lemma native_syscall_ok: "findNativeBuiltin f = Some n \<Longrightarrow> in_i64 n"
proof -
  assume "findNativeBuiltin f = Some n"
  then have "(f, n) \<in> set nativeBuiltins" unfolding findNativeBuiltin_def by (rule map_of_SomeD)
  moreover have "list_all (\<lambda>x. 0 \<le> snd x \<and> snd x < 100) nativeBuiltins" by (simp add: nativeBuiltins_def)
  ultimately have "0 \<le> n \<and> n < 100" by (auto simp: list_all_iff)
  then show ?thesis by (simp add: in_i64_def)
qed

lemma asm_staged_syscall:
  assumes "in_i64 n" and "list_all operand_ok args"
  shows "asm_step (emit_staged_syscall n args)"
proof -
  have "asm_step (stage_args (take 4 args))" by (rule asm_stage) (use assms(2) in \<open>auto simp: list_all_iff dest: in_set_takeD\<close>)
  moreover have "asm_step (move_args (min 4 (length args)))" by (rule asm_move) simp
  ultimately show ?thesis unfolding emit_staged_syscall_def using assms(1) by (auto simp: operand_counts intro!: asm_seq asm_emit)
qed

lemma builtin_syscalls_ok [simp]: "in_i64 (str_syscall f)" "in_i64 (file_syscall f)"
  by (simp_all add: str_syscall_def file_syscall_def in_i64_def)

lemma asm_float_call: "asm_step (let op = float_call f in if op = OpFAdd then ins op [Reg 0, Reg 252, Reg 253] else ins op [Reg 252, Reg 253, Reg 0])"
  by (auto simp: Let_def float_call_def operand_counts intro!: asm_emit)

definition asm_some :: "mc_step option \<Rightarrow> bool" where
  "asm_some r \<longleftrightarrow> (\<forall>f. r = Some f \<longrightarrow> asm_step f)"

lemma asm_some_intros:
  "asm_some None" "asm_step f \<Longrightarrow> asm_some (Some f)" "asm_some r \<Longrightarrow> asm_some q \<Longrightarrow> asm_some (if c then r else q)"
  "(\<And>x. y = Some x \<Longrightarrow> asm_some (h x)) \<Longrightarrow> asm_some n \<Longrightarrow> asm_some (case y of None \<Rightarrow> n | Some x \<Rightarrow> h x)"
  by (auto simp: asm_some_def split: option.split)

lemma asm_seq_Cons: "asm_step f \<Longrightarrow> asm_step (mc_seq fs) \<Longrightarrow> asm_step (mc_seq (f # fs))"
proof (rule asm_stepI)
  fix st "is" st' assume f: "asm_step f" "asm_step (mc_seq fs)" and a: "asm_ok st is" "mc_seq (f # fs) st = Inr st'"
  from a(2) obtain st1 where 1: "f st = Inr st1" "mc_seq fs st1 = Inr st'" by (auto split: sum.splits)
  from asm_stepD [OF f(1) a(1) 1(1)] obtain js where "asm_ok st1 (is @ js)" by blast
  from asm_stepD [OF f(2) this 1(2)] show "\<exists>js. asm_ok st' (is @ js)" by auto
qed

lemma asm_seq_Nil: "asm_step (mc_seq [])"
  by (rule asm_seq) simp

lemma asm_builtin:
  assumes "list_all operand_ok args"
  shows "asm_some (emit_builtin f args)"
proof -
  note opt = asm_opt [OF assms]
  have "asm_step (mc_seq (map (\<lambda>i. opt_arg args i i) [1..<5]))" by (rule asm_seq) (auto intro!: opt)
  then show ?thesis unfolding emit_builtin_def emit_builtin_rest_def using native_syscall_ok [of f]
    by (intro asm_some_intros asm_seq_Cons asm_seq_Nil opt asm_args assms asm_staged_syscall builtin_syscalls_ok asm_float_call asm_emit)
       (simp_all add: operand_counts)
qed

lemma asm_terminator:
  assumes "term_ok t"
  shows "asm_step (emitTerminator prefix t)"
proof -
  have call: "asm_step (emit_call prefix f as r)" if "args_ok as" for f as r
    using that asm_builtin [of as "call_label f"]
    by (auto simp: emit_call_def args_ok_def asm_some_def Let_def operand_counts intro!: asm_seq asm_emit asm_jump asm_stage asm_move split: option.split)
  have len: "in_i64 (u64_to_i64 (length as))" if "args_ok as" for as using that by (intro in_i64_u64_to_i64) (simp add: args_ok_def)
  have ind: "asm_step (emit_indirect prefix f as r)" if "operand_ok f" "args_ok as" for f as r
    using that len by (auto simp: emit_indirect_def args_ok_def operand_counts intro!: asm_seq asm_emit asm_jump asm_stage asm_move asm_operand)
  have sw: "asm_step (emit_switch prefix d vs q)" if "operand_ok d" "list_all (in_i64 \<circ> fst) vs" for d vs q
  proof -
    have "in_i64 v" if "(v, b) \<in> set vs" for v b using \<open>list_all (in_i64 \<circ> fst) vs\<close> that by (auto simp: list_all_iff)
    with that(1) show ?thesis by (auto simp: emit_switch_def operand_counts intro!: asm_seq asm_emit asm_jump asm_operand)
  qed
  show ?thesis using assms call ind sw len
    by (cases t) (auto simp: emitTerminator_def args_ok_def operand_counts in_i64_u32 intro!: asm_seq asm_emit asm_jump asm_args asm_operand)
qed

lemma asm_block:
  assumes "block_ok bb"
  shows "asm_step (emit_block rl prefix i bb)"
proof -
  have "stmt_ok s" if "(s, loc) \<in> set (bb_stmts bb)" for s loc using assms that by (auto simp: block_ok_def list_all_iff)
  then have "asm_step f" if "f \<in> set (concat (map (\<lambda>(s, loc). [recordSource rl loc, emitStatement prefix s]) (bb_stmts bb)))" for f
    using that by (auto intro: asm_source asm_statement)
  moreover have "asm_step (emitTerminator prefix (fst (bb_term bb)))" using assms by (intro asm_terminator) (simp add: block_ok_def)
  ultimately show ?thesis unfolding emit_block_def by (intro asm_seq) (auto intro: asm_label asm_source)
qed

lemma asm_prologue: "asm_step (emit_prologue n)"
  unfolding emit_prologue_def by (auto simp: operand_counts u16_cast_def intro!: asm_seq asm_local asm_emit)

lemma asm_finish:
  assumes "asm_ok st is" and "start \<in> u32_cast ` bounds is" and "finish_body start body st = Inr st'"
  shows "asm_ok st' is"
proof -
  obtain m where st': "st' = st\<lparr>mc_chunk := (mc_chunk st)\<lparr>ch_funs := ch_funs (mc_chunk st) @
      [\<lparr>fi_name = mb_name body, fi_start = start, fi_end = here st, fi_maxLocalRegister = m\<rparr>]\<rparr>, mc_currentBody := None\<rparr>"
    using assms(3) by (auto simp: finish_body_def Let_def split: sum.splits)
  have "here st \<in> u32_cast ` bounds is" using assms(1) bounds_end [of "is"] by (auto simp: asm_ok_def here_def offset_def)
  with assms(1,2) show ?thesis unfolding st' asm_ok_def by auto
qed

lemma mc_seq_append: "mc_seq (fs @ gs) st = (case mc_seq fs st of Inl e \<Rightarrow> Inl e | Inr st' \<Rightarrow> mc_seq gs st')"
  by (induction fs arbitrary: st) (simp_all split: sum.split)

lemma asm_body:
  assumes "list_all block_ok (mb_blocks body)"
  shows "asm_step (compileBody rl body)"
proof (rule asm_stepI)
  fix st "is" st' assume a: "asm_ok st is" "compileBody rl body st = Inr st'"
  define fs where "fs = [set_label (mb_name body), emit_prologue (mb_paramCount body)] @
       map (\<lambda>i. emit_block rl (mb_name body) i (mb_blocks body ! i)) [0..<length (mb_blocks body)]"
  have "mc_seq (fs @ [finish_body (here st) body]) (st\<lparr>mc_currentBody := Some body\<rparr>) = Inr st'"
    using a(2) unfolding compileBody_def fs_def append_assoc .
  then obtain st1 where 1: "mc_seq fs (st\<lparr>mc_currentBody := Some body\<rparr>) = Inr st1" "finish_body (here st) body st1 = Inr st'"
    unfolding mc_seq_append by (auto split: sum.splits)
  have ok: "asm_ok (st\<lparr>mc_currentBody := Some body\<rparr>) is" by (rule asm_upd [OF a(1)]) simp_all
  have "asm_step (mc_seq (map (\<lambda>i. emit_block rl (mb_name body) i (mb_blocks body ! i)) [0..<length (mb_blocks body)]))"
    by (rule asm_seq) (use assms in \<open>auto simp: list_all_length intro: asm_block\<close>)
  then have "asm_step (mc_seq fs)" unfolding fs_def append_Cons append_Nil by (intro asm_seq_Cons asm_label asm_prologue)
  from asm_stepD [OF this ok 1(1)] obtain js where js: "asm_ok st1 (is @ js)" ..
  have "here st \<in> u32_cast ` bounds is" using a(1) bounds_end [of "is"] by (auto simp: asm_ok_def here_def offset_def)
  then have "here st \<in> u32_cast ` bounds (is @ js)" by (rule subsetD [OF image_mono [OF bounds_append]])
  from asm_finish [OF js this 1(2)] show "\<exists>js. asm_ok st' (is @ js)" ..
qed

lemma asm_entry: "list_all (\<lambda>g. lg_slot g < 2 ^ 32) gs \<Longrightarrow> asm_step (emit_entry gs)"
  unfolding emit_entry_def by (auto simp: operand_counts list_all_iff in_i64_u32 intro!: asm_seq asm_emit)

section \<open>Virtual tables\<close>

definition vt_ok :: "nat set \<Rightarrow> vtable_entry \<Rightarrow> bool" where
  "vt_ok V vt \<longleftrightarrow> set (vt_methodOffsets vt) \<subseteq> V \<and> (\<forall>ie \<in> set (vt_itable vt). set (ie_methodOffsets ie) \<subseteq> V)"

definition targets_of :: "mir_compiler \<Rightarrow> nat set" where
  "targets_of st = insert 4294967295 (ran (mc_labelOffsets st))"

lemma map_sum_list_Inr: "map_sum_list f xs = Inr ys \<Longrightarrow> list_all2 (\<lambda>x y. f x = Inr y) xs ys"
  by (induction xs arbitrary: ys) (auto split: sum.splits)

lemma label_offset_target: "label_offset st l = Inr v \<Longrightarrow> v \<in> targets_of st"
  by (auto simp: label_offset_def getLabelOffset_def targets_of_def ran_def split: if_splits option.splits sum.splits)

lemma vtable_row_ok:
  assumes "vtable_row st lc = Inr vt"
  shows "vt_ok (targets_of st) vt"
proof -
  obtain ms its where m: "map_sum_list (label_offset st) (lc_vtableMethodNames lc) = Inr ms"
    "map_sum_list (itable_row ms) (lc_itables lc) = Inr its" "vt = \<lparr>vt_methodOffsets = ms, vt_itable = its\<rparr>"
    using assms by (auto simp: vtable_row_def split: sum.splits)
  have ms: "set ms \<subseteq> targets_of st"
  proof
    fix v assume "v \<in> set ms"
    then obtain l where "label_offset st l = Inr v" using map_sum_list_Inr [OF m(1)] by (auto simp: list_all2_conv_all_nth in_set_conv_nth)
    then show "v \<in> targets_of st" by (rule label_offset_target)
  qed
  have "set (ie_methodOffsets ie) \<subseteq> set ms" if ie: "ie \<in> set its" for ie
  proof -
    obtain x where "itable_row ms x = Inr ie" using ie map_sum_list_Inr [OF m(2)] by (auto simp: list_all2_conv_all_nth in_set_conv_nth)
    then obtain os where os: "map_sum_list (\<lambda>sm. if sm < length ms then Inr (ms ! sm) else Inl (MC_Throws (''invalid vtable slot '' @ string_of_nat sm))) (im_slotMap x) = Inr os"
      "ie_methodOffsets ie = os" by (auto simp: itable_row_def split: sum.splits)
    have "v \<in> set ms" if v: "v \<in> set os" for v
    proof -
      from v obtain i where i: "i < length os" "v = os ! i" by (auto simp: in_set_conv_nth)
      from list_all2_nthD2 [OF map_sum_list_Inr [OF os(1)] i(1)] have "im_slotMap x ! i < length ms" "v = ms ! (im_slotMap x ! i)"
        by (simp_all add: i(2) split: if_splits)
      then show ?thesis by simp
    qed
    then show ?thesis using os(2) by blast
  qed
  with ms show ?thesis unfolding vt_ok_def m(3) by fastforce
qed

lemma set_resize: "set (resize_to n x xs) \<subseteq> insert x (set xs)"
  by (auto simp: resize_to_def)

text \<open>Everything but the tables stays.\<close>

definition vt_frame :: "mir_compiler \<Rightarrow> mir_compiler \<Rightarrow> bool" where
  "vt_frame st st' \<longleftrightarrow> ch_code (mc_chunk st') = ch_code (mc_chunk st) \<and> mc_patches st' = mc_patches st
     \<and> mc_labelOffsets st' = mc_labelOffsets st \<and> ch_funs (mc_chunk st') = ch_funs (mc_chunk st)"

lemma emit_class_ok:
  assumes "emit_class lc st = Inr st'" and "\<forall>vt \<in> set (ch_vtables (mc_chunk st)). vt_ok (targets_of st) vt"
  shows "vt_frame st st' \<and> (\<forall>vt \<in> set (ch_vtables (mc_chunk st')). vt_ok (targets_of st) vt)"
proof (cases "lc_typeId lc = 4294967295")
  case False
  then obtain vt where vt: "vtable_row st lc = Inr vt" using assms(1) by (auto simp: emit_class_def split: sum.splits)
  let ?vs = "resize_to (lc_typeId lc + 1) \<lparr>vt_methodOffsets = [], vt_itable = []\<rparr> (ch_vtables (mc_chunk st))"
  have f: "ch_vtables (mc_chunk st') = ?vs[lc_typeId lc := vt]" "vt_frame st st'"
    using assms(1) False vt by (auto simp: emit_class_def vt_frame_def Let_def)
  have "set ?vs \<subseteq> insert \<lparr>vt_methodOffsets = [], vt_itable = []\<rparr> (set (ch_vtables (mc_chunk st)))" by (rule set_resize)
  moreover have "vt_ok (targets_of st) \<lparr>vt_methodOffsets = [], vt_itable = []\<rparr>" by (simp add: vt_ok_def)
  ultimately have "\<forall>v \<in> set ?vs. vt_ok (targets_of st) v" using assms(2) by blast
  then have "\<forall>v \<in> set (?vs[lc_typeId lc := vt]). vt_ok (targets_of st) v"
    using vtable_row_ok [OF vt] set_update_subset_insert [of ?vs "lc_typeId lc" vt] by blast
  with f show ?thesis by simp
qed (use assms in \<open>simp add: emit_class_def vt_frame_def\<close>)

lemma buildVTable_ok:
  assumes "mc_seq (map emit_class lcs) st = Inr st'" and "\<forall>vt \<in> set (ch_vtables (mc_chunk st)). vt_ok (targets_of st) vt"
  shows "vt_frame st st' \<and> (\<forall>vt \<in> set (ch_vtables (mc_chunk st')). vt_ok (targets_of st) vt)"
  using assms
proof (induction lcs arbitrary: st)
  case (Cons lc lcs)
  then obtain st1 where 1: "emit_class lc st = Inr st1" "mc_seq (map emit_class lcs) st1 = Inr st'" by (auto split: sum.splits)
  note e = emit_class_ok [OF 1(1) Cons.prems(2)]
  then have t: "targets_of st1 = targets_of st" by (simp add: targets_of_def vt_frame_def)
  from Cons.IH [OF 1(2)] e show ?case unfolding t by (simp add: vt_frame_def)
qed (simp add: vt_frame_def)

section \<open>Patching\<close>

definition op_addrs :: "operand list \<Rightarrow> nat list" where
  "op_addrs xs = map (nat \<circ> op_intVal) (filter (\<lambda>x. op_tag x = TAddr) xs)"

definition addrs :: "prog \<Rightarrow> nat list" where
  "addrs is = concat (map (op_addrs \<circ> snd) is)"

definition unaddr :: "operand \<Rightarrow> operand" where
  "unaddr x = (if op_tag x = TAddr then x\<lparr>op_intVal := 0\<rparr> else x)"

definition shape :: "prog \<Rightarrow> prog" where
  "shape is = map (apsnd (map unaddr)) is"

lemma length_unaddr: "length (operand_bytes (unaddr x)) = length (operand_bytes x)"
  by (simp add: unaddr_def operand_bytes_def emit_operand_def emitU32_def emitByte_def)

lemma addr_sites_shape: "addr_sites off (map unaddr xs) = addr_sites off xs"
proof (induction xs arbitrary: off)
  case (Cons x xs)
  have "op_tag (unaddr x) = op_tag x" by (simp add: unaddr_def)
  with Cons show ?case by (simp add: length_unaddr)
qed simp

lemma length_operands_shape: "length (concat (map operand_bytes (map unaddr xs))) = length (concat (map operand_bytes xs))"
  by (induction xs) (simp_all add: length_unaddr)

lemma length_instr_shape: "length (instr_bytes (apsnd (map unaddr) i)) = length (instr_bytes i)"
  using length_operands_shape [of "snd i"] by (cases i) (simp add: instr_bytes_def)

lemma length_code_shape: "length (code_of (shape is)) = length (code_of is)"
  by (induction "is") (simp_all add: shape_def length_instr_shape)

lemma prog_sites_shape: "prog_sites off (shape is) = prog_sites off is"
  by (induction "is" arbitrary: off) (simp_all add: shape_def addr_sites_shape length_instr_shape)

lemma bounds_shape: "bounds (shape is) = bounds is"
proof -
  have "length (code_of (take k (shape is))) = length (code_of (take k is))" for k
    using length_code_shape [of "take k is"] by (simp add: shape_def take_map)
  then show ?thesis unfolding bounds_def by (simp add: shape_def)
qed

lemma wf_shape: "wf_operand (unaddr x) \<Longrightarrow> 0 \<le> op_intVal x \<Longrightarrow> op_intVal x < 2 ^ 32 \<Longrightarrow> wf_operand x"
  by (cases "op_tag x = TAddr") (simp_all add: unaddr_def)

lemma length_addr_sites: "length (addr_sites off xs) = length (op_addrs xs)"
  by (induction xs arbitrary: off) (simp_all add: op_addrs_def)

lemma length_prog_sites: "length (prog_sites off is) = length (addrs is)"
  by (induction "is" arbitrary: off) (simp_all add: addrs_def length_addr_sites)

lemma op_addrs_simps [simp]: "op_addrs [] = []" "op_addrs (x # xs) = (if op_tag x = TAddr then [nat (op_intVal x)] else []) @ op_addrs xs"
  "op_addrs (xs @ ys) = op_addrs xs @ op_addrs ys"
  by (simp_all add: op_addrs_def)

lemma addrs_simps [simp]: "addrs [] = []" "addrs (i # is) = op_addrs (snd i) @ addrs is" "addrs (is @ js) = addrs is @ addrs js"
  by (simp_all add: addrs_def)

lemma addr_site_split:
  assumes "k < length (addr_sites off xs)"
  shows "\<exists>ys x zs. xs = ys @ x # zs \<and> op_tag x = TAddr \<and> k = length (op_addrs ys)
    \<and> addr_sites off xs ! k = off + length (concat (map operand_bytes ys)) + 1"
  using assms
proof (induction xs arbitrary: off k)
  case (Cons x xs)
  show ?case
  proof (cases "op_tag x = TAddr \<and> k = 0")
    case True
    then show ?thesis by (intro exI [of _ "[]"] exI [of _ x] exI [of _ xs]) simp
  next
    case False
    let ?n = "if op_tag x = TAddr then 1 else 0"
    have "k - ?n < length (addr_sites (off + length (operand_bytes x)) xs)" using Cons.prems False by auto
    from Cons.IH [OF this] obtain ys y zs where s: "xs = ys @ y # zs" "op_tag y = TAddr" "k - ?n = length (op_addrs ys)"
      "addr_sites (off + length (operand_bytes x)) xs ! (k - ?n) = off + length (operand_bytes x) + length (concat (map operand_bytes ys)) + 1" by blast
    have "addr_sites off (x # xs) ! k = addr_sites (off + length (operand_bytes x)) xs ! (k - ?n)" using False by (auto simp: nth_Cons')
    then show ?thesis using s False by (intro exI [of _ "x # ys"] exI [of _ y] exI [of _ zs]) auto
  qed
qed simp

lemma prog_site_split:
  assumes "k < length (prog_sites off is)"
  shows "\<exists>pre op ys x zs post. is = pre @ (op, ys @ x # zs) # post \<and> op_tag x = TAddr \<and> k = length (addrs pre) + length (op_addrs ys)
    \<and> prog_sites off is ! k = off + length (code_of pre) + 1 + length (concat (map operand_bytes ys)) + 1"
  using assms
proof (induction "is" arbitrary: off k)
  case (Cons i "is")
  show ?case
  proof (cases "k < length (addr_sites (off + 1) (snd i))")
    case True
    from addr_site_split [OF this] obtain ys x zs where "snd i = ys @ x # zs" "op_tag x = TAddr" "k = length (op_addrs ys)"
      "addr_sites (off + 1) (snd i) ! k = off + 1 + length (concat (map operand_bytes ys)) + 1" by blast
    with True show ?thesis by (intro exI [of _ "[]"] exI [of _ "fst i"] exI [of _ ys] exI [of _ x] exI [of _ zs] exI [of _ "is"]) (auto simp: nth_append prod_eq_iff)
  next
    case False
    let ?m = "length (addr_sites (off + 1) (snd i))"
    have "k - ?m < length (prog_sites (off + length (instr_bytes i)) is)" using Cons.prems False by auto
    from Cons.IH [OF this] obtain pre op ys x zs post where "is = pre @ (op, ys @ x # zs) # post" "op_tag x = TAddr"
      "k - ?m = length (addrs pre) + length (op_addrs ys)"
      "prog_sites (off + length (instr_bytes i)) is ! (k - ?m) = off + length (instr_bytes i) + length (code_of pre) + 1 + length (concat (map operand_bytes ys)) + 1" by blast
    with False show ?thesis
      by (intro exI [of _ "i # pre"] exI [of _ op] exI [of _ ys] exI [of _ x] exI [of _ zs] exI [of _ post]) (auto simp: nth_append length_addr_sites)
  qed
qed simp

lemma patch_bytes:
  assumes "ch_code c = as @ le_bytes 4 u @ bs" and "patchU32 (length as) v c = Inr c'"
  shows "ch_code c' = as @ le_bytes 4 v @ bs"
proof -
  have l: "le_bytes 4 w = [byte_at w 0, byte_at w 1, byte_at w 2, byte_at w 3]" for w by (simp add: le_bytes_def upt_rec numeral_eq_Suc)
  show ?thesis using assms by (auto simp: patchU32_def l list_update_append split: if_splits)
qed

lemma patch_site:
  assumes c: "ch_code c = code_of is" and k: "k < length (addrs is)" and p: "patchU32 (prog_sites 0 is ! k) v c = Inr c'"
    and wf: "list_all wf_instr is" and v: "v < 2 ^ 32"
  shows "\<exists>is'. ch_code c' = code_of is' \<and> list_all wf_instr is' \<and> shape is' = shape is \<and> addrs is' = (addrs is)[k := v]"
proof -
  obtain pre op ys x zs post where s: "is = pre @ (op, ys @ x # zs) # post" "op_tag x = TAddr" "k = length (addrs pre) + length (op_addrs ys)"
    "prog_sites 0 is ! k = 0 + length (code_of pre) + 1 + length (concat (map operand_bytes ys)) + 1"
    using prog_site_split [of k 0 "is"] k by (auto simp: length_prog_sites)
  let ?x = "x\<lparr>op_intVal := int v\<rparr>"
  let ?is = "pre @ (op, ys @ ?x # zs) # post"
  let ?as = "code_of pre @ opcode_byte op # concat (map operand_bytes ys) @ [tag_byte TAddr]" and ?bs = "concat (map operand_bytes zs) @ code_of post"
  have b: "operand_bytes y = tag_byte TAddr # le_bytes 4 (nat (op_intVal y))" if "op_tag y = TAddr" for y
    using that by (simp add: operand_bytes_def emit_defs empty_chunk_def)
  have "ch_code c = ?as @ le_bytes 4 (nat (op_intVal x)) @ ?bs" using c s(1) b [OF s(2)] by (simp add: instr_bytes_def)
  moreover have "length ?as = prog_sites 0 is ! k" using s(4) by simp
  ultimately have "ch_code c' = ?as @ le_bytes 4 v @ ?bs" using patch_bytes p by metis
  then have "ch_code c' = code_of ?is" using b [of ?x] s(2) by (simp add: instr_bytes_def)
  moreover have "shape ?is = shape is" using s(1,2) by (simp add: shape_def unaddr_def)
  moreover have "addrs ?is = (addrs is)[k := v]" using s(1,2,3) by (simp add: list_update_append)
  moreover have "wf_operand x" using wf s(1) by (auto simp: wf_instr_def)
  then have "wf_operand ?x" using s(2) v by (cases x) simp
  then have "list_all wf_instr ?is" using wf s(1) by (auto simp: wf_instr_def simp del: wf_operand.simps)
  ultimately show ?thesis by blast
qed

lemma label_offset_get: "label_offset st l = Inr v \<longleftrightarrow> getLabelOffset (mc_labelOffsets st) l = Inr v"
  by (auto simp: label_offset_def split: sum.splits)

text \<open>The patches for the sites from \<open>k\<close> on set the addresses from \<open>k\<close> on.\<close>

lemma apply_patches_sites:
  assumes "apply_patches ps st = Inr st'" and "ch_code (mc_chunk st) = code_of is" and "list_all wf_instr is"
    and "map fst ps = drop k (prog_sites 0 is)" and "\<forall>v \<in> ran (mc_labelOffsets st). v < 2 ^ 32"
  shows "\<exists>is'. ch_code (mc_chunk st') = code_of is' \<and> list_all wf_instr is' \<and> shape is' = shape is \<and> take k (addrs is') = take k (addrs is)
    \<and> list_all2 (\<lambda>p a. getLabelOffset (mc_labelOffsets st) (snd p) = Inr a) ps (drop k (addrs is'))
    \<and> mc_labelOffsets st' = mc_labelOffsets st \<and> mc_patches st' = mc_patches st
    \<and> ch_funs (mc_chunk st') = ch_funs (mc_chunk st) \<and> ch_vtables (mc_chunk st') = ch_vtables (mc_chunk st)"
  using assms
proof (induction ps arbitrary: k st "is")
  case Nil
  then have "length (addrs is) \<le> k" by (simp flip: length_prog_sites [of 0])
  with Nil show ?case by (intro exI [of _ "is"]) simp
next
  case (Cons p ps)
  obtain off l where p: "p = (off, l)" by (cases p)
  from Cons.prems(1) obtain v c where v: "label_offset st l = Inr v" "patchU32 off v (mc_chunk st) = Inr c"
    "apply_patches ps (st\<lparr>mc_chunk := c\<rparr>) = Inr st'" unfolding p by (auto split: sum.splits)
  have k: "k < length (prog_sites 0 is)" using Cons.prems(4) by (cases "k < length (prog_sites 0 is)") simp_all
  then have d: "drop k (prog_sites 0 is) = prog_sites 0 is ! k # drop (Suc k) (prog_sites 0 is)" by (rule Cons_nth_drop_Suc [symmetric])
  have off: "off = prog_sites 0 is ! k" and ps: "map fst ps = drop (Suc k) (prog_sites 0 is)" using Cons.prems(4) unfolding d p by simp_all
  have lt: "v < 2 ^ 32" using label_offset_target [OF v(1)] Cons.prems(5) by (auto simp: targets_of_def)
  have k': "k < length (addrs is)" using k by (simp add: length_prog_sites)
  from patch_site [OF Cons.prems(2) k' v(2) [unfolded off] Cons.prems(3) lt] obtain is1 where
    1: "ch_code c = code_of is1" "list_all wf_instr is1" "shape is1 = shape is" "addrs is1 = (addrs is)[k := v]" by blast
  have sites: "prog_sites 0 is1 = prog_sites 0 is" using prog_sites_shape [of 0 is1] prog_sites_shape [of 0 "is"] 1(3) by simp
  let ?st = "st\<lparr>mc_chunk := c\<rparr>"
  from v(2) have fr: "ch_funs c = ch_funs (mc_chunk st)" "ch_vtables c = ch_vtables (mc_chunk st)" by (auto simp: patchU32_def split: if_splits)
  have "ch_code (mc_chunk ?st) = code_of is1" "map fst ps = drop (Suc k) (prog_sites 0 is1)" "\<forall>v \<in> ran (mc_labelOffsets ?st). v < 2 ^ 32"
    using 1(1) ps sites Cons.prems(5) by simp_all
  from Cons.IH [OF v(3) this(1) 1(2) this(2,3)] obtain is' where
    2: "ch_code (mc_chunk st') = code_of is'" "list_all wf_instr is'" "shape is' = shape is1" "take (Suc k) (addrs is') = take (Suc k) (addrs is1)"
      "list_all2 (\<lambda>p a. getLabelOffset (mc_labelOffsets st) (snd p) = Inr a) ps (drop (Suc k) (addrs is'))"
      "mc_labelOffsets st' = mc_labelOffsets st" "mc_patches st' = mc_patches st" "ch_funs (mc_chunk st') = ch_funs (mc_chunk st)"
      "ch_vtables (mc_chunk st') = ch_vtables (mc_chunk st)" by (auto simp: fr)
  have len: "length (addrs is') = length (addrs is)" using 1(3) 2(3) prog_sites_shape [of 0 is'] prog_sites_shape [of 0 "is"]
    by (simp flip: length_prog_sites [of 0])
  have "take (Suc k) (addrs is1) = take k (addrs is) @ [v]" using k' 1(4) by (simp add: take_Suc_conv_app_nth)
  with 2(4) k' len have t: "take k (addrs is') = take k (addrs is)" "addrs is' ! k = v" by (simp_all add: take_Suc_conv_app_nth)
  have "drop k (addrs is') = addrs is' ! k # drop (Suc k) (addrs is')" using k' len by (simp add: Cons_nth_drop_Suc)
  with 2(5) t(2) v(1) have "list_all2 (\<lambda>p a. getLabelOffset (mc_labelOffsets st) (snd p) = Inr a) (p # ps) (drop k (addrs is'))"
    by (simp add: p label_offset_get)
  with 1(3) 2 t(1) show ?case by (intro exI [of _ is']) simp
qed

section \<open>The chunk the compiler returns\<close>

definition jump_targets :: "prog \<Rightarrow> nat set" where
  "jump_targets is = insert 4294967295 (bounds is)"

lemma u32_bounds: "length (code_of is) < 2 ^ 32 \<Longrightarrow> u32_cast ` bounds is = bounds is"
proof -
  assume l: "length (code_of is) < 2 ^ 32"
  have "u32_cast b = b" if "b \<in> bounds is" for b using bounds_le [OF that] l by (simp add: u32_cast_def)
  then show ?thesis by (simp cong: image_cong)
qed

lemma compile_stages:
  assumes "compile rl output st = Inr (c, st')"
  obtains st0 st1 where
    "mc_seq ([emit_entry (lo_globalInitializers output)] @ map (compileBody rl) (lo_bodies output))
       (st\<lparr>mc_chunk := empty_chunk, mc_patches := [], mc_labelOffsets := Map.empty, mc_classes := lo_classes output\<rparr>) = Inr st0"
    "mc_seq (map emit_class (mc_classes st0)) st0 = Inr st1" "apply_patches (mc_patches st1) st1 = Inr st'" "c = mc_chunk st'"
proof -
  let ?fs = "[emit_entry (lo_globalInitializers output)] @ map (compileBody rl) (lo_bodies output)"
  let ?st = "st\<lparr>mc_chunk := empty_chunk, mc_patches := [], mc_labelOffsets := Map.empty, mc_classes := lo_classes output\<rparr>"
  have "mc_seq (?fs @ [buildVTableMetadata, (\<lambda>st. apply_patches (mc_patches st) st)]) ?st = Inr st'" "c = mc_chunk st'"
    using assms unfolding compile_def by (auto split: sum.splits)
  then show thesis using that unfolding mc_seq_append by (auto simp: buildVTableMetadata_def split: sum.splits)
qed

lemma emission_ok:
  assumes "mir_ok output" and "mc_chunk st = empty_chunk" and "mc_patches st = []" and "mc_labelOffsets st = Map.empty"
    and "mc_seq ([emit_entry (lo_globalInitializers output)] @ map (compileBody rl) (lo_bodies output)) st = Inr st0"
  shows "\<exists>is. asm_ok st0 is"
proof -
  have "asm_ok st []" using assms(2-4) by (simp add: asm_ok_def empty_chunk_def)
  moreover have "asm_step (mc_seq ([emit_entry (lo_globalInitializers output)] @ map (compileBody rl) (lo_bodies output)))"
    by (rule asm_seq) (use assms(1) in \<open>auto simp: mir_ok_def list_all_iff intro!: asm_entry asm_body\<close>)
  ultimately show ?thesis using asm_stepD assms(5) by fastforce
qed

text \<open>
  Property C3 (refinement). A chunk that \<open>MIRCompiler::compile\<close> returns, from MIR whose numbers are in
  the ranges of their C++ types, is decoded without error into a sequence of well-formed instructions;
  each address operand holds the offset of the label it was emitted for, and every such address, every
  method offset of a virtual or interface table and both ends of every function is an instruction
  boundary (or the offset 0xFFFFFFFF reserved for \<open>print\<close>).
\<close>

theorem compile_wellformed:
  assumes "mir_ok output" and "compile rl output st = Inr (c, st')" and "length (ch_code c) < 2 ^ 32"
  shows "\<exists>is. decodeBytecode c = Inr (located 0 is) \<and> list_all wf_instr is
    \<and> list_all2 (\<lambda>p a. getLabelOffset (mc_labelOffsets st') (snd p) = Inr a) (mc_patches st') (addrs is)
    \<and> set (addrs is) \<subseteq> jump_targets is \<and> (\<forall>vt \<in> set (ch_vtables c). vt_ok (jump_targets is) vt)
    \<and> (\<forall>f \<in> set (ch_funs c). fi_start f \<in> bounds is \<and> fi_end f \<in> bounds is)"
proof -
  obtain st0 st1 where s: "mc_seq ([emit_entry (lo_globalInitializers output)] @ map (compileBody rl) (lo_bodies output))
       (st\<lparr>mc_chunk := empty_chunk, mc_patches := [], mc_labelOffsets := Map.empty, mc_classes := lo_classes output\<rparr>) = Inr st0"
    "mc_seq (map emit_class (mc_classes st0)) st0 = Inr st1" "apply_patches (mc_patches st1) st1 = Inr st'" "c = mc_chunk st'"
    using compile_stages [OF assms(2)] .
  from emission_ok [OF assms(1) _ _ _ s(1)] obtain is0 where ok: "asm_ok st0 is0" by auto
  then have "ch_vtables (mc_chunk st0) = []" by (simp add: asm_ok_def)
  then have vt: "vt_frame st0 st1" "\<forall>vt \<in> set (ch_vtables (mc_chunk st1)). vt_ok (targets_of st0) vt"
    using buildVTable_ok [OF s(2)] by simp_all
  have ran: "ran (mc_labelOffsets st1) \<subseteq> u32_cast ` bounds is0" using ok vt(1) by (simp add: asm_ok_def vt_frame_def)
  then have "\<forall>v \<in> ran (mc_labelOffsets st1). v < 2 ^ 32" by (auto simp: u32_cast_def)
  with ok vt(1) s(3) obtain "is" where
    f: "ch_code (mc_chunk st') = code_of is" "list_all wf_instr is" "shape is = shape is0"
      "list_all2 (\<lambda>p a. getLabelOffset (mc_labelOffsets st1) (snd p) = Inr a) (mc_patches st1) (addrs is)"
      "mc_labelOffsets st' = mc_labelOffsets st1" "mc_patches st' = mc_patches st1" "ch_funs (mc_chunk st') = ch_funs (mc_chunk st1)"
      "ch_vtables (mc_chunk st') = ch_vtables (mc_chunk st1)"
    using apply_patches_sites [of "mc_patches st1" st1 st' is0 0] by (auto simp: asm_ok_def vt_frame_def)
  have "bounds is0 = bounds is" using f(3) by (metis bounds_shape)
  moreover have "u32_cast ` bounds is = bounds is" using assms(3) f(1) s(4) by (intro u32_bounds) simp
  ultimately have b: "u32_cast ` bounds is0 = bounds is" by simp
  have t: "targets_of st1 \<subseteq> jump_targets is" using ran unfolding b targets_of_def jump_targets_def by blast
  have t0: "targets_of st0 = targets_of st1" using vt(1) by (simp add: targets_of_def vt_frame_def)
  have "decodeBytecode c = Inr (located 0 is)" using decode_instrs [OF f(2), of "[]"] f(1) s(4) by (simp add: decodeBytecode_def code_of_def)
  moreover have "set (addrs is) \<subseteq> jump_targets is"
  proof
    fix a assume "a \<in> set (addrs is)"
    then obtain l where "getLabelOffset (mc_labelOffsets st1) l = Inr a" using f(4) by (auto simp: list_all2_conv_all_nth in_set_conv_nth)
    then have "a \<in> targets_of st1" using label_offset_target [of st1 l a] by (simp add: label_offset_get)
    with t show "a \<in> jump_targets is" by blast
  qed
  moreover have "vt_ok (jump_targets is) v" if "v \<in> set (ch_vtables c)" for v
    using vt(2) t that unfolding s(4) f(8) t0 vt_ok_def by blast
  moreover have "fi_start g \<in> bounds is \<and> fi_end g \<in> bounds is" if "g \<in> set (ch_funs c)" for g
    using ok vt(1) that unfolding s(4) f(7) by (simp add: asm_ok_def vt_frame_def b)
  ultimately show ?thesis using f(2,4,5,6) by (intro exI [of _ "is"]) simp
qed

definition sample_main :: lowering_output where
  "sample_main = \<lparr>lo_bodies = [\<lparr>mb_locals = [\<lparr>ld_ty = mkInt, ld_name = [], ld_mut = True\<rparr>],
     mb_blocks = [\<lparr>bb_stmts = [(StAssign 0 (RvUse (OpConst (CI64 7))), \<lparr>sl_file = [], sl_line = 0, sl_col = 0\<rparr>)],
                   bb_term = (TmGoto 1, \<lparr>sl_file = [], sl_line = 0, sl_col = 0\<rparr>)\<rparr>,
                  \<lparr>bb_stmts = [], bb_term = (TmReturn, \<lparr>sl_file = [], sl_line = 0, sl_col = 0\<rparr>)\<rparr>],
     mb_name = ''main'', mb_ret_ty = mkInt, mb_paramCount = 0\<rparr>],
     lo_classes = [\<lparr>lc_name = ''A'', lc_typeId = 0, lc_parentTypeId = 4294967295, lc_vtableEntryCount = 1,
       lc_vtableMethodNames = [''main''], lc_itables = []\<rparr>], lo_globalInitializers = []\<rparr>"

definition fresh_compiler :: mir_compiler where
  "fresh_compiler = \<lparr>mc_chunk = empty_chunk, mc_patches = [], mc_labelOffsets = Map.empty, mc_classes = [],
     mc_currentBody = None, mc_cmpLabelId = 0, mc_notLabelId = 0\<rparr>"

lemma sample_main_code:
  "\<exists>c st'. compile (\<lambda>_. []) sample_main fresh_compiler = Inr (c, st') \<and> length (ch_code c) < 2 ^ 32 \<and> length (ch_funs c) = 1 \<and> length (ch_vtables c) = 1"
  unfolding sample_main_def fresh_compiler_def compile_def
  by (simp add: emit_entry_def compileBody_def set_label_def emit_prologue_def emit_block_def recordSource_def emitStatement_def emitRvalue_def
    emitRvalue_at_def with_local_def localToReg_def emitOperandToReg_def ins_def emit_arg_def emitReg_def emitImm_def emitI64_le emitAddr_def emitU32_le emitByte_def
    emitTerminator_def emit_jump_def blockLabel_def finish_body_def buildVTableMetadata_def emit_class_def vtable_row_def label_offset_def
    getLabelOffset_def patchU32_def here_def offset_def empty_chunk_def resize_to_def Let_def le_bytes_def u32_cast_def)

theorem compile_wellformed_witness:
  "\<exists>c st' is. compile (\<lambda>_. []) sample_main fresh_compiler = Inr (c, st') \<and> decodeBytecode c = Inr (located 0 is)
    \<and> list_all wf_instr is \<and> set (addrs is) \<subseteq> jump_targets is \<and> length (ch_funs c) = 1"
proof -
  obtain c st' where c: "compile (\<lambda>_. []) sample_main fresh_compiler = Inr (c, st')" "length (ch_code c) < 2 ^ 32" "length (ch_funs c) = 1"
    using sample_main_code by blast
  have "mir_ok sample_main" by (simp add: mir_ok_def sample_main_def block_ok_def in_i64_def)
  from compile_wellformed [OF this c(1,2)] c(1,3) show ?thesis by blast
qed

end
