(* ===== verification/Lx_HIR.thy ===== *)
theory Lx_HIR
  imports Lx_MIR
begin

text \<open>
  The high-level intermediate representation (\<open>v2/hir/HIR.hpp\<close>): patterns, expressions, statements and
  items, with every field of the source.  A shared pointer that some code compares with null is an option; one
  that is always followed is the value it points to.
\<close>

section \<open>Patterns and expressions\<close>

datatype (plugins only: code size) mir_assignop =
  AssignSet | AddEq | SubEq | MulEq | DivEq | RemEq | AmpEq | PipeEq | CaretEq | ShlEq | ShrEq

datatype (plugins only: code size) hir_pat =
    HirPatWild
  | HirPatBind string bool "hir_pat option"
  | HirPatEnum "hir_pat option list" nat

datatype (plugins only: code size) hir_value = LitI64 int | LitU64 nat | LitDouble int | LitBool bool | LitChar int | LitStr string

record hir_capture =
  hc_name :: string
  hc_ty :: ty
  hc_offset :: nat
  hc_sourceOffset :: nat

datatype 'e hir_stmt = HirStmtLet hir_pat ty 'e | HirStmtExpr "'e option"

datatype 'e hir_cond = CondExpr 'e | CondPat "hir_pat option" | CondNone

datatype 'e hir_arm = HirWhenArm (arm_cond: "'e hir_cond") (arm_body: 'e) (arm_isElse: bool)

datatype 'e hir_catch = HirCatchClause (cc_name: string) (cc_exceptionTy: ty) (cc_typeId: nat) (cc_body: 'e)

datatype (plugins only: size) 'e hir_node =
    HirLit ty hir_value
  | HirPath string "ty list" ty bool nat nat
  | HirTuple "'e list" ty
  | HirArray "'e list" ty
  | HirStruct string "(string \<times> 'e) list" "ty list" nat nat ty
  | HirCall "'e option" "string option" string "'e list" "ty list" ty
  | HirMethodCall 'e string string "'e list" nat bool nat nat ty "ty list"
  | HirField 'e string nat ty
  | HirIndex 'e 'e ty
  | HirUnary mir_unop 'e ty
  | HirBinary mir_binop 'e 'e ty
  | HirAssign mir_assignop 'e 'e ty
  | HirBlock "'e hir_stmt list" "'e option" ty
  | HirIf 'e 'e "'e option" ty
  | HirWhile 'e 'e "string option" ty
  | HirFor hir_pat 'e 'e "string option" ty
  | HirLoop 'e "string option" ty
  | HirWhen "'e option" "'e hir_arm list" ty
  | HirBreak "string option" "'e option" ty
  | HirContinue "string option" ty
  | HirReturn "'e option" ty
  | HirThrow 'e ty
  | HirTryCatch 'e "'e hir_catch list" "'e option" ty
  | HirRef bool 'e ty
  | HirDeref 'e ty
  | HirTry 'e ty
  | HirCast 'e ty ty
  | HirSafeCall 'e string "'e list" ty
  | HirSafeField 'e string nat ty
  | HirElvis 'e 'e ty
  | HirForceUnwrap 'e ty
  | HirIs 'e nat ty
  | HirIsNot 'e nat ty
  | HirNull ty
  | HirClosure string "hir_capture list" nat ty
  | HirEnumCtor string nat nat nat "nat list" "'e list" ty

datatype (plugins only: size) hir_expr = HirExpr "hir_expr hir_node" source_location

section \<open>Items\<close>

record hir_fn =
  hf_name :: string
  hf_generics :: "string list"
  hf_params :: "(string \<times> ty) list"
  hf_ret :: ty
  hf_body :: hir_expr
  hf_closureEnvTypeId :: nat
  hf_globalSlot :: nat

record hir_ctor_param =
  cp_name :: string
  cp_ty :: ty
  cp_isVal :: bool
  cp_isVar :: bool
  cp_fieldOffset :: nat

record hir_class_field =
  cf_name :: string
  cf_ty :: ty
  cf_offset :: nat
  cf_isVal :: bool
  cf_initializer :: "hir_expr option"

record hir_class =
  hk_name :: string
  hk_generics :: "string list"
  hk_typeId :: nat
  hk_parentTypeId :: nat
  hk_superClassArgs :: "hir_expr list"
  hk_superFieldOffsets :: "nat list"
  hk_totalFieldSize :: nat
  hk_vtableEntryCount :: nat
  hk_vtableMethodNames :: "string list"
  hk_itables :: "itable_map list"
  hk_ctorParams :: "hir_ctor_param list"
  hk_fields :: "hir_class_field list"
  hk_initBlocks :: "hir_expr option list"
  hk_methods :: "hir_fn list"
  hk_isSingleton :: bool
  hk_globalSlot :: nat

datatype (plugins only: code size) hir_item = ItemFn hir_fn | ItemClass hir_class

type_synonym hir_module = "hir_item list"

end
