(* ===== verification/Lx_Steps.thy ===== *)
theory Lx_Steps
  imports Main
begin

text \<open>
  Code that changes the members of its class and can fail, as steps on a state: a step returns a value and the new
  state, or an error.  The lemmas at the end run steps on a concrete state: the continuation of a step is not
  simplified before its state is known.
\<close>

type_synonym ('s, 'e, 'a) steps = "'s \<Rightarrow> 'e + 'a \<times> 's"

definition lret :: "'a \<Rightarrow> ('s, 'e, 'a) steps" where
  "lret x st = Inr (x, st)"

definition lbind :: "('s, 'e, 'a) steps \<Rightarrow> ('a \<Rightarrow> ('s, 'e, 'b) steps) \<Rightarrow> ('s, 'e, 'b) steps" where
  "lbind m f st = (case m st of Inl e \<Rightarrow> Inl e | Inr (x, st') \<Rightarrow> f x st')"

definition lmod :: "('s \<Rightarrow> 's) \<Rightarrow> ('s, 'e, unit) steps" where
  "lmod f st = Inr ((), f st)"

definition lget :: "('s \<Rightarrow> 'a) \<Rightarrow> ('s, 'e, 'a) steps" where
  "lget f st = Inr (f st, st)"

definition lfail :: "'e \<Rightarrow> ('s, 'e, 'a) steps" where
  "lfail e st = Inl e"

definition lwhen :: "bool \<Rightarrow> ('s, 'e, unit) steps \<Rightarrow> ('s, 'e, unit) steps" where
  "lwhen b m = (if b then m else lret ())"

text \<open>Steps in order, then a value.\<close>

fun lseq :: "('s, 'e, unit) steps list \<Rightarrow> ('s, 'e, 'a) steps \<Rightarrow> ('s, 'e, 'a) steps" where
  "lseq [] k = k"
| "lseq (m # ms) k = lbind m (\<lambda>_. lseq ms k)"

fun lmap :: "('a \<Rightarrow> ('s, 'e, 'b) steps) \<Rightarrow> 'a list \<Rightarrow> ('s, 'e, 'b list) steps" where
  "lmap f [] = lret []"
| "lmap f (x # xs) = lbind (f x) (\<lambda>y. lbind (lmap f xs) (\<lambda>ys. lret (y # ys)))"

definition leach :: "('a \<Rightarrow> ('s, 'e, unit) steps) \<Rightarrow> 'a list \<Rightarrow> ('s, 'e, unit) steps" where
  "leach f xs = lseq (map f xs) (lret ())"

section \<open>Running\<close>

lemma size_mem: "x \<in> set xs \<Longrightarrow> g x \<le> size_list g xs"
  by (simp add: size_list_estimation')

lemma lbind_run: "lbind m f st = (case m st of Inl e \<Rightarrow> Inl e | Inr (x, st') \<Rightarrow> f x st')"
  by (simp add: lbind_def)

lemma lseq_append: "lseq (ms @ ns) k = lseq ms (lseq ns k)"
  by (induction ms) simp_all

lemma lseq_bind: "lseq ms k = lbind (lseq ms (lret ())) (\<lambda>_. k)"
proof (induction ms)
  case Nil
  show ?case by (rule ext) (simp add: lbind_def lret_def)
next
  case (Cons m ms)
  show ?case
  proof (rule ext)
    fix st
    show "lseq (m # ms) k st = lbind (lseq (m # ms) (lret ())) (\<lambda>_. k) st"
      by (simp add: lbind_def Cons.IH split: sum.split)
  qed
qed

lemma lbind_freeze: "lbind m f = lbind m f" ..

lemma lseq_freeze: "ms = ms2 \<Longrightarrow> lseq ms k = lseq ms2 k" by simp

lemma lseq_run: "lseq [] k st = k st" "lseq (m # ms) k st = (case m st of Inl e \<Rightarrow> Inl e | Inr (x, st') \<Rightarrow> lseq ms k st')"
  by (simp_all add: lbind_def)

lemma lwhen_run: "lwhen b m st = (if b then m st else Inr ((), st))"
  by (simp add: lwhen_def lret_def)

lemmas steps_run = lbind_run lseq_run lseq_append lwhen_run lret_def lmod_def lget_def lfail_def leach_def

lemmas steps_congs = lbind_freeze lseq_freeze sum.case_cong_weak prod.case_cong_weak option.case_cong_weak if_weak_cong

end
