(* ===== verification/Lx_Lower.thy ===== *)
theory Lx_Lower
  imports Lx_HIR Lx_Steps
begin

text \<open>
  The lowering of HIR to MIR (\<open>v2/backend/Lowering.cpp\<close>).  The members of the class are a record passed
  from step to step; the stacks of loops and finalizers, which every push pops again, are an argument.  A
  step returns its value and the new state or an error.  The recursion of \<open>lowerExpr\<close> leaves the syntax tree when
  a jump lowers the pending finalizers, so it runs on fuel; the size of the expression is enough.  The errors are
  the exception of \<open>panic\<close>, a null pointer that is followed, an index past the end of a vector, and missing fuel.
\<close>

section \<open>State\<close>

datatype low_error = LE_Throws string | LE_Null | LE_Range | LE_Fuel

record lower_state =
  lw_locals :: "local_decl list"
  lw_blocks :: "basic_block list"
  lw_currentBlock :: block_id
  lw_exitBlock :: block_id
  lw_terminated :: bool
  lw_scope :: "string \<rightharpoonup> local_id"
  lw_closureEnv :: "local_id option"
  lw_className :: string
  lw_loc :: source_location
  lw_scratch :: "local_id option"

type_synonym 'a low = "(lower_state, low_error, 'a) steps"

record loop_context =
  lp_breakTarget :: block_id
  lp_continueTarget :: block_id
  lp_label :: "string option"
  lp_finallyDepth :: nat

text \<open>The loop stack, and the finalizer stack with the flag whether its handler is active.\<close>

record low_ctx =
  cx_loops :: "loop_context list"
  cx_finally :: "(hir_expr \<times> bool) list"

type_synonym low_rec = "low_ctx \<Rightarrow> hir_expr \<Rightarrow> local_id low"

section \<open>Blocks and locals\<close>

definition no_loc :: source_location where
  "no_loc = \<lparr>sl_file = [], sl_line = 0, sl_col = 0\<rparr>"

definition new_basic_block :: basic_block where
  "new_basic_block = \<lparr>bb_stmts = [], bb_term = (TmGoto 0, no_loc)\<rparr>"

definition newLocal :: "ty \<Rightarrow> string \<Rightarrow> bool \<Rightarrow> local_id low" where
  "newLocal t name m st = Inr (length (lw_locals st), st\<lparr>lw_locals := lw_locals st @ [\<lparr>ld_ty = t, ld_name = name, ld_mut = m\<rparr>]\<rparr>)"

definition newBlock :: "block_id low" where
  "newBlock st = Inr (length (lw_blocks st), st\<lparr>lw_blocks := lw_blocks st @ [new_basic_block]\<rparr>)"

definition emit :: "statement \<Rightarrow> unit low" where
  "emit s st =
     (if lw_terminated st then Inr ((), st)
      else let b = lw_currentBlock st in
        if b \<ge> length (lw_blocks st) then Inl LE_Range
        else Inr ((), st\<lparr>lw_blocks := (lw_blocks st)[b := (lw_blocks st ! b)\<lparr>bb_stmts := bb_stmts (lw_blocks st ! b) @ [(s, lw_loc st)]\<rparr>]\<rparr>))"

definition end_block :: "terminator \<Rightarrow> unit low" where
  "end_block t st =
     (if lw_terminated st then Inr ((), st)
      else let b = lw_currentBlock st in
        if b \<ge> length (lw_blocks st) then Inl LE_Range
        else Inr ((), st\<lparr>lw_blocks := (lw_blocks st)[b := (lw_blocks st ! b)\<lparr>bb_term := (t, lw_loc st)\<rparr>], lw_terminated := True\<rparr>))"

definition assign :: "local_id \<Rightarrow> rvalue \<Rightarrow> unit low" where
  "assign l rv = emit (StAssign l rv)"

definition enter :: "block_id \<Rightarrow> unit low" where
  "enter b = lmod (\<lambda>st. st\<lparr>lw_currentBlock := b, lw_terminated := False\<rparr>)"

definition unless_terminated :: "unit low list \<Rightarrow> unit low" where
  "unless_terminated ms = lbind (lget lw_terminated) (\<lambda>t. lwhen (\<not> t) (lseq ms (lret ())))"

definition unitLocal :: "local_id low" where
  "unitLocal = lbind (newLocal mkUnit ''unit'' False) (\<lambda>tmp. lseq [assign tmp (RvUse (OpConst (CI64 0)))] (lret tmp))"

definition scratchLocal :: "local_id low" where
  "scratchLocal =
     lbind (lget lw_scratch) (\<lambda>s. case s of
        Some l \<Rightarrow> lret l
      | None \<Rightarrow> lbind (newLocal mkUnit ''_scratch'' False) (\<lambda>l. lseq [lmod (\<lambda>st. st\<lparr>lw_scratch := Some l\<rparr>)] (lret l)))"

definition bind_name :: "string \<Rightarrow> local_id \<Rightarrow> unit low" where
  "bind_name name l = lmod (\<lambda>st. st\<lparr>lw_scope := (lw_scope st)(name \<mapsto> l)\<rparr>)"

text \<open>A new local assigned from a right-hand side.\<close>

definition local_of :: "ty \<Rightarrow> string \<Rightarrow> rvalue \<Rightarrow> local_id low" where
  "local_of t name rv = lbind (newLocal t name False) (\<lambda>tmp. lseq [assign tmp rv] (lret tmp))"

definition binOpForAssign :: "mir_assignop \<Rightarrow> mir_binop" where
  "binOpForAssign op =
     (case op of AddEq \<Rightarrow> BinAdd | SubEq \<Rightarrow> BinSub | MulEq \<Rightarrow> BinMul | DivEq \<Rightarrow> BinDiv | RemEq \<Rightarrow> BinRem | AmpEq \<Rightarrow> BinBitAnd
      | PipeEq \<Rightarrow> BinBitOr | CaretEq \<Rightarrow> BinBitXor | ShlEq \<Rightarrow> BinShl | ShrEq \<Rightarrow> BinShr | AssignSet \<Rightarrow> BinAdd)"

section \<open>Finalizers and places\<close>

fun run_finalizers :: "low_rec \<Rightarrow> low_ctx \<Rightarrow> (hir_expr \<times> bool) list \<Rightarrow> bool low" where
  "run_finalizers rec ctx [] = lret True"
| "run_finalizers rec ctx ((f, active) # fs) =
     lseq [lwhen active (emit StTryPop), lbind (rec ctx f) (\<lambda>_. lret ())]
       (lbind (lget lw_terminated) (\<lambda>t. if t then lret False else run_finalizers rec ctx fs))"

definition lowerFinalizersTo :: "low_rec \<Rightarrow> low_ctx \<Rightarrow> nat \<Rightarrow> bool low" where
  "lowerFinalizersTo rec ctx depth =
     run_finalizers rec (ctx\<lparr>cx_finally := take depth (cx_finally ctx)\<rparr>) (rev (drop depth (cx_finally ctx)))"

definition lowerPlace :: "low_rec \<Rightarrow> low_ctx \<Rightarrow> hir_expr \<Rightarrow> local_id low" where
  "lowerPlace rec ctx expr =
     (case expr of HirExpr node loc \<Rightarrow>
        (case node of
           HirPath name _ _ _ _ _ \<Rightarrow> lbind (lget lw_scope) (\<lambda>sc. case sc name of Some l \<Rightarrow> lret l | None \<Rightarrow> unitLocal)
         | HirDeref e _ \<Rightarrow> rec ctx e
         | HirUnary op operand _ \<Rightarrow> if op = UnDeref then rec ctx operand else rec ctx expr
         | _ \<Rightarrow> lfail (LE_Throws ''lowering was asked for the place of a non-place expression'')))"

section \<open>Expressions\<close>

definition lit_const :: "hir_value \<Rightarrow> mir_const" where
  "lit_const v =
     (case v of LitI64 i \<Rightarrow> CI64 i | LitU64 n \<Rightarrow> CU64 n | LitDouble d \<Rightarrow> CDouble d | LitBool b \<Rightarrow> CBool b | LitChar c \<Rightarrow> CChar c | LitStr s \<Rightarrow> CStr s)"

definition lower_path :: "string \<Rightarrow> ty \<Rightarrow> bool \<Rightarrow> nat \<Rightarrow> nat \<Rightarrow> local_id low" where
  "lower_path name t isStatic captureOffset globalSlot =
     (if globalSlot \<noteq> 4294967295 then local_of t ''global'' (RvGlobalLoad globalSlot)
      else lbind (lget (\<lambda>st. (lw_scope st name, lw_closureEnv st))) (\<lambda>(l, env).
        case l of
          Some l \<Rightarrow> lret l
        | None \<Rightarrow>
            (case env of
               Some env' \<Rightarrow>
                 if captureOffset \<noteq> 4294967295 then local_of t ''capture'' (RvClosureGet env' captureOffset)
                 else if isStatic then local_of t ''fnptr'' (RvUse (OpLabel name)) else unitLocal
             | None \<Rightarrow> if isStatic then local_of t ''fnptr'' (RvUse (OpLabel name)) else unitLocal)))"

definition lower_elems :: "low_rec \<Rightarrow> low_ctx \<Rightarrow> aggregate_kind \<Rightarrow> string \<Rightarrow> hir_expr list \<Rightarrow> ty \<Rightarrow> local_id low" where
  "lower_elems rec ctx ak name elems t =
     lbind (lmap (rec ctx) elems) (\<lambda>ls. local_of t name (RvAggregate ak 0 (map OpCopy ls)))"

text \<open>Store the value of each expression at its offset in the object \<open>obj\<close>.\<close>

definition store_fields :: "low_rec \<Rightarrow> low_ctx \<Rightarrow> local_id \<Rightarrow> (nat \<times> hir_expr) list \<Rightarrow> unit low" where
  "store_fields rec ctx obj fs = leach (\<lambda>(off, e). lbind (rec ctx e) (\<lambda>v. assign obj (RvHStore off (OpCopy v)))) fs"

definition lower_struct :: "low_rec \<Rightarrow> low_ctx \<Rightarrow> (string \<times> hir_expr) list \<Rightarrow> nat \<Rightarrow> nat \<Rightarrow> ty \<Rightarrow> local_id low" where
  "lower_struct rec ctx flds totalFieldSize typeId t =
     lbind (local_of t ''obj'' (RvAlloc (if totalFieldSize > 0 then totalFieldSize else 9) typeId)) (\<lambda>obj.
       lseq [store_fields rec ctx obj (map (\<lambda>i. (u32_cast (i * 9), snd (flds ! i))) [0..<length flds])] (lret obj))"

definition lower_captures :: "hir_capture list \<Rightarrow> mir_operand list low" where
  "lower_captures caps =
     lbind (lmap (\<lambda>c. lbind (lget (\<lambda>st. (lw_scope st (hc_name c), lw_closureEnv st))) (\<lambda>(l, env).
         case l of
           Some l \<Rightarrow> lret [OpCopy l]
         | None \<Rightarrow>
             (case env of
                Some env' \<Rightarrow>
                  if hc_sourceOffset c \<noteq> 4294967295
                  then lbind (local_of (hc_ty c) ''fwd_cap'' (RvClosureGet env' (hc_sourceOffset c))) (\<lambda>src. lret [OpCopy src])
                  else lret []
              | None \<Rightarrow> lret []))) caps)
       (\<lambda>ops. lret (concat ops))"

definition lower_closure :: "string \<Rightarrow> hir_capture list \<Rightarrow> nat \<Rightarrow> ty \<Rightarrow> local_id low" where
  "lower_closure fname caps envTypeId t =
     lbind (lower_captures caps) (\<lambda>ops. local_of t ''closure'' (RvClosure fname envTypeId ops))"

definition lower_enum_ctor :: "low_rec \<Rightarrow> low_ctx \<Rightarrow> nat \<Rightarrow> nat \<Rightarrow> nat \<Rightarrow> nat list \<Rightarrow> hir_expr list \<Rightarrow> ty \<Rightarrow> local_id low" where
  "lower_enum_ctor rec ctx typeId variantIndex totalFieldSize offsets args t =
     lbind (local_of t ''enum'' (RvAlloc (if totalFieldSize > 0 then totalFieldSize else 9) typeId)) (\<lambda>obj.
       lseq [assign obj (RvHStore 0 (OpConst (CI64 (int variantIndex)))), store_fields rec ctx obj (zip offsets args)] (lret obj))"

text \<open>End the block with a call that resumes in a new one, and fetch the result.\<close>

definition finish_call :: "ty \<Rightarrow> (local_id \<Rightarrow> block_id \<Rightarrow> terminator) \<Rightarrow> local_id low" where
  "finish_call t mk =
     lbind (newLocal t ''call'' False) (\<lambda>dest. lbind newBlock (\<lambda>resume.
       lseq [end_block (mk dest resume), enter resume, assign dest (RvUse (OpMove 0))] (lret dest)))"

definition is_closure_call :: "hir_expr \<Rightarrow> bool" where
  "is_closure_call f =
     (case f of HirExpr node loc \<Rightarrow>
        (case node of HirClosure _ _ _ _ \<Rightarrow> True | HirPath _ _ _ _ captureOffset _ \<Rightarrow> captureOffset \<noteq> 4294967295 | _ \<Rightarrow> False))"

definition lower_call :: "low_rec \<Rightarrow> low_ctx \<Rightarrow> hir_expr option \<Rightarrow> string option \<Rightarrow> string \<Rightarrow> hir_expr list \<Rightarrow> ty \<Rightarrow> local_id low" where
  "lower_call rec ctx func staticName ctorLabel args t =
     lbind (if ctorLabel \<noteq> [] then lret (TmCall (OpConst (CStr ctorLabel)))
            else case staticName of
              Some s \<Rightarrow> lret (TmCall (OpConst (CStr s)))
            | None \<Rightarrow>
                (case func of
                   None \<Rightarrow> lfail LE_Null
                 | Some f \<Rightarrow> lbind (rec ctx f) (\<lambda>l. lret ((if is_closure_call f then TmClosureCall else TmCallIndirect) (OpCopy l)))))
       (\<lambda>mk. lbind (lmap (rec ctx) args) (\<lambda>ls. finish_call t (mk (map OpCopy ls))))"

definition lower_method_call ::
  "low_rec \<Rightarrow> low_ctx \<Rightarrow> hir_expr \<Rightarrow> string \<Rightarrow> string \<Rightarrow> hir_expr list \<Rightarrow> nat \<Rightarrow> bool \<Rightarrow> nat \<Rightarrow> nat \<Rightarrow> ty \<Rightarrow> local_id low" where
  "lower_method_call rec ctx recv method qualifiedName args vtableIndex isInterface ifaceTypeId ifaceMethodIndex t =
     lbind (rec ctx recv) (\<lambda>r. lbind (lmap (rec ctx) args) (\<lambda>ls.
       let ops = map OpCopy (r # ls) in
       finish_call t
         (if isInterface then TmInterfaceCall r ifaceTypeId ifaceMethodIndex ops
          else if vtableIndex \<noteq> 4294967295 then TmVirtualCall r vtableIndex ops
          else TmCall (OpConst (CStr (if qualifiedName = [] then method else qualifiedName))) ops)))"

definition lower_unary :: "low_rec \<Rightarrow> low_ctx \<Rightarrow> mir_unop \<Rightarrow> hir_expr \<Rightarrow> ty \<Rightarrow> local_id low" where
  "lower_unary rec ctx op operand t =
     lbind (rec ctx operand) (\<lambda>l. local_of t ''unary''
       (if op = UnToStr \<or> op = UnNeg \<or> op = UnNot then RvUnary op (OpCopy l)
        else if op = UnDeref then RvUse (OpCopy l)
        else RvRef (op = UnRefMut) l))"

section \<open>Assignments\<close>

text \<open>The new value of a compound assignment: read the old one, compute into a new local.\<close>

definition compound :: "mir_assignop \<Rightarrow> ty \<Rightarrow> string \<Rightarrow> string \<Rightarrow> rvalue \<Rightarrow> local_id \<Rightarrow> local_id low" where
  "compound op t rd wr old rhs =
     lbind (local_of t rd old) (\<lambda>oldVal. local_of t wr (RvBinary (binOpForAssign op) (OpCopy oldVal) (OpCopy rhs)))"

definition assign_capture :: "low_rec \<Rightarrow> low_ctx \<Rightarrow> local_id \<Rightarrow> nat \<Rightarrow> mir_assignop \<Rightarrow> hir_expr \<Rightarrow> ty \<Rightarrow> unit low" where
  "assign_capture rec ctx env off op rhs t =
     lbind (rec ctx rhs) (\<lambda>r.
       if op = AssignSet then assign env (RvClosureSet off (OpCopy r))
       else lbind (compound op t ''cap_rd'' ''cap_wr'' (RvClosureGet env off) r) (\<lambda>new. assign env (RvClosureSet off (OpCopy new))))"

definition assign_global :: "low_rec \<Rightarrow> low_ctx \<Rightarrow> nat \<Rightarrow> mir_assignop \<Rightarrow> hir_expr \<Rightarrow> ty \<Rightarrow> unit low" where
  "assign_global rec ctx slot op rhs t =
     lbind (rec ctx rhs) (\<lambda>r.
     lbind (if op = AssignSet then lret r else compound op t ''glob_rd'' ''glob_wr'' (RvGlobalLoad slot) r) (\<lambda>v.
     lbind scratchLocal (\<lambda>s. assign s (RvGlobalStore slot (OpCopy v)))))"

definition assign_field :: "low_rec \<Rightarrow> low_ctx \<Rightarrow> hir_expr \<Rightarrow> nat \<Rightarrow> ty \<Rightarrow> mir_assignop \<Rightarrow> hir_expr \<Rightarrow> unit low" where
  "assign_field rec ctx obj off ft op rhs =
     lbind (rec ctx obj) (\<lambda>ob. lbind (rec ctx rhs) (\<lambda>r.
       lbind (if op = AssignSet then lret r else compound op ft ''fld_rd'' ''fld_wr'' (RvField ob off) r)
         (\<lambda>v. assign ob (RvHStore off (OpCopy v)))))"

definition assign_index :: "low_rec \<Rightarrow> low_ctx \<Rightarrow> hir_expr \<Rightarrow> hir_expr \<Rightarrow> ty \<Rightarrow> mir_assignop \<Rightarrow> hir_expr \<Rightarrow> unit low" where
  "assign_index rec ctx obj idx it op rhs =
     lbind (rec ctx obj) (\<lambda>ob. lbind (rec ctx idx) (\<lambda>i. lbind (rec ctx rhs) (\<lambda>r.
       lbind (if op = AssignSet then lret r else compound op it ''elt_rd'' ''elt_wr'' (RvIndex ob (OpCopy i)) r)
         (\<lambda>v. assign ob (RvIndexStore (OpCopy i) (OpCopy v))))))"

definition assign_local :: "low_rec \<Rightarrow> low_ctx \<Rightarrow> mir_assignop \<Rightarrow> hir_expr \<Rightarrow> hir_expr \<Rightarrow> unit low" where
  "assign_local rec ctx op lhs rhs =
     lbind (rec ctx rhs) (\<lambda>r. lbind (lowerPlace rec ctx lhs) (\<lambda>l.
       assign l (if op = AssignSet then RvUse (OpCopy r) else RvBinary (binOpForAssign op) (OpCopy l) (OpCopy r))))"

definition assign_other :: "low_rec \<Rightarrow> low_ctx \<Rightarrow> mir_assignop \<Rightarrow> hir_expr \<Rightarrow> hir_expr \<Rightarrow> unit low" where
  "assign_other rec ctx op lhs rhs =
     (case lhs of HirExpr node loc \<Rightarrow>
        (case node of
           HirField obj _ off ft \<Rightarrow> assign_field rec ctx obj off ft op rhs
         | HirIndex obj idx it \<Rightarrow> assign_index rec ctx obj idx it op rhs
         | _ \<Rightarrow> assign_local rec ctx op lhs rhs))"

definition path_slots :: "hir_expr \<Rightarrow> nat \<times> nat" where
  "path_slots lhs =
     (case lhs of HirExpr node loc \<Rightarrow>
        (case node of HirPath _ _ _ _ captureOffset globalSlot \<Rightarrow> (captureOffset, globalSlot) | _ \<Rightarrow> (4294967295, 4294967295)))"

definition lower_assign :: "low_rec \<Rightarrow> low_ctx \<Rightarrow> mir_assignop \<Rightarrow> hir_expr \<Rightarrow> hir_expr \<Rightarrow> ty \<Rightarrow> local_id low" where
  "lower_assign rec ctx op lhs rhs t =
     lbind (lget lw_closureEnv) (\<lambda>env.
       lseq [(case path_slots lhs of (captureOffset, globalSlot) \<Rightarrow>
                case (if captureOffset \<noteq> 4294967295 then env else None) of
                  Some e \<Rightarrow> assign_capture rec ctx e captureOffset op rhs t
                | None \<Rightarrow>
                    if globalSlot \<noteq> 4294967295 then assign_global rec ctx globalSlot op rhs t
                    else assign_other rec ctx op lhs rhs)]
         unitLocal)"

section \<open>Control flow\<close>

definition lowerStmt :: "low_rec \<Rightarrow> low_ctx \<Rightarrow> hir_expr hir_stmt \<Rightarrow> unit low" where
  "lowerStmt rec ctx s =
     lbind (lget lw_terminated) (\<lambda>t.
       if t then lret ()
       else case s of
         HirStmtLet pat lt init \<Rightarrow>
           lbind (rec ctx init) (\<lambda>i.
             case pat of
               HirPatBind name m _ \<Rightarrow>
                 lbind (lget lw_locals) (\<lambda>ls.
                   if lt = TyNullPtr \<and> i \<ge> length ls then lfail LE_Range
                   else lbind (newLocal (if lt = TyNullPtr then ld_ty (ls ! i) else lt) name m) (\<lambda>l.
                     lseq [assign l (RvUse (OpCopy i)), bind_name name l] (lret ())))
             | _ \<Rightarrow> lret ())
       | HirStmtExpr e \<Rightarrow> (case e of None \<Rightarrow> lret () | Some e' \<Rightarrow> lbind (rec ctx e') (\<lambda>_. lret ())))"

definition lower_block :: "low_rec \<Rightarrow> low_ctx \<Rightarrow> hir_expr hir_stmt list \<Rightarrow> hir_expr option \<Rightarrow> local_id low" where
  "lower_block rec ctx stmts tail =
     lbind newBlock (\<lambda>b.
       lseq ([end_block (TmGoto b), enter b] @ map (lowerStmt rec ctx) stmts)
         (case tail of Some e \<Rightarrow> rec ctx e | None \<Rightarrow> unitLocal))"

text \<open>Into \<open>result\<close> and on to \<open>target\<close>.\<close>

definition deliver :: "local_id \<Rightarrow> mir_operand \<Rightarrow> block_id \<Rightarrow> unit low" where
  "deliver result op target = lseq [assign result (RvUse op), end_block (TmGoto target)] (lret ())"

definition lower_if :: "low_rec \<Rightarrow> low_ctx \<Rightarrow> hir_expr \<Rightarrow> hir_expr \<Rightarrow> hir_expr option \<Rightarrow> ty \<Rightarrow> local_id low" where
  "lower_if rec ctx cond thn els t =
     lbind (rec ctx cond) (\<lambda>c. lbind newBlock (\<lambda>thenB. lbind newBlock (\<lambda>elseB. lbind newBlock (\<lambda>mergeB.
       lseq [end_block (TmSwitchInt (OpCopy c) [(1, thenB)] elseB), enter thenB]
         (lbind (rec ctx thn) (\<lambda>tv. lbind (lget lw_terminated) (\<lambda>thenTerminated. lbind (newLocal t ''if_result'' False) (\<lambda>result.
           lseq [lwhen (\<not> thenTerminated) (deliver result (OpCopy tv) mergeB),
                 enter elseB,
                 (case els of
                    Some e \<Rightarrow> lbind (rec ctx e) (\<lambda>ev. unless_terminated [deliver result (OpCopy ev) mergeB])
                  | None \<Rightarrow> deliver result (OpConst (CI64 0)) mergeB),
                 enter mergeB]
             (lret result)))))))))"

definition push_loop :: "low_ctx \<Rightarrow> block_id \<Rightarrow> block_id \<Rightarrow> string option \<Rightarrow> low_ctx" where
  "push_loop ctx brk cont label =
     ctx\<lparr>cx_loops := cx_loops ctx @ [\<lparr>lp_breakTarget = brk, lp_continueTarget = cont, lp_label = label, lp_finallyDepth = length (cx_finally ctx)\<rparr>]\<rparr>"

definition lower_while :: "low_rec \<Rightarrow> low_ctx \<Rightarrow> hir_expr \<Rightarrow> hir_expr \<Rightarrow> string option \<Rightarrow> local_id low" where
  "lower_while rec ctx cond body label =
     lbind newBlock (\<lambda>header. lbind newBlock (\<lambda>bodyB. lbind newBlock (\<lambda>exitB.
       lseq [end_block (TmGoto header), enter header,
             lbind (rec ctx cond) (\<lambda>c. end_block (TmSwitchInt (OpCopy c) [(1, bodyB)] exitB)),
             enter bodyB,
             lbind (rec (push_loop ctx exitB header label) body) (\<lambda>_. lret ()),
             unless_terminated [end_block (TmGoto header)],
             enter exitB]
         unitLocal)))"

definition lower_loop :: "low_rec \<Rightarrow> low_ctx \<Rightarrow> hir_expr \<Rightarrow> string option \<Rightarrow> local_id low" where
  "lower_loop rec ctx body label =
     lbind newBlock (\<lambda>bodyB. lbind newBlock (\<lambda>exitB.
       lseq [end_block (TmGoto bodyB), enter bodyB,
             lbind (rec (push_loop ctx exitB bodyB label) body) (\<lambda>_. lret ()),
             unless_terminated [end_block (TmGoto bodyB)],
             enter exitB]
         unitLocal))"

text \<open>The \<open>for\<close> expression that is left after the builder has rewritten the loops over ranges runs its body once.\<close>

definition lower_for :: "low_rec \<Rightarrow> low_ctx \<Rightarrow> hir_expr \<Rightarrow> string option \<Rightarrow> local_id low" where
  "lower_for rec ctx body label =
     lbind newBlock (\<lambda>bodyB. lbind newBlock (\<lambda>exitB.
       lseq [end_block (TmGoto bodyB), enter bodyB,
             lbind (rec (push_loop ctx exitB bodyB label) body) (\<lambda>_. lret ()),
             end_block (TmGoto exitB),
             enter exitB]
         unitLocal))"

section \<open>Selection\<close>

definition arm_check :: "low_rec \<Rightarrow> low_ctx \<Rightarrow> local_id \<Rightarrow> ty \<Rightarrow> hir_expr hir_cond \<Rightarrow> block_id \<Rightarrow> block_id \<Rightarrow> unit low" where
  "arm_check rec ctx scrut t cond bodyB nextB =
     (case cond of
        CondExpr c \<Rightarrow>
          lbind (rec ctx c) (\<lambda>cv.
          lbind (local_of t [] (RvBinary BinEq (OpCopy scrut) (OpCopy cv))) (\<lambda>eq.
            end_block (TmSwitchInt (OpCopy eq) [(1, bodyB)] nextB)))
      | CondPat p \<Rightarrow>
          (case p of
             Some (HirPatEnum _ variant) \<Rightarrow>
               lbind (local_of mkInt ''when_discr'' (RvField scrut 0)) (\<lambda>d.
               lbind (local_of mkBool ''when_match'' (RvBinary BinEq (OpCopy d) (OpConst (CI64 (int variant))))) (\<lambda>eq.
                 end_block (TmSwitchInt (OpCopy eq) [(1, bodyB)] nextB)))
           | _ \<Rightarrow> end_block (TmGoto bodyB))
      | CondNone \<Rightarrow> end_block (TmGoto bodyB))"

definition bind_payload :: "local_id \<Rightarrow> nat \<Rightarrow> hir_pat option \<Rightarrow> unit low" where
  "bind_payload scrut pi p =
     (case p of
        Some (HirPatBind name m _) \<Rightarrow>
          lbind (newLocal mkInt name m) (\<lambda>payload.
            lseq [assign payload (RvField scrut (u32_cast ((pi + 1) * 9))), bind_name name payload] (lret ()))
      | _ \<Rightarrow> lret ())"

definition arm_binds :: "local_id \<Rightarrow> hir_expr hir_cond \<Rightarrow> unit low" where
  "arm_binds scrut cond =
     (case cond of
        CondPat (Some (HirPatEnum elems _)) \<Rightarrow> leach (\<lambda>pi. bind_payload scrut pi (elems ! pi)) [0..<length elems]
      | _ \<Rightarrow> lret ())"

definition lower_arm :: "low_rec \<Rightarrow> low_ctx \<Rightarrow> local_id \<Rightarrow> ty \<Rightarrow> local_id \<Rightarrow> block_id \<Rightarrow> hir_expr hir_arm \<Rightarrow> block_id \<Rightarrow> block_id \<Rightarrow> block_id \<Rightarrow> unit low" where
  "lower_arm rec ctx scrut t result exitB arm checkB bodyB nextB =
     lseq [enter checkB, arm_check rec ctx scrut t (arm_cond arm) bodyB nextB, enter bodyB, arm_binds scrut (arm_cond arm)]
       (lbind (rec ctx (arm_body arm)) (\<lambda>v. unless_terminated [deliver result (OpCopy v) exitB]))"

definition else_index :: "hir_expr hir_arm list \<Rightarrow> nat option" where
  "else_index arms = find (\<lambda>i. arm_isElse (arms ! i)) [0..<length arms]"

definition lower_arms ::
  "low_rec \<Rightarrow> low_ctx \<Rightarrow> local_id \<Rightarrow> ty \<Rightarrow> local_id \<Rightarrow> block_id \<Rightarrow> block_id \<Rightarrow> hir_expr hir_arm list \<Rightarrow> (block_id \<times> block_id) list \<Rightarrow> unit low" where
  "lower_arms rec ctx scrut t result exitB elseB checks bbs =
     leach (\<lambda>ci. lower_arm rec ctx scrut t result exitB (checks ! ci) (fst (bbs ! ci)) (snd (bbs ! ci))
                  (if ci + 1 < length bbs then fst (bbs ! (ci + 1)) else elseB)) [0..<length checks]"

definition lower_when_arms :: "low_rec \<Rightarrow> low_ctx \<Rightarrow> local_id \<Rightarrow> hir_expr hir_arm list \<Rightarrow> ty \<Rightarrow> local_id low" where
  "lower_when_arms rec ctx scrut arms t =
     (let elseIdx = else_index arms;
          checks = map (nth arms) (filter (\<lambda>i. Some i \<noteq> elseIdx) [0..<length arms]) in
      lbind newBlock (\<lambda>exitB. lbind (newLocal t ''when'' False) (\<lambda>result.
      lbind (lmap (\<lambda>_. lbind newBlock (\<lambda>c. lbind newBlock (\<lambda>b. lret (c, b)))) checks) (\<lambda>bbs.
      lbind (if elseIdx \<noteq> None then newBlock else lret exitB) (\<lambda>elseB.
        lseq [lwhen (bbs \<noteq> []) (unless_terminated [end_block (TmGoto (fst (hd bbs)))]),
              lower_arms rec ctx scrut t result exitB elseB checks bbs,
              enter elseB,
              (case elseIdx of
                 Some i \<Rightarrow> lbind (rec ctx (arm_body (arms ! i))) (\<lambda>v. unless_terminated [deliver result (OpCopy v) exitB])
               | None \<Rightarrow> lwhen (elseB \<noteq> exitB) (deliver result (OpConst (CI64 0)) exitB)),
              enter exitB]
          (lret result))))))"

definition lower_when :: "low_rec \<Rightarrow> low_ctx \<Rightarrow> hir_expr option \<Rightarrow> hir_expr hir_arm list \<Rightarrow> ty \<Rightarrow> local_id low" where
  "lower_when rec ctx scrut arms t =
     (if arms = [] then unitLocal
      else lbind (case scrut of Some e \<Rightarrow> rec ctx e | None \<Rightarrow> lret 0) (\<lambda>s. lower_when_arms rec ctx s arms t))"

section \<open>Jumps and exceptions\<close>

definition jump_target :: "low_ctx \<Rightarrow> string option \<Rightarrow> (loop_context \<Rightarrow> block_id) \<Rightarrow> block_id \<times> nat" where
  "jump_target ctx label sel =
     (let here = (0, length (cx_finally ctx)) in
      case label of
        Some l \<Rightarrow>
          (case find (\<lambda>c. lp_label c = Some l) (rev (cx_loops ctx)) of
             Some c \<Rightarrow> (sel c, lp_finallyDepth c)
           | None \<Rightarrow> here)
      | None \<Rightarrow> if cx_loops ctx = [] then here else (sel (last (cx_loops ctx)), lp_finallyDepth (last (cx_loops ctx))))"

definition jump_out :: "low_rec \<Rightarrow> low_ctx \<Rightarrow> block_id \<times> nat \<Rightarrow> local_id low" where
  "jump_out rec ctx td =
     lbind (lowerFinalizersTo rec ctx (snd td)) (\<lambda>ok. lseq [lwhen ok (end_block (TmGoto (fst td)))] unitLocal)"

definition lower_break :: "low_rec \<Rightarrow> low_ctx \<Rightarrow> string option \<Rightarrow> hir_expr option \<Rightarrow> local_id low" where
  "lower_break rec ctx label expr =
     lseq [(case expr of Some e \<Rightarrow> lbind (rec ctx e) (\<lambda>_. lret ()) | None \<Rightarrow> lret ())]
       (jump_out rec ctx (jump_target ctx label lp_breakTarget))"

definition lower_return :: "low_rec \<Rightarrow> low_ctx \<Rightarrow> hir_expr option \<Rightarrow> local_id low" where
  "lower_return rec ctx expr =
     lbind (case expr of Some e \<Rightarrow> rec ctx e | None \<Rightarrow> lret 0) (\<lambda>val.
     lbind (lowerFinalizersTo rec ctx 0) (\<lambda>ok.
       lseq [lwhen ok (lbind (lget lw_exitBlock) (\<lambda>x. deliver 0 (if expr \<noteq> None then OpCopy val else OpConst (CI64 0)) x))]
         unitLocal))"

definition throw_local :: "local_id \<Rightarrow> unit low" where
  "throw_local l = lseq [emit (StThrow (OpCopy l)), lmod (\<lambda>st. st\<lparr>lw_terminated := True\<rparr>)] (lret ())"

text \<open>The finalizers above the innermost one whose handler is active.\<close>

definition handled_depth :: "(hir_expr \<times> bool) list \<Rightarrow> nat" where
  "handled_depth fins = length (dropWhile (\<lambda>f. \<not> snd f) (rev fins))"

definition lower_throw :: "low_rec \<Rightarrow> low_ctx \<Rightarrow> hir_expr \<Rightarrow> local_id low" where
  "lower_throw rec ctx expr =
     lbind (rec ctx expr) (\<lambda>value.
     lbind (lowerFinalizersTo rec ctx (handled_depth (cx_finally ctx))) (\<lambda>ok.
       lseq [lwhen ok (throw_local value)] unitLocal))"

definition push_finally :: "low_ctx \<Rightarrow> hir_expr option \<Rightarrow> bool \<Rightarrow> low_ctx" where
  "push_finally ctx fin active = (case fin of None \<Rightarrow> ctx | Some f \<Rightarrow> ctx\<lparr>cx_finally := cx_finally ctx @ [(f, active)]\<rparr>)"

definition lower_catch ::
  "low_rec \<Rightarrow> low_ctx \<Rightarrow> hir_expr option \<Rightarrow> local_id \<Rightarrow> local_id \<Rightarrow> block_id \<Rightarrow> block_id \<Rightarrow> hir_expr hir_catch \<Rightarrow> block_id low" where
  "lower_catch rec ctx fin exn result normalB testB clause =
     lseq [enter testB]
       (lbind (local_of mkBool ''catch_match'' (RvIsCheck exn (cc_typeId clause))) (\<lambda>m.
        lbind newBlock (\<lambda>catchB. lbind newBlock (\<lambda>nextB.
          lseq [end_block (TmSwitchInt (OpCopy m) [(1, catchB)] nextB), enter catchB]
            (lbind (lget (\<lambda>st. lw_scope st (cc_name clause))) (\<lambda>old.
               lseq [bind_name (cc_name clause) exn]
                 (lbind (rec (push_finally ctx fin False) (cc_body clause)) (\<lambda>v.
                    lseq [lmod (\<lambda>st. st\<lparr>lw_scope := (lw_scope st)(cc_name clause := old)\<rparr>),
                          unless_terminated [deliver result (OpCopy v) normalB]]
                      (lret nextB)))))))))"

fun lower_catches ::
  "low_rec \<Rightarrow> low_ctx \<Rightarrow> hir_expr option \<Rightarrow> local_id \<Rightarrow> local_id \<Rightarrow> block_id \<Rightarrow> block_id \<Rightarrow> hir_expr hir_catch list \<Rightarrow> block_id low" where
  "lower_catches rec ctx fin exn result normalB testB [] = lret testB"
| "lower_catches rec ctx fin exn result normalB testB (c # cs) =
     lbind (lower_catch rec ctx fin exn result normalB testB c)
       (\<lambda>nextB. lower_catches rec ctx fin exn result normalB nextB cs)"

definition run_finally :: "low_rec \<Rightarrow> low_ctx \<Rightarrow> hir_expr option \<Rightarrow> unit low" where
  "run_finally rec ctx fin = (case fin of Some f \<Rightarrow> lbind (rec ctx f) (\<lambda>_. lret ()) | None \<Rightarrow> lret ())"

definition lower_try_catch :: "low_rec \<Rightarrow> low_ctx \<Rightarrow> hir_expr \<Rightarrow> hir_expr hir_catch list \<Rightarrow> hir_expr option \<Rightarrow> ty \<Rightarrow> local_id low" where
  "lower_try_catch rec ctx body catches fin t =
     lbind (newLocal t ''try_result'' False) (\<lambda>result. lbind (newLocal mkInt ''exception'' False) (\<lambda>exn.
     lbind newBlock (\<lambda>handlerB. lbind newBlock (\<lambda>normalB. lbind newBlock (\<lambda>exceptionalB. lbind newBlock (\<lambda>mergeB.
       lseq [emit (StTryPush handlerB exn),
             lbind (rec (push_finally ctx fin True) body) (\<lambda>v.
               unless_terminated [assign result (RvUse (OpCopy v)), emit StTryPop, end_block (TmGoto normalB)]),
             enter handlerB,
             lbind (lower_catches rec ctx fin exn result normalB handlerB catches) (\<lambda>testB.
               lseq [enter testB, end_block (TmGoto exceptionalB)] (lret ())),
             enter normalB,
             run_finally rec ctx fin,
             unless_terminated [end_block (TmGoto mergeB)],
             enter exceptionalB,
             run_finally rec ctx fin,
             unless_terminated [throw_local exn],
             enter mergeB]
         (lret result)))))))"

section \<open>Null safety\<close>

definition lower_force_unwrap :: "low_rec \<Rightarrow> low_ctx \<Rightarrow> hir_expr \<Rightarrow> local_id low" where
  "lower_force_unwrap rec ctx e =
     lbind (rec ctx e) (\<lambda>val. lbind newBlock (\<lambda>okB. lbind newBlock (\<lambda>panicB.
       lseq [end_block (TmCheckNull (OpCopy val) panicB okB), enter panicB, end_block TmUnreachable, enter okB] (lret val))))"

definition lower_elvis :: "low_rec \<Rightarrow> low_ctx \<Rightarrow> hir_expr \<Rightarrow> hir_expr \<Rightarrow> ty \<Rightarrow> local_id low" where
  "lower_elvis rec ctx lhs rhs t =
     lbind (rec ctx lhs) (\<lambda>l. lbind (newLocal t ''elvis'' False) (\<lambda>result.
     lbind newBlock (\<lambda>okB. lbind newBlock (\<lambda>fbB. lbind newBlock (\<lambda>mergeB.
       lseq [end_block (TmCheckNull (OpCopy l) fbB okB), enter okB, deliver result (OpCopy l) mergeB, enter fbB,
             lbind (rec ctx rhs) (\<lambda>r. deliver result (OpCopy r) mergeB), enter mergeB]
         (lret result))))))"

definition lower_safe_call :: "low_rec \<Rightarrow> low_ctx \<Rightarrow> hir_expr \<Rightarrow> string \<Rightarrow> hir_expr list \<Rightarrow> ty \<Rightarrow> local_id low" where
  "lower_safe_call rec ctx recv method args t =
     lbind (rec ctx recv) (\<lambda>r. lbind (newLocal t ''sc'' False) (\<lambda>result.
     lbind newBlock (\<lambda>callB. lbind newBlock (\<lambda>nullB. lbind newBlock (\<lambda>mergeB.
       lseq [end_block (TmCheckNull (OpCopy r) nullB callB), enter nullB, deliver result (OpConst (CI64 0)) mergeB, enter callB,
             lbind (lmap (rec ctx) args) (\<lambda>ls. lbind (newLocal mkInt ''sc_d'' False) (\<lambda>cd. lbind newBlock (\<lambda>cr.
               lseq [end_block (TmCall (OpConst (CStr method)) (map OpCopy (r # ls)) cd cr), enter cr, deliver result (OpCopy cd) mergeB] (lret ())))),
             enter mergeB]
         (lret result))))))"

definition lower_safe_field :: "low_rec \<Rightarrow> low_ctx \<Rightarrow> hir_expr \<Rightarrow> nat \<Rightarrow> ty \<Rightarrow> local_id low" where
  "lower_safe_field rec ctx recv off t =
     lbind (rec ctx recv) (\<lambda>r. lbind (newLocal t ''sf'' False) (\<lambda>result.
     lbind newBlock (\<lambda>okB. lbind newBlock (\<lambda>nullB. lbind newBlock (\<lambda>mergeB.
       lseq [end_block (TmCheckNull (OpCopy r) nullB okB), enter nullB, deliver result (OpConst (CI64 0)) mergeB, enter okB,
             assign result (RvField r off), end_block (TmGoto mergeB), enter mergeB]
         (lret result))))))"

definition lower_null :: "ty \<Rightarrow> local_id low" where
  "lower_null t = local_of t ''null'' (RvUse (OpConst (if kind t = Some K_Null then CMono else CI64 0)))"

section \<open>The recursion\<close>

text \<open>Lower under the location of the expression; nothing is lowered into a block that has ended.\<close>

definition at_loc :: "source_location \<Rightarrow> local_id low \<Rightarrow> local_id low" where
  "at_loc loc m =
     lbind (lget lw_terminated) (\<lambda>t.
       if t then unitLocal
       else lbind (lget lw_loc) (\<lambda>previous.
         lseq [lmod (\<lambda>st. st\<lparr>lw_loc := loc\<rparr>)] (lbind m (\<lambda>l. lseq [lmod (\<lambda>st. st\<lparr>lw_loc := previous\<rparr>)] (lret l)))))"

definition lower_binary :: "low_rec \<Rightarrow> low_ctx \<Rightarrow> mir_binop \<Rightarrow> hir_expr \<Rightarrow> hir_expr \<Rightarrow> ty \<Rightarrow> local_id low" where
  "lower_binary rec ctx op l r t =
     (if op = BinAnd \<or> op = BinOr then
        let constant = HirExpr (HirLit mkBool (LitBool (op = BinOr))) no_loc in
        at_loc no_loc
          (lower_if rec ctx l (if op = BinAnd then r else constant) (Some (if op = BinAnd then constant else r)) mkBool)
      else lbind (rec ctx l) (\<lambda>lv. lbind (rec ctx r) (\<lambda>rv. local_of t ''bin'' (RvBinary op (OpCopy lv) (OpCopy rv)))))"

primrec lower_node :: "low_rec \<Rightarrow> low_ctx \<Rightarrow> hir_expr hir_node \<Rightarrow> local_id low" where
  "lower_node rec ctx (HirLit t v) = local_of t ''lit'' (RvUse (OpConst (lit_const v)))"
| "lower_node rec ctx (HirPath name targs t isStatic captureOffset globalSlot) = lower_path name t isStatic captureOffset globalSlot"
| "lower_node rec ctx (HirTuple es t) = lower_elems rec ctx AggTuple ''tuple'' es t"
| "lower_node rec ctx (HirArray es t) = lower_elems rec ctx AggArray ''array'' es t"
| "lower_node rec ctx (HirStruct tn flds targs sz tid t) = lower_struct rec ctx flds sz tid t"
| "lower_node rec ctx (HirCall func staticName ctorLabel args targs t) = lower_call rec ctx func staticName ctorLabel args t"
| "lower_node rec ctx (HirMethodCall recv method qname args vti isI itid imi t targs) = lower_method_call rec ctx recv method qname args vti isI itid imi t"
| "lower_node rec ctx (HirField e name off t) = lbind (rec ctx e) (\<lambda>l. local_of t ''field'' (RvField l off))"
| "lower_node rec ctx (HirIndex e i t) = lbind (rec ctx e) (\<lambda>l. lbind (rec ctx i) (\<lambda>x. local_of t ''index'' (RvIndex l (OpCopy x))))"
| "lower_node rec ctx (HirUnary op e t) = lower_unary rec ctx op e t"
| "lower_node rec ctx (HirBinary op l r t) = lower_binary rec ctx op l r t"
| "lower_node rec ctx (HirAssign op l r t) = lower_assign rec ctx op l r t"
| "lower_node rec ctx (HirBlock stmts tail t) = lower_block rec ctx stmts tail"
| "lower_node rec ctx (HirIf c a b t) = lower_if rec ctx c a b t"
| "lower_node rec ctx (HirWhile c body label t) = lower_while rec ctx c body label"
| "lower_node rec ctx (HirFor pat it body label t) = lower_for rec ctx body label"
| "lower_node rec ctx (HirLoop body label t) = lower_loop rec ctx body label"
| "lower_node rec ctx (HirWhen scrut arms t) = lower_when rec ctx scrut arms t"
| "lower_node rec ctx (HirBreak label e t) = lower_break rec ctx label e"
| "lower_node rec ctx (HirContinue label t) = jump_out rec ctx (jump_target ctx label lp_continueTarget)"
| "lower_node rec ctx (HirReturn e t) = lower_return rec ctx e"
| "lower_node rec ctx (HirThrow e t) = lower_throw rec ctx e"
| "lower_node rec ctx (HirTryCatch body catches fin t) = lower_try_catch rec ctx body catches fin t"
| "lower_node rec ctx (HirRef m e t) = lbind (rec ctx e) (\<lambda>l. local_of t ''ref'' (RvRef m l))"
| "lower_node rec ctx (HirDeref e t) = lbind (rec ctx e) (\<lambda>l. local_of t ''deref'' (RvUse (OpCopy l)))"
| "lower_node rec ctx (HirTry e t) = rec ctx e"
| "lower_node rec ctx (HirCast e target t) = lbind (rec ctx e) (\<lambda>l. local_of target ''cast'' (RvCast (OpCopy l) target))"
| "lower_node rec ctx (HirSafeCall recv method args t) = lower_safe_call rec ctx recv method args t"
| "lower_node rec ctx (HirSafeField recv field off t) = lower_safe_field rec ctx recv off t"
| "lower_node rec ctx (HirElvis l r t) = lower_elvis rec ctx l r t"
| "lower_node rec ctx (HirForceUnwrap e t) = lower_force_unwrap rec ctx e"
| "lower_node rec ctx (HirIs e tid t) = lbind (rec ctx e) (\<lambda>l. local_of mkBool ''is'' (RvIsCheck l tid))"
| "lower_node rec ctx (HirIsNot e tid t) =
     lbind (rec ctx e) (\<lambda>l. lbind (local_of mkBool ''isnot_chk'' (RvIsCheck l tid)) (\<lambda>c. local_of mkBool ''isnot'' (RvUnary UnNot (OpCopy c))))"
| "lower_node rec ctx (HirNull t) = lower_null t"
| "lower_node rec ctx (HirClosure fname caps tid t) = lower_closure fname caps tid t"
| "lower_node rec ctx (HirEnumCtor en tid vi sz offs args t) = lower_enum_ctor rec ctx tid vi sz offs args t"

fun lowerExpr :: "nat \<Rightarrow> low_rec" where
  "lowerExpr 0 ctx e = lfail LE_Fuel"
| "lowerExpr (Suc n) ctx (HirExpr node loc) = at_loc loc (lower_node (lowerExpr n) ctx node)"

definition lower_top :: "hir_expr \<Rightarrow> local_id low" where
  "lower_top e = lowerExpr (size e) \<lparr>cx_loops = [], cx_finally = []\<rparr> e"

section \<open>Bodies and the module\<close>

text \<open>The members as the three kinds of bodies reset them, with the return slot and the parameters as locals.\<close>

definition open_body :: "ty \<Rightarrow> string option \<Rightarrow> (string \<times> ty) list \<Rightarrow> string list \<Rightarrow> unit low" where
  "open_body ret special params specialNames =
     lseq ([lmod (\<lambda>st. st\<lparr>lw_locals := [\<lparr>ld_ty = ret, ld_name = ''_return'', ld_mut = False\<rparr>], lw_blocks := [],
                        lw_scope := Map.empty, lw_scratch := None, lw_closureEnv := None\<rparr>)] @
       (case special of
          Some name \<Rightarrow> [lbind (newLocal mkInt name False) (\<lambda>l. leach (\<lambda>n. bind_name n l) specialNames)]
        | None \<Rightarrow> []) @
       map (\<lambda>(name, t). lbind (newLocal t name False) (bind_name name)) params)
     (lret ())"

definition open_blocks :: "unit low" where
  "open_blocks =
     lbind newBlock (\<lambda>entry. lseq [enter entry] (lbind newBlock (\<lambda>x. lmod (\<lambda>st. st\<lparr>lw_exitBlock := x\<rparr>))))"

definition close_body :: "string \<Rightarrow> ty \<Rightarrow> nat \<Rightarrow> mir_body low" where
  "close_body name ret paramCount =
     lbind (lget id) (\<lambda>st.
       let bs = resize_to (lw_exitBlock st + 1) new_basic_block (lw_blocks st) in
       lret \<lparr>mb_locals = lw_locals st,
             mb_blocks = bs[lw_exitBlock st := (bs ! lw_exitBlock st)\<lparr>bb_term := (TmReturn, no_loc)\<rparr>],
             mb_name = name, mb_ret_ty = ret, mb_paramCount = paramCount\<rparr>)"

definition return_value :: "local_id \<Rightarrow> unit low" where
  "return_value l = unless_terminated [lbind (lget lw_exitBlock) (\<lambda>x. deliver 0 (OpCopy l) x)]"

definition lowerFn :: "hir_fn \<Rightarrow> mir_body low" where
  "lowerFn f =
     (let closure = hf_closureEnvTypeId f \<noteq> 4294967295 in
      lseq [open_body (hf_ret f) (if closure then Some ''__closure_env'' else None) (hf_params f) [''__closure_env''],
            lwhen closure (lmod (\<lambda>st. st\<lparr>lw_closureEnv := Some 1\<rparr>)),
            open_blocks,
            lbind (lower_top (hf_body f)) return_value]
        (close_body (hf_name f) (hf_ret f) (u32_cast (length (hf_params f) + (if closure then 1 else 0)))))"

definition lowerMethod :: "hir_class \<Rightarrow> hir_fn \<Rightarrow> mir_body low" where
  "lowerMethod c m =
     lseq [lmod (\<lambda>st. st\<lparr>lw_className := hk_name c\<rparr>),
           open_body (hf_ret m) (Some ''self'') (hf_params m) [''self'', ''this''],
           open_blocks,
           lbind (lower_top (hf_body m)) return_value,
           lmod (\<lambda>st. st\<lparr>lw_className := []\<rparr>)]
       (close_body (hk_name c @ ''.'' @ hf_name m) (hf_ret m) (u32_cast (length (hf_params m) + 1)))"

definition ctor_super_args :: "hir_class \<Rightarrow> local_id \<Rightarrow> unit low" where
  "ctor_super_args c obj =
     leach (\<lambda>i. lbind (lower_top (hk_superClassArgs c ! i)) (\<lambda>v.
       assign obj (RvHStore (if i < length (hk_superFieldOffsets c) then hk_superFieldOffsets c ! i else u32_cast (i * 9)) (OpCopy v))))
       [0..<length (hk_superClassArgs c)]"

definition ctor_params :: "hir_class \<Rightarrow> local_id \<Rightarrow> unit low" where
  "ctor_params c obj =
     leach (\<lambda>pd. lwhen (cp_isVal pd \<or> cp_isVar pd)
       (lbind (lget lw_scope) (\<lambda>sc. case sc (cp_name pd) of
          Some l \<Rightarrow> assign obj (RvHStore (cp_fieldOffset pd) (OpCopy l)) | None \<Rightarrow> lret ())))
       (hk_ctorParams c)"

definition ctor_fields :: "hir_class \<Rightarrow> local_id \<Rightarrow> unit low" where
  "ctor_fields c obj =
     leach (\<lambda>fl. case cf_initializer fl of
         None \<Rightarrow> lret ()
       | Some e \<Rightarrow> lbind (lower_top e) (\<lambda>v. assign obj (RvHStore (cf_offset fl) (OpCopy v)))) (hk_fields c)"

definition ctor_inits :: "hir_class \<Rightarrow> unit low" where
  "ctor_inits c = leach (\<lambda>b. case b of None \<Rightarrow> lret () | Some e \<Rightarrow> lbind (lower_top e) (\<lambda>_. lret ())) (hk_initBlocks c)"

definition lowerClassCtor :: "hir_class \<Rightarrow> mir_body low" where
  "lowerClassCtor c =
     lseq [lmod (\<lambda>st. st\<lparr>lw_className := hk_name c\<rparr>),
           open_body mkInt None (map (\<lambda>p. (cp_name p, cp_ty p)) (hk_ctorParams c)) [],
           open_blocks,
           lbind (newLocal mkInt ''self'' False) (\<lambda>obj.
             lseq [bind_name ''self'' obj, bind_name ''this'' obj,
                   assign obj (RvAlloc (if hk_totalFieldSize c > 0 then hk_totalFieldSize c else 9) (hk_typeId c)),
                   ctor_super_args c obj, ctor_params c obj, ctor_fields c obj, ctor_inits c]
               (return_value obj)),
           lmod (\<lambda>st. st\<lparr>lw_className := []\<rparr>)]
       (close_body (hk_name c @ ''.init'') mkInt (u32_cast (length (hk_ctorParams c))))"

definition lowered_class_of :: "hir_class \<Rightarrow> lowered_class" where
  "lowered_class_of c =
     \<lparr>lc_name = hk_name c, lc_typeId = hk_typeId c, lc_parentTypeId = hk_parentTypeId c, lc_vtableEntryCount = hk_vtableEntryCount c,
      lc_vtableMethodNames = hk_vtableMethodNames c, lc_itables = hk_itables c\<rparr>"

definition lower_item :: "hir_item \<Rightarrow> lowering_output low" where
  "lower_item item =
     (case item of
        ItemFn f \<Rightarrow> lbind (lowerFn f) (\<lambda>b. lret \<lparr>lo_bodies = [b], lo_classes = [],
          lo_globalInitializers = (if hf_globalSlot f \<noteq> 4294967295 then [\<lparr>lg_slot = hf_globalSlot f, lg_initLabel = hf_name f\<rparr>] else [])\<rparr>)
      | ItemClass c \<Rightarrow>
          lbind (lowerClassCtor c) (\<lambda>b. lbind (lmap (lowerMethod c) (hk_methods c)) (\<lambda>ms.
            lret \<lparr>lo_bodies = b # ms, lo_classes = [lowered_class_of c],
              lo_globalInitializers = (if hk_isSingleton c \<and> hk_globalSlot c \<noteq> 4294967295
                 then [\<lparr>lg_slot = hk_globalSlot c, lg_initLabel = hk_name c @ ''.init''\<rparr>] else [])\<rparr>)))"

definition lower :: "hir_module \<Rightarrow> lowering_output low" where
  "lower items =
     lbind (lmap lower_item items) (\<lambda>os.
       lret \<lparr>lo_bodies = concat (map lo_bodies os), lo_classes = concat (map lo_classes os),
             lo_globalInitializers = concat (map lo_globalInitializers os)\<rparr>)"

definition fresh_lowering :: lower_state where
  "fresh_lowering = \<lparr>lw_locals = [], lw_blocks = [], lw_currentBlock = 0, lw_exitBlock = 0, lw_terminated = False,
     lw_scope = Map.empty, lw_closureEnv = None, lw_className = [], lw_loc = no_loc, lw_scratch = None\<rparr>"

end
