(* ===== verification/Lx_LowerSpec.thy ===== *)
theory Lx_LowerSpec
  imports Lx_Lower
begin

text \<open>
  Every body the lowering builds is closed: its statements and terminators mention only locals and blocks that
  exist.  The rules for the steps of the lowering are collected once, as triples over the number of locals and
  blocks that are known to exist, so that each construct is a short derivation.
\<close>

section \<open>Locals and blocks of MIR\<close>

fun op_locals :: "mir_operand \<Rightarrow> local_id set" where
  "op_locals (OpCopy l) = {l}"
| "op_locals (OpMove l) = {l}"
| "op_locals _ = {}"

definition ops_locals :: "mir_operand list \<Rightarrow> local_id set" where
  "ops_locals ops = (\<Union>x \<in> set ops. op_locals x)"

fun rv_locals :: "rvalue \<Rightarrow> local_id set" where
  "rv_locals (RvUse x) = op_locals x"
| "rv_locals (RvRef _ l) = {l}"
| "rv_locals (RvPtr _ l) = {l}"
| "rv_locals (RvBinary _ x y) = op_locals x \<union> op_locals y"
| "rv_locals (RvUnary _ x) = op_locals x"
| "rv_locals (RvCast x _) = op_locals x"
| "rv_locals (RvAggregate _ _ xs) = ops_locals xs"
| "rv_locals (RvField l _) = {l}"
| "rv_locals (RvHStore _ x) = op_locals x"
| "rv_locals (RvIndex l x) = insert l (op_locals x)"
| "rv_locals (RvIndexStore x y) = op_locals x \<union> op_locals y"
| "rv_locals (RvLen l) = {l}"
| "rv_locals (RvDiscriminant l) = {l}"
| "rv_locals (RvAlloc _ _) = {}"
| "rv_locals (RvClosure _ _ xs) = ops_locals xs"
| "rv_locals (RvClosureGet l _) = {l}"
| "rv_locals (RvClosureSet _ x) = op_locals x"
| "rv_locals (RvVTableSlot l _) = {l}"
| "rv_locals (RvTypeId l) = {l}"
| "rv_locals (RvIsCheck l _) = {l}"
| "rv_locals (RvGlobalLoad _) = {}"
| "rv_locals (RvGlobalStore _ x) = op_locals x"

fun st_locals :: "statement \<Rightarrow> local_id set" where
  "st_locals (StAssign l rv) = insert l (rv_locals rv)"
| "st_locals (StStorageLive l) = {l}"
| "st_locals (StStorageDead l) = {l}"
| "st_locals (StSetDiscriminant l _) = {l}"
| "st_locals (StDrop l) = {l}"
| "st_locals (StPush l) = {l}"
| "st_locals (StPop l) = {l}"
| "st_locals (StGlobalStore _ x) = op_locals x"
| "st_locals (StTryPush _ l) = {l}"
| "st_locals StTryPop = {}"
| "st_locals (StThrow x) = op_locals x"

fun st_blocks :: "statement \<Rightarrow> block_id set" where
  "st_blocks (StTryPush b _) = {b}"
| "st_blocks _ = {}"

fun tm_locals :: "terminator \<Rightarrow> local_id set" where
  "tm_locals (TmSwitchInt x _ _) = op_locals x"
| "tm_locals (TmSwitchDiscr l _ _) = {l}"
| "tm_locals (TmCall f xs d _) = insert d (op_locals f \<union> ops_locals xs)"
| "tm_locals (TmCallIndirect f xs d _) = insert d (op_locals f \<union> ops_locals xs)"
| "tm_locals (TmClosureCall f xs d _) = insert d (op_locals f \<union> ops_locals xs)"
| "tm_locals (TmCheckNull x _ _) = op_locals x"
| "tm_locals (TmVirtualCall l _ xs d _) = {l, d} \<union> ops_locals xs"
| "tm_locals (TmInterfaceCall l _ _ xs d _) = {l, d} \<union> ops_locals xs"
| "tm_locals _ = {}"

fun tm_blocks :: "terminator \<Rightarrow> block_id set" where
  "tm_blocks (TmGoto b) = {b}"
| "tm_blocks (TmSwitchInt _ vs b) = insert b (snd ` set vs)"
| "tm_blocks (TmSwitchDiscr _ bs b) = insert b (set bs)"
| "tm_blocks (TmCall _ _ _ b) = {b}"
| "tm_blocks (TmCallIndirect _ _ _ b) = {b}"
| "tm_blocks (TmClosureCall _ _ _ b) = {b}"
| "tm_blocks (TmCheckNull _ b c) = {b, c}"
| "tm_blocks (TmVirtualCall _ _ _ _ b) = {b}"
| "tm_blocks (TmInterfaceCall _ _ _ _ _ b) = {b}"
| "tm_blocks _ = {}"

text \<open>A block whose locals are below \<open>n\<close> and whose targets are below \<open>b\<close>.\<close>

definition block_in :: "nat \<Rightarrow> nat \<Rightarrow> basic_block \<Rightarrow> bool" where
  "block_in n b bb \<longleftrightarrow> (\<forall>s \<in> fst ` set (bb_stmts bb). st_locals s \<subseteq> {..<n} \<and> st_blocks s \<subseteq> {..<b})
     \<and> tm_locals (fst (bb_term bb)) \<subseteq> {..<n} \<and> tm_blocks (fst (bb_term bb)) \<subseteq> {..<b}"

lemma block_in_mono: "block_in n b bb \<Longrightarrow> n \<le> n' \<Longrightarrow> b \<le> b' \<Longrightarrow> block_in n' b' bb"
proof -
  assume a: "block_in n b bb" "n \<le> n'" "b \<le> b'"
  then have s: "{..<n} \<subseteq> {..<n'}" "{..<b} \<subseteq> {..<b'}" by auto
  show ?thesis using a(1) unfolding block_in_def by (meson subset_trans s)
qed

lemma ops_locals_copy [simp]: "ops_locals (map OpCopy ls) = set ls" "ops_locals (OpCopy l # xs) = insert l (ops_locals xs)"
  by (auto simp: ops_locals_def)

section \<open>Triples\<close>

definition low_inv :: "lower_state \<Rightarrow> bool" where
  "low_inv st \<longleftrightarrow> 0 < length (lw_locals st) \<and> (\<forall>bb \<in> set (lw_blocks st). block_in (length (lw_locals st)) (length (lw_blocks st)) bb)
     \<and> lw_currentBlock st < length (lw_blocks st) \<and> lw_exitBlock st < length (lw_blocks st)
     \<and> (\<forall>x l. lw_scope st x = Some l \<longrightarrow> l < length (lw_locals st))
     \<and> (\<forall>l. lw_closureEnv st = Some l \<longrightarrow> l < length (lw_locals st))
     \<and> (\<forall>l. lw_scratch st = Some l \<longrightarrow> l < length (lw_locals st))"

text \<open>Locals and blocks are only added, and the exit stays.\<close>

definition low_ext :: "lower_state \<Rightarrow> lower_state \<Rightarrow> bool" where
  "low_ext st st' \<longleftrightarrow> (\<exists>ls. lw_locals st' = lw_locals st @ ls) \<and> length (lw_blocks st) \<le> length (lw_blocks st') \<and> lw_exitBlock st' = lw_exitBlock st"

definition lok :: "nat \<Rightarrow> nat \<Rightarrow> 'a low \<Rightarrow> ('a \<Rightarrow> nat \<Rightarrow> nat \<Rightarrow> bool) \<Rightarrow> bool" where
  "lok n b m Q \<longleftrightarrow> (\<forall>st. low_inv st \<longrightarrow> n \<le> length (lw_locals st) \<longrightarrow> b \<le> length (lw_blocks st) \<longrightarrow>
     m st \<noteq> Inl LE_Range \<and> (\<forall>x st'. m st = Inr (x, st') \<longrightarrow>
       low_inv st' \<and> low_ext st st' \<and> Q x (length (lw_locals st')) (length (lw_blocks st'))))"

abbreviation (input) any :: "'a \<Rightarrow> nat \<Rightarrow> nat \<Rightarrow> bool" where "any \<equiv> \<lambda>_ _ _. True"
abbreviation (input) loc :: "local_id \<Rightarrow> nat \<Rightarrow> nat \<Rightarrow> bool" where "loc \<equiv> \<lambda>x n b. x < n"
abbreviation (input) blk :: "block_id \<Rightarrow> nat \<Rightarrow> nat \<Rightarrow> bool" where "blk \<equiv> \<lambda>x n b. x < b"

definition ctx_ok :: "nat \<Rightarrow> low_ctx \<Rightarrow> bool" where
  "ctx_ok b ctx \<longleftrightarrow> (\<forall>c \<in> set (cx_loops ctx). lp_breakTarget c < b \<and> lp_continueTarget c < b)"

definition rec_ok :: "low_rec \<Rightarrow> bool" where
  "rec_ok rec \<longleftrightarrow> (\<forall>n b ctx e. ctx_ok b ctx \<longrightarrow> lok n b (rec ctx e) loc)"

named_theorems low_intros

lemma low_ext_refl: "low_ext st st" by (simp add: low_ext_def)

lemma low_ext_trans: "low_ext st st' \<Longrightarrow> low_ext st' st'' \<Longrightarrow> low_ext st st''"
  by (auto simp: low_ext_def)

lemma low_ext_le: "low_ext st st' \<Longrightarrow> length (lw_locals st) \<le> length (lw_locals st') \<and> length (lw_blocks st) \<le> length (lw_blocks st')"
  by (auto simp: low_ext_def)

lemma lok_Ok:
  "lok n b m Q \<Longrightarrow> low_inv st \<Longrightarrow> n \<le> length (lw_locals st) \<Longrightarrow> b \<le> length (lw_blocks st) \<Longrightarrow> m st = Inr (x, st') \<Longrightarrow>
   low_inv st' \<and> low_ext st st' \<and> Q x (length (lw_locals st')) (length (lw_blocks st'))"
  by (simp add: lok_def)

lemma lok_range: "lok n b m Q \<Longrightarrow> low_inv st \<Longrightarrow> n \<le> length (lw_locals st) \<Longrightarrow> b \<le> length (lw_blocks st) \<Longrightarrow> m st \<noteq> Inl LE_Range"
  by (simp add: lok_def)

lemma lok_bind [low_intros]:
  assumes m: "lok n b m P" and f: "\<And>x n' b'. n \<le> n' \<Longrightarrow> b \<le> b' \<Longrightarrow> P x n' b' \<Longrightarrow> lok n' b' (f x) Q"
  shows "lok n b (lbind m f) Q"
  unfolding lok_def
proof (intro allI impI)
  fix st assume s: "low_inv st" "n \<le> length (lw_locals st)" "b \<le> length (lw_blocks st)"
  show "lbind m f st \<noteq> Inl LE_Range \<and> (\<forall>x st'. lbind m f st = Inr (x, st') \<longrightarrow>
       low_inv st' \<and> low_ext st st' \<and> Q x (length (lw_locals st')) (length (lw_blocks st')))"
  proof (cases "m st")
    case (Inl e)
    with lok_range [OF m s] show ?thesis by (simp add: lbind_def)
  next
    case (Inr r)
    then obtain y st1 where 1: "m st = Inr (y, st1)" by (cases r) simp
    from lok_Ok [OF m s 1] have p: "low_inv st1" "low_ext st st1" "P y (length (lw_locals st1)) (length (lw_blocks st1))" by blast+
    have l: "n \<le> length (lw_locals st1)" "b \<le> length (lw_blocks st1)" using low_ext_le [OF p(2)] s(2,3) by linarith+
    from f [OF l p(3)] have "lok (length (lw_locals st1)) (length (lw_blocks st1)) (f y) Q" .
    from lok_Ok [OF this p(1)] lok_range [OF this p(1)] low_ext_trans [OF p(2)] 1 show ?thesis by (auto simp: lbind_def)
  qed
qed

lemma lok_ret [low_intros]: "(\<And>n' b'. n \<le> n' \<Longrightarrow> b \<le> b' \<Longrightarrow> Q x n' b') \<Longrightarrow> lok n b (lret x) Q"
  by (auto simp: lok_def lret_def low_ext_refl)

lemma lok_fail [low_intros]: "e \<noteq> LE_Range \<Longrightarrow> lok n b (lfail e) Q"
  by (simp add: lok_def lfail_def)

lemma lok_when [low_intros]: "(c \<Longrightarrow> lok n b m any) \<Longrightarrow> lok n b (lwhen c m) any"
  by (simp add: lwhen_def lok_ret)

lemma lok_seq_Nil [low_intros]: "lok n b k Q \<Longrightarrow> lok n b (lseq [] k) Q"
  by simp

lemma lok_seq_Cons [low_intros]:
  "lok n b m any \<Longrightarrow> (\<And>n' b'. n \<le> n' \<Longrightarrow> b \<le> b' \<Longrightarrow> lok n' b' (lseq ms k) Q) \<Longrightarrow> lok n b (lseq (m # ms) k) Q"
  by (simp add: lok_bind)

lemma lok_seq_append:
  "(\<And>m n' b'. m \<in> set ms \<Longrightarrow> n \<le> n' \<Longrightarrow> b \<le> b' \<Longrightarrow> lok n' b' m any) \<Longrightarrow>
   (\<And>n' b'. n \<le> n' \<Longrightarrow> b \<le> b' \<Longrightarrow> lok n' b' k Q) \<Longrightarrow> lok n b (lseq ms k) Q"
proof (induction ms arbitrary: n b)
  case (Cons m ms)
  show ?case
  proof (rule lok_seq_Cons)
    show "lok n b m any" using Cons.prems(1) by simp
    show "lok n' b' (lseq ms k) Q" if "n \<le> n'" "b \<le> b'" for n' b'
      by (rule Cons.IH) (use Cons.prems that in \<open>auto intro: order_trans\<close>)
  qed
qed simp

lemma lok_each [low_intros]:
  "(\<And>x n' b'. x \<in> set xs \<Longrightarrow> n \<le> n' \<Longrightarrow> b \<le> b' \<Longrightarrow> lok n' b' (f x) any) \<Longrightarrow> lok n b (leach f xs) any"
  unfolding leach_def by (rule lok_seq_append) (auto intro: lok_ret)

lemma lok_map:
  assumes "\<And>x n' b'. x \<in> set xs \<Longrightarrow> n \<le> n' \<Longrightarrow> b \<le> b' \<Longrightarrow> lok n' b' (f x) P"
    and "\<And>y n b n' b'. P y n b \<Longrightarrow> n \<le> n' \<Longrightarrow> b \<le> b' \<Longrightarrow> P y n' b'"
  shows "lok n b (lmap f xs) (\<lambda>ys n b. length ys = length xs \<and> (\<forall>y \<in> set ys. P y n b))"
  using assms(1)
proof (induction xs arbitrary: n b)
  case (Cons x xs)
  have "lok n b (f x) P" using Cons.prems by simp
  moreover have "lok n' b' (lmap f xs) (\<lambda>ys n b. length ys = length xs \<and> (\<forall>y \<in> set ys. P y n b))" if "n \<le> n'" "b \<le> b'" for n' b'
    by (rule Cons.IH) (use Cons.prems that in \<open>auto intro: order_trans\<close>)
  moreover have "lok n' b' (lret (y # ys)) (\<lambda>ys n b. length ys = length (x # xs) \<and> (\<forall>y \<in> set ys. P y n b))"
    if "P y n0 bc" "n0 \<le> n'" "bc \<le> b'" "length ys = length xs" "\<forall>y \<in> set ys. P y n' b'" for y ys n0 bc n' b'
    by (rule lok_ret) (use that in \<open>auto intro: assms(2) [OF _ order_trans order_trans] assms(2)\<close>)
  ultimately show ?case by (auto intro!: lok_bind)
qed (auto intro: lok_ret)

lemma lok_map_locals [low_intros]:
  "(\<And>x n' b'. x \<in> set xs \<Longrightarrow> n \<le> n' \<Longrightarrow> b \<le> b' \<Longrightarrow> lok n' b' (f x) loc) \<Longrightarrow>
   lok n b (lmap f xs) (\<lambda>ys n b. length ys = length xs \<and> (\<forall>y \<in> set ys. y < n))"
  by (rule lok_map) auto

lemma lok_if [low_intros]: "(c \<Longrightarrow> lok n b m Q) \<Longrightarrow> (\<not> c \<Longrightarrow> lok n b m' Q) \<Longrightarrow> lok n b (if c then m else m') Q"
  by simp

lemma lok_option [low_intros]:
  "(x = None \<Longrightarrow> lok n b m Q) \<Longrightarrow> (\<And>y. x = Some y \<Longrightarrow> lok n b (f y) Q) \<Longrightarrow> lok n b (case x of None \<Rightarrow> m | Some y \<Rightarrow> f y) Q"
  by (simp split: option.split)

section \<open>Steps\<close>

lemma lok_get:
  "(\<And>st. low_inv st \<Longrightarrow> n \<le> length (lw_locals st) \<Longrightarrow> b \<le> length (lw_blocks st) \<Longrightarrow> Q (f st) (length (lw_locals st)) (length (lw_blocks st))) \<Longrightarrow> lok n b (lget f) Q"
  by (simp add: lok_def lget_def low_ext_refl)

lemma lok_gets [low_intros]:
  "lok n b (lget lw_terminated) any" "lok n b (lget lw_loc) any" "lok n b (lget lw_locals) (\<lambda>ls n b. length ls = n)"
  "lok n b (lget lw_scope) (\<lambda>sc n b. \<forall>x l. sc x = Some l \<longrightarrow> l < n)"
  "lok n b (lget (\<lambda>st. lw_scope st y)) (\<lambda>v n b. \<forall>l. v = Some l \<longrightarrow> l < n)"
  "lok n b (lget lw_closureEnv) (\<lambda>v n b. \<forall>l. v = Some l \<longrightarrow> l < n)"
  "lok n b (lget (\<lambda>st. (lw_scope st y, lw_closureEnv st))) (\<lambda>v n b. (\<forall>l. fst v = Some l \<longrightarrow> l < n) \<and> (\<forall>l. snd v = Some l \<longrightarrow> l < n))"
  "lok n b (lget lw_scratch) (\<lambda>v n b. \<forall>l. v = Some l \<longrightarrow> l < n)"
  "lok n b (lget lw_exitBlock) blk"
  by (rule lok_get; simp add: low_inv_def)+

lemma lok_newLocal [low_intros]: "lok n b (newLocal t name m) loc"
proof -
  have "low_inv (st\<lparr>lw_locals := lw_locals st @ [d]\<rparr>)" if "low_inv st" for st d
    using that unfolding low_inv_def by (auto intro: block_in_mono less_SucI)
  then show ?thesis by (auto simp: lok_def newLocal_def low_ext_def)
qed

lemma lok_newBlock [low_intros]: "lok n b newBlock blk"
proof -
  have "block_in n (Suc b) new_basic_block" for n b by (simp add: block_in_def new_basic_block_def)
  then have "low_inv (st\<lparr>lw_blocks := lw_blocks st @ [new_basic_block]\<rparr>)" if "low_inv st" for st
    using that unfolding low_inv_def by (auto intro: block_in_mono less_SucI)
  then show ?thesis by (auto simp: lok_def newBlock_def low_ext_def)
qed

lemma low_inv_current: "low_inv st \<Longrightarrow> \<not> length (lw_blocks st) \<le> lw_currentBlock st"
  by (simp add: low_inv_def)

lemma low_inv_block:
  assumes "low_inv st" and "block_in (length (lw_locals st)) (length (lw_blocks st)) bb"
  shows "low_inv (st\<lparr>lw_blocks := (lw_blocks st)[i := bb]\<rparr>)" "low_inv (st\<lparr>lw_blocks := (lw_blocks st)[i := bb], lw_terminated := t\<rparr>)"
  using assms set_update_subset_insert [of "lw_blocks st" i bb] unfolding low_inv_def by auto

lemma lok_emit [low_intros]:
  assumes "st_locals s \<subseteq> {..<n}" and "st_blocks s \<subseteq> {..<b}"
  shows "lok n b (emit s) any"
proof -
  have "low_inv (st\<lparr>lw_blocks := (lw_blocks st)[c := (lw_blocks st ! c)\<lparr>bb_stmts := bb_stmts (lw_blocks st ! c) @ [(s, lw_loc st)]\<rparr>]\<rparr>)"
    if "low_inv st" "n \<le> length (lw_locals st)" "b \<le> length (lw_blocks st)" "c < length (lw_blocks st)" for st c
  proof (rule low_inv_block [OF that(1)])
    have "block_in (length (lw_locals st)) (length (lw_blocks st)) (lw_blocks st ! c)" using that by (simp add: low_inv_def)
    moreover have "st_locals s \<subseteq> {..<length (lw_locals st)}" "st_blocks s \<subseteq> {..<length (lw_blocks st)}" using assms that(2,3) by (auto simp: subset_iff)
    ultimately show "block_in (length (lw_locals st)) (length (lw_blocks st)) ((lw_blocks st ! c)\<lparr>bb_stmts := bb_stmts (lw_blocks st ! c) @ [(s, lw_loc st)]\<rparr>)"
      by (auto simp: block_in_def)
  qed
  then show ?thesis by (auto simp: lok_def emit_def Let_def low_ext_def dest: low_inv_current split: if_splits)
qed

lemma lok_end [low_intros]:
  assumes "tm_locals t \<subseteq> {..<n}" and "tm_blocks t \<subseteq> {..<b}"
  shows "lok n b (end_block t) any"
proof -
  have "low_inv (st\<lparr>lw_blocks := (lw_blocks st)[c := (lw_blocks st ! c)\<lparr>bb_term := (t, lw_loc st)\<rparr>], lw_terminated := True\<rparr>)"
    if "low_inv st" "n \<le> length (lw_locals st)" "b \<le> length (lw_blocks st)" "c < length (lw_blocks st)" for st c
  proof (rule low_inv_block [OF that(1)])
    have "block_in (length (lw_locals st)) (length (lw_blocks st)) (lw_blocks st ! c)" using that by (simp add: low_inv_def)
    moreover have "tm_locals t \<subseteq> {..<length (lw_locals st)}" "tm_blocks t \<subseteq> {..<length (lw_blocks st)}" using assms that(2,3) by (auto simp: subset_iff)
    ultimately show "block_in (length (lw_locals st)) (length (lw_blocks st)) ((lw_blocks st ! c)\<lparr>bb_term := (t, lw_loc st)\<rparr>)"
      by (simp add: block_in_def)
  qed
  then show ?thesis by (auto simp: lok_def end_block_def Let_def low_ext_def dest: low_inv_current split: if_splits)
qed

lemma lok_mod:
  "(\<And>st. low_inv st \<Longrightarrow> n \<le> length (lw_locals st) \<Longrightarrow> b \<le> length (lw_blocks st) \<Longrightarrow> low_inv (f st)) \<Longrightarrow>
   (\<And>st. lw_locals (f st) = lw_locals st \<and> lw_blocks (f st) = lw_blocks st \<and> lw_exitBlock (f st) = lw_exitBlock st) \<Longrightarrow> lok n b (lmod f) any"
  by (auto simp: lok_def lmod_def low_ext_def)

lemma lok_enter [low_intros]: "c < b \<Longrightarrow> lok n b (enter c) any"
  unfolding enter_def by (rule lok_mod) (auto simp: low_inv_def)

lemma lok_bind_name [low_intros]: "l < n \<Longrightarrow> lok n b (bind_name name l) any"
  unfolding bind_name_def by (rule lok_mod) (auto simp: low_inv_def)

lemma lok_mods [low_intros]:
  "lok n b (lmod (\<lambda>st. st\<lparr>lw_loc := p\<rparr>)) any" "lok n b (lmod (\<lambda>st. st\<lparr>lw_terminated := t\<rparr>)) any" "lok n b (lmod (\<lambda>st. st\<lparr>lw_className := c\<rparr>)) any"
  "l < n \<Longrightarrow> lok n b (lmod (\<lambda>st. st\<lparr>lw_scratch := Some l\<rparr>)) any"
  "(\<And>l. old = Some l \<Longrightarrow> l < n) \<Longrightarrow> lok n b (lmod (\<lambda>st. st\<lparr>lw_scope := (lw_scope st)(x := old)\<rparr>)) any"
  by (rule lok_mod; auto simp: low_inv_def dest: order.strict_trans2)+

lemma lok_assign [low_intros]: "l < n \<Longrightarrow> rv_locals rv \<subseteq> {..<n} \<Longrightarrow> lok n b (assign l rv) any"
  unfolding assign_def by (rule lok_emit) auto

lemma subset_lessThan_mono: "s \<subseteq> {..<n} \<Longrightarrow> n \<le> n' \<Longrightarrow> s \<subseteq> {..<n' :: nat}"
  by auto

lemma lok_local_of [low_intros]: "rv_locals rv \<subseteq> {..<n} \<Longrightarrow> lok n b (local_of t name rv) loc"
  unfolding local_of_def by (rule low_intros | force)+

lemma lok_unless [low_intros]: "(\<And>n' b'. n \<le> n' \<Longrightarrow> b \<le> b' \<Longrightarrow> lok n' b' (lseq ms (lret ())) any) \<Longrightarrow> lok n b (unless_terminated ms) any"
  unfolding unless_terminated_def by (rule low_intros | force)+

lemma lok_unit [low_intros]: "lok n b unitLocal loc"
  unfolding unitLocal_def by (rule low_intros | force)+

lemma lok_scratch [low_intros]: "lok n b scratchLocal loc"
  unfolding scratchLocal_def by (rule low_intros | force)+

lemma lok_deliver [low_intros]: "l < n \<Longrightarrow> op_locals x \<subseteq> {..<n} \<Longrightarrow> c < b \<Longrightarrow> lok n b (deliver l x c) any"
  unfolding deliver_def by (rule low_intros | force)+

lemma lok_throw [low_intros]: "l < n \<Longrightarrow> lok n b (throw_local l) any"
  unfolding throw_local_def by (rule low_intros | force)+

lemma lok_compound [low_intros]: "rv_locals old \<subseteq> {..<n} \<Longrightarrow> r < n \<Longrightarrow> lok n b (compound op t rd wr old r) loc"
  unfolding compound_def by (rule low_intros | force)+

lemma lok_call [low_intros]:
  assumes mk: "\<And>d r n' b'. n \<le> n' \<Longrightarrow> b \<le> b' \<Longrightarrow> d < n' \<Longrightarrow> r < b' \<Longrightarrow> tm_locals (mk d r) \<subseteq> {..<n'} \<and> tm_blocks (mk d r) \<subseteq> {..<b'}"
  shows "lok n b (finish_call t mk) loc"
  unfolding finish_call_def
proof (rule lok_bind [OF lok_newLocal], rule lok_bind [OF lok_newBlock])
  fix d n1 b1 r n2 b2 assume a: "n \<le> n1" "b \<le> b1" "d < n1" "n1 \<le> n2" "b1 \<le> b2" "r < b2"
  then have "tm_locals (mk d r) \<subseteq> {..<n2}" "tm_blocks (mk d r) \<subseteq> {..<b2}" using mk [of n2 b2 d r] by auto
  then show "lok n2 b2 (lseq [end_block (mk d r), enter r, assign d (RvUse (OpMove 0))] (lret d)) loc"
    using a by - (rule low_intros | force)+
qed

lemma tm_closure_or_fn [simp]:
  "tm_locals ((if c then TmClosureCall else TmCallIndirect) f xs d r) = insert d (op_locals f \<union> ops_locals xs)"
  "tm_blocks ((if c then TmClosureCall else TmCallIndirect) f xs d r) = {r}"
  by simp_all

lemma lok_choose [low_intros]: "r < n \<Longrightarrow> lok n b m loc \<Longrightarrow> lok n b (if c then lret r else m) loc"
  by (auto intro: lok_ret)

lemma lok_path [low_intros]: "lok n b (lower_path name t isStatic co gs) loc"
  unfolding lower_path_def case_prod_unfold by (rule low_intros | force)+

lemma lok_captures [low_intros]: "lok n b (lower_captures caps) (\<lambda>ops n b. ops_locals ops \<subseteq> {..<n})"
proof -
  have "lok n b (lmap (\<lambda>c. lbind (lget (\<lambda>st. (lw_scope st (hc_name c), lw_closureEnv st))) (\<lambda>(l, env).
         case l of
           Some l \<Rightarrow> lret [OpCopy l]
         | None \<Rightarrow>
             (case env of
                Some env' \<Rightarrow>
                  if hc_sourceOffset c \<noteq> 4294967295
                  then lbind (local_of (hc_ty c) ''fwd_cap'' (RvClosureGet env' (hc_sourceOffset c))) (\<lambda>src. lret [OpCopy src])
                  else lret []
              | None \<Rightarrow> lret []))) caps) (\<lambda>ys n b. length ys = length caps \<and> (\<forall>y \<in> set ys. ops_locals y \<subseteq> {..<n}))"
    by (rule lok_map, unfold case_prod_unfold) (rule low_intros | force simp: ops_locals_def)+
  then show ?thesis unfolding lower_captures_def by (rule lok_bind) ((rule low_intros | (simp add: ops_locals_def subset_iff; fastforce))+)
qed

lemma lok_closure: "lok n b (lower_closure f caps tid t) loc"
  unfolding lower_closure_def by (rule low_intros | force)+

lemma lok_pos: "(\<And>n' b'. n \<le> n' \<Longrightarrow> b \<le> b' \<Longrightarrow> 0 < n' \<Longrightarrow> 0 < b' \<Longrightarrow> lok n' b' m Q) \<Longrightarrow> lok n b m Q"
proof -
  assume a: "\<And>n' b'. n \<le> n' \<Longrightarrow> b \<le> b' \<Longrightarrow> 0 < n' \<Longrightarrow> 0 < b' \<Longrightarrow> lok n' b' m Q"
  have "lok (max n 1) (max b 1) m Q" by (rule a) auto
  moreover have "max n 1 \<le> length (lw_locals st)" "max b 1 \<le> length (lw_blocks st)"
    if "low_inv st" "n \<le> length (lw_locals st)" "b \<le> length (lw_blocks st)" for st
  proof -
    have "0 < length (lw_locals st)" "lw_currentBlock st < length (lw_blocks st)" using that(1) unfolding low_inv_def by blast+
    with that(2,3) show "max n 1 \<le> length (lw_locals st)" "max b 1 \<le> length (lw_blocks st)" by linarith+
  qed
  ultimately show ?thesis unfolding lok_def by blast
qed

section \<open>The laws of the recursion\<close>

text \<open>
  What every construct relies on when it lowers a subexpression: the result is an existing local, whatever the
  stacks of loops and finalizers are.
\<close>

locale low_recursion =
  fixes rec :: low_rec
  assumes rec_loc: "ctx_ok b ctx \<Longrightarrow> lok n b (rec ctx e) loc"
begin

lemma rec_at: "ctx_ok bc ctx \<Longrightarrow> bc \<le> b \<Longrightarrow> lok n b (rec ctx e) loc"
  by (rule rec_loc) (auto simp: ctx_ok_def)

lemma drop_at: "ctx_ok bc ctx \<Longrightarrow> bc \<le> b \<Longrightarrow> lok n b (lbind (rec ctx e) (\<lambda>_. lret ())) any"
  by (rule low_intros rec_at | force)+

lemma loop_at: "ctx_ok bc ctx \<Longrightarrow> bc \<le> b \<Longrightarrow> x < b \<Longrightarrow> y < b \<Longrightarrow> lok n b (rec (push_loop ctx x y label) e) loc"
  by (rule rec_loc) (auto simp: ctx_ok_def push_loop_def)

lemma fin_at: "ctx_ok bc ctx \<Longrightarrow> bc \<le> b \<Longrightarrow> lok n b (rec (push_finally ctx fin a) e) loc"
  by (rule rec_loc) (auto simp: ctx_ok_def push_finally_def split: option.split)

lemma elems_ok: "ctx_ok b ctx \<Longrightarrow> lok n b (lower_elems rec ctx ak name es t) loc"
  unfolding lower_elems_def by (rule low_intros rec_at | force)+

lemma store_ok: "ctx_ok bc ctx \<Longrightarrow> bc \<le> b \<Longrightarrow> l < n \<Longrightarrow> lok n b (store_fields rec ctx l fs) any"
  unfolding store_fields_def case_prod_unfold by (rule low_intros rec_at | force)+

lemma struct_ok: "ctx_ok b ctx \<Longrightarrow> lok n b (lower_struct rec ctx flds sz tid t) loc"
  unfolding lower_struct_def by (rule low_intros store_ok | force)+

lemma enum_ok: "ctx_ok b ctx \<Longrightarrow> lok n b (lower_enum_ctor rec ctx tid vi sz offs args t) loc"
  unfolding lower_enum_ctor_def by (rule low_intros store_ok | force)+

lemma call_ok: "ctx_ok b ctx \<Longrightarrow> lok n b (lower_call rec ctx f sn cl args t) loc"
proof -
  assume c: "ctx_ok b ctx"
  have "lok n b (if cl \<noteq> [] then lret (TmCall (OpConst (CStr cl)))
            else case sn of
              Some s \<Rightarrow> lret (TmCall (OpConst (CStr s)))
            | None \<Rightarrow>
                (case f of
                   None \<Rightarrow> lfail LE_Null
                 | Some f \<Rightarrow> lbind (rec ctx f) (\<lambda>l. lret ((if is_closure_call f then TmClosureCall else TmCallIndirect) (OpCopy l)))))
        (\<lambda>mk n b. \<forall>ls d r. tm_locals (mk (map OpCopy ls) d r) \<subseteq> insert d (set ls \<union> {..<n}) \<and> tm_blocks (mk (map OpCopy ls) d r) = {r})"
    by (rule low_intros rec_at [OF c] | force)+
  then show ?thesis unfolding lower_call_def by (rule lok_bind) ((rule low_intros rec_at [OF c] | (simp add: subset_iff; fastforce))+)
qed

lemma method_call_ok: "ctx_ok b ctx \<Longrightarrow> lok n b (lower_method_call rec ctx recv m qn args vti isI itid imi t) loc"
  unfolding lower_method_call_def Let_def by (rule low_intros rec_at | force)+

lemma unary_ok: "ctx_ok b ctx \<Longrightarrow> lok n b (lower_unary rec ctx op e t) loc"
  unfolding lower_unary_def by (rule low_intros rec_at | force split: if_splits)+

lemma place_ok: "ctx_ok bc ctx \<Longrightarrow> bc \<le> b \<Longrightarrow> lok n b (lowerPlace rec ctx e) loc"
proof -
  assume c: "ctx_ok bc ctx" "bc \<le> b"
  have p: "lok n b (lbind (lget lw_scope) (\<lambda>sc. case sc name of Some l \<Rightarrow> lret l | None \<Rightarrow> unitLocal)) loc" for name
    by (rule low_intros | force)+
  obtain node lc where e: "e = HirExpr node lc" by (cases e)
  have f: "lok n b (lfail (LE_Throws m)) loc" for m by (rule lok_fail) simp
  show ?thesis using p rec_at [OF c] f unfolding e lowerPlace_def by (cases node) simp_all
qed

lemma assign_capture_ok: "ctx_ok bc ctx \<Longrightarrow> bc \<le> b \<Longrightarrow> l < n \<Longrightarrow> lok n b (assign_capture rec ctx l off op e t) any"
  unfolding assign_capture_def by (rule low_intros rec_at | force)+

lemma assign_global_ok: "ctx_ok bc ctx \<Longrightarrow> bc \<le> b \<Longrightarrow> lok n b (assign_global rec ctx slot op e t) any"
  unfolding assign_global_def by (rule lok_choose low_intros rec_at lok_bind [where P = loc] | force)+

lemma assign_field_ok: "ctx_ok bc ctx \<Longrightarrow> bc \<le> b \<Longrightarrow> lok n b (assign_field rec ctx ob off ft op e) any"
  unfolding assign_field_def by (rule lok_bind [where P = loc] lok_choose low_intros rec_at | force)+

lemma assign_index_ok: "ctx_ok bc ctx \<Longrightarrow> bc \<le> b \<Longrightarrow> lok n b (assign_index rec ctx ob i it op e) any"
  unfolding assign_index_def by (rule lok_bind [where P = loc] lok_choose low_intros rec_at | force)+

lemma assign_local_ok: "ctx_ok bc ctx \<Longrightarrow> bc \<le> b \<Longrightarrow> lok n b (assign_local rec ctx op l e) any"
  unfolding assign_local_def by (rule low_intros rec_at place_ok | force split: if_splits)+

lemma assign_other_ok: "ctx_ok bc ctx \<Longrightarrow> bc \<le> b \<Longrightarrow> lok n b (assign_other rec ctx op l e) any"
proof -
  assume c: "ctx_ok bc ctx" "bc \<le> b"
  obtain node lc where l: "l = HirExpr node lc" by (cases l)
  show ?thesis using assign_field_ok [OF c] assign_index_ok [OF c] assign_local_ok [OF c] unfolding l assign_other_def by (cases node) simp_all
qed

lemma assign_ok: "ctx_ok b ctx \<Longrightarrow> lok n b (lower_assign rec ctx op l e t) loc"
  unfolding lower_assign_def case_prod_unfold
  by (rule low_intros assign_capture_ok assign_global_ok assign_other_ok | force split: if_splits)+

lemma stmt_ok: "ctx_ok bc ctx \<Longrightarrow> bc \<le> b \<Longrightarrow> lok n b (lowerStmt rec ctx s) any"
proof -
  assume c: "ctx_ok bc ctx" "bc \<le> b"
  show ?thesis
  proof (cases s)
    case (HirStmtLet pat lt init)
    show ?thesis unfolding HirStmtLet lowerStmt_def using c by - (cases pat; simp only: hir_pat.case hir_stmt.case; (rule low_intros rec_at | force)+)
  next
    case (HirStmtExpr e)
    show ?thesis unfolding HirStmtExpr lowerStmt_def hir_stmt.case using c by - (rule low_intros rec_at | force)+
  qed
qed

lemma block_ok: "ctx_ok b ctx \<Longrightarrow> lok n b (lower_block rec ctx stmts tail) loc"
  unfolding lower_block_def append_Cons append_Nil by (rule low_intros lok_seq_append rec_at stmt_ok | force simp: stmt_ok)+

lemma if_ok: "ctx_ok bc ctx \<Longrightarrow> bc \<le> b \<Longrightarrow> lok n b (lower_if rec ctx c x y t) loc"
  unfolding lower_if_def by (rule low_intros rec_at | force)+

lemma while_ok: "ctx_ok b ctx \<Longrightarrow> lok n b (lower_while rec ctx c x label) loc"
  unfolding lower_while_def by (rule low_intros rec_at loop_at | force)+

lemma loop_ok: "ctx_ok b ctx \<Longrightarrow> lok n b (lower_loop rec ctx x label) loc"
  unfolding lower_loop_def by (rule low_intros loop_at | force)+

lemma for_ok: "ctx_ok b ctx \<Longrightarrow> lok n b (lower_for rec ctx x label) loc"
  unfolding lower_for_def by (rule low_intros loop_at | force)+

lemma check_ok: "ctx_ok bc ctx \<Longrightarrow> bc \<le> b \<Longrightarrow> s < n \<Longrightarrow> x < b \<Longrightarrow> y < b \<Longrightarrow> lok n b (arm_check rec ctx s t cond x y) any"
proof -
  assume c: "ctx_ok bc ctx" "bc \<le> b" "s < n" "x < b" "y < b"
  show ?thesis
  proof (cases cond)
    case (CondExpr e)
    show ?thesis unfolding CondExpr arm_check_def hir_cond.case using c by - (rule low_intros rec_at | force)+
  next
    case (CondPat p)
    show ?thesis
    proof (cases "\<exists>es v. p = Some (HirPatEnum es v)")
      case True
      then obtain es v where "p = Some (HirPatEnum es v)" by blast
      with CondPat show ?thesis unfolding arm_check_def using c by simp (rule low_intros | force)+
    next
      case False
      then have "arm_check rec ctx s t cond x y = end_block (TmGoto x)" unfolding CondPat arm_check_def by (simp split: option.split hir_pat.split)
      then show ?thesis using c by simp (rule low_intros | force)+
    qed
  next
    case CondNone
    show ?thesis unfolding CondNone arm_check_def hir_cond.case using c by - (rule low_intros | force)+
  qed
qed

lemma arm_ok: "ctx_ok bc ctx \<Longrightarrow> bc \<le> b \<Longrightarrow> s < n \<Longrightarrow> r < n \<Longrightarrow> ex < b \<Longrightarrow> cb < b \<Longrightarrow> bb < b \<Longrightarrow> nb < b \<Longrightarrow>
    lok n b (lower_arm rec ctx s t r ex arm cb bb nb) any"
proof -
  assume c: "ctx_ok bc ctx" "bc \<le> b" "s < n" "r < n" "ex < b" "cb < b" "bb < b" "nb < b"
  have p: "lok n b (bind_payload s pi p) any" if "s < n" for n b pi p
  proof (cases "\<exists>x m q. p = Some (HirPatBind x m q)")
    case True
    then obtain x m q where "p = Some (HirPatBind x m q)" by blast
    then show ?thesis unfolding bind_payload_def using that by simp (rule low_intros | force)+
  next
    case False
    then have "bind_payload s pi p = lret ()" unfolding bind_payload_def by (simp split: option.split hir_pat.split)
    then show ?thesis by (simp add: lok_ret)
  qed
  have "lok n b (arm_binds s cond) any" if "s < n" for n b cond
  proof (cases "\<exists>es v. cond = CondPat (Some (HirPatEnum es v))")
    case True
    then obtain es v where "cond = CondPat (Some (HirPatEnum es v))" by blast
    then show ?thesis unfolding arm_binds_def using that by simp (rule low_intros p | force)+
  next
    case False
    then have "arm_binds s cond = lret ()" unfolding arm_binds_def by (simp split: option.split hir_pat.split hir_cond.split)
    then show ?thesis by (simp add: lok_ret)
  qed
  then show ?thesis unfolding lower_arm_def using c by - (rule low_intros rec_at check_ok | force)+
qed

lemma arms_ok:
  assumes c: "ctx_ok bc ctx" "bc \<le> b" "s < n" "r < n" "ex < b" "el < b" and len: "length bbs = length checks" and bbs: "\<forall>y \<in> set bbs. fst y < b \<and> snd y < b"
  shows "lok n b (lower_arms rec ctx s t r ex el checks bbs) any"
  unfolding lower_arms_def
proof (rule lok_each)
  fix ci n' b' assume "ci \<in> set [0..<length checks]" and m: "n \<le> n'" "b \<le> b'"
  then have ci: "ci < length bbs" using len by simp
  have "fst (bbs ! ci) < b'" "snd (bbs ! ci) < b'" using bbs nth_mem [OF ci] m by auto
  moreover have "fst (bbs ! (ci + 1)) < b'" if "ci + 1 < length bbs" using bbs nth_mem [OF that] m(2) by fastforce
  then have "(if ci + 1 < length bbs then fst (bbs ! (ci + 1)) else el) < b'" using c m by simp
  ultimately show "lok n' b' (lower_arm rec ctx s t r ex (checks ! ci) (fst (bbs ! ci)) (snd (bbs ! ci))
      (if ci + 1 < length bbs then fst (bbs ! (ci + 1)) else el)) any" using c m by (intro arm_ok [OF c(1)]) auto
qed

lemma when_arms_ok: "ctx_ok bc ctx \<Longrightarrow> bc \<le> b \<Longrightarrow> s < n \<Longrightarrow> lok n b (lower_when_arms rec ctx s arms t) loc"
proof -
  assume c: "ctx_ok bc ctx" "bc \<le> b" "s < n"
  have bbs: "lok n b (lmap (\<lambda>_. lbind newBlock (\<lambda>c. lbind newBlock (\<lambda>b. lret (c, b)))) checks)
      (\<lambda>ys n b. length ys = length checks \<and> (\<forall>y \<in> set ys. fst y < b \<and> snd y < b))" for n b and checks :: "hir_expr hir_arm list"
    by (rule lok_map) (rule low_intros | force)+
  have el: "lok n b (if x then newBlock else lret ex) blk" if "ex < b" for n b x ex
    using that by - (rule low_intros | force)+
  show ?thesis unfolding lower_when_arms_def Let_def
  proof (rule lok_bind [OF lok_newBlock], rule lok_bind [OF lok_newLocal], rule lok_bind [OF bbs])
    fix ex n1 b1 r n2 b2 bbs n3 b3
    let ?checks = "map ((!) arms) (filter (\<lambda>i. Some i \<noteq> else_index arms) [0..<length arms])"
    assume a: "n \<le> n1" "b \<le> b1" "ex < b1" "n1 \<le> n2" "b1 \<le> b2" "r < n2" "n2 \<le> n3" "b2 \<le> b3"
      "length bbs = length ?checks \<and> (\<forall>y \<in> set bbs. fst y < b3 \<and> snd y < b3)"
    show "lok n3 b3 (lbind (if else_index arms \<noteq> None then newBlock else lret ex) (\<lambda>elseB.
        lseq [lwhen (bbs \<noteq> []) (unless_terminated [end_block (TmGoto (fst (hd bbs)))]),
              lower_arms rec ctx s t r ex elseB ?checks bbs,
              enter elseB,
              (case else_index arms of
                 Some i \<Rightarrow> lbind (rec ctx (arm_body (arms ! i))) (\<lambda>v. unless_terminated [deliver r (OpCopy v) ex])
               | None \<Rightarrow> lwhen (elseB \<noteq> ex) (deliver r (OpConst (CI64 0)) ex)),
              enter ex]
          (lret r))) loc"
    proof (rule lok_bind [OF el])
      show "ex < b3" using a by linarith
      fix e n4 b4 assume e: "n3 \<le> n4" "b3 \<le> b4" "e < b4"
      have 1: "lok n b (lwhen (bbs \<noteq> []) (unless_terminated [end_block (TmGoto (fst (hd bbs)))])) any" if "b4 \<le> b" for n b
        using a(9) e that by (cases bbs) (auto simp: lwhen_def intro!: lok_ret lok_unless lok_bind [where P = any] lok_end)
      have 2: "lok n' b (lower_arms rec ctx s t r ex e ?checks bbs) any" if "n4 \<le> n'" "b4 \<le> b" for n' b
        by (rule arms_ok [OF c(1)]) (use a c e that in \<open>auto dest: order.strict_trans2\<close>)
      show "lok n4 b4 (lseq [lwhen (bbs \<noteq> []) (unless_terminated [end_block (TmGoto (fst (hd bbs)))]),
              lower_arms rec ctx s t r ex e ?checks bbs,
              enter e,
              (case else_index arms of
                 Some i \<Rightarrow> lbind (rec ctx (arm_body (arms ! i))) (\<lambda>v. unless_terminated [deliver r (OpCopy v) ex])
               | None \<Rightarrow> lwhen (e \<noteq> ex) (deliver r (OpConst (CI64 0)) ex)),
              enter ex]
          (lret r)) loc"
      proof (rule lok_seq_Cons [OF 1 [OF order.refl]], rule lok_seq_Cons [OF 2])
        fix n5 b5 n6 b6 assume m: "n4 \<le> n5" "b4 \<le> b5"
        show "n4 \<le> n5" "b4 \<le> b5" by (fact m)+
        assume m: "n4 \<le> n5" "b4 \<le> b5" "n5 \<le> n6" "b5 \<le> b6"
        have o: "ctx_ok bc ctx" "bc \<le> b6" "e < b6" "ex < b6" "r < n6" using a c e m by linarith+
        show "lok n6 b6 (lseq [enter e,
              (case else_index arms of
                 Some i \<Rightarrow> lbind (rec ctx (arm_body (arms ! i))) (\<lambda>v. unless_terminated [deliver r (OpCopy v) ex])
               | None \<Rightarrow> lwhen (e \<noteq> ex) (deliver r (OpConst (CI64 0)) ex)),
              enter ex]
          (lret r)) loc"
          using o by - (rule low_intros rec_at | force)+
      qed
    qed
  qed
qed

lemma finalizers_ok: "ctx_ok bc ctx \<Longrightarrow> bc \<le> b \<Longrightarrow> lok n b (run_finalizers rec ctx fs) any"
proof (induction fs arbitrary: n b)
  case (Cons f fs)
  obtain g a where f: "f = (g, a)" by (cases f)
  show ?case unfolding f run_finalizers.simps using Cons.prems by - (rule low_intros rec_at Cons.IH | assumption | rule TrueI | linarith | force)+
qed (simp add: lok_ret)

lemma to_depth_ok: "ctx_ok bc ctx \<Longrightarrow> bc \<le> b \<Longrightarrow> lok n b (lowerFinalizersTo rec ctx d) any"
  unfolding lowerFinalizersTo_def by (rule finalizers_ok [where bc = bc]) (simp_all add: ctx_ok_def)

lemma jump_target_in: "ctx_ok b ctx \<Longrightarrow> 0 < b \<Longrightarrow> sel = lp_breakTarget \<or> sel = lp_continueTarget \<Longrightarrow> fst (jump_target ctx label sel) < b"
proof -
  assume a: "ctx_ok b ctx" "0 < b" "sel = lp_breakTarget \<or> sel = lp_continueTarget"
  have "sel c < b" if "c \<in> set (cx_loops ctx)" for c using a that by (auto simp: ctx_ok_def)
  moreover have "c \<in> set (cx_loops ctx)" if f: "find P (rev (cx_loops ctx)) = Some c" for P c
  proof -
    from f obtain i where "i < length (rev (cx_loops ctx))" "c = rev (cx_loops ctx) ! i" by (auto simp: find_Some_iff)
    then have "c \<in> set (rev (cx_loops ctx))" by (simp only: nth_mem)
    then show ?thesis by simp
  qed
  ultimately show ?thesis using a(2) unfolding jump_target_def Let_def by (auto split: option.split)
qed

lemma jump_ok: "ctx_ok bc ctx \<Longrightarrow> bc \<le> b \<Longrightarrow> fst td < b \<Longrightarrow> lok n b (jump_out rec ctx td) loc"
  unfolding jump_out_def by (rule low_intros to_depth_ok | force)+

lemma when_ok: "ctx_ok b ctx \<Longrightarrow> lok n b (lower_when rec ctx e arms t) loc"
proof (rule lok_pos)
  fix n' b' :: nat assume c: "ctx_ok b ctx" "b \<le> b'" "0 < n'"
  have s: "lok n' b' (case e of Some x \<Rightarrow> rec ctx x | None \<Rightarrow> lret 0) loc"
    using c by (cases e) (auto intro: lok_ret rec_at)
  have "lok n1 b1 (lower_when_arms rec ctx s arms t) loc" if "b' \<le> b1" "s < n1" for n1 b1 s
    by (rule when_arms_ok [OF c(1)]) (use c that in linarith)+
  then show "lok n' b' (lower_when rec ctx e arms t) loc" unfolding lower_when_def by (intro lok_if lok_unit lok_bind [OF s])
qed

lemma break_ok: "ctx_ok b ctx \<Longrightarrow> lok n b (lower_break rec ctx label e) loc"
proof (rule lok_pos)
  fix n' b' assume c: "ctx_ok b ctx" "b \<le> b'" "0 < b'"
  then have "ctx_ok b' ctx" by (auto simp: ctx_ok_def)
  then show "lok n' b' (lower_break rec ctx label e) loc" unfolding lower_break_def
    using c jump_target_in [of b' ctx lp_breakTarget label] by - (rule low_intros jump_ok drop_at | force)+
qed

lemma continue_ok: "ctx_ok b ctx \<Longrightarrow> lok n b (jump_out rec ctx (jump_target ctx label lp_continueTarget)) loc"
proof (rule lok_pos)
  fix n' b' assume c: "ctx_ok b ctx" "b \<le> b'" "0 < b'"
  then have "ctx_ok b' ctx" by (auto simp: ctx_ok_def)
  then show "lok n' b' (jump_out rec ctx (jump_target ctx label lp_continueTarget)) loc"
    using c jump_target_in [of b' ctx lp_continueTarget label] by - (rule jump_ok | force)+
qed

lemma return_ok: "ctx_ok b ctx \<Longrightarrow> lok n b (lower_return rec ctx e) loc"
proof (rule lok_pos)
  fix n' b' :: nat assume c: "ctx_ok b ctx" "b \<le> b'" "0 < n'"
  have v: "lok n' b' (case e of Some x \<Rightarrow> rec ctx x | None \<Rightarrow> lret 0) loc"
    using c by (cases e) (auto intro: lok_ret rec_at)
  show "lok n' b' (lower_return rec ctx e) loc" unfolding lower_return_def
    by (rule lok_bind [OF v]) (insert c, (rule low_intros to_depth_ok | force split: if_splits)+)
qed

lemma throw_ok: "ctx_ok b ctx \<Longrightarrow> lok n b (lower_throw rec ctx e) loc"
  unfolding lower_throw_def by (rule low_intros rec_at to_depth_ok | assumption | rule TrueI | linarith | force)+

lemma catch_ok:
  assumes c: "ctx_ok bc ctx" "bc \<le> b" "exn < n" "r < n" "nb < b" "tb < b"
  shows "lok n b (lower_catch rec ctx fin exn r nb tb clause) blk"
  unfolding lower_catch_def
  using c by - (rule low_intros fin_at | assumption | rule TrueI | linarith | force)+

lemma catches_ok:
  "ctx_ok bc ctx \<Longrightarrow> bc \<le> b \<Longrightarrow> exn < n \<Longrightarrow> r < n \<Longrightarrow> nb < b \<Longrightarrow> tb < b \<Longrightarrow> lok n b (lower_catches rec ctx fin exn r nb tb cs) blk"
proof (induction cs arbitrary: n b tb)
  case (Cons c cs)
  show ?case unfolding lower_catches.simps
  proof (rule lok_bind [OF catch_ok [OF Cons.prems]])
    fix x n' b' assume "n \<le> n'" "b \<le> b'" "x < b'"
    then show "lok n' b' (lower_catches rec ctx fin exn r nb x cs) blk" using Cons.prems by (intro Cons.IH) auto
  qed
qed (auto intro: lok_ret)

lemma run_finally_ok: "ctx_ok bc ctx \<Longrightarrow> bc \<le> b \<Longrightarrow> lok n b (run_finally rec ctx fin) any"
  unfolding run_finally_def by (rule low_intros rec_at | force)+

lemma try_ok: "ctx_ok b ctx \<Longrightarrow> lok n b (lower_try_catch rec ctx e cs fin t) loc"
  unfolding lower_try_catch_def
  by (rule low_intros fin_at catches_ok run_finally_ok | assumption | rule TrueI | linarith | force)+

lemma unwrap_ok: "ctx_ok b ctx \<Longrightarrow> lok n b (lower_force_unwrap rec ctx e) loc"
  unfolding lower_force_unwrap_def by (rule low_intros rec_at | assumption | rule TrueI | linarith | force)+

lemma elvis_ok: "ctx_ok b ctx \<Longrightarrow> lok n b (lower_elvis rec ctx x y t) loc"
  unfolding lower_elvis_def by (rule low_intros rec_at | assumption | rule TrueI | linarith | force)+

lemma safe_call_ok: "ctx_ok b ctx \<Longrightarrow> lok n b (lower_safe_call rec ctx x m args t) loc"
  unfolding lower_safe_call_def by (rule low_intros rec_at | assumption | rule TrueI | linarith | force)+

lemma safe_field_ok: "ctx_ok b ctx \<Longrightarrow> lok n b (lower_safe_field rec ctx x off t) loc"
  unfolding lower_safe_field_def by (rule low_intros rec_at | assumption | rule TrueI | linarith | force)+

lemma at_loc_ok:
  assumes m: "\<And>n' b'. n \<le> n' \<Longrightarrow> b \<le> b' \<Longrightarrow> lok n' b' m loc"
  shows "lok n b (at_loc p m) loc"
  unfolding at_loc_def by (rule low_intros m | force)+

lemma binary_ok: "ctx_ok b ctx \<Longrightarrow> lok n b (lower_binary rec ctx op x y t) loc"
proof -
  assume c: "ctx_ok b ctx"
  have "lok n b (lbind (rec ctx x) (\<lambda>lv. lbind (rec ctx y) (\<lambda>rv. local_of t ''bin'' (RvBinary op (OpCopy lv) (OpCopy rv))))) loc"
    using c by - (rule low_intros rec_at | force)+
  then show ?thesis unfolding lower_binary_def Let_def by (auto intro!: at_loc_ok if_ok [OF c])
qed

lemma node_ok: "ctx_ok b ctx \<Longrightarrow> lok n b (lower_node rec ctx node) loc"
proof -
  assume c: "ctx_ok b ctx"
  note ok = elems_ok struct_ok call_ok method_call_ok unary_ok binary_ok assign_ok block_ok while_ok for_ok loop_ok when_ok break_ok continue_ok return_ok
    throw_ok try_ok safe_call_ok safe_field_ok elvis_ok unwrap_ok enum_ok
  have one: "lok n b (lbind (rec ctx e) (\<lambda>l. local_of t name (f l))) loc" if "\<And>l. rv_locals (f l) = {l}" for e t name f
    using c that by - (rule low_intros rec_at | force)+
  show ?thesis
  proof (cases node)
    case (HirIndex e i t)
    show ?thesis unfolding HirIndex lower_node.simps using c by - (rule low_intros rec_at | force)+
  next
    case (HirIsNot e tid t)
    show ?thesis unfolding HirIsNot lower_node.simps using c by - (rule low_intros rec_at | force)+
  next
    case (HirIf x y z t)
    then show ?thesis using if_ok [OF c] by simp
  next
    case (HirTry e t)
    then show ?thesis using rec_at [OF c] by simp
  qed (simp_all add: ok [OF c] one lok_closure lok_path lok_local_of lower_null_def)
qed

end

lemma lowerExpr_recursion: "low_recursion (lowerExpr n)"
proof (induction n)
  case 0
  show ?case by (simp add: low_recursion_def lok_fail)
next
  case (Suc n)
  show ?case
  proof
    fix b ctx m e assume c: "ctx_ok b ctx"
    have "lok m' b' (lower_node (lowerExpr n) ctx node) loc" if "b \<le> b'" for m' b' node
    proof (rule low_recursion.node_ok [OF Suc.IH])
      show "ctx_ok b' ctx" using c that by (auto simp: ctx_ok_def)
    qed
    then show "lok m b (lowerExpr (Suc n) ctx e) loc" by (cases e) (auto intro: low_recursion.at_loc_ok [OF Suc.IH])
  qed
qed

interpretation lowering: low_recursion "lowerExpr n" for n
  by (rule lowerExpr_recursion)

lemma lok_top [low_intros]: "lok n b (lower_top e) loc"
  unfolding lower_top_def by (rule lowering.rec_loc) (simp add: ctx_ok_def)

end
