(* ===== verification/Lx_LowerBodies.thy ===== *)
theory Lx_LowerBodies
  imports Lx_LowerSpec
begin

text \<open>
  The bodies the lowering returns: how a body is opened and closed, that its code keeps the triples, and that a
  module yields closed bodies for its items in order.  At the end, the code of two concrete bodies is computed.
\<close>

section \<open>Bodies\<close>

text \<open>The locals of a body before its code: the return slot, then the environment or the receiver, then the parameters.\<close>

definition frame_locals :: "ty \<Rightarrow> string option \<Rightarrow> (string \<times> ty) list \<Rightarrow> local_decl list" where
  "frame_locals ret special params =
     \<lparr>ld_ty = ret, ld_name = ''_return'', ld_mut = False\<rparr> #
     (case special of Some name \<Rightarrow> [\<lparr>ld_ty = mkInt, ld_name = name, ld_mut = False\<rparr>] | None \<Rightarrow> []) @
     map (\<lambda>(name, t). \<lparr>ld_ty = t, ld_name = name, ld_mut = False\<rparr>) params"

text \<open>A state whose body has the locals \<open>ls\<close> and no block yet.\<close>

definition opened :: "local_decl list \<Rightarrow> local_id option \<Rightarrow> lower_state \<Rightarrow> bool" where
  "opened ls env st \<longleftrightarrow> lw_locals st = ls \<and> lw_blocks st = [] \<and> lw_scratch st = None
     \<and> (\<forall>x l. lw_scope st x = Some l \<longrightarrow> l < length ls) \<and> lw_closureEnv st = env"

lemma opened_local:
  assumes "opened ls env st"
  shows "\<exists>st'. lbind (newLocal t name m) (\<lambda>l. leach (\<lambda>n. bind_name n l) names) st = Inr ((), st') \<and>
    opened (ls @ [\<lparr>ld_ty = t, ld_name = name, ld_mut = m\<rparr>]) env st'"
proof -
  let ?d = "\<lparr>ld_ty = t, ld_name = name, ld_mut = m\<rparr>"
  have "\<exists>st'. leach (\<lambda>n. bind_name n (length ls)) names st0 = Inr ((), st') \<and> opened (ls @ [?d]) env st'" if "opened (ls @ [?d]) env st0" for st0
    using that
  proof (induction names arbitrary: st0)
    case Nil
    then show ?case by (simp add: leach_def lret_def)
  next
    case (Cons x names)
    then have "opened (ls @ [?d]) env (st0\<lparr>lw_scope := (lw_scope st0)(x \<mapsto> length ls)\<rparr>)" by (auto simp: opened_def)
    from Cons.IH [OF this] show ?case by (simp add: leach_def lbind_run bind_name_def lmod_def)
  qed
  moreover have "opened (ls @ [?d]) env (st\<lparr>lw_locals := ls @ [?d]\<rparr>)" using assms by (auto simp: opened_def intro: less_SucI)
  ultimately show ?thesis using assms by (simp add: lbind_run newLocal_def opened_def [of ls])
qed

lemma leach_single: "leach f [x] = lbind (f x) (\<lambda>_. lret ())"
  by (simp add: leach_def)

lemma opened_params:
  "opened ls env st \<Longrightarrow> \<exists>st'. lseq (map (\<lambda>(name, t). lbind (newLocal t name False) (bind_name name)) ps) (lret ()) st = Inr ((), st') \<and>
     opened (ls @ map (\<lambda>(name, t). \<lparr>ld_ty = t, ld_name = name, ld_mut = False\<rparr>) ps) env st'"
proof (induction ps arbitrary: ls st)
  case Nil
  then show ?case by (simp add: lret_def)
next
  case (Cons p ps)
  obtain x t where p: "p = (x, t)" by (cases p)
  from opened_local [OF Cons.prems, of t x False "[x]"] obtain st1 where
    "lbind (newLocal t x False) (bind_name x) st = Inr ((), st1)" "opened (ls @ [\<lparr>ld_ty = t, ld_name = x, ld_mut = False\<rparr>]) env st1"
    by (auto simp: leach_single lbind_run lret_def split: sum.splits)
  with Cons.IH [OF this(2)] show ?case by (simp add: p lbind_run)
qed

lemma open_opened: "\<exists>st'. open_body ret sp ps names st = Inr ((), st') \<and> opened (frame_locals ret sp ps) None st'"
proof -
  define st0 where "st0 = st\<lparr>lw_locals := [\<lparr>ld_ty = ret, ld_name = ''_return'', ld_mut = False\<rparr>], lw_blocks := [],
                        lw_scope := Map.empty, lw_scratch := None, lw_closureEnv := None\<rparr>"
  have 0: "opened [\<lparr>ld_ty = ret, ld_name = ''_return'', ld_mut = False\<rparr>] None st0" by (simp add: opened_def st0_def)
  show ?thesis
  proof (cases sp)
    case None
    with opened_params [OF 0, of ps] show ?thesis
      by (simp add: open_body_def frame_locals_def lbind_run lmod_def flip: st0_def)
  next
    case (Some name)
    from opened_local [OF 0, of mkInt name False names] obtain st1 where
      1: "lbind (newLocal mkInt name False) (\<lambda>l. leach (\<lambda>n. bind_name n l) names) st0 = Inr ((), st1)"
        "opened [\<lparr>ld_ty = ret, ld_name = ''_return'', ld_mut = False\<rparr>, \<lparr>ld_ty = mkInt, ld_name = name, ld_mut = False\<rparr>] None st1"
      by auto
    from opened_params [OF 1(2), of ps] 1(1) Some show ?thesis
      by (simp add: open_body_def frame_locals_def lbind_run [of "lmod f" for f] lbind_run [of "lbind m f" for m f] lmod_def flip: st0_def)
  qed
qed

lemma open_blocks_ready:
  assumes "opened ls env st" and "ls \<noteq> []" and "\<And>l. env = Some l \<Longrightarrow> l < length ls"
  shows "\<exists>st'. open_blocks st = Inr ((), st') \<and> low_inv st' \<and> lw_locals st' = ls \<and> length (lw_blocks st') = 2 \<and> lw_exitBlock st' = 1"
proof -
  have "block_in n (Suc (Suc 0)) new_basic_block" for n by (simp add: block_in_def new_basic_block_def)
  then show ?thesis using assms
    by (auto simp: open_blocks_def lbind_run newBlock_def enter_def lmod_def low_inv_def opened_def)
qed

text \<open>A finished body: closed, with the frame in front, and an exit block that returns.\<close>

definition body_closed :: "local_decl list \<Rightarrow> mir_body \<Rightarrow> bool" where
  "body_closed frame b \<longleftrightarrow>
     (\<forall>bb \<in> set (mb_blocks b). block_in (length (mb_locals b)) (length (mb_blocks b)) bb)
     \<and> 1 < length (mb_blocks b) \<and> fst (bb_term (mb_blocks b ! 1)) = TmReturn
     \<and> take (length frame) (mb_locals b) = frame \<and> mb_paramCount b = u32_cast (length frame - 1)"

lemma close_closed:
  assumes "low_inv st" and "lw_exitBlock st = 1" and "\<exists>ls. lw_locals st = frame @ ls" and "1 < length (lw_blocks st)" and "n = length frame - 1"
  shows "\<exists>b. close_body name ret (u32_cast n) st = Inr (b, st) \<and> body_closed frame b \<and> mb_name b = name \<and> mb_ret_ty b = ret"
proof -
  have r: "resize_to (lw_exitBlock st + 1) new_basic_block (lw_blocks st) = lw_blocks st" using assms(2,4) by (simp add: resize_to_def)
  have "block_in (length (lw_locals st)) (length (lw_blocks st)) ((lw_blocks st ! 1)\<lparr>bb_term := (TmReturn, no_loc)\<rparr>)"
  proof -
    have "block_in (length (lw_locals st)) (length (lw_blocks st)) (lw_blocks st ! 1)"
      using assms(1) nth_mem [OF assms(4)] unfolding low_inv_def by blast
    then show ?thesis by (simp add: block_in_def)
  qed
  moreover have "\<forall>bb \<in> set (lw_blocks st). block_in (length (lw_locals st)) (length (lw_blocks st)) bb"
    using assms(1) unfolding low_inv_def by blast
  ultimately show ?thesis unfolding close_body_def using r assms(2-5) set_update_subset_insert [of "lw_blocks st" 1]
    by (auto simp: lbind_run lget_def lret_def Let_def body_closed_def)
qed

text \<open>What a lowering of a body ends with.\<close>

definition ends_closed :: "local_decl list \<Rightarrow> string \<Rightarrow> ty \<Rightarrow> mir_body low \<Rightarrow> lower_state \<Rightarrow> bool" where
  "ends_closed frame name ret m st \<longleftrightarrow> m st \<noteq> Inl LE_Range \<and>
     (\<forall>b st'. m st = Inr (b, st') \<longrightarrow> body_closed frame b \<and> mb_name b = name \<and> mb_ret_ty b = ret)"

lemma ends_step: "m st = Inr ((), st') \<Longrightarrow> ends_closed frame name ret (lseq ms k) st' \<Longrightarrow> ends_closed frame name ret (lseq (m # ms) k) st"
  by (simp add: ends_closed_def lbind_run)

lemma code_ends:
  assumes o: "opened frame env st" "frame \<noteq> []" "\<And>l. env = Some l \<Longrightarrow> l < length frame"
    and code: "lok (length frame) 2 (lseq ms (lret ())) any" and k: "k = u32_cast (length frame - 1)"
  shows "ends_closed frame name ret (lseq (open_blocks # ms) (close_body name ret k)) st"
proof -
  obtain st1 where 1: "open_blocks st = Inr ((), st1)" "low_inv st1" "lw_locals st1 = frame" "length (lw_blocks st1) = 2" "lw_exitBlock st1 = 1"
    using open_blocks_ready [OF o] by blast
  have "ends_closed frame name ret (lseq ms (close_body name ret k)) st1"
  proof (cases "lseq ms (lret ()) st1")
    case (Inl x)
    have "x \<noteq> LE_Range" using lok_range [OF code 1(2)] 1 Inl by simp
    then show ?thesis unfolding ends_closed_def lseq_bind [of ms "close_body name ret k"] lbind_run Inl by simp
  next
    case (Inr r)
    then obtain st2 where 2: "lseq ms (lret ()) st1 = Inr ((), st2)" by (cases r) auto
    with lok_Ok [OF code 1(2) _ _ 2] 1 have s: "low_inv st2" "low_ext st1 st2" by simp_all
    then have "lw_exitBlock st2 = 1" "\<exists>ls. lw_locals st2 = frame @ ls" "1 < length (lw_blocks st2)" using 1 by (auto simp: low_ext_def)
    from close_closed [OF s(1) this refl, of name ret] show ?thesis
      unfolding ends_closed_def lseq_bind [of ms "close_body name ret k"] lbind_run 2 by (auto simp: k)
  qed
  with 1(1) show ?thesis by (rule ends_step)
qed

lemma lok_return [low_intros]: "l < n \<Longrightarrow> lok n b (return_value l) any"
proof (rule lok_pos)
  show "lok n' b' (return_value l) any" if "l < n" "n \<le> n'" "0 < n'" for n' b'
    using that unfolding return_value_def by - (rule low_intros | force)+
qed

lemma frame_length [simp]: "length (frame_locals ret sp ps) = Suc ((if sp = None then 0 else 1) + length ps)" "frame_locals ret sp ps \<noteq> []"
  by (auto simp: frame_locals_def split: option.split)

lemma fn_closed:
  "ends_closed (frame_locals (hf_ret f) (if hf_closureEnvTypeId f \<noteq> 4294967295 then Some ''__closure_env'' else None) (hf_params f)) (hf_name f) (hf_ret f) (lowerFn f) st"
proof -
  define closure where "closure = (hf_closureEnvTypeId f \<noteq> 4294967295)"
  define sp where "sp = (if closure then Some ''__closure_env'' else None)"
  define env where "env = (if closure then Some (1 :: local_id) else None)"
  let ?fr = "frame_locals (hf_ret f) sp (hf_params f)"
  obtain st1 where 1: "open_body (hf_ret f) sp (hf_params f) [''__closure_env''] st = Inr ((), st1)" "opened ?fr None st1"
    using open_opened by blast
  have "\<exists>st2. (lwhen closure (lmod (\<lambda>st. st\<lparr>lw_closureEnv := Some 1\<rparr>)) :: unit low) st1 = Inr ((), st2) \<and> opened ?fr env st2"
    using 1(2) by (cases closure) (auto simp: lwhen_def lmod_def lret_def env_def opened_def)
  then obtain st2 where 2: "(lwhen closure (lmod (\<lambda>st. st\<lparr>lw_closureEnv := Some 1\<rparr>)) :: unit low) st1 = Inr ((), st2)" "opened ?fr env st2" by blast
  have c: "lok (length ?fr) 2 (lseq [lbind (lower_top (hf_body f)) return_value] (lret ())) any"
    by (rule low_intros | force)+
  have e: "l < length ?fr" if "env = Some l" for l using that by (simp add: env_def sp_def split: if_splits)
  have n: "length (hf_params f) + (if closure then 1 else 0) = length ?fr - 1" by (simp add: sp_def)
  have "ends_closed ?fr (hf_name f) (hf_ret f) (lowerFn f) st"
    unfolding lowerFn_def Let_def closure_def [symmetric] sp_def [symmetric] n
    by (rule ends_step, rule 1(1), rule ends_step, rule 2(1), rule code_ends [OF 2(2) _ e c refl]) simp
  then show ?thesis by (simp add: sp_def closure_def)
qed

lemma method_closed:
  "ends_closed (frame_locals (hf_ret m) (Some ''self'') (hf_params m)) (hk_name c @ ''.'' @ hf_name m) (hf_ret m) (lowerMethod c m) st"
proof -
  let ?fr = "frame_locals (hf_ret m) (Some ''self'') (hf_params m)"
  let ?st = "st\<lparr>lw_className := hk_name c\<rparr>"
  obtain st1 where 1: "open_body (hf_ret m) (Some ''self'') (hf_params m) [''self'', ''this''] ?st = Inr ((), st1)" "opened ?fr None st1"
    using open_opened by blast
  have code: "lok (length ?fr) 2 (lseq [lbind (lower_top (hf_body m)) return_value, lmod (\<lambda>st. st\<lparr>lw_className := []\<rparr>)] (lret ())) any"
    by (rule low_intros | force)+
  have n: "length (hf_params m) + 1 = length ?fr - 1" by simp
  show ?thesis unfolding lowerMethod_def n
    by (rule ends_step, simp add: lmod_def, rule ends_step, rule 1(1), rule code_ends [OF 1(2) _ _ code refl]) simp_all
qed

lemma ctor_code [low_intros]:
  "l < n \<Longrightarrow> lok n b (ctor_super_args c l) any" "l < n \<Longrightarrow> lok n b (ctor_params c l) any" "l < n \<Longrightarrow> lok n b (ctor_fields c l) any"
  "lok n b (ctor_inits c) any"
  unfolding ctor_super_args_def ctor_params_def ctor_fields_def ctor_inits_def
  by - (rule low_intros | force)+

lemma ctor_closed:
  "ends_closed (frame_locals mkInt None (map (\<lambda>p. (cp_name p, cp_ty p)) (hk_ctorParams c))) (hk_name c @ ''.init'') mkInt (lowerClassCtor c) st"
proof -
  let ?ps = "map (\<lambda>p. (cp_name p, cp_ty p)) (hk_ctorParams c)"
  let ?fr = "frame_locals mkInt None ?ps"
  let ?st = "st\<lparr>lw_className := hk_name c\<rparr>"
  obtain st1 where 1: "open_body mkInt None ?ps [] ?st = Inr ((), st1)" "opened ?fr None st1"
    using open_opened by blast
  have code: "lok (length ?fr) 2 (lseq
        [lbind (newLocal mkInt ''self'' False) (\<lambda>obj.
             lseq [bind_name ''self'' obj, bind_name ''this'' obj,
                   assign obj (RvAlloc (if hk_totalFieldSize c > 0 then hk_totalFieldSize c else 9) (hk_typeId c)),
                   ctor_super_args c obj, ctor_params c obj, ctor_fields c obj, ctor_inits c]
               (return_value obj)),
         lmod (\<lambda>st. st\<lparr>lw_className := []\<rparr>)] (lret ())) any"
    by (rule low_intros | force)+
  have n: "length (hk_ctorParams c) = length ?fr - 1" by simp
  show ?thesis unfolding lowerClassCtor_def n
    by (rule ends_step, simp add: lmod_def, rule ends_step, rule 1(1), rule code_ends [OF 1(2) _ _ code refl]) simp_all
qed

section \<open>The module\<close>

definition fn_frame :: "hir_fn \<Rightarrow> local_decl list" where
  "fn_frame f = frame_locals (hf_ret f) (if hf_closureEnvTypeId f \<noteq> 4294967295 then Some ''__closure_env'' else None) (hf_params f)"

text \<open>The bodies an item stands for: their names and frames.\<close>

definition item_bodies :: "hir_item \<Rightarrow> (string \<times> ty \<times> local_decl list) list" where
  "item_bodies it =
     (case it of
        ItemFn f \<Rightarrow> [(hf_name f, hf_ret f, fn_frame f)]
      | ItemClass c \<Rightarrow>
          (hk_name c @ ''.init'', mkInt, frame_locals mkInt None (map (\<lambda>p. (cp_name p, cp_ty p)) (hk_ctorParams c))) #
          map (\<lambda>m. (hk_name c @ ''.'' @ hf_name m, hf_ret m, frame_locals (hf_ret m) (Some ''self'') (hf_params m))) (hk_methods c))"

definition implements :: "mir_body \<Rightarrow> string \<times> ty \<times> local_decl list \<Rightarrow> bool" where
  "implements b s \<longleftrightarrow> (case s of (name, ret, frame) \<Rightarrow> body_closed frame b \<and> mb_name b = name \<and> mb_ret_ty b = ret)"

lemma lmap_methods:
  "lmap (lowerMethod c) ms st \<noteq> Inl LE_Range \<and>
   (lmap (lowerMethod c) ms st = Inr (bs, st') \<longrightarrow>
     list_all2 implements bs (map (\<lambda>m. (hk_name c @ ''.'' @ hf_name m, hf_ret m, frame_locals (hf_ret m) (Some ''self'') (hf_params m))) ms))"
proof (induction ms arbitrary: st bs st')
  case Nil
  show ?case by (simp add: lret_def)
next
  case (Cons m ms)
  show ?case
  proof (cases "lowerMethod c m st")
    case (Inl e)
    with method_closed [of m c st] show ?thesis by (simp add: ends_closed_def lbind_run)
  next
    case (Inr r)
    then obtain b st1 where 1: "lowerMethod c m st = Inr (b, st1)" by (cases r) auto
    with method_closed [of m c st] have "implements b (hk_name c @ ''.'' @ hf_name m, hf_ret m, frame_locals (hf_ret m) (Some ''self'') (hf_params m))"
      by (simp add: ends_closed_def implements_def)
    with Cons.IH [of st1] 1 show ?thesis by (auto simp: lbind_run lret_def split: sum.splits)
  qed
qed

lemma item_ok:
  "lower_item it st \<noteq> Inl LE_Range \<and> (lower_item it st = Inr (out, st') \<longrightarrow> list_all2 implements (lo_bodies out) (item_bodies it))"
proof (cases it)
  case (ItemFn f)
  with fn_closed [of f st] show ?thesis
    by (auto simp: lower_item_def item_bodies_def fn_frame_def ends_closed_def implements_def lbind_run lret_def split: sum.splits)
next
  case (ItemClass c)
  with ctor_closed [of c st] lmap_methods [of c "hk_methods c"] show ?thesis
    by (auto simp: lower_item_def item_bodies_def ends_closed_def implements_def lbind_run lret_def split: sum.splits)
qed

lemma items_ok:
  "lmap lower_item its st \<noteq> Inl LE_Range \<and>
   (lmap lower_item its st = Inr (os, st') \<longrightarrow> list_all2 implements (concat (map lo_bodies os)) (concat (map item_bodies its)))"
proof (induction its arbitrary: st os st')
  case Nil
  show ?case by (simp add: lret_def)
next
  case (Cons it its)
  show ?case
  proof (cases "lower_item it st")
    case (Inl e)
    with item_ok [of it st] show ?thesis by (simp add: lbind_run)
  next
    case (Inr r)
    then obtain o' st1 where 1: "lower_item it st = Inr (o', st1)" by (cases r) auto
    with item_ok [of it st] have "list_all2 implements (lo_bodies o') (item_bodies it)" by simp
    moreover have "list_all2 implements (concat (map lo_bodies os1)) (concat (map item_bodies its))"
      if "lmap lower_item its st1 = Inr (os1, st2)" for os1 st2 using Cons.IH that by blast
    moreover have "lmap lower_item its st1 \<noteq> Inl LE_Range" using Cons.IH by blast
    ultimately show ?thesis using 1 by (auto simp: lbind_run lret_def split: sum.splits intro: list_all2_appendI)
  qed
qed

text \<open>
  Property C4 (invariant).  The lowering never indexes a block or a local that does not exist.  The bodies it returns are, in
  order, those of the functions, constructors and methods of the module; each begins with the return slot, the receiver
  or environment and the parameters, mentions only its own locals and blocks, and ends in an exit block that returns.
\<close>

theorem lower_bodies_closed:
  "case lower items st of
     Inl e \<Rightarrow> e \<noteq> LE_Range
   | Inr (out, st') \<Rightarrow> list_all2 implements (lo_bodies out) (concat (map item_bodies items))"
proof (cases "lmap lower_item items st")
  case (Inl e)
  with items_ok [of items st] show ?thesis by (simp add: lower_def lbind_run)
next
  case (Inr r)
  then obtain os st1 where 1: "lmap lower_item items st = Inr (os, st1)" by (cases r) auto
  with items_ok [of items st os st1] show ?thesis by (simp add: lower_def lbind_run lret_def)
qed

section \<open>Evaluation of concrete bodies\<close>

lemma lowerExpr_numeral: "lowerExpr (numeral k) = lowerExpr (Suc (pred_numeral k))"
  by (simp only: numeral_eq_Suc)

lemmas lowering_run = steps_run lowerExpr_numeral newLocal_def newBlock_def
  emit_def end_block_def assign_def enter_def unless_terminated_def unitLocal_def local_of_def bind_name_def deliver_def at_loc_def lower_top_def
  lowerFn_def open_body_def open_blocks_def close_body_def return_value_def new_basic_block_def no_loc_def resize_to_def Let_def fresh_lowering_def

lemmas lowering_congs = steps_congs hir_expr.case_cong_weak hir_stmt.case_cong_weak

lemmas lowering_jumps = lower_loop_def push_loop_def push_finally_def lower_break_def jump_out_def jump_target_def lowerFinalizersTo_def

lemmas lowering_try = lower_try_catch_def lower_catch_def run_finally_def throw_local_def

abbreviation (input) fn_of :: "(string \<times> ty) list \<Rightarrow> hir_expr hir_node \<Rightarrow> hir_fn" where
  "fn_of ps node \<equiv> \<lparr>hf_name = ''f'', hf_generics = [], hf_params = ps, hf_ret = mkUnit, hf_body = HirExpr node no_loc,
     hf_closureEnvTypeId = 4294967295, hf_globalSlot = 4294967295\<rparr>"

definition block_code :: "mir_body \<Rightarrow> block_id \<Rightarrow> statement list \<times> terminator" where
  "block_code b i = (map fst (bb_stmts (mb_blocks b ! i)), fst (bb_term (mb_blocks b ! i)))"

text \<open>
  A \<open>break\<close> out of a try block with a catch clause and no finally block: the code from the entry to
  the return installs the handler of the try block and never removes it.
\<close>

theorem break_keeps_handler:
  "case lowerFn (fn_of [] (HirLoop (HirExpr (HirTryCatch (HirExpr (HirBreak None None mkUnit) no_loc)
       [HirCatchClause ''e'' mkInt 7 (HirExpr (HirLit mkInt (LitI64 0)) no_loc)] None mkUnit) no_loc) None mkUnit)) fresh_lowering of
     Inl e \<Rightarrow> False
   | Inr (b, st) \<Rightarrow>
       map (block_code b) [0, 2, 3, 1] =
         [([], TmGoto 2),
          ([StTryPush 4 2], TmGoto 3),
          ([StAssign 6 (RvUse (OpConst (CI64 0))), StAssign 0 (RvUse (OpCopy 6))], TmGoto 1),
          ([], TmReturn)]"
  by (simp add: lowering_run lowering_jumps lowering_try block_code_def del: lseq.simps cong: lowering_congs)

text \<open>
  A safe call copies its result from the destination of the call, a local that no statement of the
  body assigns (the result of any other call is moved from local 0), and calls the bare method name.
\<close>

theorem safe_call_loses_result:
  "case lowerFn (fn_of [(''x'', mkInt)] (HirSafeCall (HirExpr (HirPath ''x'' [] mkInt False 4294967295 4294967295) no_loc) ''m'' [] mkInt)) fresh_lowering of
     Inl e \<Rightarrow> False
   | Inr (b, st) \<Rightarrow>
       map (block_code b) [0, 3, 2, 5, 4] =
         [([], TmCheckNull (OpCopy 1) 3 2),
          ([StAssign 2 (RvUse (OpConst (CI64 0)))], TmGoto 4),
          ([], TmCall (OpConst (CStr ''m'')) [OpCopy 1] 3 5),
          ([StAssign 2 (RvUse (OpCopy 3))], TmGoto 4),
          ([StAssign 0 (RvUse (OpCopy 2))], TmGoto 1)] \<and>
       filter (\<lambda>s. case s of StAssign l rv \<Rightarrow> l = 3 | _ \<Rightarrow> False) (concat (map (map fst \<circ> bb_stmts) (mb_blocks b))) = []"
  by (simp add: lowering_run lower_safe_call_def lower_path_def block_code_def del: lseq.simps cong: lowering_congs)

end
