(* ===== verification/Lx_LowerFuel.thy ===== *)
theory Lx_LowerFuel
  imports Lx_LowerSpec
begin

text \<open>
  The size of the expression and of the pending finalizers is enough fuel for the recursion of the lowering.  A
  construct lowers its subexpressions, a jump the finalizers it leaves, each without the finalizers inside it.
\<close>

section \<open>Steps that do not run out of fuel\<close>

definition fueled :: "'a low \<Rightarrow> bool" where
  "fueled m \<longleftrightarrow> (\<forall>st. m st \<noteq> Inl LE_Fuel)"

named_theorems fuel_intros

lemma fueled_bind [fuel_intros]: "fueled m \<Longrightarrow> (\<And>x. fueled (f x)) \<Longrightarrow> fueled (lbind m f)"
  by (auto simp: fueled_def lbind_def split: sum.split)

lemma fueled_basic [fuel_intros]:
  "fueled (lret x)" "fueled (lget g)" "fueled (lmod h)" "e \<noteq> LE_Fuel \<Longrightarrow> fueled (lfail e)" "fueled (newLocal t name mu)" "fueled newBlock"
  by (simp_all add: fueled_def lret_def lget_def lmod_def lfail_def newLocal_def newBlock_def)

lemma fueled_emit [fuel_intros]: "fueled (emit s)" "fueled (end_block t)"
  by (simp_all add: fueled_def emit_def end_block_def Let_def)

lemma fueled_when [fuel_intros]: "(c \<Longrightarrow> fueled m) \<Longrightarrow> fueled (lwhen c m)"
  by (simp add: lwhen_def fueled_basic)

lemma fueled_if [fuel_intros]: "(c \<Longrightarrow> fueled m) \<Longrightarrow> (\<not> c \<Longrightarrow> fueled m') \<Longrightarrow> fueled (if c then m else m')"
  by simp

lemma fueled_option [fuel_intros]: "(x = None \<Longrightarrow> fueled m) \<Longrightarrow> (\<And>y. x = Some y \<Longrightarrow> fueled (f y)) \<Longrightarrow> fueled (case x of None \<Rightarrow> m | Some y \<Rightarrow> f y)"
  by (simp split: option.split)

lemma fueled_prod [fuel_intros]: "(\<And>a b. x = (a, b) \<Longrightarrow> fueled (f a b)) \<Longrightarrow> fueled (case x of (a, b) \<Rightarrow> f a b)"
  by (simp split: prod.split)

lemma fueled_seq: "(\<And>m. m \<in> set ms \<Longrightarrow> fueled m) \<Longrightarrow> fueled k \<Longrightarrow> fueled (lseq ms k)"
  by (induction ms) (auto intro: fueled_bind)

lemma fueled_lseq [fuel_intros]: "fueled k \<Longrightarrow> fueled (lseq [] k)" "fueled m \<Longrightarrow> fueled (lseq ms k) \<Longrightarrow> fueled (lseq (m # ms) k)"
  by (auto intro: fueled_bind)

lemma fueled_map [fuel_intros]: "(\<And>x. x \<in> set xs \<Longrightarrow> fueled (f x)) \<Longrightarrow> fueled (lmap f xs)"
  by (induction xs) (auto intro!: fueled_bind fueled_basic)

lemma fueled_each [fuel_intros]: "(\<And>x. x \<in> set xs \<Longrightarrow> fueled (f x)) \<Longrightarrow> fueled (leach f xs)"
  unfolding leach_def by (rule fueled_seq) (auto intro: fueled_basic)

lemma fueled_steps [fuel_intros]:
  "fueled (assign l rv)" "fueled (enter b)" "fueled (bind_name name l)" "fueled unitLocal" "fueled scratchLocal" "fueled (local_of t name rv)"
  "fueled (deliver l x b)" "fueled (throw_local l)" "fueled (compound op t rd wr old r)" "fueled (finish_call t mk)"
  "fueled (lower_path name t isStatic co gs)" "fueled (lower_closure fn caps tid t)" "fueled (lower_null t)" "fueled (bind_payload s pi p)"
  unfolding assign_def enter_def bind_name_def unitLocal_def scratchLocal_def local_of_def deliver_def throw_local_def compound_def finish_call_def
    lower_path_def lower_closure_def lower_captures_def lower_null_def bind_payload_def
  by (auto intro!: fuel_intros split: hir_pat.split option.split)

lemma fueled_unless [fuel_intros]: "fueled (lseq ms (lret ())) \<Longrightarrow> fueled (unless_terminated ms)"
  unfolding unless_terminated_def by (intro fuel_intros)

section \<open>The law of the recursion\<close>

definition pending :: "low_ctx \<Rightarrow> nat" where
  "pending ctx = sum_list (map (size \<circ> fst) (cx_finally ctx))"

lemma pending_loop [simp]: "pending (push_loop ctx x y label) = pending ctx"
  by (simp add: pending_def push_loop_def)

lemma pending_finally [simp]: "pending (push_finally ctx fin a) = pending ctx + (case fin of None \<Rightarrow> 0 | Some f \<Rightarrow> size f)"
  by (simp add: pending_def push_finally_def split: option.split)

lemma pending_drop:
  assumes "f \<in> fst ` set (drop d (cx_finally ctx))"
  shows "pending (ctx\<lparr>cx_finally := take d (cx_finally ctx)\<rparr>) + size f \<le> pending ctx"
proof -
  have "(size \<circ> fst) p \<le> sum_list (map (size \<circ> fst) (drop d (cx_finally ctx)))" if "p \<in> set (drop d (cx_finally ctx))" for p
    using that by (intro member_le_sum_list) simp_all
  with assms have "size f \<le> sum_list (map (size \<circ> fst) (drop d (cx_finally ctx)))" by fastforce
  moreover have "pending ctx = sum_list (map (size \<circ> fst) (take d (cx_finally ctx))) + sum_list (map (size \<circ> fst) (drop d (cx_finally ctx)))"
    by (simp only: pending_def append_take_drop_id flip: sum_list_append map_append)
  ultimately show ?thesis by (simp add: pending_def)
qed

lemma size_hir_expr_pos: "2 \<le> size (e :: hir_expr)"
proof -
  obtain node l where "e = HirExpr node l" by (cases e)
  then show ?thesis by (cases node) simp_all
qed

locale low_fuel =
  fixes rec :: low_rec and w :: nat
  assumes rec_fueled: "size e + pending ctx \<le> w \<Longrightarrow> fueled (rec ctx e)"
begin

lemma run_finalizers_fueled: "(\<And>f. f \<in> fst ` set fs \<Longrightarrow> size f + pending ctx \<le> w) \<Longrightarrow> fueled (run_finalizers rec ctx fs)"
proof (induction fs)
  case (Cons f fs)
  obtain g a where f: "f = (g, a)" by (cases f)
  show ?case unfolding f run_finalizers.simps using Cons by (intro fuel_intros rec_fueled) (auto simp: f)
qed (simp add: fuel_intros)

lemma finalizers_fueled [fuel_intros]: "pending ctx \<le> w \<Longrightarrow> fueled (lowerFinalizersTo rec ctx d)"
  unfolding lowerFinalizersTo_def
proof (rule run_finalizers_fueled)
  fix f assume "pending ctx \<le> w" "f \<in> fst ` set (rev (drop d (cx_finally ctx)))"
  then show "size f + pending (ctx\<lparr>cx_finally := take d (cx_finally ctx)\<rparr>) \<le> w" using pending_drop [of f d ctx] by simp
qed

lemma exprs_fueled: "size_list size es + pending ctx \<le> w \<Longrightarrow> fueled (lmap (rec ctx) es)"
  using size_mem [of _ es size] by (intro fuel_intros rec_fueled) (meson add_le_mono1 order_trans)

lemma drop_fueled: "size e + pending ctx \<le> w \<Longrightarrow> fueled (lbind (rec ctx e) (\<lambda>_. lret ()))"
  by (intro fuel_intros rec_fueled)

lemma opt_fueled: "size_option size e + pending ctx \<le> w \<Longrightarrow> fueled (case e of None \<Rightarrow> lret 0 | Some x \<Rightarrow> rec ctx x)"
  by (cases e) (auto intro: fuel_intros rec_fueled)

lemma elems_fueled: "size_list size es + pending ctx \<le> w \<Longrightarrow> fueled (lower_elems rec ctx ak name es t)"
  unfolding lower_elems_def by (intro fuel_intros exprs_fueled)

lemma store_fueled: "(\<And>x e. (x, e) \<in> set fs \<Longrightarrow> size e + pending ctx \<le> w) \<Longrightarrow> fueled (store_fields rec ctx l fs)"
  unfolding store_fields_def by (intro fuel_intros rec_fueled) auto

lemma struct_fueled: "size_list (size_prod (\<lambda>x. 0) size) flds + pending ctx \<le> w \<Longrightarrow> fueled (lower_struct rec ctx flds sz tid t)"
proof -
  assume a: "size_list (size_prod (\<lambda>x. 0) size) flds + pending ctx \<le> w"
  have "size (snd (flds ! i)) + pending ctx \<le> w" if "i < length flds" for i
    using size_mem [OF nth_mem [OF that], of "size_prod (\<lambda>x. 0) size"] a unfolding size_prod_simp by linarith
  then show ?thesis unfolding lower_struct_def by (intro fuel_intros store_fueled) auto
qed

lemma enum_fueled: "size_list size args + pending ctx \<le> w \<Longrightarrow> fueled (lower_enum_ctor rec ctx tid vi sz offs args t)"
proof -
  assume a: "size_list size args + pending ctx \<le> w"
  have "size e + pending ctx \<le> w" if "(x, e) \<in> set (zip offs args)" for x e
    using size_mem [OF set_zip_rightD [OF that], of size] a by linarith
  then show ?thesis unfolding lower_enum_ctor_def by (intro fuel_intros store_fueled)
qed

lemma call_fueled: "size_option size f + size_list size args + pending ctx \<le> w \<Longrightarrow> fueled (lower_call rec ctx f sn cl args t)"
  unfolding lower_call_def by (intro fuel_intros exprs_fueled rec_fueled) auto

lemma method_call_fueled: "size r + size_list size args + pending ctx \<le> w \<Longrightarrow> fueled (lower_method_call rec ctx r m qn args vti isI itid imi t)"
  unfolding lower_method_call_def Let_def by (intro fuel_intros exprs_fueled rec_fueled) auto

lemma unary_fueled: "size e + pending ctx \<le> w \<Longrightarrow> fueled (lower_unary rec ctx op e t)"
  unfolding lower_unary_def by (intro fuel_intros rec_fueled)

lemma place_fueled: "size e + pending ctx \<le> w \<Longrightarrow> fueled (lowerPlace rec ctx e)"
proof -
  assume a: "size e + pending ctx \<le> w"
  obtain node l where e: "e = HirExpr node l" by (cases e)
  show ?thesis using a unfolding e lowerPlace_def by (cases node) (auto intro!: fuel_intros rec_fueled)
qed

lemma assign_fueled: "size l + size e + pending ctx \<le> w \<Longrightarrow> fueled (lower_assign rec ctx op l e t)"
proof -
  assume a: "size l + size e + pending ctx \<le> w"
  obtain node lc where l: "l = HirExpr node lc" by (cases l)
  have "fueled (assign_local rec ctx op l e)"
    unfolding assign_local_def by (intro fuel_intros rec_fueled place_fueled) (use a in auto)
  then have "fueled (assign_other rec ctx op l e)" using a unfolding l assign_other_def
    by (cases node) (auto simp: assign_field_def assign_index_def intro!: fuel_intros rec_fueled)
  then show ?thesis using a unfolding lower_assign_def assign_capture_def assign_global_def by (intro fuel_intros rec_fueled) auto
qed

lemma stmt_fueled: "size_hir_stmt size s + pending ctx \<le> w \<Longrightarrow> fueled (lowerStmt rec ctx s)"
  unfolding lowerStmt_def by (cases s) (auto intro!: fuel_intros rec_fueled split: hir_pat.split)

lemma block_fueled: "size_list (size_hir_stmt size) stmts + size_option size tail + pending ctx \<le> w \<Longrightarrow> fueled (lower_block rec ctx stmts tail)"
proof -
  assume a: "size_list (size_hir_stmt size) stmts + size_option size tail + pending ctx \<le> w"
  have "fueled (lowerStmt rec ctx s)" if "s \<in> set stmts" for s
    by (rule stmt_fueled) (use a size_mem [OF that, of "size_hir_stmt size"] in linarith)
  then show ?thesis using a unfolding lower_block_def
    by (intro fuel_intros fueled_seq rec_fueled) (auto intro: fuel_intros)
qed

lemma if_fueled:
  "size c + pending ctx \<le> w \<Longrightarrow> size x + pending ctx \<le> w \<Longrightarrow> (\<And>z. y = Some z \<Longrightarrow> size z + pending ctx \<le> w) \<Longrightarrow> fueled (lower_if rec ctx c x y t)"
  unfolding lower_if_def by (intro fuel_intros rec_fueled) auto

lemma loops_fueled:
  "size c + size x + pending ctx \<le> w \<Longrightarrow> fueled (lower_while rec ctx c x label)"
  "size x + pending ctx \<le> w \<Longrightarrow> fueled (lower_loop rec ctx x label)"
  "size x + pending ctx \<le> w \<Longrightarrow> fueled (lower_for rec ctx x label)"
  unfolding lower_while_def lower_loop_def lower_for_def by (intro fuel_intros rec_fueled; simp)+

lemma arm_fueled: "size_hir_arm size arm + pending ctx \<le> w \<Longrightarrow> fueled (lower_arm rec ctx s t r ex arm cb bb nb)"
proof -
  assume a: "size_hir_arm size arm + pending ctx \<le> w"
  obtain cond body els where arm: "arm = HirWhenArm cond body els" by (cases arm)
  have "fueled (arm_check rec ctx s t cond x y)" for x y
    using a unfolding arm arm_check_def by (auto intro!: fuel_intros rec_fueled split: hir_cond.split option.split hir_pat.split)
  moreover have "fueled (arm_binds s cond)"
    unfolding arm_binds_def by (auto intro!: fuel_intros split: hir_cond.split option.split hir_pat.split)
  ultimately show ?thesis using a unfolding lower_arm_def arm by (intro fuel_intros rec_fueled) auto
qed

lemma else_index_less: "else_index arms = Some i \<Longrightarrow> i < length arms"
  by (auto simp: else_index_def find_Some_iff)

lemma when_fueled: "size_option size e + size_list (size_hir_arm size) arms + pending ctx \<le> w \<Longrightarrow> fueled (lower_when rec ctx e arms t)"
proof -
  assume a: "size_option size e + size_list (size_hir_arm size) arms + pending ctx \<le> w"
  have m: "size_hir_arm size (arms ! i) + pending ctx \<le> w" if "i < length arms" for i
    using size_mem [OF nth_mem [OF that], of "size_hir_arm size"] a by linarith
  have b: "size (arm_body (arms ! i)) + pending ctx \<le> w" if "i < length arms" for i
    using m [OF that] by (cases "arms ! i") simp
  let ?checks = "map (nth arms) (filter (\<lambda>i. Some i \<noteq> else_index arms) [0..<length arms])"
  have "fueled (lower_arm rec ctx s t r ex (?checks ! ci) cb bb nb)" if "ci < length ?checks" for s r ex ci cb bb nb
  proof (rule arm_fueled)
    have "?checks ! ci \<in> set ?checks" using that by (rule nth_mem)
    then show "size_hir_arm size (?checks ! ci) + pending ctx \<le> w" using m by auto
  qed
  then have c: "fueled (lower_arms rec ctx s t r ex el ?checks bbs)" for s r ex el bbs
    unfolding lower_arms_def by (intro fuel_intros) auto
  show ?thesis unfolding lower_when_def lower_when_arms_def Let_def
    by (intro fuel_intros c rec_fueled b else_index_less opt_fueled) (use a in auto)
qed

lemma jump_fueled: "pending ctx \<le> w \<Longrightarrow> fueled (jump_out rec ctx td)"
  unfolding jump_out_def by (intro fuel_intros)

lemma exits_fueled:
  "size_option size e + pending ctx \<le> w \<Longrightarrow> fueled (lower_break rec ctx label e)"
  "size_option size e + pending ctx \<le> w \<Longrightarrow> fueled (lower_return rec ctx e)"
  "size x + pending ctx \<le> w \<Longrightarrow> fueled (lower_throw rec ctx x)"
  unfolding lower_break_def lower_return_def lower_throw_def
  by (intro fuel_intros jump_fueled drop_fueled opt_fueled rec_fueled; simp; fail | cases e; auto intro!: fuel_intros jump_fueled drop_fueled rec_fueled)+

lemma catches_fueled:
  "size_list (size_hir_catch size) cs + size_option size fin + pending ctx \<le> w \<Longrightarrow> fueled (lower_catches rec ctx fin exn r nb tb cs)"
proof (induction cs arbitrary: tb)
  case (Cons c cs)
  then have "fueled (lower_catch rec ctx fin exn r nb tb c)"
    unfolding lower_catch_def by (cases c) (auto intro!: fuel_intros rec_fueled split: option.split)
  with Cons show ?case unfolding lower_catches.simps by (intro fuel_intros) auto
qed (simp add: fuel_intros)

lemma try_fueled:
  "size e + size_list (size_hir_catch size) cs + size_option size fin + pending ctx \<le> w \<Longrightarrow> fueled (lower_try_catch rec ctx e cs fin t)"
proof -
  assume a: "size e + size_list (size_hir_catch size) cs + size_option size fin + pending ctx \<le> w"
  then have "fueled (run_finally rec ctx fin)" unfolding run_finally_def by (intro fuel_intros rec_fueled) auto
  moreover have "fueled (rec (push_finally ctx fin True) e)" using a by (intro rec_fueled) (auto split: option.split)
  ultimately show ?thesis unfolding lower_try_catch_def using a by (intro fuel_intros catches_fueled) auto
qed

lemma null_fueled:
  "size e + pending ctx \<le> w \<Longrightarrow> fueled (lower_force_unwrap rec ctx e)"
  "size e + size f + pending ctx \<le> w \<Longrightarrow> fueled (lower_elvis rec ctx e f t)"
  "size e + size_list size args + pending ctx \<le> w \<Longrightarrow> fueled (lower_safe_call rec ctx e m args t)"
  "size e + pending ctx \<le> w \<Longrightarrow> fueled (lower_safe_field rec ctx e off t)"
  unfolding lower_force_unwrap_def lower_elvis_def lower_safe_call_def lower_safe_field_def
  by (intro fuel_intros rec_fueled exprs_fueled; simp)+

lemma at_loc_fueled: "fueled m \<Longrightarrow> fueled (at_loc p m)"
  unfolding at_loc_def by (intro fuel_intros)

lemma binary_fueled: "size l + size r + pending ctx \<le> w \<Longrightarrow> fueled (lower_binary rec ctx op l r t)"
proof -
  assume a: "size l + size r + pending ctx \<le> w"
  have "size (HirExpr (HirLit mkBool (LitBool b)) no_loc) + pending ctx \<le> w" for b using a size_hir_expr_pos [of l] by simp
  then show ?thesis using a unfolding lower_binary_def Let_def by (intro fuel_intros at_loc_fueled if_fueled rec_fueled) (auto split: if_splits)
qed

lemmas constructs = elems_fueled struct_fueled enum_fueled call_fueled method_call_fueled unary_fueled assign_fueled block_fueled if_fueled loops_fueled
  when_fueled exits_fueled jump_fueled try_fueled null_fueled binary_fueled

lemma node_fueled: "size_hir_node size node + pending ctx \<le> w \<Longrightarrow> fueled (lower_node rec ctx node)"
  by (cases node) (auto intro!: constructs fuel_intros rec_fueled)

end

lemma lowerExpr_fueled: "low_fuel (lowerExpr n) n"
proof (induction n)
  case 0
  show ?case
  proof
    fix e :: hir_expr and ctx assume "size e + pending ctx \<le> 0"
    then show "fueled (lowerExpr 0 ctx e)" using size_hir_expr_pos [of e] by simp
  qed
next
  case (Suc n)
  show ?case
  proof
    fix e :: hir_expr and ctx assume "size e + pending ctx \<le> Suc n"
    then show "fueled (lowerExpr (Suc n) ctx e)"
      by (cases e) (auto intro!: low_fuel.at_loc_fueled [OF Suc.IH] low_fuel.node_fueled [OF Suc.IH])
  qed
qed

interpretation fuel: low_fuel "lowerExpr n" n for n
  by (rule lowerExpr_fueled)

lemma top_fueled [fuel_intros]: "fueled (lower_top e)"
  unfolding lower_top_def by (rule fuel.rec_fueled) (simp add: pending_def)

section \<open>Bodies and the module\<close>

lemma bodies_fueled [fuel_intros]: "fueled (lowerFn f)" "fueled (lowerMethod c f)" "fueled (lowerClassCtor c)"
proof -
  have o: "fueled (open_body ret sp ps names)" "fueled open_blocks" "fueled (close_body name ret n)" "fueled (return_value l)" for ret sp ps names name n l
    unfolding open_body_def open_blocks_def close_body_def return_value_def Let_def
    by (auto intro!: fuel_intros fueled_seq split: option.splits)
  show "fueled (lowerFn f)" "fueled (lowerMethod c f)" "fueled (lowerClassCtor c)"
    unfolding lowerFn_def lowerMethod_def lowerClassCtor_def ctor_super_args_def ctor_params_def ctor_fields_def ctor_inits_def Let_def
    by (intro fuel_intros o)+
qed

lemma lower_fueled: "fueled (lower items)"
  unfolding lower_def lower_item_def by (auto intro!: fuel_intros split: hir_item.split)

text \<open>
  Property C5 (termination).  The lowering of a module ends: the recursion, which leaves the syntax tree to lower pending
  finalizers at each jump, never needs more fuel than the size of the expression it starts from.
\<close>

theorem lower_enough_fuel: "lower items st \<noteq> Inl LE_Fuel"
  using lower_fueled by (simp add: fueled_def)

end
