(* ===== verification/Lx_Mono.thy ===== *)
theory Lx_Mono
  imports Lx_HIR Lx_Steps "HOL-Library.Monad_Syntax"
begin

text \<open>
  The monomorphizer (\<open>v2/hir/Monomorphizer.cpp\<close>).  It copies every expression tree before it changes it, so the
  rewriting in place of the source is a function that returns the new tree; the expressions that the copy of an item
  shares with the output are written back to the output.  A pointer of an index to an item of the input is the item.
  Substitution into types can follow a null pointer, the value \<open>None\<close>.  The specialization of a method scans the
  new body at once and the worklist can grow without bound, so scanning runs on fuel.
\<close>

section \<open>Names\<close>

definition typeSig :: "def_store \<Rightarrow> ty \<Rightarrow> string" where
  "typeSig D t = mangleType D t"

definition mangle :: "def_store \<Rightarrow> string \<Rightarrow> ty list \<Rightarrow> string" where
  "mangle D base typeArgs = base @ concat (map (\<lambda>ta. ''$'' @ typeSig D ta) typeArgs)"

definition typeSigVec :: "def_store \<Rightarrow> ty list \<Rightarrow> string" where
  "typeSigVec D types = string_of_nat (length types) @ concat (map (\<lambda>t. ''_'' @ typeSig D t) types)"

definition makeSubst :: "string list \<Rightarrow> ty list \<Rightarrow> ty_subst" where
  "makeSubst paramNames typeArgs = foldl (\<lambda>m (p, a). m(p \<mapsto> a)) Map.empty (zip paramNames typeArgs)"

text \<open>The text before the first \<open>$P\<close>, when there is one.\<close>

fun before_signature :: "string \<Rightarrow> string option" where
  "before_signature (c # d # s) = (if c = CHR ''$'' \<and> d = CHR ''P'' then Some [] else map_option ((#) c) (before_signature (d # s)))"
| "before_signature _ = None"

text \<open>The text before the last dot; all of it when there is none.\<close>

definition before_last_dot :: "string \<Rightarrow> string" where
  "before_last_dot s =
     (if CHR ''.'' \<in> set s then rev (tl (dropWhile (\<lambda>c. c \<noteq> CHR ''.'') (rev s))) else s)"

section \<open>Substitution in types\<close>

fun substTy :: "ty_subst \<Rightarrow> ty \<Rightarrow> ty option" and substTy_node :: "ty_subst \<Rightarrow> ty_node \<Rightarrow> ty option" where
  "substTy subst TyNullPtr = Some TyNullPtr"
| "substTy subst (Ty n nul) =
     (if nul then
        (case substTy_node subst n of
           None \<Rightarrow> None
         | Some TyNullPtr \<Rightarrow> None
         | Some (Ty m _) \<Rightarrow> Some (Ty m True))
      else substTy_node subst n)"
| "substTy_node subst (TyParam name idx) = (case subst name of Some t \<Rightarrow> Some t | None \<Rightarrow> Some (Ty (TyParam name idx) False))"
| "substTy_node subst (TyClass d args) = map_option (\<lambda>as. Ty (TyClass d as) False) (all_some (map (substTy subst) args))"
| "substTy_node subst (TyInterface d args) = map_option (\<lambda>as. Ty (TyInterface d as) False) (all_some (map (substTy subst) args))"
| "substTy_node subst (TyFn params ret _ _ _) =
     (case all_some (map (substTy subst) params) of
        None \<Rightarrow> None
      | Some ps \<Rightarrow> map_option (\<lambda>r. Ty (TyFn ps r [] None None) False) (substTy subst ret))"
| "substTy_node subst (TyRef mut elem) = map_option (\<lambda>e. Ty (TyRef mut e) False) (substTy subst elem)"
| "substTy_node subst (TyArray elem len) = map_option (\<lambda>e. Ty (TyArray e len) False) (substTy subst elem)"
| "substTy_node subst (TySlice elem) = map_option (\<lambda>e. Ty (TySlice e) False) (substTy subst elem)"
| "substTy_node subst (TyTuple elems) = map_option (\<lambda>es. Ty (TyTuple es) False) (all_some (map (substTy subst) elems))"
| "substTy_node subst n = Some (Ty n False)"

section \<open>Substitution in expressions\<close>

definition subst_list :: "('a \<Rightarrow> 'b option) \<Rightarrow> 'a list \<Rightarrow> 'b list option" where
  "subst_list f xs = all_some (map f xs)"

definition subst_opt :: "('a \<Rightarrow> 'b option) \<Rightarrow> 'a option \<Rightarrow> 'b option option" where
  "subst_opt f x = (case x of None \<Rightarrow> Some None | Some y \<Rightarrow> map_option Some (f y))"

definition subst_stmt :: "ty_subst \<Rightarrow> ('e \<Rightarrow> 'e option) \<Rightarrow> 'e hir_stmt \<Rightarrow> 'e hir_stmt option" where
  "subst_stmt subst rec s =
     (case s of
        HirStmtLet pat t init \<Rightarrow> do { t' \<leftarrow> substTy subst t; i' \<leftarrow> rec init; Some (HirStmtLet pat t' i') }
      | HirStmtExpr e \<Rightarrow> map_option HirStmtExpr (subst_opt rec e))"

definition subst_arm :: "('e \<Rightarrow> 'e option) \<Rightarrow> 'e hir_arm \<Rightarrow> 'e hir_arm option" where
  "subst_arm rec arm =
     (case arm of HirWhenArm cond body isElse \<Rightarrow> do {
        cond' \<leftarrow> (case cond of CondExpr c \<Rightarrow> map_option CondExpr (rec c) | CondPat p \<Rightarrow> Some (CondPat p) | CondNone \<Rightarrow> Some CondNone);
        body' \<leftarrow> rec body;
        Some (HirWhenArm cond' body' isElse) })"

definition subst_catch :: "ty_subst \<Rightarrow> ('e \<Rightarrow> 'e option) \<Rightarrow> 'e hir_catch \<Rightarrow> 'e hir_catch option" where
  "subst_catch subst rec c =
     (case c of HirCatchClause name t tid body \<Rightarrow> do {
        t' \<leftarrow> substTy subst t; body' \<leftarrow> rec body; Some (HirCatchClause name t' tid body') })"

definition subst_capture :: "ty_subst \<Rightarrow> hir_capture \<Rightarrow> hir_capture option" where
  "subst_capture subst c = map_option (\<lambda>t. c\<lparr>hc_ty := t\<rparr>) (substTy subst (hc_ty c))"

text \<open>The type of a try expression is substituted twice, as in the source.\<close>

primrec substNode :: "ty_subst \<Rightarrow> ('e \<Rightarrow> 'e option) \<Rightarrow> 'e hir_node \<Rightarrow> 'e hir_node option" where
  "substNode subst rec (HirLit t v) = do { t' \<leftarrow> substTy subst t; Some (HirLit t' v) }"
| "substNode subst rec (HirPath name targs t isStatic co gs) = do {
     t' \<leftarrow> substTy subst t; ta \<leftarrow> subst_list (substTy subst) targs; Some (HirPath name ta t' isStatic co gs) }"
| "substNode subst rec (HirTuple es t) = do { t' \<leftarrow> substTy subst t; es' \<leftarrow> subst_list rec es; Some (HirTuple es' t') }"
| "substNode subst rec (HirArray es t) = do { t' \<leftarrow> substTy subst t; es' \<leftarrow> subst_list rec es; Some (HirArray es' t') }"
| "substNode subst rec (HirStruct tn flds targs sz tid t) = do {
     t' \<leftarrow> substTy subst t; ta \<leftarrow> subst_list (substTy subst) targs;
     fs \<leftarrow> subst_list (\<lambda>(x, e). map_option (Pair x) (rec e)) flds; Some (HirStruct tn fs ta sz tid t') }"
| "substNode subst rec (HirCall func sn cl args targs t) = do {
     t' \<leftarrow> substTy subst t; ta \<leftarrow> subst_list (substTy subst) targs; as \<leftarrow> subst_list rec args; f' \<leftarrow> subst_opt rec func;
     Some (HirCall f' sn cl as ta t') }"
| "substNode subst rec (HirMethodCall recv m qn args vti isI itid imi t targs) = do {
     t' \<leftarrow> substTy subst t; r' \<leftarrow> rec recv; as \<leftarrow> subst_list rec args; ta \<leftarrow> subst_list (substTy subst) targs;
     Some (HirMethodCall r' m qn as vti isI itid imi t' ta) }"
| "substNode subst rec (HirField e name off t) = do { t' \<leftarrow> substTy subst t; e' \<leftarrow> rec e; Some (HirField e' name off t') }"
| "substNode subst rec (HirIndex e i t) = do { t' \<leftarrow> substTy subst t; e' \<leftarrow> rec e; i' \<leftarrow> rec i; Some (HirIndex e' i' t') }"
| "substNode subst rec (HirUnary op e t) = do { t' \<leftarrow> substTy subst t; e' \<leftarrow> rec e; Some (HirUnary op e' t') }"
| "substNode subst rec (HirBinary op l r t) = do { t' \<leftarrow> substTy subst t; l' \<leftarrow> rec l; r' \<leftarrow> rec r; Some (HirBinary op l' r' t') }"
| "substNode subst rec (HirAssign op l r t) = do { t' \<leftarrow> substTy subst t; l' \<leftarrow> rec l; r' \<leftarrow> rec r; Some (HirAssign op l' r' t') }"
| "substNode subst rec (HirBlock stmts tail t) = do {
     t' \<leftarrow> substTy subst t; ss \<leftarrow> subst_list (subst_stmt subst rec) stmts; e' \<leftarrow> subst_opt rec tail; Some (HirBlock ss e' t') }"
| "substNode subst rec (HirIf c a b t) = do {
     t' \<leftarrow> substTy subst t; c' \<leftarrow> rec c; a' \<leftarrow> rec a; b' \<leftarrow> subst_opt rec b; Some (HirIf c' a' b' t') }"
| "substNode subst rec (HirWhile c body label t) = do { t' \<leftarrow> substTy subst t; c' \<leftarrow> rec c; b' \<leftarrow> rec body; Some (HirWhile c' b' label t') }"
| "substNode subst rec (HirFor pat it body label t) = do { t' \<leftarrow> substTy subst t; i' \<leftarrow> rec it; b' \<leftarrow> rec body; Some (HirFor pat i' b' label t') }"
| "substNode subst rec (HirLoop body label t) = do { t' \<leftarrow> substTy subst t; b' \<leftarrow> rec body; Some (HirLoop b' label t') }"
| "substNode subst rec (HirWhen scrut arms t) = do {
     t' \<leftarrow> substTy subst t; s' \<leftarrow> subst_opt rec scrut; as \<leftarrow> subst_list (subst_arm rec) arms; Some (HirWhen s' as t') }"
| "substNode subst rec (HirBreak label e t) = do { t' \<leftarrow> substTy subst t; e' \<leftarrow> subst_opt rec e; Some (HirBreak label e' t') }"
| "substNode subst rec (HirContinue label t) = do { t' \<leftarrow> substTy subst t; Some (HirContinue label t') }"
| "substNode subst rec (HirReturn e t) = do { t' \<leftarrow> substTy subst t; e' \<leftarrow> subst_opt rec e; Some (HirReturn e' t') }"
| "substNode subst rec (HirThrow e t) = do { t' \<leftarrow> substTy subst t; e' \<leftarrow> rec e; Some (HirThrow e' t') }"
| "substNode subst rec (HirTryCatch body catches fin t) = do {
     t1 \<leftarrow> substTy subst t; b' \<leftarrow> rec body; cs \<leftarrow> subst_list (subst_catch subst rec) catches; f' \<leftarrow> subst_opt rec fin;
     t' \<leftarrow> substTy subst t1; Some (HirTryCatch b' cs f' t') }"
| "substNode subst rec (HirRef m e t) = do { t' \<leftarrow> substTy subst t; e' \<leftarrow> rec e; Some (HirRef m e' t') }"
| "substNode subst rec (HirDeref e t) = do { t' \<leftarrow> substTy subst t; e' \<leftarrow> rec e; Some (HirDeref e' t') }"
| "substNode subst rec (HirTry e t) = do { t' \<leftarrow> substTy subst t; e' \<leftarrow> rec e; Some (HirTry e' t') }"
| "substNode subst rec (HirCast e target t) = do {
     t' \<leftarrow> substTy subst t; e' \<leftarrow> rec e; tt \<leftarrow> substTy subst target; Some (HirCast e' tt t') }"
| "substNode subst rec (HirSafeCall recv m args t) = do {
     t' \<leftarrow> substTy subst t; r' \<leftarrow> rec recv; as \<leftarrow> subst_list rec args; Some (HirSafeCall r' m as t') }"
| "substNode subst rec (HirSafeField recv f off t) = do { t' \<leftarrow> substTy subst t; r' \<leftarrow> rec recv; Some (HirSafeField r' f off t') }"
| "substNode subst rec (HirElvis l r t) = do { t' \<leftarrow> substTy subst t; l' \<leftarrow> rec l; r' \<leftarrow> rec r; Some (HirElvis l' r' t') }"
| "substNode subst rec (HirForceUnwrap e t) = do { t' \<leftarrow> substTy subst t; e' \<leftarrow> rec e; Some (HirForceUnwrap e' t') }"
| "substNode subst rec (HirIs e tid t) = do { t' \<leftarrow> substTy subst t; e' \<leftarrow> rec e; Some (HirIs e' tid t') }"
| "substNode subst rec (HirIsNot e tid t) = do { t' \<leftarrow> substTy subst t; e' \<leftarrow> rec e; Some (HirIsNot e' tid t') }"
| "substNode subst rec (HirNull t) = do { t' \<leftarrow> substTy subst t; Some (HirNull t') }"
| "substNode subst rec (HirClosure fname caps tid t) = do {
     t' \<leftarrow> substTy subst t; cs \<leftarrow> subst_list (subst_capture subst) caps; Some (HirClosure fname cs tid t') }"
| "substNode subst rec (HirEnumCtor en tid vi sz offs args t) = do {
     t' \<leftarrow> substTy subst t; as \<leftarrow> subst_list rec args; Some (HirEnumCtor en tid vi sz offs as t') }"

text \<open>The subexpressions of a node decide what the rewriting of the node does, and are smaller than it.\<close>

lemma subst_list_cong [fundef_cong]: "xs = ys \<Longrightarrow> (\<And>x. x \<in> set ys \<Longrightarrow> f x = g x) \<Longrightarrow> subst_list f xs = subst_list g ys"
  unfolding subst_list_def by (metis map_cong)

lemma subst_opt_cong [fundef_cong]: "x = y \<Longrightarrow> (\<And>z. z \<in> set_option y \<Longrightarrow> f z = g z) \<Longrightarrow> subst_opt f x = subst_opt g y"
  unfolding subst_opt_def by (cases y) auto

lemma subst_stmt_cong: "(\<And>x. x \<in> set_hir_stmt s \<Longrightarrow> f x = g x) \<Longrightarrow> subst_stmt subst f s = subst_stmt subst g s"
  unfolding subst_stmt_def by (cases s) (auto intro!: arg_cong [where f = "map_option HirStmtExpr"] subst_opt_cong)

lemma subst_arm_cong: "(\<And>x. x \<in> set_hir_arm a \<Longrightarrow> f x = g x) \<Longrightarrow> subst_arm f a = subst_arm g a"
  unfolding subst_arm_def by (cases a) (auto split: hir_cond.split)

lemma subst_catch_cong: "(\<And>x. x \<in> set_hir_catch c \<Longrightarrow> f x = g x) \<Longrightarrow> subst_catch subst f c = subst_catch subst g c"
  unfolding subst_catch_def by (cases c) auto

lemma substNode_cong [fundef_cong]:
  assumes n: "node = node'" and f: "\<And>x. x \<in> set_hir_node node' \<Longrightarrow> f x = g x"
  shows "substNode subst f node = substNode subst g node'"
proof -
  have l: "subst_list f es = subst_list g es" if "set es \<subseteq> set_hir_node node'" for es
    using that f by (auto intro: subst_list_cong)
  have o: "subst_opt f e = subst_opt g e" if "set_option e \<subseteq> set_hir_node node'" for e
    using that f by (auto intro: subst_opt_cong)
  have fl: "subst_list (\<lambda>(x, e). map_option (Pair x) (f e)) fs = subst_list (\<lambda>(x, e). map_option (Pair x) (g e)) fs"
    if "\<And>x e. (x, e) \<in> set fs \<Longrightarrow> e \<in> set_hir_node node'" for fs :: "(string \<times> _) list"
    using that f by (auto intro: subst_list_cong)
  have s: "subst_list (subst_stmt subst f) ss = subst_list (subst_stmt subst g) ss" if "\<And>s. s \<in> set ss \<Longrightarrow> set_hir_stmt s \<subseteq> set_hir_node node'" for ss
    using that f by (auto intro!: subst_list_cong subst_stmt_cong)
  have a: "subst_list (subst_arm f) ss = subst_list (subst_arm g) ss" if "\<And>s. s \<in> set ss \<Longrightarrow> set_hir_arm s \<subseteq> set_hir_node node'" for ss
    using that f by (auto intro!: subst_list_cong subst_arm_cong)
  have c: "subst_list (subst_catch subst f) ss = subst_list (subst_catch subst g) ss" if "\<And>s. s \<in> set ss \<Longrightarrow> set_hir_catch s \<subseteq> set_hir_node node'" for ss
    using that f by (auto intro!: subst_list_cong subst_catch_cong)
  show ?thesis unfolding n
    by (cases node'; simp only: substNode.simps; intro Option.bind_cong refl l o s a c fl f; auto simp: snds.simps intro: bexI [rotated])
qed

lemma hir_part_size:
  "x \<in> set_hir_stmt s \<Longrightarrow> size x \<le> size_hir_stmt size s" "x \<in> set_hir_arm a \<Longrightarrow> size x \<le> size_hir_arm size a"
  "x \<in> set_hir_catch c \<Longrightarrow> size x \<le> size_hir_catch size c" "x \<in> Basic_BNFs.snds p \<Longrightarrow> size x \<le> size_prod (\<lambda>_. 0) size p"
  for x :: hir_expr
proof -
  have c: "x \<in> set_hir_cond d \<Longrightarrow> size x \<le> size_hir_cond size d" for d by (cases d) auto
  show "x \<in> set_hir_stmt s \<Longrightarrow> size x \<le> size_hir_stmt size s" by (cases s) (auto split: option.splits)
  show "x \<in> set_hir_arm a \<Longrightarrow> size x \<le> size_hir_arm size a" using c by (cases a) fastforce
  show "x \<in> set_hir_catch c \<Longrightarrow> size x \<le> size_hir_catch size c" by (cases c) auto
  show "x \<in> Basic_BNFs.snds p \<Longrightarrow> size x \<le> size_prod (\<lambda>_. 0) size p" by (simp add: prod_set_defs size_prod_simp)
qed

lemma hir_list_size:
  "x \<in> set es \<Longrightarrow> size x \<le> size_list size es" "s \<in> set ss \<Longrightarrow> x \<in> set_hir_stmt s \<Longrightarrow> size x \<le> size_list (size_hir_stmt size) ss"
  "a \<in> set as \<Longrightarrow> x \<in> set_hir_arm a \<Longrightarrow> size x \<le> size_list (size_hir_arm size) as"
  "c \<in> set cs \<Longrightarrow> x \<in> set_hir_catch c \<Longrightarrow> size x \<le> size_list (size_hir_catch size) cs"
  "p \<in> set ps \<Longrightarrow> x \<in> Basic_BNFs.snds p \<Longrightarrow> size x \<le> size_list (size_prod (\<lambda>_. 0) size) ps"
  for x :: hir_expr
  by (blast intro: size_mem order_trans hir_part_size)+

lemma hir_size_child: "x \<in> set_hir_node node \<Longrightarrow> size x < size_hir_node size node"
  for x :: hir_expr
  by (cases node) (auto dest: hir_list_size simp: less_Suc_eq_le intro: le_SucI trans_le_add1 trans_le_add2 split: option.splits)

function substExpr :: "ty_subst \<Rightarrow> hir_expr \<Rightarrow> hir_expr option" where
  "substExpr subst (HirExpr node loc) = map_option (\<lambda>n. HirExpr n loc) (substNode subst (substExpr subst) node)"
  by pat_completeness auto
termination
  by (relation "measure (\<lambda>(s, e). size e)") (auto dest: hir_size_child)

definition substFn :: "ty_subst \<Rightarrow> hir_fn \<Rightarrow> hir_fn option" where
  "substFn subst fn = do {
     ret \<leftarrow> substTy subst (hf_ret fn);
     ps \<leftarrow> subst_list (\<lambda>(x, t). map_option (Pair x) (substTy subst t)) (hf_params fn);
     body \<leftarrow> substExpr subst (hf_body fn);
     Some (fn\<lparr>hf_ret := ret, hf_params := ps, hf_body := body\<rparr>) }"

definition subst_field :: "ty_subst \<Rightarrow> hir_class_field \<Rightarrow> hir_class_field option" where
  "subst_field subst fl = do {
     t \<leftarrow> substTy subst (cf_ty fl);
     init \<leftarrow> subst_opt (substExpr subst) (cf_initializer fl);
     Some (fl\<lparr>cf_ty := t, cf_initializer := init\<rparr>) }"

definition substClass :: "ty_subst \<Rightarrow> hir_class \<Rightarrow> hir_class option" where
  "substClass subst cls = do {
     ps \<leftarrow> subst_list (\<lambda>p. map_option (\<lambda>t. p\<lparr>cp_ty := t\<rparr>) (substTy subst (cp_ty p))) (hk_ctorParams cls);
     fls \<leftarrow> subst_list (subst_field subst) (hk_fields cls);
     blocks \<leftarrow> subst_list (subst_opt (substExpr subst)) (hk_initBlocks cls);
     ms \<leftarrow> subst_list (substFn subst) (hk_methods cls);
     Some (cls\<lparr>hk_ctorParams := ps, hk_fields := fls, hk_initBlocks := blocks, hk_methods := ms\<rparr>) }"

section \<open>State\<close>

datatype mono_error = ME_Null | ME_Fuel

type_synonym spec_key = "string \<times> string"

record mono_state =
  mo_specMap :: "spec_key \<rightharpoonup> string"
  mo_fnByName :: "string \<rightharpoonup> hir_fn"
  mo_classByName :: "string \<rightharpoonup> hir_class"
  mo_worklist :: "spec_key list"
  mo_output :: "hir_item list"
  mo_nextTypeId :: nat

type_synonym 'a mono = "(mono_state, mono_error, 'a) steps"

type_synonym mono_rec = "hir_expr \<Rightarrow> hir_expr mono"

definition deref :: "'a option \<Rightarrow> 'a mono" where
  "deref x = (case x of None \<Rightarrow> lfail ME_Null | Some y \<Rightarrow> lret y)"

definition item_name :: "hir_item \<Rightarrow> string" where
  "item_name it = (case it of ItemFn f \<Rightarrow> hf_name f | ItemClass c \<Rightarrow> hk_name c)"

definition spec_as :: "spec_key \<Rightarrow> string \<Rightarrow> unit mono" where
  "spec_as key name = lmod (\<lambda>st. st\<lparr>mo_specMap := (mo_specMap st)(key \<mapsto> name)\<rparr>)"

definition add_item :: "spec_key \<Rightarrow> hir_item \<Rightarrow> unit mono" where
  "add_item key it = lmod (\<lambda>st. st\<lparr>mo_worklist := mo_worklist st @ [key], mo_output := mo_output st @ [it]\<rparr>)"

section \<open>Specialization\<close>

definition spec_fn_name :: "def_store \<Rightarrow> string \<Rightarrow> ty list \<Rightarrow> hir_fn \<Rightarrow> string" where
  "spec_fn_name D name typeArgs specialized =
     (case before_signature name of
        Some base \<Rightarrow> mangleFunctionSignature D base (map snd (hf_params specialized)) (hf_ret specialized)
      | None \<Rightarrow> mangle D name typeArgs)"

definition monoFn :: "def_store \<Rightarrow> hir_fn \<Rightarrow> ty list \<Rightarrow> string mono" where
  "monoFn D genericFn typeArgs =
     (let key = (hf_name genericFn, typeSigVec D typeArgs) in
      lbind (lget (\<lambda>st. mo_specMap st key)) (\<lambda>found. case found of
        Some name \<Rightarrow> lret name
      | None \<Rightarrow>
          lbind (deref (substFn (makeSubst (hf_generics genericFn) typeArgs) (genericFn\<lparr>hf_generics := []\<rparr>))) (\<lambda>specialized.
            let mangled = spec_fn_name D (hf_name genericFn) typeArgs specialized in
            lseq [spec_as key mangled, add_item key (ItemFn (specialized\<lparr>hf_name := mangled\<rparr>))] (lret mangled))))"

definition fresh_typeId :: "nat mono" where
  "fresh_typeId = lbind (lget mo_nextTypeId) (\<lambda>i. lseq [lmod (\<lambda>st. st\<lparr>mo_nextTypeId := u32_cast (i + 1)\<rparr>)] (lret i))"

text \<open>A method name under the generic class is moved to the specialized one.\<close>

definition rename_method :: "string \<Rightarrow> string \<Rightarrow> string \<Rightarrow> string" where
  "rename_method generic mangled m = (if take (length generic + 1) m = generic @ ''.'' then mangled @ drop (length generic) m else m)"

definition monoClass :: "def_store \<Rightarrow> hir_class \<Rightarrow> ty list \<Rightarrow> string mono" where
  "monoClass D genericCls typeArgs =
     (let mangled = mangle D (hk_name genericCls) typeArgs;
          key = (hk_name genericCls, typeSigVec D typeArgs) in
      lbind (lget (\<lambda>st. mo_specMap st key)) (\<lambda>found. case found of
        Some name \<Rightarrow> lret name
      | None \<Rightarrow>
          lseq [spec_as key mangled] (lbind fresh_typeId (\<lambda>tid.
          lbind (deref (substClass (makeSubst (hk_generics genericCls) typeArgs) (genericCls\<lparr>hk_name := mangled, hk_generics := [], hk_typeId := tid\<rparr>))) (\<lambda>c.
            lseq [add_item key (ItemClass (c\<lparr>hk_methods := filter (\<lambda>m. hf_generics m = []) (hk_methods c),
                    hk_vtableMethodNames := map (rename_method (hk_name genericCls) mangled) (hk_vtableMethodNames c)\<rparr>))]
              (lret mangled))))))"

definition scanFn :: "mono_rec \<Rightarrow> hir_fn \<Rightarrow> hir_fn mono" where
  "scanFn rec fn = lbind (rec (hf_body fn)) (\<lambda>b. lret (fn\<lparr>hf_body := b\<rparr>))"

text \<open>The first class of the output with the name gets the method; nothing happens when there is none.\<close>

fun add_method :: "string \<Rightarrow> hir_fn \<Rightarrow> hir_item list \<Rightarrow> hir_item list" where
  "add_method owner m [] = []"
| "add_method owner m (ItemFn f # items) = ItemFn f # add_method owner m items"
| "add_method owner m (ItemClass c # items) =
     (if hk_name c = owner then ItemClass (c\<lparr>hk_methods := hk_methods c @ [m]\<rparr>) # items
      else ItemClass c # add_method owner m items)"

definition monoMethod ::
  "def_store \<Rightarrow> mono_rec \<Rightarrow> hir_class \<Rightarrow> string \<Rightarrow> ty list \<Rightarrow> hir_fn \<Rightarrow> ty list \<Rightarrow> string mono" where
  "monoMethod D rec owner specializedOwner classArgs method methodArgs =
     (let key = (specializedOwner @ ''.'' @ hf_name method, typeSigVec D methodArgs) in
      lbind (lget (\<lambda>st. mo_specMap st key)) (\<lambda>found. case found of
        Some name \<Rightarrow> lret name
      | None \<Rightarrow>
          let name = mangle D (hf_name method) methodArgs in
          lseq [spec_as key name]
            (lbind (deref (if hk_generics owner \<noteq> [] then substFn (makeSubst (hk_generics owner) classArgs) method else Some method)) (\<lambda>m1.
             lbind (deref (substFn (makeSubst (hf_generics method) methodArgs) m1)) (\<lambda>m2.
             lbind (scanFn rec (m2\<lparr>hf_name := name, hf_generics := []\<rparr>)) (\<lambda>m3.
               lseq [lmod (\<lambda>st. st\<lparr>mo_output := add_method specializedOwner m3 (mo_output st)\<rparr>)] (lret name)))))))"

section \<open>Scanning\<close>

definition scan_opt :: "mono_rec \<Rightarrow> hir_expr option \<Rightarrow> hir_expr option mono" where
  "scan_opt rec e = (case e of None \<Rightarrow> lret None | Some x \<Rightarrow> lbind (rec x) (\<lambda>x'. lret (Some x')))"

definition scanStmt :: "mono_rec \<Rightarrow> hir_expr hir_stmt \<Rightarrow> hir_expr hir_stmt mono" where
  "scanStmt rec s =
     (case s of
        HirStmtLet pat t init \<Rightarrow> lbind (rec init) (\<lambda>i. lret (HirStmtLet pat t i))
      | HirStmtExpr e \<Rightarrow> lbind (scan_opt rec e) (\<lambda>e'. lret (HirStmtExpr e')))"

definition scan_arm :: "mono_rec \<Rightarrow> hir_expr hir_arm \<Rightarrow> hir_expr hir_arm mono" where
  "scan_arm rec arm =
     (case arm of HirWhenArm cond body isElse \<Rightarrow>
        lbind (case cond of CondExpr c \<Rightarrow> lbind (rec c) (\<lambda>c'. lret (CondExpr c')) | CondPat p \<Rightarrow> lret (CondPat p) | CondNone \<Rightarrow> lret CondNone) (\<lambda>cond'.
        lbind (rec body) (\<lambda>body'. lret (HirWhenArm cond' body' isElse))))"

definition scan_catch :: "mono_rec \<Rightarrow> hir_expr hir_catch \<Rightarrow> hir_expr hir_catch mono" where
  "scan_catch rec c =
     (case c of HirCatchClause name t tid body \<Rightarrow> lbind (rec body) (\<lambda>b. lret (HirCatchClause name t tid b)))"

definition scan_init :: "mono_rec \<Rightarrow> string \<times> hir_expr \<Rightarrow> (string \<times> hir_expr) mono" where
  "scan_init rec fi = lbind (rec (snd fi)) (\<lambda>e. lret (fst fi, e))"

definition generic_fn :: "string \<Rightarrow> mono_state \<Rightarrow> hir_fn option" where
  "generic_fn name st = (case mo_fnByName st name of Some f \<Rightarrow> if hf_generics f \<noteq> [] then Some f else None | None \<Rightarrow> None)"

definition generic_class :: "string \<Rightarrow> mono_state \<Rightarrow> hir_class option" where
  "generic_class name st = (case mo_classByName st name of Some c \<Rightarrow> if hk_generics c \<noteq> [] then Some c else None | None \<Rightarrow> None)"

definition callee_name :: "hir_expr option \<Rightarrow> string option \<Rightarrow> string" where
  "callee_name func staticName =
     (case staticName of
        Some s \<Rightarrow> s
      | None \<Rightarrow> (case func of Some (HirExpr (HirPath name _ _ _ _ _) _) \<Rightarrow> name | _ \<Rightarrow> []))"

definition spec_call :: "def_store \<Rightarrow> hir_expr option \<Rightarrow> string option \<Rightarrow> string \<Rightarrow> ty list \<Rightarrow> (string option \<times> string) mono" where
  "spec_call D func staticName ctorLabel typeArgs =
     (if typeArgs = [] then lret (staticName, ctorLabel)
      else
        lbind (lget (generic_fn (callee_name func staticName))) (\<lambda>f.
        lbind (case f of Some g \<Rightarrow> lbind (monoFn D g typeArgs) (\<lambda>m. lret (Some m)) | None \<Rightarrow> lret staticName) (\<lambda>sn.
        lbind (lget (generic_class (before_last_dot ctorLabel))) (\<lambda>c.
        lbind (case if ctorLabel = [] then None else c of
                 Some k \<Rightarrow> lbind (monoClass D k typeArgs) (\<lambda>m. lret (m @ ''.init''))
               | None \<Rightarrow> lret ctorLabel) (\<lambda>cl.
          lret (sn, cl))))))"

definition spec_struct :: "def_store \<Rightarrow> string \<Rightarrow> ty list \<Rightarrow> (string \<times> ty list) mono" where
  "spec_struct D typeName typeArgs =
     lbind (lget (generic_class typeName)) (\<lambda>c.
       case if typeArgs = [] then None else c of
         Some k \<Rightarrow> lbind (monoClass D k typeArgs) (\<lambda>m. lret (m, []))
       | None \<Rightarrow> lret (typeName, typeArgs))"

text \<open>The type every node carries.\<close>

primrec hir_node_ty :: "'e hir_node \<Rightarrow> ty" where
  "hir_node_ty (HirLit t v) = t"
| "hir_node_ty (HirPath name targs t isStatic co gs) = t"
| "hir_node_ty (HirTuple es t) = t"
| "hir_node_ty (HirArray es t) = t"
| "hir_node_ty (HirStruct tn flds targs sz tid t) = t"
| "hir_node_ty (HirCall func sn cl args targs t) = t"
| "hir_node_ty (HirMethodCall recv m qn args vti isI itid imi t targs) = t"
| "hir_node_ty (HirField e name off t) = t"
| "hir_node_ty (HirIndex e i t) = t"
| "hir_node_ty (HirUnary op e t) = t"
| "hir_node_ty (HirBinary op l r t) = t"
| "hir_node_ty (HirAssign op l r t) = t"
| "hir_node_ty (HirBlock stmts tail t) = t"
| "hir_node_ty (HirIf c a b t) = t"
| "hir_node_ty (HirWhile c body label t) = t"
| "hir_node_ty (HirFor pat it body label t) = t"
| "hir_node_ty (HirLoop body label t) = t"
| "hir_node_ty (HirWhen scrut arms t) = t"
| "hir_node_ty (HirBreak label e t) = t"
| "hir_node_ty (HirContinue label t) = t"
| "hir_node_ty (HirReturn e t) = t"
| "hir_node_ty (HirThrow e t) = t"
| "hir_node_ty (HirTryCatch body catches fin t) = t"
| "hir_node_ty (HirRef m e t) = t"
| "hir_node_ty (HirDeref e t) = t"
| "hir_node_ty (HirTry e t) = t"
| "hir_node_ty (HirCast e target t) = t"
| "hir_node_ty (HirSafeCall recv m args t) = t"
| "hir_node_ty (HirSafeField recv f off t) = t"
| "hir_node_ty (HirElvis l r t) = t"
| "hir_node_ty (HirForceUnwrap e t) = t"
| "hir_node_ty (HirIs e tid t) = t"
| "hir_node_ty (HirIsNot e tid t) = t"
| "hir_node_ty (HirNull t) = t"
| "hir_node_ty (HirClosure fname caps tid t) = t"
| "hir_node_ty (HirEnumCtor en tid vi sz offs args t) = t"

definition hirExprTy :: "hir_expr \<Rightarrow> ty" where
  "hirExprTy e = (case e of HirExpr node loc \<Rightarrow> hir_node_ty node)"

text \<open>
  A method call on an instance of a generic class moves to the specialized class; a generic method is specialized
  with the arguments of the class and of the call.
\<close>

definition receiver_class :: "def_store \<Rightarrow> hir_expr \<Rightarrow> string \<times> ty list" where
  "receiver_class D recv =
     (case hirExprTy recv of Ty (TyClass d args) _ \<Rightarrow> (cd_name (ds_classes D d), args) | _ \<Rightarrow> ([], []))"

definition spec_owner ::
  "def_store \<Rightarrow> string \<Rightarrow> ty list \<Rightarrow> string \<Rightarrow> string \<times> nat \<times> bool \<Rightarrow> (string \<times> string \<times> nat \<times> bool) mono" where
  "spec_owner D ownerName classArgs method dispatch =
     lbind (lget (generic_class ownerName)) (\<lambda>c.
       case if classArgs = [] then None else c of
         Some k \<Rightarrow> lbind (monoClass D k classArgs) (\<lambda>mangled. lret (mangled, mangled @ ''.'' @ method, 4294967295, False))
       | None \<Rightarrow> lret (ownerName, dispatch))"

definition generic_method :: "string \<Rightarrow> hir_class \<Rightarrow> hir_fn option" where
  "generic_method method k = find (\<lambda>m. hf_name m = method \<and> hf_generics m \<noteq> []) (hk_methods k)"

definition spec_method ::
  "def_store \<Rightarrow> mono_rec \<Rightarrow> string \<Rightarrow> string \<Rightarrow> ty list \<Rightarrow> string \<Rightarrow> ty list \<Rightarrow> string \<times> nat \<times> bool \<Rightarrow> (string \<times> string \<times> nat \<times> bool) mono" where
  "spec_method D rec ownerName specializedOwner classArgs method typeArgs dispatch =
     lbind (lget (\<lambda>st. mo_classByName st ownerName)) (\<lambda>owner.
       case owner of
         None \<Rightarrow> lret (method, dispatch)
       | Some k \<Rightarrow>
           (case generic_method method k of
              None \<Rightarrow> lret (method, dispatch)
            | Some m \<Rightarrow> lbind (monoMethod D rec k specializedOwner classArgs m typeArgs) (\<lambda>name.
                lret (name, specializedOwner @ ''.'' @ name, 4294967295, False))))"

definition scan_method_call ::
  "def_store \<Rightarrow> mono_rec \<Rightarrow> hir_expr \<Rightarrow> string \<Rightarrow> string \<Rightarrow> hir_expr list \<Rightarrow> nat \<Rightarrow> bool \<Rightarrow> nat \<Rightarrow> nat \<Rightarrow> ty \<Rightarrow> ty list \<Rightarrow> hir_expr hir_node mono" where
  "scan_method_call D rec recv method qname args vti isI itid imi t targs =
     lbind (rec recv) (\<lambda>r. case receiver_class D r of (ownerName, classArgs) \<Rightarrow>
       lbind (spec_owner D ownerName classArgs method (qname, vti, isI)) (\<lambda>(specializedOwner, dispatch).
       let generic = targs \<noteq> [] \<and> ownerName \<noteq> [] in
       lbind (if generic then spec_method D rec ownerName specializedOwner classArgs method targs dispatch else lret (method, dispatch))
         (\<lambda>(method', qname', vti', isI').
       lbind (lmap rec args) (\<lambda>as.
         lret (HirMethodCall r method' qname' as vti' isI' itid imi t (if generic then [] else targs))))))"

primrec scan_node :: "def_store \<Rightarrow> mono_rec \<Rightarrow> hir_expr hir_node \<Rightarrow> hir_expr hir_node mono" where
  "scan_node D rec (HirLit t v) = lret (HirLit t v)"
| "scan_node D rec (HirPath name targs t isStatic co gs) = lret (HirPath name targs t isStatic co gs)"
| "scan_node D rec (HirTuple es t) = lbind (lmap rec es) (\<lambda>es'. lret (HirTuple es' t))"
| "scan_node D rec (HirArray es t) = lbind (lmap rec es) (\<lambda>es'. lret (HirArray es' t))"
| "scan_node D rec (HirStruct tn flds targs sz tid t) =
     lbind (spec_struct D tn targs) (\<lambda>(tn', targs'). lbind (lmap (scan_init rec) flds) (\<lambda>fs. lret (HirStruct tn' fs targs' sz tid t)))"
| "scan_node D rec (HirCall func sn cl args targs t) =
     lbind (spec_call D func sn cl targs) (\<lambda>(sn', cl'). lbind (lmap rec args) (\<lambda>as. lbind (scan_opt rec func) (\<lambda>f.
       lret (HirCall f sn' cl' as targs t))))"
| "scan_node D rec (HirMethodCall recv m qn args vti isI itid imi t targs) = scan_method_call D rec recv m qn args vti isI itid imi t targs"
| "scan_node D rec (HirField e name off t) = lbind (rec e) (\<lambda>e'. lret (HirField e' name off t))"
| "scan_node D rec (HirIndex e i t) = lbind (rec e) (\<lambda>e'. lbind (rec i) (\<lambda>i'. lret (HirIndex e' i' t)))"
| "scan_node D rec (HirUnary op e t) = lbind (rec e) (\<lambda>e'. lret (HirUnary op e' t))"
| "scan_node D rec (HirBinary op l r t) = lbind (rec l) (\<lambda>l'. lbind (rec r) (\<lambda>r'. lret (HirBinary op l' r' t)))"
| "scan_node D rec (HirAssign op l r t) = lbind (rec l) (\<lambda>l'. lbind (rec r) (\<lambda>r'. lret (HirAssign op l' r' t)))"
| "scan_node D rec (HirBlock stmts tail t) = lbind (lmap (scanStmt rec) stmts) (\<lambda>ss. lbind (scan_opt rec tail) (\<lambda>e. lret (HirBlock ss e t)))"
| "scan_node D rec (HirIf c a b t) = lbind (rec c) (\<lambda>c'. lbind (rec a) (\<lambda>a'. lbind (scan_opt rec b) (\<lambda>b'. lret (HirIf c' a' b' t))))"
| "scan_node D rec (HirWhile c body label t) = lbind (rec c) (\<lambda>c'. lbind (rec body) (\<lambda>b. lret (HirWhile c' b label t)))"
| "scan_node D rec (HirFor pat it body label t) = lbind (rec it) (\<lambda>i. lbind (rec body) (\<lambda>b. lret (HirFor pat i b label t)))"
| "scan_node D rec (HirLoop body label t) = lbind (rec body) (\<lambda>b. lret (HirLoop b label t))"
| "scan_node D rec (HirWhen scrut arms t) = lbind (scan_opt rec scrut) (\<lambda>s. lbind (lmap (scan_arm rec) arms) (\<lambda>as. lret (HirWhen s as t)))"
| "scan_node D rec (HirBreak label e t) = lbind (scan_opt rec e) (\<lambda>e'. lret (HirBreak label e' t))"
| "scan_node D rec (HirContinue label t) = lret (HirContinue label t)"
| "scan_node D rec (HirReturn e t) = lbind (scan_opt rec e) (\<lambda>e'. lret (HirReturn e' t))"
| "scan_node D rec (HirThrow e t) = lbind (rec e) (\<lambda>e'. lret (HirThrow e' t))"
| "scan_node D rec (HirTryCatch body catches fin t) =
     lbind (rec body) (\<lambda>b. lbind (lmap (scan_catch rec) catches) (\<lambda>cs. lbind (scan_opt rec fin) (\<lambda>f. lret (HirTryCatch b cs f t))))"
| "scan_node D rec (HirRef m e t) = lbind (rec e) (\<lambda>e'. lret (HirRef m e' t))"
| "scan_node D rec (HirDeref e t) = lbind (rec e) (\<lambda>e'. lret (HirDeref e' t))"
| "scan_node D rec (HirTry e t) = lbind (rec e) (\<lambda>e'. lret (HirTry e' t))"
| "scan_node D rec (HirCast e target t) = lbind (rec e) (\<lambda>e'. lret (HirCast e' target t))"
| "scan_node D rec (HirSafeCall recv m args t) = lbind (rec recv) (\<lambda>r. lbind (lmap rec args) (\<lambda>as. lret (HirSafeCall r m as t)))"
| "scan_node D rec (HirSafeField recv f off t) = lbind (rec recv) (\<lambda>r. lret (HirSafeField r f off t))"
| "scan_node D rec (HirElvis l r t) = lbind (rec l) (\<lambda>l'. lbind (rec r) (\<lambda>r'. lret (HirElvis l' r' t)))"
| "scan_node D rec (HirForceUnwrap e t) = lbind (rec e) (\<lambda>e'. lret (HirForceUnwrap e' t))"
| "scan_node D rec (HirIs e tid t) = lbind (rec e) (\<lambda>e'. lret (HirIs e' tid t))"
| "scan_node D rec (HirIsNot e tid t) = lbind (rec e) (\<lambda>e'. lret (HirIsNot e' tid t))"
| "scan_node D rec (HirNull t) = lret (HirNull t)"
| "scan_node D rec (HirClosure fname caps tid t) = lret (HirClosure fname caps tid t)"
| "scan_node D rec (HirEnumCtor en tid vi sz offs args t) = lbind (lmap rec args) (\<lambda>as. lret (HirEnumCtor en tid vi sz offs as t))"

fun scanExpr :: "def_store \<Rightarrow> nat \<Rightarrow> mono_rec" where
  "scanExpr D 0 e = lfail ME_Fuel"
| "scanExpr D (Suc n) (HirExpr node loc) = lbind (scan_node D (scanExpr D n) node) (\<lambda>node'. lret (HirExpr node' loc))"

section \<open>The module\<close>

definition scan_field :: "mono_rec \<Rightarrow> hir_class_field \<Rightarrow> hir_class_field mono" where
  "scan_field rec fl = lbind (scan_opt rec (cf_initializer fl)) (\<lambda>e. lret (fl\<lparr>cf_initializer := e\<rparr>))"

definition scan_class :: "mono_rec \<Rightarrow> hir_class \<Rightarrow> hir_class mono" where
  "scan_class rec c =
     lbind (lmap (scan_field rec) (hk_fields c)) (\<lambda>fs. lbind (lmap (scan_opt rec) (hk_initBlocks c)) (\<lambda>bs.
     lbind (lmap (scanFn rec) (hk_methods c)) (\<lambda>ms. lret (c\<lparr>hk_fields := fs, hk_initBlocks := bs, hk_methods := ms\<rparr>))))"

definition scan_item :: "mono_rec \<Rightarrow> hir_item \<Rightarrow> hir_item mono" where
  "scan_item rec it =
     (case it of ItemFn f \<Rightarrow> lbind (scanFn rec f) (\<lambda>g. lret (ItemFn g)) | ItemClass c \<Rightarrow> lbind (scan_class rec c) (\<lambda>k. lret (ItemClass k)))"

definition push_item :: "hir_item \<Rightarrow> unit mono" where
  "push_item it = lmod (\<lambda>st. st\<lparr>mo_output := mo_output st @ [it]\<rparr>)"

definition first_pass :: "mono_rec \<Rightarrow> hir_item \<Rightarrow> unit mono" where
  "first_pass rec it =
     (case it of
        ItemFn f \<Rightarrow> lwhen (hf_generics f = []) (lbind (deref (substFn Map.empty f)) (\<lambda>g. lbind (scan_item rec (ItemFn g)) push_item))
      | ItemClass c \<Rightarrow> lwhen (hk_generics c = [])
          (lbind (deref (substClass Map.empty c)) (\<lambda>k.
             lbind (scan_item rec (ItemClass (k\<lparr>hk_methods := filter (\<lambda>m. hf_generics m = []) (hk_methods k)\<rparr>))) push_item)))"

text \<open>
  The scan of a copied item changes the expressions the copy shares with the item of the output; methods that the scan
  added to the output stay.
\<close>

definition write_back :: "hir_item \<Rightarrow> hir_item \<Rightarrow> hir_item" where
  "write_back new cur =
     (case (new, cur) of
        (ItemFn f, ItemFn g) \<Rightarrow> ItemFn (g\<lparr>hf_body := hf_body f\<rparr>)
      | (ItemClass c, ItemClass k) \<Rightarrow>
          ItemClass (k\<lparr>hk_fields := hk_fields c, hk_initBlocks := hk_initBlocks c,
            hk_methods := hk_methods c @ drop (length (hk_methods c)) (hk_methods k)\<rparr>)
      | _ \<Rightarrow> cur)"

definition scan_named :: "mono_rec \<Rightarrow> string \<Rightarrow> nat \<Rightarrow> unit mono" where
  "scan_named rec mangled index =
     lbind (lget (\<lambda>st. mo_output st ! index)) (\<lambda>it.
       lwhen (item_name it = mangled)
         (lbind (scan_item rec it) (\<lambda>it'. lmod (\<lambda>st. st\<lparr>mo_output := (mo_output st)[index := write_back it' (mo_output st ! index)]\<rparr>))))"

definition spec_name :: "spec_key \<Rightarrow> string mono" where
  "spec_name key =
     lbind (lget (\<lambda>st. mo_specMap st key)) (\<lambda>v. case v of Some name \<Rightarrow> lret name | None \<Rightarrow> lseq [spec_as key []] (lret []))"

definition process_key :: "mono_rec \<Rightarrow> spec_key \<Rightarrow> unit mono" where
  "process_key rec key =
     lseq [lmod (\<lambda>st. st\<lparr>mo_worklist := butlast (mo_worklist st)\<rparr>)]
       (lbind (spec_name key) (\<lambda>mangled. lbind (lget (\<lambda>st. length (mo_output st))) (\<lambda>count. leach (scan_named rec mangled) [0..<count])))"

fun worklist_loop :: "mono_rec \<Rightarrow> nat \<Rightarrow> unit mono" where
  "worklist_loop rec 0 = lbind (lget mo_worklist) (\<lambda>w. if w = [] then lret () else lfail ME_Fuel)"
| "worklist_loop rec (Suc n) =
     lbind (lget mo_worklist) (\<lambda>w. if w = [] then lret () else lseq [process_key rec (last w)] (worklist_loop rec n))"

definition start_typeId :: "hir_module \<Rightarrow> nat" where
  "start_typeId items =
     foldl (\<lambda>next it. case it of
         ItemFn f \<Rightarrow> next
       | ItemClass c \<Rightarrow> if hk_typeId c \<noteq> 4294967295 \<and> hk_typeId c \<ge> next then hk_typeId c + 1 else next) 1 items"

definition index_fns :: "hir_module \<Rightarrow> string \<rightharpoonup> hir_fn" where
  "index_fns items = foldl (\<lambda>m it. case it of ItemFn f \<Rightarrow> m(hf_name f \<mapsto> f) | ItemClass c \<Rightarrow> m) Map.empty items"

definition index_classes :: "hir_module \<Rightarrow> string \<rightharpoonup> hir_class" where
  "index_classes items = foldl (\<lambda>m it. case it of ItemFn f \<Rightarrow> m | ItemClass c \<Rightarrow> m(hk_name c \<mapsto> c)) Map.empty items"

definition mono_start :: "hir_module \<Rightarrow> mono_state" where
  "mono_start items =
     \<lparr>mo_specMap = Map.empty, mo_fnByName = index_fns items, mo_classByName = index_classes items, mo_worklist = [], mo_output = [],
      mo_nextTypeId = start_typeId items\<rparr>"

definition monomorphize :: "def_store \<Rightarrow> nat \<Rightarrow> hir_module \<Rightarrow> mono_error + hir_module" where
  "monomorphize D fuel items =
     (case lseq [leach (first_pass (scanExpr D fuel)) items, worklist_loop (scanExpr D fuel) fuel] (lget mo_output) (mono_start items) of
        Inl e \<Rightarrow> Inl e
      | Inr (out, st) \<Rightarrow> Inr out)"

end
