(* ===== verification/Lx_MonoRel.thy ===== *)
theory Lx_MonoRel
  imports Lx_Mono
begin

text \<open>
  What it means that an item of the output is the scanned copy of an item of the input.  A copy is the item with types
  substituted; scanning it changes nothing but the names and type arguments at the sites that name a generic definition,
  which then name a specialization that the output holds.  The relation is tree by tree, it can be composed, and it
  grows with the output.
\<close>

section \<open>Copies\<close>

definition is_generic_fn :: "hir_module \<Rightarrow> string \<Rightarrow> bool" where
  "is_generic_fn items name \<longleftrightarrow> (case index_fns items name of Some f \<Rightarrow> hf_generics f \<noteq> [] | None \<Rightarrow> False)"

definition is_generic_class :: "hir_module \<Rightarrow> string \<Rightarrow> bool" where
  "is_generic_class items name \<longleftrightarrow> (case index_classes items name of Some c \<Rightarrow> hk_generics c \<noteq> [] | None \<Rightarrow> False)"

text \<open>
  The specialization \<open>it\<close> of the generic definition \<open>n\<close> to \<open>targs\<close>, under the name \<open>m\<close>, before it is scanned; a class
  gets a new type id and keeps the methods without type parameters of their own.
\<close>

datatype spec_kind = SpecFn | SpecClass

definition specialization :: "def_store \<Rightarrow> hir_module \<Rightarrow> spec_kind \<Rightarrow> string \<Rightarrow> ty list \<Rightarrow> string \<Rightarrow> hir_item \<Rightarrow> bool" where
  "specialization D items knd n targs m it =
     (case knd of
        SpecFn \<Rightarrow> \<exists>g f. index_fns items n = Some g \<and> hf_generics g \<noteq> []
          \<and> substFn (makeSubst (hf_generics g) targs) (g\<lparr>hf_generics := []\<rparr>) = Some f
          \<and> m = spec_fn_name D n targs f \<and> it = ItemFn (f\<lparr>hf_name := m\<rparr>)
      | SpecClass \<Rightarrow> \<exists>g c tid. index_classes items n = Some g \<and> hk_generics g \<noteq> [] \<and> m = mangle D n targs
          \<and> substClass (makeSubst (hk_generics g) targs) (g\<lparr>hk_name := m, hk_generics := [], hk_typeId := tid\<rparr>) = Some c
          \<and> it = ItemClass (c\<lparr>hk_methods := filter (\<lambda>m. hf_generics m = []) (hk_methods c),
                hk_vtableMethodNames := map (rename_method n m) (hk_vtableMethodNames c)\<rparr>))"

definition plain_copy :: "hir_item \<Rightarrow> hir_item \<Rightarrow> bool" where
  "plain_copy it it0 =
     (case it of
        ItemFn f \<Rightarrow> hf_generics f = [] \<and> (\<exists>g. substFn Map.empty f = Some g \<and> it0 = ItemFn g)
      | ItemClass c \<Rightarrow> hk_generics c = []
          \<and> (\<exists>k. substClass Map.empty c = Some k \<and> it0 = ItemClass (k\<lparr>hk_methods := filter (\<lambda>m. hf_generics m = []) (hk_methods k)\<rparr>)))"

definition copied :: "def_store \<Rightarrow> hir_module \<Rightarrow> hir_item \<Rightarrow> bool" where
  "copied D items it0 \<longleftrightarrow> (\<exists>it \<in> set items. plain_copy it it0) \<or> (\<exists>knd n targs m. specialization D items knd n targs m it0)"

text \<open>A generic method of a class of the input, specialized to the arguments of the class and to its own.\<close>

definition method_copy :: "def_store \<Rightarrow> hir_module \<Rightarrow> hir_fn \<Rightarrow> bool" where
  "method_copy D items m0 \<longleftrightarrow>
     (\<exists>n k m cargs targs m1 m2. index_classes items n = Some k \<and> m \<in> set (hk_methods k) \<and> hf_generics m \<noteq> []
        \<and> (if hk_generics k \<noteq> [] then substFn (makeSubst (hk_generics k) cargs) m else Some m) = Some m1
        \<and> substFn (makeSubst (hf_generics m) targs) m1 = Some m2
        \<and> m0 = m2\<lparr>hf_name := mangle D (hf_name m) targs, hf_generics := []\<rparr>)"

lemma substClass_name: "substClass s c = Some k \<Longrightarrow> hk_name k = hk_name c"
  by (auto simp: substClass_def split: bind_splits)

section \<open>Rewritten trees\<close>

text \<open>The names and type arguments that scanning may change are taken off a node.\<close>

definition unlabel :: "'e hir_node \<Rightarrow> 'e hir_node" where
  "unlabel node =
     (case node of
        HirStruct tn flds targs sz tid t \<Rightarrow> HirStruct [] flds [] sz tid t
      | HirCall func sn cl args targs t \<Rightarrow> HirCall func None [] args [] t
      | HirMethodCall recv m qn args vti isI itid imi t targs \<Rightarrow> HirMethodCall recv [] [] args 0 False itid imi t []
      | _ \<Rightarrow> node)"

inductive rewritten :: "(hir_expr hir_node \<Rightarrow> hir_expr hir_node \<Rightarrow> bool) \<Rightarrow> hir_expr \<Rightarrow> hir_expr \<Rightarrow> bool"
  for S :: "hir_expr hir_node \<Rightarrow> hir_expr hir_node \<Rightarrow> bool" where
  rewritten_node: "S node node' \<Longrightarrow> rel_hir_node (rewritten S) (unlabel node) (unlabel node') \<Longrightarrow>
    rewritten S (HirExpr node loc) (HirExpr node' loc)"

inductive_simps rewritten_iff: "rewritten S (HirExpr node loc) e'"

definition fn_rel :: "(hir_expr \<Rightarrow> hir_expr \<Rightarrow> bool) \<Rightarrow> hir_fn \<Rightarrow> hir_fn \<Rightarrow> bool" where
  "fn_rel R f g \<longleftrightarrow> g\<lparr>hf_body := hf_body f\<rparr> = f \<and> R (hf_body f) (hf_body g)"

definition field_rel :: "(hir_expr \<Rightarrow> hir_expr \<Rightarrow> bool) \<Rightarrow> hir_class_field \<Rightarrow> hir_class_field \<Rightarrow> bool" where
  "field_rel R f g \<longleftrightarrow> g\<lparr>cf_initializer := cf_initializer f\<rparr> = f \<and> rel_option R (cf_initializer f) (cf_initializer g)"

text \<open>Items equal up to their expressions, which are related by \<open>R\<close>; a class may have gained methods in \<open>E\<close>.\<close>

definition class_rel :: "(hir_expr \<Rightarrow> hir_expr \<Rightarrow> bool) \<Rightarrow> (hir_fn \<Rightarrow> bool) \<Rightarrow> hir_class \<Rightarrow> hir_class \<Rightarrow> bool" where
  "class_rel R E c k \<longleftrightarrow>
     k\<lparr>hk_fields := hk_fields c, hk_initBlocks := hk_initBlocks c, hk_methods := hk_methods c\<rparr> = c
     \<and> list_all2 (field_rel R) (hk_fields c) (hk_fields k) \<and> list_all2 (rel_option R) (hk_initBlocks c) (hk_initBlocks k)
     \<and> (\<exists>ms es. hk_methods k = ms @ es \<and> list_all2 (fn_rel R) (hk_methods c) ms \<and> (\<forall>m \<in> set es. E m))"

fun item_rel :: "(hir_expr \<Rightarrow> hir_expr \<Rightarrow> bool) \<Rightarrow> (hir_fn \<Rightarrow> bool) \<Rightarrow> hir_item \<Rightarrow> hir_item \<Rightarrow> bool" where
  "item_rel R E (ItemFn f) (ItemFn g) = fn_rel R f g"
| "item_rel R E (ItemClass c) (ItemClass k) = class_rel R E c k"
| "item_rel R E _ _ = False"

section \<open>Resolved sites\<close>

text \<open>
  \<open>N\<close> is the set of copies that the output holds.  A generic definition \<open>n\<close> leads to \<open>m\<close> when \<open>m\<close> is the name of a
  specialization of it in \<open>N\<close>, to type arguments of the given signature; the name of an instance can itself be the name
  of a generic definition (the symbol of an overload is), hence the closure.
\<close>

definition spec_step :: "def_store \<Rightarrow> hir_module \<Rightarrow> hir_item set \<Rightarrow> spec_kind \<Rightarrow> string \<Rightarrow> (string \<times> string) set" where
  "spec_step D items N knd sig = {(n, m). \<exists>targs it0. typeSigVec D targs = sig \<and> specialization D items knd n targs m it0 \<and> it0 \<in> N}"

abbreviation leads_to :: "def_store \<Rightarrow> hir_module \<Rightarrow> hir_item set \<Rightarrow> spec_kind \<Rightarrow> ty list \<Rightarrow> string \<Rightarrow> string \<Rightarrow> bool" where
  "leads_to D items N knd targs n m \<equiv> (n, m) \<in> (spec_step D items N knd (typeSigVec D targs))\<^sup>+"

definition call_site :: "def_store \<Rightarrow> hir_module \<Rightarrow> hir_item set \<Rightarrow> hir_expr option \<Rightarrow> ty list \<Rightarrow> string option \<Rightarrow> string option \<Rightarrow> bool" where
  "call_site D items N func targs sn sn' \<longleftrightarrow>
     (if targs \<noteq> [] \<and> is_generic_fn items (callee_name func sn)
      then \<exists>m. sn' = Some m \<and> leads_to D items N SpecFn targs (callee_name func sn) m else sn' = sn)"

definition ctor_site :: "def_store \<Rightarrow> hir_module \<Rightarrow> hir_item set \<Rightarrow> ty list \<Rightarrow> string \<Rightarrow> string \<Rightarrow> bool" where
  "ctor_site D items N targs cl cl' \<longleftrightarrow>
     (if targs \<noteq> [] \<and> cl \<noteq> [] \<and> is_generic_class items (before_last_dot cl)
      then \<exists>m. cl' = m @ ''.init'' \<and> leads_to D items N SpecClass targs (before_last_dot cl) m else cl' = cl)"

definition struct_site :: "def_store \<Rightarrow> hir_module \<Rightarrow> hir_item set \<Rightarrow> string \<times> ty list \<Rightarrow> string \<times> ty list \<Rightarrow> bool" where
  "struct_site D items N s s' =
     (case s of (tn, targs) \<Rightarrow>
        if targs \<noteq> [] \<and> is_generic_class items tn then snd s' = [] \<and> leads_to D items N SpecClass targs tn (fst s') else s' = s)"

text \<open>
  A method call on an instance of a generic class goes to the specialized class, by name; a call of a generic
  method without such a receiver is renamed or left.  Nothing is said of where a renamed generic method is found: it
  can be lost.
\<close>

definition method_site ::
  "def_store \<Rightarrow> hir_module \<Rightarrow> hir_item set \<Rightarrow> string \<times> ty list \<Rightarrow> string \<times> string \<times> nat \<times> bool \<times> ty list \<Rightarrow> string \<times> string \<times> nat \<times> bool \<times> ty list \<Rightarrow> bool" where
  "method_site D items N owner s s' =
     (case (owner, s, s') of ((on, cargs), (m, qn, vti, isI, targs), (m', qn', vti', isI', targs')) \<Rightarrow>
        targs' = (if on \<noteq> [] then [] else targs) \<and> (targs = [] \<or> on = [] \<longrightarrow> m' = m)
        \<and> (if cargs \<noteq> [] \<and> is_generic_class items on
           then \<exists>c. leads_to D items N SpecClass cargs on c \<and> qn' = c @ ''.'' @ m' \<and> vti' = 4294967295 \<and> \<not> isI'
           else (m', qn', vti', isI') = (m, qn, vti, isI)
             \<or> targs \<noteq> [] \<and> on \<noteq> [] \<and> qn' = on @ ''.'' @ m' \<and> vti' = 4294967295 \<and> \<not> isI'))"

datatype (plugins only: size) site_label =
    NoSite
  | CallSite "hir_expr option" "string option" string "ty list"
  | StructSite string "ty list"
  | MethodSite hir_expr string string nat bool "ty list"

fun label_of :: "hir_expr hir_node \<Rightarrow> site_label" where
  "label_of (HirCall func sn cl args targs t) = CallSite func sn cl targs"
| "label_of (HirStruct tn flds targs sz tid t) = StructSite tn targs"
| "label_of (HirMethodCall recv m qn args vti isI itid imi t targs) = MethodSite recv m qn vti isI targs"
| "label_of _ = NoSite"

fun label_rel :: "def_store \<Rightarrow> hir_module \<Rightarrow> hir_item set \<Rightarrow> site_label \<Rightarrow> site_label \<Rightarrow> bool" where
  "label_rel D items N NoSite l \<longleftrightarrow> l = NoSite"
| "label_rel D items N (CallSite func sn cl targs) (CallSite func' sn' cl' targs') \<longleftrightarrow>
     targs' = targs \<and> call_site D items N func targs sn sn' \<and> ctor_site D items N targs cl cl'"
| "label_rel D items N (StructSite tn targs) (StructSite tn' targs') \<longleftrightarrow> struct_site D items N (tn, targs) (tn', targs')"
| "label_rel D items N (MethodSite r m qn vti isI targs) (MethodSite r' m' qn' vti' isI' targs') \<longleftrightarrow>
     method_site D items N (receiver_class D r) (m, qn, vti, isI, targs) (m', qn', vti', isI', targs')"
| "label_rel D items N _ _ \<longleftrightarrow> False"

definition site :: "def_store \<Rightarrow> hir_module \<Rightarrow> hir_item set \<Rightarrow> hir_expr hir_node \<Rightarrow> hir_expr hir_node \<Rightarrow> bool" where
  "site D items N node node' = label_rel D items N (label_of node) (label_of node')"

text \<open>The copies of which the output holds the code, up to the names at its sites; a scanned item.\<close>

definition present :: "hir_module \<Rightarrow> hir_item set" where
  "present out = {it0. \<exists>it \<in> set out. item_rel (rewritten (\<lambda>_ _. True)) (\<lambda>_. True) it0 it}"

abbreviation scans :: "def_store \<Rightarrow> hir_module \<Rightarrow> hir_item set \<Rightarrow> hir_expr \<Rightarrow> hir_expr \<Rightarrow> bool" where
  "scans D items N \<equiv> rewritten (site D items N)"

definition extra_method :: "def_store \<Rightarrow> hir_module \<Rightarrow> hir_item set \<Rightarrow> hir_fn \<Rightarrow> bool" where
  "extra_method D items N m \<longleftrightarrow> (\<exists>m0. method_copy D items m0 \<and> fn_rel (scans D items N) m0 m)"

abbreviation scanned_item :: "def_store \<Rightarrow> hir_module \<Rightarrow> hir_item set \<Rightarrow> hir_item \<Rightarrow> hir_item \<Rightarrow> bool" where
  "scanned_item D items N \<equiv> item_rel (scans D items N) (extra_method D items N)"

abbreviation grown :: "def_store \<Rightarrow> hir_module \<Rightarrow> hir_item set \<Rightarrow> hir_item \<Rightarrow> hir_item \<Rightarrow> bool" where
  "grown D items N \<equiv> item_rel (=) (extra_method D items N)"


section \<open>Relations between trees\<close>

lemma rewritten_mono: "rewritten S e e' \<Longrightarrow> (\<And>n n'. S n n' \<Longrightarrow> T n n') \<Longrightarrow> rewritten T e e'"
proof (induction rule: rewritten.induct)
  case (rewritten_node node node' loc)
  show ?case
  proof (rule rewritten.rewritten_node)
    show "T node node'" using rewritten_node by simp
    show "rel_hir_node (rewritten T) (unlabel node) (unlabel node')"
      using rewritten_node.IH by (rule hir_node.rel_mono_strong) (use rewritten_node.prems in blast)
  qed
qed

text \<open>What a rewritten expression keeps.\<close>

definition path_name :: "'e hir_node \<Rightarrow> string" where
  "path_name node = (case node of HirPath name _ _ _ _ _ \<Rightarrow> name | _ \<Rightarrow> [])"

definition expr_path :: "hir_expr \<Rightarrow> string" where
  "expr_path e = (case e of HirExpr node loc \<Rightarrow> path_name node)"

definition same_head :: "hir_expr \<Rightarrow> hir_expr \<Rightarrow> bool" where
  "same_head e e' \<longleftrightarrow> expr_path e' = expr_path e \<and> hirExprTy e' = hirExprTy e"

lemma unlabel_heads: "path_name (unlabel node) = path_name node" "hir_node_ty (unlabel node) = hir_node_ty node"
  by (cases node; simp add: unlabel_def path_name_def)+

lemma rel_node_heads: "rel_hir_node R node node' \<Longrightarrow> path_name node' = path_name node \<and> hir_node_ty node' = hir_node_ty node"
  by (cases node; cases node') (simp_all add: path_name_def)

lemma rewritten_head:
  assumes "rewritten S e e'"
  shows "same_head e e'"
  using assms
proof (cases rule: rewritten.cases)
  case (rewritten_node node node' loc)
  from rel_node_heads [OF rewritten_node(4)] show ?thesis
    by (simp add: rewritten_node(1,2) same_head_def expr_path_def hirExprTy_def unlabel_heads)
qed

lemma same_head_owner: "same_head e e' \<Longrightarrow> receiver_class D e' = receiver_class D e"
  by (simp add: same_head_def receiver_class_def)

lemma callee_path: "callee_name func None = (case func of None \<Rightarrow> [] | Some e \<Rightarrow> expr_path e)" "callee_name func (Some s) = s"
  by (auto simp: callee_name_def expr_path_def path_name_def split: option.split hir_expr.split hir_node.split)

lemma same_head_callee: "rel_option same_head func func' \<Longrightarrow> callee_name func' sn = callee_name func sn"
  by (cases sn; cases func; cases func') (auto simp: callee_path same_head_def)

lemma rewritten_trans:
  assumes S: "\<And>a b c. S a b \<Longrightarrow> S b c \<Longrightarrow> rel_hir_node same_head (unlabel a) (unlabel b) \<Longrightarrow> S a c"
  shows "rewritten S e e' \<Longrightarrow> rewritten S e' e'' \<Longrightarrow> rewritten S e e''"
proof (induction arbitrary: e'' rule: rewritten.induct)
  case (rewritten_node node node' loc)
  from rewritten_node.prems obtain node'' where e: "e'' = HirExpr node'' loc" "S node' node''" "rel_hir_node (rewritten S) (unlabel node') (unlabel node'')"
    by (auto simp: rewritten_iff)
  have "rel_hir_node same_head (unlabel node) (unlabel node')"
    using rewritten_node.IH by (rule hir_node.rel_mono_strong) (blast intro: rewritten_head)
  with rewritten_node.hyps e(2) have "S node node''" by (rule S)
  moreover have "rel_hir_node (rewritten S) (unlabel node) (unlabel node'')"
  proof -
    have "rel_hir_node (\<lambda>x y. rewritten S x y \<and> (\<forall>z. rewritten S y z \<longrightarrow> rewritten S x z)) (unlabel node) (unlabel node')"
      using rewritten_node.IH by (rule hir_node.rel_mono_strong) blast
    with e(3) have "rel_hir_node ((\<lambda>x y. rewritten S x y \<and> (\<forall>z. rewritten S y z \<longrightarrow> rewritten S x z)) OO rewritten S) (unlabel node) (unlabel node'')"
      unfolding hir_node.rel_compp by blast
    then show ?thesis by (rule hir_node.rel_mono_strong) blast
  qed
  ultimately show ?case unfolding e(1) by (rule rewritten.rewritten_node)
qed

lemma unlabel_shape:
  "rel_hir_node R (unlabel (HirCall func sn cl args targs t)) (unlabel node) \<Longrightarrow>
     \<exists>func' sn' cl' args' targs' t'. node = HirCall func' sn' cl' args' targs' t' \<and> rel_option R func func'"
  "rel_hir_node R (unlabel (HirStruct tn flds targs sz tid t)) (unlabel node) \<Longrightarrow>
     \<exists>tn' flds' targs' sz' tid' t'. node = HirStruct tn' flds' targs' sz' tid' t'"
  "rel_hir_node R (unlabel (HirMethodCall r m qn args vti isI itid imi t targs)) (unlabel node) \<Longrightarrow>
     \<exists>r' m' qn' args' vti' isI' itid' imi' t' targs'. node = HirMethodCall r' m' qn' args' vti' isI' itid' imi' t' targs' \<and> R r r'"
  by (cases node; simp add: unlabel_def)+

lemma chained_name: "before_last_dot (x @ ''.init'') = x"
  by (simp add: before_last_dot_def)

lemma call_site_trans:
  "call_site D items N func targs sn sn' \<Longrightarrow> call_site D items N func' targs sn' sn'' \<Longrightarrow> rel_option same_head func func' \<Longrightarrow>
   call_site D items N func targs sn sn''"
  by (auto simp: call_site_def callee_path same_head_callee split: if_splits intro: trancl_trans)

lemma ctor_site_trans: "ctor_site D items N targs cl cl' \<Longrightarrow> ctor_site D items N targs cl' cl'' \<Longrightarrow> ctor_site D items N targs cl cl''"
  by (auto simp: ctor_site_def chained_name split: if_splits intro: trancl_trans)

lemma struct_site_trans: "struct_site D items N s s' \<Longrightarrow> struct_site D items N s' s'' \<Longrightarrow> struct_site D items N s s''"
  by (auto simp: struct_site_def split: if_splits prod.splits)

lemma method_site_trans: "method_site D items N ow s s' \<Longrightarrow> method_site D items N ow s' s'' \<Longrightarrow> method_site D items N ow s s''"
  by (auto simp: method_site_def split: if_splits prod.splits)

lemma site_trans:
  assumes a: "site D items N a b" and c: "site D items N b c" and h: "rel_hir_node same_head (unlabel a) (unlabel b)"
  shows "site D items N a c"
proof (cases a)
  case (HirCall func sn cl args targs t)
  with unlabel_shape(1) [of same_head func sn cl args targs t b] h
  obtain func' sn' cl' args' targs' t' where b: "b = HirCall func' sn' cl' args' targs' t'" "rel_option same_head func func'" by blast
  with a c HirCall show ?thesis
    by (cases "label_of c") (auto simp: site_def intro: call_site_trans ctor_site_trans)
next
  case (HirStruct tn flds targs sz tid t)
  with unlabel_shape(2) [of same_head tn flds targs sz tid t b] h
  obtain tn' flds' targs' sz' tid' t' where b: "b = HirStruct tn' flds' targs' sz' tid' t'" by blast
  with a c HirStruct show ?thesis
    by (cases "label_of c") (auto simp: site_def intro: struct_site_trans)
next
  case (HirMethodCall r m qn args vti isI itid imi t targs)
  with unlabel_shape(3) [of same_head r m qn args vti isI itid imi t targs b] h
  obtain r' m' qn' args' vti' isI' itid' imi' t' targs' where b: "b = HirMethodCall r' m' qn' args' vti' isI' itid' imi' t' targs'" "same_head r r'" by blast
  with a c HirMethodCall show ?thesis
    by (cases "label_of c") (auto simp: site_def same_head_owner intro: method_site_trans)
qed (use a c in \<open>simp_all add: site_def\<close>)

lemma sites_scans_trans: "scans D items N e e' \<Longrightarrow> scans D items N e' e'' \<Longrightarrow> scans D items N e e''"
  by (rule rewritten_trans [OF site_trans])

lemma shape_trans: "rewritten (\<lambda>_ _. True) e e' \<Longrightarrow> rewritten (\<lambda>_ _. True) e' e'' \<Longrightarrow> rewritten (\<lambda>_ _. True) e e''"
  by (rule rewritten_trans) simp

lemma scans_shape: "scans D items N e e' \<Longrightarrow> rewritten (\<lambda>_ _. True) e e'"
  by (erule rewritten_mono) simp

function shape_refl_fun :: "hir_expr \<Rightarrow> bool" where
  "shape_refl_fun (HirExpr node loc) = (\<forall>x \<in> set_hir_node node. shape_refl_fun x)"
  by pat_completeness auto
termination
  by (relation "measure size") (auto dest: hir_size_child)

lemma set_unlabel: "set_hir_node (unlabel node) = set_hir_node node"
  by (cases node) (simp_all add: unlabel_def)

lemma shape_refl [simp]: "rewritten (\<lambda>_ _. True) e e"
proof (induction e rule: shape_refl_fun.induct)
  case (1 node loc)
  have "rel_hir_node (rewritten (\<lambda>_ _. True)) (unlabel node) (unlabel node)"
    using 1 by (intro hir_node.rel_refl_strong) (simp add: set_unlabel)
  then show ?case by (intro rewritten_node) simp_all
qed

section \<open>Relations between items\<close>

lemma fn_rel_trans: "fn_rel R f g \<Longrightarrow> fn_rel S g h \<Longrightarrow> (\<And>x y z. R x y \<Longrightarrow> S y z \<Longrightarrow> T x z) \<Longrightarrow> fn_rel T f h"
  by (cases f; cases g; cases h) (auto simp: fn_rel_def)

lemma field_rel_trans: "field_rel R f g \<Longrightarrow> field_rel S g h \<Longrightarrow> (\<And>x y z. R x y \<Longrightarrow> S y z \<Longrightarrow> T x z) \<Longrightarrow> field_rel T f h"
  by (cases f; cases g; cases h) (auto simp: field_rel_def rel_option_iff split: option.splits)

lemma option_rel_trans: "rel_option R f g \<Longrightarrow> rel_option S g h \<Longrightarrow> (\<And>x y z. R x y \<Longrightarrow> S y z \<Longrightarrow> T x z) \<Longrightarrow> rel_option T f h"
  by (cases f; cases g; cases h) auto

lemma fn_rel_mono: "fn_rel R f g \<Longrightarrow> (\<And>x y. R x y \<Longrightarrow> S x y) \<Longrightarrow> fn_rel S f g"
  by (simp add: fn_rel_def)

lemma field_rel_mono: "field_rel R f g \<Longrightarrow> (\<And>x y. R x y \<Longrightarrow> S x y) \<Longrightarrow> field_rel S f g"
  by (auto simp: field_rel_def elim: option.rel_mono_strong)

lemma class_relI:
  "k\<lparr>hk_fields := hk_fields c, hk_initBlocks := hk_initBlocks c, hk_methods := hk_methods c\<rparr> = c \<Longrightarrow>
   list_all2 (field_rel R) (hk_fields c) (hk_fields k) \<Longrightarrow> list_all2 (rel_option R) (hk_initBlocks c) (hk_initBlocks k) \<Longrightarrow>
   hk_methods k = ms @ es \<Longrightarrow> list_all2 (fn_rel R) (hk_methods c) ms \<Longrightarrow> \<forall>m \<in> set es. E m \<Longrightarrow> class_rel R E c k"
  unfolding class_rel_def by blast

lemma class_rel_trans:
  assumes a: "class_rel R E c k" and b: "class_rel S G k l" and t: "\<And>x y z. R x y \<Longrightarrow> S y z \<Longrightarrow> T x z"
    and e: "\<And>m m'. E m \<Longrightarrow> fn_rel S m m' \<Longrightarrow> H m'" and g: "\<And>m. G m \<Longrightarrow> H m"
  shows "class_rel T H c l"
proof -
  from a obtain ms es where 1: "hk_methods k = ms @ es" "list_all2 (fn_rel R) (hk_methods c) ms" "\<forall>m \<in> set es. E m" unfolding class_rel_def by blast
  from b obtain ns fs where 2: "hk_methods l = ns @ fs" "list_all2 (fn_rel S) (hk_methods k) ns" "\<forall>m \<in> set fs. G m" unfolding class_rel_def by blast
  from 2(2) obtain ms' es' where 3: "ns = ms' @ es'" "list_all2 (fn_rel S) ms ms'" "list_all2 (fn_rel S) es es'"
    unfolding 1(1) list_all2_append1 by blast
  have "list_all2 (fn_rel T) (hk_methods c) ms'" by (rule list_all2_trans [OF _ 1(2) 3(2)]) (blast intro: fn_rel_trans t)
  moreover have "\<forall>m \<in> set (es' @ fs). H m"
    using 1(3) 2(3) 3(3) e g by (fastforce simp: list_all2_conv_all_nth in_set_conv_nth)
  moreover have "hk_methods l = ms' @ es' @ fs" using 2(1) 3(1) by simp
  moreover have "list_all2 (field_rel T) (hk_fields c) (hk_fields l)"
    by (rule list_all2_trans [of "field_rel R" "field_rel S"]) (use a b in \<open>auto simp: class_rel_def intro: field_rel_trans t\<close>)
  moreover have "list_all2 (rel_option T) (hk_initBlocks c) (hk_initBlocks l)"
    by (rule list_all2_trans [of "rel_option R" "rel_option S"]) (use a b in \<open>auto simp: class_rel_def intro: option_rel_trans t\<close>)
  moreover have "l\<lparr>hk_fields := hk_fields c, hk_initBlocks := hk_initBlocks c, hk_methods := hk_methods c\<rparr> = c"
    using a b by (cases c; cases k; cases l) (auto simp: class_rel_def)
  ultimately show ?thesis unfolding class_rel_def by blast
qed

lemma item_rel_trans:
  assumes "item_rel R E a b" and "item_rel S G b c" and "\<And>x y z. R x y \<Longrightarrow> S y z \<Longrightarrow> T x z"
    and "\<And>m m'. E m \<Longrightarrow> fn_rel S m m' \<Longrightarrow> H m'" and "\<And>m. G m \<Longrightarrow> H m"
  shows "item_rel T H a c"
  using assms(1,2) by (cases a; cases b; cases c) (auto intro: fn_rel_trans class_rel_trans assms(3-))

lemma item_rel_mono:
  assumes "item_rel R E a b" and "\<And>x y. R x y \<Longrightarrow> S x y" and "\<And>m. E m \<Longrightarrow> G m"
  shows "item_rel S G a b"
  using assms(1)
proof (cases a; cases b)
  fix c k assume i: "a = ItemClass c" "b = ItemClass k"
  with assms(1) have "class_rel R E c k" by simp
  then obtain ms es where m: "hk_methods k = ms @ es" "list_all2 (fn_rel R) (hk_methods c) ms" "\<forall>m \<in> set es. E m" unfolding class_rel_def by blast
  from m(2) have "list_all2 (fn_rel S) (hk_methods c) ms" by (rule list_all2_mono) (blast intro: fn_rel_mono assms(2))
  moreover have "list_all2 (field_rel S) (hk_fields c) (hk_fields k)"
    using assms(1) i by (auto simp: class_rel_def elim!: list_all2_mono intro: field_rel_mono assms(2))
  moreover have "list_all2 (rel_option S) (hk_initBlocks c) (hk_initBlocks k)"
    using assms(1) i by (auto simp: class_rel_def elim!: list_all2_mono option.rel_mono_strong intro: assms(2))
  ultimately show ?thesis using assms(1,3) i m by (auto simp: class_rel_def)
qed (auto intro: fn_rel_mono assms(2))

lemma fn_rel_refl: "(\<And>x. R x x) \<Longrightarrow> fn_rel R f f"
  by (simp add: fn_rel_def)

lemma item_rel_refl:
  assumes R: "\<And>x. R x x"
  shows "item_rel R E a a"
proof (cases a)
  case (ItemClass c)
  have "\<exists>ms es. hk_methods c = ms @ es \<and> list_all2 (fn_rel R) (hk_methods c) ms \<and> (\<forall>m \<in> set es. E m)"
    by (rule exI [of _ "hk_methods c"], rule exI [of _ "[]"]) (auto intro: list.rel_refl fn_rel_refl R)
  then show ?thesis unfolding ItemClass item_rel.simps class_rel_def
    by (auto simp: field_rel_def intro!: list.rel_refl option.rel_refl R)
qed (simp add: fn_rel_def R)

lemma item_rel_name: "item_rel R E a b \<Longrightarrow> item_name b = item_name a"
  by (cases a; cases b) (auto simp: fn_rel_def class_rel_def item_name_def dest: arg_cong [where f = hf_name] arg_cong [where f = hk_name])

definition item_monomorphic :: "hir_item \<Rightarrow> bool" where
  "item_monomorphic it =
     (case it of ItemFn f \<Rightarrow> hf_generics f = [] | ItemClass c \<Rightarrow> hk_generics c = [] \<and> (\<forall>m \<in> set (hk_methods c). hf_generics m = []))"

lemma fn_rel_generics: "fn_rel R f g \<Longrightarrow> hf_generics g = hf_generics f"
  by (auto simp: fn_rel_def dest: arg_cong [where f = hf_generics])

lemma item_rel_monomorphic:
  assumes "item_rel R E a b" and "item_monomorphic a" and "\<And>m. E m \<Longrightarrow> hf_generics m = []"
  shows "item_monomorphic b"
  using assms
proof (cases a; cases b)
  fix c k assume i: "a = ItemClass c" "b = ItemClass k"
  with assms(1) have "class_rel R E c k" by simp
  then obtain ms es where m: "hk_methods k = ms @ es" "list_all2 (fn_rel R) (hk_methods c) ms" "\<forall>m \<in> set es. E m" unfolding class_rel_def by blast
  have "hf_generics m = []" if "m \<in> set ms" for m
    using that m(2) assms(2) i fn_rel_generics by (fastforce simp: list_all2_conv_all_nth in_set_conv_nth item_monomorphic_def)
  moreover have "hk_generics k = hk_generics c" using assms(1) i by (auto simp: class_rel_def dest: arg_cong [where f = hk_generics])
  ultimately show ?thesis using assms(2,3) m i by (auto simp: item_monomorphic_def)
qed (auto simp: item_monomorphic_def fn_rel_generics)

section \<open>Growth of the output\<close>

lemma spec_step_mono: "N \<subseteq> N' \<Longrightarrow> spec_step D items N knd sig \<subseteq> spec_step D items N' knd sig"
  by (auto simp: spec_step_def)

lemma leads_mono: "N \<subseteq> N' \<Longrightarrow> leads_to D items N knd targs n m \<Longrightarrow> leads_to D items N' knd targs n m"
  by (rule trancl_mono [OF _ spec_step_mono])

text \<open>A definition that leads anywhere has a specialization in \<open>N\<close>, and the name it leads to is that of one.\<close>

lemma leads_from: "leads_to D items N knd targs n m \<Longrightarrow> \<exists>targs' m' it0. specialization D items knd n targs' m' it0 \<and> it0 \<in> N"
  by (drule tranclD) (auto simp: spec_step_def)

lemma specialization_name: "specialization D items knd n targs m it0 \<Longrightarrow> item_name it0 = m"
  by (cases knd) (auto simp: specialization_def item_name_def dest: substClass_name)

lemma leads_into: "leads_to D items N knd targs n m \<Longrightarrow> \<exists>it0 \<in> N. item_name it0 = m"
  by (drule tranclD2) (auto simp: spec_step_def dest: specialization_name)

lemma call_site_mono: "N \<subseteq> N' \<Longrightarrow> call_site D items N func targs sn sn' \<Longrightarrow> call_site D items N' func targs sn sn'"
  unfolding call_site_def by (auto split: if_splits intro: leads_mono)

lemma ctor_site_mono: "N \<subseteq> N' \<Longrightarrow> ctor_site D items N targs cl cl' \<Longrightarrow> ctor_site D items N' targs cl cl'"
  unfolding ctor_site_def by (auto split: if_splits intro: leads_mono)

lemma struct_site_mono: "N \<subseteq> N' \<Longrightarrow> struct_site D items N s s' \<Longrightarrow> struct_site D items N' s s'"
  unfolding struct_site_def by (auto split: if_splits prod.splits intro: leads_mono)

lemma method_site_mono: "N \<subseteq> N' \<Longrightarrow> method_site D items N ow s s' \<Longrightarrow> method_site D items N' ow s s'"
  unfolding method_site_def by (auto split: if_splits prod.splits intro: leads_mono)

lemma site_mono: "site D items N a b \<Longrightarrow> N \<subseteq> N' \<Longrightarrow> site D items N' a b"
  unfolding site_def
  by (cases "label_of a"; cases "label_of b") (auto intro: call_site_mono ctor_site_mono struct_site_mono method_site_mono)

lemma sites_scans_mono: "scans D items N e e' \<Longrightarrow> N \<subseteq> N' \<Longrightarrow> scans D items N' e e'"
  by (erule rewritten_mono) (rule site_mono)

lemma extra_mono: "extra_method D items N m \<Longrightarrow> N \<subseteq> N' \<Longrightarrow> extra_method D items N' m"
  unfolding extra_method_def by (blast intro: fn_rel_mono sites_scans_mono)

lemma extra_scanned: "extra_method D items N m \<Longrightarrow> fn_rel (scans D items N) m m' \<Longrightarrow> extra_method D items N m'"
  unfolding extra_method_def by (blast intro: fn_rel_trans sites_scans_trans)

lemma extra_generics: "extra_method D items N m \<Longrightarrow> hf_generics m = []"
  by (auto simp: extra_method_def method_copy_def fn_rel_generics)

lemma scanned_mono: "scanned_item D items N a b \<Longrightarrow> N \<subseteq> N' \<Longrightarrow> scanned_item D items N' a b"
  by (erule item_rel_mono) (blast intro: sites_scans_mono extra_mono)+

lemma grown_mono: "grown D items N a b \<Longrightarrow> N \<subseteq> N' \<Longrightarrow> grown D items N' a b"
  by (erule item_rel_mono) (blast intro: extra_mono)+

lemma grown_trans: "grown D items N a b \<Longrightarrow> grown D items N b c \<Longrightarrow> grown D items N a c"
  by (erule item_rel_trans, assumption) (auto simp: fn_rel_def)

lemma scanned_grown: "scanned_item D items N a b \<Longrightarrow> grown D items N b c \<Longrightarrow> scanned_item D items N a c"
  by (erule item_rel_trans, assumption) (auto simp: fn_rel_def)

lemma scanned_again: "scanned_item D items N a b \<Longrightarrow> scanned_item D items N b c \<Longrightarrow> scanned_item D items N a c"
  by (erule item_rel_trans, assumption) (blast intro: sites_scans_trans extra_scanned)+

lemma grown_scanned: "grown D items N a b \<Longrightarrow> scanned_item D items N b c \<Longrightarrow> scanned_item D items N a c"
  by (erule item_rel_trans, assumption) (auto intro: extra_scanned)

text \<open>What is present stays present when the items change only in the names at their sites and gain methods.\<close>

abbreviation same_code :: "hir_item \<Rightarrow> hir_item \<Rightarrow> bool" where
  "same_code \<equiv> item_rel (rewritten (\<lambda>_ _. True)) (\<lambda>_. True)"

lemma same_code_trans: "same_code a b \<Longrightarrow> same_code b c \<Longrightarrow> same_code a c"
  by (erule item_rel_trans, assumption) (auto intro: shape_trans)

lemma same_code_refl [simp]: "same_code a a"
  by (rule item_rel_refl) simp

lemma grown_code: "grown D items N a b \<Longrightarrow> same_code a b"
  by (erule item_rel_mono) auto

lemma present_mono:
  assumes "length out \<le> length out'" and "\<And>i. i < length out \<Longrightarrow> same_code (out ! i) (out' ! i)"
  shows "present out \<subseteq> present out'"
proof
  fix it0 assume "it0 \<in> present out"
  then obtain i where i: "i < length out" "same_code it0 (out ! i)" by (auto simp: present_def in_set_conv_nth)
  then have "same_code it0 (out' ! i)" "i < length out'" using assms by (auto intro: same_code_trans)
  then show "it0 \<in> present out'" by (auto simp: present_def)
qed

end
