(* ===== verification/Lx_MonoSpec.thy ===== *)
theory Lx_MonoSpec
  imports Lx_MonoRel
begin

text \<open>
  What the monomorphizer returns: scanned copies of the items of the input, in which every site that named a generic
  definition names a specialization that is there.  The laws of the recursion are a locale, the steps have triples over
  the copies that the output holds.  At the end, specializations that go wrong.
\<close>

section \<open>The invariant\<close>

record mono_frame =
  mf_defs :: def_store
  mf_items :: hir_module
  mf_todo :: "nat set"
  mf_name :: string

text \<open>
  Names of generic definitions have no dot, which the keys of specialized methods do, and no function and class share
  one.
\<close>

definition spec_names_ok :: "hir_module \<Rightarrow> bool" where
  "spec_names_ok items \<longleftrightarrow>
     (\<forall>n. is_generic_fn items n \<or> is_generic_class items n \<longrightarrow> CHR ''.'' \<notin> set n)
     \<and> (\<forall>n. \<not> (is_generic_fn items n \<and> is_generic_class items n))"

abbreviation held :: "mono_state \<Rightarrow> hir_item set" where
  "held st \<equiv> present (mo_output st)"

text \<open>An item still to be scanned has a key in the worklist, or is one of those the frame is working on.\<close>

definition pending_name :: "mono_state \<Rightarrow> string \<Rightarrow> bool" where
  "pending_name st name \<longleftrightarrow> (\<exists>k \<in> set (mo_worklist st). mo_specMap st k = Some name)"

definition slot_ok :: "mono_frame \<Rightarrow> hir_item set \<Rightarrow> mono_state \<Rightarrow> nat \<Rightarrow> hir_item \<Rightarrow> bool" where
  "slot_ok fr N st i it \<longleftrightarrow> (\<exists>it0. copied (mf_defs fr) (mf_items fr) it0 \<and>
     (scanned_item (mf_defs fr) (mf_items fr) N it0 it
      \<or> grown (mf_defs fr) (mf_items fr) N it0 it \<and> (pending_name st (item_name it) \<or> i \<in> mf_todo fr \<and> item_name it = mf_name fr)))"

definition mono_inv :: "mono_frame \<Rightarrow> mono_state \<Rightarrow> bool" where
  "mono_inv fr st \<longleftrightarrow> spec_names_ok (mf_items fr) \<and> (\<forall>k \<in> set (mo_worklist st). mo_specMap st k \<noteq> None)
     \<and> mo_fnByName st = index_fns (mf_items fr) \<and> mo_classByName st = index_classes (mf_items fr)
     \<and> (\<forall>n sig v. mo_specMap st (n, sig) = Some v \<longrightarrow> CHR ''.'' \<notin> set n \<longrightarrow>
          (\<exists>knd. (n, v) \<in> spec_step (mf_defs fr) (mf_items fr) (held st) knd sig))
     \<and> (\<forall>i < length (mo_output st). slot_ok fr (held st) st i (mo_output st ! i))"

definition mono_ext :: "mono_frame \<Rightarrow> mono_state \<Rightarrow> mono_state \<Rightarrow> bool" where
  "mono_ext fr st st' \<longleftrightarrow> mo_specMap st \<subseteq>\<^sub>m mo_specMap st' \<and> (\<exists>ws. mo_worklist st' = mo_worklist st @ ws)
     \<and> length (mo_output st) \<le> length (mo_output st')
     \<and> (\<forall>i < length (mo_output st). grown (mf_defs fr) (mf_items fr) (held st') (mo_output st ! i) (mo_output st' ! i))"

lemma ext_held: "mono_ext fr st st' \<Longrightarrow> held st \<subseteq> held st'"
  by (rule present_mono) (auto simp: mono_ext_def intro: grown_code)






section \<open>Triples\<close>

text \<open>
  A step from a state that holds \<open>N\<close> keeps the invariant, only extends the output, and its result satisfies \<open>Q\<close> for
  whatever the output holds later.
\<close>

definition mok :: "mono_frame \<Rightarrow> hir_item set \<Rightarrow> 'a mono \<Rightarrow> ('a \<Rightarrow> hir_item set \<Rightarrow> bool) \<Rightarrow> bool" where
  "mok fr N m Q \<longleftrightarrow> (\<forall>st x st'. mono_inv fr st \<longrightarrow> N \<subseteq> held st \<longrightarrow> m st = Inr (x, st') \<longrightarrow>
     mono_inv fr st' \<and> mono_ext fr st st' \<and> (\<forall>K. held st' \<subseteq> K \<longrightarrow> Q x K))"







lemma mok_option: "(x = None \<Longrightarrow> mok fr N m Q) \<Longrightarrow> (\<And>y. x = Some y \<Longrightarrow> mok fr N (f y) Q) \<Longrightarrow> mok fr N (case x of None \<Rightarrow> m | Some y \<Rightarrow> f y) Q"
  by (simp split: option.split)

lemma mok_weaken: "mok fr N m P \<Longrightarrow> (\<And>x K. N \<subseteq> K \<Longrightarrow> P x K \<Longrightarrow> Q x K) \<Longrightarrow> mok fr N m Q"
  unfolding mok_def using ext_held by (meson order.trans)

lemma mok_any: "mok fr N m P \<Longrightarrow> mok fr N m (\<lambda>_ _. True)"
  by (erule mok_weaken) simp






section \<open>Steps that change the output\<close>













section \<open>The laws of the recursion\<close>




section \<open>The module\<close>






section \<open>The worklist\<close>







section \<open>The result\<close>







section \<open>Evaluation of concrete modules\<close>

lemmas mono_run = steps_run deref_def spec_as_def add_item_def push_item_def Let_def

lemmas mono_congs = steps_congs hir_expr.case_cong_weak hir_item.case_cong_weak

abbreviation (input) plain :: "hir_expr hir_node \<Rightarrow> hir_expr" where
  "plain node \<equiv> HirExpr node \<lparr>sl_file = [], sl_line = 0, sl_col = 0\<rparr>"

abbreviation (input) simple_fn :: "string \<Rightarrow> string list \<Rightarrow> (string \<times> ty) list \<Rightarrow> hir_expr hir_node \<Rightarrow> hir_fn" where
  "simple_fn name gs ps node \<equiv> \<lparr>hf_name = name, hf_generics = gs, hf_params = ps, hf_ret = mkInt, hf_body = plain node,
     hf_closureEnvTypeId = 4294967295, hf_globalSlot = 4294967295\<rparr>"


lemma scanExpr_numeral:
  "scanExpr D (numeral k) (HirExpr node loc) = lbind (scan_node D (scanExpr D (pred_numeral k)) node) (\<lambda>node'. lret (HirExpr node' loc))"
  by (simp only: numeral_eq_Suc scanExpr.simps)

lemma worklist_numeral:
  "worklist_loop rec (numeral k) =
     lbind (lget mo_worklist) (\<lambda>w. if w = [] then lret () else lseq [process_key rec (last w)] (worklist_loop rec (pred_numeral k)))"
  by (simp only: numeral_eq_Suc worklist_loop.simps)

lemmas mono_eval = mono_run monomorphize_def first_pass_def index_fns_def index_classes_def mono_start_def start_typeId_def scan_item_def substFn_def
  subst_list_def subst_opt_def scanFn_def scanExpr_numeral worklist_numeral spec_call_def callee_name_def generic_fn_def generic_class_def monoFn_def
  process_key_def spec_name_def scan_named_def write_back_def item_name_def scan_opt_def typeSigVec_def typeSig_def spec_fn_name_def mangle_def
  substClass_def scan_class_def scan_method_call_def receiver_class_def hirExprTy_def spec_owner_def spec_method_def generic_method_def monoMethod_def
  mkInt_def mkStr_def

definition one_class :: "string \<Rightarrow> def_store" where
  "one_class name = \<lparr>ds_adts = \<lambda>_. \<lparr>ad_name = [], ad_params = []\<rparr>,
     ds_classes = \<lambda>_. \<lparr>cd_name = name, cd_params = [], cd_fields = [], cd_variants = [], cd_methods = [], cd_vtable = [], cd_superName = None,
       cd_superDef = None, cd_interfaceNames = [], cd_itables = [], cd_isOpen = False, cd_isAbstract = False, cd_isData = False, cd_isEnum = False,
       cd_totalFieldSize = 9, cd_typeId = 1\<rparr>,
     ds_interfaces = \<lambda>_. \<lparr>if_name = [], if_params = [], if_methods = [], if_superNames = [], if_typeId = 0\<rparr>\<rparr>"

abbreviation (input) class_with :: "string \<Rightarrow> hir_fn list \<Rightarrow> hir_class" where
  "class_with name ms \<equiv> \<lparr>hk_name = name, hk_generics = [], hk_typeId = 1, hk_parentTypeId = 4294967295, hk_superClassArgs = [], hk_superFieldOffsets = [],
     hk_totalFieldSize = 9, hk_vtableEntryCount = 0, hk_vtableMethodNames = [], hk_itables = [], hk_ctorParams = [], hk_fields = [], hk_initBlocks = [],
     hk_methods = ms, hk_isSingleton = False, hk_globalSlot = 4294967295\<rparr>"




section \<open>Specializations that go wrong\<close>

text \<open>
  Property C32 (error).  Two instances of an overloaded generic function at type arguments that its parameter and result
  types do not tell apart get one name, and the output holds both bodies under it.
\<close>

theorem mono_specializations_collide:
  assumes "before_signature (hf_name f) = Some base" and "typeSigVec D targs \<noteq> typeSigVec D targs'"
    and "mo_specMap st (hf_name f, typeSigVec D targs) = None" "mo_specMap st (hf_name f, typeSigVec D targs') = None"
    and "substFn (makeSubst (hf_generics f) targs) (f\<lparr>hf_generics := []\<rparr>) = Some g"
    and "substFn (makeSubst (hf_generics f) targs') (f\<lparr>hf_generics := []\<rparr>) = Some g'"
    and "map snd (hf_params g') = map snd (hf_params g)" "hf_ret g' = hf_ret g"
  shows "\<exists>name st1 st2. monoFn D f targs st = Inr (name, st1) \<and> monoFn D f targs' st1 = Inr (name, st2)
    \<and> mo_output st2 = mo_output st @ [ItemFn (g\<lparr>hf_name := name\<rparr>), ItemFn (g'\<lparr>hf_name := name\<rparr>)]"
  using assms by (simp add: monoFn_def Let_def steps_run deref_def spec_as_def add_item_def spec_fn_name_def)

definition generic_size :: hir_fn where
  "generic_size = simple_fn ''size$P0$R_i'' [''T''] [] (HirLit mkInt (LitI64 8))"

theorem mono_specializations_collide_witness:
  "\<exists>name st1 st2. monoFn (one_class ''C'') generic_size [mkInt] (mono_start []) = Inr (name, st1) \<and> monoFn (one_class ''C'') generic_size [mkStr] st1 = Inr (name, st2)
     \<and> map item_name (mo_output st2) = [name, name]"
proof -
  have b: "before_signature (hf_name generic_size) = Some ''size''" by (simp add: generic_size_def)
  have s: "substFn (makeSubst (hf_generics generic_size) ts) (generic_size\<lparr>hf_generics := []\<rparr>) = Some (generic_size\<lparr>hf_generics := []\<rparr>)" for ts
    by (simp add: generic_size_def substFn_def subst_list_def mkInt_def)
  have t: "typeSigVec (one_class ''C'') [mkInt] \<noteq> typeSigVec (one_class ''C'') [mkStr]" by (simp add: typeSigVec_def typeSig_def mkInt_def mkStr_def)
  from mono_specializations_collide [OF b t _ _ s s, of "mono_start []"] show ?thesis
    by (auto simp: mono_start_def item_name_def)
qed

text \<open>
  Property C31 (error).  A generic method that is specialized while the output has no class of its owner's name is lost:
  the call is renamed, nothing is added to the output, and since the specialization counts as made, every later call of it
  gets the name and adds nothing either.
\<close>

theorem mono_method_lost:
  assumes "mo_specMap st (owner @ ''.'' @ hf_name m, typeSigVec D targs) = None"
    and "monoMethod D rec k owner cargs m targs st = Inr (name, st')"
    and "\<And>c. ItemClass c \<in> set (mo_output st') \<Longrightarrow> hk_name c \<noteq> owner"
  shows "name = mangle D (hf_name m) targs
    \<and> (\<exists>m2 m3. scanFn rec m2 (st\<lparr>mo_specMap := (mo_specMap st)((owner @ ''.'' @ hf_name m, typeSigVec D targs) \<mapsto> name)\<rparr>) = Inr (m3, st'))
    \<and> (\<forall>st2 targs'. mo_specMap st2 (owner @ ''.'' @ hf_name m, typeSigVec D targs') = Some name \<longrightarrow>
         monoMethod D rec k owner cargs m targs' st2 = Inr (name, st2))"
proof -
  have same: "add_method owner m3 items = items" if "\<And>c. ItemClass c \<in> set (add_method owner m3 items) \<Longrightarrow> hk_name c \<noteq> owner" for m3 items
    using that
  proof (induction owner m3 items rule: add_method.induct)
    case (3 owner m c items)
    then show ?case by (cases "hk_name c = owner") force+
  qed simp_all
  obtain m2 m3 st3 where 1: "scanFn rec m2 (st\<lparr>mo_specMap := (mo_specMap st)((owner @ ''.'' @ hf_name m, typeSigVec D targs) \<mapsto> mangle D (hf_name m) targs)\<rparr>) = Inr (m3, st3)"
    and 2: "name = mangle D (hf_name m) targs" "st' = st3\<lparr>mo_output := add_method owner m3 (mo_output st3)\<rparr>"
    using assms(1,2) by (auto simp: monoMethod_def Let_def steps_run spec_as_def deref_def split: option.splits sum.splits if_splits)
  have "add_method owner m3 (mo_output st3) = mo_output st3" by (rule same) (use assms(3) 2(2) in simp)
  then have "st' = st3" using 2(2) by simp
  with 1 2(1) show ?thesis by (auto simp: monoMethod_def Let_def steps_run)
qed

definition generic_id :: hir_fn where
  "generic_id = simple_fn ''id'' [''T''] [] (HirLit mkInt (LitI64 8))"

theorem mono_method_lost_witness:
  "\<exists>st'. monoMethod (one_class ''C'') (scanExpr (one_class ''C'') 3) (class_with ''C'' [generic_id]) ''C'' [] generic_id [mkInt] (mono_start []) = Inr (''id$i'', st')
     \<and> (\<forall>st2. mo_specMap st2 (''C.id'', typeSigVec (one_class ''C'') [mkInt]) = Some ''id$i'' \<longrightarrow>
          monoMethod (one_class ''C'') (scanExpr (one_class ''C'') 3) (class_with ''C'' [generic_id]) ''C'' [] generic_id [mkInt] st2 = Inr (''id$i'', st2))"
proof -
  let ?m = "monoMethod (one_class ''C'') (scanExpr (one_class ''C'') 3) (class_with ''C'' [generic_id]) ''C'' [] generic_id [mkInt]"
  obtain st' where r: "?m (mono_start []) = Inr (''id$i'', st')" and o: "mo_output st' = []"
    by (simp add: generic_id_def mono_eval del: lseq.simps cong: mono_congs)
  have "mo_specMap (mono_start []) (''C'' @ ''.'' @ hf_name generic_id, typeSigVec (one_class ''C'') [mkInt]) = None" by (simp add: mono_start_def)
  from mono_method_lost [OF this r] o r show ?thesis by (auto simp: generic_id_def)
qed

section \<open>Two substitutions\<close>

text \<open>Types without raw pointers and algebraic data types, and types without the parameter names of function types.\<close>

fun no_raw :: "ty \<Rightarrow> bool" and no_raw_node :: "ty_node \<Rightarrow> bool" where
  "no_raw TyNullPtr = True"
| "no_raw (Ty n _) = no_raw_node n"
| "no_raw_node (TyFn ps r _ _ _) = (list_all no_raw ps \<and> no_raw r)"
| "no_raw_node (TyTuple es) = list_all no_raw es"
| "no_raw_node (TyArray e _) = no_raw e"
| "no_raw_node (TySlice e) = no_raw e"
| "no_raw_node (TyRef _ e) = no_raw e"
| "no_raw_node (TyRawPtr _ _) = False"
| "no_raw_node (TyAdt _ _) = False"
| "no_raw_node (TyClass _ as) = list_all no_raw as"
| "no_raw_node (TyInterface _ as) = list_all no_raw as"
| "no_raw_node _ = True"

fun bare :: "ty \<Rightarrow> ty" and bare_node :: "ty_node \<Rightarrow> ty_node" where
  "bare TyNullPtr = TyNullPtr"
| "bare (Ty n nul) = Ty (bare_node n) nul"
| "bare_node (TyFn ps r _ _ _) = TyFn (map bare ps) (bare r) [] None None"
| "bare_node (TyTuple es) = TyTuple (map bare es)"
| "bare_node (TyArray e l) = TyArray (bare e) l"
| "bare_node (TySlice e) = TySlice (bare e)"
| "bare_node (TyRef m e) = TyRef m (bare e)"
| "bare_node (TyRawPtr m e) = TyRawPtr m (bare e)"
| "bare_node (TyAdt d as) = TyAdt d (map bare as)"
| "bare_node (TyClass d as) = TyClass d (map bare as)"
| "bare_node (TyInterface d as) = TyInterface d (map bare as)"
| "bare_node n = n"

lemma all_some_bare:
  "(\<And>t. t \<in> set ts \<Longrightarrow> map_option bare (f t) = map_option bare (g t)) \<Longrightarrow>
   map_option (map bare) (all_some (map f ts)) = map_option (map bare) (all_some (map g ts))"
proof (induction ts)
  case (Cons t ts)
  from Cons.prems [of t] Cons.IH Cons.prems show ?case
    by (cases "f t"; cases "g t"; cases "all_some (map f ts)"; cases "all_some (map g ts)") simp_all
qed simp

lemma args_bare:
  assumes "\<And>t. t \<in> set es \<Longrightarrow> map_option bare (substTy subst t) = map_option bare (substituteType subst t)"
    and "substTy_node subst n = map_option (\<lambda>as. Ty (C as) False) (all_some (map (substTy subst) es))"
    and "subst_node subst nul n = map_option (\<lambda>as. Ty (C as) False) (all_some (map (substituteType subst) es))"
    and "\<And>as. bare_node (C as) = C (map bare as)"
  shows "map_option bare (substTy subst (Ty n nul)) = map_option bare (substituteType subst (Ty n nul))"
  using all_some_bare [of es "substTy subst" "substituteType subst"] assms
  by (cases "all_some (map (substTy subst) es)"; cases "all_some (map (substituteType subst) es)") simp_all

lemma substTy_node_agrees:
  "no_raw t \<Longrightarrow> map_option bare (substTy subst t) = map_option bare (substituteType subst t)"
  "no_raw_node n \<Longrightarrow> map_option bare (substTy subst (Ty n nul)) = map_option bare (substituteType subst (Ty n nul))"
proof (induction t and n arbitrary: and nul)
  case (TyFn ps r x y z)
  then have ps: "map_option (map bare) (all_some (map (substTy subst) ps)) = map_option (map bare) (all_some (map (substituteType subst) ps))"
    by (intro all_some_bare) (auto simp: list_all_iff)
  from TyFn have r: "map_option bare (substTy subst r) = map_option bare (substituteType subst r)" by simp
  show ?case using ps r
    by (cases "all_some (map (substTy subst) ps)"; cases "all_some (map (substituteType subst) ps)"; cases "substTy subst r"; cases "substituteType subst r") simp_all
next
  case (TyTuple es)
  then show ?case by (intro args_bare) (auto simp: list_all_iff)
next
  case (TyClass d es)
  then show ?case by (intro args_bare) (auto simp: list_all_iff)
next
  case (TyInterface d es)
  then show ?case by (intro args_bare) (auto simp: list_all_iff)
next
  case (TyArray e l)
  then show ?case by (cases "substTy subst e"; cases "substituteType subst e") simp_all
next
  case (TySlice e)
  then show ?case by (cases "substTy subst e"; cases "substituteType subst e") simp_all
next
  case (TyRef m e)
  then show ?case by (cases "substTy subst e"; cases "substituteType subst e") simp_all
next
  case (TyParam x i)
  show ?case
  proof (cases "subst x")
    case (Some t)
    then show ?thesis by (cases t) (simp_all add: makeNullable_def)
  qed simp
qed simp_all

definition fn_annotations :: "ty \<Rightarrow> (string list \<times> nat option \<times> nat option) option" where
  "fn_annotations t = (case t of Ty (TyFn ps r names vararg kwargs) nul \<Rightarrow> Some (names, vararg, kwargs) | _ \<Rightarrow> None)"

text \<open>
  Property C7 (equivalence).  On types without raw pointers and algebraic data types, the substitution of the
  monomorphizer is that of the type checker up to what function types carry beside their parameter and result types: the
  parameter names and the positions of the variable and keyword arguments.  These the monomorphizer drops from every function
  type, while the type checker keeps them; and a raw pointer it leaves as it is.
\<close>

theorem substTy_agrees:
  assumes "no_raw t"
  shows "map_option bare (substTy subst t) = map_option bare (substituteType subst t)
    \<and> (\<forall>ps r names vararg kwargs u. substTy subst (Ty (TyFn ps r names vararg kwargs) False) = Some u \<longrightarrow> fn_annotations u = Some ([], None, None))
    \<and> (\<forall>ps r names vararg kwargs u. substituteType subst (Ty (TyFn ps r names vararg kwargs) False) = Some u \<longrightarrow> fn_annotations u = Some (names, vararg, kwargs))
    \<and> substTy subst (Ty (TyRawPtr m t) False) = Some (Ty (TyRawPtr m t) False)"
proof (intro conjI allI impI)
  show "map_option bare (substTy subst t) = map_option bare (substituteType subst t)" by (rule substTy_node_agrees(1) [OF assms])
next
  fix ps r names vararg kwargs u
  show "fn_annotations u = Some ([], None, None)" if "substTy subst (Ty (TyFn ps r names vararg kwargs) False) = Some u"
    using that by (auto simp: fn_annotations_def split: option.splits)
  show "fn_annotations u = Some (names, vararg, kwargs)" if "substituteType subst (Ty (TyFn ps r names vararg kwargs) False) = Some u"
    using that by (auto simp: fn_annotations_def split: option.splits)
qed simp

theorem substTy_agrees_witness:
  "map_option bare (substTy [''T'' \<mapsto> mkInt] (Ty (TyTuple [Ty (TyParam ''T'' 0) True]) False)) = Some (Ty (TyTuple [Ty (TyInt W32) True]) False) \<and>
   map_option fn_annotations (substTy [''T'' \<mapsto> mkInt] (Ty (TyFn [mkInt] mkInt [''rest''] (Some 0) None) False)) = Some (Some ([], None, None)) \<and>
   map_option fn_annotations (substituteType [''T'' \<mapsto> mkInt] (Ty (TyFn [mkInt] mkInt [''rest''] (Some 0) None) False)) = Some (Some ([''rest''], Some 0, None))"
proof -
  note s = substTy_agrees [of "Ty (TyTuple [Ty (TyParam ''T'' 0) True]) False" "[''T'' \<mapsto> mkInt]"]
  have "map_option bare (substTy [''T'' \<mapsto> mkInt] (Ty (TyTuple [Ty (TyParam ''T'' 0) True]) False)) = Some (Ty (TyTuple [Ty (TyInt W32) True]) False)"
    using conjunct1 [OF s] by (simp add: mkInt_def makeNullable_def)
  then show ?thesis by (simp add: mkInt_def fn_annotations_def)
qed

end
