(* ===== verification/Spec2Isabelle.thy ===== *)
theory Spec2Isabelle
  imports Lx_Disasm Lx_Arc Lx_VMValues Lx_LexerSpec Lx_Spsc Lx_RootBag Lx_TableEquiv Lx_AarcSafety Lx_TySpec Lx_MIRSpec Lx_LowerBodies Lx_LowerFuel Lx_MonoSpec
begin

text \<open>
  This library verifies the Loxis language: its scanner, the types and the bytecode compiler of its
  front end, its bytecode format and virtual machine, and the memory management under the machine.

  \<^bold>\<open>The program.\<close> A source text is scanned into tokens (\<open>v2/frontend/Lexer.cpp\<close>), parsed and type checked,
  turned into HIR, lowered to MIR (\<open>v2/backend/Lowering.cpp\<close>) and compiled to a chunk of bytecode
  (\<open>v2/backend/MIRCompiler.cpp\<close>, \<open>backend/Chunk.hpp\<close>). The virtual machine (\<open>vm/VM.cpp\<close>) decodes the chunk
  once (\<open>backend/Disasm.cpp\<close>) and runs the decoded instructions on registers, globals and a heap of
  handles (\<open>vm/Heap.hpp\<close>). Each change of a reference goes through a barrier of the selected memory
  manager (\<open>vm/GC.hpp\<close>): none, reference counting (\<open>vm/GC.cpp\<close>), or AARC, which adds a cycle collector built
  from the tables, queues and component search under \<open>src/aarc\<close>.

  \<^bold>\<open>Theories and what they model.\<close>
  \<^item> \<open>Lx_Prelude\<close>: machine integers as integers in their range, byte encodings, numerals as text, results of
    functions that throw; the lemma collections the components share.
  \<^item> \<open>Lx_Bytecode\<close>: opcodes, operand tags, runtime type descriptors and the chunk with its emitters and pools
    (\<open>Chunk.hpp\<close>, \<open>ir/Type.hpp\<close>). \<open>Lx_Disasm\<close>: the decoder and the disassembler; the functions of the source that
    throw return a sum.
  \<^item> \<open>Lx_Heap\<close>: the handle heap, its arena as a list of bytes, slots, free lists. \<open>Lx_GC\<close>: the interface
    of a memory manager as a record of barriers, the locale \<open>gc_contract\<close> with the laws the machine relies on,
    and the manager that never reclaims. \<open>Lx_Arc\<close>: reference counting.
  \<^item> \<open>Lx_Machine\<close>, \<open>Lx_Syscall\<close>, \<open>Lx_Exec\<close>: the state of the machine, calls, exceptions, roots; every system call;
    every instruction, the dispatch loop and the entry points. Floating point, files, clock and sockets are fields of an
    environment parameter. An outcome is a value, a thrown exception, a panic, a heap error or undefined behaviour of
    C++, so that every branch of the code is a branch of the model.
  \<^item> \<open>Lx_Token\<close>, \<open>Lx_Lexer\<close>: tokens, positions, diagnostics and the scanner.
  \<^item> \<open>Lx_Spsc\<close>: the queue between two threads, as a step relation over all their interleavings.
    \<open>Lx_RootBag\<close>: the open-addressing multiset of roots. \<open>Lx_RefTable\<close>: the two builds of the reference
    table, with linked edges and with counts only.
  \<^item> \<open>Lx_Tarjan\<close>, \<open>Lx_Cycle\<close>: the theory of an iterative search for strongly connected components, and the detector of the
    source with its scratch arrays. \<open>Lx_Engine\<close>: the event processing, zero sweep and cycle pass of the collector.
    \<open>Lx_LocalAarc\<close>: the AARC memory manager with its adaptive threshold.
  \<^item> \<open>Lx_Ty\<close>: the types of the compiler, mangling and substitution. \<open>Lx_HIR\<close>: HIR.
    \<open>Lx_Steps\<close>: steps on a state that can fail. \<open>Lx_Mono\<close>: the monomorphizer. \<open>Lx_Lower\<close>: the lowering of HIR to MIR, as steps on a record of the members of its class. \<open>Lx_MIR\<close>: MIR and the
    bytecode compiler.

  \<^bold>\<open>What the lemmas show.\<close>
  \<^item> Memory safety: \<open>Lx_VMSafety\<close> proves in the locale of a memory manager that every instruction keeps
    counts, roots and cells consistent; interpretations for the three managers (\<open>Lx_GC\<close>, \<open>Lx_Arc\<close>, \<open>Lx_AarcContract\<close>) give
    \<open>vm_nogc_safe\<close>, \<open>vm_arc_safe\<close> and \<open>vm_aarc_safe\<close>. They are about guarded runs: every executed instruction
    satisfies \<open>instr_pre\<close>, that is an allocation has room and a size that does not wrap in 32 bits, a heap access
    has an aligned offset, and fewer than \<open>2^31 - 10000\<close> registers are spilled. The code does not check this;
    \<open>misaligned_store_forges\<close> (\<open>Lx_VMValues\<close>) and \<open>alloc_size_wraps\<close> (\<open>Lx_Heap\<close>) show that it is needed. The theorems
    on the heap have the part of it on allocations, \<open>alloc_room\<close>.
  \<^item> Collection: \<open>Lx_CycleSpec\<close> proves the component search correct and terminating, \<open>Lx_EngineSpec\<close> and \<open>Lx_CycleGC\<close> that
    a component is reclaimed only when nothing outside refers to it, \<open>Lx_AarcSafety\<close> that barriers return and scans are not
    postponed without bound.
  \<^item> Control: calls and returns, exceptions and the dispatch loop as a refinement of a step relation (\<open>Lx_VMControl\<close>);
    what teardown leaves counted. Values (\<open>Lx_VMValues\<close>): division, conversions, search in strings, type tests; an exhausted
    slot table ends the program.
  \<^item> Formats: decoding what was emitted, serialized types, interned pools, patches; the scanner loses no text,
    reads back what is printed, and its positions are those of the text but for the shift that a byte order mark
    gives the first line (\<open>Lx_LexerSpec\<close>).
  \<^item> Data structures: the queue is a queue under every interleaving, the bag a multiset with a bounded table, the two
    tables equivalent on the calls of the default collector (\<open>Lx_TableEquiv\<close>).
  \<^item> Compiler: symbols tell names and signatures apart (\<open>Lx_TySpec\<close>). \<open>Lx_MonoRel\<close> is the specification of
    monomorphization: when an expression is another with the sites that name a generic definition renamed to
    specializations of it, and which items are copies; \<open>Lx_MonoSpec\<close> proves that the output consists of such copies,
    has every specialization its sites name and no type parameters on its items, compares the two substitutions, and shows how
    methods and instances of overloads go wrong. The lowering yields closed bodies (\<open>Lx_LowerSpec\<close> proves
    it for each construct in the locale of the recursion, \<open>Lx_LowerBodies\<close> for the module) and ends (\<open>Lx_LowerFuel\<close>); what is
    compiled is well-formed code with resolved addresses (\<open>Lx_MIRSpec\<close>).

  \<^bold>\<open>Bounds.\<close> Loops that the source bounds are structural recursions or carry a measure. The loops that may not end
  (reclamation, the walk over parent types, the collector) are partial functions into \<open>option\<close>, and where a result
  is claimed it is proved that they return. The dispatch loop recurses on the instruction budget of the source. The lowering
  runs on the size of its expression as fuel, which \<open>lower_enough_fuel\<close> proves sufficient. The
  monomorphizer need not end on polymorphic recursion: its theorem is about every module it returns, for any fuel. Integers are
  kept in the range of their C++ type and wrap as in the source; offsets of code are 32 bits, so the theorem on compiled code
  assumes a chunk below 4 GiB.

  \<^bold>\<open>Not modelled.\<close> The parser, the type checker, the HIR builder; the driver and the module loader (file system and command line); dumps and traces; the
  test tools; the multi-threaded runtime of \<open>src/aarc/arc/runtime.hpp\<close>, which the virtual machine does not use.
\<close>

end
